(* ===== verification/Prelude.thy ===== *)
theory Prelude
  imports Main "HOL-Library.Word"
begin

text \<open>
  Shared vocabulary of the development: the machine types of the Cortex-M3 target, the
  collections the component theories add their facts to, and generic lemmas on lists and
  words that more than one component uses.
\<close>

unbundle bit_operations_syntax

subsection \<open>Machine types\<close>

text \<open>On the LPC1768 \<open>long\<close>, \<open>size_t\<close> and pointers have 32 bits (\<open>freertos/port/portmacro.h\<close>).\<close>

type_synonym u8 = "8 word"
type_synonym u16 = "16 word"
type_synonym u32 = "32 word"

subsection \<open>Collections\<close>

named_theorems list_laws \<open>what the list operations do to contents, containers and values\<close>
named_theorems frame_laws \<open>fields an operation leaves alone\<close>

subsection \<open>Lists\<close>

lemma last_Cons_append [simp]: "last (p # as @ [a]) = a"
  by (induction as) auto

lemma distinct_remove1_set [simp]: "distinct xs \<Longrightarrow> set (remove1 x xs) = set xs - {x}"
  by (rule set_remove1_eq)

lemma takeWhile_dropWhile_sorted:
  assumes "sorted (map f xs)"
  shows "sorted (map f (takeWhile (\<lambda>y. f y \<le> f x) xs @ x # dropWhile (\<lambda>y. f y \<le> f x) xs))"
  using assms
proof (induction xs)
  case Nil
  then show ?case by simp
next
  case (Cons y ys)
  show ?case
  proof (cases "f y \<le> f x")
    case True
    have "\<And>z. z \<in> set (takeWhile (\<lambda>y. f y \<le> f x) ys @ dropWhile (\<lambda>y. f y \<le> f x) ys) \<Longrightarrow> f y \<le> f z"
      using Cons.prems by (simp only: takeWhile_dropWhile_id) auto
    with True Cons show ?thesis by (auto dest: set_takeWhileD set_dropWhileD)
  next
    case False
    with Cons.prems show ?thesis by (auto simp: less_imp_le intro: order_trans)
  qed
qed

lemma sorted_dropWhile_greater:
  "sorted (map f xs) \<Longrightarrow> y \<in> set (dropWhile (\<lambda>y. f y \<le> v) xs) \<Longrightarrow> v < (f y :: 'a::linorder)"
  by (induction xs) (auto split: if_splits intro: less_le_trans)

lemma takeWhile_all [simp]: "takeWhile (\<lambda>_. True) xs = xs" "dropWhile (\<lambda>_. True) xs = []"
  by (induction xs) auto

lemma remove1_split:
  assumes "distinct xs" and "x \<in> set xs"
  obtains as bs where "xs = as @ x # bs" and "x \<notin> set as" and "x \<notin> set bs"
    and "remove1 x xs = as @ bs"
proof -
  from assms(2) obtain as bs where xs: "xs = as @ x # bs" by (auto simp: in_set_conv_decomp)
  moreover from xs assms(1) have "x \<notin> set as" "x \<notin> set bs" by auto
  moreover from this xs have "remove1 x xs = as @ bs" by (simp add: remove1_append)
  ultimately show ?thesis by (rule that)
qed

lemma sorted_map_remove1: "sorted (map f xs) \<Longrightarrow> sorted (map f (remove1 x xs))"
proof (induction xs)
  case Nil
  then show ?case by simp
next
  case (Cons y ys)
  then show ?case using set_remove1_subset [of x ys] by auto
qed

lemma map_nth_rounds:
  "map (\<lambda>k. f (ys ! (k mod length ys))) [0..<r * length ys] = concat (replicate r (map f ys))"
proof (induction r)
  case 0
  then show ?case by simp
next
  case (Suc r)
  have "map (\<lambda>k. f (ys ! (k mod length ys))) [r * length ys..<r * length ys + length ys] = map f ys"
    by (rule nth_equalityI) auto
  moreover have "concat (replicate (Suc r) (map f ys)) = concat (replicate r (map f ys)) @ map f ys"
    by (simp only: replicate_Suc replicate_append_same [symmetric] concat_append) simp
  moreover have "[0..<Suc r * length ys]
      = [0..<r * length ys] @ [r * length ys..<r * length ys + length ys]"
    by (metis upt_add_eq_append zero_le mult_Suc add.commute)
  ultimately show ?case using Suc by (simp only: map_append)
qed

subsection \<open>Words\<close>

lemma unat_of_nat_u32: "n < 2 ^ 32 \<Longrightarrow> unat (of_nat n :: u32) = n"
  by (simp add: unat_of_nat)

lemma unat_less_u32: "unat (w :: u32) < 2 ^ 32"
proof -
  have "unat w < 2 ^ LENGTH(32)" by (rule unsigned_less)
  then show ?thesis by simp
qed

lemma unat_minus_1_u32: "unat (- 1 :: u32) = 2 ^ 32 - 1"
  by (simp add: unsigned_minus_1_eq_mask mask_eq_exp_minus_1)

lemma unat_add_u32: "unat a + unat b < 2 ^ 32 \<Longrightarrow> unat (a + b :: u32) = unat a + unat b"
  by (simp add: unat_word_ariths)

lemma unat_sub_u32: "b \<le> a \<Longrightarrow> unat (a - b :: u32) = unat a - unat b"
  by (rule unat_sub)

lemma of_nat_eq_0_u32: "n < 2 ^ 32 \<Longrightarrow> (of_nat n :: u32) = 0 \<longleftrightarrow> n = 0"
  using unat_of_nat_u32 [of n] by auto

lemma word_less_succ: "w + 1 \<noteq> 0 \<Longrightarrow> w < (w + 1 :: u32)"
  by (metis add.commute lessI unatSuc word_less_nat_alt)

lemma word_le_max [simp]: "(w :: 'a::len word) \<le> - 1"
  by (simp add: word_order.extremum)

lemma not_le_word_less_max: "w \<noteq> (- 1 :: 'a::len word) \<Longrightarrow> \<not> - 1 \<le> w"
  by (simp add: word_order.extremum_unique)

subsection \<open>Alignment and the top bit\<close>

lemma and_7_iff: "(a :: u32) AND 7 = 0 \<longleftrightarrow> 8 dvd unat a"
proof -
  have "unat (a AND 7) = unat a AND unat (7 :: u32)" by (simp only: unsigned_and_eq)
  also have "\<dots> = unat a AND mask 3" by (simp add: mask_eq_exp_minus_1)
  also have "\<dots> = unat a mod 8" by (simp add: take_bit_eq_mask [symmetric] take_bit_eq_mod)
  finally show ?thesis by (metis dvd_eq_mod_eq_0 unat_eq_0 unsigned_0)
qed

lemma bit_top: "bit (push_bit 31 1 :: u32) n \<longleftrightarrow> n = 31"
  by (auto simp: bit_push_bit_iff bit_1_iff simp del: push_bit_of_1)

lemma and_top_iff: "w AND push_bit 31 1 = 0 \<longleftrightarrow> \<not> bit (w :: u32) 31"
proof
  assume "w AND push_bit 31 1 = 0"
  then have "\<not> bit (w AND push_bit 31 1) 31" by simp
  then show "\<not> bit w 31" by (simp only: bit_and_iff bit_top simp_thms)
next
  assume "\<not> bit w 31"
  then have "\<not> bit (w AND push_bit 31 1) n" for n by (simp only: bit_and_iff bit_top) blast
  then show "w AND push_bit 31 1 = 0" by (intro bit_word_eqI) simp
qed

lemma top_bit_less: "\<not> bit (w :: u32) 31 \<longleftrightarrow> w < 2 ^ 31"
proof -
  have "bit w 31 \<longleftrightarrow> odd (unat w div 2 ^ 31)"
    using bit_iff_odd [of "unat w" 31] by (simp add: bit_unsigned_iff)
  moreover have "unat w div 2 ^ 31 < 2" using unat_less_u32 [of w] by (simp add: less_mult_imp_div_less)
  moreover have "unat w div 2 ^ 31 = 0 \<longleftrightarrow> unat w < 2 ^ 31" by (simp add: div_eq_0_iff)
  ultimately have "bit w 31 \<longleftrightarrow> \<not> unat w < 2 ^ 31" by (metis One_nat_def even_zero less_2_cases odd_one)
  then show ?thesis by (simp add: word_less_nat_alt)
qed

lemma top_bit_set: "(w OR push_bit 31 1) AND push_bit 31 1 \<noteq> (0 :: u32)"
  by (simp only: and_top_iff bit_or_iff bit_top) simp

lemma top_bit_clear: "\<not> bit (w :: u32) 31 \<Longrightarrow> (w OR push_bit 31 1) AND NOT (push_bit 31 1) = w"
  by (rule bit_word_eqI) (auto simp only: bit_and_iff bit_or_iff bit_not_iff bit_top possible_bit_word)

end
