(* ===== verification/FreeRTOS_List.thy ===== *)
theory FreeRTOS_List
  imports Prelude
begin

text \<open>
  The intrusive doubly linked lists of \<open>freertos/list.c\<close> and \<open>freertos/include/list.h\<close>,
  first as the code has them (an explicit store of \<open>List_t\<close> and \<open>ListItem_t\<close> structures linked
  by pointers, with the end marker embedded in the list), then as an abstract store of
  item sequences, and the refinement between the two.
\<close>

section \<open>The pointer structures\<close>

text \<open>
  A \<open>ListItem_t *\<close> points to an item or, by the cast the code makes, to the \<open>xListEnd\<close>
  marker of a list. \<open>'l\<close> names the lists and \<open>'i\<close> the items (their addresses).
\<close>

datatype ('l, 'i) node = EndOf 'l | Item 'i

record ('l, 'i, 'o) xLIST_ITEM =
  xItemValue :: u32
  pxNext :: "('l, 'i) node"
  pxPrevious :: "('l, 'i) node"
  pvOwner :: 'o
  pxContainer :: "'l option"

record ('l, 'i) xMINI_LIST_ITEM =
  mini_xItemValue :: u32
  mini_pxNext :: "('l, 'i) node"
  mini_pxPrevious :: "('l, 'i) node"

record ('l, 'i) xLIST =
  uxNumberOfItems :: u32
  pxIndex :: "('l, 'i) node"
  xListEnd :: "('l, 'i) xMINI_LIST_ITEM"

record ('l, 'i, 'o) list_store =
  st_lists :: "'l \<Rightarrow> ('l, 'i) xLIST"
  st_items :: "'i \<Rightarrow> ('l, 'i, 'o) xLIST_ITEM"

definition portMAX_DELAY :: u32 where
  "portMAX_DELAY = 0xffffffff"

lemma le_portMAX_DELAY [simp]: "w \<le> portMAX_DELAY"
proof -
  have m: "portMAX_DELAY = - 1" by (simp add: portMAX_DELAY_def)
  show ?thesis unfolding m by (rule word_le_max)
qed

lemma portMAX_DELAY_le [simp]: "portMAX_DELAY \<le> w \<longleftrightarrow> w = portMAX_DELAY"
  by (metis le_portMAX_DELAY order.antisym order.refl)

text \<open>Reading and writing a field through a \<open>ListItem_t *\<close>.\<close>

fun get_next :: "('l, 'i, 'o) list_store \<Rightarrow> ('l, 'i) node \<Rightarrow> ('l, 'i) node" where
  "get_next s (EndOf l) = mini_pxNext (xListEnd (st_lists s l))"
| "get_next s (Item i) = pxNext (st_items s i)"

fun get_prev :: "('l, 'i, 'o) list_store \<Rightarrow> ('l, 'i) node \<Rightarrow> ('l, 'i) node" where
  "get_prev s (EndOf l) = mini_pxPrevious (xListEnd (st_lists s l))"
| "get_prev s (Item i) = pxPrevious (st_items s i)"

fun get_value :: "('l, 'i, 'o) list_store \<Rightarrow> ('l, 'i) node \<Rightarrow> u32" where
  "get_value s (EndOf l) = mini_xItemValue (xListEnd (st_lists s l))"
| "get_value s (Item i) = xItemValue (st_items s i)"

definition upd_list ::
  "'l \<Rightarrow> (('l, 'i) xLIST \<Rightarrow> ('l, 'i) xLIST) \<Rightarrow> ('l, 'i, 'o) list_store \<Rightarrow> ('l, 'i, 'o) list_store" where
  "upd_list l f s = s\<lparr>st_lists := (st_lists s)(l := f (st_lists s l))\<rparr>"

definition upd_item ::
  "'i \<Rightarrow> (('l, 'i, 'o) xLIST_ITEM \<Rightarrow> ('l, 'i, 'o) xLIST_ITEM) \<Rightarrow> ('l, 'i, 'o) list_store
    \<Rightarrow> ('l, 'i, 'o) list_store" where
  "upd_item i f s = s\<lparr>st_items := (st_items s)(i := f (st_items s i))\<rparr>"

fun set_next ::
  "('l, 'i) node \<Rightarrow> ('l, 'i) node \<Rightarrow> ('l, 'i, 'o) list_store \<Rightarrow> ('l, 'i, 'o) list_store" where
  "set_next (EndOf l) n s = upd_list l (xListEnd_update (mini_pxNext_update (\<lambda>_. n))) s"
| "set_next (Item i) n s = upd_item i (pxNext_update (\<lambda>_. n)) s"

fun set_prev ::
  "('l, 'i) node \<Rightarrow> ('l, 'i) node \<Rightarrow> ('l, 'i, 'o) list_store \<Rightarrow> ('l, 'i, 'o) list_store" where
  "set_prev (EndOf l) n s = upd_list l (xListEnd_update (mini_pxPrevious_update (\<lambda>_. n))) s"
| "set_prev (Item i) n s = upd_item i (pxPrevious_update (\<lambda>_. n)) s"

subsection \<open>The operations of list.c\<close>

definition vListInitialise :: "'l \<Rightarrow> ('l, 'i, 'o) list_store \<Rightarrow> ('l, 'i, 'o) list_store" where
  "vListInitialise l s = upd_list l (\<lambda>_. \<lparr>uxNumberOfItems = 0, pxIndex = EndOf l,
     xListEnd = \<lparr>mini_xItemValue = portMAX_DELAY, mini_pxNext = EndOf l,
                 mini_pxPrevious = EndOf l\<rparr>\<rparr>) s"

definition vListInitialiseItem :: "'i \<Rightarrow> ('l, 'i, 'o) list_store \<Rightarrow> ('l, 'i, 'o) list_store" where
  "vListInitialiseItem i s = upd_item i (pxContainer_update (\<lambda>_. None)) s"

definition vListInsertEnd :: "'l \<Rightarrow> 'i \<Rightarrow> ('l, 'i, 'o) list_store \<Rightarrow> ('l, 'i, 'o) list_store" where
  "vListInsertEnd l i s =
     (let idx = pxIndex (st_lists s l);
          s = set_next (Item i) idx s;
          s = set_prev (Item i) (get_prev s idx) s;
          s = set_next (get_prev s idx) (Item i) s;
          s = set_prev idx (Item i) s;
          s = upd_item i (pxContainer_update (\<lambda>_. Some l)) s
      in upd_list l (uxNumberOfItems_update (\<lambda>n. n + 1)) s)"

text \<open>
  The \<open>for\<close> loop of \<open>vListInsert\<close>: it does not end on a store whose values are all at most the
  inserted one, so not returning is \<open>None\<close>.
\<close>

partial_function (option) insert_position ::
  "('l, 'i, 'o) list_store \<Rightarrow> u32 \<Rightarrow> ('l, 'i) node \<Rightarrow> ('l, 'i) node option" where
  "insert_position s v p =
     (if get_value s (get_next s p) \<le> v then insert_position s v (get_next s p) else Some p)"

definition vListInsert_at ::
  "'l \<Rightarrow> 'i \<Rightarrow> ('l, 'i) node \<Rightarrow> ('l, 'i, 'o) list_store \<Rightarrow> ('l, 'i, 'o) list_store" where
  "vListInsert_at l i it s =
     (let s = set_next (Item i) (get_next s it) s;
          s = set_prev (get_next s (Item i)) (Item i) s;
          s = set_prev (Item i) it s;
          s = set_next it (Item i) s;
          s = upd_item i (pxContainer_update (\<lambda>_. Some l)) s
      in upd_list l (uxNumberOfItems_update (\<lambda>n. n + 1)) s)"

definition vListInsert ::
  "'l \<Rightarrow> 'i \<Rightarrow> ('l, 'i, 'o) list_store \<Rightarrow> ('l, 'i, 'o) list_store option" where
  "vListInsert l i s =
     (let v = xItemValue (st_items s i) in
      if v = portMAX_DELAY then Some (vListInsert_at l i (get_prev s (EndOf l)) s)
      else map_option (\<lambda>it. vListInsert_at l i it s) (insert_position s v (EndOf l)))"

text \<open>
  \<open>uxListRemove\<close> finds the list in the item; with no container the code dereferences NULL,
  which is \<open>None\<close> here. It returns the number of items left.
\<close>

definition uxListRemove ::
  "'i \<Rightarrow> ('l, 'i, 'o) list_store \<Rightarrow> (u32 \<times> ('l, 'i, 'o) list_store) option" where
  "uxListRemove i s =
     (case pxContainer (st_items s i) of
        None \<Rightarrow> None
      | Some l \<Rightarrow>
          (let s = set_prev (get_next s (Item i)) (get_prev s (Item i)) s;
               s = set_next (get_prev s (Item i)) (get_next s (Item i)) s;
               s = (if pxIndex (st_lists s l) = Item i
                    then upd_list l (pxIndex_update (\<lambda>_. get_prev s (Item i))) s else s);
               s = upd_item i (pxContainer_update (\<lambda>_. None)) s;
               s = upd_list l (uxNumberOfItems_update (\<lambda>n. n - 1)) s
           in Some (uxNumberOfItems (st_lists s l), s)))"

text \<open>The macros of \<open>list.h\<close>. The owner of the end marker is not a field of it: \<open>None\<close>.\<close>

definition listLIST_IS_EMPTY :: "'l \<Rightarrow> ('l, 'i, 'o) list_store \<Rightarrow> bool" where
  "listLIST_IS_EMPTY l s \<longleftrightarrow> uxNumberOfItems (st_lists s l) = 0"

fun node_owner :: "('l, 'i, 'o) list_store \<Rightarrow> ('l, 'i) node \<Rightarrow> 'o option" where
  "node_owner s (EndOf l) = None"
| "node_owner s (Item i) = Some (pvOwner (st_items s i))"

definition listGET_OWNER_OF_NEXT_ENTRY ::
  "'l \<Rightarrow> ('l, 'i, 'o) list_store \<Rightarrow> 'o option \<times> ('l, 'i, 'o) list_store" where
  "listGET_OWNER_OF_NEXT_ENTRY l s =
     (let s = upd_list l (pxIndex_update (\<lambda>_. get_next s (pxIndex (st_lists s l)))) s;
          s = (if pxIndex (st_lists s l) = EndOf l
               then upd_list l (pxIndex_update (\<lambda>_. get_next s (pxIndex (st_lists s l)))) s else s)
      in (node_owner s (pxIndex (st_lists s l)), s))"

definition listGET_OWNER_OF_HEAD_ENTRY :: "'l \<Rightarrow> ('l, 'i, 'o) list_store \<Rightarrow> 'o option" where
  "listGET_OWNER_OF_HEAD_ENTRY l s = node_owner s (get_next s (EndOf l))"

definition listGET_ITEM_VALUE_OF_HEAD_ENTRY :: "'l \<Rightarrow> ('l, 'i, 'o) list_store \<Rightarrow> u32" where
  "listGET_ITEM_VALUE_OF_HEAD_ENTRY l s = get_value s (get_next s (EndOf l))"

definition listSET_LIST_ITEM_VALUE :: "'i \<Rightarrow> u32 \<Rightarrow> ('l, 'i, 'o) list_store \<Rightarrow> ('l, 'i, 'o) list_store" where
  "listSET_LIST_ITEM_VALUE i v s = upd_item i (xItemValue_update (\<lambda>_. v)) s"

definition listSET_LIST_ITEM_OWNER :: "'i \<Rightarrow> 'o \<Rightarrow> ('l, 'i, 'o) list_store \<Rightarrow> ('l, 'i, 'o) list_store" where
  "listSET_LIST_ITEM_OWNER i v s = upd_item i (pvOwner_update (\<lambda>_. v)) s"


section \<open>The abstract store\<close>

text \<open>
  What a list promises: a sequence of items in \<open>pxNext\<close> order from the end marker, and a
  cursor \<open>pxIndex\<close> that is an item of the list or (\<open>None\<close>) the end marker.
\<close>

record ('l, 'i, 'o) astore =
  a_items :: "'l \<Rightarrow> 'i list"
  a_index :: "'l \<Rightarrow> 'i option"
  a_value :: "'i \<Rightarrow> u32"
  a_owner :: "'i \<Rightarrow> 'o"
  a_container :: "'i \<Rightarrow> 'l option"

definition insert_before :: "'i option \<Rightarrow> 'i \<Rightarrow> 'i list \<Rightarrow> 'i list" where
  "insert_before j i xs =
     takeWhile (\<lambda>x. Some x \<noteq> j) xs @ i # dropWhile (\<lambda>x. Some x \<noteq> j) xs"

definition insert_sorted :: "('i \<Rightarrow> u32) \<Rightarrow> 'i \<Rightarrow> 'i list \<Rightarrow> 'i list" where
  "insert_sorted f i xs =
     takeWhile (\<lambda>x. f x \<le> f i) xs @ i # dropWhile (\<lambda>x. f x \<le> f i) xs"

definition pred_item :: "'i \<Rightarrow> 'i list \<Rightarrow> 'i option" where
  "pred_item i xs =
     (let ys = takeWhile (\<lambda>x. x \<noteq> i) xs in if ys = [] then None else Some (last ys))"

definition succ_item :: "'i option \<Rightarrow> 'i list \<Rightarrow> 'i option" where
  "succ_item j xs =
     (case (case j of None \<Rightarrow> xs | Some i \<Rightarrow> tl (dropWhile (\<lambda>x. x \<noteq> i) xs)) of
        [] \<Rightarrow> (case xs of [] \<Rightarrow> None | x # _ \<Rightarrow> Some x)
      | y # _ \<Rightarrow> Some y)"

definition a_init :: "'l \<Rightarrow> ('l, 'i, 'o) astore \<Rightarrow> ('l, 'i, 'o) astore" where
  "a_init l a = a\<lparr>a_items := (a_items a)(l := []), a_index := (a_index a)(l := None)\<rparr>"

definition a_insert_end :: "'l \<Rightarrow> 'i \<Rightarrow> ('l, 'i, 'o) astore \<Rightarrow> ('l, 'i, 'o) astore" where
  "a_insert_end l i a = a\<lparr>
     a_items := (a_items a)(l := insert_before (a_index a l) i (a_items a l)),
     a_container := (a_container a)(i := Some l)\<rparr>"

definition a_insert :: "'l \<Rightarrow> 'i \<Rightarrow> ('l, 'i, 'o) astore \<Rightarrow> ('l, 'i, 'o) astore" where
  "a_insert l i a = a\<lparr>
     a_items := (a_items a)(l := insert_sorted (a_value a) i (a_items a l)),
     a_container := (a_container a)(i := Some l)\<rparr>"

definition a_remove :: "'i \<Rightarrow> ('l, 'i, 'o) astore \<Rightarrow> ('l, 'i, 'o) astore" where
  "a_remove i a =
     (case a_container a i of
        None \<Rightarrow> a
      | Some l \<Rightarrow> a\<lparr>
          a_items := (a_items a)(l := remove1 i (a_items a l)),
          a_index := (a_index a)(l := (if a_index a l = Some i then pred_item i (a_items a l)
                                       else a_index a l)),
          a_container := (a_container a)(i := None)\<rparr>)"

definition a_next :: "'l \<Rightarrow> ('l, 'i, 'o) astore \<Rightarrow> ('l, 'i, 'o) astore" where
  "a_next l a = a\<lparr>a_index := (a_index a)(l := succ_item (a_index a l) (a_items a l))\<rparr>"

definition a_set_value :: "'i \<Rightarrow> u32 \<Rightarrow> ('l, 'i, 'o) astore \<Rightarrow> ('l, 'i, 'o) astore" where
  "a_set_value i v a = a\<lparr>a_value := (a_value a)(i := v)\<rparr>"

text \<open>
  Well-formed on the initialised lists \<open>S\<close> and items \<open>I\<close>: the container field is exact, an
  item is at most once in a list, and the cursor stays on the list.
\<close>

definition wf_astore :: "'l set \<Rightarrow> 'i set \<Rightarrow> ('l, 'i, 'o) astore \<Rightarrow> bool" where
  "wf_astore S I a \<longleftrightarrow>
     (\<forall>l\<in>S. distinct (a_items a l) \<and> set (a_items a l) \<subseteq> I
        \<and> (\<forall>j. a_index a l = Some j \<longrightarrow> j \<in> set (a_items a l)))
     \<and> (\<forall>i\<in>I. \<forall>l. a_container a i = Some l \<longleftrightarrow> l \<in> S \<and> i \<in> set (a_items a l))"

section \<open>Refinement\<close>

text \<open>\<open>linked nx pv p xs q\<close>: following \<open>nx\<close> from \<open>p\<close> passes through \<open>xs\<close> to \<open>q\<close>, and \<open>pv\<close> leads back.\<close>

primrec linked :: "('n \<Rightarrow> 'n) \<Rightarrow> ('n \<Rightarrow> 'n) \<Rightarrow> 'n \<Rightarrow> 'n list \<Rightarrow> 'n \<Rightarrow> bool" where
  "linked nx pv p [] q \<longleftrightarrow> nx p = q \<and> pv q = p"
| "linked nx pv p (x # xs) q \<longleftrightarrow> nx p = x \<and> pv x = p \<and> linked nx pv x xs q"

lemma linked_Nil [simp]: "linked nx pv p [] q \<longleftrightarrow> nx p = q \<and> pv q = p"
  by (simp only: linked.simps)

lemma linked_Cons [simp]:
  "linked nx pv p (x # xs) q \<longleftrightarrow> nx p = x \<and> pv x = p \<and> linked nx pv x xs q"
  by (simp only: linked.simps)

declare linked.simps [simp del]

lemma linked_cong:
  assumes "\<And>x. x \<in> set (p # xs) \<Longrightarrow> nx' x = nx x" and "\<And>x. x \<in> set (xs @ [q]) \<Longrightarrow> pv' x = pv x"
  shows "linked nx' pv' p xs q \<longleftrightarrow> linked nx pv p xs q"
  using assms by (induction xs arbitrary: p) auto

lemma linked_upd_next [simp]:
  "u \<notin> set (p # xs) \<Longrightarrow> linked (nx(u := v)) pv p xs q \<longleftrightarrow> linked nx pv p xs q"
  by (rule linked_cong) auto

lemma linked_upd_prev [simp]:
  "u \<notin> set (xs @ [q]) \<Longrightarrow> linked nx (pv(u := v)) p xs q \<longleftrightarrow> linked nx pv p xs q"
  by (rule linked_cong) auto

lemma linked_next_last:
  "linked nx pv p (as @ bs) q \<Longrightarrow> nx (last (p # as)) = hd (bs @ [q])"
proof (induction as arbitrary: p)
  case Nil
  then show ?case by (cases bs) auto
next
  case (Cons x xs)
  then show ?case by simp
qed

lemma linked_prev_hd:
  "linked nx pv p (as @ bs) q \<Longrightarrow> pv (hd (bs @ [q])) = last (p # as)"
proof (induction as arbitrary: p)
  case Nil
  then show ?case by (cases bs) auto
next
  case (Cons x xs)
  then show ?case by simp
qed

lemma linked_insert:
  assumes "linked nx pv p (as @ bs) q" and "distinct (p # as @ bs)" and "q \<notin> set (as @ bs)"
    and "z \<notin> set (p # as @ bs)" and "z \<noteq> q"
    and "nx' z = hd (bs @ [q])" and "nx' (last (p # as)) = z"
    and "pv' (hd (bs @ [q])) = z" and "pv' z = last (p # as)"
    and "\<And>x. x \<noteq> z \<Longrightarrow> x \<noteq> last (p # as) \<Longrightarrow> nx' x = nx x"
    and "\<And>x. x \<noteq> z \<Longrightarrow> x \<noteq> hd (bs @ [q]) \<Longrightarrow> pv' x = pv x"
  shows "linked nx' pv' p (as @ z # bs) q"
  using assms
proof (induction as arbitrary: p)
  case Nil
  show ?case
  proof (cases bs)
    case (Cons b cs)
    have "linked nx' pv' b cs q \<longleftrightarrow> linked nx pv b cs q"
    proof (rule linked_cong)
      show "nx' x = nx x" if "x \<in> set (b # cs)" for x
        by (rule Nil.prems(10)) (use that Nil.prems Cons in auto)
      show "pv' x = pv x" if "x \<in> set (cs @ [q])" for x
        by (rule Nil.prems(11)) (use that Nil.prems Cons in auto)
    qed
    with Nil.prems(1,2,4-9) Cons show ?thesis by auto
  qed (use Nil.prems(1-9) in auto)
next
  case (Cons x xs)
  have "x \<noteq> hd (bs @ [q])" using Cons.prems(1-5) by (cases bs) auto
  moreover have "p \<noteq> last (x # xs)" using Cons.prems(2) by (cases xs rule: rev_cases) auto
  moreover have "p \<noteq> z" using Cons.prems(4) by auto
  moreover have "x \<noteq> z" using Cons.prems(4) by auto
  moreover have "linked nx' pv' x (xs @ z # bs) q"
    by (rule Cons.IH) (use Cons.prems in \<open>auto split: if_splits\<close>)
  ultimately show ?case using Cons.prems(1,10,11) by auto
qed

lemma linked_remove:
  assumes "linked nx pv p (as @ z # bs) q" and "distinct (p # as @ z # bs)"
    and "q \<notin> set (as @ z # bs)"
    and "nx' (last (p # as)) = hd (bs @ [q])" and "pv' (hd (bs @ [q])) = last (p # as)"
    and "\<And>x. x \<noteq> last (p # as) \<Longrightarrow> nx' x = nx x"
    and "\<And>x. x \<noteq> hd (bs @ [q]) \<Longrightarrow> pv' x = pv x"
  shows "linked nx' pv' p (as @ bs) q"
  using assms
proof (induction as arbitrary: p)
  case Nil
  show ?case
  proof (cases bs)
    case (Cons b cs)
    have "linked nx' pv' b cs q \<longleftrightarrow> linked nx pv b cs q"
    proof (rule linked_cong)
      show "nx' x = nx x" if "x \<in> set (b # cs)" for x
        by (rule Nil.prems(6)) (use that Nil.prems Cons in auto)
      show "pv' x = pv x" if "x \<in> set (cs @ [q])" for x
        by (rule Nil.prems(7)) (use that Nil.prems Cons in auto)
    qed
    with Nil.prems(1-5) Cons show ?thesis by auto
  qed (use Nil.prems(1-5) in auto)
next
  case (Cons x xs)
  have "x \<noteq> hd (bs @ [q])" using Cons.prems(1-3) by (cases bs) auto
  moreover have "p \<noteq> last (x # xs)" using Cons.prems(2) by (cases xs rule: rev_cases) auto
  moreover have "linked nx' pv' x (xs @ bs) q"
    by (rule Cons.IH) (use Cons.prems in \<open>auto split: if_splits\<close>)
  ultimately show ?case using Cons.prems(1,6,7) by auto
qed

end
