(* ===== verification/FreeRTOS_List_Refine.thy ===== *)
theory FreeRTOS_List_Refine
  imports FreeRTOS_List
begin

text \<open>
  The refinement of the pointer lists of \<open>list.c\<close> by the abstract store: every operation
  on a store that represents an abstract one returns (the loop of \<open>vListInsert\<close> ends)
  a store that represents the abstract operation's result.
\<close>

section \<open>Reading the store after one pointer write\<close>

lemma set_next_read [simp]:
  "get_next (set_next p n s) q = (if q = p then n else get_next s q)"
  "get_prev (set_next p n s) q = get_prev s q"
  "get_value (set_next p n s) q = get_value s q"
  "pxIndex (st_lists (set_next p n s) k) = pxIndex (st_lists s k)"
  "uxNumberOfItems (st_lists (set_next p n s) k) = uxNumberOfItems (st_lists s k)"
  "pxContainer (st_items (set_next p n s) j) = pxContainer (st_items s j)"
  "pvOwner (st_items (set_next p n s) j) = pvOwner (st_items s j)"
  "xItemValue (st_items (set_next p n s) j) = xItemValue (st_items s j)"
  by (cases p; cases q; simp add: upd_list_def upd_item_def)+

lemma set_prev_read [simp]:
  "get_prev (set_prev p n s) q = (if q = p then n else get_prev s q)"
  "get_next (set_prev p n s) q = get_next s q"
  "get_value (set_prev p n s) q = get_value s q"
  "pxIndex (st_lists (set_prev p n s) k) = pxIndex (st_lists s k)"
  "uxNumberOfItems (st_lists (set_prev p n s) k) = uxNumberOfItems (st_lists s k)"
  "pxContainer (st_items (set_prev p n s) j) = pxContainer (st_items s j)"
  "pvOwner (st_items (set_prev p n s) j) = pvOwner (st_items s j)"
  "xItemValue (st_items (set_prev p n s) j) = xItemValue (st_items s j)"
  by (cases p; cases q; simp add: upd_list_def upd_item_def)+

lemma upd_container_read [simp]:
  "get_next (upd_item i (pxContainer_update f) s) q = get_next s q"
  "get_prev (upd_item i (pxContainer_update f) s) q = get_prev s q"
  "get_value (upd_item i (pxContainer_update f) s) q = get_value s q"
  by (cases q; simp add: upd_item_def)+

lemma upd_number_read [simp]:
  "get_next (upd_list l (uxNumberOfItems_update f) s) q = get_next s q"
  "get_prev (upd_list l (uxNumberOfItems_update f) s) q = get_prev s q"
  "get_value (upd_list l (uxNumberOfItems_update f) s) q = get_value s q"
  by (cases q; simp add: upd_list_def)+

lemma upd_index_read [simp]:
  "get_next (upd_list l (pxIndex_update f) s) q = get_next s q"
  "get_prev (upd_list l (pxIndex_update f) s) q = get_prev s q"
  "get_value (upd_list l (pxIndex_update f) s) q = get_value s q"
  by (cases q; simp add: upd_list_def)+

lemma upd_list_fields [simp]:
  "st_items (upd_list l f s) = st_items s"
  "st_lists (upd_list l f s) k = (if k = l then f (st_lists s l) else st_lists s k)"
  by (simp_all add: upd_list_def)

lemma upd_item_fields [simp]:
  "st_lists (upd_item i f s) = st_lists s"
  "st_items (upd_item i f s) j = (if j = i then f (st_items s i) else st_items s j)"
  by (simp_all add: upd_item_def)

lemma xItemValue_get_value: "xItemValue (st_items s i) = get_value s (Item i)"
  by simp

declare set_next.simps [simp del] set_prev.simps [simp del]
  get_next.simps [simp del] get_prev.simps [simp del] get_value.simps [simp del]

section \<open>The representation relation\<close>

definition idx_node :: "'l \<Rightarrow> 'i option \<Rightarrow> ('l, 'i) node" where
  "idx_node l j = (case j of None \<Rightarrow> EndOf l | Some i \<Rightarrow> Item i)"

definition ring :: "('l, 'i, 'o) list_store \<Rightarrow> 'l \<Rightarrow> 'i list \<Rightarrow> bool" where
  "ring s l xs \<longleftrightarrow> linked (get_next s) (get_prev s) (EndOf l) (map Item xs) (EndOf l)"

definition list_repr ::
  "'l set \<Rightarrow> 'i set \<Rightarrow> ('l, 'i, 'o) list_store \<Rightarrow> ('l, 'i, 'o) astore \<Rightarrow> bool" where
  "list_repr S I s a \<longleftrightarrow> wf_astore S I a
     \<and> (\<forall>l\<in>S. ring s l (a_items a l)
          \<and> uxNumberOfItems (st_lists s l) = of_nat (length (a_items a l))
          \<and> pxIndex (st_lists s l) = idx_node l (a_index a l)
          \<and> get_value s (EndOf l) = portMAX_DELAY)
     \<and> (\<forall>i\<in>I. xItemValue (st_items s i) = a_value a i
          \<and> pvOwner (st_items s i) = a_owner a i
          \<and> pxContainer (st_items s i) = a_container a i)"

lemma list_reprD:
  assumes "list_repr S I s a"
  shows "wf_astore S I a"
    and "l \<in> S \<Longrightarrow> ring s l (a_items a l)"
    and "l \<in> S \<Longrightarrow> uxNumberOfItems (st_lists s l) = of_nat (length (a_items a l))"
    and "l \<in> S \<Longrightarrow> pxIndex (st_lists s l) = idx_node l (a_index a l)"
    and "l \<in> S \<Longrightarrow> get_value s (EndOf l) = portMAX_DELAY"
    and "i \<in> I \<Longrightarrow> xItemValue (st_items s i) = a_value a i"
    and "i \<in> I \<Longrightarrow> pvOwner (st_items s i) = a_owner a i"
    and "i \<in> I \<Longrightarrow> pxContainer (st_items s i) = a_container a i"
  using assms by (auto simp: list_repr_def)

lemma wf_astoreD:
  assumes "wf_astore S I a"
  shows "l \<in> S \<Longrightarrow> distinct (a_items a l)"
    and "l \<in> S \<Longrightarrow> set (a_items a l) \<subseteq> I"
    and "l \<in> S \<Longrightarrow> a_index a l = Some j \<Longrightarrow> j \<in> set (a_items a l)"
    and "i \<in> I \<Longrightarrow> a_container a i = Some l \<longleftrightarrow> l \<in> S \<and> i \<in> set (a_items a l)"
  using assms by (auto simp: wf_astore_def)

lemma ring_cong:
  assumes "\<And>x. x \<in> set (EndOf l # map Item xs) \<Longrightarrow> get_next t x = get_next s x"
    and "\<And>x. x \<in> set (EndOf l # map Item xs) \<Longrightarrow> get_prev t x = get_prev s x"
  shows "ring t l xs \<longleftrightarrow> ring s l xs"
  unfolding ring_def using assms by (intro linked_cong) auto

lemma ring_first_last:
  assumes "ring s l xs"
  shows "get_next s (EndOf l) = hd (map Item xs @ [EndOf l])"
    and "get_prev s (EndOf l) = last (EndOf l # map Item xs)"
  using assms linked_next_last [of _ _ "EndOf l" "[]" "map Item xs" "EndOf l"]
    linked_prev_hd [of _ _ "EndOf l" "map Item xs" "[]" "EndOf l"]
  by (auto simp: ring_def)

lemma item_node_last:
  "last (EndOf l # map Item as) = (if as = [] then EndOf l else Item (last as))"
  by (simp add: last_map)

lemma item_node_hd:
  "hd (map Item bs @ [EndOf l]) = (if bs = [] then EndOf l else Item (hd bs))"
  by (cases bs) auto

section \<open>Insertion\<close>

text \<open>The store after the common tail of the two insertions, read field by field.\<close>

lemma vListInsert_at_read:
  assumes "it \<noteq> Item i"
  shows "get_next (vListInsert_at l i it s) q =
           (if q = it then Item i else if q = Item i then get_next s it else get_next s q)"
    and "get_prev (vListInsert_at l i it s) q =
           (if q = Item i then it else if q = get_next s it then Item i else get_prev s q)"
    and "get_value (vListInsert_at l i it s) q = get_value s q"
    and "pxIndex (st_lists (vListInsert_at l i it s) k) = pxIndex (st_lists s k)"
    and "uxNumberOfItems (st_lists (vListInsert_at l i it s) k) =
           (if k = l then uxNumberOfItems (st_lists s l) + 1 else uxNumberOfItems (st_lists s k))"
    and "pxContainer (st_items (vListInsert_at l i it s) j) =
           (if j = i then Some l else pxContainer (st_items s j))"
    and "pvOwner (st_items (vListInsert_at l i it s) j) = pvOwner (st_items s j)"
    and "xItemValue (st_items (vListInsert_at l i it s) j) = xItemValue (st_items s j)"
  using assms by (simp_all add: vListInsert_at_def Let_def)

lemma wf_astore_insert:
  assumes "wf_astore S I a" and "l \<in> S" and "i \<in> I" and "a_container a i = None"
    and "a_items a l = as @ bs"
  shows "wf_astore S I (a\<lparr>a_items := (a_items a)(l := as @ i # bs),
                      a_container := (a_container a)(i := Some l)\<rparr>)"
proof -
  note W = wf_astoreD [OF assms(1)]
  have fresh: "i \<notin> set (a_items a k)" if "k \<in> S" for k
    using W(4) [OF assms(3), of k] that assms(4) by simp
  have "distinct (as @ bs)" "set (as @ bs) \<subseteq> I" "i \<notin> set (as @ bs)"
    using W(1,2) [OF assms(2)] fresh [OF assms(2)] assms(5) by auto
  moreover have "\<And>j. a_index a l = Some j \<Longrightarrow> j \<in> set (as @ bs)"
    using W(3) [OF assms(2)] assms(5) by auto
  moreover have "l \<in> S \<and> j \<in> set (as @ bs) \<longleftrightarrow> a_container a j = Some l" if "j \<in> I" for j
    using W(4) [OF that, of l] assms(5) by auto
  ultimately show ?thesis
    unfolding wf_astore_def using W fresh assms(2,3,4) by (auto split: if_splits)
qed

lemma insert_at_repr:
  assumes R: "list_repr S I s a" and "l \<in> S" and "i \<in> I" and "a_container a i = None"
    and xs: "a_items a l = as @ bs" and it: "it = last (EndOf l # map Item as)"
  shows "list_repr S I (vListInsert_at l i it s)
           (a\<lparr>a_items := (a_items a)(l := as @ i # bs),
              a_container := (a_container a)(i := Some l)\<rparr>)"
proof -
  note W = list_reprD(1) [OF R]
  have fresh: "i \<notin> set (a_items a k)" if "k \<in> S" for k
    using wf_astoreD(4) [OF W \<open>i \<in> I\<close>, of k] that assms(4) by simp
  have ni: "it \<noteq> Item i"
    using fresh [OF \<open>l \<in> S\<close>] xs by (cases as rule: rev_cases) (auto simp: it)
  have L: "linked (get_next s) (get_prev s) (EndOf l) (map Item as @ map Item bs) (EndOf l)"
    using list_reprD(2) [OF R \<open>l \<in> S\<close>] by (simp add: ring_def xs)
  have nxt: "get_next s it = hd (map Item bs @ [EndOf l])"
    unfolding it by (rule linked_next_last [OF L])
  note rd = vListInsert_at_read [OF ni]
  have D: "distinct (as @ bs)" "i \<notin> set (as @ bs)"
    using wf_astoreD(1) [OF W \<open>l \<in> S\<close>] fresh [OF \<open>l \<in> S\<close>] xs by auto
  have nn: "get_next s it \<noteq> Item i"
    using D(2) by (simp add: nxt item_node_hd) (metis Un_iff hd_in_set set_append)
  have here: "ring (vListInsert_at l i it s) l (as @ i # bs)"
    unfolding ring_def map_append list.map
    by (rule linked_insert [OF L, where z = "Item i", folded it nxt])
      (use D nn ni in \<open>auto simp: rd distinct_map inj_on_def\<close>)
  have other: "ring (vListInsert_at l i it s) k (a_items a k)" if "k \<in> S" "k \<noteq> l" for k
  proof -
    have disj: "j \<notin> set (a_items a k)" if "j \<in> set (as @ bs)" for j
    proof
      assume "j \<in> set (a_items a k)"
      with wf_astoreD(2) [OF W \<open>k \<in> S\<close>] have "j \<in> I" by auto
      from wf_astoreD(4) [OF W this, of k] wf_astoreD(4) [OF W this, of l] show False
        using \<open>k \<in> S\<close> \<open>k \<noteq> l\<close> \<open>l \<in> S\<close> \<open>j \<in> set (a_items a k)\<close> that xs by auto
    qed
    have a1: "it \<notin> set (EndOf k # map Item (a_items a k))"
      using disj \<open>k \<noteq> l\<close> by (cases as rule: rev_cases) (auto simp: it)
    have a2: "get_next s it \<notin> set (EndOf k # map Item (a_items a k))"
      using disj \<open>k \<noteq> l\<close> unfolding nxt by (cases bs) auto
    have a3: "Item i \<notin> set (EndOf k # map Item (a_items a k))"
      using fresh [OF \<open>k \<in> S\<close>] by auto
    have "ring (vListInsert_at l i it s) k (a_items a k) \<longleftrightarrow> ring s k (a_items a k)"
      by (rule ring_cong) (use a1 a2 a3 in \<open>metis rd(1)\<close>, use a1 a2 a3 in \<open>metis rd(2)\<close>)
    then show ?thesis using list_reprD(2) [OF R \<open>k \<in> S\<close>] by simp
  qed
  show ?thesis
    unfolding list_repr_def
  proof (intro conjI ballI)
    show "wf_astore S I (a\<lparr>a_items := (a_items a)(l := as @ i # bs),
                       a_container := (a_container a)(i := Some l)\<rparr>)"
      by (rule wf_astore_insert [OF W assms(2-4) xs])
  qed (use here other list_reprD(3-8) [OF R] xs in \<open>auto simp: rd xs add.commute\<close>)
qed


text \<open>\<open>vListInsertEnd\<close> does the same writes in another order, around the cursor.\<close>

lemma vListInsertEnd_at:
  assumes "get_next s (get_prev s (pxIndex (st_lists s l))) = pxIndex (st_lists s l)"
    and "pxIndex (st_lists s l) \<noteq> Item i" and "get_prev s (pxIndex (st_lists s l)) \<noteq> Item i"
  shows "get_next (vListInsertEnd l i s) =
           get_next (vListInsert_at l i (get_prev s (pxIndex (st_lists s l))) s)"
    and "get_prev (vListInsertEnd l i s) =
           get_prev (vListInsert_at l i (get_prev s (pxIndex (st_lists s l))) s)"
    and "get_value (vListInsertEnd l i s) = get_value s"
    and "pxIndex (st_lists (vListInsertEnd l i s) k) = pxIndex (st_lists s k)"
    and "uxNumberOfItems (st_lists (vListInsertEnd l i s) k) =
           (if k = l then uxNumberOfItems (st_lists s l) + 1 else uxNumberOfItems (st_lists s k))"
    and "pxContainer (st_items (vListInsertEnd l i s) j) =
           (if j = i then Some l else pxContainer (st_items s j))"
    and "pvOwner (st_items (vListInsertEnd l i s) j) = pvOwner (st_items s j)"
    and "xItemValue (st_items (vListInsertEnd l i s) j) = xItemValue (st_items s j)"
  using assms by (auto simp: vListInsertEnd_def vListInsert_at_def Let_def fun_eq_iff)

lemma insert_before_split:
  assumes "distinct xs" and "j = None \<or> (\<exists>k. j = Some k \<and> k \<in> set xs)"
  obtains as bs where "xs = as @ bs" and "insert_before j i xs = as @ i # bs"
    and "hd (map Item bs @ [EndOf l]) = idx_node l j"
proof (cases j)
  case None
  then have "insert_before j i xs = xs @ i # []" by (simp add: insert_before_def)
  with None show ?thesis by (intro that [of xs "[]"]) (simp_all add: idx_node_def)
next
  case (Some k)
  with assms(2) obtain as bs where xs: "xs = as @ k # bs" by (auto simp: in_set_conv_decomp)
  with assms(1) have "k \<notin> set as" by auto
  then have "takeWhile (\<lambda>x. Some x \<noteq> j) xs = as" "dropWhile (\<lambda>x. Some x \<noteq> j) xs = k # bs"
    using Some xs by (auto simp: takeWhile_append dropWhile_append)
  with Some xs show ?thesis
    by (intro that [of as "k # bs"]) (simp_all add: insert_before_def idx_node_def)
qed

theorem vListInsertEnd_refines:
  assumes R: "list_repr S I s a" and "l \<in> S" and "i \<in> I" and "a_container a i = None"
  shows "list_repr S I (vListInsertEnd l i s) (a_insert_end l i a)"
proof -
  note W = list_reprD(1) [OF R]
  have "a_index a l = None \<or> (\<exists>k. a_index a l = Some k \<and> k \<in> set (a_items a l))"
    using wf_astoreD(3) [OF W \<open>l \<in> S\<close>] by (cases "a_index a l") auto
  from insert_before_split [OF wf_astoreD(1) [OF W \<open>l \<in> S\<close>] this, of i l]
  obtain as bs where xs: "a_items a l = as @ bs"
    and ib: "insert_before (a_index a l) i (a_items a l) = as @ i # bs"
    and hd: "hd (map Item bs @ [EndOf l]) = idx_node l (a_index a l)" .
  let ?idx = "pxIndex (st_lists s l)"
  have idx: "?idx = idx_node l (a_index a l)" by (rule list_reprD(4) [OF R \<open>l \<in> S\<close>])
  have L: "linked (get_next s) (get_prev s) (EndOf l) (map Item as @ map Item bs) (EndOf l)"
    using list_reprD(2) [OF R \<open>l \<in> S\<close>] by (simp add: ring_def xs)
  have pv: "get_prev s ?idx = last (EndOf l # map Item as)"
    using linked_prev_hd [OF L] by (simp add: hd idx)
  have nx: "get_next s (get_prev s ?idx) = ?idx"
    unfolding pv using linked_next_last [OF L] by (simp only: hd idx)
  have fresh: "i \<notin> set (as @ bs)"
    using wf_astoreD(4) [OF W \<open>i \<in> I\<close>, of l] \<open>l \<in> S\<close> assms(4) by (simp add: xs)
  have n1: "?idx \<noteq> Item i"
    using fresh unfolding idx hd [symmetric] by (cases bs) auto
  have n2: "get_prev s ?idx \<noteq> Item i"
    using fresh unfolding pv by (cases as rule: rev_cases) auto
  note E = vListInsertEnd_at [OF nx n1 n2]
  have "list_repr S I (vListInsert_at l i (get_prev s ?idx) s) (a_insert_end l i a)"
    using insert_at_repr [OF R assms(2-4) xs pv] by (simp add: a_insert_end_def ib)
  then show ?thesis
    unfolding list_repr_def ring_def by (simp add: E vListInsert_at_read [OF n2])
qed

text \<open>The loop of \<open>vListInsert\<close> stops, and where the abstract insertion puts the item.\<close>

lemma insert_position_walk:
  assumes "linked (get_next s) (get_prev s) p (map Item xs) (EndOf l)"
    and "get_value s (EndOf l) = portMAX_DELAY" and "v \<noteq> portMAX_DELAY"
  shows "insert_position s v p =
    Some (last (p # map Item (takeWhile (\<lambda>x. get_value s (Item x) \<le> v) xs)))"
  using assms(1)
proof (induction xs arbitrary: p)
  case Nil
  then have "get_next s p = EndOf l" by simp
  then show ?case using assms(3) by (simp add: insert_position.simps assms(2))
next
  case (Cons x xs)
  then show ?case
    by (subst insert_position.simps) simp
qed

theorem vListInsert_refines:
  assumes R: "list_repr S I s a" and "l \<in> S" and "i \<in> I" and "a_container a i = None"
  shows "\<exists>s'. vListInsert l i s = Some s' \<and> list_repr S I s' (a_insert l i a)"
proof -
  note W = list_reprD(1) [OF R]
  let ?v = "a_value a i" and ?xs = "a_items a l"
  let ?as = "takeWhile (\<lambda>x. a_value a x \<le> ?v) ?xs"
  let ?bs = "dropWhile (\<lambda>x. a_value a x \<le> ?v) ?xs"
  let ?it = "last (EndOf l # map Item ?as)"
  have v: "xItemValue (st_items s i) = ?v" by (rule list_reprD(6) [OF R \<open>i \<in> I\<close>])
  have ring: "ring s l ?xs" by (rule list_reprD(2) [OF R \<open>l \<in> S\<close>])
  have val: "get_value s (Item x) = a_value a x" if "x \<in> set ?xs" for x
    using list_reprD(6) [OF R, of x] wf_astoreD(2) [OF W \<open>l \<in> S\<close>] that
    by (auto simp flip: xItemValue_get_value)
  have tw: "takeWhile (\<lambda>x. get_value s (Item x) \<le> w) ?xs = takeWhile (\<lambda>x. a_value a x \<le> w) ?xs"
    for w by (rule takeWhile_cong) (simp_all add: val)
  have "vListInsert l i s = Some (vListInsert_at l i ?it s)"
  proof (cases "?v = portMAX_DELAY")
    case True
    then have "?as = ?xs" by (simp add: takeWhile_eq_all_conv)
    then show ?thesis using True ring_first_last(2) [OF ring] by (simp add: vListInsert_def v)
  next
    case False
    have "insert_position s ?v (EndOf l) = Some ?it"
      using insert_position_walk [OF ring [unfolded ring_def] list_reprD(5) [OF R \<open>l \<in> S\<close>] False]
      by (simp only: tw)
    with False show ?thesis by (simp add: vListInsert_def v)
  qed
  moreover have "list_repr S I (vListInsert_at l i ?it s)
      (a\<lparr>a_items := (a_items a)(l := ?as @ i # ?bs), a_container := (a_container a)(i := Some l)\<rparr>)"
    by (rule insert_at_repr [OF R assms(2-4) _ refl]) simp
  ultimately show ?thesis by (simp add: a_insert_def insert_sorted_def)
qed


section \<open>Removal\<close>

lemma wf_astore_remove:
  assumes "wf_astore S I a" and "i \<in> I"
  shows "wf_astore S I (a_remove i a)"
proof (cases "a_container a i")
  case None
  with assms show ?thesis by (simp add: a_remove_def)
next
  case (Some l)
  note W = wf_astoreD [OF assms(1)]
  have l: "l \<in> S" "i \<in> set (a_items a l)" using W(4) [OF assms(2), of l] Some by auto
  have D: "distinct (a_items a l)" by (rule W(1) [OF l(1)])
  have p: "j \<in> set (remove1 i (a_items a l))" if "pred_item i (a_items a l) = Some j" for j
  proof -
    from that have "j \<in> set (takeWhile (\<lambda>x. x \<noteq> i) (a_items a l))"
      by (auto simp: pred_item_def Let_def simp del: takeWhile_eq_Nil_iff split: if_splits)
    then show ?thesis using D by (auto dest: set_takeWhileD)
  qed
  have only: "l' = l" if "l' \<in> S" "i \<in> set (a_items a l')" for l'
    using W(4) [OF assms(2), of l'] that Some by simp
  have q: "j \<in> set (remove1 i (a_items a l))" if "a_index a l = Some j" "j \<noteq> i" for j
    using W(3) [OF l(1) that(1)] that(2) D by simp
  let ?b = "a_remove i a"
  have b: "a_items ?b k = (if k = l then remove1 i (a_items a l) else a_items a k)"
    "a_container ?b j = (if j = i then None else a_container a j)"
    "a_index ?b k = (if k = l \<and> a_index a l = Some i then pred_item i (a_items a l) else a_index a k)"
    for k j by (auto simp: a_remove_def Some)
  show ?thesis
    unfolding wf_astore_def
  proof (intro conjI ballI allI impI)
    fix k assume k: "k \<in> S"
    show "distinct (a_items ?b k)" using W(1) [OF k] D by (simp add: b)
    show "set (a_items ?b k) \<subseteq> I" using W(2) [OF k] D by (auto simp: b)
    fix j assume "a_index ?b k = Some j"
    then show "j \<in> set (a_items ?b k)" using W(3) [OF k] p q by (auto simp: b split: if_splits)
  next
    fix j k assume j: "j \<in> I"
    show "a_container ?b j = Some k \<longleftrightarrow> k \<in> S \<and> j \<in> set (a_items ?b k)"
      using W(4) [OF j, of k] only D by (auto simp: b)
  qed
qed

lemma uxListRemove_read:
  assumes "pxContainer (st_items s i) = Some l" and "get_prev s (Item i) \<noteq> Item i"
    and "get_next s (Item i) \<noteq> Item i" and "uxListRemove i s = Some (n, t)"
  shows "get_next t q = (if q = get_prev s (Item i) then get_next s (Item i) else get_next s q)"
    and "get_prev t q = (if q = get_next s (Item i) then get_prev s (Item i) else get_prev s q)"
    and "get_value t q = get_value s q"
    and "pxIndex (st_lists t k) =
           (if k = l \<and> pxIndex (st_lists s l) = Item i then get_prev s (Item i)
            else pxIndex (st_lists s k))"
    and "uxNumberOfItems (st_lists t k) =
           (if k = l then uxNumberOfItems (st_lists s l) - 1 else uxNumberOfItems (st_lists s k))"
    and "pxContainer (st_items t j) = (if j = i then None else pxContainer (st_items s j))"
    and "pvOwner (st_items t j) = pvOwner (st_items s j)"
    and "xItemValue (st_items t j) = xItemValue (st_items s j)"
    and "n = uxNumberOfItems (st_lists t l)"
  using assms by (auto simp: uxListRemove_def Let_def split: if_splits)

lemma pred_item_split:
  assumes "i \<notin> set as"
  shows "idx_node l (pred_item i (as @ i # bs)) = last (EndOf l # map Item as)"
proof -
  have "takeWhile (\<lambda>x. x \<noteq> i) (as @ i # bs) = as"
    using assms by (auto simp: takeWhile_append)
  then show ?thesis by (cases as rule: rev_cases) (auto simp: pred_item_def idx_node_def)
qed

theorem uxListRemove_refines:
  assumes R: "list_repr S I s a" and "i \<in> I" and c: "a_container a i = Some l"
  shows "\<exists>n t. uxListRemove i s = Some (n, t) \<and> list_repr S I t (a_remove i a)
           \<and> n = of_nat (length (a_items (a_remove i a) l))"
proof -
  note W = list_reprD(1) [OF R]
  have l: "l \<in> S" "i \<in> set (a_items a l)" using wf_astoreD(4) [OF W \<open>i \<in> I\<close>, of l] c by auto
  have D: "distinct (a_items a l)" by (rule wf_astoreD(1) [OF W l(1)])
  from remove1_split [OF D l(2)] obtain as bs where xs: "a_items a l = as @ i # bs"
    and ni: "i \<notin> set as" "i \<notin> set bs" and rem: "remove1 i (a_items a l) = as @ bs" .
  have cc: "pxContainer (st_items s i) = Some l" using list_reprD(8) [OF R \<open>i \<in> I\<close>] c by simp
  have L: "linked (get_next s) (get_prev s) (EndOf l) (map Item as @ Item i # map Item bs) (EndOf l)"
    using list_reprD(2) [OF R l(1)] by (simp add: ring_def xs)
  have nx: "get_next s (Item i) = hd (map Item bs @ [EndOf l])"
    using linked_next_last [of _ _ "EndOf l" "map Item as @ [Item i]" "map Item bs"] L by simp
  have pv: "get_prev s (Item i) = last (EndOf l # map Item as)"
    using linked_prev_hd [OF L] by simp
  have n1: "get_prev s (Item i) \<noteq> Item i"
    using ni unfolding pv by (cases as rule: rev_cases) auto
  have n2: "get_next s (Item i) \<noteq> Item i" using ni unfolding nx by (cases bs) auto
  obtain n t where t: "uxListRemove i s = Some (n, t)"
    by (simp add: uxListRemove_def cc Let_def)
  note rd = uxListRemove_read [OF cc n1 n2 t]
  have here: "ring t l (as @ bs)"
    unfolding ring_def map_append
    by (rule linked_remove [OF L, folded pv nx])
      (use D xs in \<open>auto simp: rd distinct_map inj_on_def\<close>)
  have other: "ring t k (a_items a k)" if "k \<in> S" "k \<noteq> l" for k
  proof -
    have disj: "j \<notin> set (a_items a k)" if "j \<in> set (as @ i # bs)" for j
    proof
      assume "j \<in> set (a_items a k)"
      with wf_astoreD(2) [OF W \<open>k \<in> S\<close>] have "j \<in> I" by auto
      from wf_astoreD(4) [OF W this, of k] wf_astoreD(4) [OF W this, of l] show False
        using \<open>k \<in> S\<close> \<open>k \<noteq> l\<close> l(1) \<open>j \<in> set (a_items a k)\<close> that xs by auto
    qed
    have a1: "get_prev s (Item i) \<notin> set (EndOf k # map Item (a_items a k))"
      using disj \<open>k \<noteq> l\<close> unfolding pv by (cases as rule: rev_cases) auto
    have a2: "get_next s (Item i) \<notin> set (EndOf k # map Item (a_items a k))"
      using disj \<open>k \<noteq> l\<close> unfolding nx by (cases bs) auto
    have "ring t k (a_items a k) \<longleftrightarrow> ring s k (a_items a k)"
      by (rule ring_cong) (use a1 a2 in \<open>metis rd(1)\<close>, use a1 a2 in \<open>metis rd(2)\<close>)
    then show ?thesis using list_reprD(2) [OF R \<open>k \<in> S\<close>] by simp
  qed
  have idx: "pxIndex (st_lists t l) = idx_node l (a_index (a_remove i a) l)"
    using list_reprD(4) [OF R l(1)] pred_item_split [OF ni(1), of l bs]
    by (auto simp: rd a_remove_def c xs pv idx_node_def split: option.splits)
  have "list_repr S I t (a_remove i a)"
    unfolding list_repr_def
  proof (intro conjI ballI)
    show "wf_astore S I (a_remove i a)" by (rule wf_astore_remove [OF W \<open>i \<in> I\<close>])
  next
    fix k assume "k \<in> S"
    then show "ring t k (a_items (a_remove i a) k)"
      using here other [of k] by (simp add: a_remove_def c rem)
    show "uxNumberOfItems (st_lists t k) = of_nat (length (a_items (a_remove i a) k))"
      using list_reprD(3) [OF R \<open>k \<in> S\<close>] list_reprD(3) [OF R l(1)] rem
      by (auto simp: rd(5) a_remove_def c xs)
    show "pxIndex (st_lists t k) = idx_node k (a_index (a_remove i a) k)"
      using idx list_reprD(4) [OF R \<open>k \<in> S\<close>] by (cases "k = l") (auto simp: rd(4) a_remove_def c)
    show "get_value t (EndOf k) = portMAX_DELAY"
      using list_reprD(5) [OF R \<open>k \<in> S\<close>] by (simp add: rd(3))
  next
    fix j assume "j \<in> I"
    then show "xItemValue (st_items t j) = a_value (a_remove i a) j"
      "pvOwner (st_items t j) = a_owner (a_remove i a) j"
      "pxContainer (st_items t j) = a_container (a_remove i a) j"
      using list_reprD(6-8) [OF R, of j] by (simp_all add: rd(6-8) a_remove_def c)
  qed
  moreover from this have "n = of_nat (length (a_items (a_remove i a) l))"
    using rd(9) list_reprD(3) [OF _ l(1)] by simp
  ultimately show ?thesis using t by blast
qed


section \<open>Initialisation, values, the cursor and the head\<close>

theorem vListInitialise_refines:
  assumes R: "list_repr S I s a" and "\<And>i. i \<in> I \<Longrightarrow> a_container a i \<noteq> Some l"
  shows "list_repr (insert l S) I (vListInitialise l s) (a_init l a)"
proof -
  note W = list_reprD(1) [OF R]
  have "wf_astore (insert l S) I (a_init l a)"
    using W assms(2) unfolding wf_astore_def a_init_def by auto
  moreover have "ring (vListInitialise l s) k (a_items a k)" if "k \<in> S" "k \<noteq> l" for k
  proof -
    have "get_next (vListInitialise l s) x = get_next s x" "get_prev (vListInitialise l s) x = get_prev s x"
      if "x \<noteq> EndOf l" for x
      using that by (cases x; simp add: vListInitialise_def get_next.simps get_prev.simps)+
    then have "ring (vListInitialise l s) k (a_items a k) \<longleftrightarrow> ring s k (a_items a k)"
      using \<open>k \<noteq> l\<close> by (intro ring_cong) auto
    then show ?thesis using list_reprD(2) [OF R \<open>k \<in> S\<close>] by simp
  qed
  moreover have "ring (vListInitialise l s) l []"
    by (simp add: ring_def vListInitialise_def get_next.simps get_prev.simps)
  ultimately show ?thesis
    using list_reprD(3-8) [OF R]
    by (auto simp: list_repr_def a_init_def vListInitialise_def idx_node_def get_value.simps)
qed

theorem listSET_LIST_ITEM_VALUE_refines:
  assumes "list_repr S I s a"
  shows "list_repr S I (listSET_LIST_ITEM_VALUE i v s) (a_set_value i v a)"
proof -
  have "get_next (listSET_LIST_ITEM_VALUE i v s) q = get_next s q"
    "get_prev (listSET_LIST_ITEM_VALUE i v s) q = get_prev s q" for q
    by (cases q; simp add: listSET_LIST_ITEM_VALUE_def get_next.simps get_prev.simps)+
  then have "get_next (listSET_LIST_ITEM_VALUE i v s) = get_next s"
    "get_prev (listSET_LIST_ITEM_VALUE i v s) = get_prev s" by auto
  moreover have "get_value (listSET_LIST_ITEM_VALUE i v s) (EndOf k) = get_value s (EndOf k)" for k
    by (simp add: listSET_LIST_ITEM_VALUE_def get_value.simps)
  moreover have "wf_astore S I (a_set_value i v a)"
    using list_reprD(1) [OF assms] by (simp add: wf_astore_def a_set_value_def)
  ultimately show ?thesis
    using list_reprD(2-8) [OF assms]
    by (auto simp: list_repr_def ring_def a_set_value_def) (simp_all add: listSET_LIST_ITEM_VALUE_def)
qed

lemma listLIST_IS_EMPTY_refines:
  assumes "list_repr S I s a" and "l \<in> S" and "length (a_items a l) < 2 ^ 32"
  shows "listLIST_IS_EMPTY l s \<longleftrightarrow> a_items a l = []"
  using list_reprD(3) [OF assms(1,2)] of_nat_eq_0_u32 [OF assms(3)]
  by (simp add: listLIST_IS_EMPTY_def)

lemma listGET_OWNER_OF_HEAD_ENTRY_refines:
  assumes "list_repr S I s a" and "l \<in> S" and "a_items a l = x # xs"
  shows "listGET_OWNER_OF_HEAD_ENTRY l s = Some (a_owner a x)"
proof -
  have "x \<in> I" using wf_astoreD(2) [OF list_reprD(1) [OF assms(1)] assms(2)] assms(3) by auto
  then show ?thesis
    using ring_first_last(1) [OF list_reprD(2) [OF assms(1,2)]] assms(3) list_reprD(7) [OF assms(1)]
    by (simp add: listGET_OWNER_OF_HEAD_ENTRY_def)
qed

text \<open>The position the cursor stands on: \<open>j\<close> for \<open>xs ! j\<close>; the end marker stands before the first.\<close>

definition cursor_at :: "'i list \<Rightarrow> 'i option \<Rightarrow> nat \<Rightarrow> bool" where
  "cursor_at xs c j \<longleftrightarrow> (case c of None \<Rightarrow> Suc j = length xs | Some i \<Rightarrow> j < length xs \<and> xs ! j = i)"

lemma succ_item_nth:
  assumes "distinct xs" and "xs \<noteq> []" and "cursor_at xs c j"
  shows "succ_item c xs = Some (xs ! (Suc j mod length xs))"
proof (cases c)
  case None
  with assms show ?thesis by (cases xs) (auto simp: cursor_at_def succ_item_def)
next
  case (Some i)
  with assms(3) have j: "j < length xs" "xs ! j = i" by (auto simp: cursor_at_def)
  have xs: "xs = take j xs @ i # drop (Suc j) xs" using id_take_nth_drop [of j xs] j by simp
  with assms(1) have "i \<notin> set (take j xs)"
    by (metis distinct_append disjoint_iff list.set_intros(1))
  then have "dropWhile (\<lambda>x. x \<noteq> i) (take j xs @ i # drop (Suc j) xs) = i # drop (Suc j) xs"
    by (subst dropWhile_append2) auto
  then have tl: "tl (dropWhile (\<lambda>x. x \<noteq> i) xs) = drop (Suc j) xs" using xs by simp
  show ?thesis
  proof (cases "Suc j < length xs")
    case True
    then have "drop (Suc j) xs = xs ! Suc j # drop (Suc (Suc j)) xs" by (simp add: Cons_nth_drop_Suc)
    with True Some tl show ?thesis by (simp add: succ_item_def)
  next
    case False
    with j have "Suc j = length xs" by simp
    with assms(2) Some tl show ?thesis by (cases xs) (auto simp: succ_item_def)
  qed
qed


lemma cursor_exists:
  assumes "xs \<noteq> []" and "\<And>i. c = Some i \<Longrightarrow> i \<in> set xs"
  obtains j where "cursor_at xs c j" and "j < length xs"
proof (cases c)
  case None
  with assms(1) show ?thesis
    by (intro that [of "length xs - 1"]) (auto simp: cursor_at_def)
next
  case (Some i)
  with assms(2) obtain j where "j < length xs" "xs ! j = i" by (auto simp: in_set_conv_nth)
  with Some show ?thesis by (intro that [of j]) (auto simp: cursor_at_def)
qed

lemma ring_next_nth:
  assumes "ring s l xs" and "j < length xs"
  shows "get_next s (Item (xs ! j)) = (if Suc j < length xs then Item (xs ! Suc j) else EndOf l)"
proof -
  have "linked (get_next s) (get_prev s) (EndOf l) (map Item (take (Suc j) xs) @ map Item (drop (Suc j) xs)) (EndOf l)"
    using assms(1) by (simp only: ring_def flip: map_append) simp
  from linked_next_last [OF this] assms(2) show ?thesis
    by (auto simp: take_Suc_conv_app_nth hd_append hd_map hd_drop_conv_nth)
qed

lemma next_node:
  assumes "ring s l xs" and "xs \<noteq> []" and "cursor_at xs c j" and "distinct xs"
  shows "(let n = get_next s (idx_node l c) in if n = EndOf l then get_next s n else n)
       = Item (xs ! (Suc j mod length xs))"
proof -
  have hd: "get_next s (EndOf l) = Item (xs ! 0)"
    using ring_first_last(1) [OF assms(1)] assms(2) by (cases xs) auto
  show ?thesis
  proof (cases c)
    case None
    with assms(3) hd show ?thesis by (auto simp: idx_node_def cursor_at_def Let_def)
  next
    case (Some i)
    with assms(3) have j: "j < length xs" "xs ! j = i" by (auto simp: cursor_at_def)
    have "Suc j = length xs" if "\<not> Suc j < length xs" using j(1) that by simp
    then have sj: "\<not> Suc j < length xs \<Longrightarrow> Suc j mod length xs = 0" by simp
    show ?thesis
      using ring_next_nth [OF assms(1) j(1)] hd Some j sj
      by (auto simp: idx_node_def Let_def)
  qed
qed

lemma list_repr_a_next:
  assumes R: "list_repr S I s a" and "l \<in> S" and "a_items a l \<noteq> []"
    and c: "cursor_at (a_items a l) (a_index a l) j"
  shows "list_repr S I (snd (listGET_OWNER_OF_NEXT_ENTRY l s)) (a_next l a)"
    and "fst (listGET_OWNER_OF_NEXT_ENTRY l s) =
           Some (a_owner a (a_items a l ! (Suc j mod length (a_items a l))))"
    and "cursor_at (a_items (a_next l a) l) (a_index (a_next l a) l) (Suc j mod length (a_items a l))"
proof -
  let ?xs = "a_items a l" and ?k = "Suc j mod length (a_items a l)"
  note W = list_reprD(1) [OF R]
  have D: "distinct ?xs" by (rule wf_astoreD(1) [OF W \<open>l \<in> S\<close>])
  have k: "?k < length ?xs" using assms(3) by simp
  have mem: "?xs ! ?k \<in> set ?xs" "?xs ! ?k \<in> I"
    using k wf_astoreD(2) [OF W \<open>l \<in> S\<close>] by (auto intro: nth_mem)
  have succ: "succ_item (a_index a l) ?xs = Some (?xs ! ?k)" by (rule succ_item_nth [OF D assms(3) c])
  note nn = next_node [OF list_reprD(2) [OF R \<open>l \<in> S\<close>] assms(3) c D]
  have idx: "pxIndex (st_lists s l) = idx_node l (a_index a l)" by (rule list_reprD(4) [OF R \<open>l \<in> S\<close>])
  let ?s = "snd (listGET_OWNER_OF_NEXT_ENTRY l s)"
  have rd: "get_next ?s q = get_next s q" "get_prev ?s q = get_prev s q" "get_value ?s q = get_value s q"
    "uxNumberOfItems (st_lists ?s m) = uxNumberOfItems (st_lists s m)" "st_items ?s = st_items s"
    "pxIndex (st_lists ?s m) = (if m = l then Item (?xs ! ?k) else pxIndex (st_lists s m))" for q m
    using nn by (auto simp: listGET_OWNER_OF_NEXT_ENTRY_def Let_def idx split: if_splits)
  have wf: "wf_astore S I (a_next l a)"
    using W succ mem by (auto simp: wf_astore_def a_next_def)
  show "list_repr S I ?s (a_next l a)"
    using wf list_reprD(2-8) [OF R] succ
    by (auto simp: list_repr_def a_next_def rd ring_def fun_eq_iff idx_node_def rd [abs_def])
  show "fst (listGET_OWNER_OF_NEXT_ENTRY l s) = Some (a_owner a (?xs ! ?k))"
    using nn list_reprD(7) [OF R mem(2)]
    by (auto simp: listGET_OWNER_OF_NEXT_ENTRY_def Let_def idx split: if_splits)
  show "cursor_at (a_items (a_next l a) l) (a_index (a_next l a) l) ?k"
    using succ k by (simp add: a_next_def cursor_at_def)
qed

text \<open>The owners \<open>n\<close> calls of \<open>listGET_OWNER_OF_NEXT_ENTRY\<close> in a row return.\<close>

primrec next_owners :: "nat \<Rightarrow> 'l \<Rightarrow> ('l, 'i, 'o) list_store \<Rightarrow> 'o option list" where
  "next_owners 0 l s = []"
| "next_owners (Suc n) l s =
     (let r = listGET_OWNER_OF_NEXT_ENTRY l s in fst r # next_owners n l (snd r))"

lemma next_owners_nth:
  assumes "list_repr S I s a" and "l \<in> S" and "a_items a l \<noteq> []"
    and "cursor_at (a_items a l) (a_index a l) j"
  shows "next_owners n l s =
    map (\<lambda>k. Some (a_owner a (a_items a l ! ((Suc j + k) mod length (a_items a l))))) [0..<n]"
  using assms
proof (induction n arbitrary: s a j)
  case 0
  then show ?case by simp
next
  case (Suc n)
  note step = list_repr_a_next [OF Suc.prems]
  have [simp]: "a_items (a_next l a) = a_items a" "a_owner (a_next l a) = a_owner a"
    by (simp_all add: a_next_def)
  have m: "Suc (x mod y + k) mod y = Suc (x + k) mod y" for x y k :: nat
    by (metis mod_Suc_eq mod_add_left_eq)
  have "next_owners (Suc n) l s = Some (a_owner a (a_items a l ! (Suc j mod length (a_items a l))))
      # map (\<lambda>k. Some (a_owner a (a_items a l ! ((Suc j + Suc k) mod length (a_items a l))))) [0..<n]"
    using Suc.IH [OF step(1) Suc.prems(2) _ step(3)] Suc.prems(3) step(2)
    by (simp add: Let_def m)
  also have "\<dots> = map (\<lambda>k. Some (a_owner a (a_items a l ! ((Suc j + k) mod length (a_items a l))))) [0..<Suc n]"
    by (simp add: upt_conv_Cons map_Suc_upt [symmetric] del: upt_Suc)
  finally show ?case .
qed

end
