(* ===== verification/FreeRTOS_List_Contract.thy ===== *)
theory FreeRTOS_List_Contract
  imports FreeRTOS_List_Refine
begin

text \<open>
  What the kernel relies on when it moves items between lists, as two interfaces: any store
  of lists whose container fields are exact (\<open>item_lists\<close>), and one whose insertion also
  keeps a list sorted by value (\<open>sorted_item_lists\<close>). Both are interpreted on the operations
  of the list component; the scheduler proofs use the facts proved here once.
\<close>

section \<open>The interfaces\<close>

locale item_lists =
  fixes inv :: "'s \<Rightarrow> bool"
    and items :: "'s \<Rightarrow> 'l \<Rightarrow> 'i list"
    and cont :: "'s \<Rightarrow> 'i \<Rightarrow> 'l option"
    and ins :: "'l \<Rightarrow> 'i \<Rightarrow> 's \<Rightarrow> 's"
    and rem :: "'i \<Rightarrow> 's \<Rightarrow> 's"
  assumes cont_iff: "inv s \<Longrightarrow> cont s i = Some l \<longleftrightarrow> i \<in> set (items s l)"
    and distinct_items: "inv s \<Longrightarrow> distinct (items s l)"
    and inv_ins: "inv s \<Longrightarrow> cont s i = None \<Longrightarrow> inv (ins l i s)"
    and inv_rem: "inv s \<Longrightarrow> inv (rem i s)"
    and cont_ins: "cont (ins l i s) = (cont s)(i \<mapsto> l)"
    and cont_rem: "cont (rem i s) = (cont s)(i := None)"
begin

lemma set_items: "inv s \<Longrightarrow> set (items s l) = {i. cont s i = Some l}"
  by (simp add: cont_iff)

lemma items_empty: "inv s \<Longrightarrow> items s l = [] \<longleftrightarrow> (\<forall>i. cont s i \<noteq> Some l)"
  by (metis cont_iff emptyE list.set(1) list.set_sel(1))

lemma length_items: "inv s \<Longrightarrow> length (items s l) = card {i. cont s i = Some l}"
  by (metis distinct_items distinct_card set_items)

lemma finite_listed: "inv s \<Longrightarrow> finite {i. cont s i = Some l}"
  by (metis List.finite_set set_items)

lemma length_rem:
  assumes "inv s" and "cont s i = Some l"
  shows "length (items s l) = Suc (length (items (rem i s) l))"
proof -
  have "{j. cont s j = Some l} = insert i {j. cont (rem i s) j = Some l}"
    using assms(2) by (auto simp: cont_rem)
  moreover have "i \<notin> {j. cont (rem i s) j = Some l}" by (simp add: cont_rem)
  ultimately show ?thesis
    using assms(1) inv_rem [OF assms(1), of i] finite_listed [OF inv_rem [OF assms(1), of i], of l]
    by (simp add: length_items)
qed

lemma rem_empty:
  assumes "inv s" and "cont s i = Some l"
  shows "items (rem i s) l = [] \<longleftrightarrow> (\<forall>j. cont s j = Some l \<longrightarrow> j = i)"
  using items_empty [OF inv_rem [OF assms(1), of i], of l] by (auto simp: cont_rem)

lemma length_ins:
  assumes "inv s" and "cont s i = None"
  shows "length (items (ins l i s) l) = Suc (length (items s l))"
proof -
  have "{j. cont (ins l i s) j = Some l} = insert i {j. cont s j = Some l}"
    using assms(2) by (auto simp: cont_ins)
  then show ?thesis
    using assms finite_listed [OF assms(1), of l] inv_ins [OF assms, of l]
    by (simp add: length_items)
qed

lemma ins_not_empty: "inv s \<Longrightarrow> cont s i = None \<Longrightarrow> items (ins l i s) l \<noteq> []"
  using length_ins [of s i l] by auto

lemma move:
  assumes "inv s"
  shows "inv (ins l i (rem i s))" and "cont (ins l i (rem i s)) = (cont s)(i \<mapsto> l)"
  using assms by (simp_all add: inv_ins inv_rem cont_ins cont_rem)

lemma only_list: "inv s \<Longrightarrow> cont s i = Some l \<Longrightarrow> i \<in> set (items s l') \<longleftrightarrow> l' = l"
  by (auto simp: set_items)

end

locale sorted_item_lists = item_lists inv items cont ins rem
  for inv :: "'s \<Rightarrow> bool" and items :: "'s \<Rightarrow> 'l \<Rightarrow> 'i list" and cont :: "'s \<Rightarrow> 'i \<Rightarrow> 'l option"
    and ins :: "'l \<Rightarrow> 'i \<Rightarrow> 's \<Rightarrow> 's" and rem :: "'i \<Rightarrow> 's \<Rightarrow> 's" +
  fixes val :: "'s \<Rightarrow> 'i \<Rightarrow> 'v :: linorder"
  assumes val_ins: "val (ins l i s) = val s"
    and val_rem: "val (rem i s) = val s"
    and sorted_ins: "sorted (map (val s) (items s l)) \<Longrightarrow> sorted (map (val s) (items (ins l i s) l))"
    and sorted_rem: "sorted (map (val s) (items s l)) \<Longrightarrow> sorted (map (val s) (items (rem i s) l))"
    and ins_other: "l' \<noteq> l \<Longrightarrow> items (ins l i s) l' = items s l'"
begin

definition sorted_list :: "'s \<Rightarrow> 'l \<Rightarrow> bool" where
  "sorted_list s l \<longleftrightarrow> sorted (map (val s) (items s l))"

lemma sorted_list_ins: "sorted_list s l \<Longrightarrow> sorted_list (ins l' i s) l"
  by (cases "l' = l") (simp_all add: sorted_list_def val_ins sorted_ins ins_other)

lemma sorted_list_rem: "sorted_list s l \<Longrightarrow> sorted_list (rem i s) l"
  by (simp add: sorted_list_def val_rem sorted_rem)

lemma head_least:
  assumes "inv s" and "sorted_list s l" and "items s l = i # is" and "cont s j = Some l"
  shows "val s i \<le> val s j"
  using assms(2-4) cont_iff [OF assms(1), of j l] by (auto simp: sorted_list_def)

end

section \<open>The list component provides them\<close>

lemma set_insert_before [simp]: "set (insert_before j i xs) = insert i (set xs)"
proof -
  have "set xs = set (takeWhile (\<lambda>x. Some x \<noteq> j) xs @ dropWhile (\<lambda>x. Some x \<noteq> j) xs)" by simp
  then show ?thesis unfolding insert_before_def set_append by auto
qed

lemma set_insert_sorted [simp]: "set (insert_sorted f i xs) = insert i (set xs)"
proof -
  have "set xs = set (takeWhile (\<lambda>x. f x \<le> f i) xs @ dropWhile (\<lambda>x. f x \<le> f i) xs)" by simp
  then show ?thesis unfolding insert_sorted_def set_append by auto
qed

abbreviation wf_store :: "('l, 'i, 'o) astore \<Rightarrow> bool" where
  "wf_store \<equiv> wf_astore UNIV UNIV"

lemma wf_store_cont: "wf_store a \<Longrightarrow> a_container a i = Some l \<longleftrightarrow> i \<in> set (a_items a l)"
  by (simp add: wf_astore_def)

lemma wf_store_insert_end:
  assumes "wf_store a" and "a_container a i = None"
  shows "wf_store (a_insert_end l i a)"
proof -
  have "distinct (a_items a l)" using assms(1) by (simp add: wf_astore_def)
  moreover have "a_index a l = None \<or> (\<exists>k. a_index a l = Some k \<and> k \<in> set (a_items a l))"
    using assms(1) by (auto simp: wf_astore_def)
  ultimately obtain as bs where "a_items a l = as @ bs"
    and "insert_before (a_index a l) i (a_items a l) = as @ i # bs"
    by (rule insert_before_split)
  then show ?thesis
    using wf_astore_insert [OF assms(1) UNIV_I UNIV_I assms(2)] by (simp add: a_insert_end_def)
qed

lemma wf_store_insert:
  assumes "wf_store a" and "a_container a i = None"
  shows "wf_store (a_insert l i a)"
  unfolding a_insert_def insert_sorted_def
  by (rule wf_astore_insert [OF assms(1) UNIV_I UNIV_I assms(2)]) simp

lemma a_container_laws [list_laws]:
  "a_container (a_insert_end l i a) = (a_container a)(i \<mapsto> l)"
  "a_container (a_insert l i a) = (a_container a)(i \<mapsto> l)"
  "a_container (a_remove i a) = (a_container a)(i := None)"
  by (auto simp: a_insert_end_def a_insert_def a_remove_def split: option.split)

lemma a_value_laws [list_laws]:
  "a_value (a_insert_end l i a) = a_value a" "a_owner (a_insert_end l i a) = a_owner a"
  "a_value (a_insert l i a) = a_value a" "a_owner (a_insert l i a) = a_owner a"
  "a_value (a_remove i a) = a_value a" "a_owner (a_remove i a) = a_owner a"
  by (auto simp: a_insert_end_def a_insert_def a_remove_def split: option.split)

lemma sorted_insert_sorted:
  "sorted (map f xs) \<Longrightarrow> sorted (map f (insert_sorted f i xs))"
  unfolding insert_sorted_def by (rule takeWhile_dropWhile_sorted)

lemma a_insert_items:
  "a_items (a_insert l i a) l' =
     (if l' = l then insert_sorted (a_value a) i (a_items a l) else a_items a l')"
  by (simp add: a_insert_def)

interpretation ends: item_lists wf_store a_items a_container a_insert_end a_remove
proof unfold_locales
  show "wf_store s \<Longrightarrow> distinct (a_items s l)" for s :: "('l, 'i, 'o) astore" and l
    by (simp add: wf_astore_def)
qed (simp_all add: wf_store_cont wf_store_insert_end wf_astore_remove a_container_laws)

interpretation sorts: sorted_item_lists wf_store a_items a_container a_insert a_remove a_value
proof unfold_locales
  show "sorted (map (a_value s) (a_items s l)) \<Longrightarrow> sorted (map (a_value s) (a_items (a_remove i s) l))"
    for s :: "('l, 'i, 'o) astore" and l i
    by (auto simp: a_remove_def sorted_map_remove1 split: option.split)
qed (simp_all add: wf_store_cont wf_store_insert ends.distinct_items wf_astore_remove a_container_laws
       a_value_laws a_insert_items sorted_insert_sorted)

end
