(* ===== verification/FreeRTOS_List_Properties.thy ===== *)
theory FreeRTOS_List_Properties
  imports FreeRTOS_List_Contract
begin

text \<open>
  What \<open>freertos/list.c\<close> guarantees its callers: sorted, stable insertion that always returns,
  exact removal, and fair service by the cursor that \<open>listGET_OWNER_OF_NEXT_ENTRY\<close> moves.
\<close>

section \<open>A concrete store for the witnesses\<close>

definition blank_store :: "(nat, nat, nat) list_store" where
  "blank_store = \<lparr>
     st_lists = (\<lambda>l. \<lparr>uxNumberOfItems = 7, pxIndex = Item 9,
        xListEnd = \<lparr>mini_xItemValue = 0, mini_pxNext = Item 9, mini_pxPrevious = Item 9\<rparr>\<rparr>),
     st_items = (\<lambda>i. \<lparr>xItemValue = of_nat (i div 2), pxNext = EndOf 9, pxPrevious = EndOf 9,
        pvOwner = 10 * i, pxContainer = None\<rparr>)\<rparr>"

definition blank_abs :: "(nat, nat, nat) astore" where
  "blank_abs = \<lparr>a_items = (\<lambda>_. []), a_index = (\<lambda>_. None), a_value = (\<lambda>i. of_nat (i div 2)),
     a_owner = (\<lambda>i. 10 * i), a_container = (\<lambda>_. None)\<rparr>"

lemma blank_repr: "list_repr {} UNIV blank_store blank_abs"
  by (simp add: list_repr_def wf_astore_def blank_store_def blank_abs_def)

definition store3 :: "(nat, nat, nat) list_store" where
  "store3 = vListInsertEnd 0 6 (vListInsertEnd 0 4 (vListInsertEnd 0 2 (vListInitialise 0 blank_store)))"

definition abs3 :: "(nat, nat, nat) astore" where
  "abs3 = a_insert_end 0 6 (a_insert_end 0 4 (a_insert_end 0 2 (a_init 0 blank_abs)))"

lemma repr3: "list_repr {0} UNIV store3 abs3"
proof -
  have "list_repr (insert 0 {}) UNIV (vListInitialise 0 blank_store) (a_init 0 blank_abs)"
    by (rule vListInitialise_refines [OF blank_repr]) (simp add: blank_abs_def)
  then have 0: "list_repr {0} UNIV (vListInitialise 0 blank_store) (a_init 0 blank_abs)" by simp
  have 1: "list_repr {0} UNIV (vListInsertEnd 0 2 (vListInitialise 0 blank_store))
            (a_insert_end 0 2 (a_init 0 blank_abs))"
    by (rule vListInsertEnd_refines [OF 0]) (simp_all add: a_init_def blank_abs_def)
  have 2: "list_repr {0} UNIV (vListInsertEnd 0 4 (vListInsertEnd 0 2 (vListInitialise 0 blank_store)))
            (a_insert_end 0 4 (a_insert_end 0 2 (a_init 0 blank_abs)))"
    by (rule vListInsertEnd_refines [OF 1])
      (simp_all add: a_init_def blank_abs_def a_container_laws)
  show ?thesis unfolding store3_def abs3_def
    by (rule vListInsertEnd_refines [OF 2])
      (simp_all add: a_init_def blank_abs_def a_container_laws)
qed

lemma abs3_fields [simp]:
  "a_items abs3 0 = [2, 4, 6]" "a_index abs3 0 = None" "a_owner abs3 i = 10 * i"
  "a_value abs3 i = of_nat (i div 2)" "a_container abs3 i = (if i \<in> {2, 4, 6} then Some 0 else None)"
  by (auto simp: abs3_def a_insert_end_def a_init_def blank_abs_def insert_before_def)

section \<open>Insertion\<close>

text \<open>
  C1. \<open>vListInsert\<close> always returns on a well-formed store, and it puts the item after every
  item whose value is not greater and before every item whose value is greater: a sorted
  list stays sorted and items of equal value are served in the order of their insertion.
\<close>

theorem vListInsert_sorted_stable:
  assumes "list_repr S I s a" and "l \<in> S" and "i \<in> I" and "a_container a i = None"
    and "sorted (map (a_value a) (a_items a l))"
  shows "\<exists>s' xs ys. vListInsert l i s = Some s' \<and> a_items a l = xs @ ys
    \<and> list_repr S I s' (a\<lparr>a_items := (a_items a)(l := xs @ i # ys),
                         a_container := (a_container a)(i \<mapsto> l)\<rparr>)
    \<and> (\<forall>x\<in>set xs. a_value a x \<le> a_value a i) \<and> (\<forall>y\<in>set ys. a_value a i < a_value a y)
    \<and> sorted (map (a_value a) (xs @ i # ys))"
proof -
  let ?P = "\<lambda>x. a_value a x \<le> a_value a i"
  let ?xs = "takeWhile ?P (a_items a l)" and ?ys = "dropWhile ?P (a_items a l)"
  obtain s' where s': "vListInsert l i s = Some s'" "list_repr S I s' (a_insert l i a)"
    using vListInsert_refines [OF assms(1-4)] by blast
  have "\<forall>y\<in>set ?ys. a_value a i < a_value a y"
    using sorted_dropWhile_greater [OF assms(5)] by blast
  moreover have "sorted (map (a_value a) (?xs @ i # ?ys))"
    using takeWhile_dropWhile_sorted [OF assms(5)] by simp
  moreover have "\<forall>x\<in>set ?xs. ?P x" by (blast dest: set_takeWhileD)
  moreover have "a_items a l = ?xs @ ?ys" by simp
  ultimately show ?thesis
    using s' unfolding a_insert_def insert_sorted_def by blast
qed

lemma vListInsert_sorted_stable_witness:
  "\<exists>s' xs ys. vListInsert 0 5 store3 = Some s' \<and> [2, 4, 6] = xs @ ys
    \<and> list_repr {0} UNIV s' (abs3\<lparr>a_items := (a_items abs3)(0 := xs @ 5 # ys),
                                 a_container := (a_container abs3)(5 \<mapsto> 0)\<rparr>)
    \<and> (\<forall>x\<in>set xs. a_value abs3 x \<le> a_value abs3 5) \<and> (\<forall>y\<in>set ys. a_value abs3 5 < a_value abs3 y)
    \<and> sorted (map (a_value abs3) (xs @ 5 # ys))"
  using vListInsert_sorted_stable [OF repr3, of 0 5] by simp

lemma insert_before_at:
  assumes "distinct xs" and "cursor_at xs c j" and "xs \<noteq> []"
  shows "insert_before c i xs = (case c of None \<Rightarrow> xs @ [i] | Some _ \<Rightarrow> take j xs @ i # drop j xs)"
proof (cases c)
  case None
  then show ?thesis by (simp add: insert_before_def)
next
  case (Some e)
  with assms(2) have j: "j < length xs" "xs ! j = e" by (auto simp: cursor_at_def)
  have xs: "xs = take j xs @ e # drop (Suc j) xs" using id_take_nth_drop [of j xs] j by simp
  with assms(1) have "e \<notin> set (take j xs)"
    by (metis distinct_append disjoint_iff list.set_intros(1))
  then have "takeWhile (\<lambda>x. x \<noteq> e) (take j xs @ e # drop (Suc j) xs) = take j xs"
    and "dropWhile (\<lambda>x. x \<noteq> e) (take j xs @ e # drop (Suc j) xs) = e # drop (Suc j) xs"
    by (subst takeWhile_append2 dropWhile_append2; auto)+
  then show ?thesis using Some xs j Cons_nth_drop_Suc [of j xs] by (simp add: insert_before_def)
qed

lemma mod_once_round: "k \<le> n \<Longrightarrow> Suc (n + k) mod Suc n = k"
  by (metis add_Suc le_imp_less_Suc mod_add_self1 mod_less)

lemma nth_inserted:
  assumes "j < length xs" and "k < length xs"
  shows "(take j xs @ i # drop j xs) ! ((Suc (Suc j) + k) mod Suc (length xs))
    = (if Suc k = length xs then i else xs ! ((Suc j + k) mod length xs))"
proof (cases "Suc j + k < length xs")
  case True
  then show ?thesis using assms by (simp add: nth_append nth_Cons' split: if_splits)
next
  case False
  then have "(Suc (Suc j) + k) mod Suc (length xs) = Suc j + k - length xs"
    and "Suc k \<noteq> length xs \<Longrightarrow> (Suc j + k) mod length xs = Suc j + k - length xs"
    using assms by (simp_all add: mod_if)
  then show ?thesis using False assms by (auto simp: nth_append)
qed

lemma length_filter_cursor:
  assumes "distinct xs" and "cursor_at xs c j" and "xs \<noteq> []"
  shows "length (filter (\<lambda>x. c \<noteq> Some x) xs) = (case c of None \<Rightarrow> length xs | Some _ \<Rightarrow> length xs - 1)"
proof (cases c)
  case (Some e)
  then have "e \<in> set xs" using assms(2) by (auto simp: cursor_at_def)
  then have "length (removeAll e xs) = length xs - 1"
    using assms(1) by (metis length_remove1 distinct_remove1_removeAll)
  then show ?thesis using Some by (simp add: removeAll_filter_not_eq)
qed simp

text \<open>
  \<open>vListInsertEnd\<close> makes the new item the last to be served: of the following calls of
  \<open>listGET_OWNER_OF_NEXT_ENTRY\<close> the first ones return every other item (but the one just
  served), in the order they would have been served in without it, and the next one
  returns the new item.
\<close>

theorem vListInsertEnd_served_last:
  assumes "list_repr S I s a" and "l \<in> S" and "i \<in> I" and "a_container a i = None"
  shows "next_owners (Suc (length (filter (\<lambda>x. a_index a l \<noteq> Some x) (a_items a l)))) l (vListInsertEnd l i s)
    = next_owners (length (filter (\<lambda>x. a_index a l \<noteq> Some x) (a_items a l))) l s @ [Some (a_owner a i)]"
proof -
  let ?xs = "a_items a l" and ?c = "a_index a l" and ?a = "a_insert_end l i a"
  note W = wf_astoreD [OF list_reprD(1) [OF assms(1)]]
  have R: "list_repr S I (vListInsertEnd l i s) ?a" by (rule vListInsertEnd_refines [OF assms])
  have new: "a_items ?a l = insert_before ?c i ?xs" "a_index ?a = a_index a" "a_owner ?a = a_owner a"
    by (simp_all add: a_insert_end_def)
  have ne: "a_items ?a l \<noteq> []" using new by (simp add: insert_before_def)
  show ?thesis
  proof (cases "?xs = []")
    case True
    then have "?c = None" using W(3) [OF assms(2)] by (cases ?c) auto
    then have "cursor_at (a_items ?a l) (a_index ?a l) 0"
      using True by (simp add: cursor_at_def new insert_before_def)
    from next_owners_nth [OF R assms(2) ne this, of 1] show ?thesis
      using True by (simp add: new insert_before_def Let_def)
  next
    case False
    then obtain j where j: "cursor_at ?xs ?c j" "j < length ?xs"
      using cursor_exists [of ?xs ?c] W(3) [OF assms(2)] by metis
    note old = next_owners_nth [OF assms(1,2) False j(1)]
    note ins = insert_before_at [OF W(1) [OF assms(2)] j(1) False, of i]
    note len = length_filter_cursor [OF W(1) [OF assms(2)] j(1) False]
    show ?thesis
    proof (cases ?c)
      case None
      then have "Suc j = length ?xs" using j(1) by (simp add: cursor_at_def)
      moreover have "cursor_at (a_items ?a l) (a_index ?a l) (Suc j)"
        using None ins by (simp add: cursor_at_def new \<open>Suc j = length ?xs\<close>)
      note next_owners_nth [OF R assms(2) ne this]
      ultimately show ?thesis using None len ins old
        by (simp add: new nth_append mod_once_round)
    next
      case (Some e)
      then have "cursor_at (a_items ?a l) (a_index ?a l) (Suc j)"
        using j ins by (auto simp: cursor_at_def new nth_append)
      note nx = next_owners_nth [OF R assms(2) ne this]
      obtain m where "length ?xs = Suc m" using j(2) by (cases ?xs) auto
      moreover have "min (length ?xs) j + (length ?xs - j) = length ?xs" using j(2) by simp
      ultimately show ?thesis using Some len ins old nx nth_inserted [OF j(2)]
        by (simp add: new)
    qed
  qed
qed

lemma vListInsertEnd_served_last_witness:
  "next_owners 4 0 (vListInsertEnd 0 8 store3) = next_owners 3 0 store3 @ [Some 80]"
  using vListInsertEnd_served_last [OF repr3, of 0 8] by (simp add: eval_nat_numeral del: next_owners.simps)

section \<open>The cursor and removal\<close>

text \<open>The order in which the items of a list are served, from the cursor on.\<close>

definition service_order :: "'i option \<Rightarrow> 'i list \<Rightarrow> 'i list" where
  "service_order c xs =
     (case c of None \<Rightarrow> xs
      | Some e \<Rightarrow> tl (dropWhile (\<lambda>x. x \<noteq> e) xs) @ takeWhile (\<lambda>x. x \<noteq> e) xs @ [e])"

lemma split_at:
  assumes "e \<notin> set as"
  shows "takeWhile (\<lambda>x. x \<noteq> e) (as @ e # bs) = as" and "dropWhile (\<lambda>x. x \<noteq> e) (as @ e # bs) = e # bs"
  using assms by (induction as) auto

lemma service_order_rotate:
  assumes "distinct xs" and "cursor_at xs c j" and "xs \<noteq> []"
  shows "service_order c xs = rotate (Suc j) xs"
proof (cases c)
  case None
  then show ?thesis using assms(2) by (simp add: service_order_def cursor_at_def)
next
  case (Some e)
  with assms(2) have j: "j < length xs" "xs ! j = e" by (auto simp: cursor_at_def)
  have xs: "xs = take j xs @ e # drop (Suc j) xs" using id_take_nth_drop [of j xs] j by simp
  with assms(1) have "e \<notin> set (take j xs)"
    by (metis distinct_append disjoint_iff list.set_intros(1))
  from split_at [OF this, of "drop (Suc j) xs"] have "service_order c xs = drop (Suc j) xs @ take j xs @ [e]"
    using xs Some by (simp add: service_order_def)
  moreover have "take j xs @ [e] = take (Suc j) xs" using j by (simp add: take_Suc_conv_app_nth)
  ultimately show ?thesis
    using j by (cases "Suc j = length xs") (simp_all add: rotate_drop_take)
qed

lemma next_entry_rounds:
  assumes "list_repr S I s a" and "l \<in> S" and "a_items a l \<noteq> []"
  shows "next_owners (r * length (a_items a l)) l s
    = concat (replicate r (map (\<lambda>i. Some (a_owner a i)) (service_order (a_index a l) (a_items a l))))"
proof -
  let ?xs = "a_items a l" and ?f = "\<lambda>i. Some (a_owner a i)"
  note W = wf_astoreD [OF list_reprD(1) [OF assms(1)]]
  obtain j where j: "cursor_at ?xs (a_index a l) j"
    using cursor_exists [of ?xs "a_index a l"] W(3) [OF assms(2)] assms(3) by metis
  define ys where "ys = rotate (Suc j) ?xs"
  have ys: "length ys = length ?xs" "\<And>k. ?xs ! ((Suc j + k) mod length ?xs) = ys ! (k mod length ys)"
    using assms(3) nth_rotate [of "_ mod length ?xs" ?xs "Suc j"]
    by (simp_all add: ys_def mod_add_right_eq del: add_Suc rotate_Suc)
  have "map (\<lambda>k. ?f (ys ! (k mod length ys))) [0..<r * length ys] = concat (replicate r (map ?f ys))"
    by (rule map_nth_rounds)
  then show ?thesis
    using next_owners_nth [OF assms j, of "r * length ?xs"]
      service_order_rotate [OF W(1) [OF assms(2)] j assms(3)] ys by (simp add: ys_def)
qed

text \<open>
  Round robin: on a non-empty list of \<open>n\<close> items, \<open>n\<close> calls of
  \<open>listGET_OWNER_OF_NEXT_ENTRY\<close> return the owner of every item once, in list order from the
  cursor on, and every further round of \<open>n\<close> calls returns them again in the same order.
\<close>

theorem next_entry_round_robin:
  assumes "list_repr S I s a" and "l \<in> S" and "a_items a l \<noteq> []"
  shows "next_owners (r * length (a_items a l)) l s
    = concat (replicate r (map (\<lambda>i. Some (a_owner a i)) (service_order (a_index a l) (a_items a l))))"
  by (rule next_entry_rounds [OF assms])

lemma next_entry_round_robin_witness:
  "next_owners 6 0 store3 = map Some [20, 40, 60, 20, 40, 60]"
  using next_entry_round_robin [OF repr3, of 0 2]
  by (simp add: service_order_def eval_nat_numeral del: next_owners.simps)

lemma service_order_remove:
  assumes "distinct xs" and "i \<in> set xs" and "\<And>e. c = Some e \<Longrightarrow> e \<in> set xs"
  shows "service_order (if c = Some i then pred_item i xs else c) (remove1 i xs)
    = remove1 i (service_order c xs)"
proof -
  obtain as bs where xs: "xs = as @ i # bs" "i \<notin> set as" "i \<notin> set bs" "remove1 i xs = as @ bs"
    using remove1_split [OF assms(1,2)] by blast
  show ?thesis
  proof (cases "c = None \<or> c = Some i")
    case True
    then show ?thesis
    proof (cases as rule: rev_cases)
      case (snoc ps p)
      then have "p \<notin> set ps" using assms(1) xs(1) by auto
      then show ?thesis
        using True xs snoc split_at [of i as bs] split_at [of p ps bs]
        by (auto simp: service_order_def pred_item_def remove1_append)
    qed (use xs True in \<open>auto simp: service_order_def pred_item_def remove1_append\<close>)
  next
    case False
    then obtain e where e: "c = Some e" "e \<noteq> i" by auto
    with assms(3) xs(1) consider "e \<in> set as" | "e \<in> set bs" by auto
    then show ?thesis
    proof cases
      case 1
      then obtain us vs where "as = us @ e # vs" "e \<notin> set us" by (meson split_list_first)
      then show ?thesis using xs e split_at [of e us "vs @ i # bs"] split_at [of e us "vs @ bs"]
        by (auto simp: service_order_def remove1_append)
    next
      case 2
      then obtain us vs where "bs = us @ e # vs" "e \<notin> set us" by (meson split_list_first)
      moreover have "e \<notin> set as" using 2 assms(1) xs(1) by auto
      ultimately show ?thesis
        using xs e split_at [of e "as @ i # us" vs] split_at [of e "as @ us" vs]
        by (auto simp: service_order_def remove1_append)
    qed
  qed
qed

text \<open>
  \<open>uxListRemove\<close> takes the item out of the list it is in and out of no other, returns how many
  items are left, clears the container, and does not disturb the service: the remaining
  items are served in the order they would have been served in, even when the removed item
  is the one the cursor stands on.
\<close>

theorem uxListRemove_keeps_service:
  assumes "list_repr S I s a" and "i \<in> I" and "a_container a i = Some l"
  shows "\<exists>t. uxListRemove i s = Some (of_nat (length (a_items a l) - 1), t)
    \<and> list_repr S I t (a_remove i a)
    \<and> a_items (a_remove i a) = (a_items a)(l := remove1 i (a_items a l))
    \<and> pxContainer (st_items t i) = None
    \<and> next_owners (length (a_items a l) - 1) l t
      = map (\<lambda>x. Some (a_owner a x)) (remove1 i (service_order (a_index a l) (a_items a l)))"
proof -
  let ?xs = "a_items a l"
  have W: "wf_astore S I a" by (rule list_reprD(1) [OF assms(1)])
  have l: "l \<in> S" and i: "i \<in> set ?xs" using W assms(2,3) by (auto simp: wf_astore_def)
  note d = wf_astoreD(1) [OF W l]
  obtain n t where t: "uxListRemove i s = Some (n, t)" "list_repr S I t (a_remove i a)"
      "n = of_nat (length (a_items (a_remove i a) l))"
    using uxListRemove_refines [OF assms] by blast
  have items: "a_items (a_remove i a) = (a_items a)(l := remove1 i ?xs)"
      "a_container (a_remove i a) i = None" "a_owner (a_remove i a) = a_owner a"
      "a_index (a_remove i a) l = (if a_index a l = Some i then pred_item i ?xs else a_index a l)"
    using assms(3) by (auto simp: a_remove_def)
  moreover have "pxContainer (st_items t i) = None"
    using list_reprD(8) [OF t(2) assms(2)] items(2) by simp
  moreover have len: "length (remove1 i ?xs) = length ?xs - 1" using i by (simp add: length_remove1)
  moreover have "next_owners (length ?xs - 1) l t
      = map (\<lambda>x. Some (a_owner a x)) (remove1 i (service_order (a_index a l) ?xs))"
  proof (cases "remove1 i ?xs = []")
    case True
    have "service_order (a_index a l) ?xs = [i]"
    proof -
      have "?xs = [i]" using True i len by (cases ?xs) (auto split: if_splits)
      then show ?thesis using wf_astoreD(3) [OF W l] by (auto simp: service_order_def split: option.split)
    qed
    then show ?thesis using True len by simp
  next
    case False
    then show ?thesis
      using next_entry_rounds [OF t(2) l, of 1] items len
        service_order_remove [OF d i wf_astoreD(3) [OF W l]] by simp
  qed
  ultimately show ?thesis using t by (simp only:) (use len in auto)
qed

lemma uxListRemove_keeps_service_witness:
  "\<exists>t. uxListRemove 4 store3 = Some (2, t) \<and> list_repr {0} UNIV t (a_remove 4 abs3)
    \<and> pxContainer (st_items t 4) = None \<and> next_owners 2 0 t = [Some 20, Some 60]"
  using uxListRemove_keeps_service [OF repr3, of 4 0]
  by (auto simp: service_order_def numeral_2_eq_2 simp del: next_owners.simps)

end
