(* ===== verification/Kernel.thy ===== *)
theory Kernel
  imports FreeRTOS_List "HOL-Library.Monad_Syntax"
begin

text \<open>
  The FreeRTOS scheduler of \<open>freertos/tasks.c\<close> with the configuration of
  \<open>freertos/port/FreeRTOSConfig.h\<close>: task control blocks, the ready, delayed, suspended,
  pending and terminated lists, the tick, and the operations that move tasks between the
  lists. The lists are those of the abstract store, which \<open>list.c\<close> implements
  (theory \<open>FreeRTOS_List_Refine\<close>). \<open>None\<close> is the result of an operation that would
  dereference NULL or read past a list's end marker, or would not return.
\<close>

section \<open>State\<close>

type_synonym task = u32

datatype item = StateItem task | EventItem task

datatype klist =
    ReadyList u32
  | DelayedTaskList1 | DelayedTaskList2
  | PendingReadyList
  | TasksWaitingTermination
  | SuspendedTaskList
  | TasksWaitingToSend u32
  | TasksWaitingToReceive u32
  | TasksWaitingForBits u32

datatype notify_state = taskNOT_WAITING_NOTIFICATION | taskWAITING_NOTIFICATION | taskNOTIFICATION_RECEIVED

record tskTCB =
  tcb_uxPriority :: u32
  tcb_uxBasePriority :: u32
  tcb_uxMutexesHeld :: u32
  tcb_uxTCBNumber :: u32
  tcb_uxTaskNumber :: u32
  tcb_ulNotifiedValue :: u32
  tcb_ucNotifyState :: notify_state

text \<open>\<open>pendsv\<close> is the PENDSVSET bit of the interrupt control register: a requested context switch.\<close>

record kernel =
  klists :: "(klist, item, task) astore"
  tcbs :: "task \<Rightarrow> tskTCB"
  pxCurrentTCB :: "task option"
  pxDelayedTaskList :: klist
  pxOverflowDelayedTaskList :: klist
  uxDeletedTasksWaitingCleanUp :: u32
  uxCurrentNumberOfTasks :: u32
  xTickCount :: u32
  uxTopReadyPriority :: u32
  xSchedulerRunning :: bool
  uxPendedTicks :: u32
  xYieldPending :: bool
  xNumOfOverflows :: u32
  uxTaskNumber :: u32
  xNextTaskUnblockTime :: u32
  uxSchedulerSuspended :: u32
  pendsv :: bool
  freed_tcbs :: "task list"

definition configMAX_PRIORITIES :: u32 where
  "configMAX_PRIORITIES = 5"

definition taskEVENT_LIST_ITEM_VALUE_IN_USE :: u32 where
  "taskEVENT_LIST_ITEM_VALUE_IN_USE = 0x80000000"

abbreviation prio :: "kernel \<Rightarrow> task \<Rightarrow> u32" where
  "prio k t \<equiv> tcb_uxPriority (tcbs k t)"

abbreviation kitems :: "kernel \<Rightarrow> klist \<Rightarrow> item list" where
  "kitems k l \<equiv> a_items (klists k) l"

abbreviation container :: "kernel \<Rightarrow> item \<Rightarrow> klist option" where
  "container k i \<equiv> a_container (klists k) i"

abbreviation item_value :: "kernel \<Rightarrow> item \<Rightarrow> u32" where
  "item_value k i \<equiv> a_value (klists k) i"

definition upd_tcb :: "task \<Rightarrow> (tskTCB \<Rightarrow> tskTCB) \<Rightarrow> kernel \<Rightarrow> kernel" where
  "upd_tcb t f k = k\<lparr>tcbs := (tcbs k)(t := f (tcbs k t))\<rparr>"

section \<open>List accesses\<close>

text \<open>\<open>uxListRemove\<close> on the kernel's lists; it returns how many items are left.\<close>

definition k_remove :: "item \<Rightarrow> kernel \<Rightarrow> (nat \<times> kernel) option" where
  "k_remove i k =
     (case container k i of
        None \<Rightarrow> None
      | Some l \<Rightarrow> (let a = a_remove i (klists k) in Some (length (a_items a l), k\<lparr>klists := a\<rparr>)))"

definition k_insert_end :: "klist \<Rightarrow> item \<Rightarrow> kernel \<Rightarrow> kernel" where
  "k_insert_end l i k = k\<lparr>klists := a_insert_end l i (klists k)\<rparr>"

definition k_insert :: "klist \<Rightarrow> item \<Rightarrow> kernel \<Rightarrow> kernel" where
  "k_insert l i k = k\<lparr>klists := a_insert l i (klists k)\<rparr>"

definition k_set_value :: "item \<Rightarrow> u32 \<Rightarrow> kernel \<Rightarrow> kernel" where
  "k_set_value i v k = k\<lparr>klists := a_set_value i v (klists k)\<rparr>"

definition k_head_owner :: "klist \<Rightarrow> kernel \<Rightarrow> task option" where
  "k_head_owner l k = (case kitems k l of [] \<Rightarrow> None | i # _ \<Rightarrow> Some (a_owner (klists k) i))"

definition k_next_owner :: "klist \<Rightarrow> kernel \<Rightarrow> (task \<times> kernel) option" where
  "k_next_owner l k =
     (let a = a_next l (klists k) in
      case a_index a l of None \<Rightarrow> None | Some i \<Rightarrow> Some (a_owner a i, k\<lparr>klists := a\<rparr>))"

text \<open>\<open>if( container != NULL ) uxListRemove\<close>, as the code guards event list items.\<close>

definition k_remove_if_listed :: "item \<Rightarrow> kernel \<Rightarrow> kernel" where
  "k_remove_if_listed i k = (case k_remove i k of None \<Rightarrow> k | Some (_, k') \<Rightarrow> k')"

section \<open>Ready priorities\<close>

text \<open>\<open>clz\<close>, the instruction behind \<open>ucPortCountLeadingZeros\<close>.\<close>

definition ucPortCountLeadingZeros :: "u32 \<Rightarrow> nat" where
  "ucPortCountLeadingZeros w = length (takeWhile (\<lambda>n. \<not> bit w n) (rev [0..<32]))"

definition portRECORD_READY_PRIORITY :: "u32 \<Rightarrow> u32 \<Rightarrow> u32" where
  "portRECORD_READY_PRIORITY p bits = bits OR push_bit (unat p) 1"

definition portRESET_READY_PRIORITY :: "u32 \<Rightarrow> u32 \<Rightarrow> u32" where
  "portRESET_READY_PRIORITY p bits = bits AND NOT (push_bit (unat p) 1)"

definition portGET_HIGHEST_PRIORITY :: "u32 \<Rightarrow> u32" where
  "portGET_HIGHEST_PRIORITY bits = 31 - of_nat (ucPortCountLeadingZeros bits)"

definition taskRECORD_READY_PRIORITY :: "u32 \<Rightarrow> kernel \<Rightarrow> kernel" where
  "taskRECORD_READY_PRIORITY p k =
     k\<lparr>uxTopReadyPriority := portRECORD_READY_PRIORITY p (uxTopReadyPriority k)\<rparr>"

definition portRESET_TOP :: "u32 \<Rightarrow> kernel \<Rightarrow> kernel" where
  "portRESET_TOP p k =
     k\<lparr>uxTopReadyPriority := portRESET_READY_PRIORITY p (uxTopReadyPriority k)\<rparr>"

definition taskRESET_READY_PRIORITY :: "u32 \<Rightarrow> kernel \<Rightarrow> kernel" where
  "taskRESET_READY_PRIORITY p k =
     (if length (kitems k (ReadyList p)) = 0 then portRESET_TOP p k else k)"

text \<open>
  \<open>taskSELECT_HIGHEST_PRIORITY_TASK\<close>: with no bit set \<open>uxTopPriority\<close> is no index of the
  array, and with a bit of an empty list the owner read is that of the end marker.
\<close>

definition taskSELECT_HIGHEST_PRIORITY_TASK :: "kernel \<Rightarrow> kernel option" where
  "taskSELECT_HIGHEST_PRIORITY_TASK k =
     (let p = portGET_HIGHEST_PRIORITY (uxTopReadyPriority k) in
      if p < configMAX_PRIORITIES
      then do { (t, k) \<leftarrow> k_next_owner (ReadyList p) k; Some (k\<lparr>pxCurrentTCB := Some t\<rparr>) }
      else None)"

definition prvAddTaskToReadyList :: "task \<Rightarrow> kernel \<Rightarrow> kernel" where
  "prvAddTaskToReadyList t k =
     k_insert_end (ReadyList (prio k t)) (StateItem t) (taskRECORD_READY_PRIORITY (prio k t) k)"

definition portYIELD :: "kernel \<Rightarrow> kernel" where
  "portYIELD k = k\<lparr>pendsv := True\<rparr>"

section \<open>Delays and the tick\<close>

definition prvResetNextTaskUnblockTime :: "kernel \<Rightarrow> kernel" where
  "prvResetNextTaskUnblockTime k =
     (case k_head_owner (pxDelayedTaskList k) k of
        None \<Rightarrow> k\<lparr>xNextTaskUnblockTime := portMAX_DELAY\<rparr>
      | Some t \<Rightarrow> k\<lparr>xNextTaskUnblockTime := item_value k (StateItem t)\<rparr>)"

definition taskSWITCH_DELAYED_LISTS :: "kernel \<Rightarrow> kernel" where
  "taskSWITCH_DELAYED_LISTS k =
     prvResetNextTaskUnblockTime (k\<lparr>pxDelayedTaskList := pxOverflowDelayedTaskList k,
       pxOverflowDelayedTaskList := pxDelayedTaskList k,
       xNumOfOverflows := xNumOfOverflows k + 1\<rparr>)"

definition prvAddCurrentTaskToDelayedList :: "u32 \<Rightarrow> bool \<Rightarrow> kernel \<Rightarrow> kernel option" where
  "prvAddCurrentTaskToDelayedList xTicksToWait xCanBlockIndefinitely k =
     do {
       let xConstTickCount = xTickCount k;
       t \<leftarrow> pxCurrentTCB k;
       (left, k) \<leftarrow> k_remove (StateItem t) k;
       let k = (if left = 0 then portRESET_TOP (prio k t) k else k);
       Some (if xTicksToWait = portMAX_DELAY \<and> xCanBlockIndefinitely
             then k_insert_end SuspendedTaskList (StateItem t) k
             else
               let xTimeToWake = xConstTickCount + xTicksToWait;
                   k = k_set_value (StateItem t) xTimeToWake k
               in if xTimeToWake < xConstTickCount
                  then k_insert (pxOverflowDelayedTaskList k) (StateItem t) k
                  else
                    let k = k_insert (pxDelayedTaskList k) (StateItem t) k
                    in if xTimeToWake < xNextTaskUnblockTime k
                       then k\<lparr>xNextTaskUnblockTime := xTimeToWake\<rparr> else k)
     }"

text \<open>The \<open>for(;;)\<close> of \<open>xTaskIncrementTick\<close>; the flag is \<open>xSwitchRequired\<close>.\<close>

partial_function (option) tick_unblock_loop :: "u32 \<Rightarrow> bool \<Rightarrow> kernel \<Rightarrow> (bool \<times> kernel) option" where
  "tick_unblock_loop now sw k =
     (case kitems k (pxDelayedTaskList k) of
        [] \<Rightarrow> Some (sw, k\<lparr>xNextTaskUnblockTime := portMAX_DELAY\<rparr>)
      | i # _ \<Rightarrow>
          (let t = a_owner (klists k) i; v = item_value k (StateItem t) in
           if now < v then Some (sw, k\<lparr>xNextTaskUnblockTime := v\<rparr>)
           else Option.bind (k_remove (StateItem t) k) (\<lambda>r.
             let k = k_remove_if_listed (EventItem t) (snd r);
                 k = prvAddTaskToReadyList t k
             in Option.bind (pxCurrentTCB k) (\<lambda>c.
                  tick_unblock_loop now (sw \<or> prio k t \<ge> prio k c) k))))"

definition xTaskIncrementTick :: "kernel \<Rightarrow> (bool \<times> kernel) option" where
  "xTaskIncrementTick k =
     do {
       (sw, k) \<leftarrow>
         (if uxSchedulerSuspended k = 0 then
            do {
              let xConstTickCount = xTickCount k + 1;
              let k = k\<lparr>xTickCount := xConstTickCount\<rparr>;
              let k = (if xConstTickCount = 0 then taskSWITCH_DELAYED_LISTS k else k);
              (sw, k) \<leftarrow> (if xConstTickCount \<ge> xNextTaskUnblockTime k
                         then tick_unblock_loop xConstTickCount False k else Some (False, k));
              c \<leftarrow> pxCurrentTCB k;
              Some (sw \<or> length (kitems k (ReadyList (prio k c))) > 1, k)
            }
          else Some (False, k\<lparr>uxPendedTicks := uxPendedTicks k + 1\<rparr>));
       Some (sw \<or> xYieldPending k, k)
     }"

definition vTaskSwitchContext :: "kernel \<Rightarrow> kernel option" where
  "vTaskSwitchContext k =
     (if uxSchedulerSuspended k \<noteq> 0 then Some (k\<lparr>xYieldPending := True\<rparr>)
      else taskSELECT_HIGHEST_PRIORITY_TASK (k\<lparr>xYieldPending := False\<rparr>))"

text \<open>The handlers of \<open>freertos/port/port.c\<close>; saving and restoring registers is not modelled.\<close>

definition xPortPendSVHandler :: "kernel \<Rightarrow> kernel option" where
  "xPortPendSVHandler k = vTaskSwitchContext (k\<lparr>pendsv := False\<rparr>)"

definition xPortSysTickHandler :: "kernel \<Rightarrow> kernel option" where
  "xPortSysTickHandler k =
     do { (sw, k) \<leftarrow> xTaskIncrementTick k; Some (if sw then portYIELD k else k) }"

end
