(* ===== verification/Kernel_Inv.thy ===== *)
theory Kernel_Inv
  imports Kernel FreeRTOS_List_Contract
begin

text \<open>
  The scheduler's invariant (which list holds which items, what the ready bitmap and the
  delayed lists say) and how the list moves the scheduler is made of preserve it.
\<close>

section \<open>The ready bitmap\<close>

lemma bit_record: "p < 5 \<Longrightarrow>
  bit (portRECORD_READY_PRIORITY p bits) n \<longleftrightarrow> bit bits n \<or> n = unat p"
  unfolding portRECORD_READY_PRIORITY_def
  by (auto simp: bit_simps word_less_nat_alt)

lemma bit_reset: "bit (portRESET_READY_PRIORITY p bits) n \<longleftrightarrow> bit bits n \<and> n \<noteq> unat p"
  unfolding portRESET_READY_PRIORITY_def
  by (auto simp: bit_simps dest: bit_imp_le_length)

lemma reset_clear: "\<not> bit bits (unat p) \<Longrightarrow> portRESET_READY_PRIORITY p bits = bits"
  by (rule bit_word_eqI) (auto simp: bit_reset)

lemma clz_highest:
  assumes "bit w m" and "\<And>n. bit w n \<Longrightarrow> n \<le> m"
  shows "ucPortCountLeadingZeros w = 31 - m"
proof -
  have m: "m < 32" using bit_imp_le_length [OF assms(1)] by simp
  then have "[0..<32] = [0..<m] @ m # [Suc m..<32]"
    using upt_add_eq_append [of 0 m "32 - m"] upt_conv_Cons [of m 32] by simp
  then have "rev [0..<32] = rev [Suc m..<32] @ m # rev [0..<m]" by simp
  moreover have "\<forall>n\<in>set (rev [Suc m..<32]). \<not> bit w n" using assms(2) by fastforce
  ultimately have "takeWhile (\<lambda>n. \<not> bit w n) (rev [0..<32]) = rev [Suc m..<32]"
    using assms(1) takeWhile_append2 [of "rev [Suc m..<32]" "\<lambda>n. \<not> bit w n" "m # rev [0..<m]"]
    by simp
  then show ?thesis using m by (simp add: ucPortCountLeadingZeros_def)
qed

lemma highest_priority:
  assumes "bit w n"
  shows "bit w (unat (portGET_HIGHEST_PRIORITY w))"
    and "\<And>j. bit w j \<Longrightarrow> j \<le> unat (portGET_HIGHEST_PRIORITY w)"
proof -
  define m where "m = Max {j. bit w j}"
  have fin: "finite {j. bit w j}"
    by (rule finite_subset [of _ "{..<32}"]) (auto dest: bit_imp_le_length)
  then have m: "bit w m" "\<And>j. bit w j \<Longrightarrow> j \<le> m"
    using Max_in [OF fin] assms Max_ge [OF fin] unfolding m_def by auto
  have m32: "m < 32" using bit_imp_le_length [OF m(1)] by simp
  have "ucPortCountLeadingZeros w = 31 - m" by (rule clz_highest [OF m])
  then have "portGET_HIGHEST_PRIORITY w = 31 - of_nat (31 - m)"
    by (simp add: portGET_HIGHEST_PRIORITY_def)
  also have "\<dots> = of_nat m" using m32 by (simp add: of_nat_diff)
  finally have "unat (portGET_HIGHEST_PRIORITY w) = m" using m32 by (simp add: unat_of_nat)
  then show "bit w (unat (portGET_HIGHEST_PRIORITY w))"
    "\<And>j. bit w j \<Longrightarrow> j \<le> unat (portGET_HIGHEST_PRIORITY w)" using m by auto
qed

section \<open>The invariant\<close>

fun item_task :: "item \<Rightarrow> task" where
  "item_task (StateItem t) = t"
| "item_task (EventItem t) = t"

text \<open>State items go to the scheduler's own lists, event items to pending and waiting lists.\<close>

fun admits :: "klist \<Rightarrow> item \<Rightarrow> bool" where
  "admits (ReadyList _) (StateItem _) = True"
| "admits DelayedTaskList1 (StateItem _) = True"
| "admits DelayedTaskList2 (StateItem _) = True"
| "admits TasksWaitingTermination (StateItem _) = True"
| "admits SuspendedTaskList (StateItem _) = True"
| "admits PendingReadyList (EventItem _) = True"
| "admits (TasksWaitingToSend _) (EventItem _) = True"
| "admits (TasksWaitingToReceive _) (EventItem _) = True"
| "admits (TasksWaitingForBits _) (EventItem _) = True"
| "admits _ _ = False"

definition lists_ok :: "task set \<Rightarrow> kernel \<Rightarrow> bool" where
  "lists_ok T k \<longleftrightarrow> wf_store (klists k)
     \<and> (\<forall>i l. container k i = Some l \<longrightarrow> item_task i \<in> T \<and> admits l i)
     \<and> (\<forall>t\<in>T. a_owner (klists k) (StateItem t) = t \<and> a_owner (klists k) (EventItem t) = t)
     \<and> (\<forall>t\<in>T. prio k t < configMAX_PRIORITIES)
     \<and> (\<forall>t p. container k (StateItem t) = Some (ReadyList p) \<longrightarrow> p = prio k t)"

definition bits_ok :: "kernel \<Rightarrow> bool" where
  "bits_ok k \<longleftrightarrow> (\<forall>p. bit (uxTopReadyPriority k) (unat p)
     \<longleftrightarrow> (\<exists>t. container k (StateItem t) = Some (ReadyList p)))"

abbreviation sorted_klist :: "kernel \<Rightarrow> klist \<Rightarrow> bool" where
  "sorted_klist k l \<equiv> sorts.sorted_list (klists k) l"

definition delay_ok :: "kernel \<Rightarrow> bool" where
  "delay_ok k \<longleftrightarrow>
     (pxDelayedTaskList k, pxOverflowDelayedTaskList k)
        \<in> {(DelayedTaskList1, DelayedTaskList2), (DelayedTaskList2, DelayedTaskList1)}
     \<and> sorted_klist k (pxDelayedTaskList k) \<and> sorted_klist k (pxOverflowDelayedTaskList k)
     \<and> (\<forall>i. container k i = Some (pxDelayedTaskList k) \<longrightarrow>
          xTickCount k < item_value k i \<and> xNextTaskUnblockTime k \<le> item_value k i)
     \<and> (\<forall>i. container k i = Some (pxOverflowDelayedTaskList k) \<longrightarrow> item_value k i < xTickCount k)"

definition kinv :: "task set \<Rightarrow> kernel \<Rightarrow> bool" where
  "kinv T k \<longleftrightarrow> lists_ok T k \<and> bits_ok k \<and> delay_ok k"

lemma kinvI: "lists_ok T k \<Longrightarrow> bits_ok k \<Longrightarrow> delay_ok k \<Longrightarrow> kinv T k"
  by (simp add: kinv_def)

lemma kinvD:
  assumes "kinv T k"
  shows "wf_store (klists k)" and "lists_ok T k" and "bits_ok k" and "delay_ok k"
    and "container k (StateItem t) = Some l \<Longrightarrow> t \<in> T \<and> admits l (StateItem t)"
    and "container k (EventItem t) = Some l \<Longrightarrow> t \<in> T \<and> admits l (EventItem t)"
    and "container k i = Some l \<Longrightarrow> item_task i \<in> T \<and> admits l i"
    and "t \<in> T \<Longrightarrow> a_owner (klists k) (StateItem t) = t"
    and "t \<in> T \<Longrightarrow> a_owner (klists k) (EventItem t) = t"
    and "t \<in> T \<Longrightarrow> prio k t < configMAX_PRIORITIES"
    and "container k (StateItem t) = Some (ReadyList p) \<Longrightarrow> p = prio k t"
    and "container k i = Some l \<longleftrightarrow> i \<in> set (kitems k l)"
    and "bit (uxTopReadyPriority k) (unat p) \<longleftrightarrow> (\<exists>t. container k (StateItem t) = Some (ReadyList p))"
proof -
  show wf: "wf_store (klists k)" and "lists_ok T k" and bits: "bits_ok k" and "delay_ok k"
    using assms by (simp_all add: kinv_def lists_ok_def)
  note L = \<open>lists_ok T k\<close> [unfolded lists_ok_def]
  show items: "item_task i \<in> T \<and> admits l i" if "container k i = Some l" for i l
    using L that by blast
  show "container k (StateItem t) = Some l \<Longrightarrow> t \<in> T \<and> admits l (StateItem t)"
    and "container k (EventItem t) = Some l \<Longrightarrow> t \<in> T \<and> admits l (EventItem t)"
    using items [of "StateItem t" l] items [of "EventItem t" l] by simp_all
  show "t \<in> T \<Longrightarrow> a_owner (klists k) (StateItem t) = t"
    and "t \<in> T \<Longrightarrow> a_owner (klists k) (EventItem t) = t"
    and "t \<in> T \<Longrightarrow> prio k t < configMAX_PRIORITIES"
    and "container k (StateItem t) = Some (ReadyList p) \<Longrightarrow> p = prio k t"
    using L by blast+
  show "container k i = Some l \<longleftrightarrow> i \<in> set (kitems k l)" using wf by (rule wf_store_cont)
  show "bit (uxTopReadyPriority k) (unat p) \<longleftrightarrow> (\<exists>t. container k (StateItem t) = Some (ReadyList p))"
    using bits unfolding bits_ok_def by blast
qed

lemma delay_okD:
  assumes "delay_ok k"
  shows "(pxDelayedTaskList k = DelayedTaskList1 \<and> pxOverflowDelayedTaskList k = DelayedTaskList2)
      \<or> (pxDelayedTaskList k = DelayedTaskList2 \<and> pxOverflowDelayedTaskList k = DelayedTaskList1)"
    and "sorted_klist k (pxDelayedTaskList k)" and "sorted_klist k (pxOverflowDelayedTaskList k)"
    and "container k i = Some (pxDelayedTaskList k) \<Longrightarrow> xTickCount k < item_value k i"
    and "container k i = Some (pxDelayedTaskList k) \<Longrightarrow> xNextTaskUnblockTime k \<le> item_value k i"
    and "container k i = Some (pxOverflowDelayedTaskList k) \<Longrightarrow> item_value k i < xTickCount k"
  using assms unfolding delay_ok_def by auto

lemma delayed_lists_neq:
  assumes "delay_ok k"
  shows "pxDelayedTaskList k \<noteq> ReadyList p" "pxOverflowDelayedTaskList k \<noteq> ReadyList p"
    "pxDelayedTaskList k \<noteq> pxOverflowDelayedTaskList k" "pxOverflowDelayedTaskList k \<noteq> pxDelayedTaskList k"
    "pxDelayedTaskList k \<noteq> SuspendedTaskList" "pxOverflowDelayedTaskList k \<noteq> SuspendedTaskList"
    "pxDelayedTaskList k \<noteq> TasksWaitingTermination" "pxOverflowDelayedTaskList k \<noteq> TasksWaitingTermination"
    "\<not> admits (pxDelayedTaskList k) (EventItem t)" "\<not> admits (pxOverflowDelayedTaskList k) (EventItem t)"
    "admits (pxDelayedTaskList k) (StateItem t)" "admits (pxOverflowDelayedTaskList k) (StateItem t)"
    "ReadyList p \<noteq> pxDelayedTaskList k" "ReadyList p \<noteq> pxOverflowDelayedTaskList k"
    "SuspendedTaskList \<noteq> pxDelayedTaskList k" "SuspendedTaskList \<noteq> pxOverflowDelayedTaskList k"
    "TasksWaitingTermination \<noteq> pxDelayedTaskList k" "TasksWaitingTermination \<noteq> pxOverflowDelayedTaskList k"
  using delay_okD(1) [OF assms] by auto

subsection \<open>Fields the invariant does not read\<close>

lemma kinv_frame [simp]:
  "kinv T (k\<lparr>pendsv := b\<rparr>) = kinv T k"
  "kinv T (k\<lparr>xYieldPending := b\<rparr>) = kinv T k"
  "kinv T (k\<lparr>pxCurrentTCB := c\<rparr>) = kinv T k"
  "kinv T (k\<lparr>uxDeletedTasksWaitingCleanUp := n\<rparr>) = kinv T k"
  "kinv T (k\<lparr>uxCurrentNumberOfTasks := n\<rparr>) = kinv T k"
  "kinv T (k\<lparr>xSchedulerRunning := b\<rparr>) = kinv T k"
  "kinv T (k\<lparr>uxPendedTicks := n\<rparr>) = kinv T k"
  "kinv T (k\<lparr>xNumOfOverflows := n\<rparr>) = kinv T k"
  "kinv T (k\<lparr>uxTaskNumber := n\<rparr>) = kinv T k"
  "kinv T (k\<lparr>uxSchedulerSuspended := n\<rparr>) = kinv T k"
  "kinv T (k\<lparr>freed_tcbs := ts\<rparr>) = kinv T k"
  "kinv T (portYIELD k) = kinv T k"
  by (simp_all add: kinv_def lists_ok_def bits_ok_def delay_ok_def portYIELD_def)

lemma upd_tcb_fields [simp]:
  "klists (upd_tcb t f k) = klists k" "pxCurrentTCB (upd_tcb t f k) = pxCurrentTCB k"
  "pxDelayedTaskList (upd_tcb t f k) = pxDelayedTaskList k"
  "pxOverflowDelayedTaskList (upd_tcb t f k) = pxOverflowDelayedTaskList k"
  "xTickCount (upd_tcb t f k) = xTickCount k" "uxTopReadyPriority (upd_tcb t f k) = uxTopReadyPriority k"
  "xNextTaskUnblockTime (upd_tcb t f k) = xNextTaskUnblockTime k"
  "pendsv (upd_tcb t f k) = pendsv k" "xYieldPending (upd_tcb t f k) = xYieldPending k"
  "xSchedulerRunning (upd_tcb t f k) = xSchedulerRunning k"
  "uxSchedulerSuspended (upd_tcb t f k) = uxSchedulerSuspended k"
  "uxDeletedTasksWaitingCleanUp (upd_tcb t f k) = uxDeletedTasksWaitingCleanUp k"
  "uxCurrentNumberOfTasks (upd_tcb t f k) = uxCurrentNumberOfTasks k"
  "uxPendedTicks (upd_tcb t f k) = uxPendedTicks k"
  "tcbs (upd_tcb t f k) u = (if u = t then f (tcbs k t) else tcbs k u)"
  by (simp_all add: upd_tcb_def)

lemma kinv_upd_tcb:
  assumes "kinv T k" and "tcb_uxPriority (f (tcbs k t)) = tcb_uxPriority (tcbs k t)"
  shows "kinv T (upd_tcb t f k)"
proof -
  have "prio (upd_tcb t f k) u = prio k u" for u using assms(2) by simp
  then have "kinv T (upd_tcb t f k) = kinv T k"
    unfolding kinv_def lists_ok_def bits_ok_def delay_ok_def
    by (simp only: upd_tcb_fields(1-7))
  with assms(1) show ?thesis by simp
qed

end
