(* ===== verification/Kernel_Moves.thy ===== *)
theory Kernel_Moves
  imports Kernel_Inv
begin

text \<open>
  The list moves every scheduler operation is made of: taking an item off its list, leaving
  the ready state, becoming ready, waiting on an event list and being delayed. For each: the
  containers afterwards, and that the invariant is kept.
\<close>

section \<open>Unlisting an item\<close>

definition k_unlist :: "item \<Rightarrow> kernel \<Rightarrow> kernel" where
  "k_unlist i k = k\<lparr>klists := a_remove i (klists k)\<rparr>"

lemma k_unlist_fields [simp]:
  "container (k_unlist i k) j = (if j = i then None else container k j)"
  "item_value (k_unlist i k) = item_value k" "a_owner (klists (k_unlist i k)) = a_owner (klists k)"
  "tcbs (k_unlist i k) = tcbs k" "pxCurrentTCB (k_unlist i k) = pxCurrentTCB k"
  "pxDelayedTaskList (k_unlist i k) = pxDelayedTaskList k"
  "pxOverflowDelayedTaskList (k_unlist i k) = pxOverflowDelayedTaskList k"
  "xTickCount (k_unlist i k) = xTickCount k" "uxTopReadyPriority (k_unlist i k) = uxTopReadyPriority k"
  "xNextTaskUnblockTime (k_unlist i k) = xNextTaskUnblockTime k"
  "pendsv (k_unlist i k) = pendsv k" "xYieldPending (k_unlist i k) = xYieldPending k"
  "xSchedulerRunning (k_unlist i k) = xSchedulerRunning k"
  "uxSchedulerSuspended (k_unlist i k) = uxSchedulerSuspended k"
  "uxDeletedTasksWaitingCleanUp (k_unlist i k) = uxDeletedTasksWaitingCleanUp k"
  "uxCurrentNumberOfTasks (k_unlist i k) = uxCurrentNumberOfTasks k"
  "uxPendedTicks (k_unlist i k) = uxPendedTicks k"
  by (simp_all add: k_unlist_def a_container_laws a_value_laws)

lemma k_remove_unlist:
  "k_remove i k = (case container k i of None \<Rightarrow> None
     | Some l \<Rightarrow> Some (length (kitems (k_unlist i k) l), k_unlist i k))"
  by (simp add: k_remove_def k_unlist_def Let_def split: option.split)

lemma k_remove_if_listed_unlist [simp]: "k_remove_if_listed i k = k_unlist i k"
  by (simp add: k_remove_if_listed_def k_remove_unlist split: option.split)
    (simp add: k_unlist_def a_remove_def)

lemma sorted_unlist: "sorted_klist k l \<Longrightarrow> sorted_klist (k_unlist i k) l"
  unfolding k_unlist_def by (simp add: sorts.sorted_list_rem)

lemma lists_ok_unlist: "lists_ok T k \<Longrightarrow> lists_ok T (k_unlist i k)"
  unfolding lists_ok_def by (auto simp: k_unlist_def a_container_laws a_value_laws ends.inv_rem)

lemma delay_ok_unlist: "delay_ok k \<Longrightarrow> delay_ok (k_unlist i k)"
  unfolding delay_ok_def by (simp add: sorted_unlist)

lemma kinv_unlist_event: "kinv T k \<Longrightarrow> kinv T (k_unlist (EventItem t) k)"
  by (intro kinvI) (auto simp: kinv_def lists_ok_unlist delay_ok_unlist bits_ok_def)

section \<open>Leaving the ready state\<close>

text \<open>
  The code takes a task's state item off its list in three ways: it tests the list of the
  task's priority and clears the bit, it clears the bit straight away, or, when the task is
  known not to be ready, it does neither. Under the invariant all three are \<open>k_leave\<close>.
\<close>

definition k_leave :: "task \<Rightarrow> kernel \<Rightarrow> kernel" where
  "k_leave t k = (let k' = k_unlist (StateItem t) k in
     if kitems k' (ReadyList (prio k t)) = [] then portRESET_TOP (prio k t) k' else k')"

lemma portRESET_TOP_fields [simp]:
  "klists (portRESET_TOP p k) = klists k"
  "tcbs (portRESET_TOP p k) = tcbs k" "pxCurrentTCB (portRESET_TOP p k) = pxCurrentTCB k"
  "pxDelayedTaskList (portRESET_TOP p k) = pxDelayedTaskList k"
  "pxOverflowDelayedTaskList (portRESET_TOP p k) = pxOverflowDelayedTaskList k"
  "xTickCount (portRESET_TOP p k) = xTickCount k"
  "uxTopReadyPriority (portRESET_TOP p k) = portRESET_READY_PRIORITY p (uxTopReadyPriority k)"
  "xNextTaskUnblockTime (portRESET_TOP p k) = xNextTaskUnblockTime k"
  "pendsv (portRESET_TOP p k) = pendsv k" "xYieldPending (portRESET_TOP p k) = xYieldPending k"
  "xSchedulerRunning (portRESET_TOP p k) = xSchedulerRunning k"
  "uxSchedulerSuspended (portRESET_TOP p k) = uxSchedulerSuspended k"
  "uxDeletedTasksWaitingCleanUp (portRESET_TOP p k) = uxDeletedTasksWaitingCleanUp k"
  "uxCurrentNumberOfTasks (portRESET_TOP p k) = uxCurrentNumberOfTasks k"
  "uxPendedTicks (portRESET_TOP p k) = uxPendedTicks k"
  by (simp_all add: portRESET_TOP_def)

lemma k_leave_fields [simp]:
  "container (k_leave t k) j = (if j = StateItem t then None else container k j)"
  "item_value (k_leave t k) = item_value k" "a_owner (klists (k_leave t k)) = a_owner (klists k)"
  "tcbs (k_leave t k) = tcbs k" "pxCurrentTCB (k_leave t k) = pxCurrentTCB k"
  "pxDelayedTaskList (k_leave t k) = pxDelayedTaskList k"
  "pxOverflowDelayedTaskList (k_leave t k) = pxOverflowDelayedTaskList k"
  "xTickCount (k_leave t k) = xTickCount k"
  "xNextTaskUnblockTime (k_leave t k) = xNextTaskUnblockTime k"
  "pendsv (k_leave t k) = pendsv k" "xYieldPending (k_leave t k) = xYieldPending k"
  "xSchedulerRunning (k_leave t k) = xSchedulerRunning k"
  "uxSchedulerSuspended (k_leave t k) = uxSchedulerSuspended k"
  "uxDeletedTasksWaitingCleanUp (k_leave t k) = uxDeletedTasksWaitingCleanUp k"
  "uxCurrentNumberOfTasks (k_leave t k) = uxCurrentNumberOfTasks k"
  "uxPendedTicks (k_leave t k) = uxPendedTicks k"
  by (simp_all add: k_leave_def Let_def)

lemma portRESET_TOP_clear:
  "\<not> bit (uxTopReadyPriority k) (unat p) \<Longrightarrow> portRESET_TOP p k = k"
  by (simp add: portRESET_TOP_def reset_clear)

lemma unlisted_ready_empty:
  assumes "kinv T k"
  shows "kitems (k_unlist i k) l = [] \<longleftrightarrow> (\<forall>j. container k j = Some l \<longrightarrow> j = i)"
  using ends.items_empty [OF ends.inv_rem [OF kinvD(1) [OF assms]], of i l]
  by (auto simp: k_unlist_def a_container_laws)

lemma ready_items_state:
  assumes "kinv T k" and "container k j = Some (ReadyList p)"
  obtains t where "j = StateItem t"
  using kinvD(7) [OF assms] by (cases j) auto

lemma ready_bit_clear:
  assumes "kinv T k" and "\<And>t. container k (StateItem t) \<noteq> Some (ReadyList p)"
  shows "\<not> bit (uxTopReadyPriority k) (unat p)"
  using assms(2) by (simp add: kinvD(13) [OF assms(1)])

lemma leave_not_ready:
  assumes "kinv T k" and "container k (StateItem t) \<noteq> Some (ReadyList (prio k t))"
  shows "k_leave t k = k_unlist (StateItem t) k"
proof (cases "kitems (k_unlist (StateItem t) k) (ReadyList (prio k t)) = []")
  case True
  then have "container k (StateItem u) \<noteq> Some (ReadyList (prio k t))" for u
    using unlisted_ready_empty [OF assms(1), of "StateItem t" "ReadyList (prio k t)"] assms(2)
    by (metis item.inject(1))
  then have "\<not> bit (uxTopReadyPriority k) (unat (prio k t))" by (rule ready_bit_clear [OF assms(1)])
  then show ?thesis by (simp add: k_leave_def Let_def portRESET_TOP_clear)
qed (simp add: k_leave_def Let_def)

lemma leave_by_reset:
  assumes "kinv T k" and "container k (StateItem t) = Some l"
  shows "(if length (kitems (k_unlist (StateItem t) k) l) = 0
          then taskRESET_READY_PRIORITY (prio k t) (k_unlist (StateItem t) k)
          else k_unlist (StateItem t) k) = k_leave t k"
proof (cases "l = ReadyList (prio k t)")
  case True
  then show ?thesis by (simp add: taskRESET_READY_PRIORITY_def k_leave_def Let_def)
next
  case False
  then have "k_leave t k = k_unlist (StateItem t) k" using assms by (simp add: leave_not_ready)
  then show ?thesis by (auto simp: taskRESET_READY_PRIORITY_def k_leave_def Let_def)
qed

lemma leave_by_clear:
  assumes "container k (StateItem t) = Some (ReadyList (prio k t))"
  shows "(if length (kitems (k_unlist (StateItem t) k) (ReadyList (prio k t))) = 0
          then portRESET_TOP (prio k t) (k_unlist (StateItem t) k)
          else k_unlist (StateItem t) k) = k_leave t k"
  by (simp add: k_leave_def Let_def)

lemma ex_listed:
  assumes "c (StateItem t) = None"
  shows "(\<exists>u. (u = t \<longrightarrow> l' = l) \<and> (u \<noteq> t \<longrightarrow> c (StateItem u) = Some l))
    \<longleftrightarrow> l' = l \<or> (\<exists>u. c (StateItem u) = Some l)"
  using assms by (metis option.distinct(1))

lemma unat_eq_u32 [simp]: "unat (p :: u32) = unat q \<longleftrightarrow> p = q"
  by (simp add: word_unat_eq_iff)

lemma kinv_leave:
  assumes "kinv T k"
  shows "kinv T (k_leave t k)"
proof (intro kinvI)
  show "lists_ok T (k_leave t k)"
    using lists_ok_unlist [OF kinvD(2) [OF assms], of "StateItem t"]
    by (simp add: k_leave_def Let_def lists_ok_def)
  show "delay_ok (k_leave t k)"
    using delay_ok_unlist [OF kinvD(4) [OF assms], of "StateItem t"]
    by (simp add: k_leave_def Let_def delay_ok_def)
  show "bits_ok (k_leave t k)"
  proof (unfold bits_ok_def, intro allI)
    fix p
    show "bit (uxTopReadyPriority (k_leave t k)) (unat p)
      \<longleftrightarrow> (\<exists>u. container (k_leave t k) (StateItem u) = Some (ReadyList p))"
    proof (cases "p = prio k t")
      case True
      have e: "kitems (k_unlist (StateItem t) k) (ReadyList p) = []
          \<longleftrightarrow> (\<forall>u. container k (StateItem u) = Some (ReadyList p) \<longrightarrow> u = t)"
        unfolding unlisted_ready_empty [OF assms]
        by (auto elim: ready_items_state [OF assms])
      have "bit (uxTopReadyPriority (k_leave t k)) (unat p)
          \<longleftrightarrow> bit (uxTopReadyPriority k) (unat p) \<and> kitems (k_unlist (StateItem t) k) (ReadyList p) \<noteq> []"
        using True by (simp add: k_leave_def Let_def bit_reset)
      then show ?thesis unfolding e kinvD(13) [OF assms] by auto
    next
      case False
      then have "container k (StateItem t) \<noteq> Some (ReadyList p)" using kinvD(11) [OF assms] by blast
      then have "(\<exists>u. container (k_leave t k) (StateItem u) = Some (ReadyList p))
          \<longleftrightarrow> (\<exists>u. container k (StateItem u) = Some (ReadyList p))"
        by (metis k_leave_fields(1) item.inject(1) option.distinct(1))
      then show ?thesis using kinvD(13) [OF assms, of p] False
        by (simp add: k_leave_def Let_def bit_reset)
    qed
  qed
qed

section \<open>Becoming ready\<close>

lemma ready_fields [simp]:
  "container (prvAddTaskToReadyList t k) j =
     (if j = StateItem t then Some (ReadyList (prio k t)) else container k j)"
  "item_value (prvAddTaskToReadyList t k) = item_value k"
  "a_owner (klists (prvAddTaskToReadyList t k)) = a_owner (klists k)"
  "tcbs (prvAddTaskToReadyList t k) = tcbs k"
  "pxCurrentTCB (prvAddTaskToReadyList t k) = pxCurrentTCB k"
  "pxDelayedTaskList (prvAddTaskToReadyList t k) = pxDelayedTaskList k"
  "pxOverflowDelayedTaskList (prvAddTaskToReadyList t k) = pxOverflowDelayedTaskList k"
  "xTickCount (prvAddTaskToReadyList t k) = xTickCount k"
  "uxTopReadyPriority (prvAddTaskToReadyList t k)
     = portRECORD_READY_PRIORITY (prio k t) (uxTopReadyPriority k)"
  "xNextTaskUnblockTime (prvAddTaskToReadyList t k) = xNextTaskUnblockTime k"
  "pendsv (prvAddTaskToReadyList t k) = pendsv k"
  "xYieldPending (prvAddTaskToReadyList t k) = xYieldPending k"
  "xSchedulerRunning (prvAddTaskToReadyList t k) = xSchedulerRunning k"
  "uxSchedulerSuspended (prvAddTaskToReadyList t k) = uxSchedulerSuspended k"
  "uxDeletedTasksWaitingCleanUp (prvAddTaskToReadyList t k) = uxDeletedTasksWaitingCleanUp k"
  "uxCurrentNumberOfTasks (prvAddTaskToReadyList t k) = uxCurrentNumberOfTasks k"
  "uxPendedTicks (prvAddTaskToReadyList t k) = uxPendedTicks k"
  by (simp_all add: prvAddTaskToReadyList_def k_insert_end_def taskRECORD_READY_PRIORITY_def
      a_container_laws a_value_laws)

lemma sorted_insert_end_other:
  "l' \<noteq> l \<Longrightarrow> sorts.sorted_list (a_insert_end l i a) l' \<longleftrightarrow> sorts.sorted_list a l'"
  by (simp add: sorts.sorted_list_def a_insert_end_def)

lemma lists_ok_ready:
  assumes "lists_ok T k" and "t \<in> T" and "container k (StateItem t) = None"
  shows "lists_ok T (prvAddTaskToReadyList t k)"
proof -
  have "wf_store (klists (prvAddTaskToReadyList t k))"
    using assms(1,3)
    by (simp add: lists_ok_def prvAddTaskToReadyList_def k_insert_end_def taskRECORD_READY_PRIORITY_def
        ends.inv_ins)
  then show ?thesis using assms(1,2) unfolding lists_ok_def by auto
qed

lemma bits_ok_ready:
  assumes "bits_ok k" and "prio k t < configMAX_PRIORITIES" and "container k (StateItem t) = None"
  shows "bits_ok (prvAddTaskToReadyList t k)"
proof -
  have p: "prio k t < 5" using assms(2) by (simp add: configMAX_PRIORITIES_def)
  show ?thesis
    using assms(1) ex_listed [where c = "container k", OF assms(3), where l' = "ReadyList (prio k t)"]
    unfolding bits_ok_def by (auto simp: bit_record [OF p])
qed

lemma sorted_ready:
  assumes "l \<noteq> ReadyList (prio k t)"
  shows "sorted_klist (prvAddTaskToReadyList t k) l \<longleftrightarrow> sorted_klist k l"
  using assms by (simp add: prvAddTaskToReadyList_def k_insert_end_def taskRECORD_READY_PRIORITY_def
      sorted_insert_end_other)

lemma kinv_ready:
  assumes "kinv T k" and "t \<in> T" and "container k (StateItem t) = None"
  shows "kinv T (prvAddTaskToReadyList t k)"
proof (intro kinvI)
  show "lists_ok T (prvAddTaskToReadyList t k)"
    by (rule lists_ok_ready [OF kinvD(2) [OF assms(1)] assms(2,3)])
  show "bits_ok (prvAddTaskToReadyList t k)"
    by (rule bits_ok_ready [OF kinvD(3) [OF assms(1)] kinvD(10) [OF assms(1,2)] assms(3)])
  note d = kinvD(4) [OF assms(1)]
  show "delay_ok (prvAddTaskToReadyList t k)"
    using d delayed_lists_neq [OF d] unfolding delay_ok_def by (auto simp: sorted_ready)
qed

section \<open>Other lists\<close>

lemma k_insert_end_fields [simp]:
  "container (k_insert_end l i k) j = (if j = i then Some l else container k j)"
  "item_value (k_insert_end l i k) = item_value k" "a_owner (klists (k_insert_end l i k)) = a_owner (klists k)"
  "tcbs (k_insert_end l i k) = tcbs k" "pxCurrentTCB (k_insert_end l i k) = pxCurrentTCB k"
  "pxDelayedTaskList (k_insert_end l i k) = pxDelayedTaskList k"
  "pxOverflowDelayedTaskList (k_insert_end l i k) = pxOverflowDelayedTaskList k"
  "xTickCount (k_insert_end l i k) = xTickCount k" "uxTopReadyPriority (k_insert_end l i k) = uxTopReadyPriority k"
  "xNextTaskUnblockTime (k_insert_end l i k) = xNextTaskUnblockTime k"
  "pendsv (k_insert_end l i k) = pendsv k" "xYieldPending (k_insert_end l i k) = xYieldPending k"
  "xSchedulerRunning (k_insert_end l i k) = xSchedulerRunning k"
  "uxSchedulerSuspended (k_insert_end l i k) = uxSchedulerSuspended k"
  "uxDeletedTasksWaitingCleanUp (k_insert_end l i k) = uxDeletedTasksWaitingCleanUp k"
  "uxCurrentNumberOfTasks (k_insert_end l i k) = uxCurrentNumberOfTasks k"
  "uxPendedTicks (k_insert_end l i k) = uxPendedTicks k"
  by (simp_all add: k_insert_end_def a_container_laws a_value_laws)

lemma k_insert_fields [simp]:
  "container (k_insert l i k) j = (if j = i then Some l else container k j)"
  "item_value (k_insert l i k) = item_value k" "a_owner (klists (k_insert l i k)) = a_owner (klists k)"
  "tcbs (k_insert l i k) = tcbs k" "pxCurrentTCB (k_insert l i k) = pxCurrentTCB k"
  "pxDelayedTaskList (k_insert l i k) = pxDelayedTaskList k"
  "pxOverflowDelayedTaskList (k_insert l i k) = pxOverflowDelayedTaskList k"
  "xTickCount (k_insert l i k) = xTickCount k" "uxTopReadyPriority (k_insert l i k) = uxTopReadyPriority k"
  "xNextTaskUnblockTime (k_insert l i k) = xNextTaskUnblockTime k"
  "pendsv (k_insert l i k) = pendsv k" "xYieldPending (k_insert l i k) = xYieldPending k"
  "xSchedulerRunning (k_insert l i k) = xSchedulerRunning k"
  "uxSchedulerSuspended (k_insert l i k) = uxSchedulerSuspended k"
  "uxDeletedTasksWaitingCleanUp (k_insert l i k) = uxDeletedTasksWaitingCleanUp k"
  "uxCurrentNumberOfTasks (k_insert l i k) = uxCurrentNumberOfTasks k"
  "uxPendedTicks (k_insert l i k) = uxPendedTicks k"
  by (simp_all add: k_insert_def a_container_laws a_value_laws)

lemma kinv_listed_elsewhere:
  assumes "kinv T k" and "item_task i \<in> T" and "admits l i"
    and "\<And>p. l \<noteq> ReadyList p" and "l \<noteq> pxDelayedTaskList k" and "l \<noteq> pxOverflowDelayedTaskList k"
    and "container k i = None"
    and a: "a = a_insert_end l i (klists k) \<or> a = a_insert l i (klists k)"
  shows "kinv T (k\<lparr>klists := a\<rparr>)"
proof (intro kinvI)
  let ?k = "k\<lparr>klists := a\<rparr>"
  have f: "container ?k = (container k)(i \<mapsto> l)" "item_value ?k = item_value k"
      "a_owner (klists ?k) = a_owner (klists k)"
    using a by (auto simp: a_container_laws a_value_laws)
  have "wf_store a"
    using a ends.inv_ins [OF kinvD(1) [OF assms(1)] assms(7)] sorts.inv_ins [OF kinvD(1) [OF assms(1)] assms(7)]
    by auto
  then show "lists_ok T ?k"
    using kinvD(2) [OF assms(1)] assms(2-4) f unfolding lists_ok_def by auto
  show "bits_ok ?k"
  proof -
    have "container ?k (StateItem u) = Some (ReadyList p) \<longleftrightarrow> container k (StateItem u) = Some (ReadyList p)"
      for u p using f(1) assms(4,7) by auto
    then show ?thesis using kinvD(3) [OF assms(1)] by (simp add: bits_ok_def)
  qed
  have "sorted_klist ?k l' = sorted_klist k l'" if "l' \<noteq> l" for l'
    using a that by (auto simp: sorted_insert_end_other) (simp_all add: sorts.sorted_list_def a_insert_def)
  then show "delay_ok ?k"
    using kinvD(4) [OF assms(1)] assms(5,6,7) f unfolding delay_ok_def by auto
qed

lemma kinv_insert_end:
  assumes "kinv T k" and "item_task i \<in> T" and "admits l i" and "container k i = None"
    and "l \<notin> {DelayedTaskList1, DelayedTaskList2}" and "\<And>p. l \<noteq> ReadyList p"
  shows "kinv T (k_insert_end l i k)"
  unfolding k_insert_end_def
  by (rule kinv_listed_elsewhere [OF assms(1-3,6) _ _ assms(4)])
    (use delay_okD(1) [OF kinvD(4) [OF assms(1)]] assms(5) in auto)

lemma kinv_insert_event:
  assumes "kinv T k" and "t \<in> T" and "admits l (EventItem t)" and "container k (EventItem t) = None"
  shows "kinv T (k_insert l (EventItem t) k)"
  unfolding k_insert_def
  by (rule kinv_listed_elsewhere [OF assms(1) _ assms(3) _ _ _ assms(4)])
    (use assms(2,3) delayed_lists_neq(9,10) [OF kinvD(4) [OF assms(1)]] in auto)

section \<open>Item values and priorities\<close>

lemma k_set_value_fields [simp]:
  "container (k_set_value i v k) = container k" "kitems (k_set_value i v k) = kitems k"
  "item_value (k_set_value i v k) j = (if j = i then v else item_value k j)"
  "a_owner (klists (k_set_value i v k)) = a_owner (klists k)"
  "tcbs (k_set_value i v k) = tcbs k" "pxCurrentTCB (k_set_value i v k) = pxCurrentTCB k"
  "pxDelayedTaskList (k_set_value i v k) = pxDelayedTaskList k"
  "pxOverflowDelayedTaskList (k_set_value i v k) = pxOverflowDelayedTaskList k"
  "xTickCount (k_set_value i v k) = xTickCount k" "uxTopReadyPriority (k_set_value i v k) = uxTopReadyPriority k"
  "xNextTaskUnblockTime (k_set_value i v k) = xNextTaskUnblockTime k"
  "pendsv (k_set_value i v k) = pendsv k" "xYieldPending (k_set_value i v k) = xYieldPending k"
  "xSchedulerRunning (k_set_value i v k) = xSchedulerRunning k"
  "uxSchedulerSuspended (k_set_value i v k) = uxSchedulerSuspended k"
  "uxDeletedTasksWaitingCleanUp (k_set_value i v k) = uxDeletedTasksWaitingCleanUp k"
  "uxCurrentNumberOfTasks (k_set_value i v k) = uxCurrentNumberOfTasks k"
  "uxPendedTicks (k_set_value i v k) = uxPendedTicks k"
  by (simp_all add: k_set_value_def a_set_value_def)

lemma wf_store_set_value: "wf_store (a_set_value i v a) = wf_store a"
  by (simp add: wf_astore_def a_set_value_def)

lemma kinv_set_value:
  assumes "kinv T k" and "container k i \<noteq> Some (pxDelayedTaskList k)"
    and "container k i \<noteq> Some (pxOverflowDelayedTaskList k)"
  shows "kinv T (k_set_value i v k)"
proof (intro kinvI)
  show "lists_ok T (k_set_value i v k)"
    using kinvD(2) [OF assms(1)] unfolding lists_ok_def
    by (simp add: wf_store_set_value) (simp add: k_set_value_def wf_store_set_value)
  show "bits_ok (k_set_value i v k)" using kinvD(3) [OF assms(1)] by (simp add: bits_ok_def)
  have "sorted_klist (k_set_value i v k) l = sorted_klist k l" if "container k i \<noteq> Some l" for l
  proof -
    have "map (item_value (k_set_value i v k)) (kitems k l) = map (item_value k) (kitems k l)"
      using that kinvD(12) [OF assms(1), of i l] by auto
    then show ?thesis unfolding sorts.sorted_list_def k_set_value_fields(2) by (simp only:)
  qed
  note sorted = this [OF assms(2)] this [OF assms(3)]
  show "delay_ok (k_set_value i v k)"
    using kinvD(4) [OF assms(1)] assms(2,3) unfolding delay_ok_def
    by (simp only: k_set_value_fields sorted) auto
qed

lemma kinv_set_event_value: "kinv T k \<Longrightarrow> kinv T (k_set_value (EventItem t) v k)"
  using delayed_lists_neq(9,10) [OF kinvD(4)] kinvD(6)
  by (intro kinv_set_value) blast+

lemma kinv_set_prio:
  assumes "kinv T k" and "\<And>p. container k (StateItem t) \<noteq> Some (ReadyList p)"
    and "p < configMAX_PRIORITIES"
  shows "kinv T (upd_tcb t (tcb_uxPriority_update (\<lambda>_. p)) k)"
  using assms unfolding kinv_def lists_ok_def bits_ok_def delay_ok_def by auto

end
