(* ===== verification/Kernel_Tick.thy ===== *)
theory Kernel_Tick
  imports Kernel_Moves
begin

text \<open>
  Time: delaying the current task and the tick. A delayed task becomes ready on the tick at
  which the count reaches its wake time, not before and not later, across the wrap of the
  32-bit count.
\<close>

section \<open>Delaying the current task\<close>

definition ready :: "kernel \<Rightarrow> task \<Rightarrow> bool" where
  "ready k t \<longleftrightarrow> container k (StateItem t) = Some (ReadyList (prio k t))"

definition delayed :: "kernel \<Rightarrow> task \<Rightarrow> bool" where
  "delayed k t \<longleftrightarrow> container k (StateItem t) \<in> {Some (pxDelayedTaskList k), Some (pxOverflowDelayedTaskList k)}"

text \<open>Where the code puts the task, once it has left the ready state.\<close>

definition k_delay :: "task \<Rightarrow> u32 \<Rightarrow> kernel \<Rightarrow> kernel" where
  "k_delay t wake k =
     (let k = k_set_value (StateItem t) wake k in
      if wake < xTickCount k then k_insert (pxOverflowDelayedTaskList k) (StateItem t) k
      else let k = k_insert (pxDelayedTaskList k) (StateItem t) k
           in if wake < xNextTaskUnblockTime k then k\<lparr>xNextTaskUnblockTime := wake\<rparr> else k)"

lemma add_current_eq:
  assumes "pxCurrentTCB k = Some c" and "ready k c"
  shows "prvAddCurrentTaskToDelayedList d ind k =
    Some (if d = portMAX_DELAY \<and> ind then k_insert_end SuspendedTaskList (StateItem c) (k_leave c k)
          else k_delay c (xTickCount k + d) (k_leave c k))"
  using assms unfolding prvAddCurrentTaskToDelayedList_def ready_def
  by (cases "kitems (k_unlist (StateItem c) k) (ReadyList (prio k c)) = []")
    (simp_all add: k_remove_unlist k_leave_def k_delay_def Let_def)

lemma k_delay_fields [simp]:
  "container (k_delay t w k) j =
     (if j = StateItem t
      then Some (if w < xTickCount k then pxOverflowDelayedTaskList k else pxDelayedTaskList k)
      else container k j)"
  "item_value (k_delay t w k) j = (if j = StateItem t then w else item_value k j)"
  "a_owner (klists (k_delay t w k)) = a_owner (klists k)"
  "tcbs (k_delay t w k) = tcbs k" "pxCurrentTCB (k_delay t w k) = pxCurrentTCB k"
  "pxDelayedTaskList (k_delay t w k) = pxDelayedTaskList k"
  "pxOverflowDelayedTaskList (k_delay t w k) = pxOverflowDelayedTaskList k"
  "xTickCount (k_delay t w k) = xTickCount k" "uxTopReadyPriority (k_delay t w k) = uxTopReadyPriority k"
  "pendsv (k_delay t w k) = pendsv k" "xYieldPending (k_delay t w k) = xYieldPending k"
  "xSchedulerRunning (k_delay t w k) = xSchedulerRunning k"
  "uxSchedulerSuspended (k_delay t w k) = uxSchedulerSuspended k"
  "uxDeletedTasksWaitingCleanUp (k_delay t w k) = uxDeletedTasksWaitingCleanUp k"
  "uxCurrentNumberOfTasks (k_delay t w k) = uxCurrentNumberOfTasks k"
  "uxPendedTicks (k_delay t w k) = uxPendedTicks k"
  by (simp_all add: k_delay_def Let_def)

lemma k_delay_next:
  "xNextTaskUnblockTime (k_delay t w k) =
     (if \<not> w < xTickCount k \<and> w < xNextTaskUnblockTime k then w else xNextTaskUnblockTime k)"
  by (simp add: k_delay_def Let_def)

lemma k_delay_lists:
  "\<exists>l. klists (k_delay t w k) = a_insert l (StateItem t) (a_set_value (StateItem t) w (klists k))
     \<and> l \<in> {pxDelayedTaskList k, pxOverflowDelayedTaskList k}"
  by (auto simp: k_delay_def Let_def k_insert_def k_set_value_def a_insert_def)

lemma kinv_delay:
  assumes "kinv T k" and "t \<in> T" and "container k (StateItem t) = None" and "w \<noteq> xTickCount k"
  shows "kinv T (k_delay t w k)"
proof (intro kinvI)
  let ?k = "k_delay t w k" and ?v = "k_set_value (StateItem t) w k"
  note d = kinvD(4) [OF assms(1)]
  have v: "kinv T ?v" by (rule kinv_set_value [OF assms(1)]) (use assms(3) in simp_all)
  obtain l where l: "klists ?k = a_insert l (StateItem t) (klists ?v)"
      and ll: "l \<in> {pxDelayedTaskList k, pxOverflowDelayedTaskList k}"
    using k_delay_lists [of t w k] by (auto simp: k_set_value_def)
  have adm: "admits l (StateItem t)" and nr: "\<And>p. l \<noteq> ReadyList p"
    using ll delayed_lists_neq [OF d] by auto
  have "wf_store (klists ?k)" unfolding l
    by (rule sorts.inv_ins [OF kinvD(1) [OF v]]) (use assms(3) in simp)
  moreover have "container ?k (StateItem t) = Some l" by (simp add: l a_container_laws)
  moreover from \<open>container ?k (StateItem t) = Some l\<close>
  have cont: "container ?k j = (if j = StateItem t then Some l else container k j)" for j
    by (cases "j = StateItem t") auto
  ultimately show "lists_ok T ?k"
    using kinvD(2) [OF assms(1)] assms(2) adm nr unfolding lists_ok_def cont by auto
  have "container ?k (StateItem u) = Some (ReadyList p) \<longleftrightarrow> container k (StateItem u) = Some (ReadyList p)"
    for u p unfolding cont using nr assms(3) by auto
  then show "bits_ok ?k" using kinvD(3) [OF assms(1)] by (simp add: bits_ok_def)
  have "sorted_klist ?k l'" if "l' \<in> {pxDelayedTaskList k, pxOverflowDelayedTaskList k}" for l'
    using that delay_okD(2,3) [OF kinvD(4) [OF v]] unfolding l
    by (auto intro: sorts.sorted_list_ins)
  moreover have "w \<le> item_value k i"
    if "w < xNextTaskUnblockTime k" and "container k i = Some (pxDelayedTaskList k)" for i
    using delay_okD(5) [OF d that(2)] that(1) by auto
  ultimately show "delay_ok ?k"
    using d delay_okD(4-6) [OF d] assms(3,4) delayed_lists_neq(3,4) [OF d]
    unfolding delay_ok_def by (auto simp: k_delay_next)
qed

lemma add_current_kinv:
  assumes "kinv T k" and "pxCurrentTCB k = Some c" and "ready k c" and "0 < d"
  shows "\<exists>k'. prvAddCurrentTaskToDelayedList d ind k = Some k' \<and> kinv T k'
    \<and> (if d = portMAX_DELAY \<and> ind then container k' (StateItem c) = Some SuspendedTaskList
       else delayed k' c \<and> item_value k' (StateItem c) = xTickCount k + d)
    \<and> (\<forall>j. j \<noteq> StateItem c \<longrightarrow> container k' j = container k j \<and> item_value k' j = item_value k j)
    \<and> tcbs k' = tcbs k \<and> pxCurrentTCB k' = Some c \<and> xTickCount k' = xTickCount k
    \<and> pendsv k' = pendsv k \<and> xYieldPending k' = xYieldPending k
    \<and> xSchedulerRunning k' = xSchedulerRunning k \<and> uxSchedulerSuspended k' = uxSchedulerSuspended k
    \<and> uxDeletedTasksWaitingCleanUp k' = uxDeletedTasksWaitingCleanUp k"
proof -
  have c: "c \<in> T" using assms(3) kinvD(5) [OF assms(1)] by (auto simp: ready_def)
  have K: "kinv T (k_leave c k)" by (rule kinv_leave [OF assms(1)])
  show ?thesis
  proof (cases "d = portMAX_DELAY \<and> ind")
    case True
    have "kinv T (k_insert_end SuspendedTaskList (StateItem c) (k_leave c k))"
      by (rule kinv_insert_end [OF K]) (use c in simp_all)
    with True show ?thesis using assms(2) by (simp add: add_current_eq [OF assms(2,3)])
  next
    case False
    have "xTickCount k + d \<noteq> xTickCount (k_leave c k)" using assms(4) by auto
    then have "kinv T (k_delay c (xTickCount k + d) (k_leave c k))"
      by (intro kinv_delay [OF K c]) simp_all
    then show ?thesis using assms(2)
      by (simp only: add_current_eq [OF assms(2,3)] if_not_P [OF False]) (simp add: delayed_def)
  qed
qed

section \<open>The unblocking loop\<close>

text \<open>One turn of the loop: the head of the delayed list becomes ready.\<close>

definition k_wake :: "task \<Rightarrow> kernel \<Rightarrow> kernel" where
  "k_wake t k = prvAddTaskToReadyList t (k_unlist (EventItem t) (k_unlist (StateItem t) k))"

lemma k_wake_fields [simp]:
  "container (k_wake t k) (StateItem u) =
     (if u = t then Some (ReadyList (prio k t)) else container k (StateItem u))"
  "container (k_wake t k) (EventItem u) = (if u = t then None else container k (EventItem u))"
  "item_value (k_wake t k) = item_value k" "tcbs (k_wake t k) = tcbs k"
  "pxCurrentTCB (k_wake t k) = pxCurrentTCB k"
  "pxDelayedTaskList (k_wake t k) = pxDelayedTaskList k"
  "pxOverflowDelayedTaskList (k_wake t k) = pxOverflowDelayedTaskList k"
  "xTickCount (k_wake t k) = xTickCount k" "xNumOfOverflows (k_wake t k) = xNumOfOverflows k" "pendsv (k_wake t k) = pendsv k"
  "xYieldPending (k_wake t k) = xYieldPending k" "xSchedulerRunning (k_wake t k) = xSchedulerRunning k"
  "uxSchedulerSuspended (k_wake t k) = uxSchedulerSuspended k"
  "uxDeletedTasksWaitingCleanUp (k_wake t k) = uxDeletedTasksWaitingCleanUp k"
  "uxCurrentNumberOfTasks (k_wake t k) = uxCurrentNumberOfTasks k"
  "uxPendedTicks (k_wake t k) = uxPendedTicks k"
  by (auto simp: k_wake_def)
    (simp add: k_unlist_def prvAddTaskToReadyList_def k_insert_end_def taskRECORD_READY_PRIORITY_def)

text \<open>The delayed list between the increment of the tick and the end of the loop.\<close>

definition tick_ok :: "kernel \<Rightarrow> bool" where
  "tick_ok k \<longleftrightarrow>
     (pxDelayedTaskList k, pxOverflowDelayedTaskList k)
        \<in> {(DelayedTaskList1, DelayedTaskList2), (DelayedTaskList2, DelayedTaskList1)}
     \<and> sorted_klist k (pxDelayedTaskList k) \<and> sorted_klist k (pxOverflowDelayedTaskList k)
     \<and> (\<forall>i. container k i = Some (pxDelayedTaskList k) \<longrightarrow> xTickCount k \<le> item_value k i)
     \<and> (\<forall>i. container k i = Some (pxOverflowDelayedTaskList k) \<longrightarrow> item_value k i < xTickCount k)"

definition tinv :: "task set \<Rightarrow> kernel \<Rightarrow> bool" where
  "tinv T k \<longleftrightarrow> lists_ok T k \<and> bits_ok k \<and> tick_ok k"

lemma tinv_kinv:
  assumes "tinv T k" and "\<And>i. container k i = Some (pxDelayedTaskList k) \<Longrightarrow> nx \<le> item_value k i"
    and "\<And>i. container k i = Some (pxDelayedTaskList k) \<Longrightarrow> item_value k i \<noteq> xTickCount k"
  shows "kinv T (k\<lparr>xNextTaskUnblockTime := nx\<rparr>)"
proof -
  have "xTickCount k < item_value k i" if "container k i = Some (pxDelayedTaskList k)" for i
    using assms(1) assms(3) [OF that] that by (simp add: tinv_def tick_ok_def order.strict_iff_order)
  then show ?thesis
    using assms(1,2) unfolding tinv_def tick_ok_def kinv_def delay_ok_def lists_ok_def bits_ok_def by auto
qed

lemma tinv_wake:
  assumes "tinv T k" and "container k (StateItem t) = Some (pxDelayedTaskList k)"
  shows "tinv T (k_wake t k)"
proof -
  have L: "lists_ok T k" and B: "bits_ok k" and D: "tick_ok k" using assms(1) by (simp_all add: tinv_def)
  let ?u = "k_unlist (EventItem t) (k_unlist (StateItem t) k)"
  have t: "t \<in> T" using L assms(2) by (fastforce simp: lists_ok_def)
  have nr: "\<And>p. pxDelayedTaskList k \<noteq> ReadyList p" "\<And>p. pxOverflowDelayedTaskList k \<noteq> ReadyList p"
    using D by (auto simp: tick_ok_def)
  have "container ?u (StateItem v) = Some (ReadyList p) \<longleftrightarrow> container k (StateItem v) = Some (ReadyList p)"
    for v p using assms(2) nr by auto
  then have b: "bits_ok ?u" using B by (simp add: bits_ok_def)
  have l: "lists_ok T ?u" by (intro lists_ok_unlist L)
  have p: "prio ?u t < configMAX_PRIORITIES" using L t by (simp add: lists_ok_def)
  have "lists_ok T (k_wake t k)" "bits_ok (k_wake t k)"
    unfolding k_wake_def by (rule lists_ok_ready [OF l t], simp) (rule bits_ok_ready [OF b p], simp)
  moreover have "tick_ok (k_wake t k)"
    using D nr not_sym [OF nr(1)] not_sym [OF nr(2)] unfolding tick_ok_def k_wake_def
    by (simp add: sorted_ready sorted_unlist)
  ultimately show ?thesis by (simp add: tinv_def)
qed

text \<open>What the tick and the loop leave alone.\<close>

definition same_tasks :: "kernel \<Rightarrow> kernel \<Rightarrow> bool" where
  "same_tasks k k' \<longleftrightarrow> tcbs k' = tcbs k \<and> item_value k' = item_value k
     \<and> pxCurrentTCB k' = pxCurrentTCB k \<and> pendsv k' = pendsv k \<and> xYieldPending k' = xYieldPending k
     \<and> xSchedulerRunning k' = xSchedulerRunning k \<and> uxSchedulerSuspended k' = uxSchedulerSuspended k
     \<and> uxDeletedTasksWaitingCleanUp k' = uxDeletedTasksWaitingCleanUp k
     \<and> uxCurrentNumberOfTasks k' = uxCurrentNumberOfTasks k \<and> uxPendedTicks k' = uxPendedTicks k"

lemma same_tasks_refl [simp]: "same_tasks k k"
  by (simp add: same_tasks_def)

lemma same_tasks_trans: "same_tasks k k' \<Longrightarrow> same_tasks k' k'' \<Longrightarrow> same_tasks k k''"
  by (simp add: same_tasks_def)

definition due :: "kernel \<Rightarrow> task \<Rightarrow> bool" where
  "due k t \<longleftrightarrow> container k (StateItem t) = Some (pxDelayedTaskList k)
     \<and> item_value k (StateItem t) = xTickCount k"

text \<open>Containers after the tasks that satisfy \<open>P\<close> were woken.\<close>

fun woken_container :: "(task \<Rightarrow> bool) \<Rightarrow> kernel \<Rightarrow> item \<Rightarrow> klist option" where
  "woken_container P k (StateItem t) =
     (if P t then Some (ReadyList (prio k t)) else container k (StateItem t))"
| "woken_container P k (EventItem t) = (if P t then None else container k (EventItem t))"

lemma tick_unblock_loop_correct:
  assumes "tinv T k" and "pxCurrentTCB k = Some c"
  shows "\<exists>sw' k'. tick_unblock_loop (xTickCount k) sw k = Some (sw', k') \<and> kinv T k'
    \<and> same_tasks k k' \<and> xTickCount k' = xTickCount k \<and> xNumOfOverflows k' = xNumOfOverflows k
    \<and> (\<forall>j. container k' j = woken_container (due k) k j)
    \<and> (sw' \<longleftrightarrow> sw \<or> (\<exists>t. due k t \<and> prio k c \<le> prio k t))"
  using assms
proof (induction "length (kitems k (pxDelayedTaskList k))" arbitrary: k sw rule: less_induct)
  case less
  note T = less.prems(1)
  have wf: "wf_store (klists k)" and D: "tick_ok k" using T by (simp_all add: tinv_def lists_ok_def)
  note mem = wf_store_cont [OF wf]
  show ?case
  proof (cases "kitems k (pxDelayedTaskList k)")
    case Nil
    then have none: "container k i \<noteq> Some (pxDelayedTaskList k)" for i by (simp add: mem)
    then have "woken_container (due k) k j = container k j" for j by (cases j) (simp_all add: due_def)
    moreover have "kinv T (k\<lparr>xNextTaskUnblockTime := portMAX_DELAY\<rparr>)"
      by (rule tinv_kinv [OF T]) (use none in blast)+
    ultimately show ?thesis using Nil none
      by (subst tick_unblock_loop.simps) (auto simp: same_tasks_def due_def)
  next
    case (Cons i js)
    then have ci: "container k i = Some (pxDelayedTaskList k)" by (simp add: mem)
    then have adm: "item_task i \<in> T \<and> admits (pxDelayedTaskList k) i"
      using T unfolding tinv_def lists_ok_def by blast
    then obtain t where i: "i = StateItem t" using D by (cases i) (auto simp: tick_ok_def)
    have t: "t \<in> T" and own: "a_owner (klists k) i = t"
      using adm i T by (auto simp: tinv_def lists_ok_def)
    let ?v = "item_value k (StateItem t)"
    have least: "?v \<le> item_value k j" if "container k j = Some (pxDelayedTaskList k)" for j
      using sorts.head_least [OF wf _ Cons that] D i by (simp add: tick_ok_def)
    show ?thesis
    proof (cases "xTickCount k < ?v")
      case True
      have late: "item_value k j \<noteq> xTickCount k" if "container k j = Some (pxDelayedTaskList k)" for j
        using least [OF that] True by auto
      then have "woken_container (due k) k j = container k j" for j by (cases j) (auto simp: due_def)
      moreover have "kinv T (k\<lparr>xNextTaskUnblockTime := ?v\<rparr>)"
        by (rule tinv_kinv [OF T]) (use least late in blast)+
      ultimately show ?thesis using Cons True own late
        by (subst tick_unblock_loop.simps) (auto simp: same_tasks_def due_def)
    next
      case False
      let ?w = "k_wake t k"
      have now: "?v = xTickCount k" using False D ci i by (force simp: tick_ok_def)
      have W: "tinv T ?w" by (rule tinv_wake [OF T]) (use ci i in simp)
      have same: "same_tasks k ?w" "xTickCount ?w = xTickCount k" "pxDelayedTaskList ?w = pxDelayedTaskList k"
        "pxCurrentTCB ?w = Some c"
        using less.prems(2) by (simp_all add: same_tasks_def)
      have dw: "due ?w u \<longleftrightarrow> due k u \<and> u \<noteq> t" for u
        using D by (auto simp: due_def tick_ok_def)
      have dt: "due k t" using ci i now by (simp add: due_def)
      have "length (kitems ?w (pxDelayedTaskList ?w)) < length (kitems k (pxDelayedTaskList k))"
      proof -
        have wf': "wf_store (klists ?w)" using W by (simp add: tinv_def lists_ok_def)
        have nr: "pxDelayedTaskList k \<noteq> ReadyList p" for p using D by (auto simp: tick_ok_def)
        have "container ?w j = Some (pxDelayedTaskList k)
            \<longleftrightarrow> container k j = Some (pxDelayedTaskList k) \<and> j \<noteq> StateItem t \<and> j \<noteq> EventItem t" for j
          using nr [of "prio k t"] by (cases j) auto
        then have "{j. container ?w j = Some (pxDelayedTaskList k)} \<subset> {j. container k j = Some (pxDelayedTaskList k)}"
          using ci i by blast
        then show ?thesis unfolding same(3) ends.length_items [OF wf] ends.length_items [OF wf']
          by (rule psubset_card_mono [OF ends.finite_listed [OF wf]])
      qed
      from less.hyps [OF this W same(4), of "sw \<or> prio ?w t \<ge> prio ?w c"] obtain sw' k' where
        IH: "tick_unblock_loop (xTickCount ?w) (sw \<or> prio ?w t \<ge> prio ?w c) ?w = Some (sw', k')"
          "kinv T k'" "same_tasks ?w k'"
          "xTickCount k' = xTickCount ?w \<and> xNumOfOverflows k' = xNumOfOverflows ?w"
          "\<And>j. container k' j = woken_container (due ?w) ?w j"
          "sw' \<longleftrightarrow> (sw \<or> prio ?w t \<ge> prio ?w c) \<or> (\<exists>u. due ?w u \<and> prio ?w c \<le> prio ?w u)"
        by blast
      have "tick_unblock_loop (xTickCount k) sw k = Some (sw', k')"
        using IH(1) Cons False own same ci i
        by (subst tick_unblock_loop.simps) (simp add: k_remove_unlist k_wake_def Let_def)
      moreover have "container k' j = woken_container (due k) k j" for j
        unfolding IH(5) using dt by (cases j) (auto simp: dw)
      moreover have "sw' \<longleftrightarrow> sw \<or> (\<exists>u. due k u \<and> prio k c \<le> prio k u)"
        unfolding IH(6) dw using dt by auto
      moreover have "same_tasks k k'" by (rule same_tasks_trans [OF same(1) IH(3)])
      moreover have "xTickCount k' = xTickCount k \<and> xNumOfOverflows k' = xNumOfOverflows k"
        using IH(4) same(2) by simp
      ultimately show ?thesis using IH(2) by blast
    qed
  qed
qed

section \<open>The tick\<close>

lemma no_overflow_at_wrap:
  assumes "delay_ok k" and "xTickCount k + 1 = 0"
  shows "container k i \<noteq> Some (pxDelayedTaskList k)"
proof
  assume "container k i = Some (pxDelayedTaskList k)"
  then have "xTickCount k < item_value k i" by (rule delay_okD(4) [OF assms(1)])
  moreover have "xTickCount k = - 1" using assms(2) by (simp only: eq_neg_iff_add_eq_0)
  ultimately show False using word_le_max [of "item_value k i"] by simp
qed

lemma reset_next_fields [simp]:
  "klists (prvResetNextTaskUnblockTime k) = klists k" "tcbs (prvResetNextTaskUnblockTime k) = tcbs k"
  "pxCurrentTCB (prvResetNextTaskUnblockTime k) = pxCurrentTCB k"
  "pxDelayedTaskList (prvResetNextTaskUnblockTime k) = pxDelayedTaskList k"
  "pxOverflowDelayedTaskList (prvResetNextTaskUnblockTime k) = pxOverflowDelayedTaskList k"
  "xTickCount (prvResetNextTaskUnblockTime k) = xTickCount k"
  "xNumOfOverflows (prvResetNextTaskUnblockTime k) = xNumOfOverflows k"
  "uxTopReadyPriority (prvResetNextTaskUnblockTime k) = uxTopReadyPriority k"
  "pendsv (prvResetNextTaskUnblockTime k) = pendsv k"
  "xYieldPending (prvResetNextTaskUnblockTime k) = xYieldPending k"
  "xSchedulerRunning (prvResetNextTaskUnblockTime k) = xSchedulerRunning k"
  "uxSchedulerSuspended (prvResetNextTaskUnblockTime k) = uxSchedulerSuspended k"
  "uxDeletedTasksWaitingCleanUp (prvResetNextTaskUnblockTime k) = uxDeletedTasksWaitingCleanUp k"
  "uxCurrentNumberOfTasks (prvResetNextTaskUnblockTime k) = uxCurrentNumberOfTasks k"
  "uxPendedTicks (prvResetNextTaskUnblockTime k) = uxPendedTicks k"
  by (simp_all add: prvResetNextTaskUnblockTime_def split: option.split)

lemma reset_next_least:
  assumes "lists_ok T k" and "sorted_klist k (pxDelayedTaskList k)"
    and "\<And>t. \<not> admits (pxDelayedTaskList k) (EventItem t)"
    and "container k i = Some (pxDelayedTaskList k)"
  shows "xNextTaskUnblockTime (prvResetNextTaskUnblockTime k) \<le> item_value k i"
proof -
  have wf: "wf_store (klists k)" using assms(1) by (simp add: lists_ok_def)
  then have "i \<in> set (kitems k (pxDelayedTaskList k))" using assms(4) by (simp add: wf_store_cont)
  then obtain h hs where h: "kitems k (pxDelayedTaskList k) = h # hs"
    by (cases "kitems k (pxDelayedTaskList k)") auto
  then have ch: "container k h = Some (pxDelayedTaskList k)" using wf by (simp add: wf_store_cont)
  then have "item_task h \<in> T \<and> admits (pxDelayedTaskList k) h" using assms(1) unfolding lists_ok_def by blast
  then obtain t where "h = StateItem t" "a_owner (klists k) h = t"
    using assms(1,3) by (cases h) (auto simp: lists_ok_def)
  moreover have "item_value k h \<le> item_value k i"
    by (rule sorts.head_least [OF wf assms(2) h assms(4)])
  ultimately show ?thesis using h by (simp add: prvResetNextTaskUnblockTime_def k_head_owner_def)
qed

text \<open>The state in which the loop is entered: the tick is counted and, on a wrap, the lists are switched.\<close>

definition tick_entry :: "kernel \<Rightarrow> kernel" where
  "tick_entry k = (let k' = k\<lparr>xTickCount := xTickCount k + 1\<rparr> in
     if xTickCount k + 1 = 0 then taskSWITCH_DELAYED_LISTS k' else k')"

lemma tick_entry_fields [simp]:
  "klists (tick_entry k) = klists k" "tcbs (tick_entry k) = tcbs k"
  "pxCurrentTCB (tick_entry k) = pxCurrentTCB k" "xTickCount (tick_entry k) = xTickCount k + 1"
  "uxTopReadyPriority (tick_entry k) = uxTopReadyPriority k"
  "pendsv (tick_entry k) = pendsv k" "xYieldPending (tick_entry k) = xYieldPending k"
  "xSchedulerRunning (tick_entry k) = xSchedulerRunning k"
  "uxSchedulerSuspended (tick_entry k) = uxSchedulerSuspended k"
  "uxDeletedTasksWaitingCleanUp (tick_entry k) = uxDeletedTasksWaitingCleanUp k"
  "uxCurrentNumberOfTasks (tick_entry k) = uxCurrentNumberOfTasks k"
  "uxPendedTicks (tick_entry k) = uxPendedTicks k"
  "xNumOfOverflows (tick_entry k) = xNumOfOverflows k + (if xTickCount k + 1 = 0 then 1 else 0)"
  "pxDelayedTaskList (tick_entry k) =
     (if xTickCount k + 1 = 0 then pxOverflowDelayedTaskList k else pxDelayedTaskList k)"
  "pxOverflowDelayedTaskList (tick_entry k) =
     (if xTickCount k + 1 = 0 then pxDelayedTaskList k else pxOverflowDelayedTaskList k)"
  by (simp_all add: tick_entry_def Let_def taskSWITCH_DELAYED_LISTS_def)

lemma tinv_entry:
  assumes "kinv T k"
  shows "tinv T (tick_entry k)"
proof -
  note d = kinvD(4) [OF assms]
  have "tick_ok (tick_entry k)"
  proof (cases "xTickCount k + 1 = 0")
    case True
    then show ?thesis
      using delay_okD(1-3) [OF d] no_overflow_at_wrap [OF d True] unfolding tick_ok_def by auto
  next
    case False
    then have "xTickCount k < xTickCount k + 1" by (rule word_less_succ)
    then have "v < xTickCount k \<Longrightarrow> v < xTickCount k + 1" and "xTickCount k < v \<Longrightarrow> xTickCount k + 1 \<le> v"
      for v by (auto simp: inc_le)
    then show ?thesis using False delay_okD [OF d] unfolding tick_ok_def by auto
  qed
  moreover have "lists_ok T (tick_entry k)" "bits_ok (tick_entry k)"
    using kinvD(2,3) [OF assms] by (simp_all add: lists_ok_def bits_ok_def)
  ultimately show ?thesis by (simp add: tinv_def)
qed

lemma tick_entry_next:
  assumes "kinv T k" and "container k i = Some (pxDelayedTaskList (tick_entry k))"
  shows "xNextTaskUnblockTime (tick_entry k) \<le> item_value k i"
proof (cases "xTickCount k + 1 = 0")
  case True
  let ?k = "k\<lparr>xTickCount := 0, pxDelayedTaskList := pxOverflowDelayedTaskList k,
      pxOverflowDelayedTaskList := pxDelayedTaskList k, xNumOfOverflows := xNumOfOverflows k + 1\<rparr>"
  have "tick_entry k = prvResetNextTaskUnblockTime ?k"
    using True by (simp add: tick_entry_def taskSWITCH_DELAYED_LISTS_def)
  moreover have "xNextTaskUnblockTime (prvResetNextTaskUnblockTime ?k) \<le> item_value ?k i"
    by (rule reset_next_least [of T])
      (use assms True kinvD(2) [OF assms(1)] delay_okD(3) [OF kinvD(4) [OF assms(1)]]
        delayed_lists_neq(10) [OF kinvD(4) [OF assms(1)]] in \<open>simp_all add: lists_ok_def\<close>)
  ultimately show ?thesis by simp
next
  case False
  then show ?thesis
    using assms(2) delay_okD(5) [OF kinvD(4) [OF assms(1)]] by (simp add: tick_entry_def)
qed

text \<open>The tasks a tick wakes: those whose wake time is the new count.\<close>

definition wakes :: "kernel \<Rightarrow> task \<Rightarrow> bool" where
  "wakes k t \<longleftrightarrow> delayed k t \<and> item_value k (StateItem t) = xTickCount k + 1"

lemma due_entry:
  assumes "kinv T k"
  shows "due (tick_entry k) t \<longleftrightarrow> wakes k t"
proof -
  note d = kinvD(4) [OF assms]
  show ?thesis
  proof (cases "xTickCount k + 1 = 0")
    case True
    then show ?thesis using no_overflow_at_wrap [OF d True] by (auto simp: due_def wakes_def delayed_def)
  next
    case False
    then have "xTickCount k < xTickCount k + 1" by (rule word_less_succ)
    then have "container k (StateItem t) = Some (pxOverflowDelayedTaskList k)
        \<Longrightarrow> item_value k (StateItem t) \<noteq> xTickCount k + 1"
      using delay_okD(6) [OF d] by fastforce
    then show ?thesis using False by (auto simp: due_def wakes_def delayed_def)
  qed
qed

lemma xTaskIncrementTick_entry:
  assumes "uxSchedulerSuspended k = 0"
  shows "xTaskIncrementTick k = do {
    r \<leftarrow> (if xNextTaskUnblockTime (tick_entry k) \<le> xTickCount k + 1
         then tick_unblock_loop (xTickCount k + 1) False (tick_entry k) else Some (False, tick_entry k));
    c \<leftarrow> pxCurrentTCB (snd r);
    Some ((fst r \<or> length (kitems (snd r) (ReadyList (prio (snd r) c))) > 1) \<or> xYieldPending (snd r), snd r) }"
  unfolding xTaskIncrementTick_def tick_entry_def Let_def if_P [OF assms] Option.bind_assoc
  by (simp only: split_def fst_conv snd_conv Option.bind.bind_lunit Option.bind_assoc kernel.simps)

lemma tick_correct:
  assumes "kinv T k" and "pxCurrentTCB k = Some c" and "uxSchedulerSuspended k = 0"
  shows "\<exists>sw k'. xTaskIncrementTick k = Some (sw, k') \<and> kinv T k' \<and> same_tasks k k'
    \<and> xTickCount k' = xTickCount k + 1
    \<and> xNumOfOverflows k' = xNumOfOverflows k + (if xTickCount k + 1 = 0 then 1 else 0)
    \<and> (\<forall>j. container k' j = woken_container (wakes k) k j)
    \<and> (sw \<longleftrightarrow> xYieldPending k \<or> length (kitems k' (ReadyList (prio k c))) > 1
         \<or> (\<exists>t. wakes k t \<and> prio k c \<le> prio k t))"
proof -
  let ?e = "tick_entry k"
  have T: "tinv T ?e" by (rule tinv_entry [OF assms(1)])
  have c: "pxCurrentTCB ?e = Some c" using assms(2) by simp
  have "\<exists>sw k'. (if xTickCount k + 1 \<ge> xNextTaskUnblockTime ?e
          then tick_unblock_loop (xTickCount k + 1) False ?e else Some (False, ?e)) = Some (sw, k')
      \<and> kinv T k' \<and> same_tasks ?e k'
      \<and> (xTickCount k' = xTickCount ?e \<and> xNumOfOverflows k' = xNumOfOverflows ?e)
      \<and> (\<forall>j. container k' j = woken_container (due ?e) ?e j)
      \<and> (sw \<longleftrightarrow> (\<exists>t. due ?e t \<and> prio ?e c \<le> prio ?e t))"
  proof (cases "xNextTaskUnblockTime ?e \<le> xTickCount k + 1")
    case True
    then show ?thesis using tick_unblock_loop_correct [OF T c, of False] by simp
  next
    case False
    have late: "item_value ?e i \<noteq> xTickCount ?e" if "container ?e i = Some (pxDelayedTaskList ?e)" for i
      using tick_entry_next [OF assms(1), of i] that False by auto
    then have "\<not> due ?e t" for t by (auto simp: due_def)
    then have "woken_container (due ?e) ?e j = container ?e j" for j by (cases j) simp_all
    moreover have "kinv T (?e\<lparr>xNextTaskUnblockTime := xNextTaskUnblockTime ?e\<rparr>)"
      by (rule tinv_kinv [OF T]) (use tick_entry_next [OF assms(1)] late in simp_all)
    then have "kinv T ?e" by simp
    ultimately show ?thesis
      using False \<open>\<And>t. \<not> due ?e t\<close> by (intro exI [of _ False] exI [of _ ?e]) simp
  qed
  then obtain sw k' where R: "(if xTickCount k + 1 \<ge> xNextTaskUnblockTime ?e
          then tick_unblock_loop (xTickCount k + 1) False ?e else Some (False, ?e)) = Some (sw, k')"
      "kinv T k'" "same_tasks ?e k'" "xTickCount k' = xTickCount ?e \<and> xNumOfOverflows k' = xNumOfOverflows ?e"
      "\<And>j. container k' j = woken_container (due ?e) ?e j"
      "sw \<longleftrightarrow> (\<exists>t. due ?e t \<and> prio ?e c \<le> prio ?e t)" by blast
  have same: "same_tasks k k'" using R(3) by (simp add: same_tasks_def)
  have "xTaskIncrementTick k
      = Some (sw \<or> length (kitems k' (ReadyList (prio k c))) > 1 \<or> xYieldPending k, k')"
    unfolding xTaskIncrementTick_entry [OF assms(3)] R(1)
    using assms(2) same by (simp add: same_tasks_def disj_assoc)
  moreover have "container k' j = woken_container (wakes k) k j" for j
    unfolding R(5) by (cases j) (simp_all add: due_entry [OF assms(1)])
  ultimately show ?thesis using R(2,4,6) same by (auto simp: due_entry [OF assms(1)])
qed

end
