(* ===== verification/Kernel_Ops.thy ===== *)
theory Kernel_Ops
  imports Kernel
begin

text \<open>
  The operations of \<open>freertos/tasks.c\<close> that tasks and interrupt handlers call: suspending
  the scheduler, delays, event lists, time-outs, suspension, priorities and priority
  inheritance, notifications, creation and deletion.
\<close>

section \<open>Scheduler suspension\<close>

definition vTaskSuspendAll :: "kernel \<Rightarrow> kernel" where
  "vTaskSuspendAll k = k\<lparr>uxSchedulerSuspended := uxSchedulerSuspended k + 1\<rparr>"

text \<open>The two loops of \<open>xTaskResumeAll\<close>; the first also says whether any task was moved.\<close>

partial_function (option) pending_ready_loop :: "bool \<Rightarrow> kernel \<Rightarrow> (bool \<times> kernel) option" where
  "pending_ready_loop moved k =
     (case kitems k PendingReadyList of
        [] \<Rightarrow> Some (moved, k)
      | i # _ \<Rightarrow>
          (let t = a_owner (klists k) i in
           Option.bind (k_remove (EventItem t) k) (\<lambda>r.
           Option.bind (k_remove (StateItem t) (snd r)) (\<lambda>r.
             let k = prvAddTaskToReadyList t (snd r) in
             Option.bind (pxCurrentTCB k) (\<lambda>c.
               pending_ready_loop True
                 (if prio k t \<ge> prio k c then k\<lparr>xYieldPending := True\<rparr> else k))))))"

fun pended_ticks_loop :: "nat \<Rightarrow> kernel \<Rightarrow> kernel option" where
  "pended_ticks_loop 0 k = Some k"
| "pended_ticks_loop (Suc n) k =
     do {
       (sw, k) \<leftarrow> xTaskIncrementTick k;
       pended_ticks_loop n (if sw then k\<lparr>xYieldPending := True\<rparr> else k)
     }"

definition xTaskResumeAll :: "kernel \<Rightarrow> (bool \<times> kernel) option" where
  "xTaskResumeAll k =
     (let k = k\<lparr>uxSchedulerSuspended := uxSchedulerSuspended k - 1\<rparr> in
      if uxSchedulerSuspended k = 0 \<and> uxCurrentNumberOfTasks k > 0 then
        do {
          (moved, k) \<leftarrow> pending_ready_loop False k;
          let k = (if moved then prvResetNextTaskUnblockTime k else k);
          k \<leftarrow> (if uxPendedTicks k > 0
               then map_option (\<lambda>k. k\<lparr>uxPendedTicks := 0\<rparr>) (pended_ticks_loop (unat (uxPendedTicks k)) k)
               else Some k);
          Some (if xYieldPending k then (True, portYIELD k) else (False, k))
        }
      else Some (False, k))"

definition xTaskGetTickCount :: "kernel \<Rightarrow> u32" where
  "xTaskGetTickCount k = xTickCount k"

definition uxTaskGetNumberOfTasks :: "kernel \<Rightarrow> u32" where
  "uxTaskGetNumberOfTasks k = uxCurrentNumberOfTasks k"

definition yield_unless :: "bool \<Rightarrow> kernel \<Rightarrow> kernel" where
  "yield_unless already k = (if already then k else portYIELD k)"

section \<open>Delays\<close>

definition vTaskDelay :: "u32 \<Rightarrow> kernel \<Rightarrow> kernel option" where
  "vTaskDelay xTicksToDelay k =
     (if xTicksToDelay > 0 then
        do {
          let k = vTaskSuspendAll k;
          k \<leftarrow> prvAddCurrentTaskToDelayedList xTicksToDelay False k;
          (already, k) \<leftarrow> xTaskResumeAll k;
          Some (yield_unless already k)
        }
      else Some (portYIELD k))"

text \<open>\<open>vTaskDelayUntil\<close> writes the next wake time back through its pointer: the first component.\<close>

definition should_delay_until :: "u32 \<Rightarrow> u32 \<Rightarrow> u32 \<Rightarrow> bool" where
  "should_delay_until xConstTickCount xPreviousWakeTime xTimeToWake =
     (if xConstTickCount < xPreviousWakeTime
      then xTimeToWake < xPreviousWakeTime \<and> xTimeToWake > xConstTickCount
      else xTimeToWake < xPreviousWakeTime \<or> xTimeToWake > xConstTickCount)"

definition vTaskDelayUntil :: "u32 \<Rightarrow> u32 \<Rightarrow> kernel \<Rightarrow> (u32 \<times> kernel) option" where
  "vTaskDelayUntil xPreviousWakeTime xTimeIncrement k =
     do {
       let k = vTaskSuspendAll k;
       let xConstTickCount = xTickCount k;
       let xTimeToWake = xPreviousWakeTime + xTimeIncrement;
       k \<leftarrow> (if should_delay_until xConstTickCount xPreviousWakeTime xTimeToWake
            then prvAddCurrentTaskToDelayedList (xTimeToWake - xConstTickCount) False k else Some k);
       (already, k) \<leftarrow> xTaskResumeAll k;
       Some (xTimeToWake, yield_unless already k)
     }"

section \<open>Event lists and time-outs\<close>

definition vTaskPlaceOnEventList :: "klist \<Rightarrow> u32 \<Rightarrow> kernel \<Rightarrow> kernel option" where
  "vTaskPlaceOnEventList pxEventList xTicksToWait k =
     do {
       t \<leftarrow> pxCurrentTCB k;
       prvAddCurrentTaskToDelayedList xTicksToWait True (k_insert pxEventList (EventItem t) k)
     }"

definition vTaskPlaceOnUnorderedEventList :: "klist \<Rightarrow> u32 \<Rightarrow> u32 \<Rightarrow> kernel \<Rightarrow> kernel option" where
  "vTaskPlaceOnUnorderedEventList pxEventList xNewValue xTicksToWait k =
     do {
       t \<leftarrow> pxCurrentTCB k;
       let k = k_set_value (EventItem t) (xNewValue OR taskEVENT_LIST_ITEM_VALUE_IN_USE) k;
       prvAddCurrentTaskToDelayedList xTicksToWait True (k_insert_end pxEventList (EventItem t) k)
     }"

definition xTaskRemoveFromEventList :: "klist \<Rightarrow> kernel \<Rightarrow> (bool \<times> kernel) option" where
  "xTaskRemoveFromEventList pxEventList k =
     do {
       t \<leftarrow> k_head_owner pxEventList k;
       (_, k) \<leftarrow> k_remove (EventItem t) k;
       k \<leftarrow> (if uxSchedulerSuspended k = 0
            then do { (_, k) \<leftarrow> k_remove (StateItem t) k; Some (prvAddTaskToReadyList t k) }
            else Some (k_insert_end PendingReadyList (EventItem t) k));
       c \<leftarrow> pxCurrentTCB k;
       Some (if prio k t > prio k c then (True, k\<lparr>xYieldPending := True\<rparr>) else (False, k))
     }"

definition vTaskRemoveFromUnorderedEventList :: "item \<Rightarrow> u32 \<Rightarrow> kernel \<Rightarrow> kernel option" where
  "vTaskRemoveFromUnorderedEventList pxEventListItem xNewValue k =
     do {
       let k = k_set_value pxEventListItem (xNewValue OR taskEVENT_LIST_ITEM_VALUE_IN_USE) k;
       let t = a_owner (klists k) pxEventListItem;
       (_, k) \<leftarrow> k_remove pxEventListItem k;
       (_, k) \<leftarrow> k_remove (StateItem t) k;
       let k = prvAddTaskToReadyList t k;
       c \<leftarrow> pxCurrentTCB k;
       Some (if prio k t > prio k c then k\<lparr>xYieldPending := True\<rparr> else k)
     }"

record xTIME_OUT =
  xOverflowCount :: u32
  xTimeOnEntering :: u32

definition vTaskInternalSetTimeOutState :: "kernel \<Rightarrow> xTIME_OUT" where
  "vTaskInternalSetTimeOutState k = \<lparr>xOverflowCount = xNumOfOverflows k, xTimeOnEntering = xTickCount k\<rparr>"

text \<open>Result, and the time-out and remaining ticks written back through the pointers.\<close>

definition xTaskCheckForTimeOut :: "xTIME_OUT \<Rightarrow> u32 \<Rightarrow> kernel \<Rightarrow> bool \<times> xTIME_OUT \<times> u32" where
  "xTaskCheckForTimeOut pxTimeOut xTicksToWait k =
     (let xConstTickCount = xTickCount k;
          xElapsedTime = xConstTickCount - xTimeOnEntering pxTimeOut
      in if xTicksToWait = portMAX_DELAY then (False, pxTimeOut, xTicksToWait)
         else if xNumOfOverflows k \<noteq> xOverflowCount pxTimeOut \<and> xConstTickCount \<ge> xTimeOnEntering pxTimeOut
         then (True, pxTimeOut, xTicksToWait)
         else if xElapsedTime < xTicksToWait
         then (False, vTaskInternalSetTimeOutState k, xTicksToWait - xElapsedTime)
         else (True, pxTimeOut, 0))"

definition vTaskMissedYield :: "kernel \<Rightarrow> kernel" where
  "vTaskMissedYield k = k\<lparr>xYieldPending := True\<rparr>"

definition uxTaskResetEventItemValue :: "kernel \<Rightarrow> (u32 \<times> kernel) option" where
  "uxTaskResetEventItemValue k =
     do {
       t \<leftarrow> pxCurrentTCB k;
       Some (item_value k (EventItem t), k_set_value (EventItem t) (configMAX_PRIORITIES - prio k t) k)
     }"

section \<open>Suspending and resuming a task\<close>

text \<open>A handle is NULL (the calling task) or a TCB.\<close>

definition prvGetTCBFromHandle :: "task option \<Rightarrow> kernel \<Rightarrow> task option" where
  "prvGetTCBFromHandle h k = (case h of None \<Rightarrow> pxCurrentTCB k | Some t \<Rightarrow> Some t)"

definition vTaskSuspend :: "task option \<Rightarrow> kernel \<Rightarrow> kernel option" where
  "vTaskSuspend xTaskToSuspend k =
     do {
       t \<leftarrow> prvGetTCBFromHandle xTaskToSuspend k;
       (left, k) \<leftarrow> k_remove (StateItem t) k;
       let k = (if left = 0 then taskRESET_READY_PRIORITY (prio k t) k else k);
       let k = k_remove_if_listed (EventItem t) k;
       let k = k_insert_end SuspendedTaskList (StateItem t) k;
       let k = (if tcb_ucNotifyState (tcbs k t) = taskWAITING_NOTIFICATION
                then upd_tcb t (tcb_ucNotifyState_update (\<lambda>_. taskNOT_WAITING_NOTIFICATION)) k else k);
       let k = (if xSchedulerRunning k then prvResetNextTaskUnblockTime k else k);
       if Some t = pxCurrentTCB k then
         if xSchedulerRunning k then Some (portYIELD k)
         else if of_nat (length (kitems k SuspendedTaskList)) = uxCurrentNumberOfTasks k
         then Some (k\<lparr>pxCurrentTCB := None\<rparr>)
         else vTaskSwitchContext k
       else Some k
     }"

definition prvTaskIsTaskSuspended :: "task \<Rightarrow> kernel \<Rightarrow> bool" where
  "prvTaskIsTaskSuspended t k \<longleftrightarrow>
     container k (StateItem t) = Some SuspendedTaskList
     \<and> container k (EventItem t) \<noteq> Some PendingReadyList
     \<and> container k (EventItem t) = None"

definition vTaskResume :: "task option \<Rightarrow> kernel \<Rightarrow> kernel option" where
  "vTaskResume xTaskToResume k =
     (case xTaskToResume of
        None \<Rightarrow> Some k
      | Some t \<Rightarrow>
          if Some t \<noteq> pxCurrentTCB k \<and> prvTaskIsTaskSuspended t k then
            do {
              (_, k) \<leftarrow> k_remove (StateItem t) k;
              let k = prvAddTaskToReadyList t k;
              c \<leftarrow> pxCurrentTCB k;
              Some (if prio k t \<ge> prio k c then portYIELD k else k)
            }
          else Some k)"

definition xTaskResumeFromISR :: "task \<Rightarrow> kernel \<Rightarrow> (bool \<times> kernel) option" where
  "xTaskResumeFromISR t k =
     (if prvTaskIsTaskSuspended t k then
        if uxSchedulerSuspended k = 0 then
          do {
            c \<leftarrow> pxCurrentTCB k;
            let xYieldRequired = (prio k t \<ge> prio k c);
            (_, k) \<leftarrow> k_remove (StateItem t) k;
            Some (xYieldRequired, prvAddTaskToReadyList t k)
          }
        else Some (False, k_insert_end PendingReadyList (EventItem t) k)
      else Some (False, k))"

datatype eTaskState = eRunning | eReady | eBlocked | eSuspended | eDeleted

definition eTaskGetState :: "task \<Rightarrow> kernel \<Rightarrow> eTaskState" where
  "eTaskGetState t k =
     (if Some t = pxCurrentTCB k then eRunning
      else
        let pxStateList = container k (StateItem t) in
        if pxStateList = Some (pxDelayedTaskList k) \<or> pxStateList = Some (pxOverflowDelayedTaskList k)
        then eBlocked
        else if pxStateList = Some SuspendedTaskList then
          (if container k (EventItem t) = None then
             (if tcb_ucNotifyState (tcbs k t) = taskWAITING_NOTIFICATION then eBlocked else eSuspended)
           else eBlocked)
        else if pxStateList = Some TasksWaitingTermination \<or> pxStateList = None then eDeleted
        else eReady)"


section \<open>Priorities and priority inheritance\<close>

definition uxTaskPriorityGet :: "task option \<Rightarrow> kernel \<Rightarrow> u32 option" where
  "uxTaskPriorityGet xTask k = map_option (prio k) (prvGetTCBFromHandle xTask k)"

text \<open>Setting the event item's priority value, unless the item carries event bits.\<close>

definition set_event_priority :: "task \<Rightarrow> u32 \<Rightarrow> kernel \<Rightarrow> kernel" where
  "set_event_priority t p k =
     (if item_value k (EventItem t) AND taskEVENT_LIST_ITEM_VALUE_IN_USE = 0
      then k_set_value (EventItem t) (configMAX_PRIORITIES - p) k else k)"

definition vTaskPrioritySet :: "task option \<Rightarrow> u32 \<Rightarrow> kernel \<Rightarrow> kernel option" where
  "vTaskPrioritySet xTask uxNewPriority k =
     do {
       let new = (if uxNewPriority \<ge> configMAX_PRIORITIES then configMAX_PRIORITIES - 1 else uxNewPriority);
       t \<leftarrow> prvGetTCBFromHandle xTask k;
       c \<leftarrow> pxCurrentTCB k;
       let base = tcb_uxBasePriority (tcbs k t);
       if base = new then Some k
       else do {
         let xYieldRequired = (if new > base then t \<noteq> c \<and> new \<ge> prio k c else t = c);
         let uxPriorityUsedOnEntry = prio k t;
         let k = (if base = prio k t then upd_tcb t (tcb_uxPriority_update (\<lambda>_. new)) k else k);
         let k = upd_tcb t (tcb_uxBasePriority_update (\<lambda>_. new)) k;
         let k = set_event_priority t new k;
         k \<leftarrow> (if container k (StateItem t) = Some (ReadyList uxPriorityUsedOnEntry) then
                do {
                  (left, k) \<leftarrow> k_remove (StateItem t) k;
                  Some (prvAddTaskToReadyList t (if left = 0 then portRESET_TOP uxPriorityUsedOnEntry k else k))
                }
              else Some k);
         Some (if xYieldRequired then portYIELD k else k)
       }
     }"

definition xTaskPriorityInherit :: "task option \<Rightarrow> kernel \<Rightarrow> (bool \<times> kernel) option" where
  "xTaskPriorityInherit pxMutexHolder k =
     (case pxMutexHolder of
        None \<Rightarrow> Some (False, k)
      | Some h \<Rightarrow>
          do {
            c \<leftarrow> pxCurrentTCB k;
            if prio k h < prio k c then
              do {
                let k = set_event_priority h (prio k c) k;
                k \<leftarrow> (if container k (StateItem h) = Some (ReadyList (prio k h)) then
                       do {
                         (left, k) \<leftarrow> k_remove (StateItem h) k;
                         let k = (if left = 0 then taskRESET_READY_PRIORITY (prio k h) k else k);
                         Some (prvAddTaskToReadyList h
                                (upd_tcb h (tcb_uxPriority_update (\<lambda>_. prio k c)) k))
                       }
                     else Some (upd_tcb h (tcb_uxPriority_update (\<lambda>_. prio k c)) k));
                Some (True, k)
              }
            else Some (tcb_uxBasePriority (tcbs k h) < prio k c, k)
          })"

definition xTaskPriorityDisinherit :: "task option \<Rightarrow> kernel \<Rightarrow> (bool \<times> kernel) option" where
  "xTaskPriorityDisinherit pxMutexHolder k =
     (case pxMutexHolder of
        None \<Rightarrow> Some (False, k)
      | Some t \<Rightarrow>
          (let k = upd_tcb t (tcb_uxMutexesHeld_update (\<lambda>n. n - 1)) k in
           if prio k t \<noteq> tcb_uxBasePriority (tcbs k t) \<and> tcb_uxMutexesHeld (tcbs k t) = 0 then
             do {
               (left, k) \<leftarrow> k_remove (StateItem t) k;
               let k = (if left = 0 then taskRESET_READY_PRIORITY (prio k t) k else k);
               let k = upd_tcb t (tcb_uxPriority_update (\<lambda>_. tcb_uxBasePriority (tcbs k t))) k;
               let k = k_set_value (EventItem t) (configMAX_PRIORITIES - prio k t) k;
               Some (True, prvAddTaskToReadyList t k)
             }
           else Some (False, k)))"

text \<open>
  As in the code, the priority is lowered before the ready list is left, and the bit that is
  tested and reset is the one of the \<^emph>\<open>new\<close> priority.
\<close>

definition vTaskPriorityDisinheritAfterTimeout :: "task option \<Rightarrow> u32 \<Rightarrow> kernel \<Rightarrow> kernel option" where
  "vTaskPriorityDisinheritAfterTimeout pxMutexHolder uxHighestPriorityWaitingTask k =
     (case pxMutexHolder of
        None \<Rightarrow> Some k
      | Some t \<Rightarrow>
          (let base = tcb_uxBasePriority (tcbs k t);
               uxPriorityToUse = (if base < uxHighestPriorityWaitingTask
                                  then uxHighestPriorityWaitingTask else base)
           in if prio k t \<noteq> uxPriorityToUse \<and> tcb_uxMutexesHeld (tcbs k t) = 1 then
                do {
                  let uxPriorityUsedOnEntry = prio k t;
                  let k = upd_tcb t (tcb_uxPriority_update (\<lambda>_. uxPriorityToUse)) k;
                  let k = set_event_priority t uxPriorityToUse k;
                  if container k (StateItem t) = Some (ReadyList uxPriorityUsedOnEntry) then
                    do {
                      (left, k) \<leftarrow> k_remove (StateItem t) k;
                      let k = (if left = 0 then taskRESET_READY_PRIORITY (prio k t) k else k);
                      Some (prvAddTaskToReadyList t k)
                    }
                  else Some k
                }
              else Some k))"

definition pvTaskIncrementMutexHeldCount :: "kernel \<Rightarrow> task option \<times> kernel" where
  "pvTaskIncrementMutexHeldCount k =
     (case pxCurrentTCB k of
        None \<Rightarrow> (None, k)
      | Some t \<Rightarrow> (Some t, upd_tcb t (tcb_uxMutexesHeld_update (\<lambda>n. n + 1)) k))"

section \<open>Notifications\<close>

text \<open>
  The waiting functions have two critical sections with a possible block between them; each
  section is a definition of its own, since other tasks run in between.
\<close>

definition ulTaskNotifyTake_wait :: "u32 \<Rightarrow> kernel \<Rightarrow> kernel option" where
  "ulTaskNotifyTake_wait xTicksToWait k =
     do {
       t \<leftarrow> pxCurrentTCB k;
       if tcb_ulNotifiedValue (tcbs k t) = 0 then
         do {
           let k = upd_tcb t (tcb_ucNotifyState_update (\<lambda>_. taskWAITING_NOTIFICATION)) k;
           if xTicksToWait > 0 then
             map_option portYIELD (prvAddCurrentTaskToDelayedList xTicksToWait True k)
           else Some k
         }
       else Some k
     }"

definition ulTaskNotifyTake_finish :: "bool \<Rightarrow> kernel \<Rightarrow> (u32 \<times> kernel) option" where
  "ulTaskNotifyTake_finish xClearCountOnExit k =
     do {
       t \<leftarrow> pxCurrentTCB k;
       let ulReturn = tcb_ulNotifiedValue (tcbs k t);
       let k = (if ulReturn \<noteq> 0 then
                  upd_tcb t (tcb_ulNotifiedValue_update
                    (\<lambda>_. if xClearCountOnExit then 0 else ulReturn - 1)) k
                else k);
       Some (ulReturn, upd_tcb t (tcb_ucNotifyState_update (\<lambda>_. taskNOT_WAITING_NOTIFICATION)) k)
     }"

definition xTaskNotifyWait_wait :: "u32 \<Rightarrow> u32 \<Rightarrow> kernel \<Rightarrow> kernel option" where
  "xTaskNotifyWait_wait ulBitsToClearOnEntry xTicksToWait k =
     do {
       t \<leftarrow> pxCurrentTCB k;
       if tcb_ucNotifyState (tcbs k t) \<noteq> taskNOTIFICATION_RECEIVED then
         do {
           let k = upd_tcb t (tcb_ulNotifiedValue_update (\<lambda>v. v AND NOT ulBitsToClearOnEntry)) k;
           let k = upd_tcb t (tcb_ucNotifyState_update (\<lambda>_. taskWAITING_NOTIFICATION)) k;
           if xTicksToWait > 0 then
             map_option portYIELD (prvAddCurrentTaskToDelayedList xTicksToWait True k)
           else Some k
         }
       else Some k
     }"

definition xTaskNotifyWait_finish :: "u32 \<Rightarrow> kernel \<Rightarrow> ((bool \<times> u32) \<times> kernel) option" where
  "xTaskNotifyWait_finish ulBitsToClearOnExit k =
     do {
       t \<leftarrow> pxCurrentTCB k;
       let value = tcb_ulNotifiedValue (tcbs k t);
       let got = (tcb_ucNotifyState (tcbs k t) = taskNOTIFICATION_RECEIVED);
       let k = (if got then
                  upd_tcb t (tcb_ulNotifiedValue_update (\<lambda>v. v AND NOT ulBitsToClearOnExit)) k else k);
       Some ((got, value), upd_tcb t (tcb_ucNotifyState_update (\<lambda>_. taskNOT_WAITING_NOTIFICATION)) k)
     }"

datatype eNotifyAction =
    eNoAction | eSetBits | eIncrement | eSetValueWithOverwrite | eSetValueWithoutOverwrite

text \<open>The \<open>switch\<close> of both notify functions: new value and \<open>xReturn\<close>.\<close>

fun notify_action :: "eNotifyAction \<Rightarrow> u32 \<Rightarrow> notify_state \<Rightarrow> u32 \<Rightarrow> u32 \<times> bool" where
  "notify_action eSetBits v st old = (old OR v, True)"
| "notify_action eIncrement v st old = (old + 1, True)"
| "notify_action eSetValueWithOverwrite v st old = (v, True)"
| "notify_action eSetValueWithoutOverwrite v st old =
     (if st \<noteq> taskNOTIFICATION_RECEIVED then (v, True) else (old, False))"
| "notify_action eNoAction v st old = (old, True)"

definition record_notification ::
  "task \<Rightarrow> u32 \<Rightarrow> eNotifyAction \<Rightarrow> kernel \<Rightarrow> (bool \<times> u32 \<times> notify_state) \<times> kernel" where
  "record_notification t ulValue eAction k =
     (let old = tcb_ulNotifiedValue (tcbs k t);
          st = tcb_ucNotifyState (tcbs k t);
          r = notify_action eAction ulValue st old;
          k = upd_tcb t (tcb_ucNotifyState_update (\<lambda>_. taskNOTIFICATION_RECEIVED)) k;
          k = upd_tcb t (tcb_ulNotifiedValue_update (\<lambda>_. fst r)) k
      in ((snd r, old, st), k))"

text \<open>Result: \<open>xReturn\<close> and the previous value stored through the pointer.\<close>

definition xTaskGenericNotify ::
  "task \<Rightarrow> u32 \<Rightarrow> eNotifyAction \<Rightarrow> kernel \<Rightarrow> ((bool \<times> u32) \<times> kernel) option" where
  "xTaskGenericNotify t ulValue eAction k =
     do {
       let r = record_notification t ulValue eAction k;
       let ret = fst (fst r); let old = fst (snd (fst r)); let st = snd (snd (fst r)); let k = snd r;
       if st = taskWAITING_NOTIFICATION then
         do {
           (_, k) \<leftarrow> k_remove (StateItem t) k;
           let k = prvAddTaskToReadyList t k;
           c \<leftarrow> pxCurrentTCB k;
           Some ((ret, old), if prio k t > prio k c then portYIELD k else k)
         }
       else Some ((ret, old), k)
     }"

text \<open>From an interrupt the flag \<open>*pxHigherPriorityTaskWoken\<close> is set, never cleared: the third component says whether.\<close>

definition notify_wake_from_isr :: "task \<Rightarrow> notify_state \<Rightarrow> kernel \<Rightarrow> (bool \<times> kernel) option" where
  "notify_wake_from_isr t st k =
     (if st = taskWAITING_NOTIFICATION then
        do {
          k \<leftarrow> (if uxSchedulerSuspended k = 0 then
                 do { (_, k) \<leftarrow> k_remove (StateItem t) k; Some (prvAddTaskToReadyList t k) }
               else Some (k_insert_end PendingReadyList (EventItem t) k));
          c \<leftarrow> pxCurrentTCB k;
          Some (if prio k t > prio k c then (True, k\<lparr>xYieldPending := True\<rparr>) else (False, k))
        }
      else Some (False, k))"

definition xTaskGenericNotifyFromISR ::
  "task \<Rightarrow> u32 \<Rightarrow> eNotifyAction \<Rightarrow> kernel \<Rightarrow> ((bool \<times> u32 \<times> bool) \<times> kernel) option" where
  "xTaskGenericNotifyFromISR t ulValue eAction k =
     do {
       let r = record_notification t ulValue eAction k;
       (woken, k) \<leftarrow> notify_wake_from_isr t (snd (snd (fst r))) (snd r);
       Some ((fst (fst r), fst (snd (fst r)), woken), k)
     }"

definition vTaskNotifyGiveFromISR :: "task \<Rightarrow> kernel \<Rightarrow> (bool \<times> kernel) option" where
  "vTaskNotifyGiveFromISR t k =
     (let st = tcb_ucNotifyState (tcbs k t);
          k = upd_tcb t (tcb_ucNotifyState_update (\<lambda>_. taskNOTIFICATION_RECEIVED)) k;
          k = upd_tcb t (tcb_ulNotifiedValue_update (\<lambda>v. v + 1)) k
      in notify_wake_from_isr t st k)"

definition xTaskNotifyStateClear :: "task option \<Rightarrow> kernel \<Rightarrow> (bool \<times> kernel) option" where
  "xTaskNotifyStateClear xTask k =
     do {
       t \<leftarrow> prvGetTCBFromHandle xTask k;
       Some (if tcb_ucNotifyState (tcbs k t) = taskNOTIFICATION_RECEIVED
             then (True, upd_tcb t (tcb_ucNotifyState_update (\<lambda>_. taskNOT_WAITING_NOTIFICATION)) k)
             else (False, k))
     }"

section \<open>Creation and deletion\<close>

definition prvInitialiseTaskLists :: "kernel \<Rightarrow> kernel" where
  "prvInitialiseTaskLists k =
     k\<lparr>klists := fold a_init
         (map ReadyList [0, 1, 2, 3, 4] @ [DelayedTaskList1, DelayedTaskList2, PendingReadyList,
            TasksWaitingTermination, SuspendedTaskList]) (klists k),
       pxDelayedTaskList := DelayedTaskList1,
       pxOverflowDelayedTaskList := DelayedTaskList2\<rparr>"

text \<open>The fields of a new TCB the scheduler reads (its stack frame and name are not modelled).\<close>

definition prvInitialiseNewTask :: "task \<Rightarrow> u32 \<Rightarrow> kernel \<Rightarrow> kernel" where
  "prvInitialiseNewTask t uxPriority k =
     (let p = (if uxPriority \<ge> configMAX_PRIORITIES then configMAX_PRIORITIES - 1 else uxPriority);
          k = upd_tcb t (\<lambda>tcb. tcb\<lparr>tcb_uxPriority := p, tcb_uxBasePriority := p, tcb_uxMutexesHeld := 0,
                tcb_ulNotifiedValue := 0, tcb_ucNotifyState := taskNOT_WAITING_NOTIFICATION\<rparr>) k;
          a = klists k
      in k\<lparr>klists := a\<lparr>
            a_container := (a_container a)(StateItem t := None, EventItem t := None),
            a_owner := (a_owner a)(StateItem t := t, EventItem t := t),
            a_value := (a_value a)(EventItem t := configMAX_PRIORITIES - p)\<rparr>\<rparr>)"

definition prvAddNewTaskToReadyList :: "task \<Rightarrow> kernel \<Rightarrow> kernel" where
  "prvAddNewTaskToReadyList t k =
     (let k = k\<lparr>uxCurrentNumberOfTasks := uxCurrentNumberOfTasks k + 1\<rparr>;
          k = (case pxCurrentTCB k of
                 None \<Rightarrow>
                   (let k = k\<lparr>pxCurrentTCB := Some t\<rparr>
                    in if uxCurrentNumberOfTasks k = 1 then prvInitialiseTaskLists k else k)
               | Some c \<Rightarrow>
                   if \<not> xSchedulerRunning k \<and> prio k c \<le> prio k t
                   then k\<lparr>pxCurrentTCB := Some t\<rparr> else k);
          k = k\<lparr>uxTaskNumber := uxTaskNumber k + 1\<rparr>;
          k = upd_tcb t (tcb_uxTCBNumber_update (\<lambda>_. uxTaskNumber k)) k;
          k = prvAddTaskToReadyList t k
      in if xSchedulerRunning k
            \<and> (case pxCurrentTCB k of None \<Rightarrow> False | Some c \<Rightarrow> prio k c < prio k t)
         then portYIELD k else k)"

text \<open>
  What the allocator does to the scheduler: \<open>pvPortMalloc\<close> and \<open>vPortFree\<close> suspend it and resume
  it, and ignore whether the resumption yielded. A deleted task gives back its stack, then its TCB.
\<close>

definition heap_section :: "kernel \<Rightarrow> kernel option" where
  "heap_section k = map_option snd (xTaskResumeAll (vTaskSuspendAll k))"

definition prvDeleteTCB :: "task \<Rightarrow> kernel \<Rightarrow> kernel option" where
  "prvDeleteTCB t k =
     do {
       k \<leftarrow> heap_section k;
       k \<leftarrow> heap_section k;
       Some (k\<lparr>freed_tcbs := t # freed_tcbs k\<rparr>)
     }"

definition vTaskDelete :: "task option \<Rightarrow> kernel \<Rightarrow> kernel option" where
  "vTaskDelete xTaskToDelete k =
     do {
       t \<leftarrow> prvGetTCBFromHandle xTaskToDelete k;
       (left, k) \<leftarrow> k_remove (StateItem t) k;
       let k = (if left = 0 then taskRESET_READY_PRIORITY (prio k t) k else k);
       let k = k_remove_if_listed (EventItem t) k;
       let k = k\<lparr>uxTaskNumber := uxTaskNumber k + 1\<rparr>;
       k \<leftarrow> (if Some t = pxCurrentTCB k then
              Some ((k_insert_end TasksWaitingTermination (StateItem t) k)
                \<lparr>uxDeletedTasksWaitingCleanUp := uxDeletedTasksWaitingCleanUp k + 1\<rparr>)
            else
              do {
                k \<leftarrow> prvDeleteTCB t (k\<lparr>uxCurrentNumberOfTasks := uxCurrentNumberOfTasks k - 1\<rparr>);
                Some (prvResetNextTaskUnblockTime k)
              });
       Some (if xSchedulerRunning k \<and> Some t = pxCurrentTCB k then portYIELD k else k)
     }"

text \<open>The loop of \<open>prvCheckTasksWaitingTermination\<close> counts \<open>uxDeletedTasksWaitingCleanUp\<close> down.\<close>

fun clean_up_loop :: "nat \<Rightarrow> kernel \<Rightarrow> kernel option" where
  "clean_up_loop 0 k = Some k"
| "clean_up_loop (Suc n) k =
     do {
       t \<leftarrow> k_head_owner TasksWaitingTermination k;
       (_, k) \<leftarrow> k_remove (StateItem t) k;
       k \<leftarrow> prvDeleteTCB t
         (k\<lparr>uxCurrentNumberOfTasks := uxCurrentNumberOfTasks k - 1,
            uxDeletedTasksWaitingCleanUp := uxDeletedTasksWaitingCleanUp k - 1\<rparr>);
       clean_up_loop n k
     }"

definition prvCheckTasksWaitingTermination :: "kernel \<Rightarrow> kernel option" where
  "prvCheckTasksWaitingTermination k = clean_up_loop (unat (uxDeletedTasksWaitingCleanUp k)) k"

text \<open>The part of \<open>vTaskStartScheduler\<close> after the idle task was created.\<close>

definition vTaskStartScheduler_run :: "kernel \<Rightarrow> kernel" where
  "vTaskStartScheduler_run k =
     k\<lparr>xNextTaskUnblockTime := portMAX_DELAY, xSchedulerRunning := True, xTickCount := 0\<rparr>"

definition vTaskEndScheduler :: "kernel \<Rightarrow> kernel" where
  "vTaskEndScheduler k = k\<lparr>xSchedulerRunning := False\<rparr>"

end
