(* ===== verification/Kernel_Sched.thy ===== *)
theory Kernel_Sched
  imports Kernel_Tick Kernel_Ops FreeRTOS_List_Properties
begin

text \<open>
  Every operation of the scheduler keeps the invariant and never reaches a branch the code
  does not handle (a NULL container, an empty ready list): for each, the state it leads to
  in terms of the list moves, and the invariant of that state.
\<close>

section \<open>Selecting a task\<close>

lemma ready_container:
  assumes "kinv T k"
  shows "container k (StateItem t) = Some (ReadyList p) \<longleftrightarrow> ready k t \<and> p = prio k t"
  using kinvD(11) [OF assms] by (auto simp: ready_def)

lemma succ_item_mem:
  assumes "xs \<noteq> []" and "distinct xs" and "\<And>i. c = Some i \<Longrightarrow> i \<in> set xs"
  obtains i where "succ_item c xs = Some i" and "i \<in> set xs"
proof -
  obtain j where "cursor_at xs c j" using cursor_exists [OF assms(1), of c] assms(3) by blast
  from succ_item_nth [OF assms(2,1) this] show ?thesis using assms(1) by (intro that) auto
qed

lemma wf_store_next: "wf_store a \<Longrightarrow> a_items a l \<noteq> [] \<Longrightarrow> wf_store (a_next l a)"
proof -
  assume wf: "wf_store a" and ne: "a_items a l \<noteq> []"
  obtain i where "succ_item (a_index a l) (a_items a l) = Some i" "i \<in> set (a_items a l)"
    using succ_item_mem [OF ne, of "a_index a l"] wf by (auto simp: wf_astore_def)
  then show ?thesis using wf by (auto simp: wf_astore_def a_next_def)
qed

lemma a_next_fields [simp]:
  "a_items (a_next l a) = a_items a" "a_container (a_next l a) = a_container a"
  "a_value (a_next l a) = a_value a" "a_owner (a_next l a) = a_owner a"
  by (simp_all add: a_next_def)

lemma kinv_next:
  assumes "kinv T k" and "kitems k l \<noteq> []"
  shows "kinv T (k\<lparr>klists := a_next l (klists k)\<rparr>)"
  using assms wf_store_next [OF kinvD(1) [OF assms(1)] assms(2)]
  by (simp add: kinv_def lists_ok_def bits_ok_def delay_ok_def sorts.sorted_list_def)

definition top_prio :: "kernel \<Rightarrow> u32" where
  "top_prio k = portGET_HIGHEST_PRIORITY (uxTopReadyPriority k)"

lemma top_prio_ready:
  assumes "kinv T k" and "ready k t"
  shows "kitems k (ReadyList (top_prio k)) \<noteq> []" and "top_prio k < configMAX_PRIORITIES"
    and "\<And>u. ready k u \<Longrightarrow> prio k u \<le> top_prio k"
proof -
  have b: "bit (uxTopReadyPriority k) (unat (prio k u))" if "ready k u" for u
    using that kinvD(13) [OF assms(1)] by (auto simp: ready_def)
  have h: "bit (uxTopReadyPriority k) (unat (top_prio k))"
    and m: "\<And>j. bit (uxTopReadyPriority k) j \<Longrightarrow> j \<le> unat (top_prio k)"
    unfolding top_prio_def using highest_priority [OF b [OF assms(2)]] by blast+
  from h obtain u where u: "container k (StateItem u) = Some (ReadyList (top_prio k))"
    using kinvD(13) [OF assms(1)] by blast
  then show "kitems k (ReadyList (top_prio k)) \<noteq> []" using kinvD(12) [OF assms(1)] by fastforce
  from u show "top_prio k < configMAX_PRIORITIES"
    using kinvD(5,10,11) [OF assms(1)] by metis
  show "ready k u \<Longrightarrow> prio k u \<le> top_prio k" for u using m [OF b] by (simp add: word_le_nat_alt)
qed

definition k_select :: "kernel \<Rightarrow> kernel" where
  "k_select k = (let a = a_next (ReadyList (top_prio k)) (klists k) in
     k\<lparr>klists := a, pxCurrentTCB := map_option (a_owner a) (a_index a (ReadyList (top_prio k)))\<rparr>)"

lemma select_correct:
  assumes "kinv T k" and "ready k t"
  shows "taskSELECT_HIGHEST_PRIORITY_TASK k = Some (k_select k)" and "kinv T (k_select k)"
    and "\<exists>c. pxCurrentTCB (k_select k) = Some c \<and> ready k c \<and> c \<in> T
           \<and> (\<forall>u. ready k u \<longrightarrow> prio k u \<le> prio k c)
           \<and> succ_item (a_index (klists k) (ReadyList (top_prio k))) (kitems k (ReadyList (top_prio k)))
             = Some (StateItem c)"
proof -
  let ?l = "ReadyList (top_prio k)"
  note top = top_prio_ready [OF assms]
  have wf: "wf_store (klists k)" by (rule kinvD(1) [OF assms(1)])
  obtain i where i: "succ_item (a_index (klists k) ?l) (kitems k ?l) = Some i" "i \<in> set (kitems k ?l)"
    using succ_item_mem [OF top(1), of "a_index (klists k) ?l"] wf by (auto simp: wf_astore_def)
  have "container k i = Some ?l" using i(2) kinvD(12) [OF assms(1)] by blast
  moreover from ready_items_state [OF assms(1) this] obtain c where c: "i = StateItem c" by blast
  ultimately have cr: "container k (StateItem c) = Some ?l" by simp
  then have cT: "c \<in> T" and pc: "prio k c = top_prio k"
    using kinvD(5) [OF assms(1) cr] kinvD(11) [OF assms(1) cr] by simp_all
  have own: "a_owner (klists k) i = c" using kinvD(8) [OF assms(1) cT] c by simp
  have next_owner: "k_next_owner ?l k = Some (c, k\<lparr>klists := a_next ?l (klists k)\<rparr>)"
    using i(1) own by (simp add: k_next_owner_def a_next_def)
  show "taskSELECT_HIGHEST_PRIORITY_TASK k = Some (k_select k)"
    using top(2) next_owner i(1) own
    by (simp add: taskSELECT_HIGHEST_PRIORITY_TASK_def top_prio_def [symmetric] k_select_def a_next_def)
  show "kinv T (k_select k)"
    using kinv_next [OF assms(1) top(1)] by (simp add: k_select_def Let_def)
  have "pxCurrentTCB (k_select k) = Some c" using i(1) own by (simp add: k_select_def a_next_def)
  moreover have "ready k c" using cr pc by (simp add: ready_def)
  ultimately show "\<exists>c. pxCurrentTCB (k_select k) = Some c \<and> ready k c \<and> c \<in> T
           \<and> (\<forall>u. ready k u \<longrightarrow> prio k u \<le> prio k c)
           \<and> succ_item (a_index (klists k) ?l) (kitems k ?l) = Some (StateItem c)"
    using cT top(3) pc i(1) c by auto
qed

lemma k_select_fields [simp]:
  "container (k_select k) = container k" "kitems (k_select k) = kitems k" "tcbs (k_select k) = tcbs k"
  "item_value (k_select k) = item_value k" "xTickCount (k_select k) = xTickCount k"
  "pendsv (k_select k) = pendsv k" "xYieldPending (k_select k) = xYieldPending k"
  "xSchedulerRunning (k_select k) = xSchedulerRunning k"
  "uxSchedulerSuspended (k_select k) = uxSchedulerSuspended k"
  "uxDeletedTasksWaitingCleanUp (k_select k) = uxDeletedTasksWaitingCleanUp k"
  "uxTopReadyPriority (k_select k) = uxTopReadyPriority k"
  by (simp_all add: k_select_def Let_def)

section \<open>Making a task ready\<close>

definition k_make_ready :: "task \<Rightarrow> kernel \<Rightarrow> kernel" where
  "k_make_ready t k = prvAddTaskToReadyList t (k_leave t k)"

lemma k_make_ready_fields [simp]:
  "container (k_make_ready t k) j =
     (if j = StateItem t then Some (ReadyList (prio k t)) else container k j)"
  "item_value (k_make_ready t k) = item_value k" "tcbs (k_make_ready t k) = tcbs k"
  "a_owner (klists (k_make_ready t k)) = a_owner (klists k)"
  "pxCurrentTCB (k_make_ready t k) = pxCurrentTCB k"
  "pxDelayedTaskList (k_make_ready t k) = pxDelayedTaskList k"
  "pxOverflowDelayedTaskList (k_make_ready t k) = pxOverflowDelayedTaskList k"
  "xTickCount (k_make_ready t k) = xTickCount k" "pendsv (k_make_ready t k) = pendsv k"
  "xYieldPending (k_make_ready t k) = xYieldPending k"
  "xSchedulerRunning (k_make_ready t k) = xSchedulerRunning k"
  "uxSchedulerSuspended (k_make_ready t k) = uxSchedulerSuspended k"
  "uxDeletedTasksWaitingCleanUp (k_make_ready t k) = uxDeletedTasksWaitingCleanUp k"
  "uxCurrentNumberOfTasks (k_make_ready t k) = uxCurrentNumberOfTasks k"
  "uxPendedTicks (k_make_ready t k) = uxPendedTicks k"
  by (simp_all add: k_make_ready_def)

lemma record_reset: "portRECORD_READY_PRIORITY p (portRESET_READY_PRIORITY p bits) = portRECORD_READY_PRIORITY p bits"
  unfolding portRECORD_READY_PRIORITY_def portRESET_READY_PRIORITY_def
  by (rule bit_word_eqI) (auto simp: bit_simps)

lemma make_ready_eq:
  "prvAddTaskToReadyList t (k_unlist (StateItem t) k) = k_make_ready t k"
  by (simp add: k_make_ready_def k_leave_def Let_def prvAddTaskToReadyList_def
      taskRECORD_READY_PRIORITY_def portRESET_TOP_def record_reset)

lemma kinv_make_ready: "kinv T k \<Longrightarrow> t \<in> T \<Longrightarrow> kinv T (k_make_ready t k)"
  unfolding k_make_ready_def by (rule kinv_ready [OF kinv_leave]) simp_all

end
