(* ===== verification/Kernel_Safety.thy ===== *)
theory Kernel_Safety
  imports Kernel_Sched
begin

text \<open>
  The safety invariant of the running scheduler: besides the list invariant, every task is in
  one list, the idle task is always ready, and either a context switch is requested or no
  ready task has a higher priority than the current one. This theory states it, gives the
  rule by which an operation that moves one task keeps it, and shows the tick, the context
  switch and the resumption of the scheduler keep it.
\<close>

section \<open>The safety invariant\<close>

definition term_count :: "kernel \<Rightarrow> nat" where
  "term_count k = card {i. container k i = Some TasksWaitingTermination}"

lemma term_count_cong:
  "(\<And>i. container k' i = Some TasksWaitingTermination \<longleftrightarrow> container k i = Some TasksWaitingTermination)
    \<Longrightarrow> term_count k' = term_count k"
  by (simp add: term_count_def)

text \<open>The preemption property: a switch is requested, or the current task is of the highest priority.\<close>

definition sched_max :: "kernel \<Rightarrow> bool" where
  "sched_max k \<longleftrightarrow> pendsv k \<or> xYieldPending k
     \<or> (\<exists>c. pxCurrentTCB k = Some c \<and> (\<forall>u. ready k u \<longrightarrow> prio k u \<le> prio k c))"

text \<open>A blocked task does not go on: outside a suspended section a switch is requested.\<close>

definition cur_ok :: "kernel \<Rightarrow> bool" where
  "cur_ok k \<longleftrightarrow> (uxSchedulerSuspended k = 0 \<longrightarrow>
     pendsv k \<or> (\<exists>c. pxCurrentTCB k = Some c \<and> ready k c))"

definition sinv0 :: "task \<Rightarrow> task set \<Rightarrow> kernel \<Rightarrow> bool" where
  "sinv0 idle T k \<longleftrightarrow> kinv T k \<and> (\<exists>c\<in>T. pxCurrentTCB k = Some c) \<and> (idle \<in> T \<longrightarrow> ready k idle)
     \<and> (\<forall>t\<in>T. container k (StateItem t) \<noteq> None)
     \<and> (\<forall>t. container k (EventItem t) \<noteq> None \<longrightarrow> container k (StateItem t) \<noteq> Some TasksWaitingTermination)
     \<and> (\<forall>t\<in>T. tcb_uxBasePriority (tcbs k t) < configMAX_PRIORITIES)
     \<and> unat (uxDeletedTasksWaitingCleanUp k) = term_count k
     \<and> sched_max k"

definition sinv :: "task \<Rightarrow> task set \<Rightarrow> kernel \<Rightarrow> bool" where
  "sinv idle T k \<longleftrightarrow> sinv0 idle T k \<and> cur_ok k \<and> idle \<in> T"

lemma sinv0D:
  assumes "sinv0 idle T k"
  shows "kinv T k" and "\<exists>c\<in>T. pxCurrentTCB k = Some c" and "idle \<in> T \<Longrightarrow> ready k idle"
    and "t \<in> T \<Longrightarrow> container k (StateItem t) \<noteq> None"
    and "container k (EventItem t) \<noteq> None \<Longrightarrow> container k (StateItem t) \<noteq> Some TasksWaitingTermination"
    and "t \<in> T \<Longrightarrow> tcb_uxBasePriority (tcbs k t) < configMAX_PRIORITIES"
    and "unat (uxDeletedTasksWaitingCleanUp k) = term_count k" and "sched_max k"
    and "t \<in> T \<longleftrightarrow> container k (StateItem t) \<noteq> None"
proof -
  show K: "kinv T k" and "\<exists>c\<in>T. pxCurrentTCB k = Some c" and R: "idle \<in> T \<Longrightarrow> ready k idle"
    and P: "t \<in> T \<Longrightarrow> container k (StateItem t) \<noteq> None"
    and "container k (EventItem t) \<noteq> None \<Longrightarrow> container k (StateItem t) \<noteq> Some TasksWaitingTermination"
    and "t \<in> T \<Longrightarrow> tcb_uxBasePriority (tcbs k t) < configMAX_PRIORITIES"
    and "unat (uxDeletedTasksWaitingCleanUp k) = term_count k" and "sched_max k"
    using assms unfolding sinv0_def by blast+
  show "t \<in> T \<longleftrightarrow> container k (StateItem t) \<noteq> None"
    using P kinvD(5) [OF K] by blast
qed

lemma sinvD: "sinv idle T k \<Longrightarrow> sinv0 idle T k" "sinv idle T k \<Longrightarrow> cur_ok k" "sinv idle T k \<Longrightarrow> kinv T k" "sinv idle T k \<Longrightarrow> idle \<in> T"
  by (simp_all add: sinv_def sinv0_def)

section \<open>The rule for an operation that moves one task\<close>

lemma ready_cong:
  "container k' (StateItem u) = container k (StateItem u) \<Longrightarrow> prio k' u = prio k u \<Longrightarrow> ready k' u = ready k u"
  by (simp add: ready_def)

lemma sinv0_move:
  assumes I: "sinv0 idle T k" and K: "kinv T k'" and t: "t \<in> T"
    and C: "\<And>j. j \<noteq> StateItem t \<Longrightarrow> j \<noteq> EventItem t \<Longrightarrow> container k' j = container k j"
    and P: "container k' (StateItem t) \<noteq> None" "container k' (StateItem t) \<noteq> Some TasksWaitingTermination"
      "container k (StateItem t) \<noteq> Some TasksWaitingTermination"
    and prio: "\<And>u. u \<noteq> t \<Longrightarrow> prio k' u = prio k u"
    and base: "\<And>u. u \<in> T \<Longrightarrow> tcb_uxBasePriority (tcbs k' u) < configMAX_PRIORITIES"
    and same: "pxCurrentTCB k' = pxCurrentTCB k" "uxDeletedTasksWaitingCleanUp k' = uxDeletedTasksWaitingCleanUp k"
    and mono: "pendsv k \<Longrightarrow> pendsv k'" "xYieldPending k \<Longrightarrow> xYieldPending k' \<or> pendsv k'"
    and idle: "t = idle \<Longrightarrow> ready k' t"
    and self: "pxCurrentTCB k = Some t \<Longrightarrow> pendsv k' \<or> xYieldPending k' \<or> prio k t \<le> prio k' t"
    and other: "\<And>c. pxCurrentTCB k = Some c \<Longrightarrow> c \<noteq> t \<Longrightarrow> ready k' t \<Longrightarrow> prio k c < prio k' t
      \<Longrightarrow> (ready k t \<and> prio k' t \<le> prio k t) \<or> pendsv k' \<or> xYieldPending k'"
  shows "sinv0 idle T k'"
proof -
  note D = sinv0D [OF I]
  have st: "container k' (StateItem u) = container k (StateItem u)" if "u \<noteq> t" for u using C that by simp
  have ev: "container k' (EventItem u) = container k (EventItem u)" if "u \<noteq> t" for u using C that by simp
  have r: "ready k' u = ready k u" if "u \<noteq> t" for u by (rule ready_cong) (use st prio that in simp_all)
  have "idle \<in> T \<longrightarrow> ready k' idle" using r D(3) idle by (cases "t = idle") auto
  moreover have "\<forall>u\<in>T. container k' (StateItem u) \<noteq> None" using st P(1) D(4) by metis
  moreover have "\<forall>u. container k' (EventItem u) \<noteq> None \<longrightarrow> container k' (StateItem u) \<noteq> Some TasksWaitingTermination"
    using st ev P(2) D(5) by metis
  moreover have "term_count k' = term_count k"
  proof (rule term_count_cong)
    fix i
    show "container k' i = Some TasksWaitingTermination \<longleftrightarrow> container k i = Some TasksWaitingTermination"
      using C [of i] P(2,3) kinvD(6) [OF K, of t TasksWaitingTermination]
        kinvD(6) [OF D(1), of t TasksWaitingTermination] by (cases "i = StateItem t \<or> i = EventItem t") auto
  qed
  moreover have "sched_max k'"
  proof (unfold sched_max_def)
    consider "pendsv k' \<or> xYieldPending k'"
      | c where "\<not> pendsv k'" "\<not> xYieldPending k'" "pxCurrentTCB k = Some c"
          "\<forall>u. ready k u \<longrightarrow> prio k u \<le> prio k c"
      using D(8) mono unfolding sched_max_def by auto
    then show "pendsv k' \<or> xYieldPending k'
        \<or> (\<exists>c. pxCurrentTCB k' = Some c \<and> (\<forall>u. ready k' u \<longrightarrow> prio k' u \<le> prio k' c))"
    proof cases
      case 2
      have "prio k' u \<le> prio k' c" if "ready k' u" for u
      proof (cases "u = t")
        case True
        show ?thesis
        proof (cases "c = t")
          case False
          then have "\<not> prio k c < prio k' t \<or> prio k' t \<le> prio k t \<and> ready k t"
            using other [OF 2(3) False] that True 2(1,2) by auto
          then have "prio k' t \<le> prio k c" using 2(4) by (meson not_le order_trans)
          then show ?thesis using True False prio by simp
        qed (use True in simp)
      next
        case False
        then have "prio k u \<le> prio k c" using 2(4) r that by simp
        then show ?thesis using False prio self 2(1-3) by (cases "c = t") auto
      qed
      then show ?thesis using 2(3) same(1) by auto
    qed blast
  qed
  ultimately show ?thesis using K D(2,7) base same unfolding sinv0_def by simp
qed

lemma cur_ok_move:
  assumes "cur_ok k"
    and C: "\<And>u. u \<noteq> t \<Longrightarrow> container k' (StateItem u) = container k (StateItem u)"
    and prio: "\<And>u. u \<noteq> t \<Longrightarrow> prio k' u = prio k u"
    and same: "pxCurrentTCB k' = pxCurrentTCB k" "uxSchedulerSuspended k' = uxSchedulerSuspended k"
    and mono: "pendsv k \<Longrightarrow> pendsv k'"
    and self: "pxCurrentTCB k = Some t \<Longrightarrow> uxSchedulerSuspended k = 0
      \<Longrightarrow> ready k t \<Longrightarrow> pendsv k' \<or> ready k' t"
  shows "cur_ok k'"
proof -
  have r: "ready k' u = ready k u" if "u \<noteq> t" for u by (rule ready_cong) (use C prio that in simp_all)
  show ?thesis
    using assms(1) mono self r unfolding cur_ok_def same by metis
qed

lemmas sinv_move = sinv0_move cur_ok_move

text \<open>Fields neither part reads.\<close>

lemma ready_frame [simp]:
  "ready (k\<lparr>pendsv := b\<rparr>) = ready k" "ready (k\<lparr>xYieldPending := b\<rparr>) = ready k"
  "ready (k\<lparr>uxSchedulerSuspended := n\<rparr>) = ready k" "ready (k\<lparr>uxPendedTicks := n\<rparr>) = ready k"
  "ready (k\<lparr>pxCurrentTCB := c\<rparr>) = ready k" "ready (portYIELD k) = ready k"
  "ready (prvResetNextTaskUnblockTime k) = ready k" "ready (k_select k) = ready k"
  "ready (k\<lparr>uxTaskNumber := n\<rparr>) = ready k" "ready (k\<lparr>uxCurrentNumberOfTasks := n\<rparr>) = ready k"
  "ready (k\<lparr>uxDeletedTasksWaitingCleanUp := n\<rparr>) = ready k" "ready (k\<lparr>freed_tcbs := ts\<rparr>) = ready k"
  by (simp_all add: ready_def portYIELD_def fun_eq_iff)

lemma term_count_frame [simp]:
  "term_count (k\<lparr>pendsv := b\<rparr>) = term_count k" "term_count (k\<lparr>xYieldPending := b\<rparr>) = term_count k"
  "term_count (k\<lparr>uxSchedulerSuspended := n\<rparr>) = term_count k" "term_count (k\<lparr>uxPendedTicks := n\<rparr>) = term_count k"
  "term_count (portYIELD k) = term_count k" "term_count (prvResetNextTaskUnblockTime k) = term_count k"
  "term_count (k_select k) = term_count k" "term_count (k\<lparr>uxTaskNumber := n\<rparr>) = term_count k"
  "term_count (k\<lparr>uxCurrentNumberOfTasks := n\<rparr>) = term_count k" "term_count (k\<lparr>freed_tcbs := ts\<rparr>) = term_count k"
  by (simp_all add: term_count_def portYIELD_def)

lemma portYIELD_fields [simp]:
  "klists (portYIELD k) = klists k" "tcbs (portYIELD k) = tcbs k" "pxCurrentTCB (portYIELD k) = pxCurrentTCB k"
  "pendsv (portYIELD k)" "xYieldPending (portYIELD k) = xYieldPending k"
  "xSchedulerRunning (portYIELD k) = xSchedulerRunning k"
  "uxSchedulerSuspended (portYIELD k) = uxSchedulerSuspended k" "xTickCount (portYIELD k) = xTickCount k"
  "uxDeletedTasksWaitingCleanUp (portYIELD k) = uxDeletedTasksWaitingCleanUp k"
  "uxCurrentNumberOfTasks (portYIELD k) = uxCurrentNumberOfTasks k"
  "uxPendedTicks (portYIELD k) = uxPendedTicks k"
  "pxDelayedTaskList (portYIELD k) = pxDelayedTaskList k"
  "pxOverflowDelayedTaskList (portYIELD k) = pxOverflowDelayedTaskList k"
  by (simp_all add: portYIELD_def)

lemma sinv0_yield: "sinv0 idle T k \<Longrightarrow> sinv0 idle T (portYIELD k)"
  unfolding sinv0_def by (simp add: sched_max_def)

lemma cur_ok_yield [simp]: "cur_ok (portYIELD k)"
  by (simp add: cur_ok_def)

lemma kinv_reset_next:
  assumes "kinv T k"
  shows "kinv T (prvResetNextTaskUnblockTime k)"
proof -
  note d = kinvD(4) [OF assms]
  have "delay_ok (prvResetNextTaskUnblockTime k)"
    using d reset_next_least [OF kinvD(2) [OF assms] delay_okD(2) [OF d] delayed_lists_neq(9) [OF d]]
    unfolding delay_ok_def by simp
  then show ?thesis using kinvD(2,3) [OF assms] by (simp add: kinv_def lists_ok_def bits_ok_def)
qed

lemma sinv0_reset_next: "sinv0 idle T k \<Longrightarrow> sinv0 idle T (prvResetNextTaskUnblockTime k)"
  unfolding sinv0_def by (simp add: kinv_reset_next sched_max_def)

lemma cur_ok_reset_next [simp]: "cur_ok (prvResetNextTaskUnblockTime k) = cur_ok k"
  by (simp add: cur_ok_def)

section \<open>The tick\<close>

lemma kinv_fields_frame:
  "sinv0 idle T (k\<lparr>uxSchedulerSuspended := n\<rparr>) = sinv0 idle T k"
  "sinv0 idle T (k\<lparr>uxPendedTicks := n\<rparr>) = sinv0 idle T k"
  by (simp_all add: sinv0_def sched_max_def)

lemma sinv0_yield_pending: "sinv0 idle T k \<Longrightarrow> sinv0 idle T (k\<lparr>xYieldPending := True\<rparr>)"
  by (simp add: sinv0_def sched_max_def)

definition flagged :: "kernel \<Rightarrow> bool" where
  "flagged k \<longleftrightarrow> pendsv k \<or> xYieldPending k"

lemma tick_sinv0:
  assumes I: "sinv0 idle T k" and c: "pxCurrentTCB k = Some c" and s: "uxSchedulerSuspended k = 0"
  shows "\<exists>sw k'. xTaskIncrementTick k = Some (sw, k') \<and> same_tasks k k' \<and> xTickCount k' = xTickCount k + 1
    \<and> (\<forall>u. ready k u \<longrightarrow> ready k' u)
    \<and> (\<not> sw \<longrightarrow> sinv0 idle T k') \<and> sinv0 idle T (portYIELD k') \<and> sinv0 idle T (k'\<lparr>xYieldPending := True\<rparr>)"
proof -
  note D = sinv0D [OF I]
  obtain sw k' where R: "xTaskIncrementTick k = Some (sw, k')" "kinv T k'" "same_tasks k k'"
      "xTickCount k' = xTickCount k + 1" "\<And>j. container k' j = woken_container (wakes k) k j"
      "sw \<longleftrightarrow> xYieldPending k \<or> length (kitems k' (ReadyList (prio k c))) > 1
         \<or> (\<exists>t. wakes k t \<and> prio k c \<le> prio k t)"
    using tick_correct [OF D(1) c s] by blast
  have same: "tcbs k' = tcbs k" "pxCurrentTCB k' = Some c" "pendsv k' = pendsv k"
      "xYieldPending k' = xYieldPending k" "uxDeletedTasksWaitingCleanUp k' = uxDeletedTasksWaitingCleanUp k"
    using R(3) c by (simp_all add: same_tasks_def)
  have st: "container k' (StateItem u) = (if wakes k u then Some (ReadyList (prio k u)) else container k (StateItem u))"
    and ev: "container k' (EventItem u) = (if wakes k u then None else container k (EventItem u))" for u
    by (simp_all add: R(5))
  have nt: "container k (StateItem u) \<noteq> Some TasksWaitingTermination" if "wakes k u" for u
    using that delayed_lists_neq(7,8) [OF kinvD(4) [OF D(1)]] by (auto simp: wakes_def delayed_def)
  have rd: "ready k' u \<longleftrightarrow> ready k u \<or> wakes k u" for u by (simp add: ready_def st same(1))
  have tc: "term_count k' = term_count k"
  proof (rule term_count_cong)
    fix i show "container k' i = Some TasksWaitingTermination \<longleftrightarrow> container k i = Some TasksWaitingTermination"
      using nt by (cases i) (auto simp: st ev dest: kinvD(6) [OF D(1)])
  qed
  have rest: "kinv T k' \<and> (\<exists>c\<in>T. pxCurrentTCB k' = Some c) \<and> (idle \<in> T \<longrightarrow> ready k' idle)
      \<and> (\<forall>t\<in>T. container k' (StateItem t) \<noteq> None)
      \<and> (\<forall>t. container k' (EventItem t) \<noteq> None \<longrightarrow> container k' (StateItem t) \<noteq> Some TasksWaitingTermination)
      \<and> (\<forall>t\<in>T. tcb_uxBasePriority (tcbs k' t) < configMAX_PRIORITIES)
      \<and> unat (uxDeletedTasksWaitingCleanUp k') = term_count k'"
    using R(2) D(2-7) c rd tc by (simp add: same st ev)
  have max: "sched_max k'" if "\<not> sw"
  proof -
    have "prio k u \<le> prio k c" if "wakes k u" for u using that \<open>\<not> sw\<close> R(6) by (meson linear)
    then show ?thesis using D(8) \<open>\<not> sw\<close> R(6) c by (auto simp: sched_max_def same rd)
  qed
  have "\<not> sw \<Longrightarrow> sinv0 idle T k'" using rest max by (simp add: sinv0_def)
  moreover have "sinv0 idle T (portYIELD k')" "sinv0 idle T (k'\<lparr>xYieldPending := True\<rparr>)"
    using rest by (simp_all add: sinv0_def sched_max_def)
  ultimately show ?thesis using R(1,3,4) rd by blast
qed

lemma systick_sinv:
  assumes "sinv idle T k"
  shows "\<exists>k'. xPortSysTickHandler k = Some k' \<and> sinv idle T k'"
proof -
  note I = sinvD(1) [OF assms]
  obtain c where c: "pxCurrentTCB k = Some c" using sinv0D(2) [OF I] by blast
  show ?thesis
  proof (cases "uxSchedulerSuspended k = 0")
    case True
    from tick_sinv0 [OF I c True] obtain sw k' where R: "xTaskIncrementTick k = Some (sw, k')"
        "same_tasks k k'" "\<And>u. ready k u \<Longrightarrow> ready k' u" "\<not> sw \<Longrightarrow> sinv0 idle T k'" "sinv0 idle T (portYIELD k')"
      by blast
    have "cur_ok k'" using sinvD(2) [OF assms] R(2,3) unfolding cur_ok_def same_tasks_def by metis
    then show ?thesis using R sinvD(4) [OF assms] by (auto simp: xPortSysTickHandler_def sinv_def)
  next
    case False
    have "sinv0 idle T (k\<lparr>uxPendedTicks := uxPendedTicks k + 1\<rparr>)" using I by (simp add: kinv_fields_frame)
    moreover have "cur_ok (k\<lparr>uxPendedTicks := uxPendedTicks k + 1\<rparr>)" using False by (simp add: cur_ok_def)
    ultimately show ?thesis using False sinvD(4) [OF assms]
      by (auto simp: xPortSysTickHandler_def xTaskIncrementTick_def sinv_def sinv0_yield)
  qed
qed

section \<open>The context switch\<close>

lemma switch_sinv:
  assumes "sinv idle T k"
  shows "\<exists>k'. xPortPendSVHandler k = Some k' \<and> sinv idle T k'"
proof -
  note I = sinvD(1) [OF assms] and D = sinv0D [OF sinvD(1) [OF assms]]
  let ?k = "k\<lparr>pendsv := False\<rparr>"
  show ?thesis
  proof (cases "uxSchedulerSuspended k = 0")
    case True
    let ?s = "k\<lparr>pendsv := False, xYieldPending := False\<rparr>"
    have K: "kinv T ?s" "ready ?s idle" using D(1,3) sinvD(4) [OF assms] by simp_all
    note S = select_correct [OF K]
    obtain c where c: "pxCurrentTCB (k_select ?s) = Some c" "ready ?s c" "c \<in> T"
        "\<forall>u. ready ?s u \<longrightarrow> prio ?s u \<le> prio ?s c" using S(3) by blast
    have "sinv0 idle T (k_select ?s)"
      using S(2) D(3-7) c unfolding sinv0_def by (simp add: sched_max_def)
    moreover have "cur_ok (k_select ?s)" using c by (simp add: cur_ok_def)
    ultimately show ?thesis
      using True S(1) sinvD(4) [OF assms] by (simp add: xPortPendSVHandler_def vTaskSwitchContext_def sinv_def)
  next
    case False
    have "sinv0 idle T (?k\<lparr>xYieldPending := True\<rparr>)"
      using I unfolding sinv0_def by (simp add: sched_max_def)
    moreover have "cur_ok (?k\<lparr>xYieldPending := True\<rparr>)" using False by (simp add: cur_ok_def)
    ultimately show ?thesis
      using False sinvD(4) [OF assms] by (simp add: xPortPendSVHandler_def vTaskSwitchContext_def sinv_def)
  qed
qed

section \<open>Resuming the scheduler\<close>

text \<open>What a task relies on across \<open>xTaskResumeAll\<close>: tasks only become ready.\<close>

definition resumed :: "kernel \<Rightarrow> kernel \<Rightarrow> bool" where
  "resumed k k' \<longleftrightarrow> tcbs k' = tcbs k \<and> item_value k' = item_value k \<and> pxCurrentTCB k' = pxCurrentTCB k
     \<and> xSchedulerRunning k' = xSchedulerRunning k \<and> uxSchedulerSuspended k' = uxSchedulerSuspended k
     \<and> uxDeletedTasksWaitingCleanUp k' = uxDeletedTasksWaitingCleanUp k
     \<and> (pendsv k \<longrightarrow> pendsv k') \<and> (\<forall>u. ready k u \<longrightarrow> ready k' u)"

lemma resumed_refl [simp]: "resumed k k"
  by (simp add: resumed_def)

lemma resumed_trans: "resumed k k' \<Longrightarrow> resumed k' k'' \<Longrightarrow> resumed k k''"
  by (simp add: resumed_def)

lemma pended_ticks_sinv0:
  assumes "sinv0 idle T k" and "uxSchedulerSuspended k = 0"
  shows "\<exists>k'. pended_ticks_loop n k = Some k' \<and> sinv0 idle T k' \<and> resumed k k'
    \<and> xTickCount k' = xTickCount k + of_nat n"
  using assms
proof (induction n arbitrary: k)
  case 0
  then show ?case by simp
next
  case (Suc n)
  obtain c where c: "pxCurrentTCB k = Some c" using sinv0D(2) [OF Suc.prems(1)] by blast
  from tick_sinv0 [OF Suc.prems(1) c Suc.prems(2)] obtain sw k1 where
    R: "xTaskIncrementTick k = Some (sw, k1)" "same_tasks k k1" "xTickCount k1 = xTickCount k + 1"
      "\<And>u. ready k u \<Longrightarrow> ready k1 u" "\<not> sw \<Longrightarrow> sinv0 idle T k1" "sinv0 idle T (k1\<lparr>xYieldPending := True\<rparr>)"
    by blast
  let ?k = "if sw then k1\<lparr>xYieldPending := True\<rparr> else k1"
  have I: "sinv0 idle T ?k" and s: "uxSchedulerSuspended ?k = 0" and r: "resumed k ?k"
    and t: "xTickCount ?k = xTickCount k + 1"
    using R Suc.prems(2) by (auto simp: same_tasks_def resumed_def)
  from Suc.IH [OF I s] obtain k' where "pended_ticks_loop n ?k = Some k'" "sinv0 idle T k'" "resumed ?k k'"
      "xTickCount k' = xTickCount ?k + of_nat n" by blast
  then show ?case using R(1) resumed_trans [OF r] t by (auto simp: ac_simps)
qed

lemma pending_ready_sinv0:
  assumes "sinv0 idle T k" and "pxCurrentTCB k = Some c"
  shows "\<exists>m k'. pending_ready_loop moved k = Some (m, k') \<and> sinv0 idle T k' \<and> resumed k k'
    \<and> xTickCount k' = xTickCount k \<and> kitems k' PendingReadyList = []
    \<and> (\<forall>u. container k (EventItem u) = Some PendingReadyList \<longrightarrow> ready k' u)"
  using assms
proof (induction "length (kitems k PendingReadyList)" arbitrary: k moved rule: less_induct)
  case less
  note D = sinv0D [OF less.prems(1)] and K = sinv0D(1) [OF less.prems(1)]
  show ?case
  proof (cases "kitems k PendingReadyList")
    case Nil
    then have "container k i \<noteq> Some PendingReadyList" for i using kinvD(12) [OF K] by simp
    with Nil show ?thesis using less.prems(1) by (subst pending_ready_loop.simps) simp
  next
    case (Cons i js)
    then have ci: "container k i = Some PendingReadyList" using kinvD(12) [OF K] by simp
    then obtain t where i: "i = EventItem t" using kinvD(7) [OF K ci] by (cases i) auto
    have t: "t \<in> T" and own: "a_owner (klists k) i = t"
      using kinvD(6) [OF K] ci i kinvD(9) [OF K] by blast+
    obtain l where l: "container k (StateItem t) = Some l" "l \<noteq> TasksWaitingTermination"
      using D(4) [OF t] D(5) [of t] ci i by auto
    let ?u = "k_make_ready t (k_unlist (EventItem t) k)"
    let ?k = "if prio k t \<ge> prio k c then ?u\<lparr>xYieldPending := True\<rparr> else ?u"
    have Ku: "kinv T ?u" by (rule kinv_make_ready [OF kinv_unlist_event [OF K] t])
    have I: "sinv0 idle T ?k"
      by (rule sinv0_move [OF less.prems(1) _ t])
        (use Ku l t D(6) less.prems(2) in \<open>auto simp: ready_def split: if_splits\<close>)
    have c': "pxCurrentTCB ?k = Some c" using less.prems(2) by simp
    have r: "resumed k ?k" by (auto simp: resumed_def ready_def)
    have "length (kitems ?k PendingReadyList) < length (kitems k PendingReadyList)"
    proof -
      have "{j. container ?k j = Some PendingReadyList} \<subset> {j. container k j = Some PendingReadyList}"
        using ci i by auto
      then show ?thesis
        unfolding ends.length_items [OF kinvD(1) [OF K]] ends.length_items [OF kinvD(1) [OF sinv0D(1) [OF I]]]
        by (rule psubset_card_mono [OF ends.finite_listed [OF kinvD(1) [OF K]]])
    qed
    from less.hyps [OF this I c', of True] obtain m k' where
      IH: "pending_ready_loop True ?k = Some (m, k')" "sinv0 idle T k'" "resumed ?k k'"
        "xTickCount k' = xTickCount ?k" "kitems k' PendingReadyList = []"
        "\<And>u. container ?k (EventItem u) = Some PendingReadyList \<Longrightarrow> ready k' u" by blast
    have "ready k' u" if "container k (EventItem u) = Some PendingReadyList" for u
    proof (cases "u = t")
      case True
      have "ready ?k t" by (simp add: ready_def)
      then show ?thesis using IH(3) True by (simp add: resumed_def)
    next
      case False
      then show ?thesis using IH(6) [of u] that by simp
    qed
    note pend = this
    have "pending_ready_loop moved k = Some (m, k')"
      using IH(1) Cons own i ci l(1) less.prems(2)
      by (subst pending_ready_loop.simps)
        (simp add: k_remove_unlist make_ready_eq Let_def split: if_splits)
    then show ?thesis using IH(2,4,5) resumed_trans [OF r IH(3)] pend by auto
  qed
qed

lemma resume_all_sinv0:
  assumes "sinv0 idle T k"
  shows "\<exists>b k'. xTaskResumeAll k = Some (b, k') \<and> sinv0 idle T k' \<and> (b \<longrightarrow> pendsv k')
    \<and> resumed (k\<lparr>uxSchedulerSuspended := uxSchedulerSuspended k - 1\<rparr>) k'
    \<and> (uxSchedulerSuspended k = 1 \<longrightarrow> 0 < uxCurrentNumberOfTasks k \<longrightarrow>
         (\<forall>u. container k (EventItem u) = Some PendingReadyList \<longrightarrow> ready k' u))"
proof -
  let ?k = "k\<lparr>uxSchedulerSuspended := uxSchedulerSuspended k - 1\<rparr>"
  have I: "sinv0 idle T ?k" using assms by (simp add: kinv_fields_frame)
  obtain c where c: "pxCurrentTCB ?k = Some c" using sinv0D(2) [OF I] by blast
  show ?thesis
  proof (cases "uxSchedulerSuspended k - 1 = 0 \<and> uxCurrentNumberOfTasks k > 0")
    case False
    then have "xTaskResumeAll k = Some (False, ?k)" by (auto simp: xTaskResumeAll_def)
    moreover have "\<not> (uxSchedulerSuspended k = 1 \<and> 0 < uxCurrentNumberOfTasks k)" using False by force
    ultimately show ?thesis using I resumed_refl [of ?k] by (intro exI [of _ False] exI [of _ ?k]) blast
  next
    case True
    from pending_ready_sinv0 [OF I c] obtain m k1 where
      1: "pending_ready_loop False ?k = Some (m, k1)" "sinv0 idle T k1" "resumed ?k k1"
        "\<And>u. container ?k (EventItem u) = Some PendingReadyList \<Longrightarrow> ready k1 u" by blast
    let ?k2 = "if m then prvResetNextTaskUnblockTime k1 else k1"
    have 2: "sinv0 idle T ?k2" "resumed ?k ?k2" "uxSchedulerSuspended ?k2 = 0"
      using 1(2,3) sinv0_reset_next True by (auto simp: resumed_def)
    have p2: "ready ?k2 u" if "container k (EventItem u) = Some PendingReadyList" for u
      using 1(4) [of u] that by simp
    from pended_ticks_sinv0 [OF 2(1,3), of "unat (uxPendedTicks ?k2)"] obtain k3 where
      3: "pended_ticks_loop (unat (uxPendedTicks ?k2)) ?k2 = Some k3" "sinv0 idle T k3" "resumed ?k2 k3" by blast
    let ?k4 = "if uxPendedTicks ?k2 > 0 then k3\<lparr>uxPendedTicks := 0\<rparr> else ?k2"
    have 4: "sinv0 idle T ?k4" "resumed ?k ?k4"
      using 2 3 resumed_trans [OF 2(2) 3(3)] by (auto simp: kinv_fields_frame resumed_def)
    have p4: "ready ?k4 u" if "container k (EventItem u) = Some PendingReadyList" for u
      using p2 [OF that] 3(3) by (auto simp: resumed_def)
    have "xTaskResumeAll k = Some (if xYieldPending ?k4 then (True, portYIELD ?k4) else (False, ?k4))"
      using True 1(1) 3(1) by (simp add: xTaskResumeAll_def Let_def)
    moreover have "sinv0 idle T (portYIELD ?k4)" "resumed ?k (portYIELD ?k4)"
      using 4 sinv0_yield by (auto simp: resumed_def)
    moreover have "ready (portYIELD ?k4) u = ready ?k4 u" for u by (simp add: ready_def)
    ultimately show ?thesis using 4 p4
      by (intro exI [of _ "xYieldPending ?k4"] exI [of _ "if xYieldPending ?k4 then portYIELD ?k4 else ?k4"])
        (simp split: if_splits)
  qed
qed

section \<open>The sections of the allocator\<close>

lemma cur_ok_resumed: "cur_ok k \<Longrightarrow> resumed k k' \<Longrightarrow> cur_ok k'"
  by (auto simp: cur_ok_def resumed_def)

lemma heap_section_sinv0:
  assumes "sinv0 idle T k" and "cur_ok k"
  shows "\<exists>k'. heap_section k = Some k' \<and> sinv0 idle T k' \<and> cur_ok k' \<and> resumed k k'"
proof -
  have "(vTaskSuspendAll k)\<lparr>uxSchedulerSuspended := uxSchedulerSuspended (vTaskSuspendAll k) - 1\<rparr> = k"
    by (simp add: vTaskSuspendAll_def)
  moreover have "sinv0 idle T (vTaskSuspendAll k)" using assms(1) by (simp add: vTaskSuspendAll_def kinv_fields_frame)
  ultimately obtain b k' where "xTaskResumeAll (vTaskSuspendAll k) = Some (b, k')" "sinv0 idle T k'" "resumed k k'"
    using resume_all_sinv0 by metis
  then show ?thesis using cur_ok_resumed [OF assms(2)] by (simp add: heap_section_def)
qed

lemma heap_sections_sinv0:
  assumes "sinv0 idle T k" and "cur_ok k"
  shows "\<exists>k'. Option.bind (heap_section k) heap_section = Some k' \<and> sinv0 idle T k' \<and> cur_ok k' \<and> resumed k k'"
proof -
  obtain k1 where 1: "heap_section k = Some k1" "sinv0 idle T k1" "cur_ok k1" "resumed k k1"
    using heap_section_sinv0 [OF assms] by blast
  obtain k2 where "heap_section k1 = Some k2" "sinv0 idle T k2" "cur_ok k2" "resumed k1 k2"
    using heap_section_sinv0 [OF 1(2,3)] by blast
  then show ?thesis using 1(1) resumed_trans [OF 1(4)] by simp
qed

lemma freed_frame:
  "sinv0 idle T (k\<lparr>freed_tcbs := ts\<rparr>) = sinv0 idle T k" "cur_ok (k\<lparr>freed_tcbs := ts\<rparr>) = cur_ok k"
  by (simp_all add: sinv0_def sched_max_def cur_ok_def term_count_def)

lemma delete_tcb_sinv0:
  assumes "sinv0 idle T k" and "cur_ok k"
  shows "\<exists>k'. prvDeleteTCB t k = Some k' \<and> sinv0 idle T k' \<and> cur_ok k' \<and> resumed k k' \<and> t \<in> set (freed_tcbs k')"
proof -
  obtain k1 where 1: "Option.bind (heap_section k) heap_section = Some k1" "sinv0 idle T k1" "cur_ok k1" "resumed k k1"
    using heap_sections_sinv0 [OF assms] by blast
  have "prvDeleteTCB t k = map_option (\<lambda>k. k\<lparr>freed_tcbs := t # freed_tcbs k\<rparr>) (Option.bind (heap_section k) heap_section)"
    by (cases "heap_section k"; cases "heap_section (the (heap_section k))") (simp_all add: prvDeleteTCB_def)
  then show ?thesis using 1 by (simp add: freed_frame resumed_def)
qed

end
