(* ===== verification/Kernel_Steps.thy ===== *)
theory Kernel_Steps
  imports Kernel_Safety
begin

text \<open>
  The operations of \<open>tasks.c\<close> one by one: each is a composition of the list moves, and each
  keeps the safety invariant when it is called as its callers call it.
\<close>

lemmas leave_reset = leave_by_reset [simplified]
lemmas leave_clear = leave_by_clear [simplified]

text \<open>The removal of a state item as the operations write it, in one step.\<close>

lemma leave_reset_bind:
  assumes "kinv T k" and "container k (StateItem t) = Some l"
  shows "Option.bind (k_remove (StateItem t) k) (\<lambda>(left, k').
      Let (if left = 0 then taskRESET_READY_PRIORITY (prio k' t) k' else k') F) = F (k_leave t k)"
  using assms(2) by (simp add: k_remove_unlist leave_reset [OF assms] Let_def cong: if_cong split del: if_split)

section \<open>Suspending and resuming a task\<close>

definition k_notify_off :: "task \<Rightarrow> kernel \<Rightarrow> kernel" where
  "k_notify_off t k =
     (if tcb_ucNotifyState (tcbs k t) = taskWAITING_NOTIFICATION
      then upd_tcb t (tcb_ucNotifyState_update (\<lambda>_. taskNOT_WAITING_NOTIFICATION)) k else k)"

lemma k_notify_off_fields [simp]:
  "klists (k_notify_off t k) = klists k" "prio (k_notify_off t k) u = prio k u"
  "tcb_uxBasePriority (tcbs (k_notify_off t k) u) = tcb_uxBasePriority (tcbs k u)"
  "pxCurrentTCB (k_notify_off t k) = pxCurrentTCB k"
  "xSchedulerRunning (k_notify_off t k) = xSchedulerRunning k"
  "uxSchedulerSuspended (k_notify_off t k) = uxSchedulerSuspended k"
  "pendsv (k_notify_off t k) = pendsv k" "xYieldPending (k_notify_off t k) = xYieldPending k"
  "uxDeletedTasksWaitingCleanUp (k_notify_off t k) = uxDeletedTasksWaitingCleanUp k"
  by (simp_all add: k_notify_off_def upd_tcb_def)

lemma kinv_notify_off: "kinv T k \<Longrightarrow> kinv T (k_notify_off t k)"
  by (simp add: k_notify_off_def kinv_upd_tcb)

definition k_suspend :: "task \<Rightarrow> kernel \<Rightarrow> kernel" where
  "k_suspend t k = prvResetNextTaskUnblockTime (k_notify_off t
     (k_insert_end SuspendedTaskList (StateItem t) (k_unlist (EventItem t) (k_leave t k))))"

lemma vTaskSuspend_eq:
  assumes "kinv T k" and "prvGetTCBFromHandle h k = Some t"
    and "container k (StateItem t) = Some l" and "xSchedulerRunning k"
  shows "vTaskSuspend h k = Some (if Some t = pxCurrentTCB k then portYIELD (k_suspend t k) else k_suspend t k)"
  unfolding vTaskSuspend_def assms(2) Option.bind.bind_lunit leave_reset_bind [OF assms(1,3)]
  unfolding Let_def k_notify_off_def [symmetric] k_remove_if_listed_unlist k_suspend_def
  using assms(4) by simp

lemma kinv_suspend:
  assumes "kinv T k" and "t \<in> T"
  shows "kinv T (k_suspend t k)"
  unfolding k_suspend_def
  by (intro kinv_reset_next kinv_notify_off kinv_insert_end kinv_unlist_event kinv_leave)
    (use assms in simp_all)

lemma suspend_sinv:
  assumes "sinv idle T k" and "prvGetTCBFromHandle h k = Some t" and "t \<in> T" and "t \<noteq> idle"
    and "container k (StateItem t) \<noteq> Some TasksWaitingTermination" and "xSchedulerRunning k"
  shows "\<exists>k'. vTaskSuspend h k = Some k' \<and> sinv idle T k'
    \<and> container k' (StateItem t) = Some SuspendedTaskList \<and> container k' (EventItem t) = None"
proof -
  note D = sinv0D [OF sinvD(1) [OF assms(1)]]
  obtain l where l: "container k (StateItem t) = Some l" using D(4) [OF assms(3)] by auto
  let ?k = "if Some t = pxCurrentTCB k then portYIELD (k_suspend t k) else k_suspend t k"
  have f: "container (k_suspend t k) j = (if j = StateItem t then Some SuspendedTaskList
      else if j = EventItem t then None else container k j)" for j
    by (simp add: k_suspend_def)
  have g: "prio (k_suspend t k) u = prio k u" "pxCurrentTCB (k_suspend t k) = pxCurrentTCB k"
     "tcb_uxBasePriority (tcbs (k_suspend t k) u) = tcb_uxBasePriority (tcbs k u)"
     "xSchedulerRunning (k_suspend t k) = xSchedulerRunning k" "pendsv (k_suspend t k) = pendsv k"
     "xYieldPending (k_suspend t k) = xYieldPending k"
     "uxSchedulerSuspended (k_suspend t k) = uxSchedulerSuspended k"
     "uxDeletedTasksWaitingCleanUp (k_suspend t k) = uxDeletedTasksWaitingCleanUp k" for u
    by (simp_all add: k_suspend_def)
  have "kinv T ?k" using kinv_suspend [OF D(1) assms(3)] by simp
  then have "sinv0 idle T ?k"
    by (rule sinv0_move [OF sinvD(1) [OF assms(1)] _ assms(3)])
      (use assms(3-5) D(6) in \<open>auto simp: f g ready_def\<close>)
  moreover have "cur_ok ?k"
    by (rule cur_ok_move [OF sinvD(2) [OF assms(1)], of t]) (auto simp: f g)
  ultimately show ?thesis
    using vTaskSuspend_eq [OF D(1) assms(2) l assms(6)] f by (simp add: sinv_def sinvD(4) [OF assms(1)])
qed

lemma resume_sinv:
  assumes "sinv idle T k"
  shows "\<exists>k'. vTaskResume h k = Some k' \<and> sinv idle T k'"
proof (cases "\<exists>t. h = Some t \<and> Some t \<noteq> pxCurrentTCB k \<and> prvTaskIsTaskSuspended t k")
  case False
  then show ?thesis using assms by (auto simp: vTaskResume_def split: option.split)
next
  case True
  note D = sinv0D [OF sinvD(1) [OF assms]]
  obtain t c where t: "h = Some t" "Some t \<noteq> pxCurrentTCB k" "prvTaskIsTaskSuspended t k"
      and c: "pxCurrentTCB k = Some c" using True D(2) by blast
  then have l: "container k (StateItem t) = Some SuspendedTaskList" by (simp add: prvTaskIsTaskSuspended_def)
  then have tT: "t \<in> T" using kinvD(5) [OF D(1)] by blast
  let ?u = "k_make_ready t k"
  let ?k = "if prio k c \<le> prio k t then portYIELD ?u else ?u"
  have "kinv T ?k" using kinv_make_ready [OF D(1) tT] by simp
  then have "sinv0 idle T ?k"
    by (rule sinv0_move [OF sinvD(1) [OF assms] _ tT])
      (use D(6) l c t(2) in \<open>auto simp: ready_def split: if_splits\<close>)
  moreover have "cur_ok ?k"
    by (rule cur_ok_move [OF sinvD(2) [OF assms], of t]) (use t(2) in \<open>auto split: if_splits\<close>)
  ultimately show ?thesis
    using t l c by (auto simp: vTaskResume_def k_remove_unlist make_ready_eq sinv_def Let_def sinvD(4) [OF assms])
qed

lemma resume_isr_sinv:
  assumes "sinv idle T k"
  shows "\<exists>b k'. xTaskResumeFromISR t k = Some (b, k') \<and> sinv idle T (if b then portYIELD k' else k')"
proof (cases "prvTaskIsTaskSuspended t k")
  case False
  then show ?thesis using assms by (auto simp: xTaskResumeFromISR_def intro: exI [of _ False])
next
  case True
  note D = sinv0D [OF sinvD(1) [OF assms]]
  obtain c where c: "pxCurrentTCB k = Some c" using D(2) by blast
  have l: "container k (StateItem t) = Some SuspendedTaskList" "container k (EventItem t) = None"
    using True by (simp_all add: prvTaskIsTaskSuspended_def)
  then have tT: "t \<in> T" using kinvD(5) [OF D(1)] by blast
  show ?thesis
  proof (cases "uxSchedulerSuspended k = 0")
    case s: True
    let ?u = "k_make_ready t k"
    let ?k = "if prio k c \<le> prio k t then portYIELD ?u else ?u"
    have "kinv T ?k" using kinv_make_ready [OF D(1) tT] by simp
    then have "sinv0 idle T ?k"
      by (rule sinv0_move [OF sinvD(1) [OF assms] _ tT])
        (use D(6) l c in \<open>auto simp: ready_def split: if_splits\<close>)
    moreover have "cur_ok ?k"
      by (rule cur_ok_move [OF sinvD(2) [OF assms], of t]) (use c in \<open>auto simp: ready_def split: if_splits\<close>)
    ultimately have "sinv idle T ?k" by (simp add: sinv_def sinvD(4) [OF assms])
    then show ?thesis
      using True s l c by (simp add: xTaskResumeFromISR_def k_remove_unlist make_ready_eq)
  next
    case False
    let ?k = "k_insert_end PendingReadyList (EventItem t) k"
    have "kinv T ?k" by (rule kinv_insert_end [OF D(1)]) (use tT l in simp_all)
    then have "sinv0 idle T ?k"
      by (rule sinv0_move [OF sinvD(1) [OF assms] _ tT])
        (use D(3,6) tT l c in \<open>auto simp: ready_def\<close>)
    moreover have "cur_ok ?k" using False by (simp add: cur_ok_def)
    ultimately show ?thesis
      using True False
      by (intro exI [of _ False] exI [of _ ?k]) (simp add: xTaskResumeFromISR_def sinv_def sinvD(4) [OF assms])
  qed
qed

end
