(* ===== verification/Kernel_Steps_Block.thy ===== *)
theory Kernel_Steps_Block
  imports Kernel_Steps
begin

text \<open>
  The operations that block the calling task (delays, event lists, waiting for a
  notification) and those that wake a task (event lists, notifications).
\<close>

section \<open>Blocking the current task\<close>

lemma add_current_sinv0:
  assumes "sinv0 idle T k" and "pxCurrentTCB k = Some c" and "ready k c" and "c \<noteq> idle" and "0 < d"
  shows "\<exists>k'. prvAddCurrentTaskToDelayedList d ind k = Some k' \<and> sinv0 idle T k'
    \<and> pxCurrentTCB k' = Some c \<and> uxSchedulerSuspended k' = uxSchedulerSuspended k
    \<and> (if d = portMAX_DELAY \<and> ind then container k' (StateItem c) = Some SuspendedTaskList
       else delayed k' c \<and> item_value k' (StateItem c) = xTickCount k + d)
    \<and> xTickCount k' = xTickCount k"
proof -
  note D = sinv0D [OF assms(1)]
  have c: "c \<in> T" using assms(3) kinvD(5) [OF D(1)] by (auto simp: ready_def)
  obtain k' where R: "prvAddCurrentTaskToDelayedList d ind k = Some k'" "kinv T k'"
      "if d = portMAX_DELAY \<and> ind then container k' (StateItem c) = Some SuspendedTaskList
       else delayed k' c \<and> item_value k' (StateItem c) = xTickCount k + d"
      "\<And>j. j \<noteq> StateItem c \<Longrightarrow> container k' j = container k j"
      "tcbs k' = tcbs k" "pxCurrentTCB k' = Some c" "xTickCount k' = xTickCount k"
      "pendsv k' = pendsv k" "xYieldPending k' = xYieldPending k" "uxSchedulerSuspended k' = uxSchedulerSuspended k"
      "uxDeletedTasksWaitingCleanUp k' = uxDeletedTasksWaitingCleanUp k"
    using add_current_kinv [OF D(1) assms(2,3,5), of ind] by blast
  have "container k' (StateItem c) \<noteq> None \<and> container k' (StateItem c) \<noteq> Some TasksWaitingTermination"
    using R(3) delayed_lists_neq [OF kinvD(4) [OF R(2)]] by (auto simp: delayed_def split: if_splits)
  moreover have "container k (StateItem c) \<noteq> Some TasksWaitingTermination" using assms(3) by (simp add: ready_def)
  ultimately have "sinv0 idle T k'"
    by (intro sinv0_move [OF assms(1) R(2) c]) (use R D(6) assms(2,4) in auto)
  then show ?thesis using R by blast
qed

text \<open>The pattern of every blocking API function: suspend the scheduler, block, resume, yield.\<close>

lemma resume_yield_sinv:
  assumes "sinv0 idle T k" and "idle \<in> T"
  shows "\<exists>b k'. xTaskResumeAll k = Some (b, k') \<and> sinv idle T (yield_unless b k')
    \<and> resumed (k\<lparr>uxSchedulerSuspended := uxSchedulerSuspended k - 1\<rparr>) k'"
proof -
  from resume_all_sinv0 [OF assms(1)] obtain b k' where
    R: "xTaskResumeAll k = Some (b, k')" "sinv0 idle T k'" "b \<longrightarrow> pendsv k'"
      "resumed (k\<lparr>uxSchedulerSuspended := uxSchedulerSuspended k - 1\<rparr>) k'" by blast
  have "sinv idle T (yield_unless b k')"
    using R(2,3) sinv0_yield [OF R(2)] assms(2) by (auto simp: yield_unless_def sinv_def cur_ok_def)
  with R show ?thesis by blast
qed

text \<open>Resuming without a yield is right when the current task was not blocked in between.\<close>

lemma resume_plain_sinv:
  assumes "sinv0 idle T k" and "idle \<in> T" and "pxCurrentTCB k = Some c" and "ready k c"
  shows "\<exists>b k'. xTaskResumeAll k = Some (b, k') \<and> sinv idle T k'"
proof -
  from resume_all_sinv0 [OF assms(1)] obtain b k' where
    R: "xTaskResumeAll k = Some (b, k')" "sinv0 idle T k'"
      "resumed (k\<lparr>uxSchedulerSuspended := uxSchedulerSuspended k - 1\<rparr>) k'" by blast
  have "cur_ok k'" using R(3) assms(3,4) by (simp add: resumed_def cur_ok_def)
  then show ?thesis using R(1,2) assms(2) by (simp add: sinv_def)
qed

lemma delay_sinv:
  assumes "sinv idle T k" and "pxCurrentTCB k = Some c" and "ready k c" and "c \<noteq> idle"
  shows "\<exists>k'. vTaskDelay d k = Some k' \<and> sinv idle T k'"
proof (cases "d > 0")
  case False
  then show ?thesis
    using sinv0_yield [OF sinvD(1) [OF assms(1)]] sinvD(4) [OF assms(1)]
    by (simp add: vTaskDelay_def sinv_def)
next
  case True
  have "sinv0 idle T (vTaskSuspendAll k)"
    using sinvD(1) [OF assms(1)] by (simp add: vTaskSuspendAll_def kinv_fields_frame)
  moreover have "pxCurrentTCB (vTaskSuspendAll k) = Some c" "ready (vTaskSuspendAll k) c"
    using assms(2,3) by (simp_all add: vTaskSuspendAll_def)
  ultimately obtain k1 where 1: "prvAddCurrentTaskToDelayedList d False (vTaskSuspendAll k) = Some k1"
      "sinv0 idle T k1" using add_current_sinv0 [OF _ _ _ assms(4) True] by blast
  from resume_yield_sinv [OF 1(2) sinvD(4) [OF assms(1)]] obtain b k' where
    "xTaskResumeAll k1 = Some (b, k')" "sinv idle T (yield_unless b k')" by blast
  then show ?thesis using True 1(1) by (simp add: vTaskDelay_def)
qed

lemma should_delay_until_later: "should_delay_until now prev wake \<Longrightarrow> wake \<noteq> now"
  by (auto simp: should_delay_until_def split: if_splits)

lemma delay_until_sinv:
  assumes "sinv idle T k" and "pxCurrentTCB k = Some c" and "ready k c" and "c \<noteq> idle"
  shows "\<exists>k'. vTaskDelayUntil prev inc k = Some (prev + inc, k') \<and> sinv idle T k'"
proof -
  let ?s = "vTaskSuspendAll k" and ?w = "prev + inc"
  have s: "sinv0 idle T ?s" "pxCurrentTCB ?s = Some c" "ready ?s c"
    using sinvD(1) [OF assms(1)] assms(2,3) by (simp_all add: vTaskSuspendAll_def kinv_fields_frame)
  have "\<exists>k1. (if should_delay_until (xTickCount ?s) prev ?w
        then prvAddCurrentTaskToDelayedList (?w - xTickCount ?s) False ?s else Some ?s) = Some k1 \<and> sinv0 idle T k1"
  proof (cases "should_delay_until (xTickCount ?s) prev ?w")
    case True
    then have "0 < ?w - xTickCount ?s" using should_delay_until_later [OF True] by (simp add: word_gt_0)
    from add_current_sinv0 [OF s assms(4) this, of False] True show ?thesis by auto
  qed (use s(1) in simp)
  then obtain k1 where 1: "(if should_delay_until (xTickCount ?s) prev ?w
        then prvAddCurrentTaskToDelayedList (?w - xTickCount ?s) False ?s else Some ?s) = Some k1"
      "sinv0 idle T k1" by blast
  from resume_yield_sinv [OF 1(2) sinvD(4) [OF assms(1)]] obtain b k' where
    "xTaskResumeAll k1 = Some (b, k')" "sinv idle T (yield_unless b k')" by blast
  then show ?thesis using 1(1) by (simp add: vTaskDelayUntil_def Let_def)
qed

section \<open>Event lists\<close>

lemma place_sinv:
  assumes "sinv idle T k" and "pxCurrentTCB k = Some c" and "ready k c" and "c \<noteq> idle" and "0 < d"
    and "container k (EventItem c) = None" and "admits l (EventItem c)" and "uxSchedulerSuspended k \<noteq> 0"
  shows "\<exists>k'. vTaskPlaceOnEventList l d k = Some k' \<and> sinv idle T k' \<and> container k' (EventItem c) = Some l"
proof -
  note D = sinv0D [OF sinvD(1) [OF assms(1)]]
  have c: "c \<in> T" using assms(3) kinvD(5) [OF D(1)] by (auto simp: ready_def)
  let ?i = "k_insert l (EventItem c) k"
  have K: "kinv T ?i" by (rule kinv_insert_event [OF D(1) c assms(7,6)])
  have I: "sinv0 idle T ?i"
    by (rule sinv0_move [OF sinvD(1) [OF assms(1)] K c])
      (use assms D(3,6) in \<open>auto simp: ready_def\<close>)
  have r: "ready ?i c" "pxCurrentTCB ?i = Some c" using assms(2,3) by (simp_all add: ready_def)
  have kI: "kinv T ?i" by (rule K)
  obtain k' where R: "prvAddCurrentTaskToDelayedList d True ?i = Some k'"
      "\<And>j. j \<noteq> StateItem c \<Longrightarrow> container k' j = container ?i j"
    using add_current_kinv [OF kI r(2,1) assms(5), of True] by blast
  obtain k'' where S: "prvAddCurrentTaskToDelayedList d True ?i = Some k''" "sinv0 idle T k''"
      "uxSchedulerSuspended k'' = uxSchedulerSuspended ?i"
    using add_current_sinv0 [OF I r(2,1) assms(4,5), of True] by blast
  have "cur_ok k''" using S(3) assms(8) by (simp add: cur_ok_def)
  then show ?thesis
    using S R assms(2) sinvD(4) [OF assms(1)] by (simp add: vTaskPlaceOnEventList_def sinv_def)
qed

lemma place_unordered_sinv:
  assumes "sinv idle T k" and "pxCurrentTCB k = Some c" and "ready k c" and "c \<noteq> idle" and "0 < d"
    and "container k (EventItem c) = None" and "admits l (EventItem c)" and "uxSchedulerSuspended k \<noteq> 0"
  shows "\<exists>k'. vTaskPlaceOnUnorderedEventList l v d k = Some k' \<and> sinv idle T k'"
proof -
  note D = sinv0D [OF sinvD(1) [OF assms(1)]]
  have c: "c \<in> T" using assms(3) kinvD(5) [OF D(1)] by (auto simp: ready_def)
  let ?v = "k_set_value (EventItem c) (v OR taskEVENT_LIST_ITEM_VALUE_IN_USE) k"
  let ?i = "k_insert_end l (EventItem c) ?v"
  have "kinv T ?v" by (rule kinv_set_event_value [OF D(1)])
  then have K: "kinv T ?i"
    by (rule kinv_insert_end) (use assms(6,7) c in \<open>auto elim: admits.elims\<close>)
  have I: "sinv0 idle T ?i"
    by (rule sinv0_move [OF sinvD(1) [OF assms(1)] K c])
      (use assms D(3,6) in \<open>auto simp: ready_def\<close>)
  have r: "ready ?i c" "pxCurrentTCB ?i = Some c" using assms(2,3) by (simp_all add: ready_def)
  obtain k'' where S: "prvAddCurrentTaskToDelayedList d True ?i = Some k''" "sinv0 idle T k''"
      "uxSchedulerSuspended k'' = uxSchedulerSuspended ?i"
    using add_current_sinv0 [OF I r(2,1) assms(4,5), of True] by blast
  have "cur_ok k''" using S(3) assms(8) by (simp add: cur_ok_def)
  then show ?thesis
    using S assms(2) sinvD(4) [OF assms(1)] by (simp add: vTaskPlaceOnUnorderedEventList_def sinv_def Let_def)
qed

lemma event_head:
  assumes "kinv T k" and "kitems k l \<noteq> []" and "\<And>t. \<not> admits l (StateItem t)"
  obtains t where "k_head_owner l k = Some t" and "container k (EventItem t) = Some l" and "t \<in> T"
    and "hd (kitems k l) = EventItem t"
proof -
  obtain i js where ij: "kitems k l = i # js" using assms(2) by (cases "kitems k l") auto
  then have ci: "container k i = Some l" using kinvD(12) [OF assms(1)] by simp
  then obtain t where t: "i = EventItem t" using kinvD(7) [OF assms(1) ci] assms(3) by (cases i) auto
  then have "t \<in> T" using kinvD(6) [OF assms(1)] ci by blast
  moreover from this have "a_owner (klists k) i = t" using kinvD(9) [OF assms(1)] t by simp
  ultimately show ?thesis using ij ci t by (intro that [of t]) (simp_all add: k_head_owner_def)
qed

text \<open>A woken task that outranks the current one leaves a switch pending.\<close>

definition flag_if :: "bool \<Rightarrow> kernel \<Rightarrow> kernel" where
  "flag_if b k = (if b then k\<lparr>xYieldPending := True\<rparr> else k)"

lemma flag_if_fields [simp]:
  "klists (flag_if b k) = klists k" "tcbs (flag_if b k) = tcbs k" "pxCurrentTCB (flag_if b k) = pxCurrentTCB k"
  "pendsv (flag_if b k) = pendsv k" "xYieldPending (flag_if b k) = (b \<or> xYieldPending k)"
  "uxSchedulerSuspended (flag_if b k) = uxSchedulerSuspended k"
  "uxDeletedTasksWaitingCleanUp (flag_if b k) = uxDeletedTasksWaitingCleanUp k"
  "kinv T (flag_if b k) = kinv T k" "ready (flag_if b k) = ready k"
  by (simp_all add: flag_if_def)

lemma wake_sinv:
  assumes I: "sinv idle T k" and t: "t \<in> T" and nt: "container k (StateItem t) \<noteq> Some TasksWaitingTermination"
    and c: "pxCurrentTCB k = Some c" and K: "kinv T k1"
    and C: "\<And>j. j \<noteq> StateItem t \<Longrightarrow> j \<noteq> EventItem t \<Longrightarrow> container k1 j = container k j"
    and P: "container k1 (StateItem t) = Some (ReadyList (prio k t)) \<or> container k1 (StateItem t) = container k (StateItem t)"
    and same: "\<And>u. prio k1 u = prio k u" "\<And>u. tcb_uxBasePriority (tcbs k1 u) = tcb_uxBasePriority (tcbs k u)"
      "pxCurrentTCB k1 = pxCurrentTCB k" "uxDeletedTasksWaitingCleanUp k1 = uxDeletedTasksWaitingCleanUp k"
      "pendsv k1 = pendsv k" "xYieldPending k1 = xYieldPending k" "uxSchedulerSuspended k1 = uxSchedulerSuspended k"
  shows "sinv idle T (flag_if (prio k c < prio k t) k1)"
    and "sinv idle T (if prio k c < prio k t then portYIELD k1 else k1)"
proof -
  note D = sinv0D [OF sinvD(1) [OF I]]
  have st: "container k1 (StateItem t) \<noteq> None" "container k1 (StateItem t) \<noteq> Some TasksWaitingTermination"
    using P nt D(4) [OF t] by auto
  have rt: "ready k t \<Longrightarrow> ready k1 t" using P same(1) by (auto simp: ready_def)
  have "sinv0 idle T (flag_if (prio k c < prio k t) k1)"
    by (rule sinv0_move [OF sinvD(1) [OF I] _ t])
      (use K C st nt same D(3,6) t rt c in \<open>auto simp: ready_def\<close>)
  moreover have "cur_ok (flag_if (prio k c < prio k t) k1)"
    by (rule cur_ok_move [OF sinvD(2) [OF I], of t]) (use C same rt in \<open>auto simp: ready_def\<close>)
  ultimately show "sinv idle T (flag_if (prio k c < prio k t) k1)" using sinvD(4) [OF I] by (simp add: sinv_def)
  then show "sinv idle T (if prio k c < prio k t then portYIELD k1 else k1)"
    by (auto simp: flag_if_def sinv_def sinv0_def sched_max_def split: if_splits)
qed

lemma remove_from_event_list_sinv:
  assumes "sinv idle T k" and "kitems k l \<noteq> []" and "\<And>t. \<not> admits l (StateItem t)"
  shows "\<exists>b k' t. xTaskRemoveFromEventList l k = Some (b, k') \<and> sinv idle T k'
    \<and> hd (kitems k l) = EventItem t
    \<and> (if uxSchedulerSuspended k = 0 then ready k' t \<and> container k' (EventItem t) = None
       else container k' (EventItem t) = Some PendingReadyList)
    \<and> (b \<longleftrightarrow> (\<exists>c. pxCurrentTCB k = Some c \<and> prio k c < prio k t))"
proof -
  note D = sinv0D [OF sinvD(1) [OF assms(1)]]
  obtain c where c: "pxCurrentTCB k = Some c" using D(2) by blast
  obtain t where t: "k_head_owner l k = Some t" "container k (EventItem t) = Some l" "t \<in> T"
      "hd (kitems k l) = EventItem t" using event_head [OF D(1) assms(2,3)] by blast
  obtain m where m: "container k (StateItem t) = Some m" "m \<noteq> TasksWaitingTermination"
    using D(4) [OF t(3)] D(5) [of t] t(2) by auto
  let ?u = "k_unlist (EventItem t) k"
  let ?k = "if uxSchedulerSuspended k = 0 then k_make_ready t ?u else k_insert_end PendingReadyList (EventItem t) ?u"
  have U: "kinv T ?u" by (rule kinv_unlist_event [OF D(1)])
  have "kinv T (k_insert_end PendingReadyList (EventItem t) ?u)"
    by (rule kinv_insert_end [OF U]) (use t(3) in simp_all)
  then have K: "kinv T ?k" using kinv_make_ready [OF U t(3)] by simp
  have S: "sinv idle T (flag_if (prio k c < prio k t) ?k)"
    by (rule wake_sinv(1) [OF assms(1) t(3) _ c K]) (use m in simp_all)
  have "xTaskRemoveFromEventList l k = Some (prio k c < prio k t, flag_if (prio k c < prio k t) ?k)"
    using t(1,2) m(1) c
    by (simp add: xTaskRemoveFromEventList_def k_remove_unlist make_ready_eq flag_if_def)
  with S show ?thesis using t(4) c
    by (intro exI [of _ "prio k c < prio k t"] exI [of _ "flag_if (prio k c < prio k t) ?k"] exI [of _ t])
      (simp add: ready_def)
qed

lemma remove_unordered_sinv:
  assumes "sinv idle T k" and "container k (EventItem t) = Some l"
  shows "\<exists>k'. vTaskRemoveFromUnorderedEventList (EventItem t) v k = Some k' \<and> sinv idle T k'
    \<and> ready k' t \<and> item_value k' (EventItem t) = v OR taskEVENT_LIST_ITEM_VALUE_IN_USE"
proof -
  note D = sinv0D [OF sinvD(1) [OF assms(1)]]
  obtain c where c: "pxCurrentTCB k = Some c" using D(2) by blast
  have t: "t \<in> T" using kinvD(6) [OF D(1) assms(2)] by blast
  obtain m where m: "container k (StateItem t) = Some m" "m \<noteq> TasksWaitingTermination"
    using D(4) [OF t] D(5) [of t] assms(2) by auto
  let ?v = "k_set_value (EventItem t) (v OR taskEVENT_LIST_ITEM_VALUE_IN_USE) k"
  let ?k = "k_make_ready t (k_unlist (EventItem t) ?v)"
  have K: "kinv T ?k"
    by (intro kinv_make_ready kinv_unlist_event kinv_set_event_value D(1) t)
  have "sinv idle T (flag_if (prio k c < prio k t) ?k)"
    by (rule wake_sinv(1) [OF assms(1) t _ c K]) (use m in simp_all)
  moreover have "vTaskRemoveFromUnorderedEventList (EventItem t) v k = Some (flag_if (prio k c < prio k t) ?k)"
    using assms(2) m(1) c kinvD(9) [OF D(1) t]
    by (simp add: vTaskRemoveFromUnorderedEventList_def k_remove_unlist make_ready_eq flag_if_def Let_def)
  ultimately show ?thesis by (simp add: ready_def)
qed

section \<open>Notifications\<close>

lemma kinv_upd_notify:
  "kinv T k \<Longrightarrow> kinv T (upd_tcb t (tcb_ucNotifyState_update f) k)"
  "kinv T k \<Longrightarrow> kinv T (upd_tcb t (tcb_ulNotifiedValue_update g) k)"
  "kinv T k \<Longrightarrow> kinv T (upd_tcb t (tcb_uxMutexesHeld_update h) k)"
  by (rule kinv_upd_tcb; simp)+

lemma sinv_upd_notify:
  assumes "sinv idle T k" and "\<And>tcb. tcb_uxPriority (f tcb) = tcb_uxPriority tcb"
    and "\<And>tcb. tcb_uxBasePriority (f tcb) = tcb_uxBasePriority tcb"
  shows "sinv idle T (upd_tcb t f k)"
proof -
  have r: "ready (upd_tcb t f k) = ready k" by (simp add: ready_def fun_eq_iff assms(2))
  have p: "prio (upd_tcb t f k) u = prio k u" for u by (simp add: assms(2))
  have b: "tcb_uxBasePriority (tcbs (upd_tcb t f k) u) = tcb_uxBasePriority (tcbs k u)" for u
    by (simp add: assms(3))
  have "sched_max (upd_tcb t f k) = sched_max k"
    unfolding sched_max_def r p by simp
  moreover have "cur_ok (upd_tcb t f k) = cur_ok k" unfolding cur_ok_def r by simp
  moreover have "kinv T k \<Longrightarrow> kinv T (upd_tcb t f k)" by (rule kinv_upd_tcb) (assumption, rule assms(2))
  ultimately show ?thesis
    using assms(1) unfolding sinv_def sinv0_def r b by (simp add: term_count_def)
qed

lemma record_notification_snd:
  "snd (record_notification t v a k) =
     upd_tcb t (tcb_ulNotifiedValue_update (\<lambda>_. fst (notify_action a v (tcb_ucNotifyState (tcbs k t))
         (tcb_ulNotifiedValue (tcbs k t)))))
       (upd_tcb t (tcb_ucNotifyState_update (\<lambda>_. taskNOTIFICATION_RECEIVED)) k)"
  by (simp add: record_notification_def Let_def)

lemma notify_sinv:
  assumes "sinv idle T k" and "t \<in> T" and "container k (StateItem t) \<noteq> Some TasksWaitingTermination"
  shows "\<exists>r k'. xTaskGenericNotify t v a k = Some (r, k') \<and> sinv idle T k'
    \<and> tcb_ucNotifyState (tcbs k' t) = taskNOTIFICATION_RECEIVED
    \<and> (tcb_ucNotifyState (tcbs k t) = taskWAITING_NOTIFICATION \<longrightarrow> ready k' t)
    \<and> tcb_ulNotifiedValue (tcbs k' t)
        = fst (notify_action a v (tcb_ucNotifyState (tcbs k t)) (tcb_ulNotifiedValue (tcbs k t)))
    \<and> (\<forall>u. ready k u \<longrightarrow> ready k' u)
    \<and> (\<forall>u. container k (StateItem u) \<noteq> None \<longrightarrow> container k' (StateItem u) \<noteq> None)
    \<and> (\<forall>u. container k (StateItem u) \<noteq> Some TasksWaitingTermination
         \<longrightarrow> container k' (StateItem u) \<noteq> Some TasksWaitingTermination)"
proof -
  note D = sinv0D [OF sinvD(1) [OF assms(1)]]
  obtain c where c: "pxCurrentTCB k = Some c" using D(2) by blast
  let ?n = "snd (record_notification t v a k)"
  let ?old = "tcb_ulNotifiedValue (tcbs k t)" and ?st = "tcb_ucNotifyState (tcbs k t)"
  have N: "sinv idle T ?n" unfolding record_notification_snd
    by (intro sinv_upd_notify assms(1)) simp_all
  have f: "fst (record_notification t v a k) = (snd (notify_action a v ?st ?old), ?old, ?st)"
    by (simp add: record_notification_def Let_def)
  have n: "container ?n = container k" "prio ?n u = prio k u" "pxCurrentTCB ?n = Some c"
      "tcb_ucNotifyState (tcbs ?n t) = taskNOTIFICATION_RECEIVED"
      "tcb_ulNotifiedValue (tcbs ?n t) = fst (notify_action a v ?st ?old)" for u
    using c by (simp_all add: record_notification_snd)
  obtain m where m: "container k (StateItem t) = Some m" using D(4) [OF assms(2)] by auto
  show ?thesis
  proof (cases "?st = taskWAITING_NOTIFICATION")
    case True
    let ?u = "k_make_ready t ?n"
    let ?k = "if prio k c < prio k t then portYIELD ?u else ?u"
    have "sinv idle T ?k"
      using wake_sinv(2) [OF N assms(2) _ n(3) kinv_make_ready [OF sinvD(3) [OF N] assms(2)]] n assms(3) by simp
    moreover have "xTaskGenericNotify t v a k = Some ((snd (notify_action a v ?st ?old), ?old), ?k)"
      using True m n by (simp add: xTaskGenericNotify_def Let_def f k_remove_unlist make_ready_eq)
    ultimately show ?thesis using n True by (auto simp: ready_def)
  next
    case False
    then have "xTaskGenericNotify t v a k = Some ((snd (notify_action a v ?st ?old), ?old), ?n)"
      by (simp add: xTaskGenericNotify_def Let_def f)
    then show ?thesis using N n False by (auto simp: ready_def)
  qed
qed

lemma notify_wake_isr_sinv:
  assumes "sinv idle T k" and "t \<in> T" and "container k (StateItem t) \<noteq> Some TasksWaitingTermination"
    and "uxSchedulerSuspended k \<noteq> 0 \<Longrightarrow> st = taskWAITING_NOTIFICATION \<Longrightarrow> container k (EventItem t) = None"
  shows "\<exists>b k'. notify_wake_from_isr t st k = Some (b, k') \<and> sinv idle T k'"
proof (cases "st = taskWAITING_NOTIFICATION")
  case False
  then show ?thesis using assms(1) by (intro exI [of _ False] exI [of _ k]) (simp add: notify_wake_from_isr_def)
next
  case True
  note D = sinv0D [OF sinvD(1) [OF assms(1)]]
  obtain c where c: "pxCurrentTCB k = Some c" using D(2) by blast
  obtain m where m: "container k (StateItem t) = Some m" using D(4) [OF assms(2)] by auto
  let ?k = "if uxSchedulerSuspended k = 0 then k_make_ready t k else k_insert_end PendingReadyList (EventItem t) k"
  have "kinv T (k_insert_end PendingReadyList (EventItem t) k)" if "uxSchedulerSuspended k \<noteq> 0"
    by (rule kinv_insert_end [OF D(1)]) (use assms(2) assms(4) [OF that True] in simp_all)
  then have K: "kinv T ?k" using kinv_make_ready [OF D(1) assms(2)] by simp
  have "sinv idle T (flag_if (prio k c < prio k t) ?k)"
    by (rule wake_sinv(1) [OF assms(1,2,3) c K]) simp_all
  moreover have "notify_wake_from_isr t st k = Some (prio k c < prio k t, flag_if (prio k c < prio k t) ?k)"
    using True m c by (simp add: notify_wake_from_isr_def k_remove_unlist make_ready_eq flag_if_def)
  ultimately show ?thesis by blast
qed

lemma notify_from_isr_sinv:
  assumes "sinv idle T k" and "t \<in> T" and "container k (StateItem t) \<noteq> Some TasksWaitingTermination"
    and "uxSchedulerSuspended k \<noteq> 0 \<Longrightarrow> container k (EventItem t) = None"
  shows "\<exists>r k'. xTaskGenericNotifyFromISR t v a k = Some (r, k') \<and> sinv idle T k'"
    and "\<exists>b k'. vTaskNotifyGiveFromISR t k = Some (b, k') \<and> sinv idle T k'"
proof -
  let ?n = "snd (record_notification t v a k)"
  have N: "sinv idle T ?n" unfolding record_notification_snd by (intro sinv_upd_notify assms(1)) simp_all
  have "container ?n = container k" "uxSchedulerSuspended ?n = uxSchedulerSuspended k"
    by (simp_all add: record_notification_snd)
  then obtain b k' where "notify_wake_from_isr t (snd (snd (fst (record_notification t v a k)))) ?n = Some (b, k')"
      "sinv idle T k'" using notify_wake_isr_sinv [OF N assms(2)] assms(3,4) by metis
  then show "\<exists>r k'. xTaskGenericNotifyFromISR t v a k = Some (r, k') \<and> sinv idle T k'"
    by (auto simp: xTaskGenericNotifyFromISR_def Let_def)
next
  let ?n = "upd_tcb t (tcb_ulNotifiedValue_update (\<lambda>v. v + 1))
      (upd_tcb t (tcb_ucNotifyState_update (\<lambda>_. taskNOTIFICATION_RECEIVED)) k)"
  have N: "sinv idle T ?n" by (intro sinv_upd_notify assms(1)) simp_all
  have "container ?n = container k" "uxSchedulerSuspended ?n = uxSchedulerSuspended k" by simp_all
  then show "\<exists>b k'. vTaskNotifyGiveFromISR t k = Some (b, k') \<and> sinv idle T k'"
    using notify_wake_isr_sinv [OF N assms(2)] assms(3,4) unfolding vTaskNotifyGiveFromISR_def Let_def by metis
qed

text \<open>The waiting halves block in a critical section and yield.\<close>

lemma block_yield_sinv:
  assumes "sinv idle T k" and "pxCurrentTCB k = Some c" and "ready k c" and "c \<noteq> idle" and "0 < d"
  shows "\<exists>k'. map_option portYIELD (prvAddCurrentTaskToDelayedList d True k) = Some k' \<and> sinv idle T k'"
  using add_current_sinv0 [OF sinvD(1) [OF assms(1)] assms(2-5), of True] sinvD(4) [OF assms(1)] sinv0_yield
  by (auto simp: sinv_def)

lemma notify_wait_sinv:
  assumes "sinv idle T k" and "pxCurrentTCB k = Some c" and "ready k c" and "c \<noteq> idle"
  shows "\<exists>k'. ulTaskNotifyTake_wait d k = Some k' \<and> sinv idle T k'"
    and "\<exists>k'. xTaskNotifyWait_wait bits d k = Some k' \<and> sinv idle T k'"
proof -
  let ?a = "upd_tcb c (tcb_ucNotifyState_update (\<lambda>_. taskWAITING_NOTIFICATION)) k"
  have A: "sinv idle T ?a" by (intro sinv_upd_notify assms(1)) simp_all
  have "pxCurrentTCB ?a = Some c" "ready ?a c" using assms(2,3) by (simp_all add: ready_def)
  from block_yield_sinv [OF A this assms(4)] A assms(1,2)
  show "\<exists>k'. ulTaskNotifyTake_wait d k = Some k' \<and> sinv idle T k'"
    by (cases "d > 0") (auto simp: ulTaskNotifyTake_wait_def Let_def)
next
  let ?b = "upd_tcb c (tcb_ucNotifyState_update (\<lambda>_. taskWAITING_NOTIFICATION))
      (upd_tcb c (tcb_ulNotifiedValue_update (\<lambda>v. v AND NOT bits)) k)"
  have B: "sinv idle T ?b" by (intro sinv_upd_notify assms(1)) simp_all
  have "pxCurrentTCB ?b = Some c" "ready ?b c" using assms(2,3) by (simp_all add: ready_def)
  from block_yield_sinv [OF B this assms(4)] B assms(1,2)
  show "\<exists>k'. xTaskNotifyWait_wait bits d k = Some k' \<and> sinv idle T k'"
    by (cases "d > 0") (auto simp: xTaskNotifyWait_wait_def Let_def)
qed

lemma notify_finish_sinv:
  assumes "sinv idle T k"
  shows "\<exists>r k'. ulTaskNotifyTake_finish clr k = Some (r, k') \<and> sinv idle T k'"
    and "\<exists>r k'. xTaskNotifyWait_finish bits k = Some (r, k') \<and> sinv idle T k'"
    and "\<exists>r k'. xTaskNotifyStateClear h k = Some (r, k') \<and> sinv idle T k'"
proof -
  obtain c where c: "pxCurrentTCB k = Some c" using sinv0D(2) [OF sinvD(1) [OF assms]] by blast
  show "\<exists>r k'. ulTaskNotifyTake_finish clr k = Some (r, k') \<and> sinv idle T k'"
    using assms by (auto simp: ulTaskNotifyTake_finish_def Let_def c intro!: sinv_upd_notify)
  show "\<exists>r k'. xTaskNotifyWait_finish bits k = Some (r, k') \<and> sinv idle T k'"
    using assms by (auto simp: xTaskNotifyWait_finish_def Let_def c intro!: sinv_upd_notify)
  show "\<exists>r k'. xTaskNotifyStateClear h k = Some (r, k') \<and> sinv idle T k'"
    using assms by (cases h)
      (auto simp: xTaskNotifyStateClear_def prvGetTCBFromHandle_def c split del: if_split
        intro!: sinv_upd_notify split: if_split)
qed

end
