(* ===== verification/Kernel_Steps_Prio.thy ===== *)
theory Kernel_Steps_Prio
  imports Kernel_Steps
begin

text \<open>
  The operations that change a priority: \<open>vTaskPrioritySet\<close> and the three steps of the mutex
  priority inheritance protocol.
\<close>

section \<open>Commuting the writes\<close>

lemma a_remove_set_value: "a_remove i (a_set_value j v a) = a_set_value j v (a_remove i a)"
  by (simp add: a_remove_def a_set_value_def split: option.split)

lemma unlist_commute:
  "k_unlist i (upd_tcb t f k) = upd_tcb t f (k_unlist i k)"
  "k_unlist i (k_set_value j v k) = k_set_value j v (k_unlist i k)"
  "k_unlist i (set_event_priority t p k) = set_event_priority t p (k_unlist i k)"
  "portRESET_TOP q (upd_tcb t f k) = upd_tcb t f (portRESET_TOP q k)"
  "portRESET_TOP q (set_event_priority t p k) = set_event_priority t p (portRESET_TOP q k)"
  by (simp_all add: k_unlist_def upd_tcb_def k_set_value_def set_event_priority_def portRESET_TOP_def
      a_remove_set_value a_value_laws)

lemma set_event_priority_fields [simp]:
  "container (set_event_priority t p k) = container k" "kitems (set_event_priority t p k) = kitems k"
  "item_value (set_event_priority t p k) (StateItem u) = item_value k (StateItem u)"
  "tcbs (set_event_priority t p k) = tcbs k" "pxCurrentTCB (set_event_priority t p k) = pxCurrentTCB k"
  "pendsv (set_event_priority t p k) = pendsv k" "xYieldPending (set_event_priority t p k) = xYieldPending k"
  "xSchedulerRunning (set_event_priority t p k) = xSchedulerRunning k"
  "uxSchedulerSuspended (set_event_priority t p k) = uxSchedulerSuspended k"
  "uxDeletedTasksWaitingCleanUp (set_event_priority t p k) = uxDeletedTasksWaitingCleanUp k"
  "uxTopReadyPriority (set_event_priority t p k) = uxTopReadyPriority k"
  by (simp_all add: set_event_priority_def)

lemma kinv_set_event_priority: "kinv T k \<Longrightarrow> kinv T (set_event_priority t p k)"
  by (simp add: set_event_priority_def kinv_set_event_value)

lemma kitems_upd_tcb [simp]: "kitems (upd_tcb t f k) = kitems k"
  by simp

section \<open>vTaskPrioritySet\<close>

definition clamp_prio :: "u32 \<Rightarrow> u32" where
  "clamp_prio p = (if p \<ge> configMAX_PRIORITIES then configMAX_PRIORITIES - 1 else p)"

lemma clamp_prio_less: "clamp_prio p < configMAX_PRIORITIES"
  by (auto simp: clamp_prio_def configMAX_PRIORITIES_def)

definition set_prios :: "task \<Rightarrow> u32 \<Rightarrow> kernel \<Rightarrow> kernel" where
  "set_prios t new k =
     upd_tcb t (tcb_uxBasePriority_update (\<lambda>_. new))
       (if tcb_uxBasePriority (tcbs k t) = prio k t
        then upd_tcb t (tcb_uxPriority_update (\<lambda>_. new)) k else k)"

lemma set_prios_fields [simp]:
  "klists (set_prios t new k) = klists k" "pxCurrentTCB (set_prios t new k) = pxCurrentTCB k"
  "pendsv (set_prios t new k) = pendsv k" "xYieldPending (set_prios t new k) = xYieldPending k"
  "xSchedulerRunning (set_prios t new k) = xSchedulerRunning k"
  "uxSchedulerSuspended (set_prios t new k) = uxSchedulerSuspended k"
  "uxDeletedTasksWaitingCleanUp (set_prios t new k) = uxDeletedTasksWaitingCleanUp k"
  "prio (set_prios t new k) u = (if u = t \<and> tcb_uxBasePriority (tcbs k t) = prio k t then new else prio k u)"
  "tcb_uxBasePriority (tcbs (set_prios t new k) u) = (if u = t then new else tcb_uxBasePriority (tcbs k u))"
  by (simp_all add: set_prios_def upd_tcb_def)

definition k_set_prios :: "task \<Rightarrow> u32 \<Rightarrow> kernel \<Rightarrow> kernel" where
  "k_set_prios t new k =
     (if container k (StateItem t) = Some (ReadyList (prio k t))
      then prvAddTaskToReadyList t (set_event_priority t new (set_prios t new (k_leave t k)))
      else set_event_priority t new (set_prios t new k))"

lemma set_prios_commute:
  "k_unlist i (set_prios t new k) = set_prios t new (k_unlist i k)"
  "portRESET_TOP q (set_prios t new k) = set_prios t new (portRESET_TOP q k)"
  by (simp_all add: set_prios_def unlist_commute)

lemma vTaskPrioritySet_eq:
  assumes "prvGetTCBFromHandle h k = Some t" and "pxCurrentTCB k = Some c"
  shows "vTaskPrioritySet h p k =
    (let new = clamp_prio p; base = tcb_uxBasePriority (tcbs k t) in
     Some (if base = new then k
           else if (if new > base then t \<noteq> c \<and> new \<ge> prio k c else t = c)
           then portYIELD (k_set_prios t new k) else k_set_prios t new k))"
proof -
  have "(if container (set_event_priority t n (set_prios t n k)) (StateItem t) = Some (ReadyList (prio k t)) then
          Option.bind (k_remove (StateItem t) (set_event_priority t n (set_prios t n k)))
            (\<lambda>(left, k'). Some (prvAddTaskToReadyList t (if left = 0 then portRESET_TOP (prio k t) k' else k')))
        else Some (set_event_priority t n (set_prios t n k))) = Some (k_set_prios t n k)" for n
    by (cases "kitems (k_unlist (StateItem t) k) (ReadyList (prio k t)) = []")
      (simp_all add: k_set_prios_def k_remove_unlist unlist_commute set_prios_commute k_leave_def Let_def)
  note step = this
  show ?thesis
    unfolding vTaskPrioritySet_def assms Option.bind.bind_lunit clamp_prio_def [symmetric] Let_def
      set_prios_def [symmetric] step
    by simp
qed

lemma kinv_set_prios_unready:
  assumes "kinv T k" and "\<And>p. container k (StateItem t) \<noteq> Some (ReadyList p)" and "new < configMAX_PRIORITIES"
  shows "kinv T (set_event_priority t new (set_prios t new k))"
  unfolding set_prios_def
  by (intro kinv_set_event_priority kinv_upd_tcb) (use kinv_set_prio [OF assms] assms(1) in simp_all)

lemma kinv_k_set_prios:
  assumes "kinv T k" and "t \<in> T" and "new < configMAX_PRIORITIES"
  shows "kinv T (k_set_prios t new k)"
proof (cases "container k (StateItem t) = Some (ReadyList (prio k t))")
  case True
  have "kinv T (set_event_priority t new (set_prios t new (k_leave t k)))"
    by (rule kinv_set_prios_unready [OF kinv_leave [OF assms(1)] _ assms(3)]) simp
  then have "kinv T (prvAddTaskToReadyList t (set_event_priority t new (set_prios t new (k_leave t k))))"
    by (rule kinv_ready [OF _ assms(2)]) simp
  with True show ?thesis by (simp add: k_set_prios_def)
next
  case False
  have "container k (StateItem t) \<noteq> Some (ReadyList p)" for p
    using False kinvD(11) [OF assms(1)] by blast
  then show ?thesis
    using False kinv_set_prios_unready [OF assms(1) _ assms(3)] by (simp add: k_set_prios_def)
qed

lemma k_set_prios_fields [simp]:
  "container (k_set_prios t new k) j =
     (if j = StateItem t \<and> ready k t
      then Some (ReadyList (if tcb_uxBasePriority (tcbs k t) = prio k t then new else prio k t))
      else container k j)"
  "prio (k_set_prios t new k) u = (if u = t \<and> tcb_uxBasePriority (tcbs k t) = prio k t then new else prio k u)"
  "tcb_uxBasePriority (tcbs (k_set_prios t new k) u) = (if u = t then new else tcb_uxBasePriority (tcbs k u))"
  "pxCurrentTCB (k_set_prios t new k) = pxCurrentTCB k"
  "pendsv (k_set_prios t new k) = pendsv k" "xYieldPending (k_set_prios t new k) = xYieldPending k"
  "xSchedulerRunning (k_set_prios t new k) = xSchedulerRunning k"
  "uxSchedulerSuspended (k_set_prios t new k) = uxSchedulerSuspended k"
  "uxDeletedTasksWaitingCleanUp (k_set_prios t new k) = uxDeletedTasksWaitingCleanUp k"
  by (simp_all add: k_set_prios_def ready_def)

lemma ready_set_prios:
  assumes "kinv T k"
  shows "ready (k_set_prios t new k) t = ready k t"
  using kinvD(11) [OF assms, of t new] by (auto simp: ready_def)

lemma priority_set_sinv:
  assumes "sinv idle T k" and "prvGetTCBFromHandle h k = Some t" and "t \<in> T"
    and "container k (StateItem t) \<noteq> Some TasksWaitingTermination"
  shows "\<exists>k'. vTaskPrioritySet h p k = Some k' \<and> sinv idle T k'
    \<and> tcb_uxBasePriority (tcbs k' t) = clamp_prio p"
proof -
  note D = sinv0D [OF sinvD(1) [OF assms(1)]]
  obtain c where c: "pxCurrentTCB k = Some c" using D(2) by blast
  let ?n = "clamp_prio p" and ?b = "tcb_uxBasePriority (tcbs k t)"
  define y where "y = (if ?n > ?b then t \<noteq> c \<and> ?n \<ge> prio k c else t = c)"
  show ?thesis
  proof (cases "?b = ?n")
    case True
    then show ?thesis using assms(1) vTaskPrioritySet_eq [OF assms(2) c] by (simp add: Let_def)
  next
    case False
    let ?u = "k_set_prios t ?n k"
    have K: "kinv T ?u" by (rule kinv_k_set_prios [OF D(1) assms(3) clamp_prio_less])
    note rt = ready_set_prios [OF D(1), of t ?n]
    have st: "container ?u (StateItem t) \<noteq> None \<and> container ?u (StateItem t) \<noteq> Some TasksWaitingTermination"
      using D(4) [OF assms(3)] assms(4) by simp
    have "sinv0 idle T (if y then portYIELD ?u else ?u)"
    proof (rule sinv0_move [OF sinvD(1) [OF assms(1)] _ assms(3)])
      show "t = idle \<Longrightarrow> ready (if y then portYIELD ?u else ?u) t" using D(3) assms(3) rt by simp
      show "pxCurrentTCB k = Some t \<Longrightarrow> pendsv (if y then portYIELD ?u else ?u)
          \<or> xYieldPending (if y then portYIELD ?u else ?u) \<or> prio k t \<le> prio (if y then portYIELD ?u else ?u) t"
        using c by (auto simp: y_def)
      show "(ready k t \<and> prio (if y then portYIELD ?u else ?u) t \<le> prio k t)
          \<or> pendsv (if y then portYIELD ?u else ?u) \<or> xYieldPending (if y then portYIELD ?u else ?u)"
        if "pxCurrentTCB k = Some d" "d \<noteq> t" "ready (if y then portYIELD ?u else ?u) t"
          "prio k d < prio (if y then portYIELD ?u else ?u) t" for d
        using that c rt False by (auto simp: y_def split: if_splits)
    qed (use K D(6) assms(4) st clamp_prio_less in \<open>(cases y; simp; fail)+\<close>)
    moreover have "cur_ok (if y then portYIELD ?u else ?u)"
      by (rule cur_ok_move [OF sinvD(2) [OF assms(1)], of t]) (use rt in auto)
    ultimately show ?thesis
      using vTaskPrioritySet_eq [OF assms(2) c] False by (simp add: Let_def sinv_def y_def sinvD(4) [OF assms(1)])
  qed
qed

section \<open>Priority inheritance\<close>

definition k_inherit :: "task \<Rightarrow> u32 \<Rightarrow> kernel \<Rightarrow> kernel" where
  "k_inherit t p k =
     (if container k (StateItem t) = Some (ReadyList (prio k t))
      then prvAddTaskToReadyList t (upd_tcb t (tcb_uxPriority_update (\<lambda>_. p)) (k_leave t k))
      else upd_tcb t (tcb_uxPriority_update (\<lambda>_. p)) k)"

lemma k_inherit_fields [simp]:
  "container (k_inherit t p k) j =
     (if j = StateItem t \<and> ready k t then Some (ReadyList p) else container k j)"
  "prio (k_inherit t p k) u = (if u = t then p else prio k u)"
  "tcb_uxBasePriority (tcbs (k_inherit t p k) u) = tcb_uxBasePriority (tcbs k u)"
  "pxCurrentTCB (k_inherit t p k) = pxCurrentTCB k"
  "pendsv (k_inherit t p k) = pendsv k" "xYieldPending (k_inherit t p k) = xYieldPending k"
  "xSchedulerRunning (k_inherit t p k) = xSchedulerRunning k"
  "uxSchedulerSuspended (k_inherit t p k) = uxSchedulerSuspended k"
  "uxDeletedTasksWaitingCleanUp (k_inherit t p k) = uxDeletedTasksWaitingCleanUp k"
  by (simp_all add: k_inherit_def ready_def)

lemma kinv_inherit:
  assumes "kinv T k" and "t \<in> T" and "p < configMAX_PRIORITIES"
  shows "kinv T (k_inherit t p k)"
proof (cases "container k (StateItem t) = Some (ReadyList (prio k t))")
  case True
  have "kinv T (upd_tcb t (tcb_uxPriority_update (\<lambda>_. p)) (k_leave t k))"
    by (rule kinv_set_prio [OF kinv_leave [OF assms(1)] _ assms(3)]) simp
  then have "kinv T (prvAddTaskToReadyList t (upd_tcb t (tcb_uxPriority_update (\<lambda>_. p)) (k_leave t k)))"
    by (rule kinv_ready [OF _ assms(2)]) simp
  with True show ?thesis by (simp add: k_inherit_def)
next
  case False
  then have "container k (StateItem t) \<noteq> Some (ReadyList q)" for q using kinvD(11) [OF assms(1)] by blast
  from kinv_set_prio [OF assms(1) this assms(3)] False show ?thesis by (simp add: k_inherit_def)
qed

lemma ready_inherit:
  assumes "kinv T k"
  shows "ready (k_inherit t p k) t = ready k t"
  using kinvD(11) [OF assms, of t p] by (auto simp: ready_def)

lemma xTaskPriorityInherit_eq:
  assumes "kinv T k" and "pxCurrentTCB k = Some c"
  shows "xTaskPriorityInherit (Some t) k =
    (if prio k t < prio k c then Some (True, k_inherit t (prio k c) (set_event_priority t (prio k c) k))
     else Some (tcb_uxBasePriority (tcbs k t) < prio k c, k))"
proof (cases "prio k t < prio k c \<and> container k (StateItem t) = Some (ReadyList (prio k t))")
  case True
  let ?k = "set_event_priority t (prio k c) k"
  have "Option.bind (k_remove (StateItem t) ?k) (\<lambda>(left, k').
      Let (if left = 0 then taskRESET_READY_PRIORITY (prio k' t) k' else k')
        (\<lambda>k''. Some (prvAddTaskToReadyList t (upd_tcb t (tcb_uxPriority_update (\<lambda>_. prio k'' c)) k''))))
    = Some (prvAddTaskToReadyList t (upd_tcb t (tcb_uxPriority_update (\<lambda>_. prio k c)) (k_leave t ?k)))"
    by (subst leave_reset_bind [OF kinv_set_event_priority [OF assms(1)]]) (use True in simp_all)
  then show ?thesis
    using True assms(2) by (simp add: xTaskPriorityInherit_def k_inherit_def Let_def split_def)
next
  case False
  then show ?thesis using assms(2) by (auto simp: xTaskPriorityInherit_def k_inherit_def Let_def)
qed

lemma inherit_sinv:
  assumes "sinv idle T k" and "t \<in> T" and "container k (StateItem t) \<noteq> Some TasksWaitingTermination"
  shows "\<exists>b k'. xTaskPriorityInherit (Some t) k = Some (b, k') \<and> sinv idle T k'
    \<and> (\<forall>c. pxCurrentTCB k = Some c \<longrightarrow> prio k c \<le> prio k' t)"
proof -
  note D = sinv0D [OF sinvD(1) [OF assms(1)]]
  obtain c where c: "pxCurrentTCB k = Some c" "c \<in> T" using D(2) by blast
  show ?thesis
  proof (cases "prio k t < prio k c")
    case True
    let ?e = "set_event_priority t (prio k c) k"
    let ?k = "k_inherit t (prio k c) ?e"
    have E: "kinv T ?e" by (rule kinv_set_event_priority [OF D(1)])
    have K: "kinv T ?k" by (rule kinv_inherit [OF E assms(2) kinvD(10) [OF D(1) c(2)]])
    have rt: "ready ?k t = ready k t" using ready_inherit [OF E] by (simp add: ready_def)
    have "sinv0 idle T ?k"
      by (rule sinv0_move [OF sinvD(1) [OF assms(1)] K assms(2)])
        (use D(3,4,6) assms(2,3) c True rt in \<open>auto simp: ready_def split: if_splits\<close>)
    moreover have "cur_ok ?k"
      by (rule cur_ok_move [OF sinvD(2) [OF assms(1)], of t]) (use rt in auto)
    ultimately show ?thesis
      using True c xTaskPriorityInherit_eq [OF D(1) c(1)]
      by (intro exI [of _ True] exI [of _ ?k]) (simp add: sinv_def sinvD(4) [OF assms(1)])
  next
    case False
    then show ?thesis using assms(1) c xTaskPriorityInherit_eq [OF D(1) c(1)] by auto
  qed
qed

text \<open>The holder gives the mutex: the result says whether its priority was lowered.\<close>

lemma disinherit_sinv:
  assumes "sinv idle T k" and "t \<in> T" and "ready k t"
    and cur: "pxCurrentTCB k = Some t \<or> tcb_uxBasePriority (tcbs k t) \<le> prio k t"
  shows "\<exists>b k'. xTaskPriorityDisinherit (Some t) k = Some (b, k')
    \<and> sinv idle T (if b then portYIELD k' else k')
    \<and> (b \<longrightarrow> prio k' t = tcb_uxBasePriority (tcbs k t))"
proof -
  note D = sinv0D [OF sinvD(1) [OF assms(1)]]
  let ?m = "upd_tcb t (tcb_uxMutexesHeld_update (\<lambda>n. n - 1)) k" and ?b = "tcb_uxBasePriority (tcbs k t)"
  have M: "kinv T ?m" by (rule kinv_upd_tcb [OF D(1)]) simp
  have pm: "prio ?m u = prio k u" "tcb_uxBasePriority (tcbs ?m u) = tcb_uxBasePriority (tcbs k u)" for u
    by simp_all
  have nt: "container k (StateItem t) \<noteq> Some TasksWaitingTermination" using assms(3) by (simp add: ready_def)
  show ?thesis
  proof (cases "prio k t \<noteq> ?b \<and> tcb_uxMutexesHeld (tcbs ?m t) = 0")
    case True
    let ?v = "upd_tcb t (tcb_uxPriority_update (\<lambda>_. ?b)) (k_leave t ?m)"
    let ?w = "k_set_value (EventItem t) (configMAX_PRIORITIES - ?b) ?v"
    let ?k = "prvAddTaskToReadyList t ?w"
    have V: "kinv T ?v"
      by (rule kinv_set_prio [OF kinv_leave [OF M] _ D(6) [OF assms(2)]]) simp
    have K: "kinv T ?k" by (rule kinv_ready [OF kinv_set_event_value [OF V] assms(2)]) simp
    have l: "container ?m (StateItem t) = Some (ReadyList (prio k t))" using assms(3) by (simp add: ready_def)
    have eq: "xTaskPriorityDisinherit (Some t) k = Some (True, ?k)"
      unfolding xTaskPriorityDisinherit_def option.case Let_def
      using True l leave_reset [OF M l] by (simp add: k_remove_unlist cong: if_cong)
    have "sinv0 idle T (portYIELD ?k)"
      by (rule sinv0_move [OF sinvD(1) [OF assms(1)] _ assms(2)])
        (use K D(6) assms(2) nt cur in \<open>simp_all add: ready_def\<close>)
    then show ?thesis
      using eq by (intro exI [of _ True] exI [of _ ?k]) (simp add: sinv_def sinvD(4) [OF assms(1)])
  next
    case False
    have eq: "xTaskPriorityDisinherit (Some t) k = Some (False, ?m)"
      unfolding xTaskPriorityDisinherit_def option.case Let_def using False by auto
    have "sinv0 idle T ?m"
      by (rule sinv0_move [OF sinvD(1) [OF assms(1)] M assms(2)])
        (use D(6) assms(2,3) nt in \<open>auto simp: ready_def\<close>)
    moreover have "cur_ok ?m"
      by (rule cur_ok_move [OF sinvD(2) [OF assms(1)], of t]) (simp_all add: ready_def)
    ultimately show ?thesis using eq by (intro exI [of _ False] exI [of _ ?m]) (simp add: sinv_def sinvD(4) [OF assms(1)])
  qed
qed

text \<open>
  The wait for a mutex times out: the holder keeps at most the priority of the waiters left.
  The code finds the old ready list by the \<^emph>\<open>new\<close> priority, so this is only right when the
  holder is not the last task of its ready list (see \<open>disinherit_after_timeout_stale_bit\<close>).
\<close>

lemma disinherit_after_timeout_sinv:
  assumes "sinv idle T k" and "t \<in> T" and "container k (StateItem t) \<noteq> Some TasksWaitingTermination"
    and low: "u < configMAX_PRIORITIES" "max u (tcb_uxBasePriority (tcbs k t)) \<le> prio k t \<or> pendsv k"
    and "pxCurrentTCB k \<noteq> Some t"
    and not_last: "ready k t \<Longrightarrow> \<exists>v. v \<noteq> t \<and> ready k v \<and> prio k v = prio k t"
  shows "\<exists>k'. vTaskPriorityDisinheritAfterTimeout (Some t) u k = Some k' \<and> sinv idle T k'
    \<and> (prio k' t = prio k t \<or> prio k' t = max u (tcb_uxBasePriority (tcbs k t)))"
proof -
  note D = sinv0D [OF sinvD(1) [OF assms(1)]]
  let ?b = "tcb_uxBasePriority (tcbs k t)"
  define p where "p = (if ?b < u then u else ?b)"
  have pm: "p = max u ?b" by (auto simp: p_def max_def)
  have pp: "p < configMAX_PRIORITIES"
    using low(1) D(6) [OF assms(2)] by (simp add: pm)
  show ?thesis
  proof (cases "prio k t \<noteq> p \<and> tcb_uxMutexesHeld (tcbs k t) = 1")
    case False
    then have "vTaskPriorityDisinheritAfterTimeout (Some t) u k = Some k"
      unfolding vTaskPriorityDisinheritAfterTimeout_def option.case Let_def p_def [symmetric] by auto
    then show ?thesis using assms(1) by simp
  next
    case True
    let ?k = "k_inherit t p (set_event_priority t p k)"
    have E: "kinv T (set_event_priority t p k)" by (rule kinv_set_event_priority [OF D(1)])
    have K: "kinv T ?k" by (rule kinv_inherit [OF E assms(2) pp])
    have rt: "ready ?k t = ready k t" using ready_inherit [OF E] by (simp add: ready_def)
    have eq: "vTaskPriorityDisinheritAfterTimeout (Some t) u k = Some ?k"
    proof (cases "ready k t")
      case r: True
      then have l: "container k (StateItem t) = Some (ReadyList (prio k t))" by (simp add: ready_def)
      obtain v where v: "v \<noteq> t" "container k (StateItem v) = Some (ReadyList (prio k t))"
        using not_last [OF r] by (auto simp: ready_def)
      then have ne: "kitems (k_unlist (StateItem t) k) (ReadyList (prio k t)) \<noteq> []"
        using unlisted_ready_empty [OF D(1), of "StateItem t"] by blast
      then have "k_leave t k = k_unlist (StateItem t) k" by (simp add: k_leave_def)
      moreover have "k_leave t (set_event_priority t p k) = set_event_priority t p (k_leave t k)"
        using ne by (simp add: k_leave_def unlist_commute)
      moreover have "set_event_priority t p (upd_tcb t f j) = upd_tcb t f (set_event_priority t p j)" for f j
        by (simp add: set_event_priority_def upd_tcb_def k_set_value_def)
      ultimately show ?thesis
        using True l ne unfolding vTaskPriorityDisinheritAfterTimeout_def option.case Let_def p_def [symmetric]
        by (simp add: k_remove_unlist unlist_commute k_inherit_def)
    next
      case False
      moreover have "set_event_priority t p (upd_tcb t f j) = upd_tcb t f (set_event_priority t p j)" for f j
        by (simp add: set_event_priority_def upd_tcb_def k_set_value_def)
      ultimately show ?thesis
        using True unfolding vTaskPriorityDisinheritAfterTimeout_def option.case Let_def p_def [symmetric]
        by (simp add: ready_def k_inherit_def)
    qed
    have "sinv0 idle T ?k"
      by (rule sinv0_move [OF sinvD(1) [OF assms(1)] K assms(2)])
        (use D(3,4,6) assms rt pm in \<open>auto simp: ready_def split: if_splits\<close>)
    moreover have "cur_ok ?k"
      by (rule cur_ok_move [OF sinvD(2) [OF assms(1)], of t]) (use rt in auto)
    ultimately show ?thesis using eq pm by (simp add: sinv_def sinvD(4) [OF assms(1)])
  qed
qed

end
