(* ===== verification/Kernel_Steps_Life.thy ===== *)
theory Kernel_Steps_Life
  imports Kernel_Steps_Prio
begin

text \<open>
  Creating and deleting tasks, the clean-up the idle task performs, and the way from the
  statically initialised kernel to the running scheduler.
\<close>

section \<open>Deletion\<close>

lemma kinv_shrink:
  assumes "kinv T k" and "container k (StateItem t) = None" and "container k (EventItem t) = None"
  shows "kinv (T - {t}) k"
proof -
  have "item_task i \<noteq> t" if "container k i = Some l" for i l using that assms(2,3) by (cases i) auto
  then show ?thesis using assms(1) unfolding kinv_def lists_ok_def by auto
qed

definition k_gone :: "task \<Rightarrow> kernel \<Rightarrow> kernel" where
  "k_gone t k = (k_unlist (EventItem t) (k_leave t k))\<lparr>uxTaskNumber :=
     uxTaskNumber (k_unlist (EventItem t) (k_leave t k)) + 1\<rparr>"

lemma k_gone_fields [simp]:
  "container (k_gone t k) j = (if j = StateItem t \<or> j = EventItem t then None else container k j)"
  "tcbs (k_gone t k) = tcbs k" "pxCurrentTCB (k_gone t k) = pxCurrentTCB k"
  "pendsv (k_gone t k) = pendsv k" "xYieldPending (k_gone t k) = xYieldPending k"
  "xSchedulerRunning (k_gone t k) = xSchedulerRunning k"
  "uxSchedulerSuspended (k_gone t k) = uxSchedulerSuspended k"
  "uxDeletedTasksWaitingCleanUp (k_gone t k) = uxDeletedTasksWaitingCleanUp k"
  by (simp_all add: k_gone_def)

lemma kinv_gone: "kinv T k \<Longrightarrow> kinv T (k_gone t k)"
  unfolding k_gone_def by (simp add: kinv_unlist_event kinv_leave)

lemma vTaskDelete_eq:
  assumes "kinv T k" and "prvGetTCBFromHandle h k = Some t" and "container k (StateItem t) = Some l"
    and "xSchedulerRunning k"
  shows "vTaskDelete h k = (let g = k_gone t k in
    if Some t = pxCurrentTCB k
    then Some (portYIELD ((k_insert_end TasksWaitingTermination (StateItem t) g)
           \<lparr>uxDeletedTasksWaitingCleanUp := uxDeletedTasksWaitingCleanUp g + 1\<rparr>))
    else Option.bind (prvDeleteTCB t (g\<lparr>uxCurrentNumberOfTasks := uxCurrentNumberOfTasks g - 1\<rparr>)) (\<lambda>d.
      let d = prvResetNextTaskUnblockTime d
      in Some (if xSchedulerRunning d \<and> Some t = pxCurrentTCB d then portYIELD d else d)))"
  unfolding vTaskDelete_def assms(2) Option.bind.bind_lunit leave_reset_bind [OF assms(1,3)]
  unfolding Let_def k_remove_if_listed_unlist k_gone_def [symmetric]
  using assms(4) by auto

lemma delete_sinv:
  assumes "sinv idle T k" and "prvGetTCBFromHandle h k = Some t" and "t \<in> T" and "t \<noteq> idle"
    and "container k (StateItem t) \<noteq> Some TasksWaitingTermination" and "xSchedulerRunning k"
    and "uxDeletedTasksWaitingCleanUp k + 1 \<noteq> 0"
  shows "\<exists>k'. vTaskDelete h k = Some k'
    \<and> (if pxCurrentTCB k = Some t
       then sinv idle T k' \<and> container k' (StateItem t) = Some TasksWaitingTermination
       else sinv idle (T - {t}) k' \<and> container k' (StateItem t) = None \<and> t \<in> set (freed_tcbs k'))
    \<and> container k' (EventItem t) = None"
proof -
  note D = sinv0D [OF sinvD(1) [OF assms(1)]]
  obtain l where l: "container k (StateItem t) = Some l" using D(4) [OF assms(3)] by auto
  note eq = vTaskDelete_eq [OF D(1) assms(2) l assms(6)]
  let ?g = "k_gone t k"
  have G: "kinv T ?g" by (rule kinv_gone [OF D(1)])
  have rg: "ready ?g u \<longleftrightarrow> u \<noteq> t \<and> ready k u" for u by (simp add: ready_def)
  have tc: "term_count ?g = term_count k"
    by (rule term_count_cong) (use assms(5) kinvD(6) [OF D(1), of t TasksWaitingTermination] in auto)
  show ?thesis
  proof (cases "pxCurrentTCB k = Some t")
    case True
    let ?i = "k_insert_end TasksWaitingTermination (StateItem t) ?g"
    let ?k = "?i\<lparr>uxDeletedTasksWaitingCleanUp := uxDeletedTasksWaitingCleanUp ?g + 1\<rparr>"
    have I: "kinv T ?i" by (rule kinv_insert_end [OF G]) (use assms(3) in simp_all)
    have "{j. container ?i j = Some TasksWaitingTermination}
        = insert (StateItem t) {j. container ?g j = Some TasksWaitingTermination}" by auto
    then have "card {j. container ?i j = Some TasksWaitingTermination}
        = Suc (card {j. container ?g j = Some TasksWaitingTermination})"
      using ends.finite_listed [OF kinvD(1) [OF G], of TasksWaitingTermination] by simp
    then have "term_count ?k = Suc (term_count k)" using tc by (simp add: term_count_def)
    moreover have "unat (uxDeletedTasksWaitingCleanUp k + 1) = Suc (unat (uxDeletedTasksWaitingCleanUp k))"
      using assms(7) by (metis add.commute unatSuc)
    ultimately have "unat (uxDeletedTasksWaitingCleanUp ?k) = term_count ?k" using D(7) by simp
    moreover have "ready ?k u \<longleftrightarrow> u \<noteq> t \<and> ready k u" for u by (simp add: ready_def)
    ultimately have "sinv0 idle T (portYIELD ?k)"
      using I D(2-6) assms(3,4) unfolding sinv0_def by (auto simp: sched_max_def)
    then show ?thesis using eq True sinvD(4) [OF assms(1)] by (simp add: sinv_def Let_def)
  next
    case False
    let ?d = "?g\<lparr>uxCurrentNumberOfTasks := uxCurrentNumberOfTasks ?g - 1\<rparr>"
    have Dk: "kinv (T - {t}) ?d" using kinv_shrink [OF G, of t] by simp
    have rd: "ready ?d u \<longleftrightarrow> u \<noteq> t \<and> ready k u" for u by (simp add: rg)
    have "term_count ?d = term_count k" using tc by simp
    moreover have "sched_max ?d"
      using D(8) unfolding sched_max_def rd by auto
    ultimately have "sinv0 idle (T - {t}) ?d"
      using Dk rd D(2-7) assms(4) False unfolding sinv0_def by auto
    moreover have "cur_ok ?d"
      using sinvD(2) [OF assms(1)] False unfolding cur_ok_def rd by auto
    ultimately obtain k2 where d: "prvDeleteTCB t ?d = Some k2" "sinv0 idle (T - {t}) k2" "cur_ok k2"
      "resumed ?d k2" "t \<in> set (freed_tcbs k2)"
      using delete_tcb_sinv0 by blast
    let ?k = "prvResetNextTaskUnblockTime k2"
    have S: "sinv idle (T - {t}) ?k"
      using sinv0_reset_next [OF d(2)] d(3) sinvD(4) [OF assms(1)] assms(4) by (simp add: sinv_def)
    note SD = sinv0D [OF sinvD(1) [OF S]]
    have "container ?k (StateItem t) = None" using SD(9) [of t] by blast
    moreover have "container ?k (EventItem t) = None" using kinvD(6) [OF SD(1), of t] by (metis DiffE insertI1 not_None_eq)
    moreover have "freed_tcbs ?k = freed_tcbs k2" by (simp add: prvResetNextTaskUnblockTime_def split: option.split)
    moreover have "pxCurrentTCB ?k = pxCurrentTCB k" using d(4) by (simp add: resumed_def)
    ultimately show ?thesis using eq False d(1,5) S by (simp add: Let_def)
  qed
qed

section \<open>The idle task's clean-up\<close>

lemma clean_up_sinv:
  assumes "sinv idle T k" and "pxCurrentTCB k = Some idle" and "n = unat (uxDeletedTasksWaitingCleanUp k)"
  shows "\<exists>T' k'. clean_up_loop n k = Some k' \<and> sinv idle T' k' \<and> uxDeletedTasksWaitingCleanUp k' = 0"
  using assms
proof (induction n arbitrary: k T)
  case 0
  then have "uxDeletedTasksWaitingCleanUp k = 0" by (simp add: unat_eq_0)
  then show ?case using 0(1) by auto
next
  case (Suc n)
  note D = sinv0D [OF sinvD(1) [OF Suc.prems(1)]]
  have tc: "length (kitems k TasksWaitingTermination) = Suc n"
    using D(7) Suc.prems(3) ends.length_items [OF kinvD(1) [OF D(1)], of TasksWaitingTermination]
    by (simp add: term_count_def)
  then obtain i js where ij: "kitems k TasksWaitingTermination = i # js" by (cases "kitems k TasksWaitingTermination") auto
  then have ci: "container k i = Some TasksWaitingTermination" using kinvD(12) [OF D(1)] by simp
  then obtain t where t: "i = StateItem t" using kinvD(7) [OF D(1) ci] by (cases i) auto
  then have st: "container k (StateItem t) = Some TasksWaitingTermination" using ci by simp
  have tT: "t \<in> T" using kinvD(5) [OF D(1) st] by blast
  have ev: "container k (EventItem t) = None" using D(5) [of t] st by blast
  have ni: "t \<noteq> idle" using D(3) sinvD(4) [OF Suc.prems(1)] st by (auto simp: ready_def)
  have own: "k_head_owner TasksWaitingTermination k = Some t"
    using ij t kinvD(8) [OF D(1) tT] by (simp add: k_head_owner_def)
  let ?u = "k_unlist (StateItem t) k"
  let ?k = "?u\<lparr>uxCurrentNumberOfTasks := uxCurrentNumberOfTasks ?u - 1,
              uxDeletedTasksWaitingCleanUp := uxDeletedTasksWaitingCleanUp ?u - 1\<rparr>"
  have "k_leave t k = ?u" by (rule leave_not_ready [OF D(1)]) (use st in simp)
  then have U: "kinv T ?u" using kinv_leave [OF D(1), of t] by simp
  then have K: "kinv (T - {t}) ?k" using kinv_shrink [OF U, of t] ev by simp
  have rd: "ready ?k u \<longleftrightarrow> ready k u" for u using st by (auto simp: ready_def)
  have "length (kitems k TasksWaitingTermination) = Suc (length (kitems ?u TasksWaitingTermination))"
    using ends.length_rem [OF kinvD(1) [OF D(1)] ci] t by (simp add: k_unlist_def)
  then have tcu: "term_count ?u = n"
    using tc ends.length_items [OF kinvD(1) [OF U], of TasksWaitingTermination]
    by (simp only: term_count_def)
  have n1: "unat (uxDeletedTasksWaitingCleanUp k - 1) = n"
    using Suc.prems(3) unat_sub_u32 [of 1 "uxDeletedTasksWaitingCleanUp k"]
    by (simp add: word_le_nat_alt)
  have "term_count ?k = term_count ?u" by (simp add: term_count_def)
  then have "unat (uxDeletedTasksWaitingCleanUp ?k) = term_count ?k" using tcu n1 by simp
  moreover have "sched_max ?k" using D(8) unfolding sched_max_def rd by simp
  ultimately have "sinv0 idle (T - {t}) ?k"
    using K D(2-6) rd ni Suc.prems(2) sinvD(4) [OF Suc.prems(1)] unfolding sinv0_def by auto
  moreover have "cur_ok ?k"
    using sinvD(2) [OF Suc.prems(1)] unfolding cur_ok_def rd by simp
  ultimately obtain k2 where d: "prvDeleteTCB t ?k = Some k2" "sinv0 idle (T - {t}) k2" "cur_ok k2" "resumed ?k k2"
    using delete_tcb_sinv0 by blast
  have I: "sinv idle (T - {t}) k2" using d(2,3) ni sinvD(4) [OF Suc.prems(1)] by (simp add: sinv_def)
  have "pxCurrentTCB k2 = Some idle" "n = unat (uxDeletedTasksWaitingCleanUp k2)"
    using d(4) Suc.prems(2) n1 by (simp_all add: resumed_def)
  from Suc.IH [OF I this] obtain T' k' where IH: "clean_up_loop n k2 = Some k'" "sinv idle T' k'"
    "uxDeletedTasksWaitingCleanUp k' = 0" by blast
  have "clean_up_loop (Suc n) k = Some k'"
    using IH(1) d(1) own st by (simp add: k_remove_unlist)
  then show ?case using IH(2,3) by blast
qed

section \<open>Creation\<close>

text \<open>The part of \<open>xTaskCreate\<close> after the stack and the control block were allocated.\<close>

definition k_create :: "task \<Rightarrow> u32 \<Rightarrow> kernel \<Rightarrow> kernel" where
  "k_create t p k = prvAddNewTaskToReadyList t (prvInitialiseNewTask t p k)"

lemma init_task_fields [simp]:
  "container (prvInitialiseNewTask t p k) j =
     (if j = StateItem t \<or> j = EventItem t then None else container k j)"
  "kitems (prvInitialiseNewTask t p k) = kitems k"
  "a_index (klists (prvInitialiseNewTask t p k)) = a_index (klists k)"
  "item_value (prvInitialiseNewTask t p k) j =
     (if j = EventItem t then configMAX_PRIORITIES - clamp_prio p else item_value k j)"
  "a_owner (klists (prvInitialiseNewTask t p k)) j =
     (if j = StateItem t \<or> j = EventItem t then t else a_owner (klists k) j)"
  "prio (prvInitialiseNewTask t p k) u = (if u = t then clamp_prio p else prio k u)"
  "tcb_uxBasePriority (tcbs (prvInitialiseNewTask t p k) u)
     = (if u = t then clamp_prio p else tcb_uxBasePriority (tcbs k u))"
  "pxCurrentTCB (prvInitialiseNewTask t p k) = pxCurrentTCB k"
  "pxDelayedTaskList (prvInitialiseNewTask t p k) = pxDelayedTaskList k"
  "pxOverflowDelayedTaskList (prvInitialiseNewTask t p k) = pxOverflowDelayedTaskList k"
  "xTickCount (prvInitialiseNewTask t p k) = xTickCount k"
  "uxTopReadyPriority (prvInitialiseNewTask t p k) = uxTopReadyPriority k"
  "xNextTaskUnblockTime (prvInitialiseNewTask t p k) = xNextTaskUnblockTime k"
  "pendsv (prvInitialiseNewTask t p k) = pendsv k"
  "xYieldPending (prvInitialiseNewTask t p k) = xYieldPending k"
  "xSchedulerRunning (prvInitialiseNewTask t p k) = xSchedulerRunning k"
  "uxSchedulerSuspended (prvInitialiseNewTask t p k) = uxSchedulerSuspended k"
  "uxDeletedTasksWaitingCleanUp (prvInitialiseNewTask t p k) = uxDeletedTasksWaitingCleanUp k"
  "uxCurrentNumberOfTasks (prvInitialiseNewTask t p k) = uxCurrentNumberOfTasks k"
  by (simp_all add: prvInitialiseNewTask_def Let_def clamp_prio_def upd_tcb_def)

lemma kinv_init_task:
  assumes "kinv T k" and "t \<notin> T"
  shows "kinv (insert t T) (prvInitialiseNewTask t p k)"
proof -
  have none: "container k (StateItem t) = None" "container k (EventItem t) = None"
    using assms kinvD(5,6) [OF assms(1), of t] by (metis not_None_eq)+
  then have c: "container (prvInitialiseNewTask t p k) = container k" by (auto simp: fun_eq_iff)
  have "wf_store (klists (prvInitialiseNewTask t p k))"
    using kinvD(1) [OF assms(1)] unfolding wf_astore_def c by simp
  then have "lists_ok (insert t T) (prvInitialiseNewTask t p k)"
    using kinvD(2) [OF assms(1)] none clamp_prio_less unfolding lists_ok_def c by auto
  moreover have "bits_ok (prvInitialiseNewTask t p k)"
    using kinvD(3) [OF assms(1)] unfolding bits_ok_def c by simp
  moreover have "delay_ok (prvInitialiseNewTask t p k)"
  proof -
    have "EventItem t \<notin> set (kitems k l)" for l using none(2) kinvD(12) [OF assms(1)] by (metis option.distinct(1))
    then have "map (item_value (prvInitialiseNewTask t p k)) (kitems k l) = map (item_value k) (kitems k l)" for l
      by auto
    then have "sorted_klist (prvInitialiseNewTask t p k) l = sorted_klist k l" for l
      unfolding sorts.sorted_list_def init_task_fields(2) by (simp only:)
    moreover have "container k i = Some l \<Longrightarrow> item_value (prvInitialiseNewTask t p k) i = item_value k i" for i l
      using none by auto
    ultimately show ?thesis
      using kinvD(4) [OF assms(1)] unfolding delay_ok_def c by auto
  qed
  ultimately show ?thesis by (rule kinvI)
qed

lemma set_current_same: "pxCurrentTCB k = Some c \<Longrightarrow> k\<lparr>pxCurrentTCB := Some c\<rparr> = k"
  by (cases k) simp

lemma set_lists_same: "klists k = a \<Longrightarrow> k\<lparr>klists := a\<rparr> = k"
  by (cases k) simp

text \<open>The current task after a creation: before the scheduler runs it is the latest of the highest priority.\<close>

lemma create_sinv0:
  assumes "sinv0 idle T k" and "cur_ok k" and "t \<notin> T"
  shows "sinv0 idle (insert t T) (k_create t p k)" and "cur_ok (k_create t p k)"
    and "ready (k_create t p k) t" and "prio (k_create t p k) t = clamp_prio p"
    and "xSchedulerRunning (k_create t p k) = xSchedulerRunning k"
    and "\<And>u. u \<noteq> t \<Longrightarrow> ready (k_create t p k) u = ready k u"
    and "\<And>j. container (k_create t p k) j
           = (if j = StateItem t then Some (ReadyList (clamp_prio p)) else container k j)"
proof -
  note D = sinv0D [OF assms(1)]
  obtain c where c: "pxCurrentTCB k = Some c" "c \<in> T" using D(2) by blast
  then have ct: "c \<noteq> t" using assms(3) by auto
  let ?i = "prvInitialiseNewTask t p k"
  define cur where "cur = (if \<not> xSchedulerRunning k \<and> prio k c \<le> clamp_prio p then t else c)"
  let ?f = "\<lambda>tcb. tcb\<lparr>tcb_uxTCBNumber := uxTaskNumber ?i + 1\<rparr>"
  let ?b = "upd_tcb t ?f (?i\<lparr>uxCurrentNumberOfTasks := uxCurrentNumberOfTasks ?i + 1,
              pxCurrentTCB := Some cur, uxTaskNumber := uxTaskNumber ?i + 1\<rparr>)"
  let ?r = "prvAddTaskToReadyList t ?b"
  define y where "y = (xSchedulerRunning k \<and> prio k c < clamp_prio p)"
  have eq: "k_create t p k = (if y then portYIELD ?r else ?r)"
  proof -
    let ?n = "?i\<lparr>uxCurrentNumberOfTasks := uxCurrentNumberOfTasks ?i + 1\<rparr>"
    have "pxCurrentTCB ?n = Some c" using c by simp
    then have n: "(if \<not> xSchedulerRunning ?n \<and> prio ?n c \<le> prio ?n t then ?n\<lparr>pxCurrentTCB := Some t\<rparr> else ?n)
        = ?n\<lparr>pxCurrentTCB := Some cur\<rparr>"
      using ct set_current_same [of ?n c] by (simp add: cur_def)
    have cur: "prio k cur < clamp_prio p \<longleftrightarrow> prio k c < clamp_prio p" if "xSchedulerRunning k"
      using that by (simp add: cur_def)
    show ?thesis
      unfolding k_create_def prvAddNewTaskToReadyList_def Let_def \<open>pxCurrentTCB ?n = Some c\<close> option.case n
      using ct by (auto simp: y_def cur_def)
  qed
  have B: "kinv (insert t T) ?b"
    by (rule kinv_upd_tcb) (use kinv_init_task [OF D(1) assms(3)] in simp_all)
  have R: "kinv (insert t T) ?r" by (rule kinv_ready [OF B]) simp_all
  have none: "container k (EventItem t) = None"
    using assms(3) kinvD(6) [OF D(1), of t] by (metis not_None_eq)
  have st: "container ?r (StateItem u) = (if u = t then Some (ReadyList (clamp_prio p)) else container k (StateItem u))"
    and ev: "container ?r (EventItem u) = container k (EventItem u)" for u using none by auto
  have pr: "prio ?r u = (if u = t then clamp_prio p else prio k u)" for u by simp
  have rd: "ready ?r u \<longleftrightarrow> u = t \<or> ready k u" for u by (auto simp: ready_def)
  have tc: "term_count ?r = term_count k"
  proof (rule term_count_cong)
    fix i
    have "container k (StateItem t) = None" using assms(3) kinvD(5) [OF D(1), of t] by (metis not_None_eq)
    then show "container ?r i = Some TasksWaitingTermination \<longleftrightarrow> container k i = Some TasksWaitingTermination"
      using none by (cases i) (auto simp: st ev)
  qed
  have rest: "(\<exists>c\<in>insert t T. pxCurrentTCB ?r = Some c) \<and> (idle \<in> insert t T \<longrightarrow> ready ?r idle)
      \<and> (\<forall>u\<in>insert t T. container ?r (StateItem u) \<noteq> None)
      \<and> (\<forall>u. container ?r (EventItem u) \<noteq> None \<longrightarrow> container ?r (StateItem u) \<noteq> Some TasksWaitingTermination)
      \<and> (\<forall>u\<in>insert t T. tcb_uxBasePriority (tcbs ?r u) < configMAX_PRIORITIES)
      \<and> unat (uxDeletedTasksWaitingCleanUp ?r) = term_count ?r"
    using c(2) D(3-7) rd tc none clamp_prio_less unfolding st ev by (auto simp: cur_def)
  have "sched_max (k_create t p k)"
  proof (cases y)
    case False
    have "sched_max ?r"
    proof (cases "pendsv k \<or> xYieldPending k")
      case False
      then have m: "\<And>u. ready k u \<Longrightarrow> prio k u \<le> prio k c" using D(8) c(1) by (auto simp: sched_max_def)
      have "prio ?r u \<le> prio ?r cur" if "ready ?r u" for u
        using that m [of u] \<open>\<not> y\<close> ct unfolding rd pr by (auto simp: cur_def y_def intro: order_trans)
      then show ?thesis by (simp add: sched_max_def)
    qed (auto simp: sched_max_def)
    then show ?thesis using False eq by simp
  qed (simp add: eq sched_max_def)
  then show "sinv0 idle (insert t T) (k_create t p k)"
    using R rest eq unfolding sinv0_def by auto
  have rk: "ready (k_create t p k) u \<longleftrightarrow> u = t \<or> ready k u" for u
    using rd eq by (cases y) simp_all
  have "pxCurrentTCB (k_create t p k) = Some cur" "uxSchedulerSuspended (k_create t p k) = uxSchedulerSuspended k"
    "pendsv k \<Longrightarrow> pendsv (k_create t p k)" using eq by (cases y; simp)+
  then show "cur_ok (k_create t p k)"
    using assms(2) c(1) unfolding cur_ok_def rk cur_def by auto
  show "ready (k_create t p k) t" "prio (k_create t p k) t = clamp_prio p"
    "xSchedulerRunning (k_create t p k) = xSchedulerRunning k"
    "u \<noteq> t \<Longrightarrow> ready (k_create t p k) u = ready k u" for u
    using eq rd pr by auto
  have "container ?r j = (if j = StateItem t then Some (ReadyList (clamp_prio p)) else container k j)" for j
    using none by auto
  then show "container (k_create t p k) j = (if j = StateItem t then Some (ReadyList (clamp_prio p)) else container k j)"
    for j using eq by (cases y) simp_all
qed

section \<open>From the static initialisation to the running scheduler\<close>

text \<open>The globals before the first task is created (zero, as the C start-up leaves them).\<close>

definition boot_ok :: "kernel \<Rightarrow> bool" where
  "boot_ok k \<longleftrightarrow> (\<forall>l. kitems k l = [] \<and> a_index (klists k) l = None) \<and> (\<forall>i. container k i = None)
     \<and> uxTopReadyPriority k = 0 \<and> pxCurrentTCB k = None \<and> uxDeletedTasksWaitingCleanUp k = 0
     \<and> uxCurrentNumberOfTasks k = 0 \<and> \<not> xSchedulerRunning k"

lemma init_lists_empty:
  assumes "\<And>l. a_items a l = []" and "\<And>l. a_index a l = None"
  shows "fold a_init ls a = a"
  using assms
proof (induction ls)
  case Nil
  then show ?case by simp
next
  case (Cons l ls)
  have "(a_items a)(l := []) = a_items a" "(a_index a)(l := None) = a_index a"
    using Cons.prems by (auto simp: fun_eq_iff)
  then have "a_init l a = a" by (simp add: a_init_def)
  then show ?case using Cons by simp
qed

lemma first_create:
  assumes "boot_ok k"
  shows "sinv0 idle {t} (k_create t p k)" and "cur_ok (k_create t p k)"
    and "ready (k_create t p k) t" and "\<not> xSchedulerRunning (k_create t p k)"
    and "\<And>j. container (k_create t p k) j = (if j = StateItem t then Some (ReadyList (clamp_prio p)) else None)"
proof -
  note b = assms [unfolded boot_ok_def]
  let ?i = "prvInitialiseNewTask t p k"
  let ?f = "\<lambda>tcb. tcb\<lparr>tcb_uxTCBNumber := uxTaskNumber ?i + 1\<rparr>"
  let ?b = "upd_tcb t ?f (?i\<lparr>uxCurrentNumberOfTasks := 1, pxCurrentTCB := Some t,
     pxDelayedTaskList := DelayedTaskList1, pxOverflowDelayedTaskList := DelayedTaskList2,
     uxTaskNumber := uxTaskNumber ?i + 1\<rparr>)"
  let ?r = "prvAddTaskToReadyList t ?b"
  have init: "prvInitialiseTaskLists j
      = j\<lparr>pxDelayedTaskList := DelayedTaskList1, pxOverflowDelayedTaskList := DelayedTaskList2\<rparr>"
    if "klists j = klists ?i" for j
  proof -
    have "fold a_init ls (klists j) = klists j" for ls
      by (rule init_lists_empty) (use b that in simp_all)
    then show ?thesis unfolding prvInitialiseTaskLists_def
      by (simp only: set_lists_same [of j "klists j", OF refl])
  qed
  have eq: "k_create t p k = ?r"
    using b unfolding k_create_def prvAddNewTaskToReadyList_def by (simp add: Let_def init)
  have c: "container ?b i = None" for i using b by simp
  have w: "wf_store (klists ?b)" using b c by (simp add: wf_astore_def)
  have "kinv {t} ?b"
  proof (rule kinvI)
    show "lists_ok {t} ?b" using w clamp_prio_less unfolding lists_ok_def c by simp
    show "bits_ok ?b" using b unfolding bits_ok_def c by simp
    show "delay_ok ?b" using b unfolding delay_ok_def c by (simp add: sorts.sorted_list_def)
  qed
  then have R: "kinv {t} ?r" by (rule kinv_ready) (use c in simp_all)
  have st: "container ?r j = (if j = StateItem t then Some (ReadyList (clamp_prio p)) else None)" for j
    using b by simp
  have rd: "ready ?r u \<longleftrightarrow> u = t" for u unfolding ready_def st by simp
  have "term_count ?r = 0" unfolding term_count_def st by simp
  then have "sinv0 idle {t} ?r"
    using R b clamp_prio_less unfolding sinv0_def rd st by (simp add: sched_max_def rd)
  then show "sinv0 idle {t} (k_create t p k)" by (simp add: eq)
  show "cur_ok (k_create t p k)" "ready (k_create t p k) t" "\<not> xSchedulerRunning (k_create t p k)"
    using b unfolding eq cur_ok_def by (simp_all add: rd)
  show "container (k_create t p k) j = (if j = StateItem t then Some (ReadyList (clamp_prio p)) else None)" for j
    unfolding eq by (rule st)
qed

text \<open>The application's tasks, then the idle task, then the start of the scheduler.\<close>

definition start_kernel :: "(task \<times> u32) list \<Rightarrow> task \<Rightarrow> kernel \<Rightarrow> kernel" where
  "start_kernel ts idle k = vTaskStartScheduler_run (k_create idle 0 (fold (\<lambda>(t, p). k_create t p) ts k))"

definition none_delayed :: "kernel \<Rightarrow> bool" where
  "none_delayed k \<longleftrightarrow> (\<forall>i. container k i \<noteq> Some DelayedTaskList1 \<and> container k i \<noteq> Some DelayedTaskList2)"

lemma creates_sinv0:
  fixes ts :: "(task \<times> u32) list"
  assumes "sinv0 idle T k" and "cur_ok k" and "none_delayed k"
    and "distinct (map fst ts)" and "set (map fst ts) \<inter> T = {}"
  shows "sinv0 idle (T \<union> set (map fst ts)) (fold (\<lambda>(t, p). k_create t p) ts k)
    \<and> cur_ok (fold (\<lambda>(t, p). k_create t p) ts k) \<and> none_delayed (fold (\<lambda>(t, p). k_create t p) ts k)"
  using assms
proof (induction ts arbitrary: T k)
  case Nil
  then show ?case by simp
next
  case (Cons x ts)
  obtain t p where x: "x = (t, p)" by (cases x)
  have t: "t \<notin> T" using Cons.prems(5) x by auto
  note C = create_sinv0 [OF Cons.prems(1,2) t, where p = p]
  have nd: "none_delayed (k_create t p k)" using Cons.prems(3) by (simp add: none_delayed_def C(7))
  have "sinv0 idle (insert t T \<union> set (map fst ts)) (fold (\<lambda>(t, p). k_create t p) ts (k_create t p k))
      \<and> cur_ok (fold (\<lambda>(t, p). k_create t p) ts (k_create t p k))
      \<and> none_delayed (fold (\<lambda>(t, p). k_create t p) ts (k_create t p k))"
    by (rule Cons.IH [OF C(1,2) nd]) (use Cons.prems(4,5) x in auto)
  then show ?case using x by simp
qed

lemma start_sinv0:
  assumes "sinv0 idle T k" and "cur_ok k" and "none_delayed k"
  shows "sinv0 idle T (vTaskStartScheduler_run k)" and "cur_ok (vTaskStartScheduler_run k)"
proof -
  let ?k = "vTaskStartScheduler_run k"
  note D = sinv0D [OF assms(1)]
  have f: "klists ?k = klists k" "tcbs ?k = tcbs k" "pxCurrentTCB ?k = pxCurrentTCB k"
      "uxTopReadyPriority ?k = uxTopReadyPriority k" "pxDelayedTaskList ?k = pxDelayedTaskList k"
      "pxOverflowDelayedTaskList ?k = pxOverflowDelayedTaskList k" "pendsv ?k = pendsv k"
      "xYieldPending ?k = xYieldPending k" "uxSchedulerSuspended ?k = uxSchedulerSuspended k"
      "uxDeletedTasksWaitingCleanUp ?k = uxDeletedTasksWaitingCleanUp k"
    by (simp_all add: vTaskStartScheduler_run_def)
  have r: "ready ?k = ready k" by (simp add: ready_def f fun_eq_iff)
  have "delay_ok ?k"
    using assms(3) delay_okD(1-3) [OF kinvD(4) [OF D(1)]] unfolding delay_ok_def none_delayed_def f by auto
  then have "kinv T ?k" using kinvD(2,3) [OF D(1)] by (simp add: kinv_def lists_ok_def bits_ok_def f)
  then show "sinv0 idle T ?k" using D(2-8) unfolding sinv0_def term_count_def sched_max_def r f by blast
  show "cur_ok ?k" using assms(2) unfolding cur_ok_def r f by simp
qed

text \<open>The scheduler starts in a safe state, whatever tasks the application created.\<close>

lemma start_kernel_sinv:
  assumes "boot_ok k" and "distinct (idle # map fst ts)"
  shows "sinv idle (insert idle (set (map fst ts))) (start_kernel ts idle k)"
    and "xSchedulerRunning (start_kernel ts idle k)"
proof -
  show "xSchedulerRunning (start_kernel ts idle k)" by (simp add: start_kernel_def vTaskStartScheduler_run_def)
  define j where "j = fold (\<lambda>(t, p). k_create t p) ts k"
  have "sinv0 idle (insert idle (set (map fst ts))) (k_create idle 0 j)
      \<and> cur_ok (k_create idle 0 j) \<and> none_delayed (k_create idle 0 j)"
  proof (cases ts)
    case Nil
    then show ?thesis using first_create(1) [OF assms(1), where idle = idle and t = idle and p = 0]
        first_create(2,5) [OF assms(1), where t = idle and p = 0] by (simp add: j_def none_delayed_def)
  next
    case (Cons x us)
    obtain t p where x: "x = (t, p)" by (cases x)
    note F1 = first_create(1) [OF assms(1), where idle = idle and t = t and p = p]
      and F2 = first_create(2,5) [OF assms(1), where t = t and p = p]
    have nd: "none_delayed (k_create t p k)" unfolding none_delayed_def F2(2) by simp
    have J: "sinv0 idle (set (map fst ts)) j" "cur_ok j" "none_delayed j"
      using creates_sinv0 [OF F1 F2(1) nd, of us] assms(2) Cons x by (auto simp: j_def)
    have "idle \<notin> set (map fst ts)" using assms(2) by simp
    note C = create_sinv0 [OF J(1,2) this, where p = 0]
    show ?thesis using C(1,2) J(3) unfolding none_delayed_def C(7) by simp
  qed
  then show "sinv idle (insert idle (set (map fst ts))) (start_kernel ts idle k)"
    unfolding start_kernel_def j_def [symmetric] sinv_def using start_sinv0 by blast
qed

end
