(* ===== verification/Kernel_Pend.thy ===== *)
theory Kernel_Pend
  imports Kernel_Steps_Block Kernel_Steps_Prio Kernel_Steps_Life
begin

text \<open>
  No operation of \<open>tasks.c\<close> reads whether a context switch is pending: each does the same to a
  kernel and to the same kernel with PendSV set, up to that bit. Only the handler clears it.
\<close>

named_theorems pend_simps

section \<open>The writes\<close>

lemma pend_writes [pend_simps]:
  "(portYIELD k)\<lparr>xYieldPending := b\<rparr> = portYIELD (k\<lparr>xYieldPending := b\<rparr>)"
  "(portYIELD k)\<lparr>klists := a\<rparr> = portYIELD (k\<lparr>klists := a\<rparr>)"
  "(portYIELD k)\<lparr>tcbs := ts\<rparr> = portYIELD (k\<lparr>tcbs := ts\<rparr>)"
  "(portYIELD k)\<lparr>xTickCount := n\<rparr> = portYIELD (k\<lparr>xTickCount := n\<rparr>)"
  "(portYIELD k)\<lparr>uxTopReadyPriority := n\<rparr> = portYIELD (k\<lparr>uxTopReadyPriority := n\<rparr>)"
  "(portYIELD k)\<lparr>xNextTaskUnblockTime := n\<rparr> = portYIELD (k\<lparr>xNextTaskUnblockTime := n\<rparr>)"
  "(portYIELD k)\<lparr>uxPendedTicks := n\<rparr> = portYIELD (k\<lparr>uxPendedTicks := n\<rparr>)"
  "(portYIELD k)\<lparr>uxSchedulerSuspended := n\<rparr> = portYIELD (k\<lparr>uxSchedulerSuspended := n\<rparr>)"
  "(portYIELD k)\<lparr>uxTaskNumber := n\<rparr> = portYIELD (k\<lparr>uxTaskNumber := n\<rparr>)"
  "(portYIELD k)\<lparr>uxCurrentNumberOfTasks := n\<rparr> = portYIELD (k\<lparr>uxCurrentNumberOfTasks := n\<rparr>)"
  "(portYIELD k)\<lparr>uxDeletedTasksWaitingCleanUp := n\<rparr> = portYIELD (k\<lparr>uxDeletedTasksWaitingCleanUp := n\<rparr>)"
  "(portYIELD k)\<lparr>freed_tcbs := us\<rparr> = portYIELD (k\<lparr>freed_tcbs := us\<rparr>)"
  "(portYIELD k)\<lparr>pxCurrentTCB := c\<rparr> = portYIELD (k\<lparr>pxCurrentTCB := c\<rparr>)"
  "(portYIELD k)\<lparr>pxDelayedTaskList := l\<rparr> = portYIELD (k\<lparr>pxDelayedTaskList := l\<rparr>)"
  "(portYIELD k)\<lparr>pxOverflowDelayedTaskList := l\<rparr> = portYIELD (k\<lparr>pxOverflowDelayedTaskList := l\<rparr>)"
  "(portYIELD k)\<lparr>xNumOfOverflows := n\<rparr> = portYIELD (k\<lparr>xNumOfOverflows := n\<rparr>)"
  "portYIELD (portYIELD k) = portYIELD k"
  by (simp_all add: portYIELD_def)

lemma pend_reads [pend_simps]:
  "uxTopReadyPriority (portYIELD k) = uxTopReadyPriority k" "xNextTaskUnblockTime (portYIELD k) = xNextTaskUnblockTime k"
  "xNumOfOverflows (portYIELD k) = xNumOfOverflows k" "uxTaskNumber (portYIELD k) = uxTaskNumber k"
  "freed_tcbs (portYIELD k) = freed_tcbs k"
  by (simp_all add: portYIELD_def)

lemma pend_if [pend_simps]: "(if b then portYIELD k else portYIELD j) = portYIELD (if b then k else j)"
  by simp

lemma map_bind_option: "map_option f (Option.bind x g) = Option.bind x (\<lambda>y. map_option f (g y))"
  by (cases x) simp_all

lemma bind_map_some: "Option.bind (map_option f x) g = Option.bind x (\<lambda>y. g (f y))"
  by (cases x) simp_all

section \<open>The list moves\<close>

lemma pend_moves [pend_simps]:
  "upd_tcb t f (portYIELD k) = portYIELD (upd_tcb t f k)"
  "k_insert_end l i (portYIELD k) = portYIELD (k_insert_end l i k)"
  "k_insert l i (portYIELD k) = portYIELD (k_insert l i k)"
  "k_set_value i v (portYIELD k) = portYIELD (k_set_value i v k)"
  "taskRECORD_READY_PRIORITY p (portYIELD k) = portYIELD (taskRECORD_READY_PRIORITY p k)"
  "portRESET_TOP p (portYIELD k) = portYIELD (portRESET_TOP p k)"
  "k_head_owner l (portYIELD k) = k_head_owner l k"
  "k_remove i (portYIELD k) = map_option (apsnd portYIELD) (k_remove i k)"
  by (simp_all add: upd_tcb_def k_insert_end_def k_insert_def k_set_value_def taskRECORD_READY_PRIORITY_def
      portRESET_TOP_def k_head_owner_def k_remove_def Let_def pend_simps split: option.split list.split)

lemma pend_moves2 [pend_simps]:
  "taskRESET_READY_PRIORITY p (portYIELD k) = portYIELD (taskRESET_READY_PRIORITY p k)"
  "prvAddTaskToReadyList t (portYIELD k) = portYIELD (prvAddTaskToReadyList t k)"
  "k_unlist i (portYIELD k) = portYIELD (k_unlist i k)"
  "prvResetNextTaskUnblockTime (portYIELD k) = portYIELD (prvResetNextTaskUnblockTime k)"
  "set_event_priority t p (portYIELD k) = portYIELD (set_event_priority t p k)"
  by (simp_all add: taskRESET_READY_PRIORITY_def prvAddTaskToReadyList_def k_unlist_def
      prvResetNextTaskUnblockTime_def set_event_priority_def pend_simps split: option.split)

lemma pend_switch_lists [pend_simps]: "taskSWITCH_DELAYED_LISTS (portYIELD k) = portYIELD (taskSWITCH_DELAYED_LISTS k)"
  by (simp add: taskSWITCH_DELAYED_LISTS_def pend_simps)

lemma pend_delayed [pend_simps]:
  "prvAddCurrentTaskToDelayedList d b (portYIELD k) = map_option portYIELD (prvAddCurrentTaskToDelayedList d b k)"
  unfolding prvAddCurrentTaskToDelayedList_def
  by (simp add: pend_simps Let_def map_bind_option bind_map_some apsnd_def split_def cong: if_cong)


section \<open>The loops\<close>

lemma pend_tick_loop_some:
  assumes "tick_unblock_loop now sw k = Some r"
  shows "tick_unblock_loop now sw (portYIELD k) = Some (apsnd portYIELD r)"
proof (rule tick_unblock_loop.raw_induct
    [where P = "\<lambda>now sw k r. tick_unblock_loop now sw (portYIELD k) = Some (apsnd portYIELD r)", OF _ assms])
  fix loop now sw k r
  assume *: "\<And>now sw k r. loop now sw k = Some r \<Longrightarrow> tick_unblock_loop now sw (portYIELD k) = Some (apsnd portYIELD r)"
    and **: "(case kitems k (pxDelayedTaskList k) of
        [] \<Rightarrow> Some (sw, k\<lparr>xNextTaskUnblockTime := portMAX_DELAY\<rparr>)
      | i # _ \<Rightarrow>
          (let t = a_owner (klists k) i; v = item_value k (StateItem t) in
           if now < v then Some (sw, k\<lparr>xNextTaskUnblockTime := v\<rparr>)
           else Option.bind (k_remove (StateItem t) k) (\<lambda>r.
             let k = k_remove_if_listed (EventItem t) (snd r);
                 k = prvAddTaskToReadyList t k
             in Option.bind (pxCurrentTCB k) (\<lambda>c. loop now (sw \<or> prio k t \<ge> prio k c) k)))) = Some r"
  show "tick_unblock_loop now sw (portYIELD k) = Some (apsnd portYIELD r)"
    using ** by (subst tick_unblock_loop.simps)
      (auto simp: * pend_simps Let_def bind_eq_Some_conv split: list.splits if_splits)
qed

lemma pend_tick_loop_back:
  assumes "tick_unblock_loop now sw j = Some r"
  shows "\<forall>k. j = portYIELD k \<longrightarrow> (\<exists>r'. tick_unblock_loop now sw k = Some r')"
proof (rule tick_unblock_loop.raw_induct
    [where P = "\<lambda>now sw j r. \<forall>k. j = portYIELD k \<longrightarrow> (\<exists>r'. tick_unblock_loop now sw k = Some r')", OF _ assms])
  fix loop now sw j r
  assume *: "\<And>now sw j r. loop now sw j = Some r \<Longrightarrow> \<forall>k. j = portYIELD k \<longrightarrow> (\<exists>r'. tick_unblock_loop now sw k = Some r')"
    and **: "(case kitems j (pxDelayedTaskList j) of
        [] \<Rightarrow> Some (sw, j\<lparr>xNextTaskUnblockTime := portMAX_DELAY\<rparr>)
      | i # _ \<Rightarrow>
          (let t = a_owner (klists j) i; v = item_value j (StateItem t) in
           if now < v then Some (sw, j\<lparr>xNextTaskUnblockTime := v\<rparr>)
           else Option.bind (k_remove (StateItem t) j) (\<lambda>r.
             let k = k_remove_if_listed (EventItem t) (snd r);
                 k = prvAddTaskToReadyList t k
             in Option.bind (pxCurrentTCB k) (\<lambda>c. loop now (sw \<or> prio k t \<ge> prio k c) k)))) = Some r"
  show "\<forall>k. j = portYIELD k \<longrightarrow> (\<exists>r'. tick_unblock_loop now sw k = Some r')"
  proof (intro allI impI)
    fix k assume j: "j = portYIELD k"
    have step: "\<exists>r'. tick_unblock_loop now sw k = Some r'" if "loop now sw (portYIELD k) = Some r" for now sw k r using * [OF that] by blast
    show "\<exists>r'. tick_unblock_loop now sw k = Some r'"
      using ** by (subst tick_unblock_loop.simps)
        (auto simp: j pend_simps Let_def dest!: step split: list.splits if_splits Option.bind_splits)
  qed
qed

lemma pend_pending_loop_some:
  assumes "pending_ready_loop m k = Some r"
  shows "pending_ready_loop m (portYIELD k) = Some (apsnd portYIELD r)"
proof (rule pending_ready_loop.raw_induct
    [where P = "\<lambda>m k r. pending_ready_loop m (portYIELD k) = Some (apsnd portYIELD r)", OF _ assms])
  fix loop :: "bool \<Rightarrow> kernel \<Rightarrow> (bool \<times> kernel) option" and m k r
  assume *: "\<And>m k r. loop m k = Some r \<Longrightarrow> pending_ready_loop m (portYIELD k) = Some (apsnd portYIELD r)"
    and **: "(case kitems k PendingReadyList of
        [] \<Rightarrow> Some (m, k)
      | i # _ \<Rightarrow>
          (let t = a_owner (klists k) i in
           Option.bind (k_remove (EventItem t) k) (\<lambda>r.
           Option.bind (k_remove (StateItem t) (snd r)) (\<lambda>r.
             let k = prvAddTaskToReadyList t (snd r) in
             Option.bind (pxCurrentTCB k) (\<lambda>c.
               loop True (if prio k t \<ge> prio k c then k\<lparr>xYieldPending := True\<rparr> else k)))))) = Some r"
  show "pending_ready_loop m (portYIELD k) = Some (apsnd portYIELD r)"
    using ** by (subst pending_ready_loop.simps)
      (auto simp: * pend_simps Let_def bind_eq_Some_conv split: list.splits if_splits)
qed

lemma pend_pending_loop_back:
  assumes "pending_ready_loop m j = Some r"
  shows "\<forall>k. j = portYIELD k \<longrightarrow> (\<exists>r'. pending_ready_loop m k = Some r')"
proof (rule pending_ready_loop.raw_induct
    [where P = "\<lambda>m j r. \<forall>k. j = portYIELD k \<longrightarrow> (\<exists>r'. pending_ready_loop m k = Some r')", OF _ assms])
  fix loop :: "bool \<Rightarrow> kernel \<Rightarrow> (bool \<times> kernel) option" and m j r
  assume *: "\<And>m j r. loop m j = Some r \<Longrightarrow> \<forall>k. j = portYIELD k \<longrightarrow> (\<exists>r'. pending_ready_loop m k = Some r')"
    and **: "(case kitems j PendingReadyList of
        [] \<Rightarrow> Some (m, j)
      | i # _ \<Rightarrow>
          (let t = a_owner (klists j) i in
           Option.bind (k_remove (EventItem t) j) (\<lambda>r.
           Option.bind (k_remove (StateItem t) (snd r)) (\<lambda>r.
             let k = prvAddTaskToReadyList t (snd r) in
             Option.bind (pxCurrentTCB k) (\<lambda>c.
               loop True (if prio k t \<ge> prio k c then k\<lparr>xYieldPending := True\<rparr> else k)))))) = Some r"
  show "\<forall>k. j = portYIELD k \<longrightarrow> (\<exists>r'. pending_ready_loop m k = Some r')"
  proof (intro allI impI)
    fix k assume j: "j = portYIELD k"
    have step: "\<exists>r'. pending_ready_loop m k = Some r'" if "loop m (portYIELD k) = Some r" for m k r using * [OF that] by blast
    show "\<exists>r'. pending_ready_loop m k = Some r'"
      using ** by (subst pending_ready_loop.simps)
        (auto simp: j pend_simps Let_def dest!: step split: list.splits if_splits Option.bind_splits)
  qed
qed

lemma pend_from_both:
  assumes "\<And>r. x = Some r \<Longrightarrow> y = Some (f r)" and "\<And>r. y = Some r \<Longrightarrow> \<exists>r'. x = Some r'"
  shows "y = map_option f x"
  using assms by (cases x; cases y) auto

lemma pend_loops [pend_simps]:
  "tick_unblock_loop now sw (portYIELD k) = map_option (apsnd portYIELD) (tick_unblock_loop now sw k)"
  "pending_ready_loop m (portYIELD k) = map_option (apsnd portYIELD) (pending_ready_loop m k)"
  by (rule pend_from_both [OF pend_tick_loop_some]; use pend_tick_loop_back in blast)
    (rule pend_from_both [OF pend_pending_loop_some]; use pend_pending_loop_back in blast)

lemma pend_tick [pend_simps]: "xTaskIncrementTick (portYIELD k) = map_option (apsnd portYIELD) (xTaskIncrementTick k)"
  unfolding xTaskIncrementTick_def
  by (simp add: pend_simps Let_def map_bind_option bind_map_some apsnd_def split_def cong: if_cong)

lemma pend_ticks [pend_simps]: "pended_ticks_loop n (portYIELD k) = map_option portYIELD (pended_ticks_loop n k)"
proof (induction n arbitrary: k)
  case (Suc n)
  then show ?case
    by (simp add: pend_simps map_bind_option bind_map_some apsnd_def split_def cong: if_cong)
qed simp

lemma pend_suspend_all [pend_simps]: "vTaskSuspendAll (portYIELD k) = portYIELD (vTaskSuspendAll k)"
  by (simp add: vTaskSuspendAll_def pend_simps)

lemma pend_resume_all [pend_simps]: "xTaskResumeAll (portYIELD k) = map_option (apsnd portYIELD) (xTaskResumeAll k)"
proof -
  have "(if xYieldPending j then (True, portYIELD (portYIELD j)) else (False, portYIELD j))
      = apsnd portYIELD (if xYieldPending j then (True, portYIELD j) else (False, j))" for j
    by (simp add: pend_simps)
  moreover have "(if uxPendedTicks (portYIELD j) > 0
        then map_option (\<lambda>k. k\<lparr>uxPendedTicks := 0\<rparr>) (pended_ticks_loop (unat (uxPendedTicks (portYIELD j))) (portYIELD j))
        else Some (portYIELD j))
      = map_option portYIELD (if uxPendedTicks j > 0
        then map_option (\<lambda>k. k\<lparr>uxPendedTicks := 0\<rparr>) (pended_ticks_loop (unat (uxPendedTicks j)) j) else Some j)" for j
    by (simp add: pend_simps option.map_comp o_def)
  ultimately show ?thesis
    unfolding xTaskResumeAll_def Let_def
    by (simp add: pend_simps map_bind_option bind_map_some split_def del: portYIELD_fields(11) cong: if_cong)
qed

section \<open>The operations\<close>

lemma bind_if: "Option.bind (if b then x else y) g = (if b then Option.bind x g else Option.bind y g)"
  by simp

lemma map_if: "map_option f (if b then x else y) = (if b then map_option f x else map_option f y)"
  by simp

lemma pend_if_yield [pend_simps]: "portYIELD (if b then portYIELD k else j) = portYIELD (if b then k else j)"
  by (simp add: pend_simps)

lemma pend_if_pair: "apsnd portYIELD (if b then (True, k) else (False, j)) = (if b then (True, portYIELD k) else (False, portYIELD j))"
  by simp

lemmas pend_binds = map_bind_option bind_map_some split_def Let_def bind_if map_if

lemma pend_yield_unless [pend_simps]: "yield_unless a (portYIELD k) = portYIELD (yield_unless a k)"
  by (simp add: yield_unless_def pend_simps)

lemma pend_sleep [pend_simps]:
  "vTaskDelay d (portYIELD k) = map_option portYIELD (vTaskDelay d k)"
  "vTaskDelayUntil p d (portYIELD k) = map_option (apsnd portYIELD) (vTaskDelayUntil p d k)"
  "vTaskPlaceOnEventList l d (portYIELD k) = map_option portYIELD (vTaskPlaceOnEventList l d k)"
  "vTaskPlaceOnUnorderedEventList l v d (portYIELD k) = map_option portYIELD (vTaskPlaceOnUnorderedEventList l v d k)"
  "heap_section (portYIELD k) = map_option portYIELD (heap_section k)"
  by (simp_all add: vTaskDelay_def vTaskDelayUntil_def vTaskPlaceOnEventList_def vTaskPlaceOnUnorderedEventList_def
      heap_section_def pend_simps pend_binds option.map_comp o_def cong: if_cong)

lemma pend_events [pend_simps]:
  "xTaskRemoveFromEventList l (portYIELD k) = map_option (apsnd portYIELD) (xTaskRemoveFromEventList l k)"
  "vTaskRemoveFromUnorderedEventList i v (portYIELD k) = map_option portYIELD (vTaskRemoveFromUnorderedEventList i v k)"
  "uxTaskResetEventItemValue (portYIELD k) = map_option (apsnd portYIELD) (uxTaskResetEventItemValue k)"
  by (simp_all add: xTaskRemoveFromEventList_def vTaskRemoveFromUnorderedEventList_def uxTaskResetEventItemValue_def
      pend_simps pend_binds pend_if_pair cong: if_cong)

lemma pend_handle [pend_simps]: "prvGetTCBFromHandle h (portYIELD k) = prvGetTCBFromHandle h k"
  by (simp add: prvGetTCBFromHandle_def split: option.split)

lemma pend_resume [pend_simps]:
  "vTaskResume h (portYIELD k) = map_option portYIELD (vTaskResume h k)"
  "xTaskResumeFromISR t (portYIELD k) = map_option (apsnd portYIELD) (xTaskResumeFromISR t k)"
  by (cases h) (simp_all add: vTaskResume_def xTaskResumeFromISR_def prvTaskIsTaskSuspended_def pend_simps pend_binds
      cong: if_cong)

lemma pend_suspend [pend_simps]: "k_suspend t (portYIELD k) = portYIELD (k_suspend t k)"
  by (simp add: k_suspend_def k_notify_off_def k_leave_def pend_simps Let_def cong: if_cong)

lemma pend_prio [pend_simps]:
  "vTaskPrioritySet h p (portYIELD k) = map_option portYIELD (vTaskPrioritySet h p k)"
  by (simp add: vTaskPrioritySet_def pend_simps pend_binds cong: if_cong)

lemma pend_inherit [pend_simps]:
  "xTaskPriorityInherit h (portYIELD k) = map_option (apsnd portYIELD) (xTaskPriorityInherit h k)"
  "xTaskPriorityDisinherit h (portYIELD k) = map_option (apsnd portYIELD) (xTaskPriorityDisinherit h k)"
  "vTaskPriorityDisinheritAfterTimeout h p (portYIELD k) = map_option portYIELD (vTaskPriorityDisinheritAfterTimeout h p k)"
  "pvTaskIncrementMutexHeldCount (portYIELD k) = apsnd portYIELD (pvTaskIncrementMutexHeldCount k)"
  by (cases h; simp add: xTaskPriorityInherit_def xTaskPriorityDisinherit_def vTaskPriorityDisinheritAfterTimeout_def
      pvTaskIncrementMutexHeldCount_def pend_simps pend_binds split: option.split cong: if_cong)+

lemma pend_notify [pend_simps]:
  "record_notification t v a (portYIELD k) = apsnd portYIELD (record_notification t v a k)"
  "notify_wake_from_isr t st (portYIELD k) = map_option (apsnd portYIELD) (notify_wake_from_isr t st k)"
  by (simp_all add: record_notification_def notify_wake_from_isr_def pend_simps pend_binds pend_if_pair cong: if_cong)

lemma pend_notifies [pend_simps]:
  "xTaskGenericNotify t v a (portYIELD k) = map_option (apsnd portYIELD) (xTaskGenericNotify t v a k)"
  "xTaskGenericNotifyFromISR t v a (portYIELD k) = map_option (apsnd portYIELD) (xTaskGenericNotifyFromISR t v a k)"
  "vTaskNotifyGiveFromISR t (portYIELD k) = map_option (apsnd portYIELD) (vTaskNotifyGiveFromISR t k)"
  "ulTaskNotifyTake_wait d (portYIELD k) = map_option portYIELD (ulTaskNotifyTake_wait d k)"
  "ulTaskNotifyTake_finish b (portYIELD k) = map_option (apsnd portYIELD) (ulTaskNotifyTake_finish b k)"
  "xTaskNotifyWait_wait c d (portYIELD k) = map_option portYIELD (xTaskNotifyWait_wait c d k)"
  "xTaskNotifyWait_finish c (portYIELD k) = map_option (apsnd portYIELD) (xTaskNotifyWait_finish c k)"
  "xTaskNotifyStateClear h (portYIELD k) = map_option (apsnd portYIELD) (xTaskNotifyStateClear h k)"
  by (simp_all add: xTaskGenericNotify_def xTaskGenericNotifyFromISR_def vTaskNotifyGiveFromISR_def
      ulTaskNotifyTake_wait_def ulTaskNotifyTake_finish_def xTaskNotifyWait_wait_def xTaskNotifyWait_finish_def
      xTaskNotifyStateClear_def pend_simps pend_binds pend_if_pair option.map_comp o_def cong: if_cong)

lemma pend_init [pend_simps]:
  "prvInitialiseNewTask t p (portYIELD k) = portYIELD (prvInitialiseNewTask t p k)"
  "prvInitialiseTaskLists (portYIELD k) = portYIELD (prvInitialiseTaskLists k)"
  by (simp_all add: prvInitialiseNewTask_def prvInitialiseTaskLists_def pend_simps Let_def)

lemma pend_add_new [pend_simps]: "prvAddNewTaskToReadyList t (portYIELD k) = portYIELD (prvAddNewTaskToReadyList t k)"
  by (cases "pxCurrentTCB k") (simp_all add: prvAddNewTaskToReadyList_def pend_simps Let_def cong: if_cong split: option.split)

lemma pend_create [pend_simps]: "k_create t p (portYIELD k) = portYIELD (k_create t p k)"
  by (simp add: k_create_def pend_simps)

lemma pend_delete_tcb [pend_simps]: "prvDeleteTCB t (portYIELD k) = map_option portYIELD (prvDeleteTCB t k)"
  by (simp add: prvDeleteTCB_def pend_simps pend_binds)

lemma pend_delete [pend_simps]: "vTaskDelete h (portYIELD k) = map_option portYIELD (vTaskDelete h k)"
  by (simp add: vTaskDelete_def pend_simps pend_binds cong: if_cong)

lemma pend_clean_up [pend_simps]: "clean_up_loop n (portYIELD k) = map_option portYIELD (clean_up_loop n k)"
proof (induction n arbitrary: k)
  case (Suc n)
  then show ?case by (simp add: pend_simps pend_binds)
qed simp

end
