(* ===== verification/Kernel_System.thy ===== *)
theory Kernel_System
  imports Kernel_Pend
begin

text \<open>
  The scheduler as a transition system: the calls of tasks and interrupt handlers in any
  order. A call is guarded by what its callers in the repository (and the assertions and the
  documentation in the sources) respect; two things the code does against its own meaning are
  predicates of their own, so that each statement shows which of them it excludes. Every call
  from a reachable state returns without a fault and keeps the safety invariant.
\<close>

section \<open>Calls\<close>

datatype kcall =
    Tick | PendSV | Yield | MissedYield
  | SuspendAll | ResumeAllYield | ResumeAllPlain
  | Delay u32 | DelayUntil u32 u32
  | PlaceOnEventList klist u32 | PlaceOnUnordered klist u32 u32
  | RemoveFromEventList klist | RemoveFromUnordered task u32 | ResetEventItem
  | Suspend "task option" | Resume "task option" | ResumeFromISR task
  | PrioritySet "task option" u32
  | Inherit task | Disinherit task | DisinheritKeep task | DisinheritAfterTimeout task u32 | MutexHeld
  | Notify task u32 eNotifyAction | NotifyFromISR task u32 eNotifyAction | NotifyGiveFromISR task
  | NotifyTakeWait u32 | NotifyTakeFinish bool | NotifyWaitWait u32 u32 | NotifyWaitFinish u32
  | NotifyStateClear "task option"
  | Create task u32 | Delete "task option" | IdleCleanUp

text \<open>
  A yield the documentation asks the caller for is part of the call, except in
  \<open>DisinheritKeep\<close>: \<open>xQueueGenericSend\<close> ignores the result of \<open>xTaskPriorityDisinherit\<close> when a task
  waits for the mutex (\<open>queue.c\<close>, line 859). The two allocations of \<open>xTaskCreate\<close> come before the new
  task is added; their sections do nothing before the scheduler runs.
\<close>

fun kexec :: "kcall \<Rightarrow> kernel \<Rightarrow> kernel option" where
  "kexec Tick k = xPortSysTickHandler k"
| "kexec PendSV k = xPortPendSVHandler k"
| "kexec Yield k = Some (portYIELD k)"
| "kexec MissedYield k = Some (vTaskMissedYield k)"
| "kexec SuspendAll k = Some (vTaskSuspendAll k)"
| "kexec ResumeAllYield k = map_option (\<lambda>(already, k). yield_unless already k) (xTaskResumeAll k)"
| "kexec ResumeAllPlain k = map_option snd (xTaskResumeAll k)"
| "kexec (Delay d) k = vTaskDelay d k"
| "kexec (DelayUntil p d) k = map_option snd (vTaskDelayUntil p d k)"
| "kexec (PlaceOnEventList l d) k = vTaskPlaceOnEventList l d k"
| "kexec (PlaceOnUnordered l v d) k = vTaskPlaceOnUnorderedEventList l v d k"
| "kexec (RemoveFromEventList l) k = map_option snd (xTaskRemoveFromEventList l k)"
| "kexec (RemoveFromUnordered t v) k = vTaskRemoveFromUnorderedEventList (EventItem t) v k"
| "kexec ResetEventItem k = map_option snd (uxTaskResetEventItemValue k)"
| "kexec (Suspend h) k = vTaskSuspend h k"
| "kexec (Resume h) k = vTaskResume h k"
| "kexec (ResumeFromISR t) k = map_option (\<lambda>(y, k). if y then portYIELD k else k) (xTaskResumeFromISR t k)"
| "kexec (PrioritySet h p) k = vTaskPrioritySet h p k"
| "kexec (Inherit t) k = map_option snd (xTaskPriorityInherit (Some t) k)"
| "kexec (Disinherit t) k = map_option (\<lambda>(y, k). if y then portYIELD k else k) (xTaskPriorityDisinherit (Some t) k)"
| "kexec (DisinheritKeep t) k = map_option snd (xTaskPriorityDisinherit (Some t) k)"
| "kexec (DisinheritAfterTimeout t p) k = vTaskPriorityDisinheritAfterTimeout (Some t) p k"
| "kexec MutexHeld k = Some (snd (pvTaskIncrementMutexHeldCount k))"
| "kexec (Notify t v a) k = map_option snd (xTaskGenericNotify t v a k)"
| "kexec (NotifyFromISR t v a) k = map_option snd (xTaskGenericNotifyFromISR t v a k)"
| "kexec (NotifyGiveFromISR t) k = map_option snd (vTaskNotifyGiveFromISR t k)"
| "kexec (NotifyTakeWait d) k = ulTaskNotifyTake_wait d k"
| "kexec (NotifyTakeFinish b) k = map_option snd (ulTaskNotifyTake_finish b k)"
| "kexec (NotifyWaitWait b d) k = xTaskNotifyWait_wait b d k"
| "kexec (NotifyWaitFinish b) k = map_option snd (xTaskNotifyWait_finish b k)"
| "kexec (NotifyStateClear h) k = map_option snd (xTaskNotifyStateClear h k)"
| "kexec (Create t p) k = map_option (k_create t p) (Option.bind (heap_section k) heap_section)"
| "kexec (Delete h) k = vTaskDelete h k"
| "kexec IdleCleanUp k = prvCheckTasksWaitingTermination k"

definition alive :: "kernel \<Rightarrow> task \<Rightarrow> bool" where
  "alive k t \<longleftrightarrow> container k (StateItem t) \<noteq> None \<and> container k (StateItem t) \<noteq> Some TasksWaitingTermination"

text \<open>The current task executes: it is ready, and it is not the idle task, which never blocks.\<close>

definition executing :: "task \<Rightarrow> kernel \<Rightarrow> bool" where
  "executing idle k \<longleftrightarrow> (\<exists>c. pxCurrentTCB k = Some c \<and> ready k c \<and> c \<noteq> idle)"

definition event_list :: "klist \<Rightarrow> bool" where
  "event_list l \<longleftrightarrow> (case l of TasksWaitingToSend _ \<Rightarrow> True | TasksWaitingToReceive _ \<Rightarrow> True
     | TasksWaitingForBits _ \<Rightarrow> True | _ \<Rightarrow> False)"

definition target :: "task option \<Rightarrow> kernel \<Rightarrow> (task \<Rightarrow> bool) \<Rightarrow> bool" where
  "target h k P \<longleftrightarrow> (case prvGetTCBFromHandle h k of None \<Rightarrow> False | Some t \<Rightarrow> P t)"

text \<open>What the callers and the assertions of the sources guarantee.\<close>

definition documented :: "task \<Rightarrow> kcall \<Rightarrow> kernel \<Rightarrow> bool" where
  "documented idle call k = (case call of
       SuspendAll \<Rightarrow> uxSchedulerSuspended k + 1 \<noteq> 0
     | ResumeAllPlain \<Rightarrow> (\<exists>c. pxCurrentTCB k = Some c \<and> ready k c)
     | Delay d \<Rightarrow> executing idle k
     | DelayUntil p d \<Rightarrow> executing idle k
     | PlaceOnEventList l d \<Rightarrow> (executing idle k \<and> d > 0 \<and> event_list l \<and> uxSchedulerSuspended k \<noteq> 0
     \<and> (\<forall>c. pxCurrentTCB k = Some c \<longrightarrow> container k (EventItem c) = None))
     | PlaceOnUnordered l v d \<Rightarrow> (executing idle k \<and> d > 0 \<and> event_list l \<and> uxSchedulerSuspended k \<noteq> 0
     \<and> (\<forall>c. pxCurrentTCB k = Some c \<longrightarrow> container k (EventItem c) = None))
     | RemoveFromEventList l \<Rightarrow> (event_list l \<and> kitems k l \<noteq> [])
     | RemoveFromUnordered t v \<Rightarrow> (container k (EventItem t) \<noteq> None)
     | Suspend h \<Rightarrow> (xSchedulerRunning k \<and> target h k (\<lambda>t. alive k t \<and> t \<noteq> idle))
     | PrioritySet h p \<Rightarrow> target h k (alive k)
     | Inherit t \<Rightarrow> alive k t
     | Disinherit t \<Rightarrow> (ready k t \<and> pxCurrentTCB k = Some t)
     | DisinheritKeep t \<Rightarrow> (ready k t \<and> pxCurrentTCB k = Some t)
     | DisinheritAfterTimeout t p \<Rightarrow> (alive k t \<and> pxCurrentTCB k \<noteq> Some t \<and> p < configMAX_PRIORITIES)
     | Notify t v a \<Rightarrow> alive k t
     | NotifyFromISR t v a \<Rightarrow> (alive k t \<and> (uxSchedulerSuspended k \<noteq> 0 \<longrightarrow> container k (EventItem t) = None))
     | NotifyGiveFromISR t \<Rightarrow> (alive k t \<and> (uxSchedulerSuspended k \<noteq> 0 \<longrightarrow> container k (EventItem t) = None))
     | NotifyTakeWait d \<Rightarrow> executing idle k
     | NotifyWaitWait b d \<Rightarrow> executing idle k
     | Create t p \<Rightarrow> (container k (StateItem t) = None)
     | Delete h \<Rightarrow> (xSchedulerRunning k \<and> uxDeletedTasksWaitingCleanUp k + 1 \<noteq> 0
     \<and> target h k (\<lambda>t. alive k t \<and> t \<noteq> idle))
     | IdleCleanUp \<Rightarrow> (pxCurrentTCB k = Some idle)
     | _ \<Rightarrow> True)"

text \<open>
  A wait for a mutex times out while the holder is ready and alone on its ready list: the code
  then tests the wrong list and leaves the ready bit set (\<open>tasks.c\<close>, line 4098).
\<close>

definition leaves_stale_bit :: "kcall \<Rightarrow> kernel \<Rightarrow> bool" where
  "leaves_stale_bit call k = (case call of
       DisinheritAfterTimeout t p \<Rightarrow> (ready k t \<and> (\<forall>v. ready k v \<and> prio k v = prio k t \<longrightarrow> v = t))
     | _ \<Rightarrow> False)"

text \<open>
  A needed switch is not requested: the giver of a mutex lowers itself and the result is dropped,
  or the time-out of a wait \<^emph>\<open>raises\<close> the holder, to a waiter whose priority went up meanwhile.
\<close>

definition forgets_yield :: "kcall \<Rightarrow> kernel \<Rightarrow> bool" where
  "forgets_yield call k = (case call of
       DisinheritKeep t \<Rightarrow> (\<exists>k'. xTaskPriorityDisinherit (Some t) k = Some (True, k'))
     | DisinheritAfterTimeout t p \<Rightarrow> prio k t < max p (tcb_uxBasePriority (tcbs k t))
     | _ \<Rightarrow> False)"

definition kguard :: "task \<Rightarrow> kcall \<Rightarrow> kernel \<Rightarrow> bool" where
  "kguard idle call k \<longleftrightarrow> documented idle call k \<and> \<not> leaves_stale_bit call k \<and> \<not> forgets_yield call k"

lemmas kguard_defs = kguard_def documented_def leaves_stale_bit_def forgets_yield_def

definition safe :: "task \<Rightarrow> kernel \<Rightarrow> bool" where
  "safe idle k \<longleftrightarrow> (\<exists>T. sinv idle T k)"

lemma safeI: "sinv idle T k \<Longrightarrow> safe idle k"
  by (auto simp: safe_def)

lemma alive_task: "sinv idle T k \<Longrightarrow> alive k t \<Longrightarrow> t \<in> T \<and> container k (StateItem t) \<noteq> Some TasksWaitingTermination"
  using sinv0D(9) [OF sinvD(1)] by (auto simp: alive_def)

lemma event_list_admits: "event_list l \<Longrightarrow> admits l (EventItem t) \<and> \<not> admits l (StateItem u)"
  by (cases l) (auto simp: event_list_def)

lemma sinv_yield: "sinv idle T k \<Longrightarrow> sinv idle T (portYIELD k)"
  using sinv0_yield by (auto simp: sinv_def)

lemma sinv_suspend_all:
  assumes "sinv idle T k" and "uxSchedulerSuspended k + 1 \<noteq> 0"
  shows "sinv idle T (vTaskSuspendAll k)"
  using assms by (simp add: sinv_def vTaskSuspendAll_def kinv_fields_frame cur_ok_def)

lemma target_obtain:
  assumes "target h k P"
  obtains t where "prvGetTCBFromHandle h k = Some t" and "P t"
  using assms by (auto simp: target_def split: option.splits)

lemma sinv_set_event_value: "sinv idle T k \<Longrightarrow> sinv idle T (k_set_value (EventItem t) v k)"
proof -
  assume I: "sinv idle T k"
  have "ready (k_set_value (EventItem t) v k) = ready k" by (simp add: ready_def fun_eq_iff)
  then show ?thesis
    using I kinv_set_event_value [OF sinvD(3) [OF I]]
    unfolding sinv_def sinv0_def cur_ok_def sched_max_def term_count_def by simp
qed

section \<open>Every call keeps the system safe\<close>

lemma step_sched:
  assumes "sinv idle T k"
  shows "\<exists>k'. kexec Tick k = Some k' \<and> safe idle k'"
    and "\<exists>k'. kexec PendSV k = Some k' \<and> safe idle k'"
    and "\<exists>k'. kexec ResumeAllYield k = Some k' \<and> safe idle k'"
    and "kguard idle ResumeAllPlain k \<Longrightarrow> \<exists>k'. kexec ResumeAllPlain k = Some k' \<and> safe idle k'"
    and "\<exists>k'. kexec (ResumeFromISR t) k = Some k' \<and> safe idle k'"
    and "\<exists>k'. kexec (Resume h) k = Some k' \<and> safe idle k'"
proof -
  note I = assms
  show "\<exists>k'. kexec Tick k = Some k' \<and> safe idle k'" using systick_sinv [OF I] by (auto simp: safe_def)
  show "\<exists>k'. kexec PendSV k = Some k' \<and> safe idle k'" using switch_sinv [OF I] by (auto simp: safe_def)
  show "\<exists>k'. kexec ResumeAllYield k = Some k' \<and> safe idle k'"
    using resume_yield_sinv [OF sinvD(1,4) [OF I]] by (auto simp: safe_def)
  show "\<exists>k'. kexec ResumeAllPlain k = Some k' \<and> safe idle k'" if g: "kguard idle ResumeAllPlain k"
  proof -
    obtain c where "pxCurrentTCB k = Some c" "ready k c" using g by (auto simp: kguard_defs)
    from resume_plain_sinv [OF sinvD(1,4) [OF I] this] show ?thesis by (auto intro: safeI)
  qed
  show "\<exists>k'. kexec (ResumeFromISR t) k = Some k' \<and> safe idle k'"
  proof -
    obtain b k' where "xTaskResumeFromISR t k = Some (b, k')" "sinv idle T (if b then portYIELD k' else k')"
      using resume_isr_sinv [OF I] by blast
    then show ?thesis using safeI by simp
  qed
  show "\<exists>k'. kexec (Resume h) k = Some k' \<and> safe idle k'"
    using resume_sinv [OF I, of h] by (auto intro: safeI)
qed

lemma step_block:
  assumes "sinv idle T k"
  shows "kguard idle (Delay d) k \<Longrightarrow> \<exists>k'. kexec (Delay d) k = Some k' \<and> safe idle k'"
    and "kguard idle (DelayUntil p d) k \<Longrightarrow> \<exists>k'. kexec (DelayUntil p d) k = Some k' \<and> safe idle k'"
    and "kguard idle (PlaceOnEventList l d) k \<Longrightarrow> \<exists>k'. kexec (PlaceOnEventList l d) k = Some k' \<and> safe idle k'"
    and "kguard idle (PlaceOnUnordered l v d) k \<Longrightarrow> \<exists>k'. kexec (PlaceOnUnordered l v d) k = Some k' \<and> safe idle k'"
    and "kguard idle (NotifyTakeWait d) k \<Longrightarrow> \<exists>k'. kexec (NotifyTakeWait d) k = Some k' \<and> safe idle k'"
    and "kguard idle (NotifyWaitWait b d) k \<Longrightarrow> \<exists>k'. kexec (NotifyWaitWait b d) k = Some k' \<and> safe idle k'"
proof -
  note I = assms
  have ex: "\<exists>k'. kexec call k = Some k' \<and> safe idle k'"
    if "executing idle k" and "\<And>c. pxCurrentTCB k = Some c \<Longrightarrow> ready k c \<Longrightarrow> c \<noteq> idle \<Longrightarrow>
      \<exists>k'. kexec call k = Some k' \<and> sinv idle T k'" for call
    using that unfolding executing_def by (meson safeI)
  show "kguard idle (Delay d) k \<Longrightarrow> \<exists>k'. kexec (Delay d) k = Some k' \<and> safe idle k'"
    by (rule ex) (simp add: kguard_defs, use delay_sinv [OF I] in simp)
  show "kguard idle (DelayUntil p d) k \<Longrightarrow> \<exists>k'. kexec (DelayUntil p d) k = Some k' \<and> safe idle k'"
    by (rule ex) (simp add: kguard_defs, use delay_until_sinv [OF I] in fastforce)
  show "\<exists>k'. kexec (PlaceOnEventList l d) k = Some k' \<and> safe idle k'" if g: "kguard idle (PlaceOnEventList l d) k"
  proof (rule ex)
    show "executing idle k" using g by (simp add: kguard_defs)
    fix c assume c: "pxCurrentTCB k = Some c" "ready k c" "c \<noteq> idle"
    have "0 < d" "container k (EventItem c) = None" "admits l (EventItem c)" "uxSchedulerSuspended k \<noteq> 0"
      using g c(1) event_list_admits by (auto simp: kguard_defs)
    from place_sinv [OF I c this] show "\<exists>k'. kexec (PlaceOnEventList l d) k = Some k' \<and> sinv idle T k'" by auto
  qed
  show "\<exists>k'. kexec (PlaceOnUnordered l v d) k = Some k' \<and> safe idle k'" if g: "kguard idle (PlaceOnUnordered l v d) k"
  proof (rule ex)
    show "executing idle k" using g by (simp add: kguard_defs)
    fix c assume c: "pxCurrentTCB k = Some c" "ready k c" "c \<noteq> idle"
    have "0 < d" "container k (EventItem c) = None" "admits l (EventItem c)" "uxSchedulerSuspended k \<noteq> 0"
      using g c(1) event_list_admits by (auto simp: kguard_defs)
    from place_unordered_sinv [OF I c this] show "\<exists>k'. kexec (PlaceOnUnordered l v d) k = Some k' \<and> sinv idle T k'" by auto
  qed
  show "kguard idle (NotifyTakeWait d) k \<Longrightarrow> \<exists>k'. kexec (NotifyTakeWait d) k = Some k' \<and> safe idle k'"
    by (rule ex) (simp add: kguard_defs, use notify_wait_sinv(1) [OF I] in simp)
  show "kguard idle (NotifyWaitWait b d) k \<Longrightarrow> \<exists>k'. kexec (NotifyWaitWait b d) k = Some k' \<and> safe idle k'"
    by (rule ex) (simp add: kguard_defs, use notify_wait_sinv(2) [OF I] in simp)
qed

lemma step_wake:
  assumes "sinv idle T k"
  shows "kguard idle (RemoveFromEventList l) k \<Longrightarrow> \<exists>k'. kexec (RemoveFromEventList l) k = Some k' \<and> safe idle k'"
    and "kguard idle (RemoveFromUnordered t v) k \<Longrightarrow> \<exists>k'. kexec (RemoveFromUnordered t v) k = Some k' \<and> safe idle k'"
    and "kguard idle (Notify t v a) k \<Longrightarrow> \<exists>k'. kexec (Notify t v a) k = Some k' \<and> safe idle k'"
    and "kguard idle (NotifyFromISR t v a) k \<Longrightarrow> \<exists>k'. kexec (NotifyFromISR t v a) k = Some k' \<and> safe idle k'"
    and "kguard idle (NotifyGiveFromISR t) k \<Longrightarrow> \<exists>k'. kexec (NotifyGiveFromISR t) k = Some k' \<and> safe idle k'"
    and "\<exists>k'. kexec (NotifyTakeFinish b) k = Some k' \<and> safe idle k'"
    and "\<exists>k'. kexec (NotifyWaitFinish d) k = Some k' \<and> safe idle k'"
    and "\<exists>k'. kexec (NotifyStateClear h) k = Some k' \<and> safe idle k'"
proof -
  note I = assms and A = alive_task [OF assms]
  show "\<exists>k'. kexec (RemoveFromEventList l) k = Some k' \<and> safe idle k'" if g: "kguard idle (RemoveFromEventList l) k"
  proof -
    have "kitems k l \<noteq> []" "\<And>u. \<not> admits l (StateItem u)"
      using g event_list_admits by (auto simp: kguard_defs)
    from remove_from_event_list_sinv [OF I this] show ?thesis by (auto intro: safeI)
  qed
  show "\<exists>k'. kexec (RemoveFromUnordered t v) k = Some k' \<and> safe idle k'" if g: "kguard idle (RemoveFromUnordered t v) k"
  proof -
    obtain l where "container k (EventItem t) = Some l" using g by (auto simp: kguard_defs)
    from remove_unordered_sinv [OF I this, of v] show ?thesis by (auto intro: safeI)
  qed
  show "\<exists>k'. kexec (Notify t v a) k = Some k' \<and> safe idle k'" if g: "kguard idle (Notify t v a) k"
    using notify_sinv [OF I, of t v a] A [of t] g by (auto simp: kguard_defs intro: safeI)
  show "\<exists>k'. kexec (NotifyFromISR t v a) k = Some k' \<and> safe idle k'" if g: "kguard idle (NotifyFromISR t v a) k"
    using notify_from_isr_sinv(1) [OF I, of t v a] A [of t] g by (auto simp: kguard_defs intro: safeI)
  show "\<exists>k'. kexec (NotifyGiveFromISR t) k = Some k' \<and> safe idle k'" if g: "kguard idle (NotifyGiveFromISR t) k"
    using notify_from_isr_sinv(2) [OF I, of t] A [of t] g by (auto simp: kguard_defs intro: safeI)
  show "\<exists>k'. kexec (NotifyTakeFinish b) k = Some k' \<and> safe idle k'"
    using notify_finish_sinv(1) [OF I, of b] by (auto intro: safeI)
  show "\<exists>k'. kexec (NotifyWaitFinish d) k = Some k' \<and> safe idle k'"
    using notify_finish_sinv(2) [OF I, of d] by (auto intro: safeI)
  show "\<exists>k'. kexec (NotifyStateClear h) k = Some k' \<and> safe idle k'"
    using notify_finish_sinv(3) [OF I, of h] by (auto intro: safeI)
qed

lemma step_prio:
  assumes "sinv idle T k"
  shows "kguard idle (PrioritySet h p) k \<Longrightarrow> \<exists>k'. kexec (PrioritySet h p) k = Some k' \<and> safe idle k'"
    and "kguard idle (Inherit t) k \<Longrightarrow> \<exists>k'. kexec (Inherit t) k = Some k' \<and> safe idle k'"
    and "kguard idle (Disinherit t) k \<Longrightarrow> \<exists>k'. kexec (Disinherit t) k = Some k' \<and> safe idle k'"
    and "kguard idle (DisinheritKeep t) k \<Longrightarrow> \<exists>k'. kexec (DisinheritKeep t) k = Some k' \<and> safe idle k'"
    and "kguard idle (DisinheritAfterTimeout t q) k \<Longrightarrow> \<exists>k'. kexec (DisinheritAfterTimeout t q) k = Some k' \<and> safe idle k'"
    and "\<exists>k'. kexec MutexHeld k = Some k' \<and> safe idle k'"
    and "\<exists>k'. kexec ResetEventItem k = Some k' \<and> safe idle k'"
proof -
  note I = assms and A = alive_task [OF assms]
  obtain c where c: "pxCurrentTCB k = Some c" using sinv0D(2) [OF sinvD(1) [OF I]] by blast
  show "\<exists>k'. kexec (PrioritySet h p) k = Some k' \<and> safe idle k'" if g: "kguard idle (PrioritySet h p) k"
  proof -
    have "target h k (alive k)" using g by (simp add: kguard_defs)
    then obtain t where t: "prvGetTCBFromHandle h k = Some t" "alive k t" by (rule target_obtain)
    with A [OF t(2)] priority_set_sinv [OF I t(1), of p] show ?thesis by (auto intro: safeI)
  qed
  show "\<exists>k'. kexec (Inherit t) k = Some k' \<and> safe idle k'" if g: "kguard idle (Inherit t) k"
    using inherit_sinv [OF I, of t] A [of t] g by (auto simp: kguard_defs intro: safeI)
  show "\<exists>k'. kexec (Disinherit t) k = Some k' \<and> safe idle k'" if g: "kguard idle (Disinherit t) k"
  proof -
    have r: "ready k t" "pxCurrentTCB k = Some t" using g by (simp_all add: kguard_defs)
    then have "t \<in> T" using kinvD(5) [OF sinvD(3) [OF I]] by (auto simp: ready_def)
    from disinherit_sinv [OF I this r(1)] r(2) obtain b k' where
      "xTaskPriorityDisinherit (Some t) k = Some (b, k')" "sinv idle T (if b then portYIELD k' else k')"
      by blast
    then show ?thesis using safeI by simp
  qed
  show "\<exists>k'. kexec (DisinheritKeep t) k = Some k' \<and> safe idle k'" if g: "kguard idle (DisinheritKeep t) k"
  proof -
    have r: "ready k t" "pxCurrentTCB k = Some t" and n: "\<nexists>k'. xTaskPriorityDisinherit (Some t) k = Some (True, k')"
      using g by (simp_all add: kguard_defs)
    then have "t \<in> T" using kinvD(5) [OF sinvD(3) [OF I]] by (auto simp: ready_def)
    from disinherit_sinv [OF I this r(1)] r(2) obtain b k' where
      "xTaskPriorityDisinherit (Some t) k = Some (b, k')" "sinv idle T (if b then portYIELD k' else k')"
      by blast
    then show ?thesis using n by (cases b) (auto intro: safeI)
  qed
  show "\<exists>k'. kexec (DisinheritAfterTimeout t q) k = Some k' \<and> safe idle k'" if g: "kguard idle (DisinheritAfterTimeout t q) k"
  proof -
    have a: "alive k t" "q < configMAX_PRIORITIES" "pxCurrentTCB k \<noteq> Some t"
      "ready k t \<Longrightarrow> \<exists>v. v \<noteq> t \<and> ready k v \<and> prio k v = prio k t"
      using g by (auto simp: kguard_defs)
    have m: "max q (tcb_uxBasePriority (tcbs k t)) \<le> prio k t"
      using g unfolding kguard_def forgets_yield_def kcall.case not_less by blast
    obtain k' where "vTaskPriorityDisinheritAfterTimeout (Some t) q k = Some k'" "sinv idle T k'"
      using disinherit_after_timeout_sinv [OF I, of t q] A [OF a(1)] a(2-4) m by blast
    then show ?thesis by (simp add: safeI)
  qed
  have "sinv idle T (upd_tcb c (tcb_uxMutexesHeld_update (\<lambda>n. n + 1)) k)"
    by (rule sinv_upd_notify [OF I]) simp_all
  then show "\<exists>k'. kexec MutexHeld k = Some k' \<and> safe idle k'"
    by (auto simp: pvTaskIncrementMutexHeldCount_def c intro: safeI)
  show "\<exists>k'. kexec ResetEventItem k = Some k' \<and> safe idle k'"
    using sinv_set_event_value [OF I] by (auto simp: uxTaskResetEventItemValue_def c intro: safeI)
qed

lemma step_life:
  assumes "sinv idle T k"
  shows "kguard idle (Suspend h) k \<Longrightarrow> \<exists>k'. kexec (Suspend h) k = Some k' \<and> safe idle k'"
    and "kguard idle (Create t p) k \<Longrightarrow> \<exists>k'. kexec (Create t p) k = Some k' \<and> safe idle k'"
    and "kguard idle (Delete h) k \<Longrightarrow> \<exists>k'. kexec (Delete h) k = Some k' \<and> safe idle k'"
    and "kguard idle IdleCleanUp k \<Longrightarrow> \<exists>k'. kexec IdleCleanUp k = Some k' \<and> safe idle k'"
proof -
  note I = assms and A = alive_task [OF assms]
  show "\<exists>k'. kexec (Suspend h) k = Some k' \<and> safe idle k'" if g: "kguard idle (Suspend h) k"
  proof -
    have run: "xSchedulerRunning k" and "target h k (\<lambda>t. alive k t \<and> t \<noteq> idle)"
      using g by (simp_all add: kguard_defs)
    from this(2) obtain t where t: "prvGetTCBFromHandle h k = Some t" "alive k t \<and> t \<noteq> idle"
      by (rule target_obtain)
    with A [of t] suspend_sinv [OF I t(1)] run show ?thesis by (auto intro: safeI)
  qed
  show "\<exists>k'. kexec (Create t p) k = Some k' \<and> safe idle k'" if g: "kguard idle (Create t p) k"
  proof -
    have "t \<notin> T" using g sinv0D(9) [OF sinvD(1) [OF I]] by (simp add: kguard_defs)
    note t = this
    obtain k1 where k1: "Option.bind (heap_section k) heap_section = Some k1" "sinv0 idle T k1" "cur_ok k1"
      using heap_sections_sinv0 [OF sinvD(1,2) [OF I]] by blast
    have "sinv idle (insert t T) (k_create t p k1)"
      using create_sinv0(1,2) [OF k1(2,3) t, of p] sinvD(4) [OF I] by (simp add: sinv_def)
    then show ?thesis using k1(1) by (auto intro: safeI)
  qed
  show "\<exists>k'. kexec (Delete h) k = Some k' \<and> safe idle k'" if g: "kguard idle (Delete h) k"
  proof -
    have run: "xSchedulerRunning k" "uxDeletedTasksWaitingCleanUp k + 1 \<noteq> 0"
      and "target h k (\<lambda>t. alive k t \<and> t \<noteq> idle)"
      using g by (simp_all add: kguard_defs)
    from this(3) obtain t where t: "prvGetTCBFromHandle h k = Some t" "alive k t \<and> t \<noteq> idle"
      by (rule target_obtain)
    with A [of t] delete_sinv [OF I t(1) _ _ _ run] show ?thesis
      by (auto intro: safeI split: if_splits)
  qed
  show "\<exists>k'. kexec IdleCleanUp k = Some k' \<and> safe idle k'" if g: "kguard idle IdleCleanUp k"
    using clean_up_sinv [OF I] g by (auto simp: kguard_defs prvCheckTasksWaitingTermination_def intro: safeI)
qed

lemma step_safe:
  assumes "safe idle k" and "kguard idle call k"
  shows "\<exists>k'. kexec call k = Some k' \<and> safe idle k'"
proof -
  obtain T where I: "sinv idle T k" using assms(1) by (auto simp: safe_def)
  note S = step_sched [OF I] and B = step_block [OF I] and W = step_wake [OF I]
    and P = step_prio [OF I] and L = step_life [OF I]
  show ?thesis
  proof (cases call)
    case Yield
    then show ?thesis using sinv_yield [OF I] by (auto intro: safeI)
  next
    case MissedYield
    have "sinv idle T (k\<lparr>xYieldPending := True\<rparr>)"
      using I sinv0_yield_pending [OF sinvD(1) [OF I]] by (simp add: sinv_def cur_ok_def)
    then show ?thesis using MissedYield by (auto simp: vTaskMissedYield_def intro: safeI)
  next
    case SuspendAll
    then show ?thesis using sinv_suspend_all [OF I] assms(2) by (auto simp: kguard_defs intro: safeI)
  qed (use assms(2) S B W P L in \<open>simp_all only:\<close>)
qed

section \<open>A kernel that may have lost a yield\<close>

text \<open>
  A kernel that is safe once PendSV is set has consistent lists and returns from every call, but
  its current task may be outranked.
\<close>

lemma ready_pend: "ready (portYIELD k) t = ready k t"
  by (simp add: ready_def)

lemma alive_pend [simp]: "alive (portYIELD k) = alive k"
  by (simp add: alive_def fun_eq_iff)

lemma documented_pend [simp]: "documented idle call (portYIELD k) = documented idle call k"
  by (cases call) (simp_all add: documented_def executing_def target_def pend_simps)

lemma pend_kexec:
  assumes "call \<noteq> PendSV" and "documented idle call k" and "safe idle (portYIELD k)"
  shows "kexec call (portYIELD k) = map_option portYIELD (kexec call k)"
proof (cases call)
  case (Suspend h)
  obtain T where T: "kinv T k" "\<And>t. alive k t \<Longrightarrow> t \<in> T"
    using assms(3) sinvD(3) alive_task unfolding safe_def by (fastforce simp: alive_def)
  have g: "xSchedulerRunning k" "target h k (\<lambda>t. alive k t \<and> t \<noteq> idle)"
    using assms(2) Suspend by (simp_all add: documented_def)
  from g(2) obtain t where t: "prvGetTCBFromHandle h k = Some t" "alive k t \<and> t \<noteq> idle" by (rule target_obtain)
  then obtain l where l: "container k (StateItem t) = Some l" by (auto simp: alive_def)
  have "kinv T (portYIELD k)" "prvGetTCBFromHandle h (portYIELD k) = Some t" using T(1) t(1) by (simp_all add: pend_simps)
  from vTaskSuspend_eq [OF T(1) t(1) l g(1)] vTaskSuspend_eq [OF this, of l] l g(1)
  show ?thesis using Suspend by (simp add: pend_simps)
next
  case (Create t p)
  then show ?thesis by (simp add: pend_simps pend_binds option.map_comp o_def)
qed (use assms(1) in \<open>simp_all add: pend_simps pend_binds option.map_comp o_def vTaskMissedYield_def prvCheckTasksWaitingTermination_def
    xPortSysTickHandler_def cong: if_cong\<close>)

lemma step_weak:
  assumes "safe idle (portYIELD k)" and "documented idle call k" and "\<not> leaves_stale_bit call k"
  shows "\<exists>k'. kexec call k = Some k' \<and> safe idle (portYIELD k')"
proof -
  have other: ?thesis if "call \<noteq> PendSV" "kguard idle call (portYIELD k)"
    using step_safe [OF assms(1) that(2)] pend_kexec [OF that(1) assms(2,1)] by auto
  show ?thesis
  proof (cases call)
    case PendSV
    have "kguard idle PendSV (portYIELD k)" by (simp add: kguard_defs)
    moreover have "kexec PendSV (portYIELD k) = kexec PendSV k" by (simp add: xPortPendSVHandler_def portYIELD_def)
    ultimately show ?thesis using step_safe [OF assms(1)] PendSV sinv_yield unfolding safe_def by metis
  next
    case (DisinheritKeep t)
    then have d: "documented idle (Disinherit t) k" using assms(2) by (simp add: documented_def)
    then have "kguard idle (Disinherit t) (portYIELD k)" by (simp add: kguard_def leaves_stale_bit_def forgets_yield_def)
    from step_safe [OF assms(1) this] obtain j where
      "kexec (Disinherit t) (portYIELD k) = Some j" "safe idle j" by blast
    then show ?thesis using DisinheritKeep
      by (cases "xTaskPriorityDisinherit (Some t) k") (auto simp: pend_simps)
  next
    case (DisinheritAfterTimeout t p)
    let ?k = "portYIELD k"
    obtain T where I: "sinv idle T ?k" using assms(1) by (auto simp: safe_def)
    have g: "alive ?k t" "p < configMAX_PRIORITIES" "pxCurrentTCB ?k \<noteq> Some t"
      "ready ?k t \<Longrightarrow> \<exists>v. v \<noteq> t \<and> ready ?k v \<and> prio ?k v = prio ?k t"
      using assms(2,3) DisinheritAfterTimeout by (auto simp: documented_def leaves_stale_bit_def alive_def)
    obtain j where "vTaskPriorityDisinheritAfterTimeout (Some t) p ?k = Some j" "sinv idle T j"
      using disinherit_after_timeout_sinv [OF I, of t p] alive_task [OF I g(1)] g(2-4) by auto
    then show ?thesis using DisinheritAfterTimeout by (auto simp: pend_simps intro: safeI)
  qed (use assms(2) other in \<open>simp_all add: kguard_def leaves_stale_bit_def forgets_yield_def\<close>)
qed

section \<open>Reachable states\<close>

inductive reach :: "task \<Rightarrow> kernel \<Rightarrow> bool" for idle where
  start: "boot_ok k \<Longrightarrow> distinct (idle # map fst ts) \<Longrightarrow> reach idle (start_kernel ts idle k)"
| step: "reach idle k \<Longrightarrow> kguard idle call k \<Longrightarrow> kexec call k = Some k' \<Longrightarrow> reach idle k'"

inductive_cases reach_cases: "reach idle k"

lemma reach_safe: "reach idle k \<Longrightarrow> safe idle k"
proof (induction rule: reach.induct)
  case (start k ts)
  then show ?case using start_kernel_sinv(1) by (auto simp: safe_def)
next
  case (step k call k')
  then show ?case using step_safe by fastforce
qed

text \<open>
  A run in which no step is of an excluded kind: the calls come in any order, each as documented.
\<close>

inductive runs :: "task \<Rightarrow> (kcall \<Rightarrow> kernel \<Rightarrow> bool) \<Rightarrow> kernel \<Rightarrow> bool" for idle excluded where
  start: "boot_ok k \<Longrightarrow> distinct (idle # map fst ts) \<Longrightarrow> runs idle excluded (start_kernel ts idle k)"
| step: "runs idle excluded k \<Longrightarrow> documented idle call k \<Longrightarrow> \<not> excluded call k \<Longrightarrow> kexec call k = Some k'
    \<Longrightarrow> runs idle excluded k'"

lemma runs_reach:
  assumes "runs idle (\<lambda>call k. leaves_stale_bit call k \<or> forgets_yield call k) k"
  shows "reach idle k"
  using assms
proof (induction rule: runs.induct)
  case (step k call k')
  then have "kguard idle call k" by (simp add: kguard_def)
  with step(5) show ?case using step(4) by (rule reach.step)
qed (rule reach.start)

lemma reach_runs:
  assumes "reach idle k" and "\<And>call k. excluded call k \<Longrightarrow> leaves_stale_bit call k \<or> forgets_yield call k"
  shows "runs idle excluded k"
  using assms(1)
proof (induction rule: reach.induct)
  case (step k call k')
  show ?case by (rule runs.step [OF step(4) _ _ step(3)]) (use step(2) assms(2) in \<open>auto simp: kguard_def\<close>)
qed (rule runs.start)

lemma runs_weak: "runs idle leaves_stale_bit k \<Longrightarrow> safe idle (portYIELD k)"
proof (induction rule: runs.induct)
  case (start k ts)
  show ?case by (rule safeI [OF sinv_yield [OF start_kernel_sinv(1) [OF start]]])
next
  case (step k call k')
  then show ?case using step_weak by fastforce
qed

end
