(* ===== verification/Kernel_Demo.thy ===== *)
theory Kernel_Demo
  imports Kernel_System
begin

text \<open>Concrete kernels for the witnesses: the statically initialised one and runs from it.\<close>

definition boot_kernel :: kernel where
  "boot_kernel = \<lparr>
     klists = \<lparr>a_items = (\<lambda>_. []), a_index = (\<lambda>_. None), a_value = (\<lambda>_. 0), a_owner = (\<lambda>_. 0),
       a_container = (\<lambda>_. None)\<rparr>,
     tcbs = (\<lambda>_. \<lparr>tcb_uxPriority = 0, tcb_uxBasePriority = 0, tcb_uxMutexesHeld = 0, tcb_uxTCBNumber = 0,
       tcb_uxTaskNumber = 0, tcb_ulNotifiedValue = 0, tcb_ucNotifyState = taskNOT_WAITING_NOTIFICATION\<rparr>),
     pxCurrentTCB = None, pxDelayedTaskList = DelayedTaskList1, pxOverflowDelayedTaskList = DelayedTaskList1,
     uxDeletedTasksWaitingCleanUp = 0, uxCurrentNumberOfTasks = 0, xTickCount = 0, uxTopReadyPriority = 0,
     xSchedulerRunning = False, uxPendedTicks = 0, xYieldPending = False, xNumOfOverflows = 0, uxTaskNumber = 0,
     xNextTaskUnblockTime = 0, uxSchedulerSuspended = 0, pendsv = False, freed_tcbs = []\<rparr>"

lemma boot_kernel_ok: "boot_ok boot_kernel"
  by (simp add: boot_ok_def boot_kernel_def)

text \<open>
  Updated functions stay in normal form when states are evaluated: an update is only unfolded
  when it is applied.
\<close>

declare fun_upd_apply [code]
declare pending_ready_loop.simps [code] tick_unblock_loop.simps [code]

fun krun :: "kcall list \<Rightarrow> kernel \<Rightarrow> kernel option" where
  "krun [] k = Some k"
| "krun (c # cs) k = Option.bind (kexec c k) (krun cs)"

definition demo :: kernel where
  "demo = start_kernel [(4, 2), (2, 2), (3, 1)] 0 boot_kernel"

lemma demo_cur: "pxCurrentTCB demo = Some 2" by code_simp
lemma demo_ready: "container demo (StateItem 2) = Some (ReadyList 2)" by code_simp
lemma demo_run: "map_option pxCurrentTCB (krun [Delay 3, PendSV] demo) = Some (Some 4)" by code_simp

section \<open>Facts of the concrete kernel\<close>

lemma demo_reach: "reach 0 demo"
  unfolding demo_def by (rule reach.start [OF boot_kernel_ok]) simp

lemma demo_runs: "runs 0 excluded demo"
  unfolding demo_def by (rule runs.start [OF boot_kernel_ok]) simp

lemma demo_kinv: "\<exists>T. kinv T demo"
  using reach_safe [OF demo_reach] sinvD(3) unfolding safe_def by blast

lemma demo_prio: "prio demo 2 = 2" "prio demo 4 = 2" "prio demo 3 = 1" "prio demo 0 = 0"
  by code_simp+

lemma demo_state: "container demo (StateItem 4) = Some (ReadyList 2)"
    "container demo (StateItem 3) = Some (ReadyList 1)" "container demo (StateItem 0) = Some (ReadyList 0)"
    "uxSchedulerSuspended demo = 0" "uxPendedTicks demo = 0" "kitems demo PendingReadyList = []"
    "kitems demo (ReadyList 2) = [StateItem 4, StateItem 2]" "xTickCount demo = 0" "xNumOfOverflows demo = 0"
  by code_simp+

lemma demo_ready_tasks: "ready demo 2" "ready demo 4" "ready demo 3" "ready demo 0"
  by (simp_all add: ready_def demo_ready demo_state demo_prio)

lemma demo_pending: "container demo i \<noteq> Some PendingReadyList"
  using demo_kinv ends.items_empty [OF kinvD(1)] demo_state(6) by blast

lemma demo_executing: "executing 0 demo"
  by (simp add: executing_def demo_cur demo_ready_tasks)

end
