(* ===== verification/Kernel_Time.thy ===== *)
theory Kernel_Time
  imports Kernel_Safety
begin

text \<open>
  Runs of the clock and of the context switch: how long a delayed task waits, how the tick
  and overflow counts measure time, and in which order equal tasks are served.
\<close>

section \<open>Runs of the tick\<close>

text \<open>One tick of the machine when no task calls the kernel: the tick handler, then the switch it asked for.\<close>

definition clock_step :: "kernel \<Rightarrow> kernel option" where
  "clock_step k =
     Option.bind (xPortSysTickHandler k) (\<lambda>k. if pendsv k then xPortPendSVHandler k else Some k)"

fun run_ticks :: "nat \<Rightarrow> kernel \<Rightarrow> kernel option" where
  "run_ticks 0 k = Some k"
| "run_ticks (Suc n) k = Option.bind (clock_step k) (run_ticks n)"

lemma delayed_iff:
  "delay_ok k \<Longrightarrow> delayed k t \<longleftrightarrow> container k (StateItem t) \<in> {Some DelayedTaskList1, Some DelayedTaskList2}"
  using delay_okD(1) [of k] by (auto simp: delayed_def)

text \<open>The ticks left until a delayed task is due.\<close>

definition remaining :: "kernel \<Rightarrow> task \<Rightarrow> nat" where
  "remaining k t = unat (item_value k (StateItem t) - xTickCount k)"

lemma delayed_not_now:
  assumes "delay_ok k" and "delayed k t"
  shows "item_value k (StateItem t) \<noteq> xTickCount k"
  using assms(2) delay_okD(4,6) [OF assms(1), of "StateItem t"] unfolding delayed_def by auto

lemma remaining_pos: "delay_ok k \<Longrightarrow> delayed k t \<Longrightarrow> 0 < remaining k t"
  using delayed_not_now unfolding remaining_def by (simp add: unat_gt_0)

lemma remaining_tick:
  assumes "v \<noteq> (now :: u32)"
  shows "unat (v - (now + 1)) = unat (v - now) - 1"
proof -
  have "1 \<le> v - now" using assms by (simp add: word_le_nat_alt unat_gt_0 Suc_le_eq)
  then have "unat ((v - now) - 1) = unat (v - now) - 1" by (simp add: unat_sub_u32)
  then show ?thesis by (simp add: diff_diff_add)
qed

text \<open>What the clock leaves alone.\<close>

definition clock_frame :: "kernel \<Rightarrow> kernel \<Rightarrow> bool" where
  "clock_frame k k' \<longleftrightarrow> tcbs k' = tcbs k \<and> item_value k' = item_value k
     \<and> uxSchedulerSuspended k' = uxSchedulerSuspended k \<and> pxCurrentTCB k' \<noteq> None"

lemma overflow_fields [simp]:
  "xNumOfOverflows (portYIELD k) = xNumOfOverflows k" "xNumOfOverflows (k_select k) = xNumOfOverflows k"
  by (simp_all add: portYIELD_def k_select_def Let_def)

lemma clock_step_correct:
  assumes "kinv T k" and "pxCurrentTCB k \<noteq> None" and "uxSchedulerSuspended k = 0" and "ready k t0"
  shows "\<exists>k'. clock_step k = Some k' \<and> kinv T k' \<and> clock_frame k k'
    \<and> xTickCount k' = xTickCount k + 1
    \<and> xNumOfOverflows k' = xNumOfOverflows k + (if xTickCount k + 1 = 0 then 1 else 0)
    \<and> (\<forall>j. container k' j = woken_container (wakes k) k j)"
proof -
  obtain c where "pxCurrentTCB k = Some c" using assms(2) by blast
  from tick_correct [OF assms(1) this assms(3)] obtain sw m where
    R: "xTaskIncrementTick k = Some (sw, m)" "kinv T m" "same_tasks k m" "xTickCount m = xTickCount k + 1"
      "xNumOfOverflows m = xNumOfOverflows k + (if xTickCount k + 1 = 0 then 1 else 0)"
      "\<forall>j. container m j = woken_container (wakes k) k j" by blast
  let ?m = "if sw then portYIELD m else m"
  have F: "clock_frame k ?m" "xTickCount ?m = xTickCount m" "xNumOfOverflows ?m = xNumOfOverflows m"
    "container ?m = container m" "kinv T ?m" "uxSchedulerSuspended ?m = 0"
    using R(2,3) assms(2,3) by (auto simp: clock_frame_def same_tasks_def)
  have H: "clock_step k = (if pendsv ?m then xPortPendSVHandler ?m else Some ?m)"
    by (simp add: clock_step_def xPortSysTickHandler_def R(1))
  show ?thesis
  proof (cases "pendsv ?m")
    case False
    then show ?thesis using H R(4-6) F by (intro exI [of _ ?m]) simp
  next
    case True
    let ?s = "(?m\<lparr>pendsv := False\<rparr>)\<lparr>xYieldPending := False\<rparr>"
    have "\<not> wakes k t0 \<or> container k (StateItem t0) \<noteq> Some (ReadyList (prio k t0))"
      using delayed_iff [OF kinvD(4) [OF assms(1)]] by (auto simp: wakes_def)
    then have "ready m t0"
      using assms(4) R(3,6) by (simp add: ready_def same_tasks_def)
    then have S: "kinv T ?s" "ready ?s t0" using F(5) by (simp_all add: ready_def)
    note sel = select_correct [OF S]
    have "clock_step k = Some (k_select ?s)"
      using H True F(6) sel(1) by (simp add: xPortPendSVHandler_def vTaskSwitchContext_def)
    moreover have "clock_frame k (k_select ?s)" "xTickCount (k_select ?s) = xTickCount m"
      "xNumOfOverflows (k_select ?s) = xNumOfOverflows m" "container (k_select ?s) = container m"
      using F sel(3) by (auto simp: clock_frame_def)
    ultimately show ?thesis using sel(2) R(4-6) by (intro exI [of _ "k_select ?s"]) simp
  qed
qed

lemma run_ticks_correct:
  assumes "kinv T k" and "pxCurrentTCB k \<noteq> None" and "uxSchedulerSuspended k = 0" and "ready k t0"
  shows "\<exists>k'. run_ticks n k = Some k' \<and> kinv T k' \<and> clock_frame k k'
    \<and> xTickCount k' = xTickCount k + of_nat n
    \<and> xNumOfOverflows k' = xNumOfOverflows k + of_nat ((unat (xTickCount k) + n) div 2 ^ 32)
    \<and> (\<forall>t. container k' (StateItem t) =
         (if delayed k t \<and> remaining k t \<le> n then Some (ReadyList (prio k t)) else container k (StateItem t)))"
  using assms
proof (induction n arbitrary: k)
  case 0
  have "remaining k t = 0 \<Longrightarrow> \<not> delayed k t" for t
    using remaining_pos [OF kinvD(4) [OF 0(1)], of t] by auto
  moreover have "unat (xTickCount k) div 2 ^ 32 = 0" using unat_less_u32 [of "xTickCount k"] by simp
  ultimately show ?case using 0(1,2) by (auto simp: clock_frame_def)
next
  case (Suc n)
  note d = kinvD(4) [OF Suc.prems(1)]
  obtain k1 where R: "clock_step k = Some k1" "kinv T k1" "clock_frame k k1"
      "xTickCount k1 = xTickCount k + 1"
      "xNumOfOverflows k1 = xNumOfOverflows k + (if xTickCount k + 1 = 0 then 1 else 0)"
      "\<And>j. container k1 j = woken_container (wakes k) k j"
    using clock_step_correct [OF Suc.prems] by blast
  have p1: "pxCurrentTCB k1 \<noteq> None" "uxSchedulerSuspended k1 = 0" "item_value k1 = item_value k" "tcbs k1 = tcbs k"
    using R(3) Suc.prems(3) by (simp_all add: clock_frame_def)
  have st: "container k1 (StateItem t) = (if wakes k t then Some (ReadyList (prio k t)) else container k (StateItem t))" for t
    by (simp add: R(6))
  have "ready k1 t0" using Suc.prems(4) by (simp add: ready_def st p1(4))
  from Suc.IH [OF R(2) p1(1,2) this] obtain k' where
    IH: "run_ticks n k1 = Some k'" "kinv T k'" "clock_frame k1 k'" "xTickCount k' = xTickCount k1 + of_nat n"
      "xNumOfOverflows k' = xNumOfOverflows k1 + of_nat ((unat (xTickCount k1) + n) div 2 ^ 32)"
      "\<And>t. container k' (StateItem t) =
         (if delayed k1 t \<and> remaining k1 t \<le> n then Some (ReadyList (prio k1 t)) else container k1 (StateItem t))"
    by blast
  have d1: "delayed k1 t \<longleftrightarrow> delayed k t \<and> \<not> wakes k t" for t
    unfolding delayed_iff [OF kinvD(4) [OF R(2)]] delayed_iff [OF d] st by auto
  have w: "wakes k t \<longleftrightarrow> delayed k t \<and> remaining k t = 1" for t
  proof (cases "delayed k t")
    case True
    have "item_value k (StateItem t) = xTickCount k + 1 \<longleftrightarrow> item_value k (StateItem t) - xTickCount k = 1"
      by (auto simp: algebra_simps)
    then show ?thesis using True unfolding wakes_def remaining_def by (metis unat_1 word_unat_eq_iff)
  qed (simp add: wakes_def)
  have r1: "remaining k1 t = remaining k t - 1" if "delayed k t" for t
    using remaining_tick [OF delayed_not_now [OF d that]] unfolding remaining_def R(4) p1(3) .
  have "container k' (StateItem t) =
      (if delayed k t \<and> remaining k t \<le> Suc n then Some (ReadyList (prio k t)) else container k (StateItem t))" for t
    unfolding IH(6) d1 st w p1(4) using r1 [of t] remaining_pos [OF d, of t] by auto
  moreover have "xNumOfOverflows k' = xNumOfOverflows k + of_nat ((unat (xTickCount k) + Suc n) div 2 ^ 32)"
  proof (cases "xTickCount k + 1 = 0")
    case True
    then have "xTickCount k = - 1" by (simp only: eq_neg_iff_add_eq_0)
    then have "unat (xTickCount k) + Suc n = n + 2 ^ 32" by (simp add: unat_minus_1_u32)
    moreover have "(n + 2 ^ 32) div 2 ^ 32 = Suc (n div 2 ^ 32)" by (subst div_add_self2) simp_all
    ultimately have "of_nat ((unat (xTickCount k) + Suc n) div 2 ^ 32) = (1 + of_nat (n div 2 ^ 32) :: u32)"
      by (simp only: of_nat_Suc)
    then show ?thesis using IH(5) R(4,5) True by (simp only: if_True simp_thms add.assoc unsigned_0 add_0)
  next
    case False
    then have "unat (xTickCount k + 1) = Suc (unat (xTickCount k))" by (metis add.commute unatSuc)
    then show ?thesis using IH(5) R(4,5) False by simp
  qed
  moreover have "clock_frame k k'" using R(3) IH(3) by (simp add: clock_frame_def)
  ultimately show ?case using IH(1,2,4) R(1,4) by (simp add: ac_simps)
qed

section \<open>A delay measured in ticks\<close>

lemma ready_of_container:
  "tcbs k' = tcbs k \<Longrightarrow> container k' (StateItem t) = Some (ReadyList (prio k t)) \<Longrightarrow> ready k' t"
  by (simp add: ready_def)

text \<open>Nothing was deferred while the scheduler was suspended: no pended tick, no pending task.\<close>

definition quiet :: "kernel \<Rightarrow> bool" where
  "quiet k \<longleftrightarrow> uxSchedulerSuspended k = 0 \<and> uxPendedTicks k = 0 \<and> kitems k PendingReadyList = []"

lemma resume_quiet:
  assumes "quiet (k\<lparr>uxSchedulerSuspended := 0\<rparr>)" and "uxSchedulerSuspended k = 1"
  shows "\<exists>b. xTaskResumeAll k = Some (b, if b then portYIELD (k\<lparr>uxSchedulerSuspended := 0\<rparr>) else k\<lparr>uxSchedulerSuspended := 0\<rparr>)"
proof -
  let ?r = "k\<lparr>uxSchedulerSuspended := 0\<rparr>"
  have "pending_ready_loop False ?r = Some (False, ?r)"
    using assms(1) by (subst pending_ready_loop.simps) (simp add: quiet_def)
  then have "xTaskResumeAll k = Some (if uxCurrentNumberOfTasks k > 0 \<and> xYieldPending k then (True, portYIELD ?r) else (False, ?r))"
    using assms by (simp add: xTaskResumeAll_def Let_def quiet_def)
  then show ?thesis by (cases "uxCurrentNumberOfTasks k > 0 \<and> xYieldPending k") auto
qed

lemma portYIELD_twice [simp]: "portYIELD (portYIELD k) = portYIELD k"
  by (simp add: portYIELD_def)

text \<open>The block both delay functions share: the current task sleeps \<open>d\<close> ticks and a switch is requested.\<close>

lemma sleep_quiet:
  assumes "kinv T k" and "pxCurrentTCB k = Some c" and "ready k c" and "quiet k" and "0 < d"
  shows "\<exists>k1 b k2. prvAddCurrentTaskToDelayedList d False (vTaskSuspendAll k) = Some k1
    \<and> xTaskResumeAll k1 = Some (b, k2) \<and> kinv T (yield_unless b k2)
    \<and> pxCurrentTCB (yield_unless b k2) = Some c \<and> uxSchedulerSuspended (yield_unless b k2) = 0
    \<and> pendsv (yield_unless b k2) \<and> delayed (yield_unless b k2) c \<and> remaining (yield_unless b k2) c = unat d
    \<and> xTickCount (yield_unless b k2) = xTickCount k \<and> tcbs (yield_unless b k2) = tcbs k
    \<and> (\<forall>t. t \<noteq> c \<longrightarrow> container (yield_unless b k2) (StateItem t) = container k (StateItem t))"
proof -
  let ?s = "vTaskSuspendAll k"
  have s: "kinv T ?s" "pxCurrentTCB ?s = Some c" "ready ?s c"
    using assms(1-3) by (simp_all add: vTaskSuspendAll_def ready_def)
  let ?k = "k_delay c (xTickCount ?s + d) (k_leave c ?s)"
  have eq: "prvAddCurrentTaskToDelayedList d False ?s = Some ?k"
    using add_current_eq [OF s(2,3), of d False] by simp
  have K: "kinv T ?k" and del: "delayed ?k c" "item_value ?k (StateItem c) = xTickCount k + d"
    using add_current_kinv [OF s assms(5), of False] eq by (auto simp: vTaskSuspendAll_def)
  have "container k i \<noteq> Some PendingReadyList" for i
    using assms(4) ends.items_empty [OF kinvD(1) [OF assms(1)]] by (auto simp: quiet_def)
  then have "container ?k i \<noteq> Some PendingReadyList" for i
    using delay_okD(1) [OF kinvD(4) [OF assms(1)]] by (auto simp: vTaskSuspendAll_def)
  then have "kitems ?k PendingReadyList = []" using ends.items_empty [OF kinvD(1) [OF K]] by blast
  then have q: "quiet (?k\<lparr>uxSchedulerSuspended := 0\<rparr>)" "uxSchedulerSuspended ?k = 1"
    using assms(4) by (simp_all add: quiet_def vTaskSuspendAll_def)
  obtain b where b: "xTaskResumeAll ?k
      = Some (b, if b then portYIELD (?k\<lparr>uxSchedulerSuspended := 0\<rparr>) else ?k\<lparr>uxSchedulerSuspended := 0\<rparr>)"
    using resume_quiet [OF q] by blast
  have y: "yield_unless b (if b then portYIELD (?k\<lparr>uxSchedulerSuspended := 0\<rparr>) else ?k\<lparr>uxSchedulerSuspended := 0\<rparr>)
      = portYIELD (?k\<lparr>uxSchedulerSuspended := 0\<rparr>)"
    by (simp add: yield_unless_def)
  have "delayed (portYIELD (?k\<lparr>uxSchedulerSuspended := 0\<rparr>)) c"
    "remaining (portYIELD (?k\<lparr>uxSchedulerSuspended := 0\<rparr>)) c = unat d"
    using del by (simp_all add: delayed_def remaining_def vTaskSuspendAll_def)
  moreover have "container ?k (StateItem t) = container k (StateItem t)" if "t \<noteq> c" for t
    using that by (simp add: vTaskSuspendAll_def)
  ultimately show ?thesis
    using eq b K assms(2) by (intro exI [of _ ?k] exI [of _ b] exI) (auto simp: y vTaskSuspendAll_def)
qed

lemma vTaskDelay_quiet:
  assumes "kinv T k" and "pxCurrentTCB k = Some c" and "ready k c" and "quiet k" and "0 < d"
  shows "\<exists>k'. vTaskDelay d k = Some k' \<and> kinv T k' \<and> pxCurrentTCB k' = Some c
    \<and> uxSchedulerSuspended k' = 0 \<and> pendsv k' \<and> delayed k' c \<and> remaining k' c = unat d
    \<and> xTickCount k' = xTickCount k \<and> tcbs k' = tcbs k
    \<and> (\<forall>t. t \<noteq> c \<longrightarrow> container k' (StateItem t) = container k (StateItem t))"
proof -
  obtain k1 b k2 where R: "prvAddCurrentTaskToDelayedList d False (vTaskSuspendAll k) = Some k1"
    "xTaskResumeAll k1 = Some (b, k2)" and K: "kinv T (yield_unless b k2)"
    "pxCurrentTCB (yield_unless b k2) = Some c" "uxSchedulerSuspended (yield_unless b k2) = 0"
    "pendsv (yield_unless b k2)" "delayed (yield_unless b k2) c" "remaining (yield_unless b k2) c = unat d"
    "xTickCount (yield_unless b k2) = xTickCount k" "tcbs (yield_unless b k2) = tcbs k"
    "\<forall>t. t \<noteq> c \<longrightarrow> container (yield_unless b k2) (StateItem t) = container k (StateItem t)"
    using sleep_quiet [OF assms] by blast
  have "vTaskDelay d k = Some (yield_unless b k2)" using R assms(5) by (simp add: vTaskDelay_def)
  with K show ?thesis by (intro exI [of _ "yield_unless b k2"]) simp
qed

section \<open>Runs of the context switch\<close>

text \<open>The tasks that become the current one in \<open>n\<close> context switches in a row.\<close>

fun switch_seq :: "nat \<Rightarrow> kernel \<Rightarrow> task list option" where
  "switch_seq 0 k = Some []"
| "switch_seq (Suc n) k =
     Option.bind (vTaskSwitchContext k) (\<lambda>k. Option.bind (pxCurrentTCB k) (\<lambda>c.
       map_option ((#) c) (switch_seq n k)))"

lemma top_prio_select [simp]: "top_prio (k_select k) = top_prio k"
  by (simp add: top_prio_def)

lemma switch_seq_nth:
  assumes "kinv T k" and "ready k t" and "uxSchedulerSuspended k = 0"
    and "xs = kitems k (ReadyList (top_prio k))" and "cursor_at xs (a_index (klists k) (ReadyList (top_prio k))) j"
  shows "switch_seq n k = Some (map (\<lambda>i. item_task (xs ! ((Suc j + i) mod length xs))) [0..<n])"
  using assms
proof (induction n arbitrary: k j)
  case 0
  then show ?case by simp
next
  case (Suc n)
  let ?s = "k\<lparr>xYieldPending := False\<rparr>" and ?l = "ReadyList (top_prio k)"
  have S: "kinv T ?s" "ready ?s t" using Suc.prems(1,2) by simp_all
  have ne: "xs \<noteq> []" using top_prio_ready(1) [OF Suc.prems(1,2)] Suc.prems(4) by simp
  have di: "distinct xs" using ends.distinct_items [OF kinvD(1) [OF Suc.prems(1)]] Suc.prems(4) by simp
  have top: "top_prio ?s = top_prio k" by (simp add: top_prio_def)
  note sel = select_correct [OF S, unfolded top]
  have su: "succ_item (a_index (klists k) ?l) xs = Some (xs ! (Suc j mod length xs))"
    by (rule succ_item_nth [OF di ne Suc.prems(5)])
  obtain c where c: "pxCurrentTCB (k_select ?s) = Some c" "xs ! (Suc j mod length xs) = StateItem c"
    using sel(3) su Suc.prems(4) by auto
  have idx: "a_index (klists (k_select ?s)) ?l = Some (xs ! (Suc j mod length xs))"
    using su Suc.prems(4) by (simp add: k_select_def top a_next_def)
  have cur: "cursor_at xs (a_index (klists (k_select ?s)) ?l) (Suc j mod length xs)"
    unfolding idx using ne by (simp add: cursor_at_def)
  have "top_prio (k_select ?s) = top_prio k" by (simp add: top)
  then have IH: "switch_seq n (k_select ?s)
      = Some (map (\<lambda>i. item_task (xs ! ((Suc (Suc j mod length xs) + i) mod length xs))) [0..<n])"
    using Suc.IH [OF sel(2), of "Suc j mod length xs"] S(2) Suc.prems(3,4) cur by simp
  have m: "(Suc (x mod y) + i) mod y = (Suc x + i) mod y" for x y i :: nat
    by (metis add_Suc_shift mod_add_left_eq)
  have "vTaskSwitchContext k = Some (k_select ?s)"
    using Suc.prems(3) sel(1) by (simp add: vTaskSwitchContext_def)
  then have "switch_seq (Suc n) k = Some (c # map (\<lambda>i. item_task (xs ! ((Suc (Suc j) + i) mod length xs))) [0..<n])"
    using c(1) IH by (simp add: m del: add_Suc)
  moreover have "c = item_task (xs ! ((Suc j + 0) mod length xs))" using c(2) by simp
  moreover have "map (\<lambda>i. item_task (xs ! ((Suc j + i) mod length xs))) [0..<Suc n]
      = item_task (xs ! ((Suc j + 0) mod length xs))
        # map (\<lambda>i. item_task (xs ! ((Suc (Suc j) + i) mod length xs))) [0..<n]"
    by (simp add: upt_conv_Cons map_Suc_upt [symmetric] del: upt_Suc)
  ultimately show ?case by simp
qed

lemma switch_seq_rounds:
  assumes "kinv T k" and "ready k t" and "uxSchedulerSuspended k = 0"
  shows "\<exists>ts. switch_seq (r * length ts) k = Some (concat (replicate r ts)) \<and> distinct ts
    \<and> set ts = {t. ready k t \<and> (\<forall>u. ready k u \<longrightarrow> prio k u \<le> prio k t)}"
proof -
  let ?l = "ReadyList (top_prio k)"
  define xs where "xs = kitems k ?l"
  have ne: "xs \<noteq> []" using top_prio_ready(1) [OF assms(1,2)] by (simp add: xs_def)
  have wf: "wf_store (klists k)" by (rule kinvD(1) [OF assms(1)])
  have di: "distinct xs" using ends.distinct_items [OF wf] by (simp add: xs_def)
  have idx: "\<And>i. a_index (klists k) ?l = Some i \<Longrightarrow> i \<in> set xs"
    using wf unfolding wf_astore_def xs_def by blast
  obtain j where j: "cursor_at xs (a_index (klists k) ?l) j"
    using cursor_exists [OF ne idx] by blast
  define ys where "ys = rotate (Suc j) xs"
  have ys: "length ys = length xs" "xs ! ((Suc j + i) mod length xs) = ys ! (i mod length ys)" for i
    using ne nth_rotate [of "i mod length xs" xs "Suc j"]
    by (simp_all add: ys_def mod_add_right_eq del: add_Suc rotate_Suc)
  have "switch_seq (r * length xs) k = Some (map (\<lambda>i. item_task (ys ! (i mod length ys))) [0..<r * length ys])"
    using switch_seq_nth [OF assms xs_def j, of "r * length xs"] ys by simp
  then have "switch_seq (r * length (map item_task ys)) k = Some (concat (replicate r (map item_task ys)))"
    using ys(1) map_nth_rounds [of item_task ys r] by simp
  moreover have mem: "i \<in> set xs \<longleftrightarrow> container k i = Some ?l" for i
    using kinvD(12) [OF assms(1)] by (simp add: xs_def)
  have st: "\<exists>t. i = StateItem t" if "i \<in> set xs" for i
    using ready_items_state [OF assms(1)] that mem [of i] by blast
  have "inj_on item_task (set xs)"
  proof (rule inj_onI)
    fix i j assume "i \<in> set xs" "j \<in> set xs" "item_task i = item_task j"
    with st [of i] st [of j] show "i = j" by auto
  qed
  then have "distinct (map item_task ys)" using di by (simp add: distinct_map ys_def)
  moreover have "set (map item_task ys) = {t. ready k t \<and> (\<forall>u. ready k u \<longrightarrow> prio k u \<le> prio k t)}"
  proof -
    have "item_task ` set xs = {t. container k (StateItem t) = Some ?l}"
    proof (intro equalityI subsetI)
      fix t assume "t \<in> item_task ` set xs"
      then obtain i where i: "i \<in> set xs" "t = item_task i" by blast
      with st [OF i(1)] mem [of i] show "t \<in> {t. container k (StateItem t) = Some ?l}" by auto
    next
      fix t assume "t \<in> {t. container k (StateItem t) = Some ?l}"
      then have "StateItem t \<in> set xs" by (simp add: mem)
      then show "t \<in> item_task ` set xs" by (metis imageI item_task.simps(1))
    qed
    also have "\<dots> = {t. ready k t \<and> prio k t = top_prio k}"
      using ready_container [OF assms(1)] by auto
    also have "\<dots> = {t. ready k t \<and> (\<forall>u. ready k u \<longrightarrow> prio k u \<le> prio k t)}"
    proof -
      obtain i where "i \<in> set xs" using ne by (cases xs) auto
      with st [OF this] mem [of i] obtain v where "container k (StateItem v) = Some ?l" by auto
      then have v: "ready k v" "prio k v = top_prio k" by (simp_all add: ready_container [OF assms(1)])
      show ?thesis
      proof (intro Collect_cong conj_cong refl iffI allI impI)
        fix t u assume "ready k t" "prio k t = top_prio k" "ready k u"
        then show "prio k u \<le> prio k t" using top_prio_ready(3) [OF assms(1,2)] by simp
      next
        fix t assume "ready k t" "\<forall>u. ready k u \<longrightarrow> prio k u \<le> prio k t"
        with v have "top_prio k \<le> prio k t" by metis
        with \<open>ready k t\<close> show "prio k t = top_prio k"
          using top_prio_ready(3) [OF assms(1,2)] by (simp add: order.antisym)
      qed
    qed
    finally show ?thesis by (simp add: ys_def)
  qed
  ultimately show ?thesis by blast
qed

end
