(* ===== verification/Kernel_Properties.thy ===== *)
theory Kernel_Properties
  imports Kernel_Demo Kernel_Time
begin

text \<open>
  The properties of the scheduler: what holds in every state that the calls of
  \<open>Kernel_System\<close> can reach, how long a delay lasts, in which order equal tasks run, and
  what priority inheritance and notifications guarantee.
\<close>

section \<open>Every reachable state\<close>







section \<open>Which task runs\<close>

text \<open>
  The context switch picks a ready task of the highest priority: from every reachable
  state with the scheduler not suspended, \<open>xPortPendSVHandler\<close> returns with a ready task
  as the current one, no ready task above it, no switch left pending, and every task still
  on the list it was on.
\<close>

theorem context_switch_picks_highest:
  assumes "reach idle k" and "uxSchedulerSuspended k = 0"
  shows "\<exists>k' c. xPortPendSVHandler k = Some k' \<and> pxCurrentTCB k' = Some c \<and> ready k' c
    \<and> (\<forall>u. ready k' u \<longrightarrow> prio k' u \<le> prio k' c) \<and> \<not> pendsv k' \<and> \<not> xYieldPending k'
    \<and> container k' = container k"
proof -
  obtain T where I: "sinv idle T k" using reach_safe [OF assms(1)] by (auto simp: safe_def)
  let ?s = "(k\<lparr>pendsv := False\<rparr>)\<lparr>xYieldPending := False\<rparr>"
  have S: "kinv T ?s" "ready ?s idle"
    using sinvD(3) [OF I] sinv0D(3) [OF sinvD(1,4)] I by (auto simp: ready_def)
  note sel = select_correct [OF S]
  have "xPortPendSVHandler k = Some (k_select ?s)"
    using assms(2) sel(1) by (simp add: xPortPendSVHandler_def vTaskSwitchContext_def)
  moreover have "container (k_select ?s) = container k" "tcbs (k_select ?s) = tcbs k"
    "\<not> pendsv (k_select ?s)" "\<not> xYieldPending (k_select ?s)" by auto
  ultimately show ?thesis using sel(3) by (auto simp: ready_def)
qed

theorem context_switch_picks_highest_witness:
  "\<exists>k' c. xPortPendSVHandler demo = Some k' \<and> pxCurrentTCB k' = Some c \<and> ready k' c
    \<and> (\<forall>u. ready k' u \<longrightarrow> prio k' u \<le> prio k' c)"
  using context_switch_picks_highest [OF demo_reach demo_state(4)] by blast

text \<open>
  C5. Time slicing is fair among equals: \<open>r\<close> rounds of context switches serve the ready
  tasks of the highest priority in a fixed cyclic order, each of them exactly \<open>r\<close> times.
\<close>

theorem equal_priority_round_robin:
  assumes "reach idle k" and "uxSchedulerSuspended k = 0"
  shows "\<exists>ts. ts \<noteq> [] \<and> distinct ts
    \<and> set ts = {t. ready k t \<and> (\<forall>u. ready k u \<longrightarrow> prio k u \<le> prio k t)}
    \<and> switch_seq (r * length ts) k = Some (concat (replicate r ts))"
proof -
  obtain T where I: "sinv idle T k" using reach_safe [OF assms(1)] by (auto simp: safe_def)
  have R: "ready k idle" using sinv0D(3) [OF sinvD(1,4)] I by blast
  obtain ts where ts: "switch_seq (r * length ts) k = Some (concat (replicate r ts))" "distinct ts"
    "set ts = {t. ready k t \<and> (\<forall>u. ready k u \<longrightarrow> prio k u \<le> prio k t)}"
    using switch_seq_rounds [OF sinvD(3) [OF I] R assms(2), of r] by blast
  obtain c where "ready k c" "\<forall>u. ready k u \<longrightarrow> prio k u \<le> prio k c"
    using select_correct(3) [OF sinvD(3) [OF I] R] by blast
  then have "c \<in> set ts" by (simp add: ts(3))
  with ts show ?thesis by (intro exI [of _ ts]) auto
qed

theorem equal_priority_round_robin_witness:
  "(\<exists>ts. ts \<noteq> [] \<and> switch_seq (3 * length ts) demo = Some (concat (replicate 3 ts)))
    \<and> switch_seq 4 demo = Some [4, 2, 4, 2]"
proof -
  have "switch_seq 4 demo = Some [4, 2, 4, 2]" by code_simp
  then show ?thesis using equal_priority_round_robin [OF demo_reach demo_state(4), of 3] by blast
qed

section \<open>Time\<close>

text \<open>
  C6. The tick: \<open>xTaskIncrementTick\<close> advances the 32-bit count by one, counts an overflow
  exactly when it wraps to zero, makes ready exactly the delayed tasks whose wake time is the
  new count (their event items leave the lists they wait on) and moves nothing else; it asks
  for a switch exactly when one was pending, the current priority has another ready task, or
  a task it woke has at least the current priority.
\<close>

theorem tick_wakes_exactly_due:
  assumes "reach idle k" and "pxCurrentTCB k = Some c" and "uxSchedulerSuspended k = 0"
  shows "\<exists>sw k'. xTaskIncrementTick k = Some (sw, k') \<and> xTickCount k' = xTickCount k + 1
    \<and> xNumOfOverflows k' = xNumOfOverflows k + (if xTickCount k + 1 = 0 then 1 else 0)
    \<and> (\<forall>t. container k' (StateItem t) = (if wakes k t then Some (ReadyList (prio k t)) else container k (StateItem t))
          \<and> container k' (EventItem t) = (if wakes k t then None else container k (EventItem t)))
    \<and> (sw \<longleftrightarrow> xYieldPending k \<or> length (kitems k' (ReadyList (prio k c))) > 1
         \<or> (\<exists>t. wakes k t \<and> prio k c \<le> prio k t))"
proof -
  obtain T where "sinv idle T k" using reach_safe [OF assms(1)] by (auto simp: safe_def)
  then have I: "kinv T k" by (rule sinvD(3))
  obtain sw k' where R: "xTaskIncrementTick k = Some (sw, k')" "xTickCount k' = xTickCount k + 1"
    "xNumOfOverflows k' = xNumOfOverflows k + (if xTickCount k + 1 = 0 then 1 else 0)"
    "\<forall>j. container k' j = woken_container (wakes k) k j"
    "sw \<longleftrightarrow> xYieldPending k \<or> length (kitems k' (ReadyList (prio k c))) > 1
         \<or> (\<exists>t. wakes k t \<and> prio k c \<le> prio k t)"
    using tick_correct [OF I assms(2,3)] by blast
  show ?thesis by (intro exI [of _ sw] exI [of _ k']) (use R in simp)
qed

theorem tick_wakes_exactly_due_witness:
  "\<exists>sw k'. xTaskIncrementTick demo = Some (sw, k') \<and> xTickCount k' = 1"
  using tick_wakes_exactly_due [OF demo_reach demo_cur demo_state(4)] demo_state(8) by auto

lemma reach_kinv:
  assumes "reach idle k"
  obtains T where "kinv T k" and "ready k idle"
proof -
  obtain T where I: "sinv idle T k" using reach_safe [OF assms] by (auto simp: safe_def)
  then show ?thesis using that sinvD(3) [OF I] sinv0D(3) [OF sinvD(1,4)] by blast
qed

text \<open>
  C7. A delay is exact: when a task calls \<open>vTaskDelay d\<close>, then after any number \<open>n\<close> of ticks
  (with the context switches they cause) it is ready if and only if \<open>d\<close> ticks have passed,
  also when the tick count wraps in between.
\<close>

theorem delay_lasts_exactly:
  assumes "reach idle k" and "pxCurrentTCB k = Some c" and "ready k c" and "c \<noteq> idle"
    and "quiet k" and "0 < d"
  shows "\<exists>k1 k2. vTaskDelay d k = Some k1 \<and> run_ticks n k1 = Some k2
    \<and> (ready k2 c \<longleftrightarrow> unat d \<le> n) \<and> xTickCount k2 = xTickCount k + of_nat n"
proof -
  obtain T where I: "kinv T k" "ready k idle" by (rule reach_kinv [OF assms(1)])
  obtain k1 where D: "vTaskDelay d k = Some k1" "kinv T k1" "pxCurrentTCB k1 = Some c"
    "uxSchedulerSuspended k1 = 0" "delayed k1 c" "remaining k1 c = unat d" "xTickCount k1 = xTickCount k"
    "tcbs k1 = tcbs k" "\<forall>t. t \<noteq> c \<longrightarrow> container k1 (StateItem t) = container k (StateItem t)"
    using vTaskDelay_quiet [OF I(1) assms(2,3,5,6)] by blast
  have "ready k1 idle" using I(2) D(8,9) assms(4) by (simp add: ready_def)
  from run_ticks_correct [OF D(2) _ D(4) this, of n] D(3) obtain k2 where
    R: "run_ticks n k1 = Some k2" "tcbs k2 = tcbs k1" "xTickCount k2 = xTickCount k1 + of_nat n"
      "container k2 (StateItem c) = (if delayed k1 c \<and> remaining k1 c \<le> n then Some (ReadyList (prio k1 c))
        else container k1 (StateItem c))" by (auto simp: clock_frame_def)
  have "\<not> ready k1 c" using D(5) delayed_iff [OF kinvD(4) [OF D(2)]] by (auto simp: ready_def)
  then have "ready k2 c \<longleftrightarrow> unat d \<le> n" using R(2,4) D(5,6) by (simp add: ready_def)
  with D(1,7) R(1,3) show ?thesis by auto
qed

theorem delay_lasts_exactly_witness:
  "\<exists>k1 k2. vTaskDelay 3 demo = Some k1 \<and> run_ticks 2 k1 = Some k2 \<and> \<not> ready k2 2"
  using delay_lasts_exactly [OF demo_reach demo_cur, of 3 2] demo_ready_tasks(1) demo_state(4-6)
  by (auto simp: quiet_def)

text \<open>
  The test in \<open>vTaskDelayUntil\<close> decides rightly across every wrap of the tick count: with
  the last wake time \<open>p\<close>, a period \<open>inc\<close> and \<open>e\<close> ticks elapsed, it delays exactly when \<open>e < inc\<close>.
\<close>

theorem should_delay_until_correct: "should_delay_until (p + e) p (p + inc) \<longleftrightarrow> e < inc"
proof -
  have un: "unat (p + x) = (if unat p + unat x < 2 ^ 32 then unat p + unat x else unat p + unat x - 2 ^ 32)" for x
  proof (cases "unat p + unat x < 2 ^ 32")
    case False
    have "(unat p + unat x) mod 2 ^ 32 = unat p + unat x - 2 ^ 32"
      using False unat_less_u32 [of p] unat_less_u32 [of x] by (subst le_mod_geq) (simp_all del: power_numeral)
    then show ?thesis using False by (simp add: unat_word_ariths)
  qed (simp add: unat_add_u32)
  show ?thesis
    using un [of e] un [of inc] unat_less_u32 [of p] unat_less_u32 [of e] unat_less_u32 [of inc]
    by (auto simp: should_delay_until_def word_less_nat_alt split: if_splits)
qed

text \<open>
  Periodic release: called \<open>e\<close> ticks after the last wake time \<open>p\<close>, within the period,
  \<open>vTaskDelayUntil\<close> stores \<open>p + inc\<close> and the task is ready again exactly when the tick count
  has advanced to \<open>p + inc\<close>, however late in the period the call was: the period has no drift.
\<close>

theorem delay_until_periodic:
  assumes "reach idle k" and "pxCurrentTCB k = Some c" and "ready k c" and "c \<noteq> idle"
    and "quiet k" and "xTickCount k = p + e" and "e < inc"
  shows "\<exists>k1 k2. vTaskDelayUntil p inc k = Some (p + inc, k1) \<and> run_ticks n k1 = Some k2
    \<and> (ready k2 c \<longleftrightarrow> unat (inc - e) \<le> n) \<and> (n = unat (inc - e) \<longrightarrow> xTickCount k2 = p + inc)"
proof -
  obtain T where I: "kinv T k" "ready k idle" by (rule reach_kinv [OF assms(1)])
  have d: "0 < inc - e" using assms(7) by (metis less_irrefl right_minus_eq word_neq_0_conv)
  obtain k1 b k2 where S: "prvAddCurrentTaskToDelayedList (inc - e) False (vTaskSuspendAll k) = Some k1"
    "xTaskResumeAll k1 = Some (b, k2)" and K: "kinv T (yield_unless b k2)"
    "pxCurrentTCB (yield_unless b k2) = Some c" "uxSchedulerSuspended (yield_unless b k2) = 0"
    "delayed (yield_unless b k2) c" "remaining (yield_unless b k2) c = unat (inc - e)"
    "xTickCount (yield_unless b k2) = xTickCount k" "tcbs (yield_unless b k2) = tcbs k"
    "\<forall>t. t \<noteq> c \<longrightarrow> container (yield_unless b k2) (StateItem t) = container k (StateItem t)"
    using sleep_quiet [OF I(1) assms(2,3,5) d] by blast
  let ?k = "yield_unless b k2"
  have "xTickCount (vTaskSuspendAll k) = p + e" using assms(6) by (simp add: vTaskSuspendAll_def)
  then have E: "vTaskDelayUntil p inc k = Some (p + inc, ?k)"
    using S assms(7) by (simp add: vTaskDelayUntil_def should_delay_until_correct)
  have "ready ?k idle" using I(2) K(7,8) assms(4) by (simp add: ready_def)
  from run_ticks_correct [OF K(1) _ K(3) this, of n] K(2) obtain k3 where
    R: "run_ticks n ?k = Some k3" "tcbs k3 = tcbs ?k" "xTickCount k3 = xTickCount ?k + of_nat n"
      "container k3 (StateItem c) = (if delayed ?k c \<and> remaining ?k c \<le> n then Some (ReadyList (prio ?k c))
        else container ?k (StateItem c))" by (auto simp: clock_frame_def)
  have "\<not> ready ?k c" using K(4) delayed_iff [OF kinvD(4) [OF K(1)]] by (auto simp: ready_def)
  then have "ready k3 c \<longleftrightarrow> unat (inc - e) \<le> n" using R(2,4) K(4,5) by (simp add: ready_def)
  moreover have "n = unat (inc - e) \<longrightarrow> xTickCount k3 = p + inc"
    using R(3) K(6) assms(6) by (simp del: unat_sub)
  ultimately show ?thesis using E R(1) by blast
qed

theorem delay_until_periodic_witness:
  "\<exists>k1 k2. vTaskDelayUntil (- 2) 5 demo = Some (3, k1) \<and> run_ticks 3 k1 = Some k2 \<and> ready k2 2 \<and> xTickCount k2 = 3"
proof -
  have "unat (5 - 2 :: u32) = 3" by simp
  then show ?thesis
    using delay_until_periodic [OF demo_reach demo_cur, of "- 2" 2 5 3] demo_ready_tasks(1) demo_state(4-6,8)
    by (auto simp: quiet_def)
qed

text \<open>
  C8. Time-outs are exact: a time-out recorded by \<open>vTaskInternalSetTimeOutState\<close> and checked
  \<open>n\<close> ticks later expires exactly when the \<open>w\<close> ticks to wait have passed, also across a wrap of
  the tick count; otherwise the ticks left are written back. This holds for every \<open>n\<close> below
  \<open>2^32\<close> (about 49 days), and a wait of \<open>portMAX_DELAY\<close> never expires.
\<close>

theorem time_out_exact:
  assumes "reach idle k" and "uxSchedulerSuspended k = 0" and "n < 2 ^ 32"
  shows "\<exists>k'. run_ticks n k = Some k'
    \<and> (let (expired, st, left) = xTaskCheckForTimeOut (vTaskInternalSetTimeOutState k) w k' in
        (expired \<longleftrightarrow> w \<noteq> portMAX_DELAY \<and> unat w \<le> n)
        \<and> (w \<noteq> portMAX_DELAY \<and> n < unat w \<longrightarrow> unat left = unat w - n \<and> st = vTaskInternalSetTimeOutState k')
        \<and> (expired \<longrightarrow> left = 0))"
proof -
  obtain T where I: "kinv T k" "ready k idle" by (rule reach_kinv [OF assms(1)])
  have "pxCurrentTCB k \<noteq> None" using reach_safe [OF assms(1)] sinv0D(2) [OF sinvD(1)] unfolding safe_def by fastforce
  from run_ticks_correct [OF I(1) this assms(2) I(2), of n] obtain k' where
    R: "run_ticks n k = Some k'" "xTickCount k' = xTickCount k + of_nat n"
      "xNumOfOverflows k' = xNumOfOverflows k + of_nat ((unat (xTickCount k) + n) div 2 ^ 32)" by blast
  let ?c = "xTickCount k"
  have el: "xTickCount k' - ?c = of_nat n" and un: "unat (of_nat n :: u32) = n"
    using R(2) unat_of_nat_u32 [OF assms(3)] by simp_all
  have wrap: "xTickCount k' < ?c" if "xNumOfOverflows k' \<noteq> xNumOfOverflows k"
  proof -
    have "2 ^ 32 \<le> unat ?c + n" using that R(3) by (cases "unat ?c + n < 2 ^ 32") simp_all
    then have "(unat ?c + n) mod 2 ^ 32 = unat ?c + n - 2 ^ 32"
      using unat_less_u32 [of ?c] assms(3) by (subst le_mod_geq) (simp_all del: power_numeral)
    then have "unat (xTickCount k') = unat ?c + n - 2 ^ 32"
      using R(2) un by (simp add: unat_word_ariths)
    then show ?thesis using \<open>2 ^ 32 \<le> unat ?c + n\<close> assms(3) unat_less_u32 [of ?c]
      by (simp add: word_less_nat_alt)
  qed
  have lt: "of_nat n < w \<longleftrightarrow> n < unat w" by (simp add: word_less_nat_alt un)
  have sub: "unat (w - of_nat n) = unat w - n" if "n < unat w"
    using that un by (subst unat_sub_u32) (simp_all add: word_le_nat_alt)
  show ?thesis
    using R(1) el lt sub wrap by (intro exI [of _ k'])
      (auto simp: xTaskCheckForTimeOut_def vTaskInternalSetTimeOutState_def Let_def not_less)
qed

theorem time_out_exact_witness:
  "\<exists>k'. run_ticks 3 demo = Some k' \<and> fst (xTaskCheckForTimeOut (vTaskInternalSetTimeOutState demo) 3 k')"
  using time_out_exact [OF demo_reach demo_state(4), of 3 3]
  by (auto simp: case_prod_beta portMAX_DELAY_def)

section \<open>Priority inheritance\<close>

lemma reach_sinv:
  assumes "reach idle k"
  obtains T where "sinv idle T k"
  using reach_safe [OF assms] by (auto simp: safe_def)

text \<open>
  C9. Inheritance: when the current task \<open>c\<close> blocks on a mutex held by \<open>h\<close>, then
  \<open>xTaskPriorityInherit\<close> raises \<open>h\<close> to the higher of the two priorities and no further,
  keeps its base priority and whether it is ready, and touches no other task's priority; its
  result tells whether the holder now runs above its base or has a base below the waiter's
  priority. So a ready holder is never below a task it blocks.
\<close>

theorem inherit_raises_holder:
  assumes "reach idle k" and "pxCurrentTCB k = Some c" and "alive k h"
  shows "\<exists>b k'. xTaskPriorityInherit (Some h) k = Some (b, k') \<and> reach idle k'
    \<and> prio k' h = max (prio k h) (prio k c) \<and> (\<forall>u. u \<noteq> h \<longrightarrow> prio k' u = prio k u)
    \<and> (\<forall>u. tcb_uxBasePriority (tcbs k' u) = tcb_uxBasePriority (tcbs k u))
    \<and> (\<forall>u. ready k' u = ready k u)
    \<and> (b \<longleftrightarrow> prio k h < prio k c \<or> tcb_uxBasePriority (tcbs k h) < prio k c)"
proof -
  obtain T where "sinv idle T k" by (rule reach_sinv [OF assms(1)])
  then have I: "kinv T k" by (rule sinvD(3))
  note eq = xTaskPriorityInherit_eq [OF I assms(2), of h]
  have step: "reach idle k'" if "xTaskPriorityInherit (Some h) k = Some (b, k')" for b k'
    by (rule reach.step [OF assms(1), of "Inherit h"]) (use that assms(3) in \<open>simp_all add: kguard_defs\<close>)
  show ?thesis
  proof (cases "prio k h < prio k c")
    case True
    let ?k = "k_inherit h (prio k c) (set_event_priority h (prio k c) k)"
    have "ready ?k u = ready k u" for u
      using ready_inherit [OF kinv_set_event_priority [OF I]] by (cases "u = h") (simp_all add: ready_def)
    then show ?thesis using True eq step by (intro exI [of _ True] exI [of _ ?k]) (simp add: max_def less_imp_le)
  next
    case False
    then show ?thesis using eq assms(1)
      by (intro exI [of _ "tcb_uxBasePriority (tcbs k h) < prio k c"] exI [of _ k]) (auto simp: max_def not_less)
  qed
qed

lemma demo_alive: "alive demo 3"
  by (simp add: alive_def demo_state)

theorem inherit_raises_holder_witness:
  "\<exists>b k'. xTaskPriorityInherit (Some 3) demo = Some (b, k') \<and> prio k' 3 = 2 \<and> ready k' 3"
  using inherit_raises_holder [OF demo_reach demo_cur demo_alive] demo_ready_tasks(3)
  by (auto simp: demo_prio)

text \<open>
  Disinheritance: when the running holder gives its last mutex while it runs at an
  inherited priority, \<open>xTaskPriorityDisinherit\<close> puts it back at its base priority on the ready
  list of that priority and reports that a yield is needed; while it holds other mutexes or
  inherits nothing, only the count of held mutexes goes down.
\<close>

theorem disinherit_restores_base:
  assumes "reach idle k" and "pxCurrentTCB k = Some h" and "ready k h"
  shows "\<exists>b k'. xTaskPriorityDisinherit (Some h) k = Some (b, k')
    \<and> (b \<longleftrightarrow> prio k h \<noteq> tcb_uxBasePriority (tcbs k h) \<and> tcb_uxMutexesHeld (tcbs k h) = 1)
    \<and> prio k' h = (if b then tcb_uxBasePriority (tcbs k h) else prio k h) \<and> ready k' h
    \<and> tcb_uxMutexesHeld (tcbs k' h) = tcb_uxMutexesHeld (tcbs k h) - 1
    \<and> (\<forall>u. u \<noteq> h \<longrightarrow> prio k' u = prio k u \<and> ready k' u = ready k u)"
proof -
  obtain T where "sinv idle T k" by (rule reach_sinv [OF assms(1)])
  then have I: "kinv T k" by (rule sinvD(3))
  let ?m = "upd_tcb h (tcb_uxMutexesHeld_update (\<lambda>n. n - 1)) k" and ?b = "tcb_uxBasePriority (tcbs k h)"
  have M: "kinv T ?m" by (rule kinv_upd_tcb [OF I]) simp
  have one: "tcb_uxMutexesHeld (tcbs k h) - 1 = 0 \<longleftrightarrow> tcb_uxMutexesHeld (tcbs k h) = 1" by simp
  show ?thesis
  proof (cases "prio k h \<noteq> ?b \<and> tcb_uxMutexesHeld (tcbs k h) = 1")
    case True
    let ?v = "upd_tcb h (tcb_uxPriority_update (\<lambda>_. ?b)) (k_leave h ?m)"
    let ?k = "prvAddTaskToReadyList h (k_set_value (EventItem h) (configMAX_PRIORITIES - ?b) ?v)"
    have l: "container ?m (StateItem h) = Some (ReadyList (prio k h))" using assms(3) by (simp add: ready_def)
    have eq: "xTaskPriorityDisinherit (Some h) k = Some (True, ?k)"
      unfolding xTaskPriorityDisinherit_def option.case Let_def
      using True l leave_reset [OF M l] by (simp add: k_remove_unlist cong: if_cong)
    have "tcbs ?k h = (tcbs k h)\<lparr>tcb_uxMutexesHeld := 0, tcb_uxPriority := ?b\<rparr>" using True by simp
    then show ?thesis using eq True by (intro exI [of _ True] exI [of _ ?k]) (simp add: ready_def)
  next
    case False
    have "xTaskPriorityDisinherit (Some h) k = Some (False, ?m)"
      unfolding xTaskPriorityDisinherit_def option.case Let_def using False one by auto
    with False assms(3) show ?thesis by (intro exI [of _ False] exI [of _ ?m]) (simp add: ready_def)
  qed
qed

theorem disinherit_restores_base_witness:
  "\<exists>b k'. xTaskPriorityDisinherit (Some 2) demo = Some (b, k') \<and> ready k' 2 \<and> prio k' 2 = 2"
proof -
  have "tcb_uxBasePriority (tcbs demo 2) = 2" by code_simp
  then show ?thesis
    using disinherit_restores_base [OF demo_reach demo_cur demo_ready_tasks(1)] by (auto simp: demo_prio)
qed

section \<open>Deletion\<close>

text \<open>With no tick and no task pending, the sections of the allocator at most request a switch.\<close>

lemma heap_section_quiet:
  assumes "quiet k"
  shows "heap_section k = Some k \<or> heap_section k = Some (portYIELD k)"
proof -
  have "(vTaskSuspendAll k)\<lparr>uxSchedulerSuspended := 0\<rparr> = k" "uxSchedulerSuspended (vTaskSuspendAll k) = 1"
    using assms by (simp_all add: vTaskSuspendAll_def quiet_def)
  with resume_quiet [of "vTaskSuspendAll k"] assms obtain b where
    "xTaskResumeAll (vTaskSuspendAll k) = Some (b, if b then portYIELD k else k)" by metis
  then show ?thesis by (simp add: heap_section_def)
qed

lemma delete_tcb_quiet:
  assumes "quiet k"
  obtains j where "prvDeleteTCB t k = Some (j\<lparr>freed_tcbs := t # freed_tcbs k\<rparr>)" and "j = k \<or> j = portYIELD k"
proof -
  have "heap_section (portYIELD k) = Some (portYIELD k)"
    using heap_section_quiet [OF assms] by (auto simp: pend_simps)
  then have "Option.bind (heap_section k) heap_section \<in> {Some k, Some (portYIELD k)}"
    using heap_section_quiet [OF assms] by (elim disjE) simp_all
  then obtain j where j: "Option.bind (heap_section k) heap_section = Some j" "j = k \<or> j = portYIELD k" by blast
  moreover have "freed_tcbs j = freed_tcbs k" using j(2) by (elim disjE) (simp_all add: pend_simps)
  moreover have "prvDeleteTCB t k = map_option (\<lambda>k. k\<lparr>freed_tcbs := t # freed_tcbs k\<rparr>) (Option.bind (heap_section k) heap_section)"
    by (simp add: prvDeleteTCB_def pend_binds map_conv_bind_option o_def)
  ultimately show ?thesis using that [of j] by simp
qed

lemma clean_up_loop_frees:
  assumes "quiet k" and "kinv T k" and "length (kitems k TasksWaitingTermination) = n" and "clean_up_loop n k = Some k'"
  shows "freed_tcbs k' = rev (map item_task (kitems k TasksWaitingTermination)) @ freed_tcbs k
    \<and> (\<forall>i. container k' i = (if container k i = Some TasksWaitingTermination then None else container k i))"
  using assms
proof (induction n arbitrary: k)
  case 0
  then have "container k i \<noteq> Some TasksWaitingTermination" for i using kinvD(12) [OF 0(2)] by fastforce
  with 0 show ?case by auto
next
  case (Suc n)
  obtain i js where ij: "kitems k TasksWaitingTermination = i # js"
    using Suc.prems(3) by (cases "kitems k TasksWaitingTermination") auto
  then have ci: "container k i = Some TasksWaitingTermination" using kinvD(12) [OF Suc.prems(2)] by simp
  then obtain t where t: "i = StateItem t" using kinvD(7) [OF Suc.prems(2) ci] by (cases i) auto
  have "t \<in> T" using kinvD(7) [OF Suc.prems(2) ci] t by simp
  then have own: "a_owner (klists k) i = t" using kinvD(8) [OF Suc.prems(2)] t by simp
  let ?u = "k_unlist i k"
  let ?d = "?u\<lparr>uxCurrentNumberOfTasks := uxCurrentNumberOfTasks ?u - 1,
              uxDeletedTasksWaitingCleanUp := uxDeletedTasksWaitingCleanUp ?u - 1\<rparr>"
  have u: "klists ?d = klists ?u" "freed_tcbs ?d = freed_tcbs k" by (simp_all add: k_unlist_def)
  have "quiet ?d" using Suc.prems(1) ci by (simp add: quiet_def k_unlist_def a_remove_def)
  then obtain d where d: "prvDeleteTCB t ?d = Some (d\<lparr>freed_tcbs := t # freed_tcbs ?d\<rparr>)" "d = ?d \<or> d = portYIELD ?d"
    by (rule delete_tcb_quiet)
  define k1 where "k1 = d\<lparr>freed_tcbs := t # freed_tcbs ?d\<rparr>"
  have "k_leave t k = ?u" using leave_not_ready [OF Suc.prems(2), of t] ci t by simp
  then have "kinv T ?d" using kinv_leave [OF Suc.prems(2), of t] by simp
  then have K: "kinv T k1" "klists k1 = klists ?u" "freed_tcbs k1 = t # freed_tcbs k" "quiet k1"
    using d(2) u \<open>quiet ?d\<close> by (auto simp: k1_def quiet_def)
  have js: "kitems k1 TasksWaitingTermination = js"
    using ij ci by (simp add: K(2) k_unlist_def a_remove_def)
  have "clean_up_loop n k1 = Some k'"
    using Suc.prems(4) own ij ci t d(1) by (simp add: k_head_owner_def k_remove_unlist k1_def)
  from Suc.IH [OF K(4,1) _ this] js ij Suc.prems(3)
  have "freed_tcbs k' = rev (map item_task js) @ freed_tcbs k1"
    "\<forall>j. container k' j = (if container k1 j = Some TasksWaitingTermination then None else container k1 j)" by auto
  moreover have "container k1 j = (if j = i then None else container k j)" for j
    by (simp add: K(2))
  ultimately show ?case using ij t ci K(3) by auto
qed

text \<open>
  The idle task frees what was deleted: run by the idle task, the clean-up returns with
  no task left on \<open>xTasksWaitingTermination\<close> and its count zero, has freed each of the TCBs
  that were on it exactly once and in order, and (with no tick and no task pending, which the
  resumptions in \<open>vPortFree\<close> would process) has left every other item where it was.
\<close>

theorem clean_up_frees_all:
  assumes "reach idle k" and "pxCurrentTCB k = Some idle" and "quiet k"
  shows "\<exists>k'. prvCheckTasksWaitingTermination k = Some k' \<and> reach idle k'
    \<and> uxDeletedTasksWaitingCleanUp k' = 0
    \<and> freed_tcbs k' = rev (map item_task (kitems k TasksWaitingTermination)) @ freed_tcbs k
    \<and> distinct (map item_task (kitems k TasksWaitingTermination))
    \<and> (\<forall>i. container k' i = (if container k i = Some TasksWaitingTermination then None else container k i))"
proof -
  obtain T where I: "sinv idle T k" by (rule reach_sinv [OF assms(1)])
  note K = sinvD(3) [OF I]
  have n: "length (kitems k TasksWaitingTermination) = unat (uxDeletedTasksWaitingCleanUp k)"
    using sinv0D(7) [OF sinvD(1) [OF I]] ends.length_items [OF kinvD(1) [OF K]] by (simp add: term_count_def)
  obtain k' where k': "clean_up_loop (unat (uxDeletedTasksWaitingCleanUp k)) k = Some k'"
    "uxDeletedTasksWaitingCleanUp k' = 0" using clean_up_sinv [OF I assms(2) refl] by blast
  note F = clean_up_loop_frees [OF assms(3) K n k'(1)]
  have e: "prvCheckTasksWaitingTermination k = Some k'" using k'(1) by (simp add: prvCheckTasksWaitingTermination_def)
  have "reach idle k'" by (rule reach.step [OF assms(1), of IdleCleanUp]) (use e assms(2) in \<open>simp_all add: kguard_defs\<close>)
  moreover have "inj_on item_task (set (kitems k TasksWaitingTermination))"
  proof (rule inj_onI)
    fix i j assume "i \<in> set (kitems k TasksWaitingTermination)" "j \<in> set (kitems k TasksWaitingTermination)"
      and e: "item_task i = item_task j"
    then have "admits TasksWaitingTermination i" "admits TasksWaitingTermination j"
      using kinvD(7,12) [OF K] by blast+
    with e show "i = j" by (cases i; cases j) auto
  qed
  then have "distinct (map item_task (kitems k TasksWaitingTermination))"
    using ends.distinct_items [OF kinvD(1) [OF K]] by (simp add: distinct_map)
  ultimately show ?thesis using e k'(2) F by blast
qed

definition one_task :: kernel where
  "one_task = start_kernel [(2, 1)] 0 boot_kernel"

lemma one_task_reach: "reach 0 one_task"
  unfolding one_task_def by (rule reach.start [OF boot_kernel_ok]) simp

lemma one_task_deleted:
  "case krun [Delete None, PendSV] one_task of None \<Rightarrow> False
    | Some k \<Rightarrow> pxCurrentTCB k = Some 0 \<and> kitems k TasksWaitingTermination = [StateItem 2] \<and> freed_tcbs k = [] \<and> quiet k"
  by code_simp

lemma krun_two: "krun [a, b] k = Some k2 \<Longrightarrow> \<exists>k1. kexec a k = Some k1 \<and> kexec b k1 = Some k2"
  by (auto simp: bind_eq_Some_conv)

lemma one_task_deleted_reach:
  assumes "krun [Delete None, PendSV] one_task = Some k"
  shows "reach 0 k"
proof -
  let ?k = one_task
  have c: "pxCurrentTCB ?k = Some 2" "xSchedulerRunning ?k" "uxDeletedTasksWaitingCleanUp ?k = 0"
    "container ?k (StateItem 2) = Some (ReadyList 1)" by code_simp+
  obtain k1 where k1: "kexec (Delete None) ?k = Some k1" "kexec PendSV k1 = Some k"
    using krun_two [OF assms] by blast
  have "kguard 0 (Delete None) ?k"
    by (simp add: kguard_defs target_def prvGetTCBFromHandle_def alive_def c)
  then have "reach 0 k1" by (rule reach.step [OF one_task_reach _ k1(1)])
  then show ?thesis by (rule reach.step [OF _ _ k1(2)]) (simp add: kguard_defs)
qed

theorem clean_up_frees_all_witness:
  "\<exists>k k'. krun [Delete None, PendSV] one_task = Some k
    \<and> prvCheckTasksWaitingTermination k = Some k' \<and> freed_tcbs k' = [2]"
proof -
  obtain k where k: "krun [Delete None, PendSV] one_task = Some k"
    "pxCurrentTCB k = Some 0" "kitems k TasksWaitingTermination = [StateItem 2]" "freed_tcbs k = []" "quiet k"
    using one_task_deleted by (auto split: option.splits)
  then show ?thesis using clean_up_frees_all [OF one_task_deleted_reach [OF k(1)] k(2,5)] by auto
qed

section \<open>Notifications\<close>

lemma notifies_count:
  assumes "reach idle k" and "alive k t"
  shows "\<exists>k'. krun (replicate n (Notify t 0 eIncrement)) k = Some k' \<and> reach idle k' \<and> alive k' t
    \<and> tcb_ulNotifiedValue (tcbs k' t) = tcb_ulNotifiedValue (tcbs k t) + of_nat n
    \<and> (0 < n \<longrightarrow> tcb_ucNotifyState (tcbs k' t) = taskNOTIFICATION_RECEIVED)
    \<and> (0 < n \<and> tcb_ucNotifyState (tcbs k t) = taskWAITING_NOTIFICATION \<or> ready k t \<longrightarrow> ready k' t)"
  using assms
proof (induction n arbitrary: k)
  case 0
  then show ?case by simp
next
  case (Suc n)
  obtain T where I: "sinv idle T k" by (rule reach_sinv [OF Suc.prems(1)])
  note a = alive_task [OF I Suc.prems(2)]
  obtain r k1 where N: "xTaskGenericNotify t 0 eIncrement k = Some (r, k1)"
    "tcb_ucNotifyState (tcbs k1 t) = taskNOTIFICATION_RECEIVED"
    "tcb_ucNotifyState (tcbs k t) = taskWAITING_NOTIFICATION \<longrightarrow> ready k1 t"
    "tcb_ulNotifiedValue (tcbs k1 t) = tcb_ulNotifiedValue (tcbs k t) + 1"
    "ready k t \<longrightarrow> ready k1 t" "container k1 (StateItem t) \<noteq> None"
    "container k1 (StateItem t) \<noteq> Some TasksWaitingTermination"
    using notify_sinv [OF I, of t 0 eIncrement] a Suc.prems(2) unfolding alive_def notify_action.simps fst_conv by blast
  have e: "kexec (Notify t 0 eIncrement) k = Some k1" using N(1) by simp
  have R: "reach idle k1" by (rule reach.step [OF Suc.prems(1) _ e]) (use Suc.prems(2) in \<open>simp add: kguard_defs\<close>)
  have A: "alive k1 t" using N(6,7) by (simp add: alive_def)
  from Suc.IH [OF R A] obtain k' where
    "krun (replicate n (Notify t 0 eIncrement)) k1 = Some k'" "reach idle k'" "alive k' t"
    "tcb_ulNotifiedValue (tcbs k' t) = tcb_ulNotifiedValue (tcbs k1 t) + of_nat n"
    "0 < n \<longrightarrow> tcb_ucNotifyState (tcbs k' t) = taskNOTIFICATION_RECEIVED" "ready k1 t \<longrightarrow> ready k' t"
    by blast
  moreover have "n = 0 \<Longrightarrow> k' = k1" using calculation(1) by simp
  ultimately show ?case using e N(2-5) by (intro exI [of _ k']) (auto simp: add.commute)
qed

text \<open>
  Notifications count: \<open>n\<close> gives to a live task all return, add \<open>n\<close> to its
  notification value (a task blocked on the notification is ready after the first), and the
  task then takes them: with \<open>clr\<close> all at once, otherwise one by one.
\<close>

theorem notifications_counted:
  assumes "reach idle k" and "alive k t"
  shows "\<exists>k'. krun (replicate n (Notify t 0 eIncrement)) k = Some k' \<and> reach idle k'
    \<and> (0 < n \<and> tcb_ucNotifyState (tcbs k t) = taskWAITING_NOTIFICATION \<longrightarrow> ready k' t)
    \<and> (pxCurrentTCB k' = Some t \<longrightarrow>
         (\<exists>k2. ulTaskNotifyTake_finish clr k' = Some (tcb_ulNotifiedValue (tcbs k t) + of_nat n, k2)
            \<and> tcb_ulNotifiedValue (tcbs k2 t) =
                (let v = tcb_ulNotifiedValue (tcbs k t) + of_nat n in if clr \<or> v = 0 then 0 else v - 1)
            \<and> tcb_ucNotifyState (tcbs k2 t) = taskNOT_WAITING_NOTIFICATION))"
proof -
  obtain k' where K: "krun (replicate n (Notify t 0 eIncrement)) k = Some k'" "reach idle k'"
    "tcb_ulNotifiedValue (tcbs k' t) = tcb_ulNotifiedValue (tcbs k t) + of_nat n"
    "0 < n \<and> tcb_ucNotifyState (tcbs k t) = taskWAITING_NOTIFICATION \<longrightarrow> ready k' t"
    using notifies_count [OF assms, of n] by blast
  then show ?thesis
    by (intro exI [of _ k']) (auto simp: ulTaskNotifyTake_finish_def Let_def split: if_splits)
qed

theorem notifications_counted_witness:
  "\<exists>k' k2. krun (replicate 3 (Notify 2 0 eIncrement)) demo = Some k' \<and> ulTaskNotifyTake_finish True k' = Some (3, k2)"
proof -
  have v: "tcb_ulNotifiedValue (tcbs demo 2) = 0" by code_simp
  have "map_option pxCurrentTCB (krun (replicate 3 (Notify 2 0 eIncrement)) demo) = Some (Some 2)" by code_simp
  moreover have "alive demo 2" by (simp add: alive_def demo_ready)
  ultimately show ?thesis using notifications_counted [OF demo_reach, of 2 3 True] v by auto
qed

section \<open>Where the code departs from what it means\<close>

definition timed_out_mutex_wait :: "kcall list" where
  "timed_out_mutex_wait =
     [Delay 1, PendSV, MutexHeld, Tick, PendSV, Inherit 1, SuspendAll, PlaceOnEventList (TasksWaitingToReceive 0) 3,
      ResumeAllYield, PendSV, PrioritySet (Some 2) 4, Tick, Tick, Tick, PendSV, DisinheritAfterTimeout 1 0]"

text \<open>
  A ready bit goes stale. Task 1 holds a mutex and has inherited priority 3 from task 2,
  which waits for the mutex with a time-out; task 1 raises task 2 to priority 4; the wait
  times out and \<open>vTaskPriorityDisinheritAfterTimeout\<close> lowers task 1 from 3 to 1. It is the
  last task of ready list 3, but the code tests and clears the bit of the \<^emph>\<open>new\<close> priority,
  so bit 3 of \<open>uxTopReadyPriority\<close> stays set for an empty list. When task 2 sleeps, the next
  context switch reads the owner of that list's end marker.
\<close>

theorem disinherit_after_timeout_stale_bit:
  "(case krun timed_out_mutex_wait (start_kernel [(1, 1), (2, 3)] 0 boot_kernel) of None \<Rightarrow> False
    | Some k \<Rightarrow> pxCurrentTCB k = Some 2 \<and> prio k 1 = 1 \<and> kitems k (ReadyList 3) = [] \<and> bit (uxTopReadyPriority k) 3
        \<and> (case krun [Delay 5] k of None \<Rightarrow> False | Some k' \<Rightarrow> xPortPendSVHandler k' = None))"
  by code_simp

definition lowered_waiter :: "kcall list" where
  "lowered_waiter =
     [SuspendAll, PlaceOnEventList (TasksWaitingToReceive 0) 9, ResumeAllYield, PendSV,
      SuspendAll, PlaceOnEventList (TasksWaitingToReceive 0) 9, ResumeAllYield, PendSV,
      PrioritySet (Some 3) 1, RemoveFromEventList (TasksWaitingToReceive 0)]"

text \<open>
  An event list can lose its priority order. The comment in \<open>xTaskRemoveFromEventList\<close>
  says the first task on the list is known to have the highest priority; but
  \<open>vTaskPrioritySet\<close> rewrites the value of a waiting task's event item without moving the item.
  Here task 3 (priority 3) and task 2 (priority 2) wait, task 3 is lowered to priority 1, and
  the event wakes task 3 while task 2 keeps waiting.
\<close>

theorem event_list_order_lost:
  "(case krun lowered_waiter (start_kernel [(1, 1), (2, 2), (3, 3)] 0 boot_kernel) of None \<Rightarrow> False
    | Some k \<Rightarrow> prio k 3 = 1 \<and> prio k 2 = 2 \<and> container k (StateItem 3) = Some (ReadyList 1)
        \<and> container k (EventItem 2) = Some (TasksWaitingToReceive 0))"
  by code_simp

end
