(* ===== verification/Heap4.thy ===== *)
theory Heap4
  imports Prelude "HOL-Library.Monad_Syntax"
begin

text \<open>
  The allocator of \<open>freertos/heap_4.c\<close>: a list of free blocks in address order with headers
  in the heap array itself. Addresses and sizes are 32-bit words, NULL is 0. The linker's
  choices, the addresses of \<open>ucHeap\<close> and \<open>xStart\<close>, are fields of the state. \<open>None\<close> is the
  result of a walk that would not end.
\<close>

section \<open>State\<close>

definition configTOTAL_HEAP_SIZE :: u32 where
  "configTOTAL_HEAP_SIZE = 18 * 1024"

definition portBYTE_ALIGNMENT :: u32 where
  "portBYTE_ALIGNMENT = 8"

definition portBYTE_ALIGNMENT_MASK :: u32 where
  "portBYTE_ALIGNMENT_MASK = 7"

text \<open>\<open>sizeof( BlockLink_t )\<close> is 8: a pointer and a \<open>size_t\<close>.\<close>

definition xHeapStructSize :: u32 where
  "xHeapStructSize = (8 + (portBYTE_ALIGNMENT - 1)) AND NOT portBYTE_ALIGNMENT_MASK"

definition heapMINIMUM_BLOCK_SIZE :: u32 where
  "heapMINIMUM_BLOCK_SIZE = push_bit 1 xHeapStructSize"

record heap4 =
  ucHeap_at :: u32
  xStart_at :: u32
  pxNextFreeBlock :: "u32 \<Rightarrow> u32"
  xBlockSize :: "u32 \<Rightarrow> u32"
  pxEnd :: u32
  xFreeBytesRemaining :: u32
  xMinimumEverFreeBytesRemaining :: u32
  xBlockAllocatedBit :: u32

definition set_next_free :: "u32 \<Rightarrow> u32 \<Rightarrow> heap4 \<Rightarrow> heap4" where
  "set_next_free a n h = h\<lparr>pxNextFreeBlock := (pxNextFreeBlock h)(a := n)\<rparr>"

definition set_block_size :: "u32 \<Rightarrow> u32 \<Rightarrow> heap4 \<Rightarrow> heap4" where
  "set_block_size a n h = h\<lparr>xBlockSize := (xBlockSize h)(a := n)\<rparr>"

section \<open>The free list\<close>

partial_function (option) free_list_position :: "u32 \<Rightarrow> heap4 \<Rightarrow> u32 \<Rightarrow> u32 option" where
  "free_list_position pxBlockToInsert h pxIterator =
     (if pxNextFreeBlock h pxIterator < pxBlockToInsert
      then free_list_position pxBlockToInsert h (pxNextFreeBlock h pxIterator)
      else Some pxIterator)"

definition prvInsertBlockIntoFreeList :: "u32 \<Rightarrow> heap4 \<Rightarrow> heap4 option" where
  "prvInsertBlockIntoFreeList pxBlockToInsert h =
     do {
       pxIterator \<leftarrow> free_list_position pxBlockToInsert h (xStart_at h);
       let adjacent = pxIterator + xBlockSize h pxIterator = pxBlockToInsert;
       let h = (if adjacent
                then set_block_size pxIterator (xBlockSize h pxIterator + xBlockSize h pxBlockToInsert) h
                else h);
       let blk = (if adjacent then pxIterator else pxBlockToInsert);
       let nxt = pxNextFreeBlock h pxIterator;
       let h = (if blk + xBlockSize h blk = nxt then
                  if nxt \<noteq> pxEnd h then
                    let h = set_block_size blk (xBlockSize h blk + xBlockSize h nxt) h
                    in set_next_free blk (pxNextFreeBlock h (pxNextFreeBlock h pxIterator)) h
                  else set_next_free blk (pxEnd h) h
                else set_next_free blk nxt h);
       Some (if pxIterator \<noteq> blk then set_next_free pxIterator blk h else h)
     }"

definition prvHeapInit :: "heap4 \<Rightarrow> heap4" where
  "prvHeapInit h =
     (let unaligned = ucHeap_at h AND portBYTE_ALIGNMENT_MASK \<noteq> 0;
          base = (if unaligned then (ucHeap_at h + (portBYTE_ALIGNMENT - 1)) AND NOT portBYTE_ALIGNMENT_MASK
                  else ucHeap_at h);
          xTotalHeapSize = (if unaligned then configTOTAL_HEAP_SIZE - (base - ucHeap_at h)
                            else configTOTAL_HEAP_SIZE);
          h = set_next_free (xStart_at h) base h;
          h = set_block_size (xStart_at h) 0 h;
          end = ((base + xTotalHeapSize) - xHeapStructSize) AND NOT portBYTE_ALIGNMENT_MASK;
          h = h\<lparr>pxEnd := end\<rparr>;
          h = set_block_size end 0 h;
          h = set_next_free end 0 h;
          h = set_block_size base (end - base) h;
          h = set_next_free base end h
      in h\<lparr>xMinimumEverFreeBytesRemaining := xBlockSize h base,
           xFreeBytesRemaining := xBlockSize h base,
           xBlockAllocatedBit := push_bit 31 1\<rparr>)"

section \<open>Allocation\<close>

text \<open>The first-fit walk: previous block and block at which it stops.\<close>

partial_function (option) first_fit :: "u32 \<Rightarrow> heap4 \<Rightarrow> u32 \<Rightarrow> u32 \<Rightarrow> (u32 \<times> u32) option" where
  "first_fit xWantedSize h pxPreviousBlock pxBlock =
     (if xBlockSize h pxBlock < xWantedSize \<and> pxNextFreeBlock h pxBlock \<noteq> 0
      then first_fit xWantedSize h pxBlock (pxNextFreeBlock h pxBlock)
      else Some (pxPreviousBlock, pxBlock))"

text \<open>The size with the header, rounded up to the alignment.\<close>

definition wanted_block_size :: "u32 \<Rightarrow> u32" where
  "wanted_block_size xWantedSize =
     (if xWantedSize > 0 then
        let w = xWantedSize + xHeapStructSize in
        if w AND portBYTE_ALIGNMENT_MASK \<noteq> 0
        then w + (portBYTE_ALIGNMENT - (w AND portBYTE_ALIGNMENT_MASK)) else w
      else xWantedSize)"

text \<open>The section of \<open>pvPortMalloc\<close> in which the scheduler is suspended.\<close>

definition heap_malloc :: "u32 \<Rightarrow> heap4 \<Rightarrow> (u32 \<times> heap4) option" where
  "heap_malloc xWantedSize h =
     (let h = (if pxEnd h = 0 then prvHeapInit h else h) in
      if xWantedSize AND xBlockAllocatedBit h = 0 then
        let want = wanted_block_size xWantedSize in
        if want > 0 \<and> want \<le> xFreeBytesRemaining h then
          do {
            (prev, blk) \<leftarrow> first_fit want h (xStart_at h) (pxNextFreeBlock h (xStart_at h));
            if blk \<noteq> pxEnd h then
              do {
                let pvReturn = pxNextFreeBlock h prev + xHeapStructSize;
                let h = set_next_free prev (pxNextFreeBlock h blk) h;
                h \<leftarrow> (if xBlockSize h blk - want > heapMINIMUM_BLOCK_SIZE then
                       let new = blk + want;
                           h = set_block_size new (xBlockSize h blk - want) h;
                           h = set_block_size blk want h
                       in prvInsertBlockIntoFreeList new h
                     else Some h);
                let h = h\<lparr>xFreeBytesRemaining := xFreeBytesRemaining h - xBlockSize h blk\<rparr>;
                let h = (if xFreeBytesRemaining h < xMinimumEverFreeBytesRemaining h
                         then h\<lparr>xMinimumEverFreeBytesRemaining := xFreeBytesRemaining h\<rparr> else h);
                let h = set_block_size blk (xBlockSize h blk OR xBlockAllocatedBit h) h;
                Some (pvReturn, set_next_free blk 0 h)
              }
            else Some (0, h)
          }
        else Some (0, h)
      else Some (0, h))"

section \<open>Release\<close>

text \<open>The tests of \<open>vPortFree\<close> and the update of the header, then the suspended section.\<close>

definition heap_free_checks :: "u32 \<Rightarrow> heap4 \<Rightarrow> bool" where
  "heap_free_checks pv h \<longleftrightarrow> pv \<noteq> 0
     \<and> xBlockSize h (pv - xHeapStructSize) AND xBlockAllocatedBit h \<noteq> 0
     \<and> pxNextFreeBlock h (pv - xHeapStructSize) = 0"

definition heap_free :: "u32 \<Rightarrow> heap4 \<Rightarrow> heap4 option" where
  "heap_free pv h =
     (let pxLink = pv - xHeapStructSize in
      if heap_free_checks pv h then
        let h = set_block_size pxLink (xBlockSize h pxLink AND NOT (xBlockAllocatedBit h)) h;
            h = h\<lparr>xFreeBytesRemaining := xFreeBytesRemaining h + xBlockSize h pxLink\<rparr>
        in prvInsertBlockIntoFreeList pxLink h
      else Some h)"

definition xPortGetFreeHeapSize :: "heap4 \<Rightarrow> u32" where
  "xPortGetFreeHeapSize h = xFreeBytesRemaining h"

definition xPortGetMinimumEverFreeHeapSize :: "heap4 \<Rightarrow> u32" where
  "xPortGetMinimumEverFreeHeapSize h = xMinimumEverFreeBytesRemaining h"

end
