(* ===== verification/Heap4_Rep.thy ===== *)
theory Heap4_Rep
  imports Heap4
begin

text \<open>
  The abstract view of the heap: its array is tiled by blocks, free or in use, in address
  order; the free list links exactly the free blocks. Inserting a block into the free list
  joins it with the free neighbours of the tiling.
\<close>

section \<open>Words\<close>

lemma no_wrap_unat: "a < a + (s :: u32) \<longleftrightarrow> s \<noteq> 0 \<and> unat a + unat s < 2 ^ 32"
proof
  assume w: "a < a + s"
  then have "s \<noteq> 0" by auto
  moreover have "unat a + unat s < 2 ^ 32"
  proof (rule ccontr)
    assume "\<not> unat a + unat s < 2 ^ 32"
    then have "(unat a + unat s) mod 2 ^ 32 = unat a + unat s - 2 ^ 32"
      using unat_less_u32 [of a] unat_less_u32 [of s] by (subst le_mod_geq) (simp_all del: power_numeral)
    then have "unat (a + s) = unat a + unat s - 2 ^ 32" by (simp add: unat_word_ariths)
    then show False using w unat_less_u32 [of s] by (simp add: word_less_nat_alt)
  qed
  ultimately show "s \<noteq> 0 \<and> unat a + unat s < 2 ^ 32" by blast
next
  assume "s \<noteq> 0 \<and> unat a + unat s < 2 ^ 32"
  then show "a < a + s" by (simp add: word_less_nat_alt unat_add_u32 unat_gt_0)
qed

lemma no_wrap_part:
  assumes "a < a + (s :: u32)" and "0 < w" and "w < s"
  shows "a < a + w" and "a + w < a + s"
proof -
  have "unat w < unat s" "0 < unat w" using assms(2,3) by (simp_all add: word_less_nat_alt)
  moreover have "unat a + unat s < 2 ^ 32" using assms(1) no_wrap_unat by blast
  ultimately have "unat (a + w) = unat a + unat w" "unat (a + s) = unat a + unat s"
    by (simp_all add: unat_add_u32)
  with \<open>0 < unat w\<close> \<open>unat w < unat s\<close> show "a < a + w" "a + w < a + s"
    by (simp_all only: word_less_nat_alt)
qed

section \<open>Tilings\<close>

datatype blk = Blk (baddr: u32) (bsize: u32) (bused: bool)

fun tiling :: "u32 \<Rightarrow> blk list \<Rightarrow> u32 \<Rightarrow> bool" where
  "tiling a [] e \<longleftrightarrow> a = e"
| "tiling a (b # bs) e \<longleftrightarrow> baddr b = a \<and> a < a + bsize b \<and> tiling (a + bsize b) bs e"

abbreviation free_of :: "blk list \<Rightarrow> blk list" where
  "free_of bs \<equiv> filter (\<lambda>b. \<not> bused b) bs"

lemma tiling_le: "tiling a bs e \<Longrightarrow> a \<le> e"
  by (induction bs arbitrary: a) (auto dest: less_imp_le order_trans)

lemma tiling_append [simp]: "tiling a (xs @ ys) e \<longleftrightarrow> (\<exists>m. tiling a xs m \<and> tiling m ys e)"
  by (induction xs arbitrary: a) auto

lemma tiling_bounds:
  assumes "tiling a bs e" and "b \<in> set bs"
  shows "a \<le> baddr b" and "baddr b < baddr b + bsize b" and "baddr b + bsize b \<le> e"
proof -
  show "a \<le> baddr b"
    using assms
  proof (induction bs arbitrary: a)
    case (Cons c bs)
    then have "a \<le> a + bsize c" by (auto intro: less_imp_le)
    moreover have "b \<in> set bs \<Longrightarrow> a + bsize c \<le> baddr b" using Cons by simp
    ultimately show ?case using Cons.prems by (auto intro: order_trans)
  qed simp
  show "baddr b < baddr b + bsize b" "baddr b + bsize b \<le> e"
    using assms by (induction bs arbitrary: a) (auto dest: tiling_le)
qed

lemma tiling_less: "tiling a bs e \<Longrightarrow> b \<in> set bs \<Longrightarrow> baddr b < e"
  using tiling_bounds by (meson less_le_trans)

lemma tiling_sorted: "tiling a bs e \<Longrightarrow> sorted_wrt (<) (map baddr bs)"
proof (induction bs arbitrary: a)
  case Nil
  then show ?case by simp
next
  case (Cons b bs)
  then have "baddr b < baddr c" if "c \<in> set bs" for c
    using tiling_bounds(1) [of "a + bsize b" bs e c] that by auto
  with Cons show ?case by auto
qed

lemma tiling_distinct: "tiling a bs e \<Longrightarrow> distinct (map baddr bs)"
  using tiling_sorted strict_sorted_iff by blast

lemma tiling_disjoint:
  assumes "tiling a bs e" and "b \<in> set bs" and "c \<in> set bs" and "b \<noteq> c"
  shows "baddr b + bsize b \<le> baddr c \<or> baddr c + bsize c \<le> baddr b"
  using assms
proof (induction bs arbitrary: a)
  case (Cons x bs)
  have T: "tiling (a + bsize x) bs e" "baddr x = a" using Cons.prems(1) by auto
  consider "b \<in> set bs" "c \<in> set bs" | "b = x" "c \<in> set bs" | "c = x" "b \<in> set bs"
    using Cons.prems(2-4) by auto
  then show ?case using Cons.IH [OF T(1)] Cons.prems(4) tiling_bounds(1) [OF T(1)] T(2) by cases auto
qed simp

section \<open>Chains\<close>

fun chain :: "(u32 \<Rightarrow> u32) \<Rightarrow> u32 \<Rightarrow> u32 list \<Rightarrow> u32 \<Rightarrow> bool" where
  "chain nx p [] e \<longleftrightarrow> nx p = e"
| "chain nx p (x # xs) e \<longleftrightarrow> nx p = x \<and> chain nx x xs e"

lemma chain_append [simp]: "chain nx p (xs @ y # ys) e \<longleftrightarrow> chain nx p xs y \<and> chain nx y ys e"
  by (induction xs arbitrary: p) auto

lemma chain_upd [simp]: "u \<notin> set (p # xs) \<Longrightarrow> chain (nx(u := v)) p xs e \<longleftrightarrow> chain nx p xs e"
  by (induction xs arbitrary: p) auto

lemma chain_last: "chain nx p (xs @ ys) e \<Longrightarrow> nx (last (p # xs)) = hd (ys @ [e])"
  by (induction xs arbitrary: p) (cases ys; auto)+

lemma chain_start:
  "chain nx p ys e \<longleftrightarrow> nx p = hd (ys @ [e]) \<and> (ys \<noteq> [] \<longrightarrow> chain nx (hd ys) (tl ys) e)"
  by (cases ys) auto

lemma chain_suffix: "chain nx p (xs @ ys) e \<Longrightarrow> ys \<noteq> [] \<Longrightarrow> chain nx (hd ys) (tl ys) e"
  by (cases ys) auto

lemma chain_prefix: "chain nx p (xs @ ys) e \<Longrightarrow> distinct (p # xs) \<Longrightarrow> chain (nx(last (p # xs) := n)) p xs n"
proof (induction xs arbitrary: p)
  case (Cons x xs)
  then show ?case by auto
qed simp

lemma chain_cong:
  assumes "\<And>x. x \<in> set (p # xs) \<Longrightarrow> nx' x = nx x"
  shows "chain nx' p xs e \<longleftrightarrow> chain nx p xs e"
  using assms by (induction xs arbitrary: p) auto

lemma hd_in: "ys \<noteq> [] \<Longrightarrow> x \<in> set (hd ys # tl ys) \<longleftrightarrow> x \<in> set ys"
  by (cases ys) auto

text \<open>A node spliced in after \<open>xs\<close>, leaving out \<open>zs\<close>; a node of the chain that skips \<open>zs\<close>.\<close>

lemma chain_insert:
  assumes "chain nx p (xs @ zs @ ys) e" and "distinct (p # xs @ zs @ ys)" and "a \<notin> set (p # xs @ zs @ ys)"
  shows "chain (nx(a := hd (ys @ [e]), last (p # xs) := a)) p (xs @ a # ys) e"
proof -
  let ?nx = "nx(a := hd (ys @ [e]), last (p # xs) := a)"
  have l: "last (p # xs) \<in> set (p # xs)" by (rule last_in_set) simp
  then have la: "last (p # xs) \<noteq> a" and ly: "last (p # xs) \<notin> set ys" using assms(2,3) by auto
  have "chain (nx(last (p # xs) := a)) p xs a" using assms(1,2) by (intro chain_prefix [of nx p xs "zs @ ys" e]) auto
  then have "chain ?nx p xs a"
    by (subst chain_cong [of p xs ?nx "nx(last (p # xs) := a)"]) (use assms(3) in auto)
  moreover have "chain ?nx a ys e"
  proof (subst chain_start, intro conjI impI)
    show "?nx a = hd (ys @ [e])" using la by simp
    assume ys: "ys \<noteq> []"
    have "chain nx (hd ys) (tl ys) e" using chain_suffix [of nx p "xs @ zs" ys e] assms(1) ys by simp
    then show "chain ?nx (hd ys) (tl ys) e"
      by (subst chain_cong [of "hd ys" "tl ys" ?nx nx]) (use assms(3) ly ys hd_in [OF ys] in auto)
  qed
  ultimately show ?thesis by simp
qed

lemma chain_skip:
  assumes "chain nx p (xs @ q # zs @ ys) e" and "distinct (p # xs @ q # zs @ ys)"
  shows "chain (nx(q := hd (ys @ [e]))) p (xs @ q # ys) e"
proof -
  let ?nx = "nx(q := hd (ys @ [e]))"
  have "chain nx p xs q" using assms(1) by simp
  then have "chain ?nx p xs q" by (subst chain_upd) (use assms(2) in auto)
  moreover have "chain ?nx q ys e"
  proof (subst chain_start, intro conjI impI)
    assume ys: "ys \<noteq> []"
    have "chain nx (hd ys) (tl ys) e" using chain_suffix [of nx p "xs @ q # zs" ys e] assms(1) ys by simp
    then show "chain ?nx (hd ys) (tl ys) e"
      by (subst chain_cong [of "hd ys" "tl ys" ?nx nx]) (use assms(2) ys hd_in [OF ys] in auto)
  qed simp
  ultimately show ?thesis by simp
qed

lemma position_chain:
  assumes "chain (pxNextFreeBlock h) p (xs @ ys) e" and "\<forall>x\<in>set xs. x < a" and "\<forall>y\<in>set ys. \<not> y < a" and "\<not> e < a"
  shows "free_list_position a h p = Some (last (p # xs))"
  using assms
proof (induction xs arbitrary: p)
  case Nil
  then have "\<not> pxNextFreeBlock h p < a" by (cases ys) auto
  then show ?case by (subst free_list_position.simps) simp
next
  case (Cons x xs)
  then show ?case by (subst free_list_position.simps) simp
qed

section \<open>The representation\<close>

definition free_list :: "heap4 \<Rightarrow> blk list \<Rightarrow> bool" where
  "free_list h fs \<longleftrightarrow> chain (pxNextFreeBlock h) (xStart_at h) (map baddr fs) (pxEnd h)
     \<and> (\<forall>b\<in>set fs. xBlockSize h (baddr b) = bsize b)"

text \<open>The fixed part: \<open>xStart\<close> lies outside the array, below the end marker nothing wraps.\<close>

definition heap_frame :: "u32 \<Rightarrow> heap4 \<Rightarrow> bool" where
  "heap_frame base h \<longleftrightarrow> 0 < base \<and> pxEnd h < 2 ^ 31 \<and> \<not> (base \<le> xStart_at h \<and> xStart_at h \<le> pxEnd h)
     \<and> xBlockSize h (xStart_at h) = 0 \<and> xBlockSize h (pxEnd h) = 0 \<and> pxNextFreeBlock h (pxEnd h) = 0
     \<and> xBlockAllocatedBit h = push_bit 31 1"

text \<open>The free block \<open>x\<close> between \<open>L\<close> and \<open>R\<close>, joined with free neighbours.\<close>

definition put_free :: "blk list \<Rightarrow> u32 \<Rightarrow> u32 \<Rightarrow> blk list \<Rightarrow> blk list" where
  "put_free L a s R =
     (let left = L \<noteq> [] \<and> \<not> bused (last L);
          L' = (if left then butlast L else L);
          a' = (if left then baddr (last L) else a);
          s' = (if left then bsize (last L) + s else s)
      in case R of
           [] \<Rightarrow> L' @ [Blk a' s' False]
         | r # R' \<Rightarrow> if bused r then L' @ Blk a' s' False # R else L' @ Blk a' (s' + bsize r) False # R')"

lemma put_free_tiling:
  assumes "tiling base (L @ Blk a s u # R) e"
  shows "tiling base (put_free L a s R) e"
proof -
  have L: "tiling base L a" "a < a + s" "tiling (a + s) R e" using assms by auto
  have merge: "x < x + (y + z)" if "x < x + y" "x + y < x + y + z" for x y z :: u32
    using less_trans [OF that] by (simp add: add.assoc)
  show ?thesis
  proof (cases "L \<noteq> [] \<and> \<not> bused (last L)")
    case True
    then obtain L' p ps where l: "L = L' @ [Blk p ps False]" by (metis append_butlast_last_id blk.collapse bused_def)
    then have p: "tiling base L' p" "p < p + ps" "p + ps = a" using L(1) by auto
    show ?thesis using L p merge [of p ps s] merge [of p "ps + s"]
      by (cases R) (auto simp: put_free_def Let_def l add.assoc)
  next
    case False
    then show ?thesis using L merge [of a s] by (cases R) (auto simp: put_free_def Let_def add.assoc)
  qed
qed

lemma tiling_last:
  assumes "tiling a bs e" and "b \<in> set bs"
  shows "baddr b + bsize b = e \<longleftrightarrow> b = last bs"
proof -
  obtain xs ys where bs: "bs = xs @ b # ys" using assms(2) by (auto simp: in_set_conv_decomp)
  then have t: "tiling (baddr b + bsize b) ys e" using assms(1) by auto
  show ?thesis
  proof (cases ys rule: rev_cases)
    case Nil
    then show ?thesis using t bs by simp
  next
    case (snoc zs z)
    then have "z \<in> set ys" by simp
    with tiling_bounds [OF t this] have "baddr b + bsize b < e" by (auto intro: le_less_trans less_le_trans)
    moreover have "b \<noteq> last bs" using tiling_distinct [OF assms(1)] bs snoc by auto
    ultimately show ?thesis by simp
  qed
qed

text \<open>What an insertion may change: the links and sizes of the nodes in \<open>S\<close>.\<close>

definition only_nodes :: "u32 set \<Rightarrow> heap4 \<Rightarrow> heap4 \<Rightarrow> bool" where
  "only_nodes S h h' \<longleftrightarrow> pxEnd h' = pxEnd h \<and> xStart_at h' = xStart_at h \<and> ucHeap_at h' = ucHeap_at h
     \<and> xFreeBytesRemaining h' = xFreeBytesRemaining h
     \<and> xMinimumEverFreeBytesRemaining h' = xMinimumEverFreeBytesRemaining h
     \<and> xBlockAllocatedBit h' = xBlockAllocatedBit h
     \<and> (\<forall>x. x \<notin> S \<longrightarrow> pxNextFreeBlock h' x = pxNextFreeBlock h x \<and> xBlockSize h' x = xBlockSize h x)"

lemma only_nodesD:
  assumes "only_nodes S h h'"
  shows "pxEnd h' = pxEnd h" "xStart_at h' = xStart_at h" "ucHeap_at h' = ucHeap_at h"
    "xFreeBytesRemaining h' = xFreeBytesRemaining h"
    "xMinimumEverFreeBytesRemaining h' = xMinimumEverFreeBytesRemaining h"
    "xBlockAllocatedBit h' = xBlockAllocatedBit h"
    "x \<notin> S \<Longrightarrow> pxNextFreeBlock h' x = pxNextFreeBlock h x" "x \<notin> S \<Longrightarrow> xBlockSize h' x = xBlockSize h x"
  using assms unfolding only_nodes_def by blast+

lemma node_fields [simp]:
  "pxEnd (set_next_free a n h) = pxEnd h" "pxEnd (set_block_size a n h) = pxEnd h"
  "xStart_at (set_next_free a n h) = xStart_at h" "xStart_at (set_block_size a n h) = xStart_at h"
  "ucHeap_at (set_next_free a n h) = ucHeap_at h" "ucHeap_at (set_block_size a n h) = ucHeap_at h"
  "xFreeBytesRemaining (set_next_free a n h) = xFreeBytesRemaining h"
  "xFreeBytesRemaining (set_block_size a n h) = xFreeBytesRemaining h"
  "xMinimumEverFreeBytesRemaining (set_next_free a n h) = xMinimumEverFreeBytesRemaining h"
  "xMinimumEverFreeBytesRemaining (set_block_size a n h) = xMinimumEverFreeBytesRemaining h"
  "xBlockAllocatedBit (set_next_free a n h) = xBlockAllocatedBit h"
  "xBlockAllocatedBit (set_block_size a n h) = xBlockAllocatedBit h"
  "pxNextFreeBlock (set_next_free a n h) = (pxNextFreeBlock h)(a := n)"
  "pxNextFreeBlock (set_block_size a n h) = pxNextFreeBlock h"
  "xBlockSize (set_next_free a n h) = xBlockSize h"
  "xBlockSize (set_block_size a n h) = (xBlockSize h)(a := n)"
  by (simp_all add: set_next_free_def set_block_size_def)

lemma only_nodes_refl [simp]: "only_nodes S h h"
  by (simp add: only_nodes_def)

lemma only_nodes_step [simp]:
  "only_nodes S h h' \<Longrightarrow> a \<in> S \<Longrightarrow> only_nodes S h (set_next_free a n h')"
  "only_nodes S h h' \<Longrightarrow> a \<in> S \<Longrightarrow> only_nodes S h (set_block_size a n h')"
  by (auto simp: only_nodes_def)

lemma only_nodes_mono: "S \<subseteq> S' \<Longrightarrow> only_nodes S h h' \<Longrightarrow> only_nodes S' h h'"
  unfolding only_nodes_def by blast

section \<open>Inserting a block\<close>

text \<open>The nodes around the block that is inserted, and what the walk finds there.\<close>

lemma insert_setting:
  assumes "tiling base (L @ Blk a s u # R) (pxEnd h)" and "heap_frame base h"
    and "free_list h (free_of L @ free_of R)"
  shows "distinct (xStart_at h # map baddr (free_of L) @ map baddr (free_of R))"
    and "a \<notin> set (xStart_at h # map baddr (free_of L) @ map baddr (free_of R))"
    and "free_list_position a h (xStart_at h) = Some (last (xStart_at h # map baddr (free_of L)))"
    and "pxNextFreeBlock h (last (xStart_at h # map baddr (free_of L))) = hd (map baddr (free_of R) @ [pxEnd h])"
    and "last (xStart_at h # map baddr (free_of L)) + xBlockSize h (last (xStart_at h # map baddr (free_of L))) = a
      \<longleftrightarrow> L \<noteq> [] \<and> \<not> bused (last L)"
    and "\<And>b. b \<in> set (L @ R) \<Longrightarrow> baddr b \<noteq> xStart_at h \<and> baddr b \<noteq> pxEnd h \<and> baddr b \<noteq> a"
    and "a + s = hd (map baddr (free_of R) @ [pxEnd h]) \<longleftrightarrow> R = [] \<or> \<not> bused (hd R)"
proof -
  note T = assms(1)
  have tL: "tiling base L a" and as: "a < a + s" and tR: "tiling (a + s) R (pxEnd h)" using T by auto
  have start: "baddr b \<noteq> xStart_at h" "baddr b \<noteq> pxEnd h" if "b \<in> set (L @ Blk a s u # R)" for b
    using tiling_bounds(1) [OF T that] tiling_less [OF T that] assms(2) by (auto simp: heap_frame_def)
  have ltL: "baddr b < a" if "b \<in> set L" for b using tiling_less [OF tL that] .
  have ltR: "a < baddr b" if "b \<in> set R" for b using as tiling_bounds(1) [OF tR that] by (rule less_le_trans)
  show nb: "\<And>b. b \<in> set (L @ R) \<Longrightarrow> baddr b \<noteq> xStart_at h \<and> baddr b \<noteq> pxEnd h \<and> baddr b \<noteq> a"
    using start ltL ltR by fastforce
  have ae: "a < pxEnd h" using as tiling_le [OF tR] by (rule less_le_trans)
  have "distinct (map baddr (L @ Blk a s u # R))" by (rule tiling_distinct [OF T])
  then have d: "distinct (map baddr (free_of L) @ map baddr (free_of R))"
    by (auto simp: distinct_map_filter)
  then show "distinct (xStart_at h # map baddr (free_of L) @ map baddr (free_of R))"
    using start by fastforce
  show "a \<notin> set (xStart_at h # map baddr (free_of L) @ map baddr (free_of R))"
    using start [of "Blk a s u"] ltL ltR by force
  have ch: "chain (pxNextFreeBlock h) (xStart_at h) (map baddr (free_of L) @ map baddr (free_of R)) (pxEnd h)"
    using assms(3) by (simp add: free_list_def)
  show "free_list_position a h (xStart_at h) = Some (last (xStart_at h # map baddr (free_of L)))"
    by (rule position_chain [OF ch]) (use ltL ltR ae in \<open>auto simp: not_less less_imp_le\<close>)
  show "pxNextFreeBlock h (last (xStart_at h # map baddr (free_of L))) = hd (map baddr (free_of R) @ [pxEnd h])"
    by (rule chain_last [OF ch])
  show "last (xStart_at h # map baddr (free_of L)) + xBlockSize h (last (xStart_at h # map baddr (free_of L))) = a
      \<longleftrightarrow> L \<noteq> [] \<and> \<not> bused (last L)"
  proof (cases "free_of L = []")
    case True
    then have "L = [] \<or> bused (last L)" using last_in_set [of L] by (cases "L = []") (auto simp: filter_empty_conv)
    moreover have "xStart_at h \<noteq> a" using start(1) [of "Blk a s u"] by auto
    ultimately show ?thesis using True assms(2) by (auto simp: heap_frame_def)
  next
    case False
    let ?p = "last (free_of L)"
    have p: "?p \<in> set (free_of L)" using False by (rule last_in_set)
    then have sz: "xBlockSize h (baddr ?p) = bsize ?p" using assms(3) by (auto simp: free_list_def)
    have l: "last (xStart_at h # map baddr (free_of L)) = baddr ?p" using False by (simp add: last_map)
    have "?p = last L \<longleftrightarrow> L \<noteq> [] \<and> \<not> bused (last L)"
    proof
      show "?p = last L \<Longrightarrow> L \<noteq> [] \<and> \<not> bused (last L)" using p by auto
      assume r: "L \<noteq> [] \<and> \<not> bused (last L)"
      then have "free_of L = free_of (butlast L) @ [last L]"
        by (subst append_butlast_last_id [of L, symmetric]) (simp_all del: append_butlast_last_id)
      then show "?p = last L" by simp
    qed
    then show ?thesis using tiling_last [OF tL, of ?p] p unfolding l sz by auto
  qed
  show "a + s = hd (map baddr (free_of R) @ [pxEnd h]) \<longleftrightarrow> R = [] \<or> \<not> bused (hd R)"
  proof (cases R)
    case Nil
    then show ?thesis using tR by simp
  next
    case (Cons r R')
    have "a + s < baddr b" if "b \<in> set R'" for b
      using tR Cons tiling_bounds(1) [of "a + s + bsize r" R' "pxEnd h" b] that by (auto intro: less_le_trans)
    moreover have "a + s < pxEnd h" using tR Cons tiling_le by (auto intro: less_le_trans)
    ultimately have "bused r \<Longrightarrow> a + s < hd (map baddr (free_of R') @ [pxEnd h])"
      using hd_in_set [of "free_of R'"] by (cases "free_of R' = []") (auto simp: hd_append hd_map)
    then show ?thesis using Cons tR by auto
  qed
qed

lemma insert_correct:
  assumes "tiling base (L @ Blk a s u # R) (pxEnd h)" and "heap_frame base h"
    and "free_list h (free_of L @ free_of R)" and "xBlockSize h a = s"
  shows "\<exists>h'. prvInsertBlockIntoFreeList a h = Some h' \<and> free_list h' (free_of (put_free L a s R))
    \<and> only_nodes ({xStart_at h, a} \<union> baddr ` set (free_of (L @ R))) h h' \<and> xBlockSize h' (xStart_at h) = 0
    \<and> (xBlockSize h' a = s \<or> a \<in> baddr ` set (free_of (put_free L a s R)))"
proof -
  note S = insert_setting [OF assms(1-3)]
  let ?it = "last (xStart_at h # map baddr (free_of L))" and ?nxt = "hd (map baddr (free_of R) @ [pxEnd h])"
  let ?N = "{xStart_at h, a} \<union> baddr ` set (free_of (L @ R))"
  have sz: "\<And>b. b \<in> set (free_of L @ free_of R) \<Longrightarrow> xBlockSize h (baddr b) = bsize b"
    and ch: "chain (pxNextFreeBlock h) (xStart_at h) (map baddr (free_of L) @ map baddr (free_of R)) (pxEnd h)"
    using assms(3) by (auto simp: free_list_def)
  have s0: "xBlockSize h (xStart_at h) = 0" using assms(2) by (simp add: heap_frame_def)
  have as: "xStart_at h \<noteq> a" using S(2) by auto
  define rf where "rf = (R \<noteq> [] \<and> \<not> bused (hd R))"
  have R: "if rf then \<exists>a' s' R'. R = Blk a' s' False # R' else R = [] \<or> bused (hd R)"
    by (cases R; cases "hd R") (auto simp: rf_def)
  have merge: "a + s = ?nxt \<and> ?nxt \<noteq> pxEnd h \<longleftrightarrow> rf"
    using S(6) [of "hd R"] S(7) by (cases R) (auto simp: rf_def)
  show ?thesis
  proof (cases "L \<noteq> [] \<and> \<not> bused (last L)")
    case True
    then obtain L' p ps where L: "L = L' @ [Blk p ps False]" by (metis append_butlast_last_id blk.collapse bused_def)
    have it: "?it = p" by (simp add: L)
    have ps: "xBlockSize h p = ps" using sz [of "Blk p ps False"] by (simp add: L)
    have pa: "p + ps = a" using S(5) True it ps by simp
    then have assoc: "p + (ps + s) = a + s" by (simp add: add.assoc [symmetric])
    have pn: "p \<noteq> a" "p \<noteq> xStart_at h" using S(6) [of "Blk p ps False"] by (auto simp: L)
    show ?thesis
    proof (cases rf)
      case False
      let ?h = "set_next_free p ?nxt (set_block_size p (ps + s) h)"
      have nm: "p + (ps + s) = ?nxt \<Longrightarrow> ?nxt = pxEnd h" using merge False assoc by auto
      have ins: "prvInsertBlockIntoFreeList a h = Some ?h"
        using S(3,4) nm pa assms(4) unfolding prvInsertBlockIntoFreeList_def it
        by (auto simp: ps Let_def)
      have pf: "put_free L a s R = L' @ Blk p (ps + s) False # R"
        using R False by (cases R) (auto simp: put_free_def L)
      have "chain (pxNextFreeBlock ?h) (xStart_at h) (map baddr (free_of L') @ p # map baddr (free_of R)) (pxEnd h)"
        using chain_skip [of "pxNextFreeBlock h" "xStart_at h" "map baddr (free_of L')" p "[]"] ch S(1) by (simp add: L)
      moreover have "\<forall>b\<in>set (free_of L') \<union> set (free_of R). xBlockSize ?h (baddr b) = bsize b"
        using sz S(1) by (auto simp: L)
      ultimately have "free_list ?h (free_of (put_free L a s R))" by (simp add: free_list_def pf ball_Un)
      then show ?thesis using ins pn s0 assms(4) by (intro exI [of _ ?h]) (simp add: L)
    next
      case True
      then obtain a' s' R' where R': "R = Blk a' s' False # R'" using R by auto
      have s': "xBlockSize h a' = s'" "a' \<noteq> p" "a' \<noteq> pxEnd h" "a' = a + s"
        using sz [of "Blk a' s' False"] S(1) S(6) [of "Blk a' s' False"] merge True by (auto simp: R' L)
      let ?h = "set_next_free p (pxNextFreeBlock h a') (set_block_size p (ps + s + s') (set_block_size p (ps + s) h))"
      have ins: "prvInsertBlockIntoFreeList a h = Some ?h"
        using S(3,4) s' pa assoc assms(4) unfolding prvInsertBlockIntoFreeList_def it
        by (simp add: ps Let_def R')
      have pf: "put_free L a s R = L' @ Blk p (ps + s + s') False # R'" by (simp add: put_free_def L R')
      have "pxNextFreeBlock h a' = hd (map baddr (free_of R') @ [pxEnd h])"
        using chain_last [of "pxNextFreeBlock h" "xStart_at h" "map baddr (free_of L) @ [a']"] ch by (simp add: R')
      then have "chain (pxNextFreeBlock ?h) (xStart_at h) (map baddr (free_of L') @ p # map baddr (free_of R')) (pxEnd h)"
        using chain_skip [of "pxNextFreeBlock h" "xStart_at h" "map baddr (free_of L')" p "[a']"] ch S(1) by (simp add: L R')
      moreover have "\<forall>b\<in>set (free_of L') \<union> set (free_of R'). xBlockSize ?h (baddr b) = bsize b"
        using sz S(1) by (auto simp: L R')
      ultimately have "free_list ?h (free_of (put_free L a s R))" by (simp add: free_list_def pf ball_Un)
      then show ?thesis using ins pn s0 assms(4) by (intro exI [of _ ?h]) (simp add: L)
    qed
  next
    case left: False
    define it where "it = ?it"
    define nxt where "nxt = ?nxt"
    note P = S(3,4) [folded it_def nxt_def]
    have na: "it + xBlockSize h it \<noteq> a" using S(5) left unfolding it_def by blast
    have ia: "?it \<noteq> a" "?it \<in> ?N"
      using S(2) last_in_set [of "xStart_at h # map baddr (free_of L)"] by (auto simp: image_iff split: if_splits)
    show ?thesis
    proof (cases rf)
      case False
      let ?h = "set_next_free ?it a (set_next_free a ?nxt h)"
      have nm: "a + s = nxt \<Longrightarrow> nxt = pxEnd h" using merge False unfolding nxt_def by auto
      have ins: "prvInsertBlockIntoFreeList a h = Some ?h"
        using P na nm assms(4) ia(1) unfolding prvInsertBlockIntoFreeList_def it_def [symmetric] nxt_def [symmetric]
        by (auto simp: Let_def)
      have pf: "put_free L a s R = L @ Blk a s False # R"
        using R False left by (cases R) (auto simp: put_free_def)
      have "chain (pxNextFreeBlock ?h) (xStart_at h) (map baddr (free_of L) @ a # map baddr (free_of R)) (pxEnd h)"
        using chain_insert [of "pxNextFreeBlock h" "xStart_at h" "map baddr (free_of L)" "[]"] ch S(1,2) by simp
      then have "free_list ?h (free_of (put_free L a s R))"
        using sz assms(4) by (auto simp: free_list_def pf)
      then show ?thesis using ins ia s0 pf by (intro exI [of _ ?h]) simp
    next
      case True
      then obtain a' s' R' where R': "R = Blk a' s' False # R'" using R by auto
      have s': "xBlockSize h a' = s'" "a' \<noteq> pxEnd h" "a' = a + s" "a' \<noteq> a"
        using sz [of "Blk a' s' False"] S(6) [of "Blk a' s' False"] merge True by (auto simp: R')
      let ?h = "set_next_free ?it a (set_next_free a (pxNextFreeBlock h a') (set_block_size a (s + s') h))"
      have nx: "nxt = a'" by (simp add: nxt_def R')
      have ins: "prvInsertBlockIntoFreeList a h = Some ?h"
        using P na nx s' assms(4) ia(1) unfolding prvInsertBlockIntoFreeList_def it_def [symmetric]
        by (simp add: Let_def)
      have pf: "put_free L a s R = L @ Blk a (s + s') False # R'" using left by (auto simp: put_free_def R')
      have "pxNextFreeBlock h a' = hd (map baddr (free_of R') @ [pxEnd h])"
        using chain_last [of "pxNextFreeBlock h" "xStart_at h" "map baddr (free_of L) @ [a']"] ch by (simp add: R')
      then have "chain (pxNextFreeBlock ?h) (xStart_at h) (map baddr (free_of L) @ a # map baddr (free_of R')) (pxEnd h)"
        using chain_insert [of "pxNextFreeBlock h" "xStart_at h" "map baddr (free_of L)" "[a']"] ch S(1,2) by (simp add: R')
      moreover have "\<forall>b\<in>set (free_of L) \<union> set (free_of R'). xBlockSize ?h (baddr b) = bsize b"
        using sz S(2) by (auto simp: R')
      ultimately have "free_list ?h (free_of (put_free L a s R))" by (simp add: free_list_def pf ball_Un)
      then show ?thesis using ins ia s0 as pf by (intro exI [of _ ?h]) simp
    qed
  qed
qed

end
