(* ===== verification/Heap4_Alloc.thy ===== *)
theory Heap4_Alloc
  imports Heap4_Rep
begin

text \<open>
  The allocator refines two functions on tilings: \<open>alloc_blocks\<close> carves the first block that
  is large enough, \<open>release_block\<close> frees a block and joins it with its free neighbours.
\<close>

section \<open>The abstract allocator\<close>

definition carve :: "u32 \<Rightarrow> blk \<Rightarrow> blk list" where
  "carve w b =
     (if bsize b - w > heapMINIMUM_BLOCK_SIZE
      then [Blk (baddr b) w True, Blk (baddr b + w) (bsize b - w) False]
      else [Blk (baddr b) (bsize b) True])"

fun alloc_blocks :: "u32 \<Rightarrow> blk list \<Rightarrow> (u32 \<times> blk list) option" where
  "alloc_blocks w [] = None"
| "alloc_blocks w (b # bs) =
     (if \<not> bused b \<and> w \<le> bsize b then Some (baddr b, carve w b @ bs)
      else map_option (\<lambda>(a, bs'). (a, b # bs')) (alloc_blocks w bs))"

definition release_block :: "u32 \<Rightarrow> blk list \<Rightarrow> blk list" where
  "release_block a bs =
     (case dropWhile (\<lambda>b. baddr b \<noteq> a) bs of
        [] \<Rightarrow> bs
      | b # R \<Rightarrow> put_free (takeWhile (\<lambda>b. baddr b \<noteq> a) bs) a (bsize b) R)"

text \<open>No two free blocks touch.\<close>

abbreviation separated :: "blk list \<Rightarrow> bool" where
  "separated bs \<equiv> successively (\<lambda>a b. bused a \<or> bused b) bs"

definition used_ok :: "heap4 \<Rightarrow> blk list \<Rightarrow> bool" where
  "used_ok h bs \<longleftrightarrow> (\<forall>b\<in>set bs. bused b \<longrightarrow>
     xBlockSize h (baddr b) = bsize b OR push_bit 31 1 \<and> pxNextFreeBlock h (baddr b) = 0)"

definition aligned :: "u32 \<Rightarrow> bool" where
  "aligned a \<longleftrightarrow> a AND portBYTE_ALIGNMENT_MASK = 0"

definition heap_rep :: "u32 \<Rightarrow> heap4 \<Rightarrow> blk list \<Rightarrow> bool" where
  "heap_rep base h bs \<longleftrightarrow> heap_frame base h \<and> tiling base bs (pxEnd h) \<and> free_list h (free_of bs)
     \<and> used_ok h bs \<and> aligned base \<and> (\<forall>b\<in>set bs. aligned (bsize b)) \<and> separated bs
     \<and> xFreeBytesRemaining h = sum_list (map bsize (free_of bs))
     \<and> xMinimumEverFreeBytesRemaining h \<le> xFreeBytesRemaining h"

section \<open>Alignment and sizes\<close>

lemma aligned_iff: "aligned a \<longleftrightarrow> 8 dvd unat a"
  by (simp add: aligned_def portBYTE_ALIGNMENT_MASK_def and_7_iff)

lemma aligned_add: "aligned a \<Longrightarrow> aligned b \<Longrightarrow> aligned (a + b)"
  by (simp add: aligned_iff unat_word_ariths dvd_mod)

lemma aligned_diff: "aligned a \<Longrightarrow> aligned b \<Longrightarrow> b \<le> a \<Longrightarrow> aligned (a - b)"
  by (simp add: aligned_iff unat_sub_u32)

lemma struct_size [simp]: "xHeapStructSize = 8" "heapMINIMUM_BLOCK_SIZE = 16" "aligned 8"
  by (simp_all add: xHeapStructSize_def heapMINIMUM_BLOCK_SIZE_def portBYTE_ALIGNMENT_def
      portBYTE_ALIGNMENT_MASK_def aligned_def)

lemma wanted_block_size_props:
  assumes "0 < n" and "n < 2 ^ 31"
  shows "aligned (wanted_block_size n)" and "unat n + 8 \<le> unat (wanted_block_size n)"
    and "unat (wanted_block_size n) < unat n + 16"
proof -
  let ?w = "n + 8"
  have nn: "unat n < 2 ^ 31" using assms(2) by (simp add: word_less_nat_alt)
  then have w: "unat ?w = unat n + 8" by (simp add: unat_add_u32)
  have m: "unat (?w AND 7) = unat ?w mod 8"
  proof -
    have "unat (?w AND 7) = unat ?w AND mask 3" by (simp add: unsigned_and_eq mask_eq_exp_minus_1)
    then show ?thesis by (simp add: take_bit_eq_mask [symmetric] take_bit_eq_mod)
  qed
  have m8: "unat ?w mod 8 < 8" by simp
  have u: "unat (?w + (8 - (?w AND 7))) = unat ?w + (8 - unat ?w mod 8)"
  proof -
    have "unat (8 - (?w AND 7)) = 8 - unat ?w mod 8"
      using m m8 by (subst unat_sub_u32) (simp_all add: word_le_nat_alt del: unat_sub)
    then show ?thesis using w nn by (subst unat_add_u32) simp_all
  qed
  have e: "wanted_block_size n = (if ?w AND 7 \<noteq> 0 then ?w + (8 - (?w AND 7)) else ?w)"
    using assms(1) by (simp add: wanted_block_size_def portBYTE_ALIGNMENT_def portBYTE_ALIGNMENT_MASK_def Let_def)
  have r: "8 dvd x + (8 - x mod 8)" for x :: nat
    by presburger
  show "aligned (wanted_block_size n)"
  proof (cases "?w AND 7 = 0")
    case True
    then have "wanted_block_size n = ?w" by (simp only: e) simp
    then show ?thesis using True by (simp only: aligned_iff and_7_iff)
  next
    case False
    then have "wanted_block_size n = ?w + (8 - (?w AND 7))" by (simp only: e) simp
    then show ?thesis by (simp only: aligned_iff u r)
  qed
  show "unat n + 8 \<le> unat (wanted_block_size n)" "unat (wanted_block_size n) < unat n + 16"
    using w u m m8 unfolding e by (auto simp: unat_eq_0 [symmetric] simp del: unat_eq_0)
qed

section \<open>Free space\<close>

lemma free_sum:
  assumes "tiling a bs e"
  shows "unat (sum_list (map bsize (free_of bs))) = sum_list (map (\<lambda>b. unat (bsize b)) (free_of bs))"
    and "unat a + sum_list (map (\<lambda>b. unat (bsize b)) (free_of bs)) \<le> unat e"
proof -
  have "unat a + sum_list (map (\<lambda>b. unat (bsize b)) (free_of bs)) \<le> unat e
    \<and> unat (sum_list (map bsize (free_of bs))) = sum_list (map (\<lambda>b. unat (bsize b)) (free_of bs))"
    using assms
  proof (induction bs arbitrary: a)
    case Nil
    then show ?case by simp
  next
    case (Cons b bs)
    let ?s = "sum_list (map (\<lambda>b. unat (bsize b)) (free_of bs))"
    from Cons have IH: "unat (a + bsize b) + ?s \<le> unat e" "unat (sum_list (map bsize (free_of bs))) = ?s"
      and "a < a + bsize b" by auto
    then have "unat (a + bsize b) = unat a + unat (bsize b)" using no_wrap_unat unat_add_u32 by blast
    then show ?case using IH unat_less_u32 [of e] by (auto simp: unat_add_u32)
  qed
  then show "unat (sum_list (map bsize (free_of bs))) = sum_list (map (\<lambda>b. unat (bsize b)) (free_of bs))"
    and "unat a + sum_list (map (\<lambda>b. unat (bsize b)) (free_of bs)) \<le> unat e" by blast+
qed

lemma free_block_le:
  assumes "tiling a bs e" and "b \<in> set (free_of bs)"
  shows "bsize b \<le> sum_list (map bsize (free_of bs))"
proof -
  have "unat (bsize b) \<le> sum_list (map (\<lambda>b. unat (bsize b)) (free_of bs))"
    by (rule member_le_sum_list) (use assms(2) in auto)
  then show ?thesis using free_sum(1) [OF assms(1)] by (simp add: word_le_nat_alt)
qed

section \<open>The walk for a block\<close>

lemma first_fit_chain:
  assumes "chain (pxNextFreeBlock h) prev (map baddr fs) e" and "\<forall>b\<in>set fs. xBlockSize h (baddr b) = bsize b"
    and "\<forall>b\<in>set fs. baddr b \<noteq> 0" and "e \<noteq> 0" and "pxNextFreeBlock h e = 0"
  shows "first_fit w h prev (pxNextFreeBlock h prev) =
    Some (last (prev # map baddr (takeWhile (\<lambda>b. bsize b < w) fs)), hd (map baddr (dropWhile (\<lambda>b. bsize b < w) fs) @ [e]))"
  using assms
proof (induction fs arbitrary: prev)
  case Nil
  then show ?case by (subst first_fit.simps) simp
next
  case (Cons b fs)
  have "pxNextFreeBlock h (baddr b) \<noteq> 0" using Cons.prems by (cases fs) auto
  moreover have "pxNextFreeBlock h prev = baddr b" "xBlockSize h (baddr b) = bsize b" using Cons.prems by simp_all
  moreover have "bsize b < w \<Longrightarrow> first_fit w h (baddr b) (pxNextFreeBlock h (baddr b)) =
    Some (last (baddr b # map baddr (takeWhile (\<lambda>b. bsize b < w) fs)), hd (map baddr (dropWhile (\<lambda>b. bsize b < w) fs) @ [e]))"
    by (rule Cons.IH) (use Cons.prems in auto)
  ultimately show ?case by (subst first_fit.simps) simp
qed

lemma alloc_blocks_None: "alloc_blocks w bs = None \<longleftrightarrow> (\<forall>b\<in>set (free_of bs). bsize b < w)"
  by (induction bs) (auto simp: not_le)

lemma alloc_blocks_first:
  assumes "bs = L @ b # R" and "\<not> bused b" and "w \<le> bsize b" and "\<forall>x\<in>set (free_of L). bsize x < w"
  shows "alloc_blocks w bs = Some (baddr b, L @ carve w b @ R)"
  using assms by (induction L arbitrary: bs) (auto simp: not_le)

lemma first_fit_split:
  assumes "dropWhile (\<lambda>b. bsize b < w) (free_of bs) \<noteq> []"
  obtains L b R where "bs = L @ b # R" and "\<not> bused b" and "w \<le> bsize b"
    and "\<forall>x\<in>set (free_of L). bsize x < w" and "takeWhile (\<lambda>b. bsize b < w) (free_of bs) = free_of L"
    and "hd (dropWhile (\<lambda>b. bsize b < w) (free_of bs)) = b"
proof -
  let ?Q = "\<lambda>b. bused b \<or> bsize b < w"
  have tw: "takeWhile (\<lambda>b. bsize b < w) (free_of bs) = free_of (takeWhile ?Q bs)"
    and dw: "dropWhile (\<lambda>b. bsize b < w) (free_of bs) = free_of (dropWhile ?Q bs)"
    by (induction bs) auto
  then have "dropWhile ?Q bs \<noteq> []" using assms by (metis filter.simps(1))
  then obtain b R where b: "dropWhile ?Q bs = b # R" by (cases "dropWhile ?Q bs") auto
  have nb: "\<not> bused b" "w \<le> bsize b" using hd_dropWhile [of ?Q bs] b by (auto simp: not_less)
  have "bs = takeWhile ?Q bs @ b # R" by (metis b takeWhile_dropWhile_id)
  moreover have "\<forall>x\<in>set (free_of (takeWhile ?Q bs)). bsize x < w" using set_takeWhileD by fastforce
  ultimately show ?thesis by (rule that [OF _ nb _ tw]) (simp add: dw b nb)
qed

lemma put_free_used:
  assumes "L \<noteq> [] \<Longrightarrow> bused (last L)" and "R \<noteq> [] \<Longrightarrow> bused (hd R)"
  shows "put_free L a s R = L @ Blk a s False # R"
  using assms by (cases R) (auto simp: put_free_def Let_def)

lemma separated_split:
  "separated (L @ b # R) \<longleftrightarrow> separated L \<and> separated R \<and> (L \<noteq> [] \<longrightarrow> bused (last L) \<or> bused b)
    \<and> (R \<noteq> [] \<longrightarrow> bused b \<or> bused (hd R))"
  by (auto simp: successively_append_iff successively_Cons)

lemma heap_repD:
  assumes "heap_rep base h bs"
  shows "heap_frame base h" "tiling base bs (pxEnd h)" "free_list h (free_of bs)" "used_ok h bs" "aligned base"
    "\<And>b. b \<in> set bs \<Longrightarrow> aligned (bsize b)" "separated bs"
    "xFreeBytesRemaining h = sum_list (map bsize (free_of bs))"
    "xMinimumEverFreeBytesRemaining h \<le> xFreeBytesRemaining h"
  using assms unfolding heap_rep_def by blast+

lemma heap_pos:
  assumes "heap_rep base h bs"
  shows "0 < pxEnd h" and "\<And>b. b \<in> set bs \<Longrightarrow> baddr b \<noteq> 0" and "\<And>b. b \<in> set bs \<Longrightarrow> \<not> bit (bsize b) 31"
    and "\<And>b. b \<in> set bs \<Longrightarrow> aligned (baddr b)"
proof -
  note D = heap_repD [OF assms]
  have b: "0 < base" "pxEnd h < 2 ^ 31" using D(1) by (auto simp: heap_frame_def)
  show "0 < pxEnd h" using b(1) tiling_le [OF D(2)] by (rule less_le_trans)
  show "baddr b \<noteq> 0" if "b \<in> set bs" for b using b(1) tiling_bounds(1) [OF D(2) that] by auto
  show "\<not> bit (bsize b) 31" if "b \<in> set bs" for b
  proof -
    note T = tiling_bounds [OF D(2) that]
    have "bsize b \<le> baddr b + bsize b" using T(2) by (auto simp: no_wrap_unat word_le_nat_alt unat_add_u32)
    then have "bsize b < 2 ^ 31" using T(3) b(2) by (auto intro: le_less_trans)
    then show ?thesis by (simp add: top_bit_less)
  qed
  have al: "aligned a \<Longrightarrow> tiling a xs e \<Longrightarrow> \<forall>b\<in>set xs. aligned (bsize b) \<Longrightarrow> \<forall>b\<in>set xs. aligned (baddr b)" for a xs e
    by (induction xs arbitrary: a) (auto intro: aligned_add)
  show "aligned (baddr b)" if "b \<in> set bs" for b using al [OF D(5,2)] D(6) that by blast
qed

end
