(* ===== verification/Heap4_Correct.thy ===== *)
theory Heap4_Correct
  imports Heap4_Alloc
begin

text \<open>The allocator refines the abstract one: allocation, release and initialisation.\<close>

section \<open>Allocation\<close>

lemma used_ok_only:
  assumes "used_ok h bs" and "only_nodes S h h'" and "\<And>b. b \<in> set bs \<Longrightarrow> bused b \<Longrightarrow> baddr b \<notin> S"
  shows "used_ok h' bs"
  using assms only_nodesD(7,8) [OF assms(2)] unfolding used_ok_def by simp

text \<open>The free list without its block \<open>b\<close>, as \<open>pvPortMalloc\<close> unlinks it.\<close>

lemma unlink_free:
  assumes "free_list h (fl @ b # fr)" and "distinct (xStart_at h # map baddr (fl @ b # fr))"
  shows "free_list (set_next_free (last (xStart_at h # map baddr fl)) (pxNextFreeBlock h (baddr b)) h) (fl @ fr)"
proof -
  let ?it = "last (xStart_at h # map baddr fl)" and ?nx = "pxNextFreeBlock h"
  have ch: "chain ?nx (xStart_at h) (map baddr fl @ baddr b # map baddr fr) (pxEnd h)"
    using assms(1) by (simp add: free_list_def)
  have nb: "?nx (baddr b) = hd (map baddr fr @ [pxEnd h])"
    using chain_last [of ?nx "xStart_at h" "map baddr fl @ [baddr b]" "map baddr fr"] ch by simp
  have "chain (?nx(?it := hd (map baddr fr @ [pxEnd h]))) (xStart_at h) (map baddr fl @ map baddr fr) (pxEnd h)"
  proof (cases fl rule: rev_cases)
    case Nil
    have "chain (?nx(xStart_at h := hd (map baddr fr @ [pxEnd h]))) (xStart_at h) (map baddr fr) (pxEnd h)"
    proof (subst chain_start, intro conjI impI)
      assume r: "map baddr fr \<noteq> []"
      have "chain ?nx (hd (map baddr fr)) (tl (map baddr fr)) (pxEnd h)"
        using chain_suffix [of ?nx "xStart_at h" "map baddr fl @ [baddr b]" "map baddr fr"] ch r by simp
      then show "chain (?nx(xStart_at h := hd (map baddr fr @ [pxEnd h]))) (hd (map baddr fr)) (tl (map baddr fr)) (pxEnd h)"
        by (subst chain_upd) (use assms(2) hd_in [OF r, of "xStart_at h"] in auto)
    qed simp
    then show ?thesis using Nil by simp
  next
    case (snoc xs q)
    have "distinct (xStart_at h # map baddr xs @ baddr q # [baddr b] @ map baddr fr)"
      using assms(2) snoc by simp
    from chain_skip [OF _ this, of ?nx "pxEnd h"] ch snoc show ?thesis by simp
  qed
  then show ?thesis using assms(1) by (auto simp: free_list_def nb)
qed

lemma malloc_none:
  assumes "heap_rep base h bs" and "n = 0 \<or> bit n 31 \<or> alloc_blocks (wanted_block_size n) bs = None"
  shows "heap_malloc n h = Some (0, h)"
proof -
  note D = heap_repD [OF assms(1)] and P = heap_pos [OF assms(1)]
  have F: "xBlockSize h (pxEnd h) = 0" "pxNextFreeBlock h (pxEnd h) = 0" "xBlockAllocatedBit h = push_bit 31 1"
    using D(1) by (auto simp: heap_frame_def)
  have pe: "pxEnd h \<noteq> 0" using P(1) by auto
  consider "bit n 31" | "n = 0" | "\<not> bit n 31" "n \<noteq> 0" "alloc_blocks (wanted_block_size n) bs = None"
    using assms(2) by (cases "bit n 31"; cases "n = 0") auto
  then show ?thesis
  proof cases
    case 1
    then have "n AND push_bit 31 1 \<noteq> 0" by (simp only: and_top_iff) simp
    then show ?thesis using pe F by (simp add: heap_malloc_def del: push_bit_of_1)
  next
    case 2
    then show ?thesis using pe F by (simp add: heap_malloc_def wanted_block_size_def Let_def)
  next
    case 3
    let ?w = "wanted_block_size n"
    have "first_fit ?w h (xStart_at h) (pxNextFreeBlock h (xStart_at h)) =
        Some (last (xStart_at h # map baddr (free_of bs)), pxEnd h)"
    proof -
      have small: "\<forall>b\<in>set (free_of bs). bsize b < ?w" using 3 alloc_blocks_None by blast
      then have tw: "takeWhile (\<lambda>b. bsize b < ?w) (free_of bs) = free_of bs"
        "dropWhile (\<lambda>b. bsize b < ?w) (free_of bs) = []" by (simp_all add: takeWhile_eq_all_conv)
      show ?thesis
        using first_fit_chain [of h "xStart_at h" "free_of bs" "pxEnd h" ?w, unfolded tw] D(3) P(2) pe F
        by (simp add: free_list_def)
    qed
    moreover have "n AND push_bit 31 1 = 0" using 3(1) by (simp only: and_top_iff) simp
    ultimately show ?thesis using pe F by (simp add: heap_malloc_def Let_def del: push_bit_of_1)
  qed
qed

text \<open>The end of \<open>pvPortMalloc\<close>: the counters and the header of the block that is handed out.\<close>

definition take_block :: "u32 \<Rightarrow> heap4 \<Rightarrow> heap4" where
  "take_block a h =
     (let h = h\<lparr>xFreeBytesRemaining := xFreeBytesRemaining h - xBlockSize h a\<rparr>;
          h = (if xFreeBytesRemaining h < xMinimumEverFreeBytesRemaining h
               then h\<lparr>xMinimumEverFreeBytesRemaining := xFreeBytesRemaining h\<rparr> else h)
      in set_next_free a 0 (set_block_size a (xBlockSize h a OR xBlockAllocatedBit h) h))"

lemma take_block_fields [simp]:
  "pxEnd (take_block a h) = pxEnd h" "xStart_at (take_block a h) = xStart_at h"
  "xBlockAllocatedBit (take_block a h) = xBlockAllocatedBit h"
  "pxNextFreeBlock (take_block a h) = (pxNextFreeBlock h)(a := 0)"
  "xBlockSize (take_block a h) = (xBlockSize h)(a := xBlockSize h a OR xBlockAllocatedBit h)"
  "xFreeBytesRemaining (take_block a h) = xFreeBytesRemaining h - xBlockSize h a"
  "xMinimumEverFreeBytesRemaining (take_block a h)
     = min (xMinimumEverFreeBytesRemaining h) (xFreeBytesRemaining h - xBlockSize h a)"
  by (auto simp: take_block_def Let_def min_def)

lemma frame_only:
  assumes "heap_frame base h" and "only_nodes S h h'" and "pxEnd h \<notin> S" and "xBlockSize h' (xStart_at h) = 0"
  shows "heap_frame base h'"
  using assms(1,4) only_nodesD [OF assms(2)] assms(3) by (simp add: heap_frame_def)

lemma tiling_outside:
  assumes "tiling base bs (pxEnd h)" and "heap_frame base h" and "b \<in> set bs"
  shows "baddr b \<noteq> xStart_at h" and "baddr b \<noteq> pxEnd h"
  using tiling_bounds(1) [OF assms(1,3)] tiling_less [OF assms(1,3)] assms(2) by (auto simp: heap_frame_def)

lemma free_list_off:
  assumes "free_list h fs" and "a \<notin> set (xStart_at h # map baddr fs)" and "pxEnd h' = pxEnd h" and "xStart_at h' = xStart_at h"
    and "pxNextFreeBlock h' = (pxNextFreeBlock h)(a := n)" and "\<And>b. b \<in> set fs \<Longrightarrow> xBlockSize h' (baddr b) = xBlockSize h (baddr b)"
  shows "free_list h' fs"
  using assms by (simp add: free_list_def)

lemma take_block_rep:
  assumes fr: "heap_frame base h" and T: "tiling base (L @ Blk a w True # R) (pxEnd h)"
    and fl: "free_list h (free_of (L @ R))" and used: "used_ok h (L @ R)" and ab: "aligned base"
    and al: "\<forall>b\<in>set (L @ Blk a w True # R). aligned (bsize b)" and sep: "separated (L @ Blk a w True # R)"
    and sz: "xBlockSize h a = w" and free: "xFreeBytesRemaining h = sum_list (map bsize (free_of (L @ R))) + w"
  shows "heap_rep base (take_block a h) (L @ Blk a w True # R)"
proof -
  have a: "a \<noteq> xStart_at h" "a \<noteq> pxEnd h" using tiling_outside [OF T fr, of "Blk a w True"] by auto
  have na: "baddr b \<noteq> a" if "b \<in> set (L @ R)" for b
    using tiling_distinct [OF T] that by (auto simp: image_iff)
  have bit: "xBlockAllocatedBit h = push_bit 31 1" using fr by (simp add: heap_frame_def)
  have "heap_frame base (take_block a h)" using fr a by (simp add: heap_frame_def)
  moreover have "free_list (take_block a h) (free_of (L @ Blk a w True # R))"
  proof -
    have "free_list (take_block a h) (free_of (L @ R))"
      by (rule free_list_off [OF fl, of a _ 0]) (use a na in auto)
    then show ?thesis by simp
  qed
  moreover have "used_ok (take_block a h) (L @ Blk a w True # R)"
    using used na sz bit by (auto simp: used_ok_def simp del: push_bit_of_1)
  moreover have "xMinimumEverFreeBytesRemaining (take_block a h) \<le> xFreeBytesRemaining (take_block a h)"
    by (simp add: min_le_iff_disj)
  ultimately show ?thesis using T ab al sep sz free by (simp add: heap_rep_def)
qed

lemma malloc_some:
  assumes rep: "heap_rep base h bs" and n: "n \<noteq> 0" "\<not> bit n 31"
    and al: "alloc_blocks (wanted_block_size n) bs = Some (a, bs')"
  shows "\<exists>h'. heap_malloc n h = Some (a + 8, h') \<and> heap_rep base h' bs'"
proof -
  let ?w = "wanted_block_size n"
  note D = heap_repD [OF rep] and P = heap_pos [OF rep]
  have F: "xBlockSize h (pxEnd h) = 0" "pxNextFreeBlock h (pxEnd h) = 0" "xBlockAllocatedBit h = push_bit 31 1"
    "xBlockSize h (xStart_at h) = 0" using D(1) by (auto simp: heap_frame_def)
  have pe: "pxEnd h \<noteq> 0" using P(1) by auto
  have W: "aligned ?w" "0 < ?w"
  proof -
    have "0 < n" "n < 2 ^ 31" using n top_bit_less by (auto simp: word_neq_0_conv)
    note wanted_block_size_props [OF this]
    then show "aligned ?w" "0 < ?w" by (auto simp: word_less_nat_alt)
  qed
  have "\<not> (\<forall>b\<in>set (free_of bs). bsize b < ?w)" using al alloc_blocks_None [of ?w bs] by simp
  then have dw: "dropWhile (\<lambda>b. bsize b < ?w) (free_of bs) \<noteq> []" by (simp add: dropWhile_eq_Nil_conv)
  from first_fit_split [OF dw] obtain L b R where
    S: "bs = L @ b # R" "\<not> bused b" "?w \<le> bsize b" "\<forall>x\<in>set (free_of L). bsize x < ?w"
      "takeWhile (\<lambda>b. bsize b < ?w) (free_of bs) = free_of L" "hd (dropWhile (\<lambda>b. bsize b < ?w) (free_of bs)) = b"
    by blast
  have res: "a = baddr b" "bs' = L @ carve ?w b @ R" using alloc_blocks_first [OF S(1-4)] al by simp_all
  obtain s where b: "b = Blk a s False" using S(2) res(1) by (cases b) auto
  have T: "tiling base (L @ Blk a s False # R) (pxEnd h)" using D(2) S(1) b by simp
  let ?prev = "last (xStart_at h # map baddr (free_of L))"
  have ff: "first_fit ?w h (xStart_at h) (pxNextFreeBlock h (xStart_at h)) = Some (?prev, a)"
  proof -
    have "hd (map baddr (dropWhile (\<lambda>b. bsize b < ?w) (free_of bs)) @ [pxEnd h]) = a"
      using dw S(6) b by (cases "dropWhile (\<lambda>b. bsize b < ?w) (free_of bs)") auto
    then show ?thesis
      using first_fit_chain [of h "xStart_at h" "free_of bs" "pxEnd h" ?w] D(3) P(2) pe F S(5)
      by (simp add: free_list_def)
  qed
  have mem: "b \<in> set bs" "a \<noteq> pxEnd h" "?w \<le> s" "\<not> bit s 31" "aligned s" "aligned a"
    using S(1,3) b tiling_less [OF D(2), of b] P(3,4) [of b] D(6) [of b] by auto
  have fsum: "xFreeBytesRemaining h = sum_list (map bsize (free_of L)) + s + sum_list (map bsize (free_of R))"
    using D(8) S(1) b by (simp add: ac_simps)
  have le: "?w \<le> xFreeBytesRemaining h"
    using free_block_le [OF D(2), of b] S(1-3) D(8) by (auto intro: order_trans)
  have sz: "xBlockSize h a = s" using D(3) S(1) b by (simp add: free_list_def)
  have ch: "chain (pxNextFreeBlock h) (xStart_at h) (map baddr (free_of L) @ a # map baddr (free_of R)) (pxEnd h)"
    using D(3) S(1) b by (simp add: free_list_def)
  have nprev: "pxNextFreeBlock h ?prev = a"
    using chain_last [OF ch] by (simp del: last.simps)
  let ?h1 = "set_next_free ?prev (pxNextFreeBlock h a) h"
  have dist: "distinct (xStart_at h # map baddr (free_of L @ b # free_of R))"
  proof -
    have "distinct (map baddr bs)" by (rule tiling_distinct [OF D(2)])
    moreover have "xStart_at h \<notin> baddr ` set bs" using tiling_outside(1) [OF D(2,1)] by force
    ultimately show ?thesis unfolding S(1) by (auto simp: distinct_map_filter)
  qed
  have fl1: "free_list ?h1 (free_of L @ free_of R)"
    using unlink_free [of h "free_of L" b "free_of R"] D(3) S(1,2) dist b by simp
  have tb: "n AND push_bit 31 1 = 0" using n(2) by (simp only: and_top_iff) simp
  have pne: "pxNextFreeBlock h ?prev + xHeapStructSize = a + 8" using nprev by simp
  have M: "heap_malloc n h = map_option (\<lambda>h. (a + 8, take_block a h))
      (if s - ?w > 16 then prvInsertBlockIntoFreeList (a + ?w) (set_block_size a ?w (set_block_size (a + ?w) (s - ?w) ?h1))
       else Some ?h1)"
    using pe F tb W(2) le ff mem(2) sz pne
    by (simp add: heap_malloc_def take_block_def Let_def map_option_case bind_map_option comp_def
        split: option.split del: push_bit_of_1 last.simps)
  have pin: "?prev \<in> insert (xStart_at h) (baddr ` set (free_of L))"
    using last_in_set [of "xStart_at h # map baddr (free_of L)"] by auto
  have out: "baddr x \<noteq> xStart_at h" "baddr x \<noteq> pxEnd h" "x \<noteq> b \<Longrightarrow> baddr x \<noteq> a" if "x \<in> set bs" for x
    using tiling_outside [OF D(2,1) that] tiling_distinct [OF D(2)] that mem(1) b
    by (auto simp: distinct_map inj_on_def)
  have ax: "a \<noteq> xStart_at h" using out(1) [OF mem(1)] b by simp
  have oLR: "baddr x \<noteq> a" if "x \<in> set (L @ R)" for x
    using tiling_distinct [OF T] that by (auto simp: image_iff)
  let ?S = "insert (xStart_at h) (baddr ` set (free_of (L @ R)))"
  have o1: "only_nodes ?S h ?h1" using pin by (intro only_nodes_step only_nodes_refl) auto
  have dLR: "distinct (map baddr (L @ R))" using tiling_distinct [OF T] by simp
  have usedS: "baddr x \<notin> ?S" if "x \<in> set (L @ R)" "bused x" for x
  proof -
    have "x \<in> set bs" using that(1) S(1) by auto
    moreover have "baddr x \<noteq> baddr y" if "y \<in> set (free_of (L @ R))" for y
    proof -
      have "inj_on baddr (set (L @ R))" using dLR by (simp only: distinct_map)
      moreover have "y \<in> set (L @ R)" "x \<noteq> y" using that \<open>bused x\<close> by auto
      ultimately show ?thesis using \<open>x \<in> set (L @ R)\<close> by (auto dest: inj_onD)
    qed
    ultimately show ?thesis using out(1) by blast
  qed
  have eS: "pxEnd h \<notin> ?S"   proof -
    have "pxEnd h \<noteq> baddr y" if "y \<in> set (L @ R)" for y using out(2) [of y] that S(1) by auto
    moreover have "pxEnd h \<noteq> xStart_at h" using D(1) tiling_le [OF D(2)] by (auto simp: heap_frame_def)
    ultimately show ?thesis by auto
  qed
  have f1: "heap_frame base ?h1" by (rule frame_only [OF D(1) o1 eS]) (use F in simp)
  have u1: "used_ok ?h1 (L @ R)"
    by (rule used_ok_only [OF _ o1 usedS]) (use D(4) S(1) in \<open>auto simp: used_ok_def\<close>)
  have sep: "separated L" "separated R" "L \<noteq> [] \<Longrightarrow> bused (last L)" "R \<noteq> [] \<Longrightarrow> bused (hd R)"
    using D(7) S(1) b by (auto simp: separated_split)
  have alg: "\<forall>x\<in>set (L @ R). aligned (bsize x)" using D(6) S(1) by auto
  show ?thesis
  proof (cases "s - ?w > 16")
    case False
    have c: "bs' = L @ Blk a s True # R" using res(2) False b by (simp add: carve_def)
    have "heap_rep base (take_block a ?h1) (L @ Blk a s True # R)"
      by (rule take_block_rep [OF f1 _ _ u1 D(5)])
        (use T fl1 alg mem(5) sep sz fsum in \<open>auto simp: separated_split ac_simps\<close>)
    then show ?thesis using M False c by auto
  next
    case True
    let ?new = "a + ?w" and ?r = "s - ?w"
    let ?h2 = "set_block_size a ?w (set_block_size ?new ?r ?h1)" and ?L = "L @ [Blk a ?w True]"
    have c: "bs' = L @ Blk a ?w True # Blk ?new ?r False # R" using res(2) True b by (simp add: carve_def)
    have ws: "?w < s" using True mem(3) by (cases "?w = s") (auto simp: order.not_eq_order_implies_strict)
    have nw: "a < a + ?w" "a + ?w < a + s" using no_wrap_part [OF _ W(2) ws] T by auto
    have T1: "tiling base (?L @ Blk ?new ?r False # R) (pxEnd h)" using T nw by (simp add: add.assoc)
    then have T2: "tiling base (?L @ Blk ?new ?r False # R) (pxEnd ?h2)" by simp
    have new: "?new \<noteq> xStart_at h" "?new \<noteq> pxEnd h"
      using tiling_outside [OF T1 D(1), of "Blk ?new ?r False"] by auto
    let ?S2 = "insert a (insert ?new ?S)"
    have "only_nodes ?S2 h ?h1" by (rule only_nodes_mono [OF _ o1]) auto
    then have o2: "only_nodes ?S2 h ?h2" by (intro only_nodes_step(2)) auto
    have f2: "heap_frame base ?h2"
      by (rule frame_only [OF D(1) o2]) (use eS new mem(2) ax F in auto)
    have nLR: "baddr x \<noteq> ?new" if "x \<in> set (L @ R)" for x
      using tiling_distinct [OF T2] that by (auto simp: image_iff)
    have fl2: "free_list ?h2 (free_of ?L @ free_of R)"
      using fl1 oLR nLR by (auto simp: free_list_def)
    have pf: "put_free ?L ?new ?r R = L @ Blk a ?w True # Blk ?new ?r False # R"
      by (subst put_free_used) (use sep in auto)
    have s2: "xBlockSize ?h2 ?new = ?r" using W(2) by auto
    obtain h3 where h3: "prvInsertBlockIntoFreeList ?new ?h2 = Some h3"
      "free_list h3 (free_of (L @ Blk ?new ?r False # R))"
      "only_nodes ({xStart_at h, ?new} \<union> baddr ` set (free_of (?L @ R))) ?h2 h3" "xBlockSize h3 (xStart_at h) = 0"
      using insert_correct [OF T2 f2 fl2 s2] unfolding pf by auto
    let ?S3 = "{xStart_at h, ?new} \<union> baddr ` set (free_of (?L @ R))"
    have S3: "?S3 \<subseteq> insert ?new ?S" by auto
    note o3 = only_nodesD [OF h3(3)]
    have a3: "a \<notin> ?S3" using ax nw(1) oLR by (auto simp: image_iff)
    have f3: "heap_frame base h3" by (rule frame_only [OF f2 h3(3)]) (use eS new(2) h3(4) in auto)
    have T3: "tiling base (L @ Blk a ?w True # Blk ?new ?r False # R) (pxEnd h3)" using T2 o3(1) by simp
    have used3: "used_ok h3 (L @ Blk ?new ?r False # R)"
    proof -
      have "used_ok ?h2 (L @ R)"
        by (rule used_ok_only [OF _ o2]) (use D(4) S(1) usedS oLR nLR in \<open>auto simp: used_ok_def\<close>)
      then have "used_ok h3 (L @ R)"
        by (rule used_ok_only [OF _ h3(3)]) (use usedS nLR S3 in blast)
      then show ?thesis by (auto simp: used_ok_def)
    qed
    have "heap_rep base (take_block a h3) (L @ Blk a ?w True # Blk ?new ?r False # R)"
    proof (rule take_block_rep [OF f3 T3 h3(2) used3 D(5)])
      show "\<forall>x\<in>set (L @ Blk a ?w True # Blk ?new ?r False # R). aligned (bsize x)"
        using alg W(1) aligned_diff [OF mem(5) W(1) mem(3)] by auto
      show "separated (L @ Blk a ?w True # Blk ?new ?r False # R)"
        using sep by (auto simp: successively_append_iff successively_Cons)
      show "xBlockSize h3 a = ?w" using o3(8) [OF a3] nw(1) by simp
      show "xFreeBytesRemaining h3 = sum_list (map bsize (free_of (L @ Blk ?new ?r False # R))) + ?w"
        using o3(4) fsum by (simp add: ac_simps)
    qed
    then show ?thesis using M True c h3(1) by auto
  qed
qed

section \<open>Release\<close>

lemma put_free_members:
  "b \<in> set (put_free L a s R) \<Longrightarrow> bused b \<Longrightarrow> b \<in> set (L @ R)"
  by (auto simp: put_free_def Let_def split: list.splits if_splits dest: in_set_butlastD)

lemma butlast_last: "L \<noteq> [] \<Longrightarrow> \<not> bused (last L) \<Longrightarrow> \<exists>L' p ps. L = L' @ [Blk p ps False]"
  by (metis append_butlast_last_id blk.collapse bused_def)

lemma put_free_sum:
  "sum_list (map bsize (free_of (put_free L a s R)))
    = sum_list (map bsize (free_of L)) + s + sum_list (map bsize (free_of R))"
proof (cases "L \<noteq> [] \<and> \<not> bused (last L)")
  case True
  then obtain L' p ps where "L = L' @ [Blk p ps False]" using butlast_last by blast
  then show ?thesis by (cases R) (simp_all add: put_free_def Let_def ac_simps)
next
  case False
  then show ?thesis by (cases R) (auto simp: put_free_def Let_def ac_simps)
qed

lemma put_free_aligned:
  assumes "\<forall>b\<in>set (L @ R). aligned (bsize b)" and "aligned s"
  shows "\<forall>b\<in>set (put_free L a s R). aligned (bsize b)"
proof (cases "L \<noteq> [] \<and> \<not> bused (last L)")
  case True
  then obtain L' p ps where "L = L' @ [Blk p ps False]" using butlast_last by blast
  then show ?thesis using assms by (cases R) (auto simp: put_free_def Let_def intro: aligned_add)
next
  case False
  then show ?thesis using assms by (cases R) (auto simp: put_free_def Let_def intro: aligned_add)
qed

lemma put_free_separated:
  assumes "separated L" and "separated R"
  shows "separated (put_free L a s R)"
proof (cases "L \<noteq> [] \<and> \<not> bused (last L)")
  case True
  then obtain L' p ps where "L = L' @ [Blk p ps False]" using butlast_last by blast
  then show ?thesis using assms
    by (cases R) (auto simp: put_free_def Let_def successively_append_iff successively_Cons)
next
  case False
  then show ?thesis using assms
    by (cases R) (auto simp: put_free_def Let_def successively_append_iff successively_Cons)
qed

lemma release_split:
  assumes "tiling base (L @ Blk a s u # R) e"
  shows "release_block a (L @ Blk a s u # R) = put_free L a s R"
proof -
  have "\<forall>b\<in>set L. baddr b \<noteq> a" using tiling_distinct [OF assms] by (auto simp: image_iff)
  then have "takeWhile (\<lambda>b. baddr b \<noteq> a) (L @ Blk a s u # R) = L"
    "dropWhile (\<lambda>b. baddr b \<noteq> a) (L @ Blk a s u # R) = Blk a s u # R"
    by (simp_all add: takeWhile_append dropWhile_append)
  then show ?thesis by (simp add: release_block_def)
qed

lemma free_ignored: "\<not> heap_free_checks pv h \<Longrightarrow> heap_free pv h = Some h"
  by (simp add: heap_free_def Let_def)

lemma free_ok:
  assumes rep: "heap_rep base h bs" and mem: "Blk a s True \<in> set bs"
  shows "\<exists>h'. heap_free (a + 8) h = Some h' \<and> heap_rep base h' (release_block a bs)
    \<and> \<not> heap_free_checks (a + 8) h'"
proof -
  note D = heap_repD [OF rep] and P = heap_pos [OF rep]
  obtain L R where bs: "bs = L @ Blk a s True # R" using mem by (auto simp: in_set_conv_decomp)
  have T: "tiling base (L @ Blk a s True # R) (pxEnd h)" using D(2) bs by simp
  have bit: "xBlockAllocatedBit h = push_bit 31 1" using D(1) by (simp add: heap_frame_def)
  have hd: "xBlockSize h a = s OR push_bit 31 1" "pxNextFreeBlock h a = 0"
    using D(4) bs by (auto simp: used_ok_def)
  have s31: "\<not> bit s 31" using P(3) [OF mem] by simp
  have a8: "a + 8 \<noteq> 0"
  proof -
    note B = tiling_bounds [OF D(2) mem]
    have "aligned s" "aligned a" "s \<noteq> 0" using D(6) [OF mem] P(4) [OF mem] B(2) by auto
    then have "8 \<le> unat s" by (auto simp: aligned_iff unat_gt_0 dvd_imp_le)
    then have "unat a + unat (8 :: u32) < 2 ^ 32" using B(2) by (simp add: no_wrap_unat)
    then have "unat (a + 8) = unat a + 8" by (simp add: unat_add_u32)
    then show ?thesis by auto
  qed
  let ?h1 = "set_block_size a s h"
  let ?h2 = "?h1\<lparr>xFreeBytesRemaining := xFreeBytesRemaining h + s\<rparr>"
  have ck: "heap_free_checks (a + 8) h"
    using a8 hd bit top_bit_set by (simp add: heap_free_checks_def del: push_bit_of_1)
  have F: "heap_free (a + 8) h = prvInsertBlockIntoFreeList a ?h2"
    using ck hd bit top_bit_clear [OF s31] by (simp add: heap_free_def Let_def del: push_bit_of_1)
  have out: "a \<noteq> xStart_at h" "a \<noteq> pxEnd h" using tiling_outside [OF D(2,1) mem] by simp_all
  have aLR: "baddr x \<noteq> a" if "x \<in> set (L @ R)" for x using tiling_distinct [OF T] that by (auto simp: image_iff)
  have f2: "heap_frame base ?h2" using D(1) out by (simp add: heap_frame_def)
  have T2: "tiling base (L @ Blk a s True # R) (pxEnd ?h2)" using T by simp
  have fl2: "free_list ?h2 (free_of L @ free_of R)" using D(3) aLR by (auto simp: free_list_def bs)
  have s2: "xBlockSize ?h2 a = s" by simp
  obtain h3 where h3: "prvInsertBlockIntoFreeList a ?h2 = Some h3" "free_list h3 (free_of (put_free L a s R))"
      "only_nodes ({xStart_at h, a} \<union> baddr ` set (free_of (L @ R))) ?h2 h3" "xBlockSize h3 (xStart_at h) = 0"
      "xBlockSize h3 a = s \<or> a \<in> baddr ` set (free_of (put_free L a s R))"
    using insert_correct [OF T2 f2 fl2 s2] by auto
  let ?S = "{xStart_at h, a} \<union> baddr ` set (free_of (L @ R))"
  note o3 = only_nodesD [OF h3(3)]
  have eS: "pxEnd ?h2 \<notin> ?S"
  proof -
    have "pxEnd h \<noteq> baddr y" if "y \<in> set (L @ R)" for y using tiling_outside(2) [OF D(2,1), of y] that bs by auto
    moreover have "pxEnd h \<noteq> xStart_at h" using D(1) tiling_le [OF D(2)] by (auto simp: heap_frame_def)
    ultimately show ?thesis using out(2) by auto
  qed
  have f3: "heap_frame base h3" by (rule frame_only [OF f2 h3(3) eS]) (use h3(4) in simp)
  have T3: "tiling base (put_free L a s R) (pxEnd h3)" using put_free_tiling [OF T] o3(1) by simp
  have usedS: "baddr x \<notin> ?S" if "x \<in> set (L @ R)" "bused x" for x
  proof -
    have "inj_on baddr (set (L @ Blk a s True # R))" using tiling_distinct [OF T] by (simp only: distinct_map)
    then have "inj_on baddr (set (L @ R))" by (rule inj_on_subset) auto
    then have "baddr x \<noteq> baddr y" if "y \<in> set (free_of (L @ R))" for y
      using that \<open>x \<in> set (L @ R)\<close> \<open>bused x\<close> by (auto dest: inj_onD)
    moreover have "baddr x \<noteq> xStart_at h" using tiling_outside(1) [OF D(2,1), of x] that(1) bs by auto
    ultimately show ?thesis using aLR [OF that(1)] by auto
  qed
  have "used_ok ?h2 (L @ R)" using D(4) aLR by (auto simp: used_ok_def bs)
  then have "used_ok h3 (L @ R)" by (rule used_ok_only [OF _ h3(3) usedS])
  then have u3: "used_ok h3 (put_free L a s R)" unfolding used_ok_def using put_free_members by blast
  have "\<forall>b\<in>set bs. aligned (bsize b)" using D(6) by blast
  then have "\<forall>b\<in>set (L @ R). aligned (bsize b)" "aligned s" unfolding bs by simp_all
  then have al: "\<forall>b\<in>set (put_free L a s R). aligned (bsize b)" by (rule put_free_aligned)
  have sep: "separated (put_free L a s R)"
    using D(7) bs separated_split [of L "Blk a s True" R] by (intro put_free_separated) simp_all
  have fs: "xFreeBytesRemaining h3 = sum_list (map bsize (free_of (put_free L a s R)))"
    using o3(4) D(8) bs by (simp add: put_free_sum ac_simps)
  have "xFreeBytesRemaining h \<le> xFreeBytesRemaining h + s"
  proof -
    have "tiling base (L @ Blk a s False # R) (pxEnd h)" using T by simp
    from free_sum(1) [OF this]
    have "unat (xFreeBytesRemaining h + s) = sum_list (map (\<lambda>b. unat (bsize b)) (free_of bs)) + unat s"
      using D(8) bs by (simp add: ac_simps)
    then show ?thesis using free_sum(1) [OF D(2)] D(8) by (simp add: word_le_nat_alt)
  qed
  then have "xMinimumEverFreeBytesRemaining h3 \<le> xFreeBytesRemaining h3"
    using o3(4,5) D(9) by (auto intro: order_trans)
  then have "heap_rep base h3 (put_free L a s R)"
    using f3 T3 h3(2) u3 D(5) al sep fs by (simp add: heap_rep_def)
  moreover from this have "\<not> bit (xBlockSize h3 a) 31"
    using h3(2,5) s31 heap_pos(3) by (fastforce simp: free_list_def)
  then have "\<not> heap_free_checks (a + 8) h3"
    using o3(6) bit and_top_iff [of "xBlockSize h3 a"] by (simp add: heap_free_checks_def del: push_bit_of_1)
  ultimately show ?thesis using F h3(1) release_split [OF T] bs by auto
qed

end
