(* ===== verification/Heap4_Properties.thy ===== *)
theory Heap4_Properties
  imports Heap4_Correct
begin

text \<open>
  Runs of the allocator from its first call on, and the properties they have: blocks handed
  out never overlap, allocation fails only for want of a block, and freeing undoes it.
\<close>

section \<open>Initialisation\<close>

text \<open>What the linker provides: the array below \<open>2^31\<close> and \<open>xStart\<close> outside it; zeroed globals.\<close>

definition heap_placed :: "heap4 \<Rightarrow> bool" where
  "heap_placed h \<longleftrightarrow> pxEnd h = 0 \<and> 0 < ucHeap_at h \<and> unat (ucHeap_at h) + 18432 < 2 ^ 31
     \<and> \<not> (ucHeap_at h \<le> xStart_at h \<and> unat (xStart_at h) < unat (ucHeap_at h) + 18432)"

definition heap_base :: "heap4 \<Rightarrow> u32" where
  "heap_base h = (if ucHeap_at h AND 7 \<noteq> 0 then (ucHeap_at h + 7) AND NOT 7 else ucHeap_at h)"

definition heap_end :: "heap4 \<Rightarrow> u32" where
  "heap_end h = (ucHeap_at h + 18424) AND NOT 7"

lemma and_not_minus: "a AND NOT b = a - (a AND b)" for a b :: u32
proof -
  have "(a AND b) AND (a AND NOT b) = 0" by (rule bit_word_eqI) (auto simp: bit_simps)
  then have "(a AND b) + (a AND NOT b) = (a AND b) OR (a AND NOT b)" by (rule disjunctive_add_eq_or)
  also have "\<dots> = a" by (rule bit_word_eqI) (auto simp: bit_simps)
  finally show ?thesis by (simp add: algebra_simps)
qed

lemma unat_align_down: "unat ((a :: u32) AND NOT 7) = unat a - unat a mod 8"
proof -
  have "a AND NOT 7 = a - (a AND 7)" by (rule and_not_minus)
  moreover have m: "unat (a AND 7) = unat a mod 8"
  proof -
    have "unat (a AND 7) = unat a AND mask 3" by (simp add: unsigned_and_eq mask_eq_exp_minus_1)
    then show ?thesis by (simp add: take_bit_eq_mask [symmetric] take_bit_eq_mod)
  qed
  ultimately show ?thesis by (simp add: unat_sub_u32 word_le_nat_alt)
qed

lemma not_7: "NOT 7 = (- 8 :: u32)"
  by simp

lemmas unat_align_down8 = unat_align_down [unfolded not_7]

lemma heap_init_bounds:
  assumes "heap_placed h"
  shows "ucHeap_at h \<le> heap_base h" and "unat (heap_base h) < unat (ucHeap_at h) + 8" and "aligned (heap_base h)"
    and "unat (heap_end h) \<le> unat (ucHeap_at h) + 18424" and "unat (ucHeap_at h) + 18416 < unat (heap_end h)"
    and "aligned (heap_end h)"
proof -
  let ?u = "unat (ucHeap_at h)"
  have u: "?u + 18432 < 2 ^ 31" using assms by (simp add: heap_placed_def)
  have b: "unat (heap_base h) = (if 8 dvd ?u then ?u else ?u + 7 - (?u + 7) mod 8)"
    using u by (simp add: heap_base_def unat_align_down8 unat_add_u32 flip: and_7_iff)
  have e: "unat (heap_end h) = ?u + 18424 - (?u + 18424) mod 8"
    using u by (simp add: heap_end_def unat_align_down8 unat_add_u32)
  show "aligned (heap_base h)" unfolding aligned_iff b by (auto simp: dvd_minus_mod)
  show "aligned (heap_end h)" unfolding aligned_iff e by (simp add: dvd_minus_mod)
  have m: "(?u + 7) mod 8 < 8" "(?u + 18424) mod 8 < 8" by simp_all
  show "unat (heap_base h) < ?u + 8" unfolding b using m by auto
  show "ucHeap_at h \<le> heap_base h" unfolding word_le_nat_alt b by presburger
  show "unat (heap_end h) \<le> ?u + 18424" "?u + 18416 < unat (heap_end h)" unfolding e using m by linarith+
qed

lemma heap_init_rep:
  assumes "heap_placed h"
  shows "heap_rep (heap_base h) (prvHeapInit h) [Blk (heap_base h) (heap_end h - heap_base h) False]"
    and "pxEnd (prvHeapInit h) = heap_end h" and "ucHeap_at (prvHeapInit h) = ucHeap_at h"
proof -
  note B = heap_init_bounds [OF assms]
  have P: "unat (ucHeap_at h) + 18432 < 2 ^ 31" "0 < ucHeap_at h"
    "\<not> (ucHeap_at h \<le> xStart_at h \<and> unat (xStart_at h) < unat (ucHeap_at h) + 18432)"
    using assms by (simp_all add: heap_placed_def)
  have lt: "heap_base h < heap_end h" using B by (simp add: word_less_nat_alt)
  have out: "\<not> (heap_base h \<le> xStart_at h \<and> xStart_at h \<le> heap_end h)"
    using P(3) B by (auto simp: word_le_nat_alt)
  then have ne: "xStart_at h \<noteq> heap_base h" "xStart_at h \<noteq> heap_end h" "heap_base h \<noteq> heap_end h" using lt by auto
  let ?i = "prvHeapInit h"
  have I: "?i = (set_next_free (heap_base h) (heap_end h) (set_block_size (heap_base h) (heap_end h - heap_base h)
      (set_next_free (heap_end h) 0 (set_block_size (heap_end h) 0 ((set_block_size (xStart_at h) 0
        (set_next_free (xStart_at h) (heap_base h) h))\<lparr>pxEnd := heap_end h\<rparr>)))))
      \<lparr>xMinimumEverFreeBytesRemaining := heap_end h - heap_base h, xFreeBytesRemaining := heap_end h - heap_base h,
       xBlockAllocatedBit := push_bit 31 1\<rparr>"
    by (simp add: prvHeapInit_def Let_def heap_base_def heap_end_def configTOTAL_HEAP_SIZE_def
        portBYTE_ALIGNMENT_def portBYTE_ALIGNMENT_MASK_def algebra_simps del: push_bit_of_1)
  show "pxEnd ?i = heap_end h" "ucHeap_at ?i = ucHeap_at h" by (simp_all add: I)
  have "heap_frame (heap_base h) ?i"
    using ne out P B by (auto simp: heap_frame_def I word_less_nat_alt word_le_nat_alt simp del: push_bit_of_1)
  moreover have "aligned (heap_end h - heap_base h)" using aligned_diff [OF B(6,3)] lt by simp
  ultimately show "heap_rep (heap_base h) ?i [Blk (heap_base h) (heap_end h - heap_base h) False]"
    using ne lt B(3) by (simp add: heap_rep_def I free_list_def used_ok_def)
qed

lemma malloc_initialises:
  assumes "heap_placed h"
  shows "heap_malloc n h = heap_malloc n (prvHeapInit h)"
proof -
  have "pxEnd (prvHeapInit h) \<noteq> 0"
    using heap_init_rep(2) [OF assms] heap_init_bounds(5) [OF assms] by auto
  then show ?thesis using assms by (simp add: heap_malloc_def heap_placed_def)
qed

section \<open>Runs\<close>

text \<open>
  The states the allocator reaches, with the blocks handed out and the sizes they were asked
  for. The program frees only pointers it was given and has not freed yet.
\<close>

inductive heap_run :: "heap4 \<Rightarrow> (u32 \<rightharpoonup> u32) \<Rightarrow> heap4 \<Rightarrow> bool" for h0 where
  boot: "heap_run h0 Map.empty (prvHeapInit h0)"
| malloc: "heap_run h0 live h \<Longrightarrow> heap_malloc n h = Some (p, h') \<Longrightarrow>
    heap_run h0 (if p = 0 then live else live(p \<mapsto> n)) h'"
| free: "heap_run h0 live h \<Longrightarrow> live p = Some n \<Longrightarrow> heap_free p h = Some h' \<Longrightarrow> heap_run h0 (live(p := None)) h'"

definition live_ok :: "u32 \<Rightarrow> heap4 \<Rightarrow> blk list \<Rightarrow> (u32 \<rightharpoonup> u32) \<Rightarrow> bool" where
  "live_ok base h bs live \<longleftrightarrow> heap_rep base h bs
     \<and> (\<forall>p n. live p = Some n \<longrightarrow> (\<exists>s. Blk (p - 8) s True \<in> set bs \<and> unat n + 8 \<le> unat s))
     \<and> (\<forall>b\<in>set bs. bused b \<longrightarrow> live (baddr b + 8) \<noteq> None)"

lemma alloc_blocks_SomeD:
  "alloc_blocks w bs = Some (a, bs') \<Longrightarrow>
    \<exists>L s R. bs = L @ Blk a s False # R \<and> w \<le> s \<and> bs' = L @ carve w (Blk a s False) @ R"
proof (induction bs arbitrary: bs')
  case (Cons b bs)
  show ?case
  proof (cases "\<not> bused b \<and> w \<le> bsize b")
    case True
    then have "b = Blk a (bsize b) False" using Cons.prems by (cases b) auto
    then show ?thesis using Cons.prems True by (intro exI [of _ "[]"] exI [of _ "bsize b"] exI [of _ bs]) auto
  next
    case False
    then obtain bs'' where b'': "alloc_blocks w bs = Some (a, bs'')" "bs' = b # bs''" using Cons.prems by auto
    from Cons.IH [OF b''(1)] obtain L s R where
      "bs = L @ Blk a s False # R" "w \<le> s" "bs'' = L @ carve w (Blk a s False) @ R" by blast
    then show ?thesis using b''(2) by (intro exI [of _ "b # L"]) auto
  qed
qed simp

lemma put_free_keeps: "b \<in> set (L @ R) \<Longrightarrow> bused b \<Longrightarrow> b \<in> set (put_free L a s R)"
proof -
  assume b: "b \<in> set (L @ R)" "bused b"
  show ?thesis
  proof (cases "L \<noteq> [] \<and> \<not> bused (last L)")
    case True
    then obtain L' p ps where "L = L' @ [Blk p ps False]" using butlast_last by blast
    then show ?thesis using b by (cases R) (auto simp: put_free_def Let_def)
  next
    case False
    then show ?thesis using b by (cases R) (auto simp: put_free_def Let_def)
  qed
qed

lemma malloc_refines:
  assumes "heap_rep base h bs"
  shows "\<exists>p h'. heap_malloc n h = Some (p, h') \<and>
    (case (if n = 0 \<or> bit n 31 then None else alloc_blocks (wanted_block_size n) bs) of
       None \<Rightarrow> p = 0 \<and> h' = h
     | Some (a, bs') \<Rightarrow> p = a + 8 \<and> p \<noteq> 0 \<and> heap_rep base h' bs')"
proof (cases "n = 0 \<or> bit n 31 \<or> alloc_blocks (wanted_block_size n) bs = None")
  case True
  then show ?thesis using malloc_none [OF assms True] by (auto split: option.split)
next
  case False
  then obtain a bs' where al: "alloc_blocks (wanted_block_size n) bs = Some (a, bs')" by auto
  from malloc_some [OF assms _ _ al] False obtain h' where
    h': "heap_malloc n h = Some (a + 8, h')" "heap_rep base h' bs'" by auto
  have "a + 8 \<noteq> 0"
  proof -
    obtain L s R where "bs = L @ Blk a s False # R" using alloc_blocks_SomeD [OF al] by blast
    then have m: "Blk a s False \<in> set bs" by simp
    note B = tiling_bounds [OF heap_repD(2) [OF assms] m]
    have "aligned s" "s \<noteq> 0" using heap_repD(6) [OF assms m] B(2) by auto
    then have "8 \<le> unat s" by (auto simp: aligned_iff unat_gt_0 dvd_imp_le)
    then have "unat a + unat (8 :: u32) < 2 ^ 32" using B(2) by (simp add: no_wrap_unat)
    then have "unat (a + 8) = unat a + 8" by (simp add: unat_add_u32)
    then show ?thesis by auto
  qed
  with h' al False show ?thesis by auto
qed

lemma live_ok_malloc:
  assumes "live_ok base h bs live" and "heap_malloc n h = Some (p, h')"
  shows "\<exists>bs'. live_ok base h' bs' (if p = 0 then live else live(p \<mapsto> n)) \<and> (p \<noteq> 0 \<longrightarrow> live p = None)"
proof -
  have rep: "heap_rep base h bs" using assms(1) by (simp add: live_ok_def)
  note R = malloc_refines [OF rep, of n]
  show ?thesis
  proof (cases "n = 0 \<or> bit n 31 \<or> alloc_blocks (wanted_block_size n) bs = None")
    case True
    then have "p = 0" "h' = h" using R assms(2) by (auto split: option.splits if_splits)
    then show ?thesis using assms(1) by auto
  next
    case False
    then obtain a bs' where al: "alloc_blocks (wanted_block_size n) bs = Some (a, bs')" by auto
    then have p: "p = a + 8" "p \<noteq> 0" "heap_rep base h' bs'" using R assms(2) False by auto
    obtain L s Q where S: "bs = L @ Blk a s False # Q" "wanted_block_size n \<le> s"
      "bs' = L @ carve (wanted_block_size n) (Blk a s False) @ Q" using alloc_blocks_SomeD [OF al] by blast
    have "0 < n" "n < 2 ^ 31" using False top_bit_less by (auto simp: word_neq_0_conv)
    note W = wanted_block_size_props [OF this]
    have na: "baddr b \<noteq> a" if "b \<in> set (L @ Q)" for b
      using tiling_distinct [OF heap_repD(2) [OF rep]] that S(1) by (auto simp: image_iff)
    have keep: "Blk x t True \<in> set bs \<Longrightarrow> Blk x t True \<in> set bs'" for x t using S by auto
    have new: "\<exists>t. Blk a t True \<in> set bs' \<and> unat n + 8 \<le> unat t"
      using S(2,3) W(2) by (auto simp: carve_def word_le_nat_alt)
    have used: "b \<in> set bs' \<Longrightarrow> bused b \<Longrightarrow> baddr b = a \<or> b \<in> set bs" for b
      using S by (auto simp: carve_def split: if_splits)
    have fresh: "live p = None"
    proof (rule ccontr)
      assume "live p \<noteq> None"
      then obtain m where "live (a + 8) = Some m" using p(1) by auto
      then have "\<exists>s. Blk (a + 8 - 8) s True \<in> set bs" using assms(1) unfolding live_ok_def by blast
      then obtain t where "Blk a t True \<in> set bs" by auto
      then have "Blk a t True \<in> set (L @ Q)" using S(1) by auto
      then show False using na by fastforce
    qed
    have "live_ok base h' bs' (live(p \<mapsto> n))"
      using assms(1) p keep new used unfolding live_ok_def by (auto split: if_splits) (metis | fastforce)+
    then show ?thesis using p(2) fresh by auto
  qed
qed

lemma live_ok_free:
  assumes "live_ok base h bs live" and "live p = Some n"
  shows "\<exists>h' bs'. heap_free p h = Some h' \<and> live_ok base h' bs' (live(p := None)) \<and> \<not> heap_free_checks p h'"
proof -
  have rep: "heap_rep base h bs" using assms(1) by (simp add: live_ok_def)
  obtain s where m: "Blk (p - 8) s True \<in> set bs" using assms unfolding live_ok_def by blast
  from free_ok [OF rep m] obtain h' where
    h': "heap_free p h = Some h'" "heap_rep base h' (release_block (p - 8) bs)" "\<not> heap_free_checks p h'" by auto
  obtain L R where bs: "bs = L @ Blk (p - 8) s True # R" using m by (auto simp: in_set_conv_decomp)
  have T: "tiling base (L @ Blk (p - 8) s True # R) (pxEnd h)" using heap_repD(2) [OF rep] bs by simp
  have rb: "release_block (p - 8) bs = put_free L (p - 8) s R" using release_split [OF T] bs by simp
  have na: "baddr b \<noteq> p - 8" if "b \<in> set (L @ R)" for b
    using tiling_distinct [OF T] that by (auto simp: image_iff)
  have l: "\<exists>t. Blk (q - 8) t True \<in> set (put_free L (p - 8) s R) \<and> unat m + 8 \<le> unat t"
    if q: "q \<noteq> p" "live q = Some m" for q m
  proof -
    obtain t where t: "Blk (q - 8) t True \<in> set bs" "unat m + 8 \<le> unat t"
      using assms(1) q(2) unfolding live_ok_def by blast
    then have "Blk (q - 8) t True \<in> set (L @ R)" using q(1) bs by auto
    then show ?thesis using put_free_keeps [of "Blk (q - 8) t True" L R] t(2) by auto
  qed
  have u: "live (baddr b + 8) \<noteq> None \<and> baddr b + 8 \<noteq> p" if "b \<in> set (put_free L (p - 8) s R)" "bused b" for b
  proof -
    have b: "b \<in> set (L @ R)" using put_free_members that by blast
    then have "live (baddr b + 8) \<noteq> None" using assms(1) that(2) bs unfolding live_ok_def by auto
    moreover have "baddr b + 8 \<noteq> p" using na [OF b] by (auto simp: algebra_simps)
    ultimately show ?thesis by blast
  qed
  have "live_ok base h' (put_free L (p - 8) s R) (live(p := None))"
    using h'(2) l u unfolding live_ok_def rb by auto
  with h' show ?thesis by blast
qed

text \<open>The end marker and the array stay where they are.\<close>

lemma insert_keeps_place: "prvInsertBlockIntoFreeList a h = Some h' \<Longrightarrow> pxEnd h' = pxEnd h"
  by (cases "free_list_position a h (xStart_at h)")
    (auto simp: prvInsertBlockIntoFreeList_def Let_def if_distrib [of pxEnd] split del: if_split cong: if_cong)

lemma malloc_keeps_place:
  assumes "heap_malloc n h = Some (p, h')" and "pxEnd h \<noteq> 0"
  shows "pxEnd h' = pxEnd h"
  using assms by (auto simp: heap_malloc_def Let_def bind_eq_Some_conv split: if_splits dest!: insert_keeps_place)

lemma free_keeps_place: "heap_free p h = Some h' \<Longrightarrow> pxEnd h' = pxEnd h"
  by (auto simp: heap_free_def Let_def split: if_splits dest!: insert_keeps_place)

lemma heap_run_ok:
  assumes "heap_placed h0" and "heap_run h0 live h"
  shows "\<exists>bs. live_ok (heap_base h0) h bs live \<and> pxEnd h = heap_end h0"
  using assms(2)
proof (induction rule: heap_run.induct)
  case boot
  then show ?case using heap_init_rep [OF assms(1)] by (auto simp: live_ok_def)
next
  case (malloc live h p h' n)
  then obtain bs where bs: "live_ok (heap_base h0) h bs live" "pxEnd h = heap_end h0" by blast
  moreover have "pxEnd h \<noteq> 0" using heap_pos(1) [of "heap_base h0" h bs] bs(1) by (auto simp: live_ok_def)
  ultimately show ?case using live_ok_malloc [OF bs(1) malloc(2)] malloc_keeps_place [OF malloc(2)] by auto
next
  case (free live h p n h')
  then obtain bs where bs: "live_ok (heap_base h0) h bs live" "pxEnd h = heap_end h0" by blast
  obtain bs' where "live_ok (heap_base h0) h' bs' (live(p := None))"
    using live_ok_free [OF bs(1) free(2)] free(3) by fastforce
  then show ?case using free_keeps_place [OF free(3)] bs(2) by metis
qed

section \<open>Properties\<close>

declare free_list_position.simps [code] first_fit.simps [code]

definition heap0 :: heap4 where
  "heap0 = \<lparr>ucHeap_at = 0x10000004, xStart_at = 0x10005000, pxNextFreeBlock = (\<lambda>_. 0), xBlockSize = (\<lambda>_. 0), pxEnd = 0,
     xFreeBytesRemaining = 0, xMinimumEverFreeBytesRemaining = 0, xBlockAllocatedBit = 0\<rparr>"

lemma heap0_placed: "heap_placed heap0"
  by (simp add: heap_placed_def heap0_def)

text \<open>Two allocations of 100 and 20 bytes.\<close>

lemma heap0_mallocs:
  "map_option fst (heap_malloc 100 (prvHeapInit heap0)) = Some 0x10000010"
  "map_option fst (Option.bind (heap_malloc 100 (prvHeapInit heap0)) (\<lambda>(_, h). heap_malloc 20 h)) = Some 0x10000080"
  by code_simp+

lemma heap0_free: "Option.bind (heap_malloc 100 (prvHeapInit heap0)) (\<lambda>(p, h). heap_free p h) \<noteq> None"
  by code_simp

lemma heap0_run: "\<exists>h. heap_run heap0 [0x10000010 \<mapsto> 100, 0x10000080 \<mapsto> 20] h"
proof -
  obtain h1 where h1: "heap_malloc 100 (prvHeapInit heap0) = Some (0x10000010, h1)"
    using heap0_mallocs(1) by auto
  then obtain h2 where h2: "heap_malloc 20 h1 = Some (0x10000080, h2)"
    using heap0_mallocs(2) by auto
  have "heap_run heap0 [0x10000010 \<mapsto> 100] h1"
    using heap_run.malloc [OF heap_run.boot h1] by simp
  from heap_run.malloc [OF this h2] show ?thesis by auto
qed

text \<open>
  C10. Blocks handed out never overlap: in every state reached by allocations and by frees of
  live blocks, each live block is aligned to 8 bytes, lies with all its bytes inside
  \<open>ucHeap\<close>, and is disjoint from every other live block.
\<close>

theorem live_blocks_disjoint:
  assumes "heap_placed h0" and "heap_run h0 live h" and "live p = Some n" and "live q = Some m" and "p \<noteq> q"
  shows "8 dvd unat p \<and> ucHeap_at h0 \<le> p \<and> unat p + unat n \<le> unat (ucHeap_at h0) + 18432
    \<and> (unat p + unat n \<le> unat q \<or> unat q + unat m \<le> unat p)"
proof -
  obtain bs where bs: "live_ok (heap_base h0) h bs live" "pxEnd h = heap_end h0"
    using heap_run_ok [OF assms(1,2)] by blast
  note rep = bs(1) [unfolded live_ok_def, THEN conjunct1]
  note T = heap_repD(2) [OF rep] and B = heap_init_bounds [OF assms(1)]
  have blk: "\<exists>s. Blk (r - 8) s True \<in> set bs \<and> unat k + 8 \<le> unat s" if "live r = Some k" for r k
    using bs(1) that unfolding live_ok_def by blast
  obtain s t where s: "Blk (p - 8) s True \<in> set bs" "unat n + 8 \<le> unat s"
    and t: "Blk (q - 8) t True \<in> set bs" "unat m + 8 \<le> unat t"
    using blk assms(3,4) by metis
  have un: "unat r = unat (r - 8) + 8" "unat (r - 8) + unat k = unat (r - 8 + k)"
    if "Blk (r - 8) k True \<in> set bs" "8 \<le> unat k" for r k
  proof -
    have w: "unat (r - 8) + unat k < 2 ^ 32" using tiling_bounds(2) [OF T that(1)] by (simp add: no_wrap_unat)
    then show "unat (r - 8) + unat k = unat (r - 8 + k)" by (simp add: unat_add_u32)
    have "unat (r - 8 + 8) = unat (r - 8) + unat (8 :: u32)" using w that(2) by (intro unat_add_u32) simp
    then show "unat r = unat (r - 8) + 8" by simp
  qed
  have up: "unat p = unat (p - 8) + 8" "unat (p - 8) + unat s = unat (p - 8 + s)" using un [OF s(1)] s(2) by auto
  have uq: "unat q = unat (q - 8) + 8" "unat (q - 8) + unat t = unat (q - 8 + t)" using un [OF t(1)] t(2) by auto
  have "8 dvd unat (p - 8)" using heap_pos(4) [OF rep s(1)] by (simp add: aligned_iff)
  then have "8 dvd unat p" using up(1) by simp
  moreover have "heap_base h0 \<le> p - 8" using tiling_bounds(1) [OF T s(1)] by simp
  then have "ucHeap_at h0 \<le> p" using B(1) up(1) by (simp add: word_le_nat_alt)
  moreover have "unat (p - 8 + s) \<le> unat (heap_end h0)" using tiling_bounds(3) [OF T s(1)] bs(2) by (simp add: word_le_nat_alt)
  then have "unat p + unat n \<le> unat (ucHeap_at h0) + 18432" using B(4) up s(2) by linarith
  moreover have "p - 8 + s \<le> q - 8 \<or> q - 8 + t \<le> p - 8"
    using tiling_disjoint [OF T s(1) t(1)] assms(5) by auto
  then have "unat p + unat n \<le> unat q \<or> unat q + unat m \<le> unat p"
    using up uq s(2) t(2) unfolding word_le_nat_alt by linarith
  ultimately show ?thesis by blast
qed

theorem live_blocks_disjoint_witness:
  "\<exists>h. heap_run heap0 [0x10000010 \<mapsto> 100, 0x10000080 \<mapsto> 20] h \<and> 8 dvd unat (0x10000010 :: u32)
    \<and> unat (0x10000010 :: u32) + unat (100 :: u32) \<le> unat (0x10000080 :: u32)"
proof -
  obtain h where h: "heap_run heap0 [0x10000010 \<mapsto> 100, 0x10000080 \<mapsto> 20] h" using heap0_run by blast
  from live_blocks_disjoint [OF heap0_placed h, where p = "0x10000010" and n = "100" and q = "0x10000080" and m = "20"] show ?thesis
    using h by auto
qed

text \<open>
  C11. Allocation is first fit and fails only for want of space: on a heap whose array is
  tiled by \<open>bs\<close>, \<open>pvPortMalloc n\<close> returns NULL and changes nothing if \<open>n\<close> is 0, has the top
  bit set, or no free block of the tiling holds \<open>n\<close> bytes with the header; otherwise it
  returns the address behind the header of the first such block, carved as
  \<open>alloc_blocks\<close> says, and the heap is again well formed.
\<close>

theorem malloc_refines_first_fit:
  assumes "heap_rep base h bs"
  shows "\<exists>p h'. heap_malloc n h = Some (p, h') \<and>
    (case (if n = 0 \<or> bit n 31 then None else alloc_blocks (wanted_block_size n) bs) of
       None \<Rightarrow> p = 0 \<and> h' = h
     | Some (a, bs') \<Rightarrow> p = a + 8 \<and> p \<noteq> 0 \<and> heap_rep base h' bs')
    \<and> (p = 0 \<longleftrightarrow> n = 0 \<or> bit n 31 \<or> (\<forall>b\<in>set bs. \<not> bused b \<longrightarrow> bsize b < wanted_block_size n))"
proof -
  have "alloc_blocks (wanted_block_size n) bs = None \<longleftrightarrow> (\<forall>b\<in>set bs. \<not> bused b \<longrightarrow> bsize b < wanted_block_size n)"
    using alloc_blocks_None by auto
  then show ?thesis using malloc_refines [OF assms, of n] by (fastforce split: option.splits)
qed

lemma heap0_rep: "heap_rep (heap_base heap0) (prvHeapInit heap0) [Blk (heap_base heap0) (heap_end heap0 - heap_base heap0) False]"
  by (rule heap_init_rep(1) [OF heap0_placed])

lemma heap0_bounds: "heap_base heap0 = 0x10000008" "heap_end heap0 = 0x100047F8"
  by (simp_all add: heap_base_def heap_end_def heap0_def)

theorem malloc_refines_first_fit_witness:
  "\<exists>h'. heap_malloc 100 (prvHeapInit heap0) = Some (0x10000010, h')
    \<and> heap_rep 0x10000008 h' [Blk 0x10000008 112 True, Blk 0x10000078 18304 False]"
proof -
  have w: "wanted_block_size 100 = 112" by code_simp
  show ?thesis
    using malloc_refines_first_fit [OF heap0_rep, of 100]
    by (simp add: w carve_def heap0_bounds)
qed

text \<open>
  C12. Freeing undoes allocation: a block that was just allocated and is freed again leaves
  the same tiling (the remainder that was split off is joined again) and the same number of
  free bytes.
\<close>

theorem free_undoes_malloc:
  assumes "heap_rep base h bs" and "heap_malloc n h = Some (p, h1)" and "p \<noteq> 0"
  shows "\<exists>h2. heap_free p h1 = Some h2 \<and> heap_rep base h2 bs
    \<and> xPortGetFreeHeapSize h2 = xPortGetFreeHeapSize h"
proof -
  have "\<exists>a bs'. alloc_blocks (wanted_block_size n) bs = Some (a, bs') \<and> p = a + 8 \<and> heap_rep base h1 bs'"
    using malloc_refines [OF assms(1), of n] assms(2,3) by (auto split: option.splits if_splits)
  then obtain a bs' where al: "alloc_blocks (wanted_block_size n) bs = Some (a, bs')" and p: "p = a + 8"
    and rep1: "heap_rep base h1 bs'" by blast
  let ?w = "wanted_block_size n"
  obtain L s R where S: "bs = L @ Blk a s False # R" "?w \<le> s" "bs' = L @ carve ?w (Blk a s False) @ R"
    using alloc_blocks_SomeD [OF al] by blast
  note D = heap_repD [OF assms(1)]
  have sep: "L \<noteq> [] \<Longrightarrow> bused (last L)" "R \<noteq> [] \<Longrightarrow> bused (hd R)"
    using D(7) S(1) by (auto simp: separated_split)
  define t where "t = (if s - ?w > 16 then ?w else s)"
  define Q where "Q = (if s - ?w > 16 then Blk (a + ?w) (s - ?w) False # R else R)"
  have bs': "bs' = L @ Blk a t True # Q" using S(3) by (simp add: carve_def t_def Q_def)
  have "put_free L a t Q = bs"
    using sep S(1) by (cases R) (auto simp: put_free_def Let_def t_def Q_def)
  moreover have T: "tiling base (L @ Blk a t True # Q) (pxEnd h1)" using heap_repD(2) [OF rep1] bs' by simp
  ultimately have rb: "release_block a bs' = bs" using release_split [OF T] bs' by simp
  have "Blk a t True \<in> set bs'" using bs' by simp
  from free_ok [OF rep1 this] obtain h2 where h2: "heap_free p h1 = Some h2" "heap_rep base h2 bs"
    unfolding rb p by blast
  then show ?thesis using heap_repD(8) [OF h2(2)] D(8) by (auto simp: xPortGetFreeHeapSize_def)
qed

theorem free_undoes_malloc_witness:
  "\<exists>h1 h2. heap_malloc 100 (prvHeapInit heap0) = Some (0x10000010, h1) \<and> heap_free 0x10000010 h1 = Some h2
    \<and> xPortGetFreeHeapSize h2 = 18416"
proof -
  obtain h1 where h1: "heap_malloc 100 (prvHeapInit heap0) = Some (0x10000010, h1)" using heap0_mallocs(1) by auto
  have "xPortGetFreeHeapSize (prvHeapInit heap0) = 18416" by code_simp
  then show ?thesis using free_undoes_malloc [OF heap0_rep h1] h1 by auto
qed

text \<open>
  C13. No fragmentation remains: when every block that was handed out has been freed, in
  whatever order, the free list is again the one block of the whole array that the
  initialisation made, and every byte is free.
\<close>

theorem all_freed_is_one_block:
  assumes "heap_placed h0" and "heap_run h0 Map.empty h"
  shows "pxNextFreeBlock h (xStart_at h) = heap_base h0 \<and> pxNextFreeBlock h (heap_base h0) = pxEnd h
    \<and> xBlockSize h (heap_base h0) = heap_end h0 - heap_base h0
    \<and> xPortGetFreeHeapSize h = xPortGetFreeHeapSize (prvHeapInit h0)"
proof -
  obtain bs where bs: "live_ok (heap_base h0) h bs Map.empty" "pxEnd h = heap_end h0"
    using heap_run_ok [OF assms] by blast
  then have rep: "heap_rep (heap_base h0) h bs" and free: "\<forall>b\<in>set bs. \<not> bused b" by (auto simp: live_ok_def)
  note D = heap_repD [OF rep] and B = heap_init_bounds [OF assms(1)]
  have "heap_base h0 \<noteq> heap_end h0" using B by auto
  then have "bs \<noteq> []" using D(2) bs(2) by auto
  then obtain b cs where bc: "bs = b # cs" by (cases bs) auto
  have "cs = []" using D(7) free bc by (cases cs) auto
  then have b: "bs = [Blk (heap_base h0) (heap_end h0 - heap_base h0) False]"
    using D(2) bs(2) bc free by (cases b) (auto simp: eq_diff_eq add.commute)
  have "xFreeBytesRemaining (prvHeapInit h0) = heap_end h0 - heap_base h0"
    using heap_repD(8) [OF heap_init_rep(1) [OF assms(1)]] by simp
  then show ?thesis using D(3,8) b by (simp add: free_list_def xPortGetFreeHeapSize_def)
qed

theorem all_freed_is_one_block_witness:
  "\<exists>h. heap_run heap0 Map.empty h \<and> xPortGetFreeHeapSize h = 18416 \<and> pxNextFreeBlock h (xStart_at h) = 0x10000008"
proof -
  obtain h1 where h1: "heap_malloc 100 (prvHeapInit heap0) = Some (0x10000010, h1)" using heap0_mallocs(1) by auto
  have "heap_run heap0 [0x10000010 \<mapsto> 100] h1" using heap_run.malloc [OF heap_run.boot h1] by simp
  moreover obtain h2 where "heap_free 0x10000010 h1 = Some h2" using heap0_free by (auto simp: h1)
  moreover have "[0x10000010 \<mapsto> 100](0x10000010 := None) = (Map.empty :: u32 \<rightharpoonup> u32)" by auto
  ultimately have r: "heap_run heap0 Map.empty h2" using heap_run.free [of heap0 "[0x10000010 \<mapsto> 100]" h1] by fastforce
  have "xPortGetFreeHeapSize (prvHeapInit heap0) = 18416" by code_simp
  then show ?thesis using all_freed_is_one_block [OF heap0_placed r] r by (auto simp: heap0_bounds)
qed

text \<open>
  A second free of the same pointer is ignored: after a live block was freed its header
  fails the tests of \<open>vPortFree\<close>, also when the block was joined with its neighbours, so
  freeing it again at once changes nothing.
\<close>

theorem double_free_ignored:
  assumes "heap_placed h0" and "heap_run h0 live h" and "live p = Some n"
  shows "\<exists>h'. heap_free p h = Some h' \<and> heap_run h0 (live(p := None)) h' \<and> heap_free p h' = Some h'"
proof -
  obtain bs where bs: "live_ok (heap_base h0) h bs live" using heap_run_ok [OF assms(1,2)] by blast
  from live_ok_free [OF this assms(3)] obtain h' where "heap_free p h = Some h'" "\<not> heap_free_checks p h'" by blast
  then show ?thesis using free_ignored heap_run.free [OF assms(2,3)] by blast
qed

theorem double_free_ignored_witness:
  "\<exists>h h'. heap_run heap0 [0x10000010 \<mapsto> 100, 0x10000080 \<mapsto> 20] h \<and> heap_free 0x10000080 h = Some h'
    \<and> heap_free 0x10000080 h' = Some h'"
proof -
  obtain h where h: "heap_run heap0 [0x10000010 \<mapsto> 100, 0x10000080 \<mapsto> 20] h" using heap0_run by blast
  from double_free_ignored [OF heap0_placed h, where p = "0x10000080" and n = "20"] show ?thesis using h by auto
qed

end
