(* ===== verification/Memory.thy ===== *)
theory Memory
  imports Prelude
begin

text \<open>
  Memory as a map from addresses to bytes: what \<open>memcpy\<close> and a store of a list of bytes do, and
  the laws on areas that overlap or lie apart. Every component that copies bytes uses them.
\<close>

section \<open>Reading and writing areas\<close>

definition memcpy :: "u32 \<Rightarrow> u32 \<Rightarrow> u32 \<Rightarrow> (u32 \<Rightarrow> u8) \<Rightarrow> u32 \<Rightarrow> u8" where
  "memcpy dst src n m = (\<lambda>a. if a - dst < n then m (src + (a - dst)) else m a)"

definition bytes_at :: "(u32 \<Rightarrow> u8) \<Rightarrow> u32 \<Rightarrow> u32 \<Rightarrow> u8 list" where
  "bytes_at m a n = map (\<lambda>i. m (a + of_nat i)) [0..<unat n]"

definition mem_put :: "u32 \<Rightarrow> u8 list \<Rightarrow> (u32 \<Rightarrow> u8) \<Rightarrow> u32 \<Rightarrow> u8" where
  "mem_put p bs m = (\<lambda>q. if unat (q - p) < length bs then bs ! unat (q - p) else m q)"

section \<open>Areas\<close>

lemma length_bytes_at [simp]: "length (bytes_at m a n) = unat n"
  by (simp add: bytes_at_def)

lemma bytes_at_eq: "bytes_at m a n = bytes_at m' b n \<longleftrightarrow> (\<forall>i<unat n. m (a + of_nat i) = m' (b + of_nat i))"
  by (auto simp: bytes_at_def)

lemma unat_of_small: "i < unat (n :: u32) \<Longrightarrow> unat (of_nat i :: u32) = i"
  by (rule unat_of_nat_u32) (use unat_less_u32 [of n] in linarith)

lemma of_nat_less_word: "i < unat n \<Longrightarrow> (of_nat i :: u32) < n"
  by (simp add: word_less_nat_alt unat_of_small)

lemma memcpy_there [simp]: "bytes_at (memcpy dst src n m) dst n = bytes_at m src n"
  by (simp add: bytes_at_eq memcpy_def of_nat_less_word)

text \<open>Two areas that do not overlap, and do not wrap around the address space.\<close>

definition apart :: "u32 \<Rightarrow> u32 \<Rightarrow> u32 \<Rightarrow> u32 \<Rightarrow> bool" where
  "apart a n b m \<longleftrightarrow> unat a + unat n \<le> 2 ^ 32 \<and> unat b + unat m \<le> 2 ^ 32
     \<and> (unat a + unat n \<le> unat b \<or> unat b + unat m \<le> unat a)"

lemma apart_commute: "apart a n b m = apart b m a n"
  by (auto simp: apart_def)

lemma unat_plus_small: "unat (a :: u32) + i < 2 ^ 32 \<Longrightarrow> unat (a + of_nat i) = unat a + i"
  by (simp add: unat_word_ariths unat_of_nat)

lemma memcpy_outside:
  assumes "apart dst n b m"
  shows "bytes_at (memcpy dst src n f) b m = bytes_at f b m"
proof -
  have "\<not> b + of_nat i - dst < n" if i: "i < unat m" for i
  proof -
    have ui: "unat (b + of_nat i) = unat b + i" using assms i by (intro unat_plus_small) (auto simp: apart_def)
    show ?thesis
    proof (cases "unat dst + unat n \<le> unat b")
      case True
      then have "unat (b + of_nat i - dst) = unat b + i - unat dst"
        using ui by (simp add: unat_sub word_le_nat_alt)
      then show ?thesis using True by (simp add: word_less_nat_alt)
    next
      case False
      then have "unat (b + of_nat i) < unat dst" using assms ui i by (auto simp: apart_def)
      then have "b + of_nat i < dst" by (simp add: word_less_nat_alt)
      then have "unat (b + of_nat i - dst) = 2 ^ 32 + unat (b + of_nat i) - unat dst"
        by (simp add: unat_sub_if' word_less_nat_alt)
      moreover have "unat dst + unat n \<le> 2 ^ 32" using assms by (simp add: apart_def)
      ultimately show ?thesis using ui by (simp add: word_less_nat_alt)
    qed
  qed
  then show ?thesis by (simp add: bytes_at_eq memcpy_def)
qed

lemma unat_diff_word: "unat (p - q) = (if unat q \<le> unat p then unat p - unat q else 2 ^ 32 + unat p - unat (q :: u32))"
  by (auto simp: unat_sub_if' word_le_nat_alt)

lemma unat_offset:
  assumes "unat (b :: u32) + n \<le> 2 ^ 32" and "i < n" and "k < n"
  shows "unat (b + of_nat i - (b + of_nat k)) = (if k \<le> i then i - k else 2 ^ 32 + i - k)"
proof -
  have "unat (b + of_nat i) = unat b + i" "unat (b + of_nat k) = unat b + k"
    using assms unat_plus_small [of b] by simp_all
  then show ?thesis by (simp only: unat_diff_word) simp
qed

text \<open>A store into the area that starts at \<open>b\<close>, at the offset \<open>k\<close>.\<close>

lemma mem_put_area:
  assumes "unat b + n \<le> 2 ^ 32" and "i < n" and "k < n" and "k + length bs \<le> n"
  shows "mem_put (b + of_nat k) bs m (b + of_nat i) = (if k \<le> i \<and> i < k + length bs then bs ! (i - k) else m (b + of_nat i))"
  using unat_offset [OF assms(1-3)] assms by (auto simp: mem_put_def)

lemma mem_put_untouched:
  assumes "unat b + length bs \<le> 2 ^ 32" and "unat q < unat b \<or> unat b + length bs \<le> unat q"
  shows "mem_put b bs m q = m q"
  using assms unat_less_u32 [of q] by (auto simp: mem_put_def unat_diff_word)

lemma bytes_put [simp]: "length bs < 2 ^ 32 \<Longrightarrow> bytes_at (mem_put p bs m) p (of_nat (length bs)) = bs"
  by (rule nth_equalityI) (simp_all add: bytes_at_def mem_put_def unat_of_nat_u32)

lemma bytes_none [simp]: "bytes_at m p 0 = []"
  by (simp add: bytes_at_def)

lemma bytes_at_upd:
  assumes "unat n < 2 ^ 32" and "unat i < unat n"
  shows "bytes_at (m(p + i := v)) p n = (bytes_at m p n)[unat i := v]"
proof (rule nth_equalityI)
  fix j assume "j < length (bytes_at (m(p + i := v)) p n)"
  then have j: "j < unat n" by simp
  have "(of_nat j = i) = (j = unat i)" using unat_of_small [OF j] by auto
  then show "bytes_at (m(p + i := v)) p n ! j = (bytes_at m p n)[unat i := v] ! j"
    using j assms(2) by (simp add: bytes_at_def nth_list_update)
qed simp

lemma mem_put_elsewhere:
  assumes "unat b + length bs \<le> unat p \<or> unat p + unat n \<le> unat b" and "unat b + length bs \<le> 2 ^ 32" and "unat p + unat n \<le> 2 ^ 32"
  shows "bytes_at (mem_put b bs m) p n = bytes_at m p n"
proof -
  have "mem_put b bs m (p + of_nat i) = m (p + of_nat i)" if i: "i < unat n" for i
  proof (rule mem_put_untouched [OF assms(2)])
    have "unat (p + of_nat i) = unat p + i" using assms(3) i by (intro unat_plus_small) simp
    then show "unat (p + of_nat i) < unat b \<or> unat b + length bs \<le> unat (p + of_nat i)" using assms(1) i by auto
  qed
  then show ?thesis by (simp add: bytes_at_eq)
qed

section \<open>Slices\<close>

lemma memcpy_put: "memcpy dst src n m = mem_put dst (bytes_at m src n) m"
  by (rule ext) (simp add: memcpy_def mem_put_def bytes_at_def word_less_nat_alt)

lemma mem_put_Nil [simp]: "mem_put p [] m = m"
  by (simp add: mem_put_def)

lemma mem_put_append:
  assumes "length xs + length ys \<le> 2 ^ 32"
  shows "mem_put (p + of_nat (length xs)) ys (mem_put p xs m) = mem_put p (xs @ ys) m"
proof (rule ext)
  fix q
  show "mem_put (p + of_nat (length xs)) ys (mem_put p xs m) q = mem_put p (xs @ ys) m q"
  proof (cases "ys = []")
    case False
    then have l: "unat (of_nat (length xs) :: u32) = length xs" using assms by (intro unat_of_nat_u32) (cases ys; simp)
    let ?d = "q - p"
    have e: "q - (p + of_nat (length xs)) = ?d - of_nat (length xs)" by (simp add: algebra_simps)
    show ?thesis
    proof (cases "unat ?d < length xs")
      case True
      then have "unat (?d - of_nat (length xs)) = 2 ^ 32 + unat ?d - length xs" using l by (simp only: unat_diff_word) simp
      then have "\<not> unat (?d - of_nat (length xs)) < length ys" using assms by linarith
      then show ?thesis using True by (simp add: mem_put_def e nth_append)
    next
      case f: False
      then have "unat (?d - of_nat (length xs)) = unat ?d - length xs" using l by (simp only: unat_diff_word) simp
      then show ?thesis using f by (simp add: mem_put_def e nth_append) linarith
    qed
  qed simp
qed

lemma bytes_at_slice:
  assumes "k + n \<le> unat l"
  shows "bytes_at m (p + of_nat k) (of_nat n) = take n (drop k (bytes_at m p l))"
proof (rule nth_equalityI)
  have n: "unat (of_nat n :: u32) = n" using assms unat_less_u32 [of l] by (intro unat_of_nat_u32) simp
  show "length (bytes_at m (p + of_nat k) (of_nat n)) = length (take n (drop k (bytes_at m p l)))" using assms n by simp
  fix i assume "i < length (bytes_at m (p + of_nat k) (of_nat n))"
  then have i: "i < n" using n by simp
  then show "bytes_at m (p + of_nat k) (of_nat n) ! i = take n (drop k (bytes_at m p l)) ! i"
    using assms n by (simp add: bytes_at_def algebra_simps)
qed

text \<open>Storing into an area at an offset.\<close>

lemma mem_put_slice:
  assumes "unat p + unat l \<le> 2 ^ 32" and "k + length xs \<le> unat l"
  shows "bytes_at (mem_put (p + of_nat k) xs m) p l = take k (bytes_at m p l) @ xs @ drop (k + length xs) (bytes_at m p l)"
proof (cases "xs = []")
  case False
  then have k: "k < unat l" using assms(2) by (cases xs) auto
  show ?thesis
  proof (rule nth_equalityI)
    fix i assume "i < length (bytes_at (mem_put (p + of_nat k) xs m) p l)"
    then have i: "i < unat l" by simp
    then show "bytes_at (mem_put (p + of_nat k) xs m) p l ! i
      = (take k (bytes_at m p l) @ xs @ drop (k + length xs) (bytes_at m p l)) ! i"
      using mem_put_area [OF assms(1) i k assms(2), of m] k assms(2) by (auto simp: bytes_at_def nth_append)
  qed (use assms(2) in simp)
qed simp

lemma take_bytes_at: "unat k \<le> unat n \<Longrightarrow> take (unat k) (bytes_at m d n) = bytes_at m d k"
  by (simp add: bytes_at_def take_map take_upt)

lemma bytes_at_append:
  assumes "unat a + unat b < 2 ^ 32"
  shows "bytes_at m p (a + b) = bytes_at m p a @ bytes_at m (p + a) b"
proof -
  have u: "unat (a + b) = unat a + unat b" by (rule unat_add_u32 [OF assms])
  have "bytes_at m p a = take (unat a) (bytes_at m p (a + b))"
    using bytes_at_slice [of 0 "unat a" "a + b" m p] u by simp
  moreover have "bytes_at m (p + a) b = drop (unat a) (bytes_at m p (a + b))"
    using bytes_at_slice [of "unat a" "unat b" "a + b" m p] u by simp
  ultimately show ?thesis by simp
qed

end
