(* ===== verification/Rtos.thy ===== *)
theory Rtos
  imports Kernel_System Heap4_Properties Memory
begin

text \<open>
  The kernel with its heap and the memory of its clients: the state all blocking services
  (queues, event groups, stream buffers) share, \<open>pvPortMalloc\<close> and \<open>vPortFree\<close> with their
  suspended sections, \<open>memcpy\<close>, and task creation on top of the allocator. Task handles are
  TCB addresses: task \<open>t\<close> of the scheduler model is the TCB at address \<open>t\<close>.
\<close>

section \<open>State\<close>

record xQUEUE =
  pcHead :: u32
  pcWriteTo :: u32
  u_first :: u32
  u_second :: u32
  uxMessagesWaiting :: u32
  uxLength :: u32
  uxItemSize :: u32
  cRxLock :: u8
  cTxLock :: u8
  uxQueueNumber :: u32
  ucQueueType :: u8

text \<open>
  The words of the union \<open>u\<close>: of \<open>xQueue\<close> they are \<open>pcTail\<close> and \<open>pcReadFrom\<close>, of \<open>xSemaphore\<close>
  they are \<open>xMutexHolder\<close> and \<open>uxRecursiveCallCount\<close>. The two locks are \<open>int8_t\<close>, read with
  \<open>sint\<close>. The two waiting lists are lists of the scheduler's store.
\<close>

abbreviation pcTail :: "xQUEUE \<Rightarrow> u32" where "pcTail \<equiv> u_first"
abbreviation pcReadFrom :: "xQUEUE \<Rightarrow> u32" where "pcReadFrom \<equiv> u_second"
abbreviation uxRecursiveCallCount :: "xQUEUE \<Rightarrow> u32" where "uxRecursiveCallCount \<equiv> u_second"

record EventGroup_t =
  uxEventBits :: u32
  uxEventGroupNumber :: u32

record StreamBuffer_t =
  xTail :: u32
  xHead :: u32
  xLength :: u32
  xTriggerLevelBytes :: u32
  xTaskWaitingToReceive :: "task option"
  xTaskWaitingToSend :: "task option"
  pucBuffer :: u32
  ucFlags :: u8
  uxStreamBufferNumber :: u32

record rtos =
  kern :: kernel
  heap :: heap4
  mem :: "u32 \<Rightarrow> u8"
  queues :: "u32 \<Rightarrow> xQUEUE"
  egroups :: "u32 \<Rightarrow> EventGroup_t"
  sbuffers :: "u32 \<Rightarrow> StreamBuffer_t"
  pxStack :: "u32 \<Rightarrow> u32"
  xQueueRegistry :: "(u32 \<times> u32) list"

definition on_kern :: "(kernel \<Rightarrow> kernel) \<Rightarrow> rtos \<Rightarrow> rtos" where
  "on_kern f s = s\<lparr>kern := f (kern s)\<rparr>"

definition upd_q :: "u32 \<Rightarrow> (xQUEUE \<Rightarrow> xQUEUE) \<Rightarrow> rtos \<Rightarrow> rtos" where
  "upd_q a f s = s\<lparr>queues := (queues s)(a := f (queues s a))\<rparr>"

section \<open>The allocator under the scheduler\<close>

definition pvPortMalloc :: "u32 \<Rightarrow> rtos \<Rightarrow> (u32 \<times> rtos) option" where
  "pvPortMalloc xWantedSize s =
     do {
       let k = vTaskSuspendAll (kern s);
       (pvReturn, h) \<leftarrow> heap_malloc xWantedSize (heap s);
       (_, k) \<leftarrow> xTaskResumeAll k;
       Some (pvReturn, s\<lparr>kern := k, heap := h\<rparr>)
     }"

definition vPortFree :: "u32 \<Rightarrow> rtos \<Rightarrow> rtos option" where
  "vPortFree pv s =
     (if heap_free_checks pv (heap s) then
        do {
          let k = vTaskSuspendAll (kern s);
          h \<leftarrow> heap_free pv (heap s);
          (_, k) \<leftarrow> xTaskResumeAll k;
          Some (s\<lparr>kern := k, heap := h\<rparr>)
        }
      else Some s)"

section \<open>Creating a task\<close>

text \<open>
  \<open>sizeof( TCB_t )\<close> in this configuration: the stack pointer, two list items of 20 bytes,
  priority, stack, name of 12, the two trace numbers, base priority, mutexes held, notified
  value and state, padded to a multiple of 4. A stack word has 4 bytes.
\<close>

definition sizeof_TCB :: u32 where
  "sizeof_TCB = 88"

definition xTaskCreate :: "u16 \<Rightarrow> u32 \<Rightarrow> rtos \<Rightarrow> (u32 option \<times> rtos) option" where
  "xTaskCreate usStackDepth uxPriority s =
     do {
       (stack, s) \<leftarrow> pvPortMalloc (ucast usStackDepth * 4) s;
       (tcb, s) \<leftarrow>
         (if stack \<noteq> 0 then
            do {
              (tcb, s) \<leftarrow> pvPortMalloc sizeof_TCB s;
              if tcb \<noteq> 0 then Some (tcb, s\<lparr>pxStack := (pxStack s)(tcb := stack)\<rparr>)
              else do { s \<leftarrow> vPortFree stack s; Some (tcb, s) }
            }
          else Some (0, s));
       if tcb \<noteq> 0 then
         Some (Some tcb, on_kern (\<lambda>k. prvAddNewTaskToReadyList tcb
                                    (prvInitialiseNewTask tcb uxPriority k)) s)
       else Some (None, s)
     }"

end
