(* ===== verification/Queue.thy ===== *)
theory Queue
  imports Rtos
begin

text \<open>
  The queues, semaphores and mutexes of \<open>freertos/queue.c\<close>. A handle is the address of the
  \<open>Queue_t\<close>. A call that may block is split where other code can run; what runs there is an
  argument \<open>w\<close>, one transformer of the state per window. Window 0 is between the critical
  section and the suspension of the scheduler (interrupts and other tasks); 1 to 6, 8 and 9 are inside
  the suspended section (interrupts only): 8 is before \<open>prvUnlockQueue\<close>, 9 between a priority inheritance and
  the placing on the list; 7 follows the section: the task may be blocked there.
\<close>

section \<open>Constants and accessors\<close>

definition queueUNLOCKED :: u8 where
  "queueUNLOCKED = - 1"

definition queueLOCKED_UNMODIFIED :: u8 where
  "queueLOCKED_UNMODIFIED = 0"

datatype copy_position = queueSEND_TO_BACK | queueSEND_TO_FRONT | queueOVERWRITE

text \<open>\<open>sizeof( Queue_t )\<close> with the trace fields: 68 bytes, two locks and padding, two numbers.\<close>

definition sizeof_Queue :: u32 where
  "sizeof_Queue = 80"

text \<open>A mutex is a queue with \<open>pcHead\<close> (alias \<open>uxQueueType\<close>) \<open>NULL\<close>; the holder is a TCB address.\<close>

definition is_mutex :: "xQUEUE \<Rightarrow> bool" where
  "is_mutex x \<longleftrightarrow> pcHead x = 0"

definition task_of :: "u32 \<Rightarrow> task option" where
  "task_of w = (if w = 0 then None else Some w)"

definition handle_of :: "task option \<Rightarrow> u32" where
  "handle_of h = (case h of None \<Rightarrow> 0 | Some t \<Rightarrow> t)"

definition xMutexHolder :: "xQUEUE \<Rightarrow> task option" where
  "xMutexHolder x = task_of (u_first x)"

abbreviation to_send :: "u32 \<Rightarrow> klist" where
  "to_send a \<equiv> TasksWaitingToSend a"

abbreviation to_receive :: "u32 \<Rightarrow> klist" where
  "to_receive a \<equiv> TasksWaitingToReceive a"

text \<open>
  \<open>if( listLIST_IS_EMPTY( l ) == pdFALSE ) if( xTaskRemoveFromEventList( l ) != pdFALSE )\<close>:
  whether both tests hold, and the state after them.
\<close>

definition wake_first :: "klist \<Rightarrow> rtos \<Rightarrow> (bool \<times> rtos) option" where
  "wake_first l s =
     (if kitems (kern s) l = [] then Some (False, s)
      else map_option (\<lambda>(woken, k). (woken, s\<lparr>kern := k\<rparr>)) (xTaskRemoveFromEventList l (kern s)))"

definition wake_yield :: "klist \<Rightarrow> rtos \<Rightarrow> rtos option" where
  "wake_yield l s = map_option (\<lambda>(woken, s). if woken then on_kern portYIELD s else s) (wake_first l s)"

section \<open>Creation and reset\<close>

definition xQueueGenericReset :: "u32 \<Rightarrow> bool \<Rightarrow> rtos \<Rightarrow> rtos option" where
  "xQueueGenericReset a xNewQueue s =
     (let s = upd_q a (\<lambda>x. x\<lparr>u_first := pcHead x + uxLength x * uxItemSize x, uxMessagesWaiting := 0,
                pcWriteTo := pcHead x, u_second := pcHead x + (uxLength x - 1) * uxItemSize x,
                cRxLock := queueUNLOCKED, cTxLock := queueUNLOCKED\<rparr>) s
      in if \<not> xNewQueue then wake_yield (to_send a) s
         else Some (on_kern (\<lambda>k. k\<lparr>klists := a_init (to_receive a) (a_init (to_send a) (klists k))\<rparr>) s))"

definition prvInitialiseNewQueue :: "u32 \<Rightarrow> u32 \<Rightarrow> u32 \<Rightarrow> u8 \<Rightarrow> u32 \<Rightarrow> rtos \<Rightarrow> rtos option" where
  "prvInitialiseNewQueue len isz pucQueueStorage type a s =
     (let s = upd_q a (\<lambda>x. x\<lparr>pcHead := (if isz = 0 then a else pucQueueStorage)\<rparr>) s;
          s = upd_q a (\<lambda>x. x\<lparr>uxLength := len, uxItemSize := isz\<rparr>) s
      in map_option (upd_q a (\<lambda>x. x\<lparr>ucQueueType := type\<rparr>)) (xQueueGenericReset a True s))"

definition xQueueGenericCreate :: "u32 \<Rightarrow> u32 \<Rightarrow> u8 \<Rightarrow> rtos \<Rightarrow> (u32 \<times> rtos) option" where
  "xQueueGenericCreate len isz type s =
     do {
       let xQueueSizeInBytes = (if isz = 0 then 0 else len * isz);
       (a, s) \<leftarrow> pvPortMalloc (sizeof_Queue + xQueueSizeInBytes) s;
       if a \<noteq> 0 then do { s \<leftarrow> prvInitialiseNewQueue len isz (a + sizeof_Queue) type a s; Some (a, s) }
       else Some (0, s)
     }"

section \<open>The ring buffer\<close>

definition prvCopyDataToQueue :: "u32 \<Rightarrow> u32 \<Rightarrow> copy_position \<Rightarrow> rtos \<Rightarrow> (bool \<times> rtos) option" where
  "prvCopyDataToQueue a pvItemToQueue xPosition s =
     (let x = queues s a; n = uxMessagesWaiting x; isz = uxItemSize x in
      if isz = 0 then
        do {
          (ret, s) \<leftarrow>
            (if is_mutex x then
               do {
                 (ret, k) \<leftarrow> xTaskPriorityDisinherit (xMutexHolder x) (kern s);
                 Some (ret, upd_q a (u_first_update (\<lambda>_. 0)) (s\<lparr>kern := k\<rparr>))
               }
             else Some (False, s));
          Some (ret, upd_q a (uxMessagesWaiting_update (\<lambda>_. n + 1)) s)
        }
      else if xPosition = queueSEND_TO_BACK then
        (let s = s\<lparr>mem := memcpy (pcWriteTo x) pvItemToQueue isz (mem s)\<rparr>;
             s = upd_q a (\<lambda>x. x\<lparr>pcWriteTo := pcWriteTo x + isz\<rparr>) s;
             s = (if pcWriteTo (queues s a) \<ge> pcTail (queues s a)
                  then upd_q a (\<lambda>x. x\<lparr>pcWriteTo := pcHead x\<rparr>) s else s)
         in Some (False, upd_q a (uxMessagesWaiting_update (\<lambda>_. n + 1)) s))
      else
        (let s = s\<lparr>mem := memcpy (pcReadFrom x) pvItemToQueue isz (mem s)\<rparr>;
             s = upd_q a (\<lambda>x. x\<lparr>u_second := pcReadFrom x - isz\<rparr>) s;
             s = (if pcReadFrom (queues s a) < pcHead (queues s a)
                  then upd_q a (\<lambda>x. x\<lparr>u_second := pcTail x - isz\<rparr>) s else s);
             n = (if xPosition = queueOVERWRITE \<and> n > 0 then n - 1 else n)
         in Some (False, upd_q a (uxMessagesWaiting_update (\<lambda>_. n + 1)) s)))"

definition prvCopyDataFromQueue :: "u32 \<Rightarrow> u32 \<Rightarrow> rtos \<Rightarrow> rtos" where
  "prvCopyDataFromQueue a pvBuffer s =
     (let isz = uxItemSize (queues s a) in
      if isz \<noteq> 0 then
        (let s = upd_q a (\<lambda>x. x\<lparr>u_second := pcReadFrom x + isz\<rparr>) s;
             s = (if pcReadFrom (queues s a) \<ge> pcTail (queues s a)
                  then upd_q a (\<lambda>x. x\<lparr>u_second := pcHead x\<rparr>) s else s)
         in s\<lparr>mem := memcpy pvBuffer (pcReadFrom (queues s a)) isz (mem s)\<rparr>)
      else s)"

section \<open>Locks\<close>

definition prvLockQueue :: "u32 \<Rightarrow> rtos \<Rightarrow> rtos" where
  "prvLockQueue a s =
     upd_q a (\<lambda>x. x\<lparr>cRxLock := (if cRxLock x = queueUNLOCKED then queueLOCKED_UNMODIFIED else cRxLock x),
       cTxLock := (if cTxLock x = queueUNLOCKED then queueLOCKED_UNMODIFIED else cTxLock x)\<rparr>) s"

text \<open>
  Both loops of \<open>prvUnlockQueue\<close> count a lock down to \<open>queueLOCKED_UNMODIFIED\<close> and wake one
  waiting task per round while there is one.
\<close>

fun unlock_loop :: "nat \<Rightarrow> klist \<Rightarrow> kernel \<Rightarrow> kernel option" where
  "unlock_loop 0 l k = Some k"
| "unlock_loop (Suc n) l k =
     (if kitems k l = [] then Some k
      else do {
        (woken, k) \<leftarrow> xTaskRemoveFromEventList l k;
        unlock_loop n l (if woken then vTaskMissedYield k else k)
      })"

definition unlock_tx :: "u32 \<Rightarrow> rtos \<Rightarrow> rtos option" where
  "unlock_tx a s =
     do {
       k \<leftarrow> unlock_loop (nat (sint (cTxLock (queues s a)))) (to_receive a) (kern s);
       Some (upd_q a (cTxLock_update (\<lambda>_. queueUNLOCKED)) (s\<lparr>kern := k\<rparr>))
     }"

definition unlock_rx :: "u32 \<Rightarrow> rtos \<Rightarrow> rtos option" where
  "unlock_rx a s =
     do {
       k \<leftarrow> unlock_loop (nat (sint (cRxLock (queues s a)))) (to_send a) (kern s);
       Some (upd_q a (cRxLock_update (\<lambda>_. queueUNLOCKED)) (s\<lparr>kern := k\<rparr>))
     }"

definition prvUnlockQueue :: "(rtos \<Rightarrow> rtos option) \<Rightarrow> u32 \<Rightarrow> rtos \<Rightarrow> rtos option" where
  "prvUnlockQueue isr a s = do { s \<leftarrow> unlock_tx a s; s \<leftarrow> isr s; unlock_rx a s }"

definition prvIsQueueEmpty :: "u32 \<Rightarrow> rtos \<Rightarrow> bool" where
  "prvIsQueueEmpty a s \<longleftrightarrow> uxMessagesWaiting (queues s a) = 0"

definition prvIsQueueFull :: "u32 \<Rightarrow> rtos \<Rightarrow> bool" where
  "prvIsQueueFull a s \<longleftrightarrow> uxMessagesWaiting (queues s a) = uxLength (queues s a)"

section \<open>Calls of tasks\<close>

text \<open>
  The locals of a call that waits: the remaining ticks, the time-out (\<open>None\<close> while
  \<open>xEntryTimeSet\<close> is \<open>pdFALSE\<close>) and, for a mutex, whether the holder inherited a priority.
\<close>

type_synonym windows = "nat \<Rightarrow> rtos \<Rightarrow> rtos option"

record wait_locals =
  xTicksToWait :: u32
  xTimeOut :: "xTIME_OUT option"
  xInheritanceOccurred :: bool

definition entry_locals :: "u32 \<Rightarrow> wait_locals" where
  "entry_locals ticks = \<lparr>xTicksToWait = ticks, xTimeOut = None, xInheritanceOccurred = False\<rparr>"

text \<open>The end of the first critical section when the call cannot succeed: give up or wait.\<close>

definition refuse :: "wait_locals \<Rightarrow> rtos \<Rightarrow> (bool option \<times> wait_locals \<times> rtos) option" where
  "refuse l s =
     (if xTicksToWait l = 0 then Some (Some False, l, s)
      else Some (None, l\<lparr>xTimeOut := (case xTimeOut l of
                   None \<Rightarrow> Some (vTaskInternalSetTimeOutState (kern s)) | Some t \<Rightarrow> Some t)\<rparr>, s))"

text \<open>\<open>vTaskSuspendAll\<close>, \<open>prvLockQueue\<close> and \<open>xTaskCheckForTimeOut\<close>; the flag is its result.\<close>

definition lock_and_check :: "windows \<Rightarrow> u32 \<Rightarrow> wait_locals \<Rightarrow> rtos \<Rightarrow> (bool \<times> wait_locals \<times> rtos) option" where
  "lock_and_check w a l s =
     do {
       s \<leftarrow> w 0 s;
       s \<leftarrow> w 1 (on_kern vTaskSuspendAll s);
       s \<leftarrow> w 2 (prvLockQueue a s);
       t \<leftarrow> xTimeOut l;
       let (expired, t, ticks) = xTaskCheckForTimeOut t (xTicksToWait l) (kern s);
       s \<leftarrow> w 3 s;
       Some (expired, l\<lparr>xTimeOut := Some t, xTicksToWait := ticks\<rparr>, s)
     }"

text \<open>\<open>prvUnlockQueue\<close>, \<open>xTaskResumeAll\<close> and, if the task was placed on a list, the yield.\<close>

definition unlock_and_resume :: "windows \<Rightarrow> bool \<Rightarrow> u32 \<Rightarrow> rtos \<Rightarrow> rtos option" where
  "unlock_and_resume w placed a s =
     do {
       s \<leftarrow> w 8 s;
       s \<leftarrow> prvUnlockQueue (w 5) a s;
       s \<leftarrow> w 6 s;
       (already, k) \<leftarrow> xTaskResumeAll (kern s);
       w 7 (s\<lparr>kern := if placed then yield_unless already k else k\<rparr>)
     }"

definition place :: "klist \<Rightarrow> u32 \<Rightarrow> rtos \<Rightarrow> rtos option" where
  "place l ticks s = map_option (\<lambda>k. s\<lparr>kern := k\<rparr>) (vTaskPlaceOnEventList l ticks (kern s))"

text \<open>
  The \<open>for(;;)\<close> of the calls: the critical section, then the suspended section, then again.
  There is one list element per time the task waits; \<open>None\<close> as result: it waits still.
\<close>

fun wait_loop ::
  "(wait_locals \<Rightarrow> rtos \<Rightarrow> (bool option \<times> wait_locals \<times> rtos) option) \<Rightarrow>
   (windows \<Rightarrow> wait_locals \<Rightarrow> rtos \<Rightarrow> (bool option \<times> wait_locals \<times> rtos) option) \<Rightarrow>
   windows list \<Rightarrow> wait_locals \<Rightarrow> rtos \<Rightarrow> (bool option \<times> rtos) option" where
  "wait_loop attempt wait [] l s = do { (r, l, s) \<leftarrow> attempt l s; Some (r, s) }"
| "wait_loop attempt wait (w # ws) l s =
     do {
       (r, l, s) \<leftarrow> attempt l s;
       if r \<noteq> None then Some (r, s)
       else do {
         (r, l, s) \<leftarrow> wait w l s;
         if r \<noteq> None then Some (r, s) else wait_loop attempt wait ws l s
       }
     }"

subsection \<open>Sending\<close>

definition xQueueGenericSend_try ::
  "u32 \<Rightarrow> u32 \<Rightarrow> copy_position \<Rightarrow> wait_locals \<Rightarrow> rtos \<Rightarrow> (bool option \<times> wait_locals \<times> rtos) option" where
  "xQueueGenericSend_try a pvItemToQueue xCopyPosition l s =
     (if uxMessagesWaiting (queues s a) < uxLength (queues s a) \<or> xCopyPosition = queueOVERWRITE then
        do {
          (xYieldRequired, s) \<leftarrow> prvCopyDataToQueue a pvItemToQueue xCopyPosition s;
          s \<leftarrow> (if kitems (kern s) (to_receive a) \<noteq> [] then wake_yield (to_receive a) s
               else Some (if xYieldRequired then on_kern portYIELD s else s));
          Some (Some True, l, s)
        }
      else refuse l s)"

definition xQueueGenericSend_wait ::
  "u32 \<Rightarrow> windows \<Rightarrow> wait_locals \<Rightarrow> rtos \<Rightarrow> (bool option \<times> wait_locals \<times> rtos) option" where
  "xQueueGenericSend_wait a w l s =
     do {
       (expired, l, s) \<leftarrow> lock_and_check w a l s;
       if \<not> expired then
         if prvIsQueueFull a s then
           do {
             s \<leftarrow> w 4 s;
             s \<leftarrow> place (to_send a) (xTicksToWait l) s;
             s \<leftarrow> unlock_and_resume w True a s;
             Some (None, l, s)
           }
         else do { s \<leftarrow> unlock_and_resume w False a s; Some (None, l, s) }
       else do { s \<leftarrow> unlock_and_resume w False a s; Some (Some False, l, s) }
     }"

definition xQueueGenericSend ::
  "windows list \<Rightarrow> u32 \<Rightarrow> u32 \<Rightarrow> u32 \<Rightarrow> copy_position \<Rightarrow> rtos \<Rightarrow> (bool option \<times> rtos) option" where
  "xQueueGenericSend ws a pvItemToQueue ticks xCopyPosition s =
     wait_loop (xQueueGenericSend_try a pvItemToQueue xCopyPosition) (xQueueGenericSend_wait a) ws
       (entry_locals ticks) s"

subsection \<open>Receiving and peeking\<close>

definition xQueueReceive_try ::
  "u32 \<Rightarrow> u32 \<Rightarrow> wait_locals \<Rightarrow> rtos \<Rightarrow> (bool option \<times> wait_locals \<times> rtos) option" where
  "xQueueReceive_try a pvBuffer l s =
     (let n = uxMessagesWaiting (queues s a) in
      if n > 0 then
        do {
          let s = prvCopyDataFromQueue a pvBuffer s;
          let s = upd_q a (uxMessagesWaiting_update (\<lambda>_. n - 1)) s;
          s \<leftarrow> wake_yield (to_send a) s;
          Some (Some True, l, s)
        }
      else refuse l s)"

definition xQueueReceive_wait ::
  "u32 \<Rightarrow> windows \<Rightarrow> wait_locals \<Rightarrow> rtos \<Rightarrow> (bool option \<times> wait_locals \<times> rtos) option" where
  "xQueueReceive_wait a w l s =
     do {
       (expired, l, s) \<leftarrow> lock_and_check w a l s;
       if \<not> expired then
         if prvIsQueueEmpty a s then
           do {
             s \<leftarrow> w 4 s;
             s \<leftarrow> place (to_receive a) (xTicksToWait l) s;
             s \<leftarrow> unlock_and_resume w True a s;
             Some (None, l, s)
           }
         else do { s \<leftarrow> unlock_and_resume w False a s; Some (None, l, s) }
       else do {
         s \<leftarrow> unlock_and_resume w False a s;
         Some (if prvIsQueueEmpty a s then Some False else None, l, s)
       }
     }"

definition xQueueReceive :: "windows list \<Rightarrow> u32 \<Rightarrow> u32 \<Rightarrow> u32 \<Rightarrow> rtos \<Rightarrow> (bool option \<times> rtos) option" where
  "xQueueReceive ws a pvBuffer ticks s =
     wait_loop (xQueueReceive_try a pvBuffer) (xQueueReceive_wait a) ws (entry_locals ticks) s"

definition xQueuePeek_try ::
  "u32 \<Rightarrow> u32 \<Rightarrow> wait_locals \<Rightarrow> rtos \<Rightarrow> (bool option \<times> wait_locals \<times> rtos) option" where
  "xQueuePeek_try a pvBuffer l s =
     (if uxMessagesWaiting (queues s a) > 0 then
        do {
          let pcOriginalReadPosition = pcReadFrom (queues s a);
          let s = prvCopyDataFromQueue a pvBuffer s;
          let s = upd_q a (u_second_update (\<lambda>_. pcOriginalReadPosition)) s;
          s \<leftarrow> wake_yield (to_receive a) s;
          Some (Some True, l, s)
        }
      else refuse l s)"

text \<open>The suspended section of \<open>xQueuePeek\<close> is that of \<open>xQueueReceive\<close>, statement by statement.\<close>

definition xQueuePeek_wait ::
  "u32 \<Rightarrow> windows \<Rightarrow> wait_locals \<Rightarrow> rtos \<Rightarrow> (bool option \<times> wait_locals \<times> rtos) option" where
  "xQueuePeek_wait = xQueueReceive_wait"

definition xQueuePeek :: "windows list \<Rightarrow> u32 \<Rightarrow> u32 \<Rightarrow> u32 \<Rightarrow> rtos \<Rightarrow> (bool option \<times> rtos) option" where
  "xQueuePeek ws a pvBuffer ticks s =
     wait_loop (xQueuePeek_try a pvBuffer) (xQueuePeek_wait a) ws (entry_locals ticks) s"

subsection \<open>Semaphores and mutexes\<close>

definition xQueueSemaphoreTake_try ::
  "u32 \<Rightarrow> wait_locals \<Rightarrow> rtos \<Rightarrow> (bool option \<times> wait_locals \<times> rtos) option" where
  "xQueueSemaphoreTake_try a l s =
     (let n = uxMessagesWaiting (queues s a) in
      if n > 0 then
        do {
          let s = upd_q a (uxMessagesWaiting_update (\<lambda>_. n - 1)) s;
          let s = (if is_mutex (queues s a) then
                     (let r = pvTaskIncrementMutexHeldCount (kern s)
                      in upd_q a (u_first_update (\<lambda>_. handle_of (fst r))) (s\<lparr>kern := snd r\<rparr>))
                   else s);
          s \<leftarrow> wake_yield (to_send a) s;
          Some (Some True, l, s)
        }
      else refuse l s)"

definition prvGetDisinheritPriorityAfterTimeout :: "u32 \<Rightarrow> rtos \<Rightarrow> u32" where
  "prvGetDisinheritPriorityAfterTimeout a s =
     (case kitems (kern s) (to_receive a) of
        [] \<Rightarrow> 0
      | i # _ \<Rightarrow> configMAX_PRIORITIES - item_value (kern s) i)"

definition xQueueSemaphoreTake_wait ::
  "u32 \<Rightarrow> windows \<Rightarrow> wait_locals \<Rightarrow> rtos \<Rightarrow> (bool option \<times> wait_locals \<times> rtos) option" where
  "xQueueSemaphoreTake_wait a w l s =
     do {
       (expired, l, s) \<leftarrow> lock_and_check w a l s;
       if \<not> expired then
         if prvIsQueueEmpty a s then
           do {
             s \<leftarrow> w 4 s;
             (l, s) \<leftarrow>
               (if is_mutex (queues s a) then
                  do {
                    (inherited, k) \<leftarrow> xTaskPriorityInherit (xMutexHolder (queues s a)) (kern s);
                    s \<leftarrow> w 9 (s\<lparr>kern := k\<rparr>);
                    Some (l\<lparr>xInheritanceOccurred := inherited\<rparr>, s)
                  }
                else Some (l, s));
             s \<leftarrow> place (to_receive a) (xTicksToWait l) s;
             s \<leftarrow> unlock_and_resume w True a s;
             Some (None, l, s)
           }
         else do { s \<leftarrow> unlock_and_resume w False a s; Some (None, l, s) }
       else do {
         s \<leftarrow> unlock_and_resume w False a s;
         if prvIsQueueEmpty a s then
           if xInheritanceOccurred l then
             do {
               k \<leftarrow> vTaskPriorityDisinheritAfterTimeout (xMutexHolder (queues s a))
                     (prvGetDisinheritPriorityAfterTimeout a s) (kern s);
               Some (Some False, l, s\<lparr>kern := k\<rparr>)
             }
           else Some (Some False, l, s)
         else Some (None, l, s)
       }
     }"

definition xQueueSemaphoreTake :: "windows list \<Rightarrow> u32 \<Rightarrow> u32 \<Rightarrow> rtos \<Rightarrow> (bool option \<times> rtos) option" where
  "xQueueSemaphoreTake ws a ticks s =
     wait_loop (xQueueSemaphoreTake_try a) (xQueueSemaphoreTake_wait a) ws (entry_locals ticks) s"

text \<open>With \<open>xTicksToWait\<close> 0 a call returns from its first critical section: it needs no window.\<close>

definition prvInitialiseMutex :: "u32 \<Rightarrow> rtos \<Rightarrow> rtos option" where
  "prvInitialiseMutex a s =
     (if a \<noteq> 0 then
        (let s = upd_q a (\<lambda>x. x\<lparr>u_first := 0, pcHead := 0, u_second := 0\<rparr>) s
         in map_option snd (xQueueGenericSend [] a 0 0 queueSEND_TO_BACK s))
      else Some s)"

definition xQueueCreateMutex :: "u8 \<Rightarrow> rtos \<Rightarrow> (u32 \<times> rtos) option" where
  "xQueueCreateMutex type s =
     do { (a, s) \<leftarrow> xQueueGenericCreate 1 0 type s; s \<leftarrow> prvInitialiseMutex a s; Some (a, s) }"

definition xQueueGiveMutexRecursive :: "u32 \<Rightarrow> rtos \<Rightarrow> (bool \<times> rtos) option" where
  "xQueueGiveMutexRecursive a s =
     (if xMutexHolder (queues s a) = pxCurrentTCB (kern s) then
        do {
          let s = upd_q a (\<lambda>x. x\<lparr>u_second := uxRecursiveCallCount x - 1\<rparr>) s;
          s \<leftarrow> (if uxRecursiveCallCount (queues s a) = 0
               then map_option snd (xQueueGenericSend [] a 0 0 queueSEND_TO_BACK s) else Some s);
          Some (True, s)
        }
      else Some (False, s))"

definition xQueueTakeMutexRecursive :: "windows list \<Rightarrow> u32 \<Rightarrow> u32 \<Rightarrow> rtos \<Rightarrow> (bool option \<times> rtos) option" where
  "xQueueTakeMutexRecursive ws a ticks s =
     (if xMutexHolder (queues s a) = pxCurrentTCB (kern s)
      then Some (Some True, upd_q a (\<lambda>x. x\<lparr>u_second := uxRecursiveCallCount x + 1\<rparr>) s)
      else do {
        (r, s) \<leftarrow> xQueueSemaphoreTake ws a ticks s;
        Some (r, if r = Some True then upd_q a (\<lambda>x. x\<lparr>u_second := uxRecursiveCallCount x + 1\<rparr>) s else s)
      })"

definition queueQUEUE_TYPE_COUNTING_SEMAPHORE :: u8 where
  "queueQUEUE_TYPE_COUNTING_SEMAPHORE = 2"

definition xQueueCreateCountingSemaphore :: "u32 \<Rightarrow> u32 \<Rightarrow> rtos \<Rightarrow> (u32 \<times> rtos) option" where
  "xQueueCreateCountingSemaphore uxMaxCount uxInitialCount s =
     do {
       (a, s) \<leftarrow> xQueueGenericCreate uxMaxCount 0 queueQUEUE_TYPE_COUNTING_SEMAPHORE s;
       Some (a, if a \<noteq> 0 then upd_q a (uxMessagesWaiting_update (\<lambda>_. uxInitialCount)) s else s)
     }"

section \<open>Calls of interrupt handlers\<close>

text \<open>Result: the return value and whether \<open>*pxHigherPriorityTaskWoken\<close> is set.\<close>

definition xQueueGenericSendFromISR ::
  "u32 \<Rightarrow> u32 \<Rightarrow> copy_position \<Rightarrow> rtos \<Rightarrow> ((bool \<times> bool) \<times> rtos) option" where
  "xQueueGenericSendFromISR a pvItemToQueue xCopyPosition s =
     (if uxMessagesWaiting (queues s a) < uxLength (queues s a) \<or> xCopyPosition = queueOVERWRITE then
        do {
          let lock = cTxLock (queues s a);
          (_, s) \<leftarrow> prvCopyDataToQueue a pvItemToQueue xCopyPosition s;
          if lock = queueUNLOCKED then
            do { (woken, s) \<leftarrow> wake_first (to_receive a) s; Some ((True, woken), s) }
          else Some ((True, False), upd_q a (cTxLock_update (\<lambda>_. lock + 1)) s)
        }
      else Some ((False, False), s))"

definition xQueueGiveFromISR :: "u32 \<Rightarrow> rtos \<Rightarrow> ((bool \<times> bool) \<times> rtos) option" where
  "xQueueGiveFromISR a s =
     (let n = uxMessagesWaiting (queues s a) in
      if n < uxLength (queues s a) then
        do {
          let lock = cTxLock (queues s a);
          let s = upd_q a (uxMessagesWaiting_update (\<lambda>_. n + 1)) s;
          if lock = queueUNLOCKED then
            do { (woken, s) \<leftarrow> wake_first (to_receive a) s; Some ((True, woken), s) }
          else Some ((True, False), upd_q a (cTxLock_update (\<lambda>_. lock + 1)) s)
        }
      else Some ((False, False), s))"

definition xQueueReceiveFromISR :: "u32 \<Rightarrow> u32 \<Rightarrow> rtos \<Rightarrow> ((bool \<times> bool) \<times> rtos) option" where
  "xQueueReceiveFromISR a pvBuffer s =
     (let n = uxMessagesWaiting (queues s a) in
      if n > 0 then
        do {
          let lock = cRxLock (queues s a);
          let s = prvCopyDataFromQueue a pvBuffer s;
          let s = upd_q a (uxMessagesWaiting_update (\<lambda>_. n - 1)) s;
          if lock = queueUNLOCKED then
            do { (woken, s) \<leftarrow> wake_first (to_send a) s; Some ((True, woken), s) }
          else Some ((True, False), upd_q a (cRxLock_update (\<lambda>_. lock + 1)) s)
        }
      else Some ((False, False), s))"

definition xQueuePeekFromISR :: "u32 \<Rightarrow> u32 \<Rightarrow> rtos \<Rightarrow> bool \<times> rtos" where
  "xQueuePeekFromISR a pvBuffer s =
     (if uxMessagesWaiting (queues s a) > 0 then
        (let pcOriginalReadPosition = pcReadFrom (queues s a);
             s = prvCopyDataFromQueue a pvBuffer s
         in (True, upd_q a (u_second_update (\<lambda>_. pcOriginalReadPosition)) s))
      else (False, s))"

section \<open>Inspection, registry and deletion\<close>

definition uxQueueMessagesWaiting :: "u32 \<Rightarrow> rtos \<Rightarrow> u32" where
  "uxQueueMessagesWaiting a s = uxMessagesWaiting (queues s a)"

definition uxQueueSpacesAvailable :: "u32 \<Rightarrow> rtos \<Rightarrow> u32" where
  "uxQueueSpacesAvailable a s = uxLength (queues s a) - uxMessagesWaiting (queues s a)"

definition uxQueueMessagesWaitingFromISR :: "u32 \<Rightarrow> rtos \<Rightarrow> u32" where
  "uxQueueMessagesWaitingFromISR a s = uxMessagesWaiting (queues s a)"

definition xQueueIsQueueEmptyFromISR :: "u32 \<Rightarrow> rtos \<Rightarrow> bool" where
  "xQueueIsQueueEmptyFromISR a s \<longleftrightarrow> uxMessagesWaiting (queues s a) = 0"

definition xQueueIsQueueFullFromISR :: "u32 \<Rightarrow> rtos \<Rightarrow> bool" where
  "xQueueIsQueueFullFromISR a s \<longleftrightarrow> uxMessagesWaiting (queues s a) = uxLength (queues s a)"

definition uxQueueGetQueueNumber :: "u32 \<Rightarrow> rtos \<Rightarrow> u32" where
  "uxQueueGetQueueNumber a s = uxQueueNumber (queues s a)"

definition vQueueSetQueueNumber :: "u32 \<Rightarrow> u32 \<Rightarrow> rtos \<Rightarrow> rtos" where
  "vQueueSetQueueNumber a n s = upd_q a (uxQueueNumber_update (\<lambda>_. n)) s"

definition ucQueueGetQueueType :: "u32 \<Rightarrow> rtos \<Rightarrow> u8" where
  "ucQueueGetQueueType a s = ucQueueType (queues s a)"

text \<open>
  \<open>xQueueRegistry\<close> has \<open>configQUEUE_REGISTRY_SIZE\<close> entries of name and handle; the loops stop at
  the first free entry, or the first entry of the handle.
\<close>

definition configQUEUE_REGISTRY_SIZE :: nat where
  "configQUEUE_REGISTRY_SIZE = 10"

fun registry_index :: "((u32 \<times> u32) \<Rightarrow> bool) \<Rightarrow> (u32 \<times> u32) list \<Rightarrow> nat option" where
  "registry_index P [] = None"
| "registry_index P (e # es) = (if P e then Some 0 else map_option Suc (registry_index P es))"

definition vQueueAddToRegistry :: "u32 \<Rightarrow> u32 \<Rightarrow> rtos \<Rightarrow> rtos" where
  "vQueueAddToRegistry a pcQueueName s =
     (case registry_index (\<lambda>e. fst e = 0) (xQueueRegistry s) of
        None \<Rightarrow> s
      | Some i \<Rightarrow> s\<lparr>xQueueRegistry := (xQueueRegistry s)[i := (pcQueueName, a)]\<rparr>)"

definition pcQueueGetName :: "u32 \<Rightarrow> rtos \<Rightarrow> u32" where
  "pcQueueGetName a s =
     (case registry_index (\<lambda>e. snd e = a) (xQueueRegistry s) of
        None \<Rightarrow> 0 | Some i \<Rightarrow> fst (xQueueRegistry s ! i))"

definition vQueueUnregisterQueue :: "u32 \<Rightarrow> rtos \<Rightarrow> rtos" where
  "vQueueUnregisterQueue a s =
     (case registry_index (\<lambda>e. snd e = a) (xQueueRegistry s) of
        None \<Rightarrow> s
      | Some i \<Rightarrow> s\<lparr>xQueueRegistry := (xQueueRegistry s)[i := (0, 0)]\<rparr>)"

definition vQueueDelete :: "u32 \<Rightarrow> rtos \<Rightarrow> rtos option" where
  "vQueueDelete a s = vPortFree a (vQueueUnregisterQueue a s)"

end
