(* ===== verification/Fifo_Contract.thy ===== *)
theory Fifo_Contract
  imports Prelude
begin

text \<open>
  The contract of a first-in first-out buffer: what an operation puts in is appended to the
  contents, what it takes out is a prefix of them. Queues and stream buffers provide it;
  their clients rely on what is proved here once, for every sequence of operations.
\<close>

locale fifo =
  fixes ok :: "'s \<Rightarrow> bool"
    and contents :: "'s \<Rightarrow> 'a list"
    and put :: "'p \<Rightarrow> 's \<Rightarrow> ('a list \<times> 's) option"
    and get :: "'p \<Rightarrow> 's \<Rightarrow> ('a list \<times> 's) option"
  assumes put_law: "ok s \<Longrightarrow> put p s = Some (xs, s') \<Longrightarrow> ok s' \<and> contents s' = contents s @ xs"
    and get_law: "ok s \<Longrightarrow> get p s = Some (ys, s') \<Longrightarrow> ok s' \<and> ys @ contents s' = contents s"
begin

text \<open>Runs with the log of what was put in and taken out; other steps keep the contents.\<close>

inductive traffic :: "'s \<Rightarrow> 'a list \<Rightarrow> 'a list \<Rightarrow> 's \<Rightarrow> bool" where
  nothing: "traffic s [] [] s"
| putting: "traffic s sent got t \<Longrightarrow> put p t = Some (xs, u) \<Longrightarrow> traffic s (sent @ xs) got u"
| getting: "traffic s sent got t \<Longrightarrow> get p t = Some (ys, u) \<Longrightarrow> traffic s sent (got @ ys) u"
| other: "traffic s sent got t \<Longrightarrow> ok u \<Longrightarrow> contents u = contents t \<Longrightarrow> traffic s sent got u"

lemma traffic_ok: "traffic s sent got t \<Longrightarrow> ok s \<Longrightarrow> ok t \<and> got @ contents t = contents s @ sent"
proof (induction rule: traffic.induct)
  case (putting s sent got t p xs u)
  then show ?case using put_law [of t p xs u] by (metis append.assoc)
next
  case (getting s sent got t p ys u)
  then show ?case using get_law [of t p ys u] by (metis append.assoc)
qed auto

text \<open>Nothing is lost, duplicated or reordered: what was taken out is what was put in first.\<close>

lemma delivered_in_order: "traffic s sent got t \<Longrightarrow> ok s \<Longrightarrow> contents s = [] \<Longrightarrow> got = take (length got) sent"
  using traffic_ok [of s sent got t] by (metis append_Nil append_eq_conv_conj)

lemma delivered_all:
  "traffic s sent got t \<Longrightarrow> ok s \<Longrightarrow> contents s = [] \<Longrightarrow> contents t = [] \<Longrightarrow> got = sent"
  using traffic_ok [of s sent got t] by simp

end

end
