(* ===== verification/Queue_Ring.thy ===== *)
theory Queue_Ring
  imports Queue Fifo_Contract
begin

text \<open>
  The storage of a queue as a ring: the pointers \<open>pcWriteTo\<close> and \<open>pcReadFrom\<close> are slots of
  the storage area, and the two copy routines append, prepend and take items of a sequence.
\<close>

section \<open>Slots\<close>

definition slot :: "xQUEUE \<Rightarrow> nat \<Rightarrow> u32" where
  "slot x i = pcHead x + of_nat i * uxItemSize x"

text \<open>
  The storage area lies in the address space, not in its first bytes, so that the comparisons
  of the pointers with the ends mean what they say; the write slot follows the last item and
  the item after \<open>pcReadFrom\<close> is the first.
\<close>

definition storage_ok :: "xQUEUE \<Rightarrow> bool" where
  "storage_ok x \<longleftrightarrow> uxItemSize x \<noteq> 0 \<and> uxLength x \<noteq> 0
     \<and> unat (pcHead x) + unat (uxLength x) * unat (uxItemSize x) < 2 ^ 32
     \<and> uxItemSize x \<le> pcHead x \<and> pcTail x = slot x (unat (uxLength x))"

definition ring :: "xQUEUE \<Rightarrow> nat \<Rightarrow> nat \<Rightarrow> bool" where
  "ring x w r \<longleftrightarrow> storage_ok x
     \<and> r < unat (uxLength x) \<and> pcReadFrom x = slot x r \<and> pcWriteTo x = slot x w
     \<and> uxMessagesWaiting x \<le> uxLength x
     \<and> w = (r + 1 + unat (uxMessagesWaiting x)) mod unat (uxLength x)"

definition queue_ok :: "u32 \<Rightarrow> rtos \<Rightarrow> bool" where
  "queue_ok a s \<longleftrightarrow> (\<exists>w r. ring (queues s a) w r)"

definition items_from :: "(u32 \<Rightarrow> u8) \<Rightarrow> xQUEUE \<Rightarrow> nat \<Rightarrow> nat \<Rightarrow> u8 list list" where
  "items_from m x r n =
     map (\<lambda>i. bytes_at m (slot x ((r + 1 + i) mod unat (uxLength x))) (uxItemSize x)) [0..<n]"

text \<open>The contents: the items in the order they will be received.\<close>

definition queue_contents :: "u32 \<Rightarrow> rtos \<Rightarrow> u8 list list" where
  "queue_contents a s =
     (let x = queues s a; r = unat (pcReadFrom x - pcHead x) div unat (uxItemSize x)
      in items_from (mem s) x r (unat (uxMessagesWaiting x)))"

lemma storage_okD:
  assumes "storage_ok x"
  shows "0 < unat (uxItemSize x)" and "0 < unat (uxLength x)"
    and "unat (pcHead x) + unat (uxLength x) * unat (uxItemSize x) < 2 ^ 32"
    and "unat (uxItemSize x) \<le> unat (pcHead x)" and "pcTail x = slot x (unat (uxLength x))"
  using assms by (auto simp: storage_ok_def word_le_nat_alt unat_gt_0)

lemma unat_slot:
  assumes "storage_ok x" and "i \<le> unat (uxLength x)"
  shows "unat (slot x i) = unat (pcHead x) + i * unat (uxItemSize x)"
proof -
  have le: "i * unat (uxItemSize x) \<le> unat (uxLength x) * unat (uxItemSize x)" using assms(2) by simp
  note b = storage_okD(3) [OF assms(1)]
  have i: "unat (of_nat i :: u32) = i"
    by (rule unat_of_nat_u32) (use assms(2) unat_less_u32 [of "uxLength x"] in linarith)
  have "i * unat (uxItemSize x) < 2 ^ 32" using le b by linarith
  then have "unat (of_nat i * uxItemSize x) = i * unat (uxItemSize x)"
    using i by (simp add: unat_word_ariths)
  moreover have "unat (pcHead x) + i * unat (uxItemSize x) < 2 ^ 32" using le b by linarith
  ultimately show ?thesis by (simp add: slot_def unat_add_u32)
qed

lemma slot_read_index:
  assumes "storage_ok x" and "i < unat (uxLength x)" and "p = slot x i"
  shows "unat (p - pcHead x) div unat (uxItemSize x) = i"
proof -
  have u: "unat (slot x i) = unat (pcHead x) + i * unat (uxItemSize x)" using unat_slot assms by simp
  then have "unat (slot x i - pcHead x) = i * unat (uxItemSize x)" by (simp add: unat_sub word_le_nat_alt)
  then show ?thesis using storage_okD(1) [OF assms(1)] assms(3) by simp
qed

lemma queue_contents_ring: "ring (queues s a) w r \<Longrightarrow>
    queue_contents a s = items_from (mem s) (queues s a) r (unat (uxMessagesWaiting (queues s a)))"
  using slot_read_index [of "queues s a" r] by (simp add: queue_contents_def ring_def Let_def)

lemma slots_apart:
  assumes "storage_ok x" and "i < unat (uxLength x)" and "j < unat (uxLength x)" and "i \<noteq> j"
  shows "apart (slot x i) (uxItemSize x) (slot x j) (uxItemSize x)"
proof -
  let ?z = "unat (uxItemSize x)"
  have u: "unat (slot x i) = unat (pcHead x) + i * ?z" "unat (slot x j) = unat (pcHead x) + j * ?z"
    using unat_slot [OF assms(1)] assms(2,3) by simp_all
  have step: "Suc k * ?z \<le> unat (uxLength x) * ?z" if "k < unat (uxLength x)" for k
    using that by (intro mult_le_mono1) simp
  have lt: "p * ?z + ?z \<le> q * ?z" if "p < q" for p q
    using that mult_le_mono1 [of "Suc p" q ?z] by simp
  show ?thesis
    unfolding apart_def u
    using storage_okD(3) [OF assms(1)] step [OF assms(2)] step [OF assms(3)] lt [of i j] lt [of j i] assms(4)
    by (cases "i < j") auto
qed

text \<open>The area from \<open>pcHead\<close> to \<open>pcTail\<close>, which client buffers must not overlap.\<close>

definition clear_of :: "u32 \<Rightarrow> xQUEUE \<Rightarrow> bool" where
  "clear_of p x \<longleftrightarrow> unat p + unat (uxItemSize x) \<le> unat (pcHead x)
     \<or> unat (pcHead x) + unat (uxLength x) * unat (uxItemSize x) \<le> unat p \<and> unat p + unat (uxItemSize x) \<le> 2 ^ 32"

lemma clear_slot:
  assumes "storage_ok x" and "clear_of p x" and "i < unat (uxLength x)"
  shows "apart p (uxItemSize x) (slot x i) (uxItemSize x)"
proof -
  let ?z = "unat (uxItemSize x)"
  have u: "unat (slot x i) = unat (pcHead x) + i * ?z" using unat_slot [OF assms(1)] assms(3) by simp
  have "Suc i * ?z \<le> unat (uxLength x) * ?z" using assms(3) by (intro mult_le_mono1) simp
  then show ?thesis
    unfolding apart_def u using storage_okD(3) [OF assms(1)] assms(2) unat_less_u32 [of "pcHead x"]
    by (auto simp: clear_of_def)
qed

section \<open>Positions in the ring\<close>

lemma mod_inj:
  assumes "(c + i) mod n = (c + j) mod (n :: nat)" and "i < n" and "j < n"
  shows "i = j"
proof -
  have *: "p = q" if "(c + p) mod n = (c + q) mod n" "p < n" "p \<ge> q" for p q
  proof -
    have "n dvd (c + p) - (c + q)" using that by (subst mod_eq_dvd_iff_nat [symmetric]) auto
    then show ?thesis using that by (auto dest: dvd_imp_le)
  qed
  show ?thesis using * [of i j] * [of j i] assms by (cases "i \<le> j") auto
qed

lemma mod_Suc_next: "w < n \<Longrightarrow> (if Suc w \<ge> n then 0 else Suc w) = Suc w mod n"
  by (cases "Suc w = n") auto

lemma mod_pred: "r < n \<Longrightarrow> Suc (if r = 0 then n - 1 else r - 1) mod n = r mod n"
  by auto

section \<open>What the copies do\<close>

lemma slot_cong: "pcHead x' = pcHead x \<Longrightarrow> uxItemSize x' = uxItemSize x \<Longrightarrow> slot x' = slot x"
  by (simp add: slot_def fun_eq_iff)

lemma slot_update [simp]:
  "slot (x\<lparr>pcWriteTo := p\<rparr>) = slot x" "slot (x\<lparr>u_second := p\<rparr>) = slot x"
  "slot (x\<lparr>uxMessagesWaiting := n\<rparr>) = slot x" "slot (x\<lparr>cTxLock := b\<rparr>) = slot x" "slot (x\<lparr>cRxLock := b\<rparr>) = slot x"
  by (simp_all add: slot_def fun_eq_iff)

lemma storage_ok_update [simp]:
  "storage_ok (x\<lparr>pcWriteTo := p\<rparr>) = storage_ok x" "storage_ok (x\<lparr>u_second := p\<rparr>) = storage_ok x"
  "storage_ok (x\<lparr>uxMessagesWaiting := n\<rparr>) = storage_ok x"
  "storage_ok (x\<lparr>cTxLock := b\<rparr>) = storage_ok x" "storage_ok (x\<lparr>cRxLock := b\<rparr>) = storage_ok x"
  by (simp_all add: storage_ok_def)

lemma items_from_update [simp]:
  "items_from m (x\<lparr>pcWriteTo := p\<rparr>) = items_from m x" "items_from m (x\<lparr>u_second := p\<rparr>) = items_from m x"
  "items_from m (x\<lparr>uxMessagesWaiting := n\<rparr>) = items_from m x"
  "items_from m (x\<lparr>cTxLock := b\<rparr>) = items_from m x" "items_from m (x\<lparr>cRxLock := b\<rparr>) = items_from m x"
  by (simp_all add: items_from_def fun_eq_iff)

lemma upd_q_fields [simp]:
  "queues (upd_q a f s) b = (if b = a then f (queues s a) else queues s b)"
  "kern (upd_q a f s) = kern s" "mem (upd_q a f s) = mem s" "heap (upd_q a f s) = heap s"
  "egroups (upd_q a f s) = egroups s" "sbuffers (upd_q a f s) = sbuffers s" "pxStack (upd_q a f s) = pxStack s"
  "xQueueRegistry (upd_q a f s) = xQueueRegistry s"
  by (simp_all add: upd_q_def)

lemma upd_q_upd_q [simp]: "upd_q a f (upd_q a g s) = upd_q a (\<lambda>x. f (g x)) s"
  by (simp add: upd_q_def)

lemma ringD:
  assumes "ring x w r"
  shows "storage_ok x" and "r < unat (uxLength x)" and "w < unat (uxLength x)"
    and "pcReadFrom x = slot x r" and "pcWriteTo x = slot x w" and "uxMessagesWaiting x \<le> uxLength x"
    and "w = (r + 1 + unat (uxMessagesWaiting x)) mod unat (uxLength x)"
  using assms storage_okD(2) [of x] unfolding ring_def by auto

lemma slot_next: "slot x w + uxItemSize x = slot x (Suc w)"
  by (simp add: slot_def algebra_simps)

lemma advance:
  assumes "storage_ok x" and "w < unat (uxLength x)"
  shows "(if pcTail x \<le> slot x w + uxItemSize x then pcHead x else slot x w + uxItemSize x)
    = slot x (Suc w mod unat (uxLength x))"
proof -
  let ?L = "unat (uxLength x)" and ?z = "unat (uxItemSize x)"
  have "pcTail x \<le> slot x (Suc w) \<longleftrightarrow> ?L * ?z \<le> Suc w * ?z"
    using unat_slot [OF assms(1), of "Suc w"] unat_slot [OF assms(1), of ?L] assms(2)
    by (simp add: word_le_nat_alt storage_okD(5) [OF assms(1)])
  also have "\<dots> \<longleftrightarrow> ?L \<le> Suc w" using storage_okD(1) [OF assms(1)] by (simp only: mult_le_cancel2) simp
  finally have "pcTail x \<le> slot x (Suc w) \<longleftrightarrow> Suc w = ?L" using assms(2) by auto
  moreover have "slot x 0 = pcHead x" by (simp add: slot_def)
  ultimately show ?thesis using assms(2) by (auto simp: slot_next)
qed

lemma retreat:
  assumes "storage_ok x" and "r < unat (uxLength x)"
  shows "(if slot x r - uxItemSize x < pcHead x then pcTail x - uxItemSize x else slot x r - uxItemSize x)
    = slot x (if r = 0 then unat (uxLength x) - 1 else r - 1)"
proof (cases r)
  case 0
  have "pcHead x - uxItemSize x < pcHead x"
    using storage_okD(1,4) [OF assms(1)] by (simp add: word_less_nat_alt unat_sub word_le_nat_alt)
  moreover have "slot x (unat (uxLength x) - 1) + uxItemSize x = pcTail x"
    using slot_next [of x "unat (uxLength x) - 1"] storage_okD(2,5) [OF assms(1)] by simp
  then have "pcTail x - uxItemSize x = slot x (unat (uxLength x) - 1)" by (simp add: diff_eq_eq)
  moreover have "slot x 0 = pcHead x" by (simp add: slot_def)
  ultimately show ?thesis using 0 by simp
next
  case (Suc k)
  have "slot x r - uxItemSize x = slot x k" using slot_next [of x k] Suc by (simp add: diff_eq_eq)
  moreover have "unat (slot x k) = unat (pcHead x) + k * unat (uxItemSize x)"
    using unat_slot [OF assms(1), of k] assms(2) Suc by simp
  ultimately show ?thesis using Suc by (simp add: word_less_nat_alt)
qed

definition prev_slot :: "xQUEUE \<Rightarrow> nat \<Rightarrow> nat" where
  "prev_slot x r = (if r = 0 then unat (uxLength x) - 1 else r - 1)"

text \<open>The three copies as updates of the ring.\<close>

lemma copy_back_eq:
  assumes "ring (queues s a) w r"
  shows "prvCopyDataToQueue a p queueSEND_TO_BACK s = Some (False,
    upd_q a (\<lambda>x. x\<lparr>pcWriteTo := slot x (Suc w mod unat (uxLength x)), uxMessagesWaiting := uxMessagesWaiting x + 1\<rparr>)
      (s\<lparr>mem := memcpy (slot (queues s a) w) p (uxItemSize (queues s a)) (mem s)\<rparr>))"
proof -
  note R = ringD [OF assms]
  note A = advance [OF R(1,3)]
  show ?thesis
    using storage_okD(1) [OF R(1)] A R(5)
    by (cases "pcTail (queues s a) \<le> slot (queues s a) w + uxItemSize (queues s a)")
      (auto simp: prvCopyDataToQueue_def Let_def unat_gt_0 upd_q_def)
qed

lemma copy_front_eq:
  assumes "ring (queues s a) w r" and "pos \<noteq> queueSEND_TO_BACK"
  shows "prvCopyDataToQueue a p pos s = Some (False,
    upd_q a (\<lambda>x. x\<lparr>u_second := slot x (prev_slot x r),
        uxMessagesWaiting := (if pos = queueOVERWRITE \<and> 0 < uxMessagesWaiting x then uxMessagesWaiting x - 1
                              else uxMessagesWaiting x) + 1\<rparr>)
      (s\<lparr>mem := memcpy (slot (queues s a) r) p (uxItemSize (queues s a)) (mem s)\<rparr>))"
proof -
  note R = ringD [OF assms(1)]
  note A = retreat [OF R(1,2), folded prev_slot_def]
  show ?thesis
    using storage_okD(1) [OF R(1)] A R(4) assms(2)
    by (cases "slot (queues s a) r - uxItemSize (queues s a) < pcHead (queues s a)")
      (auto simp: prvCopyDataToQueue_def Let_def unat_gt_0 upd_q_def)
qed

lemma copy_from_eq:
  assumes "ring (queues s a) w r"
  shows "prvCopyDataFromQueue a p s =
    upd_q a (\<lambda>x. x\<lparr>u_second := slot x (Suc r mod unat (uxLength x))\<rparr>)
      (s\<lparr>mem := memcpy p (slot (queues s a) (Suc r mod unat (uxLength (queues s a)))) (uxItemSize (queues s a)) (mem s)\<rparr>)"
proof -
  note R = ringD [OF assms]
  note A = advance [OF R(1,2)]
  show ?thesis
    using storage_okD(1) [OF R(1)] A R(4)
    by (cases "pcTail (queues s a) \<le> slot (queues s a) r + uxItemSize (queues s a)")
      (auto simp: prvCopyDataFromQueue_def Let_def unat_gt_0 upd_q_def)
qed

section \<open>The contents after a copy\<close>

lemma unat_inc: "n < (m :: u32) \<Longrightarrow> unat (n + 1) = Suc (unat n)"
  using unat_less_u32 [of m] unat_add_u32 [of n 1] by (simp add: word_less_nat_alt)

lemma unat_dec: "0 < (n :: u32) \<Longrightarrow> unat (n - 1) = unat n - 1"
  by (subst unat_sub_u32) (auto simp: word_le_nat_alt word_less_nat_alt)

lemma inc_le: "n < (m :: u32) \<Longrightarrow> n + 1 \<le> m"
  using unat_inc [of n m] by (simp add: word_le_nat_alt word_less_nat_alt)

lemma Suc_mod_shift: "(Suc r mod L + 1 + i) mod L = (r + 1 + Suc i) mod (L :: nat)"
  using mod_add_left_eq [of "Suc r" L "1 + i"] by simp

lemma upt_Suc_front: "[0..<Suc n] = 0 # map Suc [0..<n]"
  by (simp add: upt_conv_Cons map_Suc_upt del: upt_Suc)

lemma ring_back:
  assumes "ring x w r" and "uxMessagesWaiting x < uxLength x"
  shows "ring (x\<lparr>pcWriteTo := slot x (Suc w mod unat (uxLength x)), uxMessagesWaiting := uxMessagesWaiting x + 1\<rparr>)
           (Suc w mod unat (uxLength x)) r"
  using ringD [OF assms(1)] unat_inc [OF assms(2)] inc_le [OF assms(2)]
  by (simp add: ring_def mod_Suc_eq)

lemma items_unchanged:
  assumes "storage_ok x" and "\<And>i. i < n \<Longrightarrow> (r + 1 + i) mod unat (uxLength x) \<noteq> j" and "j < unat (uxLength x)"
  shows "items_from (memcpy (slot x j) p (uxItemSize x) m) x r n = items_from m x r n"
proof -
  have "bytes_at (memcpy (slot x j) p (uxItemSize x) m) (slot x ((r + 1 + i) mod unat (uxLength x))) (uxItemSize x)
    = bytes_at m (slot x ((r + 1 + i) mod unat (uxLength x))) (uxItemSize x)" if "i < n" for i
    using slots_apart [OF assms(1,3)] assms(2) [OF that] storage_okD(2) [OF assms(1)]
    by (intro memcpy_outside) auto
  then show ?thesis by (simp add: items_from_def)
qed

lemma items_back:
  assumes "ring x w r" and "uxMessagesWaiting x < uxLength x"
  shows "items_from (memcpy (slot x w) p (uxItemSize x) m) x r (Suc (unat (uxMessagesWaiting x)))
    = items_from m x r (unat (uxMessagesWaiting x)) @ [bytes_at m p (uxItemSize x)]"
proof -
  note R = ringD [OF assms(1)]
  let ?n = "unat (uxMessagesWaiting x)" and ?L = "unat (uxLength x)"
  have n: "?n < ?L" using assms(2) by (simp add: word_less_nat_alt)
  have "(r + 1 + i) mod ?L \<noteq> w" if "i < ?n" for i
    using mod_inj [of "r + 1" i ?L ?n] that n R(7) by auto
  then have "items_from (memcpy (slot x w) p (uxItemSize x) m) x r ?n = items_from m x r ?n"
    by (intro items_unchanged [OF R(1) _ R(3)])
  then show ?thesis using R(7) by (simp add: items_from_def)
qed

lemma prev_next: "r < unat (uxLength x) \<Longrightarrow> Suc (prev_slot x r) mod unat (uxLength x) = r"
  by (auto simp: prev_slot_def)

lemma prev_less: "r < unat (uxLength x) \<Longrightarrow> prev_slot x r < unat (uxLength x)"
  by (auto simp: prev_slot_def)

lemma prev_shift:
  assumes "r < unat (uxLength x)"
  shows "(prev_slot x r + 1 + Suc i) mod unat (uxLength x) = (r + 1 + i) mod unat (uxLength x)"
  using Suc_mod_shift [of "prev_slot x r" "unat (uxLength x)" i] prev_next [OF assms] by simp

lemma prev_slot_update [simp]:
  "prev_slot (x\<lparr>u_second := p\<rparr>) = prev_slot x" "prev_slot (x\<lparr>uxMessagesWaiting := n\<rparr>) = prev_slot x"
  by (simp_all add: prev_slot_def fun_eq_iff)

lemma ring_front:
  assumes "ring x w r" and "uxMessagesWaiting x < uxLength x"
  shows "ring (x\<lparr>u_second := slot x (prev_slot x r), uxMessagesWaiting := uxMessagesWaiting x + 1\<rparr>) w (prev_slot x r)"
  using ringD [OF assms(1)] unat_inc [OF assms(2)] inc_le [OF assms(2)]
    prev_less [of r x] prev_shift [of r x "unat (uxMessagesWaiting x)"]
  by (simp add: ring_def)

lemma items_front:
  assumes "ring x w r" and "uxMessagesWaiting x < uxLength x"
  shows "items_from (memcpy (slot x r) p (uxItemSize x) m) x (prev_slot x r) (Suc (unat (uxMessagesWaiting x)))
    = bytes_at m p (uxItemSize x) # items_from m x r (unat (uxMessagesWaiting x))"
proof -
  note R = ringD [OF assms(1)]
  let ?n = "unat (uxMessagesWaiting x)" and ?L = "unat (uxLength x)" and ?m = "memcpy (slot x r) p (uxItemSize x) m"
  have n: "?n < ?L" using assms(2) by (simp add: word_less_nat_alt)
  have last: "(r + 1 + (?L - 1)) mod ?L = r" using R(2) by simp
  have "(r + 1 + i) mod ?L \<noteq> r" if "i < ?n" for i
    using mod_inj [of "r + 1" i ?L "?L - 1"] last that n by auto
  then have keep: "items_from ?m x r ?n = items_from m x r ?n"
    by (intro items_unchanged [OF R(1) _ R(2)])
  have "items_from ?m x (prev_slot x r) (Suc ?n)
    = bytes_at ?m (slot x (Suc (prev_slot x r) mod ?L)) (uxItemSize x) # items_from ?m x r ?n"
    unfolding items_from_def upt_Suc_front using prev_shift [OF R(2)] by simp
  then show ?thesis using prev_next [OF R(2)] keep by simp
qed

lemma ring_from:
  assumes "ring x w r" and "0 < uxMessagesWaiting x"
  shows "ring (x\<lparr>u_second := slot x (Suc r mod unat (uxLength x)), uxMessagesWaiting := uxMessagesWaiting x - 1\<rparr>)
           w (Suc r mod unat (uxLength x))"
proof -
  let ?n = "unat (uxMessagesWaiting x)" and ?L = "unat (uxLength x)"
  note R = ringD [OF assms(1)]
  have n: "0 < ?n" using assms(2) by (simp add: word_less_nat_alt)
  have "w = (Suc r mod ?L + 1 + (?n - 1)) mod ?L" using R(7) n by (simp only: Suc_mod_shift) simp
  moreover have "uxMessagesWaiting x - 1 \<le> uxLength x"
    using R(6) unat_dec [OF assms(2)] by (simp add: word_le_nat_alt)
  ultimately show ?thesis using R unat_dec [OF assms(2)] storage_okD(2) [OF R(1)] by (simp add: ring_def)
qed

lemma items_from_first:
  "0 < n \<Longrightarrow> items_from m x r n
    = bytes_at m (slot x (Suc r mod unat (uxLength x))) (uxItemSize x) # items_from m x (Suc r mod unat (uxLength x)) (n - 1)"
proof (cases n)
  case (Suc k)
  then show ?thesis unfolding items_from_def Suc upt_Suc_front
    using Suc_mod_shift [of r "unat (uxLength x)"] by simp
qed simp

lemma items_clear:
  assumes "storage_ok x" and "clear_of p x"
  shows "items_from (memcpy p q (uxItemSize x) m) x r n = items_from m x r n"
proof -
  have "bytes_at (memcpy p q (uxItemSize x) m) (slot x ((r + 1 + i) mod unat (uxLength x))) (uxItemSize x)
    = bytes_at m (slot x ((r + 1 + i) mod unat (uxLength x))) (uxItemSize x)" for i
    using storage_okD(2) [OF assms(1)] by (intro memcpy_outside clear_slot [OF assms]) simp
  then show ?thesis by (simp add: items_from_def)
qed

end
