(* ===== verification/Queue_Sched.thy ===== *)
theory Queue_Sched
  imports Queue_Ring
begin

text \<open>
  The queue calls over the scheduler: which scheduler calls they make, that each of their
  sections returns and keeps the scheduler reachable, also when interrupts use queues between
  the sections, and what the interrupts leave alone while the scheduler is suspended.
\<close>

section \<open>Scheduler calls\<close>

lemma reach_call:
  assumes "reach idle k" and "kguard idle call k"
  shows "\<exists>k'. kexec call k = Some k' \<and> reach idle k'"
  using step_safe [OF reach_safe [OF assms(1)] assms(2)] reach.step [OF assms] by blast

lemma reach_inv: "reach idle k \<Longrightarrow> \<exists>T. sinv idle T k"
  using reach_safe by (auto simp: safe_def)

text \<open>What waking \<open>t\<close> changes: its items only.\<close>

definition woken :: "task \<Rightarrow> kernel \<Rightarrow> kernel \<Rightarrow> bool" where
  "woken t k k' \<longleftrightarrow> pxCurrentTCB k' = pxCurrentTCB k \<and> tcbs k' = tcbs k
     \<and> uxSchedulerSuspended k' = uxSchedulerSuspended k \<and> pendsv k' = pendsv k
     \<and> uxCurrentNumberOfTasks k' = uxCurrentNumberOfTasks k
     \<and> (\<forall>j. j \<noteq> EventItem t \<longrightarrow> j \<noteq> StateItem t \<longrightarrow> container k' j = container k j)
     \<and> (if uxSchedulerSuspended k = 0 then ready k' t \<and> container k' (EventItem t) = None
        else container k' (StateItem t) = container k (StateItem t)
             \<and> container k' (EventItem t) = Some PendingReadyList)"

lemma flag_if_tasks [simp]: "uxCurrentNumberOfTasks (flag_if b k) = uxCurrentNumberOfTasks k"
  by (simp add: flag_if_def)

lemma remove_event:
  assumes "reach idle k" and "event_list l" and "kitems k l \<noteq> []"
  shows "\<exists>b k' t. xTaskRemoveFromEventList l k = Some (b, k') \<and> reach idle k' \<and> woken t k k'
    \<and> hd (kitems k l) = EventItem t \<and> container k (EventItem t) = Some l
    \<and> (b \<longleftrightarrow> (\<exists>c. pxCurrentTCB k = Some c \<and> prio k c < prio k t))"
proof -
  obtain T where I: "sinv idle T k" using reach_inv [OF assms(1)] by blast
  note D = sinv0D [OF sinvD(1) [OF I]]
  obtain c where c: "pxCurrentTCB k = Some c" using D(2) by blast
  obtain t where t: "k_head_owner l k = Some t" "container k (EventItem t) = Some l" "t \<in> T"
      "hd (kitems k l) = EventItem t"
    using event_head [OF D(1) assms(3)] event_list_admits [OF assms(2)] by blast
  obtain m where m: "container k (StateItem t) = Some m" using D(4) [OF t(3)] by blast
  let ?u = "k_unlist (EventItem t) k"
  let ?k = "if uxSchedulerSuspended k = 0 then k_make_ready t ?u else k_insert_end PendingReadyList (EventItem t) ?u"
  have eq: "xTaskRemoveFromEventList l k = Some (prio k c < prio k t, flag_if (prio k c < prio k t) ?k)"
    using t(1,2) m c by (simp add: xTaskRemoveFromEventList_def k_remove_unlist make_ready_eq flag_if_def)
  have "kguard idle (RemoveFromEventList l) k" using assms(2,3) by (simp add: kguard_defs)
  from reach.step [OF assms(1) this] eq have "reach idle (flag_if (prio k c < prio k t) ?k)" by simp
  moreover have "woken t k (flag_if (prio k c < prio k t) ?k)" by (simp add: woken_def ready_def)
  ultimately show ?thesis using eq t(2,4) c
    by (intro exI [of _ "prio k c < prio k t"] exI [of _ "flag_if (prio k c < prio k t) ?k"] exI [of _ t]) simp
qed

lemma reach_yield: "reach idle k \<Longrightarrow> reach idle (portYIELD k)"
  using reach_call [of idle k Yield] by (simp add: kguard_defs)

lemma reach_missed_yield: "reach idle k \<Longrightarrow> reach idle (vTaskMissedYield k)"
  using reach_call [of idle k MissedYield] by (simp add: kguard_defs)

lemma event_list_queue [simp]: "event_list (to_send a)" "event_list (to_receive a)"
  by (simp_all add: event_list_def)

text \<open>The fields of a queue that neither copies nor locks change, mutexes aside.\<close>

definition shape :: "rtos \<Rightarrow> rtos \<Rightarrow> bool" where
  "shape s s' \<longleftrightarrow> (\<forall>a. pcHead (queues s' a) = pcHead (queues s a) \<and> uxLength (queues s' a) = uxLength (queues s a)
     \<and> uxItemSize (queues s' a) = uxItemSize (queues s a) \<and> u_first (queues s' a) = u_first (queues s a))"

lemma shape_refl [simp]: "shape s s"
  by (simp add: shape_def)

lemma shape_trans: "shape s s' \<Longrightarrow> shape s' s'' \<Longrightarrow> shape s s''"
  by (simp add: shape_def)

section \<open>Interrupts while the scheduler is suspended\<close>

text \<open>
  Items of tasks stay where they are, except that an event item may move from a waiting list
  to the pending list.
\<close>

definition still :: "kernel \<Rightarrow> kernel \<Rightarrow> bool" where
  "still k k' \<longleftrightarrow> pxCurrentTCB k' = pxCurrentTCB k \<and> tcbs k' = tcbs k
     \<and> uxSchedulerSuspended k' = uxSchedulerSuspended k \<and> uxCurrentNumberOfTasks k' = uxCurrentNumberOfTasks k
     \<and> (\<forall>t. container k' (StateItem t) = container k (StateItem t))
     \<and> (\<forall>t. container k' (EventItem t) = container k (EventItem t)
          \<or> container k (EventItem t) \<noteq> None \<and> container k' (EventItem t) = Some PendingReadyList)"

lemma still_refl [simp]: "still k k"
  by (simp add: still_def)

lemma still_trans: "still k k' \<Longrightarrow> still k' k'' \<Longrightarrow> still k k''"
  unfolding still_def by (metis option.distinct(1))

lemma woken_still: "woken t k k' \<Longrightarrow> uxSchedulerSuspended k \<noteq> 0 \<Longrightarrow> container k (EventItem t) = Some l \<Longrightarrow> still k k'"
  unfolding woken_def still_def by (metis item.distinct(1) item.inject(2) option.distinct(1))

lemma still_ready: "still k k' \<Longrightarrow> ready k' t = ready k t"
  by (simp add: still_def ready_def)

lemma still_pending:
  "still k k' \<Longrightarrow> container k (EventItem t) = Some PendingReadyList \<Longrightarrow> container k' (EventItem t) = Some PendingReadyList"
  unfolding still_def by metis

lemma still_unlisted: "still k k' \<Longrightarrow> container k (EventItem t) = None \<Longrightarrow> container k' (EventItem t) = None"
  unfolding still_def by metis

lemma still_frame [simp]: "still k (portYIELD k)" "still k (vTaskMissedYield k)" "still k (k\<lparr>xYieldPending := b\<rparr>)"
  "still k (k\<lparr>pendsv := b\<rparr>)" "still k (k\<lparr>uxPendedTicks := n\<rparr>)"
  by (simp_all add: still_def vTaskMissedYield_def)

section \<open>Wake-ups\<close>

lemma on_kern_fields [simp]:
  "kern (on_kern f s) = f (kern s)" "queues (on_kern f s) = queues s" "mem (on_kern f s) = mem s"
  "heap (on_kern f s) = heap s"
  by (simp_all add: on_kern_def)

text \<open>\<open>same_data s s'\<close>: only the scheduler's part of the state differs.\<close>

definition same_data :: "rtos \<Rightarrow> rtos \<Rightarrow> bool" where
  "same_data s s' \<longleftrightarrow> s' = s\<lparr>kern := kern s'\<rparr>"

lemma same_data_refl [simp]: "same_data s s"
  by (simp add: same_data_def)

lemma same_data_trans: "same_data s s' \<Longrightarrow> same_data s' s'' \<Longrightarrow> same_data s s''"
  unfolding same_data_def by (metis rtos.surjective rtos.update_convs(1))

lemma same_data_update [simp]: "same_data s (s\<lparr>kern := k\<rparr>)" "same_data s (on_kern f s)"
  by (simp_all add: same_data_def on_kern_def)

lemma same_dataD: "same_data s s' \<Longrightarrow> queues s' = queues s \<and> mem s' = mem s \<and> heap s' = heap s \<and> shape s s'"
  unfolding same_data_def shape_def by (metis rtos.select_convs(2-4) rtos.surjective rtos.update_convs(1))

lemma wake_first_safe:
  assumes "reach idle (kern s)" and "event_list l"
  shows "\<exists>b s'. wake_first l s = Some (b, s') \<and> reach idle (kern s') \<and> same_data s s'
    \<and> (if kitems (kern s) l = [] then s' = s \<and> \<not> b
       else \<exists>t. woken t (kern s) (kern s') \<and> hd (kitems (kern s) l) = EventItem t
         \<and> container (kern s) (EventItem t) = Some l
         \<and> (b \<longleftrightarrow> (\<exists>c. pxCurrentTCB (kern s) = Some c \<and> prio (kern s) c < prio (kern s) t)))"
proof (cases "kitems (kern s) l = []")
  case True
  then show ?thesis using assms(1)
    by (intro exI [of _ False] exI [of _ s]) (simp add: wake_first_def)
next
  case False
  obtain b k' t where R: "xTaskRemoveFromEventList l (kern s) = Some (b, k')" "reach idle k'" "woken t (kern s) k'"
    "hd (kitems (kern s) l) = EventItem t" "container (kern s) (EventItem t) = Some l"
    "b \<longleftrightarrow> (\<exists>c. pxCurrentTCB (kern s) = Some c \<and> prio (kern s) c < prio (kern s) t)"
    using remove_event [OF assms False] by blast
  then show ?thesis using False
    by (intro exI [of _ b] exI [of _ "s\<lparr>kern := k'\<rparr>"]) (auto simp: wake_first_def)
qed

lemma wake_first_still:
  assumes "reach idle (kern s)" and "event_list l" and "wake_first l s = Some (b, s')"
    and "uxSchedulerSuspended (kern s) \<noteq> 0"
  shows "still (kern s) (kern s')"
  using wake_first_safe [OF assms(1,2)] assms(3,4) woken_still by (auto split: if_splits)

lemma wake_yield_safe:
  assumes "reach idle (kern s)" and "event_list l"
  shows "\<exists>s'. wake_yield l s = Some s' \<and> reach idle (kern s') \<and> same_data s s'
    \<and> (if kitems (kern s) l = [] then s' = s
       else \<exists>t k. woken t (kern s) k \<and> hd (kitems (kern s) l) = EventItem t
         \<and> kern s' = (if \<exists>c. pxCurrentTCB (kern s) = Some c \<and> prio (kern s) c < prio (kern s) t
                      then portYIELD k else k))"
proof -
  obtain b s' where R: "wake_first l s = Some (b, s')" "reach idle (kern s')" "same_data s s'"
    and C: "if kitems (kern s) l = [] then s' = s \<and> \<not> b
       else \<exists>t. woken t (kern s) (kern s') \<and> hd (kitems (kern s) l) = EventItem t
         \<and> container (kern s) (EventItem t) = Some l
         \<and> (b \<longleftrightarrow> (\<exists>c. pxCurrentTCB (kern s) = Some c \<and> prio (kern s) c < prio (kern s) t))"
    using wake_first_safe [OF assms] by blast
  let ?s = "if b then on_kern portYIELD s' else s'"
  have "same_data s ?s" using same_data_trans [OF R(3)] R(3) by (cases b) auto
  moreover have "reach idle (kern ?s)" using R(2) reach_yield by simp
  ultimately show ?thesis using R(1) C
    by (intro exI [of _ ?s]) (auto simp: wake_yield_def split: if_splits)
qed

section \<open>Unlocking\<close>

lemma unlock_loop_safe:
  assumes "reach idle k" and "event_list l"
  shows "\<exists>k'. unlock_loop n l k = Some k' \<and> reach idle k'
    \<and> (uxSchedulerSuspended k \<noteq> 0 \<longrightarrow> still k k'
         \<and> (\<forall>j m. m \<noteq> l \<longrightarrow> m \<noteq> PendingReadyList \<longrightarrow> container k' j = Some m \<longleftrightarrow> container k j = Some m)
         \<and> (0 < n \<longrightarrow> kitems k l \<noteq> [] \<longrightarrow> container k' (hd (kitems k l)) = Some PendingReadyList))"
  using assms(1)
proof (induction n arbitrary: k)
  case 0
  then show ?case by simp
next
  case (Suc n)
  show ?case
  proof (cases "kitems k l = []")
    case True
    then show ?thesis using Suc.prems by simp
  next
    case False
    obtain b k1 t where R: "xTaskRemoveFromEventList l k = Some (b, k1)" "reach idle k1" "woken t k k1"
      "hd (kitems k l) = EventItem t" "container k (EventItem t) = Some l"
      using remove_event [OF Suc.prems assms(2) False] by blast
    let ?k = "if b then vTaskMissedYield k1 else k1"
    have "reach idle ?k" using R(2) reach_missed_yield by simp
    from Suc.IH [OF this] obtain k' where
      K: "unlock_loop n l ?k = Some k'" "reach idle k'"
        "uxSchedulerSuspended ?k \<noteq> 0 \<longrightarrow> still ?k k'
         \<and> (\<forall>j m. m \<noteq> l \<longrightarrow> m \<noteq> PendingReadyList \<longrightarrow> container k' j = Some m \<longleftrightarrow> container ?k j = Some m)" by blast
    have E: "unlock_loop (Suc n) l k = Some k'" using False R(1) K(1) by simp
    have "still k k' \<and> (\<forall>j m. m \<noteq> l \<longrightarrow> m \<noteq> PendingReadyList \<longrightarrow> container k' j = Some m \<longleftrightarrow> container k j = Some m)
        \<and> container k' (EventItem t) = Some PendingReadyList"
      if u: "uxSchedulerSuspended k \<noteq> 0"
    proof -
      have k1: "klists ?k = klists k1" "uxSchedulerSuspended ?k = uxSchedulerSuspended k"
        "still k1 ?k" using R(3) by (auto simp: vTaskMissedYield_def woken_def)
      have S: "still k ?k" using still_trans [OF woken_still [OF R(3) u R(5)] k1(3)] .
      then have st: "still ?k k'" using K(3) k1(2) u by simp
      have pend: "container ?k (EventItem t) = Some PendingReadyList"
        and oth: "j \<noteq> EventItem t \<Longrightarrow> container ?k j = container k j" for j
        using R(3) u k1(1) S by (auto simp: woken_def still_def)
      have "container k' (EventItem t) = Some PendingReadyList" by (rule still_pending [OF st pend])
      moreover have "container ?k j = Some m \<longleftrightarrow> container k j = Some m" if "m \<noteq> l" "m \<noteq> PendingReadyList" for j m
        using oth [of j] pend R(5) that by (cases "j = EventItem t") auto
      ultimately show ?thesis using still_trans [OF S st] K(3) k1(2) u by simp
    qed
    with E K(2) R(4) show ?thesis by auto
  qed
qed

section \<open>Calls of interrupt handlers\<close>

text \<open>A copy into a queue that is no mutex touches no task.\<close>

definition plain_queue :: "u32 \<Rightarrow> rtos \<Rightarrow> bool" where
  "plain_queue a s \<longleftrightarrow> \<not> (uxItemSize (queues s a) = 0 \<and> is_mutex (queues s a))"

lemma plain_shape: "shape s s' \<Longrightarrow> plain_queue a s' = plain_queue a s"
  by (simp add: plain_queue_def shape_def is_mutex_def)

text \<open>What a copy leaves alone: the scheduler, the other queues, and of its queue the locks.\<close>

definition copy_frame :: "u32 \<Rightarrow> rtos \<Rightarrow> rtos \<Rightarrow> bool" where
  "copy_frame a s s' \<longleftrightarrow> kern s' = kern s \<and> shape s s' \<and> (\<forall>b. b \<noteq> a \<longrightarrow> queues s' b = queues s b)
     \<and> cTxLock (queues s' a) = cTxLock (queues s a) \<and> cRxLock (queues s' a) = cRxLock (queues s a)"

lemma copy_to_plain:
  assumes "plain_queue a s"
  shows "\<exists>s'. prvCopyDataToQueue a p pos s = Some (False, s') \<and> copy_frame a s s'
    \<and> uxMessagesWaiting (queues s' a) =
        (if uxItemSize (queues s a) \<noteq> 0 \<and> pos = queueOVERWRITE \<and> 0 < uxMessagesWaiting (queues s a)
         then uxMessagesWaiting (queues s a) else uxMessagesWaiting (queues s a) + 1)"
  using assms
  by (cases pos) (auto simp: prvCopyDataToQueue_def plain_queue_def copy_frame_def shape_def Let_def)

lemma copy_from_plain:
  "copy_frame a s (prvCopyDataFromQueue a p s)
    \<and> uxMessagesWaiting (queues (prvCopyDataFromQueue a p s) a) = uxMessagesWaiting (queues s a)"
  by (auto simp: prvCopyDataFromQueue_def copy_frame_def shape_def Let_def)

lemma copy_frameD:
  assumes "copy_frame a s s'"
  shows "kern s' = kern s" and "shape s s'" and "b \<noteq> a \<Longrightarrow> queues s' b = queues s b"
    and "cTxLock (queues s' b) = cTxLock (queues s b)" and "cRxLock (queues s' b) = cRxLock (queues s b)"
  using assms unfolding copy_frame_def by auto

lemma shape_upd:
  "shape s t \<Longrightarrow> (\<And>x. pcHead (f x) = pcHead x \<and> uxLength (f x) = uxLength x \<and> uxItemSize (f x) = uxItemSize x
      \<and> u_first (f x) = u_first x)
    \<Longrightarrow> shape s (upd_q a f t)"
  by (simp add: shape_def)

datatype queue_isr =
    IsrTick | IsrPendSV | IsrYield
  | IsrSend u32 u32 copy_position | IsrGive u32 | IsrReceive u32 u32 | IsrPeek u32 u32

fun isr_exec :: "queue_isr \<Rightarrow> rtos \<Rightarrow> rtos option" where
  "isr_exec IsrTick s = map_option (\<lambda>k. s\<lparr>kern := k\<rparr>) (xPortSysTickHandler (kern s))"
| "isr_exec IsrPendSV s = map_option (\<lambda>k. s\<lparr>kern := k\<rparr>) (xPortPendSVHandler (kern s))"
| "isr_exec IsrYield s = Some (on_kern portYIELD s)"
| "isr_exec (IsrSend a p pos) s = map_option snd (xQueueGenericSendFromISR a p pos s)"
| "isr_exec (IsrGive a) s = map_option snd (xQueueGiveFromISR a s)"
| "isr_exec (IsrReceive a p) s = map_option snd (xQueueReceiveFromISR a p s)"
| "isr_exec (IsrPeek a p) s = Some (snd (xQueuePeekFromISR a p s))"

fun isr_run :: "queue_isr list \<Rightarrow> rtos \<Rightarrow> rtos option" where
  "isr_run [] s = Some s"
| "isr_run (i # is) s = Option.bind (isr_exec i s) (isr_run is)"

text \<open>Mutexes are not used from interrupts, and only queues of length 1 are overwritten.\<close>

definition isr_ok :: "rtos \<Rightarrow> queue_isr \<Rightarrow> bool" where
  "isr_ok s i \<longleftrightarrow> (case i of
       IsrSend a _ pos \<Rightarrow> plain_queue a s
         \<and> (pos = queueOVERWRITE \<longrightarrow> uxLength (queues s a) = 1 \<and> uxItemSize (queues s a) \<noteq> 0)
     | _ \<Rightarrow> True)"

lemma isr_ok_shape: "shape s s' \<Longrightarrow> isr_ok s' i = isr_ok s i"
proof -
  assume sh: "shape s s'"
  have "plain_queue a s' = plain_queue a s" for a by (rule plain_shape [OF sh])
  then show ?thesis using sh by (cases i) (simp_all add: isr_ok_def shape_def)
qed

definition isr_good :: "task \<Rightarrow> rtos \<Rightarrow> rtos \<Rightarrow> bool" where
  "isr_good idle s s' \<longleftrightarrow> reach idle (kern s') \<and> shape s s'
     \<and> (uxSchedulerSuspended (kern s) \<noteq> 0 \<longrightarrow> still (kern s) (kern s'))"

lemma wake_good:
  assumes "reach idle (kern s)" and "event_list l" and "kern s = kern s0" and "shape s0 s"
  shows "\<exists>w s'. wake_first l s = Some (w, s') \<and> isr_good idle s0 s' \<and> same_data s s'"
proof -
  obtain w s' where R: "wake_first l s = Some (w, s')" "reach idle (kern s')" "same_data s s'"
    using wake_first_safe [OF assms(1,2)] by blast
  moreover have "shape s0 s'" using shape_trans [OF assms(4)] same_dataD [OF R(3)] by blast
  ultimately show ?thesis using wake_first_still [OF assms(1,2) R(1)] assms(3) by (auto simp: isr_good_def)
qed

lemma send_isr_good:
  assumes "reach idle (kern s)" and "plain_queue a s"
  shows "\<exists>s'. map_option snd (xQueueGenericSendFromISR a p pos s) = Some s' \<and> isr_good idle s s'"
proof (cases "uxMessagesWaiting (queues s a) < uxLength (queues s a) \<or> pos = queueOVERWRITE")
  case True
  obtain s1 where c: "prvCopyDataToQueue a p pos s = Some (False, s1)" "copy_frame a s s1"
    using copy_to_plain [OF assms(2)] by blast
  note F = copy_frameD [OF c(2)]
  obtain w s2 where W: "wake_first (to_receive a) s1 = Some (w, s2)" "isr_good idle s s2"
    using wake_good [of idle s1 "to_receive a" s] assms(1) F(1,2) by auto
  show ?thesis
  proof (cases "cTxLock (queues s a) = queueUNLOCKED")
    case True
    then show ?thesis using \<open>_ < _ \<or> _\<close> c(1) W by (simp add: xQueueGenericSendFromISR_def)
  next
    case False
    have "shape s (upd_q a (cTxLock_update (\<lambda>_. cTxLock (queues s a) + 1)) s1)" by (rule shape_upd [OF F(2)]) simp
    then show ?thesis using False \<open>_ < _ \<or> _\<close> c(1) F(1) assms(1)
      by (simp add: xQueueGenericSendFromISR_def isr_good_def)
  qed
qed (use assms in \<open>auto simp: xQueueGenericSendFromISR_def isr_good_def\<close>)

lemma give_isr_good:
  assumes "reach idle (kern s)"
  shows "\<exists>s'. map_option snd (xQueueGiveFromISR a s) = Some s' \<and> isr_good idle s s'"
proof -
  let ?s = "upd_q a (uxMessagesWaiting_update (\<lambda>_. uxMessagesWaiting (queues s a) + 1)) s"
  have sh: "shape s ?s" "shape s (upd_q a (cTxLock_update (\<lambda>_. cTxLock (queues s a) + 1)) ?s)"
    by (auto intro!: shape_upd)
  obtain w s2 where "wake_first (to_receive a) ?s = Some (w, s2)" "isr_good idle s s2"
    using wake_good [of idle ?s "to_receive a" s] assms sh(1) by auto
  then show ?thesis using assms sh(2) by (auto simp: xQueueGiveFromISR_def isr_good_def Let_def)
qed

lemma receive_isr_good:
  assumes "reach idle (kern s)"
  shows "\<exists>s'. map_option snd (xQueueReceiveFromISR a p s) = Some s' \<and> isr_good idle s s'"
proof -
  let ?c = "prvCopyDataFromQueue a p s"
  let ?s = "upd_q a (uxMessagesWaiting_update (\<lambda>_. uxMessagesWaiting (queues s a) - 1)) ?c"
  have F: "copy_frame a s ?c" using copy_from_plain by blast
  have sh: "shape s ?s" "shape s (upd_q a (cRxLock_update (\<lambda>_. cRxLock (queues s a) + 1)) ?s)"
    using copy_frameD(2) [OF F] by (auto intro!: shape_upd)
  obtain w s2 where "wake_first (to_send a) ?s = Some (w, s2)" "isr_good idle s s2"
    using wake_good [of idle ?s "to_send a" s] assms sh(1) copy_frameD(1) [OF F] by auto
  then show ?thesis using assms sh(2) copy_frameD(1) [OF F]
    by (auto simp: xQueueReceiveFromISR_def isr_good_def Let_def)
qed

lemma isr_call_good:
  assumes "reach idle k" and "kguard idle call k" and "kexec call k = Some k'" and "uxSchedulerSuspended k \<noteq> 0 \<Longrightarrow> still k k'"
    and "kern s = k"
  shows "isr_good idle s (s\<lparr>kern := k'\<rparr>)"
  using reach.step [OF assms(1-3)] assms(4,5) by (simp add: isr_good_def shape_def)

lemma isr_exec_good:
  assumes "reach idle (kern s)" and "isr_ok s i"
  shows "\<exists>s'. isr_exec i s = Some s' \<and> isr_good idle s s'"
proof (cases i)
  case IsrTick
  obtain k' where k: "kexec Tick (kern s) = Some k'"
    using reach_call [OF assms(1), of Tick] by (auto simp: kguard_defs)
  have "still (kern s) k'" if "uxSchedulerSuspended (kern s) \<noteq> 0"
    using k that by (cases "xYieldPending (kern s)") (auto simp: xPortSysTickHandler_def xTaskIncrementTick_def still_def)
  from isr_call_good [OF assms(1) _ k this] IsrTick k show ?thesis by (simp add: kguard_defs)
next
  case IsrPendSV
  obtain k' where k: "kexec PendSV (kern s) = Some k'"
    using reach_call [OF assms(1), of PendSV] by (auto simp: kguard_defs)
  have "still (kern s) k'" if "uxSchedulerSuspended (kern s) \<noteq> 0"
    using k that by (auto simp: xPortPendSVHandler_def vTaskSwitchContext_def still_def)
  from isr_call_good [OF assms(1) _ k this] IsrPendSV k show ?thesis by (simp add: kguard_defs)
next
  case IsrYield
  then show ?thesis using reach_yield [OF assms(1)] by (simp add: isr_good_def shape_def)
next
  case (IsrSend a p pos)
  then show ?thesis using send_isr_good [OF assms(1), of a p pos] assms(2) by (simp add: isr_ok_def)
next
  case (IsrPeek a p)
  have F: "copy_frame a s (prvCopyDataFromQueue a p s)" using copy_from_plain by blast
  show ?thesis using IsrPeek assms(1) copy_frameD(1,2) [OF F] by (auto simp: xQueuePeekFromISR_def isr_good_def Let_def intro!: shape_upd)
qed (use give_isr_good [OF assms(1)] receive_isr_good [OF assms(1)] in simp_all)

lemma isr_run_good:
  assumes "reach idle (kern s)" and "\<forall>i\<in>set is. isr_ok s i"
  shows "\<exists>s'. isr_run is s = Some s' \<and> isr_good idle s s'"
  using assms
proof (induction "is" arbitrary: s)
  case Nil
  then show ?case by (simp add: isr_good_def)
next
  case (Cons i "is")
  obtain s1 where 1: "isr_exec i s = Some s1" "isr_good idle s s1" using isr_exec_good Cons.prems by (metis list.set_intros(1))
  have "\<forall>i\<in>set is. isr_ok s1 i" using Cons.prems(2) 1(2) isr_ok_shape by (auto simp: isr_good_def)
  with Cons.IH [of s1] 1(2) obtain s2 where 2: "isr_run is s1 = Some s2" "isr_good idle s1 s2" by (auto simp: isr_good_def)
  have "uxSchedulerSuspended (kern s) \<noteq> 0 \<Longrightarrow> still (kern s) (kern s1) \<and> uxSchedulerSuspended (kern s1) \<noteq> 0"
    using 1(2) by (simp add: isr_good_def still_def)
  then have "isr_good idle s s2"
    using 1(2) 2(2) shape_trans [of s s1 s2] still_trans [of "kern s" "kern s1" "kern s2"] unfolding isr_good_def by blast
  then show ?case using 1(1) 2(1) by simp
qed

end
