(* ===== verification/Queue_Blocking.thy ===== *)
theory Queue_Blocking
  imports Queue_Sched
begin

text \<open>
  The sections of the blocking queue calls, with interrupts between them: each returns, and
  the scheduler stays in a reachable state.
\<close>

section \<open>The suspended section\<close>

text \<open>Interrupts run any queue calls in the windows of the suspended section.\<close>

definition interrupted :: "(nat \<Rightarrow> queue_isr list) \<Rightarrow> windows" where
  "interrupted isrs i = (if i = 0 \<or> i = 7 then Some else isr_run (isrs i))"

lemma interrupted_simps [simp]:
  "interrupted isrs 0 = Some" "interrupted isrs 1 = isr_run (isrs 1)" "interrupted isrs (Suc 0) = isr_run (isrs 1)"
  "interrupted isrs 2 = isr_run (isrs 2)"
  "interrupted isrs 3 = isr_run (isrs 3)" "interrupted isrs 4 = isr_run (isrs 4)"
  "interrupted isrs 5 = isr_run (isrs 5)" "interrupted isrs 6 = isr_run (isrs 6)" "interrupted isrs 7 = Some"
  "interrupted isrs 8 = isr_run (isrs 8)" "interrupted isrs 9 = isr_run (isrs 9)"
  by (simp_all add: interrupted_def fun_eq_iff)

definition isrs_ok :: "rtos \<Rightarrow> (nat \<Rightarrow> queue_isr list) \<Rightarrow> bool" where
  "isrs_ok s isrs \<longleftrightarrow> (\<forall>n. \<forall>i\<in>set (isrs n). isr_ok s i)"

lemma isrs_ok_shape: "shape s s' \<Longrightarrow> isrs_ok s' isrs = isrs_ok s isrs"
  by (simp add: isrs_ok_def isr_ok_shape)

text \<open>
  The states of the section that starts at \<open>s0\<close>, with the scheduler just suspended: the
  scheduler is reachable, and up to here the interrupts only moved waiting tasks to pending.
\<close>

definition in_section :: "task \<Rightarrow> rtos \<Rightarrow> rtos \<Rightarrow> bool" where
  "in_section idle s0 s \<longleftrightarrow> reach idle (kern s) \<and> shape s0 s \<and> still (kern s0) (kern s)
     \<and> uxSchedulerSuspended (kern s0) \<noteq> 0"

lemma in_section_good: "in_section idle s0 s \<Longrightarrow> isr_good idle s s' \<Longrightarrow> in_section idle s0 s'"
  unfolding in_section_def isr_good_def using shape_trans still_trans by (metis still_def)

lemma in_section_isr:
  assumes "in_section idle s0 s" and "isrs_ok s0 isrs"
  shows "\<exists>s'. isr_run (isrs n) s = Some s' \<and> in_section idle s0 s'"
proof -
  have "\<forall>i\<in>set (isrs n). isr_ok s i"
    using assms isrs_ok_shape [of s0 s isrs] by (auto simp: in_section_def isrs_ok_def)
  then show ?thesis using isr_run_good [of idle s "isrs n"] assms(1) in_section_good by (metis in_section_def)
qed

lemma lock_good: "reach idle (kern s) \<Longrightarrow> isr_good idle s (prvLockQueue a s)"
  by (simp add: isr_good_def prvLockQueue_def shape_def)

lemma check_ticks: "xTaskCheckForTimeOut t ticks k = (False, t', ticks') \<Longrightarrow> 0 < ticks'"
  by (auto simp: xTaskCheckForTimeOut_def Let_def portMAX_DELAY_def word_gt_0 split: if_splits)

lemma lock_and_check_good:
  assumes "reach idle (kern s)" and "uxSchedulerSuspended (kern s) + 1 \<noteq> 0" and "isrs_ok s isrs"
    and "xTimeOut l \<noteq> None"
  shows "\<exists>e l' s'. lock_and_check (interrupted isrs) a l s = Some (e, l', s')
    \<and> in_section idle (on_kern vTaskSuspendAll s) s' \<and> xTimeOut l' \<noteq> None \<and> (\<not> e \<longrightarrow> 0 < xTicksToWait l')
    \<and> xInheritanceOccurred l' = xInheritanceOccurred l"
proof -
  let ?s0 = "on_kern vTaskSuspendAll s"
  have "reach idle (vTaskSuspendAll (kern s))"
    using reach_call [OF assms(1), of SuspendAll] assms(2) by (simp add: kguard_defs)
  then have 0: "in_section idle ?s0 ?s0"
    using assms(2) by (simp add: in_section_def vTaskSuspendAll_def)
  have ok: "isrs_ok ?s0 isrs" using assms(3) isrs_ok_shape [of s ?s0] by (simp add: shape_def)
  obtain s1 where 1: "isr_run (isrs 1) ?s0 = Some s1" "in_section idle ?s0 s1"
    using in_section_isr [OF 0 ok] by blast
  have L: "in_section idle ?s0 (prvLockQueue a s1)"
    using in_section_good [OF 1(2) lock_good] 1(2) by (simp add: in_section_def)
  obtain s2 where 2: "isr_run (isrs 2) (prvLockQueue a s1) = Some s2" "in_section idle ?s0 s2"
    using in_section_isr [OF L ok] by blast
  obtain s3 where 3: "isr_run (isrs 3) s2 = Some s3" "in_section idle ?s0 s3"
    using in_section_isr [OF 2(2) ok] by blast
  obtain t where t: "xTimeOut l = Some t" using assms(4) by blast
  obtain e t' n where c: "xTaskCheckForTimeOut t (xTicksToWait l) (kern s2) = (e, t', n)" by (metis prod_cases3)
  have "lock_and_check (interrupted isrs) a l s = Some (e, l\<lparr>xTimeOut := Some t', xTicksToWait := n\<rparr>, s3)"
    using 1(1) 2(1) 3(1) t c by (simp add: lock_and_check_def)
  moreover have "\<not> e \<longrightarrow> 0 < n" using check_ticks c by metis
  ultimately show ?thesis using 3(2) by auto
qed

lemma unlock_one_good:
  assumes "reach idle (kern s)"
  shows "\<exists>s'. unlock_tx a s = Some s' \<and> isr_good idle s s'" and "\<exists>s'. unlock_rx a s = Some s' \<and> isr_good idle s s'"
proof -
  obtain k where "unlock_loop (nat (sint (cTxLock (queues s a)))) (to_receive a) (kern s) = Some k" "reach idle k"
      "uxSchedulerSuspended (kern s) \<noteq> 0 \<longrightarrow> still (kern s) k"
    using unlock_loop_safe [OF assms event_list_queue(2)] by blast
  then show "\<exists>s'. unlock_tx a s = Some s' \<and> isr_good idle s s'"
    by (auto simp: unlock_tx_def isr_good_def shape_def)
  obtain k where "unlock_loop (nat (sint (cRxLock (queues s a)))) (to_send a) (kern s) = Some k" "reach idle k"
      "uxSchedulerSuspended (kern s) \<noteq> 0 \<longrightarrow> still (kern s) k"
    using unlock_loop_safe [OF assms event_list_queue(1)] by blast
  then show "\<exists>s'. unlock_rx a s = Some s' \<and> isr_good idle s s'"
    by (auto simp: unlock_rx_def isr_good_def shape_def)
qed

lemma isr_good_trans:
  assumes "isr_good idle s s1" and "isr_good idle s1 s2"
  shows "isr_good idle s s2"
proof -
  have "uxSchedulerSuspended (kern s) \<noteq> 0 \<Longrightarrow> still (kern s) (kern s1) \<and> uxSchedulerSuspended (kern s1) \<noteq> 0"
    using assms(1) by (simp add: isr_good_def still_def)
  then show ?thesis
    using assms shape_trans [of s s1 s2] still_trans [of "kern s" "kern s1" "kern s2"] unfolding isr_good_def by blast
qed

lemma isr_good_ok: "isr_good idle s s' \<Longrightarrow> isrs_ok s isrs \<Longrightarrow> isrs_ok s' isrs"
  using isrs_ok_shape [of s s' isrs] by (simp add: isr_good_def)

lemma isr_windows_good:
  "reach idle (kern s) \<Longrightarrow> isrs_ok s isrs \<Longrightarrow> \<exists>s'. isr_run (isrs n) s = Some s' \<and> isr_good idle s s'"
  by (rule isr_run_good) (auto simp: isrs_ok_def)

text \<open>Up to \<open>xTaskResumeAll\<close>.\<close>

lemma unlock_good:
  assumes "reach idle (kern s)" and "isrs_ok s isrs"
  shows "\<exists>s0 s1 s2. isr_run (isrs 8) s = Some s0 \<and> prvUnlockQueue (isr_run (isrs 5)) a s0 = Some s1 \<and> isr_run (isrs 6) s1 = Some s2
    \<and> isr_good idle s s2"
proof -
  obtain s0 where 0: "isr_run (isrs 8) s = Some s0" "isr_good idle s s0" using isr_windows_good [OF assms, of 8] by blast
  obtain s1 where 1: "unlock_tx a s0 = Some s1" "isr_good idle s0 s1"
    using unlock_one_good(1) [of idle s0 a] 0(2) by (auto simp: isr_good_def)
  have good1: "isr_good idle s s1" using 0(2) 1(2) isr_good_trans by blast
  obtain s2 where 2: "isr_run (isrs 5) s1 = Some s2" "isr_good idle s1 s2"
    using isr_windows_good [of idle s1 isrs 5] isr_good_ok [OF good1 assms(2)] good1 by (auto simp: isr_good_def)
  obtain s3 where 3: "unlock_rx a s2 = Some s3" "isr_good idle s2 s3"
    using unlock_one_good(2) [of idle s2 a] 2(2) by (auto simp: isr_good_def)
  have good3: "isr_good idle s s3" using good1 2(2) 3(2) isr_good_trans by blast
  obtain s4 where "isr_run (isrs 6) s3 = Some s4" "isr_good idle s3 s4"
    using isr_windows_good [of idle s3 isrs 6] isr_good_ok [OF good3 assms(2)] good3 by (auto simp: isr_good_def)
  then show ?thesis using 0(1) 1(1) 2(1) 3(1) isr_good_trans [OF good3] by (simp add: prvUnlockQueue_def)
qed

lemma resume_placed:
  assumes "reach idle (kern s)" and "isrs_ok s isrs"
  shows "\<exists>s'. unlock_and_resume (interrupted isrs) True a s = Some s' \<and> reach idle (kern s') \<and> shape s s'"
proof -
  obtain s0 s1 s2 where 1: "isr_run (isrs 8) s = Some s0" "prvUnlockQueue (isr_run (isrs 5)) a s0 = Some s1" "isr_run (isrs 6) s1 = Some s2"
    "isr_good idle s s2"
    using unlock_good [OF assms] by blast
  have r: "reach idle (kern s2)" using 1(4) by (simp add: isr_good_def)
  obtain k where k: "kexec ResumeAllYield (kern s2) = Some k" "reach idle k"
    using reach_call [OF r, of ResumeAllYield] by (auto simp: kguard_defs)
  obtain b k' where "xTaskResumeAll (kern s2) = Some (b, k')" "k = yield_unless b k'" using k(1) by auto
  then show ?thesis using 1 k(2) by (auto simp: unlock_and_resume_def isr_good_def shape_def)
qed

text \<open>Without a block in between, the current task goes on.\<close>

lemma resume_unplaced:
  assumes "reach idle (kern s)" and "isrs_ok s isrs" and "uxSchedulerSuspended (kern s) \<noteq> 0"
    and "pxCurrentTCB (kern s) = Some c" and "ready (kern s) c"
  shows "\<exists>s'. unlock_and_resume (interrupted isrs) False a s = Some s' \<and> reach idle (kern s') \<and> shape s s'
    \<and> ready (kern s') c"
proof -
  obtain s0 s1 s2 where 1: "isr_run (isrs 8) s = Some s0" "prvUnlockQueue (isr_run (isrs 5)) a s0 = Some s1" "isr_run (isrs 6) s1 = Some s2"
    "isr_good idle s s2"
    using unlock_good [OF assms(1,2)] by blast
  have r: "reach idle (kern s2)" and st: "still (kern s) (kern s2)" using 1(4) assms(3) by (simp_all add: isr_good_def)
  have "kguard idle ResumeAllPlain (kern s2)"
    using still_ready [OF st] st assms(4,5) by (auto simp: kguard_defs still_def)
  from reach_call [OF r this] obtain k where k: "kexec ResumeAllPlain (kern s2) = Some k" "reach idle k" by blast
  obtain b where b: "xTaskResumeAll (kern s2) = Some (b, k)" using k(1) by auto
  obtain T where "sinv idle T (kern s2)" using reach_inv [OF r] by blast
  then have "sinv0 idle T (kern s2)" by (rule sinvD)
  from resume_all_sinv0 [OF this] b have "ready (kern s2) c \<longrightarrow> ready k c" by (auto simp: resumed_def ready_def)
  then have "ready k c" using still_ready [OF st] assms(5) by simp
  then show ?thesis using 1 k(2) b by (auto simp: unlock_and_resume_def isr_good_def shape_def)
qed

lemma place_good:
  assumes "reach idle (kern s)" and "executing idle (kern s)" and "pxCurrentTCB (kern s) = Some c"
    and "container (kern s) (EventItem c) = None" and "0 < d" and "event_list l" and "uxSchedulerSuspended (kern s) \<noteq> 0"
  shows "\<exists>s'. place l d s = Some s' \<and> reach idle (kern s') \<and> same_data s s'"
proof -
  have "kguard idle (PlaceOnEventList l d) (kern s)" using assms(2-) by (auto simp: kguard_defs)
  from reach_call [OF assms(1) this] obtain k where "vTaskPlaceOnEventList l d (kern s) = Some k" "reach idle k" by auto
  then show ?thesis by (simp add: place_def)
qed

section \<open>The calls\<close>

text \<open>The current task \<open>c\<close> can call a blocking function: it runs, is not idle and waits for nothing.\<close>

definition can_block :: "task \<Rightarrow> task \<Rightarrow> kernel \<Rightarrow> bool" where
  "can_block idle c k \<longleftrightarrow> reach idle k \<and> pxCurrentTCB k = Some c \<and> ready k c \<and> c \<noteq> idle
     \<and> container k (EventItem c) = None \<and> uxSchedulerSuspended k + 1 \<noteq> 0"

lemma can_block_section:
  assumes "can_block idle c (kern s)" and "in_section idle (on_kern vTaskSuspendAll s) s'"
  shows "reach idle (kern s')" and "pxCurrentTCB (kern s') = Some c" and "ready (kern s') c"
    and "executing idle (kern s')" and "container (kern s') (EventItem c) = None"
    and "uxSchedulerSuspended (kern s') \<noteq> 0" and "shape s s'"
    and "\<And>t. container (kern s') (StateItem t) = container (kern s) (StateItem t)"
proof -
  have st: "still (vTaskSuspendAll (kern s)) (kern s')" and sh: "shape (on_kern vTaskSuspendAll s) s'"
    using assms(2) by (simp_all add: in_section_def)
  show "reach idle (kern s')" using assms(2) by (simp add: in_section_def)
  show c: "pxCurrentTCB (kern s') = Some c" and r: "ready (kern s') c"
    using st assms(1) still_ready [OF st] by (simp_all add: still_def can_block_def vTaskSuspendAll_def ready_def)
  show "executing idle (kern s')" using c r assms(1) by (auto simp: executing_def can_block_def)
  show "container (kern s') (EventItem c) = None"
    using still_unlisted [OF st] assms(1) by (simp add: can_block_def vTaskSuspendAll_def)
  show "uxSchedulerSuspended (kern s') \<noteq> 0" using st assms(2) by (simp add: still_def in_section_def)
  show "shape s s'" using sh by (simp add: shape_def)
  show "container (kern s') (StateItem t) = container (kern s) (StateItem t)" for t
    using st by (simp add: still_def vTaskSuspendAll_def)
qed

text \<open>What every section promises of its result.\<close>

definition returned :: "task \<Rightarrow> (bool option \<times> wait_locals \<times> rtos) option \<Rightarrow> bool" where
  "returned idle res \<longleftrightarrow> (\<exists>r l s. res = Some (r, l, s) \<and> reach idle (kern s))"

lemma returnedI: "reach idle (kern s) \<Longrightarrow> returned idle (Some (r, l, s))"
  by (auto simp: returned_def)

lemma resume_section:
  assumes "can_block idle c (kern s)" and "in_section idle (on_kern vTaskSuspendAll s) s'" and "isrs_ok s isrs"
  shows "\<exists>s''. unlock_and_resume (interrupted isrs) False a s' = Some s'' \<and> reach idle (kern s'') \<and> shape s' s''
    \<and> ready (kern s'') c"
  using resume_unplaced [of idle s' isrs c a] can_block_section [OF assms(1,2)] isrs_ok_shape [of s s' isrs] assms(3) by simp

lemma place_section:
  assumes "can_block idle c (kern s)" and "in_section idle (on_kern vTaskSuspendAll s) s'" and "isrs_ok s isrs"
    and "0 < d" and "event_list l"
  shows "\<exists>s2 s3. place l d s' = Some s2 \<and> unlock_and_resume (interrupted isrs) True a s2 = Some s3 \<and> reach idle (kern s3)"
proof -
  note C = can_block_section [OF assms(1,2)]
  obtain s2 where 2: "place l d s' = Some s2" "reach idle (kern s2)" "same_data s' s2"
    using place_good [OF C(1,4,2,5) assms(4,5) C(6)] by blast
  have "shape s s2" using shape_trans [OF C(7)] same_dataD [OF 2(3)] by blast
  then have "isrs_ok s2 isrs" using isrs_ok_shape assms(3) by blast
  with resume_placed [OF 2(2)] 2(1) show ?thesis by blast
qed

lemma window4:
  assumes "can_block idle c (kern s)" and "in_section idle (on_kern vTaskSuspendAll s) s'" and "isrs_ok s isrs"
  shows "\<exists>s''. isr_run (isrs n) s' = Some s'' \<and> in_section idle (on_kern vTaskSuspendAll s) s''"
proof -
  have "isrs_ok (on_kern vTaskSuspendAll s) isrs"
    using assms(3) isrs_ok_shape [of s "on_kern vTaskSuspendAll s"] by (simp add: shape_def)
  then show ?thesis using in_section_isr [OF assms(2)] by blast
qed

lemma locked:
  assumes "can_block idle c (kern s)" and "isrs_ok s isrs" and "xTimeOut l \<noteq> None"
  obtains e l' s' where "lock_and_check (interrupted isrs) a l s = Some (e, l', s')"
    and "in_section idle (on_kern vTaskSuspendAll s) s'" and "\<not> e \<Longrightarrow> 0 < xTicksToWait l'"
    and "xInheritanceOccurred l' = xInheritanceOccurred l"
  using lock_and_check_good [of idle s isrs l a] assms by (auto simp: can_block_def)

lemma send_wait_returns:
  assumes "can_block idle c (kern s)" and "isrs_ok s isrs" and "xTimeOut l \<noteq> None"
  shows "returned idle (xQueueGenericSend_wait a (interrupted isrs) l s)"
proof -
  obtain e l' s' where L: "lock_and_check (interrupted isrs) a l s = Some (e, l', s')"
    "in_section idle (on_kern vTaskSuspendAll s) s'" "\<not> e \<Longrightarrow> 0 < xTicksToWait l'"
    using locked [OF assms] by metis
  obtain s4 where R: "unlock_and_resume (interrupted isrs) False a s' = Some s4" "reach idle (kern s4)"
    using resume_section [OF assms(1) L(2) assms(2)] by blast
  show ?thesis
  proof (cases "\<not> e \<and> prvIsQueueFull a s'")
    case True
    obtain s1 where 1: "isr_run (isrs 4) s' = Some s1" "in_section idle (on_kern vTaskSuspendAll s) s1"
      using window4 [OF assms(1) L(2) assms(2)] by blast
    obtain s2 s3 where "place (to_send a) (xTicksToWait l') s1 = Some s2"
      "unlock_and_resume (interrupted isrs) True a s2 = Some s3" "reach idle (kern s3)"
      using place_section [OF assms(1) 1(2) assms(2) L(3) event_list_queue(1)] True by blast
    then show ?thesis using L(1) True 1(1) by (simp add: xQueueGenericSend_wait_def returnedI)
  next
    case False
    then show ?thesis using L(1) R by (auto simp: xQueueGenericSend_wait_def intro: returnedI)
  qed
qed

lemma receive_wait_returns:
  assumes "can_block idle c (kern s)" and "isrs_ok s isrs" and "xTimeOut l \<noteq> None"
  shows "returned idle (xQueueReceive_wait a (interrupted isrs) l s)"
proof -
  obtain e l' s' where L: "lock_and_check (interrupted isrs) a l s = Some (e, l', s')"
    "in_section idle (on_kern vTaskSuspendAll s) s'" "\<not> e \<Longrightarrow> 0 < xTicksToWait l'"
    using locked [OF assms] by metis
  obtain s4 where R: "unlock_and_resume (interrupted isrs) False a s' = Some s4" "reach idle (kern s4)"
    using resume_section [OF assms(1) L(2) assms(2)] by blast
  show ?thesis
  proof (cases "\<not> e \<and> prvIsQueueEmpty a s'")
    case True
    obtain s1 where 1: "isr_run (isrs 4) s' = Some s1" "in_section idle (on_kern vTaskSuspendAll s) s1"
      using window4 [OF assms(1) L(2) assms(2)] by blast
    obtain s2 s3 where "place (to_receive a) (xTicksToWait l') s1 = Some s2"
      "unlock_and_resume (interrupted isrs) True a s2 = Some s3" "reach idle (kern s3)"
      using place_section [OF assms(1) 1(2) assms(2) L(3) event_list_queue(2)] True by blast
    then show ?thesis using L(1) True 1(1) by (simp add: xQueueReceive_wait_def returnedI)
  next
    case False
    then show ?thesis using L(1) R by (auto simp: xQueueReceive_wait_def intro: returnedI)
  qed
qed

text \<open>
  For a mutex the holder must not have been deleted, and the priority inheritance must not be
  undone by an expired wait (see \<open>disinherit_after_timeout_stale_bit\<close>).
\<close>

definition holder_alive :: "u32 \<Rightarrow> rtos \<Rightarrow> bool" where
  "holder_alive a s \<longleftrightarrow> is_mutex (queues s a) \<longrightarrow>
     (case xMutexHolder (queues s a) of None \<Rightarrow> True | Some h \<Rightarrow> alive (kern s) h)"

lemma inherit_section:
  assumes "can_block idle c (kern s)" and "in_section idle (on_kern vTaskSuspendAll s) s'" and "holder_alive a s"
    and "is_mutex (queues s' a)"
  shows "\<exists>b k. xTaskPriorityInherit (xMutexHolder (queues s' a)) (kern s') = Some (b, k) \<and> reach idle k
    \<and> pxCurrentTCB k = Some c \<and> executing idle k \<and> container k (EventItem c) = None \<and> uxSchedulerSuspended k \<noteq> 0"
proof -
  note C = can_block_section [OF assms(1,2)]
  show ?thesis
  proof (cases "xMutexHolder (queues s' a)")
    case None
    then show ?thesis using C by (intro exI [of _ False] exI [of _ "kern s'"]) (simp add: xTaskPriorityInherit_def)
  next
    case (Some h)
    have "is_mutex (queues s a)" "xMutexHolder (queues s a) = Some h"
      using C(7) Some assms(4) by (simp_all add: shape_def is_mutex_def xMutexHolder_def)
    then have "alive (kern s) h" using assms(3) by (simp add: holder_alive_def)
    then have g: "kguard idle (Inherit h) (kern s')" using C(8) by (simp add: kguard_defs alive_def)
    from reach_call [OF C(1) g] obtain k where k: "kexec (Inherit h) (kern s') = Some k" "reach idle k" by blast
    then obtain b where b: "xTaskPriorityInherit (Some h) (kern s') = Some (b, k)" by auto
    obtain T where "sinv idle T (kern s')" using reach_inv [OF C(1)] by blast
    then have K: "kinv T (kern s')" by (rule sinvD)
    have rk: "container k (EventItem c) = None \<and> pxCurrentTCB k = Some c \<and> ready k c \<and> uxSchedulerSuspended k \<noteq> 0"
    proof (cases "prio (kern s') h < prio (kern s') c")
      case True
      let ?e = "set_event_priority h (prio (kern s') c) (kern s')"
      have "k = k_inherit h (prio (kern s') c) ?e"
        using b xTaskPriorityInherit_eq [OF K C(2)] True by simp
      moreover have "ready ?e u = ready (kern s') u" for u by (simp add: ready_def)
      ultimately show ?thesis using C(2,3,5,6) by (auto simp: ready_def split: if_splits)
    next
      case False
      then show ?thesis using b xTaskPriorityInherit_eq [OF K C(2)] C(2,3,5,6) by simp
    qed
    then have "executing idle k" using assms(1) by (auto simp: executing_def can_block_def)
    then show ?thesis using b k(2) rk Some by auto
  qed
qed

text \<open>
  After a time-out that follows an inheritance the section still returns, but its state may be
  one that \<open>vTaskPriorityDisinheritAfterTimeout\<close> has spoilt.
\<close>

lemma take_wait_ends:
  assumes "can_block idle c (kern s)" and "isrs_ok s isrs" and "xTimeOut l \<noteq> None" and "holder_alive a s"
  shows "\<exists>r l2 s2. xQueueSemaphoreTake_wait a (interrupted isrs) l s = Some (r, l2, s2)
    \<and> (reach idle (kern s2) \<or> r = Some False \<and> xInheritanceOccurred l)"
proof -
  obtain e l' s' where L: "lock_and_check (interrupted isrs) a l s = Some (e, l', s')"
    "in_section idle (on_kern vTaskSuspendAll s) s'" "\<not> e \<Longrightarrow> 0 < xTicksToWait l'"
    "xInheritanceOccurred l' = xInheritanceOccurred l"
    using locked [OF assms(1-3)] by metis
  obtain s4 where R: "unlock_and_resume (interrupted isrs) False a s' = Some s4" "reach idle (kern s4)"
    using resume_section [OF assms(1) L(2) assms(2)] by blast
  show ?thesis
  proof (cases "\<not> e \<and> prvIsQueueEmpty a s'")
    case True
    obtain s1 where 1: "isr_run (isrs 4) s' = Some s1" "in_section idle (on_kern vTaskSuspendAll s) s1"
      using window4 [OF assms(1) L(2) assms(2)] by blast
    note C = can_block_section [OF assms(1) 1(2)]
    obtain l2 s2 where 2: "(if is_mutex (queues s1 a) then
        do { (inherited, k) \<leftarrow> xTaskPriorityInherit (xMutexHolder (queues s1 a)) (kern s1);
             s \<leftarrow> isr_run (isrs 9) (s1\<lparr>kern := k\<rparr>);
             Some (l'\<lparr>xInheritanceOccurred := inherited\<rparr>, s) }
        else Some (l', s1)) = Some (l2, s2)"
      "xTicksToWait l2 = xTicksToWait l'" "shape s1 s2" "reach idle (kern s2)" "pxCurrentTCB (kern s2) = Some c"
      "executing idle (kern s2)" "container (kern s2) (EventItem c) = None" "uxSchedulerSuspended (kern s2) \<noteq> 0"
    proof (cases "is_mutex (queues s1 a)")
      case True
      with inherit_section [OF assms(1) 1(2) assms(4)] obtain b k where
        k: "xTaskPriorityInherit (xMutexHolder (queues s1 a)) (kern s1) = Some (b, k)" "reach idle k" "pxCurrentTCB k = Some c"
          "executing idle k" "container k (EventItem c) = None" "uxSchedulerSuspended k \<noteq> 0" by blast
      let ?s = "s1\<lparr>kern := k\<rparr>"
      have sh: "shape s1 ?s" by (simp add: shape_def)
      then have "isrs_ok ?s isrs" using isrs_ok_shape C(7) assms(2) shape_trans by blast
      then obtain s2 where s2: "isr_run (isrs 9) ?s = Some s2" "isr_good idle ?s s2" using isr_windows_good [of idle ?s isrs 9] k(2) by auto
      then have st: "still k (kern s2)" "shape ?s s2" "reach idle (kern s2)" using k(6) by (simp_all add: isr_good_def)
      have "executing idle (kern s2)" using k(3,4) still_ready [OF st(1)] st(1) by (auto simp: executing_def still_def)
      moreover have "pxCurrentTCB (kern s2) = Some c" "uxSchedulerSuspended (kern s2) \<noteq> 0" using st(1) k(3,6) by (simp_all add: still_def)
      ultimately show ?thesis
        using k(1) s2(1) st(3) shape_trans [OF sh st(2)] still_unlisted [OF st(1)] k(5) True by (intro that [of "l'\<lparr>xInheritanceOccurred := b\<rparr>" s2]) simp_all
    next
      case False
      then show ?thesis using C by (intro that [of l' s1]) (simp_all add: shape_def)
    qed
    obtain s3 where 3: "place (to_receive a) (xTicksToWait l') s2 = Some s3" "reach idle (kern s3)" "same_data s2 s3"
      using place_good [OF 2(4,6,5,7) L(3) event_list_queue(2) 2(8)] True by blast
    have "shape s s3" using C(7) 2(3) same_dataD [OF 3(3)] shape_trans by blast
    then obtain s5 where r: "unlock_and_resume (interrupted isrs) True a s3 = Some s5" "reach idle (kern s5)"
      using resume_placed [OF 3(2)] isrs_ok_shape assms(2) by blast
    show ?thesis
    proof (cases "is_mutex (queues s1 a)")
      case mutex: True
      with 2(1) obtain b k where "xTaskPriorityInherit (xMutexHolder (queues s1 a)) (kern s1) = Some (b, k)"
        "isr_run (isrs 9) (s1\<lparr>kern := k\<rparr>) = Some s2" "l2 = l'\<lparr>xInheritanceOccurred := b\<rparr>"
        by (auto simp: bind_eq_Some_conv)
      then show ?thesis using L(1) True 1(1) mutex 3(1) r by (simp add: xQueueSemaphoreTake_wait_def)
    next
      case False
      then show ?thesis using L(1) True 1(1) 2(1) 3(1) r by (simp add: xQueueSemaphoreTake_wait_def)
    qed
  next
    case False
    have "\<exists>k. vTaskPriorityDisinheritAfterTimeout h p (kern s4) = Some k" for h p
      by (auto simp: vTaskPriorityDisinheritAfterTimeout_def Let_def k_remove_def split: option.split)
    then obtain k where k: "vTaskPriorityDisinheritAfterTimeout (xMutexHolder (queues s4 a))
        (prvGetDisinheritPriorityAfterTimeout a s4) (kern s4) = Some k" by blast
    show ?thesis using L(1,4) R False k by (auto simp: xQueueSemaphoreTake_wait_def)
  qed
qed

subsection \<open>The first critical section\<close>

lemma refuse_returns: "reach idle (kern s) \<Longrightarrow> returned idle (refuse l s)"
  by (simp add: refuse_def returnedI)

lemma wake_yield_returns:
  assumes "reach idle (kern s)"
  shows "\<exists>s'. wake_yield (to_send a) s = Some s' \<and> reach idle (kern s')"
    and "\<exists>s'. wake_yield (to_receive a) s = Some s' \<and> reach idle (kern s')"
  using wake_yield_safe [OF assms] event_list_queue by blast+

lemma receive_try_returns:
  assumes "reach idle (kern s)"
  shows "returned idle (xQueueReceive_try a p l s)" and "returned idle (xQueuePeek_try a p l s)"
proof -
  let ?c = "prvCopyDataFromQueue a p s"
  have k: "kern ?c = kern s" using copy_from_plain copy_frameD(1) by blast
  obtain s' where "wake_yield (to_send a) (upd_q a (uxMessagesWaiting_update (\<lambda>_. uxMessagesWaiting (queues s a) - 1)) ?c) = Some s'"
    "reach idle (kern s')"
    using wake_yield_returns(1) [of idle "upd_q a _ ?c" a] assms k by fastforce
  then show "returned idle (xQueueReceive_try a p l s)"
    using refuse_returns [OF assms] by (simp add: xQueueReceive_try_def Let_def returnedI)
  obtain s' where "wake_yield (to_receive a) (upd_q a (u_second_update (\<lambda>_. pcReadFrom (queues s a))) ?c) = Some s'"
    "reach idle (kern s')"
    using wake_yield_returns(2) [of idle "upd_q a _ ?c" a] assms k by fastforce
  then show "returned idle (xQueuePeek_try a p l s)"
    using refuse_returns [OF assms] by (simp add: xQueuePeek_try_def Let_def returnedI)
qed

lemma send_try_returns:
  assumes "reach idle (kern s)" and "plain_queue a s"
  shows "returned idle (xQueueGenericSend_try a p pos l s)"
proof -
  obtain s1 where c: "prvCopyDataToQueue a p pos s = Some (False, s1)" "copy_frame a s s1"
    using copy_to_plain [OF assms(2)] by blast
  then have r: "reach idle (kern s1)" using assms(1) copy_frameD(1) by metis
  then show ?thesis
    using c(1) wake_yield_returns(2) [OF r, of a] refuse_returns [OF assms(1)] returnedI
    by (auto simp: xQueueGenericSend_try_def)
qed

lemma take_try_returns:
  assumes "reach idle (kern s)"
  shows "returned idle (xQueueSemaphoreTake_try a l s)"
proof -
  let ?n = "upd_q a (uxMessagesWaiting_update (\<lambda>_. uxMessagesWaiting (queues s a) - 1)) s"
  let ?s = "if is_mutex (queues ?n a) then
      (let r = pvTaskIncrementMutexHeldCount (kern ?n)
       in upd_q a (u_first_update (\<lambda>_. handle_of (fst r))) (?n\<lparr>kern := snd r\<rparr>)) else ?n"
  have "reach idle (snd (pvTaskIncrementMutexHeldCount (kern s)))"
    using reach_call [OF assms, of MutexHeld] by (simp add: kguard_defs)
  then have r: "reach idle (kern ?s)" using assms by (simp add: Let_def)
  then show ?thesis
    using wake_yield_returns(1) [OF r, of a] refuse_returns [OF assms]
    by (auto simp: xQueueSemaphoreTake_try_def Let_def returnedI)
qed

end
