(* ===== verification/Queue_Mutex.thy ===== *)
theory Queue_Mutex
  imports Queue_Blocking
begin

text \<open>
  Giving a mutex: the first critical section of \<open>xQueueGenericSend\<close> on a mutex lowers the
  priority of the giver and wakes the first waiting task. It keeps the scheduler reachable
  when the woken task outranks the lowered giver, or nobody waits.
\<close>

section \<open>Waiting lists are left alone\<close>

lemma kitems_unlist: "wf_store (klists k) \<Longrightarrow> container k i \<noteq> Some l \<Longrightarrow> kitems (k_unlist i k) l = kitems k l"
  by (auto simp: k_unlist_def a_remove_def split: option.split)

lemma kitems_insert_end: "l' \<noteq> l \<Longrightarrow> kitems (k_insert_end l i k) l' = kitems k l'"
  by (simp add: k_insert_end_def a_insert_end_def)

lemma kitems_add_ready: "event_list l \<Longrightarrow> kitems (prvAddTaskToReadyList t k) l = kitems k l"
  by (auto simp: prvAddTaskToReadyList_def k_insert_end_def a_insert_end_def taskRECORD_READY_PRIORITY_def event_list_def)

lemma kitems_leave:
  "wf_store (klists k) \<Longrightarrow> container k (StateItem t) \<noteq> Some l \<Longrightarrow> kitems (k_leave t k) l = kitems k l"
  using kitems_unlist [of k "StateItem t" l] by (simp add: k_leave_def portRESET_TOP_def Let_def)

lemma kitems_set_value [simp]: "kitems (k_set_value i v k) = kitems k"
  by (simp add: k_set_value_def a_set_value_def)

section \<open>Disinheritance\<close>

definition k_disinherit :: "task \<Rightarrow> kernel \<Rightarrow> kernel" where
  "k_disinherit t k =
     (let m = upd_tcb t (tcb_uxMutexesHeld_update (\<lambda>n. n - 1)) k; b = tcb_uxBasePriority (tcbs k t)
      in prvAddTaskToReadyList t (k_set_value (EventItem t) (configMAX_PRIORITIES - b)
           (upd_tcb t (tcb_uxPriority_update (\<lambda>_. b)) (k_leave t m))))"

text \<open>Giving this mutex lowers the priority: it is the last one held, and the priority is inherited.\<close>

definition lowers :: "kernel \<Rightarrow> task \<Rightarrow> bool" where
  "lowers k t \<longleftrightarrow> prio k t \<noteq> tcb_uxBasePriority (tcbs k t) \<and> tcb_uxMutexesHeld (tcbs k t) = 1"

lemma disinherit_eq:
  assumes "kinv T k" and "ready k t"
  shows "xTaskPriorityDisinherit (Some t) k =
    Some (if lowers k t then (True, k_disinherit t k)
          else (False, upd_tcb t (tcb_uxMutexesHeld_update (\<lambda>n. n - 1)) k))"
proof -
  let ?m = "upd_tcb t (tcb_uxMutexesHeld_update (\<lambda>n. n - 1)) k"
  have M: "kinv T ?m" by (rule kinv_upd_tcb [OF assms(1)]) simp
  have l: "container ?m (StateItem t) = Some (ReadyList (prio k t))" using assms(2) by (simp add: ready_def)
  have "tcb_uxMutexesHeld (tcbs ?m t) = 0 \<longleftrightarrow> tcb_uxMutexesHeld (tcbs k t) = 1" by simp
  then show ?thesis
    unfolding xTaskPriorityDisinherit_def option.case Let_def lowers_def k_disinherit_def
    using l leave_reset [OF M l] by (simp add: k_remove_unlist cong: if_cong)
qed

lemma disinherit_fields [simp]:
  "pxCurrentTCB (k_disinherit t k) = pxCurrentTCB k" "pendsv (k_disinherit t k) = pendsv k"
  "uxSchedulerSuspended (k_disinherit t k) = uxSchedulerSuspended k"
  "prio (k_disinherit t k) u = (if u = t then tcb_uxBasePriority (tcbs k t) else prio k u)"
  by (simp_all add: k_disinherit_def Let_def)

lemma kitems_disinherit:
  assumes "kinv T k" and "event_list l"
  shows "kitems (k_disinherit t k) l = kitems k l"
proof -
  let ?m = "upd_tcb t (tcb_uxMutexesHeld_update (\<lambda>n. n - 1)) k"
  have "container k (StateItem t) \<noteq> Some l"
    using kinvD(5) [OF assms(1)] event_list_admits [OF assms(2)] by blast
  then have "kitems (k_leave t ?m) l = kitems ?m l"
    by (intro kitems_leave) (use kinvD(1) [OF assms(1)] in simp_all)
  then show ?thesis using assms(2) by (simp add: k_disinherit_def Let_def kitems_add_ready)
qed

section \<open>Giving\<close>

text \<open>
  The condition under which the code does not lose a yield: if the giver is lowered and tasks
  wait, the first of them (not the giver) outranks the giver's base priority.
\<close>

definition give_ok :: "u32 \<Rightarrow> task \<Rightarrow> kernel \<Rightarrow> bool" where
  "give_ok a c k \<longleftrightarrow> lowers k c \<longrightarrow>
     (case kitems k (to_receive a) of EventItem t # _ \<Rightarrow> t \<noteq> c \<and> tcb_uxBasePriority (tcbs k c) < prio k t | _ \<Rightarrow> True)"

lemma give_lowered:
  assumes "reach idle (portYIELD (kern s))" and "kitems (kern s) (to_receive a) \<noteq> []"
    and "pxCurrentTCB (kern s) = Some c" and "hd (kitems (kern s) (to_receive a)) = EventItem t"
    and "prio (kern s) c < prio (kern s) t"
  shows "\<exists>s'. wake_yield (to_receive a) s = Some s' \<and> reach idle (kern s')"
proof -
  obtain b k u where R: "xTaskRemoveFromEventList (to_receive a) (portYIELD (kern s)) = Some (b, k)" "reach idle k"
    "hd (kitems (kern s) (to_receive a)) = EventItem u" "b \<longleftrightarrow> (\<exists>c. pxCurrentTCB (kern s) = Some c \<and> prio (kern s) c < prio (kern s) u)"
    using remove_event [OF assms(1) event_list_queue(2) [of a]] assms(2) unfolding portYIELD_fields by blast
  then obtain k1 where k1: "xTaskRemoveFromEventList (to_receive a) (kern s) = Some (b, k1)" "k = portYIELD k1"
    by (auto simp: pend_simps)
  have "b" using R(3,4) assms(3-5) by auto
  then show ?thesis using k1 R(2) assms(2) by (simp add: wake_yield_def wake_first_def on_kern_def)
qed

lemma give_try_returns:
  assumes "reach idle (kern s)" and "uxItemSize (queues s a) = 0" and "is_mutex (queues s a)"
    and "xMutexHolder (queues s a) = Some c" and "pxCurrentTCB (kern s) = Some c" and "ready (kern s) c"
    and "give_ok a c (kern s)"
  shows "returned idle (xQueueGenericSend_try a p pos l s)"
proof (cases "uxMessagesWaiting (queues s a) < uxLength (queues s a) \<or> pos = queueOVERWRITE")
  case True
  obtain T where I: "sinv idle T (kern s)" using reach_inv [OF assms(1)] by blast
  then have K: "kinv T (kern s)" by (rule sinvD)
  define k1 where "k1 = (if lowers (kern s) c then k_disinherit c (kern s)
     else upd_tcb c (tcb_uxMutexesHeld_update (\<lambda>n. n - 1)) (kern s))"
  have eq: "xTaskPriorityDisinherit (Some c) (kern s) = Some (lowers (kern s) c, k1)"
    using disinherit_eq [OF K assms(6)] by (simp add: k1_def)
  have "kguard idle (Disinherit c) (kern s)" using assms(5,6) by (simp add: kguard_defs)
  from reach_call [OF assms(1) this] eq have r: "reach idle (if lowers (kern s) c then portYIELD k1 else k1)" by simp
  have cur: "pxCurrentTCB k1 = Some c" and items: "kitems k1 (to_receive a) = kitems (kern s) (to_receive a)"
    using assms(5) kitems_disinherit [OF K event_list_queue(2)] by (simp_all add: k1_def)
  obtain s1 where s1: "prvCopyDataToQueue a p pos s = Some (lowers (kern s) c, s1)" "kern s1 = k1"
    using eq assms(2-4) by (simp add: prvCopyDataToQueue_def Let_def)
  show ?thesis
  proof (cases "kitems k1 (to_receive a)")
    case Nil
    then show ?thesis using True s1 r by (auto simp: xQueueGenericSend_try_def returned_def)
  next
    case (Cons i js)
    have "\<exists>s'. wake_yield (to_receive a) s1 = Some s' \<and> reach idle (kern s')"
    proof (cases "lowers (kern s) c")
      case lo: True
      have "container (kern s) i = Some (to_receive a)" using Cons items kinvD(12) [OF K] by simp
      then obtain t where t: "i = EventItem t" using kinvD(7) [OF K] event_list_admits [OF event_list_queue(2)]
        by (cases i) blast+
      have "t \<noteq> c" "tcb_uxBasePriority (tcbs (kern s) c) < prio (kern s) t"
        using assms(7) lo Cons items t by (simp_all add: give_ok_def)
      then have "prio k1 c < prio k1 t" using lo by (simp add: k1_def)
      then show ?thesis
        using give_lowered [of idle s1 a c t] r lo s1(2) Cons cur t by auto
    next
      case False
      then show ?thesis using wake_yield_returns(2) [of idle s1 a] r s1(2) by simp
    qed
    then show ?thesis using True s1 Cons by (auto simp: xQueueGenericSend_try_def returned_def)
  qed
next
  case False
  then show ?thesis using refuse_returns [OF assms(1)] by (auto simp: xQueueGenericSend_try_def)
qed

text \<open>
  Without that condition the give returns all the same, in a state that only lacks the yield.
\<close>

lemma give_try_ends:
  assumes "reach idle (kern s)" and "uxItemSize (queues s a) = 0" and "is_mutex (queues s a)"
    and "xMutexHolder (queues s a) = Some c" and "pxCurrentTCB (kern s) = Some c" and "ready (kern s) c"
  shows "\<exists>r l2 s2. xQueueGenericSend_try a p pos l s = Some (r, l2, s2) \<and> runs idle leaves_stale_bit (kern s2)"
proof (cases "uxMessagesWaiting (queues s a) < uxLength (queues s a) \<or> pos = queueOVERWRITE")
  case True
  have R: "runs idle leaves_stale_bit (kern s)" by (rule reach_runs [OF assms(1)]) simp
  have next_call: "\<exists>k'. kexec call k = Some k' \<and> runs idle leaves_stale_bit k'"
    if "runs idle leaves_stale_bit k" "documented idle call k" "\<not> leaves_stale_bit call k" for call k
    using step_weak [OF runs_weak [OF that(1)] that(2,3)] runs.step [OF that] by blast
  have "documented idle (DisinheritKeep c) (kern s)" "\<not> leaves_stale_bit (DisinheritKeep c) (kern s)"
    using assms(5,6) by (simp_all add: kguard_defs)
  from next_call [OF R this] obtain b k1 where k1: "xTaskPriorityDisinherit (Some c) (kern s) = Some (b, k1)"
    "runs idle leaves_stale_bit k1" by auto
  obtain s1 where s1: "prvCopyDataToQueue a p pos s = Some (b, s1)" "kern s1 = k1"
    using k1(1) assms(2-4) by (simp add: prvCopyDataToQueue_def Let_def)
  have y: "runs idle leaves_stale_bit (portYIELD k)" if "runs idle leaves_stale_bit k" for k
    using next_call [OF that, of Yield] by (simp add: kguard_defs)
  show ?thesis
  proof (cases "kitems k1 (to_receive a)")
    case Nil
    then show ?thesis using True s1 k1(2) y by (simp add: xQueueGenericSend_try_def on_kern_def)
  next
    case (Cons i js)
    then have "documented idle (RemoveFromEventList (to_receive a)) k1" "\<not> leaves_stale_bit (RemoveFromEventList (to_receive a)) k1"
      using event_list_queue(2) by (simp_all add: kguard_defs)
    from next_call [OF k1(2) this] obtain w k2 where "xTaskRemoveFromEventList (to_receive a) k1 = Some (w, k2)"
      "runs idle leaves_stale_bit k2" by auto
    then have "\<exists>s2. wake_yield (to_receive a) s1 = Some s2 \<and> runs idle leaves_stale_bit (kern s2)"
      using Cons s1(2) y by (simp add: wake_yield_def wake_first_def on_kern_def)
    then show ?thesis using True s1 Cons by (auto simp: xQueueGenericSend_try_def)
  qed
next
  case False
  then show ?thesis using reach_runs [OF assms(1)] by (auto simp: xQueueGenericSend_try_def refuse_def)
qed

end
