(* ===== verification/Queue_Fifo.thy ===== *)
theory Queue_Fifo
  imports Queue_Mutex
begin

text \<open>
  A queue as a first-in first-out buffer: its sends and receives, from tasks and from
  interrupts, satisfy the contract of \<open>Fifo_Contract\<close>.
\<close>

section \<open>Contents and the scheduler\<close>

lemma wake_first_data: "wake_first l s = Some (b, s') \<Longrightarrow> same_data s s'"
  by (auto simp: wake_first_def split: if_splits)

lemma wake_yield_data: "wake_yield l s = Some s' \<Longrightarrow> same_data s s'"
  using wake_first_data same_data_trans by (fastforce simp: wake_yield_def)

text \<open>The contents depend on the queue and the memory only.\<close>

lemma contents_cong:
  "queues s' a = queues s a \<Longrightarrow> mem s' = mem s \<Longrightarrow> queue_contents a s' = queue_contents a s \<and> queue_ok a s' = queue_ok a s"
  by (simp add: queue_contents_def queue_ok_def)

lemma contents_same_data: "same_data s s' \<Longrightarrow> queue_contents a s' = queue_contents a s \<and> queue_ok a s' = queue_ok a s"
  using contents_cong same_dataD by metis

lemma contents_lock [simp]:
  "queue_contents a (upd_q a (cTxLock_update f) s) = queue_contents a s"
  "queue_contents a (upd_q a (cRxLock_update f) s) = queue_contents a s"
  "queue_ok a (upd_q a (cTxLock_update f) s) = queue_ok a s"
  "queue_ok a (upd_q a (cRxLock_update f) s) = queue_ok a s"
  by (simp_all add: queue_contents_def queue_ok_def ring_def storage_ok_def slot_def items_from_def Let_def)

lemma ring_same_base: "ring x w r \<Longrightarrow> unat (uxMessagesWaiting x) \<le> unat (uxLength x)"
  using ringD(6) by (simp add: word_le_nat_alt)

section \<open>The copies append and take\<close>

lemma queue_okE:
  assumes "queue_ok a s"
  obtains w r where "ring (queues s a) w r"
  using assms by (auto simp: queue_ok_def)

definition item_at :: "u32 \<Rightarrow> u32 \<Rightarrow> rtos \<Rightarrow> u8 list" where
  "item_at a p s = bytes_at (mem s) p (uxItemSize (queues s a))"

lemma copy_back_contents:
  assumes "queue_ok a s" and "uxMessagesWaiting (queues s a) < uxLength (queues s a)"
    and "prvCopyDataToQueue a p queueSEND_TO_BACK s = Some (b, s')"
  shows "queue_ok a s' \<and> queue_contents a s' = queue_contents a s @ [item_at a p s]"
proof -
  obtain w r where R: "ring (queues s a) w r" using assms(1) by (rule queue_okE)
  let ?x = "queues s a"
  let ?x' = "?x\<lparr>pcWriteTo := slot ?x (Suc w mod unat (uxLength ?x)), uxMessagesWaiting := uxMessagesWaiting ?x + 1\<rparr>"
  have s': "queues s' a = ?x'" "mem s' = memcpy (slot ?x w) p (uxItemSize ?x) (mem s)"
    using copy_back_eq [OF R, of p] assms(3) by (auto simp: upd_q_def)
  have R': "ring (queues s' a) (Suc w mod unat (uxLength ?x)) r" unfolding s' by (rule ring_back [OF R assms(2)])
  have "queue_contents a s' = items_from (mem s') ?x r (Suc (unat (uxMessagesWaiting ?x)))"
    using queue_contents_ring [OF R'] unat_inc [OF assms(2)] by (simp add: s')
  then show ?thesis
    using R' items_back [OF R assms(2)] queue_contents_ring [OF R] by (auto simp: s' queue_ok_def item_at_def)
qed

lemma copy_front_contents:
  assumes "queue_ok a s" and "uxMessagesWaiting (queues s a) < uxLength (queues s a)" and "pos \<noteq> queueSEND_TO_BACK"
    and "pos = queueOVERWRITE \<Longrightarrow> uxMessagesWaiting (queues s a) = 0"
    and "prvCopyDataToQueue a p pos s = Some (b, s')"
  shows "queue_ok a s' \<and> queue_contents a s' = item_at a p s # queue_contents a s"
proof -
  obtain w r where R: "ring (queues s a) w r" using assms(1) by (rule queue_okE)
  let ?x = "queues s a"
  let ?x' = "?x\<lparr>u_second := slot ?x (prev_slot ?x r), uxMessagesWaiting := uxMessagesWaiting ?x + 1\<rparr>"
  have s': "queues s' a = ?x'" "mem s' = memcpy (slot ?x r) p (uxItemSize ?x) (mem s)"
    using copy_front_eq [OF R assms(3), of p] assms(4,5) by (auto simp: upd_q_def split: if_splits)
  have R': "ring (queues s' a) w (prev_slot ?x r)" unfolding s' by (rule ring_front [OF R assms(2)])
  have "queue_contents a s' = items_from (mem s') ?x (prev_slot ?x r) (Suc (unat (uxMessagesWaiting ?x)))"
    using queue_contents_ring [OF R'] unat_inc [OF assms(2)] by (simp add: s')
  then show ?thesis
    using R' items_front [OF R assms(2)] queue_contents_ring [OF R] by (auto simp: s' queue_ok_def item_at_def)
qed

text \<open>In a queue of length 1 an overwrite replaces the item.\<close>

lemma copy_overwrite_contents:
  assumes "queue_ok a s" and "uxLength (queues s a) = 1" and "prvCopyDataToQueue a p queueOVERWRITE s = Some (b, s')"
  shows "queue_ok a s' \<and> queue_contents a s' = [item_at a p s]"
proof (cases "uxMessagesWaiting (queues s a) = 0")
  case True
  then have "queue_contents a s = []" by (simp add: queue_contents_def items_from_def)
  then show ?thesis using copy_front_contents [OF assms(1) _ _ _ assms(3)] assms(2) True by simp
next
  case False
  obtain w r where R: "ring (queues s a) w r" using assms(1) by (rule queue_okE)
  note D = ringD [OF R]
  let ?x = "queues s a"
  have "unat (uxMessagesWaiting ?x) \<le> 1" using D(6) assms(2) by (simp add: word_le_nat_alt)
  moreover have "0 < unat (uxMessagesWaiting ?x)" using False by (simp add: unat_gt_0)
  ultimately have "unat (uxMessagesWaiting ?x) = unat (1 :: u32)" by simp
  then have n: "uxMessagesWaiting ?x = 1" by (simp only: unat_eq_u32)
  have r: "r = 0" "w = 0" using D(2,3) assms(2) by simp_all
  have s': "queues s' a = ?x\<lparr>u_second := slot ?x 0\<rparr>" "mem s' = memcpy (slot ?x 0) p (uxItemSize ?x) (mem s)"
    using copy_front_eq [OF R, of queueOVERWRITE p] assms(2,3) n r by (auto simp: upd_q_def prev_slot_def)
  have R': "ring (queues s' a) 0 0" using R D(4) r by (simp add: s' ring_def)
  show ?thesis using queue_contents_ring [OF R'] R' n assms(2) by (auto simp: s' items_from_def queue_ok_def item_at_def)
qed

lemma take_contents:
  assumes "queue_ok a s" and "0 < uxMessagesWaiting (queues s a)" and "clear_of p (queues s a)"
    and "s' = upd_q a (uxMessagesWaiting_update (\<lambda>_. uxMessagesWaiting (queues s a) - 1)) (prvCopyDataFromQueue a p s)"
  shows "queue_ok a s' \<and> queue_contents a s = item_at a p s' # queue_contents a s'"
proof -
  obtain w r where R: "ring (queues s a) w r" using assms(1) by (rule queue_okE)
  let ?x = "queues s a" and ?r = "Suc r mod unat (uxLength (queues s a))"
  let ?x' = "?x\<lparr>u_second := slot ?x ?r, uxMessagesWaiting := uxMessagesWaiting ?x - 1\<rparr>"
  have s': "queues s' a = ?x'" "mem s' = memcpy p (slot ?x ?r) (uxItemSize ?x) (mem s)"
    using copy_from_eq [OF R, of p] assms(4) by (auto simp: upd_q_def)
  have R': "ring (queues s' a) w ?r" unfolding s' by (rule ring_from [OF R assms(2)])
  have "queue_contents a s' = items_from (mem s') ?x ?r (unat (uxMessagesWaiting ?x) - 1)"
    using queue_contents_ring [OF R'] unat_dec [OF assms(2)] by (simp add: s')
  also have "\<dots> = items_from (mem s) ?x ?r (unat (uxMessagesWaiting ?x) - 1)"
    unfolding s' by (rule items_clear [OF ringD(1) [OF R] assms(3)])
  finally show ?thesis
    using R' queue_contents_ring [OF R] items_from_first [of "unat (uxMessagesWaiting ?x)" "mem s" ?x r] assms(2)
    by (auto simp: s' queue_ok_def item_at_def word_less_nat_alt)
qed

section \<open>Sends and receives that do not wait\<close>

lemma plain_ok: "queue_ok a s \<Longrightarrow> plain_queue a s"
  by (auto simp: queue_ok_def ring_def storage_ok_def plain_queue_def)

lemma wait_loop_Nil [simp]:
  "wait_loop attempt wait [] l s = map_option (\<lambda>(r, l, s). (r, s)) (attempt l s)"
  by (auto simp: map_option_case split: option.split)

declare wait_loop.simps(1) [simp del]

text \<open>A send from a task, and one from an interrupt: what is done after the copy keeps the contents.\<close>

lemma send_copies:
  assumes "xQueueGenericSend_try a p pos l s = Some (Some True, l', s')" and "plain_queue a s"
  obtains b s1 where "prvCopyDataToQueue a p pos s = Some (b, s1)" and "same_data s1 s'"
    and "uxMessagesWaiting (queues s a) < uxLength (queues s a) \<or> pos = queueOVERWRITE"
proof -
  have room: "uxMessagesWaiting (queues s a) < uxLength (queues s a) \<or> pos = queueOVERWRITE"
    using assms(1) by (auto simp: xQueueGenericSend_try_def refuse_def split: if_splits)
  obtain s1 where c: "prvCopyDataToQueue a p pos s = Some (False, s1)" using copy_to_plain [OF assms(2)] by blast
  have "same_data s1 s'"
    using assms(1) room c wake_yield_data
    by (auto simp: xQueueGenericSend_try_def bind_eq_Some_conv split: if_splits)
  with c room show ?thesis by (intro that)
qed

lemma send_isr_copies:
  assumes "xQueueGenericSendFromISR a p pos s = Some ((True, w), s')" and "plain_queue a s"
  obtains b s1 where "prvCopyDataToQueue a p pos s = Some (b, s1)"
    and "same_data s1 s' \<or> s' = upd_q a (cTxLock_update (\<lambda>_. cTxLock (queues s a) + 1)) s1"
    and "uxMessagesWaiting (queues s a) < uxLength (queues s a) \<or> pos = queueOVERWRITE"
proof -
  have room: "uxMessagesWaiting (queues s a) < uxLength (queues s a) \<or> pos = queueOVERWRITE"
    using assms(1) by (auto simp: xQueueGenericSendFromISR_def split: if_splits)
  obtain s1 where c: "prvCopyDataToQueue a p pos s = Some (False, s1)" using copy_to_plain [OF assms(2)] by blast
  have "same_data s1 s' \<or> s' = upd_q a (cTxLock_update (\<lambda>_. cTxLock (queues s a) + 1)) s1"
    using assms(1) room c wake_first_data
    by (auto simp: xQueueGenericSendFromISR_def Let_def bind_eq_Some_conv split: if_splits)
  with c room show ?thesis by (intro that)
qed

lemma send_back_contents:
  assumes "queue_ok a s" and "xQueueGenericSend_try a p queueSEND_TO_BACK l s = Some (Some True, l', s')"
  shows "queue_ok a s' \<and> queue_contents a s' = queue_contents a s @ [item_at a p s]"
proof -
  obtain b s1 where c: "prvCopyDataToQueue a p queueSEND_TO_BACK s = Some (b, s1)" "same_data s1 s'"
    "uxMessagesWaiting (queues s a) < uxLength (queues s a)"
    using send_copies [OF assms(2) plain_ok [OF assms(1)]] by blast
  then show ?thesis using copy_back_contents [OF assms(1) c(3,1)] contents_same_data [OF c(2)] by simp
qed

lemma send_isr_contents:
  assumes "queue_ok a s" and "xQueueGenericSendFromISR a p queueSEND_TO_BACK s = Some ((True, w), s')"
  shows "queue_ok a s' \<and> queue_contents a s' = queue_contents a s @ [item_at a p s]"
proof -
  obtain b s1 where c: "prvCopyDataToQueue a p queueSEND_TO_BACK s = Some (b, s1)"
    "same_data s1 s' \<or> s' = upd_q a (cTxLock_update (\<lambda>_. cTxLock (queues s a) + 1)) s1"
    "uxMessagesWaiting (queues s a) < uxLength (queues s a)"
    using send_isr_copies [OF assms(2) plain_ok [OF assms(1)]] by blast
  then show ?thesis using copy_back_contents [OF assms(1) c(3,1)] contents_same_data by auto
qed

lemma receive_contents:
  assumes "queue_ok a s" and "clear_of p (queues s a)" and "xQueueReceive_try a p l s = Some (Some True, l', s')"
  shows "queue_ok a s' \<and> queue_contents a s = item_at a p s' # queue_contents a s'"
proof -
  have n: "0 < uxMessagesWaiting (queues s a)"
    using assms(3) by (auto simp: xQueueReceive_try_def refuse_def Let_def split: if_splits)
  let ?s = "upd_q a (uxMessagesWaiting_update (\<lambda>_. uxMessagesWaiting (queues s a) - 1)) (prvCopyDataFromQueue a p s)"
  have "same_data ?s s'"
    using assms(3) n wake_yield_data by (auto simp: xQueueReceive_try_def Let_def bind_eq_Some_conv)
  then have "queue_contents a s' = queue_contents a ?s" "queue_ok a s' = queue_ok a ?s" "item_at a p s' = item_at a p ?s"
    using contents_same_data same_dataD by (auto simp: item_at_def)
  then show ?thesis using take_contents [OF assms(1) n assms(2) refl] by simp
qed

lemma receive_isr_contents:
  assumes "queue_ok a s" and "clear_of p (queues s a)" and "xQueueReceiveFromISR a p s = Some ((True, w), s')"
  shows "queue_ok a s' \<and> queue_contents a s = item_at a p s' # queue_contents a s'"
proof -
  have n: "0 < uxMessagesWaiting (queues s a)"
    using assms(3) by (auto simp: xQueueReceiveFromISR_def Let_def split: if_splits)
  let ?s = "upd_q a (uxMessagesWaiting_update (\<lambda>_. uxMessagesWaiting (queues s a) - 1)) (prvCopyDataFromQueue a p s)"
  have "same_data ?s s' \<or> s' = upd_q a (cRxLock_update (\<lambda>_. cRxLock (queues s a) + 1)) ?s"
    using assms(3) n wake_first_data
    by (auto simp: xQueueReceiveFromISR_def Let_def bind_eq_Some_conv simp del: upd_q_upd_q split: if_splits)
  then have "queue_contents a s' = queue_contents a ?s" "queue_ok a s' = queue_ok a ?s" "item_at a p s' = item_at a p ?s"
    using contents_same_data [of ?s s' a] same_dataD [of ?s s'] contents_lock(2,4) [of a _ ?s]
    by (auto simp: item_at_def simp del: upd_q_upd_q)
  then show ?thesis using take_contents [OF assms(1) n assms(2) refl] by simp
qed

section \<open>The contract\<close>

text \<open>Who calls: a task (without waiting) or an interrupt handler, with its buffer.\<close>

datatype party = ByTask u32 | FromISR u32

fun queue_put :: "u32 \<Rightarrow> party \<Rightarrow> rtos \<Rightarrow> (u8 list list \<times> rtos) option" where
  "queue_put a (ByTask p) s =
     map_option (\<lambda>(r, s'). (if r = Some True then [item_at a p s] else [], s')) (xQueueGenericSend [] a p 0 queueSEND_TO_BACK s)"
| "queue_put a (FromISR p) s =
     map_option (\<lambda>(r, s'). (if fst r then [item_at a p s] else [], s')) (xQueueGenericSendFromISR a p queueSEND_TO_BACK s)"

fun queue_get :: "u32 \<Rightarrow> party \<Rightarrow> rtos \<Rightarrow> (u8 list list \<times> rtos) option" where
  "queue_get a (ByTask p) s =
     (if clear_of p (queues s a)
      then map_option (\<lambda>(r, s'). (if r = Some True then [item_at a p s'] else [], s')) (xQueueReceive [] a p 0 s) else None)"
| "queue_get a (FromISR p) s =
     (if clear_of p (queues s a)
      then map_option (\<lambda>(r, s'). (if fst r then [item_at a p s'] else [], s')) (xQueueReceiveFromISR a p s) else None)"

lemma queue_put_law:
  assumes "queue_ok a s" and "queue_put a who s = Some (xs, s')"
  shows "queue_ok a s' \<and> queue_contents a s' = queue_contents a s @ xs"
proof (cases who)
  case (ByTask p)
  obtain r l where t: "xQueueGenericSend_try a p queueSEND_TO_BACK (entry_locals 0) s = Some (r, l, s')"
    "xs = (if r = Some True then [item_at a p s] else [])"
    using assms(2) ByTask by (auto simp: xQueueGenericSend_def)
  show ?thesis
  proof (cases "r = Some True")
    case True
    then show ?thesis using send_back_contents [OF assms(1)] t by auto
  next
    case False
    then have "s' = s"
      using t(1) by (auto simp: xQueueGenericSend_try_def refuse_def bind_eq_Some_conv split: if_splits)
    then show ?thesis using False t(2) assms(1) by simp
  qed
next
  case (FromISR p)
  obtain r w where t: "xQueueGenericSendFromISR a p queueSEND_TO_BACK s = Some ((r, w), s')"
    "xs = (if r then [item_at a p s] else [])"
    using assms(2) FromISR by auto
  show ?thesis
  proof (cases r)
    case True
    then show ?thesis using send_isr_contents [OF assms(1)] t by auto
  next
    case False
    then have "s' = s" using t(1) by (auto simp: xQueueGenericSendFromISR_def Let_def bind_eq_Some_conv split: if_splits)
    then show ?thesis using False t(2) assms(1) by simp
  qed
qed

lemma queue_get_law:
  assumes "queue_ok a s" and "queue_get a who s = Some (ys, s')"
  shows "queue_ok a s' \<and> ys @ queue_contents a s' = queue_contents a s"
proof (cases who)
  case (ByTask p)
  obtain r l where t: "xQueueReceive_try a p (entry_locals 0) s = Some (r, l, s')" "clear_of p (queues s a)"
    "ys = (if r = Some True then [item_at a p s'] else [])"
    using assms(2) ByTask by (auto simp: xQueueReceive_def split: if_splits)
  show ?thesis
  proof (cases "r = Some True")
    case True
    then show ?thesis using receive_contents [OF assms(1)] t by auto
  next
    case False
    then have "s' = s"
      using t(1) by (auto simp: xQueueReceive_try_def refuse_def Let_def bind_eq_Some_conv split: if_splits)
    then show ?thesis using False t(3) assms(1) by simp
  qed
next
  case (FromISR p)
  obtain r w where t: "xQueueReceiveFromISR a p s = Some ((r, w), s')" "clear_of p (queues s a)"
    "ys = (if r then [item_at a p s'] else [])"
    using assms(2) FromISR by (auto split: if_splits)
  show ?thesis
  proof (cases r)
    case True
    then show ?thesis using receive_isr_contents [OF assms(1)] t by auto
  next
    case False
    then have "s' = s" using t(1) by (auto simp: xQueueReceiveFromISR_def Let_def bind_eq_Some_conv split: if_splits)
    then show ?thesis using False t(3) assms(1) by simp
  qed
qed

interpretation queue: fifo "queue_ok a" "queue_contents a" "queue_put a" "queue_get a" for a
  by unfold_locales (fact queue_put_law queue_get_law)+

end
