(* ===== verification/Queue_Wakeup.thy ===== *)
theory Queue_Wakeup
  imports Queue_Fifo
begin

text \<open>
  No wake-up is lost: a task that blocks on a queue while interrupts make an item (or room)
  available is ready again when its call has resumed the scheduler. The two sides of a queue
  (receivers with \<open>cTxLock\<close>, senders with \<open>cRxLock\<close>) satisfy one contract, and the argument is
  made once for both.
\<close>

section \<open>The contract of a side\<close>

definition bounded :: "xQUEUE \<Rightarrow> bool" where
  "bounded x \<longleftrightarrow> uxMessagesWaiting x \<le> uxLength x"

text \<open>
  \<open>side a\<close> is the list of the tasks that wait, \<open>lock\<close> the counter of what happened while the
  queue was locked, \<open>avail\<close> what they wait for; \<open>own\<close> and \<open>other\<close> are the halves of
  \<open>prvUnlockQueue\<close>.
\<close>

text \<open>Placing the current task on a list changes its own items only.\<close>

lemma place_fields:
  assumes "pxCurrentTCB k = Some c" and "ready k c" and "vTaskPlaceOnEventList l d k = Some k'"
  shows "container k' (EventItem c) = Some l" and "j \<noteq> EventItem c \<Longrightarrow> j \<noteq> StateItem c \<Longrightarrow> container k' j = container k j"
    and "uxSchedulerSuspended k' = uxSchedulerSuspended k" and "uxCurrentNumberOfTasks k' = uxCurrentNumberOfTasks k"
proof -
  let ?i = "k_insert l (EventItem c) k"
  have r: "pxCurrentTCB ?i = Some c" "ready ?i c" using assms(1,2) by (simp_all add: ready_def)
  have k': "k' = (if d = portMAX_DELAY then k_insert_end SuspendedTaskList (StateItem c) (k_leave c ?i)
      else k_delay c (xTickCount ?i + d) (k_leave c ?i))"
    using assms(1,3) add_current_eq [OF r, of d True] by (simp add: vTaskPlaceOnEventList_def)
  show "container k' (EventItem c) = Some l" "uxSchedulerSuspended k' = uxSchedulerSuspended k"
    "uxCurrentNumberOfTasks k' = uxCurrentNumberOfTasks k"
    by (simp_all add: k')
  show "container k' j = container k j" if "j \<noteq> EventItem c" "j \<noteq> StateItem c"
    using that by (simp add: k')
qed

text \<open>A pending task is ready when the scheduler is resumed.\<close>

lemma resume_pending:
  assumes "reach idle k" and "uxSchedulerSuspended k = 1" and "0 < uxCurrentNumberOfTasks k"
    and "container k (EventItem c) = Some PendingReadyList" and "xTaskResumeAll k = Some (b, k')"
  shows "ready (yield_unless b k') c"
proof -
  obtain T where "sinv idle T k" using reach_inv [OF assms(1)] by blast
  then have "sinv0 idle T k" by (rule sinvD)
  from resume_all_sinv0 [OF this] assms(2-5) have "ready k' c" by auto
  then show ?thesis by (simp add: yield_unless_def ready_def)
qed

locale waiting_side =
  fixes side :: "u32 \<Rightarrow> klist" and lock :: "xQUEUE \<Rightarrow> u8" and avail :: "xQUEUE \<Rightarrow> bool"
    and own :: "u32 \<Rightarrow> rtos \<Rightarrow> rtos option" and other :: "u32 \<Rightarrow> rtos \<Rightarrow> rtos option"
  assumes side_list: "event_list (side a)"
    and isr_law: "isr_exec i s = Some s' \<Longrightarrow> isr_ok s i \<Longrightarrow> bounded (queues s a) \<Longrightarrow> bounded (queues s' a) \<and>
      (lock (queues s' a) = lock (queues s a) \<and> (avail (queues s' a) \<longrightarrow> avail (queues s a))
       \<or> lock (queues s a) \<noteq> queueUNLOCKED \<and> lock (queues s' a) = lock (queues s a) + 1
       \<or> lock (queues s a) = queueUNLOCKED \<and> lock (queues s' a) = queueUNLOCKED \<and>
           (\<exists>s1 b s2. kern s1 = kern s \<and> wake_first (side a) s1 = Some (b, s2) \<and> kern s' = kern s2))"
    and own_law: "own a s = Some s' \<Longrightarrow> unlock_loop (nat (sint (lock (queues s a)))) (side a) (kern s) = Some (kern s')
      \<and> lock (queues s' a) = queueUNLOCKED \<and> (avail (queues s' a) \<longleftrightarrow> avail (queues s a)) \<and> bounded (queues s' a) = bounded (queues s a)"
    and other_law: "other a s = Some s' \<Longrightarrow> \<exists>n l. event_list l \<and> unlock_loop n l (kern s) = Some (kern s')
      \<and> lock (queues s' a) = lock (queues s a) \<and> (avail (queues s' a) \<longleftrightarrow> avail (queues s a)) \<and> bounded (queues s' a) = bounded (queues s a)"
    and lock_law: "lock (queues s a) = queueUNLOCKED \<Longrightarrow> lock (queues (prvLockQueue a s) a) = queueLOCKED_UNMODIFIED
      \<and> bounded (queues (prvLockQueue a s) a) = bounded (queues s a)"
begin

text \<open>Only \<open>c\<close> may be on the list, and if it is not there it is pending.\<close>

definition alone :: "u32 \<Rightarrow> task \<Rightarrow> kernel \<Rightarrow> bool" where
  "alone a c k \<longleftrightarrow> (\<forall>i. container k i = Some (side a) \<longrightarrow> i = EventItem c)
     \<and> container k (EventItem c) \<in> {Some (side a), Some PendingReadyList}"

definition nobody :: "u32 \<Rightarrow> kernel \<Rightarrow> bool" where
  "nobody a k \<longleftrightarrow> (\<forall>i. container k i \<noteq> Some (side a))"

lemma side_not_pending: "side a \<noteq> PendingReadyList"
  using side_list [of a] by (auto simp: event_list_def)

lemma still_side: "still k k' \<Longrightarrow> container k' i = Some (side a) \<Longrightarrow> container k i = Some (side a)"
  using side_not_pending [of a] unfolding still_def by (cases i) (metis option.inject)+

lemma still_alone: "still k k' \<Longrightarrow> alone a c k \<Longrightarrow> alone a c k'"
  using still_side [of k k' _ a] unfolding alone_def still_def by (metis insert_iff singletonD)

lemma still_nobody: "still k k' \<Longrightarrow> nobody a k \<Longrightarrow> nobody a k'"
  using still_side unfolding nobody_def by blast

text \<open>
  While the queue is locked everything that becomes available is counted (after the check
  that nothing is available, the count says whether something is); when it is unlocked,
  \<open>c\<close> is pending if anything is available.
\<close>

definition counted :: "bool \<Rightarrow> nat \<Rightarrow> u32 \<Rightarrow> rtos \<Rightarrow> bool" where
  "counted checked n a s \<longleftrightarrow> bounded (queues s a) \<and> 0 \<le> sint (lock (queues s a)) \<and> sint (lock (queues s a)) \<le> int n
     \<and> (checked \<longrightarrow> avail (queues s a) \<longrightarrow> 0 < sint (lock (queues s a)))"

definition served :: "u32 \<Rightarrow> task \<Rightarrow> rtos \<Rightarrow> bool" where
  "served a c s \<longleftrightarrow> bounded (queues s a) \<and> alone a c (kern s) \<and> lock (queues s a) = queueUNLOCKED
     \<and> (avail (queues s a) \<longrightarrow> container (kern s) (EventItem c) = Some PendingReadyList)"

lemma sint_inc: "0 \<le> sint w \<Longrightarrow> sint w < 127 \<Longrightarrow> sint (w + 1 :: u8) = sint w + 1"
  by (simp add: signed_take_bit_int_eq_self sint_word_ariths)

lemma counted_step:
  assumes "counted v n a s" and "n < 127" and "isr_exec i s = Some s'" and "isr_ok s i"
  shows "counted v (Suc n) a s'"
proof -
  have ne: "lock (queues s a) \<noteq> queueUNLOCKED" using assms(1) by (auto simp: counted_def queueUNLOCKED_def)
  have b: "bounded (queues s a)" using assms(1) by (simp add: counted_def)
  show ?thesis
    using isr_law [OF assms(3,4) b] assms(1,2) ne sint_inc [of "lock (queues s a)"]
    by (auto simp: counted_def)
qed

text \<open>The invariant of the windows: the scheduler is reachable and suspended.\<close>

definition suspended :: "task \<Rightarrow> rtos \<Rightarrow> bool" where
  "suspended idle s \<longleftrightarrow> reach idle (kern s) \<and> uxSchedulerSuspended (kern s) \<noteq> 0"

lemma suspended_step:
  assumes "suspended idle s" and "isr_exec i s = Some s'" and "isr_ok s i"
  shows "suspended idle s' \<and> still (kern s) (kern s') \<and> shape s s'"
  using isr_exec_good [of idle s i] assms by (auto simp: suspended_def isr_good_def still_def)

lemma counted_run:
  assumes "suspended idle s" and "counted v n a s" and "n + length is < 127" and "\<forall>i\<in>set is. isr_ok s i"
    and "isr_run is s = Some s'"
  shows "suspended idle s' \<and> still (kern s) (kern s') \<and> shape s s' \<and> counted v (n + length is) a s'"
  using assms
proof (induction "is" arbitrary: s n)
  case (Cons i "is")
  obtain s1 where 1: "isr_exec i s = Some s1" "isr_run is s1 = Some s'" using Cons.prems(5) by (auto simp: bind_eq_Some_conv)
  have ok: "isr_ok s i" using Cons.prems(4) by simp
  note S = suspended_step [OF Cons.prems(1) 1(1) ok]
  have c: "counted v (Suc n) a s1" by (rule counted_step [OF Cons.prems(2) _ 1(1) ok]) (use Cons.prems(3) in simp)
  have "\<forall>j\<in>set is. isr_ok s1 j" using Cons.prems(4) S isr_ok_shape by auto
  from Cons.IH [OF _ c _ this 1(2)] S Cons.prems(3) show ?case
    using still_trans shape_trans by (metis add_Suc_shift length_Cons)
qed simp

lemma unlocked_run:
  assumes "suspended idle s" and "bounded (queues s a)" and "lock (queues s a) = queueUNLOCKED"
    and "\<forall>i\<in>set is. isr_ok s i" and "isr_run is s = Some s'"
  shows "suspended idle s' \<and> still (kern s) (kern s') \<and> shape s s' \<and> bounded (queues s' a) \<and> lock (queues s' a) = queueUNLOCKED"
  using assms
proof (induction "is" arbitrary: s)
  case (Cons i "is")
  obtain s1 where 1: "isr_exec i s = Some s1" "isr_run is s1 = Some s'" using Cons.prems(5) by (auto simp: bind_eq_Some_conv)
  have ok: "isr_ok s i" using Cons.prems(4) by simp
  note S = suspended_step [OF Cons.prems(1) 1(1) ok]
  have b: "bounded (queues s1 a)" and u: "lock (queues s1 a) = queueUNLOCKED"
    using isr_law [OF 1(1) ok Cons.prems(2)] Cons.prems(3) by auto
  have "\<forall>j\<in>set is. isr_ok s1 j" using Cons.prems(4) S isr_ok_shape by auto
  from Cons.IH [OF _ b u this 1(2)] S show ?case using still_trans shape_trans by metis
qed simp

lemma wake_alone:
  assumes "suspended idle s" and "alone a c (kern s)" and "kern s1 = kern s" and "wake_first (side a) s1 = Some (b, s2)"
  shows "container (kern s2) (EventItem c) = Some PendingReadyList"
proof (cases "kitems (kern s) (side a) = []")
  case True
  obtain T where "sinv idle T (kern s)" using reach_inv assms(1) by (auto simp: suspended_def)
  then have "kinv T (kern s)" by (rule sinvD)
  then have "container (kern s) (EventItem c) \<noteq> Some (side a)" using True kinvD(12) by (metis empty_iff empty_set)
  then show ?thesis using True assms(2-4) by (auto simp: alone_def wake_first_def)
next
  case False
  obtain t where t: "woken t (kern s1) (kern s2)" "container (kern s1) (EventItem t) = Some (side a)"
    using wake_first_safe [of idle s1 "side a"] assms False side_list by (auto simp: suspended_def)
  then have "t = c" using assms(2,3) by (auto simp: alone_def)
  then show ?thesis using t(1) assms(1,3) by (simp add: woken_def suspended_def)
qed

lemma served_step:
  assumes "suspended idle s" and "served a c s" and "isr_exec i s = Some s'" and "isr_ok s i"
  shows "served a c s'"
proof -
  have st: "still (kern s) (kern s')" using suspended_step [OF assms(1,3,4)] by blast
  have al: "alone a c (kern s)" and b: "bounded (queues s a)" and u: "lock (queues s a) = queueUNLOCKED"
    using assms(2) by (simp_all add: served_def)
  have al': "alone a c (kern s')" by (rule still_alone [OF st al])
  consider "lock (queues s' a) = queueUNLOCKED" "avail (queues s' a) \<longrightarrow> avail (queues s a)"
    | s1 bb s2 where "kern s1 = kern s" "wake_first (side a) s1 = Some (bb, s2)" "kern s' = kern s2" "lock (queues s' a) = queueUNLOCKED"
    using isr_law [OF assms(3,4) b] u by auto
  then show ?thesis
  proof cases
    case 1
    then show ?thesis
      using isr_law [OF assms(3,4) b] al' assms(2) still_pending [OF st] by (auto simp: served_def)
  next
    case 2
    then show ?thesis
      using isr_law [OF assms(3,4) b] al' wake_alone [OF assms(1) al 2(1,2)] by (auto simp: served_def)
  qed
qed

lemma served_run:
  assumes "suspended idle s" and "served a c s" and "\<forall>i\<in>set is. isr_ok s i" and "isr_run is s = Some s'"
  shows "suspended idle s' \<and> still (kern s) (kern s') \<and> shape s s' \<and> served a c s'"
  using assms
proof (induction "is" arbitrary: s)
  case (Cons i "is")
  obtain s1 where 1: "isr_exec i s = Some s1" "isr_run is s1 = Some s'" using Cons.prems(4) by (auto simp: bind_eq_Some_conv)
  have ok: "isr_ok s i" using Cons.prems(3) by simp
  note S = suspended_step [OF Cons.prems(1) 1(1) ok] and V = served_step [OF Cons.prems(1,2) 1(1) ok]
  have "\<forall>j\<in>set is. isr_ok s1 j" using Cons.prems(3) S isr_ok_shape by auto
  from Cons.IH [OF _ V this 1(2)] S show ?case using still_trans shape_trans by metis
qed simp

text \<open>Unlocking this side serves what was counted; unlocking the other one keeps both invariants.\<close>

lemma own_serves:
  assumes "suspended idle s" and "counted True n a s" and "alone a c (kern s)" and "own a s = Some s'"
  shows "suspended idle s' \<and> still (kern s) (kern s') \<and> served a c s'"
proof -
  note O = own_law [OF assms(4)]
  let ?n = "nat (sint (lock (queues s a)))"
  obtain k where U: "unlock_loop ?n (side a) (kern s) = Some k" "reach idle k"
     "uxSchedulerSuspended (kern s) \<noteq> 0 \<longrightarrow> still (kern s) k
         \<and> (0 < ?n \<longrightarrow> kitems (kern s) (side a) \<noteq> [] \<longrightarrow> container k (hd (kitems (kern s) (side a))) = Some PendingReadyList)"
    using unlock_loop_safe [of idle "kern s" "side a" ?n] assms(1) side_list by (auto simp: suspended_def)
  then have k: "k = kern s'" using O by simp
  have st: "still (kern s) (kern s')" using U(3) assms(1) k by (simp add: suspended_def)
  have "container (kern s') (EventItem c) = Some PendingReadyList" if av: "avail (queues s' a)"
  proof (cases "container (kern s) (EventItem c) = Some PendingReadyList")
    case True
    then show ?thesis by (rule still_pending [OF st])
  next
    case False
    then have ct: "container (kern s) (EventItem c) = Some (side a)" using assms(3) by (auto simp: alone_def)
    obtain T where "sinv idle T (kern s)" using reach_inv assms(1) by (auto simp: suspended_def)
    then have K: "kinv T (kern s)" by (rule sinvD)
    have "kitems (kern s) (side a) \<noteq> []" using ct kinvD(12) [OF K] by (metis empty_iff empty_set)
    then have "hd (kitems (kern s) (side a)) \<in> set (kitems (kern s) (side a))" by simp
    then have "hd (kitems (kern s) (side a)) = EventItem c"
      using kinvD(12) [OF K] assms(3) by (auto simp: alone_def)
    moreover have "0 < ?n" using av O assms(2) by (simp add: counted_def)
    ultimately show ?thesis using U(3) k assms(1) \<open>kitems (kern s) (side a) \<noteq> []\<close> by (simp add: suspended_def)
  qed
  then show ?thesis
    using O U(2) k st still_alone [OF st assms(3)] assms(1,2) by (simp add: served_def suspended_def counted_def still_def)
qed

lemma other_keeps:
  assumes "suspended idle s" and "other a s = Some s'"
  shows "suspended idle s' \<and> still (kern s) (kern s') \<and> counted v n a s' = counted v n a s
    \<and> (served a c s \<longrightarrow> served a c s')"
proof -
  obtain n l where N: "event_list l" "unlock_loop n l (kern s) = Some (kern s')"
     "lock (queues s' a) = lock (queues s a)" "avail (queues s' a) \<longleftrightarrow> avail (queues s a)" "bounded (queues s' a) = bounded (queues s a)"
    using other_law [OF assms(2)] by blast
  then have R: "reach idle (kern s')" "still (kern s) (kern s')"
    using unlock_loop_safe [of idle "kern s" l n] assms(1) by (auto simp: suspended_def)
  then show ?thesis
    using N assms(1) still_alone [OF R(2)] still_pending [OF R(2)]
    by (auto simp: suspended_def counted_def served_def still_def)
qed

lemma lock_counts:
  assumes "can_block idle c (kern s)" and "uxSchedulerSuspended (kern s) = 0" and "nobody a (kern s)"
    and "bounded (queues s a)" and "lock (queues s a) = queueUNLOCKED" and "isrs_ok s isrs"
    and "length (isrs 2) + length (isrs 3) < 127"
    and run: "lock_and_check (interrupted isrs) a l s = Some (e, l', s')"
  shows "suspended idle s' \<and> still (vTaskSuspendAll (kern s)) (kern s') \<and> shape s s' \<and> nobody a (kern s')
    \<and> counted False (length (isrs 2) + length (isrs 3)) a s'"
proof -
  let ?s0 = "on_kern vTaskSuspendAll s"
  have r: "reach idle (vTaskSuspendAll (kern s))"
    using reach_call [of idle "kern s" SuspendAll] assms(1) by (simp add: kguard_defs can_block_def)
  have 0: "suspended idle ?s0" using r assms(2) by (simp add: suspended_def vTaskSuspendAll_def)
  have sh0: "shape s ?s0" by (simp add: shape_def)
  have ok: "\<forall>i\<in>set (isrs n). isr_ok t i" if "shape s t" for n t
    using assms(6) isrs_ok_shape [OF that, of isrs] by (simp add: isrs_ok_def)
  obtain s1 s2 where R: "isr_run (isrs 1) ?s0 = Some s1" "isr_run (isrs 2) (prvLockQueue a s1) = Some s2" "isr_run (isrs 3) s2 = Some s'"
    using run by (auto simp: lock_and_check_def bind_eq_Some_conv Let_def case_prod_beta)
  have 1: "suspended idle s1 \<and> still (kern ?s0) (kern s1) \<and> shape ?s0 s1 \<and> bounded (queues s1 a) \<and> lock (queues s1 a) = queueUNLOCKED"
    using unlocked_run [OF 0 _ _ ok [OF sh0] R(1)] assms(4,5) by simp
  let ?l = "prvLockQueue a s1"
  have L: "suspended idle ?l" "kern ?l = kern s1" "shape s1 ?l" using 1 by (simp_all add: suspended_def prvLockQueue_def shape_def)
  have shl: "shape s ?l" using 1 L(3) sh0 shape_trans by blast
  have cl: "counted False 0 a ?l" using 1 lock_law [of s1 a] by (simp add: counted_def queueLOCKED_UNMODIFIED_def)
  have 2: "suspended idle s2 \<and> still (kern ?l) (kern s2) \<and> shape ?l s2 \<and> counted False (0 + length (isrs 2)) a s2"
    using counted_run [OF L(1) cl _ ok [OF shl] R(2)] assms(7) by simp
  have sh2: "shape s s2" using 2 shl shape_trans by blast
  have c2: "counted False (length (isrs 2)) a s2" using 2 by simp
  have 3: "suspended idle s' \<and> still (kern s2) (kern s') \<and> shape s2 s' \<and> counted False (length (isrs 2) + length (isrs 3)) a s'"
    by (rule counted_run [OF _ c2 assms(7) ok [OF sh2] R(3)]) (use 2 in simp)
  have st: "still (vTaskSuspendAll (kern s)) (kern s')"
  proof -
    have "still (vTaskSuspendAll (kern s)) (kern s1)" using 1 by simp
    moreover have "still (kern s1) (kern s2)" using 2 L(2) by simp
    moreover have "still (kern s2) (kern s')" using 3 by blast
    ultimately show ?thesis using still_trans by blast
  qed
  have "nobody a (vTaskSuspendAll (kern s))" using assms(3) by (simp add: nobody_def vTaskSuspendAll_def)
  then have "nobody a (kern s')" by (rule still_nobody [OF st])
  moreover have "shape s s'" using 3 sh2 shape_trans by blast
  ultimately show ?thesis using 3 st by blast
qed

text \<open>From the call of \<open>prvUnlockQueue\<close> on.\<close>

lemma unlocked_is_woken:
  assumes S2: "suspended idle s2" "uxSchedulerSuspended (kern s2) = 1" "0 < uxCurrentNumberOfTasks (kern s2)"
    and A2: "alone a c (kern s2)" and C2: "counted True n a s2" and ok2: "isrs_ok s2 isrs" and room: "n + length (isrs 5) < 127"
    and order: "(unlock_tx a, unlock_rx a) \<in> {(own a, other a), (other a, own a)}"
    and run: "do { s \<leftarrow> prvUnlockQueue (isr_run (isrs 5)) a s2; s \<leftarrow> isr_run (isrs 6) s;
      (already, k) \<leftarrow> xTaskResumeAll (kern s); Some (s\<lparr>kern := yield_unless already k\<rparr>) } = Some s3"
    and av: "avail (queues s3 a)"
  shows "ready (kern s3) c"
proof -
  obtain t1 t2 t3 t4 b k' where U: "unlock_tx a s2 = Some t1" "isr_run (isrs 5) t1 = Some t2" "unlock_rx a t2 = Some t3"
    "isr_run (isrs 6) t3 = Some t4" "xTaskResumeAll (kern t4) = Some (b, k')" "s3 = t4\<lparr>kern := yield_unless b k'\<rparr>"
    using run by (auto simp: prvUnlockQueue_def bind_eq_Some_conv)
  have sh: "isrs_ok t isrs" if "shape s2 t" for t using isrs_ok_shape [OF that] ok2 by simp
  have shu: "shape t u" if "unlock_tx a t = Some u \<or> unlock_rx a t = Some u" for t u
    using that by (auto simp: unlock_tx_def unlock_rx_def shape_def bind_eq_Some_conv)
  have w5: "\<forall>i\<in>set (isrs 5). isr_ok t1 i" using sh [OF shu] U(1) by (simp add: isrs_ok_def)
  have "suspended idle t3 \<and> still (kern s2) (kern t3) \<and> served a c t3 \<and> shape s2 t3"
  proof (cases "unlock_tx a = own a \<and> unlock_rx a = other a")
    case True
    have 1: "suspended idle t1 \<and> still (kern s2) (kern t1) \<and> served a c t1"
      using own_serves [OF S2(1) C2 A2] U(1) True by simp
    have 2: "suspended idle t2 \<and> still (kern t1) (kern t2) \<and> shape t1 t2 \<and> served a c t2"
      using served_run [OF _ _ w5 U(2)] 1 by blast
    have 3: "suspended idle t3 \<and> still (kern t2) (kern t3) \<and> served a c t3"
      using other_keeps [of idle t2 a t3] 2 U(3) True by simp
    have "shape s2 t3" using shu [of s2 t1] shu [of t2 t3] 2 U(1,3) shape_trans by blast
    with 1 2 3 show ?thesis using still_trans by blast
  next
    case False
    then have o: "unlock_tx a = other a" "unlock_rx a = own a" using order by auto
    have 1: "suspended idle t1 \<and> still (kern s2) (kern t1) \<and> counted True n a t1"
      using other_keeps [of idle s2 a t1] S2(1) C2 U(1) o by simp
    have 2: "suspended idle t2 \<and> still (kern t1) (kern t2) \<and> shape t1 t2 \<and> counted True (n + length (isrs 5)) a t2"
      using counted_run [OF _ _ room w5 U(2)] 1 by blast
    have st: "still (kern s2) (kern t2)" using 1 2 still_trans by blast
    have 3: "suspended idle t3 \<and> still (kern t2) (kern t3) \<and> served a c t3"
      using own_serves [of idle t2 _ a c t3] 2 still_alone [OF st A2] U(3) o by auto
    have "shape s2 t3" using shu [of s2 t1] shu [of t2 t3] 2 U(1,3) shape_trans by blast
    with st 3 show ?thesis using still_trans by blast
  qed
  note T3 = this
  have w6: "\<forall>i\<in>set (isrs 6). isr_ok t3 i" using sh [of t3] T3 by (simp add: isrs_ok_def)
  have T4: "suspended idle t4 \<and> still (kern t3) (kern t4) \<and> served a c t4"
    using served_run [OF _ _ w6 U(4)] T3 by blast
  have st: "still (kern s2) (kern t4)" using T3 T4 still_trans by blast
  have "container (kern t4) (EventItem c) = Some PendingReadyList"
    using T4 av U(6) by (simp add: served_def)
  moreover have "uxSchedulerSuspended (kern t4) = 1" "0 < uxCurrentNumberOfTasks (kern t4)"
    using st S2(2,3) by (simp_all add: still_def)
  ultimately show ?thesis
    using resume_pending [of idle "kern t4" c b k'] T4 U(5,6) by (simp add: suspended_def)
qed

lemma placed_is_woken:
  assumes "suspended idle s" and "uxSchedulerSuspended (kern s) = 1" and "0 < uxCurrentNumberOfTasks (kern s)"
    and "pxCurrentTCB (kern s) = Some c" and "ready (kern s) c" and "c \<noteq> idle"
    and "container (kern s) (EventItem c) = None" and "nobody a (kern s)" and "0 < d"
    and "counted True n a s" and "isrs_ok s isrs" and "n + length (isrs 8) + length (isrs 5) < 127"
    and order: "(unlock_tx a, unlock_rx a) \<in> {(own a, other a), (other a, own a)}"
    and run: "place (side a) d s = Some s2" "unlock_and_resume (interrupted isrs) True a s2 = Some s3"
    and av: "avail (queues s3 a)"
  shows "ready (kern s3) c"
proof -
  have ex: "executing idle (kern s)" using assms(4-6) by (auto simp: executing_def)
  have r: "reach idle (kern s)" using assms(1) by (simp add: suspended_def)
  have s1: "uxSchedulerSuspended (kern s) \<noteq> 0" using assms(2) by simp
  have P: "reach idle (kern s2)" and D: "same_data s s2"
    using place_good [OF r ex assms(4,7,9) side_list [of a] s1] run(1) by auto
  obtain k where k: "vTaskPlaceOnEventList (side a) d (kern s) = Some k" "kern s2 = k"
    using run(1) by (auto simp: place_def)
  note F = place_fields [OF assms(4,5) k(1)]
  have S2: "suspended idle s2" "uxSchedulerSuspended (kern s2) = 1" "0 < uxCurrentNumberOfTasks (kern s2)"
    using P F(3,4) k(2) assms(2,3) by (simp_all add: suspended_def)
  have A2: "alone a c (kern s2)"
  proof -
    have "i = EventItem c" if "container (kern s2) i = Some (side a)" for i
    proof (rule ccontr)
      assume i: "i \<noteq> EventItem c"
      show False
      proof (cases "i = StateItem c")
        case True
        obtain T where "sinv idle T (kern s2)" using reach_inv [OF P] by blast
        then have "kinv T (kern s2)" by (rule sinvD)
        from kinvD(5) [OF this] that True event_list_admits [OF side_list] show False by blast
      next
        case False
        then show False using F(2) [OF i False] that assms(8) k(2) by (simp add: nobody_def)
      qed
    qed
    then have "\<forall>i. container (kern s2) i = Some (side a) \<longrightarrow> i = EventItem c" by blast
    moreover have "container (kern s2) (EventItem c) = Some (side a)" using F(1) unfolding k(2) .
    ultimately show ?thesis unfolding alone_def by blast
  qed
  have C2: "counted True n a s2" using assms(10) same_dataD [OF D] by (simp add: counted_def)
  have ok2: "isrs_ok s2 isrs" using isrs_ok_shape assms(11) same_dataD [OF D] by blast
  obtain t0 where U0: "isr_run (isrs 8) s2 = Some t0" "do { s \<leftarrow> prvUnlockQueue (isr_run (isrs 5)) a t0; s \<leftarrow> isr_run (isrs 6) s;
      (already, k) \<leftarrow> xTaskResumeAll (kern s); Some (s\<lparr>kern := yield_unless already k\<rparr>) } = Some s3"
    using run(2) by (auto simp: unlock_and_resume_def bind_eq_Some_conv)
  have T0: "suspended idle t0 \<and> still (kern s2) (kern t0) \<and> shape s2 t0 \<and> counted True (n + length (isrs 8)) a t0"
    by (rule counted_run [OF S2(1) C2 _ _ U0(1)]) (use assms(12) ok2 in \<open>simp_all add: isrs_ok_def\<close>)
  show ?thesis
    by (rule unlocked_is_woken [OF _ _ _ _ _ _ assms(12) order U0(2) av])
      (use T0 S2 A2 still_alone [of "kern s2" "kern t0" a c] isrs_ok_shape [of s2 t0 isrs] ok2 in \<open>auto simp: still_def\<close>)
qed
text \<open>
  From the check that found nothing available to the end of the call, window 4 included.
\<close>

lemma blocked_is_woken:
  assumes "can_block idle c (kern s)" and "uxSchedulerSuspended (kern s) = 0" and "0 < uxCurrentNumberOfTasks (kern s)"
    and "isrs_ok s isrs"
    and "suspended idle t" and "still (vTaskSuspendAll (kern s)) (kern t)" and "shape s t" and "nobody a (kern t)"
    and "counted False n a t" and "\<not> avail (queues t a)" and "n + length (isrs 4) + length (isrs 8) + length (isrs 5) < 127" and "0 < d"
    and order: "(unlock_tx a, unlock_rx a) \<in> {(own a, other a), (other a, own a)}"
    and run: "isr_run (isrs 4) t = Some t1" "place (side a) d t1 = Some t2"
      "unlock_and_resume (interrupted isrs) True a t2 = Some t3"
    and av: "avail (queues t3 a)"
  shows "ready (kern t3) c"
proof -
  have c0: "counted True n a t" using assms(9,10) by (simp add: counted_def)
  have ok: "\<forall>i\<in>set (isrs 4). isr_ok t i" using assms(4) isrs_ok_shape [OF assms(7), of isrs] by (simp add: isrs_ok_def)
  have 1: "suspended idle t1 \<and> still (kern t) (kern t1) \<and> shape t t1 \<and> counted True (n + length (isrs 4)) a t1"
    by (rule counted_run [OF assms(5) c0 _ ok run(1)]) (use assms(11) in simp)
  have st: "still (vTaskSuspendAll (kern s)) (kern t1)" using 1 assms(6) still_trans by blast
  have sh: "shape s t1" using 1 assms(7) shape_trans by blast
  have k: "uxSchedulerSuspended (kern t1) = 1" "0 < uxCurrentNumberOfTasks (kern t1)" "pxCurrentTCB (kern t1) = Some c"
    "ready (kern t1) c" "container (kern t1) (EventItem c) = None" "c \<noteq> idle"
    using st still_ready [OF st] still_unlisted [OF st] assms(1-3)
    by (auto simp: still_def can_block_def vTaskSuspendAll_def ready_def)
  have nb: "nobody a (kern t1)" using still_nobody 1 assms(8) by blast
  have ok1: "isrs_ok t1 isrs" using isrs_ok_shape [OF sh, of isrs] assms(4) by simp
  show ?thesis
    by (rule placed_is_woken [OF _ k(1-4,6,5) nb assms(12) _ ok1 _ order run(2,3) av, of "n + length (isrs 4)"])
      (use 1 assms(11) in simp_all)
qed

end

section \<open>What an interrupt does to a queue\<close>

text \<open>
  Nothing, or an item more (or overwritten), or an item less; an item more is counted by
  \<open>cTxLock\<close> if the queue is locked and wakes a receiver if not, and likewise for an item less.
\<close>

definition wakes :: "klist \<Rightarrow> kernel \<Rightarrow> kernel \<Rightarrow> bool" where
  "wakes l k k' \<longleftrightarrow> (\<exists>s1 b s2. kern s1 = k \<and> wake_first l s1 = Some (b, s2) \<and> k' = kern s2)"

definition item_more :: "u32 \<Rightarrow> rtos \<Rightarrow> rtos \<Rightarrow> bool" where
  "item_more a s s' \<longleftrightarrow> (let x = queues s a; x' = queues s' a in
     uxMessagesWaiting x' \<in> {uxMessagesWaiting x, uxMessagesWaiting x + 1}
     \<and> (uxMessagesWaiting x' = uxMessagesWaiting x \<longrightarrow> 0 < uxMessagesWaiting x)
     \<and> (uxMessagesWaiting x' = uxMessagesWaiting x + 1 \<longrightarrow> uxMessagesWaiting x < uxLength x)
     \<and> cRxLock x' = cRxLock x
     \<and> (if cTxLock x = queueUNLOCKED then cTxLock x' = queueUNLOCKED \<and> wakes (to_receive a) (kern s) (kern s')
        else cTxLock x' = cTxLock x + 1))"

definition item_less :: "u32 \<Rightarrow> rtos \<Rightarrow> rtos \<Rightarrow> bool" where
  "item_less a s s' \<longleftrightarrow> (let x = queues s a; x' = queues s' a in
     0 < uxMessagesWaiting x \<and> uxMessagesWaiting x' = uxMessagesWaiting x - 1 \<and> cTxLock x' = cTxLock x
     \<and> (if cRxLock x = queueUNLOCKED then cRxLock x' = queueUNLOCKED \<and> wakes (to_send a) (kern s) (kern s')
        else cRxLock x' = cRxLock x + 1))"

definition no_item :: "u32 \<Rightarrow> rtos \<Rightarrow> rtos \<Rightarrow> bool" where
  "no_item a s s' \<longleftrightarrow> (let x = queues s a; x' = queues s' a in
     uxMessagesWaiting x' = uxMessagesWaiting x \<and> cTxLock x' = cTxLock x \<and> cRxLock x' = cRxLock x)"

lemma wakesI: "wake_first l s1 = Some (b, s2) \<Longrightarrow> kern s1 = k \<Longrightarrow> wakes l k (kern s2)"
  by (auto simp: wakes_def)

lemma wake_first_queues: "wake_first l s = Some (b, s') \<Longrightarrow> queues s' = queues s"
  using wake_first_data same_dataD by blast

lemma send_isr_effect:
  assumes "xQueueGenericSendFromISR b p pos s = Some (r, s')" and "isr_ok s (IsrSend b p pos)" and "bounded (queues s a)"
  shows "no_item a s s' \<or> item_more a s s'"
proof (cases "b = a \<and> (uxMessagesWaiting (queues s a) < uxLength (queues s a) \<or> pos = queueOVERWRITE)")
  case True
  obtain s1 where c: "prvCopyDataToQueue b p pos s = Some (False, s1)" "copy_frame b s s1"
    "uxMessagesWaiting (queues s1 b) =
        (if uxItemSize (queues s b) \<noteq> 0 \<and> pos = queueOVERWRITE \<and> 0 < uxMessagesWaiting (queues s b)
         then uxMessagesWaiting (queues s b) else uxMessagesWaiting (queues s b) + 1)"
    using copy_to_plain [of b s p pos] assms(2) by (auto simp: isr_ok_def)
  note F = copy_frameD [OF c(2)]
  have n: "uxMessagesWaiting (queues s1 a) \<in> {uxMessagesWaiting (queues s a), uxMessagesWaiting (queues s a) + 1}"
    "uxMessagesWaiting (queues s1 a) = uxMessagesWaiting (queues s a) \<longrightarrow> 0 < uxMessagesWaiting (queues s a)"
    "uxMessagesWaiting (queues s1 a) = uxMessagesWaiting (queues s a) + 1 \<longrightarrow> uxMessagesWaiting (queues s a) < uxLength (queues s a)"
    using c(3) True assms(2,3) by (auto simp: isr_ok_def word_gt_0 bounded_def)
  show ?thesis
  proof (cases "cTxLock (queues s a) = queueUNLOCKED")
    case u: True
    obtain w where w: "wake_first (to_receive a) s1 = Some (w, s')"
      using assms(1) True u c(1) by (auto simp: xQueueGenericSendFromISR_def bind_eq_Some_conv)
    have "item_more a s s'"
      using n u F(1,4,5) wakesI [OF w F(1)] wake_first_queues [OF w] True by (simp add: item_more_def Let_def)
    then show ?thesis ..
  next
    case l: False
    then have "s' = upd_q a (cTxLock_update (\<lambda>_. cTxLock (queues s a) + 1)) s1"
      using assms(1) True c(1) by (auto simp: xQueueGenericSendFromISR_def)
    then have "item_more a s s'" using n l F(5) True by (simp add: item_more_def Let_def)
    then show ?thesis ..
  qed
next
  case False
  obtain s1 where c: "prvCopyDataToQueue b p pos s = Some (False, s1)" "copy_frame b s s1"
    using copy_to_plain [of b s p pos] assms(2) by (auto simp: isr_ok_def)
  have "queues s' a = queues s a"
    using False assms(1) c(1) copy_frameD(3) [OF c(2), of a] wake_first_queues
    by (cases "b = a") (auto simp: xQueueGenericSendFromISR_def Let_def bind_eq_Some_conv split: if_splits)
  then show ?thesis by (simp add: no_item_def)
qed

lemma give_isr_effect:
  assumes "xQueueGiveFromISR b s = Some (r, s')"
  shows "no_item a s s' \<or> item_more a s s'"
proof (cases "b = a \<and> uxMessagesWaiting (queues s a) < uxLength (queues s a)")
  case True
  let ?s = "upd_q a (uxMessagesWaiting_update (\<lambda>_. uxMessagesWaiting (queues s a) + 1)) s"
  show ?thesis
  proof (cases "cTxLock (queues s a) = queueUNLOCKED")
    case u: True
    obtain w where w: "wake_first (to_receive a) ?s = Some (w, s')"
      using assms True u by (auto simp: xQueueGiveFromISR_def Let_def bind_eq_Some_conv)
    have "item_more a s s'"
      using u True wakesI [OF w, of "kern s"] wake_first_queues [OF w] by (simp add: item_more_def Let_def)
    then show ?thesis ..
  next
    case False
    then have "s' = upd_q a (cTxLock_update (\<lambda>_. cTxLock (queues s a) + 1)) ?s"
      using assms True by (auto simp: xQueueGiveFromISR_def Let_def)
    then have "item_more a s s'" using False True by (simp add: item_more_def Let_def)
    then show ?thesis ..
  qed
next
  case False
  then have "queues s' a = queues s a"
    using assms wake_first_queues by (auto simp: xQueueGiveFromISR_def Let_def bind_eq_Some_conv split: if_splits)
  then show ?thesis by (simp add: no_item_def)
qed

lemma receive_isr_effect:
  assumes "xQueueReceiveFromISR b p s = Some (r, s')"
  shows "no_item a s s' \<or> item_less a s s'"
proof (cases "b = a \<and> 0 < uxMessagesWaiting (queues s a)")
  case True
  let ?c = "prvCopyDataFromQueue a p s"
  let ?s = "upd_q a (uxMessagesWaiting_update (\<lambda>_. uxMessagesWaiting (queues s a) - 1)) ?c"
  have F: "copy_frame a s ?c" using copy_from_plain by blast
  note F = copy_frameD [OF F]
  show ?thesis
  proof (cases "cRxLock (queues s a) = queueUNLOCKED")
    case u: True
    obtain w where w: "wake_first (to_send a) ?s = Some (w, s')"
      using assms True u by (auto simp: xQueueReceiveFromISR_def Let_def bind_eq_Some_conv)
    have "item_less a s s'"
      using u True wakesI [OF w, of "kern s"] wake_first_queues [OF w] F(1,4,5) by (simp add: item_less_def Let_def)
    then show ?thesis ..
  next
    case False
    then have "s' = upd_q a (cRxLock_update (\<lambda>_. cRxLock (queues s a) + 1)) ?s"
      using assms True by (auto simp: xQueueReceiveFromISR_def Let_def)
    then have "item_less a s s'" using False True F(4,5) by (simp add: item_less_def Let_def)
    then show ?thesis ..
  qed
next
  case False
  have "copy_frame b s (prvCopyDataFromQueue b p s)" using copy_from_plain by blast
  then have "queues s' a = queues s a"
    using False assms wake_first_queues copy_frameD(3) [of b s "prvCopyDataFromQueue b p s" a]
    by (auto simp: xQueueReceiveFromISR_def Let_def bind_eq_Some_conv split: if_splits)
  then show ?thesis by (simp add: no_item_def)
qed

lemma isr_effect:
  assumes "isr_exec i s = Some s'" and "isr_ok s i" and "bounded (queues s a)"
  shows "no_item a s s' \<or> item_more a s s' \<or> item_less a s s'"
proof (cases i)
  case (IsrSend b p pos)
  then obtain r where "xQueueGenericSendFromISR b p pos s = Some (r, s')" using assms(1) by auto
  from send_isr_effect [OF this _ assms(3)] show ?thesis using assms(2) IsrSend by blast
next
  case (IsrGive b)
  then obtain r where "xQueueGiveFromISR b s = Some (r, s')" using assms(1) by auto
  from give_isr_effect [OF this] show ?thesis by blast
next
  case (IsrReceive b p)
  then obtain r where "xQueueReceiveFromISR b p s = Some (r, s')" using assms(1) by auto
  from receive_isr_effect [OF this] show ?thesis by blast
next
  case (IsrPeek b p)
  have "copy_frame b s (prvCopyDataFromQueue b p s)" "uxMessagesWaiting (queues (prvCopyDataFromQueue b p s) b) = uxMessagesWaiting (queues s b)"
    using copy_from_plain by blast+
  then have "no_item a s s'"
    using IsrPeek assms(1) copy_frameD(3-5) [of b s "prvCopyDataFromQueue b p s"]
    by (cases "a = b") (auto simp: xQueuePeekFromISR_def no_item_def Let_def)
  then show ?thesis ..
qed (use assms in \<open>auto simp: no_item_def\<close>)

lemma isr_length: "isr_exec i s = Some s' \<Longrightarrow> reach idle (kern s) \<Longrightarrow> isr_ok s i \<Longrightarrow> uxLength (queues s' a) = uxLength (queues s a)"
  using isr_exec_good [of idle s i] by (auto simp: isr_good_def shape_def)

section \<open>Both sides provide the contract\<close>

lemma word_inc_le: "n < (m :: u32) \<Longrightarrow> n + 1 \<le> m" by (rule inc_le)

lemma word_dec: "0 < (n :: u32) \<Longrightarrow> n - 1 < n"
  using unat_dec [of n] by (simp add: word_less_nat_alt)

lemma effect_bounded:
  assumes "no_item a s s' \<or> item_more a s s' \<or> item_less a s s'" and "bounded (queues s a)"
    and "uxLength (queues s' a) = uxLength (queues s a)"
  shows "bounded (queues s' a)"
  using assms inc_le [of "uxMessagesWaiting (queues s a)" "uxLength (queues s a)"] word_dec [of "uxMessagesWaiting (queues s a)"]
  by (auto simp: bounded_def no_item_def item_more_def item_less_def Let_def)

lemma send_isr_shape: "isr_ok s (IsrSend b p pos) \<Longrightarrow> xQueueGenericSendFromISR b p pos s = Some (r, s') \<Longrightarrow> shape s s'"
  using copy_to_plain [of b s p pos] wake_first_data same_dataD copy_frameD(2)
  by (fastforce simp: xQueueGenericSendFromISR_def Let_def bind_eq_Some_conv isr_ok_def
      split: if_splits intro: shape_trans shape_upd)

lemma isr_same_length:
  assumes "isr_exec i s = Some s'" and "isr_ok s i"
  shows "uxLength (queues s' a) = uxLength (queues s a)"
proof (cases i)
  case (IsrSend b p pos)
  then obtain r where "xQueueGenericSendFromISR b p pos s = Some (r, s')" using assms(1) by auto
  from send_isr_shape [OF _ this] show ?thesis using assms(2) IsrSend by (simp add: shape_def)
next
  case (IsrGive b)
  then show ?thesis using assms(1) wake_first_queues
    by (auto simp: xQueueGiveFromISR_def Let_def bind_eq_Some_conv split: if_splits)
next
  case (IsrReceive b p)
  have "copy_frame b s (prvCopyDataFromQueue b p s)" using copy_from_plain by blast
  then have "uxLength (queues (prvCopyDataFromQueue b p s) c) = uxLength (queues s c)" for c
    using copy_frameD(2) by (simp add: shape_def)
  then show ?thesis using IsrReceive assms(1) wake_first_queues
    by (auto simp: xQueueReceiveFromISR_def Let_def bind_eq_Some_conv split: if_splits)
next
  case (IsrPeek b p)
  have "copy_frame b s (prvCopyDataFromQueue b p s)" using copy_from_plain by blast
  then have "uxLength (queues (prvCopyDataFromQueue b p s) c) = uxLength (queues s c)" for c
    using copy_frameD(2) by (simp add: shape_def)
  then show ?thesis using IsrPeek assms(1) by (auto simp: xQueuePeekFromISR_def Let_def split: if_splits)
qed (use assms in auto)

definition has_item :: "xQUEUE \<Rightarrow> bool" where
  "has_item x \<longleftrightarrow> 0 < uxMessagesWaiting x"

definition has_room :: "xQUEUE \<Rightarrow> bool" where
  "has_room x \<longleftrightarrow> uxMessagesWaiting x < uxLength x"

lemma unlock_tx_law:
  assumes "unlock_tx a s = Some s'"
  shows "unlock_loop (nat (sint (cTxLock (queues s a)))) (to_receive a) (kern s) = Some (kern s')
    \<and> queues s' = (queues s)(a := (queues s a)\<lparr>cTxLock := queueUNLOCKED\<rparr>)"
  using assms by (auto simp: unlock_tx_def bind_eq_Some_conv upd_q_def)

lemma unlock_rx_law:
  assumes "unlock_rx a s = Some s'"
  shows "unlock_loop (nat (sint (cRxLock (queues s a)))) (to_send a) (kern s) = Some (kern s')
    \<and> queues s' = (queues s)(a := (queues s a)\<lparr>cRxLock := queueUNLOCKED\<rparr>)"
  using assms by (auto simp: unlock_rx_def bind_eq_Some_conv upd_q_def)

interpretation receivers: waiting_side to_receive cTxLock has_item unlock_tx unlock_rx
proof
  fix i s s' a
  assume A: "isr_exec i s = Some s'" "isr_ok s i" "bounded (queues s a)"
  note E = isr_effect [OF A]
  have "cTxLock (queues s' a) = cTxLock (queues s a) \<and> (has_item (queues s' a) \<longrightarrow> has_item (queues s a))
       \<or> cTxLock (queues s a) \<noteq> queueUNLOCKED \<and> cTxLock (queues s' a) = cTxLock (queues s a) + 1
       \<or> cTxLock (queues s a) = queueUNLOCKED \<and> cTxLock (queues s' a) = queueUNLOCKED \<and> wakes (to_receive a) (kern s) (kern s')"
    using E by (auto simp: no_item_def item_more_def item_less_def has_item_def Let_def split: if_splits)
  then show "bounded (queues s' a) \<and> (cTxLock (queues s' a) = cTxLock (queues s a) \<and> (has_item (queues s' a) \<longrightarrow> has_item (queues s a))
       \<or> cTxLock (queues s a) \<noteq> queueUNLOCKED \<and> cTxLock (queues s' a) = cTxLock (queues s a) + 1
       \<or> cTxLock (queues s a) = queueUNLOCKED \<and> cTxLock (queues s' a) = queueUNLOCKED \<and>
           (\<exists>s1 b s2. kern s1 = kern s \<and> wake_first (to_receive a) s1 = Some (b, s2) \<and> kern s' = kern s2))"
    using effect_bounded [OF E A(3) isr_same_length [OF A(1,2)]] unfolding wakes_def by blast
next
  show "unlock_rx a s = Some s' \<Longrightarrow> \<exists>n l. event_list l \<and> unlock_loop n l (kern s) = Some (kern s')
      \<and> cTxLock (queues s' a) = cTxLock (queues s a) \<and> (has_item (queues s' a) \<longleftrightarrow> has_item (queues s a))
      \<and> bounded (queues s' a) = bounded (queues s a)" for a s s'
    using unlock_rx_law [of a s s'] event_list_queue(1) by (fastforce simp: has_item_def bounded_def)
qed (use unlock_tx_law in \<open>auto simp: has_item_def bounded_def prvLockQueue_def\<close>)

interpretation senders: waiting_side to_send cRxLock has_room unlock_rx unlock_tx
proof
  fix i s s' a
  assume A: "isr_exec i s = Some s'" "isr_ok s i" "bounded (queues s a)"
  note E = isr_effect [OF A]
  have more: "uxMessagesWaiting (queues s a) < uxMessagesWaiting (queues s a) + 1 \<or> \<not> uxMessagesWaiting (queues s a) < uxLength (queues s a)"
    using unat_inc [of "uxMessagesWaiting (queues s a)" "uxLength (queues s a)"] by (auto simp: word_less_nat_alt)
  have "cRxLock (queues s' a) = cRxLock (queues s a) \<and> (has_room (queues s' a) \<longrightarrow> has_room (queues s a))
       \<or> cRxLock (queues s a) \<noteq> queueUNLOCKED \<and> cRxLock (queues s' a) = cRxLock (queues s a) + 1
       \<or> cRxLock (queues s a) = queueUNLOCKED \<and> cRxLock (queues s' a) = queueUNLOCKED \<and> wakes (to_send a) (kern s) (kern s')"
    using E more isr_same_length [OF A(1,2), of a]
    by (auto simp: no_item_def item_more_def item_less_def has_room_def Let_def split: if_splits)
  then show "bounded (queues s' a) \<and> (cRxLock (queues s' a) = cRxLock (queues s a) \<and> (has_room (queues s' a) \<longrightarrow> has_room (queues s a))
       \<or> cRxLock (queues s a) \<noteq> queueUNLOCKED \<and> cRxLock (queues s' a) = cRxLock (queues s a) + 1
       \<or> cRxLock (queues s a) = queueUNLOCKED \<and> cRxLock (queues s' a) = queueUNLOCKED \<and>
           (\<exists>s1 b s2. kern s1 = kern s \<and> wake_first (to_send a) s1 = Some (b, s2) \<and> kern s' = kern s2))"
    using effect_bounded [OF E A(3) isr_same_length [OF A(1,2)]] unfolding wakes_def by blast
next
  show "unlock_tx a s = Some s' \<Longrightarrow> \<exists>n l. event_list l \<and> unlock_loop n l (kern s) = Some (kern s')
      \<and> cRxLock (queues s' a) = cRxLock (queues s a) \<and> (has_room (queues s' a) \<longleftrightarrow> has_room (queues s a))
      \<and> bounded (queues s' a) = bounded (queues s a)" for a s s'
    using unlock_tx_law [of a s s'] event_list_queue(2) by (fastforce simp: has_room_def bounded_def)
qed (use unlock_rx_law in \<open>auto simp: has_room_def bounded_def prvLockQueue_def\<close>)

end
