(* ===== verification/Queue_Demo.thy ===== *)
theory Queue_Demo
  imports Queue_Wakeup Kernel_Demo
begin

text \<open>A concrete system for the witnesses: the started kernel of \<open>Kernel_Demo\<close> with an empty heap.\<close>

definition rtos0 :: rtos where
  "rtos0 = \<lparr>kern = demo, heap = heap0, mem = (\<lambda>_. 0),
     queues = (\<lambda>_. \<lparr>pcHead = 0, pcWriteTo = 0, u_first = 0, u_second = 0, uxMessagesWaiting = 0, uxLength = 0,
       uxItemSize = 0, cRxLock = 0, cTxLock = 0, uxQueueNumber = 0, ucQueueType = 0\<rparr>),
     egroups = (\<lambda>_. \<lparr>uxEventBits = 0, uxEventGroupNumber = 0\<rparr>),
     sbuffers = (\<lambda>_. \<lparr>xTail = 0, xHead = 0, xLength = 0, xTriggerLevelBytes = 0, xTaskWaitingToReceive = None,
       xTaskWaitingToSend = None, pucBuffer = 0, ucFlags = 0, uxStreamBufferNumber = 0\<rparr>),
     pxStack = (\<lambda>_. 0), xQueueRegistry = replicate 10 (0, 0)\<rparr>"

declare free_list_position.simps [code] first_fit.simps [code]

text \<open>
  For evaluation: a \<open>bind\<close> as a case distinction, whose branches are not entered before the
  scrutinee is known.
\<close>

lemma bind_case: "Option.bind x f = (case x of None \<Rightarrow> None | Some y \<Rightarrow> f y)"
  by (simp split: option.split)

lemma map_option_as_case: "map_option f x = (case x of None \<Rightarrow> None | Some y \<Rightarrow> Some (f y))"
  by (simp split: option.split)

lemmas by_case = bind_case map_option_as_case

lemmas queue_code [code] =
  pvPortMalloc_def [unfolded by_case] vPortFree_def [unfolded by_case]
  xQueueGenericCreate_def [unfolded by_case] prvInitialiseNewQueue_def [unfolded by_case]
  wake_first_def [unfolded by_case] wake_yield_def [unfolded by_case]
  prvCopyDataToQueue_def [unfolded by_case] unlock_tx_def [unfolded by_case] unlock_rx_def [unfolded by_case]
  prvUnlockQueue_def [unfolded by_case] lock_and_check_def [unfolded by_case] unlock_and_resume_def [unfolded by_case]
  place_def [unfolded by_case] wait_loop.simps [unfolded by_case]
  xQueueGenericSend_try_def [unfolded by_case] xQueueGenericSend_wait_def [unfolded by_case]
  xQueueReceive_try_def [unfolded by_case] xQueueReceive_wait_def [unfolded by_case]
  xQueueSemaphoreTake_try_def [unfolded by_case] xQueueSemaphoreTake_wait_def [unfolded by_case]
  prvInitialiseMutex_def [unfolded by_case] xQueueCreateMutex_def [unfolded by_case]
  xQueueGenericSendFromISR_def [unfolded by_case] xQueueGiveFromISR_def [unfolded by_case]
  xQueueReceiveFromISR_def [unfolded by_case] xTaskCreate_def [unfolded by_case]

text \<open>A queue of two items of four bytes at \<open>0x20000000\<close>, empty, with its storage behind it.\<close>

definition demo_queue :: xQUEUE where
  "demo_queue = \<lparr>pcHead = 0x20000050, pcWriteTo = 0x20000050, u_first = 0x20000058, u_second = 0x20000054,
     uxMessagesWaiting = 0, uxLength = 2, uxItemSize = 4, cRxLock = queueUNLOCKED, cTxLock = queueUNLOCKED,
     uxQueueNumber = 0, ucQueueType = 0\<rparr>"

definition demo_rtos :: rtos where
  "demo_rtos = rtos0\<lparr>queues := (queues rtos0)(0x20000000 := demo_queue)\<rparr>"

lemma demo_rtos_fields [simp]:
  "queues demo_rtos 0x20000000 = demo_queue" "kern demo_rtos = demo" "mem demo_rtos = (\<lambda>_. 0)"
  by (simp_all add: demo_rtos_def rtos0_def)

lemma demo_ring: "ring demo_queue 0 1"
  by (simp add: ring_def storage_ok_def slot_def demo_queue_def)

lemma demo_queue_ok: "queue_ok 0x20000000 demo_rtos" "queue_contents 0x20000000 demo_rtos = []"
  using demo_ring by (auto simp: queue_ok_def queue_contents_def items_from_def demo_queue_def)

lemma demo_waiting: "kitems demo (TasksWaitingToSend a) = []" "kitems demo (TasksWaitingToReceive a) = []"
  "kitems demo (TasksWaitingForBits a) = []"
  by code_simp+

lemma demo_cont: "container demo (EventItem 2) = None" by code_simp

lemma demo_can_block: "can_block 0 2 demo"
  by (simp add: can_block_def demo_reach demo_cur demo_ready_tasks demo_cont demo_state)

end
