(* ===== verification/Queue_Properties.thy ===== *)
theory Queue_Properties
  imports Queue_Demo
begin

text \<open>
  What queues, semaphores and mutexes promise: first-in first-out delivery, calls that return
  whatever interrupts do meanwhile, no lost wake-ups, recursive mutexes, time-outs; and where
  the code does not keep its promises.
\<close>

section \<open>Delivery\<close>

text \<open>
  C14. A queue delivers what was sent, in order, once: however sends to the back and receives
  by tasks and by interrupt handlers follow each other, starting with an empty queue, the
  items received so far are the first of the items sent, and those in the queue are the rest.
\<close>

theorem queue_delivers_in_order:
  assumes "queue_ok a s" and "queue_contents a s = []"
    and "fifo.traffic (queue_ok a) (queue_contents a) (queue_put a) (queue_get a) s sent got t"
  shows "got @ queue_contents a t = sent \<and> queue_ok a t"
  using queue.traffic_ok [OF assms(3,1)] assms(2) by simp

lemma demo_send:
  "\<exists>s'. queue_put 0x20000000 (ByTask 0x30000000) demo_rtos = Some ([[0, 0, 0, 0]], s')"
proof -
  have "ring (queues demo_rtos 0x20000000) 0 1" using demo_ring by simp
  note c = copy_back_eq [OF this, where p = "0x30000000"]
  have "uxMessagesWaiting demo_queue < uxLength demo_queue" by (simp add: demo_queue_def)
  then have "\<exists>l s'. xQueueGenericSend_try 0x20000000 0x30000000 queueSEND_TO_BACK (entry_locals 0) demo_rtos = Some (Some True, l, s')"
    using c demo_waiting by (simp add: xQueueGenericSend_try_def)
  then show ?thesis
    by (auto simp: xQueueGenericSend_def item_at_def bytes_at_def demo_queue_def upt_rec)
qed

theorem queue_delivers_in_order_witness:
  "\<exists>t. fifo.traffic (queue_ok 0x20000000) (queue_contents 0x20000000) (queue_put 0x20000000) (queue_get 0x20000000)
      demo_rtos [[0, 0, 0, 0]] [] t \<and> queue_contents 0x20000000 t = [[0, 0, 0, 0]]"
proof -
  obtain t where "queue_put 0x20000000 (ByTask 0x30000000) demo_rtos = Some ([[0, 0, 0, 0]], t)" using demo_send by blast
  from queue.traffic.putting [OF queue.traffic.nothing this]
  have r: "fifo.traffic (queue_ok 0x20000000) (queue_contents 0x20000000) (queue_put 0x20000000) (queue_get 0x20000000)
      demo_rtos [[0, 0, 0, 0]] [] t" by simp
  from queue_delivers_in_order [OF demo_queue_ok this] show ?thesis using r by auto
qed

lemma send_true_contents:
  assumes "queue_ok a s" and "xQueueGenericSend_try a p pos l s = Some (Some True, l', s')"
  shows "pos = queueSEND_TO_FRONT \<Longrightarrow> queue_contents a s' = item_at a p s # queue_contents a s"
    and "pos = queueOVERWRITE \<Longrightarrow> uxLength (queues s a) = 1 \<Longrightarrow> queue_contents a s' = [item_at a p s]"
proof -
  obtain b s1 where c: "prvCopyDataToQueue a p pos s = Some (b, s1)" "same_data s1 s'"
    "uxMessagesWaiting (queues s a) < uxLength (queues s a) \<or> pos = queueOVERWRITE"
    using send_copies [OF assms(2) plain_ok [OF assms(1)]] by blast
  note same = contents_same_data [OF c(2)]
  show "queue_contents a s' = item_at a p s # queue_contents a s" if "pos = queueSEND_TO_FRONT"
    using copy_front_contents [OF assms(1) _ _ _ c(1)] c(3) that same by simp
  show "queue_contents a s' = [item_at a p s]" if "pos = queueOVERWRITE" "uxLength (queues s a) = 1"
    using copy_overwrite_contents [OF assms(1) that(2)] c(1) that same by simp
qed

lemma peek_contents:
  assumes "queue_ok a s" and "clear_of p (queues s a)" and "xQueuePeek_try a p l s = Some (Some True, l', s')"
  shows "queue_contents a s' = queue_contents a s \<and> queue_contents a s \<noteq> [] \<and> item_at a p s' = hd (queue_contents a s)"
proof -
  have n: "0 < uxMessagesWaiting (queues s a)"
    using assms(3) by (auto simp: xQueuePeek_try_def refuse_def Let_def split: if_splits)
  obtain w r where R: "ring (queues s a) w r" using assms(1) by (rule queue_okE)
  let ?r = "Suc r mod unat (uxLength (queues s a))" and ?x = "queues s a"
  let ?s = "upd_q a (u_second_update (\<lambda>_. pcReadFrom ?x)) (prvCopyDataFromQueue a p s)"
  have "same_data ?s s'"
    using assms(3) n wake_yield_data by (auto simp: xQueuePeek_try_def Let_def bind_eq_Some_conv)
  moreover have "mem ?s = memcpy p (slot ?x ?r) (uxItemSize ?x) (mem s)" "queues ?s a = ?x"
    by (simp_all add: copy_from_eq [OF R])
  ultimately have e: "queues s' a = ?x" "mem s' = memcpy p (slot ?x ?r) (uxItemSize ?x) (mem s)"
    using same_dataD by metis+
  have "ring (queues s' a) w r" using R by (simp add: e)
  then have "queue_contents a s' = queue_contents a s"
    using queue_contents_ring items_clear [OF ringD(1) [OF R] assms(2)] R by (simp add: e)
  moreover have "queue_contents a s = bytes_at (mem s) (slot ?x ?r) (uxItemSize ?x) #
      items_from (mem s) ?x ?r (unat (uxMessagesWaiting ?x) - 1)"
    using queue_contents_ring [OF R] items_from_first [of "unat (uxMessagesWaiting ?x)" "mem s" ?x r] n
    by (simp add: word_less_nat_alt)
  ultimately show ?thesis by (simp add: item_at_def e)
qed

lemma contents_empty_iff: "queue_ok a s \<Longrightarrow> queue_contents a s = [] \<longleftrightarrow> uxMessagesWaiting (queues s a) = 0"
  by (simp add: queue_contents_def items_from_def unat_eq_zero Let_def)

lemma spaces_iff:
  assumes "queue_ok a s"
  shows "uxQueueSpacesAvailable a s > 0 \<longleftrightarrow> uxMessagesWaiting (queues s a) < uxLength (queues s a)"
proof -
  have "uxMessagesWaiting (queues s a) \<le> uxLength (queues s a)" using assms queue_okE ringD(6) by metis
  then show ?thesis by (auto simp: uxQueueSpacesAvailable_def word_gt_0 eq_iff_diff_eq_0 [symmetric] order_less_le)
qed

lemma send_now:
  assumes "queue_ok a s" and "xQueueGenericSend [] a p 0 pos s = Some (r, s')"
  shows "r = Some (uxQueueSpacesAvailable a s > 0 \<or> pos = queueOVERWRITE) \<and> (r = Some False \<longrightarrow> s' = s)"
  using assms(2) spaces_iff [OF assms(1)]
  by (auto simp: xQueueGenericSend_def xQueueGenericSend_try_def refuse_def entry_locals_def bind_eq_Some_conv split: if_splits)

lemma receive_now:
  assumes "queue_ok a s" and "xQueueReceive [] a p 0 s = Some (r, s')"
  shows "r = Some (queue_contents a s \<noteq> []) \<and> (r = Some False \<longrightarrow> s' = s)"
  using assms(2) contents_empty_iff [OF assms(1)]
  by (auto simp: word_gt_0 xQueueReceive_def xQueueReceive_try_def refuse_def entry_locals_def Let_def bind_eq_Some_conv split: if_splits)

text \<open>
  The other positions: an item sent to the front is received first, an overwrite of a
  queue of length 1 leaves just the new item, and a peek copies the first item and leaves it
  in the queue. A send without waiting succeeds if and only if there is room (or it
  overwrites), a receive if and only if there is an item, and otherwise nothing changes.
\<close>

theorem queue_front_overwrite_peek:
  assumes "queue_ok a s" and "clear_of p (queues s a)"
  shows "(\<forall>s'. xQueueGenericSend [] a p 0 queueSEND_TO_FRONT s = Some (Some True, s') \<longrightarrow>
        queue_contents a s' = item_at a p s # queue_contents a s)
    \<and> (\<forall>s'. uxLength (queues s a) = 1 \<longrightarrow> xQueueGenericSend [] a p 0 queueOVERWRITE s = Some (Some True, s') \<longrightarrow>
        queue_contents a s' = [item_at a p s])
    \<and> (\<forall>s'. xQueuePeek [] a p 0 s = Some (Some True, s') \<longrightarrow>
        queue_contents a s' = queue_contents a s \<and> queue_contents a s \<noteq> [] \<and> item_at a p s' = hd (queue_contents a s))
    \<and> (\<forall>r s'. xQueueGenericSend [] a p 0 pos s = Some (r, s') \<longrightarrow>
        r = Some (uxQueueSpacesAvailable a s > 0 \<or> pos = queueOVERWRITE) \<and> (r = Some False \<longrightarrow> s' = s))
    \<and> (\<forall>r s'. xQueueReceive [] a p 0 s = Some (r, s') \<longrightarrow>
        r = Some (queue_contents a s \<noteq> []) \<and> (r = Some False \<longrightarrow> s' = s))"
  using send_now [OF assms(1)] receive_now [OF assms(1)]
  by (intro conjI allI impI)
    (auto simp: xQueueGenericSend_def xQueuePeek_def
      dest: send_true_contents(1) [OF assms(1)] send_true_contents(2) [OF assms(1)] peek_contents [OF assms])

lemma demo_clear: "clear_of 0x30000000 demo_queue"
  by (simp add: clear_of_def demo_queue_def)

theorem queue_front_overwrite_peek_witness:
  "\<exists>s'. xQueueReceive [] 0x20000000 0x30000000 0 demo_rtos = Some (Some False, demo_rtos)
    \<and> xQueueGenericSend [] 0x20000000 0x30000000 0 queueSEND_TO_BACK demo_rtos = Some (Some True, s')
    \<and> uxQueueSpacesAvailable 0x20000000 demo_rtos > 0"
proof -
  obtain s' where g: "xQueueGenericSend [] 0x20000000 0x30000000 0 queueSEND_TO_BACK demo_rtos = Some (Some True, s')"
    using demo_send by (auto split: if_splits)
  have e: "xQueueReceive [] 0x20000000 0x30000000 0 demo_rtos = Some (Some False, demo_rtos)"
    by (simp add: xQueueReceive_def xQueueReceive_try_def refuse_def entry_locals_def demo_queue_def)
  have "clear_of 0x30000000 (queues demo_rtos 0x20000000)" using demo_clear by simp
  from queue_front_overwrite_peek [OF demo_queue_ok(1) this, of queueSEND_TO_BACK] g e show ?thesis by auto
qed

section \<open>Blocking\<close>






lemma lock_has_time: "lock_and_check w a l s = Some (e, l', s') \<Longrightarrow> xTimeOut l \<noteq> None"
  by (auto simp: lock_and_check_def bind_eq_Some_conv)

lemma lock_ticks:
  assumes "can_block idle c (kern s)" and "isrs_ok s isrs" and "lock_and_check (interrupted isrs) a l s = Some (e, l', s')"
  shows "in_section idle (on_kern vTaskSuspendAll s) s'" and "\<not> e \<Longrightarrow> 0 < xTicksToWait l'"
proof -
  obtain e2 l2 s2 where "lock_and_check (interrupted isrs) a l s = Some (e2, l2, s2)"
    "in_section idle (on_kern vTaskSuspendAll s) s2" "\<not> e2 \<Longrightarrow> 0 < xTicksToWait l2"
    by (rule locked [OF assms(1,2) lock_has_time [OF assms(3)], where a = a]) blast
  then show "in_section idle (on_kern vTaskSuspendAll s) s'" and "\<not> e \<Longrightarrow> 0 < xTicksToWait l'"
    using assms(3) by simp_all
qed


context waiting_side
begin

text \<open>The whole suspended section, in the shape the calls of both sides have.\<close>

lemma section_wakes:
  assumes "can_block idle c (kern s)" and "uxSchedulerSuspended (kern s) = 0" and "0 < uxCurrentNumberOfTasks (kern s)"
    and "isrs_ok s isrs" and "length (isrs 2) + length (isrs 3) + length (isrs 4) + length (isrs 8) + length (isrs 5) < 127"
    and "bounded (queues s a)" and "lock (queues s a) = queueUNLOCKED" and "nobody a (kern s)"
    and order: "(unlock_tx a, unlock_rx a) \<in> {(own a, other a), (other a, own a)}"
    and lk: "lock_and_check (interrupted isrs) a l s = Some (e, l', t)" and "\<not> e" and "\<not> avail (queues t a)"
    and run: "isr_run (isrs 4) t = Some t1" "place (side a) (xTicksToWait l') t1 = Some t2"
      "unlock_and_resume (interrupted isrs) True a t2 = Some t3"
    and av: "avail (queues t3 a)"
  shows "ready (kern t3) c"
proof -
  have n: "length (isrs 2) + length (isrs 3) < 127" using assms(5) by simp
  have C: "suspended idle t \<and> still (vTaskSuspendAll (kern s)) (kern t) \<and> shape s t \<and> nobody a (kern t)
    \<and> counted False (length (isrs 2) + length (isrs 3)) a t"
    by (rule lock_counts [OF assms(1,2,8,6,7,4) n lk])
  have d: "0 < xTicksToWait l'" using lock_ticks(2) [OF assms(1,4) lk] \<open>\<not> e\<close> by simp
  show ?thesis
    by (rule blocked_is_woken [OF assms(1-4) _ _ _ _ _ assms(12) assms(5) d order run av]) (use C in simp_all)
qed

end





section \<open>Recursive mutexes\<close>

fun rec_takes :: "nat \<Rightarrow> u32 \<Rightarrow> rtos \<Rightarrow> rtos option" where
  "rec_takes 0 a s = Some s"
| "rec_takes (Suc n) a s = (case xQueueTakeMutexRecursive [] a 0 s of Some (Some True, s') \<Rightarrow> rec_takes n a s' | _ \<Rightarrow> None)"

fun rec_gives :: "nat \<Rightarrow> u32 \<Rightarrow> rtos \<Rightarrow> rtos option" where
  "rec_gives 0 a s = Some s"
| "rec_gives (Suc n) a s = (case xQueueGiveMutexRecursive a s of Some (True, s') \<Rightarrow> rec_gives n a s' | _ \<Rightarrow> None)"

definition free_mutex :: "u32 \<Rightarrow> rtos \<Rightarrow> bool" where
  "free_mutex a s \<longleftrightarrow> (let x = queues s a in is_mutex x \<and> uxItemSize x = 0 \<and> uxLength x = 1 \<and> uxMessagesWaiting x = 1
     \<and> xMutexHolder x = None \<and> uxRecursiveCallCount x = 0)"

definition held_mutex :: "u32 \<Rightarrow> task \<Rightarrow> nat \<Rightarrow> rtos \<Rightarrow> bool" where
  "held_mutex a c n s \<longleftrightarrow> (let x = queues s a in is_mutex x \<and> uxItemSize x = 0 \<and> uxLength x = 1 \<and> uxMessagesWaiting x = 0
     \<and> xMutexHolder x = Some c \<and> uxRecursiveCallCount x = of_nat n)"

definition uncontended :: "task \<Rightarrow> task \<Rightarrow> u32 \<Rightarrow> kernel \<Rightarrow> bool" where
  "uncontended idle c a k \<longleftrightarrow> reach idle k \<and> pxCurrentTCB k = Some c \<and> ready k c \<and> c \<noteq> 0
     \<and> kitems k (to_send a) = [] \<and> kitems k (to_receive a) = []"

lemma rec_take_first:
  assumes "free_mutex a s" and "uncontended idle c a (kern s)"
  shows "\<exists>s'. xQueueTakeMutexRecursive [] a 0 s = Some (Some True, s') \<and> held_mutex a c 1 s' \<and> uncontended idle c a (kern s')"
proof -
  have "reach idle (snd (pvTaskIncrementMutexHeldCount (kern s)))"
    using reach_call [of idle "kern s" MutexHeld] assms(2) by (simp add: kguard_defs uncontended_def)
  then show ?thesis
    using assms
    by (auto simp: free_mutex_def held_mutex_def uncontended_def Let_def xQueueTakeMutexRecursive_def xQueueSemaphoreTake_def
        xQueueSemaphoreTake_try_def wake_yield_def wake_first_def pvTaskIncrementMutexHeldCount_def handle_of_def
        xMutexHolder_def task_of_def is_mutex_def ready_def)
qed

lemma rec_take_again:
  assumes "held_mutex a c n s" and "uncontended idle c a (kern s)"
  shows "\<exists>s'. xQueueTakeMutexRecursive [] a 0 s = Some (Some True, s') \<and> held_mutex a c (Suc n) s' \<and> kern s' = kern s"
  using assms by (auto simp: held_mutex_def uncontended_def xQueueTakeMutexRecursive_def xMutexHolder_def is_mutex_def Let_def)

lemma rec_give_inner:
  assumes "held_mutex a c (Suc n) s" and "uncontended idle c a (kern s)" and "0 < n" and "n < 2 ^ 32"
  shows "\<exists>s'. xQueueGiveMutexRecursive a s = Some (True, s') \<and> held_mutex a c n s' \<and> kern s' = kern s"
proof -
  have "(of_nat n :: u32) \<noteq> 0" using unat_of_nat_u32 [OF assms(4)] assms(3) by force
  then show ?thesis
    using assms by (auto simp: held_mutex_def uncontended_def xQueueGiveMutexRecursive_def xMutexHolder_def is_mutex_def Let_def)
qed

lemma give_fields:
  assumes "is_mutex (queues s a)" and "uxItemSize (queues s a) = 0" and "uxMessagesWaiting (queues s a) < uxLength (queues s a)"
    and "xQueueGenericSend_try a p pos l s = Some (r, l', s')"
  shows "r = Some True \<and> queues s' a = (queues s a)\<lparr>u_first := 0, uxMessagesWaiting := uxMessagesWaiting (queues s a) + 1\<rparr>"
proof -
  obtain y s1 where c: "prvCopyDataToQueue a p pos s = Some (y, s1)"
    and w: "r = Some True" "s' = (if y then on_kern portYIELD s1 else s1) \<or> wake_yield (to_receive a) s1 = Some s'"
    using assms(3,4) by (auto simp: xQueueGenericSend_try_def bind_eq_Some_conv split: if_splits)
  have "queues s1 a = (queues s a)\<lparr>u_first := 0, uxMessagesWaiting := uxMessagesWaiting (queues s a) + 1\<rparr>"
    using c assms(1,2) by (auto simp: prvCopyDataToQueue_def bind_eq_Some_conv Let_def)
  moreover have "queues s' = queues s1"
    using w(2) wake_yield_data [of "to_receive a" s1 s'] same_dataD [of s1 s'] by (auto split: if_splits)
  ultimately show ?thesis using w(1) by simp
qed

lemma rec_give_last:
  assumes "held_mutex a c 1 s" and "uncontended idle c a (kern s)"
  shows "\<exists>s'. xQueueGiveMutexRecursive a s = Some (True, s') \<and> free_mutex a s' \<and> reach idle (kern s')"
proof -
  let ?s = "upd_q a (\<lambda>x. x\<lparr>u_second := uxRecursiveCallCount x - 1\<rparr>) s"
  have q: "is_mutex (queues ?s a)" "uxItemSize (queues ?s a) = 0" "uxMessagesWaiting (queues ?s a) = 0" "uxLength (queues ?s a) = 1"
    "uxRecursiveCallCount (queues ?s a) = 0" and h: "xMutexHolder (queues s a) = Some c" "xMutexHolder (queues ?s a) = Some c"
    using assms(1) by (simp_all add: held_mutex_def Let_def is_mutex_def xMutexHolder_def)
  have k: "pxCurrentTCB (kern s) = Some c" "reach idle (kern ?s)" "ready (kern ?s) c" "give_ok a c (kern ?s)"
    using assms(2) by (simp_all add: uncontended_def give_ok_def)
  have "returned idle (xQueueGenericSend_try a 0 queueSEND_TO_BACK (entry_locals 0) ?s)"
    using give_try_returns [OF k(2) q(2,1) h(2) _ k(3,4)] k(1) by simp
  then obtain r l s' where r: "xQueueGenericSend_try a 0 queueSEND_TO_BACK (entry_locals 0) ?s = Some (r, l, s')" "reach idle (kern s')"
    by (auto simp: returned_def)
  have "uxMessagesWaiting (queues ?s a) < uxLength (queues ?s a)" using q(3,4) by simp
  note f = give_fields [OF q(1,2) this r(1)]
  have "free_mutex a s'"
    using f q by (simp add: free_mutex_def Let_def is_mutex_def xMutexHolder_def task_of_def)
  moreover have "xQueueGiveMutexRecursive a s = Some (True, s')"
    using h(1) k(1) q(5) r(1) by (simp add: xQueueGiveMutexRecursive_def xQueueGenericSend_def)
  ultimately show ?thesis using r(2) by blast
qed

lemma rec_takes_more:
  assumes "held_mutex a c n s" and "uncontended idle c a (kern s)"
  shows "\<exists>s'. rec_takes m a s = Some s' \<and> held_mutex a c (n + m) s' \<and> uncontended idle c a (kern s')"
  using assms
proof (induction m arbitrary: n s)
  case (Suc m)
  obtain s1 where "xQueueTakeMutexRecursive [] a 0 s = Some (Some True, s1)" "held_mutex a c (Suc n) s1" "kern s1 = kern s"
    using rec_take_again [OF Suc.prems] by blast
  then show ?case using Suc.IH [of "Suc n" s1] Suc.prems(2) by simp
qed simp

lemma rec_gives_some:
  assumes "held_mutex a c (n + m) s" and "uncontended idle c a (kern s)" and "0 < n" and "n + m < 2 ^ 32"
  shows "\<exists>s'. rec_gives m a s = Some s' \<and> held_mutex a c n s' \<and> uncontended idle c a (kern s')"
  using assms
proof (induction m arbitrary: s)
  case (Suc m)
  have h: "held_mutex a c (Suc (n + m)) s" using Suc.prems(1) by simp
  obtain s1 where "xQueueGiveMutexRecursive a s = Some (True, s1)" "held_mutex a c (n + m) s1" "kern s1 = kern s"
    using rec_give_inner [OF h Suc.prems(2)] Suc.prems(3,4) by auto
  then show ?case using Suc.IH [of s1] Suc.prems by simp
qed simp

lemma rec_gives_append: "rec_gives (m + n) a s = (case rec_gives m a s of None \<Rightarrow> None | Some s' \<Rightarrow> rec_gives n a s')"
  by (induction m arbitrary: s) (auto split: option.splits bool.splits)

text \<open>
  A recursive mutex is free again exactly after as many gives as takes: a free mutex
  taken \<open>n\<close> times by a task is held by it with count \<open>n\<close>, stays held through fewer than \<open>n\<close>
  gives and is free after the \<open>n\<close>th; every take and give in between succeeds.
\<close>

theorem recursive_mutex_counts:
  assumes "free_mutex a s" and "uncontended idle c a (kern s)" and "0 < n" and "n < 2 ^ 32"
  shows "\<exists>s1. rec_takes n a s = Some s1 \<and> held_mutex a c n s1
    \<and> (\<forall>m<n. \<exists>s2. rec_gives m a s1 = Some s2 \<and> held_mutex a c (n - m) s2)
    \<and> (\<exists>s3. rec_gives n a s1 = Some s3 \<and> free_mutex a s3 \<and> reach idle (kern s3))"
proof -
  obtain m where n: "n = Suc m" using assms(3) by (cases n) auto
  obtain s0 where s0: "xQueueTakeMutexRecursive [] a 0 s = Some (Some True, s0)" "held_mutex a c 1 s0" "uncontended idle c a (kern s0)"
    using rec_take_first [OF assms(1,2)] by blast
  obtain s1 where s1: "rec_takes m a s0 = Some s1" "held_mutex a c n s1" "uncontended idle c a (kern s1)"
    using rec_takes_more [OF s0(2,3)] n by auto
  have inner: "\<exists>s2. rec_gives j a s1 = Some s2 \<and> held_mutex a c (n - j) s2 \<and> uncontended idle c a (kern s2)" if "j < n" for j
    using rec_gives_some [of a c "n - j" j s1 idle] s1 that assms(4) by simp
  obtain s2 where s2: "rec_gives m a s1 = Some s2" "held_mutex a c 1 s2" "uncontended idle c a (kern s2)"
    using inner [of m] n by auto
  obtain s3 where "xQueueGiveMutexRecursive a s2 = Some (True, s3)" "free_mutex a s3" "reach idle (kern s3)"
    using rec_give_last [OF s2(2,3)] by blast
  then have "\<exists>s3. rec_gives n a s1 = Some s3 \<and> free_mutex a s3 \<and> reach idle (kern s3)"
    using s2(1) rec_gives_append [of m 1 a s1] n by simp
  moreover have "rec_takes n a s = Some s1" using s0(1) s1(1) n by simp
  ultimately show ?thesis using s1(2) inner by blast
qed

definition mutex_rtos :: rtos where
  "mutex_rtos = rtos0\<lparr>queues := (\<lambda>_. demo_queue\<lparr>pcHead := 0, u_first := 0, u_second := 0, uxMessagesWaiting := 1,
     uxLength := 1, uxItemSize := 0\<rparr>)\<rparr>"

theorem recursive_mutex_counts_witness:
  "\<exists>s1 s3. rec_takes 3 7 mutex_rtos = Some s1 \<and> held_mutex 7 2 3 s1 \<and> rec_gives 3 7 s1 = Some s3 \<and> free_mutex 7 s3"
proof -
  have "free_mutex 7 mutex_rtos"
    by (simp add: free_mutex_def mutex_rtos_def is_mutex_def xMutexHolder_def task_of_def)
  moreover have "uncontended 0 2 7 (kern mutex_rtos)"
    by (simp add: uncontended_def mutex_rtos_def rtos0_def demo_reach demo_cur demo_ready_tasks demo_waiting)
  ultimately show ?thesis using recursive_mutex_counts [of 7 mutex_rtos 0 2 3] by fastforce
qed

end
