(* ===== verification/Queue_Limits.thy ===== *)
theory Queue_Limits
  imports Queue_Demo
begin

text \<open>
  Creation of queues, and the bounds within which the queue code keeps its promises: sizes that
  overflow, lock counts that overflow and a yield that is forgotten.
\<close>

section \<open>Creation\<close>

lemma reset_new:
  assumes "xQueueGenericReset a True s = Some s'"
  shows "queues s' a = (queues s a)\<lparr>u_first := pcHead (queues s a) + uxLength (queues s a) * uxItemSize (queues s a),
      uxMessagesWaiting := 0, pcWriteTo := pcHead (queues s a),
      u_second := pcHead (queues s a) + (uxLength (queues s a) - 1) * uxItemSize (queues s a),
      cRxLock := queueUNLOCKED, cTxLock := queueUNLOCKED\<rparr>"
    and "kitems (kern s') (to_send a) = []" and "kitems (kern s') (to_receive a) = []"
  using assms by (auto simp: xQueueGenericReset_def Let_def a_init_def)

lemma create_steps:
  assumes "xQueueGenericCreate len isz type s = Some (a, s')" and "a \<noteq> 0" and "isz \<noteq> 0"
  shows "\<exists>s1. pvPortMalloc (sizeof_Queue + len * isz) s = Some (a, s1)"
    and "queues s' a = (queues s' a)\<lparr>pcHead := a + sizeof_Queue, pcWriteTo := a + sizeof_Queue,
      u_first := a + sizeof_Queue + len * isz, u_second := a + sizeof_Queue + (len - 1) * isz, uxMessagesWaiting := 0,
      uxLength := len, uxItemSize := isz, cRxLock := queueUNLOCKED, cTxLock := queueUNLOCKED, ucQueueType := type\<rparr>"
    and "kitems (kern s') (to_send a) = []" and "kitems (kern s') (to_receive a) = []"
  using assms reset_new
  by (auto simp: xQueueGenericCreate_def prvInitialiseNewQueue_def bind_eq_Some_conv Let_def split: if_splits)

text \<open>
  A queue is created empty and usable: the block requested from the heap is exactly the
  header and the storage, if that size fits in 32 bits, the ring is well formed and empty with
  all its room available, both locks are open and nobody waits.
\<close>

theorem create_makes_empty_queue:
  assumes "xQueueGenericCreate len isz type s = Some (a, s')" and "a \<noteq> 0" and "isz \<noteq> 0" and "len \<noteq> 0"
    and "isz \<le> a" and "unat a + 80 + unat len * unat isz < 2 ^ 32"
  shows "queue_ok a s' \<and> queue_contents a s' = [] \<and> uxQueueSpacesAvailable a s' = len
    \<and> cTxLock (queues s' a) = queueUNLOCKED \<and> cRxLock (queues s' a) = queueUNLOCKED
    \<and> kitems (kern s') (TasksWaitingToSend a) = [] \<and> kitems (kern s') (TasksWaitingToReceive a) = []
    \<and> (\<exists>n s1. pvPortMalloc n s = Some (a, s1) \<and> unat n = 80 + unat len * unat isz)"
proof -
  note q = create_steps(2) [OF assms(1-3)]
  let ?x = "queues s' a"
  have f: "pcHead ?x = a + sizeof_Queue" "pcWriteTo ?x = a + sizeof_Queue" "pcTail ?x = a + sizeof_Queue + len * isz"
    "pcReadFrom ?x = a + sizeof_Queue + (len - 1) * isz" "uxMessagesWaiting ?x = 0" "uxLength ?x = len" "uxItemSize ?x = isz"
    "cRxLock ?x = queueUNLOCKED" "cTxLock ?x = queueUNLOCKED"
    by (subst q, simp)+
  have l: "unat len * unat isz < 2 ^ 32" using assms(6) by linarith
  have sz: "unat (len * isz) = unat len * unat isz" using l by (simp add: unat_word_ariths)
  have h: "unat (a + sizeof_Queue) = unat a + 80"
    using assms(6) by (simp add: sizeof_Queue_def unat_word_ariths)
  have st: "storage_ok ?x"
    using assms(3-6) h f by (simp add: storage_ok_def slot_def word_le_nat_alt)
  have r: "slot ?x (unat len - 1) = pcReadFrom ?x"
    using f assms(4) by (simp add: slot_def of_nat_diff unat_gt_0 Suc_leI)
  have "0 < unat len" using assms(4) by (simp add: unat_gt_0)
  then have "ring ?x 0 (unat len - 1)"
    using st f r by (simp add: ring_def) (simp add: slot_def f)
  then have ok: "queue_ok a s'" unfolding queue_ok_def by blast
  have "unat (sizeof_Queue + len * isz) = 80 + unat len * unat isz"
    using assms(6) sz by (simp add: sizeof_Queue_def unat_word_ariths)
  with create_steps(1) [OF assms(1-3)] have m: "\<exists>n s1. pvPortMalloc n s = Some (a, s1) \<and> unat n = 80 + unat len * unat isz" by blast
  have "queue_contents a s' = []" using f by (simp add: queue_contents_def items_from_def Let_def)
  then show ?thesis
    using ok f m create_steps(3,4) [OF assms(1-3)] by (simp add: uxQueueSpacesAvailable_def)
qed

lemma create_rtos0:
  "case xQueueGenericCreate 2 4 0 rtos0 of None \<Rightarrow> False | Some (a, s') \<Rightarrow> 4 \<le> a \<and> a \<le> 0x80000000"
  by code_simp

theorem create_makes_empty_queue_witness:
  "\<exists>a s'. xQueueGenericCreate 2 4 0 rtos0 = Some (a, s') \<and> queue_ok a s' \<and> uxQueueSpacesAvailable a s' = 2"
proof -
  obtain a s' where c: "xQueueGenericCreate 2 4 0 rtos0 = Some (a, s')" "4 \<le> a" "a \<le> 0x80000000"
    using create_rtos0 by (auto split: option.splits)
  have "unat a \<le> 0x80000000" using c(3) by (simp add: word_le_nat_alt)
  moreover have "a \<noteq> 0" using c(2) by auto
  ultimately have "queue_ok a s'" "uxQueueSpacesAvailable a s' = 2"
    using create_makes_empty_queue [OF c(1) _ _ _ c(2)] by simp_all
  then show ?thesis using c(1) by blast
qed

text \<open>
  The size of a queue is not checked for overflow: a queue of 2^28 + 1 items of 16 bytes
  is created, and of the 18 KiB of the heap at least 18000 bytes are still free after that.
\<close>

theorem create_size_overflows:
  "case xQueueGenericCreate 0x10000001 16 0 rtos0 of None \<Rightarrow> False
   | Some (a, s') \<Rightarrow> a \<noteq> 0 \<and> uxQueueSpacesAvailable a s' = 0x10000001 \<and> uxItemSize (queues s' a) = 16
     \<and> 18000 \<le> xPortGetFreeHeapSize (heap s')"
  by code_simp

section \<open>Lock counts\<close>

lemma gives_while_locked:
  assumes "\<forall>k<n. cTxLock (queues s a) + of_nat k \<noteq> queueUNLOCKED"
    and "unat (uxMessagesWaiting (queues s a)) + n \<le> unat (uxLength (queues s a))"
  shows "isr_run (replicate n (IsrGive a)) s = Some (upd_q a (\<lambda>x. x\<lparr>uxMessagesWaiting := uxMessagesWaiting x + of_nat n,
    cTxLock := cTxLock x + of_nat n\<rparr>) s)"
  using assms
proof (induction n arbitrary: s)
  case 0
  then show ?case by (simp add: upd_q_def)
next
  case (Suc n)
  let ?s = "upd_q a (\<lambda>x. x\<lparr>uxMessagesWaiting := uxMessagesWaiting x + 1, cTxLock := cTxLock x + 1\<rparr>) s"
  have room: "uxMessagesWaiting (queues s a) < uxLength (queues s a)"
    using Suc.prems(2) by (simp add: word_less_nat_alt)
  have "cTxLock (queues s a) \<noteq> queueUNLOCKED" using Suc.prems(1) [rule_format, of 0] by simp
  then have e: "isr_exec (IsrGive a) s = Some ?s"
    using room by (simp add: xQueueGiveFromISR_def Let_def upd_q_def)
  have "\<forall>k<n. cTxLock (queues ?s a) + of_nat k \<noteq> queueUNLOCKED"
    using Suc.prems(1) [rule_format, of "Suc _"] by (simp add: algebra_simps)
  moreover have "unat (uxMessagesWaiting (queues ?s a)) + n \<le> unat (uxLength (queues ?s a))"
    using Suc.prems(2) unat_inc [OF room] by simp
  ultimately have "isr_run (replicate n (IsrGive a)) ?s = Some (upd_q a (\<lambda>x. x\<lparr>uxMessagesWaiting := uxMessagesWaiting x + of_nat n,
      cTxLock := cTxLock x + of_nat n\<rparr>) ?s)"
    by (rule Suc.IH)
  moreover have "isr_run (replicate (Suc n) (IsrGive a)) s = isr_run (replicate n (IsrGive a)) ?s"
    unfolding replicate_Suc isr_run.simps e by simp
  ultimately show ?case by (simp add: algebra_simps)
qed

text \<open>
  The count of what happened while a queue is locked is a signed byte: if handlers give a
  semaphore 128 times before the queue is unlocked, the count is negative, unlocking wakes
  nobody, and whoever waits goes on waiting although 128 tokens are available.
\<close>

theorem lock_count_overflows:
  assumes "cTxLock (queues s a) = queueLOCKED_UNMODIFIED"
    and "unat (uxMessagesWaiting (queues s a)) + 128 \<le> unat (uxLength (queues s a))"
  shows "\<exists>s1 s2. isr_run (replicate 128 (IsrGive a)) s = Some s1
    \<and> uxQueueMessagesWaiting a s1 = uxQueueMessagesWaiting a s + 128
    \<and> unlock_tx a s1 = Some s2 \<and> cTxLock (queues s2 a) = queueUNLOCKED \<and> kern s2 = kern s"
proof -
  have "cTxLock (queues s a) + of_nat k \<noteq> queueUNLOCKED" if "k < 128" for k
  proof -
    have "unat (of_nat k :: u8) = k" using that by (simp add: unat_of_nat)
    then have "unat (cTxLock (queues s a) + of_nat k) < 128" using that by (simp add: assms(1) queueLOCKED_UNMODIFIED_def)
    moreover have "unat queueUNLOCKED = 255" unfolding queueUNLOCKED_def by code_simp
    ultimately show ?thesis by auto
  qed
  then have "isr_run (replicate 128 (IsrGive a)) s = Some (upd_q a (\<lambda>x. x\<lparr>uxMessagesWaiting := uxMessagesWaiting x + 128,
      cTxLock := cTxLock x + 128\<rparr>) s)"
    using gives_while_locked [of 128 s a] assms(2) by simp
  then show ?thesis
    using assms(1) by (simp add: unlock_tx_def queueLOCKED_UNMODIFIED_def uxQueueMessagesWaiting_def)
qed

definition big_semaphore :: rtos where
  "big_semaphore = rtos0\<lparr>queues := (\<lambda>_. demo_queue\<lparr>uxMessagesWaiting := 0, uxLength := 200, uxItemSize := 0,
     cTxLock := queueLOCKED_UNMODIFIED, cRxLock := queueLOCKED_UNMODIFIED\<rparr>)\<rparr>"

theorem lock_count_overflows_witness:
  "\<exists>s1 s2. isr_run (replicate 128 (IsrGive 7)) big_semaphore = Some s1 \<and> uxQueueMessagesWaiting 7 s1 = 128
    \<and> unlock_tx 7 s1 = Some s2 \<and> kern s2 = kern big_semaphore"
  using lock_count_overflows [of big_semaphore 7]
  by (auto simp: big_semaphore_def uxQueueMessagesWaiting_def)

section \<open>A forgotten yield\<close>

fun run_all :: "(rtos \<Rightarrow> rtos option) list \<Rightarrow> rtos \<Rightarrow> rtos option" where
  "run_all [] s = Some s"
| "run_all (f # fs) s = (case f s of None \<Rightarrow> None | Some s' \<Rightarrow> run_all fs s')"

definition calls :: "kcall list \<Rightarrow> rtos \<Rightarrow> rtos option" where
  "calls cs s = (case krun cs (kern s) of None \<Rightarrow> None | Some k \<Rightarrow> Some (s\<lparr>kern := k\<rparr>))"

definition takes :: "u32 \<Rightarrow> rtos \<Rightarrow> rtos option" where
  "takes a s = (case xQueueSemaphoreTake [] a 0 s of Some (Some True, s') \<Rightarrow> Some s' | _ \<Rightarrow> None)"

definition blocks_on :: "u32 \<Rightarrow> rtos \<Rightarrow> rtos option" where
  "blocks_on a s =
     (case xQueueSemaphoreTake_try a (entry_locals portMAX_DELAY) s of
        Some (None, l, s) \<Rightarrow> (case xQueueSemaphoreTake_wait a (\<lambda>_. Some) l s of
          Some (None, l, s) \<Rightarrow> Some s | _ \<Rightarrow> None) | _ \<Rightarrow> None)"

definition gives :: "u32 \<Rightarrow> rtos \<Rightarrow> rtos option" where
  "gives a s = (case xQueueGenericSend [] a 0 0 queueSEND_TO_BACK s of Some (Some True, s') \<Rightarrow> Some s' | _ \<Rightarrow> None)"

definition two_mutexes :: rtos where
  "two_mutexes = rtos0\<lparr>kern := start_kernel [(3, 1), (5, 1)] 0 boot_kernel,
     queues := (\<lambda>_. demo_queue\<lparr>pcHead := 0, u_first := 0, u_second := 0, uxMessagesWaiting := 1, uxLength := 1, uxItemSize := 0\<rparr>)\<rparr>"

text \<open>
  Task 5 (priority 1) takes both mutexes, task 3 (priority 1) waits for the first, task 4
  (priority 3, created then) for the second, so that task 5 inherits priority 3. It gives the
  second; task 4 takes its turn and is suspended; task 2 (priority 2) is created; task 5 gives
  the first.
\<close>

definition lost_yield :: "rtos option" where
  "lost_yield = run_all
     [takes 1, takes 2, calls [Tick, PendSV], blocks_on 1,
      calls [PendSV, Create 4 3, PendSV], blocks_on 2,
      calls [PendSV], gives 2,
      calls [Tick, PendSV, Suspend None, PendSV, Create 2 2], gives 1] two_mutexes"

text \<open>
  Giving a mutex can leave the wrong task running: when the give lowers the giver to its
  base priority and also wakes a waiting task of no higher priority, no context switch is
  requested, although a ready task outranks the giver.
\<close>

theorem give_forgets_yield:
  "case lost_yield of None \<Rightarrow> False
   | Some s \<Rightarrow> pxCurrentTCB (kern s) = Some 5 \<and> prio (kern s) 5 = 1
     \<and> container (kern s) (StateItem 2) = Some (ReadyList 2) \<and> prio (kern s) 2 = 2
     \<and> \<not> pendsv (kern s) \<and> \<not> xYieldPending (kern s) \<and> uxSchedulerSuspended (kern s) = 0"
  by code_simp

end
