(* ===== verification/Event_Group.thy ===== *)
theory Event_Group
  imports Queue
begin

text \<open>
  The event groups of \<open>freertos/event_groups.c\<close>. A handle is the address of the
  \<open>EventGroup_t\<close>. A waiting task keeps the bits it waits for, with control bits, in the value of
  its event item; the task that sets the bits replaces that value by the bits that woke it.
  Other code can run in the windows \<open>w\<close>: 0 and 1 after the suspension of the scheduler and
  before its end (interrupts only), 2 after it.
\<close>

definition eventCLEAR_EVENTS_ON_EXIT_BIT :: u32 where
  "eventCLEAR_EVENTS_ON_EXIT_BIT = 0x01000000"

definition eventUNBLOCKED_DUE_TO_BIT_SET :: u32 where
  "eventUNBLOCKED_DUE_TO_BIT_SET = 0x02000000"

definition eventWAIT_FOR_ALL_BITS :: u32 where
  "eventWAIT_FOR_ALL_BITS = 0x04000000"

definition eventEVENT_BITS_CONTROL_BYTES :: u32 where
  "eventEVENT_BITS_CONTROL_BYTES = 0xff000000"

text \<open>\<open>sizeof( EventGroup_t )\<close>: the bits, a list of 20 bytes and the trace number.\<close>

definition sizeof_EventGroup :: u32 where
  "sizeof_EventGroup = 28"

abbreviation waiting_bits :: "u32 \<Rightarrow> klist" where
  "waiting_bits a \<equiv> TasksWaitingForBits a"

definition event_bits :: "u32 \<Rightarrow> rtos \<Rightarrow> u32" where
  "event_bits a s = uxEventBits (egroups s a)"

definition set_event_bits :: "u32 \<Rightarrow> u32 \<Rightarrow> rtos \<Rightarrow> rtos" where
  "set_event_bits a v s = s\<lparr>egroups := (egroups s)(a := (egroups s a)\<lparr>uxEventBits := v\<rparr>)\<rparr>"

section \<open>Creation and the bits\<close>

definition xEventGroupCreate :: "rtos \<Rightarrow> (u32 \<times> rtos) option" where
  "xEventGroupCreate s =
     do {
       (a, s) \<leftarrow> pvPortMalloc sizeof_EventGroup s;
       if a \<noteq> 0 then
         Some (a, on_kern (\<lambda>k. k\<lparr>klists := a_init (waiting_bits a) (klists k)\<rparr>) (set_event_bits a 0 s))
       else Some (0, s)
     }"

definition prvTestWaitCondition :: "u32 \<Rightarrow> u32 \<Rightarrow> bool \<Rightarrow> bool" where
  "prvTestWaitCondition uxCurrentEventBits uxBitsToWaitFor xWaitForAllBits =
     (if \<not> xWaitForAllBits then uxCurrentEventBits AND uxBitsToWaitFor \<noteq> 0
      else uxCurrentEventBits AND uxBitsToWaitFor = uxBitsToWaitFor)"

definition xEventGroupClearBits :: "u32 \<Rightarrow> u32 \<Rightarrow> rtos \<Rightarrow> u32 \<times> rtos" where
  "xEventGroupClearBits a uxBitsToClear s =
     (event_bits a s, set_event_bits a (event_bits a s AND NOT uxBitsToClear) s)"

definition xEventGroupGetBitsFromISR :: "u32 \<Rightarrow> rtos \<Rightarrow> u32" where
  "xEventGroupGetBitsFromISR a s = event_bits a s"

definition vEventGroupClearBitsCallback :: "u32 \<Rightarrow> u32 \<Rightarrow> rtos \<Rightarrow> rtos" where
  "vEventGroupClearBitsCallback a ulBitsToClear s = snd (xEventGroupClearBits a ulBitsToClear s)"

definition uxEventGroupGetNumber :: "u32 \<Rightarrow> rtos \<Rightarrow> u32" where
  "uxEventGroupGetNumber a s = (if a = 0 then 0 else uxEventGroupNumber (egroups s a))"

definition vEventGroupSetNumber :: "u32 \<Rightarrow> u32 \<Rightarrow> rtos \<Rightarrow> rtos" where
  "vEventGroupSetNumber a n s = s\<lparr>egroups := (egroups s)(a := (egroups s a)\<lparr>uxEventGroupNumber := n\<rparr>)\<rparr>"

section \<open>Setting bits\<close>

text \<open>
  The loop over the waiting tasks. \<open>pxNext\<close> is read before the item is moved, and only that
  item moves while the scheduler is suspended, so the loop visits the items the list has when
  it starts. \<open>clear\<close> is \<open>uxBitsToClear\<close>.
\<close>

definition wait_met :: "u32 \<Rightarrow> u32 \<Rightarrow> bool" where
  "wait_met bits v =
     (let uxControlBits = v AND eventEVENT_BITS_CONTROL_BYTES;
          uxBitsWaitedFor = v AND NOT eventEVENT_BITS_CONTROL_BYTES
      in if uxControlBits AND eventWAIT_FOR_ALL_BITS = 0 then uxBitsWaitedFor AND bits \<noteq> 0
         else uxBitsWaitedFor AND bits = uxBitsWaitedFor)"

definition bits_to_clear :: "u32 \<Rightarrow> u32" where
  "bits_to_clear v =
     (let uxControlBits = v AND eventEVENT_BITS_CONTROL_BYTES;
          uxBitsWaitedFor = v AND NOT eventEVENT_BITS_CONTROL_BYTES
      in if uxControlBits AND eventCLEAR_EVENTS_ON_EXIT_BIT \<noteq> 0 then uxBitsWaitedFor else 0)"

fun set_bits_loop :: "u32 \<Rightarrow> item list \<Rightarrow> u32 \<Rightarrow> kernel \<Rightarrow> (u32 \<times> kernel) option" where
  "set_bits_loop bits [] clear k = Some (clear, k)"
| "set_bits_loop bits (i # is) clear k =
     (let v = item_value k i in
      if wait_met bits v then
        (case vTaskRemoveFromUnorderedEventList i (bits OR eventUNBLOCKED_DUE_TO_BIT_SET) k of
           None \<Rightarrow> None
         | Some k \<Rightarrow> set_bits_loop bits is (clear OR bits_to_clear v) k)
      else set_bits_loop bits is clear k)"

definition xEventGroupSetBits :: "windows \<Rightarrow> u32 \<Rightarrow> u32 \<Rightarrow> rtos \<Rightarrow> (u32 \<times> rtos) option" where
  "xEventGroupSetBits w a uxBitsToSet s =
     do {
       s \<leftarrow> w 0 (on_kern vTaskSuspendAll s);
       let s = set_event_bits a (event_bits a s OR uxBitsToSet) s;
       (clear, k) \<leftarrow> set_bits_loop (event_bits a s) (kitems (kern s) (waiting_bits a)) 0 (kern s);
       let s = s\<lparr>kern := k\<rparr>;
       s \<leftarrow> w 1 (set_event_bits a (event_bits a s AND NOT clear) s);
       (_, k) \<leftarrow> xTaskResumeAll (kern s);
       s \<leftarrow> w 2 (s\<lparr>kern := k\<rparr>);
       Some (event_bits a s, s)
     }"

definition vEventGroupSetBitsCallback :: "windows \<Rightarrow> u32 \<Rightarrow> u32 \<Rightarrow> rtos \<Rightarrow> rtos option" where
  "vEventGroupSetBitsCallback w a ulBitsToSet s = map_option snd (xEventGroupSetBits w a ulBitsToSet s)"

section \<open>Waiting\<close>

definition place_for_bits :: "u32 \<Rightarrow> u32 \<Rightarrow> u32 \<Rightarrow> rtos \<Rightarrow> rtos option" where
  "place_for_bits a v ticks s =
     (case vTaskPlaceOnUnorderedEventList (waiting_bits a) v ticks (kern s) of
        None \<Rightarrow> None | Some k \<Rightarrow> Some (s\<lparr>kern := k\<rparr>))"

text \<open>The yield after the suspended section, and what the task finds in its event item when it is back.\<close>

definition block_for_bits :: "windows \<Rightarrow> bool \<Rightarrow> rtos \<Rightarrow> (u32 \<times> rtos) option" where
  "block_for_bits w already s =
     do {
       s \<leftarrow> w 2 (if already then s else on_kern portYIELD s);
       (v, k) \<leftarrow> uxTaskResetEventItemValue (kern s);
       Some (v, s\<lparr>kern := k\<rparr>)
     }"

definition xEventGroupWaitBits ::
  "windows \<Rightarrow> u32 \<Rightarrow> u32 \<Rightarrow> bool \<Rightarrow> bool \<Rightarrow> u32 \<Rightarrow> rtos \<Rightarrow> (u32 \<times> rtos) option" where
  "xEventGroupWaitBits w a uxBitsToWaitFor xClearOnExit xWaitForAllBits xTicks s =
     do {
       s \<leftarrow> w 0 (on_kern vTaskSuspendAll s);
       let uxCurrentEventBits = event_bits a s;
       (uxReturn, ticks, s) \<leftarrow>
         (if prvTestWaitCondition uxCurrentEventBits uxBitsToWaitFor xWaitForAllBits then
            Some (uxCurrentEventBits, 0,
              if xClearOnExit then set_event_bits a (uxCurrentEventBits AND NOT uxBitsToWaitFor) s else s)
          else if xTicks = 0 then Some (uxCurrentEventBits, 0, s)
          else do {
            let uxControlBits = (if xClearOnExit then eventCLEAR_EVENTS_ON_EXIT_BIT else 0)
                  OR (if xWaitForAllBits then eventWAIT_FOR_ALL_BITS else 0);
            s \<leftarrow> place_for_bits a (uxBitsToWaitFor OR uxControlBits) xTicks s;
            Some (0, xTicks, s)
          });
       s \<leftarrow> w 1 s;
       (already, k) \<leftarrow> xTaskResumeAll (kern s);
       let s = s\<lparr>kern := k\<rparr>;
       if ticks \<noteq> 0 then do {
         (uxReturn, s) \<leftarrow> block_for_bits w already s;
         let (uxReturn, s) =
           (if uxReturn AND eventUNBLOCKED_DUE_TO_BIT_SET = 0 then
              (let r = event_bits a s in
               (r, if prvTestWaitCondition r uxBitsToWaitFor xWaitForAllBits \<and> xClearOnExit
                   then set_event_bits a (r AND NOT uxBitsToWaitFor) s else s))
            else (uxReturn, s));
         Some (uxReturn AND NOT eventEVENT_BITS_CONTROL_BYTES, s)
       }
       else Some (uxReturn, s)
     }"

text \<open>In a rendezvous the bits are set in the suspended section; \<open>xEventGroupSetBits\<close> nests its own.\<close>

definition xEventGroupSync :: "windows \<Rightarrow> u32 \<Rightarrow> u32 \<Rightarrow> u32 \<Rightarrow> u32 \<Rightarrow> rtos \<Rightarrow> (u32 \<times> rtos) option" where
  "xEventGroupSync w a uxBitsToSet uxBitsToWaitFor xTicks s =
     do {
       s \<leftarrow> w 0 (on_kern vTaskSuspendAll s);
       let uxOriginalBitValue = event_bits a s;
       (_, s) \<leftarrow> xEventGroupSetBits (\<lambda>i. w (3 + i)) a uxBitsToSet s;
       (uxReturn, ticks, s) \<leftarrow>
         (if (uxOriginalBitValue OR uxBitsToSet) AND uxBitsToWaitFor = uxBitsToWaitFor then
            Some (uxOriginalBitValue OR uxBitsToSet, 0, set_event_bits a (event_bits a s AND NOT uxBitsToWaitFor) s)
          else if xTicks \<noteq> 0 then do {
            s \<leftarrow> place_for_bits a (uxBitsToWaitFor OR eventCLEAR_EVENTS_ON_EXIT_BIT OR eventWAIT_FOR_ALL_BITS) xTicks s;
            Some (0, xTicks, s)
          }
          else Some (event_bits a s, 0, s));
       s \<leftarrow> w 1 s;
       (already, k) \<leftarrow> xTaskResumeAll (kern s);
       let s = s\<lparr>kern := k\<rparr>;
       if ticks \<noteq> 0 then do {
         (uxReturn, s) \<leftarrow> block_for_bits w already s;
         let (uxReturn, s) =
           (if uxReturn AND eventUNBLOCKED_DUE_TO_BIT_SET = 0 then
              (let r = event_bits a s in
               (r, if r AND uxBitsToWaitFor = uxBitsToWaitFor then set_event_bits a (r AND NOT uxBitsToWaitFor) s else s))
            else (uxReturn, s));
         Some (uxReturn AND NOT eventEVENT_BITS_CONTROL_BYTES, s)
       }
       else Some (uxReturn, s)
     }"

section \<open>Deletion\<close>

text \<open>The loop ends because every round takes a task off the list (shown with the properties).\<close>

partial_function (option) delete_loop :: "klist \<Rightarrow> kernel \<Rightarrow> kernel option" where
  "delete_loop l k =
     (case kitems k l of
        [] \<Rightarrow> Some k
      | i # _ \<Rightarrow>
          (case vTaskRemoveFromUnorderedEventList i eventUNBLOCKED_DUE_TO_BIT_SET k of
             None \<Rightarrow> None | Some k \<Rightarrow> delete_loop l k))"

definition vEventGroupDelete :: "u32 \<Rightarrow> rtos \<Rightarrow> rtos option" where
  "vEventGroupDelete a s =
     do {
       let s = on_kern vTaskSuspendAll s;
       k \<leftarrow> delete_loop (waiting_bits a) (kern s);
       s \<leftarrow> vPortFree a (s\<lparr>kern := k\<rparr>);
       (_, k) \<leftarrow> xTaskResumeAll (kern s);
       Some (s\<lparr>kern := k\<rparr>)
     }"

end
