(* ===== verification/Event_Group_Properties.thy ===== *)
theory Event_Group_Properties
  imports Event_Group Queue_Demo
begin

text \<open>
  What event groups promise: setting bits wakes exactly the tasks whose condition holds and
  hands them the bits, a task that waits gets bits that satisfy its condition, the last task
  to arrive at a rendezvous releases the others, and deletion releases everybody.
\<close>

section \<open>Waking a task from an event group\<close>

text \<open>What changes in the kernel when \<open>t\<close> is woken with the value \<open>v\<close>.\<close>

definition woken_with :: "task \<Rightarrow> u32 \<Rightarrow> kernel \<Rightarrow> kernel \<Rightarrow> bool" where
  "woken_with t v k k' \<longleftrightarrow> pxCurrentTCB k' = pxCurrentTCB k \<and> tcbs k' = tcbs k
     \<and> uxSchedulerSuspended k' = uxSchedulerSuspended k \<and> uxPendedTicks k' = uxPendedTicks k
     \<and> uxCurrentNumberOfTasks k' = uxCurrentNumberOfTasks k \<and> ready k' t
     \<and> item_value k' = (item_value k)(EventItem t := v OR taskEVENT_LIST_ITEM_VALUE_IN_USE)
     \<and> (\<forall>j. j \<noteq> StateItem t \<longrightarrow> container k' j = (if j = EventItem t then None else container k j))"

lemma remove_for_bits:
  assumes "reach idle k" and "container k (EventItem t) = Some l"
  shows "\<exists>k'. vTaskRemoveFromUnorderedEventList (EventItem t) v k = Some k' \<and> reach idle k' \<and> woken_with t v k k'"
proof -
  obtain T where I: "sinv idle T k" using reach_inv [OF assms(1)] by blast
  note D = sinv0D [OF sinvD(1) [OF I]]
  obtain c where c: "pxCurrentTCB k = Some c" using D(2) by blast
  have t: "t \<in> T" using kinvD(6) [OF D(1) assms(2)] by blast
  obtain m where m: "container k (StateItem t) = Some m" using D(4) [OF t] by blast
  let ?v = "k_set_value (EventItem t) (v OR taskEVENT_LIST_ITEM_VALUE_IN_USE) k"
  let ?k = "flag_if (prio k c < prio k t) (k_make_ready t (k_unlist (EventItem t) ?v))"
  have eq: "vTaskRemoveFromUnorderedEventList (EventItem t) v k = Some ?k"
    using assms(2) m c kinvD(9) [OF D(1) t]
    by (simp add: vTaskRemoveFromUnorderedEventList_def k_remove_unlist make_ready_eq flag_if_def Let_def)
  have "kguard idle (RemoveFromUnordered t v) k" using assms(2) by (simp add: kguard_defs)
  from reach.step [OF assms(1) this] eq have "reach idle ?k" by simp
  moreover have "woken_with t v k ?k"
    by (auto simp: woken_with_def ready_def fun_eq_iff flag_if_def)
  ultimately show ?thesis using eq by blast
qed

section \<open>The loop over the waiting tasks\<close>

definition met :: "u32 \<Rightarrow> item list \<Rightarrow> kernel \<Rightarrow> task \<Rightarrow> bool" where
  "met bits is k t \<longleftrightarrow> EventItem t \<in> set is \<and> wait_met bits (item_value k (EventItem t))"

text \<open>All the tasks of \<open>met\<close> are woken with \<open>v\<close>, the others are left alone.\<close>

definition all_woken :: "(task \<Rightarrow> bool) \<Rightarrow> u32 \<Rightarrow> kernel \<Rightarrow> kernel \<Rightarrow> bool" where
  "all_woken P v k k' \<longleftrightarrow> pxCurrentTCB k' = pxCurrentTCB k \<and> tcbs k' = tcbs k
     \<and> uxSchedulerSuspended k' = uxSchedulerSuspended k \<and> uxPendedTicks k' = uxPendedTicks k
     \<and> uxCurrentNumberOfTasks k' = uxCurrentNumberOfTasks k
     \<and> (\<forall>t. P t \<longrightarrow> ready k' t \<and> item_value k' (EventItem t) = v OR taskEVENT_LIST_ITEM_VALUE_IN_USE
            \<and> container k' (EventItem t) = None)
     \<and> (\<forall>t. \<not> P t \<longrightarrow> item_value k' (EventItem t) = item_value k (EventItem t)
            \<and> container k' (EventItem t) = container k (EventItem t) \<and> container k' (StateItem t) = container k (StateItem t))"

lemma all_woken_refl: "(\<And>t. \<not> P t) \<Longrightarrow> all_woken P v k k"
  by (simp add: all_woken_def)

lemma all_woken_ready: "all_woken P v k k' \<Longrightarrow> ready k t \<Longrightarrow> ready k' t"
  by (cases "P t") (auto simp: all_woken_def ready_def)

lemma all_woken_step:
  assumes "woken_with t v k k1" and "all_woken P v k1 k'" and "\<not> P t"
  shows "all_woken (\<lambda>u. u = t \<or> P u) v k k'"
  using assms unfolding woken_with_def all_woken_def by (auto simp: ready_def)

lemma set_bits_loop_effect:
  assumes "reach idle k" and "distinct is" and "\<forall>i\<in>set is. (\<exists>t. i = EventItem t) \<and> container k i \<noteq> None"
  shows "\<exists>r k'. set_bits_loop bits is clear k = Some (r, k') \<and> reach idle k'
    \<and> all_woken (met bits is k) (bits OR eventUNBLOCKED_DUE_TO_BIT_SET) k k'
    \<and> (\<forall>n. bit r n \<longleftrightarrow> bit clear n \<or> (\<exists>t. met bits is k t \<and> bit (bits_to_clear (item_value k (EventItem t))) n))"
  using assms
proof (induction "is" arbitrary: clear k)
  case Nil
  then show ?case by (simp add: met_def all_woken_refl)
next
  case (Cons i js)
  obtain t l where i: "i = EventItem t" and l: "container k (EventItem t) = Some l" using Cons.prems(3) by auto
  have nt: "EventItem t \<notin> set js" using Cons.prems(2) i by simp
  show ?case
  proof (cases "wait_met bits (item_value k i)")
    case False
    obtain r k' where R: "set_bits_loop bits js clear k = Some (r, k')" "reach idle k'"
      "all_woken (met bits js k) (bits OR eventUNBLOCKED_DUE_TO_BIT_SET) k k'"
      "\<forall>n. bit r n \<longleftrightarrow> bit clear n \<or> (\<exists>t. met bits js k t \<and> bit (bits_to_clear (item_value k (EventItem t))) n)"
      using Cons.IH [of k clear] Cons.prems by auto
    have "met bits (i # js) k = met bits js k" using False i by (auto simp: met_def fun_eq_iff)
    then show ?thesis using R False by (simp add: Let_def)
  next
    case True
    let ?v = "bits OR eventUNBLOCKED_DUE_TO_BIT_SET"
    obtain k1 where 1: "vTaskRemoveFromUnorderedEventList (EventItem t) ?v k = Some k1" "reach idle k1" "woken_with t ?v k k1"
      using remove_for_bits [OF Cons.prems(1) l] by blast
    have same: "item_value k1 j = item_value k j" "container k1 j = container k j" if "j \<in> set js" for j
      using that nt Cons.prems(3) 1(3) by (auto simp: woken_with_def)
    have m1: "met bits js k1 = met bits js k" using same(1) by (auto simp: met_def fun_eq_iff)
    have "\<forall>j\<in>set js. (\<exists>t. j = EventItem t) \<and> container k1 j \<noteq> None" using Cons.prems(3) same(2) by auto
    then obtain r k' where R: "set_bits_loop bits js (clear OR bits_to_clear (item_value k i)) k1 = Some (r, k')" "reach idle k'"
      "all_woken (met bits js k) ?v k1 k'"
      "\<forall>n. bit r n \<longleftrightarrow> bit (clear OR bits_to_clear (item_value k i)) n \<or>
         (\<exists>t. met bits js k1 t \<and> bit (bits_to_clear (item_value k1 (EventItem t))) n)"
      using Cons.IH [OF 1(2), of "clear OR bits_to_clear (item_value k i)"] Cons.prems(2) m1 by auto
    have m: "met bits (i # js) k = (\<lambda>u. u = t \<or> met bits js k u)" using True i by (auto simp: met_def fun_eq_iff)
    have "\<not> met bits js k t" using nt by (simp add: met_def)
    from all_woken_step [OF 1(3) R(3) this] have W: "all_woken (met bits (i # js) k) ?v k k'" by (simp add: m)
    have "bit r n \<longleftrightarrow> bit clear n \<or> (\<exists>u. met bits (i # js) k u \<and> bit (bits_to_clear (item_value k (EventItem u))) n)" for n
    proof -
      have "(\<exists>u. met bits js k1 u \<and> bit (bits_to_clear (item_value k1 (EventItem u))) n) \<longleftrightarrow>
            (\<exists>u. met bits js k u \<and> bit (bits_to_clear (item_value k (EventItem u))) n)"
        using same(1) m1 by (auto simp: met_def)
      moreover have "(\<exists>u. met bits (i # js) k u \<and> bit (bits_to_clear (item_value k (EventItem u))) n) \<longleftrightarrow>
            bit (bits_to_clear (item_value k i)) n \<or> (\<exists>u. met bits js k u \<and> bit (bits_to_clear (item_value k (EventItem u))) n)"
        unfolding m using i by auto
      ultimately show ?thesis using R(4) by (simp add: bit_or_iff)
    qed
    then show ?thesis using W R(1,2) 1(1) True i by (simp add: Let_def)
  qed
qed

section \<open>Setting bits\<close>

lemma resume_ready:
  assumes "reach idle k" and "pxCurrentTCB k = Some c" and "ready k c"
  shows "\<exists>b k'. xTaskResumeAll k = Some (b, k') \<and> reach idle k'
    \<and> resumed (k\<lparr>uxSchedulerSuspended := uxSchedulerSuspended k - 1\<rparr>) k'"
proof -
  obtain T where "sinv idle T k" using reach_inv [OF assms(1)] by blast
  then obtain b k' where R: "xTaskResumeAll k = Some (b, k')"
    "resumed (k\<lparr>uxSchedulerSuspended := uxSchedulerSuspended k - 1\<rparr>) k'"
    using resume_all_sinv0 sinvD(1) by blast
  have "kguard idle ResumeAllPlain k" using assms(2,3) by (simp add: kguard_defs)
  from reach_call [OF assms(1) this] R show ?thesis by auto
qed

lemma resume_blocked:
  assumes "reach idle k"
  shows "\<exists>b k'. xTaskResumeAll k = Some (b, k') \<and> reach idle (yield_unless b k')
    \<and> resumed (k\<lparr>uxSchedulerSuspended := uxSchedulerSuspended k - 1\<rparr>) k'"
proof -
  obtain T where "sinv idle T k" using reach_inv [OF assms(1)] by blast
  then obtain b k' where R: "xTaskResumeAll k = Some (b, k')"
    "resumed (k\<lparr>uxSchedulerSuspended := uxSchedulerSuspended k - 1\<rparr>) k'"
    using resume_all_sinv0 sinvD(1) by blast
  have "kguard idle ResumeAllYield k" by (simp add: kguard_defs)
  from reach_call [OF assms(1) this] R show ?thesis by auto
qed

text \<open>With no tick pended and no task pending, resuming the scheduler moves nothing.\<close>

definition nothing_pending :: "kernel \<Rightarrow> bool" where
  "nothing_pending k \<longleftrightarrow> uxPendedTicks k = 0 \<and> kitems k PendingReadyList = []"

lemma resume_still:
  assumes "nothing_pending k" and "xTaskResumeAll k = Some (b, k')"
  shows "klists k' = klists k \<and> uxPendedTicks k' = 0"
  using assms unfolding nothing_pending_def
  by (subst (asm) xTaskResumeAll_def, subst (asm) pending_ready_loop.simps)
    (auto simp: Let_def split: if_splits)

lemma event_bits_simps [simp]:
  "event_bits a (set_event_bits a v s) = v" "event_bits a (on_kern f s) = event_bits a s"
  "event_bits a (s\<lparr>kern := k\<rparr>) = event_bits a s"
  "kern (set_event_bits a v s) = kern s" "set_event_bits a v (set_event_bits a u s) = set_event_bits a v s"
  "set_event_bits a v (s\<lparr>kern := k\<rparr>) = (set_event_bits a v s)\<lparr>kern := k\<rparr>"
  by (simp_all add: event_bits_def set_event_bits_def on_kern_def)

definition waits_met :: "u32 \<Rightarrow> u32 \<Rightarrow> kernel \<Rightarrow> task \<Rightarrow> bool" where
  "waits_met a bits k t \<longleftrightarrow> container k (EventItem t) = Some (waiting_bits a) \<and> wait_met bits (item_value k (EventItem t))"

text \<open>The bits that stay set: those no woken task asked to clear.\<close>

definition remaining :: "u32 \<Rightarrow> u32 \<Rightarrow> kernel \<Rightarrow> u32 \<Rightarrow> bool" where
  "remaining a bits k r \<longleftrightarrow> (\<forall>n. bit r n \<longleftrightarrow>
     bit bits n \<and> \<not> (\<exists>t. waits_met a bits k t \<and> bit (bits_to_clear (item_value k (EventItem t))) n))"

lemma set_bits_effect:
  assumes "reach idle (kern s)" and "pxCurrentTCB (kern s) = Some c" and "ready (kern s) c"
    and "uxSchedulerSuspended (kern s) + 1 \<noteq> 0"
  shows "\<exists>s' k1. xEventGroupSetBits (\<lambda>_. Some) a b s = Some (event_bits a s', s')
    \<and> s' = set_event_bits a (event_bits a s') (s\<lparr>kern := kern s'\<rparr>)
    \<and> reach idle (kern s') \<and> remaining a (event_bits a s OR b) (kern s) (event_bits a s')
    \<and> all_woken (waits_met a (event_bits a s OR b) (kern s)) ((event_bits a s OR b) OR eventUNBLOCKED_DUE_TO_BIT_SET) (kern s) k1
    \<and> resumed k1 (kern s') \<and> (nothing_pending (kern s) \<longrightarrow> klists (kern s') = klists k1 \<and> nothing_pending (kern s'))"
proof -
  let ?k = "vTaskSuspendAll (kern s)" and ?bits = "event_bits a s OR b" and ?is = "kitems (kern s) (waiting_bits a)"
  obtain T where "sinv idle T (kern s)" using reach_inv [OF assms(1)] by blast
  then have K: "kinv T (kern s)" by (rule sinvD)
  have r: "reach idle ?k" using reach_call [OF assms(1), of SuspendAll] assms(4) by (simp add: kguard_defs)
  have d: "distinct ?is" by (rule ends.distinct_items [OF kinvD(1) [OF K]])
  have evs: "\<forall>i\<in>set ?is. (\<exists>t. i = EventItem t) \<and> container ?k i \<noteq> None"
  proof
    fix i assume "i \<in> set ?is"
    then have ci: "container (kern s) i = Some (waiting_bits a)" using kinvD(12) [OF K] by simp
    then show "(\<exists>t. i = EventItem t) \<and> container ?k i \<noteq> None"
      using kinvD(7) [OF K ci] by (cases i) (auto simp: vTaskSuspendAll_def)
  qed
  have P: "met ?bits ?is ?k = waits_met a ?bits (kern s)"
    using kinvD(12) [OF K] by (auto simp: met_def waits_met_def vTaskSuspendAll_def fun_eq_iff)
  obtain r k1 where L: "set_bits_loop ?bits ?is 0 ?k = Some (r, k1)" "reach idle k1"
    "all_woken (waits_met a ?bits (kern s)) (?bits OR eventUNBLOCKED_DUE_TO_BIT_SET) ?k k1"
    "\<forall>n. bit r n \<longleftrightarrow> (\<exists>t. waits_met a ?bits (kern s) t \<and> bit (bits_to_clear (item_value (kern s) (EventItem t))) n)"
    using set_bits_loop_effect [OF r d evs, of ?bits 0] unfolding P by (auto simp: vTaskSuspendAll_def)
  have "ready ?k c" using assms(3) by (simp add: vTaskSuspendAll_def ready_def)
  then have c1: "pxCurrentTCB k1 = Some c" "ready k1 c"
    using all_woken_ready [OF L(3)] L(3) assms(2) by (simp_all add: all_woken_def vTaskSuspendAll_def)
  obtain y k2 where R: "xTaskResumeAll k1 = Some (y, k2)" "reach idle k2"
    "resumed (k1\<lparr>uxSchedulerSuspended := uxSchedulerSuspended k1 - 1\<rparr>) k2"
    using resume_ready [OF L(2) c1] by blast
  let ?k1 = "k1\<lparr>uxSchedulerSuspended := uxSchedulerSuspended k1 - 1\<rparr>"
  let ?s = "set_event_bits a (?bits AND NOT r) (s\<lparr>kern := k2\<rparr>)"
  have W: "all_woken (waits_met a ?bits (kern s)) (?bits OR eventUNBLOCKED_DUE_TO_BIT_SET) (kern s) ?k1"
    using L(3) by (auto simp: all_woken_def vTaskSuspendAll_def ready_def)
  have np: "klists k2 = klists k1 \<and> nothing_pending k2" if "nothing_pending (kern s)"
  proof -
    obtain T1 where "sinv idle T1 k1" using reach_inv [OF L(2)] by blast
    then have K1: "kinv T1 k1" by (rule sinvD)
    have "container k1 i \<noteq> Some PendingReadyList" for i
    proof -
      have "container (kern s) j \<noteq> Some PendingReadyList" for j
        using that kinvD(12) [OF K, of j PendingReadyList] by (simp add: nothing_pending_def)
      note none = this
      show ?thesis
      proof (cases i)
        case (StateItem t)
        then show ?thesis using kinvD(5) [OF K1, of t PendingReadyList] by auto
      next
        case (EventItem t)
        have "container k1 (EventItem t) \<in> {None, container (kern s) (EventItem t)}"
          using L(3) by (cases "waits_met a ?bits (kern s) t") (simp_all add: all_woken_def vTaskSuspendAll_def)
        then show ?thesis using none [of "EventItem t"] EventItem by auto
      qed
    qed
    then have "kitems k1 PendingReadyList = []" using ends.items_empty [OF kinvD(1) [OF K1]] by simp
    moreover have "uxPendedTicks k1 = 0" using that L(3) by (simp add: all_woken_def nothing_pending_def vTaskSuspendAll_def)
    ultimately show ?thesis using resume_still [OF _ R(1)] by (simp add: nothing_pending_def)
  qed
  have "remaining a ?bits (kern s) (?bits AND NOT r)"
    using L(4) by (auto simp: remaining_def bit_and_iff bit_not_iff dest: bit_imp_le_length)
  moreover have "xEventGroupSetBits (\<lambda>_. Some) a b s = Some (event_bits a ?s, ?s)"
    using L(1) R(1) by (simp add: xEventGroupSetBits_def on_kern_def vTaskSuspendAll_def)
  ultimately show ?thesis using R(2,3) W np by (intro exI [of _ ?s] exI [of _ ?k1]) simp
qed

text \<open>
  C17. Setting bits wakes exactly the tasks whose condition the bits meet: each of them is
  ready and finds all the bits in its event item, every other task that waits for the group
  keeps waiting for the same bits, and of the bits those stay set that no woken task asked to
  clear.
\<close>

theorem set_bits_wakes_exactly:
  assumes "reach idle (kern s)" and "pxCurrentTCB (kern s) = Some c" and "ready (kern s) c"
    and "uxSchedulerSuspended (kern s) + 1 \<noteq> 0" and "nothing_pending (kern s)"
  shows "\<exists>r s'. xEventGroupSetBits (\<lambda>_. Some) a b s = Some (r, s') \<and> r = event_bits a s' \<and> reach idle (kern s')
    \<and> (\<forall>t. container (kern s) (EventItem t) = Some (TasksWaitingForBits a) \<longrightarrow>
        (if wait_met (event_bits a s OR b) (item_value (kern s) (EventItem t))
         then ready (kern s') t \<and> item_value (kern s') (EventItem t)
                = ((event_bits a s OR b) OR eventUNBLOCKED_DUE_TO_BIT_SET) OR taskEVENT_LIST_ITEM_VALUE_IN_USE
         else container (kern s') (EventItem t) = Some (TasksWaitingForBits a)
                \<and> container (kern s') (StateItem t) = container (kern s) (StateItem t)
                \<and> item_value (kern s') (EventItem t) = item_value (kern s) (EventItem t)))
    \<and> (\<forall>n. bit r n \<longleftrightarrow> bit (event_bits a s OR b) n
        \<and> \<not> (\<exists>t. container (kern s) (EventItem t) = Some (TasksWaitingForBits a)
               \<and> wait_met (event_bits a s OR b) (item_value (kern s) (EventItem t))
               \<and> bit (bits_to_clear (item_value (kern s) (EventItem t))) n))"
proof -
  let ?P = "waits_met a (event_bits a s OR b) (kern s)"
  obtain s' k1 where S: "xEventGroupSetBits (\<lambda>_. Some) a b s = Some (event_bits a s', s')" "reach idle (kern s')"
    "remaining a (event_bits a s OR b) (kern s) (event_bits a s')"
    "all_woken ?P ((event_bits a s OR b) OR eventUNBLOCKED_DUE_TO_BIT_SET) (kern s) k1"
    "resumed k1 (kern s')" "klists (kern s') = klists k1"
    using set_bits_effect [OF assms(1-4), of a b] assms(5) by blast
  have W: "ready (kern s') t \<and> item_value (kern s') (EventItem t)
      = ((event_bits a s OR b) OR eventUNBLOCKED_DUE_TO_BIT_SET) OR taskEVENT_LIST_ITEM_VALUE_IN_USE" if "?P t" for t
    using that S(4,5) by (simp add: all_woken_def resumed_def)
  have N: "container (kern s') (EventItem t) = container (kern s) (EventItem t)
      \<and> container (kern s') (StateItem t) = container (kern s) (StateItem t)
      \<and> item_value (kern s') (EventItem t) = item_value (kern s) (EventItem t)" if "\<not> ?P t" for t
    using that S(4) by (simp add: all_woken_def S(6))
  show ?thesis
    using S(1,2,3) W N by (intro exI [of _ "event_bits a s'"] exI [of _ s']) (simp add: remaining_def waits_met_def)
qed

section \<open>Waiting for bits\<close>

text \<open>A context switch keeps every item where it is and its value.\<close>

lemma switch_effect:
  assumes "reach idle k" and "uxSchedulerSuspended k = 0"
  shows "\<exists>k' c. xPortPendSVHandler k = Some k' \<and> reach idle k' \<and> pxCurrentTCB k' = Some c \<and> ready k' c
    \<and> container k' = container k \<and> item_value k' = item_value k \<and> tcbs k' = tcbs k
    \<and> uxSchedulerSuspended k' = 0 \<and> (nothing_pending k \<longrightarrow> nothing_pending k')"
proof -
  obtain T where I: "sinv idle T k" using reach_inv [OF assms(1)] by blast
  let ?s = "(k\<lparr>pendsv := False\<rparr>)\<lparr>xYieldPending := False\<rparr>"
  have S: "kinv T ?s" "ready ?s idle"
    using sinvD(3) [OF I] sinv0D(3) [OF sinvD(1,4)] I by (auto simp: ready_def)
  note sel = select_correct [OF S]
  have e: "xPortPendSVHandler k = Some (k_select ?s)"
    using assms(2) sel(1) by (simp add: xPortPendSVHandler_def vTaskSwitchContext_def)
  have "reach idle (k_select ?s)" using reach_call [OF assms(1), of PendSV] e by (simp add: kguard_defs)
  moreover obtain c where "pxCurrentTCB (k_select ?s) = Some c" "ready (k_select ?s) c"
    using sel(3) by (auto simp: ready_def)
  moreover have "uxPendedTicks (k_select ?s) = uxPendedTicks k" by (simp add: k_select_def Let_def)
  ultimately show ?thesis using e assms(2)
    by (intro exI [of _ "k_select ?s"] exI [of _ c]) (simp add: nothing_pending_def)
qed

text \<open>The current task \<open>c\<close> goes to wait for the bits with the value \<open>v\<close> in its event item.\<close>

lemma place_effect:
  assumes "reach idle k" and "executing idle k" and "pxCurrentTCB k = Some c" and "container k (EventItem c) = None"
    and "uxSchedulerSuspended k \<noteq> 0" and "0 < d" and "nothing_pending k"
  shows "\<exists>k'. vTaskPlaceOnUnorderedEventList (waiting_bits a) v d k = Some k' \<and> reach idle k' \<and> pxCurrentTCB k' = Some c
    \<and> container k' (EventItem c) = Some (waiting_bits a)
    \<and> item_value k' (EventItem c) = v OR taskEVENT_LIST_ITEM_VALUE_IN_USE
    \<and> (\<forall>t. t \<noteq> c \<longrightarrow> container k' (EventItem t) = container k (EventItem t) \<and> item_value k' (EventItem t) = item_value k (EventItem t))
    \<and> uxSchedulerSuspended k' = uxSchedulerSuspended k \<and> nothing_pending k' \<and> (\<forall>p. container k' (StateItem c) \<noteq> Some (ReadyList p))"
proof -
  have r: "ready k c" using assms(2,3) by (auto simp: executing_def)
  let ?i = "k_insert_end (waiting_bits a) (EventItem c) (k_set_value (EventItem c) (v OR taskEVENT_LIST_ITEM_VALUE_IN_USE) k)"
  have i: "pxCurrentTCB ?i = Some c" "ready ?i c" using assms(3) r by (simp_all add: ready_def)
  let ?k = "if d = portMAX_DELAY then k_insert_end SuspendedTaskList (StateItem c) (k_leave c ?i)
      else k_delay c (xTickCount ?i + d) (k_leave c ?i)"
  have e: "vTaskPlaceOnUnorderedEventList (waiting_bits a) v d k = Some ?k"
    using add_current_eq [OF i, of d True] assms(3) by (simp add: vTaskPlaceOnUnorderedEventList_def Let_def)
  have "kguard idle (PlaceOnUnordered (waiting_bits a) v d) k"
    using assms(2-6) by (auto simp: kguard_defs event_list_def)
  from reach_call [OF assms(1) this] e have rk: "reach idle ?k" by simp
  then obtain T where "sinv idle T ?k" using reach_inv by blast
  then have K: "kinv T ?k" by (rule sinvD)
  obtain T0 where "sinv idle T0 k" using reach_inv [OF assms(1)] by blast
  then have K0: "kinv T0 k" by (rule sinvD)
  have none: "container k i \<noteq> Some PendingReadyList" for i
    using kinvD(12) [OF K0, of i PendingReadyList] assms(7) by (simp add: nothing_pending_def)
  have "container ?k i \<noteq> Some PendingReadyList" for i
  proof (cases i)
    case (StateItem t)
    have "\<not> admits PendingReadyList (StateItem t)" by simp
    then show ?thesis using kinvD(5) [OF K] StateItem by blast
  next
    case (EventItem t)
    then show ?thesis using none [of "EventItem t"] by simp
  qed
  then have "kitems ?k PendingReadyList = []" using ends.items_empty [OF kinvD(1) [OF K]] by simp
  then have "nothing_pending ?k" using assms(7) by (simp add: nothing_pending_def)
  moreover have "container ?k (StateItem c) \<noteq> Some (ReadyList p)" for p using delay_okD(1) [OF kinvD(4) [OF K0]] by auto
  ultimately show ?thesis using e rk assms(3) by (intro exI [of _ ?k]) simp
qed

text \<open>The suspended section of a wait and the context switch after it.\<close>

lemma blocked_and_switched:
  assumes "can_block idle c k" and "uxSchedulerSuspended k = 0" and "nothing_pending k" and "d \<noteq> 0"
  obtains k1 y k2 k3 e where "vTaskPlaceOnUnorderedEventList (waiting_bits a) v d (vTaskSuspendAll k) = Some k1"
    and "xTaskResumeAll k1 = Some (y, k2)" and "xPortPendSVHandler (if y then k2 else portYIELD k2) = Some k3"
    and "reach idle k3" and "pxCurrentTCB k3 = Some e" and "ready k3 e" and "uxSchedulerSuspended k3 = 0" and "nothing_pending k3"
    and "container k3 (EventItem c) = Some (waiting_bits a)" and "item_value k3 (EventItem c) = v OR taskEVENT_LIST_ITEM_VALUE_IN_USE"
    and "\<And>t. t \<noteq> c \<Longrightarrow> container k3 (EventItem t) = container k (EventItem t)"
    and "\<And>p. container k2 (StateItem c) \<noteq> Some (ReadyList p)" and "container k2 (EventItem c) = Some (waiting_bits a)" and "e \<noteq> c"
proof -
  let ?k0 = "vTaskSuspendAll k"
  have cb: "reach idle k" "pxCurrentTCB k = Some c" "ready k c" "c \<noteq> idle" "container k (EventItem c) = None"
    using assms(1) by (simp_all add: can_block_def)
  have r0: "reach idle ?k0" using reach_call [OF cb(1), of SuspendAll] assms(2) by (simp add: kguard_defs)
  have ex: "executing idle ?k0" using cb(2-4) by (simp add: executing_def vTaskSuspendAll_def ready_def)
  obtain k1 where 1: "vTaskPlaceOnUnorderedEventList (waiting_bits a) v d ?k0 = Some k1"
    "reach idle k1" "container k1 (EventItem c) = Some (waiting_bits a)" "item_value k1 (EventItem c) = v OR taskEVENT_LIST_ITEM_VALUE_IN_USE"
    "\<And>t. t \<noteq> c \<Longrightarrow> container k1 (EventItem t) = container k (EventItem t)"
    "uxSchedulerSuspended k1 = 1" "nothing_pending k1" "\<And>p. container k1 (StateItem c) \<noteq> Some (ReadyList p)"
    using place_effect [OF r0 ex, of c d a v] cb assms(2,3,4)
    by (auto simp: vTaskSuspendAll_def nothing_pending_def word_gt_0)
  obtain y k2 where 2: "xTaskResumeAll k1 = Some (y, k2)" "reach idle (yield_unless y k2)"
    "resumed (k1\<lparr>uxSchedulerSuspended := uxSchedulerSuspended k1 - 1\<rparr>) k2"
    using resume_blocked [OF 1(2)] by blast
  let ?k2 = "if y then k2 else portYIELD k2"
  have kl2: "klists k2 = klists k1" "nothing_pending k2" using resume_still [OF 1(7) 2(1)] 1(7) by (auto simp: nothing_pending_def)
  have s2: "uxSchedulerSuspended ?k2 = 0" "nothing_pending ?k2" "reach idle ?k2" "klists ?k2 = klists k1"
    using 2(2,3) 1(6) kl2 by (simp_all add: resumed_def nothing_pending_def yield_unless_def)
  obtain k3 e where "xPortPendSVHandler ?k2 = Some k3" "reach idle k3" "pxCurrentTCB k3 = Some e" "ready k3 e"
    "container k3 = container k1" "item_value k3 = item_value k1" "uxSchedulerSuspended k3 = 0" "nothing_pending k3"
    using switch_effect [OF s2(3,1)] s2(2,4) by auto
  moreover from calculation have "e \<noteq> c" using 1(8) by (auto simp: ready_def)
  moreover have "container k2 = container k1" using kl2(1) by simp
  ultimately show ?thesis using 1 2(1) by (intro that [of k1 y k2 k3 e]) simp_all
qed

lemma demo_nothing_pending: "nothing_pending demo"
  by (simp add: nothing_pending_def demo_state)

lemma demo_bits [simp]: "event_bits a rtos0 = 0"
  by (simp add: event_bits_def rtos0_def)

text \<open>A concrete kernel in which task 2 waits for the group at 7 with the value \<open>v\<close>, and only it.\<close>

lemma demo_waiter:
  obtains k e where "reach 0 k" and "pxCurrentTCB k = Some e" and "ready k e" and "uxSchedulerSuspended k = 0"
    and "nothing_pending k" and "container k (EventItem 2) = Some (TasksWaitingForBits 7)"
    and "item_value k (EventItem 2) = v OR taskEVENT_LIST_ITEM_VALUE_IN_USE"
    and "\<And>t. container k (EventItem t) = Some (TasksWaitingForBits 7) \<Longrightarrow> t = 2"
proof -
  have none: "container demo i \<noteq> Some (TasksWaitingForBits 7)" for i
    using demo_kinv demo_waiting(3) ends.items_empty [OF kinvD(1)] by blast
  have five: "(5 :: u32) \<noteq> 0" by simp
  obtain k e where k: "reach 0 k" "pxCurrentTCB k = Some e" "ready k e" "uxSchedulerSuspended k = 0" "nothing_pending k"
    "container k (EventItem 2) = Some (TasksWaitingForBits 7)"
    "item_value k (EventItem 2) = v OR taskEVENT_LIST_ITEM_VALUE_IN_USE"
    "\<And>t. t \<noteq> 2 \<Longrightarrow> container k (EventItem t) = container demo (EventItem t)"
    by (rule blocked_and_switched [OF demo_can_block demo_state(4) demo_nothing_pending five, of 7 v]) blast
  have "t = 2" if "container k (EventItem t) = Some (TasksWaitingForBits 7)" for t
    using k(8) [of t] none that by metis
  then show ?thesis using k(1-7) that by blast
qed

theorem set_bits_wakes_exactly_witness:
  "\<exists>k r s'. container k (EventItem 2) = Some (TasksWaitingForBits 7)
    \<and> xEventGroupSetBits (\<lambda>_. Some) 7 3 (rtos0\<lparr>kern := k\<rparr>) = Some (r, s') \<and> ready (kern s') 2"
proof -
  obtain k e where k: "reach 0 k" "pxCurrentTCB k = Some e" "ready k e" "uxSchedulerSuspended k = 0" "nothing_pending k"
    "container k (EventItem 2) = Some (TasksWaitingForBits 7)"
    "item_value k (EventItem 2) = 2 OR taskEVENT_LIST_ITEM_VALUE_IN_USE"
    by (rule demo_waiter [where v = 2])
  let ?s = "rtos0\<lparr>kern := k\<rparr>"
  have "wait_met 3 (2 OR taskEVENT_LIST_ITEM_VALUE_IN_USE)" by code_simp
  moreover obtain r s' where "xEventGroupSetBits (\<lambda>_. Some) 7 3 ?s = Some (r, s')"
    "\<forall>t. container (kern ?s) (EventItem t) = Some (TasksWaitingForBits 7) \<longrightarrow>
        (if wait_met (event_bits 7 ?s OR 3) (item_value (kern ?s) (EventItem t)) then ready (kern s') t else True)"
    using set_bits_wakes_exactly [of 0 ?s e 7 3] k(1-5) by auto
  ultimately show ?thesis using k(6,7) by (intro exI [of _ k] exI [of _ r] exI [of _ s']) auto
qed

text \<open>
  What happens while \<open>c\<close> waits: the context switches to another task, which sets the bits
  \<open>b\<close>, and later it switches back to \<open>c\<close>.
\<close>

definition set_meanwhile :: "u32 \<Rightarrow> u32 \<Rightarrow> task \<Rightarrow> windows" where
  "set_meanwhile a b c i s =
     (if i = 2 then
        do {
          k \<leftarrow> xPortPendSVHandler (kern s);
          (_, s) \<leftarrow> xEventGroupSetBits (\<lambda>_. Some) a b (s\<lparr>kern := k\<rparr>);
          Some (on_kern (\<lambda>k. k\<lparr>pxCurrentTCB := Some c\<rparr>) s)
        }
      else Some s)"

lemma set_meanwhile_simps [simp]:
  "set_meanwhile a b c 0 = Some" "set_meanwhile a b c (Suc 0) = Some" "set_meanwhile a b c 1 = Some"
  by (simp_all add: set_meanwhile_def fun_eq_iff)

definition wait_value :: "u32 \<Rightarrow> bool \<Rightarrow> bool \<Rightarrow> u32" where
  "wait_value v clr all = v OR ((if clr then eventCLEAR_EVENTS_ON_EXIT_BIT else 0) OR (if all then eventWAIT_FOR_ALL_BITS else 0))
     OR taskEVENT_LIST_ITEM_VALUE_IN_USE"

lemmas control_defs = eventCLEAR_EVENTS_ON_EXIT_BIT_def eventUNBLOCKED_DUE_TO_BIT_SET_def eventWAIT_FOR_ALL_BITS_def
  eventEVENT_BITS_CONTROL_BYTES_def taskEVENT_LIST_ITEM_VALUE_IN_USE_def

lemma control_bits:
  "bit eventCLEAR_EVENTS_ON_EXIT_BIT n \<longleftrightarrow> n = 24" "bit eventUNBLOCKED_DUE_TO_BIT_SET n \<longleftrightarrow> n = 25"
  "bit eventWAIT_FOR_ALL_BITS n \<longleftrightarrow> n = 26" "bit eventEVENT_BITS_CONTROL_BYTES n \<longleftrightarrow> 24 \<le> n \<and> n < 32"
  "bit taskEVENT_LIST_ITEM_VALUE_IN_USE n \<longleftrightarrow> n = 31"
proof -
  have p: "bit (push_bit m 1 :: u32) n \<longleftrightarrow> n = m" if "m < 32" for m
    using that by (auto simp: bit_exp_iff)
  have c: "eventCLEAR_EVENTS_ON_EXIT_BIT = push_bit 24 1" "eventUNBLOCKED_DUE_TO_BIT_SET = push_bit 25 1"
    "eventWAIT_FOR_ALL_BITS = push_bit 26 1" "taskEVENT_LIST_ITEM_VALUE_IN_USE = push_bit 31 1"
    "eventEVENT_BITS_CONTROL_BYTES = NOT (mask 24)"
    by (simp_all add: control_defs push_bit_eq_mult mask_eq_exp_minus_1)
  show "bit eventCLEAR_EVENTS_ON_EXIT_BIT n \<longleftrightarrow> n = 24" "bit eventUNBLOCKED_DUE_TO_BIT_SET n \<longleftrightarrow> n = 25"
    "bit eventWAIT_FOR_ALL_BITS n \<longleftrightarrow> n = 26" "bit taskEVENT_LIST_ITEM_VALUE_IN_USE n \<longleftrightarrow> n = 31"
    unfolding c by (rule p, simp)+
  show "bit eventEVENT_BITS_CONTROL_BYTES n \<longleftrightarrow> 24 \<le> n \<and> n < 32"
    unfolding c by (auto simp: bit_not_iff bit_mask_iff)
qed

lemma no_control_bit:
  assumes "v AND eventEVENT_BITS_CONTROL_BYTES = 0" and "24 \<le> n"
  shows "\<not> bit v n"
proof
  assume "bit v n"
  then have "bit (v AND eventEVENT_BITS_CONTROL_BYTES) n"
    using assms(2) bit_imp_le_length [of v n] by (simp add: bit_and_iff control_bits)
  then show False using assms(1) by simp
qed

lemma control_nonzero [simp]: "eventWAIT_FOR_ALL_BITS \<noteq> 0" "eventCLEAR_EVENTS_ON_EXIT_BIT \<noteq> 0"
  by (simp_all add: control_defs)

lemma wait_value_parts:
  assumes "v AND eventEVENT_BITS_CONTROL_BYTES = 0"
  shows "wait_value v clr all AND NOT eventEVENT_BITS_CONTROL_BYTES = v"
    and "wait_value v clr all AND eventEVENT_BITS_CONTROL_BYTES AND eventWAIT_FOR_ALL_BITS = (if all then eventWAIT_FOR_ALL_BITS else 0)"
    and "wait_value v clr all AND eventEVENT_BITS_CONTROL_BYTES AND eventCLEAR_EVENTS_ON_EXIT_BIT
      = (if clr then eventCLEAR_EVENTS_ON_EXIT_BIT else 0)"
  using no_control_bit [OF assms]
  by (auto intro!: bit_word_eqI simp: wait_value_def bit_and_iff bit_or_iff bit_not_iff control_bits split: if_splits)

lemma wait_met_value:
  assumes "v AND eventEVENT_BITS_CONTROL_BYTES = 0"
  shows "wait_met bits (wait_value v clr all) = prvTestWaitCondition bits v all"
    and "bits_to_clear (wait_value v clr all) = (if clr then v else 0)"
  unfolding wait_met_def bits_to_clear_def Let_def and.assoc [symmetric] wait_value_parts [OF assms, unfolded and.assoc [symmetric]]
  by (simp_all add: prvTestWaitCondition_def and.commute)

text \<open>What a woken task finds is unblocked, and without the control bits it is the bits that woke it.\<close>

lemma woken_value_parts:
  assumes "v AND eventEVENT_BITS_CONTROL_BYTES = 0"
  shows "((v OR eventUNBLOCKED_DUE_TO_BIT_SET) OR taskEVENT_LIST_ITEM_VALUE_IN_USE) AND NOT eventEVENT_BITS_CONTROL_BYTES = v"
    and "((v OR eventUNBLOCKED_DUE_TO_BIT_SET) OR taskEVENT_LIST_ITEM_VALUE_IN_USE) AND eventUNBLOCKED_DUE_TO_BIT_SET \<noteq> 0"
proof -
  show "((v OR eventUNBLOCKED_DUE_TO_BIT_SET) OR taskEVENT_LIST_ITEM_VALUE_IN_USE) AND NOT eventEVENT_BITS_CONTROL_BYTES = v"
    using no_control_bit [OF assms]
    by (auto intro!: bit_word_eqI simp: bit_and_iff bit_or_iff bit_not_iff control_bits)
  have "bit (((v OR eventUNBLOCKED_DUE_TO_BIT_SET) OR taskEVENT_LIST_ITEM_VALUE_IN_USE) AND eventUNBLOCKED_DUE_TO_BIT_SET) 25"
    by (simp add: bit_and_iff bit_or_iff control_bits)
  then show "((v OR eventUNBLOCKED_DUE_TO_BIT_SET) OR taskEVENT_LIST_ITEM_VALUE_IN_USE) AND eventUNBLOCKED_DUE_TO_BIT_SET \<noteq> 0"
    by (metis bit_0_eq bot_apply bot_bool_def)
qed

text \<open>
  A task that has to wait, from the call to its return. In \<open>s1\<close> the call has yielded; \<open>c\<close> is in no ready list, so
  another task \<open>d\<close> runs, sets bits and makes \<open>c\<close> ready again in \<open>s2\<close>. In \<open>s5\<close>, some later state, \<open>c\<close> runs again.
\<close>

lemma wait_until_set:
  assumes "can_block idle c (kern s)" and "uxSchedulerSuspended (kern s) = 0" and "nothing_pending (kern s)"
    and "\<forall>t. container (kern s) (EventItem t) \<noteq> Some (TasksWaitingForBits a)"
    and "event_bits a s AND eventEVENT_BITS_CONTROL_BYTES = 0" and "b AND eventEVENT_BITS_CONTROL_BYTES = 0"
    and "v AND eventEVENT_BITS_CONTROL_BYTES = 0" and "ticks \<noteq> 0"
    and "\<not> prvTestWaitCondition (event_bits a s) v all" and "prvTestWaitCondition (event_bits a s OR b) v all"
  shows "\<exists>s1 k d s2. (\<forall>p. container (kern s1) (StateItem c) \<noteq> Some (ReadyList p))
    \<and> container (kern s1) (EventItem c) = Some (TasksWaitingForBits a)
    \<and> xPortPendSVHandler (kern s1) = Some k \<and> pxCurrentTCB k = Some d \<and> d \<noteq> c \<and> ready k d
    \<and> xEventGroupSetBits (\<lambda>_. Some) a b (s1\<lparr>kern := k\<rparr>) = Some (event_bits a s2, s2) \<and> ready (kern s2) c
    \<and> event_bits a s2 = (if clr then (event_bits a s OR b) AND NOT v else event_bits a s OR b)
    \<and> (\<forall>w s5. w 0 = Some \<and> w 1 = Some \<and> w 2 s1 = Some s5 \<and> pxCurrentTCB (kern s5) = Some c
         \<and> item_value (kern s5) (EventItem c) = item_value (kern s2) (EventItem c) \<longrightarrow>
         (\<exists>s'. xEventGroupWaitBits w a v clr all ticks s = Some (event_bits a s OR b, s') \<and> event_bits a s' = event_bits a s5
            \<and> (ready (kern s5) c \<longrightarrow> ready (kern s') c)))"
proof -
  let ?bits = "event_bits a s OR b"
    and ?v = "v OR ((if clr then eventCLEAR_EVENTS_ON_EXIT_BIT else 0) OR (if all then eventWAIT_FOR_ALL_BITS else 0))"
  obtain k1 y k2 k3 d where 1: "vTaskPlaceOnUnorderedEventList (waiting_bits a) ?v ticks (vTaskSuspendAll (kern s)) = Some k1"
    and 2: "xTaskResumeAll k1 = Some (y, k2)" "\<And>p. container k2 (StateItem c) \<noteq> Some (ReadyList p)"
      "container k2 (EventItem c) = Some (waiting_bits a)" "d \<noteq> c"
    and 3: "xPortPendSVHandler (if y then k2 else portYIELD k2) = Some k3" "reach idle k3" "pxCurrentTCB k3 = Some d" "ready k3 d"
      "uxSchedulerSuspended k3 = 0" "container k3 (EventItem c) = Some (waiting_bits a)"
      "item_value k3 (EventItem c) = ?v OR taskEVENT_LIST_ITEM_VALUE_IN_USE"
      "\<And>t. t \<noteq> c \<Longrightarrow> container k3 (EventItem t) = container (kern s) (EventItem t)"
    by (rule blocked_and_switched [OF assms(1-3,8), of a ?v]) blast
  have val3: "item_value k3 (EventItem c) = wait_value v clr all" by (simp add: 3(7) wait_value_def or.assoc)
  let ?s1 = "s\<lparr>kern := (if y then k2 else portYIELD k2)\<rparr>" and ?s3 = "s\<lparr>kern := k3\<rparr>"
  obtain s4 k4 where 4: "xEventGroupSetBits (\<lambda>_. Some) a b ?s3 = Some (event_bits a s4, s4)"
    "remaining a ?bits k3 (event_bits a s4)"
    "all_woken (waits_met a ?bits k3) (?bits OR eventUNBLOCKED_DUE_TO_BIT_SET) k3 k4"
    "resumed k4 (kern s4)"
    using set_bits_effect [of idle ?s3 d a b] 3 by auto
  have only: "waits_met a ?bits k3 t \<longleftrightarrow> t = c" for t
    using 3(6) 3(8) [of t] assms(4,10) wait_met_value(1) [OF assms(7)] by (cases "t = c") (simp_all add: waits_met_def val3)
  have val: "item_value (kern s4) (EventItem c) = (?bits OR eventUNBLOCKED_DUE_TO_BIT_SET) OR taskEVENT_LIST_ITEM_VALUE_IN_USE"
    and rd: "ready (kern s4) c"
    using 4(3,4) only by (auto simp: all_woken_def resumed_def)
  have bits: "event_bits a s4 = (if clr then ?bits AND NOT v else ?bits)"
  proof (rule bit_word_eqI)
    fix n assume "n < LENGTH(32)"
    have "(\<exists>t. waits_met a ?bits k3 t \<and> bit (bits_to_clear (item_value k3 (EventItem t))) n) \<longleftrightarrow> clr \<and> bit v n"
      unfolding only using wait_met_value(2) [OF assms(7), of clr all] by (simp add: val3)
    then show "bit (event_bits a s4) n \<longleftrightarrow> bit (if clr then ?bits AND NOT v else ?bits) n"
      using 4(2) by (auto simp: remaining_def bit_and_iff bit_not_iff dest: bit_imp_le_length)
  qed
  have nb: "?bits AND eventEVENT_BITS_CONTROL_BYTES = 0"
    using assms(5,6) by (simp add: bit.conj_disj_distrib2)
  have ret: "\<exists>s'. xEventGroupWaitBits w a v clr all ticks s = Some (?bits, s') \<and> event_bits a s' = event_bits a s5
      \<and> (ready (kern s5) c \<longrightarrow> ready (kern s') c)"
    if w: "w 0 = Some" "w 1 = Some" "w 2 ?s1 = Some s5" "pxCurrentTCB (kern s5) = Some c"
      "item_value (kern s5) (EventItem c) = item_value (kern s4) (EventItem c)" for w s5
  proof -
    obtain k6 where 6: "uxTaskResetEventItemValue (kern s5) = Some ((?bits OR eventUNBLOCKED_DUE_TO_BIT_SET) OR taskEVENT_LIST_ITEM_VALUE_IN_USE, k6)"
      "ready (kern s5) c \<Longrightarrow> ready k6 c"
      using val w(4,5) by (simp add: uxTaskResetEventItemValue_def ready_def)
    have b: "block_for_bits w y (s\<lparr>kern := k2\<rparr>) = Some ((?bits OR eventUNBLOCKED_DUE_TO_BIT_SET) OR taskEVENT_LIST_ITEM_VALUE_IN_USE, s5\<lparr>kern := k6\<rparr>)"
      using w(3) 6(1) by (simp add: block_for_bits_def on_kern_def split: if_splits)
    have "xEventGroupWaitBits w a v clr all ticks s = Some (?bits, s5\<lparr>kern := k6\<rparr>)"
      using assms(8,9) 1 2(1) b woken_value_parts [OF nb] w(1,2)
      by (simp add: xEventGroupWaitBits_def place_for_bits_def on_kern_def Let_def)
    then show ?thesis using 6 by (intro exI [of _ "s5\<lparr>kern := k6\<rparr>"]) (simp add: event_bits_def)
  qed
  have "xEventGroupSetBits (\<lambda>_. Some) a b (?s1\<lparr>kern := k3\<rparr>) = Some (event_bits a s4, s4)" using 4(1) by simp
  moreover have "\<forall>p. container (kern ?s1) (StateItem c) \<noteq> Some (ReadyList p)" "container (kern ?s1) (EventItem c) = Some (waiting_bits a)"
    using 2(2,3) by simp_all
  moreover have "xPortPendSVHandler (kern ?s1) = Some k3" using 3(1) by simp
  ultimately show ?thesis using 2(4) 3(3,4) rd bits ret
    by (intro exI [of _ ?s1] exI [of _ k3] exI [of _ d] exI [of _ s4]) blast
qed

text \<open>The same wait in one environment: also used by the tasks of the application.\<close>

lemma waiting_task_served:
  assumes "can_block idle c (kern s)" and "uxSchedulerSuspended (kern s) = 0" and "nothing_pending (kern s)"
    and "\<forall>t. container (kern s) (EventItem t) \<noteq> Some (TasksWaitingForBits a)"
    and "event_bits a s AND eventEVENT_BITS_CONTROL_BYTES = 0" and "b AND eventEVENT_BITS_CONTROL_BYTES = 0"
    and "v AND eventEVENT_BITS_CONTROL_BYTES = 0" and "ticks \<noteq> 0"
    and "\<not> prvTestWaitCondition (event_bits a s) v all" and "prvTestWaitCondition (event_bits a s OR b) v all"
  shows "\<exists>s'. xEventGroupWaitBits (set_meanwhile a b c) a v clr all ticks s = Some (event_bits a s OR b, s')
    \<and> event_bits a s' = (if clr then (event_bits a s OR b) AND NOT v else event_bits a s OR b)
    \<and> ready (kern s') c"
proof -
  obtain s1 k d s2 where 1: "xPortPendSVHandler (kern s1) = Some k" "xEventGroupSetBits (\<lambda>_. Some) a b (s1\<lparr>kern := k\<rparr>) = Some (event_bits a s2, s2)"
    "ready (kern s2) c" "event_bits a s2 = (if clr then (event_bits a s OR b) AND NOT v else event_bits a s OR b)"
    and 2: "\<forall>w s5. w 0 = Some \<and> w 1 = Some \<and> w 2 s1 = Some s5 \<and> pxCurrentTCB (kern s5) = Some c
         \<and> item_value (kern s5) (EventItem c) = item_value (kern s2) (EventItem c) \<longrightarrow>
         (\<exists>s'. xEventGroupWaitBits w a v clr all ticks s = Some (event_bits a s OR b, s') \<and> event_bits a s' = event_bits a s5
            \<and> (ready (kern s5) c \<longrightarrow> ready (kern s') c))"
    using wait_until_set [OF assms, where clr = clr] by blast
  let ?s5 = "on_kern (\<lambda>k. k\<lparr>pxCurrentTCB := Some c\<rparr>) s2"
  have "set_meanwhile a b c 2 s1 = Some ?s5" using 1(1,2) by (simp add: set_meanwhile_def)
  then obtain s' where "xEventGroupWaitBits (set_meanwhile a b c) a v clr all ticks s = Some (event_bits a s OR b, s')" "event_bits a s' = event_bits a ?s5"
    "ready (kern ?s5) c \<longrightarrow> ready (kern s') c"
    using 2 [rule_format, of "set_meanwhile a b c" ?s5] by (auto simp: on_kern_def)
  moreover have "ready (kern ?s5) c" "event_bits a ?s5 = event_bits a s2" using 1(3) by (simp_all add: on_kern_def ready_def event_bits_def)
  ultimately show ?thesis using 1(4) by (intro exI [of _ s']) simp
qed



section \<open>Rendezvous\<close>

text \<open>All the tasks that wait for the group are in a rendezvous for the bits \<open>v\<close>.\<close>

definition rendezvous :: "u32 \<Rightarrow> u32 \<Rightarrow> kernel \<Rightarrow> bool" where
  "rendezvous a v k \<longleftrightarrow> (\<forall>t. container k (EventItem t) = Some (waiting_bits a) \<longrightarrow>
     item_value k (EventItem t) = wait_value v True True)"

text \<open>
  The last task to arrive at a rendezvous releases all the others: if its bits complete
  the bits waited for, the call returns all the bits without blocking, every task that waits
  is ready and finds all the bits, and the bits of the rendezvous are clear for the next one.
\<close>

theorem rendezvous_completes:
  assumes "reach idle (kern s)" and "pxCurrentTCB (kern s) = Some c" and "ready (kern s) c"
    and "uxSchedulerSuspended (kern s) = 0" and "rendezvous a v (kern s)" and "v AND eventEVENT_BITS_CONTROL_BYTES = 0"
    and "(event_bits a s OR b) AND v = v"
  shows "\<exists>s'. xEventGroupSync (\<lambda>_. Some) a b v ticks s = Some (event_bits a s OR b, s') \<and> reach idle (kern s')
    \<and> event_bits a s' = (event_bits a s OR b) AND NOT v \<and> ready (kern s') c
    \<and> (\<forall>t. container (kern s) (EventItem t) = Some (TasksWaitingForBits a) \<longrightarrow> ready (kern s') t
        \<and> item_value (kern s') (EventItem t)
            = ((event_bits a s OR b) OR eventUNBLOCKED_DUE_TO_BIT_SET) OR taskEVENT_LIST_ITEM_VALUE_IN_USE)"
proof -
  let ?bits = "event_bits a s OR b" and ?s0 = "on_kern vTaskSuspendAll s"
  have r0: "reach idle (kern ?s0)" using reach_call [OF assms(1), of SuspendAll] assms(4) by (simp add: kguard_defs)
  have c0: "pxCurrentTCB (kern ?s0) = Some c" "ready (kern ?s0) c" "uxSchedulerSuspended (kern ?s0) + 1 \<noteq> 0"
    using assms(2-4) by (simp_all add: vTaskSuspendAll_def ready_def)
  have same: "container (vTaskSuspendAll (kern s)) = container (kern s)" "item_value (vTaskSuspendAll (kern s)) = item_value (kern s)"
    by (simp_all add: vTaskSuspendAll_def)
  obtain s1 k1 where 1: "xEventGroupSetBits (\<lambda>_. Some) a b ?s0 = Some (event_bits a s1, s1)" "reach idle (kern s1)"
    "remaining a ?bits (kern ?s0) (event_bits a s1)"
    "all_woken (waits_met a ?bits (kern ?s0)) (?bits OR eventUNBLOCKED_DUE_TO_BIT_SET) (kern ?s0) k1" "resumed k1 (kern s1)"
    using set_bits_effect [OF r0 c0, of a b] by auto
  have woken: "waits_met a ?bits (kern ?s0) t \<longleftrightarrow> container (kern s) (EventItem t) = Some (waiting_bits a)" for t
    using assms(5,7) wait_met_value(1) [OF assms(6), of ?bits True True]
    by (auto simp: waits_met_def same rendezvous_def prvTestWaitCondition_def)
  have W: "ready (kern s1) t \<and> item_value (kern s1) (EventItem t) = (?bits OR eventUNBLOCKED_DUE_TO_BIT_SET) OR taskEVENT_LIST_ITEM_VALUE_IN_USE"
    if "container (kern s) (EventItem t) = Some (waiting_bits a)" for t
    using that 1(4,5) woken [of t] by (simp add: all_woken_def resumed_def)
  have "pxCurrentTCB k1 = Some c" "ready k1 c"
    using 1(4) all_woken_ready [OF 1(4)] c0 by (simp_all add: all_woken_def)
  then have c1: "pxCurrentTCB (kern s1) = Some c" "ready (kern s1) c" using 1(5) by (simp_all add: resumed_def)
  obtain y k2 where 2: "xTaskResumeAll (kern s1) = Some (y, k2)" "reach idle k2"
    "resumed ((kern s1)\<lparr>uxSchedulerSuspended := uxSchedulerSuspended (kern s1) - 1\<rparr>) k2"
    using resume_ready [OF 1(2) c1] by blast
  let ?s = "set_event_bits a (event_bits a s1 AND NOT v) (s1\<lparr>kern := k2\<rparr>)"
  have "event_bits a s1 AND NOT v = ?bits AND NOT v"
  proof (rule bit_word_eqI)
    fix n
    show "bit (event_bits a s1 AND NOT v) n \<longleftrightarrow> bit (?bits AND NOT v) n"
      using 1(3) woken assms(5) wait_met_value(2) [OF assms(6), of True True]
      by (auto simp: remaining_def same rendezvous_def bit_and_iff bit_not_iff)
  qed
  moreover have "xEventGroupSync (\<lambda>_. Some) a b v ticks s = Some (?bits, ?s)"
    using 1(1) 2(1) assms(7) by (simp add: xEventGroupSync_def)
  moreover have "ready k2 t" if "ready (kern s1) t" for t using that 2(3) by (simp add: resumed_def ready_def)
  moreover have "item_value k2 = item_value (kern s1)" using 2(3) by (simp add: resumed_def)
  ultimately show ?thesis using 2(2) W c1 by (intro exI [of _ ?s]) simp
qed

theorem rendezvous_completes_witness:
  "\<exists>k s'. container k (EventItem 2) = Some (TasksWaitingForBits 7)
    \<and> xEventGroupSync (\<lambda>_. Some) 7 3 3 5 (rtos0\<lparr>kern := k\<rparr>) = Some (3, s') \<and> event_bits 7 s' = 0 \<and> ready (kern s') 2"
proof -
  obtain k e where k: "reach 0 k" "pxCurrentTCB k = Some e" "ready k e" "uxSchedulerSuspended k = 0" "nothing_pending k"
    "container k (EventItem 2) = Some (TasksWaitingForBits 7)"
    "item_value k (EventItem 2) = (3 OR (eventCLEAR_EVENTS_ON_EXIT_BIT OR eventWAIT_FOR_ALL_BITS)) OR taskEVENT_LIST_ITEM_VALUE_IN_USE"
    "\<And>t. container k (EventItem t) = Some (TasksWaitingForBits 7) \<Longrightarrow> t = 2"
    by (rule demo_waiter [where v = "3 OR (eventCLEAR_EVENTS_ON_EXIT_BIT OR eventWAIT_FOR_ALL_BITS)"]) blast
  let ?s = "rtos0\<lparr>kern := k\<rparr>"
  have "rendezvous 7 3 (kern ?s)"
    using k(7,8) by (auto simp: rendezvous_def wait_value_def or.assoc)
  then obtain s' where "xEventGroupSync (\<lambda>_. Some) 7 3 3 5 ?s = Some (3, s')" "event_bits 7 s' = 0" "ready (kern s') 2"
    using rendezvous_completes [of 0 ?s e 7 3 3 5] k(1-4,6) by (auto simp: control_defs)
  then show ?thesis using k(6) by blast
qed

section \<open>Deletion\<close>

lemma delete_loop_returns:
  assumes "reach idle k"
  shows "\<exists>k'. delete_loop (waiting_bits a) k = Some k' \<and> reach idle k' \<and> kitems k' (waiting_bits a) = []
    \<and> all_woken (\<lambda>t. container k (EventItem t) = Some (waiting_bits a)) eventUNBLOCKED_DUE_TO_BIT_SET k k'"
  using assms
proof (induction "length (kitems k (waiting_bits a))" arbitrary: k rule: less_induct)
  case less
  let ?l = "waiting_bits a"
  obtain T where "sinv idle T k" using reach_inv [OF less.prems] by blast
  then have K: "kinv T k" by (rule sinvD)
  show ?case
  proof (cases "kitems k ?l")
    case Nil
    then have "\<not> container k (EventItem t) = Some ?l" for t using kinvD(12) [OF K] by simp
    then show ?thesis using Nil less.prems by (subst delete_loop.simps) (simp add: all_woken_def)
  next
    case (Cons i js)
    then have ci: "container k i = Some ?l" using kinvD(12) [OF K] by simp
    then obtain t where i: "i = EventItem t" using kinvD(7) [OF K ci] by (cases i) auto
    obtain k1 where 1: "vTaskRemoveFromUnorderedEventList (EventItem t) eventUNBLOCKED_DUE_TO_BIT_SET k = Some k1"
      "reach idle k1" "woken_with t eventUNBLOCKED_DUE_TO_BIT_SET k k1"
      using remove_for_bits [OF less.prems, of t ?l] ci i by blast
    obtain T1 where "sinv idle T1 k1" using reach_inv [OF 1(2)] by blast
    then have K1: "kinv T1 k1" by (rule sinvD)
    have C: "container k1 j = Some ?l \<longleftrightarrow> j \<noteq> EventItem t \<and> container k j = Some ?l" for j
    proof (cases j)
      case (StateItem u)
      have "\<not> admits ?l (StateItem u)" by simp
      then show ?thesis using StateItem kinvD(5) [OF K] kinvD(5) [OF K1] by blast
    next
      case (EventItem u)
      then show ?thesis using 1(3) by (auto simp: woken_with_def)
    qed
    have "{j. container k1 j = Some ?l} \<subset> {j. container k j = Some ?l}" using C ci i by auto
    then have "length (kitems k1 ?l) < length (kitems k ?l)"
      unfolding ends.length_items [OF kinvD(1) [OF K]] ends.length_items [OF kinvD(1) [OF K1]]
      by (rule psubset_card_mono [OF ends.finite_listed [OF kinvD(1) [OF K]]])
    from less.hyps [OF this 1(2)] obtain k' where 2: "delete_loop ?l k1 = Some k'" "reach idle k'" "kitems k' ?l = []"
      "all_woken (\<lambda>t. container k1 (EventItem t) = Some ?l) eventUNBLOCKED_DUE_TO_BIT_SET k1 k'" by blast
    have "\<not> container k1 (EventItem t) = Some ?l" using C by blast
    from all_woken_step [OF 1(3) 2(4) this]
    have "all_woken (\<lambda>u. u = t \<or> container k1 (EventItem u) = Some ?l) eventUNBLOCKED_DUE_TO_BIT_SET k k'" .
    moreover have "(\<lambda>u. u = t \<or> container k1 (EventItem u) = Some ?l) = (\<lambda>u. container k (EventItem u) = Some ?l)"
      using C ci i by auto
    ultimately show ?thesis using 1(1) 2(1-3) Cons i by (subst delete_loop.simps) simp
  qed
qed

end
