(* ===== verification/Stream_Buffer.thy ===== *)
theory Stream_Buffer
  imports Queue
begin

text \<open>
  The stream and message buffers of \<open>freertos/stream_buffer.c\<close>. A handle is the address of the
  \<open>StreamBuffer_t\<close>. \<open>memcpy\<close> to and from the circular storage works on lists of bytes: a
  caller hands over the bytes of its buffer (or of a local variable), and stores the bytes it
  gets. In the windows \<open>w\<close> of a call that waits other code runs: 0 follows its critical
  section, in 1 the task waits for its notification, 2 follows the wait.
\<close>

section \<open>Bytes\<close>

text \<open>A \<open>size_t\<close> in memory, as the processor stores it: the low byte first.\<close>

definition word_bytes :: "u32 \<Rightarrow> u8 list" where
  "word_bytes v = [ucast v, ucast (drop_bit 8 v), ucast (drop_bit 16 v), ucast (drop_bit 24 v)]"

definition bytes_word :: "u8 list \<Rightarrow> u32" where
  "bytes_word bs =
     ucast (bs ! 0) OR push_bit 8 (ucast (bs ! 1)) OR push_bit 16 (ucast (bs ! 2)) OR push_bit 24 (ucast (bs ! 3))"

section \<open>The structure\<close>

definition sbBYTES_TO_STORE_MESSAGE_LENGTH :: u32 where
  "sbBYTES_TO_STORE_MESSAGE_LENGTH = 4"

definition sbFLAGS_IS_MESSAGE_BUFFER :: u8 where
  "sbFLAGS_IS_MESSAGE_BUFFER = 1"

definition sbFLAGS_IS_STATICALLY_ALLOCATED :: u8 where
  "sbFLAGS_IS_STATICALLY_ALLOCATED = 2"

text \<open>\<open>sizeof( StreamBuffer_t )\<close>: seven words, the flags with padding and the trace number.\<close>

definition sizeof_StreamBuffer :: u32 where
  "sizeof_StreamBuffer = 36"

definition upd_sb :: "u32 \<Rightarrow> (StreamBuffer_t \<Rightarrow> StreamBuffer_t) \<Rightarrow> rtos \<Rightarrow> rtos" where
  "upd_sb a f s = s\<lparr>sbuffers := (sbuffers s)(a := f (sbuffers s a))\<rparr>"

definition is_message_buffer :: "u32 \<Rightarrow> rtos \<Rightarrow> bool" where
  "is_message_buffer a s \<longleftrightarrow> ucFlags (sbuffers s a) AND sbFLAGS_IS_MESSAGE_BUFFER \<noteq> 0"

definition prvInitialiseNewStreamBuffer :: "u32 \<Rightarrow> u32 \<Rightarrow> u32 \<Rightarrow> u32 \<Rightarrow> u8 \<Rightarrow> rtos \<Rightarrow> rtos" where
  "prvInitialiseNewStreamBuffer a buf xSize trigger flags s =
     upd_sb a (\<lambda>_. \<lparr>xTail = 0, xHead = 0, xLength = xSize, xTriggerLevelBytes = trigger, xTaskWaitingToReceive = None,
       xTaskWaitingToSend = None, pucBuffer = buf, ucFlags = flags, uxStreamBufferNumber = 0\<rparr>) s"

definition xStreamBufferGenericCreate :: "u32 \<Rightarrow> u32 \<Rightarrow> bool \<Rightarrow> rtos \<Rightarrow> (u32 \<times> rtos) option" where
  "xStreamBufferGenericCreate xBufferSizeBytes trigger xIsMessageBuffer s =
     do {
       let flags = (if xIsMessageBuffer then sbFLAGS_IS_MESSAGE_BUFFER else 0);
       let trigger = (if trigger = 0 then 1 else trigger);
       let xSize = xBufferSizeBytes + 1;
       (a, s) \<leftarrow> pvPortMalloc (xSize + sizeof_StreamBuffer) s;
       if a \<noteq> 0 then Some (a, prvInitialiseNewStreamBuffer a (a + sizeof_StreamBuffer) xSize trigger flags s)
       else Some (a, s)
     }"

definition vStreamBufferDelete :: "u32 \<Rightarrow> rtos \<Rightarrow> rtos option" where
  "vStreamBufferDelete a s =
     (if ucFlags (sbuffers s a) AND sbFLAGS_IS_STATICALLY_ALLOCATED = 0 then vPortFree a s
      else Some (prvInitialiseNewStreamBuffer a 0 0 0 0 s))"

definition xStreamBufferReset :: "u32 \<Rightarrow> rtos \<Rightarrow> bool \<times> rtos" where
  "xStreamBufferReset a s =
     (let x = sbuffers s a in
      if xTaskWaitingToReceive x = None \<and> xTaskWaitingToSend x = None then
        (True, upd_sb a (\<lambda>y. y\<lparr>uxStreamBufferNumber := uxStreamBufferNumber x\<rparr>)
                 (prvInitialiseNewStreamBuffer a (pucBuffer x) (xLength x) (xTriggerLevelBytes x) (ucFlags x) s))
      else (False, s))"

definition xStreamBufferSetTriggerLevel :: "u32 \<Rightarrow> u32 \<Rightarrow> rtos \<Rightarrow> bool \<times> rtos" where
  "xStreamBufferSetTriggerLevel a xTriggerLevel s =
     (let level = (if xTriggerLevel = 0 then 1 else xTriggerLevel) in
      if level \<le> xLength (sbuffers s a) then (True, upd_sb a (\<lambda>x. x\<lparr>xTriggerLevelBytes := level\<rparr>) s)
      else (False, s))"

section \<open>How much there is\<close>

definition xStreamBufferSpacesAvailable :: "u32 \<Rightarrow> rtos \<Rightarrow> u32" where
  "xStreamBufferSpacesAvailable a s =
     (let x = sbuffers s a; xSpace = xLength x + xTail x - xHead x - 1
      in if xSpace \<ge> xLength x then xSpace - xLength x else xSpace)"

definition prvBytesInBuffer :: "u32 \<Rightarrow> rtos \<Rightarrow> u32" where
  "prvBytesInBuffer a s =
     (let x = sbuffers s a; xCount = xLength x + xHead x - xTail x
      in if xCount \<ge> xLength x then xCount - xLength x else xCount)"

definition xStreamBufferBytesAvailable :: "u32 \<Rightarrow> rtos \<Rightarrow> u32" where
  "xStreamBufferBytesAvailable a s = prvBytesInBuffer a s"

definition xStreamBufferIsEmpty :: "u32 \<Rightarrow> rtos \<Rightarrow> bool" where
  "xStreamBufferIsEmpty a s \<longleftrightarrow> xHead (sbuffers s a) = xTail (sbuffers s a)"

definition length_bytes :: "u32 \<Rightarrow> rtos \<Rightarrow> u32" where
  "length_bytes a s = (if is_message_buffer a s then sbBYTES_TO_STORE_MESSAGE_LENGTH else 0)"

definition xStreamBufferIsFull :: "u32 \<Rightarrow> rtos \<Rightarrow> bool" where
  "xStreamBufferIsFull a s \<longleftrightarrow> xStreamBufferSpacesAvailable a s \<le> length_bytes a s"

definition uxStreamBufferGetStreamBufferNumber :: "u32 \<Rightarrow> rtos \<Rightarrow> u32" where
  "uxStreamBufferGetStreamBufferNumber a s = uxStreamBufferNumber (sbuffers s a)"

definition vStreamBufferSetStreamBufferNumber :: "u32 \<Rightarrow> u32 \<Rightarrow> rtos \<Rightarrow> rtos" where
  "vStreamBufferSetStreamBufferNumber a n s = upd_sb a (\<lambda>x. x\<lparr>uxStreamBufferNumber := n\<rparr>) s"

definition ucStreamBufferGetStreamBufferType :: "u32 \<Rightarrow> rtos \<Rightarrow> u8" where
  "ucStreamBufferGetStreamBufferType a s = ucFlags (sbuffers s a) AND sbFLAGS_IS_MESSAGE_BUFFER"

section \<open>The circular storage\<close>

definition prvWriteBytesToBuffer :: "u32 \<Rightarrow> u8 list \<Rightarrow> rtos \<Rightarrow> rtos" where
  "prvWriteBytesToBuffer a bs s =
     (let x = sbuffers s a; xCount = of_nat (length bs); xNextHead = xHead x;
          xFirstLength = min (xLength x - xNextHead) xCount;
          m = mem_put (pucBuffer x + xNextHead) (take (unat xFirstLength) bs) (mem s);
          m = (if xCount > xFirstLength then mem_put (pucBuffer x) (drop (unat xFirstLength) bs) m else m);
          xNextHead = xNextHead + xCount;
          xNextHead = (if xNextHead \<ge> xLength x then xNextHead - xLength x else xNextHead)
      in upd_sb a (\<lambda>x. x\<lparr>xHead := xNextHead\<rparr>) (s\<lparr>mem := m\<rparr>))"

text \<open>The bytes read, and the state with \<open>xTail\<close> moved behind them.\<close>

definition prvReadBytesFromBuffer :: "u32 \<Rightarrow> u32 \<Rightarrow> u32 \<Rightarrow> rtos \<Rightarrow> u8 list \<times> rtos" where
  "prvReadBytesFromBuffer a xMaxCount xBytesAvailable s =
     (let x = sbuffers s a; xCount = min xBytesAvailable xMaxCount in
      if xCount > 0 then
        (let xNextTail = xTail x;
             xFirstLength = min (xLength x - xNextTail) xCount;
             bs = bytes_at (mem s) (pucBuffer x + xNextTail) xFirstLength;
             bs = (if xCount > xFirstLength then bs @ bytes_at (mem s) (pucBuffer x) (xCount - xFirstLength) else bs);
             xNextTail = xNextTail + xCount;
             xNextTail = (if xNextTail \<ge> xLength x then xNextTail - xLength x else xNextTail)
         in (bs, upd_sb a (\<lambda>x. x\<lparr>xTail := xNextTail\<rparr>) s))
      else ([], s))"

text \<open>The bytes written of \<open>data\<close> (without the length bytes), and the state after it.\<close>

definition prvWriteMessageToBuffer :: "u32 \<Rightarrow> u32 \<Rightarrow> u32 \<Rightarrow> u32 \<Rightarrow> u32 \<Rightarrow> rtos \<Rightarrow> u32 \<times> rtos" where
  "prvWriteMessageToBuffer a pvTxData len xSpace xRequiredSpace s =
     (if xSpace = 0 then (0, s)
      else if \<not> is_message_buffer a s then
        (let len = min len xSpace in (len, prvWriteBytesToBuffer a (bytes_at (mem s) pvTxData len) s))
      else if xSpace \<ge> xRequiredSpace then
        (let s = prvWriteBytesToBuffer a (word_bytes len) s
         in (len, prvWriteBytesToBuffer a (bytes_at (mem s) pvTxData len) s))
      else (0, s))"

definition prvReadMessageFromBuffer :: "u32 \<Rightarrow> u32 \<Rightarrow> u32 \<Rightarrow> u32 \<Rightarrow> u32 \<Rightarrow> rtos \<Rightarrow> u32 \<times> rtos" where
  "prvReadMessageFromBuffer a pvRxData xSize xBytesAvailable xBytesToStoreMessageLength s =
     (let (next, avail, s) =
        (if xBytesToStoreMessageLength \<noteq> 0 then
           (let xOriginalTail = xTail (sbuffers s a);
                (bs, s) = prvReadBytesFromBuffer a xBytesToStoreMessageLength xBytesAvailable s;
                next = bytes_word bs;
                avail = xBytesAvailable - xBytesToStoreMessageLength
            in if next > xSize then (0, avail, upd_sb a (\<lambda>x. x\<lparr>xTail := xOriginalTail\<rparr>) s) else (next, avail, s))
         else (xSize, xBytesAvailable, s));
        (bs, s) = prvReadBytesFromBuffer a next avail s
      in (of_nat (length bs), s\<lparr>mem := mem_put pvRxData bs (mem s)\<rparr>))"

definition xStreamBufferNextMessageLengthBytes :: "u32 \<Rightarrow> rtos \<Rightarrow> u32 \<times> rtos" where
  "xStreamBufferNextMessageLengthBytes a s =
     (if is_message_buffer a s then
        (let xBytesAvailable = prvBytesInBuffer a s in
         if xBytesAvailable > sbBYTES_TO_STORE_MESSAGE_LENGTH then
           (let xOriginalTail = xTail (sbuffers s a);
                (bs, s) = prvReadBytesFromBuffer a sbBYTES_TO_STORE_MESSAGE_LENGTH xBytesAvailable s
            in (bytes_word bs, upd_sb a (\<lambda>x. x\<lparr>xTail := xOriginalTail\<rparr>) s))
         else (0, s))
      else (0, s))"

section \<open>Waking the other side\<close>

definition sbSEND_COMPLETED :: "u32 \<Rightarrow> rtos \<Rightarrow> rtos option" where
  "sbSEND_COMPLETED a s =
     do {
       let s = on_kern vTaskSuspendAll s;
       s \<leftarrow> (case xTaskWaitingToReceive (sbuffers s a) of
              None \<Rightarrow> Some s
            | Some t \<Rightarrow> do {
                (_, k) \<leftarrow> xTaskGenericNotify t 0 eNoAction (kern s);
                Some (upd_sb a (\<lambda>x. x\<lparr>xTaskWaitingToReceive := None\<rparr>) (s\<lparr>kern := k\<rparr>))
              });
       (_, k) \<leftarrow> xTaskResumeAll (kern s);
       Some (s\<lparr>kern := k\<rparr>)
     }"

definition sbRECEIVE_COMPLETED :: "u32 \<Rightarrow> rtos \<Rightarrow> rtos option" where
  "sbRECEIVE_COMPLETED a s =
     do {
       let s = on_kern vTaskSuspendAll s;
       s \<leftarrow> (case xTaskWaitingToSend (sbuffers s a) of
              None \<Rightarrow> Some s
            | Some t \<Rightarrow> do {
                (_, k) \<leftarrow> xTaskGenericNotify t 0 eNoAction (kern s);
                Some (upd_sb a (\<lambda>x. x\<lparr>xTaskWaitingToSend := None\<rparr>) (s\<lparr>kern := k\<rparr>))
              });
       (_, k) \<leftarrow> xTaskResumeAll (kern s);
       Some (s\<lparr>kern := k\<rparr>)
     }"

text \<open>From interrupts: whether a task waited, and whether \<open>*pxHigherPriorityTaskWoken\<close> is set.\<close>

definition xStreamBufferSendCompletedFromISR :: "u32 \<Rightarrow> rtos \<Rightarrow> ((bool \<times> bool) \<times> rtos) option" where
  "xStreamBufferSendCompletedFromISR a s =
     (case xTaskWaitingToReceive (sbuffers s a) of
        None \<Rightarrow> Some ((False, False), s)
      | Some t \<Rightarrow> do {
          ((_, _, woken), k) \<leftarrow> xTaskGenericNotifyFromISR t 0 eNoAction (kern s);
          Some ((True, woken), upd_sb a (\<lambda>x. x\<lparr>xTaskWaitingToReceive := None\<rparr>) (s\<lparr>kern := k\<rparr>))
        })"

definition xStreamBufferReceiveCompletedFromISR :: "u32 \<Rightarrow> rtos \<Rightarrow> ((bool \<times> bool) \<times> rtos) option" where
  "xStreamBufferReceiveCompletedFromISR a s =
     (case xTaskWaitingToSend (sbuffers s a) of
        None \<Rightarrow> Some ((False, False), s)
      | Some t \<Rightarrow> do {
          ((_, _, woken), k) \<leftarrow> xTaskGenericNotifyFromISR t 0 eNoAction (kern s);
          Some ((True, woken), upd_sb a (\<lambda>x. x\<lparr>xTaskWaitingToSend := None\<rparr>) (s\<lparr>kern := k\<rparr>))
        })"

text \<open>The macros \<open>sbSEND_COMPLETE_FROM_ISR\<close> and \<open>sbRECEIVE_COMPLETED_FROM_ISR\<close> have the same body.\<close>

definition sbSEND_COMPLETE_FROM_ISR :: "u32 \<Rightarrow> rtos \<Rightarrow> (bool \<times> rtos) option" where
  "sbSEND_COMPLETE_FROM_ISR a s = map_option (\<lambda>(r, s). (snd r, s)) (xStreamBufferSendCompletedFromISR a s)"

definition sbRECEIVE_COMPLETED_FROM_ISR :: "u32 \<Rightarrow> rtos \<Rightarrow> (bool \<times> rtos) option" where
  "sbRECEIVE_COMPLETED_FROM_ISR a s = map_option (\<lambda>(r, s). (snd r, s)) (xStreamBufferReceiveCompletedFromISR a s)"

section \<open>Sending\<close>

definition required_space :: "u32 \<Rightarrow> u32 \<Rightarrow> rtos \<Rightarrow> u32" where
  "required_space a len s = (if is_message_buffer a s then len + sbBYTES_TO_STORE_MESSAGE_LENGTH else len)"

text \<open>After the wait for space: write, and wake the reader when the trigger level is reached.\<close>

definition send_now :: "u32 \<Rightarrow> u32 \<Rightarrow> u32 \<Rightarrow> u32 \<Rightarrow> u32 \<Rightarrow> rtos \<Rightarrow> (u32 \<times> rtos) option" where
  "send_now a pvTxData len xSpace xRequiredSpace s =
     (let xSpace = (if xSpace = 0 then xStreamBufferSpacesAvailable a s else xSpace);
          (n, s) = prvWriteMessageToBuffer a pvTxData len xSpace xRequiredSpace s
      in if n > 0 \<and> prvBytesInBuffer a s \<ge> xTriggerLevelBytes (sbuffers s a)
         then map_option (Pair n) (sbSEND_COMPLETED a s) else Some (n, s))"

text \<open>The critical section of the loop: the space there is, or the task registers to wait.\<close>

definition register_sender :: "u32 \<Rightarrow> u32 \<Rightarrow> rtos \<Rightarrow> (u32 \<times> bool \<times> rtos) option" where
  "register_sender a xRequiredSpace s =
     (let xSpace = xStreamBufferSpacesAvailable a s in
      if xSpace < xRequiredSpace then
        do {
          (_, k) \<leftarrow> xTaskNotifyStateClear None (kern s);
          Some (xSpace, True, upd_sb a (\<lambda>x. x\<lparr>xTaskWaitingToSend := pxCurrentTCB k\<rparr>) (s\<lparr>kern := k\<rparr>))
        }
      else Some (xSpace, False, s))"

definition wait_for_notification :: "windows \<Rightarrow> u32 \<Rightarrow> rtos \<Rightarrow> rtos option" where
  "wait_for_notification w ticks s =
     do {
       s \<leftarrow> w 0 s;
       k \<leftarrow> xTaskNotifyWait_wait 0 ticks (kern s);
       s \<leftarrow> w 1 (s\<lparr>kern := k\<rparr>);
       (_, k) \<leftarrow> xTaskNotifyWait_finish 0 (kern s);
       w 2 (s\<lparr>kern := k\<rparr>)
     }"

text \<open>The \<open>do ... while\<close>, one list element per wait; \<open>None\<close>: the task waits still.\<close>

fun wait_for_space :: "windows list \<Rightarrow> u32 \<Rightarrow> u32 \<Rightarrow> u32 \<Rightarrow> xTIME_OUT \<Rightarrow> rtos \<Rightarrow> (u32 option \<times> rtos) option" where
  "wait_for_space [] a xRequiredSpace ticks t s =
     do { (xSpace, waits, s) \<leftarrow> register_sender a xRequiredSpace s; Some (if waits then None else Some xSpace, s) }"
| "wait_for_space (w # ws) a xRequiredSpace ticks t s =
     do {
       (xSpace, waits, s) \<leftarrow> register_sender a xRequiredSpace s;
       if waits then
         do {
           s \<leftarrow> wait_for_notification w ticks s;
           let s = upd_sb a (\<lambda>x. x\<lparr>xTaskWaitingToSend := None\<rparr>) s;
           let (expired, t, ticks) = xTaskCheckForTimeOut t ticks (kern s);
           if expired then Some (Some xSpace, s) else wait_for_space ws a xRequiredSpace ticks t s
         }
       else Some (Some xSpace, s)
     }"

definition xStreamBufferSend :: "windows list \<Rightarrow> u32 \<Rightarrow> u32 \<Rightarrow> u32 \<Rightarrow> u32 \<Rightarrow> rtos \<Rightarrow> (u32 option \<times> rtos) option" where
  "xStreamBufferSend ws a pvTxData len ticks s =
     do {
       let xRequiredSpace = required_space a len s;
       (space, s) \<leftarrow>
         (if ticks \<noteq> 0
          then wait_for_space ws a xRequiredSpace ticks (vTaskInternalSetTimeOutState (kern s)) s
          else Some (Some 0, s));
       case space of
         None \<Rightarrow> Some (None, s)
       | Some xSpace \<Rightarrow> do { (n, s) \<leftarrow> send_now a pvTxData len xSpace xRequiredSpace s; Some (Some n, s) }
     }"

definition xStreamBufferSendFromISR :: "u32 \<Rightarrow> u32 \<Rightarrow> u32 \<Rightarrow> rtos \<Rightarrow> ((u32 \<times> bool) \<times> rtos) option" where
  "xStreamBufferSendFromISR a pvTxData len s =
     (let (n, s) = prvWriteMessageToBuffer a pvTxData len (xStreamBufferSpacesAvailable a s) (required_space a len s) s
      in if n > 0 \<and> prvBytesInBuffer a s \<ge> xTriggerLevelBytes (sbuffers s a)
         then map_option (\<lambda>(woken, s). ((n, woken), s)) (sbSEND_COMPLETE_FROM_ISR a s) else Some ((n, False), s))"

section \<open>Receiving\<close>

definition receive_now :: "u32 \<Rightarrow> u32 \<Rightarrow> u32 \<Rightarrow> u32 \<Rightarrow> u32 \<Rightarrow> rtos \<Rightarrow> (u32 \<times> rtos) option" where
  "receive_now a pvRxData xSize xBytesAvailable xBytesToStoreMessageLength s =
     (if xBytesAvailable > xBytesToStoreMessageLength then
        (let (n, s) = prvReadMessageFromBuffer a pvRxData xSize xBytesAvailable (xBytesToStoreMessageLength) s
         in if n \<noteq> 0 then map_option (Pair n) (sbRECEIVE_COMPLETED a s) else Some (n, s))
      else Some (0, s))"

definition xStreamBufferReceive :: "windows \<Rightarrow> u32 \<Rightarrow> u32 \<Rightarrow> u32 \<Rightarrow> u32 \<Rightarrow> rtos \<Rightarrow> (u32 \<times> rtos) option" where
  "xStreamBufferReceive w a pvRxData xSize ticks s =
     do {
       let xBytesToStoreMessageLength = length_bytes a s;
       (xBytesAvailable, s) \<leftarrow>
         (if ticks \<noteq> 0 then
            (let n = prvBytesInBuffer a s in
             if n \<le> xBytesToStoreMessageLength then
               do {
                 (_, k) \<leftarrow> xTaskNotifyStateClear None (kern s);
                 let s = upd_sb a (\<lambda>x. x\<lparr>xTaskWaitingToReceive := pxCurrentTCB k\<rparr>) (s\<lparr>kern := k\<rparr>);
                 s \<leftarrow> wait_for_notification w ticks s;
                 let s = upd_sb a (\<lambda>x. x\<lparr>xTaskWaitingToReceive := None\<rparr>) s;
                 Some (prvBytesInBuffer a s, s)
               }
             else Some (n, s))
          else Some (prvBytesInBuffer a s, s));
       receive_now a pvRxData xSize xBytesAvailable xBytesToStoreMessageLength s
     }"

definition xStreamBufferReceiveFromISR :: "u32 \<Rightarrow> u32 \<Rightarrow> u32 \<Rightarrow> rtos \<Rightarrow> ((u32 \<times> bool) \<times> rtos) option" where
  "xStreamBufferReceiveFromISR a pvRxData xSize s =
     (if prvBytesInBuffer a s > length_bytes a s then
        (let (n, s) = prvReadMessageFromBuffer a pvRxData xSize (prvBytesInBuffer a s) (length_bytes a s) s
         in if n \<noteq> 0 then map_option (\<lambda>(woken, s). ((n, woken), s)) (sbRECEIVE_COMPLETED_FROM_ISR a s) else Some ((n, False), s))
      else Some ((0, False), s))"

end
