(* ===== verification/Stream_Buffer_Ring.thy ===== *)
theory Stream_Buffer_Ring
  imports Stream_Buffer Queue_Ring
begin

text \<open>
  The storage of a stream buffer as a sequence of bytes: \<open>xTail\<close> and \<open>xHead\<close> are indices into a
  circular area that holds one byte less than its size, a write appends and a read takes a
  prefix, whether or not they wrap around.
\<close>

section \<open>Circular indices\<close>

lemma circ_diff:
  assumes "i < n" and "c < n" and "t < (n :: nat)"
  shows "((t + i) mod n + n - (t + c) mod n) mod n = (i + n - c) mod n"
proof -
  have "(t + i) mod n = (if t + i < n then t + i else t + i - n)" "(t + c) mod n = (if t + c < n then t + c else t + c - n)"
    using assms by (auto simp: mod_if)
  then show ?thesis using assms by (auto simp: mod_if)
qed

lemma mod_step: "t < n \<Longrightarrow> c < n \<Longrightarrow> (if t + c \<ge> n then t + c - n else t + c) = (t + c) mod (n :: nat)"
  by (simp add: mod_if)

section \<open>Memory\<close>

text \<open>A store outside the area.\<close>

definition outside :: "u32 \<Rightarrow> nat \<Rightarrow> StreamBuffer_t \<Rightarrow> bool" where
  "outside p n x \<longleftrightarrow> unat p + n \<le> unat (pucBuffer x)
     \<or> unat (pucBuffer x) + unat (xLength x) \<le> unat p \<and> unat p + n \<le> 2 ^ 32"

lemma outside_less: "outside p n x \<Longrightarrow> k \<le> n \<Longrightarrow> outside p k x"
  by (auto simp: outside_def)

lemma mem_put_outside:
  assumes "outside p (length bs) x" and "unat (pucBuffer x) + unat (xLength x) \<le> 2 ^ 32" and "i < unat (xLength x)"
  shows "mem_put p bs m (pucBuffer x + of_nat i) = m (pucBuffer x + of_nat i)"
proof -
  have u: "unat (pucBuffer x + of_nat i) = unat (pucBuffer x) + i" using assms(2,3) by (intro unat_plus_small) simp
  have "length bs \<le> unat (pucBuffer x + of_nat i - p)"
    using assms u unat_less_u32 [of p] by (auto simp: outside_def unat_sub_if' word_le_nat_alt)
  then show ?thesis by (simp add: mem_put_def)
qed

section \<open>The sequence of bytes\<close>

definition sb_ok :: "StreamBuffer_t \<Rightarrow> bool" where
  "sb_ok x \<longleftrightarrow> xHead x < xLength x \<and> xTail x < xLength x \<and> unat (xLength x) \<le> 2 ^ 31
     \<and> unat (pucBuffer x) + unat (xLength x) \<le> 2 ^ 32"

definition sb_count :: "StreamBuffer_t \<Rightarrow> nat" where
  "sb_count x = (unat (xHead x) + unat (xLength x) - unat (xTail x)) mod unat (xLength x)"

definition sb_byte :: "(u32 \<Rightarrow> u8) \<Rightarrow> StreamBuffer_t \<Rightarrow> nat \<Rightarrow> u8" where
  "sb_byte m x i = m (pucBuffer x + of_nat ((unat (xTail x) + i) mod unat (xLength x)))"

definition sb_bytes :: "(u32 \<Rightarrow> u8) \<Rightarrow> StreamBuffer_t \<Rightarrow> u8 list" where
  "sb_bytes m x = map (sb_byte m x) [0..<sb_count x]"

lemma length_sb_bytes [simp]: "length (sb_bytes m x) = sb_count x"
  by (simp add: sb_bytes_def)

lemma sb_okD:
  assumes "sb_ok x"
  shows "unat (xHead x) < unat (xLength x)" and "unat (xTail x) < unat (xLength x)" and "0 < unat (xLength x)"
    and "unat (xLength x) \<le> 2 ^ 31" and "unat (pucBuffer x) + unat (xLength x) \<le> 2 ^ 32"
  using assms by (auto simp: sb_ok_def word_less_nat_alt)

lemma sb_count_cases:
  assumes "sb_ok x"
  shows "sb_count x = (if unat (xTail x) \<le> unat (xHead x) then unat (xHead x) - unat (xTail x)
    else unat (xHead x) + unat (xLength x) - unat (xTail x))"
  using sb_okD(1,2) [OF assms] by (auto simp: sb_count_def mod_if)

lemma sb_count_less: "sb_ok x \<Longrightarrow> sb_count x < unat (xLength x)"
  using sb_okD(3) by (simp add: sb_count_def)

text \<open>The head is \<open>sb_count\<close> behind the tail.\<close>

lemma sb_head: "sb_ok x \<Longrightarrow> unat (xHead x) = (unat (xTail x) + sb_count x) mod unat (xLength x)"
  using sb_okD(1,2) [of x] by (auto simp: sb_count_cases mod_if)

lemma unat_bytes_in_buffer:
  assumes "sb_ok (sbuffers s a)"
  shows "unat (prvBytesInBuffer a s) = sb_count (sbuffers s a)"
proof -
  note D = sb_okD [OF assms]
  let ?x = "sbuffers s a"
  have 1: "unat (xLength ?x + xHead ?x) = unat (xLength ?x) + unat (xHead ?x)" using D by (simp add: unat_word_ariths)
  then have "unat (xLength ?x + xHead ?x - xTail ?x) = unat (xLength ?x) + unat (xHead ?x) - unat (xTail ?x)"
    using D by (simp add: unat_sub word_le_nat_alt)
  then show ?thesis
    using D by (auto simp: prvBytesInBuffer_def Let_def sb_count_cases [OF assms] word_le_nat_alt unat_sub)
qed

lemma unat_sb_spaces:
  assumes "sb_ok (sbuffers s a)"
  shows "unat (xStreamBufferSpacesAvailable a s) = unat (xLength (sbuffers s a)) - 1 - sb_count (sbuffers s a)"
proof -
  note D = sb_okD [OF assms]
  let ?x = "sbuffers s a"
  have 1: "unat (xLength ?x + xTail ?x) = unat (xLength ?x) + unat (xTail ?x)" using D by (simp add: unat_word_ariths)
  then have 2: "unat (xLength ?x + xTail ?x - xHead ?x) = unat (xLength ?x) + unat (xTail ?x) - unat (xHead ?x)"
    using D by (simp add: unat_sub word_le_nat_alt)
  define xSpace where "xSpace = xLength ?x + xTail ?x - xHead ?x - 1"
  have 3: "unat xSpace = unat (xLength ?x) + unat (xTail ?x) - unat (xHead ?x) - 1"
    unfolding xSpace_def by (subst unat_diff_word) (use 2 D in auto)
  have "xStreamBufferSpacesAvailable a s = (if xSpace \<ge> xLength ?x then xSpace - xLength ?x else xSpace)"
    by (simp add: xStreamBufferSpacesAvailable_def Let_def xSpace_def)
  then show ?thesis
    using D 3 by (auto simp: unat_diff_word sb_count_cases [OF assms] word_le_nat_alt)
qed

section \<open>Writing\<close>

lemma sb_count_eqI:
  assumes "sb_ok x" and "unat (xHead x) = (unat (xTail x) + c) mod unat (xLength x)" and "c < unat (xLength x)"
  shows "sb_count x = c"
  unfolding sb_count_def assms(2) using sb_okD(2,3) [OF assms(1)] assms(3)
  by (auto simp: mod_if)

lemma unat_advance:
  assumes "unat p < unat n" and "unat c \<le> unat n" and "unat (n :: u32) \<le> 2 ^ 31"
  shows "unat (if p + c \<ge> n then p + c - n else p + c) = (unat p + unat c) mod unat n"
proof -
  have u: "unat (p + c) = unat p + unat c" using assms by (simp add: unat_word_ariths)
  show ?thesis
  proof (cases "unat n \<le> unat p + unat c")
    case True
    then have "n \<le> p + c" using u by (simp add: word_le_nat_alt)
    then have "unat (if p + c \<ge> n then p + c - n else p + c) = unat p + unat c - unat n"
      using u by (simp add: unat_sub)
    also have "\<dots> = (unat p + unat c) mod unat n"
      using True assms(1,2) by (cases "unat c = unat n") (auto simp: mod_if)
    finally show ?thesis .
  next
    case False
    then show ?thesis using u by (simp add: word_le_nat_alt)
  qed
qed

text \<open>The fields that describe the storage; the waiting tasks and the trigger level are others.\<close>

definition same_storage :: "u32 \<Rightarrow> rtos \<Rightarrow> rtos \<Rightarrow> bool" where
  "same_storage a s s' \<longleftrightarrow> mem s' = mem s \<and> pucBuffer (sbuffers s' a) = pucBuffer (sbuffers s a)
     \<and> xLength (sbuffers s' a) = xLength (sbuffers s a) \<and> xHead (sbuffers s' a) = xHead (sbuffers s a)
     \<and> xTail (sbuffers s' a) = xTail (sbuffers s a) \<and> ucFlags (sbuffers s' a) = ucFlags (sbuffers s a)
     \<and> xTriggerLevelBytes (sbuffers s' a) = xTriggerLevelBytes (sbuffers s a)"

definition stream_bytes :: "u32 \<Rightarrow> rtos \<Rightarrow> u8 list" where
  "stream_bytes a s = sb_bytes (mem s) (sbuffers s a)"

lemma same_storage_refl [simp]: "same_storage a s s"
  by (simp add: same_storage_def)

lemma same_storage_trans: "same_storage a s t \<Longrightarrow> same_storage a t u \<Longrightarrow> same_storage a s u"
  by (simp add: same_storage_def)

lemma same_storageD:
  assumes "same_storage a s s'"
  shows "sb_ok (sbuffers s' a) = sb_ok (sbuffers s a)" and "stream_bytes a s' = stream_bytes a s"
    and "is_message_buffer a s' = is_message_buffer a s" and "prvBytesInBuffer a s' = prvBytesInBuffer a s"
    and "xStreamBufferSpacesAvailable a s' = xStreamBufferSpacesAvailable a s"
  using assms unfolding same_storage_def
  by (simp_all add: sb_ok_def stream_bytes_def sb_bytes_def sb_byte_def sb_count_def is_message_buffer_def
      prvBytesInBuffer_def xStreamBufferSpacesAvailable_def Let_def)

lemma write_head:
  assumes "sb_ok (sbuffers s a)" and "length bs < unat (xLength (sbuffers s a))"
  shows "sbuffers (prvWriteBytesToBuffer a bs s) a = (sbuffers s a)\<lparr>xHead := xHead (sbuffers (prvWriteBytesToBuffer a bs s) a)\<rparr>"
    and "unat (xHead (sbuffers (prvWriteBytesToBuffer a bs s) a))
      = (unat (xHead (sbuffers s a)) + length bs) mod unat (xLength (sbuffers s a))"
proof -
  note D = sb_okD [OF assms(1)]
  have n: "unat (of_nat (length bs) :: u32) = length bs" by (rule unat_of_small [OF assms(2)])
  show "sbuffers (prvWriteBytesToBuffer a bs s) a = (sbuffers s a)\<lparr>xHead := xHead (sbuffers (prvWriteBytesToBuffer a bs s) a)\<rparr>"
    by (simp add: prvWriteBytesToBuffer_def Let_def upd_sb_def)
  have "xHead (sbuffers (prvWriteBytesToBuffer a bs s) a)
      = (let p = xHead (sbuffers s a); c = of_nat (length bs); n = xLength (sbuffers s a) in if p + c \<ge> n then p + c - n else p + c)"
    by (simp add: prvWriteBytesToBuffer_def Let_def upd_sb_def)
  then show "unat (xHead (sbuffers (prvWriteBytesToBuffer a bs s) a))
      = (unat (xHead (sbuffers s a)) + length bs) mod unat (xLength (sbuffers s a))"
    using unat_advance [of "xHead (sbuffers s a)" "xLength (sbuffers s a)" "of_nat (length bs)"] D assms(2) n
    by (simp add: Let_def)
qed

lemma write_mem:
  assumes ok: "sb_ok (sbuffers s a)" and len: "length bs < unat (xLength (sbuffers s a))" and i: "i < unat (xLength (sbuffers s a))"
  defines "x \<equiv> sbuffers s a"
  defines "d \<equiv> (i + unat (xLength x) - unat (xHead x)) mod unat (xLength x)"
  shows "mem (prvWriteBytesToBuffer a bs s) (pucBuffer x + of_nat i) = (if d < length bs then bs ! d else mem s (pucBuffer x + of_nat i))"
proof -
  note D = sb_okD [OF ok, folded x_def]
  let ?h = "unat (xHead x)" and ?L = "unat (xLength x)" and ?b = "pucBuffer x"
  have n: "unat (of_nat (length bs) :: u32) = length bs" by (rule unat_of_small [OF len])
  have lh: "unat (xLength x - xHead x) = ?L - ?h" using D by (simp add: unat_sub word_le_nat_alt)
  have d: "d = (if ?h \<le> i then i - ?h else i + ?L - ?h)" using D i unfolding d_def x_def by (auto simp: mod_if)
  define f where "f = min (xLength x - xHead x) (of_nat (length bs))"
  have uf: "unat f = min (?L - ?h) (length bs)" using lh n by (simp add: f_def min_def word_le_nat_alt)
  have m: "mem (prvWriteBytesToBuffer a bs s) =
      (let m = mem_put (?b + of_nat ?h) (take (unat f) bs) (mem s) in if of_nat (length bs) > f then mem_put ?b (drop (unat f) bs) m else m)"
    by (simp add: prvWriteBytesToBuffer_def Let_def upd_sb_def f_def x_def)
  have first: "mem_put (?b + of_nat ?h) (take (unat f) bs) (mem s) (?b + of_nat i)
      = (if ?h \<le> i \<and> i < ?h + unat f then bs ! (i - ?h) else mem s (?b + of_nat i))"
  proof -
    have l: "length (take (unat f) bs) = unat f" using uf by simp
    have iL: "i < ?L" using i by (simp add: x_def)
    have fits: "?h + unat f \<le> ?L" using uf D(1) by simp
    have "take (unat f) bs ! (i - ?h) = bs ! (i - ?h)" if "?h \<le> i" "i < ?h + unat f"
      using that by (intro nth_take) simp
    then show ?thesis
      using mem_put_area [OF D(5) iL D(1), of "take (unat f) bs" "mem s"] fits unfolding l by auto
  qed
  show ?thesis
  proof (cases "length bs \<le> ?L - ?h")
    case True
    then have "\<not> of_nat (length bs) > f" using uf n by (simp add: word_less_nat_alt)
    then show ?thesis using m first True uf d D i x_def by auto
  next
    case False
    then have gt: "of_nat (length bs) > f" using uf n by (simp add: word_less_nat_alt)
    have second: "mem_put ?b (drop (unat f) bs) m (?b + of_nat i) = (if i < length bs - (?L - ?h) then bs ! (?L - ?h + i) else m (?b + of_nat i))" for m
      proof -
      have l: "length (drop (unat f) bs) = length bs - (?L - ?h)" "unat f = ?L - ?h" using uf False by simp_all
      have iL: "i < ?L" using i by (simp add: x_def)
      show ?thesis
        using mem_put_area [OF D(5) iL D(3), of "drop (unat f) bs" m] len iL False unfolding l by (auto simp: x_def)
    qed
    show ?thesis
    proof (cases "i < length bs - (?L - ?h)")
      case True
      then have "i < ?h" using len D x_def by auto
      then have "d = ?L - ?h + i" using d D by simp
      moreover have "?L - ?h + i < length bs" using True by simp
      ultimately show ?thesis using m gt second True by (simp add: Let_def)
    next
      case False': False
      then show ?thesis using m gt second first d uf False D i x_def by (auto simp: Let_def)
    qed
  qed
qed

lemma write_bytes:
  assumes ok: "sb_ok (sbuffers s a)" and room: "sb_count (sbuffers s a) + length bs < unat (xLength (sbuffers s a))"
  shows "sb_ok (sbuffers (prvWriteBytesToBuffer a bs s) a)"
    and "stream_bytes a (prvWriteBytesToBuffer a bs s) = stream_bytes a s @ bs"
proof -
  define x where "x = sbuffers s a"
  define x' where "x' = sbuffers (prvWriteBytesToBuffer a bs s) a"
  let ?t = "unat (xTail x)" and ?L = "unat (xLength x)" and ?c = "sb_count x"
  have len: "length bs < unat (xLength (sbuffers s a))" using room by simp
  note D = sb_okD [OF ok, folded x_def]
  have x': "xTail x' = xTail x" "xLength x' = xLength x" "pucBuffer x' = pucBuffer x"
    using write_head(1) [OF ok len] unfolding x'_def [symmetric] x_def [symmetric] by (metis StreamBuffer_t.select_convs StreamBuffer_t.surjective StreamBuffer_t.update_convs(2))+
  have head: "unat (xHead x') = (?t + (?c + length bs)) mod ?L"
    using write_head(2) [OF ok len] sb_head [OF ok] unfolding x'_def [symmetric] x_def [symmetric] by (simp add: mod_simps add.assoc)
  show ok': "sb_ok (sbuffers (prvWriteBytesToBuffer a bs s) a)"
    using D head x' unfolding x'_def [symmetric] by (simp add: sb_ok_def word_less_nat_alt)
  have count: "sb_count x' = ?c + length bs"
    by (rule sb_count_eqI) (use ok' head x' room in \<open>simp_all add: x'_def x_def\<close>)
  show "stream_bytes a (prvWriteBytesToBuffer a bs s) = stream_bytes a s @ bs"
  proof (rule nth_equalityI)
    show "length (stream_bytes a (prvWriteBytesToBuffer a bs s)) = length (stream_bytes a s @ bs)"
      using count by (simp add: stream_bytes_def x_def x'_def)
  next
    fix i assume "i < length (stream_bytes a (prvWriteBytesToBuffer a bs s))"
    then have i: "i < ?c + length bs" using count by (simp add: stream_bytes_def x'_def)
    then have iL: "i < ?L" using room by (simp add: x_def)
    have idx: "(?t + i) mod ?L < ?L" using D(3) by simp
    have "((?t + i) mod ?L + ?L - unat (xHead x)) mod ?L = (i + ?L - ?c) mod ?L"
      unfolding sb_head [OF ok, folded x_def] by (rule circ_diff) (use iL D room x_def in auto)
    also have "\<dots> = (if i < ?c then i + ?L - ?c else i - ?c)"
      using iL sb_count_less [OF ok] by (auto simp: mod_if x_def)
    finally have d: "((?t + i) mod ?L + ?L - unat (xHead x)) mod ?L = (if i < ?c then i + ?L - ?c else i - ?c)" .
    have "stream_bytes a (prvWriteBytesToBuffer a bs s) ! i = mem (prvWriteBytesToBuffer a bs s) (pucBuffer x + of_nat ((?t + i) mod ?L))"
      using i count x' by (simp add: stream_bytes_def sb_bytes_def sb_byte_def x'_def)
    also have "\<dots> = (stream_bytes a s @ bs) ! i"
      using write_mem [OF ok len, of "(?t + i) mod ?L", folded x_def] idx d i room
      by (auto simp: stream_bytes_def sb_bytes_def sb_byte_def nth_append x_def)
    finally show "stream_bytes a (prvWriteBytesToBuffer a bs s) ! i = (stream_bytes a s @ bs) ! i" .
  qed
qed

end
