(* ===== verification/Stream_Buffer_Fifo.thy ===== *)
theory Stream_Buffer_Fifo
  imports Stream_Buffer_Ring Queue_Fifo
begin

text \<open>
  Reading from the circular storage, the length word of a message, and the sending and
  receiving calls as operations on the sequence of bytes and on the sequence of messages.
\<close>

section \<open>Reading\<close>

lemma upd_sb_same: "(\<And>x. x = sbuffers s a \<Longrightarrow> f x = x) \<Longrightarrow> upd_sb a f s = s"
  by (cases s) (auto simp: upd_sb_def fun_eq_iff)

lemma upd_sb_twice: "upd_sb a f (upd_sb a g s) = upd_sb a (\<lambda>x. f (g x)) s"
  by (simp add: upd_sb_def)

lemma read_state:
  assumes "prvReadBytesFromBuffer a mx av s = (bs, s')"
  obtains t where "s' = upd_sb a (\<lambda>x. x\<lparr>xTail := t\<rparr>) s"
proof (cases "min av mx > 0")
  case True
  then show ?thesis using assms that by (auto simp: prvReadBytesFromBuffer_def Let_def)
next
  case False
  then have "s' = s" using assms by (simp add: prvReadBytesFromBuffer_def Let_def split: if_splits)
  then show ?thesis using that [of "xTail (sbuffers s a)"] by (simp add: upd_sb_same)
qed

lemma read_bytes:
  assumes ok: "sb_ok (sbuffers s a)" and avail: "unat av = sb_count (sbuffers s a)"
    and r: "prvReadBytesFromBuffer a mx av s = (bs, s')"
  shows "bs = take (unat mx) (stream_bytes a s)" and "sb_ok (sbuffers s' a)"
    and "stream_bytes a s' = drop (unat mx) (stream_bytes a s)" and "unat av - length bs = sb_count (sbuffers s' a)"
proof -
  define x where "x = sbuffers s a"
  define c where "c = min av mx"
  let ?t = "unat (xTail x)" and ?L = "unat (xLength x)" and ?b = "pucBuffer x"
  note D = sb_okD [OF ok, folded x_def]
  have uc: "unat c = min (sb_count x) (unat mx)" using avail by (simp add: c_def x_def min_def word_le_nat_alt)
  have cl: "unat c < ?L" using uc sb_count_less [OF ok] by (simp add: x_def)
  have tl: "unat (xLength x - xTail x) = ?L - ?t" using D by (simp add: unat_sub word_le_nat_alt)
  define f where "f = min (xLength x - xTail x) c"
  have uf: "unat f = min (?L - ?t) (unat c)" using tl by (simp add: f_def min_def word_le_nat_alt)
  have fc: "c > f \<longleftrightarrow> ?L - ?t < unat c" using uf by (auto simp: word_less_nat_alt min_def)
  define t' where "t' = (if xTail x + c \<ge> xLength x then xTail x + c - xLength x else xTail x + c)"
  have t': "unat t' = (?t + unat c) mod ?L"
    unfolding t'_def by (rule unat_advance) (use D cl in auto)
  have bytes: "bs = bytes_at (mem s) (?b + xTail x) f @ (if c > f then bytes_at (mem s) ?b (c - f) else [])"
    and state: "s' = upd_sb a (\<lambda>x. x\<lparr>xTail := t'\<rparr>) s" if "c > 0"
    using r that by (auto simp: prvReadBytesFromBuffer_def Let_def c_def x_def f_def t'_def)
  have at: "bytes_at (mem s) (?b + xTail x) f ! i = sb_byte (mem s) x i" if "i < unat f" for i
  proof -
    have "?t + i < ?L" using that uf by linarith
    then show ?thesis using that by (simp add: bytes_at_def sb_byte_def add.assoc)
  qed
  have at2: "bytes_at (mem s) ?b (c - f) ! (i - unat f) = sb_byte (mem s) x i" if "unat f \<le> i" "i < unat c" for i
  proof -
    have "unat f = ?L - ?t" using that uf by simp
    moreover from this have "?L \<le> ?t + i" "?t + i - ?L < ?L" using that cl D(2) by linarith+
    ultimately have "(?t + i) mod ?L = i - unat f" using D(2) by (simp add: le_mod_geq)
    moreover have "unat (c - f) = unat c - unat f" using that by (simp add: unat_sub word_le_nat_alt)
    moreover have "i - unat f < unat c - unat f" using that by simp
    ultimately show ?thesis by (simp only: sb_byte_def bytes_at_def nth_map_upt diff_zero plus_nat.add_0)
  qed
  have read: "bs = map (sb_byte (mem s) x) [0..<unat c] \<and> (s' = upd_sb a (\<lambda>x. x\<lparr>xTail := t'\<rparr>) s)"
  proof (cases "c > 0")
    case True
    have ucf: "unat (c - f) = unat c - unat f" using uf by (intro unat_sub) (simp add: word_le_nat_alt)
    have "length bs = unat c" unfolding bytes [OF True] using uf ucf fc by auto
    moreover have "bs ! i = sb_byte (mem s) x i" if "i < unat c" for i
      unfolding bytes [OF True] using at [of i] at2 [of i] that uf fc by (auto simp: nth_append)
    ultimately show ?thesis using state [OF True] by (auto intro: nth_equalityI)
  next
    case False
    then have "c = 0" by (simp add: word_gt_0)
    moreover have "t' = xTail x" using D \<open>c = 0\<close> by (simp add: t'_def word_le_nat_alt)
    ultimately show ?thesis using r by (cases s) (auto simp: prvReadBytesFromBuffer_def c_def upd_sb_def x_def fun_eq_iff)
  qed
  have stream: "stream_bytes a s = map (sb_byte (mem s) x) [0..<sb_count x]" by (simp add: stream_bytes_def sb_bytes_def x_def)
  show "bs = take (unat mx) (stream_bytes a s)" using read uc by (auto simp: stream take_map min_def)
  define x' where "x' = sbuffers s' a"
  have x': "x' = x\<lparr>xTail := t'\<rparr>" using read by (simp add: x'_def x_def upd_sb_def)
  show ok': "sb_ok (sbuffers s' a)"
    using D t' by (simp add: x' [unfolded x'_def] sb_ok_def word_less_nat_alt)
  let ?n = "sb_count x - unat c"
  have count: "sb_count x' = ?n"
  proof (rule sb_count_eqI)
    show "unat (xHead x') = (unat (xTail x') + ?n) mod unat (xLength x')"
    proof -
      have "unat c + ?n = sb_count x" using uc by simp
      have "(unat t' + ?n) mod ?L = (?t + (unat c + ?n)) mod ?L" unfolding t' by (simp only: mod_add_left_eq add.assoc)
      then show ?thesis using sb_head [OF ok, folded x_def] \<open>unat c + ?n = sb_count x\<close> by (simp add: x')
    qed
  qed (use ok' sb_count_less [OF ok] in \<open>simp_all add: x'_def [symmetric] x' x_def [symmetric]\<close>)
  then show "unat av - length bs = sb_count (sbuffers s' a)" using avail read by (simp add: x'_def x_def)
  have "sb_byte (mem s') x' i = sb_byte (mem s) x (unat c + i)" for i
    using read t' by (simp add: sb_byte_def x' upd_sb_def mod_simps add.assoc)
  then have "stream_bytes a s' = map (\<lambda>i. sb_byte (mem s) x (unat c + i)) [0..<?n]"
    using count by (simp add: stream_bytes_def sb_bytes_def x'_def)
  also have "\<dots> = drop (unat c) (stream_bytes a s)" by (rule nth_equalityI) (auto simp: stream)
  also have "\<dots> = drop (unat mx) (stream_bytes a s)" using uc by (auto simp: stream min_def)
  finally show "stream_bytes a s' = drop (unat mx) (stream_bytes a s)" .
qed

section \<open>The length word of a message\<close>

lemma bytes_word_bytes: "bytes_word (word_bytes v) = v"
proof (rule bit_word_eqI)
  fix n assume "n < LENGTH(32)"
  then consider "n < 8" | "8 \<le> n" "n < 16" | "16 \<le> n" "n < 24" | "24 \<le> n" "n < 32" by fastforce
  then show "bit (bytes_word (word_bytes v)) n = bit v n"
    by cases (auto simp: bytes_word_def word_bytes_def bit_simps)
qed

lemma length_word_bytes [simp]: "length (word_bytes v) = 4"
  by (simp add: word_bytes_def)

text \<open>A message in the storage: its length, then its bytes.\<close>

definition frame :: "u8 list \<Rightarrow> u8 list" where
  "frame msg = word_bytes (of_nat (length msg)) @ msg"

text \<open>The messages in a sequence of bytes.\<close>

function messages :: "u8 list \<Rightarrow> u8 list list" where
  "messages bs = (if length bs < 4 then [] else
     (let n = unat (bytes_word (take 4 bs)) in take n (drop 4 bs) # messages (drop (4 + n) bs)))"
  by auto
termination by (relation "measure length") auto

declare messages.simps [simp del]

lemma messages_Nil [simp]: "messages [] = []"
  by (simp add: messages.simps)

lemma length_frame [simp]: "length (frame m) = 4 + length m"
  by (simp add: frame_def)

lemma messages_frame: "length m < 2 ^ 32 \<Longrightarrow> messages (frame m @ bs) = m # messages bs"
  by (subst messages.simps) (simp add: frame_def bytes_word_bytes unat_of_nat_u32 Let_def)

lemma messages_frames: "\<forall>m\<in>set ms. length m < 2 ^ 32 \<Longrightarrow> messages (concat (map frame ms)) = ms"
  by (induction ms) (simp_all add: messages_frame)

section \<open>Sending\<close>

text \<open>Waking the other side changes the scheduler and the waiting tasks only.\<close>

lemma upd_waiting_storage:
  "same_storage a s (upd_sb a (xTaskWaitingToReceive_update f) (s\<lparr>kern := k\<rparr>))"
  "same_storage a s (upd_sb a (xTaskWaitingToSend_update f) (s\<lparr>kern := k\<rparr>))"
  "same_storage a s (s\<lparr>kern := k\<rparr>)" "same_storage a s (on_kern g s)"
  by (simp_all add: same_storage_def upd_sb_def on_kern_def)

lemma same_storage_kern: "same_storage a s t \<Longrightarrow> same_storage a s (t\<lparr>kern := k\<rparr>)"
  by (simp add: same_storage_def)

lemma completed_storage:
  "sbSEND_COMPLETED a s = Some s' \<Longrightarrow> same_storage a s s'"
  "sbRECEIVE_COMPLETED a s = Some s' \<Longrightarrow> same_storage a s s'"
  "sbSEND_COMPLETE_FROM_ISR a s = Some (b, s') \<Longrightarrow> same_storage a s s'"
  "sbRECEIVE_COMPLETED_FROM_ISR a s = Some (b, s') \<Longrightarrow> same_storage a s s'"
  by (auto simp: sbSEND_COMPLETED_def sbRECEIVE_COMPLETED_def sbSEND_COMPLETE_FROM_ISR_def sbRECEIVE_COMPLETED_FROM_ISR_def
      xStreamBufferSendCompletedFromISR_def xStreamBufferReceiveCompletedFromISR_def bind_eq_Some_conv upd_waiting_storage
      same_storage_kern same_storage_def on_kern_def upd_sb_def Let_def split: option.splits)

lemma write_elsewhere:
  assumes ok: "sb_ok (sbuffers s a)" and len: "length bs < unat (xLength (sbuffers s a))"
    and q: "unat q < unat (pucBuffer (sbuffers s a)) \<or> unat (pucBuffer (sbuffers s a)) + unat (xLength (sbuffers s a)) \<le> unat q"
  shows "mem (prvWriteBytesToBuffer a bs s) q = mem s q"
proof -
  define x where "x = sbuffers s a"
  note D = sb_okD [OF ok, folded x_def]
  define f where "f = min (xLength x - xHead x) (of_nat (length bs))"
  have lh: "unat (xLength x - xHead x) = unat (xLength x) - unat (xHead x)" using D by (simp add: unat_sub word_le_nat_alt)
  have uf: "unat f = min (unat (xLength x) - unat (xHead x)) (length bs)"
    using lh unat_of_small [OF len] by (simp add: f_def min_def word_le_nat_alt)
  have start: "unat (pucBuffer x + xHead x) = unat (pucBuffer x) + unat (xHead x)"
    using unat_plus_small [of "pucBuffer x" "unat (xHead x)"] D by simp
  have 1: "mem_put (pucBuffer x + xHead x) (take (unat f) bs) m q = m q" for m
    using q D start uf by (intro mem_put_untouched) (auto simp: x_def)
  have 2: "mem_put (pucBuffer x) (drop (unat f) bs) m q = m q" for m
    using q D uf len by (intro mem_put_untouched) (auto simp: x_def)
  show ?thesis by (simp add: prvWriteBytesToBuffer_def Let_def upd_sb_def x_def [symmetric] f_def [symmetric] 1 2)
qed

text \<open>The caller's bytes are not in the storage.\<close>

lemma write_keeps_bytes:
  assumes "sb_ok (sbuffers s a)" and "length bs < unat (xLength (sbuffers s a))" and "outside p (unat n) (sbuffers s a)"
  shows "bytes_at (mem (prvWriteBytesToBuffer a bs s)) p n = bytes_at (mem s) p n"
proof -
  have "mem (prvWriteBytesToBuffer a bs s) (p + of_nat i) = mem s (p + of_nat i)" if i: "i < unat n" for i
  proof (rule write_elsewhere [OF assms(1,2)])
    have "unat (p + of_nat i) = unat p + i"
      using assms(3) i sb_okD(5) [OF assms(1)] by (intro unat_plus_small) (auto simp: outside_def)
    then show "unat (p + of_nat i) < unat (pucBuffer (sbuffers s a))
        \<or> unat (pucBuffer (sbuffers s a)) + unat (xLength (sbuffers s a)) \<le> unat (p + of_nat i)"
      using assms(3) i by (auto simp: outside_def)
  qed
  then show ?thesis by (simp add: bytes_at_eq)
qed

lemma write_flags: "ucFlags (sbuffers (prvWriteBytesToBuffer a bs s) a) = ucFlags (sbuffers s a)"
  by (simp add: prvWriteBytesToBuffer_def Let_def upd_sb_def)

lemma read_flags: "prvReadBytesFromBuffer a mx av s = (bs, s') \<Longrightarrow> ucFlags (sbuffers s' a) = ucFlags (sbuffers s a)
    \<and> mem s' = mem s \<and> pucBuffer (sbuffers s' a) = pucBuffer (sbuffers s a) \<and> xLength (sbuffers s' a) = xLength (sbuffers s a)"
  by (auto simp: prvReadBytesFromBuffer_def Let_def upd_sb_def split: if_splits)

lemma spaces_count:
  assumes "sb_ok (sbuffers s a)"
  shows "sb_count (sbuffers s a) + unat (xStreamBufferSpacesAvailable a s) < unat (xLength (sbuffers s a))"
  using unat_sb_spaces [OF assms] sb_count_less [OF assms] by simp

text \<open>What a call wrote, and that it wrote as much as the rules of the buffer allow.\<close>

lemma write_message:
  assumes ok: "sb_ok (sbuffers s a)"
    and w: "prvWriteMessageToBuffer a p len (xStreamBufferSpacesAvailable a s) (required_space a len s) s = (n, s')"
  shows "is_message_buffer a s' = is_message_buffer a s"
    and "\<not> is_message_buffer a s \<Longrightarrow> n = min len (xStreamBufferSpacesAvailable a s) \<and> sb_ok (sbuffers s' a)
      \<and> stream_bytes a s' = stream_bytes a s @ bytes_at (mem s) p n"
    and "is_message_buffer a s \<Longrightarrow> unat len + 4 < 2 ^ 32 \<Longrightarrow> outside p (unat len) (sbuffers s a) \<Longrightarrow>
      (if unat len + 4 \<le> unat (xStreamBufferSpacesAvailable a s)
       then n = len \<and> sb_ok (sbuffers s' a) \<and> stream_bytes a s' = stream_bytes a s @ frame (bytes_at (mem s) p n)
       else n = 0 \<and> s' = s)"
proof -
  let ?sp = "xStreamBufferSpacesAvailable a s"
  note room = spaces_count [OF ok]
  show "is_message_buffer a s' = is_message_buffer a s"
    using w by (auto simp: prvWriteMessageToBuffer_def is_message_buffer_def write_flags Let_def split: if_splits)
  show "n = min len ?sp \<and> sb_ok (sbuffers s' a) \<and> stream_bytes a s' = stream_bytes a s @ bytes_at (mem s) p n"
    if "\<not> is_message_buffer a s"
  proof (cases "?sp = 0")
    case True
    then show ?thesis using w ok that by (auto simp: prvWriteMessageToBuffer_def bytes_at_def)
  next
    case False
    have n: "n = min len ?sp" "s' = prvWriteBytesToBuffer a (bytes_at (mem s) p n) s"
      using w False that by (auto simp: prvWriteMessageToBuffer_def Let_def)
    have "unat n \<le> unat ?sp" unfolding n(1) word_le_nat_alt [symmetric] by (rule min.cobounded2)
    then have "sb_count (sbuffers s a) + length (bytes_at (mem s) p n) < unat (xLength (sbuffers s a))" using room by simp
    from write_bytes [OF ok this] show ?thesis using n by simp
  qed
  show "if unat len + 4 \<le> unat ?sp
       then n = len \<and> sb_ok (sbuffers s' a) \<and> stream_bytes a s' = stream_bytes a s @ frame (bytes_at (mem s) p n)
       else n = 0 \<and> s' = s" if msg: "is_message_buffer a s" and big: "unat len + 4 < 2 ^ 32" and out: "outside p (unat len) (sbuffers s a)"
  proof -
    have req: "unat (required_space a len s) = unat len + 4"
      using msg big by (simp add: required_space_def sbBYTES_TO_STORE_MESSAGE_LENGTH_def unat_word_ariths)
    show ?thesis
    proof (cases "unat len + 4 \<le> unat ?sp")
      case True
      then have "?sp \<noteq> 0" "required_space a len s \<le> ?sp" using req by (auto simp: word_le_nat_alt)
      then have n: "n = len" "s' = prvWriteBytesToBuffer a (bytes_at (mem (prvWriteBytesToBuffer a (word_bytes len) s)) p len)
          (prvWriteBytesToBuffer a (word_bytes len) s)"
        using w msg by (auto simp: prvWriteMessageToBuffer_def Let_def)
      let ?s1 = "prvWriteBytesToBuffer a (word_bytes len) s"
      have r4: "sb_count (sbuffers s a) + length (word_bytes len) < unat (xLength (sbuffers s a))"
        and r5: "length (word_bytes len) < unat (xLength (sbuffers s a))" using room True by simp_all
      note w1 = write_bytes [OF ok r4]
      have l1: "xLength (sbuffers ?s1 a) = xLength (sbuffers s a)" by (simp add: prvWriteBytesToBuffer_def Let_def upd_sb_def)
      have c1: "sb_count (sbuffers ?s1 a) = sb_count (sbuffers s a) + 4"
        using arg_cong [OF w1(2), of length] by (simp add: stream_bytes_def)
      have "sb_count (sbuffers ?s1 a) + length (bytes_at (mem s) p len) < unat (xLength (sbuffers ?s1 a))"
        using c1 l1 room True by simp
      note w2 = write_bytes [OF w1(1) this]
      show ?thesis using True n w1 w2 write_keeps_bytes [OF ok r5 out] by (simp add: frame_def)
    next
      case False
      then have "\<not> required_space a len s \<le> ?sp" using req by (simp add: word_le_nat_alt)
      then show ?thesis using w msg False by (auto simp: prvWriteMessageToBuffer_def split: if_splits)
    qed
  qed
qed

lemma send_storage:
  assumes "xStreamBufferSend [] a p len 0 s = Some (r, s')"
  obtains n s1 where "prvWriteMessageToBuffer a p len (xStreamBufferSpacesAvailable a s) (required_space a len s) s = (n, s1)"
    and "r = Some n" and "same_storage a s1 s'"
  using assms completed_storage(1)
  by (auto simp: xStreamBufferSend_def send_now_def Let_def bind_eq_Some_conv split: prod.splits if_splits)

lemma send_isr_storage:
  assumes "xStreamBufferSendFromISR a p len s = Some ((n, b), s')"
  obtains s1 where "prvWriteMessageToBuffer a p len (xStreamBufferSpacesAvailable a s) (required_space a len s) s = (n, s1)"
    and "same_storage a s1 s'"
  using assms completed_storage(3)
  by (auto simp: xStreamBufferSendFromISR_def Let_def split: prod.splits if_splits)

section \<open>Receiving\<close>

lemma put_keeps_stream:
  assumes "sb_ok (sbuffers s a)" and "outside p (length bs) (sbuffers s a)"
  shows "stream_bytes a (s\<lparr>mem := mem_put p bs (mem s)\<rparr>) = stream_bytes a s"
proof -
  note D = sb_okD [OF assms(1)]
  have "sb_byte (mem_put p bs (mem s)) (sbuffers s a) i = sb_byte (mem s) (sbuffers s a) i" for i
    unfolding sb_byte_def using D by (intro mem_put_outside [OF assms(2) D(5)]) simp
  then show ?thesis by (simp add: stream_bytes_def sb_bytes_def)
qed

lemma outside_same: "pucBuffer y = pucBuffer x \<Longrightarrow> xLength y = xLength x \<Longrightarrow> outside p n y = outside p n x"
  by (simp add: outside_def)

text \<open>A stream: the first \<open>xSize\<close> bytes. The last step stores them in the caller's buffer.\<close>

lemma read_and_store:
  assumes ok: "sb_ok (sbuffers s a)" and av: "unat av = sb_count (sbuffers s a)"
    and out: "outside p (unat mx) (sbuffers s a)"
    and r: "prvReadBytesFromBuffer a mx av s = (bs, s1)" and s': "s' = s1\<lparr>mem := mem_put p bs (mem s1)\<rparr>"
  shows "sb_ok (sbuffers s' a) \<and> stream_bytes a s' = drop (unat mx) (stream_bytes a s)
    \<and> bytes_at (mem s') p (of_nat (length bs)) = take (unat mx) (stream_bytes a s) \<and> bs = take (unat mx) (stream_bytes a s)
    \<and> unat (of_nat (length bs) :: u32) = length bs"
proof -
  note R = read_bytes [OF ok av r] and F = read_flags [OF r]
  have l: "length bs \<le> unat mx" using R(1) by simp
  then have l32: "length bs < 2 ^ 32" using unat_less_u32 [of mx] by linarith
  have "outside p (length bs) (sbuffers s1 a)"
    using outside_less [OF out l] outside_same [of "sbuffers s1 a" "sbuffers s a"] F by simp
  from put_keeps_stream [OF R(2) this] show ?thesis
    using R bytes_put [OF l32, of p "mem s1"] l32 unat_of_nat_u32 [OF l32] by (simp add: s')
qed

lemma read_stream:
  assumes ok: "sb_ok (sbuffers s a)" and av: "unat av = sb_count (sbuffers s a)"
    and out: "outside p (unat sz) (sbuffers s a)" and r: "prvReadMessageFromBuffer a p sz av 0 s = (n, s')"
  shows "sb_ok (sbuffers s' a) \<and> stream_bytes a s' = drop (unat sz) (stream_bytes a s)
    \<and> bytes_at (mem s') p n = take (unat sz) (stream_bytes a s) \<and> unat n = min (unat sz) (sb_count (sbuffers s a))"
proof -
  obtain bs s1 where b: "prvReadBytesFromBuffer a sz av s = (bs, s1)" by (cases "prvReadBytesFromBuffer a sz av s")
  have n: "n = of_nat (length bs)" and s': "s' = s1\<lparr>mem := mem_put p bs (mem s1)\<rparr>"
    using r b by (auto simp: prvReadMessageFromBuffer_def)
  have "length bs = min (unat sz) (sb_count (sbuffers s a))"
    using read_bytes(1) [OF ok av b] by (simp add: stream_bytes_def min.commute)
  then show ?thesis using read_and_store [OF ok av out b s'] unfolding n by (elim conjE) (intro conjI; simp)
qed

lemma read_message:
  assumes ok: "sb_ok (sbuffers s a)" and av: "unat av = sb_count (sbuffers s a)"
    and out: "outside p (unat sz) (sbuffers s a)"
    and r: "prvReadMessageFromBuffer a p sz av 4 s = (n, s')"
    and first: "stream_bytes a s = frame m @ rest" and lm: "length m < 2 ^ 32"
  shows "if length m \<le> unat sz
    then unat n = length m \<and> bytes_at (mem s') p n = m \<and> sb_ok (sbuffers s' a) \<and> stream_bytes a s' = rest
    else n = 0 \<and> sb_ok (sbuffers s' a) \<and> stream_bytes a s' = stream_bytes a s"
proof -
  obtain bs s1 where b: "prvReadBytesFromBuffer a 4 av s = (bs, s1)" by (cases "prvReadBytesFromBuffer a 4 av s")
  note R = read_bytes [OF ok av b] and F = read_flags [OF b]
  have bs: "bs = word_bytes (of_nat (length m))" using R(1) first by (simp add: frame_def)
  then have next_: "bytes_word bs = of_nat (length m)" by (simp add: bytes_word_bytes)
  have um: "unat (of_nat (length m) :: u32) = length m" by (rule unat_of_nat_u32 [OF lm])
  have s1: "stream_bytes a s1 = m @ rest" using R(3) first by (simp add: frame_def)
  have av1: "unat (av - 4) = sb_count (sbuffers s1 a)"
  proof -
    have "sb_count (sbuffers s a) \<ge> 4" using arg_cong [OF first, of length] by (simp add: stream_bytes_def)
    then have "unat (av - 4) = unat av - 4" using av by (simp add: unat_sub word_le_nat_alt)
    then show ?thesis using R(4) bs by simp
  qed
  show ?thesis
  proof (cases "length m \<le> unat sz")
    case True
    then have nle: "\<not> of_nat (length m) > sz" using um by (simp add: word_less_nat_alt)
    obtain cs s2 where c: "prvReadBytesFromBuffer a (of_nat (length m)) (av - 4) s1 = (cs, s2)"
      by (cases "prvReadBytesFromBuffer a (of_nat (length m)) (av - 4) s1")
    have n: "n = of_nat (length cs)" "s' = s2\<lparr>mem := mem_put p cs (mem s2)\<rparr>"
      using r b c nle next_ by (auto simp: prvReadMessageFromBuffer_def Let_def)
    have "outside p (unat (of_nat (length m) :: u32)) (sbuffers s1 a)"
      unfolding um using outside_less [OF out True] outside_same [of "sbuffers s1 a" "sbuffers s a"] F by simp
    note Q = read_and_store [OF R(2) av1 this c n(2)]
    then have cs: "cs = m" using s1 um by simp
    show ?thesis using Q True s1 um n(1) unfolding cs by simp
  next
    case False
    then have gt: "of_nat (length m) > sz" using um by (simp add: word_less_nat_alt)
    define s2 where "s2 = upd_sb a (\<lambda>x. x\<lparr>xTail := xTail (sbuffers s a)\<rparr>) s1"
    obtain cs s3 where c: "prvReadBytesFromBuffer a 0 (av - 4) s2 = (cs, s3)"
      by (cases "prvReadBytesFromBuffer a 0 (av - 4) s2")
    have n: "n = of_nat (length cs)" "s' = s3\<lparr>mem := mem_put p cs (mem s3)\<rparr>"
      using r b c gt next_ by (auto simp: prvReadMessageFromBuffer_def Let_def s2_def)
    have "cs = []" "s3 = s2" using c by (auto simp: prvReadBytesFromBuffer_def)
    moreover have "mem_put p [] f = f" for f by (simp add: mem_put_def)
    moreover have "s2 = s"
      by (rule read_state [OF b]) (simp add: s2_def upd_sb_twice upd_sb_same)
    ultimately have "n = 0" "s' = s" using n by simp_all
    then show ?thesis using False ok by simp
  qed
qed

text \<open>A receive found too little, or read and told the sender.\<close>

definition received :: "u32 \<Rightarrow> u32 \<Rightarrow> u32 \<Rightarrow> rtos \<Rightarrow> u32 \<Rightarrow> rtos \<Rightarrow> bool" where
  "received a p sz s n s' \<longleftrightarrow> (\<exists>s1. prvBytesInBuffer a s > length_bytes a s
     \<and> prvReadMessageFromBuffer a p sz (prvBytesInBuffer a s) (length_bytes a s) s = (n, s1) \<and> same_storage a s1 s')"

lemma receive_storage:
  assumes "xStreamBufferReceive w a p sz 0 s = Some (n, s')"
  shows "prvBytesInBuffer a s \<le> length_bytes a s \<and> n = 0 \<and> s' = s \<or> received a p sz s n s'"
proof (cases "prvBytesInBuffer a s \<le> length_bytes a s")
  case True
  then show ?thesis using assms by (simp add: xStreamBufferReceive_def receive_now_def Let_def not_less [symmetric])
next
  case False
  obtain m s1 where r: "prvReadMessageFromBuffer a p sz (prvBytesInBuffer a s) (length_bytes a s) s = (m, s1)"
    by (cases "prvReadMessageFromBuffer a p sz (prvBytesInBuffer a s) (length_bytes a s) s")
  then have "n = m \<and> same_storage a s1 s'"
    using assms False completed_storage(2)
    by (auto simp: xStreamBufferReceive_def receive_now_def Let_def not_le split: if_splits)
  then show ?thesis using r False by (auto simp: received_def)
qed

lemma receive_isr_storage:
  assumes "xStreamBufferReceiveFromISR a p sz s = Some ((n, b), s')"
  shows "prvBytesInBuffer a s \<le> length_bytes a s \<and> n = 0 \<and> s' = s \<or> received a p sz s n s'"
proof (cases "prvBytesInBuffer a s \<le> length_bytes a s")
  case True
  then show ?thesis using assms by (simp add: xStreamBufferReceiveFromISR_def not_less [symmetric])
next
  case False
  obtain m s1 where r: "prvReadMessageFromBuffer a p sz (prvBytesInBuffer a s) (length_bytes a s) s = (m, s1)"
    by (cases "prvReadMessageFromBuffer a p sz (prvBytesInBuffer a s) (length_bytes a s) s")
  then have "n = m \<and> same_storage a s1 s'"
    using assms False completed_storage(4)
    by (auto simp: xStreamBufferReceiveFromISR_def not_le split: if_splits)
  then show ?thesis using r False by (auto simp: received_def)
qed

section \<open>A stream buffer is a first-in first-out buffer of bytes\<close>

definition stream_ok :: "u32 \<Rightarrow> rtos \<Rightarrow> bool" where
  "stream_ok a s \<longleftrightarrow> sb_ok (sbuffers s a) \<and> \<not> is_message_buffer a s"

text \<open>Who calls, and the number of bytes to send or the size of the buffer to receive into.\<close>

fun stream_put :: "u32 \<Rightarrow> party \<times> u32 \<Rightarrow> rtos \<Rightarrow> (u8 list \<times> rtos) option" where
  "stream_put a (ByTask p, n) s =
     map_option (\<lambda>(r, s'). (bytes_at (mem s) p (the r), s')) (xStreamBufferSend [] a p n 0 s)"
| "stream_put a (FromISR p, n) s =
     map_option (\<lambda>(r, s'). (bytes_at (mem s) p (fst r), s')) (xStreamBufferSendFromISR a p n s)"

fun stream_get :: "u32 \<Rightarrow> party \<times> u32 \<Rightarrow> rtos \<Rightarrow> (u8 list \<times> rtos) option" where
  "stream_get a (ByTask p, n) s =
     (if outside p (unat n) (sbuffers s a)
      then map_option (\<lambda>(r, s'). (bytes_at (mem s') p r, s')) (xStreamBufferReceive (\<lambda>_. Some) a p n 0 s) else None)"
| "stream_get a (FromISR p, n) s =
     (if outside p (unat n) (sbuffers s a)
      then map_option (\<lambda>(r, s'). (bytes_at (mem s') p (fst r), s')) (xStreamBufferReceiveFromISR a p n s) else None)"

lemma stream_written:
  assumes "stream_ok a s" and "same_storage a s1 s'"
    and "prvWriteMessageToBuffer a p len (xStreamBufferSpacesAvailable a s) (required_space a len s) s = (n, s1)"
  shows "stream_ok a s' \<and> stream_bytes a s' = stream_bytes a s @ bytes_at (mem s) p n"
  using write_message(1,2) [OF _ assms(3)] same_storageD [OF assms(2)] assms(1) by (simp add: stream_ok_def)

lemma stream_put_law:
  assumes "stream_ok a s" and "stream_put a pn s = Some (xs, s')"
  shows "stream_ok a s' \<and> stream_bytes a s' = stream_bytes a s @ xs"
proof (cases "(a, pn, s)" rule: stream_put.cases)
  case (1 a' p n s0)
  then obtain r where "xStreamBufferSend [] a p n 0 s = Some (r, s')" "xs = bytes_at (mem s) p (the r)"
    using assms(2) by auto
  then show ?thesis using stream_written [OF assms(1)] by (metis option.sel send_storage)
next
  case (2 a' p n s0)
  then obtain r b where "xStreamBufferSendFromISR a p n s = Some ((r, b), s')" "xs = bytes_at (mem s) p r"
    using assms(2) by auto
  then show ?thesis using stream_written [OF assms(1)] by (metis send_isr_storage)
qed

lemma stream_read:
  assumes "stream_ok a s" and "received a p sz s n s'" and "outside p (unat sz) (sbuffers s a)"
  shows "stream_ok a s' \<and> bytes_at (mem s') p n @ stream_bytes a s' = stream_bytes a s \<and> unat n = min (unat sz) (sb_count (sbuffers s a))"
proof -
  have ok: "sb_ok (sbuffers s a)" and lb: "length_bytes a s = 0"
    using assms(1) by (simp_all add: stream_ok_def length_bytes_def)
  obtain s1 where r: "prvReadMessageFromBuffer a p sz (prvBytesInBuffer a s) 0 s = (n, s1)" and same: "same_storage a s1 s'"
    using assms(2) by (auto simp: received_def lb)
  have "is_message_buffer a s1 = is_message_buffer a s"
    using r read_flags by (auto simp: prvReadMessageFromBuffer_def is_message_buffer_def split: prod.splits)
  then show ?thesis
    using read_stream [OF ok unat_bytes_in_buffer [OF ok] assms(3) r] same_storageD [OF same] same assms(1)
    by (simp add: stream_ok_def same_storage_def)
qed

lemma stream_get_law:
  assumes "stream_ok a s" and "stream_get a pn s = Some (ys, s')"
  shows "stream_ok a s' \<and> ys @ stream_bytes a s' = stream_bytes a s"
proof (cases "(a, pn, s)" rule: stream_get.cases)
  case (1 a' p n s0)
  then obtain r where "xStreamBufferReceive (\<lambda>_. Some) a p n 0 s = Some (r, s')" "ys = bytes_at (mem s') p r"
    "outside p (unat n) (sbuffers s a)"
    using assms(2) by (auto split: if_splits)
  then show ?thesis using stream_read [OF assms(1)] receive_storage assms(1) by (metis append_Nil bytes_none)
next
  case (2 a' p n s0)
  then obtain r b where "xStreamBufferReceiveFromISR a p n s = Some ((r, b), s')" "ys = bytes_at (mem s') p r"
    "outside p (unat n) (sbuffers s a)"
    using assms(2) by (auto split: if_splits)
  then show ?thesis using stream_read [OF assms(1)] receive_isr_storage assms(1) by (metis append_Nil bytes_none)
qed

interpretation stream: fifo "stream_ok a" "stream_bytes a" "stream_put a" "stream_get a" for a
  by unfold_locales (fact stream_put_law stream_get_law)+

section \<open>A message buffer is a first-in first-out buffer of messages\<close>

definition framed :: "u8 list list \<Rightarrow> u8 list \<Rightarrow> bool" where
  "framed ms bs \<longleftrightarrow> bs = concat (map frame ms) \<and> (\<forall>m\<in>set ms. m \<noteq> [] \<and> length m < 2 ^ 32)"

definition message_ok :: "u32 \<Rightarrow> rtos \<Rightarrow> bool" where
  "message_ok a s \<longleftrightarrow> sb_ok (sbuffers s a) \<and> is_message_buffer a s
     \<and> framed (messages (stream_bytes a s)) (stream_bytes a s)"

definition message_contents :: "u32 \<Rightarrow> rtos \<Rightarrow> u8 list list" where
  "message_contents a s = messages (stream_bytes a s)"

lemma framed_messages: "framed ms bs \<Longrightarrow> messages bs = ms"
  by (simp add: framed_def messages_frames)

lemma message_okI:
  "sb_ok (sbuffers s a) \<Longrightarrow> is_message_buffer a s \<Longrightarrow> framed ms (stream_bytes a s) \<Longrightarrow> message_ok a s \<and> message_contents a s = ms"
  by (simp add: message_ok_def message_contents_def framed_messages)

lemma message_okD:
  assumes "message_ok a s"
  shows "sb_ok (sbuffers s a)" and "is_message_buffer a s" and "framed (message_contents a s) (stream_bytes a s)"
  using assms by (simp_all add: message_ok_def message_contents_def)

text \<open>
  A message that is sent has at least one byte and is short enough for its length plus four
  to fit into a word, and does not lie in the storage.
\<close>

definition sendable :: "u32 \<Rightarrow> u32 \<Rightarrow> u32 \<Rightarrow> rtos \<Rightarrow> bool" where
  "sendable a p n s \<longleftrightarrow> n \<noteq> 0 \<and> unat n + 4 < 2 ^ 32 \<and> outside p (unat n) (sbuffers s a)"

definition whole :: "u32 \<Rightarrow> u8 list \<Rightarrow> u8 list list" where
  "whole n bs = (if n = 0 then [] else [bs])"

fun message_put :: "u32 \<Rightarrow> party \<times> u32 \<Rightarrow> rtos \<Rightarrow> (u8 list list \<times> rtos) option" where
  "message_put a (ByTask p, n) s =
     (if sendable a p n s
      then map_option (\<lambda>(r, s'). (whole (the r) (bytes_at (mem s) p (the r)), s')) (xStreamBufferSend [] a p n 0 s) else None)"
| "message_put a (FromISR p, n) s =
     (if sendable a p n s
      then map_option (\<lambda>(r, s'). (whole (fst r) (bytes_at (mem s) p (fst r)), s')) (xStreamBufferSendFromISR a p n s) else None)"

fun message_get :: "u32 \<Rightarrow> party \<times> u32 \<Rightarrow> rtos \<Rightarrow> (u8 list list \<times> rtos) option" where
  "message_get a (ByTask p, n) s =
     (if outside p (unat n) (sbuffers s a)
      then map_option (\<lambda>(r, s'). (whole r (bytes_at (mem s') p r), s')) (xStreamBufferReceive (\<lambda>_. Some) a p n 0 s) else None)"
| "message_get a (FromISR p, n) s =
     (if outside p (unat n) (sbuffers s a)
      then map_option (\<lambda>(r, s'). (whole (fst r) (bytes_at (mem s') p (fst r)), s')) (xStreamBufferReceiveFromISR a p n s) else None)"

lemma message_written:
  assumes ok: "message_ok a s" and "sendable a p len s" and same: "same_storage a s1 s'"
    and w: "prvWriteMessageToBuffer a p len (xStreamBufferSpacesAvailable a s) (required_space a len s) s = (n, s1)"
  shows "message_ok a s' \<and> message_contents a s' = message_contents a s @ whole n (bytes_at (mem s) p n)
    \<and> n = (if unat len + 4 \<le> unat (xStreamBufferSpacesAvailable a s) then len else 0)"
proof -
  note D = message_okD [OF ok] and S = same_storageD [OF same]
  have fit: "unat len + 4 < 2 ^ 32" "outside p (unat len) (sbuffers s a)" "len \<noteq> 0"
    using assms(2) by (simp_all add: sendable_def)
  note W = write_message(3) [OF D(1) w D(2) fit(1,2)]
  have msg: "is_message_buffer a s'" using write_message(1) [OF D(1) w] D(2) S(3) by simp
  show ?thesis
  proof (cases "unat len + 4 \<le> unat (xStreamBufferSpacesAvailable a s)")
    case True
    then have n: "n = len" "sb_ok (sbuffers s' a)" "stream_bytes a s' = stream_bytes a s @ frame (bytes_at (mem s) p n)"
      using W S by simp_all
    moreover have "bytes_at (mem s) p n \<noteq> []" "length (bytes_at (mem s) p n) < 2 ^ 32"
      using fit(3) n(1) unat_less_u32 [of n] unat_gt_0 [of n] by (simp_all flip: length_greater_0_conv)
    ultimately have "framed (message_contents a s @ [bytes_at (mem s) p n]) (stream_bytes a s')"
      using D(3) by (simp add: framed_def)
    from message_okI [OF n(2) msg this] show ?thesis using True n(1) fit(3) by (simp add: whole_def)
  next
    case False
    then have n: "n = 0" "sb_ok (sbuffers s' a)" "stream_bytes a s' = stream_bytes a s"
      using W S D(1) by simp_all
    with message_okI [OF n(2) msg, of "message_contents a s"] D(3) False show ?thesis by (simp add: whole_def)
  qed
qed

lemma message_put_law:
  assumes "message_ok a s" and "message_put a pn s = Some (xs, s')"
  shows "message_ok a s' \<and> message_contents a s' = message_contents a s @ xs"
proof (cases "(a, pn, s)" rule: message_put.cases)
  case (1 a' p n s0)
  then obtain r where "xStreamBufferSend [] a p n 0 s = Some (r, s')" "xs = whole (the r) (bytes_at (mem s) p (the r))" "sendable a p n s"
    using assms(2) by (auto split: if_splits)
  then show ?thesis using message_written [OF assms(1)] by (metis option.sel send_storage)
next
  case (2 a' p n s0)
  then obtain r b where "xStreamBufferSendFromISR a p n s = Some ((r, b), s')" "xs = whole r (bytes_at (mem s) p r)" "sendable a p n s"
    using assms(2) by (auto split: if_splits)
  then show ?thesis using message_written [OF assms(1)] by (metis send_isr_storage)
qed

lemma message_read:
  assumes ok: "message_ok a s" and "received a p sz s n s'" and out: "outside p (unat sz) (sbuffers s a)"
  shows "message_ok a s' \<and> whole n (bytes_at (mem s') p n) @ message_contents a s' = message_contents a s"
    and "message_contents a s \<noteq> [] \<and> (n = 0 \<longleftrightarrow> length (hd (message_contents a s)) > unat sz)"
proof -
  note D = message_okD [OF ok]
  have lb: "length_bytes a s = 4" using D(2) by (simp add: length_bytes_def sbBYTES_TO_STORE_MESSAGE_LENGTH_def)
  obtain s1 where r: "prvReadMessageFromBuffer a p sz (prvBytesInBuffer a s) 4 s = (n, s1)" and same: "same_storage a s1 s'"
    and gt: "prvBytesInBuffer a s > 4"
    using assms(2) by (auto simp: received_def lb)
  have "sb_count (sbuffers s a) > 4" using gt unat_bytes_in_buffer [OF D(1)] by (simp add: word_less_nat_alt)
  then have "stream_bytes a s \<noteq> []" by (simp add: stream_bytes_def flip: length_greater_0_conv)
  then obtain m ms where ms: "message_contents a s = m # ms" using D(3) by (cases "message_contents a s") (auto simp: framed_def)
  then have m: "m \<noteq> []" "length m < 2 ^ 32" and first: "stream_bytes a s = frame m @ concat (map frame ms)"
    and rest: "framed ms (concat (map frame ms))" using D(3) by (auto simp: framed_def)
  have msg: "is_message_buffer a s'"
  proof -
    have "is_message_buffer a s1 = is_message_buffer a s"
      using r read_flags by (auto simp: prvReadMessageFromBuffer_def is_message_buffer_def Let_def upd_sb_def split: prod.splits if_splits)
    then show ?thesis using same_storageD(3) [OF same] D(2) by simp
  qed
  note R = read_message [OF D(1) unat_bytes_in_buffer [OF D(1)] out r first m(2)]
  have mem_eq: "mem s' = mem s1" using same by (simp add: same_storage_def)
  have both: "(message_ok a s' \<and> whole n (bytes_at (mem s') p n) @ message_contents a s' = message_contents a s)
    \<and> (n = 0 \<longleftrightarrow> length m > unat sz)"
  proof (cases "length m \<le> unat sz")
    case True
    then have n: "unat n = length m" "bytes_at (mem s') p n = m" "sb_ok (sbuffers s' a)" "stream_bytes a s' = concat (map frame ms)"
      using R same_storageD [OF same] mem_eq by simp_all
    then have "n \<noteq> 0" using m(1) by auto
    with message_okI [OF n(3) msg, of ms] rest n ms True show ?thesis by (simp add: whole_def)
  next
    case False
    then have n: "n = 0" "sb_ok (sbuffers s' a)" "stream_bytes a s' = stream_bytes a s"
      using R same_storageD [OF same] by simp_all
    with message_okI [OF n(2) msg, of "message_contents a s"] D(3) False show ?thesis by (simp add: whole_def)
  qed
  then show "message_ok a s' \<and> whole n (bytes_at (mem s') p n) @ message_contents a s' = message_contents a s" by blast
  show "message_contents a s \<noteq> [] \<and> (n = 0 \<longleftrightarrow> length (hd (message_contents a s)) > unat sz)" using both ms by simp
qed

lemma message_get_law:
  assumes "message_ok a s" and "message_get a pn s = Some (ys, s')"
  shows "message_ok a s' \<and> ys @ message_contents a s' = message_contents a s"
proof (cases "(a, pn, s)" rule: message_get.cases)
  case (1 a' p n s0)
  then obtain r where r: "xStreamBufferReceive (\<lambda>_. Some) a p n 0 s = Some (r, s')" "ys = whole r (bytes_at (mem s') p r)"
    "outside p (unat n) (sbuffers s a)"
    using assms(2) by (auto split: if_splits)
  from receive_storage [OF r(1)] show ?thesis
  proof
    assume "received a p n s r s'"
    then show ?thesis using message_read(1) [OF assms(1) _ r(3)] r(2) by simp
  qed (use assms(1) r(2) in \<open>simp add: whole_def\<close>)
next
  case (2 a' p n s0)
  then obtain r b where r: "xStreamBufferReceiveFromISR a p n s = Some ((r, b), s')" "ys = whole r (bytes_at (mem s') p r)"
    "outside p (unat n) (sbuffers s a)"
    using assms(2) by (auto split: if_splits)
  from receive_isr_storage [OF r(1)] show ?thesis
  proof
    assume "received a p n s r s'"
    then show ?thesis using message_read(1) [OF assms(1) _ r(3)] r(2) by simp
  qed (use assms(1) r(2) in \<open>simp add: whole_def\<close>)
qed

interpretation message: fifo "message_ok a" "message_contents a" "message_put a" "message_get a" for a
  by unfold_locales (fact message_put_law message_get_law)+

end
