(* ===== verification/Stream_Buffer_Demo.thy ===== *)
theory Stream_Buffer_Demo
  imports Stream_Buffer_Fifo Queue_Demo
begin

text \<open>
  Concrete buffers for the witnesses: their indices are about to wrap around.
\<close>

section \<open>A buffer of seven bytes\<close>

definition demo_sb :: "u8 \<Rightarrow> StreamBuffer_t" where
  "demo_sb flags = \<lparr>xTail = 6, xHead = 6, xLength = 8, xTriggerLevelBytes = 2, xTaskWaitingToReceive = None,
     xTaskWaitingToSend = None, pucBuffer = 0x20000024, ucFlags = flags, uxStreamBufferNumber = 0\<rparr>"

definition sb_rtos :: "StreamBuffer_t \<Rightarrow> rtos" where
  "sb_rtos x = rtos0\<lparr>mem := (\<lambda>q. ucast q + 1), sbuffers := (sbuffers rtos0)(0x20000000 := x)\<rparr>"

lemma sb_rtos_fields [simp]:
  "sbuffers (sb_rtos x) 0x20000000 = x" "kern (sb_rtos x) = demo" "mem (sb_rtos x) = (\<lambda>q. ucast q + 1)"
  by (simp_all add: sb_rtos_def rtos0_def)

lemma demo_sb_fields [simp]:
  "xTail (demo_sb f) = 6" "xHead (demo_sb f) = 6" "xLength (demo_sb f) = 8" "xTriggerLevelBytes (demo_sb f) = 2"
  "xTaskWaitingToReceive (demo_sb f) = None" "xTaskWaitingToSend (demo_sb f) = None" "pucBuffer (demo_sb f) = 0x20000024"
  "ucFlags (demo_sb f) = f"
  by (simp_all add: demo_sb_def)

lemma demo_sb_ok: "sb_ok (demo_sb f)" and demo_sb_empty: "sb_count (demo_sb f) = 0"
  by (simp_all add: sb_ok_def sb_count_def)

lemma demo_stream: "stream_ok 0x20000000 (sb_rtos (demo_sb 0))" "stream_bytes 0x20000000 (sb_rtos (demo_sb 0)) = []"
  by (simp_all add: stream_ok_def demo_sb_ok is_message_buffer_def stream_bytes_def sb_bytes_def demo_sb_empty)

lemma demo_message: "message_ok 0x20000000 (sb_rtos (demo_sb 1))" "message_contents 0x20000000 (sb_rtos (demo_sb 1)) = []"
  by (simp_all add: message_ok_def demo_sb_ok is_message_buffer_def sbFLAGS_IS_MESSAGE_BUFFER_def message_contents_def
      stream_bytes_def sb_bytes_def demo_sb_empty framed_def)

lemmas stream_code [code] =
  sbSEND_COMPLETED_def [unfolded by_case] sbRECEIVE_COMPLETED_def [unfolded by_case]
  xStreamBufferSendCompletedFromISR_def [unfolded by_case] xStreamBufferReceiveCompletedFromISR_def [unfolded by_case]
  sbSEND_COMPLETE_FROM_ISR_def [unfolded by_case] sbRECEIVE_COMPLETED_FROM_ISR_def [unfolded by_case]
  send_now_def [unfolded by_case] xStreamBufferSend_def [unfolded by_case]
  xStreamBufferSendFromISR_def [unfolded by_case] xStreamBufferReceiveFromISR_def [unfolded by_case]

lemma mem_put_code [code]:
  "mem_put p bs m = (\<lambda>q. if length bs < 100 then if q - p < of_nat (length bs) then bs ! unat (q - p) else m q
     else if unat (q - p) < length bs then bs ! unat (q - p) else m q)"
proof (rule ext)
  fix q
  show "mem_put p bs m q = (if length bs < 100 then if q - p < of_nat (length bs) then bs ! unat (q - p) else m q
     else if unat (q - p) < length bs then bs ! unat (q - p) else m q)"
    by (auto simp: mem_put_def word_less_nat_alt unat_of_nat_u32)
qed

text \<open>Five bytes, the last three behind the wrap; and a message of three bytes.\<close>

lemma demo_stream_put:
  "map_option fst (xStreamBufferSendFromISR 0x20000000 0x30000000 5 (sb_rtos (demo_sb 0))) = Some (5, False)"
  by code_simp

lemma demo_message_put:
  "map_option fst (xStreamBufferSendFromISR 0x20000000 0x30000000 3 (sb_rtos (demo_sb 1))) = Some (3, False)"
  by code_simp

lemma demo_message_send:
  "map_option fst (xStreamBufferSend [] 0x20000000 0x30000000 3 0 (sb_rtos (demo_sb 1))) = Some (Some 3)"
  by code_simp

lemma demo_area: "n \<le> 100 \<Longrightarrow> outside 0x30000000 n (demo_sb f)"
  by (simp add: outside_def)

lemma demo_room: "unat (xStreamBufferSpacesAvailable 0x20000000 (sb_rtos (demo_sb f))) = 7"
  using unat_sb_spaces [of "sb_rtos (demo_sb f)" "0x20000000"] by (simp add: demo_sb_ok demo_sb_empty)

lemma demo_data: "bytes_at (\<lambda>q. ucast q + 1) 0x30000000 5 = [1, 2, 3, 4, 5]" "bytes_at (\<lambda>q. ucast q + 1) 0x30000000 3 = [1, 2, 3]"
  by (simp_all add: bytes_at_def upt_rec)

end
