(* ===== verification/Stream_Buffer_Properties.thy ===== *)
theory Stream_Buffer_Properties
  imports Stream_Buffer_Demo Event_Group_Properties
begin

text \<open>
  What stream and message buffers promise: bytes and messages arrive in order and whole, a
  call moves as much as fits, the other side is woken and no wake-up is lost; and where the
  code accepts arguments it cannot honour.
\<close>

section \<open>Waking the other side\<close>

lemma notify_fields:
  assumes "xTaskGenericNotify t v a k = Some (r, k')"
  shows "pxCurrentTCB k' = pxCurrentTCB k \<and> uxSchedulerSuspended k' = uxSchedulerSuspended k"
proof -
  let ?n = "snd (record_notification t v a k)"
  have n: "pxCurrentTCB ?n = pxCurrentTCB k" "uxSchedulerSuspended ?n = uxSchedulerSuspended k"
    by (simp_all add: record_notification_snd)
  show ?thesis
  proof (cases "snd (snd (fst (record_notification t v a k))) = taskWAITING_NOTIFICATION")
    case True
    then obtain l c where l: "container ?n (StateItem t) = Some l" "pxCurrentTCB (prvAddTaskToReadyList t (k_unlist (StateItem t) ?n)) = Some c"
      "k' = (if prio (prvAddTaskToReadyList t (k_unlist (StateItem t) ?n)) t > prio (prvAddTaskToReadyList t (k_unlist (StateItem t) ?n)) c
         then portYIELD (prvAddTaskToReadyList t (k_unlist (StateItem t) ?n)) else prvAddTaskToReadyList t (k_unlist (StateItem t) ?n))"
      using assms unfolding xTaskGenericNotify_def Let_def k_remove_unlist
      by (cases "container ?n (StateItem t)") (simp_all add: bind_eq_Some_conv, blast?)
    show ?thesis unfolding l(3) using n by simp
  next
    case False
    then have "k' = ?n" using assms unfolding xTaskGenericNotify_def Let_def by simp
    then show ?thesis using n by simp
  qed
qed

lemma notify_and_resume:
  assumes "reach idle k" and "pxCurrentTCB k = Some c" and "ready k c" and "uxSchedulerSuspended k + 1 \<noteq> 0" and "alive k t"
  shows "\<exists>r k1 b k2. xTaskGenericNotify t 0 eNoAction (vTaskSuspendAll k) = Some (r, k1) \<and> xTaskResumeAll k1 = Some (b, k2)
    \<and> reach idle k2 \<and> pxCurrentTCB k2 = Some c \<and> uxSchedulerSuspended k2 = uxSchedulerSuspended k
    \<and> (tcb_ucNotifyState (tcbs k t) = taskWAITING_NOTIFICATION \<longrightarrow> ready k2 t)
    \<and> tcb_ucNotifyState (tcbs k2 t) = taskNOTIFICATION_RECEIVED \<and> (\<forall>u. ready k u \<longrightarrow> ready k2 u)"
proof -
  let ?k = "vTaskSuspendAll k"
  have f: "tcbs ?k = tcbs k" "pxCurrentTCB ?k = pxCurrentTCB k" "ready ?k = ready k" "alive ?k t = alive k t"
    by (simp_all add: vTaskSuspendAll_def ready_def alive_def fun_eq_iff)
  have R: "reach idle ?k" using reach_call [OF assms(1), of SuspendAll] assms(4) by (simp add: kguard_defs)
  obtain T where I: "sinv idle T ?k" using reach_inv [OF R] by blast
  have "alive ?k t" using assms(5) f by simp
  note a = alive_task [OF I this]
  obtain r k1 where N: "xTaskGenericNotify t 0 eNoAction ?k = Some (r, k1)"
    "tcb_ucNotifyState (tcbs k1 t) = taskNOTIFICATION_RECEIVED"
    "tcb_ucNotifyState (tcbs ?k t) = taskWAITING_NOTIFICATION \<longrightarrow> ready k1 t" "\<forall>u. ready ?k u \<longrightarrow> ready k1 u"
    using notify_sinv [OF I, of t 0 eNoAction] a by blast
  have R1: "reach idle k1" using reach_call [OF R, of "Notify t 0 eNoAction"] N(1) \<open>alive ?k t\<close> by (simp add: kguard_defs)
  note F = notify_fields [OF N(1)]
  have "pxCurrentTCB k1 = Some c" "ready k1 c" using F f N(4) assms(2,3) by simp_all
  from resume_ready [OF R1 this] obtain b k2 where "xTaskResumeAll k1 = Some (b, k2)" "reach idle k2"
    "resumed (k1\<lparr>uxSchedulerSuspended := uxSchedulerSuspended k1 - 1\<rparr>) k2" by blast
  then show ?thesis using N F f assms(2) by (auto simp: resumed_def vTaskSuspendAll_def)
qed

text \<open>The running task calls, the scheduler is not suspended as deeply as it can count.\<close>

definition calling :: "task \<Rightarrow> task \<Rightarrow> kernel \<Rightarrow> bool" where
  "calling idle c k \<longleftrightarrow> reach idle k \<and> pxCurrentTCB k = Some c \<and> ready k c \<and> uxSchedulerSuspended k + 1 \<noteq> 0"

definition other_side_woken :: "task option \<Rightarrow> kernel \<Rightarrow> kernel \<Rightarrow> bool" where
  "other_side_woken h k k' \<longleftrightarrow> (\<forall>u. ready k u \<longrightarrow> ready k' u) \<and> (case h of None \<Rightarrow> True
     | Some t \<Rightarrow> tcb_ucNotifyState (tcbs k' t) = taskNOTIFICATION_RECEIVED
         \<and> (tcb_ucNotifyState (tcbs k t) = taskWAITING_NOTIFICATION \<longrightarrow> ready k' t))"

lemma suspend_and_resume:
  assumes "calling idle c k"
  shows "\<exists>b k2. xTaskResumeAll (vTaskSuspendAll k) = Some (b, k2) \<and> calling idle c k2 \<and> other_side_woken None k k2"
proof -
  let ?k = "vTaskSuspendAll k"
  have f: "pxCurrentTCB ?k = pxCurrentTCB k" "ready ?k = ready k" by (simp_all add: vTaskSuspendAll_def ready_def fun_eq_iff)
  have "reach idle ?k" using reach_call [of idle k SuspendAll] assms by (simp add: kguard_defs calling_def)
  moreover have "pxCurrentTCB ?k = Some c" "ready ?k c" using assms f by (simp_all add: calling_def)
  ultimately obtain b k2 where "xTaskResumeAll ?k = Some (b, k2)" "reach idle k2"
    "resumed (?k\<lparr>uxSchedulerSuspended := uxSchedulerSuspended ?k - 1\<rparr>) k2" using resume_ready by blast
  then show ?thesis using assms f by (auto simp: resumed_def calling_def other_side_woken_def vTaskSuspendAll_def)
qed

lemma notify_and_resume_calling:
  assumes "calling idle c k" and "alive k t"
  shows "\<exists>r k1 b k2. xTaskGenericNotify t 0 eNoAction (vTaskSuspendAll k) = Some (r, k1) \<and> xTaskResumeAll k1 = Some (b, k2)
    \<and> calling idle c k2 \<and> other_side_woken (Some t) k k2"
  using notify_and_resume [of idle k c t] assms by (auto simp: calling_def other_side_woken_def)

lemma send_completed:
  assumes "calling idle c (kern s)" and "\<And>t. xTaskWaitingToReceive (sbuffers s a) = Some t \<Longrightarrow> alive (kern s) t"
  shows "\<exists>s'. sbSEND_COMPLETED a s = Some s' \<and> calling idle c (kern s') \<and> xTaskWaitingToReceive (sbuffers s' a) = None
    \<and> other_side_woken (xTaskWaitingToReceive (sbuffers s a)) (kern s) (kern s')
    \<and> xTaskWaitingToSend (sbuffers s' a) = xTaskWaitingToSend (sbuffers s a)"
proof (cases "xTaskWaitingToReceive (sbuffers s a)")
  case None
  then show ?thesis using suspend_and_resume [OF assms(1)]
    by (auto simp: sbSEND_COMPLETED_def on_kern_def Let_def)
next
  case (Some t)
  then show ?thesis using notify_and_resume_calling [OF assms(1) assms(2) [OF Some]]
    by (auto simp: sbSEND_COMPLETED_def on_kern_def Let_def upd_sb_def)
qed

lemma receive_completed:
  assumes "calling idle c (kern s)" and "\<And>t. xTaskWaitingToSend (sbuffers s a) = Some t \<Longrightarrow> alive (kern s) t"
  shows "\<exists>s'. sbRECEIVE_COMPLETED a s = Some s' \<and> calling idle c (kern s') \<and> xTaskWaitingToSend (sbuffers s' a) = None
    \<and> other_side_woken (xTaskWaitingToSend (sbuffers s a)) (kern s) (kern s')
    \<and> xTaskWaitingToReceive (sbuffers s' a) = xTaskWaitingToReceive (sbuffers s a)"
proof (cases "xTaskWaitingToSend (sbuffers s a)")
  case None
  then show ?thesis using suspend_and_resume [OF assms(1)]
    by (auto simp: sbRECEIVE_COMPLETED_def on_kern_def Let_def)
next
  case (Some t)
  then show ?thesis using notify_and_resume_calling [OF assms(1) assms(2) [OF Some]]
    by (auto simp: sbRECEIVE_COMPLETED_def on_kern_def Let_def upd_sb_def)
qed

text \<open>The copying leaves the scheduler and the waiting tasks alone.\<close>

definition same_waiting :: "u32 \<Rightarrow> rtos \<Rightarrow> rtos \<Rightarrow> bool" where
  "same_waiting a s s' \<longleftrightarrow> kern s' = kern s \<and> xTaskWaitingToReceive (sbuffers s' a) = xTaskWaitingToReceive (sbuffers s a)
     \<and> xTaskWaitingToSend (sbuffers s' a) = xTaskWaitingToSend (sbuffers s a)
     \<and> xTriggerLevelBytes (sbuffers s' a) = xTriggerLevelBytes (sbuffers s a)"

lemma write_waiting: "same_waiting a s (prvWriteBytesToBuffer a bs s)"
  by (simp add: prvWriteBytesToBuffer_def same_waiting_def upd_sb_def Let_def)

lemma write_message_waiting: "prvWriteMessageToBuffer a p len sp req s = (n, s') \<Longrightarrow> same_waiting a s s'"
  using write_waiting
  by (auto simp: prvWriteMessageToBuffer_def same_waiting_def Let_def split: if_splits)

lemma read_waiting: "prvReadBytesFromBuffer a mx av s = (bs, s') \<Longrightarrow> same_waiting a s s'"
  by (auto elim!: read_state simp: same_waiting_def upd_sb_def)

lemma read_message_waiting: "prvReadMessageFromBuffer a p sz av l s = (n, s') \<Longrightarrow> same_waiting a s s'"
  by (auto simp: prvReadMessageFromBuffer_def Let_def upd_sb_def same_waiting_def split: prod.splits if_splits
      dest!: read_waiting)

section \<open>Delivery\<close>

text \<open>
  C19. A stream buffer delivers the bytes that were sent, in order, once, however sends and
  receives of any size by tasks and by interrupt handlers follow each other and wrap around the
  storage: the bytes received so far are the first of those sent, the rest is in the buffer.
\<close>

theorem stream_delivers_in_order:
  assumes "stream_ok a s" and "stream_bytes a s = []"
    and "fifo.traffic (stream_ok a) (stream_bytes a) (stream_put a) (stream_get a) s sent got t"
  shows "got @ stream_bytes a t = sent \<and> stream_ok a t"
  using stream.traffic_ok [OF assms(3,1)] assms(2) by simp

theorem stream_delivers_in_order_witness:
  "\<exists>t. fifo.traffic (stream_ok 0x20000000) (stream_bytes 0x20000000) (stream_put 0x20000000) (stream_get 0x20000000)
      (sb_rtos (demo_sb 0)) [1, 2, 3, 4, 5] [] t \<and> stream_bytes 0x20000000 t = [1, 2, 3, 4, 5]"
proof -
  obtain t where "stream_put 0x20000000 (FromISR 0x30000000, 5) (sb_rtos (demo_sb 0)) = Some ([1, 2, 3, 4, 5], t)"
    using demo_stream_put demo_data by auto
  from stream.traffic.putting [OF stream.traffic.nothing this]
  have r: "fifo.traffic (stream_ok 0x20000000) (stream_bytes 0x20000000) (stream_put 0x20000000) (stream_get 0x20000000)
      (sb_rtos (demo_sb 0)) [1, 2, 3, 4, 5] [] t" by simp
  from stream_delivers_in_order [OF demo_stream this] show ?thesis using r by auto
qed

text \<open>
  C20. A message buffer delivers whole messages: those received so far are the first of those
  sent, in order, none cut, joined or lost, and the rest is in the buffer.
\<close>

theorem messages_delivered_whole:
  assumes "message_ok a s" and "message_contents a s = []"
    and "fifo.traffic (message_ok a) (message_contents a) (message_put a) (message_get a) s sent got t"
  shows "got @ message_contents a t = sent \<and> message_ok a t"
  using message.traffic_ok [OF assms(3,1)] assms(2) by simp

theorem messages_delivered_whole_witness:
  "\<exists>t. fifo.traffic (message_ok 0x20000000) (message_contents 0x20000000) (message_put 0x20000000) (message_get 0x20000000)
      (sb_rtos (demo_sb 1)) [[1, 2, 3]] [] t \<and> message_contents 0x20000000 t = [[1, 2, 3]]"
proof -
  obtain t where "xStreamBufferSendFromISR 0x20000000 0x30000000 3 (sb_rtos (demo_sb 1)) = Some ((3, False), t)"
    using demo_message_put by auto
  then have "message_put 0x20000000 (FromISR 0x30000000, 3) (sb_rtos (demo_sb 1)) = Some ([[1, 2, 3]], t)"
    using demo_data demo_area [of 3] by (simp add: sendable_def whole_def)
  from message.traffic.putting [OF message.traffic.nothing this]
  have r: "fifo.traffic (message_ok 0x20000000) (message_contents 0x20000000) (message_put 0x20000000) (message_get 0x20000000)
      (sb_rtos (demo_sb 1)) [[1, 2, 3]] [] t" by simp
  from messages_delivered_whole [OF demo_message this] show ?thesis using r by auto
qed

lemma demo_calling: "calling 0 2 demo"
  using demo_reach demo_cur demo_ready_tasks demo_state by (simp add: calling_def)

section \<open>How much a call moves, and whom it wakes\<close>

text \<open>
  C21. A send to a stream buffer that does not wait returns; it writes as many bytes as there is
  room for, and there is room for \<open>xLength\<close> - 1 bytes less those in the buffer. When the bytes
  in the buffer then reach the trigger level, the task that waits to receive is notified and,
  if it is blocked on the notification, ready; below the trigger level nobody is.
\<close>

theorem stream_send_writes_and_wakes:
  assumes "calling idle c (kern s)" and "stream_ok a s"
    and "\<And>t. xTaskWaitingToReceive (sbuffers s a) = Some t \<Longrightarrow> alive (kern s) t"
  shows "\<exists>n s'. xStreamBufferSend ws a p len 0 s = Some (Some n, s') \<and> stream_ok a s'
    \<and> unat n = min (unat len) (unat (xLength (sbuffers s a)) - 1 - length (stream_bytes a s))
    \<and> stream_bytes a s' = stream_bytes a s @ bytes_at (mem s) p n
    \<and> (if n \<noteq> 0 \<and> length (stream_bytes a s') \<ge> unat (xTriggerLevelBytes (sbuffers s a))
       then xTaskWaitingToReceive (sbuffers s' a) = None
         \<and> other_side_woken (xTaskWaitingToReceive (sbuffers s a)) (kern s) (kern s')
       else kern s' = kern s \<and> xTaskWaitingToReceive (sbuffers s' a) = xTaskWaitingToReceive (sbuffers s a))"
proof -
  let ?sp = "xStreamBufferSpacesAvailable a s"
  have ok: "sb_ok (sbuffers s a)" and nm: "\<not> is_message_buffer a s" using assms(2) by (simp_all add: stream_ok_def)
  obtain n s1 where w: "prvWriteMessageToBuffer a p len ?sp (required_space a len s) s = (n, s1)"
    by (cases "prvWriteMessageToBuffer a p len ?sp (required_space a len s) s")
  note W = write_message(1,2) [OF ok w] and V = write_message_waiting [OF w]
  have n: "n = min len ?sp" "sb_ok (sbuffers s1 a)" "stream_bytes a s1 = stream_bytes a s @ bytes_at (mem s) p n"
    "\<not> is_message_buffer a s1" using W nm by simp_all
  have un: "unat n = min (unat len) (unat (xLength (sbuffers s a)) - 1 - length (stream_bytes a s))"
    using n(1) unat_sb_spaces [OF ok] by (auto simp: min_def word_le_nat_alt stream_bytes_def)
  have send: "xStreamBufferSend ws a p len 0 s =
      (if n > 0 \<and> prvBytesInBuffer a s1 \<ge> xTriggerLevelBytes (sbuffers s1 a)
       then map_option (\<lambda>s. (Some n, s)) (sbSEND_COMPLETED a s1) else Some (Some n, s1))"
    using w by (simp add: xStreamBufferSend_def send_now_def Let_def map_option_as_case bind_case split: option.split)
  have full: "prvBytesInBuffer a s1 \<ge> xTriggerLevelBytes (sbuffers s1 a)
      \<longleftrightarrow> length (stream_bytes a s1) \<ge> unat (xTriggerLevelBytes (sbuffers s a))"
    using unat_bytes_in_buffer [OF n(2)] V by (simp add: word_le_nat_alt stream_bytes_def same_waiting_def)
  have pos: "n > 0 \<longleftrightarrow> n \<noteq> 0" by (simp add: word_gt_0)
  show ?thesis
  proof (cases "n \<noteq> 0 \<and> length (stream_bytes a s1) \<ge> unat (xTriggerLevelBytes (sbuffers s a))")
    case True
    obtain s' where C: "sbSEND_COMPLETED a s1 = Some s'" "xTaskWaitingToReceive (sbuffers s' a) = None"
      "other_side_woken (xTaskWaitingToReceive (sbuffers s1 a)) (kern s1) (kern s')"
      using send_completed [of idle c s1 a] assms(1,3) V by (auto simp: same_waiting_def)
    note S = same_storageD [OF completed_storage(1) [OF C(1)]]
    have "xStreamBufferSend ws a p len 0 s = Some (Some n, s')" using send True full pos C(1) by simp
    then show ?thesis using True un n S C V by (intro exI [of _ n] exI [of _ s']) (simp add: stream_ok_def same_waiting_def)
  next
    case False
    then have "xStreamBufferSend ws a p len 0 s = Some (Some n, s1)" unfolding send full pos by (simp only: if_False)
    then show ?thesis using False un n V by (intro exI [of _ n] exI [of _ s1]) (auto simp: stream_ok_def same_waiting_def)
  qed
qed

theorem stream_send_writes_and_wakes_witness:
  "\<exists>s'. xStreamBufferSend [] 0x20000000 0x30000000 5 0 (sb_rtos (demo_sb 0)) = Some (Some 5, s')
    \<and> stream_bytes 0x20000000 s' = [1, 2, 3, 4, 5]"
proof -
  have "calling 0 2 (kern (sb_rtos (demo_sb 0)))" using demo_calling by simp
  from stream_send_writes_and_wakes [OF this demo_stream(1), of "[]" "0x30000000" 5] obtain n s' where n:
    "xStreamBufferSend [] 0x20000000 0x30000000 5 0 (sb_rtos (demo_sb 0)) = Some (Some n, s')" "unat n = 5"
    "stream_bytes 0x20000000 s' = bytes_at (\<lambda>q. ucast q + 1) 0x30000000 n" by (auto simp: demo_stream(2))
  have "n = 5" using n(2) by (simp add: word_unat_eq_iff)
  then show ?thesis using n(1,3) demo_data by auto
qed

text \<open>
  A receive from a stream buffer that does not wait returns; it stores the oldest bytes, as
  many as there are up to the size of the caller's buffer, and takes them out. When it took any,
  the task that waits to send is notified and, if it is blocked on the notification, ready.
\<close>

theorem stream_receive_reads_and_wakes:
  assumes "calling idle c (kern s)" and "stream_ok a s" and "outside p (unat sz) (sbuffers s a)"
    and "\<And>t. xTaskWaitingToSend (sbuffers s a) = Some t \<Longrightarrow> alive (kern s) t"
  shows "\<exists>n s'. xStreamBufferReceive w a p sz 0 s = Some (n, s') \<and> stream_ok a s'
    \<and> unat n = min (unat sz) (length (stream_bytes a s))
    \<and> bytes_at (mem s') p n = take (unat sz) (stream_bytes a s) \<and> stream_bytes a s' = drop (unat sz) (stream_bytes a s)
    \<and> (if n \<noteq> 0
       then xTaskWaitingToSend (sbuffers s' a) = None
         \<and> other_side_woken (xTaskWaitingToSend (sbuffers s a)) (kern s) (kern s')
       else kern s' = kern s \<and> xTaskWaitingToSend (sbuffers s' a) = xTaskWaitingToSend (sbuffers s a))"
proof -
  have ok: "sb_ok (sbuffers s a)" and nm: "\<not> is_message_buffer a s" using assms(2) by (simp_all add: stream_ok_def)
  have lb: "length_bytes a s = 0" using nm by (simp add: length_bytes_def)
  note U = unat_bytes_in_buffer [OF ok]
  show ?thesis
  proof (cases "prvBytesInBuffer a s = 0")
    case True
    then have e: "stream_bytes a s = []" using U by (simp add: stream_bytes_def sb_bytes_def)
    have "xStreamBufferReceive w a p sz 0 s = Some (0, s)"
      using True lb by (simp add: xStreamBufferReceive_def receive_now_def Let_def)
    then show ?thesis using e assms(2) by simp
  next
    case False
    obtain n s1 where r: "prvReadMessageFromBuffer a p sz (prvBytesInBuffer a s) 0 s = (n, s1)"
      by (cases "prvReadMessageFromBuffer a p sz (prvBytesInBuffer a s) 0 s")
    note R = read_stream [OF ok U assms(3) r] and V = read_message_waiting [OF r]
    have nm1: "\<not> is_message_buffer a s1"
      using r read_flags nm by (auto simp: prvReadMessageFromBuffer_def is_message_buffer_def split: prod.splits)
    have un: "unat n = min (unat sz) (length (stream_bytes a s))" using R by (simp add: stream_bytes_def)
    have recv: "xStreamBufferReceive w a p sz 0 s =
        (if n \<noteq> 0 then map_option (Pair n) (sbRECEIVE_COMPLETED a s1) else Some (n, s1))"
      using r False lb by (simp add: xStreamBufferReceive_def receive_now_def Let_def word_gt_0)
    show ?thesis
    proof (cases "n \<noteq> 0")
      case True
      obtain s' where C: "sbRECEIVE_COMPLETED a s1 = Some s'" "xTaskWaitingToSend (sbuffers s' a) = None"
        "other_side_woken (xTaskWaitingToSend (sbuffers s1 a)) (kern s1) (kern s')"
        using receive_completed [of idle c s1 a] assms(1,4) V by (auto simp: same_waiting_def)
      note S = same_storageD [OF completed_storage(2) [OF C(1)]]
      have "mem s' = mem s1" using completed_storage(2) [OF C(1)] by (simp add: same_storage_def)
      then show ?thesis using recv True un R S C V nm1
        by (intro exI [of _ n] exI [of _ s']) (simp add: stream_ok_def same_waiting_def)
    next
      case nz: False
      then show ?thesis using recv un R V nm1
        by (intro exI [of _ n] exI [of _ s1]) (simp add: stream_ok_def same_waiting_def)
    qed
  qed
qed

theorem stream_receive_reads_and_wakes_witness:
  "\<exists>s'. xStreamBufferReceive (\<lambda>_. Some) 0x20000000 0x30000000 4 0 (sb_rtos (demo_sb 0)) = Some (0, s')"
proof -
  have "calling 0 2 (kern (sb_rtos (demo_sb 0)))" using demo_calling by simp
  moreover have "outside 0x30000000 (unat (4 :: u32)) (sbuffers (sb_rtos (demo_sb 0)) 0x20000000)" using demo_area by simp
  ultimately show ?thesis
    using stream_receive_reads_and_wakes [of 0 2 "sb_rtos (demo_sb 0)" "0x20000000" "0x30000000" 4 "\<lambda>_. Some"] demo_stream
    by (auto simp: unat_eq_zero)
qed

text \<open>
  Messages are written and read whole or not at all: a send that does not wait writes its
  message exactly when the message and its length word fit, and returns 0 and changes nothing
  otherwise; a receive that does not wait takes the first message exactly when it fits into the
  caller's buffer, and otherwise leaves it where it is and returns 0.
\<close>

theorem messages_all_or_nothing:
  assumes "message_ok a s"
  shows "(sendable a p len s \<and> xStreamBufferSend ws a p len 0 s = Some (r, s') \<longrightarrow>
      (if unat len + 4 \<le> unat (xStreamBufferSpacesAvailable a s)
       then r = Some len \<and> message_contents a s' = message_contents a s @ [bytes_at (mem s) p len]
       else r = Some 0 \<and> s' = s))
    \<and> (outside p (unat sz) (sbuffers s a) \<and> xStreamBufferReceive w a p sz 0 s = Some (n, s') \<longrightarrow>
      (case message_contents a s of [] \<Rightarrow> n = 0 \<and> s' = s
       | m # ms \<Rightarrow> if length m \<le> unat sz then bytes_at (mem s') p n = m \<and> message_contents a s' = ms
           else n = 0 \<and> message_contents a s' = m # ms))"
proof (intro conjI)
  note D = message_okD [OF assms]
  show "sendable a p len s \<and> xStreamBufferSend ws a p len 0 s = Some (r, s') \<longrightarrow>
      (if unat len + 4 \<le> unat (xStreamBufferSpacesAvailable a s)
       then r = Some len \<and> message_contents a s' = message_contents a s @ [bytes_at (mem s) p len]
       else r = Some 0 \<and> s' = s)"
  proof
    assume h: "sendable a p len s \<and> xStreamBufferSend ws a p len 0 s = Some (r, s')"
    obtain n s1 where w: "prvWriteMessageToBuffer a p len (xStreamBufferSpacesAvailable a s) (required_space a len s) s = (n, s1)"
      by (cases "prvWriteMessageToBuffer a p len (xStreamBufferSpacesAvailable a s) (required_space a len s) s")
    have send: "xStreamBufferSend ws a p len 0 s =
      (if n > 0 \<and> prvBytesInBuffer a s1 \<ge> xTriggerLevelBytes (sbuffers s1 a)
       then map_option (\<lambda>s. (Some n, s)) (sbSEND_COMPLETED a s1) else Some (Some n, s1))"
      using w by (simp add: xStreamBufferSend_def send_now_def Let_def map_option_as_case bind_case split: option.split)
    have same: "r = Some n \<and> same_storage a s1 s' \<and> (n = 0 \<longrightarrow> s' = s1)"
      using h completed_storage(1) unfolding send by (auto split: if_splits)
    note M = message_written [OF assms conjunct1 [OF h] _ w]
    note W = write_message(3) [OF D(1) w D(2)]
    have fit: "unat len + 4 < 2 ^ 32" "outside p (unat len) (sbuffers s a)" "len \<noteq> 0"
      using h by (simp_all add: sendable_def)
    show "if unat len + 4 \<le> unat (xStreamBufferSpacesAvailable a s)
       then r = Some len \<and> message_contents a s' = message_contents a s @ [bytes_at (mem s) p len]
       else r = Some 0 \<and> s' = s"
    proof (cases "unat len + 4 \<le> unat (xStreamBufferSpacesAvailable a s)")
      case True
      then have "n = len" "message_contents a s' = message_contents a s @ whole n (bytes_at (mem s) p n)"
        using M [of s'] same True by simp_all
      then show ?thesis using True same fit(3) by (simp add: whole_def)
    next
      case False
      then show ?thesis using W [OF fit(1,2)] same by simp
    qed
  qed
  show "outside p (unat sz) (sbuffers s a) \<and> xStreamBufferReceive w a p sz 0 s = Some (n, s') \<longrightarrow>
      (case message_contents a s of [] \<Rightarrow> n = 0 \<and> s' = s
       | m # ms \<Rightarrow> if length m \<le> unat sz then bytes_at (mem s') p n = m \<and> message_contents a s' = ms
           else n = 0 \<and> message_contents a s' = m # ms)"
  proof
    assume h: "outside p (unat sz) (sbuffers s a) \<and> xStreamBufferReceive w a p sz 0 s = Some (n, s')"
    note S = receive_storage [OF conjunct2 [OF h]]
    show "case message_contents a s of [] \<Rightarrow> n = 0 \<and> s' = s
       | m # ms \<Rightarrow> if length m \<le> unat sz then bytes_at (mem s') p n = m \<and> message_contents a s' = ms
           else n = 0 \<and> message_contents a s' = m # ms"
    proof (cases "received a p sz s n s'")
      case True
      note R = message_read [OF assms True conjunct1 [OF h]]
      then obtain m ms where ms: "message_contents a s = m # ms" by (cases "message_contents a s") auto
      then show ?thesis using R by (auto simp: whole_def not_less split: if_splits)
    next
      case False
      then have none: "prvBytesInBuffer a s \<le> length_bytes a s" "n = 0" "s' = s" using S by auto
      have "message_contents a s = []"
      proof (rule ccontr)
        assume "message_contents a s \<noteq> []"
        then obtain m ms where m: "message_contents a s = m # ms" by (cases "message_contents a s") auto
        then have "length (stream_bytes a s) > 4" using D(3) by (auto simp: framed_def)
        moreover have "length_bytes a s = 4" using D(2) by (simp add: length_bytes_def sbBYTES_TO_STORE_MESSAGE_LENGTH_def)
        ultimately show False
          using none(1) unat_bytes_in_buffer [OF D(1)] by (simp add: stream_bytes_def word_le_nat_alt)
      qed
      then show ?thesis using none by simp
    qed
  qed
qed

theorem messages_all_or_nothing_witness:
  "\<exists>s'. xStreamBufferSend [] 0x20000000 0x30000000 3 0 (sb_rtos (demo_sb 1)) = Some (Some 3, s')
    \<and> message_contents 0x20000000 s' = [[1, 2, 3]]"
proof -
  obtain s' where s': "xStreamBufferSend [] 0x20000000 0x30000000 3 0 (sb_rtos (demo_sb 1)) = Some (Some 3, s')"
    using demo_message_send by auto
  have "sendable 0x20000000 0x30000000 3 (sb_rtos (demo_sb 1))" using demo_area [of 3] by (simp add: sendable_def)
  then show ?thesis
    using conjunct1 [OF messages_all_or_nothing [OF demo_message(1)], of "0x30000000" 3 "[]" "Some 3" s'] s'
    by (simp add: demo_room demo_message(2) demo_data)
qed

section \<open>No wake-up is lost\<close>

lemma state_clear:
  assumes "calling idle c k" and "tcb_ucNotifyState (tcbs k c) \<noteq> taskWAITING_NOTIFICATION"
  shows "\<exists>b k1. xTaskNotifyStateClear None k = Some (b, k1) \<and> calling idle c k1
    \<and> tcb_ucNotifyState (tcbs k1 c) = taskNOT_WAITING_NOTIFICATION \<and> uxSchedulerSuspended k1 = uxSchedulerSuspended k"
proof -
  obtain b k1 where e: "xTaskNotifyStateClear None k = Some (b, k1)"
    "k1 = (if b then upd_tcb c (tcb_ucNotifyState_update (\<lambda>_. taskNOT_WAITING_NOTIFICATION)) k else k)"
    "b = (tcb_ucNotifyState (tcbs k c) = taskNOTIFICATION_RECEIVED)"
    using assms(1) by (simp add: xTaskNotifyStateClear_def prvGetTCBFromHandle_def calling_def)
  have "reach idle k1" using reach_call [of idle k "NotifyStateClear None"] assms(1) e(1) by (simp add: kguard_defs calling_def)
  moreover have "tcb_ucNotifyState (tcbs k1 c) = taskNOT_WAITING_NOTIFICATION"
    using e(2,3) assms(2) by (cases "tcb_ucNotifyState (tcbs k c)") auto
  ultimately show ?thesis using e assms(1) by (auto simp: calling_def ready_def)
qed

text \<open>A notification from an interrupt reaches a task that has registered, but does not wait yet.\<close>

lemma notify_before_wait:
  assumes "calling idle c k" and "tcb_ucNotifyState (tcbs k c) = taskNOT_WAITING_NOTIFICATION" and "uxSchedulerSuspended k = 0"
  shows "\<exists>v k1. xTaskGenericNotifyFromISR c 0 eNoAction k = Some ((True, v, False), k1) \<and> calling idle c k1
    \<and> tcb_ucNotifyState (tcbs k1 c) = taskNOTIFICATION_RECEIVED"
proof -
  let ?n = "snd (record_notification c 0 eNoAction k)"
  have e: "xTaskGenericNotifyFromISR c 0 eNoAction k = Some ((True, tcb_ulNotifiedValue (tcbs k c), False), ?n)"
    using assms(2) by (simp add: xTaskGenericNotifyFromISR_def notify_wake_from_isr_def record_notification_def Let_def)
  obtain T where I: "sinv idle T k" using reach_inv assms(1) unfolding calling_def by blast
  have "alive k c" using assms(1) by (auto simp: calling_def ready_def alive_def)
  then have "reach idle ?n"
    using reach_call [of idle k "NotifyFromISR c 0 eNoAction"] assms(1,3) e by (simp add: kguard_defs calling_def)
  then show ?thesis using e assms(1) by (auto simp: calling_def ready_def record_notification_snd)
qed

lemma wait_after_notify:
  assumes "calling idle c k" and "tcb_ucNotifyState (tcbs k c) = taskNOTIFICATION_RECEIVED"
  shows "xTaskNotifyWait_wait 0 ticks k = Some k"
    and "\<exists>r k1. xTaskNotifyWait_finish 0 k = Some (r, k1) \<and> calling idle c k1"
proof -
  show "xTaskNotifyWait_wait 0 ticks k = Some k"
    using assms by (simp add: xTaskNotifyWait_wait_def calling_def)
  obtain r k1 where e: "xTaskNotifyWait_finish 0 k = Some (r, k1)" "pxCurrentTCB k1 = Some c" "ready k1 = ready k"
    "uxSchedulerSuspended k1 = uxSchedulerSuspended k"
    using assms by (auto simp: xTaskNotifyWait_finish_def calling_def Let_def ready_def fun_eq_iff)
  have "reach idle k1" using reach_call [of idle k "NotifyWaitFinish 0"] assms(1) e(1) by (simp add: kguard_defs calling_def)
  then show "\<exists>r k1. xTaskNotifyWait_finish 0 k = Some (r, k1) \<and> calling idle c k1"
    using e assms(1) by (auto simp: calling_def)
qed

lemma stream_sb_ok: "stream_ok a s \<Longrightarrow> sb_ok (sbuffers s a)"
  by (simp add: stream_ok_def)

lemma stream_ok_cong: "same_storage a s s' \<Longrightarrow> stream_ok a s' = stream_ok a s"
  using same_storageD by (simp add: stream_ok_def)

text \<open>A send from an interrupt handler, when the reader has registered and has not been notified.\<close>

lemma isr_send_notifies:
  assumes "calling idle c (kern s)" and "tcb_ucNotifyState (tcbs (kern s) c) = taskNOT_WAITING_NOTIFICATION"
    and "uxSchedulerSuspended (kern s) = 0" and "stream_ok a s" and "xTaskWaitingToReceive (sbuffers s a) = Some c"
    and "n = min len (xStreamBufferSpacesAvailable a s)" and "n \<noteq> 0"
    and "unat (xTriggerLevelBytes (sbuffers s a)) \<le> length (stream_bytes a s) + unat n"
  shows "\<exists>w s'. xStreamBufferSendFromISR a p len s = Some ((n, w), s') \<and> stream_ok a s'
    \<and> stream_bytes a s' = stream_bytes a s @ bytes_at (mem s) p n \<and> calling idle c (kern s')
    \<and> tcb_ucNotifyState (tcbs (kern s') c) = taskNOTIFICATION_RECEIVED
    \<and> xTaskWaitingToSend (sbuffers s' a) = xTaskWaitingToSend (sbuffers s a)
    \<and> pucBuffer (sbuffers s' a) = pucBuffer (sbuffers s a) \<and> xLength (sbuffers s' a) = xLength (sbuffers s a)"
proof -
  let ?sp = "xStreamBufferSpacesAvailable a s"
  have ok: "sb_ok (sbuffers s a)" and nm: "\<not> is_message_buffer a s" using assms(4) by (simp_all add: stream_ok_def)
  obtain n' s1 where w: "prvWriteMessageToBuffer a p len ?sp (required_space a len s) s = (n', s1)"
    by (cases "prvWriteMessageToBuffer a p len ?sp (required_space a len s) s")
  have n': "n' = n" "stream_ok a s1" "stream_bytes a s1 = stream_bytes a s @ bytes_at (mem s) p n"
    using write_message(1,2) [OF ok w] nm assms(6) by (simp_all add: stream_ok_def)
  note V = write_message_waiting [OF w]
  have area: "pucBuffer (sbuffers s1 a) = pucBuffer (sbuffers s a)" "xLength (sbuffers s1 a) = xLength (sbuffers s a)"
    using w by (auto simp: prvWriteMessageToBuffer_def prvWriteBytesToBuffer_def upd_sb_def Let_def split: if_splits)
  have full: "prvBytesInBuffer a s1 \<ge> xTriggerLevelBytes (sbuffers s1 a)"
    using unat_bytes_in_buffer [OF stream_sb_ok [OF n'(2)]] V assms(8) arg_cong [OF n'(3), of length]
    by (simp add: word_le_nat_alt stream_bytes_def same_waiting_def)
  have k1: "kern s1 = kern s" "xTaskWaitingToReceive (sbuffers s1 a) = Some c" using V assms(5) by (simp_all add: same_waiting_def)
  obtain v k where N: "xTaskGenericNotifyFromISR c 0 eNoAction (kern s1) = Some ((True, v, False), k)" "calling idle c k"
    "tcb_ucNotifyState (tcbs k c) = taskNOTIFICATION_RECEIVED"
    using notify_before_wait [OF assms(1-3)] k1 by auto
  define s' where "s' = upd_sb a (\<lambda>x. x\<lparr>xTaskWaitingToReceive := None\<rparr>) (s1\<lparr>kern := k\<rparr>)"
  have C: "sbSEND_COMPLETE_FROM_ISR a s1 = Some (False, s')"
    using N(1) k1 by (simp add: sbSEND_COMPLETE_FROM_ISR_def xStreamBufferSendCompletedFromISR_def s'_def)
  have "xStreamBufferSendFromISR a p len s = Some ((n, False), s')"
    using w n'(1) full C assms(7) by (simp add: xStreamBufferSendFromISR_def word_gt_0)
  moreover have "stream_ok a s' \<and> stream_bytes a s' = stream_bytes a s1"
    using completed_storage(3) [OF C] stream_ok_cong same_storageD(2) n'(2) by blast
  ultimately show ?thesis using n' N V area
    by (intro exI [of _ False] exI [of _ s']) (simp add: s'_def upd_sb_def same_waiting_def)
qed

text \<open>
  C22. No wake-up is lost: when a task finds a stream buffer empty and registers to wait, and an
  interrupt handler sends enough bytes before the task waits for its notification, the task does
  not block: the receive returns with the bytes the handler sent.
\<close>

theorem stream_wakeup_not_lost:
  assumes "calling idle c (kern s)" and "tcb_ucNotifyState (tcbs (kern s) c) \<noteq> taskWAITING_NOTIFICATION"
    and "uxSchedulerSuspended (kern s) = 0" and "stream_ok a s" and "stream_bytes a s = []" and "ticks \<noteq> 0"
    and "n = min len (xLength (sbuffers s a) - 1)" and "n \<noteq> 0" and "xTriggerLevelBytes (sbuffers s a) \<le> n"
    and "xTaskWaitingToSend (sbuffers s a) = None" and "outside q (unat sz) (sbuffers s a)"
  shows "\<exists>m s'. xStreamBufferReceive
      (\<lambda>i s. if i = 0 then map_option snd (xStreamBufferSendFromISR a p len s) else Some s) a q sz ticks s = Some (m, s')
    \<and> unat m = min (unat sz) (unat n) \<and> bytes_at (mem s') q m = take (unat sz) (bytes_at (mem s) p n)
    \<and> stream_bytes a s' = drop (unat sz) (bytes_at (mem s) p n) \<and> ready (kern s') c"
proof -
  let ?w = "\<lambda>i s. if i = (0 :: nat) then map_option snd (xStreamBufferSendFromISR a p len s) else Some s"
  have ok: "sb_ok (sbuffers s a)" and nm: "\<not> is_message_buffer a s" using assms(4) by (simp_all add: stream_ok_def)
  have lb: "length_bytes a s = 0" using nm by (simp add: length_bytes_def)
  have empty: "sb_count (sbuffers s a) = 0" using assms(5) by (simp add: stream_bytes_def sb_bytes_def)
  then have none: "prvBytesInBuffer a s = 0" using unat_bytes_in_buffer [OF ok] by (simp add: unat_eq_zero)
  have sp: "xStreamBufferSpacesAvailable a s = xLength (sbuffers s a) - 1"
  proof -
    have "1 \<le> xLength (sbuffers s a)" using sb_okD(3) [OF ok] by (simp add: word_le_nat_alt)
    then show ?thesis using unat_sb_spaces [OF ok] empty by (simp add: word_unat_eq_iff unat_sub)
  qed
  obtain b k1 where K: "xTaskNotifyStateClear None (kern s) = Some (b, k1)" "calling idle c k1"
    "tcb_ucNotifyState (tcbs k1 c) = taskNOT_WAITING_NOTIFICATION" "uxSchedulerSuspended k1 = uxSchedulerSuspended (kern s)"
    using state_clear [OF assms(1,2)] by blast
  define s1 where "s1 = upd_sb a (\<lambda>x. x\<lparr>xTaskWaitingToReceive := Some c\<rparr>) (s\<lparr>kern := k1\<rparr>)"
  have cur: "pxCurrentTCB k1 = Some c" using K(2) by (simp add: calling_def)
  have same1: "same_storage a s s1" unfolding s1_def by (rule upd_waiting_storage)
  note S1 = same_storageD [OF same1]
  have f1: "kern s1 = k1" "xTaskWaitingToReceive (sbuffers s1 a) = Some c" "xTaskWaitingToSend (sbuffers s1 a) = None"
    "xTriggerLevelBytes (sbuffers s1 a) = xTriggerLevelBytes (sbuffers s a)" "mem s1 = mem s"
    "pucBuffer (sbuffers s1 a) = pucBuffer (sbuffers s a)" "xLength (sbuffers s1 a) = xLength (sbuffers s a)"
    using assms(10) by (simp_all add: s1_def upd_sb_def)
  obtain w s2 where W: "xStreamBufferSendFromISR a p len s1 = Some ((n, w), s2)" "stream_ok a s2"
    "stream_bytes a s2 = bytes_at (mem s) p n" "calling idle c (kern s2)"
    "tcb_ucNotifyState (tcbs (kern s2) c) = taskNOTIFICATION_RECEIVED" "xTaskWaitingToSend (sbuffers s2 a) = None"
    "pucBuffer (sbuffers s2 a) = pucBuffer (sbuffers s a)" "xLength (sbuffers s2 a) = xLength (sbuffers s a)"
    using isr_send_notifies [of idle c s1 a n len p] K f1 S1 stream_ok_cong [OF same1] assms(3-9) sp
    by (auto simp: word_le_nat_alt)
  obtain r k3 where F: "xTaskNotifyWait_finish 0 (kern s2) = Some (r, k3)" "calling idle c k3"
    using wait_after_notify(2) [OF W(4,5)] by blast
  have wait: "wait_for_notification ?w ticks s1 = Some (s2\<lparr>kern := k3\<rparr>)"
    using W(1) F(1) wait_after_notify(1) [OF W(4,5), of ticks] by (simp add: wait_for_notification_def)
  define s3 where "s3 = upd_sb a (\<lambda>x. x\<lparr>xTaskWaitingToReceive := None\<rparr>) (s2\<lparr>kern := k3\<rparr>)"
  have same3: "same_storage a s2 s3" unfolding s3_def by (rule upd_waiting_storage)
  note S3 = same_storageD [OF same3]
  have recv: "xStreamBufferReceive ?w a q sz ticks s = xStreamBufferReceive ?w a q sz 0 s3"
    using K(1) cur none lb assms(6) wait S3 W(2) nm
    by (simp add: xStreamBufferReceive_def Let_def s1_def [symmetric] s3_def [symmetric] length_bytes_def stream_ok_def)
  have out: "outside q (unat sz) (sbuffers s3 a)" using assms(11) W(7,8) by (simp add: outside_def s3_def upd_sb_def)
  have "calling idle c (kern s3)" "stream_ok a s3" "xTaskWaitingToSend (sbuffers s3 a) = None" "stream_bytes a s3 = bytes_at (mem s) p n"
    using F(2) stream_ok_cong [OF same3] W(2,3,6) S3(2) by (simp_all add: s3_def upd_sb_def)
  moreover from this(1) have "ready (kern s3) c" by (simp add: calling_def)
  ultimately show ?thesis
    unfolding recv using stream_receive_reads_and_wakes [of idle c s3 a q sz ?w] out
    by (auto simp: other_side_woken_def split: if_splits)
qed

theorem stream_wakeup_not_lost_witness:
  "\<exists>m s'. xStreamBufferReceive (\<lambda>i s. if i = 0 then map_option snd (xStreamBufferSendFromISR 0x20000000 0x30000000 5 s) else Some s)
      0x20000000 0x30000000 4 100 (sb_rtos (demo_sb 0)) = Some (m, s')
    \<and> bytes_at (mem s') 0x30000000 m = [1, 2, 3, 4] \<and> stream_bytes 0x20000000 s' = [5]"
proof -
  have c: "calling 0 2 (kern (sb_rtos (demo_sb 0)))" using demo_calling by simp
  have nw: "tcb_ucNotifyState (tcbs demo 2) \<noteq> taskWAITING_NOTIFICATION" by code_simp
  have out: "outside 0x30000000 (unat (4 :: u32)) (sbuffers (sb_rtos (demo_sb 0)) 0x20000000)" using demo_area by simp
  have "min 5 (xLength (sbuffers (sb_rtos (demo_sb 0)) 0x20000000) - 1) = (5 :: u32)" by simp
  from stream_wakeup_not_lost [OF c _ _ demo_stream, of 100 5 5 "0x30000000" 4 "0x30000000"] this
  show ?thesis using out nw demo_state by (auto simp: demo_data)
qed

end
