(* ===== verification/Stream_Buffer_Limits.thy ===== *)
theory Stream_Buffer_Limits
  imports Stream_Buffer_Demo
begin

text \<open>
  Arguments of the stream buffer calls that the code accepts and cannot honour: a trigger level
  no buffer reaches and a message length that overflows.
\<close>

section \<open>Creation\<close>

text \<open>A new buffer is empty and well formed, when its size does not overflow.\<close>

lemma create_makes_empty_stream:
  assumes "xStreamBufferGenericCreate n trigger msg s = Some (a, s')" and "a \<noteq> 0"
    and "unat a + unat n + 37 \<le> 2 ^ 32" and "unat n < 2 ^ 31"
  shows "sb_ok (sbuffers s' a) \<and> stream_bytes a s' = [] \<and> xStreamBufferSpacesAvailable a s' = n
    \<and> is_message_buffer a s' = msg"
proof -
  let ?x = "sbuffers s' a"
  have x: "xTail ?x = 0" "xHead ?x = 0" "xLength ?x = n + 1" "pucBuffer ?x = a + 36" "is_message_buffer a s' = msg"
    using assms(1,2)
    by (auto simp: xStreamBufferGenericCreate_def prvInitialiseNewStreamBuffer_def upd_sb_def sizeof_StreamBuffer_def
        bind_eq_Some_conv Let_def is_message_buffer_def sbFLAGS_IS_MESSAGE_BUFFER_def split: if_splits)
  have n1: "unat (n + 1) = unat n + 1" using assms(4) by (simp add: unat_word_ariths)
  have a1: "unat (a + 36) = unat a + 36" using assms(3) by (simp add: unat_word_ariths)
  have ok: "sb_ok ?x" using x n1 a1 assms(3,4) by (simp add: sb_ok_def word_less_nat_alt)
  have c: "sb_count ?x = 0" using x by (simp add: sb_count_def)
  have "unat (xStreamBufferSpacesAvailable a s') = unat n" using unat_sb_spaces [OF ok] x n1 c by simp
  then show ?thesis using ok x c by (simp add: stream_bytes_def sb_bytes_def)
qed

section \<open>A trigger level that is never reached\<close>

text \<open>
  \<open>xStreamBufferSetTriggerLevel\<close> compares the level with \<open>xLength\<close>, which is one more than
  the number of bytes the buffer can hold: it accepts a level the buffer never reaches, and from
  then on no send from an interrupt handler, however full the buffer, wakes the waiting reader.
\<close>

theorem trigger_level_unreachable:
  assumes "stream_ok a s" and "xStreamBufferSetTriggerLevel a (xLength (sbuffers s a)) s = (r, s1)"
    and "xStreamBufferSendFromISR a p len s1 = Some ((n, hpw), s2)"
  shows "r \<and> \<not> hpw \<and> kern s2 = kern s
    \<and> xTaskWaitingToReceive (sbuffers s2 a) = xTaskWaitingToReceive (sbuffers s a)"
proof -
  have ok: "sb_ok (sbuffers s a)" using assms(1) by (simp add: stream_ok_def)
  have "xLength (sbuffers s a) \<noteq> 0" using sb_okD(3) [OF ok] by (simp add: unat_gt_0)
  then have s1: "r" "s1 = upd_sb a (\<lambda>x. x\<lparr>xTriggerLevelBytes := xLength (sbuffers s a)\<rparr>) s"
    using assms(2) by (simp_all add: xStreamBufferSetTriggerLevel_def)
  have ok1: "stream_ok a s1" using assms(1) by (simp add: s1 stream_ok_def sb_ok_def is_message_buffer_def upd_sb_def)
  have msg: "\<not> is_message_buffer a s1" and ok1': "sb_ok (sbuffers s1 a)" using ok1 by (simp_all add: stream_ok_def)
  obtain m t where w: "prvWriteMessageToBuffer a p len (xStreamBufferSpacesAvailable a s1) (required_space a len s1) s1 = (m, t)"
    by (cases "prvWriteMessageToBuffer a p len (xStreamBufferSpacesAvailable a s1) (required_space a len s1) s1")
  have t: "sb_ok (sbuffers t a)" using write_message(2) [OF ok1' w msg] by simp
  have f: "kern t = kern s1" "xTriggerLevelBytes (sbuffers t a) = xTriggerLevelBytes (sbuffers s1 a)"
    "xTaskWaitingToReceive (sbuffers t a) = xTaskWaitingToReceive (sbuffers s1 a)" "xLength (sbuffers t a) = xLength (sbuffers s1 a)"
    using w by (auto simp: prvWriteMessageToBuffer_def prvWriteBytesToBuffer_def upd_sb_def Let_def split: if_splits)
  have "\<not> prvBytesInBuffer a t \<ge> xTriggerLevelBytes (sbuffers t a)"
    using sb_count_less [OF t] unat_bytes_in_buffer [OF t] f(2,4) by (simp add: s1 upd_sb_def word_le_nat_alt)
  then have "n = m \<and> \<not> hpw \<and> s2 = t" using assms(3) w by (simp add: xStreamBufferSendFromISR_def)
  then show ?thesis using s1 f by (simp add: upd_sb_def)
qed

definition level_rtos :: rtos where
  "level_rtos = snd (xStreamBufferSetTriggerLevel 0x20000000 8 (sb_rtos (demo_sb 0)))"

lemma level_send:
  "map_option fst (xStreamBufferSendFromISR 0x20000000 0x30000000 7 level_rtos) = Some (7, False)"
  by code_simp

theorem trigger_level_unreachable_witness:
  "fst (xStreamBufferSetTriggerLevel 0x20000000 8 (sb_rtos (demo_sb 0)))
    \<and> (\<exists>s2. xStreamBufferSendFromISR 0x20000000 0x30000000 7 level_rtos = Some ((7, False), s2) \<and> kern s2 = demo)"
proof -
  obtain s2 where s2: "xStreamBufferSendFromISR 0x20000000 0x30000000 7 level_rtos = Some ((7, False), s2)"
    using level_send by auto
  have l: "xStreamBufferSetTriggerLevel 0x20000000 (xLength (sbuffers (sb_rtos (demo_sb 0)) 0x20000000)) (sb_rtos (demo_sb 0))
      = (fst (xStreamBufferSetTriggerLevel 0x20000000 8 (sb_rtos (demo_sb 0))), level_rtos)"
    by (simp add: level_rtos_def)
  from trigger_level_unreachable [OF demo_stream(1) l s2] s2 show ?thesis by simp
qed

section \<open>A message length that overflows\<close>

text \<open>
  The length of a message and its length word are added without a check in
  \<open>xStreamBufferSendFromISR\<close> (and with an assertion this configuration compiles away in
  \<open>xStreamBufferSend\<close>): of the four largest lengths, those whose wrapped sum is at most the free
  space pass the test, and the call reports that it wrote the whole message, more bytes than the
  buffer has.
\<close>

theorem message_length_overflows:
  assumes "message_ok a s" and "2 ^ 32 \<le> unat len + 4" and "unat len + 4 \<le> 2 ^ 32 + unat (xStreamBufferSpacesAvailable a s)"
    and "xStreamBufferSpacesAvailable a s \<noteq> 0" and "xStreamBufferSendFromISR a p len s = Some ((n, hpw), s')"
  shows "n = len \<and> unat n > unat (xLength (sbuffers s a))"
proof -
  note D = message_okD [OF assms(1)]
  have "unat (required_space a len s) = unat len + 4 - 2 ^ 32"
    using D(2) assms(2) unat_less_u32 [of len]
    by (simp add: required_space_def sbBYTES_TO_STORE_MESSAGE_LENGTH_def unat_word_ariths mod_if)
  then have "required_space a len s \<le> xStreamBufferSpacesAvailable a s" using assms(3) by (simp add: word_le_nat_alt)
  then have "fst (prvWriteMessageToBuffer a p len (xStreamBufferSpacesAvailable a s) (required_space a len s) s) = len"
    using D(2) assms(4) by (simp add: prvWriteMessageToBuffer_def Let_def)
  then have "n = len" using assms(5) by (auto simp: xStreamBufferSendFromISR_def Let_def split: prod.splits if_splits)
  then show ?thesis using assms(2) sb_okD(4) [OF D(1)] by simp
qed

lemma isr_send_returns:
  assumes "xTaskWaitingToReceive (sbuffers s a) = None"
  shows "\<exists>n b s'. xStreamBufferSendFromISR a p len s = Some ((n, b), s')"
proof -
  obtain m t where w: "prvWriteMessageToBuffer a p len (xStreamBufferSpacesAvailable a s) (required_space a len s) s = (m, t)"
    by (cases "prvWriteMessageToBuffer a p len (xStreamBufferSpacesAvailable a s) (required_space a len s) s")
  then have "xTaskWaitingToReceive (sbuffers t a) = None"
    using assms by (auto simp: prvWriteMessageToBuffer_def prvWriteBytesToBuffer_def upd_sb_def Let_def split: if_splits)
  then show ?thesis
    using w by (auto simp: xStreamBufferSendFromISR_def sbSEND_COMPLETE_FROM_ISR_def xStreamBufferSendCompletedFromISR_def)
qed

theorem message_length_overflows_witness:
  "\<exists>b s'. xStreamBufferSendFromISR 0x20000000 0x30000000 0xFFFFFFFC (sb_rtos (demo_sb 1)) = Some ((0xFFFFFFFC, b), s')"
proof -
  obtain n b s' where c: "xStreamBufferSendFromISR 0x20000000 0x30000000 0xFFFFFFFC (sb_rtos (demo_sb 1)) = Some ((n, b), s')"
    using isr_send_returns [of "sb_rtos (demo_sb 1)" "0x20000000" "0x30000000" "0xFFFFFFFC"] by auto
  have "xStreamBufferSpacesAvailable 0x20000000 (sb_rtos (demo_sb 1)) \<noteq> 0" using demo_room [of 1] by auto
  then have "n = 0xFFFFFFFC" using message_length_overflows [OF demo_message(1) _ _ _ c] by simp
  then show ?thesis using c by blast
qed

end
