(* ===== verification/App_Uart.thy ===== *)
theory App_Uart
  imports Queue
begin

text \<open>
  The frame receiver of \<open>app/src/uart.c\<close> and the task \<open>vUDPClient\<close> of \<open>app/src/net.c\<close> that sends its
  frames. The static variables of \<open>uart_receive_int\<close> and the global buffer form the record
  \<open>uart_rx\<close>. The UART registers are inputs: the byte \<open>UART_Receive\<close> returned, if any, the interrupt
  source and the line status. The result of the socket calls of the client is an input, the
  packet it hands to \<open>send\<close> an output.
\<close>

section \<open>The frame receiver\<close>

definition GS_HEADER_I :: u8 where "GS_HEADER_I = 0xAA"
definition GS_HEADER_II :: u8 where "GS_HEADER_II = 0x55"
definition GS_HEADER_LEN :: nat where "GS_HEADER_LEN = 1"
definition GS_DATA_LEN :: u8 where "GS_DATA_LEN = 98"
definition GS_PACK_LEN :: nat where "GS_PACK_LEN = GS_HEADER_LEN * 2 + unat GS_DATA_LEN"

record uart_rx =
  prev :: u8
  frame_flag :: bool
  gs_data :: u8
  gs_buffer :: "u8 list"

text \<open>The static variables and the buffer of 128 bytes at start-up.\<close>

definition uart_rx_init :: uart_rx where
  "uart_rx_init = \<lparr>prev = 0, frame_flag = False, gs_data = 0, gs_buffer = replicate 128 0\<rparr>"

text \<open>What one byte does, and whether it completes a frame.\<close>

definition uart_byte :: "u8 \<Rightarrow> uart_rx \<Rightarrow> bool \<times> uart_rx" where
  "uart_byte data r =
     (if data = GS_HEADER_II \<and> prev r = GS_HEADER_I then
        (False, r\<lparr>gs_buffer := (gs_buffer r)[0 := prev r, 1 := data], frame_flag := True, gs_data := 0\<rparr>)
      else
        (let r = (if data = GS_HEADER_II then r else r\<lparr>prev := data\<rparr>) in
         if frame_flag r then
           (let r = r\<lparr>gs_buffer := (gs_buffer r)[2 + unat (gs_data r) := data], gs_data := gs_data r + 1\<rparr> in
            if gs_data r \<ge> GS_DATA_LEN then (True, r\<lparr>gs_data := 0, frame_flag := False\<rparr>) else (False, r))
         else (False, r)))"

text \<open>
  The interrupt: \<open>junk\<close> is the initial value of \<open>xHigherPriorityTaskWoken\<close>, which the code does not
  set and \<open>xSemaphoreGiveFromISR\<close> only sets to true.
\<close>

definition uart_receive_int :: "u32 \<Rightarrow> bool \<Rightarrow> u8 option \<Rightarrow> uart_rx \<times> rtos \<Rightarrow> (uart_rx \<times> rtos) option" where
  "uart_receive_int xSemaphore junk received st =
     (case received of
        None \<Rightarrow> Some st
      | Some data \<Rightarrow>
          (let (complete, r) = uart_byte data (fst st) in
           if complete then
             do {
               ((_, woken), s) \<leftarrow> xQueueGiveFromISR xSemaphore (snd st);
               Some (r, if junk \<or> woken then on_kern portYIELD s else s)
             }
           else Some (r, snd st)))"

definition UART_IIR_INTID_MASK :: u32 where "UART_IIR_INTID_MASK = push_bit 1 7"
definition UART_IIR_INTID_RLS :: u32 where "UART_IIR_INTID_RLS = push_bit 1 3"
definition UART_IIR_INTID_RDA :: u32 where "UART_IIR_INTID_RDA = push_bit 1 2"
definition UART_IIR_INTID_CTI :: u32 where "UART_IIR_INTID_CTI = push_bit 1 6"

text \<open>The error bits of the line status: overrun, parity, framing, break and error in the FIFO.\<close>

definition line_errors :: u32 where
  "line_errors = push_bit 1 1 OR push_bit 2 1 OR push_bit 3 1 OR push_bit 4 1 OR push_bit 7 1"

definition UART0_IRQHandler ::
  "u32 \<Rightarrow> bool \<Rightarrow> u32 \<Rightarrow> u32 \<Rightarrow> u8 option \<Rightarrow> uart_rx \<times> rtos \<Rightarrow> (uart_rx \<times> rtos) option" where
  "UART0_IRQHandler xSemaphore junk intsrc line_status received st =
     (let tmp = intsrc AND UART_IIR_INTID_MASK in
      if tmp = UART_IIR_INTID_RLS \<and> line_status AND line_errors \<noteq> 0 then Some st
      else if tmp = UART_IIR_INTID_RDA \<or> tmp = UART_IIR_INTID_CTI
           then uart_receive_int xSemaphore junk received st else Some st)"

text \<open>A sequence of received bytes, one interrupt each.\<close>

fun uart_interrupts :: "u32 \<Rightarrow> bool \<Rightarrow> u8 list \<Rightarrow> uart_rx \<times> rtos \<Rightarrow> (uart_rx \<times> rtos) option" where
  "uart_interrupts sem junk [] st = Some st"
| "uart_interrupts sem junk (b # bs) st =
     do { st \<leftarrow> UART0_IRQHandler sem junk UART_IIR_INTID_RDA 0 (Some b) st; uart_interrupts sem junk bs st }"

section \<open>The task that sends the frames\<close>

definition SEMAPHORE_TIME :: u32 where "SEMAPHORE_TIME = 10000"

text \<open>
  One round of the loop of \<open>vUDPClient\<close>. The bytes \<open>late\<close> arrive after the semaphore is taken and
  before \<open>NVIC_DisableIRQ\<close>; from there to the end of the round the receiver is off. \<open>connected\<close> is
  the result of \<open>connect\<close>. The first component is the packet given to \<open>send\<close>, \<open>None\<close>: none.
\<close>

definition vUDPClient_round ::
  "windows list \<Rightarrow> u32 \<Rightarrow> bool \<Rightarrow> u8 list \<Rightarrow> bool \<Rightarrow> uart_rx \<times> rtos \<Rightarrow> (u8 list option \<times> uart_rx \<times> rtos) option" where
  "vUDPClient_round ws xSemaphore junk late connected st =
     do {
       (taken, s) \<leftarrow> xQueueSemaphoreTake ws xSemaphore SEMAPHORE_TIME (snd st);
       if taken \<noteq> Some True then Some (None, fst st, s)
       else
         do {
           (r, s) \<leftarrow> uart_interrupts xSemaphore junk late (fst st, s);
           Some (if connected then Some (take GS_PACK_LEN (gs_buffer r)) else None, r, s)
         }
     }"

end
