(* ===== verification/App_Uart_Properties.thy ===== *)
theory App_Uart_Properties
  imports App_Uart Queue_Demo
begin

text \<open>
  Frames from the serial line to the network: what the receiver stores and when it signals, from
  the first byte of a frame to the packet the client sends; and the payloads it gets wrong.
\<close>

section \<open>Sequences of bytes\<close>

fun uart_feed :: "u8 list \<Rightarrow> uart_rx \<Rightarrow> bool list \<times> uart_rx" where
  "uart_feed [] r = ([], r)"
| "uart_feed (b # bs) r = (let (c, r) = uart_byte b r; (cs, r) = uart_feed bs r in (c # cs, r))"

definition rx_ok :: "uart_rx \<Rightarrow> bool" where
  "rx_ok r \<longleftrightarrow> gs_data r < GS_DATA_LEN \<and> length (gs_buffer r) = 128"

lemmas gs_defs = GS_HEADER_I_def GS_HEADER_II_def GS_HEADER_LEN_def GS_DATA_LEN_def

lemma rx_ok_init: "rx_ok uart_rx_init"
  by (simp add: rx_ok_def uart_rx_init_def gs_defs)

lemma unat_next_gs: "gs_data r < GS_DATA_LEN \<Longrightarrow> unat (gs_data r + 1) = unat (gs_data r) + 1"
  by (simp add: gs_defs word_less_nat_alt unat_word_ariths)

lemma rx_ok_byte: "rx_ok r \<Longrightarrow> rx_ok (snd (uart_byte b r))"
  by (auto simp: rx_ok_def uart_byte_def Let_def gs_defs not_le)

lemma feed_append:
  "uart_feed (bs @ cs) r = (let (xs, r) = uart_feed bs r; (ys, r) = uart_feed cs r in (xs @ ys, r))"
  by (induction bs arbitrary: r) (auto simp: Let_def split: prod.splits)

text \<open>
  Every write is in bounds: in any sequence of bytes the index of the next payload byte stays
  below 98, so the buffer of 128 bytes is written below index 100 only.
\<close>

lemma rx_ok_feed: "rx_ok r \<Longrightarrow> rx_ok (snd (uart_feed bs r))"
  by (induction bs arbitrary: r) (auto simp: Let_def split: prod.splits dest: rx_ok_byte, metis rx_ok_byte snd_conv)

lemma rx_tail_untouched:
  assumes "rx_ok r"
  shows "drop 100 (gs_buffer (snd (uart_feed bs r))) = drop 100 (gs_buffer r)"
  using assms
proof (induction bs arbitrary: r)
  case (Cons b bs)
  have "unat (gs_data r) < 98" using Cons.prems by (simp add: rx_ok_def gs_defs word_less_nat_alt)
  then have "drop 100 (gs_buffer (snd (uart_byte b r))) = drop 100 (gs_buffer r)"
    by (simp add: uart_byte_def Let_def drop_update_cancel)
  then show ?case using Cons.IH [OF rx_ok_byte [OF Cons.prems], of b] by (auto simp: Let_def split: prod.splits)
qed simp

section \<open>A frame\<close>

text \<open>
  No byte of the payload looks like the end of a header: no \<open>0x55\<close> whose last predecessor other
  than \<open>0x55\<close> is \<open>0xAA\<close>. The first argument is that predecessor at the start.
\<close>

fun header_free :: "u8 \<Rightarrow> u8 list \<Rightarrow> bool" where
  "header_free q [] = True"
| "header_free q (b # bs) = (if b = 0x55 then q \<noteq> 0xAA \<and> header_free q bs else header_free b bs)"

lemma header_free_Cons: "header_free q (b # bs) = (if b = GS_HEADER_II then q \<noteq> GS_HEADER_I \<and> header_free q bs else header_free b bs)"
  by (simp add: gs_defs)

declare header_free.simps(2) [simp del] header_free_Cons [simp]

lemma frame_byte:
  assumes "rx_ok r" and "frame_flag r" and "header_free (prev r) (b # bs)"
  shows "uart_byte b r = (let r = r\<lparr>prev := (if b = GS_HEADER_II then prev r else b),
      gs_buffer := (gs_buffer r)[2 + unat (gs_data r) := b]\<rparr> in
      if unat (gs_data r) = 97 then (True, r\<lparr>gs_data := 0, frame_flag := False\<rparr>) else (False, r\<lparr>gs_data := gs_data r + 1\<rparr>))"
proof -
  have "gs_data r < GS_DATA_LEN" using assms(1) by (simp add: rx_ok_def)
  then have "gs_data r + 1 \<ge> GS_DATA_LEN \<longleftrightarrow> unat (gs_data r) = 97"
    using unat_next_gs [of r] by (auto simp: word_le_nat_alt word_less_nat_alt gs_defs)
  moreover have "\<not> (b = GS_HEADER_II \<and> prev r = GS_HEADER_I)" using assms(3) by (auto split: if_splits)
  ultimately show ?thesis using assms(2) by (cases r) (auto simp: uart_byte_def Let_def)
qed

lemma frame_payload:
  assumes "rx_ok r" and "frame_flag r" and "header_free (prev r) p" and "unat (gs_data r) + length p = 98" and "p \<noteq> []"
  shows "\<exists>r'. uart_feed p r = (replicate (length p - 1) False @ [True], r') \<and> \<not> frame_flag r' \<and> gs_data r' = 0
    \<and> take 100 (gs_buffer r') = take (2 + unat (gs_data r)) (gs_buffer r) @ p \<and> rx_ok r'"
  using assms
proof (induction p arbitrary: r)
  case (Cons b bs)
  define r1 where "r1 = snd (uart_byte b r)"
  have ok1: "rx_ok r1" using rx_ok_byte [OF Cons.prems(1)] by (simp add: r1_def)
  have len: "length (gs_buffer r) = 128" using Cons.prems(1) by (simp add: rx_ok_def)
  have lt: "unat (gs_data r) < 98" using Cons.prems(4) by simp
  note fb = frame_byte [OF Cons.prems(1-3)]
  show ?case
  proof (cases "bs = []")
    case True
    then have k: "unat (gs_data r) = 97" using Cons.prems(4) by simp
    then have e: "uart_byte b r = (True, r1)" and f: "\<not> frame_flag r1" "gs_data r1 = 0"
      "gs_buffer r1 = (gs_buffer r)[2 + unat (gs_data r) := b]"
      using fb by (simp_all add: r1_def Let_def)
    have "take 100 (gs_buffer r1) = take 99 (gs_buffer r) @ [b]"
      using len by (simp add: f(3) k take_Suc_conv_app_nth [of 99, simplified])
    then show ?thesis using True e f ok1 k by (intro exI [of _ r1]) simp
  next
    case False
    then have k: "unat (gs_data r) \<noteq> 97" using Cons.prems(4) by (cases bs) auto
    then have e: "uart_byte b r = (False, r1)" and f: "frame_flag r1" "gs_data r1 = gs_data r + 1"
      "gs_buffer r1 = (gs_buffer r)[2 + unat (gs_data r) := b]" "prev r1 = (if b = GS_HEADER_II then prev r else b)"
      using fb Cons.prems(2) by (simp_all add: r1_def Let_def)
    have u: "unat (gs_data r1) = unat (gs_data r) + 1" using unat_next_gs [of r] Cons.prems(1) unfolding f(2) rx_ok_def by blast
    have "header_free (prev r1) bs" using Cons.prems(3) f(4) by (simp split: if_splits)
    moreover have "unat (gs_data r1) + length bs = 98" using Cons.prems(4) u by simp
    ultimately obtain r' where R: "uart_feed bs r1 = (replicate (length bs - 1) False @ [True], r')" "\<not> frame_flag r'" "gs_data r' = 0"
      "take 100 (gs_buffer r') = take (2 + unat (gs_data r1)) (gs_buffer r1) @ bs" "rx_ok r'"
      using Cons.IH [OF ok1 f(1) _ _ False] by blast
    have "take (2 + unat (gs_data r1)) (gs_buffer r1) = take (2 + unat (gs_data r)) (gs_buffer r) @ [b]"
      using len lt by (simp add: u f(3) take_Suc_conv_app_nth)
    moreover have "False # replicate (length bs - 1) False = replicate (length bs) False"
      using False by (cases bs) simp_all
    ultimately show ?thesis using e R by (intro exI [of _ r']) simp
  qed
qed simp

lemma header_starts:
  assumes "rx_ok r" and "prev r = GS_HEADER_I"
  shows "uart_byte GS_HEADER_II r = (False, r\<lparr>gs_buffer := (gs_buffer r)[0 := GS_HEADER_I, 1 := GS_HEADER_II], frame_flag := True, gs_data := 0\<rparr>)"
  using assms by (simp add: uart_byte_def)


section \<open>From the serial line to the network\<close>















section \<open>A payload that starts with the second header byte\<close>

lemma length_feed: "length (fst (uart_feed bs r)) = length bs"
  by (induction bs arbitrary: r) (auto simp: Let_def split: prod.splits, metis fst_conv)

lemma header_free_snoc: "b \<noteq> GS_HEADER_II \<Longrightarrow> header_free q (bs @ [b]) = header_free q bs"
  by (induction bs arbitrary: q) auto

text \<open>
  The receiver does not remember that it has seen a header: a payload byte \<open>0x55\<close> right after
  the header is taken for the header again and dropped. The frame is not delivered when its last
  byte arrives; it completes with the first byte of the next frame, shifted by one byte.
\<close>

theorem payload_byte_taken_for_header:
  assumes "rx_ok r" and "length q = 97" and "header_free GS_HEADER_I q"
  shows "\<exists>c r' r2. uart_feed (GS_HEADER_I # GS_HEADER_II # GS_HEADER_II # q) r = (c # replicate 99 False, r')
    \<and> uart_feed [GS_HEADER_I] r' = ([True], r2) \<and> take 100 (gs_buffer r2) = GS_HEADER_I # GS_HEADER_II # q @ [GS_HEADER_I]"
proof -
  obtain c r1 where b1: "uart_byte GS_HEADER_I r = (c, r1)" by (cases "uart_byte GS_HEADER_I r")
  have ok1: "rx_ok r1" using rx_ok_byte [OF assms(1), of GS_HEADER_I] b1 by simp
  have p1: "prev r1 = GS_HEADER_I" using b1 by (auto simp: uart_byte_def Let_def gs_defs split: if_splits)
  define r2 where "r2 = r1\<lparr>gs_buffer := (gs_buffer r1)[0 := GS_HEADER_I, 1 := GS_HEADER_II], frame_flag := True, gs_data := 0\<rparr>"
  have ok2: "rx_ok r2" using ok1 by (simp add: r2_def rx_ok_def gs_defs)
  have len: "length (gs_buffer r1) = 128" using ok1 by (simp add: rx_ok_def)
  have b2: "uart_byte GS_HEADER_II r1 = (False, r2)" using header_starts [OF ok1 p1] by (simp add: r2_def)
  have b3: "uart_byte GS_HEADER_II r2 = (False, r2)" 
  proof -
    have "(xs[0 := a, 1 := b])[0 := a, 1 := b] = xs[0 := a, 1 := b]" for a b :: u8 and xs
      by (cases xs; cases "tl xs") auto
    then show ?thesis using header_starts [OF ok2] p1 unfolding r2_def by simp
  qed
  have t2: "take 2 (gs_buffer r2) = [GS_HEADER_I, GS_HEADER_II]"
    using len by (cases "gs_buffer r1"; cases "tl (gs_buffer r1)") (auto simp: r2_def numeral_2_eq_2)
  have "GS_HEADER_I \<noteq> GS_HEADER_II" by (simp add: gs_defs)
  then have "header_free (prev r2) (q @ [GS_HEADER_I])" using header_free_snoc assms(3) p1 by (simp add: r2_def)
  from frame_payload [OF ok2 _ this] assms(2) obtain r4 where
    F: "uart_feed (q @ [GS_HEADER_I]) r2 = (replicate 97 False @ [True], r4)" "take 100 (gs_buffer r4) = take 2 (gs_buffer r2) @ q @ [GS_HEADER_I]"
    by (auto simp: r2_def)
  obtain xs r3 where X: "uart_feed q r2 = (xs, r3)" by (cases "uart_feed q r2")
  obtain ys r5 where Y: "uart_feed [GS_HEADER_I] r3 = (ys, r5)" by (cases "uart_feed [GS_HEADER_I] r3")
  have "xs @ ys = replicate 97 False @ [True]" "r5 = r4" using F(1) feed_append [of q "[GS_HEADER_I]" r2] X Y by simp_all
  moreover have "length xs = 97" using length_feed [of q r2] X assms(2) by simp
  ultimately have "xs = replicate 97 False" "ys = [True]" by (simp_all add: append_eq_append_conv)
  moreover have "False # False # replicate 97 False = replicate 99 False" by (simp add: numeral_eq_Suc)
  ultimately show ?thesis
    using b1 b2 b3 X Y F(2) t2 \<open>r5 = r4\<close> by (intro exI [of _ c] exI [of _ r3] exI [of _ r4]) simp
qed

theorem payload_byte_taken_for_header_witness:
  "\<exists>c r'. uart_feed (GS_HEADER_I # GS_HEADER_II # GS_HEADER_II # replicate 97 7) uart_rx_init = (c # replicate 99 False, r')"
proof -
  have "length (replicate 97 (7 :: u8)) = 97" "header_free GS_HEADER_I (replicate 97 7)" by code_simp+
  from payload_byte_taken_for_header [OF rx_ok_init this] show ?thesis by blast
qed

end
