(* ===== verification/App_Config.thy ===== *)
theory App_Config
  imports Stream_Buffer
begin

text \<open>
  The stored configuration of the device: the in-application programming calls of
  \<open>system/src/lpc17xx/lpc17xx_iap.c\<close>, the two functions of \<open>app/src/flash.c\<close> and the request handler
  \<open>vDeviceInfo\<close> of \<open>app/src/net.c\<close>. Memory is one map from addresses to bytes, flash and RAM. The boot
  ROM behind \<open>iap_entry\<close> is the parameter \<open>iap\<close>: it gets a command and its parameters and gives a
  status, four result words and the memory afterwards. \<open>malloc\<close> is the parameter \<open>buffer\<close>, its result.
\<close>

section \<open>In-application programming\<close>

type_synonym memory = "u32 \<Rightarrow> u8"
type_synonym iap_rom = "u32 \<Rightarrow> u32 list \<Rightarrow> memory \<Rightarrow> u32 \<times> u32 list \<times> memory"

definition IAP_PREPARE :: u32 where "IAP_PREPARE = 50"
definition IAP_COPY_RAM2FLASH :: u32 where "IAP_COPY_RAM2FLASH = 51"
definition IAP_ERASE :: u32 where "IAP_ERASE = 52"
definition IAP_BLANK_CHECK :: u32 where "IAP_BLANK_CHECK = 53"
definition IAP_READ_PART_ID :: u32 where "IAP_READ_PART_ID = 54"
definition IAP_READ_BOOT_VER :: u32 where "IAP_READ_BOOT_VER = 55"
definition IAP_COMPARE :: u32 where "IAP_COMPARE = 56"
definition IAP_READ_SERIAL_NUMBER :: u32 where "IAP_READ_SERIAL_NUMBER = 58"
definition CMD_SUCCESS :: u32 where "CMD_SUCCESS = 0"
definition SECTOR_NOT_BLANK :: u32 where "SECTOR_NOT_BLANK = 8"
definition IAP_WRITE_256 :: u32 where "IAP_WRITE_256 = 256"

definition GetSecNum :: "u32 \<Rightarrow> u32" where
  "GetSecNum adr = (let n = drop_bit 12 adr in if n \<ge> 0x10 then 0x0E + drop_bit 3 n else n)"

text \<open>The status and the memory after a command; results of a command are its first words.\<close>

definition PrepareSector :: "iap_rom \<Rightarrow> u32 \<Rightarrow> u32 \<Rightarrow> memory \<Rightarrow> u32 \<times> memory" where
  "PrepareSector iap start_sec end_sec m =
     (let (status, _, m) = iap IAP_PREPARE [start_sec, end_sec] m in (status, m))"

definition CopyRAM2Flash :: "iap_rom \<Rightarrow> u32 \<Rightarrow> u32 \<Rightarrow> u32 \<Rightarrow> u32 \<Rightarrow> memory \<Rightarrow> u32 \<times> memory" where
  "CopyRAM2Flash iap SystemCoreClock dest source n m =
     (let sec = GetSecNum dest; (status, m) = PrepareSector iap sec sec m in
      if status \<noteq> CMD_SUCCESS then (status, m)
      else (let (status, _, m) = iap IAP_COPY_RAM2FLASH [dest, source, n, SystemCoreClock div 1000] m in (status, m)))"

definition EraseSector :: "iap_rom \<Rightarrow> u32 \<Rightarrow> u32 \<Rightarrow> u32 \<Rightarrow> memory \<Rightarrow> u32 \<times> memory" where
  "EraseSector iap SystemCoreClock start_sec end_sec m =
     (let (status, m) = PrepareSector iap start_sec end_sec m in
      if status \<noteq> CMD_SUCCESS then (status, m)
      else (let (status, _, m) = iap IAP_ERASE [start_sec, end_sec, SystemCoreClock div 1000] m in (status, m)))"

definition BlankCheckSector :: "iap_rom \<Rightarrow> u32 \<Rightarrow> u32 \<Rightarrow> memory \<Rightarrow> (u32 \<times> (u32 \<times> u32) option) \<times> memory" where
  "BlankCheckSector iap start_sec end_sec m =
     (let (status, res, m) = iap IAP_BLANK_CHECK [start_sec, end_sec] m in
      ((status, if status = SECTOR_NOT_BLANK then Some (res ! 0, res ! 1) else None), m))"

definition ReadPartID :: "iap_rom \<Rightarrow> memory \<Rightarrow> (u32 \<times> u32 option) \<times> memory" where
  "ReadPartID iap m =
     (let (status, res, m) = iap IAP_READ_PART_ID [] m in
      ((status, if status = CMD_SUCCESS then Some (res ! 0) else None), m))"

definition ReadBootCodeVer :: "iap_rom \<Rightarrow> memory \<Rightarrow> (u32 \<times> (u8 \<times> u8) option) \<times> memory" where
  "ReadBootCodeVer iap m =
     (let (status, res, m) = iap IAP_READ_BOOT_VER [] m in
      ((status, if status = CMD_SUCCESS then Some (ucast (drop_bit 8 (res ! 0) AND 0xFF), ucast (res ! 0 AND 0xFF)) else None), m))"

definition ReadDeviceSerialNum :: "iap_rom \<Rightarrow> memory \<Rightarrow> (u32 \<times> u32 list option) \<times> memory" where
  "ReadDeviceSerialNum iap m =
     (let (status, res, m) = iap IAP_READ_SERIAL_NUMBER [] m in
      ((status, if status = CMD_SUCCESS then Some (map ((!) res) [0..<4]) else None), m))"

definition Compare :: "iap_rom \<Rightarrow> u32 \<Rightarrow> u32 \<Rightarrow> u32 \<Rightarrow> memory \<Rightarrow> u32 \<times> memory" where
  "Compare iap addr1 addr2 n m =
     (let (status, _, m) = iap IAP_COMPARE [addr1, addr2, n] m in (status, m))"

section \<open>The configuration in flash\<close>

text \<open>\<open>struct local_net_s\<close>: five strings of 16 bytes, then the MAC address of 18 bytes.\<close>

definition sizeof_local_net :: u32 where "sizeof_local_net = 98"
definition mac_offset :: u32 where "mac_offset = 80"
definition DEVICE_INFO_START :: u32 where "DEVICE_INFO_START = 512 * 1024 - 0x200"

definition vDeviceInfoInit :: "u32 \<Rightarrow> memory \<Rightarrow> int \<times> memory" where
  "vDeviceInfoInit net m =
     (let flash_net = bytes_at m DEVICE_INFO_START sizeof_local_net in
      if flash_net ! unat mac_offset = 0xFF then (-1, m) else (0, mem_put net flash_net m))"

text \<open>
  A call either returns a value or resets the processor, after which nothing of the call runs.
  \<open>None\<close> is a fault: \<open>buffer\<close> is 0 when \<open>malloc\<close> failed, and address 0 is not writable.
\<close>

datatype 'a outcome = Returned 'a | SystemReset

definition vDeviceInfoSave :: "iap_rom \<Rightarrow> u32 \<Rightarrow> u32 \<Rightarrow> u32 \<Rightarrow> memory \<Rightarrow> (int outcome \<times> memory) option" where
  "vDeviceInfoSave iap SystemCoreClock buffer net m =
     (let ((status, uid), m) = ReadDeviceSerialNum iap m in
      case uid of
        None \<Rightarrow> Some (Returned (-1), m)
      | Some uid \<Rightarrow>
          (let m = m(net + mac_offset + 15 := ucast (uid ! 0 mod 10 + 0x30));
               m = m(net + mac_offset + 16 := ucast (uid ! 3 mod 10 + 0x30)) in
           if buffer = 0 then None
           else
             (let m = mem_put buffer (replicate (unat IAP_WRITE_256) 0xFF) m;
                  m = memcpy buffer net sizeof_local_net m;
                  sector = GetSecNum DEVICE_INFO_START;
                  (status, m) = EraseSector iap SystemCoreClock sector sector m;
                  (status, m) =
                    (if status \<noteq> CMD_SUCCESS then (status, m)
                     else
                       (let (status, m) = CopyRAM2Flash iap SystemCoreClock DEVICE_INFO_START buffer IAP_WRITE_256 m in
                        if status \<noteq> CMD_SUCCESS then (status, m)
                        else Compare iap DEVICE_INFO_START buffer IAP_WRITE_256 m))
              in Some (if status \<noteq> CMD_SUCCESS then Returned (-1) else SystemReset, m))))"

section \<open>Requests\<close>

text \<open>
  C strings in arrays of bytes. \<open>strcmp\<close> compares up to the first difference or the end of both
  strings; \<open>None\<close> when it runs off an array.
\<close>

fun strcmp_eq :: "u8 list \<Rightarrow> u8 list \<Rightarrow> bool option" where
  "strcmp_eq (a # as) (b # bs) = (if a \<noteq> b then Some False else if a = 0 then Some True else strcmp_eq as bs)"
| "strcmp_eq _ _ = None"

fun strlen :: "u8 list \<Rightarrow> nat option" where
  "strlen [] = None"
| "strlen (a # as) = (if a = 0 then Some 0 else map_option Suc (strlen as))"

definition c_string :: "string \<Rightarrow> u8 list" where
  "c_string s = map (\<lambda>c. of_nat (of_char c)) s @ [0]"

text \<open>\<open>memcpy\<close> and \<open>strcpy\<close> into the start of an array.\<close>

definition copy_into :: "u8 list \<Rightarrow> u8 list \<Rightarrow> u8 list" where
  "copy_into src field = src @ drop (length src) field"

definition REQUEST_DEV_INFO :: "u8 list" where "REQUEST_DEV_INFO = c_string ''request:device info''"
definition RESPOND_DEV_INFO :: "u8 list" where "RESPOND_DEV_INFO = c_string ''respone:device info''"
definition REQUEST_DEV_SET :: "u8 list" where "REQUEST_DEV_SET = c_string ''request:device config''"
definition RESPOND_DEV_SET :: "u8 list" where "RESPOND_DEV_SET = c_string ''respone:device config''"
definition HD_IPC :: u8 where "HD_IPC = 1"

record dev_info_s =
  dev_type :: u8
  vendor :: "u8 list"
  dev_name :: "u8 list"
  serial_number :: "u8 list"
  software :: "u8 list"
  hardware :: "u8 list"

text \<open>\<open>struct net_info_s\<close>: the bytes of a \<open>struct local_net_s\<close>, the MAC address last, and the port.\<close>

record net_info_s =
  net_addresses :: "u8 list"
  mac_addr :: "u8 list"
  port :: "u8 list"

record device_s =
  header :: "u8 list"
  dev :: dev_info_s
  dev_net :: net_info_s

definition device_ok :: "device_s \<Rightarrow> bool" where
  "device_ok d \<longleftrightarrow> length (header d) = 32 \<and> length (vendor (dev d)) = 16 \<and> length (dev_name (dev d)) = 16
     \<and> length (serial_number (dev d)) = 33 \<and> length (software (dev d)) = 8 \<and> length (hardware (dev d)) = 8
     \<and> length (net_addresses (dev_net d)) = 80 \<and> length (mac_addr (dev_net d)) = 18 \<and> length (port (dev_net d)) = 6"

text \<open>
  The result and the device; \<open>local\<close> is the address of \<open>local_net\<close>. The serial number is copied with
  one byte more than its literal has: \<open>after\<close> is that byte.
\<close>

definition get_dev_info :: "u8 \<Rightarrow> u32 \<Rightarrow> u8 list \<Rightarrow> memory \<Rightarrow> device_s \<Rightarrow> (int \<times> device_s) option" where
  "get_dev_info after local type m device =
     do {
       n \<leftarrow> strlen (header device);
       k \<leftarrow> strlen type;
       if n < k then Some (-1, device)
       else
         (let info = (dev device)\<lparr>dev_type := HD_IPC,
                vendor := copy_into (c_string ''HDIPC'') (vendor (dev device)),
                dev_name := copy_into (c_string ''LPC1768'') (dev_name (dev device)),
                serial_number := copy_into (c_string ''1000001'' @ [after]) (serial_number (dev device)),
                software := copy_into (take 4 (c_string ''1.0.0'')) (software (dev device)),
                hardware := copy_into (take 4 (c_string ''1.0.0'')) (hardware (dev device))\<rparr>;
              local_net = bytes_at m local sizeof_local_net
          in Some (0, device\<lparr>header := copy_into type (header device), dev := info,
               dev_net := (dev_net device)\<lparr>net_addresses := take 80 local_net, mac_addr := drop 80 local_net,
                 port := copy_into (c_string ''80'') (port (dev_net device))\<rparr>\<rparr>))
     }"

definition set_dev_net ::
  "iap_rom \<Rightarrow> u32 \<Rightarrow> u32 \<Rightarrow> u32 \<Rightarrow> memory \<Rightarrow> device_s \<Rightarrow> (int outcome \<times> memory) option" where
  "set_dev_net iap SystemCoreClock buffer local m device =
     do {
       same \<leftarrow> strcmp_eq (mac_addr (dev_net device)) (bytes_at m (local + mac_offset) 18);
       if \<not> same then Some (Returned (-1), m)
       else
         do {
           let m = mem_put local (net_addresses (dev_net device) @ mac_addr (dev_net device)) m;
           (status, m) \<leftarrow> vDeviceInfoSave iap SystemCoreClock buffer local m;
           Some (case status of Returned s \<Rightarrow> Returned (if s < 0 then -1 else 0) | SystemReset \<Rightarrow> SystemReset, m)
         }
     }"

text \<open>
  What the loop of \<open>vDeviceInfo\<close> does with a received message: the device it sends, if it sends one,
  or the reset of the processor.
\<close>

definition device_request ::
  "u8 \<Rightarrow> iap_rom \<Rightarrow> u32 \<Rightarrow> u32 \<Rightarrow> u32 \<Rightarrow> memory \<Rightarrow> device_s \<Rightarrow> (device_s option outcome \<times> memory) option" where
  "device_request after iap SystemCoreClock buffer local m device =
     do {
       info \<leftarrow> strcmp_eq (header device) REQUEST_DEV_INFO;
       if info then
         do { (_, device) \<leftarrow> get_dev_info after local RESPOND_DEV_INFO m device; Some (Returned (Some device), m) }
       else
         do {
           set \<leftarrow> strcmp_eq (header device) REQUEST_DEV_SET;
           if set then
             do {
               (status, m) \<leftarrow> set_dev_net iap SystemCoreClock buffer local m device;
               Some (case status of
                       SystemReset \<Rightarrow> (SystemReset, m)
                     | Returned s \<Rightarrow>
                         if s = 0 then (Returned (Some (device\<lparr>header := copy_into RESPOND_DEV_SET (header device)\<rparr>)), m)
                         else (Returned None, m))
             }
           else Some (Returned None, m)
         }
     }"

end
