(* ===== verification/App_Config_Properties.thy ===== *)
theory App_Config_Properties
  imports App_Config Stream_Buffer_Fifo
begin

text \<open>
  The configuration protocol: what survives a reset, how the device answers, and the
  acknowledgement it can never send.
\<close>

section \<open>Sectors\<close>

text \<open>Sixteen sectors of 4 KiB, then fourteen of 32 KiB: the whole flash of 512 KiB.\<close>

definition sector_start :: "u32 \<Rightarrow> u32" where
  "sector_start n = (if n < 16 then n * 0x1000 else 0x10000 + (n - 16) * 0x8000)"

definition sector_bytes :: "u32 \<Rightarrow> u32" where
  "sector_bytes n = (if n < 16 then 0x1000 else 0x8000)"

lemma GetSecNum_unat:
  "unat (GetSecNum adr) = (if unat adr < 0x10000 then unat adr div 0x1000 else 14 + unat adr div 0x8000)"
proof -
  have d: "unat (drop_bit 12 adr) = unat adr div 0x1000" by (simp add: drop_bit_eq_div unat_div)
  have le: "(0x10 \<le> drop_bit 12 adr) = (0x10000 \<le> unat adr)"
    unfolding word_le_nat_alt d by (simp add: less_eq_div_iff_mult_less_eq)
  show ?thesis
  proof (cases "unat adr < 0x10000")
    case True
    then show ?thesis using le d by (simp add: GetSecNum_def Let_def)
  next
    case False
    have "unat (drop_bit 3 (drop_bit 12 adr)) = unat adr div 0x8000"
      by (simp add: drop_bit_eq_div unat_div div_mult2_eq [symmetric])
    moreover have "14 + unat adr div 0x8000 < 2 ^ 32" using unat_less_u32 [of adr] by (simp add: less_mult_imp_div_less)
    ultimately show ?thesis using False le by (simp add: GetSecNum_def Let_def unat_word_ariths)
  qed
qed

text \<open>Every address of the flash lies in its sector.\<close>

lemma sector_contains:
  assumes "unat adr < 0x80000"
  shows "unat (GetSecNum adr) < 30"
    and "unat (sector_start (GetSecNum adr)) \<le> unat adr"
    and "unat adr < unat (sector_start (GetSecNum adr)) + unat (sector_bytes (GetSecNum adr))"
proof -
  note g = GetSecNum_unat [of adr]
  show lt: "unat (GetSecNum adr) < 30" using assms g by (auto simp: less_mult_imp_div_less)
  have l16: "(GetSecNum adr < 16) = (unat adr < 0x10000)"
    using g assms by (auto simp: word_less_nat_alt less_mult_imp_div_less)
  let ?n = "GetSecNum adr"
  have start: "unat (sector_start ?n) = (if unat adr < 0x10000 then unat adr div 0x1000 * 0x1000 else unat adr div 0x8000 * 0x8000)"
  proof (cases "unat adr < 0x10000")
    case True
    then show ?thesis using g l16 by (simp add: sector_start_def unat_word_ariths less_mult_imp_div_less)
  next
    case False
    then have two: "2 \<le> unat adr div 0x8000" by (simp add: less_eq_div_iff_mult_less_eq)
    have "unat (?n - 16) = unat ?n - 16" using g two False by (simp add: unat_diff_word)
    then have "unat (?n - 16) = unat adr div 0x8000 - 2" using g False by simp
    moreover have "unat adr div 0x8000 < 16" using assms by (simp add: less_mult_imp_div_less)
    moreover have "unat (0x10000 + k * 0x8000) = 0x10000 + unat k * 0x8000" if "unat k < 16" for k :: u32
      using that by (simp add: unat_word_ariths)
    ultimately have "unat (sector_start ?n) = 0x10000 + (unat adr div 0x8000 - 2) * 0x8000"
      using l16 False unfolding sector_start_def by (simp only: if_False)
    then show ?thesis using two False by (simp add: diff_mult_distrib)
  qed
  show "unat (sector_start ?n) \<le> unat adr" by (simp add: start)
  show "unat adr < unat (sector_start ?n) + unat (sector_bytes ?n)"
    using l16 dividend_less_div_times [of "0x1000" "unat adr"] dividend_less_div_times [of "0x8000" "unat adr"]
    by (simp add: start sector_bytes_def)
qed

section \<open>What survives a reset\<close>

text \<open>
  What the ROM does, by the user manual. The commands use the 32 bytes at the top of the local SRAM and write no
  other RAM; preparing, comparing and reading the serial number write nothing else at all; the comparison
  succeeds on equal areas only; \<open>uid\<close> is the serial number. Nothing is said of the statuses of the other commands, and nothing
  of the bytes in flash after an erase or a copy.
\<close>

definition iap_ram :: "u32 \<Rightarrow> bool" where
  "iap_ram q \<longleftrightarrow> 0x10007FE0 \<le> unat q \<and> unat q < 0x10008000"

definition iap_safe :: "u32 list \<Rightarrow> iap_rom \<Rightarrow> bool" where
  "iap_safe uid iap \<longleftrightarrow>
     (\<forall>c ps m q. c \<in> {50, 51, 52, 56, 58} \<and> 0x80000 \<le> unat q \<and> \<not> iap_ram q \<longrightarrow> snd (snd (iap c ps m)) q = m q)
     \<and> (\<forall>c ps m q. c \<in> {50, 56, 58} \<and> \<not> iap_ram q \<longrightarrow> snd (snd (iap c ps m)) q = m q)
     \<and> (\<forall>a b n m. fst (iap 56 [a, b, n] m) = CMD_SUCCESS \<longrightarrow> bytes_at m a n = bytes_at m b n)
     \<and> (\<forall>m. fst (iap 58 [] m) = CMD_SUCCESS \<longrightarrow> map ((!) (fst (snd (iap 58 [] m)))) [0..<4] = uid)"

text \<open>
  A ROM that also succeeds where the manual says so: a sector can be prepared; a prepared sector can be erased, and then holds
  0xFF only; 256 bytes can be copied from a word boundary to a boundary of 256 bytes in a prepared sector, and arrive when
  they were erased; the comparison of equal areas at word boundaries succeeds. \<open>prepared s m\<close>: sector \<open>s\<close> is prepared, which
  the ROM remembers in its own memory.
\<close>

definition iap_works :: "(u32 \<Rightarrow> memory \<Rightarrow> bool) \<Rightarrow> iap_rom \<Rightarrow> bool" where
  "iap_works prepared iap \<longleftrightarrow>
     (\<forall>m. fst (iap 58 [] m) = CMD_SUCCESS)
     \<and> (\<forall>s m. s < 30 \<longrightarrow> fst (iap 50 [s, s] m) = CMD_SUCCESS \<and> prepared s (snd (snd (iap 50 [s, s] m))))
     \<and> (\<forall>s clk m. s < 30 \<and> prepared s m \<longrightarrow> fst (iap 52 [s, s, clk] m) = CMD_SUCCESS
          \<and> (\<forall>q. unat (sector_start s) \<le> unat q \<and> unat q < unat (sector_start s) + unat (sector_bytes s) \<longrightarrow> snd (snd (iap 52 [s, s, clk] m)) q = 0xFF))
     \<and> (\<forall>s dst src clk m. s < 30 \<and> prepared s m \<and> unat (sector_start s) \<le> unat dst
          \<and> unat dst + 256 \<le> unat (sector_start s) + unat (sector_bytes s) \<and> unat dst mod 256 = 0 \<and> unat src mod 4 = 0
          \<and> bytes_at m dst 256 = replicate 256 0xFF
          \<longrightarrow> fst (iap 51 [dst, src, 256, clk] m) = CMD_SUCCESS \<and> bytes_at (snd (snd (iap 51 [dst, src, 256, clk] m))) dst 256 = bytes_at m src 256)
     \<and> (\<forall>a b n m. unat a mod 4 = 0 \<and> unat b mod 4 = 0 \<and> unat n mod 4 = 0 \<and> bytes_at m a n = bytes_at m b n \<longrightarrow> fst (iap 56 [a, b, n] m) = CMD_SUCCESS)"

text \<open>An area of RAM: above the flash, not in the memory of the ROM, and it does not wrap around the address space.\<close>

definition ram_area :: "u32 \<Rightarrow> nat \<Rightarrow> bool" where
  "ram_area p n \<longleftrightarrow> 0x80000 \<le> unat p \<and> (unat p + n \<le> 0x10007FE0 \<or> 0x10008000 \<le> unat p) \<and> unat p + n \<le> 2 ^ 32"

definition same_ram :: "memory \<Rightarrow> memory \<Rightarrow> bool" where
  "same_ram m m' \<longleftrightarrow> (\<forall>q. 0x80000 \<le> unat q \<and> \<not> iap_ram q \<longrightarrow> m' q = m q)"

lemma ram_bytes:
  assumes "same_ram m m'" and "ram_area p (unat n)"
  shows "bytes_at m' p n = bytes_at m p n"
proof -
  have "m' (p + of_nat i) = m (p + of_nat i)" if i: "i < unat n" for i
  proof -
    have "unat (p + of_nat i) = unat p + i" using assms(2) i by (intro unat_plus_small) (simp add: ram_area_def)
    then show ?thesis using assms i by (auto simp: same_ram_def ram_area_def iap_ram_def)
  qed
  then show ?thesis by (simp add: bytes_at_eq)
qed

lemma iap_same_ram: "iap_safe uid iap \<Longrightarrow> c \<in> {50, 51, 52, 56, 58} \<Longrightarrow> same_ram m (snd (snd (iap c ps m)))"
  by (simp add: iap_safe_def same_ram_def)

lemma same_ram_trans: "same_ram a b \<Longrightarrow> same_ram b c \<Longrightarrow> same_ram a c"
  by (simp add: same_ram_def)

lemma bytes_flash:
  assumes "iap_safe uid iap" and "c \<in> {50, 56, 58}"
  shows "bytes_at (snd (snd (iap c ps m))) 0x7FE00 256 = bytes_at m 0x7FE00 256"
proof -
  have "\<not> iap_ram (0x7FE00 + of_nat i)" if "i < 256" for i
    using that unat_plus_small [of "0x7FE00" i] by (simp add: iap_ram_def)
  then show ?thesis using assms by (auto simp: bytes_at_eq iap_safe_def)
qed

lemma bytes_shorter: "bytes_at m p 256 = bytes_at m' q 256 \<Longrightarrow> bytes_at m p 98 = bytes_at m' q 98"
  by (simp add: bytes_at_eq)

section \<open>Saving, command by command\<close>

text \<open>The configuration that is written: two characters of the MAC address are digits of the first and the last word of the serial number.\<close>

definition stamped :: "u32 list \<Rightarrow> u8 list \<Rightarrow> u8 list" where
  "stamped uid cfg = cfg[95 := of_nat (unat (uid ! 0) mod 10 + 48), 96 := of_nat (unat (uid ! 3) mod 10 + 48)]"

lemma digit: "(ucast (x mod 10 + 0x30 :: u32) :: u8) = of_nat (unat x mod 10 + 48)"
proof -
  have "unat (x mod 10) < 10" by (simp add: unat_mod)
  then have u: "unat (x mod 10 + 0x30) = unat x mod 10 + 48" by (simp add: unat_word_ariths unat_mod)
  have "unat (ucast (x mod 10 + 0x30) :: u8) = unat x mod 10 + 48" unfolding unsigned_ucast_eq u by (simp add: take_bit_eq_mod)
  moreover have "unat (of_nat (unat x mod 10 + 48) :: u8) = unat x mod 10 + 48" by (subst unat_of_nat) simp
  ultimately show ?thesis by (simp only: word_unat_eq_iff)
qed

text \<open>The image in the buffer.\<close>

definition staged :: "u32 list \<Rightarrow> u32 \<Rightarrow> u32 \<Rightarrow> memory \<Rightarrow> memory" where
  "staged uid buffer net m = memcpy buffer net sizeof_local_net (mem_put buffer (replicate (unat IAP_WRITE_256) 0xFF)
     (m(net + mac_offset + 15 := ucast (uid ! 0 mod 10 + 0x30), net + mac_offset + 16 := ucast (uid ! 3 mod 10 + 0x30))))"

lemma staged_bytes:
  assumes "ram_area net 98" and "ram_area buffer 256" and "unat net + 98 \<le> unat buffer \<or> unat buffer + 256 \<le> unat net"
  shows "bytes_at (staged uid buffer net m) buffer 98 = stamped uid (bytes_at m net 98)"
proof -
  have w: "unat IAP_WRITE_256 = 256" "sizeof_local_net = 98" by (simp_all add: IAP_WRITE_256_def sizeof_local_net_def)
  have a: "net + mac_offset + 15 = net + 95" "net + mac_offset + 16 = net + 96" by (simp_all add: mac_offset_def)
  let ?m = "m(net + 95 := ucast (uid ! 0 mod 10 + 0x30), net + 96 := ucast (uid ! 3 mod 10 + 0x30))"
  have "bytes_at (mem_put buffer (replicate 256 0xFF) ?m) net 98 = bytes_at ?m net 98"
    using assms by (intro mem_put_elsewhere) (auto simp: ram_area_def)
  also have "\<dots> = stamped uid (bytes_at m net 98)"
    using bytes_at_upd [of 98 95] bytes_at_upd [of 98 96] by (simp add: stamped_def digit)
  finally show ?thesis by (simp add: staged_def w a)
qed

lemma flash_address: "DEVICE_INFO_START = 0x7FE00" "GetSecNum 0x7FE00 = 29" "IAP_WRITE_256 = 256" "sizeof_local_net = 98"
  by (simp_all add: DEVICE_INFO_START_def GetSecNum_def Let_def IAP_WRITE_256_def sizeof_local_net_def drop_bit_eq_div)

lemmas iap_codes = IAP_PREPARE_def IAP_COPY_RAM2FLASH_def IAP_ERASE_def IAP_COMPARE_def IAP_READ_SERIAL_NUMBER_def

lemma save_resets:
  assumes D: "iap_safe uid iap" and save: "vDeviceInfoSave iap clk buffer net m = Some (SystemReset, m')"
    and ram: "ram_area net 98" "ram_area buffer 256" and apart: "unat net + 98 \<le> unat buffer \<or> unat buffer + 256 \<le> unat net"
  shows "bytes_at m' 0x7FE00 98 = stamped uid (bytes_at m net 98)"
proof -
  obtain s0 r0 m0 where i0: "iap 58 [] m = (s0, r0, m0)" by (cases "iap 58 [] m") auto
  let ?u = "map ((!) r0) [0..<4]"
  let ?m1 = "staged ?u buffer net m0"
  have "s0 = CMD_SUCCESS" using save i0 by (auto simp: vDeviceInfoSave_def ReadDeviceSerialNum_def iap_codes split: if_splits)
  then have u: "?u = uid" using D i0 unfolding iap_safe_def by (metis fst_conv snd_conv)
  obtain s2 r2 m2 where i2: "iap 50 [29, 29] ?m1 = (s2, r2, m2)" by (cases "iap 50 [29, 29] ?m1") auto
  obtain s3 r3 m3 where i3: "iap 52 [29, 29, clk div 1000] m2 = (s3, r3, m3)" by (cases "iap 52 [29, 29, clk div 1000] m2") auto
  obtain s4 r4 m4 where i4: "iap 50 [29, 29] m3 = (s4, r4, m4)" by (cases "iap 50 [29, 29] m3") auto
  obtain s5 r5 m5 where i5: "iap 51 [0x7FE00, buffer, 256, clk div 1000] m4 = (s5, r5, m5)"
    by (cases "iap 51 [0x7FE00, buffer, 256, clk div 1000] m4") auto
  obtain s6 r6 m6 where i6: "iap 56 [0x7FE00, buffer, 256] m5 = (s6, r6, m6)" by (cases "iap 56 [0x7FE00, buffer, 256] m5") auto
  have run: "s6 = CMD_SUCCESS" "m' = m6"
    using save i0 i2 i3 i4 i5 i6 \<open>s0 = CMD_SUCCESS\<close>
    by (auto simp: vDeviceInfoSave_def ReadDeviceSerialNum_def EraseSector_def CopyRAM2Flash_def Compare_def PrepareSector_def
        flash_address(1-3) iap_codes staged_def Let_def split: if_splits)
  have r: "same_ram m m0" "same_ram ?m1 m2" "same_ram m2 m3" "same_ram m3 m4" "same_ram m4 m5"
    using iap_same_ram [OF D, of 58 m "[]"] iap_same_ram [OF D, of 50 ?m1 "[29, 29]"] iap_same_ram [OF D, of 52 m2 "[29, 29, clk div 1000]"]
      iap_same_ram [OF D, of 50 m3 "[29, 29]"] iap_same_ram [OF D, of 51 m4 "[0x7FE00, buffer, 256, clk div 1000]"] i0 i2 i3 i4 i5 by simp_all
  have "bytes_at m6 0x7FE00 256 = bytes_at m5 0x7FE00 256" using bytes_flash [OF D, of 56 "[0x7FE00, buffer, 256]" m5] i6 by simp
  moreover have "bytes_at m5 0x7FE00 256 = bytes_at m5 buffer 256"
    using D run(1) i6 unfolding iap_safe_def by (metis fst_conv)
  moreover have "bytes_at m5 buffer 256 = bytes_at ?m1 buffer 256"
    using ram_bytes [OF same_ram_trans [OF same_ram_trans [OF same_ram_trans [OF r(2,3)] r(4)] r(5)], of buffer 256] ram(2) by simp
  ultimately have "bytes_at m6 0x7FE00 98 = bytes_at ?m1 buffer 98" by (intro bytes_shorter) simp
  moreover have "bytes_at m0 net 98 = bytes_at m net 98" using ram_bytes [OF r(1), of net 98] ram(1) by simp
  ultimately show ?thesis using staged_bytes [OF ram apart, of ?u m0] run(2) u by simp
qed

lemma iap_works_erase:
  assumes "iap_works prepared iap" and "s < 30" and "prepared s m"
  shows "fst (iap 52 [s, s, clk] m) = CMD_SUCCESS"
    and "unat (sector_start s) \<le> unat q \<Longrightarrow> unat q < unat (sector_start s) + unat (sector_bytes s) \<Longrightarrow> snd (snd (iap 52 [s, s, clk] m)) q = 0xFF"
  using assms unfolding iap_works_def by blast+

lemma iap_works_copy:
  assumes "iap_works prepared iap" and "s < 30" and "prepared s m" and "unat (sector_start s) \<le> unat dst"
    and "unat dst + 256 \<le> unat (sector_start s) + unat (sector_bytes s)" and "unat dst mod 256 = 0" and "unat src mod 4 = 0"
    and "bytes_at m dst 256 = replicate 256 0xFF"
  shows "fst (iap 51 [dst, src, 256, clk] m) = CMD_SUCCESS \<and> bytes_at (snd (snd (iap 51 [dst, src, 256, clk] m))) dst 256 = bytes_at m src 256"
proof -
  have "\<forall>s dst src clk m. s < 30 \<and> prepared s m \<and> unat (sector_start s) \<le> unat dst
      \<and> unat dst + 256 \<le> unat (sector_start s) + unat (sector_bytes s) \<and> unat dst mod 256 = 0 \<and> unat src mod 4 = 0
      \<and> bytes_at m dst 256 = replicate 256 0xFF
      \<longrightarrow> fst (iap 51 [dst, src, 256, clk] m) = CMD_SUCCESS \<and> bytes_at (snd (snd (iap 51 [dst, src, 256, clk] m))) dst 256 = bytes_at m src 256"
    using assms(1) unfolding iap_works_def by (elim conjE)
  then show ?thesis using assms(2-8) by metis
qed

lemma iap_works_compare:
  "iap_works prepared iap \<Longrightarrow> unat a mod 4 = 0 \<Longrightarrow> unat b mod 4 = 0 \<Longrightarrow> unat n mod 4 = 0 \<Longrightarrow> bytes_at m a n = bytes_at m b n \<Longrightarrow>
    fst (iap 56 [a, b, n] m) = CMD_SUCCESS"
  by (simp add: iap_works_def)

lemma save_succeeds:
  assumes D: "iap_safe uid iap" and W: "iap_works prepared iap"
    and ram: "ram_area buffer 256" "unat buffer mod 4 = 0"
  shows "\<exists>m'. vDeviceInfoSave iap clk buffer net m = Some (SystemReset, m')"
proof -
  obtain s0 r0 m0 where i0: "iap 58 [] m = (s0, r0, m0)" by (cases "iap 58 [] m") auto
  let ?m1 = "staged (map ((!) r0) [0..<4]) buffer net m0"
  have s0: "s0 = CMD_SUCCESS" using W i0 unfolding iap_works_def by (metis fst_conv)
  have sec: "sector_start 29 = 0x78000" "sector_bytes 29 = 0x8000" "(29 :: u32) < 30" by (simp_all add: sector_start_def sector_bytes_def)
  obtain s2 r2 m2 where i2: "iap 50 [29, 29] ?m1 = (s2, r2, m2)" by (cases "iap 50 [29, 29] ?m1") auto
  obtain s3 r3 m3 where i3: "iap 52 [29, 29, clk div 1000] m2 = (s3, r3, m3)" by (cases "iap 52 [29, 29, clk div 1000] m2") auto
  obtain s4 r4 m4 where i4: "iap 50 [29, 29] m3 = (s4, r4, m4)" by (cases "iap 50 [29, 29] m3") auto
  obtain s5 r5 m5 where i5: "iap 51 [0x7FE00, buffer, 256, clk div 1000] m4 = (s5, r5, m5)"
    by (cases "iap 51 [0x7FE00, buffer, 256, clk div 1000] m4") auto
  obtain s6 r6 m6 where i6: "iap 56 [0x7FE00, buffer, 256] m5 = (s6, r6, m6)" by (cases "iap 56 [0x7FE00, buffer, 256] m5") auto
  have prep: "fst (iap 50 [29, 29] x) = CMD_SUCCESS \<and> prepared 29 (snd (snd (iap 50 [29, 29] x)))" for x
    using W sec(3) unfolding iap_works_def by blast
  have p: "s2 = CMD_SUCCESS" "prepared 29 m2" "s4 = CMD_SUCCESS" "prepared 29 m4" using prep [of ?m1] prep [of m3] i2 i4 by simp_all
  have er: "s3 = CMD_SUCCESS \<and> (\<forall>q. 0x78000 \<le> unat q \<and> unat q < 0x80000 \<longrightarrow> m3 q = 0xFF)"
  proof -
    note e = iap_works_erase [OF W sec(3) p(2), where clk = "clk div 1000"]
    show ?thesis using e by (simp add: i3 sec(1,2))
  qed
  have "bytes_at m3 0x7FE00 256 = replicate 256 0xFF"
  proof (rule nth_equalityI)
    fix i assume "i < length (bytes_at m3 0x7FE00 256)"
    then have i: "i < 256" by simp
    then have "unat (0x7FE00 + of_nat i :: u32) = 0x7FE00 + i" using unat_plus_small [of "0x7FE00" i] by simp
    then show "bytes_at m3 0x7FE00 256 ! i = replicate 256 0xFF ! i" using er i by (simp add: bytes_at_def)
  qed simp
  then have blank: "bytes_at m4 0x7FE00 256 = replicate 256 0xFF" using bytes_flash [OF D, of 50 "[29, 29]" m3] i4 by simp
  have copy: "s5 = CMD_SUCCESS \<and> bytes_at m5 0x7FE00 256 = bytes_at m4 buffer 256"
  proof -
    have "unat (sector_start 29) \<le> unat (0x7FE00 :: u32)" "unat (0x7FE00 :: u32) + 256 \<le> unat (sector_start 29) + unat (sector_bytes 29)"
      "unat (0x7FE00 :: u32) mod 256 = 0" by (simp_all add: sec)
    from iap_works_copy [OF W sec(3) p(4) this ram(2) blank, of "clk div 1000"] show ?thesis by (simp add: i5)
  qed
  have "same_ram m4 m5" using iap_same_ram [OF D, of 51 m4 "[0x7FE00, buffer, 256, clk div 1000]"] i5 by simp
  then have "bytes_at m5 0x7FE00 256 = bytes_at m5 buffer 256" using copy ram_bytes [of m4 m5 buffer 256] ram(1) by simp
  then have "fst (iap 56 [0x7FE00, buffer, 256] m5) = CMD_SUCCESS" by (intro iap_works_compare [OF W]) (simp_all add: ram(2))
  then have "s6 = CMD_SUCCESS" by (simp add: i6)
  moreover have "buffer \<noteq> 0" using ram(1) by (auto simp: ram_area_def)
  ultimately have "vDeviceInfoSave iap clk buffer net m = Some (SystemReset, m6)"
    using i0 i2 i3 i4 i5 i6 s0 p(1,3) er copy
    by (simp add: vDeviceInfoSave_def ReadDeviceSerialNum_def EraseSector_def CopyRAM2Flash_def Compare_def PrepareSector_def
        flash_address(1-3) iap_codes staged_def Let_def)
  then show ?thesis by blast
qed

text \<open>
  C24. What was saved survives the reset. Let the ROM only write where it may and compare truthfully. When \<open>vDeviceInfoSave\<close> comes to
  the reset, a later \<open>vDeviceInfoInit\<close> on the same flash reads back exactly the configuration that was saved, with the
  characters 15 and 16 of the MAC address replaced by the last decimal digits of the first and the last word of the
  serial number, provided the first character of the MAC address is not the value of erased flash. And when the
  commands also succeed where the manual says so (a prepared sector is erased, an erased area is
  programmed), and the buffer is word-aligned, \<open>vDeviceInfoSave\<close> does come to the reset.
\<close>

theorem config_survives_reset:
  assumes "iap_safe uid iap" and "ram_area net 98" and "ram_area buffer 256" and "unat net + 98 \<le> unat buffer \<or> unat buffer + 256 \<le> unat net"
  shows "(vDeviceInfoSave iap clk buffer net m = Some (SystemReset, m') \<and> m (net + 80) \<noteq> 0xFF \<and> bytes_at later 0x7FE00 98 = bytes_at m' 0x7FE00 98
      \<longrightarrow> (\<exists>m3. vDeviceInfoInit net later = (0, m3) \<and> bytes_at m3 net 98 = stamped uid (bytes_at m net 98)))
    \<and> (iap_works prepared iap \<and> unat buffer mod 4 = 0 \<longrightarrow> (\<exists>m'. vDeviceInfoSave iap clk buffer net m = Some (SystemReset, m')))"
proof (intro conjI impI)
  assume a: "vDeviceInfoSave iap clk buffer net m = Some (SystemReset, m') \<and> m (net + 80) \<noteq> 0xFF \<and> bytes_at later 0x7FE00 98 = bytes_at m' 0x7FE00 98"
  let ?cfg = "stamped uid (bytes_at m net 98)"
  have c: "bytes_at later 0x7FE00 98 = ?cfg" using save_resets [OF assms(1) _ assms(2-4)] a by metis
  have "?cfg ! 80 = m (net + 80)" by (simp add: stamped_def bytes_at_def)
  then have "?cfg ! unat mac_offset \<noteq> 0xFF" using a by (simp add: mac_offset_def)
  moreover have "bytes_at (mem_put net ?cfg later) net 98 = ?cfg" using bytes_put [of ?cfg net later] by (simp add: stamped_def)
  ultimately show "\<exists>m3. vDeviceInfoInit net later = (0, m3) \<and> bytes_at m3 net 98 = ?cfg"
    using c by (simp add: vDeviceInfoInit_def flash_address(1,4) Let_def)
next
  assume "iap_works prepared iap \<and> unat buffer mod 4 = 0"
  then show "\<exists>m'. vDeviceInfoSave iap clk buffer net m = Some (SystemReset, m')" using save_succeeds [OF assms(1) _ assms(3)] by metis
qed

text \<open>A ROM that does what is documented, for the witnesses.\<close>

definition demo_iap :: iap_rom where
  "demo_iap c ps m =
     (if c = 51 then (CMD_SUCCESS, [], \<lambda>q. if unat q < 0x80000 then memcpy (ps ! 0) (ps ! 1) (ps ! 2) m q else m q)
      else if c = 52 then (CMD_SUCCESS, [], \<lambda>q. if unat q < 0x80000 then 0xFF else m q)
      else if c = 56 then (if bytes_at m (ps ! 0) (ps ! 2) = bytes_at m (ps ! 1) (ps ! 2) then CMD_SUCCESS else 10, [0], m)
      else (CMD_SUCCESS, [11, 22, 33, 44], m))"

lemma demo_iap_safe: "iap_safe [11, 22, 33, 44] demo_iap"
  by (simp add: iap_safe_def demo_iap_def CMD_SUCCESS_def upt_conv_Cons)

lemma demo_iap_works: "iap_works (\<lambda>_ _. True) demo_iap"
proof -
  have start: "unat (sector_start s) + unat (sector_bytes s) \<le> 0x80000" if "s < 30" for s
  proof -
    have u: "unat s < 30" using that by (simp add: word_less_nat_alt)
    have k: "unat (s * 0x1000) = unat s * 0x1000" if "unat s < 16" using that by (simp add: unat_word_ariths)
    show ?thesis
    proof (cases "s < 16")
      case True
      then show ?thesis using k by (simp add: sector_start_def sector_bytes_def word_less_nat_alt)
    next
      case False
      then have d: "unat (s - 16) = unat s - 16" by (simp add: unat_diff_word word_less_nat_alt)
      have big: "unat (0x10000 + k * 0x8000) = 0x10000 + unat k * 0x8000" if "unat k < 16" for k :: u32
        using that by (simp add: unat_word_ariths)
      have "unat (s - 16) < 16" using d u by simp
      then have "unat (0x10000 + (s - 16) * 0x8000) = 0x10000 + (unat s - 16) * 0x8000" unfolding d [symmetric] by (rule big)
      then have "unat (sector_start s) = 0x10000 + (unat s - 16) * 0x8000" using False by (simp only: sector_start_def if_False)
      then show ?thesis using False u by (simp add: sector_bytes_def)
    qed
  qed
  have low: "bytes_at (\<lambda>q. if unat q < 0x80000 then memcpy dst src 256 m q else m q) dst 256 = bytes_at m src 256" if "unat dst + 256 \<le> 0x80000" for dst src m
  proof -
    have "unat (dst + of_nat i) < 0x80000" if i: "i < 256" for i using unat_plus_small [of dst i] that \<open>unat dst + 256 \<le> 0x80000\<close> by simp
    then have "bytes_at (\<lambda>q. if unat q < 0x80000 then memcpy dst src 256 m q else m q) dst 256 = bytes_at (memcpy dst src 256 m) dst 256"
      by (simp add: bytes_at_eq del: memcpy_there)
    then show ?thesis by simp
  qed
  have flash: "unat q < 0x80000" if "s < 30" "unat q < unat (sector_start s) + unat (sector_bytes s)" for s q :: u32
    using start [OF that(1)] that(2) by simp
  have flash_end: "unat q + 256 \<le> 0x80000" if "s < 30" "unat q + 256 \<le> unat (sector_start s) + unat (sector_bytes s)" for s q
    using start [OF that(1)] that(2) by simp
  show ?thesis unfolding iap_works_def
  proof (intro conjI allI impI)
    fix s clk :: u32 and m :: memory and q :: u32
    assume "s < 30 \<and> True" "unat (sector_start s) \<le> unat q \<and> unat q < unat (sector_start s) + unat (sector_bytes s)"
    then have "unat q < 0x80000" using flash by blast
    then show "snd (snd (demo_iap 52 [s, s, clk] m)) q = 0xFF" by (simp add: demo_iap_def)
  next
    fix s dst src clk :: u32 and m :: memory
    assume "s < 30 \<and> True \<and> unat (sector_start s) \<le> unat dst \<and> unat dst + 256 \<le> unat (sector_start s) + unat (sector_bytes s)
      \<and> unat dst mod 256 = 0 \<and> unat src mod 4 = 0 \<and> bytes_at m dst 256 = replicate 256 0xFF"
    then have "unat dst + 256 \<le> 0x80000" using flash_end by blast
    then have "bytes_at (\<lambda>q. if unat q < 0x80000 then memcpy dst src 256 m q else m q) dst 256 = bytes_at m src 256" by (rule low)
    moreover have "snd (snd (demo_iap 51 [dst, src, 256, clk] m)) = (\<lambda>q. if unat q < 0x80000 then memcpy dst src 256 m q else m q)"
      by (simp add: demo_iap_def cong: if_cong)
    ultimately show "bytes_at (snd (snd (demo_iap 51 [dst, src, 256, clk] m))) dst 256 = bytes_at m src 256" by simp
  qed (simp_all add: demo_iap_def)
qed

theorem config_survives_reset_witness:
  "\<exists>m' m3. vDeviceInfoSave demo_iap 100000000 0x10001000 0x10000000 (\<lambda>_. 0x31) = Some (SystemReset, m')
    \<and> vDeviceInfoInit 0x10000000 m' = (0, m3) \<and> bytes_at m3 0x10000000 98 = (replicate 98 0x31)[95 := 0x31, 96 := 0x34]"
proof -
  have r: "ram_area 0x10000000 98" "ram_area 0x10001000 256" "unat (0x10000000 :: u32) + 98 \<le> unat (0x10001000 :: u32) \<or> unat (0x10001000 :: u32) + 256 \<le> unat (0x10000000 :: u32)"
    "unat (0x10001000 :: u32) mod 4 = 0" by (simp_all add: ram_area_def)
  note c = config_survives_reset [OF demo_iap_safe r(1-3), where prepared = "\<lambda>_ _. True" and m = "\<lambda>_. 0x31" and clk = 100000000]
  obtain m' where m': "vDeviceInfoSave demo_iap 100000000 0x10001000 0x10000000 (\<lambda>_. 0x31) = Some (SystemReset, m')"
    using conjunct2 [OF c, rule_format, OF conjI, OF demo_iap_works r(4)] by (elim exE)
  then obtain m3 where "vDeviceInfoInit 0x10000000 m' = (0, m3)"
    "bytes_at m3 0x10000000 98 = stamped [11, 22, 33, 44] (bytes_at (\<lambda>_. 0x31) 0x10000000 98)"
    using config_survives_reset [OF demo_iap_safe r(1-3), where prepared = "\<lambda>_ _. True" and m = "\<lambda>_. 0x31" and clk = 100000000 and later = m' and m' = m']
    by auto
  moreover have "bytes_at (\<lambda>_. 0x31) 0x10000000 98 = replicate 98 0x31" by (simp add: bytes_at_def map_replicate_const)
  ultimately show ?thesis using m' by (simp add: stamped_def)
qed

section \<open>Requests\<close>

lemma strcmp_strlen: "strcmp_eq xs ys = Some True \<Longrightarrow> strlen xs = strlen ys \<and> strlen ys \<noteq> None"
  by (induction xs ys rule: strcmp_eq.induct) (auto split: if_splits)

lemma literals:
  "REQUEST_DEV_INFO = [114, 101, 113, 117, 101, 115, 116, 58, 100, 101, 118, 105, 99, 101, 32, 105, 110, 102, 111, 0]"
  "RESPOND_DEV_INFO = [114, 101, 115, 112, 111, 110, 101, 58, 100, 101, 118, 105, 99, 101, 32, 105, 110, 102, 111, 0]"
  "REQUEST_DEV_SET = [114, 101, 113, 117, 101, 115, 116, 58, 100, 101, 118, 105, 99, 101, 32, 99, 111, 110, 102, 105, 103, 0]"
  "c_string ''1.0.0'' = [49, 46, 48, 46, 48, 0]"
  "c_string ''80'' = [56, 48, 0]"
  "c_string ''HDIPC'' = [72, 68, 73, 80, 67, 0]"
  "c_string ''LPC1768'' = [76, 80, 67, 49, 55, 54, 56, 0]"
  "c_string ''1000001'' = [49, 48, 48, 48, 48, 48, 49, 0]"
  by code_simp+

text \<open>
  A discovery request is answered with the device as it is configured: the reply carries the
  answer header, the addresses and the MAC address of \<open>local_net\<close> and port 80, and nothing of
  the stored state changes. The version strings are cut: four bytes are copied and the rest of
  each field is what the request carried.
\<close>

theorem discovery_answered:
  assumes "device_ok d" and "strcmp_eq (header d) REQUEST_DEV_INFO = Some True"
  shows "\<exists>r. device_request after iap clk buffer local m d = Some (Returned (Some r), m)
    \<and> device_ok r \<and> strcmp_eq (header r) RESPOND_DEV_INFO = Some True
    \<and> net_addresses (dev_net r) @ mac_addr (dev_net r) = bytes_at m local sizeof_local_net
    \<and> strcmp_eq (port (dev_net r)) (c_string ''80'') = Some True
    \<and> drop 4 (software (dev r)) = drop 4 (software (dev d)) \<and> drop 4 (hardware (dev r)) = drop 4 (hardware (dev d))"
proof -
  have "strlen (header d) = strlen REQUEST_DEV_INFO" using strcmp_strlen [OF assms(2)] by simp
  then have n: "strlen (header d) = Some 19" "strlen RESPOND_DEV_INFO = Some 19" by (simp_all add: literals)
  define r where "r = d\<lparr>header := copy_into RESPOND_DEV_INFO (header d),
      dev := (dev d)\<lparr>dev_type := HD_IPC, vendor := copy_into (c_string ''HDIPC'') (vendor (dev d)),
        dev_name := copy_into (c_string ''LPC1768'') (dev_name (dev d)),
        serial_number := copy_into (c_string ''1000001'' @ [after]) (serial_number (dev d)),
        software := copy_into (take 4 (c_string ''1.0.0'')) (software (dev d)),
        hardware := copy_into (take 4 (c_string ''1.0.0'')) (hardware (dev d))\<rparr>,
      dev_net := (dev_net d)\<lparr>net_addresses := take 80 (bytes_at m local sizeof_local_net),
        mac_addr := drop 80 (bytes_at m local sizeof_local_net), port := copy_into (c_string ''80'') (port (dev_net d))\<rparr>\<rparr>"
  have "device_request after iap clk buffer local m d = Some (Returned (Some r), m)"
    using assms(2) n by (simp add: device_request_def get_dev_info_def r_def Let_def)
  moreover have "device_ok r" using assms(1) by (simp add: device_ok_def r_def copy_into_def literals sizeof_local_net_def)
  moreover have "strcmp_eq (header r) RESPOND_DEV_INFO = Some True" by (simp add: r_def copy_into_def literals)
  moreover have "strcmp_eq (port (dev_net r)) (c_string ''80'') = Some True" by (simp add: r_def copy_into_def literals)
  moreover have "net_addresses (dev_net r) @ mac_addr (dev_net r) = bytes_at m local sizeof_local_net" by (simp add: r_def)
  moreover have "drop 4 (copy_into (take 4 (c_string ''1.0.0'')) f) = drop 4 f" for f
    by (simp add: copy_into_def literals eval_nat_numeral)
  then have "drop 4 (software (dev r)) = drop 4 (software (dev d))" "drop 4 (hardware (dev r)) = drop 4 (hardware (dev d))"
    by (simp_all add: r_def)
  ultimately show ?thesis by (intro exI [of _ r]) blast
qed

definition demo_device :: "u8 list \<Rightarrow> device_s" where
  "demo_device h = \<lparr>header = h @ replicate (32 - length h) 0,
     dev = \<lparr>dev_type = 0, vendor = replicate 16 0, dev_name = replicate 16 0, serial_number = replicate 33 0,
       software = replicate 8 0, hardware = replicate 8 0\<rparr>,
     dev_net = \<lparr>net_addresses = replicate 80 0, mac_addr = replicate 18 0, port = replicate 6 0\<rparr>\<rparr>"

theorem discovery_answered_witness:
  "\<exists>r. device_request 0 demo_iap 100000000 0x10001000 0x10000000 (\<lambda>_. 0x31) (demo_device REQUEST_DEV_INFO)
      = Some (Returned (Some r), \<lambda>_. 0x31)"
proof -
  have "device_ok (demo_device REQUEST_DEV_INFO)" "strcmp_eq (header (demo_device REQUEST_DEV_INFO)) REQUEST_DEV_INFO = Some True"
    by (simp_all add: device_ok_def demo_device_def literals)
  from discovery_answered [OF this, of 0 demo_iap] show ?thesis by blast
qed

text \<open>
  A configuration request is never acknowledged. When the MAC address is not this device's, or
  the flash cannot be written, no reply is sent; when it is written the processor resets inside
  \<open>vDeviceInfoSave\<close>, before the reply: the branch that sends it is unreachable. A request for
  another device changes nothing.
\<close>

theorem config_request_not_acknowledged:
  assumes "strcmp_eq (header d) REQUEST_DEV_SET = Some True" and "device_request after iap clk buffer local m d = Some (r, m')"
  shows "(r = SystemReset \<or> r = Returned None)
    \<and> (strcmp_eq (mac_addr (dev_net d)) (bytes_at m (local + mac_offset) 18) = Some False \<longrightarrow> r = Returned None \<and> m' = m)"
proof -
  have "strcmp_eq (header d) REQUEST_DEV_INFO = Some False"
  proof (cases "strcmp_eq (header d) REQUEST_DEV_INFO")
    case None
    then show ?thesis using assms(2) by (simp add: device_request_def)
  next
    case (Some b)
    then show ?thesis using strcmp_strlen [of "header d" REQUEST_DEV_INFO] strcmp_strlen [OF assms(1)] by (cases b) (simp_all add: literals)
  qed
  then have run: "device_request after iap clk buffer local m d = Option.bind (set_dev_net iap clk buffer local m d)
      (\<lambda>(status, m). Some (case status of SystemReset \<Rightarrow> (SystemReset, m)
         | Returned s \<Rightarrow> if s = 0 then (Returned (Some (d\<lparr>header := copy_into RESPOND_DEV_SET (header d)\<rparr>)), m) else (Returned None, m)))"
    using assms(1) by (simp add: device_request_def)
  obtain st q where S: "set_dev_net iap clk buffer local m d = Some (st, q)"
    using assms(2) unfolding run by (cases "set_dev_net iap clk buffer local m d") auto
  have saved: "vDeviceInfoSave iap clk buffer local q = Some (Returned s, q') \<Longrightarrow> s = -1" for q q' s
    by (auto simp: vDeviceInfoSave_def Let_def split: prod.splits option.splits if_splits)
  have "st \<noteq> Returned 0"
  proof
    assume z: "st = Returned 0"
    obtain same where same: "strcmp_eq (mac_addr (dev_net d)) (bytes_at m (local + mac_offset) 18) = Some same"
      using S by (auto simp: set_dev_net_def bind_eq_Some_conv)
    let ?p = "mem_put local (net_addresses (dev_net d) @ mac_addr (dev_net d)) m"
    have same: "strcmp_eq (mac_addr (dev_net d)) (bytes_at m (local + mac_offset) 18) = Some True"
      using same S z by (cases same) (simp_all add: set_dev_net_def)
    show False
    proof (cases "vDeviceInfoSave iap clk buffer local ?p")
      case None
      then show ?thesis using S same by (simp add: set_dev_net_def)
    next
      case (Some x)
      obtain out p where x: "x = (out, p)" by (cases x)
      show ?thesis
      proof (cases out)
        case (Returned i)
        then have "i = -1" using saved Some x by simp
        then show ?thesis using S same Some x Returned z by (simp add: set_dev_net_def)
      qed (use S same Some x z in \<open>simp add: set_dev_net_def\<close>)
    qed
  qed
  then have "(r = SystemReset \<or> r = Returned None) \<and> q = m' \<and> (r = SystemReset \<longrightarrow> st = SystemReset)"
    using assms(2) unfolding run S by (cases st) (auto split: if_splits)
  then show ?thesis using S by (auto simp: set_dev_net_def)
qed

theorem config_request_not_acknowledged_witness:
  "\<exists>r m'. device_request 0 demo_iap 100000000 0x10001000 0x10000000 (\<lambda>_. 0x31) (demo_device REQUEST_DEV_SET) = Some (r, m')
    \<and> (r = SystemReset \<or> r = Returned None)"
proof -
  have s: "strcmp_eq (header (demo_device REQUEST_DEV_SET)) REQUEST_DEV_SET = Some True"
    "strcmp_eq (header (demo_device REQUEST_DEV_SET)) REQUEST_DEV_INFO = Some False"
    by (simp_all add: demo_device_def literals)
  have "bytes_at (\<lambda>_. 0x31) p 18 = replicate 18 0x31" for p :: u32 by (simp add: bytes_at_def map_replicate_const)
  moreover have "strcmp_eq (replicate 18 0) (replicate 18 0x31) = Some False" by code_simp
  ultimately have "strcmp_eq (replicate 18 0) (bytes_at (\<lambda>_. 0x31) p 18) = Some False" for p :: u32 by simp
  then have "strcmp_eq (mac_addr (dev_net (demo_device REQUEST_DEV_SET))) (bytes_at (\<lambda>_. 0x31) (0x10000000 + mac_offset) 18) = Some False"
    by (simp add: demo_device_def)
  with s obtain r m' where run: "device_request 0 demo_iap 100000000 0x10001000 0x10000000 (\<lambda>_. 0x31) (demo_device REQUEST_DEV_SET) = Some (r, m')"
    by (simp add: device_request_def set_dev_net_def)
  then show ?thesis using config_request_not_acknowledged [OF s(1) run] by blast
qed

end
