(* ===== verification/App_Main.thy ===== *)
theory App_Main
  imports App_Uart Event_Group
begin

text \<open>
  Start-up (\<open>app/src/main.c\<close>) and the watchdog (\<open>app/src/wdt.c\<close> and the driver
  \<open>system/src/lpc17xx/lpc17xx_wdt.c\<close>). The watchdog registers are a record; a feed is the pair of
  writes to \<open>WDFEED\<close> that reloads the counter, and is counted. \<open>vTaskStartScheduler\<close> creates the
  idle task and starts the first task; it returns only when it cannot.
\<close>

section \<open>The watchdog driver\<close>

type_synonym u64 = "64 word"

record wdt =
  WDMOD :: u32
  WDTC :: u32
  WDCLKSEL :: u32
  wdt_feeds :: nat

definition WDT_WDMOD_WDEN :: u32 where "WDT_WDMOD_WDEN = push_bit 0 1"
definition WDT_WDMOD_WDRESET :: u32 where "WDT_WDMOD_WDRESET = push_bit 1 1"
definition WDT_WDMOD_WDTOF :: u32 where "WDT_WDMOD_WDTOF = push_bit 2 1"
definition WDT_WDCLKSEL_MASK :: u32 where "WDT_WDCLKSEL_MASK = 3"
definition WDT_CLKSRC_IRC :: u32 where "WDT_CLKSRC_IRC = 0"
definition WDT_CLKSRC_PCLK :: u32 where "WDT_CLKSRC_PCLK = 1"
definition WDT_CLKSRC_RTC :: u32 where "WDT_CLKSRC_RTC = 2"
definition WDT_US_INDEX :: u32 where "WDT_US_INDEX = 1000000"
definition WDT_TIMEOUT_MIN :: u32 where "WDT_TIMEOUT_MIN = 0xFF"

text \<open>The number of counts of a time-out in microseconds: computed in 64 bits, stored in 32.\<close>

definition wdt_counts :: "u32 \<Rightarrow> u32 \<Rightarrow> u32" where
  "wdt_counts pclk_wdt timeout =
     ucast ((ucast pclk_wdt * ucast timeout div 4) div ucast WDT_US_INDEX :: u64)"

text \<open>
  With the peripheral clock the smallest divider whose count is large enough is chosen; the
  divider goes to \<open>CLKPWR_SetPCLKDiv\<close> and is the second result.
\<close>

definition WDT_SetTimeOut :: "u32 \<Rightarrow> u32 \<Rightarrow> u32 \<Rightarrow> wdt \<Rightarrow> bool \<times> u32 option \<times> wdt" where
  "WDT_SetTimeOut SystemCoreClock clk_source timeout d =
     (if clk_source = WDT_CLKSRC_IRC then
        (let n = wdt_counts 4000000 timeout in
         if n \<ge> WDT_TIMEOUT_MIN then (True, None, d\<lparr>WDTC := n\<rparr>) else (False, None, d))
      else if clk_source = WDT_CLKSRC_PCLK then
        (let n4 = wdt_counts (SystemCoreClock div 4) timeout;
             n2 = wdt_counts (SystemCoreClock div 2) timeout;
             n1 = wdt_counts SystemCoreClock timeout in
         if n4 \<ge> WDT_TIMEOUT_MIN then (True, Some 4, d\<lparr>WDTC := n4\<rparr>)
         else if n2 \<ge> WDT_TIMEOUT_MIN then (True, Some 2, d\<lparr>WDTC := n2\<rparr>)
         else if n1 \<ge> WDT_TIMEOUT_MIN then (True, Some 1, d\<lparr>WDTC := n1\<rparr>)
         else (False, None, d))
      else if clk_source = WDT_CLKSRC_RTC then
        (let n = wdt_counts 32768 timeout in
         if n \<ge> WDT_TIMEOUT_MIN then (True, None, d\<lparr>WDTC := n\<rparr>) else (False, None, d))
      else (False, None, d))"

definition WDT_Feed :: "wdt \<Rightarrow> wdt" where
  "WDT_Feed d = d\<lparr>wdt_feeds := wdt_feeds d + 1\<rparr>"

definition WDT_Init :: "u32 \<Rightarrow> bool \<Rightarrow> wdt \<Rightarrow> wdt" where
  "WDT_Init ClkSrc reset_mode d =
     (let d = d\<lparr>WDCLKSEL := (WDCLKSEL d AND NOT WDT_WDCLKSEL_MASK) OR ClkSrc\<rparr> in
      if reset_mode then d\<lparr>WDMOD := WDMOD d OR WDT_WDMOD_WDRESET\<rparr> else d)"

definition WDT_Start :: "u32 \<Rightarrow> u32 \<Rightarrow> wdt \<Rightarrow> wdt" where
  "WDT_Start SystemCoreClock TimeOut d =
     (let d = snd (snd (WDT_SetTimeOut SystemCoreClock (WDCLKSEL d AND WDT_WDCLKSEL_MASK) TimeOut d))
      in WDT_Feed (d\<lparr>WDMOD := WDMOD d OR WDT_WDMOD_WDEN\<rparr>))"

definition WDT_ReadTimeOutFlag :: "wdt \<Rightarrow> bool" where
  "WDT_ReadTimeOutFlag d \<longleftrightarrow> drop_bit 2 (WDMOD d AND WDT_WDMOD_WDTOF) \<noteq> 0"

definition WDT_ClrTimeOutFlag :: "wdt \<Rightarrow> wdt" where
  "WDT_ClrTimeOutFlag d = d\<lparr>WDMOD := WDMOD d AND NOT WDT_WDMOD_WDTOF\<rparr>"

definition WDT_UpdateTimeOut :: "u32 \<Rightarrow> u32 \<Rightarrow> wdt \<Rightarrow> wdt" where
  "WDT_UpdateTimeOut SystemCoreClock TimeOut d =
     WDT_Feed (snd (snd (WDT_SetTimeOut SystemCoreClock (WDCLKSEL d AND WDT_WDCLKSEL_MASK) TimeOut d)))"

section \<open>The watchdog task\<close>

definition WDT_TIMEOUT :: u32 where "WDT_TIMEOUT = 2 * 1000000"
definition WDT_TICKS :: u32 where "WDT_TICKS = 2 * 1000 + 500"
definition NET_MAIN_BIT :: u32 where "NET_MAIN_BIT = push_bit 0 1"
definition TASK_BIT_ALL :: u32 where "TASK_BIT_ALL = NET_MAIN_BIT"
definition portTICK_PERIOD_MS :: u32 where "portTICK_PERIOD_MS = 1000 div 1000"

definition vWDTInit :: "u32 \<Rightarrow> wdt \<Rightarrow> wdt" where
  "vWDTInit SystemCoreClock d =
     (let d = (if WDT_ReadTimeOutFlag d then WDT_ClrTimeOutFlag d else d)
      in WDT_Start SystemCoreClock WDT_TIMEOUT (WDT_Init WDT_CLKSRC_IRC True d))"

text \<open>One round of the loop of \<open>vWDTFeed\<close>.\<close>

definition vWDTFeed_round :: "windows \<Rightarrow> u32 \<Rightarrow> u32 \<Rightarrow> wdt \<times> rtos \<Rightarrow> (wdt \<times> rtos) option" where
  "vWDTFeed_round w SystemCoreClock xEventGroup st =
     do {
       (uxBits, s) \<leftarrow> xEventGroupWaitBits w xEventGroup TASK_BIT_ALL True True (WDT_TICKS div portTICK_PERIOD_MS) (snd st);
       Some (if uxBits AND TASK_BIT_ALL = TASK_BIT_ALL then WDT_UpdateTimeOut SystemCoreClock WDT_TIMEOUT (fst st) else fst st, s)
     }"

section \<open>Start-up\<close>

definition configMINIMAL_STACK_SIZE :: u16 where "configMINIMAL_STACK_SIZE = 128"
definition tskIDLE_PRIORITY :: u32 where "tskIDLE_PRIORITY = 0"

definition xSemaphoreCreateBinary :: "rtos \<Rightarrow> (u32 \<times> rtos) option" where
  "xSemaphoreCreateBinary s = xQueueGenericCreate 1 0 3 s"

text \<open>Whether the scheduler was started, and the idle task.\<close>

definition vTaskStartScheduler :: "rtos \<Rightarrow> (u32 option \<times> rtos) option" where
  "vTaskStartScheduler s =
     do {
       (idle, s) \<leftarrow> xTaskCreate configMINIMAL_STACK_SIZE tskIDLE_PRIORITY s;
       Some (idle, if idle \<noteq> None then on_kern vTaskStartScheduler_run s else s)
     }"

text \<open>
  \<open>main\<close> after \<open>prvSetupHardware\<close>: the value it returns (\<open>None\<close>: the scheduler runs), and the
  handles it stores. \<open>debug\<close>: the build defines \<open>DEBUG\<close>.
\<close>

record app_handles =
  xSemaphore :: u32
  xEventGroup :: u32
  wdt_task :: "u32 option"
  net_task :: "u32 option"

definition app_main :: "bool \<Rightarrow> rtos \<Rightarrow> (int option \<times> app_handles \<times> rtos) option" where
  "app_main debug s =
     do {
       let h = \<lparr>xSemaphore = 0, xEventGroup = 0, wdt_task = None, net_task = None\<rparr>;
       (sem, s) \<leftarrow> xSemaphoreCreateBinary s;
       if sem = 0 then Some (Some (-1), h, s)
       else do {
         let h = h\<lparr>xSemaphore := sem\<rparr>;
         (eg, s) \<leftarrow> xEventGroupCreate s;
         if eg = 0 then Some (Some (-1), h, s)
         else do {
           let h = h\<lparr>xEventGroup := eg\<rparr>;
           (_, s) \<leftarrow> (if debug then xTaskCreate (configMINIMAL_STACK_SIZE * 2) (tskIDLE_PRIORITY + 2) s else Some (None, s));
           (wdt, s) \<leftarrow> xTaskCreate (configMINIMAL_STACK_SIZE * 2) (tskIDLE_PRIORITY + 3) s;
           (net, s) \<leftarrow> xTaskCreate configMINIMAL_STACK_SIZE (tskIDLE_PRIORITY + 2) s;
           (idle, s) \<leftarrow> vTaskStartScheduler s;
           Some (if idle = None then Some 0 else None, h\<lparr>wdt_task := wdt, net_task := net\<rparr>, s)
         }
       }
     }"

end
