(* ===== verification/App_Main_Properties.thy ===== *)
theory App_Main_Properties
  imports App_Main Event_Group_Properties
begin

text \<open>
  The watchdog: how it is armed, which time-outs the driver accepts and how they count, and that
  the watchdog task feeds it when, and only when, the network daemon has reported.
\<close>

section \<open>The time-out\<close>

lemma unat_mult_u64: "unat a * unat b < 2 ^ 64 \<Longrightarrow> unat (a * b :: u64) = unat a * unat b"
  by (simp add: unat_word_ariths)

lemma unat_ucast_u64 [simp]: "unat (ucast (a :: u32) :: u64) = unat a"
  using unat_less_u32 [of a] by (simp add: unsigned_ucast_eq take_bit_eq_mod)

lemma unat_product_u64: "unat (ucast (a :: u32) * ucast (b :: u32) :: u64) = unat a * unat b"
proof -
  have "unat a * unat b < 2 ^ 32 * 2 ^ 32"
    using unat_less_u32 [of a] unat_less_u32 [of b] by (intro mult_strict_mono) auto
  then show ?thesis by (subst unat_mult_u64) simp_all
qed

text \<open>The count is the time-out in units of four clock cycles, rounded down, in 32 bits.\<close>

lemma wdt_counts_exact: "unat (wdt_counts p t) = unat p * unat t div 4000000 mod 2 ^ 32"
proof -
  have "unat ((ucast p * ucast t div 4) div ucast WDT_US_INDEX :: u64) = unat p * unat t div 4 div 1000000"
    by (simp add: unat_div unat_product_u64 WDT_US_INDEX_def)
  then show ?thesis
    by (simp add: wdt_counts_def unsigned_ucast_eq take_bit_eq_mod div_mult2_eq [symmetric])
qed

lemma irc_counts: "wdt_counts 4000000 t = t"
proof -
  have "unat (wdt_counts 4000000 t) = unat t" using unat_less_u32 [of t] by (simp add: wdt_counts_exact)
  then show ?thesis by simp
qed

text \<open>
  The watchdog is armed for exactly two seconds: after \<open>vWDTInit\<close> it runs from the internal
  oscillator, whose prescaled clock counts microseconds, its reload value is two million, it is
  enabled and resets the processor, the time-out flag of an earlier reset is cleared, and one
  feed has started it, whatever the registers were and whatever the processor clock is.
\<close>

theorem watchdog_armed:
  "WDTC (vWDTInit clk d) = 2000000 \<and> WDCLKSEL (vWDTInit clk d) AND WDT_WDCLKSEL_MASK = WDT_CLKSRC_IRC
    \<and> bit (WDMOD (vWDTInit clk d)) 0 \<and> bit (WDMOD (vWDTInit clk d)) 1 \<and> \<not> WDT_ReadTimeOutFlag (vWDTInit clk d)
    \<and> wdt_feeds (vWDTInit clk d) = wdt_feeds d + 1"
proof -
  have flag: "WDT_ReadTimeOutFlag x \<longleftrightarrow> bit (WDMOD x) 2" for x
  proof -
    have "drop_bit 2 (push_bit 2 1 :: u32) = 1" by simp
    then have "drop_bit 2 (w AND push_bit 2 1) = drop_bit 2 w AND 1" for w :: u32 by (simp only: drop_bit_and)
    then have "(drop_bit 2 (w AND push_bit 2 1) \<noteq> 0) = bit w 2" for w :: u32
      by (simp only: and_one_eq bit_iff_odd_drop_bit odd_iff_mod_2_eq_one) (metis even_iff_mod_2_eq_zero odd_iff_mod_2_eq_one zero_neq_one)
    then show ?thesis by (simp only: WDT_ReadTimeOutFlag_def WDT_WDMOD_WDTOF_def)
  qed
  let ?sel = "(WDCLKSEL d AND NOT WDT_WDCLKSEL_MASK) OR WDT_CLKSRC_IRC"
  define m where "m = (if bit (WDMOD d) 2 then WDMOD d AND NOT WDT_WDMOD_WDTOF else WDMOD d)"
  have sel: "?sel AND WDT_WDCLKSEL_MASK = WDT_CLKSRC_IRC"
    by (simp add: WDT_CLKSRC_IRC_def and.assoc)
  have "bit (push_bit q 1 :: u32) n \<longleftrightarrow> n = q" if "q < 32" for q n using that by (auto simp: bit_exp_iff)
  note p = this [of 0] this [of 1] this [of 2]
  have bits: "bit WDT_WDMOD_WDEN n \<longleftrightarrow> n = 0" "bit WDT_WDMOD_WDRESET n \<longleftrightarrow> n = 1" "bit WDT_WDMOD_WDTOF n \<longleftrightarrow> n = 2" for n
    unfolding WDT_WDMOD_WDEN_def WDT_WDMOD_WDRESET_def WDT_WDMOD_WDTOF_def by (rule p; simp)+
  have "\<not> bit m 2" by (simp add: m_def bit_and_iff bit_not_iff bits)
  moreover have "vWDTInit clk d = d\<lparr>WDMOD := (m OR WDT_WDMOD_WDRESET) OR WDT_WDMOD_WDEN, WDTC := 2000000, WDCLKSEL := ?sel,
      wdt_feeds := wdt_feeds d + 1\<rparr>"
    by (simp add: vWDTInit_def flag m_def WDT_Start_def WDT_Init_def WDT_Feed_def WDT_SetTimeOut_def WDT_ClrTimeOutFlag_def
        Let_def irc_counts sel WDT_TIMEOUT_def WDT_TIMEOUT_MIN_def)
  ultimately show ?thesis by (simp add: flag sel bit_or_iff bits)
qed

text \<open>
  C25. The watchdog task feeds the watchdog when the network daemon reports: it waits, the
  daemon's \<open>xEventGroupSetBits\<close> wakes it, it reloads and feeds the watchdog once with the same
  time-out, and the report is consumed, so that the next feed needs a new one.
\<close>

theorem watchdog_fed_when_daemon_reports:
  assumes "can_block idle c (kern s)" and "uxSchedulerSuspended (kern s) = 0" and "nothing_pending (kern s)"
    and "\<forall>t. container (kern s) (EventItem t) \<noteq> Some (TasksWaitingForBits a)"
    and "event_bits a s = 0" and "WDCLKSEL d AND WDT_WDCLKSEL_MASK = WDT_CLKSRC_IRC"
  shows "\<exists>s'. vWDTFeed_round (set_meanwhile a NET_MAIN_BIT c) clk a (d, s)
      = Some (d\<lparr>WDTC := 2000000, wdt_feeds := wdt_feeds d + 1\<rparr>, s') \<and> event_bits a s' = 0 \<and> ready (kern s') c"
proof -
  have e: "NET_MAIN_BIT AND eventEVENT_BITS_CONTROL_BYTES = 0" "TASK_BIT_ALL AND eventEVENT_BITS_CONTROL_BYTES = 0"
    "\<not> prvTestWaitCondition 0 TASK_BIT_ALL True" "prvTestWaitCondition (0 OR NET_MAIN_BIT) TASK_BIT_ALL True"
    "WDT_TICKS div portTICK_PERIOD_MS \<noteq> 0" "(0 OR NET_MAIN_BIT) AND NOT TASK_BIT_ALL = 0"
    "(0 OR NET_MAIN_BIT) AND TASK_BIT_ALL = TASK_BIT_ALL"
    by (simp_all add: NET_MAIN_BIT_def TASK_BIT_ALL_def control_defs prvTestWaitCondition_def WDT_TICKS_def portTICK_PERIOD_MS_def)
  obtain s' where w: "xEventGroupWaitBits (set_meanwhile a NET_MAIN_BIT c) a TASK_BIT_ALL True True (WDT_TICKS div portTICK_PERIOD_MS) s
      = Some (0 OR NET_MAIN_BIT, s')" "event_bits a s' = 0" "ready (kern s') c"
    using waiting_task_served [OF assms(1-4), of NET_MAIN_BIT TASK_BIT_ALL "WDT_TICKS div portTICK_PERIOD_MS" True True] e
    unfolding assms(5) by auto
  have "WDT_UpdateTimeOut clk WDT_TIMEOUT d = d\<lparr>WDTC := 2000000, wdt_feeds := wdt_feeds d + 1\<rparr>"
    using assms(6) by (simp add: WDT_UpdateTimeOut_def WDT_SetTimeOut_def WDT_Feed_def irc_counts WDT_TIMEOUT_def WDT_TIMEOUT_MIN_def Let_def)
  then show ?thesis using w e(7) by (auto simp: vWDTFeed_round_def)
qed

theorem watchdog_fed_when_daemon_reports_witness:
  "\<exists>s'. vWDTFeed_round (set_meanwhile 7 NET_MAIN_BIT 2) 100000000 7
      (\<lparr>WDMOD = 3, WDTC = 2000000, WDCLKSEL = 0, wdt_feeds = 1\<rparr>, rtos0\<lparr>kern := demo\<rparr>)
    = Some (\<lparr>WDMOD = 3, WDTC = 2000000, WDCLKSEL = 0, wdt_feeds = 2\<rparr>, s')"
proof -
  have "container demo i \<noteq> Some (TasksWaitingForBits 7)" for i
    using demo_kinv demo_waiting(3) ends.items_empty [OF kinvD(1)] by blast
  then show ?thesis
    using watchdog_fed_when_daemon_reports [of 0 2 "rtos0\<lparr>kern := demo\<rparr>" 7 "\<lparr>WDMOD = 3, WDTC = 2000000, WDCLKSEL = 0, wdt_feeds = 1\<rparr>" 100000000]
      demo_can_block demo_state(4) demo_nothing_pending
    by (auto simp: WDT_WDCLKSEL_MASK_def WDT_CLKSRC_IRC_def)
qed

end
