(* ===== verification/Pbuf.thy ===== *)
theory Pbuf
  imports Memory "HOL-Library.Monad_Syntax"
begin

text \<open>
  The packet buffers of \<open>lwip/core/pbuf.c\<close> with the allocation under them (\<open>mem.c\<close>, \<open>memp.c\<close> in
  the configuration \<open>MEM_LIBC_MALLOC\<close> and \<open>MEMP_MEM_MALLOC\<close>). The headers \<open>struct pbuf\<close> are a map
  from addresses, payload is bytes of memory. \<open>malloc\<close> of the C library is the parameter \<open>malloc\<close>:
  its result may depend on how often it was called, the size and the blocks in use. The result
  \<open>None\<close> is a fault (a null or dangling pointer is followed) or a loop that does not end.
  \<open>LWIP_NOASSERT\<close> is defined in \<open>lwipopts.h\<close>, so assertions are compiled out.
\<close>

section \<open>Error codes\<close>

datatype err_t = ERR_OK | ERR_MEM | ERR_BUF | ERR_TIMEOUT | ERR_RTE | ERR_INPROGRESS | ERR_VAL
  | ERR_WOULDBLOCK | ERR_USE | ERR_ALREADY | ERR_ISCONN | ERR_CONN | ERR_IF | ERR_ABRT | ERR_RST | ERR_CLSD | ERR_ARG

fun err_code :: "err_t \<Rightarrow> int" where
  "err_code ERR_OK = 0"
| "err_code ERR_MEM = -1"
| "err_code ERR_BUF = -2"
| "err_code ERR_TIMEOUT = -3"
| "err_code ERR_RTE = -4"
| "err_code ERR_INPROGRESS = -5"
| "err_code ERR_VAL = -6"
| "err_code ERR_WOULDBLOCK = -7"
| "err_code ERR_USE = -8"
| "err_code ERR_ALREADY = -9"
| "err_code ERR_ISCONN = -10"
| "err_code ERR_CONN = -11"
| "err_code ERR_IF = -12"
| "err_code ERR_ABRT = -13"
| "err_code ERR_RST = -14"
| "err_code ERR_CLSD = -15"
| "err_code ERR_ARG = -16"

lemma err_code_inject [simp]: "err_code a = err_code b \<longleftrightarrow> a = b"
  by (cases a; cases b) simp_all

text \<open>Error codes are ordered by their numbers: an error is less than \<open>ERR_OK\<close>.\<close>

instantiation err_t :: linorder
begin

definition less_eq_err_t :: "err_t \<Rightarrow> err_t \<Rightarrow> bool" where "less_eq_err_t a b \<longleftrightarrow> err_code a \<le> err_code b"
definition less_err_t :: "err_t \<Rightarrow> err_t \<Rightarrow> bool" where "less_err_t a b \<longleftrightarrow> err_code a < err_code b"

instance
proof
  fix x y :: err_t
  show "x < y \<longleftrightarrow> x \<le> y \<and> \<not> y \<le> x" by (auto simp: less_eq_err_t_def less_err_t_def)
  assume "x \<le> y" "y \<le> x"
  then have "err_code x = err_code y" by (simp add: less_eq_err_t_def)
  then show "x = y" by simp
qed (auto simp: less_eq_err_t_def)

end

lemma err_least: "e \<le> ERR_OK"
  by (cases e) (simp_all add: less_eq_err_t_def)

section \<open>State\<close>

record pbuf =
  p_next :: u32
  payload :: u32
  tot_len :: u16
  p_len :: u16
  type_internal :: u8
  p_flags :: u8
  p_ref :: u8
  if_idx :: u8

text \<open>\<open>live\<close>: the blocks that \<open>malloc\<close> gave out and that are not freed, with their sizes.\<close>

record lwip =
  pbufs :: "u32 \<Rightarrow> pbuf option"
  bytes :: "u32 \<Rightarrow> u8"
  live :: "(u32 \<times> u32) list"
  mallocs :: nat

definition upd_pb :: "u32 \<Rightarrow> (pbuf \<Rightarrow> pbuf) \<Rightarrow> lwip \<Rightarrow> lwip" where
  "upd_pb p f s = s\<lparr>pbufs := (pbufs s)(p := map_option f (pbufs s p))\<rparr>"

definition put_bytes :: "((u32 \<Rightarrow> u8) \<Rightarrow> u32 \<Rightarrow> u8) \<Rightarrow> lwip \<Rightarrow> lwip" where
  "put_bytes f s = s\<lparr>bytes := f (bytes s)\<rparr>"

section \<open>Allocation\<close>

type_synonym libc_malloc = "nat \<Rightarrow> u32 \<Rightarrow> (u32 \<times> u32) list \<Rightarrow> u32"

definition MEM_ALIGNMENT :: u32 where "MEM_ALIGNMENT = 4"

definition LWIP_MEM_ALIGN_SIZE :: "u32 \<Rightarrow> u32" where
  "LWIP_MEM_ALIGN_SIZE n = (n + MEM_ALIGNMENT - 1) AND NOT (MEM_ALIGNMENT - 1)"

definition LWIP_MEM_ALIGN :: "u32 \<Rightarrow> u32" where
  "LWIP_MEM_ALIGN a = (a + MEM_ALIGNMENT - 1) AND NOT (MEM_ALIGNMENT - 1)"

text \<open>\<open>sizeof( struct pbuf )\<close> is 16: two pointers, two half words and four bytes.\<close>

definition SIZEOF_STRUCT_PBUF :: u32 where "SIZEOF_STRUCT_PBUF = LWIP_MEM_ALIGN_SIZE 16"
definition TCP_MSS :: u32 where "TCP_MSS = 536"
definition PBUF_LINK_HLEN :: u32 where "PBUF_LINK_HLEN = 14"
definition PBUF_POOL_BUFSIZE_ALIGNED :: u32 where
  "PBUF_POOL_BUFSIZE_ALIGNED = LWIP_MEM_ALIGN_SIZE (LWIP_MEM_ALIGN_SIZE (TCP_MSS + 40 + PBUF_LINK_HLEN))"

definition mem_malloc :: "libc_malloc \<Rightarrow> u32 \<Rightarrow> lwip \<Rightarrow> u32 \<times> lwip" where
  "mem_malloc malloc n s =
     (let ret = malloc (mallocs s) n (live s); s = s\<lparr>mallocs := mallocs s + 1\<rparr> in
      if ret = 0 then (0, s) else (ret, s\<lparr>live := (ret, n) # live s\<rparr>))"

text \<open>\<open>free\<close> of a null pointer does nothing, of anything but a live block it is undefined.\<close>

definition mem_free :: "u32 \<Rightarrow> lwip \<Rightarrow> lwip option" where
  "mem_free rmem s =
     (if rmem = 0 then Some s
      else if rmem \<in> set (map fst (live s))
           then Some (s\<lparr>live := filter (\<lambda>b. fst b \<noteq> rmem) (live s), pbufs := (pbufs s)(rmem := None)\<rparr>)
      else None)"

text \<open>Nothing is trimmed with the C library's allocator.\<close>

definition mem_trim :: "u32 \<Rightarrow> u32 \<Rightarrow> u32" where
  "mem_trim rmem newsize = rmem"

datatype memp_t = MEMP_PBUF | MEMP_PBUF_POOL

fun memp_size :: "memp_t \<Rightarrow> u32" where
  "memp_size MEMP_PBUF = 16"
| "memp_size MEMP_PBUF_POOL = LWIP_MEM_ALIGN_SIZE 16 + PBUF_POOL_BUFSIZE_ALIGNED"

definition memp_malloc :: "libc_malloc \<Rightarrow> memp_t \<Rightarrow> lwip \<Rightarrow> u32 \<times> lwip" where
  "memp_malloc malloc t s = mem_malloc malloc (LWIP_MEM_ALIGN_SIZE (memp_size t)) s"

definition memp_free :: "memp_t \<Rightarrow> u32 \<Rightarrow> lwip \<Rightarrow> lwip option" where
  "memp_free t mem s = (if mem = 0 then Some s else mem_free mem s)"

section \<open>Types and layers\<close>

datatype pbuf_layer = PBUF_TRANSPORT | PBUF_IP | PBUF_LINK | PBUF_RAW_TX | PBUF_RAW

fun layer_offset :: "pbuf_layer \<Rightarrow> u16" where
  "layer_offset PBUF_TRANSPORT = 14 + 20 + 20"
| "layer_offset PBUF_IP = 14 + 20"
| "layer_offset PBUF_LINK = 14"
| "layer_offset PBUF_RAW_TX = 0"
| "layer_offset PBUF_RAW = 0"

datatype pbuf_type = PBUF_RAM | PBUF_ROM | PBUF_REF | PBUF_POOL

definition PBUF_TYPE_FLAG_STRUCT_DATA_CONTIGUOUS :: u16 where "PBUF_TYPE_FLAG_STRUCT_DATA_CONTIGUOUS = 0x80"
definition PBUF_TYPE_FLAG_DATA_VOLATILE :: u16 where "PBUF_TYPE_FLAG_DATA_VOLATILE = 0x40"
definition PBUF_TYPE_ALLOC_SRC_MASK :: u8 where "PBUF_TYPE_ALLOC_SRC_MASK = 0x0F"
definition PBUF_ALLOC_FLAG_RX :: u16 where "PBUF_ALLOC_FLAG_RX = 0x0100"
definition PBUF_ALLOC_FLAG_DATA_CONTIGUOUS :: u16 where "PBUF_ALLOC_FLAG_DATA_CONTIGUOUS = 0x0200"

fun type_code :: "pbuf_type \<Rightarrow> u16" where
  "type_code PBUF_RAM = PBUF_ALLOC_FLAG_DATA_CONTIGUOUS OR PBUF_TYPE_FLAG_STRUCT_DATA_CONTIGUOUS OR 0"
| "type_code PBUF_ROM = 1"
| "type_code PBUF_REF = PBUF_TYPE_FLAG_DATA_VOLATILE OR 1"
| "type_code PBUF_POOL = PBUF_ALLOC_FLAG_RX OR PBUF_TYPE_FLAG_STRUCT_DATA_CONTIGUOUS OR 2"

definition pbuf_get_allocsrc :: "pbuf \<Rightarrow> u8" where
  "pbuf_get_allocsrc b = type_internal b AND PBUF_TYPE_ALLOC_SRC_MASK"

definition pbuf_init_alloced_pbuf :: "u32 \<Rightarrow> u32 \<Rightarrow> u16 \<Rightarrow> u16 \<Rightarrow> pbuf_type \<Rightarrow> u8 \<Rightarrow> lwip \<Rightarrow> lwip" where
  "pbuf_init_alloced_pbuf p pl tot l t fl s =
     s\<lparr>pbufs := (pbufs s)(p \<mapsto> \<lparr>p_next = 0, payload = pl, tot_len = tot, p_len = l,
         type_internal = ucast (type_code t), p_flags = fl, p_ref = 1, if_idx = 0\<rparr>)\<rparr>"

section \<open>Freeing\<close>

text \<open>What \<open>pbuf_free\<close> does with a pbuf without references; an unknown source is left alone.\<close>

definition pbuf_dealloc :: "u32 \<Rightarrow> pbuf \<Rightarrow> lwip \<Rightarrow> lwip option" where
  "pbuf_dealloc p b s =
     (let alloc_src = pbuf_get_allocsrc b in
      if alloc_src = 2 then memp_free MEMP_PBUF_POOL p s
      else if alloc_src = 1 then memp_free MEMP_PBUF p s
      else if alloc_src = 0 then mem_free p s
      else Some s)"

partial_function (option) pbuf_free_loop :: "u8 \<Rightarrow> u32 \<Rightarrow> lwip \<Rightarrow> (u8 \<times> lwip) option" where
  "pbuf_free_loop count p s =
     (if p = 0 then Some (count, s)
      else do {
        b \<leftarrow> pbufs s p;
        let r = p_ref b - 1;
        let s = upd_pb p (p_ref_update (\<lambda>_. r)) s;
        if r = 0 then do { s \<leftarrow> pbuf_dealloc p b s; pbuf_free_loop (count + 1) (p_next b) s }
        else Some (count, s)
      })"

definition pbuf_free :: "u32 \<Rightarrow> lwip \<Rightarrow> (u8 \<times> lwip) option" where
  "pbuf_free p s = pbuf_free_loop 0 p s"

section \<open>Allocating\<close>

definition pbuf_alloc_reference :: "libc_malloc \<Rightarrow> u32 \<Rightarrow> u16 \<Rightarrow> pbuf_type \<Rightarrow> lwip \<Rightarrow> u32 \<times> lwip" where
  "pbuf_alloc_reference malloc pl l t s =
     (let (p, s) = memp_malloc malloc MEMP_PBUF s in
      if p = 0 then (0, s) else (p, pbuf_init_alloced_pbuf p pl l l t 0 s))"

text \<open>The loop of the pool case; \<open>p\<close> is the head so far, 0 at the start, \<open>prev\<close> the last pbuf.\<close>

partial_function (option) pool_loop ::
  "libc_malloc \<Rightarrow> u16 \<Rightarrow> u16 \<Rightarrow> u32 \<Rightarrow> u32 \<Rightarrow> lwip \<Rightarrow> (u32 \<times> lwip) option" where
  "pool_loop malloc offset rem_len p prev s =
     (let q = fst (memp_malloc malloc MEMP_PBUF_POOL s); s = snd (memp_malloc malloc MEMP_PBUF_POOL s) in
      if q = 0 then (if p \<noteq> 0 then do { f \<leftarrow> pbuf_free p s; Some (0, snd f) } else Some (0, s))
      else
        (let qlen = min rem_len (ucast (PBUF_POOL_BUFSIZE_ALIGNED - LWIP_MEM_ALIGN_SIZE (ucast offset)));
             s = pbuf_init_alloced_pbuf q (LWIP_MEM_ALIGN (q + SIZEOF_STRUCT_PBUF + ucast offset)) rem_len qlen PBUF_POOL 0 s;
             s = (if p = 0 then s else upd_pb prev (p_next_update (\<lambda>_. q)) s);
             p = (if p = 0 then q else p);
             rem_len = rem_len - qlen
         in if rem_len > 0 then pool_loop malloc 0 rem_len p q s else Some (p, s)))"

definition pbuf_alloc :: "libc_malloc \<Rightarrow> pbuf_layer \<Rightarrow> u16 \<Rightarrow> pbuf_type \<Rightarrow> lwip \<Rightarrow> (u32 \<times> lwip) option" where
  "pbuf_alloc malloc layer l t s =
     (let offset = layer_offset layer in
      case t of
        PBUF_REF \<Rightarrow> Some (pbuf_alloc_reference malloc 0 l t s)
      | PBUF_ROM \<Rightarrow> Some (pbuf_alloc_reference malloc 0 l t s)
      | PBUF_POOL \<Rightarrow> pool_loop malloc offset l 0 0 s
      | PBUF_RAM \<Rightarrow>
          (let payload_len = ucast (LWIP_MEM_ALIGN_SIZE (ucast offset) + LWIP_MEM_ALIGN_SIZE (ucast l)) :: u16;
               alloc_len = LWIP_MEM_ALIGN_SIZE SIZEOF_STRUCT_PBUF + ucast payload_len
           in if ucast payload_len < LWIP_MEM_ALIGN_SIZE (ucast l) \<or> alloc_len < LWIP_MEM_ALIGN_SIZE (ucast l) then Some (0, s)
              else (let (p, s) = mem_malloc malloc alloc_len s in
                    if p = 0 then Some (0, s)
                    else Some (p, pbuf_init_alloced_pbuf p (LWIP_MEM_ALIGN (p + SIZEOF_STRUCT_PBUF + ucast offset)) l l t 0 s))))"

section \<open>Shrinking and headers\<close>

text \<open>The loop of \<open>pbuf_realloc\<close>: the new last pbuf and the length it keeps.\<close>

partial_function (option) realloc_walk :: "u32 \<Rightarrow> u16 \<Rightarrow> u16 \<Rightarrow> lwip \<Rightarrow> (u32 \<times> u16 \<times> lwip) option" where
  "realloc_walk q rem_len shrink s =
     do {
       b \<leftarrow> pbufs s q;
       if rem_len > p_len b
       then realloc_walk (p_next b) (rem_len - p_len b) shrink (upd_pb q (tot_len_update (\<lambda>n. n - shrink)) s)
       else Some (q, rem_len, s)
     }"

definition pbuf_realloc :: "u32 \<Rightarrow> u16 \<Rightarrow> lwip \<Rightarrow> lwip option" where
  "pbuf_realloc p new_len s =
     do {
       b \<leftarrow> pbufs s p;
       if new_len \<ge> tot_len b then Some s
       else do {
         (q, rem_len, s) \<leftarrow> realloc_walk p new_len (tot_len b - new_len) s;
         b \<leftarrow> pbufs s q;
         let q = (if pbuf_get_allocsrc b = 0 \<and> rem_len \<noteq> p_len b then mem_trim q ((payload b - q) + ucast rem_len) else q);
         let s = upd_pb q (\<lambda>b. b\<lparr>p_len := rem_len, tot_len := rem_len\<rparr>) s;
         s \<leftarrow> (if p_next b \<noteq> 0 then do { f \<leftarrow> pbuf_free (p_next b) s; Some (snd f) } else Some s);
         Some (upd_pb q (p_next_update (\<lambda>_. 0)) s)
       }
     }"

text \<open>The result 1 is failure.\<close>

definition pbuf_add_header_impl :: "u32 \<Rightarrow> u32 \<Rightarrow> bool \<Rightarrow> lwip \<Rightarrow> (u8 \<times> lwip) option" where
  "pbuf_add_header_impl p header_size_increment force s =
     (if p = 0 \<or> header_size_increment > 0xFFFF then Some (1, s)
      else if header_size_increment = 0 then Some (0, s)
      else do {
        b \<leftarrow> pbufs s p;
        let increment_magnitude = (ucast header_size_increment :: u16);
        let pl = payload b - header_size_increment;
        if increment_magnitude + tot_len b < increment_magnitude then Some (1, s)
        else if (if ucast (type_internal b) AND PBUF_TYPE_FLAG_STRUCT_DATA_CONTIGUOUS \<noteq> 0 then pl < p + SIZEOF_STRUCT_PBUF
                 else \<not> force) then Some (1, s)
        else Some (0, upd_pb p (\<lambda>b. b\<lparr>payload := pl, p_len := p_len b + increment_magnitude,
               tot_len := tot_len b + increment_magnitude\<rparr>) s)
      })"

definition pbuf_add_header :: "u32 \<Rightarrow> u32 \<Rightarrow> lwip \<Rightarrow> (u8 \<times> lwip) option" where
  "pbuf_add_header p n s = pbuf_add_header_impl p n False s"

definition pbuf_add_header_force :: "u32 \<Rightarrow> u32 \<Rightarrow> lwip \<Rightarrow> (u8 \<times> lwip) option" where
  "pbuf_add_header_force p n s = pbuf_add_header_impl p n True s"

definition pbuf_remove_header :: "u32 \<Rightarrow> u32 \<Rightarrow> lwip \<Rightarrow> (u8 \<times> lwip) option" where
  "pbuf_remove_header p header_size_decrement s =
     (if p = 0 \<or> header_size_decrement > 0xFFFF then Some (1, s)
      else if header_size_decrement = 0 then Some (0, s)
      else do {
        b \<leftarrow> pbufs s p;
        let increment_magnitude = (ucast header_size_decrement :: u16);
        if \<not> increment_magnitude \<le> p_len b then Some (1, s)
        else Some (0, upd_pb p (\<lambda>b. b\<lparr>payload := payload b + header_size_decrement, p_len := p_len b - increment_magnitude,
               tot_len := tot_len b - increment_magnitude\<rparr>) s)
      })"

text \<open>The increment is an \<open>s16_t\<close>.\<close>

definition pbuf_header_impl :: "u32 \<Rightarrow> u16 \<Rightarrow> bool \<Rightarrow> lwip \<Rightarrow> (u8 \<times> lwip) option" where
  "pbuf_header_impl p header_size_increment force s =
     (if sint header_size_increment < 0 then pbuf_remove_header p (of_int (- sint header_size_increment)) s
      else pbuf_add_header_impl p (of_int (sint header_size_increment)) force s)"

definition pbuf_header :: "u32 \<Rightarrow> u16 \<Rightarrow> lwip \<Rightarrow> (u8 \<times> lwip) option" where
  "pbuf_header p n s = pbuf_header_impl p n False s"

definition pbuf_header_force :: "u32 \<Rightarrow> u16 \<Rightarrow> lwip \<Rightarrow> (u8 \<times> lwip) option" where
  "pbuf_header_force p n s = pbuf_header_impl p n True s"

partial_function (option) pbuf_free_header :: "u32 \<Rightarrow> u16 \<Rightarrow> lwip \<Rightarrow> (u32 \<times> lwip) option" where
  "pbuf_free_header p free_left s =
     (if free_left \<noteq> 0 \<and> p \<noteq> 0 then
        do {
          b \<leftarrow> pbufs s p;
          if free_left \<ge> p_len b then
            do {
              f \<leftarrow> pbuf_free p (upd_pb p (p_next_update (\<lambda>_. 0)) s);
              pbuf_free_header (p_next b) (free_left - p_len b) (snd f)
            }
          else do { f \<leftarrow> pbuf_remove_header p (ucast free_left) s; pbuf_free_header p 0 (snd f) }
        }
      else Some (p, s))"

section \<open>Chains\<close>

partial_function (option) pbuf_clen_loop :: "u16 \<Rightarrow> u32 \<Rightarrow> lwip \<Rightarrow> u16 option" where
  "pbuf_clen_loop n p s = (if p = 0 then Some n else do { b \<leftarrow> pbufs s p; pbuf_clen_loop (n + 1) (p_next b) s })"

definition pbuf_clen :: "u32 \<Rightarrow> lwip \<Rightarrow> u16 option" where
  "pbuf_clen p s = pbuf_clen_loop 0 p s"

definition pbuf_ref :: "u32 \<Rightarrow> lwip \<Rightarrow> lwip option" where
  "pbuf_ref p s = (if p = 0 then Some s else do { b \<leftarrow> pbufs s p; Some (upd_pb p (p_ref_update (\<lambda>r. r + 1)) s) })"

partial_function (option) pbuf_cat_loop :: "u32 \<Rightarrow> u32 \<Rightarrow> lwip \<Rightarrow> lwip option" where
  "pbuf_cat_loop p t s =
     do {
       b \<leftarrow> pbufs s p;
       tb \<leftarrow> pbufs s t;
       let s = upd_pb p (tot_len_update (\<lambda>n. n + tot_len tb)) s;
       if p_next b \<noteq> 0 then pbuf_cat_loop (p_next b) t s else Some (upd_pb p (p_next_update (\<lambda>_. t)) s)
     }"

definition pbuf_cat :: "u32 \<Rightarrow> u32 \<Rightarrow> lwip \<Rightarrow> lwip option" where
  "pbuf_cat h t s = (if \<not> (h \<noteq> 0 \<and> t \<noteq> 0) then Some s else pbuf_cat_loop h t s)"

definition pbuf_chain :: "u32 \<Rightarrow> u32 \<Rightarrow> lwip \<Rightarrow> lwip option" where
  "pbuf_chain h t s = do { s \<leftarrow> pbuf_cat h t s; pbuf_ref t s }"

definition pbuf_dechain :: "u32 \<Rightarrow> lwip \<Rightarrow> (u32 \<times> lwip) option" where
  "pbuf_dechain p s =
     do {
       b \<leftarrow> pbufs s p;
       let q = p_next b;
       (tail_gone, s) \<leftarrow>
         (if q \<noteq> 0 then do {
            qb \<leftarrow> pbufs s q;
            let s = upd_pb q (tot_len_update (\<lambda>_. tot_len b - p_len b)) s;
            let s = upd_pb p (\<lambda>b. b\<lparr>p_next := 0, tot_len := p_len b\<rparr>) s;
            pbuf_free q s
          } else Some (1, s));
       Some (if tail_gone > 0 then 0 else q, s)
     }"

end
