(* ===== verification/Pbuf_Data.thy ===== *)
theory Pbuf_Data
  imports Pbuf
begin

text \<open>
  The functions of \<open>lwip/core/pbuf.c\<close> that read and write the payload of a chain: copies between
  chains and to and from memory, single bytes, comparison and search.
\<close>

section \<open>Copying between chains\<close>

text \<open>
  The loop of \<open>pbuf_copy\<close>. The offsets are \<open>size_t\<close>; \<open>c\<close> and \<open>d\<close> are the pbufs at the pointers
  after the step. A chain that goes on after its length is complete is a queue and is refused.
\<close>

definition queue_continues :: "u32 \<Rightarrow> lwip \<Rightarrow> bool option" where
  "queue_continues p s =
     (if p = 0 then Some False else do { b \<leftarrow> pbufs s p; Some (p_len b = tot_len b \<and> p_next b \<noteq> 0) })"

partial_function (option) pbuf_copy_loop :: "u32 \<Rightarrow> u32 \<Rightarrow> u32 \<Rightarrow> u32 \<Rightarrow> lwip \<Rightarrow> (err_t \<times> lwip) option" where
  "pbuf_copy_loop p_to offset_to p_from offset_from s =
     do {
       t \<leftarrow> pbufs s p_to;
       f \<leftarrow> pbufs s p_from;
       let n = (if ucast (p_len t) - offset_to \<ge> ucast (p_len f) - offset_from
                then ucast (p_len f) - offset_from else ucast (p_len t) - offset_to);
       let s = put_bytes (memcpy (payload t + offset_to) (payload f + offset_from) n) s;
       let offset_to = offset_to + n;
       let offset_from = offset_from + n;
       let p_from = (if offset_from \<ge> ucast (p_len f) then p_next f else p_from);
       let offset_from = (if offset_from \<ge> ucast (p_len f) then 0 else offset_from);
       let to_done = (offset_to = ucast (p_len t));
       let offset_to = (if to_done then 0 else offset_to);
       let p_to = (if to_done then p_next t else p_to);
       if to_done \<and> \<not> (p_to \<noteq> 0 \<or> p_from = 0) then Some (ERR_ARG, s)
       else do {
         from_queue \<leftarrow> queue_continues p_from s;
         if from_queue then Some (ERR_VAL, s)
         else do {
           to_queue \<leftarrow> queue_continues p_to s;
           if to_queue then Some (ERR_VAL, s)
           else if p_from \<noteq> 0 then pbuf_copy_loop p_to offset_to p_from offset_from s
           else Some (ERR_OK, s)
         }
       }
     }"

definition pbuf_copy :: "u32 \<Rightarrow> u32 \<Rightarrow> lwip \<Rightarrow> (err_t \<times> lwip) option" where
  "pbuf_copy p_to p_from s =
     (if p_to = 0 \<or> p_from = 0 then Some (ERR_ARG, s)
      else do {
        t \<leftarrow> pbufs s p_to;
        f \<leftarrow> pbufs s p_from;
        if \<not> tot_len t \<ge> tot_len f then Some (ERR_ARG, s) else pbuf_copy_loop p_to 0 p_from 0 s
      })"

definition pbuf_clone :: "libc_malloc \<Rightarrow> pbuf_layer \<Rightarrow> pbuf_type \<Rightarrow> u32 \<Rightarrow> lwip \<Rightarrow> (u32 \<times> lwip) option" where
  "pbuf_clone malloc layer t p s =
     do {
       b \<leftarrow> pbufs s p;
       (q, s) \<leftarrow> pbuf_alloc malloc layer (tot_len b) t s;
       if q = 0 then Some (0, s) else do { (_, s) \<leftarrow> pbuf_copy q p s; Some (q, s) }
     }"

definition pbuf_coalesce :: "libc_malloc \<Rightarrow> u32 \<Rightarrow> pbuf_layer \<Rightarrow> lwip \<Rightarrow> (u32 \<times> lwip) option" where
  "pbuf_coalesce malloc p layer s =
     do {
       b \<leftarrow> pbufs s p;
       if p_next b = 0 then Some (p, s)
       else do {
         (q, s) \<leftarrow> pbuf_clone malloc layer PBUF_RAM p s;
         if q = 0 then Some (p, s) else do { (_, s) \<leftarrow> pbuf_free p s; Some (q, s) }
       }
     }"

section \<open>Copying to and from memory\<close>

partial_function (option) copy_partial_loop ::
  "u32 \<Rightarrow> u32 \<Rightarrow> u16 \<Rightarrow> u16 \<Rightarrow> u16 \<Rightarrow> u16 \<Rightarrow> lwip \<Rightarrow> (u16 \<times> lwip) option" where
  "copy_partial_loop p dataptr left n offset copied_total s =
     (if n \<noteq> 0 \<and> p \<noteq> 0 then
        do {
          b \<leftarrow> pbufs s p;
          if offset \<noteq> 0 \<and> offset \<ge> p_len b then copy_partial_loop (p_next b) dataptr left n (offset - p_len b) copied_total s
          else
            (let buf_copy_len = min (p_len b - offset) n in
             copy_partial_loop (p_next b) dataptr (left + buf_copy_len) (n - buf_copy_len) 0 (copied_total + buf_copy_len)
               (put_bytes (memcpy (dataptr + ucast left) (payload b + ucast offset) (ucast buf_copy_len)) s))
        }
      else Some (copied_total, s))"

definition pbuf_copy_partial :: "u32 \<Rightarrow> u32 \<Rightarrow> u16 \<Rightarrow> u16 \<Rightarrow> lwip \<Rightarrow> (u16 \<times> lwip) option" where
  "pbuf_copy_partial buf dataptr n offset s =
     (if buf = 0 then Some (0, s) else if dataptr = 0 then Some (0, s)
      else copy_partial_loop buf dataptr 0 n offset 0 s)"

partial_function (option) pbuf_skip_const :: "u32 \<Rightarrow> u16 \<Rightarrow> lwip \<Rightarrow> (u32 \<times> u16) option" where
  "pbuf_skip_const q offset_left s =
     (if q = 0 then Some (0, offset_left)
      else do {
        b \<leftarrow> pbufs s q;
        if p_len b \<le> offset_left then pbuf_skip_const (p_next b) (offset_left - p_len b) s else Some (q, offset_left)
      })"

definition pbuf_skip :: "u32 \<Rightarrow> u16 \<Rightarrow> lwip \<Rightarrow> (u32 \<times> u16) option" where
  "pbuf_skip p in_offset s = pbuf_skip_const p in_offset s"

text \<open>The result is an address in the chain or of the buffer, or 0.\<close>

definition pbuf_get_contiguous :: "u32 \<Rightarrow> u32 \<Rightarrow> u32 \<Rightarrow> u16 \<Rightarrow> u16 \<Rightarrow> lwip \<Rightarrow> (u32 \<times> lwip) option" where
  "pbuf_get_contiguous p buffer bufsize n offset s =
     (if p = 0 \<or> buffer = 0 \<or> \<not> bufsize \<ge> ucast n then Some (0, s)
      else do {
        (q, out_offset) \<leftarrow> pbuf_skip_const p offset s;
        if q \<noteq> 0 then do {
          b \<leftarrow> pbufs s q;
          if unat (p_len b) \<ge> unat out_offset + unat n then Some (payload b + ucast out_offset, s)
          else do {
            (copied, s) \<leftarrow> pbuf_copy_partial q buffer n out_offset s;
            Some (if copied \<noteq> n then 0 else buffer, s)
          }
        } else Some (0, s)
      })"

partial_function (option) pbuf_take_loop :: "u32 \<Rightarrow> u32 \<Rightarrow> u32 \<Rightarrow> u32 \<Rightarrow> lwip \<Rightarrow> lwip option" where
  "pbuf_take_loop p dataptr total_copy_len copied_total s =
     (if total_copy_len \<noteq> 0 then
        do {
          b \<leftarrow> pbufs s p;
          let buf_copy_len = (if total_copy_len > ucast (p_len b) then ucast (p_len b) else total_copy_len);
          pbuf_take_loop (p_next b) dataptr (total_copy_len - buf_copy_len) (copied_total + buf_copy_len)
            (put_bytes (memcpy (payload b) (dataptr + copied_total) buf_copy_len) s)
        }
      else Some s)"

definition pbuf_take :: "u32 \<Rightarrow> u32 \<Rightarrow> u16 \<Rightarrow> lwip \<Rightarrow> (err_t \<times> lwip) option" where
  "pbuf_take buf dataptr n s =
     (if buf = 0 then Some (ERR_ARG, s) else if dataptr = 0 then Some (ERR_ARG, s)
      else do {
        b \<leftarrow> pbufs s buf;
        if \<not> tot_len b \<ge> n then Some (ERR_MEM, s)
        else do { s \<leftarrow> pbuf_take_loop buf dataptr (ucast n) 0 s; Some (ERR_OK, s) }
      })"

definition pbuf_take_at :: "u32 \<Rightarrow> u32 \<Rightarrow> u16 \<Rightarrow> u16 \<Rightarrow> lwip \<Rightarrow> (err_t \<times> lwip) option" where
  "pbuf_take_at buf dataptr n offset s =
     do {
       (q, target_offset) \<leftarrow> pbuf_skip buf offset s;
       if q = 0 then Some (ERR_MEM, s)
       else do {
         b \<leftarrow> pbufs s q;
         if unat (tot_len b) \<ge> unat target_offset + unat n then
           (let first_copy_len = min (p_len b - target_offset) n;
                s = put_bytes (memcpy (payload b + ucast target_offset) dataptr (ucast first_copy_len)) s;
                remaining_len = n - first_copy_len
            in if remaining_len > 0 then pbuf_take (p_next b) (dataptr + ucast first_copy_len) remaining_len s
               else Some (ERR_OK, s))
         else Some (ERR_MEM, s)
       }
     }"

section \<open>Bytes\<close>

definition pbuf_try_get_at :: "u32 \<Rightarrow> u16 \<Rightarrow> lwip \<Rightarrow> int option" where
  "pbuf_try_get_at p offset s =
     do {
       (q, q_idx) \<leftarrow> pbuf_skip_const p offset s;
       if q = 0 then Some (-1)
       else do { b \<leftarrow> pbufs s q; Some (if p_len b > q_idx then uint (bytes s (payload b + ucast q_idx)) else -1) }
     }"

definition pbuf_get_at :: "u32 \<Rightarrow> u16 \<Rightarrow> lwip \<Rightarrow> u8 option" where
  "pbuf_get_at p offset s = do { r \<leftarrow> pbuf_try_get_at p offset s; Some (if r \<ge> 0 then of_int r else 0) }"

definition pbuf_put_at :: "u32 \<Rightarrow> u16 \<Rightarrow> u8 \<Rightarrow> lwip \<Rightarrow> lwip option" where
  "pbuf_put_at p offset data s =
     do {
       (q, q_idx) \<leftarrow> pbuf_skip p offset s;
       if q = 0 then Some s
       else do { b \<leftarrow> pbufs s q; Some (if p_len b > q_idx then put_bytes (\<lambda>m. m(payload b + ucast q_idx := data)) s else s) }
     }"

section \<open>Comparing and searching\<close>

partial_function (option) memcmp_loop :: "u32 \<Rightarrow> u16 \<Rightarrow> u32 \<Rightarrow> u16 \<Rightarrow> u16 \<Rightarrow> lwip \<Rightarrow> u16 option" where
  "memcmp_loop q start s2 n i s =
     (if i < n then
        do {
          a \<leftarrow> pbuf_get_at q (start + i) s;
          if a \<noteq> bytes s (s2 + ucast i) then Some (if unat i + 1 < 0xFFFF then i + 1 else 0xFFFF)
          else memcmp_loop q start s2 n (i + 1) s
        }
      else Some 0)"

definition pbuf_memcmp :: "u32 \<Rightarrow> u16 \<Rightarrow> u32 \<Rightarrow> u16 \<Rightarrow> lwip \<Rightarrow> u16 option" where
  "pbuf_memcmp p offset s2 n s =
     do {
       b \<leftarrow> pbufs s p;
       if unat (tot_len b) < unat offset + unat n then Some 0xFFFF
       else do { (q, start) \<leftarrow> pbuf_skip_const p offset s; memcmp_loop q start s2 n 0 s }
     }"

partial_function (option) memfind_loop :: "u32 \<Rightarrow> u32 \<Rightarrow> u16 \<Rightarrow> u16 \<Rightarrow> u16 \<Rightarrow> lwip \<Rightarrow> u16 option" where
  "memfind_loop p mem mem_len max_cmp_start i s =
     (if i \<le> max_cmp_start then
        do {
          plus \<leftarrow> pbuf_memcmp p i mem mem_len s;
          if plus = 0 then Some i else memfind_loop p mem mem_len max_cmp_start (i + 1) s
        }
      else Some 0xFFFF)"

definition pbuf_memfind :: "u32 \<Rightarrow> u32 \<Rightarrow> u16 \<Rightarrow> u16 \<Rightarrow> lwip \<Rightarrow> u16 option" where
  "pbuf_memfind p mem mem_len start_offset s =
     do {
       b \<leftarrow> pbufs s p;
       if unat (tot_len b) \<ge> unat mem_len + unat start_offset
       then memfind_loop p mem mem_len (tot_len b - mem_len) start_offset s
       else Some 0xFFFF
     }"

text \<open>\<open>strlen\<close> on memory.\<close>

partial_function (option) strlen_at :: "u32 \<Rightarrow> u32 \<Rightarrow> (u32 \<Rightarrow> u8) \<Rightarrow> u32 option" where
  "strlen_at p n m = (if m (p + n) = 0 then Some n else strlen_at p (n + 1) m)"

definition pbuf_strstr :: "u32 \<Rightarrow> u32 \<Rightarrow> lwip \<Rightarrow> u16 option" where
  "pbuf_strstr p substr s =
     (if substr = 0 \<or> bytes s substr = 0 then Some 0xFFFF
      else do {
        b \<leftarrow> pbufs s p;
        if tot_len b = 0xFFFF then Some 0xFFFF
        else do {
          substr_len \<leftarrow> strlen_at substr 0 (bytes s);
          if substr_len \<ge> 0xFFFF then Some 0xFFFF else pbuf_memfind p substr (ucast substr_len) 0 s
        }
      })"

end
