(* ===== verification/Pbuf_Rep.thy ===== *)
theory Pbuf_Rep
  imports Pbuf_Data
begin

text \<open>
  What a chain of pbufs represents: the list of its pbufs, the bytes it holds in order, and the
  invariant of \<open>tot_len\<close>. The reading functions of \<open>pbuf.c\<close> in terms of the bytes.
\<close>

section \<open>Half words\<close>

lemma unat_less_u16: "unat (w :: u16) < 2 ^ 16"
proof -
  have "unat w < 2 ^ LENGTH(16)" by (rule unsigned_less)
  then show ?thesis by simp
qed

lemma unat_ucast_16_32 [simp]: "unat (ucast (w :: u16) :: u32) = unat w"
  using unat_less_u16 [of w] by (simp add: unsigned_ucast_eq take_bit_eq_mod)

lemma unat_add_u16: "unat a + unat b < 2 ^ 16 \<Longrightarrow> unat (a + b :: u16) = unat a + unat b"
  by (simp add: unat_word_ariths)

lemma unat_sub_u16: "b \<le> a \<Longrightarrow> unat (a - b :: u16) = unat a - unat b"
  by (rule unat_sub)

lemma ucast_add_u16: "unat a + unat b < 2 ^ 16 \<Longrightarrow> ucast (a + b :: u16) = (ucast a + ucast b :: u32)"
  using unat_add_u16 [of a b] by (intro word_unat_eq_iff [THEN iffD2]) (simp add: unat_word_ariths)

lemma ucast_of_nat_u16: "(ucast (w :: u16) :: u32) = of_nat (unat w)"
  by simp

lemma unat_of_nat_u16: "n < 2 ^ 16 \<Longrightarrow> unat (of_nat n :: u16) = n"
  by (simp add: unat_of_nat)

lemma word_pos_u16: "w \<noteq> 0 \<longleftrightarrow> 0 < unat (w :: u16)"
  by (simp add: unat_gt_0)

section \<open>Chains and their contents\<close>

fun pchain :: "lwip \<Rightarrow> u32 \<Rightarrow> u32 list \<Rightarrow> bool" where
  "pchain s p [] \<longleftrightarrow> p = 0"
| "pchain s p (q # qs) \<longleftrightarrow> p = q \<and> q \<noteq> 0 \<and> (\<exists>b. pbufs s q = Some b \<and> pchain s (p_next b) qs)"

definition area_len :: "lwip \<Rightarrow> u32 \<Rightarrow> nat" where
  "area_len s q = (case pbufs s q of None \<Rightarrow> 0 | Some b \<Rightarrow> unat (p_len b))"

definition pbuf_data :: "lwip \<Rightarrow> u32 \<Rightarrow> u8 list" where
  "pbuf_data s q = (case pbufs s q of None \<Rightarrow> [] | Some b \<Rightarrow> bytes_at (bytes s) (payload b) (ucast (p_len b)))"

definition content :: "lwip \<Rightarrow> u32 list \<Rightarrow> u8 list" where
  "content s qs = concat (map (pbuf_data s) qs)"

text \<open>The invariant of \<open>struct pbuf\<close>: \<open>tot_len\<close> is the length from this pbuf to the end of the chain.\<close>

fun totals :: "lwip \<Rightarrow> u32 list \<Rightarrow> bool" where
  "totals s [] \<longleftrightarrow> True"
| "totals s (q # qs) \<longleftrightarrow> (\<exists>b. pbufs s q = Some b \<and> unat (tot_len b) = length (content s (q # qs))) \<and> totals s qs"

definition packet :: "lwip \<Rightarrow> u32 \<Rightarrow> u32 list \<Rightarrow> bool" where
  "packet s p qs \<longleftrightarrow> pchain s p qs \<and> totals s qs \<and> qs \<noteq> []"

lemma content_simps [simp]: "content s [] = []" "content s (q # qs) = pbuf_data s q @ content s qs"
  "content s (qs @ rs) = content s qs @ content s rs"
  by (simp_all add: content_def)

lemma length_pbuf_data [simp]: "length (pbuf_data s q) = area_len s q"
  by (simp add: pbuf_data_def area_len_def split: option.splits)

lemma pbuf_data_Some: "pbufs s q = Some b \<Longrightarrow> pbuf_data s q = bytes_at (bytes s) (payload b) (ucast (p_len b))"
  "pbufs s q = Some b \<Longrightarrow> area_len s q = unat (p_len b)"
  by (simp_all add: pbuf_data_def area_len_def)

lemma pchain_unique: "pchain s p qs \<Longrightarrow> pchain s p rs \<Longrightarrow> qs = rs"
proof (induction qs arbitrary: p rs)
  case Nil
  then show ?case by (cases rs) auto
next
  case (Cons q qs)
  then show ?case by (cases rs) auto
qed

lemma pchain_suffix: "pchain s p (as @ q # qs) \<Longrightarrow> pchain s q (q # qs)"
  by (induction as arbitrary: p) auto

lemma pchain_distinct:
  assumes "pchain s p qs"
  shows "distinct qs"
proof (rule ccontr)
  assume "\<not> distinct qs"
  then obtain xs ys zs y where qs: "qs = xs @ [y] @ ys @ [y] @ zs" using not_distinct_decomp by blast
  have "pchain s y (y # ys @ y # zs)" using pchain_suffix [of s p xs y] assms qs by simp
  moreover have "pchain s y (y # zs)" using pchain_suffix [of s p "xs @ y # ys" y zs] assms qs by simp
  ultimately have "y # ys @ y # zs = y # zs" by (rule pchain_unique)
  then have "length (ys @ y # zs) = length zs" by simp
  then show False by simp
qed

lemma pchain_mem: "pchain s p qs \<Longrightarrow> q \<in> set qs \<Longrightarrow> pbufs s q \<noteq> None \<and> q \<noteq> 0"
  by (induction qs arbitrary: p) auto

lemma pchain_hd: "pchain s p qs \<Longrightarrow> p = (case qs of [] \<Rightarrow> 0 | q # _ \<Rightarrow> q)"
  by (cases qs) auto

text \<open>What only reads the headers of the chain and the bytes of its areas.\<close>

definition same_headers :: "u32 list \<Rightarrow> lwip \<Rightarrow> lwip \<Rightarrow> bool" where
  "same_headers qs s s' \<longleftrightarrow> (\<forall>q\<in>set qs. pbufs s' q = pbufs s q)"

lemma pchain_cong: "same_headers qs s s' \<Longrightarrow> pchain s' p qs = pchain s p qs"
  by (induction qs arbitrary: p) (auto simp: same_headers_def)

lemma content_cong: "same_headers qs s s' \<Longrightarrow> bytes s' = bytes s \<Longrightarrow> content s' qs = content s qs"
  by (induction qs) (auto simp: same_headers_def pbuf_data_def split: option.splits)

lemma totals_cong:
  assumes "same_headers qs s s'" and "\<And>q. q \<in> set qs \<Longrightarrow> length (pbuf_data s' q) = length (pbuf_data s q)"
  shows "totals s' qs = totals s qs"
  using assms
proof (induction qs)
  case (Cons q qs)
  have "length (content s' rs) = length (content s rs)" if "set rs \<subseteq> set (q # qs)" for rs
    using that Cons.prems(2) by (induction rs) auto
  then have "length (content s' (q # qs)) = length (content s (q # qs))" by blast
  then show ?case using Cons by (simp add: same_headers_def)
qed simp

lemma total_bound: "totals s qs \<Longrightarrow> length (content s qs) < 2 ^ 16"
proof (cases qs)
  case (Cons q rs)
  assume "totals s qs"
  then obtain b :: pbuf where "unat (tot_len b) = length (content s qs)" unfolding Cons by auto
  then show ?thesis using unat_less_u16 [of "tot_len b"] by simp
qed simp

lemma totals_Cons: "totals s (q # qs) \<Longrightarrow> totals s qs"
  by simp

section \<open>Finding a position\<close>

text \<open>
  \<open>pbuf_skip_const\<close> finds the pbuf that holds a byte: all before it is skipped, and the offset
  is inside the pbuf. It returns 0 exactly when the offset is behind the end.
\<close>

lemma skip_found:
  assumes "pchain s p qs" and "unat off < length (content s qs)"
  shows "\<exists>as q rs r. qs = as @ q # rs \<and> pbuf_skip_const p off s = Some (q, r) \<and> unat r < area_len s q
    \<and> unat off = length (content s as) + unat r"
  using assms
proof (induction qs arbitrary: p off)
  case Nil
  then show ?case by simp
next
  case (Cons q qs)
  then obtain b where b: "pbufs s q = Some b" "pchain s (p_next b) qs" "p = q" "q \<noteq> 0" by auto
  show ?case
  proof (cases "p_len b \<le> off")
    case True
    then have o: "unat (off - p_len b) = unat off - unat (p_len b)" by (rule unat_sub_u16)
    moreover have le: "unat (p_len b) \<le> unat off" using True by (simp add: word_le_nat_alt)
    ultimately have "unat (off - p_len b) < length (content s qs)" using Cons.prems(2) b(1) by (simp add: pbuf_data_Some)
    then obtain as x rs r where ih: "qs = as @ x # rs" "pbuf_skip_const (p_next b) (off - p_len b) s = Some (x, r)"
      "unat r < area_len s x" "unat (off - p_len b) = length (content s as) + unat r" using Cons.IH [OF b(2)] by blast
    have "pbuf_skip_const p off s = Some (x, r)"
      by (subst pbuf_skip_const.simps) (use b True ih in simp)
    then show ?thesis using ih o le b
      by (intro exI [of _ "q # as"] exI [of _ x] exI [of _ rs] exI [of _ r]) (simp add: pbuf_data_Some)
  next
    case False
    have "pbuf_skip_const p off s = Some (q, off)" by (subst pbuf_skip_const.simps) (use b False in simp)
    then show ?thesis using False b
      by (intro exI [of _ "[]"] exI [of _ q] exI [of _ qs] exI [of _ off]) (simp add: pbuf_data_Some not_le word_less_nat_alt)
  qed
qed

lemma skip_behind:
  assumes "pchain s p qs" and "length (content s qs) \<le> unat off"
  shows "\<exists>r. pbuf_skip_const p off s = Some (0, r) \<and> unat r = unat off - length (content s qs)"
  using assms
proof (induction qs arbitrary: p off)
  case Nil
  then show ?case by (subst pbuf_skip_const.simps) simp
next
  case (Cons q qs)
  then obtain b where b: "pbufs s q = Some b" "pchain s (p_next b) qs" "p = q" "q \<noteq> 0" by auto
  have le: "unat (p_len b) \<le> unat off" using Cons.prems(2) b by (simp add: pbuf_data_Some)
  then have o: "unat (off - p_len b) = unat off - unat (p_len b)" by (intro unat_sub_u16) (simp add: word_le_nat_alt)
  then have "length (content s qs) \<le> unat (off - p_len b)" using Cons.prems(2) b by (simp add: pbuf_data_Some)
  from Cons.IH [OF b(2) this] obtain r where "pbuf_skip_const (p_next b) (off - p_len b) s = Some (0, r)"
    "unat r = unat (off - p_len b) - length (content s qs)" by blast
  moreover have "pbuf_skip_const p off s = pbuf_skip_const (p_next b) (off - p_len b) s"
    by (subst pbuf_skip_const.simps) (use b le in \<open>simp add: word_le_nat_alt\<close>)
  ultimately show ?case using o b by (simp add: pbuf_data_Some)
qed

lemma get_at_content:
  assumes "pchain s p qs"
  shows "pbuf_get_at p off s = Some (if unat off < length (content s qs) then content s qs ! unat off else 0)"
proof (cases "unat off < length (content s qs)")
  case True
  then obtain as q rs r where f: "qs = as @ q # rs" "pbuf_skip_const p off s = Some (q, r)" "unat r < area_len s q"
    "unat off = length (content s as) + unat r" using skip_found [OF assms] by blast
  have "pbufs s q \<noteq> None \<and> q \<noteq> 0" using pchain_mem [OF assms, of q] f(1) by simp
  then obtain b where b: "pbufs s q = Some b" "q \<noteq> 0" by auto
  have r: "unat r < unat (p_len b)" using f(3) b by (simp add: pbuf_data_Some)
  have "content s qs ! unat off = pbuf_data s q ! unat r" using f r b by (simp add: nth_append pbuf_data_Some)
  also have "\<dots> = bytes s (payload b + ucast r)" using r b by (simp add: pbuf_data_Some bytes_at_def)
  finally show ?thesis using f(2) b r True
    by (simp add: pbuf_get_at_def pbuf_try_get_at_def word_less_nat_alt)
next
  case False
  then obtain r where "pbuf_skip_const p off s = Some (0, r)" using skip_behind [OF assms, of off] by auto
  then show ?thesis using False by (simp add: pbuf_get_at_def pbuf_try_get_at_def)
qed

end
