(* ===== verification/Pbuf_Copy.thy ===== *)
theory Pbuf_Copy
  imports Pbuf_Rep
begin

text \<open>
  The copying functions of \<open>pbuf.c\<close> in terms of the contents of chains: copies out of a chain are
  slices of its contents, copies into it replace a slice, comparison and search are those of
  lists. Areas that are written must not overlap the areas that are read.
\<close>

section \<open>Areas apart\<close>

definition clear_of :: "lwip \<Rightarrow> u32 list \<Rightarrow> u32 \<Rightarrow> nat \<Rightarrow> bool" where
  "clear_of s qs d n \<longleftrightarrow> unat d + n \<le> 2 ^ 32 \<and> (\<forall>q\<in>set qs. \<forall>b. pbufs s q = Some b \<longrightarrow>
     unat (payload b) + unat (p_len b) \<le> 2 ^ 32
     \<and> (unat d + n \<le> unat (payload b) \<or> unat (payload b) + unat (p_len b) \<le> unat d))"

lemma put_bytes_fields [simp]:
  "pbufs (put_bytes f s) = pbufs s" "bytes (put_bytes f s) = f (bytes s)" "live (put_bytes f s) = live s"
  "mallocs (put_bytes f s) = mallocs s"
  by (simp_all add: put_bytes_def)

lemma put_bytes_twice: "put_bytes f (put_bytes g s) = put_bytes (\<lambda>m. f (g m)) s"
  by (simp add: put_bytes_def)

lemma put_nothing [simp]: "put_bytes (mem_put d []) s = s"
  by (simp add: put_bytes_def)

lemma put_headers: "same_headers qs s (put_bytes f s)"
  by (simp add: same_headers_def)

lemma pchain_put [simp]: "pchain (put_bytes f s) p qs = pchain s p qs"
  by (rule pchain_cong [OF put_headers])

lemma area_len_put [simp]: "area_len (put_bytes f s) q = area_len s q"
  by (simp add: area_len_def)

lemma clear_of_put [simp]: "clear_of (put_bytes f s) qs d n = clear_of s qs d n"
  by (simp add: clear_of_def)

lemma length_content_put [simp]: "length (content (put_bytes f s) qs) = length (content s qs)"
  by (induction qs) auto

lemma totals_put [simp]: "totals (put_bytes f s) qs = totals s qs"
  by (rule totals_cong [OF put_headers]) simp

lemma clear_of_less: "clear_of s qs d n \<Longrightarrow> k + l \<le> n \<Longrightarrow> clear_of s qs (d + of_nat k) l"
proof -
  assume a: "clear_of s qs d n" "k + l \<le> n"
  show ?thesis
  proof (cases "l = 0 \<and> unat d + k = 2 ^ 32")
    case True
    then have "unat (d + of_nat k) = 0" by (simp add: unat_word_ariths unat_of_nat mod_add_right_eq)
    then show ?thesis using a True by (auto simp: clear_of_def)
  next
    case False
    then have "unat d + k < 2 ^ 32" using a by (auto simp: clear_of_def)
    then have "unat (d + of_nat k) = unat d + k" by (rule unat_plus_small)
    then show ?thesis using a by (fastforce simp: clear_of_def)
  qed
qed

lemma clear_of_tail: "clear_of s (q # qs) d n \<Longrightarrow> clear_of s qs d n"
  by (simp add: clear_of_def)

lemma pbuf_data_put:
  assumes "clear_of s [q] d n" and "length xs \<le> n"
  shows "pbuf_data (put_bytes (mem_put d xs) s) q = pbuf_data s q"
proof (cases "pbufs s q")
  case (Some b)
  have "bytes_at (mem_put d xs (bytes s)) (payload b) (ucast (p_len b)) = bytes_at (bytes s) (payload b) (ucast (p_len b))"
    using assms Some by (intro mem_put_elsewhere) (auto simp: clear_of_def)
  then show ?thesis using Some by (simp add: pbuf_data_Some)
qed (simp add: pbuf_data_def)

lemma content_put:
  assumes "clear_of s qs d n" and "length xs \<le> n"
  shows "content (put_bytes (mem_put d xs) s) qs = content s qs"
  using assms
proof (induction qs)
  case (Cons q qs)
  then have "clear_of s [q] d n" "clear_of s qs d n" by (auto simp: clear_of_def)
  then show ?case using Cons pbuf_data_put by simp
qed simp

lemma bytes_apart:
  assumes "unat d + n \<le> 2 ^ 32" and "unat p + unat l \<le> 2 ^ 32" and "unat d + n \<le> unat p \<or> unat p + unat l \<le> unat d" and "length xs \<le> n"
  shows "bytes_at (mem_put d xs m) p l = bytes_at m p l"
  using assms by (intro mem_put_elsewhere) auto

section \<open>Copying out of a chain\<close>

lemma copy_partial_loop_effect:
  assumes "pchain s p qs" and "unat left + unat n < 2 ^ 16" and "clear_of s qs d (unat left + unat n)"
  shows "copy_partial_loop p d left n off tot s
    = Some (tot + of_nat (length (take (unat n) (drop (unat off) (content s qs)))),
        put_bytes (mem_put (d + of_nat (unat left)) (take (unat n) (drop (unat off) (content s qs)))) s)"
  using assms
proof (induction qs arbitrary: p left n off tot s)
  case Nil
  then show ?case by (subst copy_partial_loop.simps) simp
next
  case (Cons q qs)
  then obtain b where b: "pbufs s q = Some b" "pchain s (p_next b) qs" "p = q" "q \<noteq> 0" by auto
  have D: "pbuf_data s q = bytes_at (bytes s) (payload b) (ucast (p_len b))" using b(1) by (simp add: pbuf_data_Some)
  show ?case
  proof (cases "n = 0")
    case True
    then show ?thesis by (subst copy_partial_loop.simps) simp
  next
    case n0: False
    show ?thesis
    proof (cases "off \<noteq> 0 \<and> off \<ge> p_len b")
      case True
      then have o: "unat (off - p_len b) = unat off - unat (p_len b)" and le: "unat (p_len b) \<le> unat off"
        by (simp_all add: unat_sub_u16 word_le_nat_alt)
      have "drop (unat off) (content s (q # qs)) = drop (unat (off - p_len b)) (content s qs)"
        using o le by (simp add: D)
      moreover have "copy_partial_loop p d left n off tot s = copy_partial_loop (p_next b) d left n (off - p_len b) tot s"
        by (subst copy_partial_loop.simps) (use b n0 True in simp)
      ultimately show ?thesis using Cons.IH [OF b(2) Cons.prems(2) clear_of_tail [OF Cons.prems(3)]] by simp
    next
      case False
      define c where "c = min (p_len b - off) n"
      have ol: "off \<le> p_len b" using False by (cases "off = 0") (auto simp: not_le)
      then have olu: "unat off \<le> unat (p_len b)" by (simp add: word_le_nat_alt)
      have cu: "unat c = min (unat (p_len b) - unat off) (unat n)"
        using unat_sub_u16 [OF ol] by (simp add: c_def min_def word_le_nat_alt)
      define xs where "xs = take (unat c) (drop (unat off) (pbuf_data s q))"
      have lx: "length xs = unat c" using cu olu by (simp add: xs_def D)
      have nu: "unat (n - c) = unat n - unat c" by (rule unat_sub_u16) (simp add: c_def)
      have lu: "unat (left + c) = unat left + unat c" using Cons.prems(2) cu by (intro unat_add_u16) simp
      have "unat off + unat c \<le> unat (ucast (p_len b) :: u32)" using cu olu by simp
      from bytes_at_slice [OF this, of "bytes s" "payload b"]
      have "bytes_at (bytes s) (payload b + ucast off) (ucast c) = xs" by (simp add: xs_def D)
      then have M: "memcpy (d + ucast left) (payload b + ucast off) (ucast c) (bytes s) = mem_put (d + of_nat (unat left)) xs (bytes s)"
        by (simp add: memcpy_put)
      let ?s = "put_bytes (mem_put (d + of_nat (unat left)) xs) s"
      have S: "put_bytes (memcpy (d + ucast left) (payload b + ucast off) (ucast c)) s = ?s"
        using M by (simp add: put_bytes_def)
      have "clear_of s qs (d + of_nat (unat left)) (unat c)"
        using cu by (intro clear_of_less [OF clear_of_tail [OF Cons.prems(3)]]) simp
      then have C: "content ?s qs = content s qs" by (rule content_put) (simp add: lx)
      have slice: "take (unat n) (drop (unat off) (content s (q # qs))) = xs @ take (unat (n - c)) (content s qs)"
      proof (cases "unat (p_len b) - unat off \<le> unat n")
        case True
        then have "xs = drop (unat off) (pbuf_data s q)" "unat c = unat (p_len b) - unat off" using cu by (simp_all add: xs_def D)
        then show ?thesis using True nu olu by (simp add: D)
      next
        case False
        then have "unat c = unat n" "unat (n - c) = 0" using cu nu by simp_all
        then show ?thesis using False by (simp add: xs_def D)
      qed
      have "copy_partial_loop p d left n off tot s = copy_partial_loop (p_next b) d (left + c) (n - c) 0 (tot + c) ?s"
        by (subst copy_partial_loop.simps) (use b n0 False S in \<open>auto simp: c_def Let_def\<close>)
      also have "\<dots> = Some (tot + c + of_nat (length (take (unat (n - c)) (content s qs))),
          put_bytes (mem_put (d + of_nat (unat (left + c))) (take (unat (n - c)) (content s qs))) ?s)"
        using Cons.IH [of ?s "p_next b" "left + c" "n - c" 0 "tot + c"] b(2) C Cons.prems(2) clear_of_tail [OF Cons.prems(3)] nu lu cu
        by simp
      also have "put_bytes (mem_put (d + of_nat (unat (left + c))) (take (unat (n - c)) (content s qs))) ?s
        = put_bytes (mem_put (d + of_nat (unat left)) (xs @ take (unat (n - c)) (content s qs))) s"
      proof -
        have "length xs + length (take (unat (n - c)) (content s qs)) \<le> 2 ^ 32" using lx nu unat_less_u16 [of c] unat_less_u16 [of "n - c"] by simp
        from mem_put_append [OF this, of "d + of_nat (unat left)" "bytes s"] show ?thesis
          using lu lx by (simp add: put_bytes_def algebra_simps)
      qed
      also have "tot + c + of_nat (length (take (unat (n - c)) (content s qs)))
        = tot + of_nat (length (xs @ take (unat (n - c)) (content s qs)))"
        by (simp add: lx)
      finally show ?thesis unfolding slice .
    qed
  qed
qed

section \<open>Copying into a chain\<close>

fun areas_apart :: "lwip \<Rightarrow> u32 list \<Rightarrow> bool" where
  "areas_apart s [] \<longleftrightarrow> True"
| "areas_apart s (q # qs) \<longleftrightarrow>
     (\<forall>b. pbufs s q = Some b \<longrightarrow> clear_of s qs (payload b) (unat (p_len b))) \<and> areas_apart s qs"

lemma areas_apart_put [simp]: "areas_apart (put_bytes f s) qs = areas_apart s qs"
  by (induction qs) auto

text \<open>A function on memory that writes only inside the areas of the chain.\<close>

definition inside :: "lwip \<Rightarrow> u32 list \<Rightarrow> ((u32 \<Rightarrow> u8) \<Rightarrow> u32 \<Rightarrow> u8) \<Rightarrow> bool" where
  "inside s qs f \<longleftrightarrow> (\<forall>m d k. clear_of s qs d (unat k) \<longrightarrow> bytes_at (f m) d k = bytes_at m d k)"

lemma inside_put [simp]: "inside (put_bytes g s) qs f = inside s qs f"
  by (simp add: inside_def)

lemma inside_id [simp]: "inside s qs (\<lambda>m. m)"
  by (simp add: inside_def)

lemma inside_mem_put:
  assumes "pbufs s q = Some b" and "q \<in> set qs" and "unat r + length xs \<le> unat (p_len b)" and "unat (payload b) + unat (p_len b) \<le> 2 ^ 32"
  shows "inside s qs (mem_put (payload b + ucast (r :: u16)) xs)"
proof -
  have "bytes_at (mem_put (payload b + ucast r) xs m) d k = bytes_at m d k" if c: "clear_of s qs d (unat k)" for m d k
  proof (cases "xs = []")
    case False
    then have "unat (payload b) + unat r < 2 ^ 32" using assms by (cases xs) auto
    then have "unat (payload b + ucast r) = unat (payload b) + unat r"
      using unat_plus_small [of "payload b" "unat r"] by simp
    then show ?thesis using c assms by (intro bytes_apart [of _ "length xs"]) (auto simp: clear_of_def)
  qed simp
  then show ?thesis by (simp add: inside_def)
qed

lemma clear_of_subset: "clear_of s ps d n \<Longrightarrow> set qs \<subseteq> set ps \<Longrightarrow> clear_of s qs d n"
  by (auto simp: clear_of_def)

lemma inside_comp: "inside s qs f \<Longrightarrow> inside s rs g \<Longrightarrow> set qs \<subseteq> set ps \<Longrightarrow> set rs \<subseteq> set ps \<Longrightarrow> inside s ps (\<lambda>m. f (g m))"
  by (auto simp: inside_def clear_of_subset)

lemma inside_data:
  assumes "inside s qs f" and "clear_of s qs (payload b) (unat (p_len b))" and "pbufs s q = Some b"
  shows "pbuf_data (put_bytes f s) q = pbuf_data s q"
  using assms by (simp add: pbuf_data_Some inside_def)

lemma inside_content:
  assumes "inside s qs f" and "\<And>q b. q \<in> set rs \<Longrightarrow> pbufs s q = Some b \<Longrightarrow> clear_of s qs (payload b) (unat (p_len b))"
  shows "content (put_bytes f s) rs = content s rs"
  using assms(2)
proof (induction rs)
  case (Cons q rs)
  have "content (put_bytes f s) rs = content s rs" using Cons by (meson list.set_intros(2))
  moreover have "pbuf_data (put_bytes f s) q = pbuf_data s q"
  proof (cases "pbufs s q")
    case (Some b)
    then show ?thesis using inside_data [OF assms(1)] Cons.prems [of q b] by simp
  qed (simp add: pbuf_data_def)
  ultimately show ?case by simp
qed simp

text \<open>A store at an offset of one pbuf.\<close>

lemma store_in_pbuf:
  assumes "pbufs s q = Some b" and "unat r + length xs \<le> unat (p_len b)" and "unat (payload b) + unat (p_len b) \<le> 2 ^ 32"
  shows "pbuf_data (put_bytes (mem_put (payload b + ucast (r :: u16)) xs) s) q
    = take (unat r) (pbuf_data s q) @ xs @ drop (unat r + length xs) (pbuf_data s q)"
  using mem_put_slice [of "payload b" "ucast (p_len b)" "unat r" xs "bytes s"] assms by (simp add: pbuf_data_Some)

lemma take_loop_effect:
  assumes "pchain s p qs" and "areas_apart s qs" and "clear_of s qs (src + cop) (unat n)" and "unat n \<le> length (content s qs)"
  shows "\<exists>f. pbuf_take_loop p src n cop s = Some (put_bytes f s) \<and> inside s qs f
    \<and> content (put_bytes f s) qs = bytes_at (bytes s) (src + cop) n @ drop (unat n) (content s qs)"
  using assms
proof (induction qs arbitrary: p n cop s)
  case Nil
  then have "n = 0" by (simp add: unat_eq_0)
  then show ?case by (subst pbuf_take_loop.simps) (auto intro!: exI [of _ "\<lambda>m. m"] simp: put_bytes_def)
next
  case (Cons q qs)
  then obtain b where b: "pbufs s q = Some b" "pchain s (p_next b) qs" "p = q" "q \<noteq> 0" by auto
  have D: "pbuf_data s q = bytes_at (bytes s) (payload b) (ucast (p_len b))" using b(1) by (simp add: pbuf_data_Some)
  have cl: "clear_of s qs (payload b) (unat (p_len b))" "areas_apart s qs" using Cons.prems(2) b(1) by simp_all
  then have nw: "unat (payload b) + unat (p_len b) \<le> 2 ^ 32" by (simp add: clear_of_def)
  show ?case
  proof (cases "n = 0")
    case True
    then show ?thesis by (subst pbuf_take_loop.simps) (auto intro!: exI [of _ "\<lambda>m. m"] simp: put_bytes_def)
  next
    case False
    define c where "c = (if n > ucast (p_len b) then ucast (p_len b) else n)"
    have cu: "unat c = min (unat (p_len b)) (unat n)" by (auto simp: c_def word_less_nat_alt)
    have nu: "unat (n - c) = unat n - unat c" by (rule unat_sub_u32) (auto simp: word_le_nat_alt cu)
    have whole: "clear_of s (q # qs) (src + cop) (unat n)" using Cons.prems(3) .
    define xs where "xs = bytes_at (bytes s) (src + cop) c"
    have lx: "length xs = unat c" by (simp add: xs_def)
    let ?s = "put_bytes (mem_put (payload b) xs) s"
    have M: "put_bytes (memcpy (payload b) (src + cop) c) s = ?s" by (simp add: memcpy_put xs_def put_bytes_def)
    have C: "content ?s qs = content s qs" using cu lx by (intro content_put [OF cl(1)]) simp
    have dq: "pbuf_data ?s q = xs @ drop (unat c) (pbuf_data s q)"
      using store_in_pbuf [OF b(1), of 0 xs] nw lx cu by simp
    have part: "clear_of s (q # qs) (src + (cop + c)) (unat (n - c))"
    proof -
      have "unat c + unat (n - c) \<le> unat n" using nu cu by simp
      from clear_of_less [OF whole this] show ?thesis by (simp add: algebra_simps)
    qed
    then have src: "clear_of ?s qs (src + (cop + c)) (unat (n - c))" using clear_of_tail by simp
    have rest: "bytes_at (bytes ?s) (src + (cop + c)) (n - c) = bytes_at (bytes s) (src + (cop + c)) (n - c)"
    proof -
      have "unat (src + (cop + c)) + unat (n - c) \<le> unat (payload b) \<or> unat (payload b) + unat (p_len b) \<le> unat (src + (cop + c))"
        "unat (src + (cop + c)) + unat (n - c) \<le> 2 ^ 32" using part b(1) by (auto simp: clear_of_def)
      then show ?thesis using nw lx cu by (auto intro!: bytes_apart [of _ "unat (p_len b)"])
    qed
    have "unat (n - c) \<le> length (content ?s qs)" using Cons.prems(4) cu nu b(1) by (simp add: C D)
    then obtain f where f: "pbuf_take_loop (p_next b) src (n - c) (cop + c) ?s = Some (put_bytes f ?s)" "inside s qs f"
      "content (put_bytes f ?s) qs = bytes_at (bytes ?s) (src + (cop + c)) (n - c) @ drop (unat (n - c)) (content s qs)"
      using Cons.IH [of ?s "p_next b" "cop + c" "n - c"] b(2) cl(2) src by (auto simp: C)
    let ?f = "\<lambda>m. f (mem_put (payload b) xs m)"
    have F: "put_bytes f ?s = put_bytes ?f s" by (simp add: put_bytes_twice)
    have "pbuf_data (put_bytes f ?s) q = xs @ drop (unat c) (pbuf_data s q)"
      using inside_data [of ?s qs f b q] f(2) cl(1) b(1) dq by simp
    moreover have "bytes_at (bytes s) (src + cop) n = xs @ bytes_at (bytes s) (src + (cop + c)) (n - c)"
    proof -
      have "unat c + unat (n - c) < 2 ^ 32" using nu cu unat_less_u32 [of n] by simp
      from bytes_at_append [OF this, of "bytes s" "src + cop"] show ?thesis by (simp add: xs_def algebra_simps)
    qed
    moreover have "drop (unat n) (content s (q # qs)) = drop (unat n) (pbuf_data s q) @ drop (unat (n - c)) (content s qs)"
      using cu nu by (simp add: D) (simp add: min_def split: if_splits)
    moreover have "\<not> unat (p_len b) \<le> unat n \<Longrightarrow> n - c = 0" using cu nu by (simp add: unat_eq_0 [symmetric])
    ultimately have "content (put_bytes ?f s) (q # qs) = bytes_at (bytes s) (src + cop) n @ drop (unat n) (content s (q # qs))"
      using f(3) rest cu nu unfolding F
      by (cases "unat (p_len b) \<le> unat n") (auto simp: D)
    moreover have "inside s (q # qs) ?f"
      using inside_comp [OF f(2) inside_mem_put [OF b(1), of "q # qs" 0 xs], of "q # qs"] nw lx cu by auto
    moreover have "pbuf_take_loop p src n cop s = Some (put_bytes ?f s)"
      by (subst pbuf_take_loop.simps) (use b False M f(1) F in \<open>simp add: c_def [symmetric]\<close>)
    ultimately show ?thesis by blast
  qed
qed

section \<open>Copying between chains\<close>

definition positive :: "lwip \<Rightarrow> u32 list \<Rightarrow> bool" where
  "positive s qs \<longleftrightarrow> (\<forall>q\<in>set qs. 0 < area_len s q)"

lemma positive_put [simp]: "positive (put_bytes f s) qs = positive s qs"
  by (simp add: positive_def)

lemma positive_nonempty: "positive s qs \<Longrightarrow> qs \<noteq> [] \<Longrightarrow> 0 < length (content s qs)"
  by (cases qs) (auto simp: positive_def)

text \<open>A well-formed packet without empty pbufs is not taken for a queue.\<close>

lemma not_queue:
  assumes "pchain s p qs" and "totals s qs" and "positive s qs"
  shows "queue_continues p s = Some False"
proof (cases qs)
  case (Cons q rs)
  then obtain b where b: "pbufs s q = Some b" "pchain s (p_next b) rs" "p = q" "q \<noteq> 0"
    and t: "unat (tot_len b) = length (content s (q # rs))" using assms by auto
  have "p_next b = 0 \<or> rs \<noteq> []" using b(2) by (cases rs) auto
  then have "p_next b = 0 \<or> 0 < length (content s rs)"
    using positive_nonempty [of s rs] assms(3) Cons by (auto simp: positive_def)
  then have "p_next b = 0 \<or> p_len b \<noteq> tot_len b" using t b(1) by (auto simp: pbuf_data_Some)
  then show ?thesis using b by (auto simp: queue_continues_def)
qed (use assms in \<open>simp add: queue_continues_def\<close>)

definition sources_clear :: "lwip \<Rightarrow> u32 list \<Rightarrow> u32 list \<Rightarrow> bool" where
  "sources_clear s ts fs \<longleftrightarrow> (\<forall>q\<in>set fs. \<forall>b. pbufs s q = Some b \<longrightarrow> clear_of s ts (payload b) (unat (p_len b)))"

lemma sources_clear_put [simp]: "sources_clear (put_bytes f s) ts fs = sources_clear s ts fs"
  by (simp add: sources_clear_def)

text \<open>One step: \<open>n\<close> bytes go from the offset \<open>fo\<close> of the first source to the offset \<open>ot\<close> of the first target.\<close>

lemma copy_step:
  assumes t: "pbufs s t = Some bt" and f: "pbufs s f = Some bf"
    and apart: "areas_apart s (t # ts)" and src: "sources_clear s (t # ts) (f # fs)"
    and n: "unat ot + unat n \<le> unat (p_len bt)" "unat fo + unat n \<le> unat (p_len bf)"
  defines "xs \<equiv> take (unat n) (drop (unat fo) (pbuf_data s f))"
    and "g \<equiv> memcpy (payload bt + ot) (payload bf + fo) n"
  shows "inside s (t # ts) g \<and> content (put_bytes g s) (f # fs) = content s (f # fs)
    \<and> content (put_bytes g s) (t # ts) = take (unat ot) (pbuf_data s t) @ xs @ drop (unat ot + unat n) (pbuf_data s t) @ content s ts"
proof -
  let ?g = "mem_put (payload bt + ot) xs"
  have lx: "length xs = unat n" using n f by (simp add: xs_def pbuf_data_Some)
  have cl: "clear_of s ts (payload bt) (unat (p_len bt))" using apart t by simp
  then have nw: "unat (payload bt) + unat (p_len bt) \<le> 2 ^ 32" by (simp add: clear_of_def)
  have "unat fo + unat n \<le> unat (ucast (p_len bf) :: u32)" using n by simp
  from bytes_at_slice [OF this, of "bytes s" "payload bf"]
  have "g (bytes s) = ?g (bytes s)" by (simp add: g_def memcpy_put xs_def pbuf_data_Some [OF f])
  then have G: "put_bytes g s = put_bytes ?g s" by (simp add: put_bytes_def)
  have small: "unat (ucast ot :: u16) = unat ot" using n(1) unat_less_u16 [of "p_len bt"]
    by (simp add: unsigned_ucast_eq take_bit_eq_mod)
  then have ot: "ucast (ucast ot :: u16) = ot"
    by (intro word_unat_eq_iff [THEN iffD2]) simp
  have inside_g: "inside s (t # ts) (mem_put (payload bt + ot) ys)" if "length ys = unat n" for ys
    using inside_mem_put [OF t, of "t # ts" "ucast ot" ys] n(1) nw that ot small by simp
  then have "inside s (t # ts) g"
    unfolding inside_def g_def memcpy_put by simp
  moreover have "content (put_bytes ?g s) (f # fs) = content s (f # fs)"
    by (rule inside_content [OF inside_g [OF lx]]) (use src in \<open>auto simp: sources_clear_def\<close>)
  moreover have "content (put_bytes ?g s) ts = content s ts"
  proof -
    have "clear_of s ts (payload bt + of_nat (unat ot)) (unat n)" by (rule clear_of_less [OF cl n(1)])
    then show ?thesis using content_put [of s ts "payload bt + ot" "unat n" xs] lx by simp
  qed
  moreover have "pbuf_data (put_bytes ?g s) t = take (unat ot) (pbuf_data s t) @ xs @ drop (unat ot + unat n) (pbuf_data s t)"
    using store_in_pbuf [OF t, of "ucast ot" xs] n(1) nw lx ot small by simp
  ultimately show ?thesis by (simp add: G)
qed

text \<open>What a copy to the offset \<open>ot\<close> of a chain from the offset \<open>fo\<close> of another has to do.\<close>

definition copied :: "lwip \<Rightarrow> u32 list \<Rightarrow> nat \<Rightarrow> u8 list \<Rightarrow> ((u32 \<Rightarrow> u8) \<Rightarrow> u32 \<Rightarrow> u8) \<Rightarrow> bool" where
  "copied s ts ot xs f \<longleftrightarrow> inside s ts f
     \<and> content (put_bytes f s) ts = take ot (content s ts) @ xs @ drop (ot + length xs) (content s ts)"

lemma copied_nothing: "copied s ts ot [] (\<lambda>m. m)"
  by (simp add: copied_def put_bytes_def)

lemma copied_tail:
  assumes t: "pbufs s t = Some bt" and apart: "clear_of s ts (payload bt) (unat (p_len bt))" and c: "copied s ts 0 xs f"
  shows "copied s (t # ts) (unat (p_len bt)) xs f"
proof -
  have "pbuf_data (put_bytes f s) t = pbuf_data s t" using inside_data [OF _ apart t] c by (simp add: copied_def)
  moreover have "inside s (t # ts) (\<lambda>m. f m)"
    using inside_comp [of s ts f ts "\<lambda>m. m" "t # ts"] c by (auto simp: copied_def)
  ultimately show ?thesis using c t by (simp add: copied_def pbuf_data_Some)
qed

lemma copied_step:
  assumes t: "pbufs s t = Some bt" and f: "pbufs s f = Some bf"
    and apart: "areas_apart s (t # ts)" and src: "sources_clear s (t # ts) (f # fs)"
    and n: "unat ot + unat n \<le> unat (p_len bt)" "unat fo + unat n \<le> unat (p_len bf)"
    and rest: "copied (put_bytes (memcpy (payload bt + ot) (payload bf + fo) n) s) (t # ts) (unat ot + unat n)
      (drop (unat fo + unat n) (content s (f # fs))) h"
  shows "copied s (t # ts) (unat ot) (drop (unat fo) (content s (f # fs))) (\<lambda>m. h (memcpy (payload bt + ot) (payload bf + fo) n m))"
proof -
  let ?g = "memcpy (payload bt + ot) (payload bf + fo) n"
  let ?xs = "take (unat n) (drop (unat fo) (pbuf_data s f))"
  let ?T = "content s (t # ts)" and ?F = "content s (f # fs)"
  have step: "inside s (t # ts) ?g" "content (put_bytes ?g s) (t # ts) = take (unat ot) (pbuf_data s t) @ ?xs @ drop (unat ot + unat n) (pbuf_data s t) @ content s ts"
    using copy_step [OF t f apart src n] by auto
  have T: "content (put_bytes ?g s) (t # ts) = take (unat ot) ?T @ ?xs @ drop (unat ot + unat n) ?T"
    unfolding step(2) using n t f by (simp add: pbuf_data_Some)
  have lx: "length ?xs = unat n" using n f by (simp add: pbuf_data_Some)
  have F: "drop (unat fo) ?F = ?xs @ drop (unat fo + unat n) ?F"
  proof -
    have "take (unat n) (drop (unat fo) ?F) = ?xs" using n f by (simp add: pbuf_data_Some)
    then show ?thesis by (metis append_take_drop_id drop_drop add.commute)
  qed
  have lT: "unat ot + unat n \<le> length ?T" using n t by (simp add: pbuf_data_Some)
  have "content (put_bytes h (put_bytes ?g s)) (t # ts) = take (unat ot) ?T @ drop (unat fo) ?F @ drop (unat ot + length (drop (unat fo) ?F)) ?T"
    using rest lx lT unfolding copied_def T F by (simp del: content_simps(2) add: ac_simps)
  then show ?thesis using rest inside_comp [OF _ step(1), of "t # ts" h "t # ts"] by (simp add: copied_def put_bytes_twice)
qed

lemma pbuf_copy_loop_effect:
  assumes "pchain s p ts" and "pchain s pf fs" and "totals s ts" and "totals s fs" and "positive s ts" and "positive s fs"
    and "areas_apart s ts" and "sources_clear s ts fs" and "ts \<noteq> []" and "fs \<noteq> []"
    and "unat ot < area_len s (hd ts)" and "unat fo < area_len s (hd fs)"
    and "unat ot + (length (content s fs) - unat fo) \<le> length (content s ts)"
  shows "\<exists>g. pbuf_copy_loop p ot pf fo s = Some (ERR_OK, put_bytes g s) \<and> copied s ts (unat ot) (drop (unat fo) (content s fs)) g"
  using assms
proof (induction "length ts + length fs" arbitrary: s p pf ts fs ot fo rule: less_induct)
  case less
  from less.prems(1,9) obtain t ts' bt where t: "ts = t # ts'" "p = t" "t \<noteq> 0" "pbufs s t = Some bt" "pchain s (p_next bt) ts'"
    by (cases ts) auto
  from less.prems(2,10) obtain q fs' bf where f: "fs = q # fs'" "pf = q" "q \<noteq> 0" "pbufs s q = Some bf" "pchain s (p_next bf) fs'"
    by (cases fs) auto
  have ot: "unat ot < unat (p_len bt)" and fo: "unat fo < unat (p_len bf)"
    using less.prems(11,12) t f by (simp_all add: pbuf_data_Some)
  define n where "n = (if ucast (p_len bt) - ot \<ge> ucast (p_len bf) - fo then ucast (p_len bf) - fo else ucast (p_len bt) - ot)"
  have d: "unat (ucast (p_len bt) - ot) = unat (p_len bt) - unat ot" "unat (ucast (p_len bf) - fo) = unat (p_len bf) - unat fo"
    using ot fo by (simp_all add: unat_sub_u32 word_le_nat_alt)
  have n: "unat n = min (unat (p_len bt) - unat ot) (unat (p_len bf) - unat fo)"
    using d by (auto simp: n_def word_le_nat_alt min_def)
  have o: "unat (ot + n) = unat ot + unat n" "unat (fo + n) = unat fo + unat n"
    using n ot fo unat_less_u16 [of "p_len bt"] unat_less_u16 [of "p_len bf"] by (simp_all add: unat_word_ariths)
  let ?g = "memcpy (payload bt + ot) (payload bf + fo) n"
  let ?s = "put_bytes ?g s"
  let ?xs = "drop (unat fo + unat n) (content s fs)"
  have st: "pbufs s t = Some bt" "areas_apart s (t # ts')" "sources_clear s (t # ts') (q # fs')"
    using less.prems t f by auto
  note finish = copied_step [OF st(1) f(4) st(2,3), of ot n fo, folded t(1) f(1)]
  have le: "unat ot + unat n \<le> unat (p_len bt)" "unat fo + unat n \<le> unat (p_len bf)" using n ot fo by simp_all
  have F: "content ?s fs = content s fs" using copy_step [OF st(1) f(4) st(2,3) le] f(1) by simp
  have F': "content ?s fs' = content s fs'" using F f by simp
  have lt: "length (content s ts) = unat (p_len bt) + length (content s ts')" using t by (simp add: pbuf_data_Some)
  have lf: "length (content s fs) = unat (p_len bf) + length (content s fs')" using f by (simp add: pbuf_data_Some)
  have room: "unat ot + (unat (p_len bf) + length (content s fs') - unat fo) \<le> unat (p_len bt) + length (content s ts')"
    using less.prems(13) lt lf by simp
  have inv: "totals s ts'" "totals s fs'" "positive s ts'" "positive s fs'" "areas_apart s ts'"
    using less.prems(3-7) t(1) f(1) by (simp_all add: positive_def)
  have src: "sources_clear s ts' fs" "sources_clear s ts fs'" "sources_clear s ts' fs'"
    using less.prems(8) t(1) f(1) clear_of_tail by (auto simp: sources_clear_def)
  have nq: "queue_continues (p_next bf) ?s = Some False" "queue_continues (p_next bt) ?s = Some False"
    "queue_continues p ?s = Some False" "queue_continues pf ?s = Some False"
    using not_queue [of ?s "p_next bf" fs'] not_queue [of ?s "p_next bt" ts'] not_queue [of ?s p ts] not_queue [of ?s pf fs]
      less.prems(1-6) t(5) f(5) inv by simp_all
  note unfolded = pbuf_copy_loop.simps [of p ot pf fo s]
  have S: "fo + n \<ge> ucast (p_len bf) \<longleftrightarrow> unat n = unat (p_len bf) - unat fo"
    using o(2) fo le by (auto simp: word_le_nat_alt)
  have T: "ot + n = ucast (p_len bt) \<longleftrightarrow> unat n = unat (p_len bt) - unat ot"
    using o(1) ot le by (auto simp: word_unat_eq_iff)
  have hyp: "\<exists>h. copied ?s ts (unat ot + unat n) ?xs h \<and> pbuf_copy_loop p ot pf fo s = Some (ERR_OK, put_bytes h ?s)"
  proof (cases "unat n = unat (p_len bf) - unat fo")
    case src_done: True
    have xs: "?xs = content s fs'" using src_done fo f by (simp add: pbuf_data_Some)
    show ?thesis
    proof (cases "fs' = []")
      case True
      then have nf: "p_next bf = 0" using f(5) by simp
      have "pbuf_copy_loop p ot pf fo s = Some (ERR_OK, ?s)"
        unfolding unfolded using t f S T src_done nf nq by (auto simp: n_def [symmetric] Let_def)
      then show ?thesis using copied_nothing [of ?s ts] xs True by (auto simp: put_bytes_def)
    next
      case False
      then have f': "p_next bf \<noteq> 0" using f(5) by (cases fs') auto
      have pos: "0 < area_len s (hd fs')" using False inv(4) by (cases fs') (auto simp: positive_def)
      show ?thesis
      proof (cases "unat n = unat (p_len bt) - unat ot")
        case True
        then have "length (content s fs') \<le> length (content s ts')" using room src_done fo ot by simp
        moreover have "0 < length (content s fs')" using positive_nonempty inv(4) False by blast
        ultimately have ts': "ts' \<noteq> []" "length (content s fs') \<le> length (content s ts')" by auto
        then have nt: "p_next bt \<noteq> 0" "0 < area_len s (hd ts')" using t(5) inv(3) by (cases ts'; auto simp: positive_def)+
        have "pbuf_copy_loop p ot pf fo s = pbuf_copy_loop (p_next bt) 0 (p_next bf) 0 ?s"
          unfolding unfolded using t f S T True src_done f' nt nq by (auto simp: n_def [symmetric] Let_def)
        moreover obtain h where "pbuf_copy_loop (p_next bt) 0 (p_next bf) 0 ?s = Some (ERR_OK, put_bytes h ?s)"
          "copied ?s ts' 0 (content ?s fs') h"
          using less.hyps [of ts' fs' ?s "p_next bt" "p_next bf" 0 0] t f inv src ts' False nt pos by auto
        ultimately show ?thesis
          using copied_tail [of ?s t bt ts' "content ?s fs'" h] st(1,2) t(1) True ot xs F' by auto
      next
        case tgt: False
        have "unat ot + unat n < unat (p_len bt)" using tgt le(1) ot by linarith
        then have here: "unat (ot + n) < area_len s (hd ts)" "unat (ot + n) + length (content s fs') \<le> length (content s ts)"
          using o t room lt src_done fo by (simp_all add: pbuf_data_Some)
        have "pbuf_copy_loop p ot pf fo s = pbuf_copy_loop p (ot + n) (p_next bf) 0 ?s"
          unfolding unfolded using t f S T tgt src_done f' nq by (auto simp: n_def [symmetric] Let_def)
        moreover obtain h where "pbuf_copy_loop p (ot + n) (p_next bf) 0 ?s = Some (ERR_OK, put_bytes h ?s)"
          "copied ?s ts (unat (ot + n)) (content ?s fs') h"
          using less.hyps [of ts fs' ?s p "p_next bf" "ot + n" 0] less.prems(1,3,5,7,9) f inv(2,4) src False pos here by auto
        ultimately show ?thesis using xs F' o by auto
      qed
    qed
  next
    case src_left: False
    then have n': "unat n = unat (p_len bt) - unat ot" "unat n < unat (p_len bf) - unat fo" using n by auto
    then have "length (content s fs) - (unat fo + unat n) \<le> length (content s ts')" "0 < length (content s fs) - (unat fo + unat n)"
      using room lf ot fo by auto
    then have ts': "ts' \<noteq> []" "length (content s fs) - (unat fo + unat n) \<le> length (content s ts')" by auto
    then have nt: "p_next bt \<noteq> 0" "0 < area_len s (hd ts')" using t(5) inv(3) by (cases ts'; auto simp: positive_def)+
    have here: "unat (fo + n) < area_len s (hd fs)" "length (content s fs) - unat (fo + n) \<le> length (content s ts')"
      using o f(1,4) ts' n' by (simp_all add: pbuf_data_Some)
    have "pbuf_copy_loop p ot pf fo s = pbuf_copy_loop (p_next bt) 0 pf (fo + n) ?s"
      unfolding unfolded using t f S T n' src_left nt nq by (auto simp: n_def [symmetric] Let_def)
    moreover obtain h where "pbuf_copy_loop (p_next bt) 0 pf (fo + n) ?s = Some (ERR_OK, put_bytes h ?s)"
      "copied ?s ts' 0 (drop (unat (fo + n)) (content ?s fs)) h"
      using less.hyps [of ts' fs ?s "p_next bt" pf 0 "fo + n"] less.prems(2,4,6,10) t(1,5) inv(1,3,5) src(1) ts' nt here by auto
    ultimately show ?thesis
      using copied_tail [of ?s t bt ts' "drop (unat (fo + n)) (content ?s fs)" h] st(1,2) t(1) n' ot F o by auto
  qed
  then obtain h where h: "copied ?s ts (unat ot + unat n) ?xs h" "pbuf_copy_loop p ot pf fo s = Some (ERR_OK, put_bytes h ?s)" by blast
  have "copied s ts (unat ot) (drop (unat fo) (content s fs)) (\<lambda>m. h (?g m))"
    using finish h(1) n ot fo by simp
  then show ?case using h(2) by (auto simp: put_bytes_twice)
qed

end
