(* ===== verification/Pbuf_Chain.thy ===== *)
theory Pbuf_Chain
  imports Pbuf_Rep
begin

text \<open>
  The functions of \<open>pbuf.c\<close> that change the structure of chains, in terms of the list of pbufs:
  which pbufs \<open>pbuf_free\<close> releases, what \<open>pbuf_realloc\<close> keeps, how chains are joined and where
  \<open>pbuf_alloc\<close> puts the payload.
\<close>

section \<open>Freeing\<close>

definition last_ref :: "lwip \<Rightarrow> u32 \<Rightarrow> bool" where
  "last_ref s q = (case pbufs s q of None \<Rightarrow> False | Some b \<Rightarrow> p_ref b = 1)"

definition freed :: "lwip \<Rightarrow> u32 list \<Rightarrow> u32 list" where
  "freed s qs = takeWhile (last_ref s) qs"

definition kept :: "lwip \<Rightarrow> u32 list \<Rightarrow> u32 list" where
  "kept s qs = dropWhile (last_ref s) qs"

text \<open>
  The state after a chain is given up: the pbufs at its head that nobody else refers to are gone,
  the first of the others has lost one reference, the rest is untouched.
\<close>

definition after_free :: "u32 list \<Rightarrow> lwip \<Rightarrow> lwip" where
  "after_free qs s = s\<lparr>live := filter (\<lambda>b. fst b \<notin> set (freed s qs)) (live s),
     pbufs := (\<lambda>x. if x \<in> set (freed s qs) then None
       else if kept s qs \<noteq> [] \<and> x = hd (kept s qs) then map_option (p_ref_update (\<lambda>r. r - 1)) (pbufs s x)
       else pbufs s x)\<rparr>"

text \<open>A pbuf that \<open>malloc\<close> gave and whose type names one of the allocators.\<close>

definition freeable :: "lwip \<Rightarrow> u32 \<Rightarrow> bool" where
  "freeable s q = (case pbufs s q of None \<Rightarrow> False
     | Some b \<Rightarrow> pbuf_get_allocsrc b \<in> {0, 1, 2} \<and> q \<in> set (map fst (live s)))"

lemma freed_cong: "same_headers qs s s' \<Longrightarrow> freed s' qs = freed s qs" "same_headers qs s s' \<Longrightarrow> kept s' qs = kept s qs"
  by (auto simp: freed_def kept_def last_ref_def same_headers_def cong: takeWhile_cong dropWhile_cong)

lemma freed_simps: "freed s [] = []" "kept s [] = []"
  "freed s (q # qs) = (if last_ref s q then q # freed s qs else [])"
  "kept s (q # qs) = (if last_ref s q then kept s qs else q # qs)"
  by (simp_all add: freed_def kept_def)

lemma freed_kept: "freed s qs @ kept s qs = qs"
  by (simp add: freed_def kept_def)

lemma kept_subset: "set (kept s qs) \<subseteq> set qs"
  by (auto simp: kept_def dest: set_dropWhileD)

lemma freed_subset: "set (freed s qs) \<subseteq> set qs"
  by (auto simp: freed_def dest: set_takeWhileD)

lemma dealloc_effect:
  assumes "freeable s q" and "pbufs s q = Some b" and "q \<noteq> 0"
  shows "pbuf_dealloc q b (upd_pb q f s) = Some (s\<lparr>live := filter (\<lambda>x. fst x \<noteq> q) (live s), pbufs := (pbufs s)(q := None)\<rparr>)"
  using assms by (auto simp: pbuf_dealloc_def memp_free_def mem_free_def upd_pb_def freeable_def Let_def)

lemma p_ref_update_const: "p_ref_update f b = p_ref_update (\<lambda>_. f (p_ref b)) (b :: pbuf)"
  by (cases b) simp

lemma free_loop_effect:
  assumes "pchain s p qs" and "\<forall>q\<in>set qs. freeable s q"
  shows "pbuf_free_loop count p s = Some (count + of_nat (length (freed s qs)), after_free qs s)"
  using assms
proof (induction qs arbitrary: p s count)
  case Nil
  then show ?case by (subst pbuf_free_loop.simps) (simp add: after_free_def freed_simps)
next
  case (Cons q qs)
  then obtain b where b: "pbufs s q = Some b" "pchain s (p_next b) qs" "p = q" "q \<noteq> 0" by auto
  have dist: "q \<notin> set qs" using pchain_distinct [OF Cons.prems(1)] by simp
  show ?case
  proof (cases "p_ref b = 1")
    case True
    let ?s = "s\<lparr>live := filter (\<lambda>x. fst x \<noteq> q) (live s), pbufs := (pbufs s)(q := None)\<rparr>"
    have same: "same_headers qs s ?s" using dist by (auto simp: same_headers_def)
    have fr: "\<forall>q\<in>set qs. freeable ?s q"
    proof
      fix x assume x: "x \<in> set qs"
      then have "freeable s x" "x \<noteq> q" using Cons.prems(2) dist by auto
      then show "freeable ?s x" by (auto simp: freeable_def image_iff split: option.splits)
    qed
    have "pbuf_free_loop count p s = pbuf_free_loop (count + 1) (p_next b) ?s"
      by (subst pbuf_free_loop.simps) (use b True Cons.prems(2) dealloc_effect [of s q b] in \<open>simp\<close>)
    also have "\<dots> = Some (count + 1 + of_nat (length (freed ?s qs)), after_free qs ?s)"
      using Cons.IH [of ?s "p_next b" "count + 1"] b(2) fr pchain_cong [OF same] by simp
    also have "freed ?s qs = freed s qs" by (rule freed_cong [OF same])
    also have "after_free qs ?s = after_free (q # qs) s"
    proof -
      have "kept s qs \<noteq> [] \<Longrightarrow> hd (kept s qs) \<noteq> q" using kept_subset [of s qs] dist hd_in_set [of "kept s qs"] by blast
      moreover have "last_ref s q" using b(1) True by (simp add: last_ref_def)
      ultimately show ?thesis unfolding after_free_def freed_simps freed_cong [OF same] by (auto simp: fun_eq_iff)
    qed
    finally show ?thesis using b True by (simp add: freed_simps last_ref_def)
  next
    case False
    then have "p_ref b - 1 \<noteq> 0" by (simp add: eq_diff_eq)
    then have "pbuf_free_loop count p s = Some (count, upd_pb q (p_ref_update (\<lambda>r. p_ref b - 1)) s)"
      by (subst pbuf_free_loop.simps) (use b in simp)
    moreover have "upd_pb q (p_ref_update (\<lambda>r. p_ref b - 1)) s = after_free (q # qs) s"
      using False b by (simp add: upd_pb_def after_free_def freed_simps last_ref_def fun_upd_def p_ref_update_const [of "\<lambda>r. r - 1" b] cong: if_cong)
    ultimately show ?thesis using False b by (simp add: freed_simps last_ref_def)
  qed
qed

lemma pbuf_free_effect:
  assumes "pchain s p qs" and "\<forall>q\<in>set qs. freeable s q"
  shows "pbuf_free p s = Some (of_nat (length (freed s qs)), after_free qs s)"
  using free_loop_effect [OF assms, of 0] by (simp add: pbuf_free_def)

text \<open>Freeing a chain leaves every other chain alone.\<close>

lemma after_free_elsewhere: "set rs \<inter> set qs = {} \<Longrightarrow> same_headers rs s (after_free qs s)"
  unfolding same_headers_def
proof
  fix x assume "set rs \<inter> set qs = {}" "x \<in> set rs"
  then have "x \<notin> set qs" by blast
  then have "x \<notin> set (freed s qs)" "\<not> (kept s qs \<noteq> [] \<and> x = hd (kept s qs))"
    using freed_subset [of s qs] kept_subset [of s qs] hd_in_set [of "kept s qs"] by blast+
  then show "pbufs (after_free qs s) x = pbufs s x" by (auto simp: after_free_def)
qed

lemma after_free_bytes [simp]: "bytes (after_free qs s) = bytes s"
  by (simp add: after_free_def)

section \<open>Shrinking\<close>

lemma packet_cong:
  assumes "same_headers qs s s'" and "bytes s' = bytes s"
  shows "packet s' p qs = packet s p qs"
proof -
  have "length (pbuf_data s' q) = length (pbuf_data s q)" if "q \<in> set qs" for q
    using that assms(1) by (simp add: same_headers_def area_len_def)
  then show ?thesis using assms by (simp add: packet_def pchain_cong totals_cong)
qed

text \<open>What the walk of \<open>pbuf_realloc\<close> changes: the totals of the pbufs before the new last one.\<close>

definition shrunk_before :: "u32 list \<Rightarrow> u16 \<Rightarrow> lwip \<Rightarrow> lwip" where
  "shrunk_before as d s = s\<lparr>pbufs := (\<lambda>x. if x \<in> set as then map_option (tot_len_update (\<lambda>n. n - d)) (pbufs s x) else pbufs s x)\<rparr>"

lemma realloc_walk_effect:
  assumes "pchain s p qs" and "totals s qs" and "unat r < length (content s qs)"
  shows "\<exists>as q rs k. qs = as @ q # rs \<and> realloc_walk p r d s = Some (q, k, shrunk_before as d s) \<and> unat k \<le> area_len s q
    \<and> unat r = length (content s as) + unat k"
  using assms
proof (induction qs arbitrary: p r s)
  case (Cons q qs)
  then obtain b where b: "pbufs s q = Some b" "pchain s (p_next b) qs" "p = q" "q \<noteq> 0" by auto
  have dist: "q \<notin> set qs" using pchain_distinct [OF Cons.prems(1)] by simp
  show ?case
  proof (cases "r > p_len b")
    case True
    let ?s = "upd_pb q (tot_len_update (\<lambda>n. n - d)) s"
    have same: "same_headers qs s ?s" using dist by (auto simp: same_headers_def upd_pb_def)
    have r: "unat (r - p_len b) = unat r - unat (p_len b)" "unat (p_len b) < unat r"
      using True unat_sub_u16 [of "p_len b" r] by (simp_all add: word_less_nat_alt word_le_nat_alt)
    have same_bytes: "bytes ?s = bytes s" by (simp add: upd_pb_def)
    have C: "content ?s xs = content s xs" for xs
      by (induction xs) (auto simp: upd_pb_def pbuf_data_def split: option.splits)
    have A: "area_len ?s x = area_len s x" for x by (auto simp: upd_pb_def area_len_def split: option.splits)
    have left: "unat (r - p_len b) < length (content ?s qs)" using r Cons.prems(3) b(1) by (simp add: C pbuf_data_Some)
    have "totals ?s qs" using totals_cong [OF same] Cons.prems(2) A by simp
    then obtain as x rs k where ih: "qs = as @ x # rs" "realloc_walk (p_next b) (r - p_len b) d ?s = Some (x, k, shrunk_before as d ?s)"
      "unat k \<le> area_len s x" "unat (r - p_len b) = length (content s as) + unat k"
      using Cons.IH [OF _ \<open>totals ?s qs\<close> left] b(2) pchain_cong [OF same] unfolding C A by blast
    have "realloc_walk p r d s = realloc_walk (p_next b) (r - p_len b) d ?s"
      by (subst realloc_walk.simps) (use b True in simp)
    moreover have "shrunk_before as d ?s = shrunk_before (q # as) d s"
      using dist ih(1) by (auto simp: shrunk_before_def upd_pb_def fun_eq_iff)
    ultimately show ?thesis using ih r b
      by (intro exI [of _ "q # as"] exI [of _ x] exI [of _ rs] exI [of _ k]) (simp add: pbuf_data_Some)
  next
    case False
    then have "realloc_walk p r d s = Some (q, r, s)" by (subst realloc_walk.simps) (use b in simp)
    moreover have "shrunk_before [] d s = s" by (simp add: shrunk_before_def)
    ultimately show ?thesis using False b
      by (intro exI [of _ "[]"] exI [of _ q] exI [of _ qs] exI [of _ r]) (simp add: pbuf_data_Some not_less word_le_nat_alt)
  qed
qed simp

text \<open>The totals before the new end lose what is cut off, so the shortened chain is a packet.\<close>

lemma shrunk_packet:
  assumes "pchain s p (as @ q # rs)" and "totals s (as @ q # rs)" and q: "pbufs s q = Some bq" "unat k \<le> unat (p_len bq)"
    and d: "unat d = unat (p_len bq) - unat k + length (content s rs)"
    and as: "\<forall>x\<in>set as. pbufs s' x = map_option (tot_len_update (\<lambda>n. n - d)) (pbufs s x)"
    and q': "pbufs s' q = Some (bq\<lparr>p_len := k, tot_len := k, p_next := 0\<rparr>)" and same_bytes: "bytes s' = bytes s"
  shows "pchain s' p (as @ [q]) \<and> totals s' (as @ [q]) \<and> content s' (as @ [q]) = content s as @ take (unat k) (pbuf_data s q)"
  using assms(1,2) as
proof (induction as arbitrary: p)
  case Nil
  have "pbuf_data s' q = take (unat k) (pbuf_data s q)"
    using q q' same_bytes take_bytes_at [of "ucast k" "ucast (p_len bq)" "bytes s" "payload bq"] by (simp add: pbuf_data_Some)
  then show ?case using Nil q q' by (auto simp: area_len_def)
next
  case (Cons a as)
  then obtain b :: pbuf where b: "pbufs s a = Some b" "pchain s (p_next b) (as @ q # rs)" "p = a" "a \<noteq> 0"
    "unat (tot_len b) = length (content s (a # as @ q # rs))" "totals s (as @ q # rs)" by auto
  have a': "pbufs s' a = Some (b\<lparr>tot_len := tot_len b - d\<rparr>)" using Cons.prems(3) b(1) by (cases b) simp
  have ih: "pchain s' (p_next b) (as @ [q])" "totals s' (as @ [q])"
    "content s' (as @ [q]) = content s as @ take (unat k) (pbuf_data s q)"
    using Cons.IH [OF b(2,6)] Cons.prems(3) by auto
  have da: "pbuf_data s' a = pbuf_data s a" using a' b(1) same_bytes by (simp add: pbuf_data_Some)
  have "d \<le> tot_len b" using b(5) d q by (simp add: word_le_nat_alt pbuf_data_Some)
  then have "unat (tot_len b - d) = unat (tot_len b) - unat d" by (rule unat_sub_u16)
  moreover have L: "length (content s' as) + area_len s' q = length (content s as) + unat k"
    using arg_cong [OF ih(3), of length] q by (simp add: pbuf_data_Some)
  ultimately have "unat (tot_len b - d) = length (content s' (a # as @ [q]))"
    using b(1,5) d q da by (simp add: pbuf_data_Some)
  then show ?case using ih a' b(3,4) da L q by (simp add: pbuf_data_Some)
qed

lemma pbuf_realloc_effect:
  assumes pk: "packet s p qs" and less: "unat new_len < length (content s qs)" and fr: "\<forall>q\<in>set qs. freeable s q"
  shows "\<exists>as q rs s'. qs = as @ q # rs \<and> pbuf_realloc p new_len s = Some s' \<and> packet s' p (as @ [q])
    \<and> content s' (as @ [q]) = take (unat new_len) (content s qs)
    \<and> bytes s' = bytes s \<and> live s' = filter (\<lambda>b. fst b \<notin> set (freed s rs)) (live s)"
proof -
  have ch: "pchain s p qs" "totals s qs" "qs \<noteq> []" using pk by (auto simp: packet_def)
  then obtain b :: pbuf where b: "pbufs s p = Some b" "unat (tot_len b) = length (content s qs)" by (cases qs) auto
  let ?d = "tot_len b - new_len"
  obtain as q rs k where w: "qs = as @ q # rs" "realloc_walk p new_len ?d s = Some (q, k, shrunk_before as ?d s)"
    "unat k \<le> area_len s q" "unat new_len = length (content s as) + unat k"
    using realloc_walk_effect [OF ch(1,2) less, of ?d] by blast
  obtain bq where q: "pbufs s q = Some bq" "pchain s (p_next bq) rs" "q \<noteq> 0"
    using pchain_suffix [of s p as q rs] ch(1) w(1) by auto
  have dist: "q \<notin> set as" "q \<notin> set rs" "set rs \<inter> set as = {}" using pchain_distinct [OF ch(1)] w(1) by auto
  let ?s1 = "upd_pb q (\<lambda>b. b\<lparr>p_len := k, tot_len := k\<rparr>) (shrunk_before as ?d s)"
  let ?s2 = "after_free rs ?s1"
  let ?s' = "upd_pb q (p_next_update (\<lambda>_. 0)) ?s2"
  have same: "same_headers rs s ?s1" using dist by (auto simp: same_headers_def upd_pb_def shrunk_before_def)
  have lv: "live ?s1 = live s" by (simp add: upd_pb_def shrunk_before_def)
  have fr': "\<forall>q\<in>set rs. freeable ?s1 q"
    unfolding freeable_def lv using fr w(1) same by (simp add: freeable_def same_headers_def)
  have free: "(if p_next bq \<noteq> 0 then do { f \<leftarrow> pbuf_free (p_next bq) ?s1; Some (snd f) } else Some ?s1) = Some ?s2"
  proof (cases rs)
    case Nil
    then show ?thesis using q(2) by (simp add: after_free_def freed_simps)
  next
    case (Cons r rs')
    then have "p_next bq \<noteq> 0" using q(2) by auto
    moreover have "pbuf_free (p_next bq) ?s1 = Some (of_nat (length (freed ?s1 rs)), ?s2)"
      using pbuf_free_effect fr' q(2) pchain_cong [OF same] by blast
    ultimately show ?thesis by simp
  qed
  have q1: "pbufs (shrunk_before as ?d s) q = Some bq" using q(1) dist(1) by (simp add: shrunk_before_def)
  have "pbuf_realloc p new_len s = do {
      s \<leftarrow> (if p_next bq \<noteq> 0 then do { f \<leftarrow> pbuf_free (p_next bq) ?s1; Some (snd f) } else Some ?s1);
      Some (upd_pb q (p_next_update (\<lambda>_. 0)) s) }"
    using b less w(2) q1 by (simp add: pbuf_realloc_def mem_trim_def Let_def word_le_nat_alt)
  then have r: "pbuf_realloc p new_len s = Some ?s'" unfolding free by simp
  have at: "pbufs ?s2 x = pbufs ?s1 x" if "x \<notin> set rs" for x
    using after_free_elsewhere [of "[x]" rs ?s1] that by (simp add: same_headers_def)
  have "unat ?d = unat (tot_len b) - unat new_len" by (rule unat_sub_u16) (use b(2) less in \<open>simp add: word_le_nat_alt\<close>)
  then have d: "unat ?d = unat (p_len bq) - unat k + length (content s rs)"
    using b(2) w q(1) by (simp add: pbuf_data_Some)
  have "\<forall>x\<in>set as. pbufs ?s' x = map_option (tot_len_update (\<lambda>n. n - ?d)) (pbufs s x)"
  proof
    fix x assume "x \<in> set as"
    then have "x \<noteq> q" "pbufs ?s2 x = pbufs ?s1 x" "x \<in> set as" using dist by (auto intro!: at)
    then show "pbufs ?s' x = map_option (tot_len_update (\<lambda>n. n - ?d)) (pbufs s x)"
      by (simp add: upd_pb_def shrunk_before_def)
  qed
  moreover have "pbufs ?s' q = Some (bq\<lparr>p_len := k, tot_len := k, p_next := 0\<rparr>)"
    using at [OF dist(2)] q1 by (simp add: upd_pb_def)
  moreover have "bytes ?s' = bytes s" by (simp add: upd_pb_def shrunk_before_def)
  ultimately have "pchain ?s' p (as @ [q]) \<and> totals ?s' (as @ [q]) \<and> content ?s' (as @ [q]) = content s as @ take (unat k) (pbuf_data s q)"
    using shrunk_packet [of s p as q rs bq k ?d ?s'] ch w(1,3) q(1) d by (simp add: pbuf_data_Some)
  moreover have "content s as @ take (unat k) (pbuf_data s q) = take (unat new_len) (content s qs)"
    using w q(1) by (simp add: pbuf_data_Some)
  moreover have "live ?s' = filter (\<lambda>b. fst b \<notin> set (freed s rs)) (live s)"
    using lv freed_cong(1) [OF same] by (simp add: upd_pb_def after_free_def)
  ultimately show ?thesis using r w(1) \<open>bytes ?s' = bytes s\<close> by (auto simp: packet_def)
qed

section \<open>Allocating\<close>

lemma unat_and_not_3: "unat ((w :: u32) AND NOT 3) = unat w div 4 * 4"
proof -
  have m: "(3 :: u32) = mask 2" by (simp add: mask_eq_exp_minus_1)
  have "unat (w AND 3) = unat w mod 4" unfolding m take_bit_eq_mask [symmetric]
    by (simp add: take_bit_eq_mod unat_mod)
  moreover have "w = (w AND 3) + (w AND NOT 3)"
  proof -
    have "w = (w AND 3) OR (w AND NOT 3)" "(w AND 3) AND (w AND NOT 3) = 0" by (auto intro!: bit_eqI simp: bit_simps)
    then show ?thesis using disjunctive_add_eq_or [of "w AND 3" "w AND NOT 3"] by simp
  qed
  then have "w AND NOT 3 = w - (w AND 3)" by (metis add_diff_cancel_left')
  ultimately have "unat (w AND NOT 3) = unat w - unat w mod 4"
    using unat_sub [of "w AND 3" w] word_and_le2 [of w 3] by simp
  then show ?thesis by (simp add: minus_mod_eq_div_mult)
qed

lemma unat_align: "unat n + 3 < 2 ^ 32 \<Longrightarrow> unat (LWIP_MEM_ALIGN_SIZE n) = (unat n + 3) div 4 * 4"
  "unat n + 3 < 2 ^ 32 \<Longrightarrow> unat (LWIP_MEM_ALIGN n) = (unat n + 3) div 4 * 4"
proof -
  assume "unat n + 3 < 2 ^ 32"
  then have "unat (n + 3) = unat n + 3" by (simp add: unat_word_ariths)
  then show "unat (LWIP_MEM_ALIGN_SIZE n) = (unat n + 3) div 4 * 4" "unat (LWIP_MEM_ALIGN n) = (unat n + 3) div 4 * 4"
    using unat_and_not_3 [of "n + 3"] by (simp_all add: LWIP_MEM_ALIGN_SIZE_def LWIP_MEM_ALIGN_def MEM_ALIGNMENT_def add_diff_eq [symmetric])
qed

lemma align_room:
  "(p :: nat) mod 4 = 0 \<Longrightarrow> p + (16 + (r + 3) div 4 * 4 + l) < 2 ^ 32 \<Longrightarrow> p + 16 + r + 3 < 2 ^ 32"
  "(p :: nat) mod 4 = 0 \<Longrightarrow> (p + 16 + r + 3) div 4 * 4 = p + 16 + (r + 3) div 4 * 4"
  by (simp_all, presburger+)

lemma layer_offset_bound: "unat (layer_offset layer) \<le> 54"
  by (cases layer) simp_all

lemma alloc_ram_exact:
  assumes ok: "\<And>x n lv. malloc x n lv \<noteq> 0 \<Longrightarrow> unat (malloc x n lv) mod 4 = 0 \<and> unat (malloc x n lv) + unat n < 2 ^ 32"
  shows "\<exists>p s'. pbuf_alloc malloc layer l PBUF_RAM s = Some (p, s') \<and> (p = 0 \<and> (\<exists>k. s' = s\<lparr>mallocs := k\<rparr>)
    \<or> (\<exists>b n. p \<noteq> 0 \<and> p = malloc (mallocs s) n (live s)
         \<and> s' = pbuf_init_alloced_pbuf p b l l PBUF_RAM 0 (s\<lparr>mallocs := mallocs s + 1, live := (p, n) # live s\<rparr>)
         \<and> unat p + 16 + unat (layer_offset layer) \<le> unat b \<and> unat b + unat l \<le> unat p + unat n))"
proof -
  define off where "off = layer_offset layer"
  define A where "A = (unat off + 3) div 4 * 4"
  define L where "L = (unat l + 3) div 4 * 4"
  have off: "unat off \<le> 54" unfolding off_def by (rule layer_offset_bound)
  have sz: "unat off \<le> A" "A \<le> unat off + 3" "unat l \<le> L"
    unfolding A_def L_def by linarith+
  have "unat l < 65536" using unat_less_u16 [of l] by simp
  then have L65536: "L \<le> 65536" unfolding L_def by presburger
  let ?A = "LWIP_MEM_ALIGN_SIZE (ucast off)" and ?L = "LWIP_MEM_ALIGN_SIZE (ucast l)"
  have A: "unat ?A = A" using off unat_align(1) [of "ucast off"] by (simp add: A_def)
  have L: "unat ?L = L" using unat_less_u16 [of l] unat_align(1) [of "ucast l"] by (simp add: L_def)
  have "unat (?A + ?L) = A + L" using A L sz L65536 off by (simp add: unat_word_ariths)
  then have pl: "unat (ucast (?A + ?L) :: u16) = (A + L) mod 65536" by (simp add: unsigned_ucast_eq take_bit_eq_mod)
  have h: "LWIP_MEM_ALIGN_SIZE SIZEOF_STRUCT_PBUF = 16" "SIZEOF_STRUCT_PBUF = 16" "LWIP_MEM_ALIGN_SIZE 16 = 16" by (simp_all add: LWIP_MEM_ALIGN_SIZE_def SIZEOF_STRUCT_PBUF_def MEM_ALIGNMENT_def)
  let ?pl = "ucast (?A + ?L) :: u16"
  let ?n = "16 + ucast ?pl :: u32"
  show ?thesis
  proof (cases "ucast ?pl < ?L \<or> ?n < ?L")
    case True
    then have "pbuf_alloc malloc layer l PBUF_RAM s = Some (0, s)"
      by (auto simp: pbuf_alloc_def Let_def off_def [symmetric] h)
    then show ?thesis by (intro exI [of _ 0] exI [of _ s] conjI disjI1 exI [of _ "mallocs s"]) simp_all
  next
    case False
    then have "L \<le> (A + L) mod 65536" using L pl by (simp add: word_less_nat_alt)
    then have AL: "A + L < 65536" using sz L65536 off by (simp add: mod_if split: if_splits)
    then have n: "unat ?n = 16 + A + L" using pl by (simp add: unat_word_ariths)
    let ?p = "malloc (mallocs s) ?n (live s)"
    show ?thesis
    proof (cases "?p = 0")
      case True
      then have "pbuf_alloc malloc layer l PBUF_RAM s = Some (0, s\<lparr>mallocs := mallocs s + 1\<rparr>)"
        using False by (simp add: pbuf_alloc_def Let_def off_def [symmetric] h mem_malloc_def)
      then show ?thesis by auto
    next
      case there: False
      have p: "unat ?p mod 4 = 0" "unat ?p + (16 + A + L) < 2 ^ 32" using ok [OF there] n by simp_all
      let ?b = "LWIP_MEM_ALIGN (?p + 16 + ucast off)"
      have room: "unat ?p + 16 + unat off + 3 < 2 ^ 32" using align_room(1) [OF p(1), of "unat off" L] p(2) unfolding A_def by simp
      then have "unat (?p + 16 + ucast off) = unat ?p + 16 + unat off" by (simp add: unat_word_ariths)
      then have "unat ?b = (unat ?p + 16 + unat off + 3) div 4 * 4" using unat_align(2) [of "?p + 16 + ucast off"] room by simp
      then have b: "unat ?b = unat ?p + 16 + A" using align_room(2) [OF p(1), of "unat off"] unfolding A_def by simp
      let ?s = "pbuf_init_alloced_pbuf ?p ?b l l PBUF_RAM 0 (s\<lparr>mallocs := mallocs s + 1, live := (?p, ?n) # live s\<rparr>)"
      have "pbuf_alloc malloc layer l PBUF_RAM s = Some (?p, ?s)"
        using False there by (simp add: pbuf_alloc_def Let_def off_def [symmetric] h mem_malloc_def)
      moreover have "unat ?p + 16 + unat (layer_offset layer) \<le> unat ?b \<and> unat ?b + unat l \<le> unat ?p + unat ?n"
        using sz b n off_def by simp
      ultimately show ?thesis using there by blast
    qed
  qed
qed

lemma alloc_ram_effect:
  assumes "\<And>x n lv. malloc x n lv \<noteq> 0 \<Longrightarrow> unat (malloc x n lv) mod 4 = 0 \<and> unat (malloc x n lv) + unat n < 2 ^ 32"
  shows "\<exists>p s'. pbuf_alloc malloc layer l PBUF_RAM s = Some (p, s') \<and> (p = 0 \<and> live s' = live s \<and> pbufs s' = pbufs s
    \<or> packet s' p [p] \<and> length (content s' [p]) = unat l
      \<and> (\<exists>b n. pbufs s' p = Some b \<and> live s' = (p, n) # live s \<and> unat p + 16 + unat (layer_offset layer) \<le> unat (payload b)
           \<and> unat (payload b) + unat l \<le> unat p + unat n))"
proof -
  obtain p s' where r: "pbuf_alloc malloc layer l PBUF_RAM s = Some (p, s')" and c: "p = 0 \<and> (\<exists>k. s' = s\<lparr>mallocs := k\<rparr>)
    \<or> (\<exists>b n. p \<noteq> 0 \<and> p = malloc (mallocs s) n (live s)
         \<and> s' = pbuf_init_alloced_pbuf p b l l PBUF_RAM 0 (s\<lparr>mallocs := mallocs s + 1, live := (p, n) # live s\<rparr>)
         \<and> unat p + 16 + unat (layer_offset layer) \<le> unat b \<and> unat b + unat l \<le> unat p + unat n)"
    using alloc_ram_exact [of malloc layer l s, OF assms] by blast
  from c show ?thesis
  proof
    assume "p = 0 \<and> (\<exists>k. s' = s\<lparr>mallocs := k\<rparr>)"
    then show ?thesis using r by auto
  next
    assume "\<exists>b n. p \<noteq> 0 \<and> p = malloc (mallocs s) n (live s)
      \<and> s' = pbuf_init_alloced_pbuf p b l l PBUF_RAM 0 (s\<lparr>mallocs := mallocs s + 1, live := (p, n) # live s\<rparr>)
      \<and> unat p + 16 + unat (layer_offset layer) \<le> unat b \<and> unat b + unat l \<le> unat p + unat n"
    then obtain b n where "p \<noteq> 0" "s' = pbuf_init_alloced_pbuf p b l l PBUF_RAM 0 (s\<lparr>mallocs := mallocs s + 1, live := (p, n) # live s\<rparr>)"
      "unat p + 16 + unat (layer_offset layer) \<le> unat b" "unat b + unat l \<le> unat p + unat n" by blast
    moreover from this have "packet s' p [p] \<and> length (content s' [p]) = unat l"
      by (simp add: packet_def pbuf_init_alloced_pbuf_def area_len_def)
    ultimately show ?thesis using r by (auto simp: pbuf_init_alloced_pbuf_def)
  qed
qed

section \<open>Joining\<close>

text \<open>What \<open>pbuf_cat\<close> does to the headers of the first chain.\<close>

definition lengthened :: "u32 list \<Rightarrow> u16 \<Rightarrow> u32 \<Rightarrow> lwip \<Rightarrow> lwip" where
  "lengthened hs d t s = s\<lparr>pbufs := (\<lambda>x. if x \<in> set hs
     then map_option (\<lambda>b. b\<lparr>tot_len := tot_len b + d, p_next := (if x = last hs then t else p_next b)\<rparr>) (pbufs s x) else pbufs s x)\<rparr>"

lemma cat_loop_effect:
  assumes "pchain s h hs" and "hs \<noteq> []" and "t \<notin> set hs" and "pbufs s t = Some tb"
  shows "pbuf_cat_loop h t s = Some (lengthened hs (tot_len tb) t s)"
  using assms
proof (induction hs arbitrary: h s)
  case (Cons q qs)
  then obtain b where b: "pbufs s q = Some b" "pchain s (p_next b) qs" "h = q" "q \<noteq> 0" by auto
  have dist: "q \<notin> set qs" using pchain_distinct [OF Cons.prems(1)] by simp
  let ?s = "upd_pb q (tot_len_update (\<lambda>n. n + tot_len tb)) s"
  have same: "same_headers qs s ?s" using dist by (auto simp: same_headers_def upd_pb_def)
  have tq: "t \<noteq> q" using Cons.prems(3) by auto
  show ?case
  proof (cases qs)
    case Nil
    then have "p_next b = 0" using b(2) by simp
    then have "pbuf_cat_loop h t s = Some (upd_pb q (p_next_update (\<lambda>_. t)) ?s)"
      by (subst pbuf_cat_loop.simps) (use b Cons.prems(4) in simp)
    also have "upd_pb q (p_next_update (\<lambda>_. t)) ?s = lengthened [q] (tot_len tb) t s"
      using b(1) by (cases b) (simp add: upd_pb_def lengthened_def fun_eq_iff)
    finally show ?thesis using Nil by simp
  next
    case more: (Cons r rs)
    then have "p_next b \<noteq> 0" using b(2) by auto
    then have "pbuf_cat_loop h t s = pbuf_cat_loop (p_next b) t ?s"
      by (subst pbuf_cat_loop.simps) (use b Cons.prems(4) in simp)
    also have "\<dots> = Some (lengthened qs (tot_len tb) t ?s)"
    proof (rule Cons.IH)
      show "pchain ?s (p_next b) qs" using b(2) pchain_cong [OF same] by blast
      show "qs \<noteq> []" "t \<notin> set qs" "pbufs ?s t = Some tb" using more Cons.prems(3,4) tq by (auto simp: upd_pb_def)
    qed
    also have "lengthened qs (tot_len tb) t ?s = lengthened (q # qs) (tot_len tb) t s"
    proof -
      have "last (q # qs) \<noteq> q" using dist more last_in_set [of qs] by auto
      then show ?thesis using dist more b(1) by (cases b) (auto simp: lengthened_def upd_pb_def fun_eq_iff)
    qed
    finally show ?thesis .
  qed
qed simp

lemma longer_packet:
  assumes "pchain s h hs" and "totals s hs" and "hs \<noteq> []"
    and "\<forall>x\<in>set hs. pbufs s' x = map_option (\<lambda>b. b\<lparr>tot_len := tot_len b + d, p_next := (if x = last hs then t else p_next b)\<rparr>) (pbufs s x)"
    and "length (content s hs) + unat d < 2 ^ 16"
    and ts: "pchain s' t ts" "totals s' ts" "unat d = length (content s' ts)" and same_bytes: "bytes s' = bytes s"
  shows "pchain s' h (hs @ ts) \<and> totals s' (hs @ ts) \<and> content s' (hs @ ts) = content s hs @ content s' ts"
  using assms(1-5)
proof (induction hs arbitrary: h)
  case (Cons q qs)
  then obtain b :: pbuf where b: "pbufs s q = Some b" "pchain s (p_next b) qs" "h = q" "q \<noteq> 0"
    "unat (tot_len b) = length (content s (q # qs))" "totals s qs" by auto
  have dist: "q \<notin> set qs" using pchain_distinct [OF Cons.prems(1)] by simp
  let ?b = "b\<lparr>tot_len := tot_len b + d, p_next := (if q = last (q # qs) then t else p_next b)\<rparr>"
  have q': "pbufs s' q = Some ?b" using Cons.prems(4) b(1) by simp
  have dq: "pbuf_data s' q = pbuf_data s q" using q' b(1) same_bytes by (simp add: pbuf_data_Some)
  have tot: "unat (tot_len b + d) = length (content s (q # qs)) + unat d"
    using b(5) Cons.prems(5) by (intro trans [OF unat_add_u16]) simp_all
  show ?case
  proof (cases qs)
    case Nil
    then show ?thesis using q' dq b ts tot by simp
  next
    case (Cons r rs)
    then have last: "last (q # qs) = last qs" "q \<noteq> last qs" using dist by auto
    have "pchain s' (p_next b) (qs @ ts) \<and> totals s' (qs @ ts) \<and> content s' (qs @ ts) = content s qs @ content s' ts"
      using Cons.IH [OF b(2,6)] Cons.prems(4,5) Cons last by simp
    then show ?thesis using q' dq b ts tot last by auto
  qed
qed simp

lemma pbuf_cat_effect:
  assumes "packet s h hs" and "packet s t ts" and apart: "set hs \<inter> set ts = {}"
    and sum: "length (content s hs) + length (content s ts) < 2 ^ 16"
  shows "\<exists>s'. pbuf_cat h t s = Some s' \<and> packet s' h (hs @ ts) \<and> content s' (hs @ ts) = content s hs @ content s ts
    \<and> bytes s' = bytes s \<and> live s' = live s \<and> (\<forall>x. x \<notin> set hs \<longrightarrow> pbufs s' x = pbufs s x)"
proof -
  have hs: "pchain s h hs" "totals s hs" "hs \<noteq> []" and ts: "pchain s t ts" "totals s ts" "ts \<noteq> []"
    using assms(1,2) by (auto simp: packet_def)
  obtain tb :: pbuf where tb: "pbufs s t = Some tb" "unat (tot_len tb) = length (content s ts)" "t \<in> set ts" "t \<noteq> 0"
    using ts by (cases ts) auto
  have h0: "h \<noteq> 0" using hs by (cases hs) auto
  let ?s = "lengthened hs (tot_len tb) t s"
  have same: "same_headers ts s ?s" using apart by (auto simp: same_headers_def lengthened_def)
  have b: "bytes ?s = bytes s" by (simp add: lengthened_def)
  have C: "content ?s ts = content s ts" by (rule content_cong [OF same b])
  have "pchain ?s t ts" "totals ?s ts" using assms(2) packet_cong [OF same b] by (auto simp: packet_def)
  moreover have "\<forall>x\<in>set hs. pbufs ?s x = map_option (\<lambda>b. b\<lparr>tot_len := tot_len b + tot_len tb, p_next := (if x = last hs then t else p_next b)\<rparr>) (pbufs s x)"
    by (simp add: lengthened_def)
  ultimately have "pchain ?s h (hs @ ts) \<and> totals ?s (hs @ ts) \<and> content ?s (hs @ ts) = content s hs @ content ?s ts"
    using longer_packet [OF hs, where s' = ?s and d = "tot_len tb" and t = t and ts = ts] sum tb(2) C b by simp
  moreover have "pbuf_cat h t s = Some ?s"
    using cat_loop_effect [OF hs(1,3) _ tb(1)] apart tb(3,4) h0 by (auto simp: pbuf_cat_def)
  ultimately show ?thesis using hs(3) C by (auto simp: packet_def lengthened_def)
qed

section \<open>Headers\<close>

text \<open>A header is put before the contents, and removing it gives the old state back.\<close>

lemma add_header_effect:
  assumes pk: "packet s p (q # qs)" and r: "pbuf_add_header p n s = Some (0, s')" and q: "pbufs s p = Some b"
  shows "packet s' p (q # qs) \<and> content s' (q # qs) = bytes_at (bytes s) (payload b - n) n @ content s (q # qs)
    \<and> pbuf_remove_header p n s' = Some (0, s)"
proof (cases "n = 0")
  case True
  have "p \<noteq> 0" using pk by (auto simp: packet_def)
  then have "s' = s" using r True by (simp add: pbuf_add_header_def pbuf_add_header_impl_def)
  then show ?thesis using True pk \<open>p \<noteq> 0\<close> by (simp add: pbuf_remove_header_def)
next
  case n0: False
  have p: "p = q" "p \<noteq> 0" "pchain s (p_next b) qs" "totals s qs" "unat (tot_len b) = length (content s (q # qs))"
    using pk q by (auto simp: packet_def)
  let ?n = "ucast n :: u16"
  have s': "n \<le> 0xFFFF" "\<not> ?n + tot_len b < ?n"
    "s' = upd_pb p (\<lambda>b. b\<lparr>payload := payload b - n, p_len := p_len b + ?n, tot_len := tot_len b + ?n\<rparr>) s"
    using r n0 q p(2) by (auto simp: pbuf_add_header_def pbuf_add_header_impl_def upd_pb_def Let_def not_less split: if_splits)
  have n: "unat ?n = unat n" using s'(1) by (simp add: unsigned_ucast_eq take_bit_eq_mod word_le_nat_alt)
  have ok: "unat ?n + unat (tot_len b) < 2 ^ 16"
  proof (rule ccontr)
    assume over: "\<not> unat ?n + unat (tot_len b) < 2 ^ 16"
    have "unat (?n + tot_len b) = (unat ?n + unat (tot_len b)) mod 2 ^ 16" by (simp add: unat_word_ariths)
    also have "\<dots> = unat ?n + unat (tot_len b) - 2 ^ 16"
      using over unat_less_u16 [of ?n] unat_less_u16 [of "tot_len b"] by (simp add: mod_if)
    finally show False using s'(2) over unat_less_u16 [of "tot_len b"] by (simp add: word_less_nat_alt)
  qed
  have le: "unat (p_len b) \<le> unat (tot_len b)" using p q by (simp add: pbuf_data_Some)
  have l: "unat (p_len b + ?n) = unat (p_len b) + unat n" "unat (tot_len b + ?n) = unat (tot_len b) + unat n"
    using ok le n by (auto intro!: trans [OF unat_add_u16])
  have q': "pbufs s' q = Some (b\<lparr>payload := payload b - n, p_len := p_len b + ?n, tot_len := tot_len b + ?n\<rparr>)"
    using s'(3) q p(1) by (simp add: upd_pb_def)
  have dist: "q \<notin> set qs" using pchain_distinct [of s p "q # qs"] pk by (simp add: packet_def)
  have same: "same_headers qs s s'" using dist s'(3) p(1) by (auto simp: same_headers_def upd_pb_def)
  have b: "bytes s' = bytes s" using s'(3) by (simp add: upd_pb_def)
  have C: "content s' qs = content s qs" by (rule content_cong [OF same b])
  have T: "totals s' qs = totals s qs" by (rule totals_cong [OF same]) (use same in \<open>simp add: same_headers_def area_len_def\<close>)
  have "ucast (p_len b + ?n) = n + ucast (p_len b)"
    using l ok n le by (intro word_unat_eq_iff [THEN iffD2]) (simp add: unat_word_ariths)
  then have D: "pbuf_data s' q = bytes_at (bytes s) (payload b - n) n @ pbuf_data s q"
    using bytes_at_append [of n "ucast (p_len b)" "bytes s" "payload b - n"] q q' p(1) b ok le n by (simp add: pbuf_data_Some)
  have "pbuf_remove_header p n s' = Some (0, upd_pb p (\<lambda>b. b\<lparr>payload := payload b + n, p_len := p_len b - ?n, tot_len := tot_len b - ?n\<rparr>) s')"
    using q' s'(1) n0 p(1,2) l n by (simp add: pbuf_remove_header_def word_le_nat_alt word_less_nat_alt Let_def)
  also have "upd_pb p (\<lambda>b. b\<lparr>payload := payload b + n, p_len := p_len b - ?n, tot_len := tot_len b - ?n\<rparr>) s' = s"
    unfolding s'(3) using q by (simp add: upd_pb_def fun_upd_idem)
  finally show ?thesis using pk p q' C T D l pchain_cong [OF same] n by (simp add: packet_def)
qed

end
