(* ===== verification/Pbuf_Find.thy ===== *)
theory Pbuf_Find
  imports Pbuf_Rep
begin

text \<open>Comparison and search in the contents of a chain: \<open>pbuf_memcmp\<close> and \<open>pbuf_memfind\<close>.\<close>

definition matches :: "lwip \<Rightarrow> u32 list \<Rightarrow> u32 \<Rightarrow> u16 \<Rightarrow> nat \<Rightarrow> bool" where
  "matches s qs mem n i \<longleftrightarrow> take (unat n) (drop i (content s qs)) = bytes_at (bytes s) mem (ucast n)"

lemma matches_nth:
  assumes "i + unat n \<le> length (content s qs)"
  shows "matches s qs mem n i \<longleftrightarrow> (\<forall>j < unat n. content s qs ! (i + j) = bytes s (mem + of_nat j))"
  using assms by (auto simp: matches_def list_eq_iff_nth_eq bytes_at_def)

lemma memcmp_loop_effect:
  assumes "pchain s q qs" and "totals s qs" and "unat start + unat n \<le> length (content s qs)" and "i \<le> n"
  shows "\<exists>r. memcmp_loop q start s2 n i s = Some r
    \<and> (r = 0 \<longleftrightarrow> (\<forall>j. unat i \<le> j \<and> j < unat n \<longrightarrow> content s qs ! (unat start + j) = bytes s (s2 + of_nat j)))"
  using assms(4)
proof (induction "unat n - unat i" arbitrary: i)
  case 0
  then have "i = n" by (simp add: word_le_nat_alt word_unat_eq_iff)
  then show ?case by (subst memcmp_loop.simps) auto
next
  case (Suc k)
  then have i: "unat i < unat n" by simp
  have i1: "unat (i + 1) = unat i + 1" using i unat_less_u16 [of n] by (intro trans [OF unat_add_u16]) simp_all
  have si: "unat (start + i) = unat start + unat i" using i assms(3) total_bound [OF assms(2)] by (intro unat_add_u16) simp
  have get: "pbuf_get_at q (start + i) s = Some (content s qs ! (unat start + unat i))"
    using get_at_content [OF assms(1), of "start + i"] si i assms(3) by simp
  have all: "(\<forall>j. unat i \<le> j \<and> j < unat n \<longrightarrow> content s qs ! (unat start + j) = bytes s (s2 + of_nat j))
    \<longleftrightarrow> content s qs ! (unat start + unat i) = bytes s (s2 + ucast i)
      \<and> (\<forall>j. unat i + 1 \<le> j \<and> j < unat n \<longrightarrow> content s qs ! (unat start + j) = bytes s (s2 + of_nat j))"
    (is "?L \<longleftrightarrow> ?R")
  proof
    assume ?L
    then show ?R using i by (auto dest: spec [of _ "unat i"])
  next
    assume R: ?R
    show ?L
    proof (intro allI impI)
      fix j assume j: "unat i \<le> j \<and> j < unat n"
      then show "content s qs ! (unat start + j) = bytes s (s2 + of_nat j)"
        using R by (cases "j = unat i") auto
    qed
  qed
  show ?case
  proof (cases "content s qs ! (unat start + unat i) = bytes s (s2 + ucast i)")
    case True
    have "i + 1 \<le> n" "k = unat n - unat (i + 1)" using i i1 Suc.hyps(2) by (simp_all add: word_le_nat_alt)
    from Suc.hyps(1) [OF this(2,1)] show ?thesis
      unfolding all i1 by (subst memcmp_loop.simps) (use get i True in \<open>simp add: word_less_nat_alt\<close>)
  next
    case False
    have "i + 1 \<noteq> 0" using i1 by (auto simp: word_unat_eq_iff)
    then have "(if unat i + 1 < 0xFFFF then i + 1 else 0xFFFF) \<noteq> (0 :: u16)" by simp
    moreover have "memcmp_loop q start s2 n i s = Some (if unat i + 1 < 0xFFFF then i + 1 else 0xFFFF)"
      by (subst memcmp_loop.simps) (use get i False in \<open>simp add: word_less_nat_alt\<close>)
    ultimately show ?thesis unfolding all using False by blast
  qed
qed

lemma memcmp_effect:
  assumes "packet s p qs" and "unat off + unat n \<le> length (content s qs)"
  shows "\<exists>r. pbuf_memcmp p off s2 n s = Some r \<and> (r = 0 \<longleftrightarrow> matches s qs s2 n (unat off))"
proof -
  have ch: "pchain s p qs" "totals s qs" using assms(1) by (auto simp: packet_def)
  obtain b :: pbuf where b: "pbufs s p = Some b" "unat (tot_len b) = length (content s qs)" using assms(1)
    by (cases qs) (auto simp: packet_def)
  show ?thesis
  proof (cases "unat off < length (content s qs)")
    case True
    then obtain as q rs r where f: "qs = as @ q # rs" "pbuf_skip_const p off s = Some (q, r)"
      "unat off = length (content s as) + unat r" using skip_found [OF ch(1)] by blast
    have sub: "pchain s q (q # rs)" "totals s (q # rs)" "unat r + unat n \<le> length (content s (q # rs))"
    proof -
      show "pchain s q (q # rs)" using pchain_suffix ch(1) f(1) by blast
      show "totals s (q # rs)" using ch(2) unfolding f(1) by (induction as) auto
      show "unat r + unat n \<le> length (content s (q # rs))" using assms(2) f by simp
    qed
    obtain x where x: "memcmp_loop q r s2 n 0 s = Some x"
      "x = 0 \<longleftrightarrow> (\<forall>j. unat (0 :: u16) \<le> j \<and> j < unat n \<longrightarrow> content s (q # rs) ! (unat r + j) = bytes s (s2 + of_nat j))"
      using memcmp_loop_effect [OF sub, of 0 s2] by auto
    have "content s qs ! (unat off + j) = content s (q # rs) ! (unat r + j)" for j
      unfolding f(1) f(3) by (simp add: nth_append del: content_simps(2))
    then have "x = 0 \<longleftrightarrow> matches s qs s2 n (unat off)" unfolding x(2) matches_nth [OF assms(2)] by simp
    then show ?thesis using x(1) f(2) b assms(2) by (simp add: pbuf_memcmp_def)
  next
    case False
    then obtain r where r: "pbuf_skip_const p off s = Some (0, r)" using skip_behind [OF ch(1), of off] by auto
    have n: "n = 0" using False assms(2) by (simp add: unat_eq_0 [symmetric])
    have "memcmp_loop 0 r s2 0 0 s = Some 0" by (subst memcmp_loop.simps) simp
    then show ?thesis using r b assms(2) n by (simp add: pbuf_memcmp_def matches_def bytes_at_def)
  qed
qed

text \<open>The search returns the first match that is not before \<open>i\<close>, or 0xFFFF when there is none.\<close>

definition first_match :: "lwip \<Rightarrow> u32 list \<Rightarrow> u32 \<Rightarrow> u16 \<Rightarrow> nat \<Rightarrow> u16 \<Rightarrow> bool" where
  "first_match s qs mem n i r \<longleftrightarrow>
     (let found = (\<lambda>j. i \<le> j \<and> j + unat n \<le> length (content s qs) \<and> matches s qs mem n j) in
      found (unat r) \<and> (\<forall>j < unat r. \<not> found j) \<or> r = 0xFFFF \<and> (\<forall>j. \<not> found j))"

lemma memfind_loop_effect:
  assumes "packet s p qs" and n: "unat n \<le> length (content s qs)" and m: "unat m = length (content s qs) - unat n"
    and "unat i \<le> unat m + 1"
  shows "\<exists>r. memfind_loop p mem n m i s = Some r \<and> first_match s qs mem n (unat i) r"
  using assms(4)
proof (induction "unat m + 1 - unat i" arbitrary: i)
  case 0
  then have "\<not> i \<le> m" by (simp add: word_le_nat_alt)
  then have "memfind_loop p mem n m i s = Some 0xFFFF" by (subst memfind_loop.simps) simp
  moreover have "first_match s qs mem n (unat i) 0xFFFF" using 0 m n by (auto simp: first_match_def)
  ultimately show ?case by blast
next
  case (Suc k)
  then have i: "i \<le> m" "unat i + unat n \<le> length (content s qs)" using m n by (simp_all add: word_le_nat_alt)
  obtain x where x: "pbuf_memcmp p i mem n s = Some x" "x = 0 \<longleftrightarrow> matches s qs mem n (unat i)"
    using memcmp_effect [OF assms(1) i(2)] by blast
  show ?case
  proof (cases "matches s qs mem n (unat i)")
    case True
    then have "memfind_loop p mem n m i s = Some i" by (subst memfind_loop.simps) (use i x in simp)
    moreover have "first_match s qs mem n (unat i) i" using True i(2) by (auto simp: first_match_def)
    ultimately show ?thesis by blast
  next
    case False
    have "n \<noteq> 0" using False by (auto simp: matches_def bytes_at_def)
    then have "0 < unat n" by (simp add: word_pos_u16)
    moreover have "length (content s qs) < 2 ^ 16" using total_bound assms(1) by (auto simp: packet_def)
    ultimately have i1: "unat (i + 1) = unat i + 1" using i by (intro trans [OF unat_add_u16]) simp_all
    then have here: "k = unat m + 1 - unat (i + 1)" "unat (i + 1) \<le> unat m + 1" "unat (i + 1) = unat i + 1"
      using Suc.hyps(2) i(1) by (simp_all add: word_le_nat_alt)
    then obtain r where r: "memfind_loop p mem n m (i + 1) s = Some r" "first_match s qs mem n (unat i + 1) r"
      using Suc.hyps(1) [of "i + 1"] here by auto
    have eq: "unat i \<le> j \<and> matches s qs mem n j \<longleftrightarrow> unat i + 1 \<le> j \<and> matches s qs mem n j" for j
      using False by (cases "j = unat i") auto
    then have "first_match s qs mem n (unat i) r" using r(2) unfolding first_match_def Let_def by metis
    moreover have "memfind_loop p mem n m i s = Some r" by (subst memfind_loop.simps) (use i x r False in simp)
    ultimately show ?thesis by blast
  qed
qed

lemma memfind_effect:
  assumes "packet s p qs"
  shows "\<exists>r. pbuf_memfind p mem n start s = Some r \<and> first_match s qs mem n (unat start) r"
proof -
  obtain b :: pbuf where b: "pbufs s p = Some b" "unat (tot_len b) = length (content s qs)" using assms
    by (cases qs) (auto simp: packet_def)
  show ?thesis
  proof (cases "unat n + unat start \<le> length (content s qs)")
    case True
    then have m: "unat (tot_len b - n) = length (content s qs) - unat n"
      using b(2) by (simp add: unat_sub_u16 word_le_nat_alt)
    then show ?thesis using memfind_loop_effect [OF assms, of n "tot_len b - n" start mem] True b by (auto simp: pbuf_memfind_def)
  next
    case False
    then have "pbuf_memfind p mem n start s = Some 0xFFFF" using b by (simp add: pbuf_memfind_def)
    moreover have "first_match s qs mem n (unat start) 0xFFFF" using False by (auto simp: first_match_def)
    ultimately show ?thesis by blast
  qed
qed

end
