(* ===== verification/Pbuf_Properties.thy ===== *)
theory Pbuf_Properties
  imports Pbuf_Copy Pbuf_Chain Pbuf_Find
begin

text \<open>
  The properties of \<open>lwip/core/pbuf.c\<close>, with a state of two packets for the witnesses: one of the
  lengths 3, 2 and 4 at 0x100, the last pbuf of which has a second owner, and one of 4 and 8 at 0x400.
\<close>

section \<open>A state with two packets\<close>

definition demo_pbuf :: "u32 \<Rightarrow> u32 \<Rightarrow> u16 \<Rightarrow> u16 \<Rightarrow> u8 \<Rightarrow> pbuf" where
  "demo_pbuf nx pl tot l r = \<lparr>p_next = nx, payload = pl, tot_len = tot, p_len = l, type_internal = ucast (type_code PBUF_POOL),
     p_flags = 0, p_ref = r, if_idx = 0\<rparr>"

definition demo_lwip :: lwip where
  "demo_lwip = \<lparr>pbufs = [0x100 \<mapsto> demo_pbuf 0x200 0x1000 9 3 1, 0x200 \<mapsto> demo_pbuf 0x300 0x2000 6 2 1,
       0x300 \<mapsto> demo_pbuf 0 0x3000 4 4 2, 0x400 \<mapsto> demo_pbuf 0x500 0x4000 12 4 1, 0x500 \<mapsto> demo_pbuf 0 0x5000 8 8 1],
     bytes = (\<lambda>a. ucast (a + drop_bit 12 a)),
     live = [(0x100, 608), (0x200, 608), (0x300, 608), (0x400, 608), (0x500, 608)], mallocs = 5\<rparr>"

definition demo_qs :: "u32 list" where "demo_qs = [0x100, 0x200, 0x300]"
definition demo_ts :: "u32 list" where "demo_ts = [0x400, 0x500]"

lemmas demo_defs = demo_lwip_def demo_pbuf_def demo_qs_def demo_ts_def

lemma demo_packets: "packet demo_lwip 0x100 demo_qs" "packet demo_lwip 0x400 demo_ts"
  "positive demo_lwip demo_qs" "positive demo_lwip demo_ts"
  "length (content demo_lwip demo_qs) = 9" "length (content demo_lwip demo_ts) = 12"
  by (simp_all add: packet_def positive_def demo_defs area_len_def)

lemma demo_apart: "areas_apart demo_lwip demo_qs" "areas_apart demo_lwip demo_ts" "sources_clear demo_lwip demo_ts demo_qs"
  "clear_of demo_lwip demo_qs 0x6000 8" "clear_of demo_lwip demo_qs 0x7000 8" "clear_of demo_lwip demo_qs 0x6000 5"
  by (simp_all add: clear_of_def sources_clear_def demo_defs)

lemma demo_freeable: "q \<in> set demo_qs \<Longrightarrow> freeable demo_lwip q"
  by (auto simp: freeable_def demo_defs pbuf_get_allocsrc_def PBUF_TYPE_ALLOC_SRC_MASK_def PBUF_ALLOC_FLAG_RX_def
      PBUF_TYPE_FLAG_STRUCT_DATA_CONTIGUOUS_def)

section \<open>Copies\<close>

text \<open>
  C27. Copying out of a packet. For every packet, however it is cut into pbufs, \<open>pbuf_copy_partial\<close>
  writes the bytes of the packet from the offset on, at most \<open>n\<close>, to the buffer and nothing else,
  and returns how many there were; the packet is not changed. The buffer must not overlap the packet.
\<close>
theorem copy_partial_is_slice:
  assumes "packet s p qs" and "clear_of s qs d (unat n)" and "d \<noteq> 0"
  shows "let xs = take (unat n) (drop (unat off) (content s qs)); s' = put_bytes (mem_put d xs) s in
    pbuf_copy_partial p d n off s = Some (of_nat (length xs), s') \<and> content s' qs = content s qs \<and> packet s' p qs"
proof -
  have p: "pchain s p qs" "p \<noteq> 0" using assms(1) by (cases qs; auto simp: packet_def)+
  let ?xs = "take (unat n) (drop (unat off) (content s qs))"
  have "pbuf_copy_partial p d n off s = Some (of_nat (length ?xs), put_bytes (mem_put d ?xs) s)"
    using copy_partial_loop_effect [OF p(1), of 0 n d off 0] assms(2,3) p(2) unat_less_u16 [of n] by (simp add: pbuf_copy_partial_def)
  moreover have "content (put_bytes (mem_put d ?xs) s) qs = content s qs"
    by (rule content_put [OF assms(2)]) simp
  ultimately show ?thesis using assms(1) by (simp add: Let_def packet_def)
qed

text \<open>Eight bytes from offset 2 of a packet of nine give the last seven.\<close>

theorem copy_partial_is_slice_witness:
  "pbuf_copy_partial 0x100 0x6000 8 2 demo_lwip
    = Some (7, put_bytes (mem_put 0x6000 (drop 2 (content demo_lwip demo_qs))) demo_lwip)"
  using copy_partial_is_slice [OF demo_packets(1), of "0x6000" 8 2] demo_apart(4) by (simp add: demo_packets Let_def)

text \<open>
  Writing and reading back. \<open>pbuf_take\<close> of at most as many bytes as the packet has succeeds,
  replaces the beginning of the packet by them, keeps the rest, and \<open>pbuf_copy_partial\<close> then
  gives the same bytes back, for every way the packet is cut into pbufs.
\<close>
theorem take_then_copy_partial:
  assumes "packet s p qs" and "areas_apart s qs" and "unat n \<le> length (content s qs)"
    and "clear_of s qs src (unat n)" and "clear_of s qs dst (unat n)" and "src \<noteq> 0" and "dst \<noteq> 0"
  shows "\<exists>s' s''. pbuf_take p src n s = Some (ERR_OK, s') \<and> packet s' p qs
    \<and> content s' qs = bytes_at (bytes s) src (ucast n) @ drop (unat n) (content s qs)
    \<and> pbuf_copy_partial p dst n 0 s' = Some (n, s'') \<and> bytes_at (bytes s'') dst (ucast n) = bytes_at (bytes s) src (ucast n)"
proof -
  obtain b :: pbuf where b: "pbufs s p = Some b" "unat (tot_len b) = length (content s qs)" and p: "pchain s p qs" "p \<noteq> 0"
    using assms(1) by (cases qs) (auto simp: packet_def)
  let ?xs = "bytes_at (bytes s) src (ucast n)"
  obtain f where f: "pbuf_take_loop p src (ucast n) 0 s = Some (put_bytes f s)" "content (put_bytes f s) qs = ?xs @ drop (unat n) (content s qs)"
    using take_loop_effect [OF p(1) assms(2), of src 0 "ucast n"] assms(3,4) by auto
  let ?s = "put_bytes f s" let ?t = "put_bytes (mem_put dst ?xs) ?s"
  have t: "pbuf_take p src n s = Some (ERR_OK, ?s)" using b p(2) assms(3,6) f(1) by (simp add: pbuf_take_def word_le_nat_alt)
  have "copy_partial_loop p dst 0 n 0 0 ?s = Some (n, ?t)"
    using copy_partial_loop_effect [of ?s p qs 0 n dst 0 0] p(1) assms(5) unat_less_u16 [of n] by (simp add: f(2))
  then have "pbuf_copy_partial p dst n 0 ?s = Some (n, ?t)" using p(2) assms(7) by (simp add: pbuf_copy_partial_def)
  moreover have "bytes_at (bytes ?t) dst (ucast n) = ?xs"
    using bytes_put [of ?xs dst "f (bytes s)"] unat_less_u16 [of n] by simp
  moreover have "packet ?s p qs" using assms(1) by (simp add: packet_def)
  ultimately show ?thesis using t f(2) by blast
qed

theorem take_then_copy_partial_witness:
  "\<exists>s' s''. pbuf_take 0x100 0x6000 5 demo_lwip = Some (ERR_OK, s')
    \<and> content s' demo_qs = bytes_at (bytes demo_lwip) 0x6000 5 @ drop 5 (content demo_lwip demo_qs)
    \<and> pbuf_copy_partial 0x100 0x7000 5 0 s' = Some (5, s'') \<and> bytes_at (bytes s'') 0x7000 5 = bytes_at (bytes demo_lwip) 0x6000 5"
proof -
  have "clear_of demo_lwip demo_qs 0x7000 5" by (simp add: clear_of_def demo_defs)
  then show ?thesis
    using take_then_copy_partial [OF demo_packets(1) demo_apart(1), of 5 "0x6000" "0x7000"] demo_apart(6) by (auto simp: demo_packets)
qed



text \<open>
  A well-formed packet of two pbufs with 3 and 0 bytes is taken for a queue of two packets, because the length of its head equals
  its total length: the copy into a target of 2 and 3 bytes ends with \<open>ERR_VAL\<close> after two bytes.
\<close>

definition empty_tail :: lwip where
  "empty_tail = demo_lwip\<lparr>pbufs := [0x100 \<mapsto> demo_pbuf 0x200 0x1000 3 3 1, 0x200 \<mapsto> demo_pbuf 0 0x2000 0 0 1,
     0x400 \<mapsto> demo_pbuf 0x500 0x4000 5 2 1, 0x500 \<mapsto> demo_pbuf 0 0x5000 3 3 1]\<rparr>"

theorem copy_of_empty_tail_refused:
  "packet empty_tail 0x100 [0x100, 0x200] \<and> packet empty_tail 0x400 [0x400, 0x500] \<and> length (content empty_tail [0x100, 0x200]) = 3
    \<and> length (content empty_tail [0x400, 0x500]) = 5
    \<and> pbuf_copy 0x400 0x100 empty_tail = Some (ERR_VAL, put_bytes (memcpy 0x4000 0x1000 2) empty_tail)"
proof -
  have "pbuf_copy_loop 0x400 0 0x100 0 empty_tail = Some (ERR_VAL, put_bytes (memcpy 0x4000 0x1000 2) empty_tail)"
    by (subst pbuf_copy_loop.simps) (simp add: empty_tail_def demo_pbuf_def put_bytes_def queue_continues_def Let_def)
  then have "pbuf_copy 0x400 0x100 empty_tail = Some (ERR_VAL, put_bytes (memcpy 0x4000 0x1000 2) empty_tail)"
    by (simp add: pbuf_copy_def) (simp add: empty_tail_def demo_pbuf_def)
  moreover have "packet empty_tail 0x100 [0x100, 0x200]" "packet empty_tail 0x400 [0x400, 0x500]" "length (content empty_tail [0x100, 0x200]) = 3"
    "length (content empty_tail [0x400, 0x500]) = 5"
    by (simp_all add: packet_def empty_tail_def demo_pbuf_def area_len_def)
  ultimately show ?thesis by simp
qed

section \<open>Chains\<close>

text \<open>
  C29. Freeing. \<open>pbuf_free\<close> gives back the pbufs at the head of a chain that nobody else refers to
  (\<open>as\<close>), takes one reference from the first of the others (\<open>bs\<close>), touches nothing behind it, and
  returns the number of freed pbufs modulo 256. No pbuf is freed twice or while it is referred to.
\<close>
theorem pbuf_free_frees_head:
  assumes "pchain s p (as @ bs)" and "\<forall>q\<in>set as. last_ref s q" and "bs \<noteq> [] \<Longrightarrow> \<not> last_ref s (hd bs)"
    and "\<forall>q\<in>set (as @ bs). freeable s q"
  shows "\<exists>s'. pbuf_free p s = Some (of_nat (length as), s') \<and> live s' = filter (\<lambda>b. fst b \<notin> set as) (live s) \<and> bytes s' = bytes s
    \<and> (\<forall>x. pbufs s' x = (if x \<in> set as then None
         else if bs \<noteq> [] \<and> x = hd bs then map_option (p_ref_update (\<lambda>r. r - 1)) (pbufs s x) else pbufs s x))"
proof -
  have "freed s (as @ bs) = as" "kept s (as @ bs) = bs"
    using assms(2,3) by (cases bs; simp add: freed_def kept_def takeWhile_append dropWhile_append)+
  then show ?thesis using pbuf_free_effect [OF assms(1,4)] by (auto simp: after_free_def)
qed

theorem pbuf_free_frees_head_witness:
  "\<exists>s'. pbuf_free 0x100 demo_lwip = Some (2, s') \<and> map fst (live s') = [0x300, 0x400, 0x500] \<and> map_option p_ref (pbufs s' 0x300) = Some 1"
proof -
  have "\<exists>s'. pbuf_free 0x100 demo_lwip = Some (of_nat (length [0x100, 0x200 :: u32]), s')
    \<and> live s' = filter (\<lambda>b. fst b \<notin> set [0x100, 0x200 :: u32]) (live demo_lwip) \<and> bytes s' = bytes demo_lwip
    \<and> (\<forall>x. pbufs s' x = (if x \<in> set [0x100, 0x200 :: u32] then None
         else if [0x300 :: u32] \<noteq> [] \<and> x = hd [0x300 :: u32] then map_option (p_ref_update (\<lambda>r. r - 1)) (pbufs demo_lwip x) else pbufs demo_lwip x))"
  proof (rule pbuf_free_frees_head)
    show "pchain demo_lwip 0x100 ([0x100, 0x200] @ [0x300])" using demo_packets(1) by (simp add: packet_def demo_qs_def)
    show "\<forall>q\<in>set ([0x100, 0x200] @ [0x300]). freeable demo_lwip q" using demo_freeable by (simp add: demo_qs_def)
  qed (simp_all add: last_ref_def demo_lwip_def demo_pbuf_def)
  then show ?thesis by (auto simp: demo_lwip_def demo_pbuf_def)
qed

text \<open>
  C26. Shrinking keeps packets well formed. \<open>pbuf_realloc\<close> to a smaller length leaves a packet of the
  first pbufs that holds exactly the first \<open>new_len\<close> bytes, with every \<open>tot_len\<close> right, and gives up
  the pbufs behind it; to the same or a greater length it does nothing.
\<close>
theorem pbuf_realloc_shrinks:
  assumes "packet s p qs" and "\<forall>q\<in>set qs. freeable s q"
  shows "if unat new_len < length (content s qs)
    then \<exists>as q rs s'. qs = as @ q # rs \<and> pbuf_realloc p new_len s = Some s' \<and> packet s' p (as @ [q])
      \<and> content s' (as @ [q]) = take (unat new_len) (content s qs)
      \<and> bytes s' = bytes s \<and> live s' = filter (\<lambda>b. fst b \<notin> set (freed s rs)) (live s)
    else pbuf_realloc p new_len s = Some s"
proof (cases "unat new_len < length (content s qs)")
  case True
  then show ?thesis using pbuf_realloc_effect [OF assms(1) _ assms(2)] by simp
next
  case False
  obtain b :: pbuf where "pbufs s p = Some b" "unat (tot_len b) = length (content s qs)"
    using assms(1) by (cases qs) (auto simp: packet_def)
  then show ?thesis using False by (simp add: pbuf_realloc_def word_le_nat_alt)
qed

theorem pbuf_realloc_shrinks_witness:
  "\<exists>rs' s'. pbuf_realloc 0x100 4 demo_lwip = Some s' \<and> packet s' 0x100 rs' \<and> content s' rs' = take 4 (content demo_lwip demo_qs)"
  using pbuf_realloc_shrinks [OF demo_packets(1), of 4] demo_freeable by (auto simp: demo_packets) (metis content_simps(1,2,3) append_Nil2)

text \<open>
  Joining. \<open>pbuf_cat\<close> of two packets without common pbufs whose lengths together fit 16 bits is
  a packet with the contents one after the other; no byte and no block is touched.
\<close>
theorem pbuf_cat_joins:
  assumes "packet s h hs" and "packet s t ts" and "set hs \<inter> set ts = {}"
    and "length (content s hs) + length (content s ts) < 2 ^ 16"
  shows "\<exists>s'. pbuf_cat h t s = Some s' \<and> packet s' h (hs @ ts) \<and> content s' (hs @ ts) = content s hs @ content s ts
    \<and> bytes s' = bytes s \<and> live s' = live s"
  using pbuf_cat_effect [OF assms] by blast

theorem pbuf_cat_joins_witness:
  "\<exists>s'. pbuf_cat 0x100 0x400 demo_lwip = Some s' \<and> packet s' 0x100 [0x100, 0x200, 0x300, 0x400, 0x500]"
proof -
  have "set demo_qs \<inter> set demo_ts = {}" by (simp add: demo_qs_def demo_ts_def)
  from pbuf_cat_joins [OF demo_packets(1,2) this] demo_packets(5,6) show ?thesis by (auto simp: demo_qs_def demo_ts_def)
qed

text \<open>
  Headers. When \<open>pbuf_add_header\<close> succeeds, the packet is well formed, its contents are the \<open>n\<close>
  bytes before the payload followed by the old contents, and \<open>pbuf_remove_header\<close> restores the old state.
\<close>
theorem add_header_remove_header:
  assumes "packet s p (q # qs)" and "pbuf_add_header p n s = Some (0, s')" and "pbufs s p = Some b"
  shows "packet s' p (q # qs) \<and> content s' (q # qs) = bytes_at (bytes s) (payload b - n) n @ content s (q # qs)
    \<and> pbuf_remove_header p n s' = Some (0, s)"
  by (rule add_header_effect [OF assms])

theorem add_header_remove_header_witness:
  "\<exists>s'. pbuf_add_header 0x100 14 demo_lwip = Some (0, s') \<and> pbuf_remove_header 0x100 14 s' = Some (0, demo_lwip)"
proof -
  have "\<exists>s'. pbuf_add_header 0x100 14 demo_lwip = Some (0, s')"
    by (simp add: pbuf_add_header_def pbuf_add_header_impl_def demo_lwip_def demo_pbuf_def Let_def SIZEOF_STRUCT_PBUF_def
        LWIP_MEM_ALIGN_SIZE_def MEM_ALIGNMENT_def PBUF_ALLOC_FLAG_RX_def PBUF_TYPE_FLAG_STRUCT_DATA_CONTIGUOUS_def)
  then obtain s' where s': "pbuf_add_header 0x100 14 demo_lwip = Some (0, s')" by blast
  have "packet demo_lwip 0x100 (0x100 # [0x200, 0x300])" using demo_packets(1) by (simp add: demo_qs_def)
  from add_header_remove_header [OF this s'] s' show ?thesis by (simp add: demo_lwip_def)
qed

text \<open>
  Allocation from the heap. For every length and layer \<open>pbuf_alloc\<close> of type \<open>PBUF_RAM\<close> returns
  null with nothing allocated, or a packet of one pbuf of that length whose payload, behind the
  header and the room for the protocol headers, ends inside the block that was allocated.
  The size is computed in 16 bits: a length for which it wraps is refused. It is assumed that \<open>malloc\<close>
  gives aligned blocks that do not reach the end of the address space.
\<close>
theorem pbuf_alloc_ram_fits:
  assumes "\<And>x n lv. malloc x n lv \<noteq> 0 \<Longrightarrow> unat (malloc x n lv) mod 4 = 0 \<and> unat (malloc x n lv) + unat n < 2 ^ 32"
  shows "\<exists>p s'. pbuf_alloc malloc layer l PBUF_RAM s = Some (p, s') \<and> (p = 0 \<and> live s' = live s \<and> pbufs s' = pbufs s
    \<or> packet s' p [p] \<and> length (content s' [p]) = unat l
      \<and> (\<exists>b n. pbufs s' p = Some b \<and> live s' = (p, n) # live s \<and> unat p + 16 + unat (layer_offset layer) \<le> unat (payload b)
           \<and> unat (payload b) + unat l \<le> unat p + unat n))"
  by (rule alloc_ram_effect) (rule assms)

text \<open>With an allocator that has one block, the allocation of a frame of 1000 bytes.\<close>

definition demo_malloc :: libc_malloc where
  "demo_malloc k n lv = (if lv = [] \<and> n \<le> 0x8000 then 0x10000000 else 0)"

theorem pbuf_alloc_ram_fits_witness:
  "\<exists>p s'. pbuf_alloc demo_malloc PBUF_LINK 1000 PBUF_RAM \<lparr>pbufs = Map.empty, bytes = (\<lambda>_. 0), live = [], mallocs = 0\<rparr> = Some (p, s')
    \<and> p = 0x10000000 \<and> length (content s' [p]) = 1000"
proof -
  let ?s = "\<lparr>pbufs = Map.empty, bytes = (\<lambda>_. 0), live = [], mallocs = 0\<rparr>"
  have ok: "unat (demo_malloc x n lv) mod 4 = 0 \<and> unat (demo_malloc x n lv) + unat n < 2 ^ 32"
    if "demo_malloc x n lv \<noteq> 0" for x n lv
    using that by (auto simp: demo_malloc_def word_le_nat_alt split: if_splits)
  obtain p s' where r: "pbuf_alloc demo_malloc PBUF_LINK 1000 PBUF_RAM ?s = Some (p, s')"
    "p = 0 \<or> length (content s' [p]) = 1000"
    using pbuf_alloc_ram_fits [OF ok, where layer = PBUF_LINK and l = 1000 and s = ?s] by fastforce
  have "p = 0x10000000" using r(1)
    by (simp add: pbuf_alloc_def Let_def SIZEOF_STRUCT_PBUF_def LWIP_MEM_ALIGN_SIZE_def MEM_ALIGNMENT_def mem_malloc_def demo_malloc_def)
  then show ?thesis using r by simp
qed

section \<open>Search\<close>

text \<open>
  C30. Search. \<open>pbuf_memfind\<close> returns the first offset from \<open>start\<close> on at which the packet holds the
  \<open>n\<close> bytes at \<open>mem\<close>, wherever the pbufs are cut, or 0xFFFF when there is none.
\<close>
theorem pbuf_memfind_first:
  assumes "packet s p qs"
  shows "\<exists>r. pbuf_memfind p mem n start s = Some r \<and> first_match s qs mem n (unat start) r"
  by (rule memfind_effect [OF assms])

theorem pbuf_memfind_first_witness:
  "\<exists>r. pbuf_memfind 0x100 0x2001 2 1 demo_lwip = Some r \<and> first_match demo_lwip demo_qs 0x2001 2 1 r"
  using pbuf_memfind_first [OF demo_packets(1), of "0x2001" 2 1] by simp

end
