(* ===== verification/Inet_Chksum.thy ===== *)
theory Inet_Chksum
  imports Pbuf_Data
begin

unbundle bit_operations_syntax

text \<open>
  The Internet checksum of \<open>lwip/core/inet_chksum.c\<close>. The port selects version 1 of the summing
  routine (\<open>LWIP_CHKSUM_ALGORITHM\<close> in \<open>arch/cc.h\<close>); versions 2 and 3, which the file offers for the same purpose, are modelled
  beside it. The machine is little endian. \<open>len\<close> is an \<open>int\<close> and never negative.
\<close>

section \<open>Byte order and folding\<close>

definition PP_HTONS :: "u16 \<Rightarrow> u16" where
  "PP_HTONS x = push_bit 8 (x AND 0x00FF) OR drop_bit 8 (x AND 0xFF00)"

definition PP_HTONL :: "u32 \<Rightarrow> u32" where
  "PP_HTONL x = push_bit 24 (x AND 0x000000FF) OR push_bit 8 (x AND 0x0000FF00) OR drop_bit 8 (x AND 0x00FF0000)
     OR drop_bit 24 (x AND 0xFF000000)"

definition lwip_htons :: "u16 \<Rightarrow> u16" where "lwip_htons n = PP_HTONS n"
definition lwip_htonl :: "u32 \<Rightarrow> u32" where "lwip_htonl n = PP_HTONL n"

definition SWAP_BYTES_IN_WORD :: "u32 \<Rightarrow> u32" where
  "SWAP_BYTES_IN_WORD w = push_bit 8 (w AND 0xFF) OR drop_bit 8 (w AND 0xFF00)"

definition FOLD_U32T :: "u32 \<Rightarrow> u32" where
  "FOLD_U32T u = drop_bit 16 u + (u AND 0x0000FFFF)"

section \<open>Version 1: octets in network order\<close>

function octet_loop :: "(u32 \<Rightarrow> u8) \<Rightarrow> u32 \<Rightarrow> int \<Rightarrow> u32 \<Rightarrow> u32 \<times> int \<times> u32" where
  "octet_loop m octetptr len acc =
     (if len > 1 then
        (let src = (push_bit 8 (ucast (m octetptr)) :: u16);
             src = src OR ucast (m (octetptr + 1))
         in octet_loop m (octetptr + 2) (len - 2) (acc + ucast src))
      else (octetptr, len, acc))"
  by pat_completeness auto
termination by (relation "measure (\<lambda>(m, p, len, acc). nat len)") auto

definition lwip_standard_chksum :: "(u32 \<Rightarrow> u8) \<Rightarrow> u32 \<Rightarrow> int \<Rightarrow> u16" where
  "lwip_standard_chksum m dataptr len =
     (let (octetptr, len, acc) = octet_loop m dataptr len 0;
          acc = (if len > 0 then acc + ucast (push_bit 8 (ucast (m octetptr)) :: u16) else acc);
          acc = FOLD_U32T acc;
          acc = (if acc AND 0xFFFF0000 \<noteq> 0 then FOLD_U32T acc else acc)
      in lwip_htons (ucast acc))"

section \<open>Version 2: half words\<close>

definition u16_at :: "(u32 \<Rightarrow> u8) \<Rightarrow> u32 \<Rightarrow> u16" where
  "u16_at m p = ucast (m p) OR push_bit 8 (ucast (m (p + 1)))"

function word_loop :: "(u32 \<Rightarrow> u8) \<Rightarrow> u32 \<Rightarrow> int \<Rightarrow> u32 \<Rightarrow> u32 \<times> int \<times> u32" where
  "word_loop m ps len acc =
     (if len > 1 then word_loop m (ps + 2) (len - 2) (acc + ucast (u16_at m ps)) else (ps, len, acc))"
  by pat_completeness auto
termination by (relation "measure (\<lambda>(m, p, len, acc). nat len)") auto

text \<open>The bytes of the half word \<open>t\<close> in memory: byte 0 is the low one.\<close>

definition set_byte_0 :: "u8 \<Rightarrow> u16 \<Rightarrow> u16" where "set_byte_0 b t = (t AND 0xFF00) OR ucast b"
definition set_byte_1 :: "u8 \<Rightarrow> u16 \<Rightarrow> u16" where "set_byte_1 b t = (t AND 0x00FF) OR push_bit 8 (ucast b)"

definition lwip_standard_chksum_2 :: "(u32 \<Rightarrow> u8) \<Rightarrow> u32 \<Rightarrow> int \<Rightarrow> u16" where
  "lwip_standard_chksum_2 m dataptr len =
     (let odd = (dataptr AND 1 \<noteq> 0);
          (pb, len, t) = (if odd \<and> len > 0 then (dataptr + 1, len - 1, set_byte_1 (m dataptr) 0) else (dataptr, len, 0));
          (ps, len, acc) = word_loop m pb len 0;
          t = (if len > 0 then set_byte_0 (m ps) t else t);
          acc = acc + ucast t;
          acc = FOLD_U32T acc;
          acc = FOLD_U32T acc;
          acc = (if odd then SWAP_BYTES_IN_WORD acc else acc)
      in ucast acc)"

section \<open>Version 3: words with the carry added back\<close>

definition u32_at :: "(u32 \<Rightarrow> u8) \<Rightarrow> u32 \<Rightarrow> u32" where
  "u32_at m p = ucast (m p) OR push_bit 8 (ucast (m (p + 1))) OR push_bit 16 (ucast (m (p + 2))) OR push_bit 24 (ucast (m (p + 3)))"

function long_loop :: "(u32 \<Rightarrow> u8) \<Rightarrow> u32 \<Rightarrow> int \<Rightarrow> u32 \<Rightarrow> u32 \<times> int \<times> u32" where
  "long_loop m pl len acc =
     (if len > 7 then
        (let tmp = acc + u32_at m pl;
             tmp = (if tmp < acc then tmp + 1 else tmp);
             acc = tmp + u32_at m (pl + 4);
             acc = (if acc < tmp then acc + 1 else acc)
         in long_loop m (pl + 8) (len - 8) acc)
      else (pl, len, acc))"
  by pat_completeness auto
termination by (relation "measure (\<lambda>(m, p, len, acc). nat len)") auto

definition lwip_standard_chksum_3 :: "(u32 \<Rightarrow> u8) \<Rightarrow> u32 \<Rightarrow> int \<Rightarrow> u16" where
  "lwip_standard_chksum_3 m dataptr len =
     (let odd = (dataptr AND 1 \<noteq> 0);
          (pb, len, t) = (if odd \<and> len > 0 then (dataptr + 1, len - 1, set_byte_1 (m dataptr) 0) else (dataptr, len, 0));
          (ps, len, acc) = (if pb AND 3 \<noteq> 0 \<and> len > 1 then (pb + 2, len - 2, ucast (u16_at m pb)) else (pb, len, 0));
          (pl, len, acc) = long_loop m ps len acc;
          acc = FOLD_U32T acc;
          (ps, len, acc) = word_loop m pl len acc;
          t = (if len > 0 then set_byte_0 (m ps) t else t);
          acc = acc + ucast t;
          acc = FOLD_U32T acc;
          acc = FOLD_U32T acc;
          acc = (if odd then SWAP_BYTES_IN_WORD acc else acc)
      in ucast acc)"

section \<open>Checksums of memory and of chains\<close>

definition inet_chksum :: "(u32 \<Rightarrow> u8) \<Rightarrow> u32 \<Rightarrow> u16 \<Rightarrow> u16" where
  "inet_chksum m dataptr len = NOT (lwip_standard_chksum m dataptr (int (unat len)))"

text \<open>The loop over the chain that the functions below share.\<close>

partial_function (option) chksum_chain :: "u32 \<Rightarrow> u32 \<Rightarrow> bool \<Rightarrow> lwip \<Rightarrow> (u32 \<times> bool) option" where
  "chksum_chain q acc swapped s =
     (if q = 0 then Some (acc, swapped)
      else do {
        b \<leftarrow> pbufs s q;
        let acc = acc + ucast (lwip_standard_chksum (bytes s) (payload b) (int (unat (p_len b))));
        let acc = FOLD_U32T acc;
        if p_len b mod 2 \<noteq> 0 then chksum_chain (p_next b) (SWAP_BYTES_IN_WORD acc) (\<not> swapped) s
        else chksum_chain (p_next b) acc swapped s
      })"

definition inet_chksum_pbuf :: "u32 \<Rightarrow> lwip \<Rightarrow> u16 option" where
  "inet_chksum_pbuf p s =
     do {
       (acc, swapped) \<leftarrow> chksum_chain p 0 False s;
       let acc = (if swapped then SWAP_BYTES_IN_WORD acc else acc);
       Some (NOT (ucast (acc AND 0xFFFF)))
     }"

definition pseudo_finish :: "u8 \<Rightarrow> u16 \<Rightarrow> u32 \<Rightarrow> bool \<Rightarrow> u16" where
  "pseudo_finish proto proto_len acc swapped =
     (let acc = (if swapped then SWAP_BYTES_IN_WORD acc else acc);
          acc = acc + ucast (lwip_htons (ucast proto));
          acc = acc + ucast (lwip_htons proto_len);
          acc = FOLD_U32T acc;
          acc = FOLD_U32T acc
      in NOT (ucast (acc AND 0xFFFF)))"

definition inet_cksum_pseudo_base :: "u32 \<Rightarrow> u8 \<Rightarrow> u16 \<Rightarrow> u32 \<Rightarrow> lwip \<Rightarrow> u16 option" where
  "inet_cksum_pseudo_base p proto proto_len acc s =
     do { (acc, swapped) \<leftarrow> chksum_chain p acc False s; Some (pseudo_finish proto proto_len acc swapped) }"

text \<open>The sum of the two addresses, which are in network order in memory.\<close>

definition address_sum :: "u32 \<Rightarrow> u32 \<Rightarrow> u32" where
  "address_sum src dest =
     (let acc = src AND 0xFFFF;
          acc = acc + (drop_bit 16 src AND 0xFFFF);
          acc = acc + (dest AND 0xFFFF);
          acc = acc + (drop_bit 16 dest AND 0xFFFF);
          acc = FOLD_U32T acc
      in FOLD_U32T acc)"

definition inet_chksum_pseudo :: "u32 \<Rightarrow> u8 \<Rightarrow> u16 \<Rightarrow> u32 \<Rightarrow> u32 \<Rightarrow> lwip \<Rightarrow> u16 option" where
  "inet_chksum_pseudo p proto proto_len src dest s = inet_cksum_pseudo_base p proto proto_len (address_sum src dest) s"

text \<open>Without IPv6.\<close>

definition ip_chksum_pseudo :: "u32 \<Rightarrow> u8 \<Rightarrow> u16 \<Rightarrow> u32 \<Rightarrow> u32 \<Rightarrow> lwip \<Rightarrow> u16 option" where
  "ip_chksum_pseudo p proto proto_len src dest s = inet_chksum_pseudo p proto proto_len src dest s"

partial_function (option) chksum_chain_partial :: "u32 \<Rightarrow> u16 \<Rightarrow> u32 \<Rightarrow> bool \<Rightarrow> lwip \<Rightarrow> (u32 \<times> bool) option" where
  "chksum_chain_partial q chksum_len acc swapped s =
     (if \<not> (q \<noteq> 0 \<and> chksum_len > 0) then Some (acc, swapped)
      else do {
        b \<leftarrow> pbufs s q;
        let chklen = (if p_len b > chksum_len then chksum_len else p_len b);
        let acc = acc + ucast (lwip_standard_chksum (bytes s) (payload b) (int (unat chklen)));
        let chksum_len = chksum_len - chklen;
        let acc = FOLD_U32T acc;
        if p_len b mod 2 \<noteq> 0 then chksum_chain_partial (p_next b) chksum_len (SWAP_BYTES_IN_WORD acc) (\<not> swapped) s
        else chksum_chain_partial (p_next b) chksum_len acc swapped s
      })"

definition inet_cksum_pseudo_partial_base :: "u32 \<Rightarrow> u8 \<Rightarrow> u16 \<Rightarrow> u16 \<Rightarrow> u32 \<Rightarrow> lwip \<Rightarrow> u16 option" where
  "inet_cksum_pseudo_partial_base p proto proto_len chksum_len acc s =
     do {
       (acc, swapped) \<leftarrow> chksum_chain_partial p chksum_len acc False s;
       Some (pseudo_finish proto proto_len acc swapped)
     }"

definition inet_chksum_pseudo_partial :: "u32 \<Rightarrow> u8 \<Rightarrow> u16 \<Rightarrow> u16 \<Rightarrow> u32 \<Rightarrow> u32 \<Rightarrow> lwip \<Rightarrow> u16 option" where
  "inet_chksum_pseudo_partial p proto proto_len chksum_len src dest s =
     inet_cksum_pseudo_partial_base p proto proto_len chksum_len (address_sum src dest) s"

definition ip_chksum_pseudo_partial :: "u32 \<Rightarrow> u8 \<Rightarrow> u16 \<Rightarrow> u16 \<Rightarrow> u32 \<Rightarrow> u32 \<Rightarrow> lwip \<Rightarrow> u16 option" where
  "ip_chksum_pseudo_partial p proto proto_len chksum_len src dest s =
     inet_chksum_pseudo_partial p proto proto_len chksum_len src dest s"

section \<open>Checksum while copying\<close>

definition lwip_chksum_copy :: "u32 \<Rightarrow> u32 \<Rightarrow> u16 \<Rightarrow> lwip \<Rightarrow> u16 \<times> lwip" where
  "lwip_chksum_copy dst src len s =
     (let s = put_bytes (memcpy dst src (ucast len)) s in (lwip_standard_chksum (bytes s) dst (int (unat len)), s))"

text \<open>The checksum that \<open>chksum\<close> points to is passed and returned.\<close>

definition pbuf_fill_chksum :: "u32 \<Rightarrow> u16 \<Rightarrow> u32 \<Rightarrow> u16 \<Rightarrow> u16 \<Rightarrow> lwip \<Rightarrow> (err_t \<times> u16 \<times> lwip) option" where
  "pbuf_fill_chksum p start_offset dataptr len chksum s =
     do {
       b \<leftarrow> pbufs s p;
       if start_offset \<ge> p_len b \<or> unat start_offset + unat len > unat (p_len b) then Some (ERR_ARG, chksum, s)
       else do {
         let dst_ptr = payload b + ucast start_offset;
         let (copy_chksum, s) = lwip_chksum_copy dst_ptr dataptr len s;
         let copy_chksum = (if start_offset AND 1 \<noteq> 0 then ucast (SWAP_BYTES_IN_WORD (ucast copy_chksum)) else copy_chksum);
         let acc = (ucast chksum + ucast copy_chksum :: u32);
         Some (ERR_OK, ucast (FOLD_U32T acc), s)
       }
     }"

declare octet_loop.simps [simp del] word_loop.simps [simp del] long_loop.simps [simp del]

end
