(* ===== verification/Inet_Chksum_Sum.thy ===== *)
theory Inet_Chksum_Sum
  imports Inet_Chksum Pbuf_Rep
begin

text \<open>
  Sums modulo 65535. All the variants of the checksum are determined by the little endian number
  that the bytes are, because 65536 is 1 modulo 65535: a half word sum that is folded represents
  that number, exchanging the bytes is multiplication by 256.
\<close>

section \<open>One's complement numbers\<close>

definition eqm :: "nat \<Rightarrow> nat \<Rightarrow> bool" where "eqm a b \<longleftrightarrow> a mod 65535 = b mod 65535"

lemma eqm_refl [simp]: "eqm a a" by (simp add: eqm_def)
lemma eqm_sym: "eqm a b \<Longrightarrow> eqm b a" by (simp add: eqm_def)
lemma eqm_trans [trans]: "eqm a b \<Longrightarrow> eqm b c \<Longrightarrow> eqm a c" by (simp add: eqm_def)
lemma eqm_add: "eqm a b \<Longrightarrow> eqm c d \<Longrightarrow> eqm (a + c) (b + d)" unfolding eqm_def by (rule mod_add_cong)
lemma eqm_mult: "eqm a b \<Longrightarrow> eqm (k * a) (k * b)" unfolding eqm_def by (rule mod_mult_cong) simp_all
lemma eqm_65536: "eqm (65536 * n) n"
proof -
  have "65536 * n = n + n * 65535" by simp
  then show ?thesis unfolding eqm_def by (metis mod_mult_self1)
qed

text \<open>A half word \<open>a\<close> represents \<open>n\<close>: 0 only represents 0, and 65535 the other multiples of 65535.\<close>

definition rep :: "nat \<Rightarrow> nat \<Rightarrow> bool" where "rep a n \<longleftrightarrow> a \<le> 65535 \<and> eqm a n \<and> (a = 0 \<longleftrightarrow> n = 0)"

lemma rep_unique: "rep a n \<Longrightarrow> rep b n \<Longrightarrow> a = b"
proof -
  assume r: "rep a n" "rep b n"
  then have ab: "a \<le> 65535" "b \<le> 65535" "a mod 65535 = b mod 65535" "a = 0 \<longleftrightarrow> b = 0" by (simp_all add: rep_def eqm_def)
  show ?thesis
  proof (cases "a = 65535 \<or> b = 65535")
    case True
    then show ?thesis using ab by (cases "a = 65535") (auto simp: mod_if split: if_splits)
  next
    case False
    then show ?thesis using ab by simp
  qed
qed

lemma rep_cong: "rep a n \<Longrightarrow> eqm n k \<Longrightarrow> (n = 0 \<longleftrightarrow> k = 0) \<Longrightarrow> rep a k"
  by (auto simp: rep_def intro: eqm_trans)

section \<open>Folding and exchanging bytes\<close>

lemma u32_bound: "unat (a :: u32) < 4294967296"
  using unat_less_u32 [of a] by simp

lemma and_FFFF: "unat ((u :: u32) AND 0xFFFF) = unat u mod 65536"
proof -
  have "(0xFFFF :: u32) = mask 16" by (simp add: mask_eq_exp_minus_1)
  then have "u AND 0xFFFF = take_bit 16 u" by (simp add: take_bit_eq_mask)
  then show ?thesis by (simp add: take_bit_eq_mod unat_mod)
qed

lemma unat_drop_bit: "unat (drop_bit n (u :: 'a::len word)) = unat u div 2 ^ n"
  by (simp only: drop_bit_eq_div [symmetric] unat_drop_bit_eq)

lemma unat_FOLD: "unat (FOLD_U32T u) = unat u div 65536 + unat u mod 65536"
proof -
  have "unat u div 65536 < 65536" using u32_bound [of u] by (simp add: less_mult_imp_div_less)
  then have "unat u div 65536 + unat u mod 65536 < 2 ^ 32" using mod_less_divisor [of 65536 "unat u"] by simp
  then show ?thesis by (simp add: FOLD_U32T_def unat_word_ariths and_FFFF unat_drop_bit)
qed

lemma fold_bound: "unat (FOLD_U32T u) \<le> 131070"
  using u32_bound [of u] mod_less_divisor [of 65536 "unat u"] less_mult_imp_div_less [of "unat u" 65536 65536]
  by (simp add: unat_FOLD)

lemma fold_bound2: "unat u \<le> 131070 \<Longrightarrow> unat (FOLD_U32T u) \<le> 65535"
proof -
  assume u: "unat u \<le> 131070"
  show ?thesis
  proof (cases "unat u < 65536")
    case False
    then have "unat u div 65536 = 1" "unat u mod 65536 = unat u - 65536" using u by (simp_all add: div_if mod_if)
    then show ?thesis using u by (simp add: unat_FOLD)
  qed (simp add: unat_FOLD)
qed

lemma eqm_fold: "eqm (unat (FOLD_U32T u)) (unat u)"
proof -
  have "eqm (unat u div 65536 + unat u mod 65536) (65536 * (unat u div 65536) + unat u mod 65536)"
    by (intro eqm_add eqm_sym [OF eqm_65536] eqm_refl)
  then show ?thesis by (simp add: unat_FOLD)
qed

lemma fold_zero: "unat (FOLD_U32T u) = 0 \<longleftrightarrow> unat u = 0"
  by (auto simp: unat_FOLD)

lemma rep_fold: "unat u = n \<Longrightarrow> n \<le> 131070 \<Longrightarrow> rep (unat (FOLD_U32T u)) n"
  using fold_bound2 [of u] eqm_fold [of u] fold_zero [of u] by (simp add: rep_def)

lemma rep_fold_fold: "unat u = n \<Longrightarrow> rep (unat (FOLD_U32T (FOLD_U32T u))) n"
  using fold_bound2 [OF fold_bound, of u] eqm_fold [of u] eqm_fold [of "FOLD_U32T u"] fold_zero
  by (auto simp: rep_def intro: eqm_trans)

lemma rep_add:
  assumes "rep (unat a) n" and "rep (unat b) k"
  shows "rep (unat (FOLD_U32T (a + b))) (n + k)"
proof -
  have ab: "unat a \<le> 65535" "unat b \<le> 65535" using assms by (simp_all add: rep_def)
  then have "unat (a + b) = unat a + unat b" by (simp add: unat_word_ariths)
  then have "rep (unat (FOLD_U32T (a + b))) (unat a + unat b)" using ab by (intro rep_fold) simp_all
  moreover have "eqm (unat a + unat b) (n + k)" using assms by (auto simp: rep_def intro: eqm_add)
  moreover have "unat a + unat b = 0 \<longleftrightarrow> n + k = 0" using assms by (auto simp: rep_def)
  ultimately show ?thesis by (rule rep_cong)
qed

lemma swap_bytes:
  fixes w :: "'a :: len word"
  assumes "unat w < 65536" and "16 \<le> LENGTH('a)"
  shows "unat (push_bit 8 (w AND 0xFF) OR drop_bit 8 (w AND 0xFF00)) = unat w mod 256 * 256 + unat w div 256"
proof -
  have m: "(0xFF :: 'a word) = mask 8" "(0xFF00 :: 'a word) = push_bit 8 (mask 8)" by (simp_all add: mask_eq_exp_minus_1 push_bit_eq_mult)
  have "push_bit 8 (w AND 0xFF) AND drop_bit 8 (w AND 0xFF00) = 0"
    unfolding m by (rule bit_eqI) (auto simp: bit_simps)
  then have "push_bit 8 (w AND 0xFF) OR drop_bit 8 (w AND 0xFF00) = push_bit 8 (w AND 0xFF) + drop_bit 8 (w AND 0xFF00)"
    by (rule disjunctive_add_eq_or [symmetric])
  moreover have "drop_bit 8 (w AND 0xFF00) = take_bit 8 (drop_bit 8 w)"
    unfolding m by (rule bit_eqI) (use assms(2) in \<open>auto simp: bit_simps\<close>)
  moreover have "unat (take_bit 8 (drop_bit 8 w)) = unat w div 256"
    unfolding unsigned_take_bit_eq unat_drop_bit using assms(1) by (simp add: take_bit_eq_mod)
  moreover have "unat (push_bit 8 (w AND 0xFF)) = unat w mod 256 * 256"
  proof -
    have "unat (w AND 0xFF) = unat w mod 256"
      unfolding m take_bit_eq_mask [symmetric] unsigned_take_bit_eq by (simp add: take_bit_eq_mod)
    moreover have "(65536 :: nat) \<le> 2 ^ LENGTH('a)" using power_increasing [OF assms(2), of "2 :: nat"] by simp
    moreover have "unat w mod 256 * 256 < 65536" by (simp add: mod_less_divisor less_imp_le)
    ultimately show ?thesis unfolding unsigned_push_bit_eq by (simp add: take_bit_eq_mod push_bit_eq_mult)
  qed
  moreover have "unat w mod 256 * 256 + unat w div 256 < 2 ^ LENGTH('a)"
  proof -
    have "unat w mod 256 * 256 + unat w div 256 < 65536"
      using assms(1) mod_less_divisor [of 256 "unat w"] less_mult_imp_div_less [of "unat w" 256 256] by linarith
    also have "(65536 :: nat) \<le> 2 ^ LENGTH('a)" using power_increasing [OF assms(2), of "2 :: nat"] by simp
    finally show ?thesis .
  qed
  ultimately show ?thesis by (simp only: unat_word_ariths mod_less)
qed

lemma unat_SWAP: "unat w < 65536 \<Longrightarrow> unat (SWAP_BYTES_IN_WORD w) = unat w mod 256 * 256 + unat w div 256"
  unfolding SWAP_BYTES_IN_WORD_def by (rule swap_bytes) simp_all

lemma unat_htons: "unat (lwip_htons w) = unat w mod 256 * 256 + unat w div 256"
  using swap_bytes [of w] unat_less_u16 [of w] by (simp add: lwip_htons_def PP_HTONS_def)

lemma rep_exchange:
  assumes "rep a n"
  shows "rep (a mod 256 * 256 + a div 256) (256 * n)"
proof -
  have a: "a < 65536" using assms by (simp add: rep_def)
  have "eqm (a mod 256 * 256 + a div 256) (a mod 256 * 256 + 65536 * (a div 256))"
    by (intro eqm_add eqm_sym [OF eqm_65536] eqm_refl)
  moreover have "a mod 256 * 256 + 65536 * (a div 256) = 256 * a" using div_mult_mod_eq [of a 256] by linarith
  moreover have "eqm (256 * a) (256 * n)" using assms by (simp add: rep_def eqm_mult)
  moreover have "a mod 256 * 256 + a div 256 = 0 \<longleftrightarrow> a = 0" by (auto simp: mod_eq_0_iff_dvd)
  moreover have "a mod 256 * 256 + a div 256 \<le> 65535"
    using a mod_less_divisor [of 256 a] less_mult_imp_div_less [of a 256 256] by linarith
  ultimately show ?thesis using assms eqm_trans by (auto simp: rep_def)
qed

lemma rep_swap: "rep (unat w) n \<Longrightarrow> rep (unat (SWAP_BYTES_IN_WORD w)) (256 * n)"
  using rep_exchange [of "unat w" n] unat_SWAP [of w] by (simp add: rep_def)

lemma rep_htons: "rep (unat w) n \<Longrightarrow> rep (unat (lwip_htons w)) (256 * n)"
  using rep_exchange [of "unat w" n] by (simp add: unat_htons)

lemma rep_ucast: "rep (unat (w :: u32)) n \<Longrightarrow> rep (unat (ucast w :: u16)) n"
  by (simp add: rep_def unsigned_ucast_eq take_bit_eq_mod)

section \<open>Bytes as a number\<close>

fun le_num :: "u8 list \<Rightarrow> nat" where
  "le_num [] = 0"
| "le_num (a # xs) = unat a + 256 * le_num xs"

lemma le_num_append: "le_num (xs @ ys) = le_num xs + 256 ^ length xs * le_num ys"
  by (induction xs) (simp_all add: algebra_simps)

lemma le_num_zero: "le_num xs = 0 \<longleftrightarrow> (\<forall>x\<in>set xs. x = 0)"
  by (induction xs) (auto simp: unat_eq_0)

lemma eqm_256_256: "eqm (256 * (256 * n)) n"
  using eqm_65536 [of n] by (simp add: mult.assoc [symmetric])

lemma eqm_even_power: "eqm (256 ^ (2 * k) * n) n"
proof (induction k)
  case (Suc k)
  have "256 ^ (2 * Suc k) * n = 65536 * (256 ^ (2 * k) * n)" by (simp add: power_add)
  then show ?case using eqm_trans [OF eqm_65536 Suc] by (simp only:)
qed simp

text \<open>The definition of RFC 1071: the one's complement sum of the words of two octets in network order.\<close>

fun be_words :: "u8 list \<Rightarrow> nat list" where
  "be_words [] = []"
| "be_words [a] = [256 * unat a]"
| "be_words (a # b # xs) = (256 * unat a + unat b) # be_words xs"

definition oc_add :: "nat \<Rightarrow> nat \<Rightarrow> nat" where
  "oc_add a b = (if a + b > 0xFFFF then a + b - 0xFFFF else a + b)"

definition rfc1071_sum :: "u8 list \<Rightarrow> nat" where
  "rfc1071_sum xs = foldl oc_add 0 (be_words xs)"

lemma unat_u8: "unat (a :: u8) < 256"
  using unsigned_less [of a, where 'a = nat] by simp

lemma be_words_bound: "w \<in> set (be_words xs) \<Longrightarrow> w \<le> 65535"
proof (induction xs rule: be_words.induct)
  case (2 a)
  then show ?case using unat_u8 [of a] by simp
next
  case (3 a b xs)
  then show ?case using unat_u8 [of a] unat_u8 [of b] by auto
qed simp

lemma rep_oc_add: "rep a n \<Longrightarrow> b \<le> 65535 \<Longrightarrow> rep (oc_add a b) (n + b)"
proof -
  assume a: "rep a n" and b: "b \<le> 65535"
  have e: "eqm (a + b) (n + b)" using a by (simp add: rep_def eqm_add)
  show ?thesis
  proof (cases "a + b > 65535")
    case True
    then have "eqm (a + b - 65535) (a + b)" using mod_add_self2 [of "a + b - 65535" 65535] by (simp add: eqm_def)
    then show ?thesis using True a b e by (auto simp: rep_def oc_add_def intro: eqm_trans)
  next
    case False
    then show ?thesis using a b e by (auto simp: rep_def oc_add_def)
  qed
qed

lemma rep_foldl: "rep a n \<Longrightarrow> \<forall>w\<in>set ws. w \<le> 65535 \<Longrightarrow> rep (foldl oc_add a ws) (n + sum_list ws)"
proof (induction ws arbitrary: a n)
  case (Cons w ws)
  then show ?case using Cons.IH [of "oc_add a w" "n + w"] rep_oc_add by (simp add: add.assoc)
qed simp

lemma be_sum: "eqm (sum_list (be_words xs)) (256 * le_num xs) \<and> (sum_list (be_words xs) = 0 \<longleftrightarrow> le_num xs = 0)"
proof (induction xs rule: be_words.induct)
  case (3 a b xs)
  have "eqm (sum_list (be_words xs)) (65536 * (256 * le_num xs))"
    using 3 eqm_sym [OF eqm_65536, of "256 * le_num xs"] by (auto intro: eqm_trans)
  then have "eqm (256 * unat a + (unat b + sum_list (be_words xs))) (256 * unat a + (65536 * unat b + 65536 * (256 * le_num xs)))"
    by (intro eqm_add eqm_refl eqm_sym [OF eqm_65536])
  then show ?case using 3 by (auto simp: algebra_simps)
qed simp_all

lemma rfc1071_rep: "rep (rfc1071_sum xs) (256 * le_num xs)"
proof -
  have "rep (rfc1071_sum xs) (sum_list (be_words xs))"
    using rep_foldl [of 0 0 "be_words xs"] be_words_bound by (simp add: rfc1071_sum_def rep_def)
  then show ?thesis by (rule rep_cong) (use be_sum in auto)
qed

text \<open>The half word with the sum of RFC 1071 in network order represents the number.\<close>

lemma rfc1071_htons: "rep (unat (lwip_htons (of_nat (rfc1071_sum xs)))) (le_num xs)"
proof -
  have r: "rep (rfc1071_sum xs) (256 * le_num xs)" by (rule rfc1071_rep)
  then have "unat (of_nat (rfc1071_sum xs) :: u16) = rfc1071_sum xs" by (intro unat_of_nat_u16) (simp add: rep_def)
  then have "rep (unat (lwip_htons (of_nat (rfc1071_sum xs)))) (256 * (256 * le_num xs))"
    by (intro rep_htons) (simp only: r)
  then show ?thesis by (rule rep_cong) (simp_all add: eqm_65536)
qed

lemma u16_eq_htons: "rep (unat (w :: u16)) (le_num xs) \<Longrightarrow> w = lwip_htons (of_nat (rfc1071_sum xs))"
  using rep_unique [OF _ rfc1071_htons] by (auto simp: word_unat_eq_iff)

section \<open>Version 1\<close>

definition reads :: "(u32 \<Rightarrow> u8) \<Rightarrow> u32 \<Rightarrow> u8 list \<Rightarrow> bool" where
  "reads m p xs \<longleftrightarrow> (\<forall>i<length xs. m (p + of_nat i) = xs ! i)"

lemma reads_bytes_at: "reads m p (bytes_at m p n)"
  by (simp add: reads_def bytes_at_def)

lemma reads_Cons: "reads m p (a # xs) \<longleftrightarrow> m p = a \<and> reads m (p + 1) xs"
proof -
  have "(\<forall>i<length (a # xs). m (p + of_nat i) = (a # xs) ! i) \<longleftrightarrow> m p = a \<and> (\<forall>i<length xs. m (p + of_nat (Suc i)) = xs ! i)"
    by (auto simp: less_Suc_eq_0_disj)
  then show ?thesis by (simp add: reads_def add.assoc)
qed

lemma reads_append: "reads m p (xs @ ys) \<longleftrightarrow> reads m p xs \<and> reads m (p + of_nat (length xs)) ys"
  by (induction xs arbitrary: p) (simp_all add: reads_Cons add.assoc, simp add: reads_def)

lemma be_word: "(ucast ((push_bit 8 (ucast a) :: u16) OR ucast b) :: u32) = of_nat (256 * unat a + unat b)" for a b :: u8
proof -
  have "(push_bit 8 (ucast a) :: u16) AND ucast b = 0" by (rule bit_eqI) (auto simp: bit_simps dest: bit_imp_le_length)
  then have "(push_bit 8 (ucast a) :: u16) OR ucast b = push_bit 8 (ucast a) + ucast b" by (rule disjunctive_add_eq_or [symmetric])
  moreover have "unat (push_bit 8 (ucast a) + ucast b :: u16) = 256 * unat a + unat b"
    using unat_u8 [of a] unat_u8 [of b] by (simp add: push_bit_eq_mult unat_word_ariths unsigned_ucast_eq take_bit_eq_mod)
  ultimately show ?thesis by (metis ucast_of_nat_u16)
qed

lemma be_byte: "(ucast (push_bit 8 (ucast a) :: u16) :: u32) = of_nat (256 * unat a)" for a :: u8
  using be_word [of a 0] by simp

lemma octet_loop_sum:
  assumes "reads m p xs"
  shows "case octet_loop m p (int (length xs)) acc of (q, l, acc') \<Rightarrow>
    (if l > 0 then acc' + ucast (push_bit 8 (ucast (m q)) :: u16) else acc') = acc + of_nat (sum_list (be_words xs))"
  using assms
proof (induction xs arbitrary: p acc rule: be_words.induct)
  case 1
  then show ?case by (simp add: octet_loop.simps)
next
  case (2 a)
  then show ?case by (simp add: octet_loop.simps reads_Cons be_byte)
next
  case (3 a b xs)
  then have r: "m p = a" "m (p + 1) = b" "reads m (p + 2) xs" by (simp_all add: reads_Cons add.assoc)
  have "octet_loop m p (int (length (a # b # xs))) acc = octet_loop m (p + 2) (int (length xs)) (acc + of_nat (256 * unat a + unat b))"
    by (subst octet_loop.simps) (simp add: r be_word del: of_nat_add of_nat_mult)
  then show ?case using "3.IH" [OF r(3), of "acc + of_nat (256 * unat a + unat b)"] by (simp add: algebra_simps split: prod.splits)
qed

lemma be_sum_bound: "sum_list (be_words xs) \<le> 65535 * ((length xs + 1) div 2)"
proof (induction xs rule: be_words.induct)
  case (2 a)
  then show ?case using unat_u8 [of a] by simp
next
  case (3 a b xs)
  then show ?case using unat_u8 [of a] unat_u8 [of b] by simp
qed simp

lemma high_half: "acc AND 0xFFFF0000 \<noteq> 0 \<longleftrightarrow> unat (acc :: u32) \<ge> 65536"
proof -
  have m: "(0xFFFF0000 :: u32) = push_bit 16 (mask 16)" by (simp add: mask_eq_exp_minus_1 push_bit_eq_mult)
  have "acc AND 0xFFFF0000 = push_bit 16 (drop_bit 16 acc)"
    unfolding m by (rule bit_eqI) (auto simp: bit_simps dest: bit_imp_le_length)
  moreover have "push_bit 16 (drop_bit 16 acc) = 0 \<longleftrightarrow> drop_bit 16 acc = 0"
  proof
    assume "push_bit 16 (drop_bit 16 acc) = 0"
    then have zero: "\<not> bit (push_bit 16 (drop_bit 16 acc)) n" for n by simp
    show "drop_bit 16 acc = 0"
    proof (rule bit_eqI)
      fix n
      show "bit (drop_bit 16 acc) n = bit 0 n"
        using zero [of "16 + n"] bit_imp_le_length [of acc "16 + n"] by (auto simp: bit_simps)
    qed
  qed simp
  moreover have "drop_bit 16 acc = 0 \<longleftrightarrow> unat acc div 65536 = 0" by (simp add: unat_eq_0 [symmetric] unat_drop_bit)
  ultimately show ?thesis by (simp add: div_eq_0_iff not_less)
qed

lemma standard_chksum_rep:
  assumes "reads m p xs" and "length xs \<le> 0x20000"
  shows "rep (unat (lwip_standard_chksum m p (int (length xs)))) (le_num xs)"
proof -
  obtain q l acc where o: "octet_loop m p (int (length xs)) 0 = (q, l, acc)" by (cases "octet_loop m p (int (length xs)) 0") auto
  let ?acc = "if l > 0 then acc + ucast (push_bit 8 (ucast (m q)) :: u16) else acc"
  have "?acc = of_nat (sum_list (be_words xs))" using octet_loop_sum [OF assms(1), of 0] o by simp
  moreover have "sum_list (be_words xs) < 2 ^ 32" using be_sum_bound [of xs] assms(2) by (simp add: div_le_mono le_less_trans)
  ultimately have u: "unat ?acc = sum_list (be_words xs)" by (simp add: unat_of_nat_u32)
  let ?f = "if FOLD_U32T ?acc AND 0xFFFF0000 \<noteq> 0 then FOLD_U32T (FOLD_U32T ?acc) else FOLD_U32T ?acc"
  have "rep (unat ?f) (sum_list (be_words xs))"
  proof (cases "FOLD_U32T ?acc AND 0xFFFF0000 \<noteq> 0")
    case True
    then show ?thesis using rep_fold_fold [OF u] by simp
  next
    case False
    then have "unat (FOLD_U32T ?acc) \<le> 65535" unfolding high_half by simp
    then show ?thesis using False eqm_fold [of ?acc] fold_zero [of ?acc] u by (simp add: rep_def)
  qed
  then have "rep (unat ?f) (256 * le_num xs)" by (rule rep_cong) (use be_sum in auto)
  then have "rep (unat (lwip_htons (ucast ?f))) (256 * (256 * le_num xs))" by (intro rep_htons rep_ucast)
  then have "rep (unat (lwip_htons (ucast ?f))) (le_num xs)" by (rule rep_cong) (simp_all add: eqm_65536)
  moreover have "lwip_standard_chksum m p (int (length xs)) = lwip_htons (ucast ?f)"
    by (simp add: lwip_standard_chksum_def o Let_def)
  ultimately show ?thesis by simp
qed

end
