(* ===== verification/Inet_Chksum_Versions.thy ===== *)
theory Inet_Chksum_Versions
  imports Inet_Chksum_Sum
begin

text \<open>Versions 2 and 3 of the summing routine of \<open>inet_chksum.c\<close> give the number that version 1 gives.\<close>

section \<open>Half words\<close>

fun half_words :: "u8 list \<Rightarrow> nat" where
  "half_words [] = 0"
| "half_words [a] = 0"
| "half_words (a # b # xs) = unat a + 256 * unat b + half_words xs"

definition tail_byte :: "u8 list \<Rightarrow> u8" where
  "tail_byte xs = (if odd (length xs) then last xs else 0)"

lemma half_words_rep: "eqm (half_words xs + unat (tail_byte xs)) (le_num xs)
  \<and> (half_words xs + unat (tail_byte xs) = 0 \<longleftrightarrow> le_num xs = 0)"
proof (induction xs rule: half_words.induct)
  case (3 a b xs)
  have t: "tail_byte (a # b # xs) = tail_byte xs" by (cases xs) (auto simp: tail_byte_def)
  have "eqm (half_words xs + unat (tail_byte xs)) (65536 * le_num xs)" using 3 eqm_sym [OF eqm_65536] by (auto intro: eqm_trans)
  then have "eqm (unat a + (256 * unat b + (half_words xs + unat (tail_byte xs)))) (unat a + (256 * unat b + 65536 * le_num xs))"
    by (intro eqm_add eqm_refl)
  then show ?case using 3 unfolding t by (auto simp: algebra_simps)
qed (simp_all add: tail_byte_def)

lemma half_words_bound: "half_words xs \<le> 65535 * (length xs div 2)"
proof (induction xs rule: half_words.induct)
  case (3 a b xs)
  then show ?case using unat_u8 [of a] unat_u8 [of b] by simp
qed simp_all

lemma u16_at_val: "(ucast (u16_at m p) :: u32) = of_nat (unat (m p) + 256 * unat (m (p + 1)))"
  using be_word [of "m (p + 1)" "m p"] by (simp add: u16_at_def or.commute add.commute)

lemma word_loop_sum:
  assumes "reads m p xs"
  shows "\<exists>q. word_loop m p (int (length xs)) acc = (q, int (length xs mod 2), acc + of_nat (half_words xs))
    \<and> (odd (length xs) \<longrightarrow> m q = tail_byte xs)"
  using assms
proof (induction xs arbitrary: p acc rule: half_words.induct)
  case 1
  then show ?case by (simp add: word_loop.simps)
next
  case (2 a)
  then show ?case by (simp add: word_loop.simps reads_Cons tail_byte_def)
next
  case (3 a b xs)
  then have r: "m p = a" "m (p + 1) = b" "reads m (p + 2) xs" by (simp_all add: reads_Cons add.assoc)
  have t: "tail_byte (a # b # xs) = tail_byte xs" by (cases xs) (auto simp: tail_byte_def)
  have "word_loop m p (int (length (a # b # xs))) acc = word_loop m (p + 2) (int (length xs)) (acc + of_nat (unat a + 256 * unat b))"
    by (subst word_loop.simps) (simp add: r u16_at_val del: of_nat_add of_nat_mult)
  then show ?case using "3.IH" [OF r(3), of "acc + of_nat (unat a + 256 * unat b)"] unfolding t by (simp add: algebra_simps)
qed

lemma bytes_of_t: "unat (set_byte_1 f 0) = 256 * unat f" "unat (set_byte_0 b (set_byte_1 f 0)) = 256 * unat f + unat b"
proof -
  have s1: "set_byte_1 f 0 = push_bit 8 (ucast f)" by (simp add: set_byte_1_def)
  show u: "unat (set_byte_1 f 0) = 256 * unat f"
    unfolding s1 using unat_u8 [of f] by (simp add: push_bit_eq_mult unat_word_ariths unsigned_ucast_eq take_bit_eq_mod)
  have "set_byte_0 b (set_byte_1 f 0) = push_bit 8 (ucast f) OR ucast b"
  proof -
    have m: "(0xFF00 :: u16) = push_bit 8 (mask 8)" by (simp add: mask_eq_exp_minus_1 push_bit_eq_mult)
    show ?thesis unfolding set_byte_0_def s1 m
      by (rule bit_eqI) (auto simp: bit_simps dest: bit_imp_le_length)
  qed
  then have eq: "(ucast (set_byte_0 b (set_byte_1 f 0)) :: u32) = of_nat (256 * unat f + unat b)" using be_word [of f b] by simp
  have "256 * unat f + unat b < 2 ^ 32" using unat_u8 [of f] unat_u8 [of b] by simp
  then have "unat (of_nat (256 * unat f + unat b) :: u32) = 256 * unat f + unat b" by (rule unat_of_nat_u32)
  then show "unat (set_byte_0 b (set_byte_1 f 0)) = 256 * unat f + unat b"
    using eq unat_ucast_16_32 [of "set_byte_0 b (set_byte_1 f 0)"] by metis
qed

lemma set_byte_1_zero: "set_byte_1 0 0 = 0"
  by (simp add: set_byte_1_def)

text \<open>The end of both routines, after the bulk of the data: \<open>f\<close> is the byte before it, if any.\<close>

definition chksum_end :: "(u32 \<Rightarrow> u8) \<Rightarrow> bool \<Rightarrow> u16 \<Rightarrow> u32 \<times> int \<times> u32 \<Rightarrow> u16" where
  "chksum_end m od t = (\<lambda>(ps, len, acc).
     let t = (if len > 0 then set_byte_0 (m ps) t else t);
         acc = FOLD_U32T (FOLD_U32T (acc + ucast t))
     in ucast (if od then SWAP_BYTES_IN_WORD acc else acc))"

lemma chksum_end_rep:
  assumes "reads m p xs" and "unat acc + half_words xs + 65535 < 2 ^ 32" and "eqm (unat acc) n" and "unat acc = 0 \<longleftrightarrow> n = 0"
  shows "rep (unat (chksum_end m od (set_byte_1 f 0) (word_loop m p (int (length xs)) acc)))
    ((if od then 256 else 1) * (256 * unat f + (n + le_num xs)))"
proof -
  obtain q where q: "word_loop m p (int (length xs)) acc = (q, int (length xs mod 2), acc + of_nat (half_words xs))"
    "odd (length xs) \<longrightarrow> m q = tail_byte xs" using word_loop_sum [OF assms(1)] by blast
  let ?t = "if int (length xs mod 2) > 0 then set_byte_0 (m q) (set_byte_1 f 0) else set_byte_1 f 0"
  have t: "unat ?t = 256 * unat f + unat (tail_byte xs)"
    using q(2) by (cases "odd (length xs)") (auto simp: bytes_of_t odd_iff_mod_2_eq_one tail_byte_def)
  let ?acc = "acc + of_nat (half_words xs) + ucast ?t"
  have h: "unat (of_nat (half_words xs) :: u32) = half_words xs" using assms(2) by (intro unat_of_nat_u32) simp
  have "unat ?t \<le> 65535" using unat_less_u16 [of ?t] by simp
  then have u: "unat ?acc = unat acc + half_words xs + unat ?t" using h assms(2) by (simp add: unat_word_ariths)
  let ?n = "unat acc + half_words xs + unat ?t"
  have "rep (unat (FOLD_U32T (FOLD_U32T ?acc))) ?n" by (rule rep_fold_fold [OF u])
  then have r: "rep (unat (FOLD_U32T (FOLD_U32T ?acc))) (256 * unat f + (n + le_num xs))"
  proof (rule rep_cong)
    have "eqm (256 * unat f + (unat acc + (half_words xs + unat (tail_byte xs)))) (256 * unat f + (n + le_num xs))"
      using assms(3) half_words_rep by (intro eqm_add eqm_refl) auto
    then show "eqm ?n (256 * unat f + (n + le_num xs))" unfolding t by (simp add: ac_simps)
    show "?n = 0 \<longleftrightarrow> 256 * unat f + (n + le_num xs) = 0" using assms(4) half_words_rep [of xs] unfolding t by auto
  qed
  show ?thesis
  proof (cases od)
    case True
    have "rep (unat (ucast (SWAP_BYTES_IN_WORD (FOLD_U32T (FOLD_U32T ?acc))) :: u16)) (256 * (256 * unat f + (n + le_num xs)))"
      by (intro rep_ucast rep_swap r)
    then show ?thesis using True by (simp only: chksum_end_def q(1) prod.case Let_def if_True)
  next
    case False
    have "rep (unat (ucast (FOLD_U32T (FOLD_U32T ?acc)) :: u16)) (256 * unat f + (n + le_num xs))" by (intro rep_ucast r)
    then show ?thesis using False by (simp only: chksum_end_def q(1) prod.case Let_def if_False mult_1)
  qed
qed

section \<open>Version 2\<close>

text \<open>From an odd address the bytes are exchanged, which puts the sum after the first byte right.\<close>

lemma odd_start: "eqm (256 * (256 * unat a + le_num xs)) (le_num (a # xs))"
  using eqm_add [OF eqm_65536 [of "unat a"] eqm_refl [of "256 * le_num xs"]] by (simp add: algebra_simps)

lemma standard_chksum_2_rep:
  assumes "reads m p xs" and "length xs \<le> 0x20000"
  shows "rep (unat (lwip_standard_chksum_2 m p (int (length xs)))) (le_num xs)"
proof (cases "p AND 1 \<noteq> 0 \<and> xs \<noteq> []")
  case True
  then obtain a ys where xs: "xs = a # ys" by (cases xs) auto
  have r: "m p = a" "reads m (p + 1) ys" using assms(1) by (simp_all add: xs reads_Cons)
  have "half_words ys + 65535 < 2 ^ 32" using half_words_bound [of ys] assms(2) xs by simp
  from chksum_end_rep [OF r(2), of 0 0 True a] this
  have "rep (unat (chksum_end m True (set_byte_1 a 0) (word_loop m (p + 1) (int (length ys)) 0))) (256 * (256 * unat a + le_num ys))"
    by simp
  then have "rep (unat (chksum_end m True (set_byte_1 a 0) (word_loop m (p + 1) (int (length ys)) 0))) (le_num xs)"
    by (rule rep_cong) (use odd_start xs in auto)
  then show ?thesis using True xs r(1) by (simp add: lwip_standard_chksum_2_def chksum_end_def Let_def split: prod.splits)
next
  case False
  have "half_words xs + 65535 < 2 ^ 32" using half_words_bound [of xs] assms(2) by simp
  from chksum_end_rep [OF assms(1), of 0 0 "p AND 1 \<noteq> 0" 0] this
  have "rep (unat (chksum_end m (p AND 1 \<noteq> 0) 0 (word_loop m p (int (length xs)) 0))) ((if p AND 1 \<noteq> 0 then 256 else 1) * le_num xs)"
    by (simp add: set_byte_1_zero)
  then have "rep (unat (chksum_end m (p AND 1 \<noteq> 0) 0 (word_loop m p (int (length xs)) 0))) (le_num xs)"
    by (rule rep_cong) (use False in auto)
  then show ?thesis using False by (auto simp: lwip_standard_chksum_2_def chksum_end_def Let_def split: prod.splits)
qed

section \<open>Version 3\<close>

lemma even_append:
  assumes "even (length xs)"
  shows "eqm (le_num (xs @ ys)) (le_num xs + le_num ys)"
proof -
  obtain k where "length xs = 2 * k" using assms by (rule evenE)
  then show ?thesis unfolding le_num_append by (intro eqm_add eqm_refl) (simp add: eqm_even_power)
qed

lemma le_num_append_zero: "le_num (xs @ ys) = 0 \<longleftrightarrow> le_num xs = 0 \<and> le_num ys = 0"
  by (auto simp: le_num_zero)

lemma u32_at_val: "unat (u32_at m p) = le_num [m p, m (p + 1), m (p + 2), m (p + 3)]"
proof -
  let ?a = "ucast (m p) :: u32" and ?b = "push_bit 8 (ucast (m (p + 1))) :: u32"
    and ?c = "push_bit 16 (ucast (m (p + 2))) :: u32" and ?d = "push_bit 24 (ucast (m (p + 3))) :: u32"
  have dis: "?a AND ?b = 0" "(?a OR ?b) AND ?c = 0" "(?a OR ?b OR ?c) AND ?d = 0"
    by (rule bit_eqI, auto simp: bit_simps dest: bit_imp_le_length)+
  have "u32_at m p = ?a + ?b + ?c + ?d"
    using dis [THEN disjunctive_add_eq_or] by (simp add: u32_at_def or.assoc)
  moreover have "unat ?a = unat (m p)" "unat ?b = 256 * unat (m (p + 1))" "unat ?c = 65536 * unat (m (p + 2))"
    "unat ?d = 16777216 * unat (m (p + 3))"
    using unat_u8 [of "m p"] unat_u8 [of "m (p + 1)"] unat_u8 [of "m (p + 2)"] unat_u8 [of "m (p + 3)"]
    by (simp_all add: push_bit_eq_mult unat_word_ariths unsigned_ucast_eq take_bit_eq_mod)
  ultimately show ?thesis
    using unat_u8 [of "m p"] unat_u8 [of "m (p + 1)"] unat_u8 [of "m (p + 2)"] unat_u8 [of "m (p + 3)"]
    by (simp add: unat_word_ariths)
qed

definition rep32 :: "u32 \<Rightarrow> nat \<Rightarrow> bool" where "rep32 a n \<longleftrightarrow> eqm (unat a) n \<and> (unat a = 0 \<longleftrightarrow> n = 0)"

lemma add_with_carry:
  assumes "rep32 a n"
  shows "rep32 (if a + w < a then a + w + 1 else a + w) (n + unat w)"
proof -
  have e: "eqm (unat a + unat w) (n + unat w)" using assms by (simp add: rep32_def eqm_add)
  show ?thesis
  proof (cases "unat a + unat w < 2 ^ 32")
    case True
    then have "unat (a + w) = unat a + unat w" by (rule unat_add_u32)
    then show ?thesis using e assms by (auto simp: rep32_def word_less_nat_alt)
  next
    case False
    then have s: "unat (a + w) = unat a + unat w - 2 ^ 32" using u32_bound [of a] u32_bound [of w] by (simp add: unat_word_ariths mod_if)
    then have "unat (a + w + 1) = unat a + unat w - 4294967295" "a + w < a"
      using False u32_bound [of a] u32_bound [of w] by (simp_all add: unat_word_ariths word_less_nat_alt)
    moreover have "eqm (unat a + unat w - 4294967295) (unat a + unat w)"
    proof -
      have "unat a + unat w = unat a + unat w - 4294967295 + 65537 * 65535" using False by simp
      then show ?thesis unfolding eqm_def by (metis mod_mult_self1)
    qed
    ultimately show ?thesis using e False assms u32_bound [of a] by (auto simp: rep32_def intro: eqm_trans)
  qed
qed

lemma rep32_cong: "rep32 a n \<Longrightarrow> eqm n k \<Longrightarrow> (n = 0 \<longleftrightarrow> k = 0) \<Longrightarrow> rep32 a k"
  by (auto simp: rep32_def intro: eqm_trans)

lemma long_loop_sum:
  assumes "reads m p xs" and "rep32 acc n"
  shows "\<exists>q ys zs acc'. long_loop m p (int (length xs)) acc = (q, int (length zs), acc') \<and> xs = ys @ zs \<and> even (length ys)
    \<and> length zs \<le> 7 \<and> reads m q zs \<and> rep32 acc' (n + le_num ys)"
  using assms
proof (induction "length xs" arbitrary: xs p acc n rule: less_induct)
  case less
  show ?case
  proof (cases "length xs > 7")
    case True
    define as bs xs' where "as = take 4 xs" and "bs = take 4 (drop 4 xs)" and "xs' = drop 8 xs"
    have xs: "xs = as @ bs @ xs'" and l: "length as = 4" "length bs = 4"
      using True append_take_drop_id [of 4 "drop 4 xs"] by (auto simp: as_def bs_def xs'_def simp flip: append_assoc)
    have r: "reads m p as" "reads m (p + 4) bs" "reads m (p + 8) xs'"
      using less.prems(1) l unfolding xs reads_append by (simp_all add: add.assoc)
    have four: "[m x, m (x + 1), m (x + 2), m (x + 3)] = zs" if "reads m x zs" "length zs = 4" for x zs
      using that by (auto simp: reads_def length_Suc_conv numeral_eq_Suc less_Suc_eq all_conj_distrib add.commute)
    define t1 where "t1 = (if acc + u32_at m p < acc then acc + u32_at m p + 1 else acc + u32_at m p)"
    define t2 where "t2 = (if t1 + u32_at m (p + 4) < t1 then t1 + u32_at m (p + 4) + 1 else t1 + u32_at m (p + 4))"
    have "rep32 t2 (n + unat (u32_at m p) + unat (u32_at m (p + 4)))"
      unfolding t1_def t2_def by (intro add_with_carry less.prems(2))
    moreover have "unat (u32_at m p) = le_num as" "unat (u32_at m (p + 4)) = le_num bs"
      unfolding u32_at_val four [OF r(1) l(1)] four [OF r(2) l(2)] by (rule refl)+
    ultimately have s: "rep32 t2 (n + le_num as + le_num bs)" by metis
    have "long_loop m p (int (length xs)) acc = long_loop m (p + 8) (int (length xs')) t2"
      using True by (subst long_loop.simps) (simp add: Let_def xs'_def of_nat_diff t1_def [symmetric] t2_def)
    moreover have shorter: "length xs' < length xs" using True by (simp add: xs'_def)
    moreover obtain q ys zs acc' where ih: "long_loop m (p + 8) (int (length xs')) t2 = (q, int (length zs), acc')" "xs' = ys @ zs"
      "even (length ys)" "length zs \<le> 7" "reads m q zs" "rep32 acc' (n + le_num as + le_num bs + le_num ys)"
      using less.hyps [OF shorter r(3) s] by blast
    moreover have "rep32 acc' (n + le_num (as @ bs @ ys))"
    proof (rule rep32_cong [OF ih(6)])
      have "eqm (le_num (as @ bs @ ys)) (le_num as + le_num (bs @ ys))" using l by (intro even_append) simp
      also have "eqm \<dots> (le_num as + (le_num bs + le_num ys))" using l by (intro eqm_add eqm_refl even_append) simp
      finally show "eqm (n + le_num as + le_num bs + le_num ys) (n + le_num (as @ bs @ ys))"
        using eqm_add [OF eqm_refl [of n]] eqm_sym by (fastforce simp: add.assoc)
      show "n + le_num as + le_num bs + le_num ys = 0 \<longleftrightarrow> n + le_num (as @ bs @ ys) = 0" by (auto simp: le_num_append_zero)
    qed
    moreover have "xs = (as @ bs @ ys) @ zs" "even (length (as @ bs @ ys))" using xs ih(2,3) l by simp_all
    ultimately show ?thesis by (intro exI [of _ q] exI [of _ "as @ bs @ ys"] exI [of _ zs] exI [of _ acc']) simp
  next
    case False
    then have "long_loop m p (int (length xs)) acc = (p, int (length xs), acc)" by (subst long_loop.simps) simp
    then show ?thesis using False less.prems by (intro exI [of _ p] exI [of _ "[]"] exI [of _ xs] exI [of _ acc]) simp
  qed
qed

text \<open>From any alignment to a word boundary on: the words, the fold and the end.\<close>

lemma words_rep:
  assumes "reads m p xs" and "rep32 acc n"
  shows "rep (unat (case long_loop m p (int (length xs)) acc of (pl, len, acc) \<Rightarrow>
      chksum_end m od (set_byte_1 f 0) (word_loop m pl len (FOLD_U32T acc))))
    ((if od then 256 else 1) * (256 * unat f + (n + le_num xs)))"
proof -
  obtain q ys zs acc' where l: "long_loop m p (int (length xs)) acc = (q, int (length zs), acc')" "xs = ys @ zs" "even (length ys)"
    "length zs \<le> 7" "reads m q zs" "rep32 acc' (n + le_num ys)" using long_loop_sum [OF assms] by blast
  let ?acc = "FOLD_U32T acc'"
  have "length zs div 2 \<le> 3" using l(4) by linarith
  then have "half_words zs \<le> 65535 * 3" using half_words_bound [of zs] by linarith
  then have b: "unat ?acc + half_words zs + 65535 < 2 ^ 32" using fold_bound [of acc'] by simp
  have e: "eqm (unat ?acc) (n + le_num ys)" "unat ?acc = 0 \<longleftrightarrow> n + le_num ys = 0"
    using l(6) eqm_fold [of acc'] fold_zero [of acc'] by (auto simp: rep32_def intro: eqm_trans)
  have "rep (unat (chksum_end m od (set_byte_1 f 0) (word_loop m q (int (length zs)) ?acc)))
    ((if od then 256 else 1) * (256 * unat f + (n + le_num ys + le_num zs)))"
    by (rule chksum_end_rep [OF l(5) b e])
  then have "rep (unat (chksum_end m od (set_byte_1 f 0) (word_loop m q (int (length zs)) ?acc)))
    ((if od then 256 else 1) * (256 * unat f + (n + le_num xs)))"
  proof (rule rep_cong)
    have "eqm (n + (le_num ys + le_num zs)) (n + le_num xs)" unfolding l(2) by (intro eqm_add eqm_refl eqm_sym [OF even_append] l(3))
    then show "eqm ((if od then 256 else 1) * (256 * unat f + (n + le_num ys + le_num zs))) ((if od then 256 else 1) * (256 * unat f + (n + le_num xs)))"
      by (intro eqm_mult eqm_add [of "256 * unat f" "256 * unat f"] eqm_refl) (simp add: add.assoc)
  qed (auto simp: l(2) le_num_append_zero)
  then show ?thesis by (simp add: l(1))
qed

lemma standard_chksum_3_rep:
  assumes "reads m p xs"
  shows "rep (unat (lwip_standard_chksum_3 m p (int (length xs)))) (le_num xs)"
proof -
  have main: "rep (unat (case (if pb AND 3 \<noteq> 0 \<and> int (length ys) > 1 then (pb + 2, int (length ys) - 2, ucast (u16_at m pb)) else (pb, int (length ys), 0))
        of (ps, len, acc) \<Rightarrow> case long_loop m ps len acc of (pl, len, acc) \<Rightarrow>
          chksum_end m od (set_byte_1 f 0) (word_loop m pl len (FOLD_U32T acc))))
      ((if od then 256 else 1) * (256 * unat f + le_num ys))" (is "rep ?w _")
    if r: "reads m pb ys" for pb ys od f
  proof (cases "pb AND 3 \<noteq> 0 \<and> int (length ys) > 1")
    case True
    then obtain a b zs where ys: "ys = a # b # zs" by (cases ys; cases "tl ys") auto
    have r': "m pb = a" "m (pb + 1) = b" "reads m (pb + 2) zs" using r by (simp_all add: ys reads_Cons add.assoc)
    have "unat (ucast (u16_at m pb) :: u32) = le_num [a, b]" using r'(1,2) u16_at_val [of m pb] unat_u8 [of a] unat_u8 [of b]
      by (simp add: unat_word_ariths unsigned_ucast_eq take_bit_eq_mod)
    then have "rep32 (ucast (u16_at m pb)) (le_num [a, b])" by (simp add: rep32_def)
    from words_rep [OF r'(3) this, of od f]
    have "rep ?w ((if od then 256 else 1) * (256 * unat f + (le_num [a, b] + le_num zs)))"
      using True by (simp add: ys)
    then show ?thesis
    proof (rule rep_cong)
      have "eqm (le_num [a, b] + le_num zs) (le_num ys)" using even_append [of "[a, b]" zs] eqm_sym ys by simp
      then show "eqm ((if od then 256 else 1) * (256 * unat f + (le_num [a, b] + le_num zs))) ((if od then 256 else 1) * (256 * unat f + le_num ys))"
        by (intro eqm_mult eqm_add eqm_refl)
    qed (auto simp: ys)
  next
    case False
    have "rep32 0 0" by (simp add: rep32_def)
    from words_rep [OF r this, of od f] show ?thesis
      unfolding if_not_P [OF False] prod.case by (simp only: add_0)
  qed
  have body: "lwip_standard_chksum_3 m p (int (length xs)) = (case
      (if p AND 1 \<noteq> 0 \<and> int (length xs) > 0 then (p + 1, int (length xs) - 1, set_byte_1 (m p) 0) else (p, int (length xs), 0))
      of (pb, len, t) \<Rightarrow> case (if pb AND 3 \<noteq> 0 \<and> len > 1 then (pb + 2, len - 2, ucast (u16_at m pb)) else (pb, len, 0))
      of (ps, len, acc) \<Rightarrow> case long_loop m ps len acc of (pl, len, acc) \<Rightarrow>
        chksum_end m (p AND 1 \<noteq> 0) t (word_loop m pl len (FOLD_U32T acc)))"
    by (simp only: lwip_standard_chksum_3_def chksum_end_def Let_def)
  show ?thesis
  proof (cases "p AND 1 \<noteq> 0 \<and> int (length xs) > 0")
    case True
    then obtain a ys where xs: "xs = a # ys" by (cases xs) auto
    have r: "m p = a" "reads m (p + 1) ys" using assms(1) by (simp_all add: xs reads_Cons)
    have l: "int (length xs) - 1 = int (length ys)" by (simp add: xs)
    have t: "(p AND 1 \<noteq> 0) = True" using True by simp
    have "rep (unat (lwip_standard_chksum_3 m p (int (length xs)))) ((if True then 256 else 1) * (256 * unat a + le_num ys))"
      unfolding body unfolding if_P [OF True] unfolding prod.case l r(1) t by (rule main [OF r(2)])
    then show ?thesis by (rule rep_cong) (use odd_start xs in auto)
  next
    case False
    have "rep (unat (lwip_standard_chksum_3 m p (int (length xs)))) ((if p AND 1 \<noteq> 0 then 256 else 1) * (256 * unat (0 :: u8) + le_num xs))"
      unfolding body unfolding if_not_P [OF False] unfolding prod.case by (rule main [OF assms, of "p AND 1 \<noteq> 0" 0, unfolded set_byte_1_zero])
    then show ?thesis by (rule rep_cong) (use False in auto)
  qed
qed

end
