(* ===== verification/Inet_Chksum_Chain.thy ===== *)
theory Inet_Chksum_Chain
  imports Inet_Chksum_Sum
begin

text \<open>
  The checksum of a chain in terms of its contents: a pbuf of odd length exchanges the bytes of the
  sum so far, which keeps the sum in step with the position of the next byte.
\<close>

section \<open>The loops over the chain\<close>

text \<open>What a sum that represents \<open>n\<close> stands for, with its bytes exchanged or not.\<close>

definition meaning :: "bool \<Rightarrow> nat \<Rightarrow> nat" where "meaning sw n = (if sw then 256 else 1) * n"

lemma meaning_zero [simp]: "meaning sw n = 0 \<longleftrightarrow> n = 0"
  by (simp add: meaning_def)

lemma eqm_even: "even k \<Longrightarrow> eqm (256 ^ k * n) n"
  using eqm_even_power by (metis evenE)

lemma eqm_odd: "odd k \<Longrightarrow> eqm (256 ^ k * n) (256 * n)"
proof -
  assume "odd k"
  then obtain j where k: "k = 2 * j + 1" by (rule oddE)
  have "256 ^ k * n = 256 ^ (2 * j) * (256 * n)" unfolding k by (simp add: power_add)
  then show ?thesis using eqm_even_power [of j "256 * n"] by (simp only:)
qed

lemma meaning_step:
  "eqm (meaning sw (n + le_num (ds @ xs))) (if odd (length ds) then meaning (\<not> sw) (256 * (n + le_num ds) + le_num xs) else meaning sw (n + le_num ds + le_num xs))"
proof (cases "odd (length ds)")
  case True
  have N: "eqm (le_num (ds @ xs)) (le_num ds + 256 * le_num xs)"
    unfolding le_num_append by (intro eqm_add eqm_refl eqm_odd True)
  show ?thesis
  proof (cases sw)
    case True
    have "eqm (256 * (n + le_num (ds @ xs))) (256 * (n + le_num ds) + 65536 * le_num xs)"
      using eqm_mult [OF eqm_add [OF eqm_refl N], of 256 n] by (simp add: algebra_simps)
    also have "eqm \<dots> (256 * (n + le_num ds) + le_num xs)" by (intro eqm_add eqm_refl eqm_65536)
    finally show ?thesis using True \<open>odd (length ds)\<close> by (simp add: meaning_def)
  next
    case False
    have "eqm (n + le_num (ds @ xs)) ((n + le_num ds) + 256 * le_num xs)"
      using eqm_add [OF eqm_refl N, of n] by (simp add: add.assoc)
    also have "eqm \<dots> (65536 * (n + le_num ds) + 256 * le_num xs)" by (intro eqm_add eqm_refl eqm_sym [OF eqm_65536])
    finally show ?thesis using False \<open>odd (length ds)\<close> by (simp add: meaning_def algebra_simps)
  qed
next
  case False
  have "eqm (n + le_num (ds @ xs)) (n + (le_num ds + le_num xs))"
    unfolding le_num_append by (intro eqm_add eqm_refl eqm_even) (use False in simp)
  from eqm_mult [OF this] show ?thesis using False by (simp only: meaning_def add.assoc if_False)
qed

lemma odd_u16: "(w :: u16) mod 2 \<noteq> 0 \<longleftrightarrow> odd (unat w)"
  by (simp add: word_unat_eq_iff unat_mod odd_iff_mod_2_eq_one)

lemma bytes_rep: "rep (unat (ucast (lwip_standard_chksum m p (int (unat (n :: u16)))) :: u32)) (le_num (bytes_at m p (ucast n)))"
  using standard_chksum_rep [OF reads_bytes_at, of m p "ucast n"] unat_less_u16 [of n] by simp

lemma chain_rep:
  assumes "pchain s q qs" and "rep (unat acc) n"
  shows "\<exists>acc' sw' n'. chksum_chain q acc sw s = Some (acc', sw') \<and> rep (unat acc') n'
    \<and> eqm (meaning sw' n') (meaning sw (n + le_num (content s qs))) \<and> (n' = 0 \<longleftrightarrow> n + le_num (content s qs) = 0)"
  using assms
proof (induction qs arbitrary: q acc sw n)
  case Nil
  then have "chksum_chain q acc sw s = Some (acc, sw)" by (subst chksum_chain.simps) simp
  then show ?case using Nil by auto
next
  case (Cons x xs)
  then obtain b where b: "pbufs s x = Some b" "pchain s (p_next b) xs" "q = x" "x \<noteq> 0" by auto
  let ?c = "ucast (lwip_standard_chksum (bytes s) (payload b) (int (unat (p_len b)))) :: u32"
  let ?a = "FOLD_U32T (acc + ?c)"
  define ds where "ds = pbuf_data s x"
  have D: "ds = bytes_at (bytes s) (payload b) (ucast (p_len b))" "length ds = unat (p_len b)" using b(1) by (simp_all add: ds_def pbuf_data_Some)
  have a: "rep (unat ?a) (n + le_num ds)" unfolding D(1) by (intro rep_add Cons.prems(2) bytes_rep)
  have C: "content s (x # xs) = ds @ content s xs" by (simp add: ds_def)
  show ?case
  proof (cases "odd (length ds)")
    case True
    then have "chksum_chain q acc sw s = chksum_chain (p_next b) (SWAP_BYTES_IN_WORD ?a) (\<not> sw) s"
      by (subst chksum_chain.simps) (use b odd_u16 [of "p_len b"] D(2) in \<open>simp add: Let_def\<close>)
    moreover obtain acc' sw' n' where ih: "chksum_chain (p_next b) (SWAP_BYTES_IN_WORD ?a) (\<not> sw) s = Some (acc', sw')" "rep (unat acc') n'"
      "eqm (meaning sw' n') (meaning (\<not> sw) (256 * (n + le_num ds) + le_num (content s xs)))"
      "n' = 0 \<longleftrightarrow> 256 * (n + le_num ds) + le_num (content s xs) = 0"
      using Cons.IH [OF b(2) rep_swap [OF a], of "\<not> sw"] by (elim exE conjE) (rule that)
    moreover have "eqm (meaning sw' n') (meaning sw (n + le_num (content s (x # xs))))"
      unfolding C using eqm_trans [OF ih(3)] eqm_sym [OF meaning_step [of sw n ds "content s xs"]] True by simp
    ultimately show ?thesis unfolding C by (auto simp: le_num_append)
  next
    case False
    then have "chksum_chain q acc sw s = chksum_chain (p_next b) ?a sw s"
      by (subst chksum_chain.simps) (use b odd_u16 [of "p_len b"] D(2) in \<open>simp add: Let_def\<close>)
    moreover obtain acc' sw' n' where ih: "chksum_chain (p_next b) ?a sw s = Some (acc', sw')" "rep (unat acc') n'"
      "eqm (meaning sw' n') (meaning sw (n + le_num ds + le_num (content s xs)))" "n' = 0 \<longleftrightarrow> n + le_num ds + le_num (content s xs) = 0"
      using Cons.IH [OF b(2) a, of sw] by (elim exE conjE) (rule that)
    moreover have "eqm (meaning sw' n') (meaning sw (n + le_num (content s (x # xs))))"
      unfolding C using eqm_trans [OF ih(3)] eqm_sym [OF meaning_step [of sw n ds "content s xs"]] False by simp
    ultimately show ?thesis unfolding C by (auto simp: le_num_append)
  qed
qed

lemma chain_partial_rep:
  assumes "pchain s q qs" and "rep (unat acc) n"
  shows "\<exists>acc' sw' n'. chksum_chain_partial q c acc sw s = Some (acc', sw') \<and> rep (unat acc') n'
    \<and> eqm (meaning sw' n') (meaning sw (n + le_num (take (unat c) (content s qs)))) \<and> (n' = 0 \<longleftrightarrow> n + le_num (take (unat c) (content s qs)) = 0)"
  using assms
proof (induction qs arbitrary: q c acc sw n)
  case Nil
  then have "chksum_chain_partial q c acc sw s = Some (acc, sw)" by (subst chksum_chain_partial.simps) simp
  then show ?case using Nil by auto
next
  case (Cons x xs)
  then obtain b where b: "pbufs s x = Some b" "pchain s (p_next b) xs" "q = x" "x \<noteq> 0" by auto
  show ?case
  proof (cases "c = 0")
    case True
    then have "chksum_chain_partial q c acc sw s = Some (acc, sw)" by (subst chksum_chain_partial.simps) simp
    then show ?thesis using True Cons.prems(2) by auto
  next
    case c0: False
    define k where "k = (if p_len b > c then c else p_len b)"
    have ku: "unat k = min (unat c) (unat (p_len b))" by (auto simp: k_def word_less_nat_alt)
    have cu: "unat (c - k) = unat c - unat k" by (rule unat_sub_u16) (auto simp: k_def)
    let ?c = "ucast (lwip_standard_chksum (bytes s) (payload b) (int (unat k))) :: u32"
    let ?a = "FOLD_U32T (acc + ?c)"
    define ds where "ds = bytes_at (bytes s) (payload b) (ucast k)"
    have D: "ds = take (unat c) (pbuf_data s x)" "length ds = unat k"
    proof -
      have "pbuf_data s x = bytes_at (bytes s) (payload b) (ucast (p_len b))" using b(1) by (simp add: pbuf_data_Some)
      moreover have "take (unat (ucast k :: u32)) (bytes_at (bytes s) (payload b) (ucast (p_len b))) = ds"
        unfolding ds_def by (rule take_bytes_at) (simp add: ku)
      moreover have "take (unat k) (pbuf_data s x) = take (unat c) (pbuf_data s x)"
        using b(1) by (auto simp: ku min_def pbuf_data_Some)
      ultimately show "ds = take (unat c) (pbuf_data s x)" by simp
      show "length ds = unat k" by (simp add: ds_def)
    qed
    have a: "rep (unat ?a) (n + le_num ds)" unfolding ds_def by (intro rep_add Cons.prems(2) bytes_rep)
    let ?rest = "take (unat (c - k)) (content s xs)"
    have C: "take (unat c) (content s (x # xs)) = ds @ ?rest" using D b(1) cu ku by (simp add: pbuf_data_Some min_def)
    have rest: "even (length ds) \<longleftrightarrow> even (unat (p_len b))" if "?rest \<noteq> []" using that D(2) cu ku by (auto simp: min_def split: if_splits)
    have step: "eqm (meaning sw (n + le_num (ds @ ?rest))) (if odd (unat (p_len b))
        then meaning (\<not> sw) (256 * (n + le_num ds) + le_num ?rest) else meaning sw (n + le_num ds + le_num ?rest))"
    proof (cases "?rest = []")
      case True
      have "eqm (meaning sw N) (meaning (\<not> sw) (256 * N))" for N
        using eqm_sym [OF eqm_65536 [of N]] by (cases sw) (simp_all add: meaning_def)
      from this [of "n + le_num ds"] show ?thesis unfolding True append_Nil2 le_num.simps add_0_right
        by (cases "odd (unat (p_len b))") (simp_all only: if_True if_False eqm_refl simp_thms)
    next
      case False
      then show ?thesis using meaning_step [of sw n ds ?rest] rest by simp
    qed
    show ?thesis
    proof (cases "odd (unat (p_len b))")
      case True
      then have "chksum_chain_partial q c acc sw s = chksum_chain_partial (p_next b) (c - k) (SWAP_BYTES_IN_WORD ?a) (\<not> sw) s"
        by (subst chksum_chain_partial.simps) (use b odd_u16 [of "p_len b"] c0 in \<open>simp add: Let_def k_def [symmetric] word_gt_0\<close>)
      moreover obtain acc' sw' n' where ih: "chksum_chain_partial (p_next b) (c - k) (SWAP_BYTES_IN_WORD ?a) (\<not> sw) s = Some (acc', sw')"
        "rep (unat acc') n'" "eqm (meaning sw' n') (meaning (\<not> sw) (256 * (n + le_num ds) + le_num ?rest))"
        "n' = 0 \<longleftrightarrow> 256 * (n + le_num ds) + le_num ?rest = 0"
        using Cons.IH [OF b(2) rep_swap [OF a], of "c - k" "\<not> sw"] by (elim exE conjE) (rule that)
      moreover have "eqm (meaning sw' n') (meaning sw (n + le_num (ds @ ?rest)))"
        using eqm_trans [OF ih(3)] eqm_sym [OF step] True by simp
      ultimately show ?thesis unfolding C by (auto simp: le_num_append)
    next
      case False
      then have "chksum_chain_partial q c acc sw s = chksum_chain_partial (p_next b) (c - k) ?a sw s"
        by (subst chksum_chain_partial.simps) (use b odd_u16 [of "p_len b"] c0 in \<open>simp add: Let_def k_def [symmetric] word_gt_0\<close>)
      moreover obtain acc' sw' n' where ih: "chksum_chain_partial (p_next b) (c - k) ?a sw s = Some (acc', sw')"
        "rep (unat acc') n'" "eqm (meaning sw' n') (meaning sw (n + le_num ds + le_num ?rest))" "n' = 0 \<longleftrightarrow> n + le_num ds + le_num ?rest = 0"
        using Cons.IH [OF b(2) a, of "c - k" sw] by (elim exE conjE) (rule that)
      moreover have "eqm (meaning sw' n') (meaning sw (n + le_num (ds @ ?rest)))"
        using eqm_trans [OF ih(3)] eqm_sym [OF step] False by simp
      ultimately show ?thesis unfolding C by (auto simp: le_num_append)
    qed
  qed
qed

end
