(* ===== verification/Inet_Chksum_Properties.thy ===== *)
theory Inet_Chksum_Properties
  imports Inet_Chksum_Versions Inet_Chksum_Chain Pbuf_Properties
begin

text \<open>
  The properties of \<open>inet_chksum.c\<close>: all routines compute the sum of RFC 1071 of the bytes they are
  given, for memory, for chains of pbufs and with the pseudo header of UDP, and a checksum that is
  stored in the data makes the receiver's computation give 0.
\<close>

section \<open>The summing routines\<close>

text \<open>
  C31. The three versions of the summing routine agree with RFC 1071. For every memory, every
  address, aligned or not, and every length up to 0x20000 bytes, each returns the one's complement
  sum of the 16 bit words of the data in network order, padded with a zero byte, as it is stored in
  memory. The sums do not overflow, and both representations of zero agree.
\<close>
theorem chksum_versions_agree:
  assumes "n \<le> 0x20000"
  shows "let r = lwip_htons (of_nat (rfc1071_sum (bytes_at m p (of_nat n)))) in
    lwip_standard_chksum m p (int n) = r \<and> lwip_standard_chksum_2 m p (int n) = r \<and> lwip_standard_chksum_3 m p (int n) = r"
proof -
  let ?xs = "bytes_at m p (of_nat n)"
  have l: "length ?xs = n" using assms by (simp add: unat_of_nat_u32)
  have r: "reads m p ?xs" by (rule reads_bytes_at)
  show ?thesis
    using standard_chksum_rep [OF r, unfolded l, OF assms] standard_chksum_2_rep [OF r, unfolded l, OF assms]
      standard_chksum_3_rep [OF r, unfolded l] by (simp only: Let_def u16_eq_htons simp_thms)
qed

text \<open>Eleven bytes from an odd address.\<close>

theorem chksum_versions_agree_witness:
  "lwip_standard_chksum (bytes demo_lwip) 0x1001 (int 11) = lwip_standard_chksum_3 (bytes demo_lwip) 0x1001 (int 11)"
  using chksum_versions_agree [of 11 "bytes demo_lwip" "0x1001"] by (simp add: Let_def)

section \<open>Chains\<close>

lemma NOT_low: "rep (unat (a :: u32)) n \<Longrightarrow> NOT (ucast (a AND 0xFFFF) :: u16) = NOT (ucast a)"
proof -
  assume "rep (unat a) n"
  then have "a AND 0xFFFF = a" using and_FFFF [of a] by (simp add: rep_def word_unat_eq_iff)
  then show ?thesis by simp
qed

lemma swapped_back:
  assumes "rep (unat acc) n'" and "eqm (meaning sw n') n" and "n' = 0 \<longleftrightarrow> n = 0"
  shows "rep (unat (if sw then SWAP_BYTES_IN_WORD acc else acc)) n"
proof -
  have "rep (unat (if sw then SWAP_BYTES_IN_WORD acc else acc)) (meaning sw n')"
    using assms(1) rep_swap by (simp add: meaning_def)
  then show ?thesis by (rule rep_cong) (use assms in auto)
qed

text \<open>
  The checksum of a chain. However the bytes are cut into pbufs, of even or odd lengths and at any
  alignment, \<open>inet_chksum_pbuf\<close> returns the complement of the RFC 1071 sum of the contents of the chain.
\<close>
theorem chksum_of_chain:
  assumes "pchain s p qs"
  shows "inet_chksum_pbuf p s = Some (NOT (lwip_htons (of_nat (rfc1071_sum (content s qs)))))"
proof -
  have "rep (unat (0 :: u32)) 0" by (simp add: rep_def)
  from chain_rep [OF assms this, of False] obtain acc sw n' where
    c: "chksum_chain p 0 False s = Some (acc, sw)" "rep (unat acc) n'" "eqm (meaning sw n') (le_num (content s qs))"
      "n' = 0 \<longleftrightarrow> le_num (content s qs) = 0"
    by (auto simp: meaning_def)
  let ?a = "if sw then SWAP_BYTES_IN_WORD acc else acc"
  have r: "rep (unat ?a) (le_num (content s qs))" by (rule swapped_back [OF c(2-4)])
  have "inet_chksum_pbuf p s = Some (NOT (ucast ?a))" using NOT_low [OF r] c(1) by (simp add: inet_chksum_pbuf_def Let_def)
  then show ?thesis using u16_eq_htons [OF rep_ucast [OF r]] by simp
qed

theorem chksum_of_chain_witness:
  "inet_chksum_pbuf 0x100 demo_lwip = Some (NOT (lwip_htons (of_nat (rfc1071_sum (content demo_lwip demo_qs)))))"
  using chksum_of_chain [of demo_lwip "0x100" demo_qs] demo_packets(1) by (simp add: packet_def)

section \<open>The pseudo header\<close>

text \<open>The pseudo header of UDP and TCP: addresses as they are in memory, a zero byte, protocol and length.\<close>

definition address_bytes :: "u32 \<Rightarrow> u8 list" where
  "address_bytes a = [ucast a, ucast (drop_bit 8 a), ucast (drop_bit 16 a), ucast (drop_bit 24 a)]"

definition pseudo_header :: "u32 \<Rightarrow> u32 \<Rightarrow> u8 \<Rightarrow> u16 \<Rightarrow> u8 list" where
  "pseudo_header src dest proto len = address_bytes src @ address_bytes dest @ [0, proto] @ [ucast (drop_bit 8 len), ucast len]"

lemma unat_ucast_u8: "unat (ucast (w :: 'a::len word) :: u8) = unat w mod 256"
  by (simp add: unsigned_ucast_eq take_bit_eq_mod)

lemma address_num: "le_num (address_bytes a) = unat a"
proof -
  have "unat a div 2 ^ 24 < 256" using u32_bound [of a] by (simp add: less_mult_imp_div_less)
  then have "unat a div 16777216 mod 256 = unat a div 16777216" by simp
  moreover have "x mod 256 + 256 * (x div 256 mod 256) + 65536 * (x div 65536 mod 256) + 16777216 * (x div 16777216) = x" for x :: nat
  proof -
    have "x = x div 256 * 256 + x mod 256" by simp
    moreover have "x div 256 = x div 65536 * 256 + x div 256 mod 256"
      using div_mult_mod_eq [of "x div 256" 256] by (simp add: div_mult2_eq [symmetric])
    moreover have "x div 65536 = x div 16777216 * 256 + x div 65536 mod 256"
      using div_mult_mod_eq [of "x div 65536" 256] by (simp add: div_mult2_eq [symmetric])
    ultimately show ?thesis by linarith
  qed
  ultimately show ?thesis by (simp add: address_bytes_def unat_ucast_u8 unat_drop_bit algebra_simps)
qed

lemma halves: "unat (a AND 0xFFFF) + unat (drop_bit 16 a AND 0xFFFF) = unat a mod 65536 + unat (a :: u32) div 65536"
proof -
  have "unat a div 65536 < 65536" using u32_bound [of a] by (simp add: less_mult_imp_div_less)
  then show ?thesis by (simp add: and_FFFF unat_drop_bit)
qed

lemma eqm_halves: "eqm (x mod 65536 + x div 65536) x"
proof -
  have "eqm (x mod 65536 + x div 65536) (x mod 65536 + 65536 * (x div 65536))" by (intro eqm_add eqm_refl eqm_sym [OF eqm_65536])
  then show ?thesis by simp
qed

lemma address_sum_rep: "rep (unat (address_sum src dest)) (unat src + unat dest)"
proof -
  let ?h = "\<lambda>x :: nat. x mod 65536 + x div 65536"
  let ?acc = "(src AND 0xFFFF) + (drop_bit 16 src AND 0xFFFF) + (dest AND 0xFFFF) + (drop_bit 16 dest AND 0xFFFF)"
  have "unat (x AND 0xFFFF) \<le> 65535" for x :: u32 using and_FFFF [of x] mod_less_divisor [of 65536 "unat x"] by simp
  from this [of src] this [of "drop_bit 16 src"] this [of dest] this [of "drop_bit 16 dest"]
  have u: "unat ?acc = unat (src AND 0xFFFF) + unat (drop_bit 16 src AND 0xFFFF) + unat (dest AND 0xFFFF) + unat (drop_bit 16 dest AND 0xFFFF)"
    by (simp add: unat_word_ariths)
  also have "\<dots> = ?h (unat src) + ?h (unat dest)" using halves [of src] halves [of dest] by simp
  finally have "rep (unat (FOLD_U32T (FOLD_U32T ?acc))) (?h (unat src) + ?h (unat dest))" by (rule rep_fold_fold)
  then have "rep (unat (FOLD_U32T (FOLD_U32T ?acc))) (unat src + unat dest)"
  proof (rule rep_cong)
    show "eqm (?h (unat src) + ?h (unat dest)) (unat src + unat dest)" by (intro eqm_add eqm_halves)
    have "?h x = 0 \<longleftrightarrow> x = 0" for x by auto
    then show "?h (unat src) + ?h (unat dest) = 0 \<longleftrightarrow> unat src + unat dest = 0" by simp
  qed
  then show ?thesis by (simp add: address_sum_def Let_def)
qed

lemma htons_num: "unat (lwip_htons w) = le_num [ucast (drop_bit 8 w), ucast w]"
proof -
  have "unat w div 256 < 256" using unat_less_u16 [of w] by (simp add: less_mult_imp_div_less)
  then show ?thesis by (simp add: unat_htons unat_ucast_u8 unat_drop_bit)
qed

lemma pseudo_header_num:
  "eqm (le_num (pseudo_header src dest proto len @ xs)) (unat src + unat dest + le_num xs + unat (lwip_htons (ucast proto)) + unat (lwip_htons len))"
  "le_num (pseudo_header src dest proto len @ xs) = 0
    \<longleftrightarrow> unat src + unat dest + le_num xs + unat (lwip_htons (ucast proto)) + unat (lwip_htons len) = 0"
proof -
  have p: "le_num [0, proto] = unat (lwip_htons (ucast proto))"
  proof -
    have "unat (ucast proto :: u16) = unat proto" using unat_u8 [of proto] by (simp add: unsigned_ucast_eq take_bit_nat_eq_self)
    then show ?thesis using unat_u8 [of proto] by (simp add: htons_num unat_ucast_u8 unat_drop_bit)
  qed
  have l: "le_num [ucast (drop_bit 8 len), ucast len] = unat (lwip_htons len)" by (rule htons_num [symmetric])
  let ?L = "[ucast (drop_bit 8 len), ucast len] :: u8 list"
  have a: "length (address_bytes a) = 4" for a by (simp add: address_bytes_def)
  have "eqm (le_num (address_bytes src @ (address_bytes dest @ ([0, proto] @ (?L @ xs)))))
    (le_num (address_bytes src) + (le_num (address_bytes dest) + (le_num [0, proto] + (le_num ?L + le_num xs))))"
    by (intro eqm_trans [OF even_append] eqm_add eqm_refl) (simp_all only: a even_numeral list.size even_Suc even_zero simp_thms add_0_right add_Suc_right eqm_refl)
  then show "eqm (le_num (pseudo_header src dest proto len @ xs)) (unat src + unat dest + le_num xs + unat (lwip_htons (ucast proto)) + unat (lwip_htons len))"
    unfolding address_num p l pseudo_header_def append_assoc by (simp only: ac_simps)
  have "le_num (address_bytes src @ (address_bytes dest @ ([0, proto] @ (?L @ xs)))) = 0
    \<longleftrightarrow> le_num (address_bytes src) + (le_num (address_bytes dest) + (le_num [0, proto] + (le_num ?L + le_num xs))) = 0"
    unfolding le_num_append_zero by (simp only: add_is_0)
  then show "le_num (pseudo_header src dest proto len @ xs) = 0
    \<longleftrightarrow> unat src + unat dest + le_num xs + unat (lwip_htons (ucast proto)) + unat (lwip_htons len) = 0"
    unfolding address_num p l pseudo_header_def append_assoc by (simp only: ac_simps)
qed

lemma pseudo_finish_rep:
  assumes "rep (unat acc) n'" and "eqm (meaning sw n') (unat src + unat dest + le_num xs)" and "n' = 0 \<longleftrightarrow> unat src + unat dest + le_num xs = 0"
  shows "pseudo_finish proto len acc sw = NOT (lwip_htons (of_nat (rfc1071_sum (pseudo_header src dest proto len @ xs))))"
proof -
  let ?n = "unat src + unat dest + le_num xs"
  let ?a = "if sw then SWAP_BYTES_IN_WORD acc else acc"
  let ?p = "lwip_htons (ucast proto)" and ?l = "lwip_htons len"
  have r: "rep (unat ?a) ?n" by (rule swapped_back [OF assms])
  have b: "unat ?a \<le> 65535" "unat ?p \<le> 65535" "unat ?l \<le> 65535"
    using r unat_less_u16 [of ?p] unat_less_u16 [of ?l] by (simp_all add: rep_def)
  then have u: "unat (?a + ucast ?p + ucast ?l) = unat ?a + unat ?p + unat ?l" by (simp add: unat_word_ariths)
  let ?f = "FOLD_U32T (FOLD_U32T (?a + ucast ?p + ucast ?l))"
  have f: "rep (unat ?f) (unat ?a + unat ?p + unat ?l)" by (rule rep_fold_fold [OF u])
  have "rep (unat ?f) (le_num (pseudo_header src dest proto len @ xs))"
  proof (rule rep_cong [OF f])
    have "eqm (unat ?a + unat ?p + unat ?l) (?n + unat ?p + unat ?l)" using r by (intro eqm_add eqm_refl) (simp add: rep_def)
    then show "eqm (unat ?a + unat ?p + unat ?l) (le_num (pseudo_header src dest proto len @ xs))"
      by (rule eqm_trans) (rule eqm_sym [OF pseudo_header_num(1)])
    show "unat ?a + unat ?p + unat ?l = 0 \<longleftrightarrow> le_num (pseudo_header src dest proto len @ xs) = 0"
      unfolding pseudo_header_num(2) using r by (simp add: rep_def)
  qed
  from u16_eq_htons [OF rep_ucast [OF this]] NOT_low [OF this]
  show ?thesis by (simp add: pseudo_finish_def Let_def)
qed

lemma chksum_with_pseudo_header_base:
  assumes "pchain s p qs"
  shows "inet_chksum_pseudo p proto len src dest s
      = Some (NOT (lwip_htons (of_nat (rfc1071_sum (pseudo_header src dest proto len @ content s qs)))))
    \<and> inet_chksum_pseudo_partial p proto len c src dest s
      = Some (NOT (lwip_htons (of_nat (rfc1071_sum (pseudo_header src dest proto len @ take (unat c) (content s qs))))))"
proof
  obtain acc sw n' where f: "chksum_chain p (address_sum src dest) False s = Some (acc, sw)" "rep (unat acc) n'"
    "eqm (meaning sw n') (unat src + unat dest + le_num (content s qs))" "n' = 0 \<longleftrightarrow> unat src + unat dest + le_num (content s qs) = 0"
    using chain_rep [OF assms address_sum_rep [of src dest], of False] by (auto simp: meaning_def)
  then show "inet_chksum_pseudo p proto len src dest s
    = Some (NOT (lwip_htons (of_nat (rfc1071_sum (pseudo_header src dest proto len @ content s qs)))))"
    using pseudo_finish_rep [OF f(2-4)] by (simp add: inet_chksum_pseudo_def inet_cksum_pseudo_base_def)
  let ?xs = "take (unat c) (content s qs)"
  obtain acc sw n' where g: "chksum_chain_partial p c (address_sum src dest) False s = Some (acc, sw)" "rep (unat acc) n'"
    "eqm (meaning sw n') (unat src + unat dest + le_num ?xs)" "n' = 0 \<longleftrightarrow> unat src + unat dest + le_num ?xs = 0"
    using chain_partial_rep [OF assms address_sum_rep [of src dest], of c False] by (auto simp: meaning_def)
  then show "inet_chksum_pseudo_partial p proto len c src dest s
    = Some (NOT (lwip_htons (of_nat (rfc1071_sum (pseudo_header src dest proto len @ ?xs)))))"
    using pseudo_finish_rep [OF g(2-4)] by (simp add: inet_chksum_pseudo_partial_def inet_cksum_pseudo_partial_base_def)
qed

text \<open>
  C32. The checksum of UDP. For every chain, \<open>inet_chksum_pseudo\<close> returns the complement of the RFC 1071
  sum of the pseudo header (source, destination, zero, protocol, length) followed by the contents of
  the chain, and \<open>inet_chksum_pseudo_partial\<close> the same for the first \<open>c\<close> bytes of the contents,
  also when they end in the middle of a pbuf.
\<close>
theorem chksum_with_pseudo_header:
  assumes "pchain s p qs"
  shows "inet_chksum_pseudo p proto len src dest s
      = Some (NOT (lwip_htons (of_nat (rfc1071_sum (pseudo_header src dest proto len @ content s qs)))))
    \<and> inet_chksum_pseudo_partial p proto len c src dest s
      = Some (NOT (lwip_htons (of_nat (rfc1071_sum (pseudo_header src dest proto len @ take (unat c) (content s qs))))))"
  by (rule chksum_with_pseudo_header_base [OF assms])

theorem chksum_with_pseudo_header_witness:
  "inet_chksum_pseudo 0x100 17 9 0x6401A8C0 0x0101A8C0 demo_lwip
    = Some (NOT (lwip_htons (of_nat (rfc1071_sum (pseudo_header 0x6401A8C0 0x0101A8C0 17 9 @ content demo_lwip demo_qs)))))"
  using chksum_with_pseudo_header [of demo_lwip "0x100" demo_qs] demo_packets(1) by (simp add: packet_def)

section \<open>Verification by the receiver\<close>

text \<open>The bytes of a half word in memory.\<close>

definition u16_bytes :: "u16 \<Rightarrow> u8 list" where "u16_bytes c = [ucast c, ucast (drop_bit 8 c)]"

lemma u16_bytes_num: "le_num (u16_bytes c) = unat c"
proof -
  have "unat c div 256 < 256" using unat_less_u16 [of c] by (simp add: less_mult_imp_div_less)
  then show ?thesis by (simp add: u16_bytes_def unat_ucast_u8 unat_drop_bit)
qed

lemma unat_NOT_u16: "unat (NOT w :: u16) = 65535 - unat w"
proof -
  have "NOT w = 65535 - w" by (simp add: not_eq_complement)
  moreover have "w \<le> 65535" using unat_less_u16 [of w] by (simp add: word_le_nat_alt)
  ultimately show ?thesis by (simp add: unat_sub_u16)
qed

lemma inserted_num:
  assumes "even (length as)" and "rep (unat w) (le_num (as @ [0, 0] @ bs))"
  shows "rep 65535 (le_num (as @ u16_bytes (NOT w) @ bs))"
proof -
  have e: "eqm (le_num (as @ ys @ bs)) (le_num as + (le_num ys + le_num bs))" if "length ys = 2" for ys
    using assms(1) that by (intro eqm_trans [OF even_append] eqm_add eqm_refl even_append) simp_all
  have z: "eqm (unat w) (le_num as + (0 + le_num bs))"
    using eqm_trans [OF _ e [of "[0, 0]"]] assms(2) by (simp add: rep_def)
  have w: "unat w \<le> 65535" using assms(2) by (simp add: rep_def)
  have "eqm (le_num (as @ u16_bytes (NOT w) @ bs)) (le_num as + (unat (NOT w) + le_num bs))"
    using e [of "u16_bytes (NOT w)"] by (simp add: u16_bytes_num, simp add: u16_bytes_def)
  also have "eqm \<dots> (unat (NOT w) + unat w)"
    using eqm_add [OF eqm_refl [of "unat (NOT w)"] eqm_sym [OF z]] by (simp add: ac_simps)
  also have "unat (NOT w) + unat w = 65535" using w by (simp add: unat_NOT_u16)
  finally have m: "eqm 65535 (le_num (as @ u16_bytes (NOT w) @ bs))" by (rule eqm_sym)
  have "le_num (as @ u16_bytes (NOT w) @ bs) \<noteq> 0"
  proof
    assume "le_num (as @ u16_bytes (NOT w) @ bs) = 0"
    then have "le_num as = 0" "unat (NOT w) = 0" "le_num bs = 0" by (simp_all add: le_num_append_zero u16_bytes_num)
    then have "unat w = 65535" "le_num (as @ [0, 0] @ bs) = 0" using unat_NOT_u16 [of w] w by (simp_all only: le_num_append_zero) simp_all
    then show False using assms(2) by (simp add: rep_def)
  qed
  then show ?thesis using m by (simp add: rep_def)
qed

lemma inserted_sum: "even (length as) \<Longrightarrow> NOT (lwip_htons (of_nat (rfc1071_sum (as @ u16_bytes (NOT (lwip_htons (of_nat (rfc1071_sum (as @ [0, 0] @ bs))))) @ bs)))) = 0"
proof -
  assume "even (length as)"
  from inserted_num [OF this rfc1071_htons, of bs] have "rep 65535 (le_num (as @ u16_bytes (NOT (lwip_htons (of_nat (rfc1071_sum (as @ [0, 0] @ bs))))) @ bs))" .
  from rep_unique [OF rfc1071_htons this] have "unat (lwip_htons (of_nat (rfc1071_sum (as @ u16_bytes (NOT (lwip_htons (of_nat (rfc1071_sum (as @ [0, 0] @ bs))))) @ bs)))) = 65535" .
  then show ?thesis by (simp add: unat_eq_0 [symmetric] unat_NOT_u16)
qed

text \<open>
  C33. A checksum that is inserted verifies. When the checksum of data with a zero half word at an even
  offset is stored in that half word, the checksum of the result is 0: for memory with \<open>inet_chksum\<close>,
  as in an IP header, and for a chain with \<open>inet_chksum_pseudo\<close>, as in a UDP datagram.
\<close>
theorem inserted_chksum_verifies:
  assumes "even (length as)"
  shows "(bytes_at m p (ucast n) = as @ [0, 0] @ bs \<and> bytes_at m' p (ucast n) = as @ u16_bytes (inet_chksum m p n) @ bs
      \<longrightarrow> inet_chksum m' p n = 0)
    \<and> (pchain s q qs \<and> pchain s' q qs \<and> content s qs = as @ [0, 0] @ bs
      \<and> inet_chksum_pseudo q proto len src dest s = Some c \<and> content s' qs = as @ u16_bytes c @ bs
      \<longrightarrow> inet_chksum_pseudo q proto len src dest s' = Some 0)"
proof (intro conjI impI; elim conjE)
  assume xs: "bytes_at m p (ucast n) = as @ [0, 0] @ bs" and ys: "bytes_at m' p (ucast n) = as @ u16_bytes (inet_chksum m p n) @ bs"
  have c: "inet_chksum m x n = NOT (lwip_htons (of_nat (rfc1071_sum (bytes_at m x (ucast n)))))" for m x
    using u16_eq_htons [OF standard_chksum_rep [OF reads_bytes_at, of m x "ucast n"]] unat_less_u16 [of n] by (simp add: inet_chksum_def)
  show "inet_chksum m' p n = 0"
    unfolding c [of m'] ys unfolding c [of m] xs by (rule inserted_sum [OF assms])
next
  assume a: "pchain s q qs" "pchain s' q qs" "content s qs = as @ [0, 0] @ bs"
    "inet_chksum_pseudo q proto len src dest s = Some c" "content s' qs = as @ u16_bytes c @ bs"
  let ?h = "pseudo_header src dest proto len @ as"
  have "even (length ?h)" using assms by (simp add: pseudo_header_def address_bytes_def)
  note z = inserted_sum [OF this, of bs]
  have "c = NOT (lwip_htons (of_nat (rfc1071_sum (?h @ [0, 0] @ bs))))"
    using chksum_with_pseudo_header_base [OF a(1)] a(3,4) by simp
  then show "inet_chksum_pseudo q proto len src dest s' = Some 0"
    using chksum_with_pseudo_header_base [OF a(2)] a(5) z by simp
qed

text \<open>Four bytes of which the last two are 5 and 0.\<close>

theorem inserted_chksum_verifies_witness:
  "let m = (\<lambda>_. 0)(2 := 5); m' = mem_put 0 (u16_bytes (inet_chksum m 0 4) @ [5, 0]) m in inet_chksum m' 0 4 = 0"
proof -
  let ?m = "(\<lambda>_. 0 :: u8)(2 := 5)"
  let ?ys = "u16_bytes (inet_chksum ?m 0 4) @ [5, 0]"
  have "length ?ys = 4" by (simp add: u16_bytes_def)
  then have "bytes_at (mem_put 0 ?ys ?m) 0 4 = ?ys" using bytes_put [of ?ys 0 ?m] by simp
  moreover have "bytes_at ?m 0 4 = [0, 0, 5, 0]" by (simp add: bytes_at_def upt_rec)
  ultimately show ?thesis
    using inserted_chksum_verifies [of "[]" ?m 0 4 "[5, 0]" "mem_put 0 ?ys ?m"] by (simp add: Let_def)
qed

section \<open>Checksum while copying\<close>

text \<open>
  C34. Filling a pbuf with a running checksum. \<open>pbuf_fill_chksum\<close> refuses a range that does not fit into the
  pbuf with \<open>ERR_ARG\<close> and changes nothing. Otherwise the bytes are in the pbuf at the offset, its other bytes are as
  before, and the running checksum, when it represented the sum of the parts filled so far, represents that sum with the
  new part at its offset, so the parts may come in any order and with odd lengths.
\<close>
theorem fill_chksum_adds:
  assumes "pbufs s p = Some b" and "unat (payload b) + unat (p_len b) \<le> 2 ^ 32" and "rep (unat chksum) k"
  shows "if off < p_len b \<and> unat off + unat n \<le> unat (p_len b)
    then \<exists>c s'. pbuf_fill_chksum p off d n chksum s = Some (ERR_OK, c, s')
      \<and> pbuf_data s' p = take (unat off) (pbuf_data s p) @ bytes_at (bytes s) d (ucast n) @ drop (unat off + unat n) (pbuf_data s p)
      \<and> rep (unat c) (k + 256 ^ (unat off mod 2) * le_num (bytes_at (bytes s) d (ucast n)))
    else pbuf_fill_chksum p off d n chksum s = Some (ERR_ARG, chksum, s)"
proof (cases "off < p_len b \<and> unat off + unat n \<le> unat (p_len b)")
  case True
  let ?xs = "bytes_at (bytes s) d (ucast n)"
  let ?s = "put_bytes (mem_put (payload b + ucast off) ?xs) s"
  have copy: "bytes_at (bytes ?s) (payload b + ucast off) (ucast n) = ?xs"
    using bytes_put [of ?xs "payload b + ucast off" "bytes s"] unat_less_u16 [of n] by simp
  let ?c = "lwip_standard_chksum (bytes ?s) (payload b + ucast off) (int (unat n))"
  let ?d = "if off AND 1 \<noteq> 0 then ucast (SWAP_BYTES_IN_WORD (ucast ?c)) else ?c"
  have rc: "rep (unat (ucast ?c :: u32)) (le_num ?xs)"
    using bytes_rep [of "bytes ?s" "payload b + ucast off" n] unfolding copy .
  have odd: "off AND 1 \<noteq> 0 \<longleftrightarrow> odd (unat off)" by (simp add: and_one_eq odd_u16 flip: odd_u16)
  have "rep (unat (ucast ?d :: u32)) (256 ^ (unat off mod 2) * le_num ?xs)"
  proof (cases "odd (unat off)")
    case True
    have "rep (unat (ucast (SWAP_BYTES_IN_WORD (ucast ?c)) :: u16)) (256 * le_num ?xs)" by (intro rep_ucast rep_swap rc)
    then show ?thesis using True odd by (simp add: odd_iff_mod_2_eq_one)
  next
    case False
    then show ?thesis using rc odd by (simp add: even_iff_mod_2_eq_zero)
  qed
  moreover have "rep (unat (ucast chksum :: u32)) k" using assms(3) by simp
  ultimately have "rep (unat (ucast (FOLD_U32T (ucast chksum + ucast ?d)) :: u16)) (k + 256 ^ (unat off mod 2) * le_num ?xs)"
    by (intro rep_ucast rep_add)
  moreover have "pbuf_fill_chksum p off d n chksum s = Some (ERR_OK, ucast (FOLD_U32T (ucast chksum + ucast ?d)), ?s)"
    using assms(1) True by (simp add: pbuf_fill_chksum_def lwip_chksum_copy_def Let_def not_le memcpy_put put_bytes_def)
  moreover have "pbuf_data ?s p = take (unat off) (pbuf_data s p) @ ?xs @ drop (unat off + unat n) (pbuf_data s p)"
    using store_in_pbuf [OF assms(1), of off ?xs] assms(2) True by simp
  ultimately show ?thesis using True by auto
next
  case False
  then show ?thesis using assms(1) by (auto simp: pbuf_fill_chksum_def not_less)
qed

theorem fill_chksum_adds_witness:
  "\<exists>c s'. pbuf_fill_chksum 0x100 1 0x6000 2 0 demo_lwip = Some (ERR_OK, c, s') \<and> rep (unat c) (256 * le_num (bytes_at (bytes demo_lwip) 0x6000 2))"
proof -
  have "pbufs demo_lwip 0x100 = Some (demo_pbuf 0x200 0x1000 9 3 1)" by (simp add: demo_lwip_def)
  from fill_chksum_adds [OF this, of 0 0 1 2 "0x6000"] show ?thesis by (auto simp: demo_pbuf_def rep_def)
qed

end
