(* ===== verification/Emac.thy ===== *)
theory Emac
  imports Inet_Chksum
begin

unbundle bit_operations_syntax

text \<open>
  The Ethernet driver of \<open>lwip/arch/freertos_lwip_mac.c\<close>: the descriptor rings that the driver
  shares with the controller, reception into pbufs, transmission of chains and their release.
  The registers of the controller are fields of the state; the controller itself moves
  \<open>RxProduceIndex\<close> and \<open>TxConsumeIndex\<close> and writes status words and receive buffers. Each function is a
  critical section of the mutex it takes. \<open>LWIP_STATS\<close> is 0 and \<open>LPC_TX_PBUF_BOUNCE_EN\<close> is 1.
  The result \<open>None\<close> is a fault: a null pointer or an index outside of an array.
\<close>

section \<open>Constants\<close>

definition EMAC_NUM_RX_FRAG :: nat where "EMAC_NUM_RX_FRAG = 4"
definition EMAC_NUM_TX_FRAG :: nat where "EMAC_NUM_TX_FRAG = 3"
definition EMAC_ETH_MAX_FLEN :: u16 where "EMAC_ETH_MAX_FLEN = 1536"
definition EMAC_RCTRL_INT :: u32 where "EMAC_RCTRL_INT = 0x80000000"
definition EMAC_RINFO_SIZE :: u32 where "EMAC_RINFO_SIZE = 0x7FF"
definition EMAC_RINFO_CRC_ERR :: u32 where "EMAC_RINFO_CRC_ERR = 0x00800000"
definition EMAC_RINFO_SYM_ERR :: u32 where "EMAC_RINFO_SYM_ERR = 0x01000000"
definition EMAC_RINFO_LEN_ERR :: u32 where "EMAC_RINFO_LEN_ERR = 0x02000000"
definition EMAC_RINFO_ALIGN_ERR :: u32 where "EMAC_RINFO_ALIGN_ERR = 0x08000000"
definition EMAC_TCTRL_SIZE :: u32 where "EMAC_TCTRL_SIZE = 0x7FF"
definition EMAC_TCTRL_LAST :: u32 where "EMAC_TCTRL_LAST = 0x40000000"
definition EMAC_TCTRL_INT :: u32 where "EMAC_TCTRL_INT = 0x80000000"
definition EMAC_INT_RX_OVERRUN :: u32 where "EMAC_INT_RX_OVERRUN = 0x01"
definition EMAC_INT_RX_ERR :: u32 where "EMAC_INT_RX_ERR = 0x02"
definition EMAC_INT_RX_DONE :: u32 where "EMAC_INT_RX_DONE = 0x08"
definition EMAC_INT_TX_UNDERRUN :: u32 where "EMAC_INT_TX_UNDERRUN = 0x10"
definition EMAC_INT_TX_ERR :: u32 where "EMAC_INT_TX_ERR = 0x20"
definition EMAC_INT_TX_DONE :: u32 where "EMAC_INT_TX_DONE = 0x80"
definition EMAC_CR_RX_EN :: u32 where "EMAC_CR_RX_EN = 1"
definition EMAC_CR_FULL_DUP :: u32 where "EMAC_CR_FULL_DUP = 0x400"
definition EMAC_MAC1_REC_EN :: u32 where "EMAC_MAC1_REC_EN = 1"
definition EMAC_MAC1_RES_TX :: u32 where "EMAC_MAC1_RES_TX = 0x100"
definition EMAC_MAC1_RES_RX :: u32 where "EMAC_MAC1_RES_RX = 0x400"
definition EMAC_MAC2_FULL_DUP :: u32 where "EMAC_MAC2_FULL_DUP = 1"
definition EMAC_IPGT_FULL_DUP :: u32 where "EMAC_IPGT_FULL_DUP = 0x15"
definition EMAC_IPGT_HALF_DUP :: u32 where "EMAC_IPGT_HALF_DUP = 0x12"
definition EMAC_SUPP_SPEED :: u32 where "EMAC_SUPP_SPEED = 0x100"
definition ETHTYPE_IP :: u16 where "ETHTYPE_IP = 0x0800"
definition ETHTYPE_ARP :: u16 where "ETHTYPE_ARP = 0x0806"

section \<open>State\<close>

record dma_desc =
  Packet :: u32
  Ctrl :: u32

record rx_stat =
  Info :: u32
  HashCRC :: u32

text \<open>The driver data, the registers it uses and the packet buffers; \<open>..._at\<close> are the addresses of the arrays.\<close>

record enet =
  prxs :: "rx_stat list"
  prxd :: "dma_desc list"
  ptxs :: "u32 list"
  ptxd :: "dma_desc list"
  rxb :: "u32 list"
  txb :: "u32 list"
  rxdescfree :: u8
  rxdescnextindex :: u8
  lasttxidx :: u8
  tx_signals :: nat
  MAC1 :: u32
  MAC2 :: u32
  IPGT :: u32
  IPGR :: u32
  CLRT :: u32
  MAXF :: u32
  SUPP :: u32
  MCFG :: u32
  SA0 :: u32
  SA1 :: u32
  SA2 :: u32
  RxFilterCtrl :: u32
  IntEnable :: u32
  Command :: u32
  IntStatus :: u32
  RxDescriptor :: u32
  RxDescriptorNumber :: u32
  RxStatus :: u32
  RxProduceIndex :: u32
  RxConsumeIndex :: u32
  TxDescriptor :: u32
  TxDescriptorNumber :: u32
  TxStatus :: u32
  TxProduceIndex :: u32
  TxConsumeIndex :: u32
  prxd_at :: u32
  prxs_at :: u32
  ptxd_at :: u32
  ptxs_at :: u32
  net :: lwip

text \<open>Writing ones to \<open>IntClear\<close> clears interrupts.\<close>

definition write_IntClear :: "u32 \<Rightarrow> enet \<Rightarrow> enet" where
  "write_IntClear v d = d\<lparr>IntStatus := IntStatus d AND NOT v\<rparr>"

definition at :: "'a list \<Rightarrow> nat \<Rightarrow> 'a option" where
  "at xs i = (if i < length xs then Some (xs ! i) else None)"

definition deref :: "u32 \<Rightarrow> lwip \<Rightarrow> pbuf option" where
  "deref p s = (if p = 0 then None else pbufs s p)"

section \<open>The receive ring\<close>

definition EMAC_RCTRL_SIZE :: "u32 \<Rightarrow> u32" where "EMAC_RCTRL_SIZE n = n AND 0x7FF"

definition lpc_rxqueue_pbuf :: "u32 \<Rightarrow> enet \<Rightarrow> enet option" where
  "lpc_rxqueue_pbuf p d =
     (let idx = unat (rxdescnextindex d) in
      if idx \<ge> EMAC_NUM_RX_FRAG then None
      else do {
        b \<leftarrow> deref p (net d);
        let d = d\<lparr>rxb := (rxb d)[idx := p],
          prxd := (prxd d)[idx := \<lparr>Packet = payload b, Ctrl = EMAC_RCTRL_INT OR EMAC_RCTRL_SIZE (ucast (p_len b) - 1)\<rparr>],
          prxs := (prxs d)[idx := \<lparr>Info = 0xFFFFFFFF, HashCRC = 0xFFFFFFFF\<rparr>],
          rxdescfree := rxdescfree d - 1\<rparr>;
        let i = rxdescnextindex d + 1;
        let i = (if i > ucast (RxDescriptorNumber d) then 0 else i);
        Some (d\<lparr>rxdescnextindex := i, RxConsumeIndex := ucast i\<rparr>)
      })"

partial_function (option) rx_queue_loop :: "libc_malloc \<Rightarrow> u8 \<Rightarrow> enet \<Rightarrow> (u8 \<times> enet) option" where
  "rx_queue_loop malloc queued d =
     (if rxdescfree d > 0 then
        do {
          (p, s) \<leftarrow> pbuf_alloc malloc PBUF_RAW EMAC_ETH_MAX_FLEN PBUF_RAM (net d);
          let d = d\<lparr>net := s\<rparr>;
          if p = 0 then Some (queued, d)
          else do { d \<leftarrow> lpc_rxqueue_pbuf p d; rx_queue_loop malloc (queued + 1) d }
        }
      else Some (queued, d))"

definition lpc_rx_queue :: "libc_malloc \<Rightarrow> enet \<Rightarrow> (u8 \<times> enet) option" where
  "lpc_rx_queue malloc d = rx_queue_loop malloc 0 d"

definition lpc_rx_setup :: "libc_malloc \<Rightarrow> enet \<Rightarrow> (err_t \<times> enet) option" where
  "lpc_rx_setup malloc d =
     do {
       (n, d) \<leftarrow> lpc_rx_queue malloc (d\<lparr>RxDescriptor := prxd_at d, RxDescriptorNumber := of_nat (EMAC_NUM_RX_FRAG - 1),
         RxStatus := prxs_at d, rxdescfree := of_nat EMAC_NUM_RX_FRAG, rxdescnextindex := 0\<rparr>);
       Some (if unat n \<noteq> EMAC_NUM_RX_FRAG then ERR_BUF else ERR_OK, d)
     }"

definition IsRxEmpty :: "enet \<Rightarrow> bool" where
  "IsRxEmpty d \<longleftrightarrow> RxProduceIndex d = RxConsumeIndex d"

section \<open>Reception\<close>

text \<open>The receive buffers are given back after an overrun.\<close>

fun free_buffers :: "nat list \<Rightarrow> enet \<Rightarrow> enet option" where
  "free_buffers [] d = Some d"
| "free_buffers (idx # is) d =
     do {
       p \<leftarrow> at (rxb d) idx;
       d \<leftarrow> (if p \<noteq> 0 then do { f \<leftarrow> pbuf_free p (net d); Some (d\<lparr>net := snd f, rxb := (rxb d)[idx := 0]\<rparr>) } else Some d);
       free_buffers is d
     }"

definition rx_reset :: "libc_malloc \<Rightarrow> enet \<Rightarrow> enet option" where
  "rx_reset malloc d =
     do {
       let d = d\<lparr>Command := Command d AND NOT EMAC_CR_RX_EN, MAC1 := MAC1 d AND NOT EMAC_MAC1_REC_EN\<rparr>;
       let d = d\<lparr>MAC1 := MAC1 d OR EMAC_MAC1_RES_RX\<rparr>;
       let d = write_IntClear (EMAC_INT_RX_OVERRUN OR EMAC_INT_RX_ERR) d;
       d \<leftarrow> free_buffers [0..<EMAC_NUM_RX_FRAG] d;
       (_, d) \<leftarrow> lpc_rx_setup malloc d;
       Some (d\<lparr>Command := Command d OR EMAC_CR_RX_EN, MAC1 := MAC1 d OR EMAC_MAC1_REC_EN\<rparr>)
     }"

definition rx_errors :: u32 where
  "rx_errors = EMAC_RINFO_CRC_ERR OR EMAC_RINFO_SYM_ERR OR EMAC_RINFO_ALIGN_ERR OR EMAC_RINFO_LEN_ERR"

text \<open>
  The pbuf of the frame, 0 when there is none, and the state. A good frame is copied into a new pbuf of its
  length and the buffer stays in the ring, with its length fields set to the length of the frame.
\<close>

definition lpc_low_level_input :: "libc_malloc \<Rightarrow> enet \<Rightarrow> (u32 \<times> enet) option" where
  "lpc_low_level_input malloc d =
     (if IntStatus d AND (EMAC_INT_RX_OVERRUN OR EMAC_INT_RX_ERR) \<noteq> 0
      then do { d \<leftarrow> rx_reset malloc d; Some (0, d) }
      else
        (let idx = unat (ucast (RxConsumeIndex d) :: u8) in
         if IsRxEmpty d then Some (0, d)
         else do {
           st \<leftarrow> at (prxs d) idx;
           r \<leftarrow> at (rxb d) idx;
           if Info st AND rx_errors \<noteq> 0
           then do {
             d \<leftarrow> lpc_rxqueue_pbuf r (d\<lparr>rxdescfree := rxdescfree d + 1, rxb := (rxb d)[idx := 0]\<rparr>);
             Some (0, d)
           }
           else do {
             let len = (ucast ((Info st AND EMAC_RINFO_SIZE) + 1 - 4) :: u16);
             (p, s) \<leftarrow> pbuf_alloc malloc PBUF_RAW len PBUF_RAM (net d);
             _ \<leftarrow> deref r s;
             let s = upd_pb r (\<lambda>b. b\<lparr>p_len := len, tot_len := len\<rparr>) s;
             (e, s) \<leftarrow> pbuf_copy p r s;
             let d = d\<lparr>net := s\<rparr>;
             if e = ERR_OK
             then (let d = d\<lparr>prxs := (prxs d)[idx := \<lparr>Info = 0xFFFFFFFF, HashCRC = 0xFFFFFFFF\<rparr>]\<rparr>;
                       i = (of_nat idx + 1 :: u8);
                       i = (if i > ucast (RxDescriptorNumber d) then 0 else i)
                   in Some (p, d\<lparr>rxdescnextindex := i, RxConsumeIndex := ucast i\<rparr>))
             else do { d \<leftarrow> lpc_rxqueue_pbuf p d; Some (0, d) }
           }
         }))"

text \<open>\<open>input\<close> is \<open>netif->input\<close>, the entry of the stack, and owns the pbuf when it returns \<open>ERR_OK\<close>.\<close>

definition lpc_enetif_input :: "libc_malloc \<Rightarrow> (u32 \<Rightarrow> lwip \<Rightarrow> (err_t \<times> lwip) option) \<Rightarrow> enet \<Rightarrow> enet option" where
  "lpc_enetif_input malloc input d =
     do {
       (p, d) \<leftarrow> lpc_low_level_input malloc d;
       if p = 0 then Some d
       else do {
         b \<leftarrow> pbufs (net d) p;
         let ty = lwip_htons (u16_at (bytes (net d)) (payload b + 12));
         if ty = ETHTYPE_IP \<or> ty = ETHTYPE_ARP
         then do {
           (e, s) \<leftarrow> input p (net d);
           if e \<noteq> ERR_OK then do { f \<leftarrow> pbuf_free p s; Some (d\<lparr>net := snd f\<rparr>) } else Some (d\<lparr>net := s\<rparr>)
         }
         else do { f \<leftarrow> pbuf_free p (net d); Some (d\<lparr>net := snd f\<rparr>) }
       }
     }"

text \<open>The loop of the receive task after it was woken; it ends when the ring is empty.\<close>

partial_function (option) receive_loop :: "libc_malloc \<Rightarrow> (u32 \<Rightarrow> lwip \<Rightarrow> (err_t \<times> lwip) option) \<Rightarrow> enet \<Rightarrow> enet option" where
  "receive_loop malloc input d =
     (if \<not> IsRxEmpty d then do { d \<leftarrow> lpc_enetif_input malloc input d; receive_loop malloc input d } else Some d)"

section \<open>The transmit ring\<close>

definition lpc_tx_setup :: "enet \<Rightarrow> enet" where
  "lpc_tx_setup d = d\<lparr>TxDescriptor := ptxd_at d, TxDescriptorNumber := of_nat (EMAC_NUM_TX_FRAG - 1), TxStatus := ptxs_at d,
     ptxd := map (\<lambda>x. x\<lparr>Ctrl := 0\<rparr>) (ptxd d), ptxs := map (\<lambda>_. 0xFFFFFFFF) (ptxs d), lasttxidx := 0\<rparr>"

text \<open>The sums are of \<open>int\<close>s and cut to a byte at the end.\<close>

definition lpc_tx_ready :: "enet \<Rightarrow> u8" where
  "lpc_tx_ready d =
     (let cidx = ucast (TxConsumeIndex d) :: u8; pidx = ucast (TxProduceIndex d) :: u8; n = int EMAC_NUM_TX_FRAG in
      if pidx = cidx then of_int n
      else if cidx > pidx then of_int ((n - 1) - ((uint pidx + n) - uint cidx))
      else of_int ((n - 1) - (uint cidx - uint pidx)))"

definition lpc_packet_addr_notsafe :: "u32 \<Rightarrow> u8" where
  "lpc_packet_addr_notsafe addr =
     (if (addr \<ge> 0x10000000 \<and> addr < 0x10008000) \<or> (addr \<ge> 0x1FFF0000 \<and> addr < 0x1FFF2000) \<or> (addr \<ge> 0x2007C000 \<and> addr < 0x20084000)
      then 0 else 1)"

partial_function (option) count_notsafe :: "u32 \<Rightarrow> u32 \<Rightarrow> lwip \<Rightarrow> u32 option" where
  "count_notsafe q n s =
     (if q = 0 then Some n
      else do { b \<leftarrow> pbufs s q; count_notsafe (p_next b) (n + ucast (lpc_packet_addr_notsafe (payload b))) s })"

text \<open>The copy of a chain to the address \<open>dst\<close>.\<close>

partial_function (option) bounce_copy :: "u32 \<Rightarrow> u32 \<Rightarrow> lwip \<Rightarrow> lwip option" where
  "bounce_copy q dst s =
     (if q = 0 then Some s
      else do {
        b \<leftarrow> pbufs s q;
        bounce_copy (p_next b) (dst + ucast (p_len b)) (put_bytes (memcpy dst (payload b) (ucast (p_len b))) s)
      })"

text \<open>
  While there are not enough descriptors the task waits for a signal: \<open>env k\<close> is what the clean-up
  task and the controller do until the \<open>k\<close>th wait returns.
\<close>

partial_function (option) tx_wait :: "(nat \<Rightarrow> enet \<Rightarrow> enet) \<Rightarrow> nat \<Rightarrow> u8 \<Rightarrow> enet \<Rightarrow> enet option" where
  "tx_wait env k dn d = (if dn > lpc_tx_ready d then tx_wait env (k + 1) dn (env k d) else Some d)"

partial_function (option) tx_fill :: "u32 \<Rightarrow> u32 \<Rightarrow> u8 \<Rightarrow> u8 \<Rightarrow> enet \<Rightarrow> enet option" where
  "tx_fill p q idx dn d =
     (if dn > 0 then
        do {
          let dn = dn - 1;
          b \<leftarrow> deref q (net d);
          _ \<leftarrow> at (ptxd d) (unat idx);
          let size = (ucast (p_len b) - 1) AND EMAC_TCTRL_SIZE;
          let ctrl = (if dn = 0 then size OR EMAC_TCTRL_INT OR EMAC_TCTRL_LAST else size OR EMAC_TCTRL_INT);
          let d = d\<lparr>ptxd := (ptxd d)[unat idx := \<lparr>Packet = payload b, Ctrl = ctrl\<rparr>],
            txb := (txb d)[unat idx := (if dn = 0 then p else 0)]\<rparr>;
          let idx = idx + 1;
          let idx = (if ucast idx > TxDescriptorNumber d then 0 else idx);
          tx_fill p (p_next b) idx dn (d\<lparr>TxProduceIndex := ucast idx\<rparr>)
        }
      else Some d)"

definition lpc_low_level_output :: "libc_malloc \<Rightarrow> (nat \<Rightarrow> enet \<Rightarrow> enet) \<Rightarrow> u32 \<Rightarrow> enet \<Rightarrow> (err_t \<times> enet) option" where
  "lpc_low_level_output malloc env p d =
     do {
       n \<leftarrow> pbuf_clen p (net d);
       notdmasafe \<leftarrow> count_notsafe p 0 (net d);
       if notdmasafe \<noteq> 0
       then do {
         b \<leftarrow> deref p (net d);
         (np, s) \<leftarrow> pbuf_alloc malloc PBUF_RAW (tot_len b) PBUF_RAM (net d);
         if np = 0 then Some (ERR_MEM, d\<lparr>net := s\<rparr>)
         else do {
           nb \<leftarrow> deref np s;
           s \<leftarrow> bounce_copy p (payload nb) s;
           let s = upd_pb np (p_len_update (\<lambda>_. tot_len b)) s;
           d \<leftarrow> tx_wait env 0 1 (d\<lparr>net := s\<rparr>);
           d \<leftarrow> tx_fill np np (ucast (TxProduceIndex d)) 1 d;
           Some (ERR_OK, d)
         }
       }
       else do {
         d \<leftarrow> tx_wait env 0 (ucast n) d;
         s \<leftarrow> pbuf_ref p (net d);
         d \<leftarrow> tx_fill p p (ucast (TxProduceIndex d)) (ucast n) (d\<lparr>net := s\<rparr>);
         Some (ERR_OK, d)
       }
     }"

partial_function (option) lpc_tx_reclaim :: "enet \<Rightarrow> enet option" where
  "lpc_tx_reclaim d =
     (if TxConsumeIndex d \<noteq> ucast (lasttxidx d) then
        do {
          t \<leftarrow> at (txb d) (unat (lasttxidx d));
          d \<leftarrow> (if t \<noteq> 0 then do { f \<leftarrow> pbuf_free t (net d); Some (d\<lparr>net := snd f, txb := (txb d)[unat (lasttxidx d) := 0]\<rparr>) } else Some d);
          let i = lasttxidx d + 1;
          let i = (if ucast i > TxDescriptorNumber d then 0 else i);
          lpc_tx_reclaim (d\<lparr>tx_signals := tx_signals d + 1, lasttxidx := i\<rparr>)
        }
      else Some d)"

text \<open>One round of the clean-up task.\<close>

fun free_tx_buffers :: "nat list \<Rightarrow> enet \<Rightarrow> enet option" where
  "free_tx_buffers [] d = Some d"
| "free_tx_buffers (idx # is) d =
     do {
       p \<leftarrow> at (txb d) idx;
       d \<leftarrow> (if p \<noteq> 0 then do { f \<leftarrow> pbuf_free p (net d); Some (d\<lparr>net := snd f, txb := (txb d)[idx := 0]\<rparr>) } else Some d);
       free_tx_buffers is d
     }"

definition vTransmitCleanup_round :: "enet \<Rightarrow> enet option" where
  "vTransmitCleanup_round d =
     (if IntStatus d AND (EMAC_INT_TX_UNDERRUN OR EMAC_INT_TX_ERR) \<noteq> 0
      then do {
        d \<leftarrow> free_tx_buffers [0..<EMAC_NUM_TX_FRAG] (d\<lparr>MAC1 := MAC1 d OR EMAC_MAC1_RES_TX\<rparr>);
        Some (lpc_tx_setup d)
      }
      else lpc_tx_reclaim d)"

section \<open>Interrupts and link settings\<close>

text \<open>Which of the two tasks the handler wakes: the receive task and the clean-up task.\<close>

definition ENET_IRQHandler :: "enet \<Rightarrow> bool \<times> bool \<times> enet" where
  "ENET_IRQHandler d =
     (let ints = IntStatus d AND 0x30FF in
      (ints AND (EMAC_INT_RX_OVERRUN OR EMAC_INT_RX_ERR OR EMAC_INT_RX_DONE) \<noteq> 0,
       ints AND (EMAC_INT_TX_UNDERRUN OR EMAC_INT_TX_ERR OR EMAC_INT_TX_DONE) \<noteq> 0,
       write_IntClear ints d))"

definition lpc_emac_set_duplex :: "bool \<Rightarrow> enet \<Rightarrow> enet" where
  "lpc_emac_set_duplex full_duplex d =
     (if full_duplex then d\<lparr>IPGT := EMAC_IPGT_FULL_DUP, MAC2 := MAC2 d OR EMAC_MAC2_FULL_DUP, Command := Command d OR EMAC_CR_FULL_DUP\<rparr>
      else d\<lparr>IPGT := EMAC_IPGT_HALF_DUP, MAC2 := MAC2 d AND NOT EMAC_MAC2_FULL_DUP, Command := Command d AND NOT EMAC_CR_FULL_DUP\<rparr>)"

definition lpc_emac_set_speed :: "bool \<Rightarrow> enet \<Rightarrow> enet" where
  "lpc_emac_set_speed mbs_100 d = d\<lparr>SUPP := (if mbs_100 then EMAC_SUPP_SPEED else 0)\<rparr>"

end
