(* ===== verification/Emac_Receive.thy ===== *)
theory Emac_Receive
  imports Pbuf_Copy Pbuf_Chain Emac
begin

unbundle bit_operations_syntax

text \<open>
  Reception: the invariant of the ring of receive buffers, which \<open>lpc_rx_setup\<close> establishes and
  \<open>lpc_low_level_input\<close> keeps, and what the driver does with good frames and with frames with errors.
\<close>

section \<open>The allocator and the ring\<close>

text \<open>What the driver relies on of \<open>malloc\<close>: aligned blocks below the end of the address space, apart from the live ones.\<close>

definition c_malloc :: "libc_malloc \<Rightarrow> bool" where
  "c_malloc malloc \<longleftrightarrow> (\<forall>x n lv. malloc x n lv \<noteq> 0 \<longrightarrow> unat (malloc x n lv) mod 4 = 0
     \<and> unat (malloc x n lv) + unat n < 2 ^ 32 \<and> (\<forall>b\<in>set lv. apart (malloc x n lv) n (fst b) (snd b)))"

text \<open>A pbuf in the ring: only the driver refers to it, its descriptor points to its payload, with room for the longest frame in its block.\<close>

definition rx_buffer :: "lwip \<Rightarrow> u32 \<Rightarrow> dma_desc \<Rightarrow> bool" where
  "rx_buffer s r x \<longleftrightarrow> r \<noteq> 0 \<and> (\<exists>b n. pbufs s r = Some b \<and> p_next b = 0 \<and> payload b = Packet x \<and> p_ref b = 1
     \<and> pbuf_get_allocsrc b = 0 \<and> (r, n) \<in> set (live s)
     \<and> unat r + 16 \<le> unat (Packet x) \<and> unat (Packet x) + 1536 \<le> unat r + unat n \<and> unat r + unat n \<le> 2 ^ 32)"

definition ring_shape :: "enet \<Rightarrow> bool" where
  "ring_shape d \<longleftrightarrow> length (prxd d) = 4 \<and> length (prxs d) = 4 \<and> length (rxb d) = 4"

definition rx_ring :: "enet \<Rightarrow> bool" where
  "rx_ring d \<longleftrightarrow> ring_shape d \<and> RxDescriptorNumber d = 3 \<and> RxConsumeIndex d < 4 \<and> rxdescnextindex d = ucast (RxConsumeIndex d)
     \<and> rxdescfree d = 0 \<and> distinct (rxb d) \<and> (\<forall>i<4. rx_buffer (net d) (rxb d ! i) (prxd d ! i))"

section \<open>Allocation of a frame\<close>

lemma alloc_frame:
  assumes "c_malloc malloc"
  obtains (none) k where "pbuf_alloc malloc PBUF_RAW l PBUF_RAM s = Some (0, s\<lparr>mallocs := k\<rparr>)"
  | (some) p b n where "p \<noteq> 0"
      "pbuf_alloc malloc PBUF_RAW l PBUF_RAM s
        = Some (p, pbuf_init_alloced_pbuf p b l l PBUF_RAM 0 (s\<lparr>mallocs := mallocs s + 1, live := (p, n) # live s\<rparr>))"
      "unat p + 16 \<le> unat b" "unat b + unat l \<le> unat p + unat n" "unat p + unat n < 2 ^ 32"
      "\<forall>q\<in>set (live s). apart p n (fst q) (snd q)" "p = malloc (mallocs s) n (live s)"
proof -
  have ok: "unat (malloc x n lv) mod 4 = 0 \<and> unat (malloc x n lv) + unat n < 2 ^ 32" if "malloc x n lv \<noteq> 0" for x n lv
    using assms that by (simp add: c_malloc_def)
  obtain p s' where r: "pbuf_alloc malloc PBUF_RAW l PBUF_RAM s = Some (p, s')" "p = 0 \<and> (\<exists>k. s' = s\<lparr>mallocs := k\<rparr>)
    \<or> (\<exists>b n. p \<noteq> 0 \<and> p = malloc (mallocs s) n (live s)
         \<and> s' = pbuf_init_alloced_pbuf p b l l PBUF_RAM 0 (s\<lparr>mallocs := mallocs s + 1, live := (p, n) # live s\<rparr>)
         \<and> unat p + 16 + unat (layer_offset PBUF_RAW) \<le> unat b \<and> unat b + unat l \<le> unat p + unat n)"
    using alloc_ram_exact [where malloc = malloc and layer = PBUF_RAW and l = l and s = s, OF ok] by blast
  from r(2) show thesis
  proof (elim disjE exE conjE)
    fix k assume "p = 0" "s' = s\<lparr>mallocs := k\<rparr>"
    then show thesis using r(1) none by blast
  next
    fix b n assume "p \<noteq> 0" and p: "p = malloc (mallocs s) n (live s)"
      "s' = pbuf_init_alloced_pbuf p b l l PBUF_RAM 0 (s\<lparr>mallocs := mallocs s + 1, live := (p, n) # live s\<rparr>)"
      "unat p + 16 + unat (layer_offset PBUF_RAW) \<le> unat b" "unat b + unat l \<le> unat p + unat n"
    moreover from \<open>p \<noteq> 0\<close> p(1) have "unat p + unat n < 2 ^ 32 \<and> (\<forall>q\<in>set (live s). apart p n (fst q) (snd q))"
      using assms by (simp add: c_malloc_def)
    ultimately show thesis using r(1) by (intro some [of p b n]) simp_all
  qed
qed

text \<open>A new block lies apart from the buffers of the ring.\<close>

lemma rx_buffer_apart:
  assumes "rx_buffer s r x" and "\<forall>q\<in>set (live s). apart p n (fst q) (snd q)" and "16 \<le> unat n"
  shows "r \<noteq> p" and "unat (Packet x) + 1536 \<le> unat p \<or> unat p + unat n \<le> unat (Packet x)" and "unat (Packet x) + 1536 \<le> 2 ^ 32"
proof -
  obtain m where m: "(r, m) \<in> set (live s)" "unat r + 16 \<le> unat (Packet x)" "unat (Packet x) + 1536 \<le> unat r + unat m"
    "unat r + unat m \<le> 2 ^ 32"
    using assms(1) by (auto simp: rx_buffer_def)
  have a: "apart p n r m" using assms(2) m(1) by fastforce
  show "r \<noteq> p" using a m(2,3) assms(3) by (auto simp: apart_def)
  show "unat (Packet x) + 1536 \<le> unat p \<or> unat p + unat n \<le> unat (Packet x)" using a m(2,3) by (auto simp: apart_def)
  show "unat (Packet x) + 1536 \<le> 2 ^ 32" using m(3,4) by simp
qed

text \<open>The ring only depends on the headers and blocks of its pbufs, and not on their lengths.\<close>

lemma rx_buffer_kept:
  assumes "rx_buffer s r x" and "map_option (\<lambda>b. (p_next b, payload b, p_ref b, type_internal b)) (pbufs s' r)
      = map_option (\<lambda>b. (p_next b, payload b, p_ref b, type_internal b)) (pbufs s r)"
    and "set (live s) \<subseteq> set (live s')"
  shows "rx_buffer s' r x"
  using assms unfolding rx_buffer_def pbuf_get_allocsrc_def by (cases "pbufs s' r") auto

section \<open>Setting up the ring\<close>

lemma below_four: "w < 4 \<Longrightarrow> w = 0 \<or> w = 1 \<or> w = 2 \<or> w = (3 :: u8)"
proof -
  assume "w < 4"
  then have "unat w = 0 \<or> unat w = 1 \<or> unat w = 2 \<or> unat w = 3" by (simp add: word_less_nat_alt) linarith
  then show ?thesis by (auto simp: word_unat_eq_iff)
qed

lemma rxqueue_effect:
  assumes "rxdescnextindex d < 4" and "RxDescriptorNumber d = 3" and "pbufs (net d) p = Some b" and "p \<noteq> 0"
  shows "lpc_rxqueue_pbuf p d = Some (d\<lparr>rxb := (rxb d)[unat (rxdescnextindex d) := p],
    prxd := (prxd d)[unat (rxdescnextindex d) := \<lparr>Packet = payload b, Ctrl = EMAC_RCTRL_INT OR EMAC_RCTRL_SIZE (ucast (p_len b) - 1)\<rparr>],
    prxs := (prxs d)[unat (rxdescnextindex d) := \<lparr>Info = 0xFFFFFFFF, HashCRC = 0xFFFFFFFF\<rparr>],
    rxdescfree := rxdescfree d - 1, rxdescnextindex := (if rxdescnextindex d = 3 then 0 else rxdescnextindex d + 1),
    RxConsumeIndex := (if rxdescnextindex d = 3 then 0 else ucast (rxdescnextindex d) + 1)\<rparr>)"
proof -
  from below_four [of "rxdescnextindex d"] assms(1) show ?thesis using assms(2-) by (auto simp: lpc_rxqueue_pbuf_def EMAC_NUM_RX_FRAG_def deref_def Let_def)
qed

text \<open>The ring while it is filled: the first \<open>j\<close> descriptors have a buffer of the full size.\<close>

definition filled :: "nat \<Rightarrow> enet \<Rightarrow> bool" where
  "filled j d \<longleftrightarrow> ring_shape d \<and> RxDescriptorNumber d = 3 \<and> j \<le> 4 \<and> rxdescfree d = of_nat (4 - j)
     \<and> rxdescnextindex d = (if j = 4 then 0 else of_nat j) \<and> (0 < j \<longrightarrow> RxConsumeIndex d = ucast (rxdescnextindex d))
     \<and> distinct (take j (rxb d)) \<and> (\<forall>i<j. rx_buffer (net d) (rxb d ! i) (prxd d ! i) \<and> Ctrl (prxd d ! i) = 0x800005FF)"

lemma filled_ring: "filled 4 d \<Longrightarrow> rx_ring d"
  using take_all [of "rxb d" 4] by (auto simp: filled_def rx_ring_def ring_shape_def)

lemma ram_source: "type_internal b = ucast (type_code PBUF_RAM) \<Longrightarrow> pbuf_get_allocsrc b = 0"
  by (simp add: pbuf_get_allocsrc_def PBUF_TYPE_ALLOC_SRC_MASK_def PBUF_ALLOC_FLAG_DATA_CONTIGUOUS_def PBUF_TYPE_FLAG_STRUCT_DATA_CONTIGUOUS_def)

lemma fresh_buffer:
  assumes "p \<noteq> 0" and "unat p + 16 \<le> unat b" and "unat b + 1536 \<le> unat p + unat n" and "unat p + unat n < 2 ^ 32"
    and "pbufs s p = Some q" and "p_next q = 0" and "payload q = b" and "p_ref q = 1" and "pbuf_get_allocsrc q = 0" and "(p, n) \<in> set (live s)"
  shows "rx_buffer s p \<lparr>Packet = b, Ctrl = c\<rparr>"
  using assms by (auto simp: rx_buffer_def intro!: exI [of _ q] exI [of _ n])

text \<open>What filling leaves alone: the descriptors from \<open>n\<close> on, the transmit ring and the control registers.\<close>

definition queued_to :: "nat \<Rightarrow> enet \<Rightarrow> enet \<Rightarrow> bool" where
  "queued_to n d d' \<longleftrightarrow> IntStatus d' = IntStatus d \<and> MAC1 d' = MAC1 d \<and> Command d' = Command d
     \<and> ptxd d' = ptxd d \<and> txb d' = txb d \<and> lasttxidx d' = lasttxidx d \<and> TxDescriptorNumber d' = TxDescriptorNumber d
     \<and> TxProduceIndex d' = TxProduceIndex d \<and> TxConsumeIndex d' = TxConsumeIndex d
     \<and> TxDescriptor d' = TxDescriptor d \<and> TxStatus d' = TxStatus d \<and> RxProduceIndex d' = RxProduceIndex d
     \<and> (\<forall>i. n \<le> i \<longrightarrow> prxd d' ! i = prxd d ! i \<and> rxb d' ! i = rxb d ! i)"

lemma queued_to_trans: "queued_to j d d' \<Longrightarrow> queued_to n d' d'' \<Longrightarrow> j \<le> n \<Longrightarrow> queued_to n d d''"
  by (simp add: queued_to_def)

text \<open>The heap blocks of the buffers \<open>j\<close> to \<open>n\<close> are new, in the order of their allocation; the buffers before them stay.\<close>

definition taken :: "nat \<Rightarrow> nat \<Rightarrow> enet \<Rightarrow> enet \<Rightarrow> bool" where
  "taken j n d d' \<longleftrightarrow> RxDescriptor d' = RxDescriptor d \<and> RxStatus d' = RxStatus d \<and> take j (rxb d') = take j (rxb d)
     \<and> (\<exists>new. live (net d') = new @ live (net d) \<and> map fst new = rev (drop j (take n (rxb d'))))"

lemma taken_trans:
  assumes "taken j (Suc j) d d'" and "taken (Suc j) n d' d''" and "Suc j \<le> n" and "n \<le> length (rxb d'')"
  shows "taken j n d d''"
proof -
  obtain a b where a: "live (net d') = a @ live (net d)" "map fst a = rev (drop j (take (Suc j) (rxb d')))"
    and b: "live (net d'') = b @ live (net d')" "map fst b = rev (drop (Suc j) (take n (rxb d'')))"
    using assms(1,2) by (auto simp: taken_def)
  have t: "take (Suc j) (rxb d'') = take (Suc j) (rxb d')" using assms(2) by (simp add: taken_def)
  then have "take j (rxb d'') = take j (rxb d')" by (metis le_add2 plus_1_eq_Suc take_all_iff take_take min.absorb1 nat_le_linear)
  moreover have "drop j (take n (rxb d'')) = drop j (take (Suc j) (rxb d'')) @ drop (Suc j) (take n (rxb d''))"
  proof -
    have "n - j = Suc (n - Suc j)" "drop j (rxb d'') = rxb d'' ! j # drop (Suc j) (rxb d'')"
      using assms(3,4) by (simp_all add: Cons_nth_drop_Suc)
    then show ?thesis using assms(3,4) by (simp add: drop_take take_Suc_conv_app_nth)
  qed
  then have "map fst (b @ a) = rev (drop j (take n (rxb d'')))" using a(2) b(2) t by simp
  ultimately show ?thesis using assms(1,2) a(1) b(1) by (auto simp: taken_def intro!: exI [of _ "b @ a"])
qed

lemma queue_one:
  assumes f: "filled j d" "j < 4" and p: "p \<noteq> 0" "unat p + 16 \<le> unat b" "unat b + 1536 \<le> unat p + unat n" "unat p + unat n < 2 ^ 32"
    and live: "\<forall>q\<in>set (live (net d)). apart p n (fst q) (snd q)"
    and s: "s = pbuf_init_alloced_pbuf p b 1536 1536 PBUF_RAM 0 ((net d)\<lparr>mallocs := k, live := (p, n) # live (net d)\<rparr>)"
  shows "\<exists>d'. lpc_rxqueue_pbuf p (d\<lparr>net := s\<rparr>) = Some d' \<and> filled (Suc j) d' \<and> queued_to (Suc j) d d' \<and> taken j (Suc j) d d'"
proof -
  let ?q = "\<lparr>p_next = 0, payload = b, tot_len = 1536, p_len = 1536, type_internal = ucast (type_code PBUF_RAM), p_flags = 0, p_ref = 1, if_idx = 0\<rparr> :: pbuf"
  have q: "pbufs s p = Some ?q" "live s = (p, n) # live (net d)" using s by (simp_all add: pbuf_init_alloced_pbuf_def)
  have n16: "16 \<le> unat n" using p by simp
  have keep: "rx_buffer s (rxb d ! i) (prxd d ! i)" and ne: "rxb d ! i \<noteq> p" if "i < j" for i
  proof -
    have r: "rx_buffer (net d) (rxb d ! i) (prxd d ! i)" using f that by (simp add: filled_def)
    show "rxb d ! i \<noteq> p" by (rule rx_buffer_apart(1) [OF r live n16])
    then show "rx_buffer s (rxb d ! i) (prxd d ! i)" using s by (intro rx_buffer_kept [OF r]) (auto simp: pbuf_init_alloced_pbuf_def)
  qed
  have idx: "unat (rxdescnextindex d) = j" "rxdescnextindex d = of_nat j" using f by (simp_all add: filled_def unat_of_nat)
  have lt: "rxdescnextindex d < 4" using idx f(2) by (simp add: word_less_nat_alt)
  have three: "(rxdescnextindex d = 3) = (j = 3)" using idx by (simp add: word_unat_eq_iff)
  let ?x = "\<lparr>Packet = b, Ctrl = EMAC_RCTRL_INT OR EMAC_RCTRL_SIZE (ucast (1536 :: u16) - 1)\<rparr>"
  let ?d = "d\<lparr>net := s, rxb := (rxb d)[j := p], prxd := (prxd d)[j := ?x], prxs := (prxs d)[j := \<lparr>Info = 0xFFFFFFFF, HashCRC = 0xFFFFFFFF\<rparr>],
    rxdescfree := rxdescfree d - 1, rxdescnextindex := (if j = 3 then 0 else of_nat j + 1),
    RxConsumeIndex := (if j = 3 then 0 else ucast (of_nat j :: u8) + 1)\<rparr>"
  have "lpc_rxqueue_pbuf p (d\<lparr>net := s\<rparr>) = Some ?d"
    using rxqueue_effect [of "d\<lparr>net := s\<rparr>" p ?q] lt f q p(1) idx three by (simp add: filled_def)
  moreover have "filled (Suc j) ?d"
  proof -
    have shape: "ring_shape ?d" using f by (simp add: filled_def ring_shape_def)
    have len: "length (rxb d) = 4" "length (prxd d) = 4" using f by (simp_all add: filled_def ring_shape_def)
    have free: "rxdescfree d - 1 = of_nat (4 - Suc j)" using f by (simp add: filled_def of_nat_diff)
    have "take (Suc j) ((rxb d)[j := p]) = take j (rxb d) @ [p]" using len f(2) by (simp add: take_Suc_conv_app_nth)
    moreover have "p \<notin> set (take j (rxb d))" using ne len f(2) by (auto simp: in_set_conv_nth)
    ultimately have dist: "distinct (take (Suc j) ((rxb d)[j := p]))" using f by (simp add: filled_def)
    have new: "rx_buffer s p ?x" by (rule fresh_buffer [OF p q(1)]) (simp_all add: q(2) ram_source)
    have ctrl: "Ctrl ?x = 0x800005FF" by (simp add: EMAC_RCTRL_INT_def EMAC_RCTRL_SIZE_def)
    have "rx_buffer s ((rxb d)[j := p] ! i) ((prxd d)[j := ?x] ! i) \<and> Ctrl ((prxd d)[j := ?x] ! i) = 0x800005FF" if "i < Suc j" for i
      using that new ctrl keep [of i] f len by (cases "i = j") (auto simp: filled_def)
    moreover have "j = 0 \<or> j = 1 \<or> j = 2 \<or> j = 3" using f(2) by linarith
    ultimately show ?thesis using shape free dist f unfolding filled_def by auto
  qed
  moreover have "queued_to (Suc j) d ?d" by (simp add: queued_to_def)
  moreover have "taken j (Suc j) d ?d"
  proof -
    have "length (rxb d) = 4" using f by (simp add: filled_def ring_shape_def)
    then have "drop j (take (Suc j) ((rxb d)[j := p])) = [p]" using f(2) by (simp add: take_Suc_conv_app_nth)
    then show ?thesis using q(2) by (simp add: taken_def)
  qed
  ultimately show ?thesis by blast
qed

lemma rx_queue_loop_effect:
  assumes "c_malloc malloc" and "filled j d"
  shows "\<exists>n d'. rx_queue_loop malloc (of_nat j) d = Some (of_nat n, d') \<and> filled n d' \<and> j \<le> n \<and> queued_to n d d' \<and> taken j n d d'"
  using assms(2)
proof (induction "4 - j" arbitrary: j d)
  case 0
  then have "j = 4" "rxdescfree d = 0" by (simp_all add: filled_def)
  then show ?case using 0 by (intro exI [of _ 4] exI [of _ d]) (subst rx_queue_loop.simps, simp add: queued_to_def taken_def)
next
  case (Suc m)
  then have j: "j < 4" by simp
  have "unat (of_nat (4 - j) :: u8) = 4 - j" by (simp add: unat_of_nat del: of_nat_diff)
  then have "unat (rxdescfree d) = 4 - j" using Suc.prems by (simp add: filled_def del: of_nat_diff)
  then have pos: "rxdescfree d > 0" using j by (simp add: word_less_nat_alt)
  from assms(1) show ?case
  proof (cases rule: alloc_frame [where l = EMAC_ETH_MAX_FLEN and s = "net d"])
    case (none k)
    have "filled j (d\<lparr>net := (net d)\<lparr>mallocs := k\<rparr>\<rparr>)" using Suc.prems by (simp add: filled_def ring_shape_def rx_buffer_def)
    then show ?thesis using none pos by (intro exI [of _ j]) (subst rx_queue_loop.simps, simp add: queued_to_def taken_def)
  next
    case (some p b n)
    let ?s = "pbuf_init_alloced_pbuf p b 1536 1536 PBUF_RAM 0 ((net d)\<lparr>mallocs := mallocs (net d) + 1, live := (p, n) # live (net d)\<rparr>)"
    have "unat b + 1536 \<le> unat p + unat n" using some(4) by (simp add: EMAC_ETH_MAX_FLEN_def)
    from queue_one [OF Suc.prems j some(1,3) this some(5,6) refl, where k = "mallocs (net d) + 1"]
    obtain d' where d': "lpc_rxqueue_pbuf p (d\<lparr>net := ?s\<rparr>) = Some d'" "filled (Suc j) d'" "queued_to (Suc j) d d'"
      "taken j (Suc j) d d'" by blast
    obtain n' d'' where ih: "rx_queue_loop malloc (of_nat (Suc j)) d' = Some (of_nat n', d'')" "filled n' d''" "Suc j \<le> n'"
      "queued_to n' d' d''" "taken (Suc j) n' d' d''"
      using Suc.hyps(1) [OF _ d'(2)] Suc.hyps(2) by fastforce
    have "rx_queue_loop malloc (of_nat j) d = rx_queue_loop malloc (of_nat (Suc j)) d'"
      by (subst rx_queue_loop.simps) (use pos some(1,2) d'(1) in \<open>simp add: EMAC_ETH_MAX_FLEN_def add.commute\<close>)
    moreover have "taken j n' d d''" by (rule taken_trans [OF d'(4) ih(5,3)]) (use ih(2) in \<open>simp add: filled_def ring_shape_def\<close>)
    ultimately show ?thesis using ih queued_to_trans [OF d'(3) ih(4,3)] by (intro exI [of _ n'] exI [of _ d'']) simp
  qed
qed

lemma rx_setup_effect:
  assumes "c_malloc malloc" and "ring_shape d"
  shows "\<exists>n d' new. lpc_rx_setup malloc d = Some (if n = 4 then ERR_OK else ERR_BUF, d') \<and> filled n d' \<and> queued_to n d d'
    \<and> RxDescriptor d' = prxd_at d \<and> RxStatus d' = prxs_at d
    \<and> live (net d') = new @ live (net d) \<and> map fst new = rev (take n (rxb d'))"
proof -
  let ?d = "d\<lparr>RxDescriptor := prxd_at d, RxDescriptorNumber := of_nat (EMAC_NUM_RX_FRAG - 1),
         RxStatus := prxs_at d, rxdescfree := of_nat EMAC_NUM_RX_FRAG, rxdescnextindex := 0\<rparr>"
  have "filled 0 ?d" using assms(2) by (simp add: filled_def ring_shape_def EMAC_NUM_RX_FRAG_def)
  then obtain n d' where d': "rx_queue_loop malloc 0 ?d = Some (of_nat n, d')" "filled n d'" "queued_to n ?d d'" "taken 0 n ?d d'"
    using rx_queue_loop_effect [OF assms(1)] by fastforce
  have "n \<le> 4" using d'(2) by (simp add: filled_def)
  then have "unat (of_nat n :: u8) = n" by (simp add: unat_of_nat)
  moreover have "queued_to n d d'" "RxDescriptor d' = prxd_at d" "RxStatus d' = prxs_at d" using d'(3,4) by (simp_all add: queued_to_def taken_def)
  moreover obtain new where "live (net d') = new @ live (net d)" "map fst new = rev (take n (rxb d'))" using d'(4) by (auto simp: taken_def)
  ultimately show ?thesis using d'(1,2) by (intro exI [of _ n] exI [of _ d'] exI [of _ new]) (simp add: lpc_rx_setup_def lpc_rx_queue_def EMAC_NUM_RX_FRAG_def)
qed

lemma filled_sizes: "filled 4 d \<Longrightarrow> RxConsumeIndex d = 0 \<and> (\<forall>x\<in>set (prxd d). Ctrl x = 0x800005FF)"
  by (auto simp: filled_def ring_shape_def in_set_conv_nth)

section \<open>Good frames\<close>

definition frame_length :: "enet \<Rightarrow> nat" where
  "frame_length d = unat (Info (prxs d ! unat (RxConsumeIndex d)) AND EMAC_RINFO_SIZE) - 3"

text \<open>A frame of at least one byte behind its check sum waits, no longer than the buffers, without errors.\<close>

definition good_frame :: "enet \<Rightarrow> bool" where
  "good_frame d \<longleftrightarrow> IntStatus d AND (EMAC_INT_RX_OVERRUN OR EMAC_INT_RX_ERR) = 0 \<and> RxProduceIndex d \<noteq> RxConsumeIndex d
     \<and> Info (prxs d ! unat (RxConsumeIndex d)) AND rx_errors = 0
     \<and> 4 \<le> unat (Info (prxs d ! unat (RxConsumeIndex d)) AND EMAC_RINFO_SIZE)
     \<and> unat (Info (prxs d ! unat (RxConsumeIndex d)) AND EMAC_RINFO_SIZE) < 1536"

lemma frame_length_word:
  assumes "good_frame d"
  shows "ucast ((Info (prxs d ! unat (RxConsumeIndex d)) AND EMAC_RINFO_SIZE) + 1 - 4) = (of_nat (frame_length d) :: u16)"
    and "0 < frame_length d" and "frame_length d < 1536" and "unat (of_nat (frame_length d) :: u16) = frame_length d"
proof -
  let ?w = "Info (prxs d ! unat (RxConsumeIndex d)) AND EMAC_RINFO_SIZE"
  have w: "4 \<le> unat ?w" "unat ?w < 1536" using assms by (simp_all add: good_frame_def)
  show l: "0 < frame_length d" "frame_length d < 1536" using w by (simp_all add: frame_length_def)
  then show u: "unat (of_nat (frame_length d) :: u16) = frame_length d" by (simp add: unat_of_nat)
  have "?w + 1 - 4 = ?w - 3" by simp
  then have "unat (?w + 1 - 4) = frame_length d" using w unat_sub [of 3 ?w] by (simp add: frame_length_def word_le_nat_alt)
  then have "unat (ucast (?w + 1 - 4) :: u16) = frame_length d" using l by (simp add: unsigned_ucast_eq take_bit_eq_mod)
  then show "ucast (?w + 1 - 4) = (of_nat (frame_length d) :: u16)" using u by (simp add: word_unat_eq_iff)
qed

lemma ring_index:
  assumes "rx_ring d"
  shows "unat (ucast (RxConsumeIndex d) :: u8) = unat (RxConsumeIndex d)" and "unat (RxConsumeIndex d) < 4"
  using assms by (simp_all add: rx_ring_def word_less_nat_alt unsigned_ucast_eq take_bit_eq_mod)

text \<open>The copy of the frame out of the buffer of the ring into the new pbuf.\<close>

lemma copy_frame:
  assumes r: "rx_buffer s r x" and l: "0 < unat l" "unat l \<le> 1536" and p: "p \<noteq> 0" "unat p + 16 \<le> unat b" "unat b + unat l \<le> unat p + unat n"
    "unat p + unat n < 2 ^ 32" and live: "\<forall>q\<in>set (live s). apart p n (fst q) (snd q)"
    and s': "s' = upd_pb r (\<lambda>b. b\<lparr>p_len := l, tot_len := l\<rparr>) (pbuf_init_alloced_pbuf p b l l PBUF_RAM 0 (s\<lparr>mallocs := k, live := (p, n) # live s\<rparr>))"
  shows "\<exists>g. pbuf_copy p r s' = Some (ERR_OK, put_bytes g s') \<and> packet (put_bytes g s') p [p]
    \<and> content (put_bytes g s') [p] = bytes_at (bytes s) (Packet x) (ucast l)"
proof -
  obtain q where q: "pbufs s r = Some q" "p_next q = 0" "payload q = Packet x" "r \<noteq> 0" using r by (auto simp: rx_buffer_def)
  have n16: "16 \<le> unat n" using p by simp
  note ap = rx_buffer_apart [OF r live n16]
  let ?q = "\<lparr>p_next = 0, payload = b, tot_len = l, p_len = l, type_internal = ucast (type_code PBUF_RAM), p_flags = 0, p_ref = 1, if_idx = 0\<rparr> :: pbuf"
  have P: "pbufs s' p = Some ?q" "pbufs s' r = Some (q\<lparr>p_len := l, tot_len := l\<rparr>)" "bytes s' = bytes s"
    using q(1) ap(1) s' by (simp_all add: upd_pb_def pbuf_init_alloced_pbuf_def)
  have pk: "packet s' p [p]" "packet s' r [r]" using P q p(1) by (simp_all add: packet_def pbuf_data_Some)
  then have ch: "pchain s' p [p]" "pchain s' r [r]" "totals s' [p]" "totals s' [r]" by (simp_all add: packet_def)
  have len: "area_len s' p = unat l" "area_len s' r = unat l" using P by (simp_all add: area_len_def)
  have "clear_of s' [p] (Packet x) (unat l)" using P(1) ap(2,3) l p by (auto simp: clear_of_def)
  then have clear: "areas_apart s' [p]" "sources_clear s' [p] [r]"
    using P q p by (auto simp: sources_clear_def clear_of_def)
  have "positive s' [p]" "positive s' [r]" using len l by (simp_all add: positive_def)
  then obtain g where g: "pbuf_copy_loop p 0 r 0 s' = Some (ERR_OK, put_bytes g s')" "copied s' [p] 0 (content s' [r]) g"
    using pbuf_copy_loop_effect [OF ch _ _ clear, of 0 0] len l by auto
  have "content s' [r] = bytes_at (bytes s) (Packet x) (ucast l)" using P q(3) by (simp add: pbuf_data_Some)
  then have "content (put_bytes g s') [p] = bytes_at (bytes s) (Packet x) (ucast l)" using g(2) len by (simp add: copied_def)
  moreover have "pbuf_copy p r s' = Some (ERR_OK, put_bytes g s')" using g(1) P p(1) q(4) by (simp add: pbuf_copy_def)
  moreover have "packet (put_bytes g s') p [p]" using pk(1) by (simp add: packet_def)
  ultimately show ?thesis by blast
qed

lemma next_index:
  assumes "c < (4 :: u32)"
  shows "3 < (ucast c + 1 :: u8) \<longleftrightarrow> c = 3" and "c \<noteq> 3 \<Longrightarrow> ucast (c + 1) = (ucast c + 1 :: u8)"
    and "c \<noteq> 3 \<Longrightarrow> ucast (ucast c + 1 :: u8) = c + 1" and "(if c = 3 then 0 else c + 1) < 4"
proof -
  have "unat c = 0 \<or> unat c = 1 \<or> unat c = 2 \<or> unat c = 3" using assms by (simp add: word_less_nat_alt) linarith
  then have "c = 0 \<or> c = 1 \<or> c = 2 \<or> c = 3" by (auto simp: word_unat_eq_iff)
  then show "3 < (ucast c + 1 :: u8) \<longleftrightarrow> c = 3" "c \<noteq> 3 \<Longrightarrow> ucast (c + 1) = (ucast c + 1 :: u8)"
    "c \<noteq> 3 \<Longrightarrow> ucast (ucast c + 1 :: u8) = c + 1" "(if c = 3 then 0 else c + 1) < 4"
    by auto
qed

lemma rx_ring_kept:
  assumes "rx_ring d" and "c < 4" and "\<And>r x. r \<in> set (rxb d) \<Longrightarrow> rx_buffer (net d) r x \<Longrightarrow> rx_buffer s r x" and "length xs = 4"
  shows "rx_ring (d\<lparr>net := s, prxs := xs, rxdescnextindex := ucast c, RxConsumeIndex := c\<rparr>)"
  using assms by (auto simp: rx_ring_def ring_shape_def)

lemma receive_good:
  assumes m: "c_malloc malloc" and ring: "rx_ring d" and g: "good_frame d"
  shows "\<exists>p s. pbuf_alloc malloc PBUF_RAW (of_nat (frame_length d)) PBUF_RAM (net d) = Some (p, s)
    \<and> (if p = 0 then lpc_low_level_input malloc d = None
       else \<exists>d'. lpc_low_level_input malloc d = Some (p, d') \<and> packet (net d') p [p]
         \<and> content (net d') [p] = bytes_at (bytes (net d)) (Packet (prxd d ! unat (RxConsumeIndex d))) (of_nat (frame_length d))
         \<and> p \<notin> set (rxb d) \<and> rx_ring d' \<and> rxb d' = rxb d \<and> prxd d' = prxd d
         \<and> RxConsumeIndex d' = (if RxConsumeIndex d = 3 then 0 else RxConsumeIndex d + 1)
         \<and> map_option p_len (pbufs (net d') (rxb d ! unat (RxConsumeIndex d))) = Some (of_nat (frame_length d)))"
proof -
  let ?i = "unat (RxConsumeIndex d)" and ?l = "of_nat (frame_length d) :: u16"
  let ?r = "rxb d ! ?i"
  note idx = ring_index [OF ring]
  note l = frame_length_word [OF g]
  have shape: "length (prxs d) = 4" "length (rxb d) = 4" "RxDescriptorNumber d = 3" "RxConsumeIndex d < 4"
    "rxdescnextindex d = ucast (RxConsumeIndex d)" using ring by (simp_all add: rx_ring_def ring_shape_def)
  have r: "rx_buffer (net d) ?r (prxd d ! ?i)" using ring idx(2) by (simp add: rx_ring_def)
  then obtain q where q: "pbufs (net d) ?r = Some q" "?r \<noteq> 0" by (auto simp: rx_buffer_def)
  have at: "at (prxs d) ?i = Some (prxs d ! ?i)" "at (rxb d) ?i = Some ?r" using shape idx(2) by (simp_all add: at_def)
  have flags: "IntStatus d AND (EMAC_INT_RX_OVERRUN OR EMAC_INT_RX_ERR) = 0" "\<not> IsRxEmpty d" "Info (prxs d ! ?i) AND rx_errors = 0"
    using g by (simp_all add: good_frame_def IsRxEmpty_def)
  from m show ?thesis
  proof (cases rule: alloc_frame [where l = ?l and s = "net d"])
    case (none k)
    have "lpc_low_level_input malloc d = None"
      unfolding lpc_low_level_input_def using flags at idx none q l(1)
      by (simp add: Let_def deref_def pbuf_copy_def lpc_rxqueue_pbuf_def)
    then show ?thesis using none by simp
  next
    case (some p b n)
    let ?new = "pbuf_init_alloced_pbuf p b ?l ?l PBUF_RAM 0 ((net d)\<lparr>mallocs := mallocs (net d) + 1, live := (p, n) # live (net d)\<rparr>)"
    let ?s = "upd_pb ?r (\<lambda>b. b\<lparr>p_len := ?l, tot_len := ?l\<rparr>) ?new"
    have n16: "16 \<le> unat n" using some(3,4) by simp
    have ne: "p \<notin> set (rxb d)"
    proof
      assume "p \<in> set (rxb d)"
      then obtain j where "j < 4" "p = rxb d ! j" using shape(2) by (auto simp: in_set_conv_nth)
      then show False using rx_buffer_apart(1) [OF _ some(6) n16, of p "prxd d ! j"] ring by (auto simp: rx_ring_def)
    qed
    have "?r \<in> set (rxb d)" using idx(2) shape(2) by simp
    then have neq: "?r \<noteq> p" using ne by auto
    have len: "0 < unat ?l" "unat ?l \<le> 1536" using l by simp_all
    obtain c where c: "pbuf_copy p ?r ?s = Some (ERR_OK, put_bytes c ?s)" "packet (put_bytes c ?s) p [p]"
      "content (put_bytes c ?s) [p] = bytes_at (bytes (net d)) (Packet (prxd d ! ?i)) (ucast ?l)"
      using copy_frame [OF r len some(1,3,4,5,6) refl, where k = "mallocs (net d) + 1"] by blast
    let ?c = "if RxConsumeIndex d = 3 then 0 else RxConsumeIndex d + 1"
    let ?d = "d\<lparr>net := put_bytes c ?s, prxs := (prxs d)[?i := \<lparr>Info = 0xFFFFFFFF, HashCRC = 0xFFFFFFFF\<rparr>], rxdescnextindex := ucast ?c, RxConsumeIndex := ?c\<rparr>"
    have dr: "deref ?r ?new = Some q" using q neq by (simp add: deref_def pbuf_init_alloced_pbuf_def)
    have "lpc_low_level_input malloc d = Some (p, ?d)"
      unfolding lpc_low_level_input_def using flags at idx some(2) dr c(1) shape(3) l(1) next_index [OF shape(4)]
      by (simp add: Let_def)
    moreover have "rx_ring ?d"
    proof (rule rx_ring_kept [OF ring])
      show "?c < 4" by (rule next_index(4) [OF shape(4)])
      fix y x assume y: "y \<in> set (rxb d)" "rx_buffer (net d) y x"
      show "rx_buffer (put_bytes c ?s) y x"
        by (rule rx_buffer_kept [OF y(2)]) (use y ne in \<open>auto simp: upd_pb_def pbuf_init_alloced_pbuf_def map_option_case split: option.splits\<close>)
    qed (use shape in simp)
    moreover have "map_option p_len (pbufs (put_bytes c ?s) ?r) = Some ?l"
      using q neq by (simp add: upd_pb_def pbuf_init_alloced_pbuf_def)
    moreover have "ucast ?l = (of_nat (frame_length d) :: u32)" using l by (simp add: word_unat_eq_iff unat_of_nat)
    ultimately show ?thesis using c ne some(1,2) by simp
  qed
qed

section \<open>Frames with errors\<close>

lemma index_u8:
  assumes "rx_ring d"
  shows "rxdescnextindex d < 4" and "unat (rxdescnextindex d) = unat (RxConsumeIndex d)"
    and "rxdescnextindex d = 3 \<longleftrightarrow> RxConsumeIndex d = 3" and "ucast (rxdescnextindex d) = RxConsumeIndex d"
    and "RxConsumeIndex d \<noteq> 3 \<Longrightarrow> ucast (RxConsumeIndex d + 1) = rxdescnextindex d + 1"
proof -
  have c: "rxdescnextindex d = ucast (RxConsumeIndex d)" "RxConsumeIndex d < 4" using assms by (simp_all add: rx_ring_def)
  then have "unat (RxConsumeIndex d) = 0 \<or> unat (RxConsumeIndex d) = 1 \<or> unat (RxConsumeIndex d) = 2 \<or> unat (RxConsumeIndex d) = 3"
    by (simp add: word_less_nat_alt) linarith
  then have "RxConsumeIndex d = 0 \<or> RxConsumeIndex d = 1 \<or> RxConsumeIndex d = 2 \<or> RxConsumeIndex d = 3"
    by (auto simp: word_unat_eq_iff)
  then show "rxdescnextindex d < 4" "unat (rxdescnextindex d) = unat (RxConsumeIndex d)"
    "rxdescnextindex d = 3 \<longleftrightarrow> RxConsumeIndex d = 3" "ucast (rxdescnextindex d) = RxConsumeIndex d"
    "RxConsumeIndex d \<noteq> 3 \<Longrightarrow> ucast (RxConsumeIndex d + 1) = rxdescnextindex d + 1"
    using c(1) by auto
qed

definition bad_frame :: "enet \<Rightarrow> bool" where
  "bad_frame d \<longleftrightarrow> IntStatus d AND (EMAC_INT_RX_OVERRUN OR EMAC_INT_RX_ERR) = 0 \<and> RxProduceIndex d \<noteq> RxConsumeIndex d
     \<and> Info (prxs d ! unat (RxConsumeIndex d)) AND rx_errors \<noteq> 0"

lemma receive_bad:
  assumes ring: "rx_ring d" and bad: "bad_frame d" and b: "pbufs (net d) (rxb d ! unat (RxConsumeIndex d)) = Some b"
  shows "\<exists>d'. lpc_low_level_input malloc d = Some (0, d') \<and> net d' = net d \<and> rx_ring d' \<and> rxb d' = rxb d
    \<and> prxd d' = (prxd d)[unat (RxConsumeIndex d) := \<lparr>Packet = payload b, Ctrl = EMAC_RCTRL_INT OR EMAC_RCTRL_SIZE (ucast (p_len b) - 1)\<rparr>]
    \<and> RxConsumeIndex d' = (if RxConsumeIndex d = 3 then 0 else RxConsumeIndex d + 1)"
proof -
  let ?i = "unat (RxConsumeIndex d)" let ?r = "rxb d ! ?i"
  let ?x = "\<lparr>Packet = payload b, Ctrl = EMAC_RCTRL_INT OR EMAC_RCTRL_SIZE (ucast (p_len b) - 1)\<rparr>"
  let ?c = "if RxConsumeIndex d = 3 then 0 else RxConsumeIndex d + 1"
  note idx = ring_index [OF ring] and u8 = index_u8 [OF ring]
  have shape: "length (prxs d) = 4" "length (rxb d) = 4" "length (prxd d) = 4" "RxDescriptorNumber d = 3" "RxConsumeIndex d < 4"
    using ring by (simp_all add: rx_ring_def ring_shape_def)
  have r: "rx_buffer (net d) ?r (prxd d ! ?i)" using ring idx(2) by (simp add: rx_ring_def)
  then have p: "?r \<noteq> 0" "payload b = Packet (prxd d ! ?i)" using b by (auto simp: rx_buffer_def)
  let ?d1 = "d\<lparr>rxdescfree := rxdescfree d + 1, rxb := (rxb d)[?i := 0]\<rparr>"
  let ?d2 = "d\<lparr>prxd := (prxd d)[?i := ?x], prxs := (prxs d)[?i := \<lparr>Info = 0xFFFFFFFF, HashCRC = 0xFFFFFFFF\<rparr>],
    rxdescnextindex := ucast ?c, RxConsumeIndex := ?c\<rparr>"
  have "lpc_rxqueue_pbuf ?r ?d1 = Some ?d2"
    using rxqueue_effect [of ?d1 ?r b] u8 shape b p(1) idx(2) by simp
  moreover have at: "at (prxs d) ?i = Some (prxs d ! ?i)" "at (rxb d) ?i = Some ?r" using shape idx(2) by (simp_all add: at_def)
  ultimately have "lpc_low_level_input malloc d = Some (0, ?d2)"
    using bad idx(1) by (simp add: lpc_low_level_input_def bad_frame_def IsRxEmpty_def Let_def)
  moreover have "rx_ring ?d2"
  proof -
    have "rx_buffer (net d) (rxb d ! j) ((prxd d)[?i := ?x] ! j)" if "j < 4" for j
    proof (cases "j = ?i")
      case True
      then show ?thesis using r p(2) idx(2) shape(3) by (simp add: rx_buffer_def)
    next
      case False
      then show ?thesis using ring that by (simp add: rx_ring_def)
    qed
    then show ?thesis using ring next_index(4) [OF shape(5)] by (simp add: rx_ring_def ring_shape_def)
  qed
  ultimately show ?thesis by simp
qed

section \<open>Overruns\<close>

lemma free_one:
  assumes "rx_buffer s r x"
  obtains s' where "pbuf_free r s = Some (1, s')" "live s' = filter (\<lambda>b. fst b \<noteq> r) (live s)"
    "\<And>y. y \<noteq> r \<Longrightarrow> pbufs s' y = pbufs s y"
proof -
  obtain b n where b: "pbufs s r = Some b" "p_next b = 0" "p_ref b = 1" "pbuf_get_allocsrc b = 0" "r \<noteq> 0" "(r, n) \<in> set (live s)"
    using assms by (auto simp: rx_buffer_def)
  have "\<forall>q\<in>set [r]. freeable s q" using b by (force simp: freeable_def)
  moreover have "pchain s r [r]" using b by simp
  ultimately have "pbuf_free r s = Some (of_nat (length (freed s [r])), after_free [r] s)" using pbuf_free_effect by blast
  moreover have "freed s [r] = [r]" "kept s [r] = []" using b by (simp_all add: freed_simps last_ref_def)
  ultimately have "pbuf_free r s = Some (1, after_free [r] s)" "live (after_free [r] s) = filter (\<lambda>b. fst b \<noteq> r) (live s)"
    "\<And>y. y \<noteq> r \<Longrightarrow> pbufs (after_free [r] s) y = pbufs s y" by (simp_all add: after_free_def)
  then show thesis by (rule that)
qed

lemma free_buffers_effect:
  assumes "\<forall>i\<in>set is. i < length (rxb d) \<and> rx_buffer (net d) (rxb d ! i) (prxd d ! i)" and "distinct (map ((!) (rxb d)) is)"
  shows "\<exists>d'. free_buffers is d = Some d' \<and> d' = d\<lparr>net := net d', rxb := rxb d'\<rparr> \<and> length (rxb d') = length (rxb d)
    \<and> (\<forall>i<length (rxb d). rxb d' ! i = (if i \<in> set is then 0 else rxb d ! i))
    \<and> live (net d') = filter (\<lambda>b. fst b \<notin> (!) (rxb d) ` set is) (live (net d))"
  using assms
proof (induction "is" arbitrary: d)
  case (Cons i "is")
  let ?r = "rxb d ! i"
  have i: "i < length (rxb d)" "rx_buffer (net d) ?r (prxd d ! i)" "i \<notin> set is" "?r \<notin> (!) (rxb d) ` set is"
    using Cons.prems by auto
  from i(2) have r0: "?r \<noteq> 0" by (simp add: rx_buffer_def)
  obtain s' where s': "pbuf_free ?r (net d) = Some (1, s')" "live s' = filter (\<lambda>b. fst b \<noteq> ?r) (live (net d))"
    "\<And>y. y \<noteq> ?r \<Longrightarrow> pbufs s' y = pbufs (net d) y" using free_one [OF i(2)] by blast
  let ?d = "d\<lparr>net := s', rxb := (rxb d)[i := 0]\<rparr>"
  have same: "(rxb d)[i := 0] ! j = rxb d ! j" if "j \<in> set is" for j using that i(3) by (metis nth_list_update_neq)
  have "rx_buffer s' (rxb d ! j) (prxd d ! j)" if j: "j \<in> set is" for j
  proof -
    have "rx_buffer (net d) (rxb d ! j) (prxd d ! j)" "rxb d ! j \<noteq> ?r" using Cons.prems(1) i(4) j by (simp, metis image_eqI)
    then show ?thesis using s'(2,3) by (auto simp: rx_buffer_def)
  qed
  then have "\<forall>j\<in>set is. j < length (rxb ?d) \<and> rx_buffer (net ?d) (rxb ?d ! j) (prxd ?d ! j)" using Cons.prems(1) same by simp
  moreover
  have im: "map ((!) (rxb ?d)) is = map ((!) (rxb d)) is" using same by simp
  have "distinct (map ((!) (rxb ?d)) is)" unfolding im using Cons.prems(2) by simp
  ultimately obtain d' where d': "free_buffers is ?d = Some d'" "d' = ?d\<lparr>net := net d', rxb := rxb d'\<rparr>"
    "length (rxb d') = length (rxb d)" "live (net d') = filter (\<lambda>b. fst b \<notin> (!) (rxb ?d) ` set is) (live s')"
    "\<forall>k<length (rxb d). rxb d' ! k = (if k \<in> set is then 0 else rxb ?d ! k)"
    using Cons.IH [of ?d] by auto
  have "(!) (rxb ?d) ` set is = (!) (rxb d) ` set is" using same by simp
  then have "live (net d') = filter (\<lambda>b. fst b \<notin> (!) (rxb d) ` set (i # is)) (live (net d))"
    using d'(4) s'(2) by (simp add: conj_commute)
  moreover have "free_buffers (i # is) d = Some d'" using i(1) r0 s'(1) d'(1) by (simp add: at_def)
  moreover have "d' = d\<lparr>net := net d', rxb := rxb d'\<rparr>" by (subst d'(2)) simp
  moreover have "\<forall>k<length (rxb d). rxb d' ! k = (if k \<in> set (i # is) then 0 else rxb d ! k)"
    using d'(5) i(1) by (auto simp: nth_list_update)
  ultimately show ?case using d'(3) by blast
qed (auto intro: exI [of _ d])

lemma filled_registers: "filled n (d\<lparr>Command := c, MAC1 := m\<rparr>) = filled n d"
  by (simp add: filled_def ring_shape_def)

lemma receive_overrun:
  assumes m: "c_malloc malloc" and ring: "rx_ring d" and over: "IntStatus d AND (EMAC_INT_RX_OVERRUN OR EMAC_INT_RX_ERR) \<noteq> 0"
  shows "\<exists>n d' new. lpc_low_level_input malloc d = Some (0, d') \<and> filled n d' \<and> IntStatus d' = IntStatus d AND NOT 3
    \<and> MAC1 d' = MAC1 d OR 0x401 \<and> Command d' = Command d OR 1
    \<and> RxProduceIndex d' = RxProduceIndex d \<and> (\<forall>i. n \<le> i \<and> i < 4 \<longrightarrow> prxd d' ! i = prxd d ! i \<and> rxb d' ! i = 0)
    \<and> map fst new = rev (take n (rxb d')) \<and> live (net d') = new @ filter (\<lambda>b. fst b \<notin> set (rxb d)) (live (net d))"
proof -
  let ?d = "write_IntClear (EMAC_INT_RX_OVERRUN OR EMAC_INT_RX_ERR)
    (d\<lparr>Command := Command d AND NOT EMAC_CR_RX_EN, MAC1 := (MAC1 d AND NOT EMAC_MAC1_REC_EN) OR EMAC_MAC1_RES_RX\<rparr>)"
  have shape: "length (rxb d) = 4" "ring_shape d" using ring by (simp_all add: rx_ring_def ring_shape_def)
  then have "map ((!) (rxb d)) [0..<4] = rxb d" by (intro nth_equalityI) simp_all
  then have dist: "distinct (map ((!) (rxb d)) [0..<4])" using ring by (simp add: rx_ring_def)
  obtain d1 where d1: "free_buffers [0..<4] ?d = Some d1" "d1 = ?d\<lparr>net := net d1, rxb := rxb d1\<rparr>" "length (rxb d1) = 4"
    "live (net d1) = filter (\<lambda>b. fst b \<notin> (!) (rxb d) ` {0..<4}) (live (net d))" "\<forall>i<4. rxb d1 ! i = 0"
    using free_buffers_effect [of "[0..<4]" ?d] ring shape(1) dist by (auto simp: rx_ring_def write_IntClear_def)
  have same: "prxd d1 = prxd d" "IntStatus d1 = IntStatus ?d" "prxs d1 = prxs d" "RxProduceIndex d1 = RxProduceIndex d"
    by (subst d1(2), simp add: write_IntClear_def)+
  have regs: "MAC1 d1 = (MAC1 d AND NOT EMAC_MAC1_REC_EN) OR EMAC_MAC1_RES_RX" "Command d1 = Command d AND NOT EMAC_CR_RX_EN"
    by (subst d1(2), simp add: write_IntClear_def)+
  have "(!) (rxb d) ` {0..<4} = set (rxb d)" using shape(1) by (force simp: in_set_conv_nth image_iff)
  then have lv: "live (net d1) = filter (\<lambda>b. fst b \<notin> set (rxb d)) (live (net d))" using d1(4) by simp
  have "ring_shape d1" using shape d1(3) same by (simp add: ring_shape_def)
  from rx_setup_effect [OF m this] obtain n d2 new where
    d2: "lpc_rx_setup malloc d1 = Some (if n = 4 then ERR_OK else ERR_BUF, d2)" "filled n d2" "queued_to n d1 d2"
    "live (net d2) = new @ live (net d1)" "map fst new = rev (take n (rxb d2))" by blast
  let ?e = "d2\<lparr>Command := Command d2 OR EMAC_CR_RX_EN, MAC1 := MAC1 d2 OR EMAC_MAC1_REC_EN\<rparr>"
  have "lpc_low_level_input malloc d = Some (0, ?e)"
    using over d1(1) d2(1) by (simp add: lpc_low_level_input_def rx_reset_def Let_def EMAC_NUM_RX_FRAG_def)
  moreover have "IntStatus ?e = IntStatus d AND NOT 3" using d2(3) same(2)
    by (simp add: queued_to_def write_IntClear_def EMAC_INT_RX_OVERRUN_def EMAC_INT_RX_ERR_def)
  moreover have "(x AND NOT 1) OR 1 = x OR 1" "(x AND NOT 1) OR 0x400 OR 1 = x OR 0x401" for x :: u32
  proof -
    show *: "(x AND NOT 1) OR 1 = x OR 1" for x :: u32 by (rule bit_eqI) (auto simp: bit_simps)
    have "(x AND NOT 1) OR 0x400 OR 1 = ((x AND NOT 1) OR 1) OR 0x400" by (simp only: or.assoc or.commute [of 1])
    then show "(x AND NOT 1) OR 0x400 OR 1 = x OR 0x401" unfolding * by (simp add: or.assoc)
  qed
  then have "MAC1 ?e = MAC1 d OR 0x401" "Command ?e = Command d OR 1" using d2(3) regs
    by (simp_all add: queued_to_def or.assoc EMAC_MAC1_REC_EN_def EMAC_CR_RX_EN_def EMAC_MAC1_RES_RX_def)
  moreover have "filled n ?e" using d2(2) by (simp add: filled_registers)
  ultimately show ?thesis using d2(3-5) same(1,4) d1(5) lv by (intro exI [of _ n] exI [of _ ?e] exI [of _ new]) (simp add: queued_to_def)
qed

end
