(* ===== verification/Emac_Transmit.thy ===== *)
theory Emac_Transmit
  imports Emac_Receive
begin

unbundle bit_operations_syntax

text \<open>
  Transmission: what \<open>lpc_low_level_output\<close> writes into the ring of descriptors, the copy it makes of
  data that the controller cannot reach, and how \<open>lpc_tx_reclaim\<close> gives the frames back.
\<close>

section \<open>The ring\<close>

definition tx_ring :: "enet \<Rightarrow> bool" where
  "tx_ring d \<longleftrightarrow> length (ptxd d) = 3 \<and> length (txb d) = 3 \<and> TxDescriptorNumber d = 2 \<and> TxProduceIndex d < 3 \<and> TxConsumeIndex d < 3"

text \<open>Everything was sent and given back.\<close>

definition tx_idle :: "enet \<Rightarrow> bool" where
  "tx_idle d \<longleftrightarrow> tx_ring d \<and> TxProduceIndex d = TxConsumeIndex d \<and> lasttxidx d = ucast (TxConsumeIndex d) \<and> txb d = [0, 0, 0]"

text \<open>The slot \<open>k\<close> places after \<open>c\<close>.\<close>

definition slot :: "nat \<Rightarrow> nat \<Rightarrow> nat" where "slot c k = (c + k) mod 3"

lemma slot_less [simp]: "slot c k < 3"
  by (simp add: slot_def)

lemma slot_Suc: "slot (slot c (Suc 0)) k = slot c (Suc k)"
  by (simp add: slot_def mod_add_left_eq)

lemma slot_start: "c < 3 \<Longrightarrow> slot c 0 = c"
  by (simp add: slot_def)

lemma slot_inj:
  assumes "k < 3" and "l < 3"
  shows "slot c k = slot c l \<longleftrightarrow> k = l"
proof -
  obtain r where r: "r < 3" "slot c k = (r + k) mod 3" "slot c l = (r + l) mod 3"
    by (rule that [of "c mod 3"]) (simp_all add: slot_def mod_add_left_eq)
  have "r = 0 \<or> r = 1 \<or> r = 2" "k = 0 \<or> k = 1 \<or> k = 2" "l = 0 \<or> l = 1 \<or> l = 2" using r(1) assms by linarith+
  then show ?thesis unfolding r(2,3) by (elim disjE) simp_all
qed

definition tx_desc :: "lwip \<Rightarrow> u32 \<Rightarrow> bool \<Rightarrow> dma_desc" where
  "tx_desc s q final = (case pbufs s q of None \<Rightarrow> \<lparr>Packet = 0, Ctrl = 0\<rparr>
     | Some b \<Rightarrow> \<lparr>Packet = payload b, Ctrl = (let c = (ucast (p_len b) - 1) AND EMAC_TCTRL_SIZE in
         if final then c OR EMAC_TCTRL_INT OR EMAC_TCTRL_LAST else c OR EMAC_TCTRL_INT)\<rparr>)"

text \<open>The descriptors of the chain \<open>qs\<close> are in the slots from \<open>c\<close> on, its head is kept in the last of them.\<close>

definition queued :: "u32 \<Rightarrow> u32 list \<Rightarrow> nat \<Rightarrow> enet \<Rightarrow> enet \<Rightarrow> bool" where
  "queued p qs c d d' \<longleftrightarrow> d' = d\<lparr>ptxd := ptxd d', txb := txb d', TxProduceIndex := TxProduceIndex d'\<rparr>
     \<and> length (ptxd d') = 3 \<and> length (txb d') = 3
     \<and> (\<forall>k<length qs. ptxd d' ! slot c k = tx_desc (net d) (qs ! k) (k + 1 = length qs)
          \<and> txb d' ! slot c k = (if k + 1 = length qs then p else 0))
     \<and> (\<forall>j<3. j \<notin> slot c ` {..<length qs} \<longrightarrow> ptxd d' ! j = ptxd d ! j \<and> txb d' ! j = txb d ! j)
     \<and> TxProduceIndex d' = (if qs = [] then TxProduceIndex d else of_nat (slot c (length qs)))"

lemma below_three: "c < (3 :: u8) \<Longrightarrow> c = 0 \<or> c = 1 \<or> c = 2"
proof -
  assume "c < 3"
  then have "unat c = 0 \<or> unat c = 1 \<or> unat c = 2" by (simp add: word_less_nat_alt) linarith
  then show ?thesis by (auto simp: word_unat_eq_iff)
qed

lemma next_slot:
  assumes "c < (3 :: u8)"
  shows "(if ucast (c + 1) > (2 :: u32) then 0 else c + 1) < 3" and "unat (if ucast (c + 1) > (2 :: u32) then 0 else c + 1) = slot (unat c) (Suc 0)"
    and "(ucast (if ucast (c + 1) > (2 :: u32) then 0 else c + 1) :: u32) = of_nat (slot (unat c) (Suc 0))"
  using below_three [OF assms] by (auto simp: slot_def)

lemma fill_effect:
  assumes "pchain (net d) q qs" and "length qs \<le> 3" and "idx < 3" and "length (ptxd d) = 3" and "length (txb d) = 3"
    and "TxDescriptorNumber d = 2"
  shows "\<exists>d'. tx_fill p q idx (of_nat (length qs)) d = Some d' \<and> queued p qs (unat idx) d d'"
  using assms
proof (induction qs arbitrary: q idx d)
  case Nil
  then show ?case by (intro exI [of _ d]) (subst tx_fill.simps, simp add: queued_def)
next
  case (Cons x xs)
  then obtain b where b: "pbufs (net d) x = Some b" "pchain (net d) (p_next b) xs" "q = x" "x \<noteq> 0" by auto
  let ?c = "unat idx"
  have c: "?c < 3" using Cons.prems(3) by (simp add: word_less_nat_alt)
  let ?last = "xs = []"
  let ?d = "d\<lparr>ptxd := (ptxd d)[?c := tx_desc (net d) x ?last], txb := (txb d)[?c := (if ?last then p else 0)], TxProduceIndex := of_nat (slot ?c (Suc 0))\<rparr>"
  let ?i = "if ucast (idx + 1) > (2 :: u32) then 0 else idx + 1"
  note nx = next_slot [OF Cons.prems(3)]
  have n: "of_nat (length (x # xs)) - 1 = (of_nat (length xs) :: u8)" by simp
  have z: "(of_nat (length xs) :: u8) = 0 \<longleftrightarrow> xs = []" "(of_nat (length (x # xs)) :: u8) > 0"
  proof -
    have u: "unat (of_nat (length xs) :: u8) = length xs" "unat (of_nat (length (x # xs)) :: u8) = length (x # xs)"
      using Cons.prems(2) by (simp_all add: unat_of_nat del: length_Cons of_nat_Suc)
    then show "(of_nat (length xs) :: u8) = 0 \<longleftrightarrow> xs = []" by (auto simp: word_unat_eq_iff)
    show "(of_nat (length (x # xs)) :: u8) > 0" using u(2) by (simp add: word_less_nat_alt del: of_nat_Suc)
  qed
  have "tx_fill p q idx (of_nat (length (x # xs))) d = tx_fill p (p_next b) ?i (of_nat (length xs)) ?d"
    apply (subst tx_fill.simps)
    using b c Cons.prems(4-6) z n nx by (simp add: deref_def at_def tx_desc_def Let_def del: of_nat_Suc length_Cons)
  moreover obtain d' where d': "tx_fill p (p_next b) ?i (of_nat (length xs)) ?d = Some d'" "queued p xs (slot ?c (Suc 0)) ?d d'"
    using Cons.IH [of ?d "p_next b" ?i] b(2) Cons.prems(2,4,5,6) nx by auto
  moreover have "queued p (x # xs) ?c d d'"
  proof -
    note q = d'(2) [unfolded queued_def slot_Suc]
    have rec: "d' = ?d\<lparr>ptxd := ptxd d', txb := txb d', TxProduceIndex := TxProduceIndex d'\<rparr>" by (rule conjunct1 [OF q])
    have len: "length (ptxd d') = 3" "length (txb d') = 3"
      and here: "\<And>k. k < length xs \<Longrightarrow> ptxd d' ! slot ?c (Suc k) = tx_desc (net d) (xs ! k) (k + 1 = length xs)
         \<and> txb d' ! slot ?c (Suc k) = (if k + 1 = length xs then p else 0)"
      and others: "\<And>j. j < 3 \<Longrightarrow> j \<notin> (\<lambda>k. slot ?c (Suc k)) ` {..<length xs} \<Longrightarrow> ptxd d' ! j = ptxd ?d ! j \<and> txb d' ! j = txb ?d ! j"
      and pr: "TxProduceIndex d' = (if xs = [] then of_nat (slot ?c (Suc 0)) else of_nat (slot ?c (Suc (length xs))))"
      using conjunct2 [OF q] by simp_all
    have first: "?c \<notin> (\<lambda>k. slot ?c (Suc k)) ` {..<length xs}"
    proof
      assume "?c \<in> (\<lambda>k. slot ?c (Suc k)) ` {..<length xs}"
      then obtain k where "k < length xs" "slot ?c 0 = slot ?c (Suc k)" using slot_start [OF c] by auto
      then show False using slot_inj [of 0 "Suc k" ?c] Cons.prems(2) by simp
    qed
    have "d' = d\<lparr>ptxd := ptxd d', txb := txb d', TxProduceIndex := TxProduceIndex d'\<rparr>" by (subst rec) simp
    moreover have "ptxd d' ! slot ?c k = tx_desc (net d) ((x # xs) ! k) (k + 1 = length (x # xs))
      \<and> txb d' ! slot ?c k = (if k + 1 = length (x # xs) then p else 0)" if "k < length (x # xs)" for k
      using that here others [OF c first] c Cons.prems(4,5) slot_start [OF c] by (cases k) auto
    moreover have "ptxd d' ! j = ptxd d ! j \<and> txb d' ! j = txb d ! j" if "j < 3" "j \<notin> slot ?c ` {..<length (x # xs)}" for j
    proof -
      have "j \<noteq> ?c" "j \<notin> (\<lambda>k. slot ?c (Suc k)) ` {..<length xs}"
        using that(2) slot_start [OF c] by (auto simp: image_iff lessThan_Suc_eq_insert_0)
      then show ?thesis using others [OF that(1)] by simp
    qed
    moreover have "TxProduceIndex d' = of_nat (slot ?c (length (x # xs)))" using pr by simp
    ultimately show ?thesis unfolding queued_def using len by simp
  qed
  ultimately show ?case by auto
qed

section \<open>Sending\<close>

text \<open>
  The memories the driver lets the controller read: the local SRAM of 32 KB, the boot ROM and the two AHB SRAMs of 16 KB. (The comment
  above the test says that the local SRAM is not safe.)
\<close>

definition controller_memory :: "u32 \<Rightarrow> bool" where
  "controller_memory a \<longleftrightarrow> unat a \<in> {0x10000000..<0x10008000} \<union> {0x1FFF0000..<0x1FFF2000} \<union> {0x2007C000..<0x20084000}"

lemma notsafe_iff: "lpc_packet_addr_notsafe a = (if controller_memory a then 0 else 1)"
  by (simp add: lpc_packet_addr_notsafe_def controller_memory_def word_le_nat_alt word_less_nat_alt)

definition dma_safe :: "lwip \<Rightarrow> u32 list \<Rightarrow> bool" where
  "dma_safe s qs \<longleftrightarrow> (\<forall>q\<in>set qs. \<forall>b. pbufs s q = Some b \<longrightarrow> controller_memory (payload b))"

lemma clen_effect: "pchain s p qs \<Longrightarrow> pbuf_clen_loop n p s = Some (n + of_nat (length qs))"
proof (induction qs arbitrary: n p)
  case Nil
  then show ?case by (subst pbuf_clen_loop.simps) simp
next
  case (Cons q qs)
  then show ?case by (subst pbuf_clen_loop.simps) (auto simp: algebra_simps)
qed

text \<open>The number of pbufs of a chain that the controller cannot reach.\<close>

definition unreachable :: "lwip \<Rightarrow> u32 list \<Rightarrow> nat" where
  "unreachable s qs = length (filter (\<lambda>q. \<exists>b. pbufs s q = Some b \<and> lpc_packet_addr_notsafe (payload b) \<noteq> 0) qs)"

lemma unreachable_safe: "unreachable s qs = 0 \<longleftrightarrow> dma_safe s qs"
  by (auto simp: unreachable_def dma_safe_def filter_empty_conv notsafe_iff split: if_splits)

lemma count_effect: "pchain s p qs \<Longrightarrow> count_notsafe p n s = Some (n + of_nat (unreachable s qs))"
proof (induction qs arbitrary: n p)
  case Nil
  then show ?case by (subst count_notsafe.simps) (simp add: unreachable_def)
next
  case (Cons q qs)
  then obtain b where b: "pbufs s q = Some b" "pchain s (p_next b) qs" "p = q" "q \<noteq> 0" by auto
  have "lpc_packet_addr_notsafe (payload b) = 0 \<or> lpc_packet_addr_notsafe (payload b) = 1" by (simp add: lpc_packet_addr_notsafe_def)
  moreover have "count_notsafe p n s = count_notsafe (p_next b) (n + ucast (lpc_packet_addr_notsafe (payload b))) s"
    by (subst count_notsafe.simps) (use b in simp)
  ultimately show ?case using Cons.IH [OF b(2)] b(1) by (auto simp: unreachable_def)
qed

lemma tx_wait_none: "dn \<le> lpc_tx_ready d \<Longrightarrow> tx_wait env k dn d = Some d"
  by (subst tx_wait.simps) (auto dest: leD)

lemma ready_empty: "TxProduceIndex d = TxConsumeIndex d \<Longrightarrow> lpc_tx_ready d = 3"
  by (simp add: lpc_tx_ready_def EMAC_NUM_TX_FRAG_def)

lemma tx_desc_ref: "tx_desc (upd_pb p (p_ref_update f) s) q l = tx_desc s q l"
  by (auto simp: tx_desc_def upd_pb_def split: option.splits)

lemma pchain_ref: "pchain (upd_pb p (p_ref_update f) s) q qs = pchain s q qs"
  by (induction qs arbitrary: q) (auto simp: upd_pb_def)

lemma produce_u8:
  assumes "tx_ring d"
  shows "(ucast (TxProduceIndex d) :: u8) < 3" and "unat (ucast (TxProduceIndex d) :: u8) = unat (TxProduceIndex d)"
  using assms by (simp_all add: tx_ring_def word_less_nat_alt unsigned_ucast_eq take_bit_eq_mod)

lemma output_safe:
  assumes pk: "packet (net d) p qs" and safe: "dma_safe (net d) qs" and ring: "tx_ring d"
    and room: "of_nat (length qs) \<le> lpc_tx_ready d" and n: "length qs \<le> 3"
  shows "\<exists>d'. lpc_low_level_output malloc env p d = Some (ERR_OK, d')
    \<and> queued p qs (unat (TxProduceIndex d)) (d\<lparr>net := upd_pb p (p_ref_update (\<lambda>r. r + 1)) (net d)\<rparr>) d'"
proof -
  have ch: "pchain (net d) p qs" using pk by (simp add: packet_def)
  then obtain b where b: "pbufs (net d) p = Some b" "p \<noteq> 0" using pk by (cases qs) (auto simp: packet_def)
  let ?d = "d\<lparr>net := upd_pb p (p_ref_update (\<lambda>r. r + 1)) (net d)\<rparr>"
  have "count_notsafe p 0 (net d) = Some 0" using count_effect [OF ch, of 0] safe unreachable_safe [of "net d" qs] by simp
  moreover have "pbuf_clen p (net d) = Some (of_nat (length qs))" using clen_effect [OF ch, of 0] by (simp add: pbuf_clen_def)
  moreover have "ucast (of_nat (length qs) :: u16) = (of_nat (length qs) :: u8)" using n
    by (simp add: word_unat_eq_iff unsigned_ucast_eq take_bit_eq_mod unat_of_nat)
  moreover have "tx_wait env 0 (of_nat (length qs)) d = Some d" by (rule tx_wait_none [OF room])
  moreover have "pbuf_ref p (net d) = Some (upd_pb p (p_ref_update (\<lambda>r. r + 1)) (net d))" using b by (simp add: pbuf_ref_def)
  moreover obtain d' where "tx_fill p p (ucast (TxProduceIndex d)) (of_nat (length qs)) ?d = Some d'"
    "queued p qs (unat (TxProduceIndex d)) ?d d'"
    using fill_effect [of ?d p qs "ucast (TxProduceIndex d)" p] ch n ring produce_u8 [OF ring] by (auto simp: pchain_ref tx_ring_def)
  ultimately show ?thesis by (simp add: lpc_low_level_output_def)
qed

section \<open>Giving frames back\<close>

lemma free_shared:
  assumes "pbufs s p = Some b" and "p_ref b \<noteq> 1" and "p \<noteq> 0"
  shows "pbuf_free p s = Some (0, upd_pb p (p_ref_update (\<lambda>r. r - 1)) s)"
proof -
  have "p_ref b - 1 \<noteq> 0" using assms(2) by (simp add: eq_diff_eq)
  then show ?thesis unfolding pbuf_free_def
    by (subst pbuf_free_loop.simps) (use assms in \<open>simp add: upd_pb_def p_ref_update_const [of "\<lambda>r. r - 1" b]\<close>)
qed

lemma reclaim_done: "TxConsumeIndex d = ucast (lasttxidx d) \<Longrightarrow> lpc_tx_reclaim d = Some d"
  by (subst lpc_tx_reclaim.simps) simp

lemma reclaim_effect:
  assumes "c < 3" and "n \<le> 2" and "lasttxidx d = of_nat c" and "TxConsumeIndex d = of_nat (slot c n)" and "TxDescriptorNumber d = 2"
    and "length (txb d) = 3" and "\<forall>k<n. txb d ! slot c k = (if k + 1 = n then p else 0)" and "pbufs (net d) p = Some b" and "p_ref b \<noteq> 1" and "p \<noteq> 0"
  shows "lpc_tx_reclaim d = Some (if n = 0 then d
    else d\<lparr>net := upd_pb p (p_ref_update (\<lambda>r. r - 1)) (net d), txb := (txb d)[slot c (n - 1) := 0],
      lasttxidx := of_nat (slot c n), tx_signals := tx_signals d + n\<rparr>)"
  using assms
proof (induction n arbitrary: c d)
  case 0
  have "c = 0 \<or> c = 1 \<or> c = 2" using 0 by linarith
  then have "TxConsumeIndex d = ucast (lasttxidx d)" using 0 by (auto simp: slot_def)
  then show ?case by (simp add: reclaim_done)
next
  case (Suc n)
  have "slot c (Suc n) \<noteq> slot c 0" using slot_inj [of "Suc n" 0 c] Suc.prems(2) by simp
  moreover have "slot c (Suc n) < 3" by (rule slot_less)
  moreover have c: "unat (lasttxidx d) = c" "lasttxidx d < 3" using Suc.prems(1,3) by (simp_all add: unat_of_nat word_less_nat_alt)
  moreover have "unat (TxConsumeIndex d) = slot c (Suc n)" using Suc.prems(4) by (simp add: unat_of_nat_u32 less_trans [OF slot_less])
  moreover have "unat (ucast (lasttxidx d) :: u32) = c" using c(1) Suc.prems(1) by (simp add: unsigned_ucast_eq take_bit_eq_mod)
  ultimately have ne: "TxConsumeIndex d \<noteq> ucast (lasttxidx d)" using slot_start [OF Suc.prems(1)] by metis
  let ?i = "if ucast (lasttxidx d + 1) > (2 :: u32) then 0 else lasttxidx d + 1"
  have i: "?i = of_nat (slot c (Suc 0))" using arg_cong [OF next_slot(2) [OF c(2)], of "of_nat :: nat \<Rightarrow> u8"] c(1) by simp
  show ?case
  proof (cases "n = 0")
    case True
    have t: "at (txb d) c = Some p" using Suc.prems(1,6,7) True slot_start by (auto simp: at_def)
    let ?d = "d\<lparr>net := upd_pb p (p_ref_update (\<lambda>r. r - 1)) (net d), txb := (txb d)[c := 0], tx_signals := tx_signals d + 1, lasttxidx := ?i\<rparr>"
    have "lpc_tx_reclaim d = lpc_tx_reclaim ?d"
      using ne t c free_shared [OF Suc.prems(8,9,10)] Suc.prems(5,10) by (subst lpc_tx_reclaim.simps) (simp add: Let_def)
    moreover have "lpc_tx_reclaim ?d = Some ?d"
      by (rule reclaim_done) (use next_slot(3) [OF c(2)] c(1) Suc.prems(4) True in simp)
    ultimately show ?thesis using True i slot_start [OF Suc.prems(1)] by simp
  next
    case False
    have "0 < Suc n" by simp
    then have "txb d ! slot c 0 = (if 0 + 1 = Suc n then p else 0)" using Suc.prems(7) by blast
    then have t: "at (txb d) c = Some 0" using Suc.prems(1,6) False slot_start by (auto simp: at_def)
    let ?d = "d\<lparr>tx_signals := tx_signals d + 1, lasttxidx := ?i\<rparr>"
    have "lpc_tx_reclaim d = lpc_tx_reclaim ?d"
      using ne t c Suc.prems(5) by (subst lpc_tx_reclaim.simps) (simp add: Let_def)
    moreover have "\<forall>k<n. txb ?d ! slot (slot c (Suc 0)) k = (if k + 1 = n then p else 0)" using Suc.prems(7) by (simp add: slot_Suc)
    moreover have "n = 1" using Suc.prems(2) False by simp
    ultimately show ?thesis
      using Suc.IH [of "slot c (Suc 0)" ?d] Suc.prems i by (simp add: slot_Suc)
  qed
qed

section \<open>Data that the controller cannot reach\<close>

lemma bounce_effect:
  assumes "pchain s q qs" and "clear_of s qs d n" and "length (content s qs) \<le> n" and "length (content s qs) < 2 ^ 16"
  shows "bounce_copy q d s = Some (put_bytes (mem_put d (content s qs)) s)"
  using assms
proof (induction qs arbitrary: q d n s)
  case Nil
  then show ?case by (subst bounce_copy.simps) simp
next
  case (Cons x xs)
  then obtain b where b: "pbufs s x = Some b" "pchain s (p_next b) xs" "q = x" "x \<noteq> 0" by auto
  let ?xs = "pbuf_data s x" let ?s = "put_bytes (mem_put d ?xs) s"
  have l: "length ?xs = unat (p_len b)" "unat (p_len b) + length (content s xs) \<le> n" "unat (p_len b) + length (content s xs) < 2 ^ 16"
    using Cons.prems(3,4) b(1) by (simp_all add: pbuf_data_Some)
  have C: "content ?s xs = content s xs" by (rule content_put [OF clear_of_tail [OF Cons.prems(2)]]) (use l in simp)
  have "clear_of s xs (d + of_nat (unat (p_len b))) (length (content s xs))"
    using l by (intro clear_of_less [OF clear_of_tail [OF Cons.prems(2)]]) simp
  then have "bounce_copy (p_next b) (d + of_nat (unat (p_len b))) ?s
    = Some (put_bytes (mem_put (d + of_nat (unat (p_len b))) (content s xs)) ?s)"
    using Cons.IH [of ?s "p_next b"] b(2) l C by simp
  moreover have "put_bytes (memcpy d (payload b) (ucast (p_len b))) s = ?s"
    using b(1) by (simp add: memcpy_put put_bytes_def pbuf_data_Some)
  ultimately have "bounce_copy q d s = Some (put_bytes (mem_put (d + of_nat (length ?xs)) (content s xs)) ?s)"
    using b l(1) by (subst bounce_copy.simps) simp
  moreover have "length ?xs + length (content s xs) \<le> 2 ^ 32" using l by simp
  ultimately show ?case using mem_put_append [of ?xs "content s xs" d "bytes s"] by (simp add: put_bytes_def)
qed

text \<open>A new block holds no pbuf of the packet and none of its data.\<close>

definition fresh_for :: "libc_malloc \<Rightarrow> lwip \<Rightarrow> u32 list \<Rightarrow> bool" where
  "fresh_for malloc s qs \<longleftrightarrow> (\<forall>x n. malloc x n (live s) \<noteq> 0 \<longrightarrow>
     clear_of s qs (malloc x n (live s)) (unat n) \<and> malloc x n (live s) \<notin> set qs)"

lemma output_bounced:
  assumes m: "c_malloc malloc" "fresh_for malloc (net d) qs" and pk: "packet (net d) p qs" and unsafe: "\<not> dma_safe (net d) qs"
    and ring: "tx_ring d" and room: "1 \<le> lpc_tx_ready d" and n: "length qs < 2 ^ 16"
  shows "\<exists>np s. pbuf_alloc malloc PBUF_RAW (of_nat (length (content (net d) qs))) PBUF_RAM (net d) = Some (np, s)
    \<and> (if np = 0 then lpc_low_level_output malloc env p d = Some (ERR_MEM, d\<lparr>net := s\<rparr>)
       else \<exists>s' d'. lpc_low_level_output malloc env p d = Some (ERR_OK, d')
         \<and> queued np [np] (unat (TxProduceIndex d)) (d\<lparr>net := s'\<rparr>) d' \<and> content s' [np] = content (net d) qs
         \<and> packet s' p qs \<and> content s' qs = content (net d) qs)"
proof -
  have ch: "pchain (net d) p qs" using pk by (simp add: packet_def)
  obtain b where b: "pbufs (net d) p = Some b" "p \<noteq> 0" "unat (tot_len b) = length (content (net d) qs)"
    using pk by (cases qs) (auto simp: packet_def)
  have l16: "length (content (net d) qs) < 2 ^ 16" using pk total_bound by (auto simp: packet_def)
  have l: "tot_len b = of_nat (length (content (net d) qs))" using b(3) l16 by (simp add: word_unat_eq_iff unat_of_nat_u16)
  have u: "(ucast (tot_len b) :: u32) = of_nat (length (content (net d) qs))" unfolding b(3) [symmetric] by (rule ucast_of_nat_u16)
  have "unreachable (net d) qs \<noteq> 0" "unreachable (net d) qs \<le> length qs" using unsafe unreachable_safe by (auto simp: unreachable_def)
  then have "(of_nat (unreachable (net d) qs) :: u32) \<noteq> 0" using n by (simp add: word_unat_eq_iff unat_of_nat_u32)
  then have cnt: "\<exists>c. count_notsafe p 0 (net d) = Some c \<and> c \<noteq> 0" using count_effect [OF ch, of 0] by simp
  have clen: "pbuf_clen p (net d) = Some (of_nat (length qs))" using clen_effect [OF ch, of 0] by (simp add: pbuf_clen_def)
  from m(1) show ?thesis
  proof (cases rule: alloc_frame [where l = "tot_len b" and s = "net d"])
    case (none k)
    then show ?thesis using cnt clen b l by (auto simp: lpc_low_level_output_def deref_def)
  next
    case (some np c m)
    let ?q = "\<lparr>p_next = 0, payload = c, tot_len = tot_len b, p_len = tot_len b, type_internal = ucast (type_code PBUF_RAM), p_flags = 0, p_ref = 1, if_idx = 0\<rparr> :: pbuf"
    let ?new = "pbuf_init_alloced_pbuf np c (tot_len b) (tot_len b) PBUF_RAM 0 ((net d)\<lparr>mallocs := mallocs (net d) + 1, live := (np, m) # live (net d)\<rparr>)"
    let ?s = "put_bytes (mem_put c (content (net d) qs)) ?new"
    have q: "pbufs ?new np = Some ?q" "bytes ?new = bytes (net d)" by (simp_all add: pbuf_init_alloced_pbuf_def)
    have fr: "clear_of (net d) qs np (unat m)" "np \<notin> set qs" using m(2) some(1,7) by (simp_all add: fresh_for_def)
    have same: "same_headers qs (net d) ?new" using fr(2) by (auto simp: same_headers_def pbuf_init_alloced_pbuf_def)
    have C: "content ?new qs = content (net d) qs" by (rule content_cong [OF same q(2)])
    have off: "c = np + of_nat (unat c - unat np)" using some(3) by (simp add: word_unat_eq_iff unat_word_ariths unat_of_nat)
    have "clear_of (net d) qs c (length (content (net d) qs))"
      by (subst off, rule clear_of_less [OF fr(1)]) (use some(3,4) b(3) in simp)
    then have clear: "clear_of ?new qs c (length (content (net d) qs))" using same by (simp add: clear_of_def same_headers_def)
    have bc: "bounce_copy p c ?new = Some ?s"
      using bounce_effect [of ?new p qs c "length (content (net d) qs)"] pchain_cong [OF same] ch clear C l16 by simp
    have upd: "upd_pb np (p_len_update (\<lambda>_. tot_len b)) ?s = ?s" using q(1) by (simp add: upd_pb_def fun_upd_idem)
    have data: "content ?s [np] = content (net d) qs"
      using bytes_put [of "content (net d) qs" c "bytes (net d)"] q u l16 by (simp add: pbuf_data_Some)
    have "pchain ?s np [np]" using q(1) some(1) by simp
    then obtain d' where d': "tx_fill np np (ucast (TxProduceIndex d)) 1 (d\<lparr>net := ?s\<rparr>) = Some d'"
      "queued np [np] (unat (TxProduceIndex d)) (d\<lparr>net := ?s\<rparr>) d'"
      using fill_effect [of "d\<lparr>net := ?s\<rparr>" np "[np]" "ucast (TxProduceIndex d)" np] ring produce_u8 [OF ring] by (auto simp: tx_ring_def)
    have "lpc_tx_ready (d\<lparr>net := ?s\<rparr>) = lpc_tx_ready d" by (simp add: lpc_tx_ready_def)
    then have "tx_wait env 0 1 (d\<lparr>net := ?s\<rparr>) = Some (d\<lparr>net := ?s\<rparr>)" using room by (intro tx_wait_none) simp
    then have "lpc_low_level_output malloc env p d = Some (ERR_OK, d')"
      using cnt clen b some(1,2) q(1) bc upd d'(1) by (auto simp: lpc_low_level_output_def deref_def)
    moreover have "content ?s qs = content (net d) qs" using content_put [OF clear, of "content (net d) qs"] C by simp
    moreover have "packet ?s p qs" using packet_cong [OF same q(2)] pk by (simp add: packet_def)
    ultimately show ?thesis using some(1,2) d'(2) data l by auto
  qed
qed

section \<open>Sent and given back\<close>

lemma ref_there_and_back: "upd_pb p (p_ref_update (\<lambda>r. r - 1)) (upd_pb p (p_ref_update (\<lambda>r. r + 1)) s) = s"
proof (cases "pbufs s p")
  case None
  then show ?thesis by (simp add: upd_pb_def fun_upd_idem)
next
  case (Some b)
  have "p_ref_update (\<lambda>r. r - 1) (p_ref_update (\<lambda>r. r + 1) b) = b" by (cases b) simp
  then show ?thesis using Some by (simp add: upd_pb_def fun_upd_idem)
qed

lemma packet_ref: "packet (upd_pb p (p_ref_update f) s) q qs = packet s q qs"
  "dma_safe (upd_pb p (p_ref_update f) s) qs = dma_safe s qs"
proof -
  have d: "pbuf_data (upd_pb p (p_ref_update f) s) = pbuf_data s"
    by (rule ext) (auto simp: upd_pb_def pbuf_data_def split: option.splits)
  then have c: "content (upd_pb p (p_ref_update f) s) xs = content s xs" for xs by (simp add: content_def)
  have "totals (upd_pb p (p_ref_update f) s) xs = totals s xs" for xs
  proof (induction xs)
    case (Cons x xs)
    have "(\<exists>b. pbufs (upd_pb p (p_ref_update f) s) x = Some b \<and> unat (tot_len b) = n) = (\<exists>b. pbufs s x = Some b \<and> unat (tot_len b) = n)" for n
      by (auto simp: upd_pb_def)
    then show ?case using Cons c by (simp only: totals.simps)
  qed simp
  then show "packet (upd_pb p (p_ref_update f) s) q qs = packet s q qs" by (simp add: packet_def pchain_ref)
  show "dma_safe (upd_pb p (p_ref_update f) s) qs = dma_safe s qs" by (auto simp: dma_safe_def upd_pb_def)
qed

lemma idle_index:
  assumes "tx_idle d"
  shows "unat (TxProduceIndex d) < 3" and "lasttxidx d = of_nat (unat (TxProduceIndex d))" and "length (txb d) = 3"
    and "\<forall>j<3. txb d ! j = 0"
proof -
  show "unat (TxProduceIndex d) < 3" using assms by (simp add: tx_idle_def tx_ring_def word_less_nat_alt)
  show "lasttxidx d = of_nat (unat (TxProduceIndex d))" using assms by (simp add: tx_idle_def)
  show "length (txb d) = 3" "\<forall>j<3. txb d ! j = 0" using assms by (auto simp: tx_idle_def less_Suc_eq numeral_3_eq_3)
qed

lemma small_index: "k < 3 \<Longrightarrow> (of_nat k :: u32) < 3 \<and> ucast (of_nat k :: u32) = (of_nat k :: u8)"
  by (simp add: word_less_nat_alt word_unat_eq_iff unat_of_nat unsigned_ucast_eq take_bit_eq_mod)

lemma round_trip:
  assumes idle: "tx_idle d" and pk: "packet (net d) p qs" and safe: "dma_safe (net d) qs" and n: "length qs \<le> 2"
    and b: "pbufs (net d) p = Some b" "p_ref b \<noteq> 0"
  shows "\<exists>d1 d2. lpc_low_level_output malloc env p d = Some (ERR_OK, d1)
    \<and> queued p qs (unat (TxProduceIndex d)) (d\<lparr>net := upd_pb p (p_ref_update (\<lambda>r. r + 1)) (net d)\<rparr>) d1
    \<and> lpc_tx_reclaim (d1\<lparr>TxConsumeIndex := TxProduceIndex d1\<rparr>) = Some d2
    \<and> net d2 = net d \<and> tx_idle d2 \<and> tx_signals d2 = tx_signals d + length qs"
proof -
  let ?c = "unat (TxProduceIndex d)" and ?n = "length qs"
  let ?d = "d\<lparr>net := upd_pb p (p_ref_update (\<lambda>r. r + 1)) (net d)\<rparr>"
  note ix = idle_index [OF idle]
  have ring: "tx_ring d" using idle by (simp add: tx_idle_def)
  have n0: "0 < ?n" and p0: "p \<noteq> 0" using pk by (cases qs; auto simp: packet_def)+
  have ready: "lpc_tx_ready d = 3" by (rule ready_empty) (use idle in \<open>simp add: tx_idle_def\<close>)
  have "of_nat ?n \<le> (3 :: u8)" using n by (simp add: word_le_nat_alt unat_of_nat)
  then obtain d1 where d1: "lpc_low_level_output malloc env p d = Some (ERR_OK, d1)" "queued p qs ?c ?d d1"
    using output_safe [OF pk safe ring, of malloc env] ready n by auto
  have rec: "d1 = ?d\<lparr>ptxd := ptxd d1, txb := txb d1, TxProduceIndex := TxProduceIndex d1\<rparr>"
    and len: "length (ptxd d1) = 3" "length (txb d1) = 3"
    and here: "\<forall>k<?n. txb d1 ! slot ?c k = (if k + 1 = ?n then p else 0)"
    and others: "\<forall>j<3. j \<notin> slot ?c ` {..<?n} \<longrightarrow> txb d1 ! j = txb d ! j"
    and pr: "TxProduceIndex d1 = of_nat (slot ?c ?n)"
    using d1(2) n0 by (auto simp: queued_def)
  have f: "net d1 = net ?d" "lasttxidx d1 = lasttxidx d" "TxDescriptorNumber d1 = 2" "tx_signals d1 = tx_signals d"
    using ring by (subst rec, simp add: tx_ring_def)+
  let ?e = "d1\<lparr>TxConsumeIndex := TxProduceIndex d1\<rparr>"
  let ?d2 = "?e\<lparr>net := upd_pb p (p_ref_update (\<lambda>r. r - 1)) (net ?e), txb := (txb ?e)[slot ?c (?n - 1) := 0],
      lasttxidx := of_nat (slot ?c ?n), tx_signals := tx_signals ?e + ?n\<rparr>"
  have "lpc_tx_reclaim ?e = Some ?d2"
    using reclaim_effect [of ?c ?n ?e p "b\<lparr>p_ref := p_ref b + 1\<rparr>"] ix n n0 p0 b f len here pr by (simp add: upd_pb_def)
  moreover have "net ?d2 = net d" using f(1) ref_there_and_back by simp
  moreover have "txb ?d2 = [0, 0, 0]"
  proof (rule nth_equalityI)
    fix j assume "j < length (txb ?d2)"
    then have j: "j < 3" using len by simp
    have "txb d1 ! j = 0 \<or> j = slot ?c (?n - 1)"
    proof (cases "j \<in> slot ?c ` {..<?n}")
      case True
      then obtain k where "k < ?n" "j = slot ?c k" by auto
      then show ?thesis using here by (cases "k = ?n - 1") auto
    qed (use others ix(4) j in simp)
    moreover have "[0, 0, 0] ! j = (0 :: u32)" using j by (auto simp: less_Suc_eq numeral_3_eq_3)
    ultimately show "txb ?d2 ! j = [0, 0, 0] ! j" using len j by (auto simp: nth_list_update)
  qed (use len in simp)
  moreover have "(of_nat (slot ?c ?n) :: u32) < 3" "ucast (of_nat (slot ?c ?n) :: u32) = (of_nat (slot ?c ?n) :: u8)"
    using small_index [of "slot ?c ?n"] by simp_all
  ultimately have "tx_idle ?d2" using f len pr by (simp add: tx_idle_def tx_ring_def)
  then show ?thesis using d1 \<open>lpc_tx_reclaim ?e = Some ?d2\<close> \<open>net ?d2 = net d\<close> f(4) by (intro exI [of _ d1] exI [of _ ?d2]) simp
qed

section \<open>Three frames in a ring of three\<close>

lemma one_frame:
  assumes "tx_ring d" and "packet (net d) p [p]" and "dma_safe (net d) [p]" and "1 \<le> lpc_tx_ready d"
  obtains d' where "lpc_low_level_output malloc env p d = Some (ERR_OK, d')" "net d' = upd_pb p (p_ref_update (\<lambda>r. r + 1)) (net d)"
    "txb d' = (txb d)[unat (TxProduceIndex d) := p]" "TxProduceIndex d' = of_nat (slot (unat (TxProduceIndex d)) 1)"
    "tx_ring d'" "TxConsumeIndex d' = TxConsumeIndex d" "lasttxidx d' = lasttxidx d"
proof -
  let ?c = "unat (TxProduceIndex d)"
  let ?d = "d\<lparr>net := upd_pb p (p_ref_update (\<lambda>r. r + 1)) (net d)\<rparr>"
  have c: "?c < 3" using assms(1) by (simp add: tx_ring_def word_less_nat_alt)
  obtain d' where d': "lpc_low_level_output malloc env p d = Some (ERR_OK, d')" "queued p [p] ?c ?d d'"
    using output_safe [OF assms(2,3,1), of malloc env] assms(4) by auto
  have rec: "d' = ?d\<lparr>ptxd := ptxd d', txb := txb d', TxProduceIndex := TxProduceIndex d'\<rparr>"
    by (rule conjunct1 [OF d'(2) [unfolded queued_def]])
  have len: "length (ptxd d') = 3" "length (txb d') = 3" "length (txb d) = 3" using d'(2) assms(1) by (simp_all add: queued_def tx_ring_def)
  have "txb d' ! ?c = p" "\<forall>j<3. j \<noteq> ?c \<longrightarrow> txb d' ! j = txb d ! j" using d'(2) slot_start [OF c] by (auto simp: queued_def)
  then have "txb d' = (txb d)[?c := p]" using len c by (intro nth_equalityI) (auto simp: nth_list_update)
  moreover have pr: "TxProduceIndex d' = of_nat (slot ?c 1)" using d'(2) by (simp add: queued_def)
  moreover have "net d' = upd_pb p (p_ref_update (\<lambda>r. r + 1)) (net d)" "TxConsumeIndex d' = TxConsumeIndex d"
    "lasttxidx d' = lasttxidx d" "TxDescriptorNumber d' = TxDescriptorNumber d" by (subst rec, simp)+
  moreover have "(of_nat (slot ?c 1) :: u32) < 3"
    by (simp add: word_less_nat_alt unat_of_nat_u32 less_trans [OF slot_less])
  ultimately show thesis using d'(1) len assms(1) by (intro that [of d']) (simp_all add: tx_ring_def)
qed

end
