(* ===== verification/Phy.thy ===== *)
theory Phy
  imports Emac
begin

unbundle bit_operations_syntax

text \<open>
  The link monitor of \<open>lwip/arch/phy_smsc87x0.c\<close>, the start of the controller in
  \<open>freertos_lwip_mac.c\<close> and the loop of the Ethernet task of \<open>app/src/net.c\<close> that connects them.
  What the transceiver answers is a parameter: \<open>rd reg\<close> is the result of \<open>readphy\<close>, -1 on a time-out.
\<close>

section \<open>The management bus\<close>

definition EMAC_MIND_BUSY :: u32 where "EMAC_MIND_BUSY = 1"
definition EMAC_MCMD_READ :: u32 where "EMAC_MCMD_READ = 1"
definition EMAC_MII_WR_TOUT :: nat where "EMAC_MII_WR_TOUT = 0x50000"
definition EMAC_MII_RD_TOUT :: nat where "EMAC_MII_RD_TOUT = 0x50000"

record mii =
  MADR :: u32
  MCMD :: u32
  MWTD :: u32

text \<open>The polls of \<open>MIND\<close>: \<open>mind k\<close> is its \<open>k\<close>th value.\<close>

fun mii_idle :: "(nat \<Rightarrow> u32) \<Rightarrow> nat \<Rightarrow> nat \<Rightarrow> bool" where
  "mii_idle mind k 0 \<longleftrightarrow> False"
| "mii_idle mind k (Suc n) \<longleftrightarrow> mind k AND EMAC_MIND_BUSY = 0 \<or> mii_idle mind (k + 1) n"

definition mii_address :: "u32 \<Rightarrow> u8 \<Rightarrow> u32" where
  "mii_address phyreg address = push_bit 8 (ucast (address AND 0x1F)) OR (phyreg AND 0x1F)"

definition writephy :: "(nat \<Rightarrow> u32) \<Rightarrow> u32 \<Rightarrow> u8 \<Rightarrow> u16 \<Rightarrow> mii \<Rightarrow> int \<times> mii" where
  "writephy mind phyreg address v m =
     (let m = m\<lparr>MCMD := 0, MADR := mii_address phyreg address, MWTD := ucast v\<rparr> in
      (if mii_idle mind 0 EMAC_MII_WR_TOUT then 0 else -1, m))"

definition readphy :: "(nat \<Rightarrow> u32) \<Rightarrow> u32 \<Rightarrow> u32 \<Rightarrow> u8 \<Rightarrow> mii \<Rightarrow> int \<times> mii" where
  "readphy mind mrdd phyreg address m =
     (let m = m\<lparr>MADR := mii_address phyreg address, MCMD := EMAC_MCMD_READ\<rparr> in
      if mii_idle mind 0 EMAC_MII_RD_TOUT then (sint mrdd, m\<lparr>MCMD := 0\<rparr>) else (-1, m))"

section \<open>The link state\<close>

definition PHY_LINK_BUSY :: u32 where "PHY_LINK_BUSY = 2"
definition PHY_LINK_CHANGED :: u32 where "PHY_LINK_CHANGED = 4"
definition PHY_LINK_CONNECTED :: u32 where "PHY_LINK_CONNECTED = 8"
definition PHY_LINK_SPEED100 :: u32 where "PHY_LINK_SPEED100 = 16"
definition PHY_LINK_FULLDUPLX :: u32 where "PHY_LINK_FULLDUPLX = 32"
definition EMAC_PHY_BMSR_LINK_ESTABLISHED :: u16 where "EMAC_PHY_BMSR_LINK_ESTABLISHED = 4"
definition LAN8_SPEEDMASK :: u16 where "LAN8_SPEEDMASK = 6"
definition LAN8_SPEED10F :: u16 where "LAN8_SPEED10F = 6"
definition LAN8_SPEED100H :: u16 where "LAN8_SPEED100H = 0"
definition LAN8_SPEED10H :: u16 where "LAN8_SPEED10H = 2"
definition EMAC_PHY_REG_BMCR :: u32 where "EMAC_PHY_REG_BMCR = 0"
definition EMAC_PHY_REG_BMSR :: u32 where "EMAC_PHY_REG_BMSR = 1"
definition DP83848_PHYSTS_REG :: u32 where "DP83848_PHYSTS_REG = 0x10"
definition EMAC_PHY_BMCR_RESET :: u32 where "EMAC_PHY_BMCR_RESET = 0x8000"
definition EMAC_PHY_BMCR_POWERDOWN :: u32 where "EMAC_PHY_BMCR_POWERDOWN = 0x800"

record phy =
  physts :: u32
  olddphysts :: u32
  phyustate :: int
  sts :: int
  temp :: u32

definition link_bits :: u32 where "link_bits = PHY_LINK_SPEED100 OR PHY_LINK_FULLDUPLX OR PHY_LINK_CONNECTED"

definition smsc_update_phy_sts :: "u16 \<Rightarrow> u16 \<Rightarrow> phy \<Rightarrow> phy" where
  "smsc_update_phy_sts linksts sdsts p =
     (let v = physts p;
          v = (if linksts AND EMAC_PHY_BMSR_LINK_ESTABLISHED \<noteq> 0 then v OR PHY_LINK_CONNECTED else v AND NOT PHY_LINK_CONNECTED);
          sd = sdsts AND LAN8_SPEEDMASK;
          v = (if sd = LAN8_SPEED10F then (v AND NOT PHY_LINK_SPEED100) OR PHY_LINK_FULLDUPLX
               else if sd = LAN8_SPEED100H then (v OR PHY_LINK_SPEED100) AND NOT PHY_LINK_FULLDUPLX
               else if sd = LAN8_SPEED10H then (v AND NOT PHY_LINK_SPEED100) AND NOT PHY_LINK_FULLDUPLX
               else (v OR PHY_LINK_SPEED100) OR PHY_LINK_FULLDUPLX)
      in if v AND link_bits \<noteq> olddphysts p AND link_bits
         then p\<lparr>physts := v OR PHY_LINK_CHANGED, olddphysts := v\<rparr> else p\<lparr>physts := v\<rparr>)"

definition lpcPHYStsPoll :: "(u32 \<Rightarrow> int) \<Rightarrow> phy \<Rightarrow> u32 \<times> phy" where
  "lpcPHYStsPoll rd p =
     (let p =
        (if phyustate p = 1 then p\<lparr>temp := of_int (rd DP83848_PHYSTS_REG), phyustate := 2\<rparr>
         else if phyustate p = 2
              then (smsc_update_phy_sts (of_int (sts p)) (ucast (temp p)) (p\<lparr>physts := physts p AND NOT PHY_LINK_BUSY\<rparr>))\<lparr>phyustate := 0\<rparr>
         else (let v = rd EMAC_PHY_REG_BMSR; p = p\<lparr>sts := v\<rparr> in
               if v \<noteq> err_code ERR_MEM
               then p\<lparr>physts := (physts p AND NOT PHY_LINK_CHANGED) OR PHY_LINK_BUSY, phyustate := 1\<rparr> else p))
      in (physts p, p))"

text \<open>The wait for the end of the reset: \<open>bmcr k\<close> is the \<open>k\<close>th reading of the control register.\<close>

fun phy_reset_wait :: "(nat \<Rightarrow> int) \<Rightarrow> nat \<Rightarrow> nat \<Rightarrow> bool" where
  "phy_reset_wait bmcr k 0 \<longleftrightarrow> False"
| "phy_reset_wait bmcr k (Suc i) \<longleftrightarrow>
     bmcr k \<noteq> err_code ERR_MEM
     \<and> ((of_int (bmcr k) :: u32) AND (EMAC_PHY_BMCR_RESET OR EMAC_PHY_BMCR_POWERDOWN) = 0 \<or> phy_reset_wait bmcr (k + 1) i)"

definition lpc_phy_init :: "bool \<Rightarrow> (nat \<Rightarrow> int) \<Rightarrow> phy \<Rightarrow> bool \<times> phy" where
  "lpc_phy_init written bmcr p =
     (written \<and> phy_reset_wait bmcr 0 400, p\<lparr>olddphysts := 0, physts := 0, phyustate := 0\<rparr>)"

section \<open>The loop of the Ethernet task\<close>

datatype daemon_event = Link_up | Link_down | Wait_ticks u32 | Report

definition vEthernetDaemon_round :: "(u32 \<Rightarrow> int) \<Rightarrow> phy \<times> enet \<Rightarrow> daemon_event list \<times> phy \<times> enet" where
  "vEthernetDaemon_round rd st =
     (let (v, p) = lpcPHYStsPoll rd (fst st); d = snd st in
      if v AND PHY_LINK_CHANGED \<noteq> 0
      then if v AND PHY_LINK_CONNECTED \<noteq> 0
           then (let d = lpc_emac_set_speed (v AND PHY_LINK_SPEED100 \<noteq> 0) d;
                     d = lpc_emac_set_duplex (v AND PHY_LINK_FULLDUPLX \<noteq> 0) d
                 in ([Link_up, Wait_ticks (1000 div 4), Report], p, d))
           else ([Link_down, Wait_ticks (1000 div 4), Report], p, d)
      else ([Report], p, d))"

fun daemon_rounds :: "(u32 \<Rightarrow> int) list \<Rightarrow> phy \<times> enet \<Rightarrow> daemon_event list \<times> phy \<times> enet" where
  "daemon_rounds [] st = ([], st)"
| "daemon_rounds (rd # rds) st =
     (let (es, st) = vEthernetDaemon_round rd st; (fs, st) = daemon_rounds rds st in (es @ fs, st))"

section \<open>Start of the controller\<close>

text \<open>The divider of the management clock.\<close>

definition ethclkdiv :: "u8 list" where
  "ethclkdiv = [4, 6, 8, 10, 14, 20, 28, 36, 40, 44, 48, 52, 56, 60, 64]"

definition mac_clock :: "u32 \<Rightarrow> enet \<Rightarrow> enet" where
  "mac_clock SystemCoreClock d =
     (let tmp = SystemCoreClock div 2500000;
          tout = of_nat (length (takeWhile (\<lambda>c. ucast c < tmp) ethclkdiv)) :: u32
      in d\<lparr>IntEnable := 0, MCFG := push_bit 2 (tout AND 0x0F)\<rparr>)"

text \<open>
  The reset: the reset bits of \<open>MAC1\<close> and \<open>Command\<close> are written, then the loop waits. What the controller does with
  its registers meanwhile is the parameter \<open>hw\<close>.
\<close>

definition mac_reset :: "(enet \<Rightarrow> enet) \<Rightarrow> enet \<Rightarrow> enet" where
  "mac_reset hw d = hw (d\<lparr>MAC1 := 0xCF00, Command := 0x38\<rparr>)"

definition mac_configure :: "u8 list \<Rightarrow> enet \<Rightarrow> enet" where
  "mac_configure hwaddr d =
     d\<lparr>MAC1 := 2, MAC2 := 0x31, Command := 0x600, IPGT := EMAC_IPGT_FULL_DUP, SUPP := EMAC_SUPP_SPEED,
       IPGR := 0x0C12, MAXF := ucast EMAC_ETH_MAX_FLEN, CLRT := 0x370F,
       SA0 := push_bit 8 (ucast (hwaddr ! 5)) OR ucast (hwaddr ! 4),
       SA1 := push_bit 8 (ucast (hwaddr ! 3)) OR ucast (hwaddr ! 2),
       SA2 := push_bit 8 (ucast (hwaddr ! 1)) OR ucast (hwaddr ! 0)\<rparr>"

definition mac_enable :: "enet \<Rightarrow> enet" where
  "mac_enable d =
     (let d = d\<lparr>RxFilterCtrl := 0x25, Command := Command d AND NOT 0x80\<rparr>;
          d = write_IntClear 0xFFFF d;
          d = d\<lparr>IntEnable := EMAC_INT_TX_UNDERRUN OR EMAC_INT_TX_ERR OR EMAC_INT_TX_DONE OR
                 (EMAC_INT_RX_OVERRUN OR EMAC_INT_RX_ERR OR EMAC_INT_RX_DONE)\<rparr>
      in d\<lparr>MAC1 := MAC1 d OR EMAC_MAC1_REC_EN, Command := Command d OR (2 OR EMAC_CR_RX_EN)\<rparr>)"

text \<open>A transceiver that does not answer ends in \<open>return (false)\<close>, and 0 is \<open>ERR_OK\<close>.\<close>

definition low_level_init :: "libc_malloc \<Rightarrow> (enet \<Rightarrow> enet) \<Rightarrow> u32 \<Rightarrow> bool \<Rightarrow> u8 list \<Rightarrow> enet \<Rightarrow> (err_t \<times> enet) option" where
  "low_level_init malloc hw SystemCoreClock phy_ok hwaddr d =
     (let d = mac_clock SystemCoreClock d in
      if \<not> phy_ok then Some (ERR_OK, d)
      else do {
        (e, d) \<leftarrow> lpc_rx_setup malloc (lpc_tx_setup (mac_configure hwaddr (mac_reset hw d)));
        Some (if e \<noteq> ERR_OK then (ERR_BUF, d) else (ERR_OK, mac_enable d))
      })"

text \<open>
  The station address of \<open>lpc_enetif_init\<close>: \<open>boardmac\<close> is an array of \<open>unsigned int\<close> that \<open>sscanf\<close> fills
  from \<open>MAC_ADDR\<close>, and its first six bytes, in the byte order of the processor, become the address.
\<close>

definition le_bytes :: "u32 \<Rightarrow> u8 list" where
  "le_bytes w = map (\<lambda>i. ucast (drop_bit (8 * i) w)) [0..<4]"

definition MAC_ADDR :: "u32 list" where "MAC_ADDR = [0x00, 0x1A, 0x3F, 0x08, 0x80, 0x00]"

definition station_address :: "u32 list \<Rightarrow> u8 list" where
  "station_address boardmac = take 6 (concat (map le_bytes boardmac))"

definition lpc_enetif_init :: "libc_malloc \<Rightarrow> (enet \<Rightarrow> enet) \<Rightarrow> u32 \<Rightarrow> bool \<Rightarrow> enet \<Rightarrow> (err_t \<times> enet) option" where
  "lpc_enetif_init malloc hw SystemCoreClock phy_ok d =
     low_level_init malloc hw SystemCoreClock phy_ok (station_address MAC_ADDR) d"

end
