(* ===== verification/Phy_Link.thy ===== *)
theory Phy_Link
  imports Phy
begin

unbundle bit_operations_syntax

text \<open>
  The link monitor: what the transceiver reports is the state of the driver after three polls, the
  Ethernet task reports every change once and sets the controller to the speed and duplex mode of the link.
\<close>

section \<open>The bits of the status word\<close>

lemma mask_or: "(x OR a) AND m = (x AND m) OR (a AND m)" for x :: u32
  by (rule bit.conj_disj_distrib2)

lemma mask_and: "(x AND a) AND m = x AND (a AND m)" for x :: u32
  by (rule and.assoc)

lemma absorb_or: "(x AND m) OR m = m" for x :: u32
  by (rule bit_eqI) (auto simp: bit_simps)

lemmas link_defs = link_bits_def PHY_LINK_BUSY_def PHY_LINK_CHANGED_def PHY_LINK_CONNECTED_def PHY_LINK_SPEED100_def PHY_LINK_FULLDUPLX_def

lemmas speed_defs = LAN8_SPEEDMASK_def LAN8_SPEED10F_def LAN8_SPEED100H_def LAN8_SPEED10H_def

text \<open>What the two registers of the transceiver say about the link.\<close>

definition link_seen :: "u16 \<Rightarrow> u16 \<Rightarrow> u32" where
  "link_seen bmsr sd = (if bmsr AND EMAC_PHY_BMSR_LINK_ESTABLISHED \<noteq> 0 then PHY_LINK_CONNECTED else 0)
     OR (if sd AND LAN8_SPEEDMASK = LAN8_SPEED10F then PHY_LINK_FULLDUPLX
         else if sd AND LAN8_SPEEDMASK = LAN8_SPEED100H then PHY_LINK_SPEED100
         else if sd AND LAN8_SPEEDMASK = LAN8_SPEED10H then 0 else PHY_LINK_SPEED100 OR PHY_LINK_FULLDUPLX)"

lemma link_seen_bits: "link_seen a b AND link_bits = link_seen a b"
  by (simp add: link_seen_def link_defs)

lemma update_effect:
  assumes "physts p AND PHY_LINK_CHANGED = 0"
  shows "let q = smsc_update_phy_sts a b p in physts q AND link_bits = link_seen a b \<and> olddphysts q AND link_bits = link_seen a b
    \<and> (physts q AND PHY_LINK_CHANGED \<noteq> 0 \<longleftrightarrow> link_seen a b \<noteq> olddphysts p AND link_bits)
    \<and> phyustate q = phyustate p \<and> physts q AND PHY_LINK_BUSY = physts p AND PHY_LINK_BUSY"
proof -
  have c: "physts p AND 4 = 0" using assms by (simp add: link_defs)
  define v where "v = (let v = (if a AND EMAC_PHY_BMSR_LINK_ESTABLISHED \<noteq> 0 then physts p OR PHY_LINK_CONNECTED else physts p AND NOT PHY_LINK_CONNECTED);
      sd = b AND LAN8_SPEEDMASK in
      if sd = LAN8_SPEED10F then (v AND NOT PHY_LINK_SPEED100) OR PHY_LINK_FULLDUPLX
      else if sd = LAN8_SPEED100H then (v OR PHY_LINK_SPEED100) AND NOT PHY_LINK_FULLDUPLX
      else if sd = LAN8_SPEED10H then (v AND NOT PHY_LINK_SPEED100) AND NOT PHY_LINK_FULLDUPLX
      else (v OR PHY_LINK_SPEED100) OR PHY_LINK_FULLDUPLX)"
  have q: "smsc_update_phy_sts a b p = (if v AND link_bits \<noteq> olddphysts p AND link_bits
      then p\<lparr>physts := v OR PHY_LINK_CHANGED, olddphysts := v\<rparr> else p\<lparr>physts := v\<rparr>)"
    by (simp only: smsc_update_phy_sts_def v_def Let_def)
  have v: "v AND link_bits = link_seen a b" "v AND PHY_LINK_CHANGED = 0" "v AND PHY_LINK_BUSY = physts p AND PHY_LINK_BUSY"
    using c unfolding v_def link_seen_def Let_def link_defs by (simp_all add: mask_or mask_and or.assoc absorb_or)
  moreover have "PHY_LINK_CHANGED AND link_bits = 0" "PHY_LINK_CHANGED AND PHY_LINK_CHANGED \<noteq> 0" "PHY_LINK_CHANGED AND PHY_LINK_BUSY = 0"
    by (simp_all add: link_defs)
  ultimately show ?thesis unfolding q Let_def by (simp add: mask_or)
qed

section \<open>Three polls\<close>

text \<open>
  What the registers of the transceiver and of the controller mean, by their data sheets and not by the code: bit 2
  of BMSR (register 1) says that there is a link, bit 1 of PHYSTS (register 0x10) that it runs at 10 Mbit/s, bit 2
  of PHYSTS that it is full duplex. The driver keeps them as the flags 8, 16 (100 Mbit/s) and 32 (full duplex).
\<close>

definition link_flags :: "int \<Rightarrow> int \<Rightarrow> u32" where
  "link_flags bmsr phy_sts = (if bit bmsr 2 then 8 else 0) + (if bit phy_sts 1 then 0 else 16) + (if bit phy_sts 2 then 32 else 0)"

definition link_settled :: "phy \<Rightarrow> bool" where
  "link_settled p \<longleftrightarrow> phyustate p = 0 \<and> olddphysts p AND 0x38 = physts p AND 0x38"

text \<open>The controller at the speed and in the duplex mode of the link: the values of the user manual.\<close>

definition set_to_link :: "bool \<Rightarrow> bool \<Rightarrow> enet \<Rightarrow> enet" where
  "set_to_link fast full d = d\<lparr>SUPP := (if fast then 0x100 else 0), IPGT := (if full then 0x15 else 0x12),
     MAC2 := (if full then MAC2 d OR 1 else MAC2 d AND NOT 1),
     Command := (if full then Command d OR 0x400 else Command d AND NOT 0x400)\<rparr>"

lemma and_power: "(x :: u16) AND 2 ^ k = (if bit x k then 2 ^ k else 0)"
  by (rule bit_eqI) (auto simp: bit_simps)

lemma and_six: "(x :: u16) AND 6 = (if bit x 1 then 2 else 0) OR (if bit x 2 then 4 else 0)"
proof -
  have "x AND 6 = (x AND 2 ^ 1) OR (x AND 2 ^ 2)" by (simp flip: bit.conj_disj_distrib)
  then show ?thesis by (simp only: and_power) simp
qed

lemma and_four: "(x :: u16) AND 4 \<noteq> 0 \<longleftrightarrow> bit x 2"
  using and_exp_eq_0_iff_not_bit [of x 2] by simp

lemma link_seen_flags: "link_seen (of_int b) (ucast (of_int r :: u32)) = link_flags b r"
proof -
  have "bit (of_int b :: u16) 2 = bit b 2" "bit (ucast (of_int r :: u32) :: u16) 1 = bit r 1" "bit (ucast (of_int r :: u32) :: u16) 2 = bit r 2"
    by (simp_all add: bit_simps)
  then show ?thesis
    by (simp add: link_seen_def link_flags_def and_six and_four EMAC_PHY_BMSR_LINK_ESTABLISHED_def link_defs speed_defs)
qed

lemma flags_bits: "link_flags b r AND 8 \<noteq> 0 \<longleftrightarrow> bit b 2" "link_flags b r AND 16 \<noteq> 0 \<longleftrightarrow> \<not> bit r 1" "link_flags b r AND 32 \<noteq> 0 \<longleftrightarrow> bit r 2"
  by (simp_all add: link_flags_def)

lemma set_to_link_code:
  "lpc_emac_set_duplex full (lpc_emac_set_speed fast d) = set_to_link fast full d"
  by (simp add: set_to_link_def lpc_emac_set_duplex_def lpc_emac_set_speed_def EMAC_IPGT_FULL_DUP_def EMAC_IPGT_HALF_DUP_def
      EMAC_MAC2_FULL_DUP_def EMAC_CR_FULL_DUP_def EMAC_SUPP_SPEED_def)

lemma link_bit: "physts q AND link_bits = v \<Longrightarrow> k AND link_bits = k \<Longrightarrow> physts q AND k = v AND k"
  by (metis and.assoc and.commute)

lemma three_rounds:
  assumes s: "link_settled p" and b: "ra 1 \<noteq> -1" and v: "v = link_flags (ra 1) (rb 0x10)"
  shows "\<exists>p'. daemon_rounds [ra, rb, rc] (p, d) =
      ([Report, Report] @ (if v = physts p AND 0x38 then [] else [if bit (ra 1) 2 then Link_up else Link_down, Wait_ticks 250]) @ [Report],
       p', if v \<noteq> physts p AND 0x38 \<and> bit (ra 1) 2 then set_to_link (\<not> bit (rb 0x10) 1) (bit (rb 0x10) 2) d else d)
    \<and> link_settled p' \<and> physts p' AND 0x38 = v"
proof -
  let ?p1 = "p\<lparr>sts := ra 1, physts := (physts p AND NOT PHY_LINK_CHANGED) OR PHY_LINK_BUSY, phyustate := 1\<rparr>"
  let ?p2 = "?p1\<lparr>temp := of_int (rb 0x10), phyustate := 2\<rparr>"
  let ?p3 = "?p2\<lparr>physts := physts ?p2 AND NOT PHY_LINK_BUSY\<rparr>"
  let ?p4 = "smsc_update_phy_sts (of_int (ra 1)) (ucast (of_int (rb 0x10) :: u32)) ?p3"
  have lk: "link_bits = 0x38" by (simp add: link_defs)
  have c1: "physts ?p1 AND PHY_LINK_CHANGED = 0" "physts ?p2 AND PHY_LINK_CHANGED = 0" by (simp_all add: link_defs mask_or mask_and)
  have c3: "physts ?p3 AND PHY_LINK_CHANGED = 0" by (simp add: link_defs mask_or mask_and)
  note u = update_effect [OF c3, of "of_int (ra 1)" "ucast (of_int (rb 0x10) :: u32)", unfolded link_seen_flags lk, folded v, unfolded Let_def]
  have one: "vEthernetDaemon_round ra (p, d) = ([Report], ?p1, d)"
    using s b c1(1) by (simp add: vEthernetDaemon_round_def lpcPHYStsPoll_def link_settled_def EMAC_PHY_REG_BMSR_def Let_def)
  have two: "vEthernetDaemon_round rb (?p1, d) = ([Report], ?p2, d)"
    using c1(2) by (simp add: vEthernetDaemon_round_def lpcPHYStsPoll_def DP83848_PHYSTS_REG_def Let_def)
  have old: "olddphysts p AND 0x38 = physts p AND 0x38" using s by (simp add: link_settled_def)
  let ?p' = "?p4\<lparr>phyustate := 0\<rparr>"
  have ch: "physts ?p' AND PHY_LINK_CHANGED \<noteq> 0 \<longleftrightarrow> v \<noteq> physts p AND 0x38" using u old by simp
  have lb: "physts ?p' AND link_bits = v" using u lk by simp
  have "physts ?p' AND PHY_LINK_CONNECTED = v AND PHY_LINK_CONNECTED" "physts ?p' AND PHY_LINK_SPEED100 = v AND PHY_LINK_SPEED100"
    "physts ?p' AND PHY_LINK_FULLDUPLX = v AND PHY_LINK_FULLDUPLX"
    by (rule link_bit [OF lb], simp add: link_defs)+
  then have bits: "physts ?p' AND PHY_LINK_CONNECTED \<noteq> 0 \<longleftrightarrow> bit (ra 1) 2" "physts ?p' AND PHY_LINK_SPEED100 \<noteq> 0 \<longleftrightarrow> \<not> bit (rb 0x10) 1"
    "physts ?p' AND PHY_LINK_FULLDUPLX \<noteq> 0 \<longleftrightarrow> bit (rb 0x10) 2"
    unfolding v PHY_LINK_CONNECTED_def PHY_LINK_SPEED100_def PHY_LINK_FULLDUPLX_def by (simp_all only: flags_bits)
  have poll: "lpcPHYStsPoll rc ?p2 = (physts ?p', ?p')" by (simp add: lpcPHYStsPoll_def Let_def)
  have three: "vEthernetDaemon_round rc (?p2, d) =
      ((if v = physts p AND 0x38 then [] else [if bit (ra 1) 2 then Link_up else Link_down, Wait_ticks 250]) @ [Report],
       ?p', if v \<noteq> physts p AND 0x38 \<and> bit (ra 1) 2 then set_to_link (\<not> bit (rb 0x10) 1) (bit (rb 0x10) 2) d else d)"
    unfolding vEthernetDaemon_round_def fst_conv snd_conv poll prod.case Let_def ch bits set_to_link_code by simp
  have "link_settled ?p'" using u lb lk by (simp add: link_settled_def)
  moreover have "daemon_rounds [ra, rb, rc] (p, d) =
      ([Report, Report] @ (if v = physts p AND 0x38 then [] else [if bit (ra 1) 2 then Link_up else Link_down, Wait_ticks 250]) @ [Report],
       ?p', if v \<noteq> physts p AND 0x38 \<and> bit (ra 1) 2 then set_to_link (\<not> bit (rb 0x10) 1) (bit (rb 0x10) 2) d else d)"
    by (simp only: daemon_rounds.simps one two three Let_def prod.case append.simps append_Nil2)
  ultimately show ?thesis using lb lk by (intro exI [of _ ?p']) simp
qed

end
