(* ===== verification/Emac_Properties.thy ===== *)
theory Emac_Properties
  imports Emac_Transmit Phy_Link
begin

unbundle bit_operations_syntax

text \<open>
  The properties of the Ethernet driver and of its link monitor, with a driver state for the witnesses: a
  ring of four receive buffers, an idle transmit ring, a packet of two pbufs in SRAM and one in flash.
\<close>

section \<open>A driver state\<close>

definition demo_rx_pbuf :: "u32 \<Rightarrow> u16 \<Rightarrow> pbuf" where
  "demo_rx_pbuf p l = \<lparr>p_next = 0, payload = p + 16, tot_len = l, p_len = l, type_internal = 0x80, p_flags = 0, p_ref = 1, if_idx = 0\<rparr>"

definition demo_net :: lwip where
  "demo_net = \<lparr>pbufs = [0x10000000 \<mapsto> demo_rx_pbuf 0x10000000 1536, 0x10000800 \<mapsto> demo_rx_pbuf 0x10000800 1536,
       0x10001000 \<mapsto> demo_rx_pbuf 0x10001000 60, 0x10001800 \<mapsto> demo_rx_pbuf 0x10001800 1536,
       0x10004000 \<mapsto> (demo_rx_pbuf 0x10004000 4)\<lparr>p_next := 0x10004800, tot_len := 7\<rparr>, 0x10004800 \<mapsto> demo_rx_pbuf 0x10004800 3,
       0x10005000 \<mapsto> (demo_rx_pbuf 0x10005000 5)\<lparr>payload := 0x2000\<rparr>],
     bytes = (\<lambda>a. ucast a),
     live = [(0x10000000, 0x610), (0x10000800, 0x610), (0x10001000, 0x610), (0x10001800, 0x610), (0x10004000, 0x20),
       (0x10004800, 0x20), (0x10005000, 0x20)], mallocs = 0\<rparr>"

definition demo_enet :: enet where
  "demo_enet = \<lparr>prxs = replicate 4 \<lparr>Info = 63, HashCRC = 0\<rparr>,
     prxd = map (\<lambda>a. \<lparr>Packet = a + 16, Ctrl = 0x800005FF\<rparr>) [0x10000000, 0x10000800, 0x10001000, 0x10001800],
     ptxs = [0, 0, 0], ptxd = replicate 3 \<lparr>Packet = 0, Ctrl = 0\<rparr>,
     rxb = [0x10000000, 0x10000800, 0x10001000, 0x10001800], txb = [0, 0, 0],
     rxdescfree = 0, rxdescnextindex = 1, lasttxidx = 0, tx_signals = 0, MAC1 = 0, MAC2 = 0, IPGT = 0, IPGR = 0, CLRT = 0, MAXF = 0,
     SUPP = 0, MCFG = 0, SA0 = 0, SA1 = 0, SA2 = 0, RxFilterCtrl = 0, IntEnable = 0, Command = 0, IntStatus = 8,
     RxDescriptor = 0, RxDescriptorNumber = 3, RxStatus = 0, RxProduceIndex = 2, RxConsumeIndex = 1,
     TxDescriptor = 0, TxDescriptorNumber = 2, TxStatus = 0, TxProduceIndex = 0, TxConsumeIndex = 0,
     prxd_at = 0x20080000, prxs_at = 0x20080020, ptxd_at = 0x20080040, ptxs_at = 0x20080058, net = demo_net\<rparr>"

text \<open>An allocator of up to four blocks.\<close>

definition demo_heap :: libc_malloc where
  "demo_heap x n lv = (let a = 0x10006000 + of_nat x * 0x800 in
     if x < 4 \<and> n \<le> 0x800 \<and> (\<forall>b\<in>set lv. apart a n (fst b) (snd b)) then a else 0)"

lemma demo_heap_some:
  assumes "demo_heap x n lv \<noteq> 0"
  shows "x < 4" and "unat (demo_heap x n lv) = 0x10006000 + x * 0x800" and "unat n \<le> 0x800" and "\<forall>b\<in>set lv. apart (demo_heap x n lv) n (fst b) (snd b)"
proof -
  have x: "x < 4" "n \<le> 0x800" "\<forall>b\<in>set lv. apart (0x10006000 + of_nat x * 0x800) n (fst b) (snd b)"
    "demo_heap x n lv = 0x10006000 + of_nat x * 0x800" using assms by (auto simp: demo_heap_def Let_def split: if_splits)
  have "x = 0 \<or> x = 1 \<or> x = 2 \<or> x = 3" using x(1) by linarith
  then show "unat (demo_heap x n lv) = 0x10006000 + x * 0x800" unfolding x(4) by auto
  show "x < 4" by (rule x(1))
  show "unat n \<le> 0x800" using x(2) by (simp add: word_le_nat_alt)
  show "\<forall>b\<in>set lv. apart (demo_heap x n lv) n (fst b) (snd b)" using x(3,4) by simp
qed

lemma demo_c_malloc: "c_malloc demo_heap"
  unfolding c_malloc_def
proof (intro allI impI conjI)
  fix x n lv assume a: "demo_heap x n lv \<noteq> 0"
  have "unat (demo_heap x n lv) = 4 * (0x4001800 + x * 0x200)" unfolding demo_heap_some(2) [OF a] by simp
  then show "unat (demo_heap x n lv) mod 4 = 0" by (simp only: mod_mult_self1_is_0)
  show "unat (demo_heap x n lv) + unat n < 2 ^ 32" using demo_heap_some [OF a] by simp
  show "\<forall>b\<in>set lv. apart (demo_heap x n lv) n (fst b) (snd b)" by (rule demo_heap_some(4) [OF a])
qed

lemma demo_rx_ring: "rx_ring demo_enet"
proof -
  have "rx_buffer demo_net (rxb demo_enet ! i) (prxd demo_enet ! i)" if "i < 4" for i
  proof -
    have "i = 0 \<or> i = 1 \<or> i = 2 \<or> i = 3" using that by linarith
    then show ?thesis
      by (elim disjE) (simp_all add: rx_buffer_def demo_enet_def demo_net_def demo_rx_pbuf_def pbuf_get_allocsrc_def PBUF_TYPE_ALLOC_SRC_MASK_def)
  qed
  then show ?thesis by (simp add: rx_ring_def ring_shape_def demo_enet_def)
qed

section \<open>Reception\<close>

text \<open>
  C35. Reception delivers the frame. With the ring in order and a good frame waiting, \<open>lpc_low_level_input\<close> returns a
  new pbuf outside of the ring, a well-formed packet that holds exactly the bytes of the frame without its check
  sum; the ring is in order again, one place further, with the same buffers. The buffer keeps the
  length of the frame in its \<open>len\<close>. When there is no memory for the copy a null pointer is followed.
\<close>
theorem receive_delivers_frame:
  assumes "c_malloc malloc" and "rx_ring d" and "good_frame d"
  shows "\<exists>p s. pbuf_alloc malloc PBUF_RAW (of_nat (frame_length d)) PBUF_RAM (net d) = Some (p, s)
    \<and> (if p = 0 then lpc_low_level_input malloc d = None
       else \<exists>d'. lpc_low_level_input malloc d = Some (p, d') \<and> packet (net d') p [p]
         \<and> content (net d') [p] = bytes_at (bytes (net d)) (Packet (prxd d ! unat (RxConsumeIndex d))) (of_nat (frame_length d))
         \<and> p \<notin> set (rxb d) \<and> rx_ring d' \<and> rxb d' = rxb d \<and> prxd d' = prxd d
         \<and> RxConsumeIndex d' = (if RxConsumeIndex d = 3 then 0 else RxConsumeIndex d + 1)
         \<and> map_option p_len (pbufs (net d') (rxb d ! unat (RxConsumeIndex d))) = Some (of_nat (frame_length d)))"
  by (rule receive_good [OF assms])

text \<open>A frame of 60 bytes in the second buffer.\<close>

theorem receive_delivers_frame_witness:
  "\<exists>d'. lpc_low_level_input demo_heap demo_enet = Some (0x10006000, d') \<and> rx_ring d' \<and> RxConsumeIndex d' = 2
    \<and> content (net d') [0x10006000] = bytes_at (\<lambda>a. ucast a) 0x10000810 60"
proof -
  have good: "good_frame demo_enet" and len: "frame_length demo_enet = 60"
    by (simp_all add: good_frame_def frame_length_def demo_enet_def rx_errors_def EMAC_RINFO_CRC_ERR_def EMAC_RINFO_SYM_ERR_def
        EMAC_RINFO_ALIGN_ERR_def EMAC_RINFO_LEN_ERR_def EMAC_RINFO_SIZE_def EMAC_INT_RX_OVERRUN_def EMAC_INT_RX_ERR_def)
  have f: "RxConsumeIndex demo_enet = 1" "Packet (prxd demo_enet ! 1) = 0x10000810" "bytes (net demo_enet) = (\<lambda>a. ucast a)"
    "net demo_enet = demo_net" by (simp_all add: demo_enet_def demo_net_def)
  have "fst (the (pbuf_alloc demo_heap PBUF_RAW 60 PBUF_RAM demo_net)) = 0x10006000"
    by (simp add: pbuf_alloc_def Let_def SIZEOF_STRUCT_PBUF_def LWIP_MEM_ALIGN_SIZE_def MEM_ALIGNMENT_def mem_malloc_def demo_heap_def
        demo_net_def apart_def)
  then show ?thesis using receive_delivers_frame [OF demo_c_malloc demo_rx_ring good] f len by (auto split: if_splits)
qed

text \<open>
  A frame with errors is dropped. Nothing is allocated or freed, its buffer is queued again in the same place
  and the ring stays in order; the size in the descriptor is the \<open>len\<close> of the pbuf.
\<close>
theorem bad_frame_requeued:
  assumes "rx_ring d" and "bad_frame d" and "pbufs (net d) (rxb d ! unat (RxConsumeIndex d)) = Some b"
  shows "\<exists>d'. lpc_low_level_input malloc d = Some (0, d') \<and> net d' = net d \<and> rx_ring d' \<and> rxb d' = rxb d
    \<and> prxd d' = (prxd d)[unat (RxConsumeIndex d) := \<lparr>Packet = payload b, Ctrl = EMAC_RCTRL_INT OR EMAC_RCTRL_SIZE (ucast (p_len b) - 1)\<rparr>]
    \<and> RxConsumeIndex d' = (if RxConsumeIndex d = 3 then 0 else RxConsumeIndex d + 1)"
  by (rule receive_bad [OF assms])

text \<open>After a good frame of 60 bytes in the same buffer the descriptor only offers 60 bytes for the next one.\<close>

theorem bad_frame_requeued_witness:
  "\<exists>d'. lpc_low_level_input demo_heap (demo_enet\<lparr>RxConsumeIndex := 2, rxdescnextindex := 2, RxProduceIndex := 3,
      prxs := replicate 4 \<lparr>Info = 0x00800063, HashCRC = 0\<rparr>\<rparr>) = Some (0, d') \<and> Ctrl (prxd d' ! 2) = 0x8000003B"
proof -
  let ?d = "demo_enet\<lparr>RxConsumeIndex := 2, rxdescnextindex := 2, RxProduceIndex := 3, prxs := replicate 4 \<lparr>Info = 0x00800063, HashCRC = 0\<rparr>\<rparr>"
  have "rx_ring ?d" using demo_rx_ring by (simp add: rx_ring_def ring_shape_def)
  moreover have "bad_frame ?d" by (simp add: bad_frame_def demo_enet_def rx_errors_def EMAC_RINFO_CRC_ERR_def EMAC_RINFO_SYM_ERR_def
        EMAC_RINFO_ALIGN_ERR_def EMAC_RINFO_LEN_ERR_def EMAC_INT_RX_OVERRUN_def EMAC_INT_RX_ERR_def)
  moreover have "pbufs (net ?d) (rxb ?d ! unat (RxConsumeIndex ?d)) = Some (demo_rx_pbuf 0x10001000 60)" by (simp add: demo_enet_def demo_net_def)
  ultimately show ?thesis using bad_frame_requeued [of ?d "demo_rx_pbuf 0x10001000 60" demo_heap]
    by (auto simp: demo_enet_def demo_rx_pbuf_def EMAC_RCTRL_INT_def EMAC_RCTRL_SIZE_def)
qed



section \<open>Start-up\<close>








section \<open>Transmission\<close>

text \<open>
  C38. Frames are sent from where they are and given back. From an idle ring, for every packet of one or two pbufs that
  the controller can reach, \<open>lpc_low_level_output\<close> does not wait, takes a reference, and queues one
  descriptor per pbuf, in order, only the last marked as the last and with the packet to give back; when the
  controller has sent them, \<open>lpc_tx_reclaim\<close> gives the reference back: the packets are what they
  were before and the ring is idle again, wherever in the ring the frame was.
\<close>
theorem sent_frame_given_back:
  assumes "tx_idle d" and "packet (net d) p qs" and "dma_safe (net d) qs" and "length qs \<le> 2"
    and "pbufs (net d) p = Some b" and "p_ref b \<noteq> 0"
  shows "\<exists>d1 d2. lpc_low_level_output malloc env p d = Some (ERR_OK, d1)
    \<and> queued p qs (unat (TxProduceIndex d)) (d\<lparr>net := upd_pb p (p_ref_update (\<lambda>r. r + 1)) (net d)\<rparr>) d1
    \<and> lpc_tx_reclaim (d1\<lparr>TxConsumeIndex := TxProduceIndex d1\<rparr>) = Some d2
    \<and> net d2 = net d \<and> tx_idle d2 \<and> tx_signals d2 = tx_signals d + length qs"
  by (rule round_trip [OF assms])

lemma demo_tx: "tx_idle demo_enet" "packet demo_net 0x10004000 [0x10004000, 0x10004800]" "dma_safe demo_net [0x10004000, 0x10004800]"
  "packet demo_net 0x10005000 [0x10005000]" "\<not> dma_safe demo_net [0x10005000]" "net demo_enet = demo_net"
  by (simp_all add: tx_idle_def tx_ring_def demo_enet_def packet_def demo_net_def demo_rx_pbuf_def dma_safe_def
      controller_memory_def area_len_def)

theorem sent_frame_given_back_witness:
  "\<exists>d1 d2. lpc_low_level_output demo_heap (\<lambda>_ d. d) 0x10004000 demo_enet = Some (ERR_OK, d1) \<and> TxProduceIndex d1 = 2
    \<and> lpc_tx_reclaim (d1\<lparr>TxConsumeIndex := 2\<rparr>) = Some d2 \<and> net d2 = demo_net \<and> tx_signals d2 = 2"
proof -
  obtain b where b: "pbufs (net demo_enet) 0x10004000 = Some b" "p_ref b \<noteq> 0" by (simp add: demo_enet_def demo_net_def demo_rx_pbuf_def)
  have "TxProduceIndex demo_enet = 0" "tx_signals demo_enet = 0" by (simp_all add: demo_enet_def)
  then show ?thesis
    using sent_frame_given_back [OF demo_tx(1) _ _ _ b, of "[0x10004000, 0x10004800]" demo_heap "\<lambda>_ d. d"] demo_tx
    by (auto simp: queued_def slot_def)
qed



text \<open>
  Three frames fill the ring of three descriptors without being waited for: from the idle ring at its start, every
  three single pbufs are accepted, although a ring of three can only hold two. The indices then are equal again,
  so that the controller takes the ring for empty and \<open>lpc_tx_reclaim\<close> gives none of them back, while
  \<open>lpc_tx_ready\<close> reports three free descriptors.
\<close>
theorem full_ring_looks_empty:
  assumes idle: "tx_idle d" "TxConsumeIndex d = 0" and p: "packet (net d) p [p]" "packet (net d) q [q]" "packet (net d) r [r]"
    and safe: "dma_safe (net d) [p]" "dma_safe (net d) [q]" "dma_safe (net d) [r]"
  shows "\<exists>d'. do { (_, d) \<leftarrow> lpc_low_level_output malloc env p d; (_, d) \<leftarrow> lpc_low_level_output malloc env q d; lpc_low_level_output malloc env r d }
      = Some (ERR_OK, d')
    \<and> TxProduceIndex d' = TxConsumeIndex d' \<and> txb d' = [p, q, r] \<and> lpc_tx_reclaim d' = Some d' \<and> lpc_tx_ready d' = 3"
proof -
  have ring: "tx_ring d" "TxProduceIndex d = 0" "lasttxidx d = 0" "txb d = [0, 0, 0]" using idle by (simp_all add: tx_idle_def)
  have "1 \<le> lpc_tx_ready d" using ready_empty [of d] idle ring(2) by simp
  from one_frame [OF ring(1) p(1) safe(1) this, of malloc env] obtain d1 where
    d1: "lpc_low_level_output malloc env p d = Some (ERR_OK, d1)" "net d1 = upd_pb p (p_ref_update (\<lambda>r. r + 1)) (net d)"
    "txb d1 = [p, 0, 0]" "TxProduceIndex d1 = 1" "tx_ring d1" "TxConsumeIndex d1 = 0" "lasttxidx d1 = 0"
    using ring idle by (auto simp: slot_def)
  have "lpc_tx_ready d1 = 3" using d1(4,6) by (simp add: lpc_tx_ready_def EMAC_NUM_TX_FRAG_def)
  then have "1 \<le> lpc_tx_ready d1" by simp
  moreover have "packet (net d1) q [q]" "dma_safe (net d1) [q]" "packet (net d1) r [r]" "dma_safe (net d1) [r]"
    using p safe by (simp_all add: d1(2) packet_ref)
  ultimately obtain d2 where
    d2: "lpc_low_level_output malloc env q d1 = Some (ERR_OK, d2)" "net d2 = upd_pb q (p_ref_update (\<lambda>r. r + 1)) (net d1)"
    "txb d2 = [p, q, 0]" "TxProduceIndex d2 = 2" "tx_ring d2" "TxConsumeIndex d2 = 0" "lasttxidx d2 = 0" "packet (net d2) r [r]" "dma_safe (net d2) [r]"
    using one_frame [OF d1(5), of q malloc env] d1 by (auto simp: slot_def packet_ref)
  have "lpc_tx_ready d2 = 4" using d2(4,6) by (simp add: lpc_tx_ready_def EMAC_NUM_TX_FRAG_def)
  then have "1 \<le> lpc_tx_ready d2" by simp
  from one_frame [OF d2(5,8,9) this, of malloc env] obtain d3 where
    d3: "lpc_low_level_output malloc env r d2 = Some (ERR_OK, d3)" "txb d3 = [p, q, r]" "TxProduceIndex d3 = 0" "TxConsumeIndex d3 = 0" "lasttxidx d3 = 0"
    using d2 by (auto simp: slot_def)
  have "lpc_tx_reclaim d3 = Some d3" by (rule reclaim_done) (use d3 in simp)
  then show ?thesis using d1(1) d2(1) d3 ready_empty [of d3] by simp
qed

section \<open>The link\<close>

text \<open>
  C40. The link is followed. When the read of BMSR is answered, three rounds of the Ethernet task make the state of the driver
  what BMSR and PHYSTS said. A change is reported to the stack once, as up or down by bit 2 of BMSR, and on a link that
  came up the registers SUPP, IPGT, MAC2 and Command of the controller get the values of its speed and
  duplex mode; without a change nothing is reported and nothing is set. (When the read of BMSR times out,
  which is -1, the driver stays in its first state and a change that it has reported before is reported again.)
\<close>
theorem link_followed:
  assumes "link_settled p" and "ra 1 \<noteq> -1"
  shows "\<exists>p'. daemon_rounds [ra, rb, rc] (p, d) =
      ([Report, Report] @ (if link_flags (ra 1) (rb 0x10) = physts p AND 0x38 then []
           else [if bit (ra 1) 2 then Link_up else Link_down, Wait_ticks 250]) @ [Report],
       p', if link_flags (ra 1) (rb 0x10) \<noteq> physts p AND 0x38 \<and> bit (ra 1) 2
           then set_to_link (\<not> bit (rb 0x10) 1) (bit (rb 0x10) 2) d else d)
    \<and> link_settled p' \<and> physts p' AND 0x38 = link_flags (ra 1) (rb 0x10)"
  by (rule three_rounds [where ra = ra and rb = rb, OF assms refl])

text \<open>A cable is plugged in to a switch of 10 Mbit/s and full duplex.\<close>

theorem link_followed_witness:
  "\<exists>p'. daemon_rounds [\<lambda>_. 0x782D, \<lambda>_. 6, \<lambda>_. 0] (\<lparr>physts = 0, olddphysts = 0, phyustate = 0, sts = 0, temp = 0\<rparr>, demo_enet)
    = ([Report, Report, Link_up, Wait_ticks 250, Report], p', demo_enet\<lparr>SUPP := 0, IPGT := 0x15, MAC2 := 1, Command := 0x400\<rparr>)
    \<and> physts p' AND 0x38 = 0x28"
proof -
  let ?p = "\<lparr>physts = 0, olddphysts = 0, phyustate = 0, sts = 0, temp = 0\<rparr>"
  have s: "link_settled ?p" by (simp add: link_settled_def)
  have b: "bit (0x782D :: int) 2" "bit (6 :: int) 1" "bit (6 :: int) 2" by (simp_all add: bit_iff_odd)
  have v: "link_flags 0x782D 6 = 0x28" using b by (simp add: link_flags_def)
  have d: "set_to_link False True demo_enet = demo_enet\<lparr>SUPP := 0, IPGT := 0x15, MAC2 := 1, Command := 0x400\<rparr>"
    by (simp add: set_to_link_def demo_enet_def)
  from link_followed [where ra = "\<lambda>_. 0x782D" and rb = "\<lambda>_. 6" and rc = "\<lambda>_. 0" and d = demo_enet, OF s] show ?thesis
    unfolding v using b d by auto
qed

text \<open>
  The station address. The six bytes that the controller gets are not those of \<open>MAC_ADDR\<close>,
  00:1A:3F:08:80:00, because \<open>memcpy\<close> takes the first six bytes of an array of words.
\<close>
theorem station_address_mangled:
  "station_address MAC_ADDR = [0, 0, 0, 0, 0x1A, 0]"
  by (simp add: station_address_def MAC_ADDR_def le_bytes_def upt_conv_Cons)

end
