(* ===== verification/Spec2Isabelle.thy ===== *)
theory Spec2Isabelle
  imports FreeRTOS_List_Properties Kernel_Properties Heap4_Properties Queue_Properties Queue_Limits Event_Group_Properties
    Stream_Buffer_Properties Stream_Buffer_Limits App_Uart_Properties App_Config_Properties App_Main_Properties Pbuf_Properties Inet_Chksum_Properties Emac_Properties
begin

text \<open>A verification development of the LPC1768 firmware.\<close>

end
